(* ===== verification/Prelude.thy ===== *)
theory Prelude
  imports Main "HOL-Library.Sublist" "HOL-Library.AList"
begin

text \<open>
  What the components share: the Python operations on sequences and strings that the source
  uses (slices with clamped and negative bounds, \<open>str.startswith\<close>, \<open>str.strip\<close>, \<open>str.split\<close>,
  \<open>str.join\<close>, insertion at an offset), results with an error on the left, and generic lemmas
  on lists. The collection \<open>py_simps\<close> holds the rewrite rules of the Python operations,
  \<open>res_simps\<close> those of the result bind.
\<close>

named_theorems py_simps "rewrite rules for the Python sequence and string operations"
named_theorems res_simps "rewrite rules for results"

section \<open>Results\<close>

text \<open>A computation that may raise: \<open>Inl e\<close> is the raised exception, \<open>Inr v\<close> the value.\<close>

type_synonym ('e, 'a) result = "'e + 'a"

fun bind_res :: "('e, 'a) result \<Rightarrow> ('a \<Rightarrow> ('e, 'b) result) \<Rightarrow> ('e, 'b) result" where
  "bind_res (Inl e) f = Inl e"
| "bind_res (Inr v) f = f v"

lemma bind_res_Inr_iff [res_simps]:
  "bind_res r f = Inr w \<longleftrightarrow> (\<exists>v. r = Inr v \<and> f v = Inr w)"
  by (cases r) auto

lemma bind_res_Inl_iff [res_simps]:
  "bind_res r f = Inl e \<longleftrightarrow> r = Inl e \<or> (\<exists>v. r = Inr v \<and> f v = Inl e)"
  by (cases r) auto

lemma bind_res_cong [fundef_cong]:
  "r = r' \<Longrightarrow> (\<And>v. r' = Inr v \<Longrightarrow> f v = g v) \<Longrightarrow> bind_res r f = bind_res r' g"
  by (cases r') auto

section \<open>Programs\<close>

text \<open>
  A computation on a state that may raise: the state returned with an exception is the one at the
  point where it was raised.
\<close>

type_synonym ('w, 'e, 'a) program = "'w \<Rightarrow> 'w \<times> ('e, 'a) result"

definition return_st :: "'a \<Rightarrow> ('w, 'e, 'a) program" where
  "return_st a w = (w, Inr a)"

definition raise_st :: "'e \<Rightarrow> ('w, 'e, 'a) program" where
  "raise_st e w = (w, Inl e)"

definition bind_st :: "('w, 'e, 'a) program \<Rightarrow> ('a \<Rightarrow> ('w, 'e, 'b) program) \<Rightarrow> ('w, 'e, 'b) program" where
  "bind_st m f w = (case m w of (w', Inl e) \<Rightarrow> (w', Inl e) | (w', Inr a) \<Rightarrow> f a w')"

fun for_each :: "('a \<Rightarrow> ('w, 'e, unit) program) \<Rightarrow> 'a list \<Rightarrow> ('w, 'e, unit) program" where
  "for_each f [] = return_st ()"
| "for_each f (x # xs) = bind_st (f x) (\<lambda>_. for_each f xs)"

text \<open>A result as a program that leaves the state as it is.\<close>

definition lift_res :: "('e, 'a) result \<Rightarrow> ('w, 'e, 'a) program" where
  "lift_res r w = (w, r)"

lemma lift_res_simps [simp]: "lift_res (Inr a) = return_st a" "lift_res (Inl e) = raise_st e"
  by (auto simp: lift_res_def return_st_def raise_st_def)

named_theorems st_simps "rules for a program that returns"

lemma return_st_iff [st_simps]: "return_st a w = (w', Inr b) \<longleftrightarrow> w' = w \<and> b = a"
  by (auto simp: return_st_def)

lemma raise_st_iff [st_simps]: "raise_st e w = (w', Inr b) \<longleftrightarrow> False"
  by (simp add: raise_st_def)

lemma bind_st_iff [st_simps]:
  "bind_st m f w = (w', Inr b) \<longleftrightarrow> (\<exists>w1 a. m w = (w1, Inr a) \<and> f a w1 = (w', Inr b))"
  by (auto simp: bind_st_def split: prod.splits sum.splits)

lemma bind_st_run: "m w = (w1, Inr a) \<Longrightarrow> bind_st m f w = f a w1"
  and bind_st_raise: "m w = (w1, Inl e) \<Longrightarrow> bind_st m f w = (w1, Inl e)"
  by (simp_all add: bind_st_def)

lemma lift_res_iff [st_simps]: "lift_res r w = (w', Inr b) \<longleftrightarrow> w' = w \<and> r = Inr b"
  by (auto simp: lift_res_def)

text \<open>
  What a program does to the state on every path, exceptions included: each step relates the state
  before to the state after by a reflexive and transitive relation.
\<close>

definition stays :: "('w \<Rightarrow> 'w \<Rightarrow> bool) \<Rightarrow> ('w, 'e, 'a) program \<Rightarrow> bool" where
  "stays R m \<longleftrightarrow> (\<forall>w. R w (fst (m w)))"

named_theorems stays_intros "introduction rules for stays"

lemma stays_return [stays_intros]: "reflp R \<Longrightarrow> stays R (return_st a)"
  and stays_raise [stays_intros]: "reflp R \<Longrightarrow> stays R (raise_st e)"
  and stays_lift [stays_intros]: "reflp R \<Longrightarrow> stays R (lift_res r)"
  by (auto simp: stays_def return_st_def raise_st_def lift_res_def reflpD)

lemma stays_bind [stays_intros]:
  assumes "transp R" and "stays R m" and "\<And>a. stays R (f a)"
  shows "stays R (bind_st m f)"
  unfolding stays_def bind_st_def
proof
  fix w
  obtain w' r where m: "m w = (w', r)" by fastforce
  then have 1: "R w w'" using assms(2) by (metis fst_conv stays_def)
  show "R w (fst (case m w of (w', Inl e) \<Rightarrow> (w', Inl e) | (w', Inr a) \<Rightarrow> f a w'))"
  proof (cases r)
    case (Inr a)
    then have "R w' (fst (f a w'))" using assms(3) by (simp add: stays_def)
    with 1 Inr m show ?thesis using assms(1) by (auto elim: transpE)
  qed (use 1 m in auto)
qed

lemma staysD: "stays R m \<Longrightarrow> m w = (w', r) \<Longrightarrow> R w w'"
  unfolding stays_def by (metis fst_conv)

section \<open>Python sequences\<close>

text \<open>
  \<open>xs[i:j]\<close>: a negative bound counts from the end, and both bounds are clamped to the length.
\<close>

definition clamp_bound :: "int \<Rightarrow> int \<Rightarrow> int" where
  "clamp_bound n i = (if i < 0 then max 0 (n + i) else min i n)"

definition py_slice :: "'a list \<Rightarrow> int \<Rightarrow> int \<Rightarrow> 'a list" where
  "py_slice xs i j =
     (let n = int (length xs); a = nat (clamp_bound n i); b = nat (clamp_bound n j)
      in take (b - a) (drop a xs))"

text \<open>\<open>xs.insert(i, x)\<close> for a non-negative \<open>i\<close>: past the end it appends.\<close>

definition py_insert :: "nat \<Rightarrow> 'a \<Rightarrow> 'a list \<Rightarrow> 'a list" where
  "py_insert i x xs = take i xs @ x # drop i xs"

lemma py_slice_nat [py_simps]:
  "py_slice xs (int a) (int b) = take (min b (length xs) - min a (length xs)) (drop a xs)"
  by (cases "a \<le> length xs") (auto simp: py_slice_def clamp_bound_def Let_def min_def)

lemma py_slice_le:
  "a \<le> b \<Longrightarrow> b \<le> length xs \<Longrightarrow> py_slice xs (int a) (int b) = take (b - a) (drop a xs)"
  by (simp add: py_slice_nat)

lemma length_py_slice_le: "length (py_slice xs i j) \<le> length xs"
  by (simp add: py_slice_def Let_def)

lemma length_py_insert [simp]: "length (py_insert i x xs) = Suc (length xs)"
  by (simp add: py_insert_def)

lemma set_py_insert [simp]: "set (py_insert i x xs) = insert x (set xs)"
proof -
  have "set (take i xs) \<union> set (drop i xs) = set xs"
    by (metis append_take_drop_id set_append)
  then show ?thesis by (auto simp: py_insert_def)
qed

lemma split_three: "i \<le> j \<Longrightarrow> xs = take i xs @ take (j - i) (drop i xs) @ drop j xs"
  by (metis append_assoc append_take_drop_id drop_drop le_add_diff_inverse2)

section \<open>Python strings\<close>

text \<open>
  The characters \<open>str.strip()\<close> removes, among the code points a HOL \<open>char\<close> can hold.
\<close>

definition py_space :: "char \<Rightarrow> bool" where
  "py_space c \<longleftrightarrow>
     (let n = of_char c :: nat
      in (9 \<le> n \<and> n \<le> 13) \<or> (28 \<le> n \<and> n \<le> 32) \<or> n = 133 \<or> n = 160)"

definition py_lstrip :: "string \<Rightarrow> string" where
  "py_lstrip s = dropWhile py_space s"

definition py_rstrip :: "string \<Rightarrow> string" where
  "py_rstrip s = rev (dropWhile py_space (rev s))"

definition py_strip :: "string \<Rightarrow> string" where
  "py_strip s = py_rstrip (py_lstrip s)"

definition starts_with :: "string \<Rightarrow> string \<Rightarrow> bool" where
  "starts_with p s \<longleftrightarrow> take (length p) s = p"

definition starts_with_any :: "string list \<Rightarrow> string \<Rightarrow> bool" where
  "starts_with_any ps s \<longleftrightarrow> list_ex (\<lambda>p. starts_with p s) ps"

text \<open>\<open>s.split(c)\<close> for a one-character separator, and \<open>c.join(xs)\<close>.\<close>

fun split_on :: "char \<Rightarrow> string \<Rightarrow> string list" where
  "split_on c [] = [[]]"
| "split_on c (x # xs) =
     (if x = c then [] # split_on c xs
      else (case split_on c xs of [] \<Rightarrow> [[x]] | l # ls \<Rightarrow> (x # l) # ls))"

fun join_with :: "char \<Rightarrow> string list \<Rightarrow> string" where
  "join_with c [] = []"
| "join_with c [l] = l"
| "join_with c (l # ls) = l @ c # join_with c ls"

text \<open>\<open>sep.join(ls)\<close> for a separator string.\<close>

fun py_join :: "string \<Rightarrow> string list \<Rightarrow> string" where
  "py_join sep [] = []"
| "py_join sep [l] = l"
| "py_join sep (l # ls) = l @ sep @ py_join sep ls"

definition newline :: char where
  "newline = CHR 0x0A"

lemma split_on_not_Nil [simp]: "split_on c s \<noteq> []"
  by (induction s) (auto split: list.splits)

lemma join_split [simp]: "join_with c (split_on c s) = s"
proof (induction s)
  case (Cons x xs)
  obtain l ls where ls: "split_on c xs = l # ls"
    by (cases "split_on c xs") auto
  with Cons.IH show ?case by (cases ls) auto
qed simp

lemma split_on_no_sep: "l \<in> set (split_on c s) \<Longrightarrow> c \<notin> set l"
proof (induction s arbitrary: l)
  case (Cons x xs)
  obtain m ms where ms: "split_on c xs = m # ms"
    by (cases "split_on c xs") auto
  with Cons.IH have "\<And>k. k \<in> set (m # ms) \<Longrightarrow> c \<notin> set k" by simp
  with Cons.prems ms show ?case by (auto split: if_splits)
qed simp

lemma split_on_plain [simp]: "c \<notin> set l \<Longrightarrow> split_on c l = [l]"
  by (induction l) auto

lemma split_on_append_sep [simp]:
  "c \<notin> set l \<Longrightarrow> split_on c (l @ c # s) = l # split_on c s"
  by (induction l) auto

lemma split_join:
  "ls \<noteq> [] \<Longrightarrow> (\<forall>l \<in> set ls. c \<notin> set l) \<Longrightarrow> split_on c (join_with c ls) = ls"
  by (induction c ls rule: join_with.induct) auto

lemma starts_with_self [simp]: "starts_with s s"
  by (simp add: starts_with_def)

lemma starts_with_Nil [simp]: "starts_with [] s"
  by (simp add: starts_with_def)

lemma starts_with_append [simp]: "starts_with p (p @ s)"
  by (simp add: starts_with_def)

lemma starts_with_iff: "starts_with p s \<longleftrightarrow> (\<exists>t. s = p @ t)"
  by (metis append_eq_conv_conj append_take_drop_id starts_with_def)

lemma strip_id:
  assumes "s \<noteq> []" and "\<not> py_space (hd s)" and "\<not> py_space (last s)"
  shows "py_strip s = s"
proof -
  have "dropWhile py_space s = s" using assms(2) by (simp add: dropWhile_eq_self_iff)
  moreover have "dropWhile py_space (rev s) = rev s" using assms(1,3) by (simp add: dropWhile_eq_self_iff hd_rev)
  ultimately show ?thesis by (simp add: py_strip_def py_lstrip_def py_rstrip_def)
qed

lemma dropWhile_all: "length s \<le> length (dropWhile P s) \<Longrightarrow> dropWhile P s = s"
  by (cases s) (auto dest: le_trans [OF _ length_dropWhile_le] split: if_splits)

lemma strip_edges:
  assumes "py_strip s = s" and "s \<noteq> []"
  shows "\<not> py_space (hd s)" and "\<not> py_space (last s)"
proof -
  have le: "length (py_rstrip t) \<le> length t" for t
    using length_dropWhile_le [of py_space "rev t"] by (simp add: py_rstrip_def)
  have "length s \<le> length (py_lstrip s)" using le [of "py_lstrip s"] assms(1) by (simp add: py_strip_def)
  then have l: "py_lstrip s = s" unfolding py_lstrip_def by (rule dropWhile_all)
  show "\<not> py_space (hd s)" using l assms(2) unfolding py_lstrip_def by (metis hd_dropWhile dropWhile_eq_Nil_conv)
  have "rev (dropWhile py_space (rev s)) = s" using assms(1) l by (simp add: py_strip_def py_rstrip_def)
  then have "dropWhile py_space (rev s) = rev s" by (metis rev_rev_ident)
  then show "\<not> py_space (last s)" using assms(2) by (metis hd_dropWhile dropWhile_eq_Nil_conv hd_rev rev_is_Nil_conv)
qed

text \<open>
  \<open>s.splitlines()\<close>: the line boundaries among the code points a \<open>char\<close> holds; a carriage return
  followed by a line feed is one boundary and a final boundary opens no empty line.
\<close>

definition line_break :: "char \<Rightarrow> bool" where
  "line_break c \<longleftrightarrow>
     (let n = of_char c :: nat in (10 \<le> n \<and> n \<le> 13) \<or> (28 \<le> n \<and> n \<le> 30) \<or> n = 133)"

definition skip_lf :: "char \<Rightarrow> string \<Rightarrow> string" where
  "skip_lf c cs = (if c = CHR 0x0D \<and> take 1 cs = [CHR 0x0A] then drop 1 cs else cs)"

lemma length_skip_lf [termination_simp]: "length (skip_lf c cs) < Suc (length cs)"
  by (auto simp: skip_lf_def)

fun splitlines_from :: "string \<Rightarrow> string \<Rightarrow> string list" where
  "splitlines_from acc [] = (if acc = [] then [] else [rev acc])"
| "splitlines_from acc (c # cs) =
     (if line_break c then
        rev acc # splitlines_from [] (skip_lf c cs)
      else splitlines_from (c # acc) cs)"

definition py_splitlines :: "string \<Rightarrow> string list" where
  "py_splitlines s = splitlines_from [] s"

text \<open>\<open>str(n)\<close> and the reading of a decimal numeral, \<open>int(s)\<close> on digits.\<close>

definition digit :: "nat \<Rightarrow> char" where
  "digit d = char_of (48 + d)"

definition digit_val :: "char \<Rightarrow> nat" where
  "digit_val c = of_char c - 48"

definition is_digit :: "char \<Rightarrow> bool" where
  "is_digit c \<longleftrightarrow> (let n = of_char c :: nat in 48 \<le> n \<and> n \<le> 57)"

fun show_nat :: "nat \<Rightarrow> string" where
  "show_nat n = (if n < 10 then [digit n] else show_nat (n div 10) @ [digit (n mod 10)])"

declare show_nat.simps [simp del]

definition show_int :: "int \<Rightarrow> string" where
  "show_int i = (if i < 0 then ''-'' @ show_nat (nat (- i)) else show_nat (nat i))"

definition read_nat :: "string \<Rightarrow> nat" where
  "read_nat s = foldl (\<lambda>n c. 10 * n + digit_val c) 0 s"

lemma digit_val_digit [simp]: "d < 10 \<Longrightarrow> digit_val (digit d) = d"
  by (simp add: digit_def digit_val_def of_char_of)

lemma is_digit_digit [simp]: "d < 10 \<Longrightarrow> is_digit (digit d)"
  by (simp add: digit_def is_digit_def of_char_of)

lemma read_nat_snoc [simp]: "read_nat (s @ [c]) = 10 * read_nat s + digit_val c"
  by (simp add: read_nat_def)

lemma read_show_nat [simp]: "read_nat (show_nat n) = n"
proof (induction n rule: show_nat.induct)
  case (1 n)
  then show ?case
    by (cases "n < 10") (auto simp: show_nat.simps [of n] read_nat_def)
qed

lemma show_nat_inject [simp]: "show_nat m = show_nat n \<longleftrightarrow> m = n"
  by (metis read_show_nat)

lemma show_nat_digits: "c \<in> set (show_nat n) \<Longrightarrow> is_digit c"
proof (induction n rule: show_nat.induct)
  case (1 n)
  then show ?case
    by (cases "n < 10") (auto simp: show_nat.simps [of n])
qed

lemma show_nat_not_Nil [simp]: "show_nat n \<noteq> []"
  by (subst show_nat.simps) simp

text \<open>A text in single quotes, as messages write names.\<close>

definition quoted :: "string \<Rightarrow> string" where
  "quoted s = [CHR 0x27] @ s @ [CHR 0x27]"

text \<open>\<open>s <= t\<close> on strings, \<open>s.lower()\<close> and \<open>s in t\<close>.\<close>

fun str_le :: "string \<Rightarrow> string \<Rightarrow> bool" where
  "str_le [] t = True"
| "str_le (c # cs) [] = False"
| "str_le (c # cs) (d # ds) \<longleftrightarrow> (of_char c :: nat) < of_char d \<or> (c = d \<and> str_le cs ds)"

lemma str_le_refl [simp]: "str_le s s"
  by (induction s) auto

lemma str_le_total: "str_le s t \<or> str_le t s"
  by (induction s t rule: str_le.induct) (auto simp: neq_iff)

lemma str_le_antisym: "str_le s t \<Longrightarrow> str_le t s \<Longrightarrow> s = t"
proof (induction s t rule: str_le.induct)
  case (1 t)
  then show ?case by (cases t) auto
qed auto

lemma str_le_trans: "str_le s t \<Longrightarrow> str_le t u \<Longrightarrow> str_le s u"
proof (induction s t arbitrary: u rule: str_le.induct)
  case (3 c cs d ds)
  then show ?case by (cases u) auto
qed auto

definition lower_char :: "char \<Rightarrow> char" where
  "lower_char c =
     (let n = of_char c :: nat
      in if (65 \<le> n \<and> n \<le> 90) \<or> (192 \<le> n \<and> n \<le> 222 \<and> n \<noteq> 215) then char_of (n + 32) else c)"

abbreviation py_lower :: "string \<Rightarrow> string" where
  "py_lower \<equiv> map lower_char"

fun is_infix :: "string \<Rightarrow> string \<Rightarrow> bool" where
  "is_infix p [] \<longleftrightarrow> p = []"
| "is_infix p (c # s) \<longleftrightarrow> starts_with p (c # s) \<or> is_infix p s"

lemma is_infix_iff: "is_infix p s \<longleftrightarrow> (\<exists>a b. s = a @ p @ b)"
proof (induction s)
  case (Cons c s)
  show ?case
  proof
    assume "is_infix p (c # s)"
    then consider "starts_with p (c # s)" | a b where "s = a @ p @ b" using Cons.IH by auto
    then show "\<exists>a b. c # s = a @ p @ b"
    proof cases
      case 1
      then show ?thesis by (metis append_Nil starts_with_iff)
    next
      case 2
      then have "c # s = (c # a) @ p @ b" by simp
      then show ?thesis by blast
    qed
  next
    assume "\<exists>a b. c # s = a @ p @ b"
    then obtain a b where ab: "c # s = a @ p @ b" by blast
    show "is_infix p (c # s)"
    proof (cases a)
      case Nil
      then have "starts_with p (c # s)" using ab by simp
      then show ?thesis by simp
    next
      case (Cons x xs)
      then show ?thesis using ab Cons.IH by auto
    qed
  qed
qed auto

section \<open>Lists\<close>

text \<open>\<open>next((i for i, x in enumerate(xs) if p x), None)\<close>.\<close>

fun find_index :: "('a \<Rightarrow> bool) \<Rightarrow> 'a list \<Rightarrow> nat option" where
  "find_index p [] = None"
| "find_index p (x # xs) = (if p x then Some 0 else map_option Suc (find_index p xs))"

lemma find_index_None_iff: "find_index p xs = None \<longleftrightarrow> (\<forall>x \<in> set xs. \<not> p x)"
  by (induction xs) auto

lemma find_index_SomeD:
  "find_index p xs = Some i \<Longrightarrow>
     i < length xs \<and> p (xs ! i) \<and> (\<forall>x \<in> set (take i xs). \<not> p x)"
  by (induction xs arbitrary: i) (auto split: if_splits)

lemma find_index_append_first:
  "\<forall>x \<in> set xs. \<not> p x \<Longrightarrow> p y \<Longrightarrow> find_index p (xs @ y # ys) = Some (length xs)"
  by (induction xs) auto

lemma subseq_filter [simp]: "subseq (filter p xs) xs"
  by simp

lemma length_filter_strict:
  "x \<in> set xs \<Longrightarrow> \<not> p x \<Longrightarrow> length (filter p xs) < length xs"
  by (rule length_filter_less)

lemma filter_Cons_set: "filter p xs = y # ys \<Longrightarrow> set (y # ys) = {x \<in> set xs. p x}"
  by (metis set_filter)

lemma distinct_map_filterI: "distinct (map f xs) \<Longrightarrow> distinct (map f (filter p xs))"
  by (rule distinct_map_filter)

lemma filter_not_slice:
  assumes "distinct (map f xs)" and "i \<le> j" and "j \<le> length xs"
  shows "filter (\<lambda>x. f x \<notin> f ` set (take (j - i) (drop i xs))) xs = take i xs @ drop j xs"
proof -
  let ?a = "take i xs" and ?b = "take (j - i) (drop i xs)" and ?c = "drop j xs"
  have xs: "xs = ?a @ ?b @ ?c" using assms(2) by (rule split_three)
  have dis: "distinct (map f ?a @ map f ?b @ map f ?c)"
    using assms(1) by (metis map_append xs)
  have a: "filter (\<lambda>x. f x \<notin> f ` set ?b) ?a = ?a"
    using dis by (intro filter_True) auto
  have b: "filter (\<lambda>x. f x \<notin> f ` set ?b) ?b = []"
    by (intro filter_False) auto
  have c: "filter (\<lambda>x. f x \<notin> f ` set ?b) ?c = ?c"
    using dis by (intro filter_True) auto
  have "filter (\<lambda>x. f x \<notin> f ` set ?b) (?a @ ?b @ ?c) = ?a @ ?c"
    using a b c by simp
  with xs show ?thesis by simp
qed

section \<open>Association lists\<close>

lemma length_delete_less: "k \<in> fst ` set xs \<Longrightarrow> length (AList.delete k xs) < length xs"
proof (induction xs)
  case (Cons x xs)
  have "length (AList.delete k xs) \<le> length xs" by (rule length_delete_le)
  with Cons show ?case by (cases x) auto
qed simp

lemma update_new: "k \<notin> fst ` set xs \<Longrightarrow> AList.update k v xs = xs @ [(k, v)]"
  by (induction xs) auto

lemma length_update:
  "length (AList.update k v xs) = (if k \<in> fst ` set xs then length xs else length xs + 1)"
proof -
  have "length (map fst (AList.update k v xs)) = (if k \<in> fst ` set xs then length xs else length xs + 1)"
    by (simp add: update_keys del: length_map) simp
  then show ?thesis by simp
qed

end
