(* ===== verification/Risk.thy ===== *)
theory Risk
  imports Prelude
begin

text \<open>
  Security risk levels and who decides that an action waits for the user
  (\<open>sdk/security/risk.py\<close>, \<open>confirmation_policy.py\<close>, \<open>analyzer.py\<close>, \<open>ensemble.py\<close>).
  Levels are the enum's members; a comparison that meets \<open>UNKNOWN\<close> raises, so every comparison
  is a result. An analyzer is a function of the action that may raise; the ensemble fuses its
  children by maximal severity and fails closed. The lemmas give the order on the concrete
  levels, the value of the ensemble on every branch and the policies' decision.
\<close>

section \<open>Levels and comparisons\<close>

datatype security_risk = UNKNOWN | LOW | MEDIUM | HIGH

datatype risk_error = ValueError string

text \<open>\<open>_RISK_ORDER\<close>: the dictionary has no entry for \<open>UNKNOWN\<close>.\<close>

fun risk_order :: "security_risk \<Rightarrow> nat option" where
  "risk_order LOW = Some 1"
| "risk_order MEDIUM = Some 2"
| "risk_order HIGH = Some 3"
| "risk_order UNKNOWN = None"

definition unknown_levels :: risk_error where
  "unknown_levels = ValueError ''Cannot compare unknown risk levels.''"

definition is_riskier ::
    "security_risk \<Rightarrow> security_risk \<Rightarrow> bool \<Rightarrow> (risk_error, bool) result" where
  "is_riskier self other reflexive =
     (if self = UNKNOWN \<or> other = UNKNOWN then Inl unknown_levels
      else Inr (the (risk_order self) > the (risk_order other) \<or> (reflexive \<and> self = other)))"

definition check_comparable :: "security_risk \<Rightarrow> security_risk \<Rightarrow> (risk_error, nat) result" where
  "check_comparable self other =
     (if self = UNKNOWN \<or> other = UNKNOWN then Inl unknown_levels
      else Inr (the (risk_order other)))"

definition risk_lt :: "security_risk \<Rightarrow> security_risk \<Rightarrow> (risk_error, bool) result" where
  "risk_lt self other =
     bind_res (check_comparable self other) (\<lambda>k. Inr (the (risk_order self) < k))"

definition risk_gt :: "security_risk \<Rightarrow> security_risk \<Rightarrow> (risk_error, bool) result" where
  "risk_gt self other =
     bind_res (check_comparable self other) (\<lambda>k. Inr (the (risk_order self) > k))"

definition risk_le :: "security_risk \<Rightarrow> security_risk \<Rightarrow> (risk_error, bool) result" where
  "risk_le self other =
     bind_res (check_comparable self other) (\<lambda>k. Inr (the (risk_order self) \<le> k))"

definition risk_ge :: "security_risk \<Rightarrow> security_risk \<Rightarrow> (risk_error, bool) result" where
  "risk_ge self other =
     bind_res (check_comparable self other) (\<lambda>k. Inr (the (risk_order self) \<ge> k))"

text \<open>The severity of a level, for statements: \<open>UNKNOWN\<close> is below the concrete levels.\<close>

definition severity :: "security_risk \<Rightarrow> nat" where
  "severity r = (case risk_order r of None \<Rightarrow> 0 | Some k \<Rightarrow> k)"

lemma severity_simps [simp]:
  "severity UNKNOWN = 0" "severity LOW = 1" "severity MEDIUM = 2" "severity HIGH = 3"
  by (simp_all add: severity_def)

lemma severity_inject [simp]: "severity r = severity s \<longleftrightarrow> r = s"
  by (cases r; cases s) simp_all

lemma severity_0_iff [simp]: "severity r = 0 \<longleftrightarrow> r = UNKNOWN"
  by (cases r) simp_all

lemma severity_le_3: "severity r \<le> 3"
  by (cases r) simp_all

lemma the_risk_order [simp]: "r \<noteq> UNKNOWN \<Longrightarrow> the (risk_order r) = severity r"
  by (cases r) simp_all

lemma risk_compare_concrete:
  assumes "r \<noteq> UNKNOWN" and "s \<noteq> UNKNOWN"
  shows "risk_lt r s = Inr (severity r < severity s)"
    and "risk_gt r s = Inr (severity r > severity s)"
    and "risk_le r s = Inr (severity r \<le> severity s)"
    and "risk_ge r s = Inr (severity r \<ge> severity s)"
  using assms
  by (simp_all add: risk_lt_def risk_gt_def risk_le_def risk_ge_def check_comparable_def)

lemma is_riskier_concrete [simp]:
  "r \<noteq> UNKNOWN \<Longrightarrow> s \<noteq> UNKNOWN \<Longrightarrow> is_riskier r s True = Inr (severity s \<le> severity r)"
  by (auto simp: is_riskier_def order_le_less)

section \<open>Confirmation policies\<close>

datatype confirmation_policy =
    AlwaysConfirm
  | NeverConfirm
  | ConfirmRisky security_risk bool  \<comment> \<open>threshold, confirm_unknown\<close>

text \<open>
  The field validator runs when the policy is built: a policy with threshold \<open>UNKNOWN\<close> does not
  come into being.
\<close>

definition new_confirm_risky ::
    "security_risk \<Rightarrow> bool \<Rightarrow> (risk_error, confirmation_policy) result" where
  "new_confirm_risky th unk =
     (if th = UNKNOWN then Inl (ValueError ''Threshold cannot be UNKNOWN'')
      else Inr (ConfirmRisky th unk))"

fun should_confirm ::
    "confirmation_policy \<Rightarrow> security_risk \<Rightarrow> (risk_error, bool) result" where
  "should_confirm AlwaysConfirm risk = Inr True"
| "should_confirm NeverConfirm risk = Inr False"
| "should_confirm (ConfirmRisky th unk) risk =
     (if risk = UNKNOWN then Inr unk else is_riskier risk th True)"

fun policy_valid :: "confirmation_policy \<Rightarrow> bool" where
  "policy_valid (ConfirmRisky th unk) = (th \<noteq> UNKNOWN)"
| "policy_valid _ = True"

lemma new_confirm_risky_valid: "new_confirm_risky th unk = Inr p \<Longrightarrow> policy_valid p"
  by (auto simp: new_confirm_risky_def split: if_splits)

text \<open>The decision of a valid policy, as a plain boolean.\<close>

definition confirms :: "confirmation_policy \<Rightarrow> security_risk \<Rightarrow> bool" where
  "confirms p r = (case should_confirm p r of Inr b \<Rightarrow> b | Inl _ \<Rightarrow> False)"

lemma should_confirm_valid: "policy_valid p \<Longrightarrow> should_confirm p r = Inr (confirms p r)"
  by (cases p) (auto simp: confirms_def)

lemma confirms_ConfirmRisky:
  "th \<noteq> UNKNOWN \<Longrightarrow>
     confirms (ConfirmRisky th unk) r =
       (if r = UNKNOWN then unk else severity th \<le> severity r)"
  by (auto simp: confirms_def)

section \<open>Analyzers\<close>

definition should_require_confirmation :: "security_risk \<Rightarrow> bool \<Rightarrow> bool" where
  "should_require_confirmation risk confirmation_mode =
     (if risk = HIGH then True
      else if risk = UNKNOWN \<and> \<not> confirmation_mode then True
      else if confirmation_mode then True
      else False)"

type_synonym 'a analyzer = "'a \<Rightarrow> (risk_error, security_risk) result"

text \<open>The \<open>try ... except Exception\<close> around a child: what raised counts as \<open>HIGH\<close>.\<close>

fun fail_closed :: "(risk_error, security_risk) result \<Rightarrow> security_risk" where
  "fail_closed (Inr r) = r"
| "fail_closed (Inl _) = HIGH"

fun analyze_pending_actions :: "'a analyzer \<Rightarrow> 'a list \<Rightarrow> ('a \<times> security_risk) list" where
  "analyze_pending_actions security_risk [] = []"
| "analyze_pending_actions security_risk (a # as) =
     (case security_risk a of
        Inr r \<Rightarrow> (a, r) # analyze_pending_actions security_risk as
      | Inl _ \<Rightarrow> (a, HIGH) # analyze_pending_actions security_risk as)"

lemma analyze_pending_actions_eq:
  "analyze_pending_actions f as = map (\<lambda>a. (a, fail_closed (f a))) as"
  by (induction as) (auto split: sum.splits)

section \<open>The ensemble\<close>

text \<open>
  \<open>max(concrete)\<close> keeps the first element and replaces it by a later one that compares greater.
\<close>

fun py_max :: "security_risk \<Rightarrow> security_risk list \<Rightarrow> (risk_error, security_risk) result" where
  "py_max m [] = Inr m"
| "py_max m (r # rs) = bind_res (risk_gt r m) (\<lambda>g. py_max (if g then r else m) rs)"

fun child_results :: "'a analyzer list \<Rightarrow> 'a \<Rightarrow> security_risk list" where
  "child_results [] action = []"
| "child_results (analyzer # rest) action =
     (case analyzer action of
        Inr r \<Rightarrow> r # child_results rest action
      | Inl _ \<Rightarrow> HIGH # child_results rest action)"

definition ensemble_risk ::
    "'a analyzer list \<Rightarrow> bool \<Rightarrow> 'a \<Rightarrow> (risk_error, security_risk) result" where
  "ensemble_risk analyzers propagate_unknown action =
     (let results = child_results analyzers action;
          has_unknown = (UNKNOWN \<in> set results)
      in if propagate_unknown \<and> has_unknown then Inr UNKNOWN
         else case filter (\<lambda>r. r \<noteq> UNKNOWN) results of
                [] \<Rightarrow> Inr UNKNOWN
              | c # cs \<Rightarrow> py_max c cs)"

lemma child_results_eq: "child_results as x = map (\<lambda>f. fail_closed (f x)) as"
  by (induction as) (auto split: sum.splits)

lemma py_max_concrete:
  assumes "m \<noteq> UNKNOWN" and "UNKNOWN \<notin> set rs"
  shows "\<exists>r \<in> set (m # rs). py_max m rs = Inr r \<and> (\<forall>s \<in> set (m # rs). severity s \<le> severity r)"
  using assms
proof (induction rs arbitrary: m)
  case (Cons a rs)
  then have gt: "risk_gt a m = Inr (severity a > severity m)"
    by (intro risk_compare_concrete) auto
  let ?m = "if severity a > severity m then a else m"
  have "?m \<noteq> UNKNOWN" using Cons.prems by auto
  with Cons obtain r where r: "r \<in> set (?m # rs)" "py_max ?m rs = Inr r"
    "\<forall>s \<in> set (?m # rs). severity s \<le> severity r"
    by fastforce
  then show ?case
    by (intro bexI [of _ r]) (auto simp: gt split: if_splits)
qed simp

text \<open>
  The value of the ensemble: \<open>UNKNOWN\<close> when it propagates or no child is concrete, otherwise a
  concrete level of maximal severity.
\<close>

lemma ensemble_risk_total: "\<exists>r. ensemble_risk as pu x = Inr r"
proof (cases "filter (\<lambda>r. r \<noteq> UNKNOWN) (child_results as x)")
  case (Cons c cs)
  from filter_Cons_set [OF Cons] have "c \<noteq> UNKNOWN" "UNKNOWN \<notin> set cs" by auto
  then have "\<exists>r. py_max c cs = Inr r" using py_max_concrete [of c cs] by auto
  with Cons show ?thesis by (auto simp: ensemble_risk_def Let_def)
qed (simp add: ensemble_risk_def Let_def)

lemma ensemble_risk_max:
  assumes r: "ensemble_risk as pu x = Inr r" and "r \<noteq> UNKNOWN"
  shows "r \<in> set (child_results as x)"
    and "\<And>s. s \<in> set (child_results as x) \<Longrightarrow> severity s \<le> severity r"
proof -
  obtain c cs where c: "filter (\<lambda>r. r \<noteq> UNKNOWN) (child_results as x) = c # cs"
    using assms
    by (cases "filter (\<lambda>r. r \<noteq> UNKNOWN) (child_results as x)")
      (auto simp: ensemble_risk_def Let_def split: if_splits)
  then have set: "set (c # cs) = {r \<in> set (child_results as x). r \<noteq> UNKNOWN}"
    by (rule filter_Cons_set)
  have m: "py_max c cs = Inr r"
    using assms c by (auto simp: ensemble_risk_def Let_def split: if_splits)
  have "c \<noteq> UNKNOWN" "UNKNOWN \<notin> set cs" using set by auto
  from py_max_concrete [OF this] m
  have *: "r \<in> set (c # cs)" "\<forall>s \<in> set (c # cs). severity s \<le> severity r" by auto
  show "r \<in> set (child_results as x)" using *(1) set by auto
  fix s assume "s \<in> set (child_results as x)"
  then show "severity s \<le> severity r"
    using *(2) set by (cases "s = UNKNOWN") auto
qed

lemma ensemble_risk_unknown_iff:
  "ensemble_risk as pu x = Inr UNKNOWN \<longleftrightarrow>
     (if pu then UNKNOWN \<in> set (child_results as x) \<or> as = []
      else set (child_results as x) \<subseteq> {UNKNOWN})"
proof (cases "filter (\<lambda>r. r \<noteq> UNKNOWN) (child_results as x)")
  case Nil
  then have "set (child_results as x) \<subseteq> {UNKNOWN}" by (auto simp: filter_empty_conv)
  with Nil show ?thesis
    by (cases as) (auto simp: ensemble_risk_def Let_def child_results_eq)
next
  case (Cons c cs)
  from filter_Cons_set [OF Cons]
  have mem: "c \<noteq> UNKNOWN" "UNKNOWN \<notin> set cs" "set (c # cs) \<subseteq> set (child_results as x)" by auto
  then obtain r where r: "py_max c cs = Inr r" "r \<in> set (c # cs)"
    using py_max_concrete [of c cs] by auto
  then have "r \<noteq> UNKNOWN" using mem by auto
  moreover have "as \<noteq> []" "\<not> set (child_results as x) \<subseteq> {UNKNOWN}"
    using mem by (cases as; force simp: child_results_eq)+
  ultimately show ?thesis
    using Cons r(1) by (auto simp: ensemble_risk_def Let_def)
qed

lemmas ensemble_facts = ensemble_risk_total ensemble_risk_max ensemble_risk_unknown_iff

section \<open>Properties\<close>

text \<open>
  An ensemble with a child that raises fails closed. It always returns a level, and when its
  verdict is not the propagated \<open>UNKNOWN\<close> the verdict is \<open>HIGH\<close>, whatever the other children say;
  a policy that confirms risky actions at any threshold then asks the user.
\<close>

theorem ensemble_fails_closed:
  assumes "f \<in> set analyzers" and "f action = Inl e"
    and "\<not> (propagate_unknown \<and> UNKNOWN \<in> set (child_results analyzers action))"
    and "policy_valid (ConfirmRisky th unk)"
  shows "ensemble_risk analyzers propagate_unknown action = Inr HIGH \<and>
         should_confirm (ConfirmRisky th unk) HIGH = Inr True"
proof -
  have high: "HIGH \<in> set (child_results analyzers action)"
    using assms(1,2) by (force simp: child_results_eq)
  obtain r where r: "ensemble_risk analyzers propagate_unknown action = Inr r"
    using ensemble_risk_total [of analyzers propagate_unknown action] by blast
  then have ru: "r \<noteq> UNKNOWN"
    using assms(3) high ensemble_risk_unknown_iff [of analyzers propagate_unknown action]
    by (auto split: if_splits simp: child_results_eq)
  from ensemble_risk_max(2) [OF r ru high] have "r = HIGH" by (cases r) auto
  with r show ?thesis
    using assms(4) by (simp add: should_confirm_valid confirms_ConfirmRisky severity_le_3)
qed

theorem ensemble_fails_closed_witness:
  "ensemble_risk [\<lambda>a. Inr LOW, \<lambda>a. if a = ''rm'' then Inl (ValueError ''x'') else Inr LOW] True ''rm'' = Inr HIGH"
  using ensemble_fails_closed
    [of "\<lambda>a. if a = ''rm'' then Inl (ValueError ''x'') else Inr LOW"
        "[\<lambda>a. Inr LOW, \<lambda>a. if a = ''rm'' then Inl (ValueError ''x'') else Inr LOW]" "''rm''"
        "ValueError ''x''" True MEDIUM True]
  by simp

end
