(* ===== verification/Truncate.thy ===== *)
theory Truncate
  imports Prelude
begin

text \<open>
  The truncation of long texts (\<open>sdk/utils/truncate.py\<close>): the middle of a text above the limit
  is replaced by a notice, which can name a file the full text is saved to. The directory is
  explicit state, a map from file names to contents; the digest of the content, the spelling of
  a path and whether a write succeeds are parameters. The lemmas bound the result's length and
  say what is kept of the text.
\<close>

definition DEFAULT_TEXT_CONTENT_LIMIT :: int where
  "DEFAULT_TEXT_CONTENT_LIMIT = 50000"

definition DEFAULT_TRUNCATE_NOTICE :: string where
  "DEFAULT_TRUNCATE_NOTICE =
     ''<response clipped><NOTE>Due to the max output limit, only part of the full '' @
     ''response has been shown to you.</NOTE>''"

definition persist_notice :: "string \<Rightarrow> nat \<Rightarrow> string" where
  "persist_notice file_path line_num =
     ''<response clipped><NOTE>Due to the max output limit, only part of the full '' @
     ''response has been shown to you. The complete output has been saved to '' @
     file_path @ '' - you can use other tools to view the full content (truncated '' @
     ''part starts around line '' @ show_nat line_num @ '').</NOTE>''"

record save_env =
  digest8 :: "string \<Rightarrow> string"               \<comment> \<open>first 8 hex digits of the sha256\<close>
  path_str :: "string \<Rightarrow> string \<Rightarrow> string"    \<comment> \<open>\<open>str(Path(dir) / name)\<close>\<close>
  write_ok :: "string \<Rightarrow> bool"                 \<comment> \<open>the write of this file does not raise\<close>

type_synonym files = "string \<rightharpoonup> string"

definition save_full_content ::
    "save_env \<Rightarrow> files \<Rightarrow> string \<Rightarrow> string \<Rightarrow> string \<Rightarrow> files \<times> string option" where
  "save_full_content env fs content save_dir tool_prefix =
     (let file_path = path_str env save_dir
            (tool_prefix @ ''_output_'' @ digest8 env content @ ''.txt'')
      in if fs file_path \<noteq> None then (fs, Some file_path)
         else if write_ok env file_path then (fs(file_path \<mapsto> content), Some file_path)
         else (fs, None))"

text \<open>
  \<open>maybe_truncate\<close>: no limit, a limit of zero and a negative one all return the text as it is.
  The slice \<open>content[-tail:]\<close> is taken only for a positive tail.
\<close>

definition truncation_notice ::
    "save_env \<Rightarrow> files \<Rightarrow> string \<Rightarrow> string \<Rightarrow> string \<Rightarrow> string \<Rightarrow> nat \<Rightarrow> files \<times> string" where
  "truncation_notice env fs content truncate_notice save_dir tool_prefix proposed_head =
     (if save_dir = [] then (fs, truncate_notice)
      else case save_full_content env fs content save_dir tool_prefix of
             (fs', Some p) \<Rightarrow>
               (if p = [] then (fs', truncate_notice)
                else (fs', persist_notice p (length (py_splitlines (take proposed_head content)) + 1)))
           | (fs', None) \<Rightarrow> (fs', truncate_notice))"

text \<open>Steps 5 and 6: what is left of the budget after the notice goes to the head and the tail.\<close>

definition keep_ends :: "string \<Rightarrow> string \<Rightarrow> nat \<Rightarrow> nat \<Rightarrow> string" where
  "keep_ends content final_notice truncate_after proposed_head =
     (if length final_notice \<ge> truncate_after then take truncate_after final_notice
      else
        let remaining = truncate_after - length final_notice;
            head_chars = min proposed_head remaining;
            tail_chars = remaining - head_chars
        in take head_chars content @ final_notice @
             (if tail_chars > 0 then drop (length content - tail_chars) content else []))"

definition maybe_truncate_files ::
    "save_env \<Rightarrow> files \<Rightarrow> string \<Rightarrow> int option \<Rightarrow> string \<Rightarrow> string option \<Rightarrow> string
       \<Rightarrow> files \<times> string" where
  "maybe_truncate_files env fs content truncate_after truncate_notice save_dir tool_prefix =
     (case truncate_after of
        None \<Rightarrow> (fs, content)
      | Some k \<Rightarrow>
          if k = 0 \<or> int (length content) \<le> k \<or> k < 0 then (fs, content)
          else if int (length truncate_notice) \<ge> k then (fs, take (nat k) truncate_notice)
          else
            let available_chars = nat k - length truncate_notice;
                proposed_head = available_chars div 2 + available_chars mod 2;
                (fs', final_notice) =
                  truncation_notice env fs content truncate_notice
                    (case save_dir of None \<Rightarrow> [] | Some d \<Rightarrow> d) tool_prefix proposed_head
            in (fs', keep_ends content final_notice (nat k) proposed_head))"

text \<open>The call without a save directory: the files do not matter.\<close>

definition maybe_truncate :: "string \<Rightarrow> int option \<Rightarrow> string" where
  "maybe_truncate content truncate_after =
     snd (maybe_truncate_files \<lparr>digest8 = id, path_str = (@), write_ok = (\<lambda>_. True)\<rparr> Map.empty
            content truncate_after DEFAULT_TRUNCATE_NOTICE None ''output'')"

section \<open>Lemmas\<close>

lemma length_DEFAULT_TRUNCATE_NOTICE: "length DEFAULT_TRUNCATE_NOTICE = 113"
  by (simp add: DEFAULT_TRUNCATE_NOTICE_def)

lemma maybe_truncate_files_short:
  "int (length content) \<le> k \<Longrightarrow>
     maybe_truncate_files env fs content (Some k) notice sd tp = (fs, content)"
  by (simp add: maybe_truncate_files_def)

lemma length_keep_ends: "length (keep_ends content notice k h) \<le> k"
  by (auto simp: keep_ends_def Let_def min_def)

lemma maybe_truncate_files_length:
  assumes "0 < k"
  shows "int (length (snd (maybe_truncate_files env fs content (Some k) notice sd tp))) \<le> k"
proof -
  have "int (length (keep_ends content n (nat k) h)) \<le> k" for n h
    using length_keep_ends [of content n "nat k" h] assms by linarith
  then show ?thesis
    using assms by (auto simp: maybe_truncate_files_def Let_def split_beta)
qed

lemma maybe_truncate_length: "0 < k \<Longrightarrow> int (length (maybe_truncate content (Some k))) \<le> k"
  unfolding maybe_truncate_def by (rule maybe_truncate_files_length)

lemma maybe_truncate_zero: "maybe_truncate content (Some 0) = content"
  by (simp add: maybe_truncate_def maybe_truncate_files_def)

lemma truncation_notice_empty_dir [simp]: "truncation_notice env fs content n [] tp h = (fs, n)"
  by (simp add: truncation_notice_def)

text \<open>
  Above a limit that leaves room for the notice, the result is exactly the limit long: a head of
  the text, the notice, a tail of the text, head and tail differing by at most one character.
\<close>

lemma maybe_truncate_shape:
  assumes "int (length DEFAULT_TRUNCATE_NOTICE) < k" and "k < int (length content)"
  defines "a \<equiv> nat k - length DEFAULT_TRUNCATE_NOTICE"
  shows "maybe_truncate content (Some k) =
           take (a - a div 2) content @ DEFAULT_TRUNCATE_NOTICE
             @ drop (length content - a div 2) content"
proof -
  have h: "a div 2 + a mod 2 = a - a div 2" by presburger
  have "0 < a" and k: "nat k = a + length DEFAULT_TRUNCATE_NOTICE"
    and n: "\<not> k \<le> int (length DEFAULT_TRUNCATE_NOTICE)"
    using assms by auto
  have "maybe_truncate content (Some k) =
      keep_ends content DEFAULT_TRUNCATE_NOTICE (a + length DEFAULT_TRUNCATE_NOTICE) (a - a div 2)"
    using assms(1,2) n
    by (simp add: maybe_truncate_def maybe_truncate_files_def Let_def h [symmetric] k [symmetric])
      (simp add: a_def)
  also have "\<dots> = take (a - a div 2) content @ DEFAULT_TRUNCATE_NOTICE
      @ drop (length content - a div 2) content"
    using \<open>0 < a\<close> by (auto simp: keep_ends_def Let_def)
  finally show ?thesis .
qed

text \<open>A saved file holds the full text, unless another text with the same digest came first.\<close>

lemma save_full_content_saved:
  "save_full_content env fs content d tp = (fs', Some p) \<Longrightarrow> fs p \<in> {None, Some content} \<Longrightarrow>
     fs' p = Some content"
  by (auto simp: save_full_content_def Let_def split: if_splits)

end
