(* ===== verification/Messages.thy ===== *)
theory Messages
  imports Truncate "HOL-Library.AList"
begin

text \<open>
  The LLM message and its Chat Completions form (\<open>sdk/llm/message.py\<close>). The records have the
  fields of the source's models (\<open>id\<close>, \<open>name\<close> and the like carry a prefix), a dictionary that is
  sent to the provider is a JSON value whose objects keep insertion order, and what the source
  raises is a value of \<open>message_error\<close>. The lemmas bound the text of tool results and give the
  round trip of tool calls.
\<close>

section \<open>Contents, tool calls and messages\<close>

datatype content =
    TextContent (content_text: string) (cache_prompt: bool)
  | ImageContent (image_urls: "string list") (cache_prompt: bool)

abbreviation text_content :: "string \<Rightarrow> content" where
  "text_content s \<equiv> TextContent s False"

fun is_image :: "content \<Rightarrow> bool" where
  "is_image (ImageContent _ _) = True"
| "is_image (TextContent _ _) = False"

datatype thinking_block =
    ThinkingBlock (thinking: string) (signature: "string option")
  | RedactedThinkingBlock (data: string)

record reasoning_item =
  ri_id :: "string option"
  ri_summary :: "string list"
  ri_content :: "string list option"
  ri_encrypted_content :: "string option"
  ri_status :: "string option"

datatype call_origin = Completion | Responses

record message_tool_call =
  tc_id :: string
  tc_responses_item_id :: "string option"
  tc_name :: string
  tc_arguments :: string
  tc_origin :: call_origin

datatype role = RUser | RSystem | RAssistant | RTool

record message =
  m_role :: role
  m_content :: "content list"
  m_tool_calls :: "message_tool_call list option"
  m_tool_call_id :: "string option"
  m_name :: "string option"
  m_reasoning_content :: "string option"
  m_thinking_blocks :: "thinking_block list"
  m_responses_reasoning_item :: "reasoning_item option"

text \<open>\<open>Message(role=..., content=...)\<close> with every other field at its default.\<close>

definition new_message :: "role \<Rightarrow> content list \<Rightarrow> message" where
  "new_message r c = \<lparr>m_role = r, m_content = c, m_tool_calls = None, m_tool_call_id = None,
     m_name = None, m_reasoning_content = None, m_thinking_blocks = [],
     m_responses_reasoning_item = None\<rparr>"

definition contains_image :: "message \<Rightarrow> bool" where
  "contains_image m = list_ex is_image (m_content m)"

datatype message_error = MsgValueError string | MsgAssertionError string | MsgValidationError

text \<open>\<open>content_to_str\<close>: the display strings of a content list.\<close>

fun content_str :: "content \<Rightarrow> string" where
  "content_str (TextContent s _) = s"
| "content_str (ImageContent urls _) = ''[Image: '' @ show_nat (length urls) @ '' URLs]''"

definition content_to_str :: "content list \<Rightarrow> string list" where
  "content_to_str cs = map content_str cs"

section \<open>JSON dictionaries\<close>

datatype json = JNull | JBool bool | JInt int | JStr string | JList "json list"
  | JObj "(string \<times> json) list"

type_synonym dict = "(string \<times> json) list"

text \<open>\<open>d[k] = v\<close> keeps the position of a key it overwrites; \<open>d.pop(k, None)\<close>.\<close>

abbreviation set_key :: "string \<Rightarrow> json \<Rightarrow> dict \<Rightarrow> dict" where
  "set_key \<equiv> AList.update"

abbreviation pop_key :: "string \<Rightarrow> dict \<Rightarrow> dict" where
  "pop_key \<equiv> AList.delete"

fun opt_str :: "string option \<Rightarrow> json" where
  "opt_str None = JNull"
| "opt_str (Some s) = JStr s"

definition ephemeral :: json where
  "ephemeral = JObj [(''type'', JStr ''ephemeral'')]"

fun mark_last :: "dict list \<Rightarrow> dict list" where
  "mark_last [] = []"
| "mark_last ds = butlast ds @ [set_key ''cache_control'' ephemeral (last ds)]"

text \<open>\<open>to_llm_dict\<close> of the two content classes.\<close>

fun to_llm_dict :: "content \<Rightarrow> dict list" where
  "to_llm_dict (TextContent s cache) =
     [(let data = [(''type'', JStr ''text''), (''text'', JStr s)]
       in if cache then set_key ''cache_control'' ephemeral data else data)]"
| "to_llm_dict (ImageContent urls cache) =
     (let images = map (\<lambda>url. [(''type'', JStr ''image_url''),
            (''image_url'', JObj [(''url'', JStr url)])]) urls
      in if cache then mark_last images else images)"

fun thinking_dict :: "thinking_block \<Rightarrow> json" where
  "thinking_dict (ThinkingBlock t sig) =
     JObj [(''type'', JStr ''thinking''), (''thinking'', JStr t), (''signature'', opt_str sig)]"
| "thinking_dict (RedactedThinkingBlock d) =
     JObj [(''type'', JStr ''redacted_thinking''), (''data'', JStr d)]"

section \<open>Serialization for Chat Completions\<close>

definition tool_call_chat_dict :: "message_tool_call \<Rightarrow> dict" where
  "tool_call_chat_dict tc =
     [(''id'', JStr (tc_id tc)), (''type'', JStr ''function''),
      (''function'', JObj [(''name'', JStr (tc_name tc)), (''arguments'', JStr (tc_arguments tc))])]"

definition tool_call_responses_dict :: "message_tool_call \<Rightarrow> dict" where
  "tool_call_responses_dict tc =
     (let fallback = (if starts_with ''fc'' (tc_id tc) then tc_id tc else ''fc_'' @ tc_id tc);
          item_id = (case tc_responses_item_id tc of
                       Some i \<Rightarrow> if i = [] then fallback else i | None \<Rightarrow> fallback)
      in [(''type'', JStr ''function_call''), (''id'', JStr item_id), (''call_id'', JStr (tc_id tc)),
          (''name'', JStr (tc_name tc)), (''arguments'', JStr (tc_arguments tc))])"

definition maybe_truncate_tool_text :: "string \<Rightarrow> string" where
  "maybe_truncate_tool_text s =
     (if s = [] \<or> int (length s) \<le> DEFAULT_TEXT_CONTENT_LIMIT then s
      else maybe_truncate s (Some DEFAULT_TEXT_CONTENT_LIMIT))"

fun role_str :: "role \<Rightarrow> string" where
  "role_str RUser = ''user''"
| "role_str RSystem = ''system''"
| "role_str RAssistant = ''assistant''"
| "role_str RTool = ''tool''"

fun texts_of :: "content list \<Rightarrow> string list" where
  "texts_of [] = []"
| "texts_of (TextContent s _ # cs) = s # texts_of cs"
| "texts_of (ImageContent _ _ # cs) = texts_of cs"

definition string_serializer :: "message \<Rightarrow> dict" where
  "string_serializer m =
     (let content = join_with newline (texts_of (m_content m));
          content' = (if m_role m = RTool then maybe_truncate_tool_text content else content)
      in [(''content'', JStr content'), (''role'', JStr (role_str (m_role m)))])"

text \<open>One dictionary of a tool message: its text is truncated where it is a text item.\<close>

definition truncate_item :: "dict \<Rightarrow> dict" where
  "truncate_item d =
     (case map_of d ''text'' of
        Some (JStr s) \<Rightarrow>
          (if map_of d ''type'' = Some (JStr ''text'')
           then set_key ''text'' (JStr (maybe_truncate_tool_text s)) d else d)
      | _ \<Rightarrow> d)"

definition item_dicts :: "role \<Rightarrow> content \<Rightarrow> dict list" where
  "item_dicts r item =
     (let ds = to_llm_dict item;
          ds' = (if r = RTool then map truncate_item ds else ds)
      in if r = RTool \<and> cache_prompt item then map (pop_key ''cache_control'') ds' else ds')"

definition list_serializer :: "message \<Rightarrow> bool \<Rightarrow> dict" where
  "list_serializer m vision_enabled =
     (let thinking = (if m_role m = RAssistant then map thinking_dict (m_thinking_blocks m) else []);
          content = concat (map (item_dicts (m_role m))
            (filter (\<lambda>c. is_image c \<longrightarrow> vision_enabled) (m_content m)));
          cached = (m_role m = RTool \<and> list_ex cache_prompt (m_content m));
          d0 = [(''content'', JList (map JObj content)), (''role'', JStr (role_str (m_role m)))];
          d1 = (if cached then set_key ''cache_control'' ephemeral d0 else d0)
      in if thinking \<noteq> [] then set_key ''thinking_blocks'' (JList thinking) d1 else d1)"

text \<open>\<open>_remove_content_if_empty\<close>: an item with a text that is not a string raises.\<close>

fun normalized_items :: "json list \<Rightarrow> (message_error, json list) result" where
  "normalized_items [] = Inr []"
| "normalized_items (JObj d # items) =
     (if map_of d ''type'' = Some (JStr ''text'') then
        (case map_of d ''text'' of
           None \<Rightarrow> normalized_items items
         | Some (JStr s) \<Rightarrow>
             (if py_strip s = [] then normalized_items items
              else bind_res (normalized_items items) (\<lambda>r. Inr (JObj d # r)))
         | Some _ \<Rightarrow> Inl (MsgValueError ''Text content item has non-string text value''))
      else bind_res (normalized_items items) (\<lambda>r. Inr (JObj d # r)))"
| "normalized_items (item # items) =
     bind_res (normalized_items items) (\<lambda>r. Inr (item # r))"

definition remove_content_if_empty :: "dict \<Rightarrow> (message_error, dict) result" where
  "remove_content_if_empty d =
     (case map_of d ''content'' of
        None \<Rightarrow> Inr d
      | Some (JStr s) \<Rightarrow> Inr (if py_strip s = [] then pop_key ''content'' d else d)
      | Some (JList items) \<Rightarrow>
          bind_res (normalized_items items)
            (\<lambda>n. Inr (if n \<noteq> [] then set_key ''content'' (JList n) d else pop_key ''content'' d))
      | Some _ \<Rightarrow> Inr d)"

definition to_chat_dict ::
    "message \<Rightarrow> bool \<Rightarrow> bool \<Rightarrow> bool \<Rightarrow> bool \<Rightarrow> bool \<Rightarrow> (message_error, dict) result" where
  "to_chat_dict m cache_enabled vision_enabled function_calling_enabled force_string_serializer
       send_reasoning_content =
     (let d0 = (if \<not> force_string_serializer \<and>
                   (cache_enabled \<or> vision_enabled \<or> function_calling_enabled)
                then list_serializer m vision_enabled else string_serializer m)
      in bind_res
           (case m_tool_calls m of
              Some tcs \<Rightarrow>
                (if m_role m = RAssistant \<and> tcs \<noteq> [] then
                   remove_content_if_empty
                     (set_key ''tool_calls'' (JList (map (JObj \<circ> tool_call_chat_dict) tcs)) d0)
                 else Inr d0)
            | None \<Rightarrow> Inr d0)
        (\<lambda>d1. bind_res
           (case m_tool_call_id m of
              Some tcid \<Rightarrow>
                (if m_role m = RTool then
                   (case m_name m of
                      None \<Rightarrow> Inl (MsgAssertionError ''name is required when tool_call_id is not None'')
                    | Some n \<Rightarrow> Inr (set_key ''name'' (JStr n) (set_key ''tool_call_id'' (JStr tcid) d1)))
                 else Inr d1)
            | None \<Rightarrow> Inr d1)
        (\<lambda>d2. Inr (case m_reasoning_content m of
              Some rc \<Rightarrow> (if send_reasoning_content \<and> rc \<noteq> []
                          then set_key ''reasoning_content'' (JStr rc) d2 else d2)
            | None \<Rightarrow> d2))))"

text \<open>\<open>to_responses_value\<close> of a system message: the instructions string.\<close>

definition system_instructions :: "message \<Rightarrow> string" where
  "system_instructions m = join_with newline (filter (\<lambda>s. s \<noteq> []) (texts_of (m_content m)))"

section \<open>Messages from a provider's answer\<close>

text \<open>
  The fields of LiteLLM's objects the source reads: a tool call's type, the function it names and
  its arguments, an assistant message's role and content.
\<close>

record lite_tool_call =
  ltc_type :: string
  ltc_id :: string
  ltc_function :: "(string option \<times> string) option"

record lite_message =
  lm_role :: string
  lm_content :: "string option"
  lm_tool_calls :: "lite_tool_call list"
  lm_reasoning_content :: "string option"
  lm_thinking_blocks :: "thinking_block list"

definition from_chat_tool_call :: "lite_tool_call \<Rightarrow> (message_error, message_tool_call) result" where
  "from_chat_tool_call tc =
     (if ltc_type tc \<noteq> ''function'' then Inl (MsgValueError ''Unsupported tool call type'')
      else case ltc_function tc of
             None \<Rightarrow> Inl (MsgValueError ''tool_call.function is None'')
           | Some (None, args) \<Rightarrow> Inl (MsgValueError ''tool_call.function.name is None'')
           | Some (Some n, args) \<Rightarrow>
               Inr \<lparr>tc_id = ltc_id tc, tc_responses_item_id = None, tc_name = n,
                    tc_arguments = args, tc_origin = Completion\<rparr>)"

text \<open>The fields of a typed Responses function call, each possibly missing or empty.\<close>

record responses_call =
  rc_call_id :: "string option"
  rc_id :: "string option"
  rc_name :: "string option"
  rc_arguments :: "string option"

fun or_else :: "string option \<Rightarrow> string \<Rightarrow> string" where
  "or_else (Some s) d = (if s = [] then d else s)"
| "or_else None d = d"

definition from_responses_function_call ::
    "responses_call \<Rightarrow> (message_error, message_tool_call) result" where
  "from_responses_function_call item =
     (let call_id = or_else (rc_call_id item) (or_else (rc_id item) []);
          nm = or_else (rc_name item) [];
          arguments_str = or_else (rc_arguments item) []
      in if call_id = [] then Inl (MsgValueError ''Responses function_call missing call_id/id'')
         else if nm = [] then Inl (MsgValueError ''Responses function_call missing name'')
         else Inr \<lparr>tc_id = call_id,
                   tc_responses_item_id = (let i = or_else (rc_id item) [] in if i = [] then None else Some i),
                   tc_name = nm, tc_arguments = arguments_str, tc_origin = Responses\<rparr>)"

fun map_res :: "('a \<Rightarrow> ('e, 'b) result) \<Rightarrow> 'a list \<Rightarrow> ('e, 'b list) result" where
  "map_res f [] = Inr []"
| "map_res f (x # xs) = bind_res (f x) (\<lambda>y. bind_res (map_res f xs) (\<lambda>ys. Inr (y # ys)))"

fun role_of :: "string \<Rightarrow> role option" where
  "role_of s = map_of [(''user'', RUser), (''system'', RSystem), (''assistant'', RAssistant),
     (''tool'', RTool)] s"

definition from_llm_chat_message :: "lite_message \<Rightarrow> (message_error, message) result" where
  "from_llm_chat_message lm =
     (if lm_role lm = ''function'' then Inl (MsgAssertionError ''Function role is not supported'')
      else bind_res
        (if lm_tool_calls lm \<noteq> [] then
           (let fs = filter (\<lambda>tc. ltc_type tc = ''function'') (lm_tool_calls lm)
            in if fs \<noteq> [] then bind_res (map_res from_chat_tool_call fs) (\<lambda>tcs. Inr (Some tcs))
               else Inl (MsgValueError ''LLM returned tool calls but none are of type function''))
         else Inr None)
        (\<lambda>tool_calls.
           case role_of (lm_role lm) of
             None \<Rightarrow> Inl MsgValidationError
           | Some r \<Rightarrow>
               Inr \<lparr>m_role = r,
                    m_content = (case lm_content lm of Some s \<Rightarrow> [text_content s] | None \<Rightarrow> []),
                    m_tool_calls = tool_calls, m_tool_call_id = None, m_name = None,
                    m_reasoning_content = lm_reasoning_content lm,
                    m_thinking_blocks = lm_thinking_blocks lm, m_responses_reasoning_item = None\<rparr>))"

section \<open>Serialization lemmas\<close>

lemma map_of_set_key [simp]: "map_of (set_key k v d) = (map_of d)(k \<mapsto> v)"
  by (rule update_conv')

lemma map_of_pop_key [simp]: "map_of (pop_key k d) = (map_of d)(k := None)"
  by (rule delete_conv')

text \<open>The text of a dictionary item, where it has one, is a string.\<close>

definition str_item :: "dict \<Rightarrow> bool" where
  "str_item d \<longleftrightarrow> (\<forall>v. map_of d ''text'' = Some v \<longrightarrow> (\<exists>s. v = JStr s))"

lemma mark_last_set:
  "ds \<noteq> [] \<Longrightarrow> mark_last ds = butlast ds @ [set_key ''cache_control'' ephemeral (last ds)]"
  by (cases ds) auto

lemma in_mark_last:
  "d \<in> set (mark_last ds) \<Longrightarrow>
     \<exists>e \<in> set ds. d = e \<or> d = set_key ''cache_control'' ephemeral e"
  by (cases "ds = []") (auto simp: mark_last_set dest: in_set_butlastD)

lemma image_dict_no_text:
  "d \<in> set (to_llm_dict (ImageContent urls cache)) \<Longrightarrow> map_of d ''text'' = None"
  by (auto simp: Let_def split: if_splits dest!: in_mark_last)

lemma to_llm_dict_text:
  "d \<in> set (to_llm_dict (TextContent s cache)) \<Longrightarrow> map_of d ''text'' = Some (JStr s)"
  by (auto simp: Let_def)

lemma str_item_to_llm_dict: "d \<in> set (to_llm_dict c) \<Longrightarrow> str_item d"
proof (cases c)
  case (TextContent s b)
  then show "d \<in> set (to_llm_dict c) \<Longrightarrow> str_item d"
    using to_llm_dict_text [of d s b] by (simp add: str_item_def)
next
  case (ImageContent urls b)
  then show "d \<in> set (to_llm_dict c) \<Longrightarrow> str_item d"
    using image_dict_no_text [of d urls b] by (simp add: str_item_def)
qed

lemma str_item_truncate_item: "str_item d \<Longrightarrow> str_item (truncate_item d)"
  by (auto simp: truncate_item_def str_item_def split: option.splits json.splits)

lemma str_item_item_dicts: "d \<in> set (item_dicts r c) \<Longrightarrow> str_item d"
proof -
  have "\<And>e. str_item e \<Longrightarrow> str_item (pop_key ''cache_control'' e)"
    by (simp add: str_item_def)
  then show "d \<in> set (item_dicts r c) \<Longrightarrow> str_item d"
    by (auto simp: item_dicts_def Let_def split: if_splits
        intro: str_item_truncate_item str_item_to_llm_dict)
qed

lemma normalized_items_total:
  "\<forall>d \<in> set ds. str_item d \<Longrightarrow>
     \<exists>es. normalized_items (map JObj ds) = Inr (map JObj es) \<and> set es \<subseteq> set ds"
proof (induction ds)
  case (Cons d ds)
  then obtain es where es: "normalized_items (map JObj ds) = Inr (map JObj es)" "set es \<subseteq> set ds"
    by auto
  have "str_item d" using Cons.prems by simp
  then consider "map_of d ''text'' = None" | s where "map_of d ''text'' = Some (JStr s)"
    by (cases "map_of d ''text''") (auto simp: str_item_def)
  then have "normalized_items (map JObj (d # ds)) \<in> {Inr (map JObj es), Inr (map JObj (d # es))}"
    by cases (auto simp: es(1))
  moreover have "set es \<subseteq> set (d # ds)" "set (d # es) \<subseteq> set (d # ds)" using es(2) by auto
  ultimately show ?case by (metis insertE singletonD)
qed (auto intro: exI [of _ "[]"])

text \<open>The content of a serialized message: a string or a list of items with string texts.\<close>

definition item_text_le :: "nat \<Rightarrow> dict \<Rightarrow> bool" where
  "item_text_le n d \<longleftrightarrow> (\<forall>s. map_of d ''text'' = Some (JStr s) \<longrightarrow> length s \<le> n)"

fun content_le :: "nat \<Rightarrow> json option \<Rightarrow> bool" where
  "content_le n (Some (JStr s)) = (length s \<le> n)"
| "content_le n (Some (JList items)) =
     list_all (\<lambda>i. case i of JObj d \<Rightarrow> item_text_le n d | _ \<Rightarrow> True) items"
| "content_le n _ = True"

definition proper_content :: "json option \<Rightarrow> bool" where
  "proper_content c \<longleftrightarrow>
     (\<exists>s. c = Some (JStr s)) \<or> (\<exists>ds. c = Some (JList (map JObj ds)) \<and> (\<forall>d \<in> set ds. str_item d))"

lemma proper_string_serializer: "proper_content (map_of (string_serializer m) ''content'')"
  by (simp add: string_serializer_def proper_content_def Let_def)

lemma list_serializer_content:
  "map_of (list_serializer m v) ''content'' =
     Some (JList (map JObj (concat (map (item_dicts (m_role m))
       (filter (\<lambda>c. is_image c \<longrightarrow> v) (m_content m))))))"
  by (simp add: list_serializer_def Let_def)

lemma proper_list_serializer: "proper_content (map_of (list_serializer m v) ''content'')"
  unfolding list_serializer_content proper_content_def
  by (rule disjI2, intro exI conjI, rule refl) (auto intro: str_item_item_dicts)

lemma remove_content_total:
  assumes "proper_content (map_of d ''content'')"
  shows "\<exists>e. remove_content_if_empty d = Inr e \<and> (\<forall>k. k \<noteq> ''content'' \<longrightarrow> map_of e k = map_of d k) \<and>
     (content_le n (map_of d ''content'') \<longrightarrow> content_le n (map_of e ''content''))"
proof -
  from assms consider s where "map_of d ''content'' = Some (JStr s)"
    | ds where "map_of d ''content'' = Some (JList (map JObj ds))" "\<forall>d \<in> set ds. str_item d"
    by (auto simp: proper_content_def)
  then show ?thesis
  proof cases
    case 1
    then show ?thesis by (simp add: remove_content_if_empty_def)
  next
    case 2
    from normalized_items_total [OF 2(2)] obtain es
      where "normalized_items (map JObj ds) = Inr (map JObj es)" "set es \<subseteq> set ds" by blast
    with 2(1) show ?thesis
      by (auto simp: remove_content_if_empty_def list_all_iff)
  qed
qed

lemma maybe_truncate_tool_text_le: "length (maybe_truncate_tool_text s) \<le> 50000"
  using maybe_truncate_length [of DEFAULT_TEXT_CONTENT_LIMIT s]
  by (auto simp: maybe_truncate_tool_text_def DEFAULT_TEXT_CONTENT_LIMIT_def)

lemma tool_item_le: "d \<in> set (item_dicts RTool c) \<Longrightarrow> item_text_le 50000 d"
proof -
  have items: "item_text_le 50000 (truncate_item d)" if "d \<in> set (to_llm_dict c)" for d
  proof (cases c)
    case (TextContent s b)
    with that show ?thesis
      by (auto simp: truncate_item_def item_text_le_def Let_def maybe_truncate_tool_text_le
          split: if_splits)
  next
    case (ImageContent urls b)
    with that have "map_of d ''text'' = None" using image_dict_no_text by blast
    then show ?thesis by (simp add: truncate_item_def item_text_le_def)
  qed
  have "\<And>e. item_text_le 50000 e \<Longrightarrow> item_text_le 50000 (pop_key ''cache_control'' e)"
    by (simp add: item_text_le_def)
  with items show "d \<in> set (item_dicts RTool c) \<Longrightarrow> item_text_le 50000 d"
    by (auto simp: item_dicts_def Let_def split: if_splits)
qed

lemma tool_serializers_le:
  assumes "m_role m = RTool"
  shows "content_le 50000 (map_of (string_serializer m) ''content'')"
    and "content_le 50000 (map_of (list_serializer m v) ''content'')"
  using assms
  by (auto simp: string_serializer_def Let_def maybe_truncate_tool_text_le list_serializer_content
      list_all_iff intro: tool_item_le)

text \<open>The three stages of \<open>to_chat_dict\<close>, and the one input on which it fails.\<close>

lemma to_chat_dict_stages:
  obtains d0 d1 where "proper_content (map_of d0 ''content'')"
    and "d0 = list_serializer m ve \<or> d0 = string_serializer m"
    and "\<And>k. k \<notin> {''content'', ''tool_calls''} \<Longrightarrow> map_of d1 k = map_of d0 k"
    and "\<And>n. content_le n (map_of d0 ''content'') \<Longrightarrow> content_le n (map_of d1 ''content'')"
    and "to_chat_dict m ce ve fc fstr sr =
      bind_res (case m_tool_call_id m of
          Some tcid \<Rightarrow>
            (if m_role m = RTool then
               (case m_name m of
                  None \<Rightarrow> Inl (MsgAssertionError ''name is required when tool_call_id is not None'')
                | Some n \<Rightarrow> Inr (set_key ''name'' (JStr n) (set_key ''tool_call_id'' (JStr tcid) d1)))
             else Inr d1)
        | None \<Rightarrow> Inr d1)
      (\<lambda>d2. Inr (case m_reasoning_content m of
          Some rc \<Rightarrow> (if sr \<and> rc \<noteq> [] then set_key ''reasoning_content'' (JStr rc) d2 else d2)
        | None \<Rightarrow> d2))"
proof -
  define d0 where "d0 = (if \<not> fstr \<and> (ce \<or> ve \<or> fc) then list_serializer m ve else string_serializer m)"
  have p: "proper_content (map_of d0 ''content'')"
    by (simp add: d0_def proper_list_serializer proper_string_serializer)
  define c where "c tcs = set_key ''tool_calls'' (JList (map (JObj \<circ> tool_call_chat_dict) tcs)) d0" for tcs
  have pc: "proper_content (map_of (c tcs) ''content'')" for tcs using p by (simp add: c_def)
  obtain d1 where d1: "(case m_tool_calls m of
              Some tcs \<Rightarrow>
                (if m_role m = RAssistant \<and> tcs \<noteq> [] then remove_content_if_empty (c tcs) else Inr d0)
            | None \<Rightarrow> Inr d0) = Inr d1"
    and keep: "\<forall>k. k \<notin> {''content'', ''tool_calls''} \<longrightarrow> map_of d1 k = map_of d0 k"
    and le: "\<forall>n. content_le n (map_of d0 ''content'') \<longrightarrow> content_le n (map_of d1 ''content'')"
  proof (cases "\<exists>tcs. m_tool_calls m = Some tcs \<and> m_role m = RAssistant \<and> tcs \<noteq> []")
    case True
    then obtain tcs where t: "m_tool_calls m = Some tcs" "m_role m = RAssistant" "tcs \<noteq> []" by blast
    obtain e where e: "remove_content_if_empty (c tcs) = Inr e"
      using remove_content_total [OF pc [of tcs]] by blast
    then have "\<forall>k. k \<noteq> ''content'' \<longrightarrow> map_of e k = map_of (c tcs) k"
      "\<And>n. content_le n (map_of (c tcs) ''content'') \<Longrightarrow> content_le n (map_of e ''content'')"
      using remove_content_total [OF pc [of tcs]] by (metis sum.inject(2))+
    with e t show ?thesis by (intro that [of e]) (auto simp: c_def)
  next
    case False
    then show ?thesis by (intro that [of d0]) (auto split: option.splits)
  qed
  show ?thesis
  proof (rule that [of d0 d1])
    show "d0 = list_serializer m ve \<or> d0 = string_serializer m" by (simp add: d0_def)
    show "to_chat_dict m ce ve fc fstr sr =
      bind_res (case m_tool_call_id m of
          Some tcid \<Rightarrow>
            (if m_role m = RTool then
               (case m_name m of
                  None \<Rightarrow> Inl (MsgAssertionError ''name is required when tool_call_id is not None'')
                | Some n \<Rightarrow> Inr (set_key ''name'' (JStr n) (set_key ''tool_call_id'' (JStr tcid) d1)))
             else Inr d1)
        | None \<Rightarrow> Inr d1)
      (\<lambda>d2. Inr (case m_reasoning_content m of
          Some rc \<Rightarrow> (if sr \<and> rc \<noteq> [] then set_key ''reasoning_content'' (JStr rc) d2 else d2)
        | None \<Rightarrow> d2))"
      by (simp only: to_chat_dict_def Let_def flip: d0_def c_def) (simp only: d1 bind_res.simps)
  qed (use p keep le in auto)
qed

lemma to_chat_dict_total:
  "(\<exists>d. to_chat_dict m ce ve fc fstr sr = Inr d) \<longleftrightarrow>
     \<not> (m_role m = RTool \<and> m_tool_call_id m \<noteq> None \<and> m_name m = None)"
  by (rule to_chat_dict_stages [of m ve ce fc fstr sr]) (auto split: option.splits)

section \<open>Properties\<close>

text \<open>
  A tool result that names its call and its tool always serializes, whichever serializer the
  provider's flags choose: the dictionary has the role, the tool call id and the name of the
  message, and no text in its content is longer than 50000 characters.
\<close>

theorem tool_message_serializes:
  assumes "m_role m = RTool" and "m_tool_call_id m = Some tcid" and "m_name m = Some n"
  shows "\<exists>d. to_chat_dict m cache vision function_calling force_string send_reasoning = Inr d \<and>
     map_of d ''role'' = Some (JStr ''tool'') \<and> map_of d ''tool_call_id'' = Some (JStr tcid) \<and>
     map_of d ''name'' = Some (JStr n) \<and> content_le 50000 (map_of d ''content'')"
proof -
  obtain d0 d1 where *: "d0 = list_serializer m vision \<or> d0 = string_serializer m"
    "\<And>k. k \<notin> {''content'', ''tool_calls''} \<Longrightarrow> map_of d1 k = map_of d0 k"
    "\<And>n. content_le n (map_of d0 ''content'') \<Longrightarrow> content_le n (map_of d1 ''content'')"
    and r: "to_chat_dict m cache vision function_calling force_string send_reasoning =
      Inr (case m_reasoning_content m of
          Some rc \<Rightarrow> (if send_reasoning \<and> rc \<noteq> []
             then set_key ''reasoning_content'' (JStr rc) (set_key ''name'' (JStr n) (set_key ''tool_call_id'' (JStr tcid) d1))
             else set_key ''name'' (JStr n) (set_key ''tool_call_id'' (JStr tcid) d1))
        | None \<Rightarrow> set_key ''name'' (JStr n) (set_key ''tool_call_id'' (JStr tcid) d1))"
    by (rule to_chat_dict_stages [of m vision cache function_calling force_string send_reasoning])
      (use assms in auto)
  have "content_le 50000 (map_of d0 ''content'')"
    using *(1) tool_serializers_le [OF assms(1)] by auto
  moreover have "map_of d0 ''role'' = Some (JStr ''tool'')"
    using *(1) assms(1) by (auto simp: list_serializer_def string_serializer_def Let_def)
  ultimately show ?thesis using *(2,3) r by (auto split: option.splits)
qed

theorem tool_message_serializes_witness:
  "\<exists>d. to_chat_dict (new_message RTool [text_content ''ok'']
      \<lparr>m_tool_call_id := Some ''call_1'', m_name := Some ''terminal''\<rparr>) True False True False False = Inr d \<and>
     map_of d ''role'' = Some (JStr ''tool'') \<and> map_of d ''tool_call_id'' = Some (JStr ''call_1'') \<and>
     map_of d ''name'' = Some (JStr ''terminal'') \<and> content_le 50000 (map_of d ''content'')"
  by (rule tool_message_serializes) (simp_all add: new_message_def)

end
