(* ===== verification/Events.thy ===== *)
theory Events
  imports Risk Messages
begin

text \<open>
  The events of a conversation (\<open>sdk/event\<close>): one constructor per event class over a record of
  its fields, the conversion of an event stream to LLM messages
  (\<open>LLMConvertibleEvent.events_to_messages\<close>) and the application of a condensation
  (\<open>Condensation.apply\<close>). Timestamps and the rich-text rendering are left out. The lemmas
  follow the tool calls and the tool results from the events into the messages.
\<close>

section \<open>Actions and observations\<close>

text \<open>
  An action is an object of a tool's action class: the finish and think actions the agent tests
  for, any other class by its name and dumped fields. \<open>Observation\<close> has the content sent to
  the LLM and the error flag; other fields of a subclass are its dump.
\<close>

datatype action = FinishAction string | ThinkAction string | ToolAction string dict

record observation =
  ob_kind :: string
  ob_content :: "content list"
  ob_is_error :: bool
  ob_fields :: dict

definition ERROR_MESSAGE_HEADER :: string where
  "ERROR_MESSAGE_HEADER = ''[An error occurred during execution.]'' @ [newline]"

definition observation_from_text :: "string \<Rightarrow> string \<Rightarrow> bool \<Rightarrow> dict \<Rightarrow> observation" where
  "observation_from_text kind txt is_error flds =
     \<lparr>ob_kind = kind, ob_content = [text_content txt], ob_is_error = is_error, ob_fields = flds\<rparr>"

definition observation_text :: "observation \<Rightarrow> string" where
  "observation_text ob = concat (texts_of (ob_content ob))"

definition to_llm_content :: "observation \<Rightarrow> content list" where
  "to_llm_content ob =
     (if ob_is_error ob then [text_content ERROR_MESSAGE_HEADER] else []) @ ob_content ob"

section \<open>Event classes\<close>

datatype source_type = SrcAgent | SrcUser | SrcEnvironment | SrcHook

datatype rejection_source = RejectedByUser | RejectedByHook

record action_event =
  ae_id :: string
  ae_source :: source_type
  ae_thought :: "content list"
  ae_reasoning_content :: "string option"
  ae_thinking_blocks :: "thinking_block list"
  ae_responses_reasoning_item :: "reasoning_item option"
  ae_action :: "action option"
  ae_tool_name :: string
  ae_tool_call_id :: string
  ae_tool_call :: message_tool_call
  ae_llm_response_id :: string
  ae_security_risk :: security_risk
  ae_critic_result :: "json option"
  ae_summary :: "string option"

record message_event =
  me_id :: string
  me_source :: source_type
  me_llm_message :: message
  me_llm_response_id :: "string option"
  me_activated_skills :: "string list"
  me_extended_content :: "content list"
  me_sender :: "string option"
  me_critic_result :: "json option"

record system_prompt_event =
  sp_id :: string
  sp_source :: source_type
  sp_system_prompt :: content
  sp_tools :: "string list"
  sp_dynamic_context :: "content option"

record observation_event =
  oe_id :: string
  oe_source :: source_type
  oe_tool_name :: string
  oe_tool_call_id :: string
  oe_observation :: observation
  oe_action_id :: string

record user_reject_observation =
  ur_id :: string
  ur_source :: source_type
  ur_tool_name :: string
  ur_tool_call_id :: string
  ur_rejection_reason :: string
  ur_rejection_source :: rejection_source
  ur_action_id :: string

record agent_error_event =
  er_id :: string
  er_source :: source_type
  er_tool_name :: string
  er_tool_call_id :: string
  er_error :: string

record condensation_summary_event =
  cs_id :: string
  cs_source :: source_type
  cs_summary :: string

record condensation =
  cd_id :: string
  cd_source :: source_type
  cd_forgotten_event_ids :: "string set"
  cd_summary :: "string option"
  cd_summary_offset :: "nat option"
  cd_llm_response_id :: string

record hook_execution_event =
  he_id :: string
  he_source :: source_type
  he_hook_event_type :: string
  he_hook_command :: string
  he_tool_name :: "string option"
  he_success :: bool
  he_blocked :: bool
  he_exit_code :: int
  he_stdout :: string
  he_stderr :: string
  he_reason :: "string option"
  he_additional_context :: "string option"
  he_error :: "string option"
  he_action_id :: "string option"
  he_message_id :: "string option"
  he_hook_input :: "dict option"

datatype event =
    SystemPromptEvent system_prompt_event
  | MessageEvent message_event
  | ActionEvent action_event
  | ObservationEvent observation_event
  | UserRejectObservation user_reject_observation
  | AgentErrorEvent agent_error_event
  | CondensationSummaryEvent condensation_summary_event
  | Condensation condensation
  | CondensationRequest string source_type
  | PauseEvent string source_type
  | InterruptEvent string source_type
  | ConversationErrorEvent string source_type string string
  | ConversationStateUpdateEvent string source_type string json
  | TokenEvent string source_type "int list" "int list"
  | HookExecutionEvent hook_execution_event
  | ACPToolCallEvent string source_type string
  | StreamingDeltaEvent string source_type "string option" "string option"
  | LLMCompletionLogEvent string source_type string string

fun event_id :: "event \<Rightarrow> string" where
  "event_id (SystemPromptEvent e) = sp_id e"
| "event_id (MessageEvent e) = me_id e"
| "event_id (ActionEvent e) = ae_id e"
| "event_id (ObservationEvent e) = oe_id e"
| "event_id (UserRejectObservation e) = ur_id e"
| "event_id (AgentErrorEvent e) = er_id e"
| "event_id (CondensationSummaryEvent e) = cs_id e"
| "event_id (Condensation e) = cd_id e"
| "event_id (CondensationRequest i _) = i"
| "event_id (PauseEvent i _) = i"
| "event_id (InterruptEvent i _) = i"
| "event_id (ConversationErrorEvent i _ _ _) = i"
| "event_id (ConversationStateUpdateEvent i _ _ _) = i"
| "event_id (TokenEvent i _ _ _) = i"
| "event_id (HookExecutionEvent e) = he_id e"
| "event_id (ACPToolCallEvent i _ _) = i"
| "event_id (StreamingDeltaEvent i _ _ _) = i"
| "event_id (LLMCompletionLogEvent i _ _ _) = i"

fun event_source :: "event \<Rightarrow> source_type" where
  "event_source (SystemPromptEvent e) = sp_source e"
| "event_source (MessageEvent e) = me_source e"
| "event_source (ActionEvent e) = ae_source e"
| "event_source (ObservationEvent e) = oe_source e"
| "event_source (UserRejectObservation e) = ur_source e"
| "event_source (AgentErrorEvent e) = er_source e"
| "event_source (CondensationSummaryEvent e) = cs_source e"
| "event_source (Condensation e) = cd_source e"
| "event_source (CondensationRequest _ s) = s"
| "event_source (PauseEvent _ s) = s"
| "event_source (InterruptEvent _ s) = s"
| "event_source (ConversationErrorEvent _ s _ _) = s"
| "event_source (ConversationStateUpdateEvent _ s _ _) = s"
| "event_source (TokenEvent _ s _ _) = s"
| "event_source (HookExecutionEvent e) = he_source e"
| "event_source (ACPToolCallEvent _ s _) = s"
| "event_source (StreamingDeltaEvent _ s _ _) = s"
| "event_source (LLMCompletionLogEvent _ s _ _) = s"

text \<open>The subclasses of \<open>LLMConvertibleEvent\<close> and of \<open>ObservationBaseEvent\<close>.\<close>

fun is_llm_convertible :: "event \<Rightarrow> bool" where
  "is_llm_convertible (SystemPromptEvent _) = True"
| "is_llm_convertible (MessageEvent _) = True"
| "is_llm_convertible (ActionEvent _) = True"
| "is_llm_convertible (ObservationEvent _) = True"
| "is_llm_convertible (UserRejectObservation _) = True"
| "is_llm_convertible (AgentErrorEvent _) = True"
| "is_llm_convertible (CondensationSummaryEvent _) = True"
| "is_llm_convertible _ = False"

fun is_action :: "event \<Rightarrow> bool" where
  "is_action (ActionEvent _) = True"
| "is_action _ = False"

fun is_observation :: "event \<Rightarrow> bool" where
  "is_observation (ObservationEvent _) = True"
| "is_observation (UserRejectObservation _) = True"
| "is_observation (AgentErrorEvent _) = True"
| "is_observation _ = False"

fun is_user_message :: "event \<Rightarrow> bool" where
  "is_user_message (MessageEvent e) = (me_source e = SrcUser)"
| "is_user_message _ = False"

text \<open>The tool call an action makes or an observation answers.\<close>

fun action_call :: "event \<Rightarrow> string option" where
  "action_call (ActionEvent e) = Some (ae_tool_call_id e)"
| "action_call _ = None"

fun observed_call :: "event \<Rightarrow> string option" where
  "observed_call (ObservationEvent e) = Some (oe_tool_call_id e)"
| "observed_call (UserRejectObservation e) = Some (ur_tool_call_id e)"
| "observed_call (AgentErrorEvent e) = Some (er_tool_call_id e)"
| "observed_call _ = None"

lemma is_action_iff: "is_action e \<longleftrightarrow> (\<exists>a. e = ActionEvent a)"
  by (cases e) auto

lemma is_action_call: "is_action e \<longleftrightarrow> action_call e \<noteq> None"
  by (cases e) auto

lemma is_observation_call: "is_observation e \<longleftrightarrow> observed_call e \<noteq> None"
  by (cases e) auto

lemma action_call_Some: "action_call e = Some t \<longleftrightarrow> (\<exists>a. e = ActionEvent a \<and> ae_tool_call_id a = t)"
  by (cases e) auto

lemma action_not_observation: "action_call e = Some t \<Longrightarrow> observed_call e = None"
  by (cases e) auto

section \<open>Conversion to messages\<close>

datatype event_error = EvAssertionError string | EvValueError string | EvAttributeError

text \<open>\<open>to_llm_message\<close> of every convertible class; the other classes have no such method.\<close>

definition action_message :: "action_event \<Rightarrow> message" where
  "action_message e = (new_message RAssistant (ae_thought e))
     \<lparr>m_tool_calls := Some [ae_tool_call e],
      m_reasoning_content := ae_reasoning_content e,
      m_thinking_blocks := ae_thinking_blocks e,
      m_responses_reasoning_item := ae_responses_reasoning_item e\<rparr>"

definition tool_message :: "content list \<Rightarrow> string \<Rightarrow> string \<Rightarrow> message" where
  "tool_message c tool_name tool_call_id =
     (new_message RTool c)\<lparr>m_name := Some tool_name, m_tool_call_id := Some tool_call_id\<rparr>"

fun to_llm_message :: "event \<Rightarrow> (event_error, message) result" where
  "to_llm_message (SystemPromptEvent e) =
     Inr (new_message RSystem
       (case sp_dynamic_context e of
          Some c \<Rightarrow> [sp_system_prompt e, c] | None \<Rightarrow> [sp_system_prompt e]))"
| "to_llm_message (MessageEvent e) =
     Inr ((me_llm_message e)
       \<lparr>m_content := m_content (me_llm_message e) @ me_extended_content e\<rparr>)"
| "to_llm_message (ActionEvent e) = Inr (action_message e)"
| "to_llm_message (ObservationEvent e) =
     Inr (tool_message (to_llm_content (oe_observation e)) (oe_tool_name e) (oe_tool_call_id e))"
| "to_llm_message (UserRejectObservation e) =
     Inr (tool_message [text_content (''Action rejected: '' @ ur_rejection_reason e)]
       (ur_tool_name e) (ur_tool_call_id e))"
| "to_llm_message (AgentErrorEvent e) =
     Inr (tool_message [text_content (er_error e)] (er_tool_name e) (er_tool_call_id e))"
| "to_llm_message (CondensationSummaryEvent e) =
     Inr (new_message RUser [text_content (cs_summary e)])"
| "to_llm_message _ = Inl EvAttributeError"

text \<open>\<open>_combine_action_events\<close>, for a batch given by its first action and the others.\<close>

definition combine_action_events ::
    "action_event \<Rightarrow> action_event list \<Rightarrow> (event_error, message) result" where
  "combine_action_events e es =
     (if es = [] then Inr (action_message e)
      else if list_ex (\<lambda>x. ae_thought x \<noteq> []) es then
        Inl (EvAssertionError ''Expected empty thought for multi-action events after the first one'')
      else Inr ((new_message RAssistant (ae_thought e))
        \<lparr>m_tool_calls := Some (map ae_tool_call (e # es)),
         m_reasoning_content := ae_reasoning_content e,
         m_thinking_blocks := ae_thinking_blocks e\<rparr>))"

text \<open>The look-ahead: the actions with this response id that follow without a gap, and the rest.\<close>

fun take_batch :: "string \<Rightarrow> event list \<Rightarrow> action_event list \<times> event list" where
  "take_batch rid (ActionEvent a # es) =
     (if ae_llm_response_id a = rid
      then (let (as, rest) = take_batch rid es in (a # as, rest))
      else ([], ActionEvent a # es))"
| "take_batch rid es = ([], es)"

lemma take_batch_eq: "take_batch rid es = (as, rest) \<Longrightarrow> es = map ActionEvent as @ rest"
proof (induction rid es arbitrary: as rule: take_batch.induct)
  case (1 rid a es)
  obtain as' rest' where t: "take_batch rid es = (as', rest')" by (cases "take_batch rid es")
  with 1 show ?case by (cases "ae_llm_response_id a = rid") auto
qed auto

lemma take_batch_length [termination_simp]:
  "length (snd (take_batch rid es)) < Suc (length es)"
  using take_batch_eq [of rid es] by (cases "take_batch rid es") auto

fun events_to_messages :: "event list \<Rightarrow> (event_error, message list) result" where
  "events_to_messages [] = Inr []"
| "events_to_messages (e # es) =
     (case e of
        ActionEvent a \<Rightarrow>
          bind_res (combine_action_events a (fst (take_batch (ae_llm_response_id a) es)))
            (\<lambda>m. bind_res (events_to_messages (snd (take_batch (ae_llm_response_id a) es)))
               (\<lambda>ms. Inr (m # ms)))
      | _ \<Rightarrow>
          bind_res (to_llm_message e)
            (\<lambda>m. bind_res (events_to_messages es) (\<lambda>ms. Inr (m # ms))))"

section \<open>Display strings\<close>

text \<open>\<open>str(event)\<close> of the convertible classes, what a summarizing prompt quotes.\<close>

definition N_CHAR_PREVIEW :: nat where
  "N_CHAR_PREVIEW = 500"

fun source_str :: "source_type \<Rightarrow> string" where
  "source_str SrcAgent = ''agent''"
| "source_str SrcUser = ''user''"
| "source_str SrcEnvironment = ''environment''"
| "source_str SrcHook = ''hook''"

definition event_base_str :: "string \<Rightarrow> source_type \<Rightarrow> string" where
  "event_base_str cls src = cls @ '' ('' @ source_str src @ '')''"

definition preview :: "string \<Rightarrow> string" where
  "preview s = (if length s > N_CHAR_PREVIEW then take N_CHAR_PREVIEW s @ ''...'' else s)"

definition content_preview :: "string \<Rightarrow> string" where
  "content_preview s =
     (if length s > N_CHAR_PREVIEW then take (N_CHAR_PREVIEW - 3) s @ ''...'' else s)"

definition nl_indent :: string where
  "nl_indent = newline # ''  ''"

fun action_class_name :: "action \<Rightarrow> string" where
  "action_class_name (FinishAction _) = ''FinishAction''"
| "action_class_name (ThinkAction _) = ''ThinkAction''"
| "action_class_name (ToolAction cls _) = cls"

definition action_str :: "action_event \<Rightarrow> string" where
  "action_str e =
     (let base_str = event_base_str ''ActionEvent'' (ae_source e);
          thought_preview = preview (py_join '' '' (texts_of (ae_thought e)))
      in case ae_action e of
           Some a \<Rightarrow> base_str @ nl_indent @ ''Thought: '' @ thought_preview @ nl_indent @
             ''Action: '' @ action_class_name a
         | None \<Rightarrow> base_str @ nl_indent @ ''Thought: '' @ thought_preview @ nl_indent @
             ''Action: (not executed)'' @ nl_indent @ ''Call: '' @
             tc_name (ae_tool_call e) @ '':'' @ tc_id (ae_tool_call e))"

definition observation_str :: "observation_event \<Rightarrow> string" where
  "observation_str e =
     event_base_str ''ObservationEvent'' (oe_source e) @ nl_indent @ ''Tool: '' @ oe_tool_name e @
     nl_indent @ ''Result: '' @ preview (concat (content_to_str (to_llm_content (oe_observation e))))"

definition reject_str :: "user_reject_observation \<Rightarrow> string" where
  "reject_str e =
     event_base_str ''UserRejectObservation'' (ur_source e) @ nl_indent @ ''Tool: '' @
     ur_tool_name e @ nl_indent @ ''Reason: '' @ preview (ur_rejection_reason e)"

definition error_str :: "agent_error_event \<Rightarrow> string" where
  "error_str e =
     event_base_str ''AgentErrorEvent'' (er_source e) @ nl_indent @ ''Error: '' @ preview (er_error e)"

definition system_prompt_str :: "system_prompt_event \<Rightarrow> string" where
  "system_prompt_str e =
     event_base_str ''SystemPromptEvent'' (sp_source e) @ nl_indent @ ''System: '' @
     preview (content_str (sp_system_prompt e)) @ nl_indent @ ''Tools: '' @
     show_nat (length (sp_tools e)) @ '' available'' @
     (case sp_dynamic_context e of
        Some c \<Rightarrow> nl_indent @ ''Dynamic Context: '' @ show_nat (length (content_str c)) @ '' chars''
      | None \<Rightarrow> [])"

definition message_event_str :: "message_event \<Rightarrow> string" where
  "message_event_str e =
     (let base_str = event_base_str ''MessageEvent'' (me_source e);
          message = (me_llm_message e)\<lparr>m_content := m_content (me_llm_message e) @ me_extended_content e\<rparr>;
          text_parts = content_to_str (m_content message);
          skill_info = (if me_activated_skills e = [] then []
             else '' [Skills: '' @ py_join '', '' (me_activated_skills e) @ '']'');
          thinking_info = (if m_thinking_blocks message = [] then []
             else '' [Thinking blocks: '' @ show_nat (length (m_thinking_blocks message)) @ '']'')
      in base_str @ nl_indent @ role_str (m_role message) @ '': '' @
         (if text_parts = [] then ''[no text content]''
          else content_preview (py_join '' '' text_parts) @ skill_info @ thinking_info))"

text \<open>\<open>LLMConvertibleEvent.__str__\<close>, which the summary event inherits.\<close>

definition convertible_str :: "string \<Rightarrow> source_type \<Rightarrow> message \<Rightarrow> string" where
  "convertible_str cls src m =
     event_base_str cls src @ nl_indent @ role_str (m_role m) @ '': '' @
     (let text_parts = content_to_str (m_content m)
      in if text_parts = [] then ''[no text content]''
         else content_preview (py_join '' '' text_parts))"

fun event_str :: "event \<Rightarrow> string option" where
  "event_str (SystemPromptEvent e) = Some (system_prompt_str e)"
| "event_str (MessageEvent e) = Some (message_event_str e)"
| "event_str (ActionEvent e) = Some (action_str e)"
| "event_str (ObservationEvent e) = Some (observation_str e)"
| "event_str (UserRejectObservation e) = Some (reject_str e)"
| "event_str (AgentErrorEvent e) = Some (error_str e)"
| "event_str (CondensationSummaryEvent e) =
     Some (convertible_str ''CondensationSummaryEvent'' (cs_source e)
       (new_message RUser [text_content (cs_summary e)]))"
| "event_str _ = None"

section \<open>Condensations\<close>

text \<open>\<open>summary_event\<close>, \<open>has_summary_metadata\<close> and \<open>apply\<close> of a condensation.\<close>

definition summary_event :: "condensation \<Rightarrow> (event_error, event) result" where
  "summary_event c =
     (case cd_summary c of
        None \<Rightarrow> Inl (EvValueError ''No summary present to generate CondensationSummaryEvent.'')
      | Some s \<Rightarrow>
          Inr (CondensationSummaryEvent
            \<lparr>cs_id = cd_id c @ ''-summary'', cs_source = cd_source c, cs_summary = s\<rparr>))"

definition has_summary_metadata :: "condensation \<Rightarrow> bool" where
  "has_summary_metadata c \<longleftrightarrow> cd_summary c \<noteq> None \<and> cd_summary_offset c \<noteq> None"

definition apply_condensation :: "condensation \<Rightarrow> event list \<Rightarrow> event list" where
  "apply_condensation c events =
     (let output = filter (\<lambda>e. event_id e \<notin> cd_forgotten_event_ids c) events
      in if has_summary_metadata c then
           (case summary_event c of
              Inr s \<Rightarrow> py_insert (the (cd_summary_offset c)) s output
            | Inl _ \<Rightarrow> output)
         else output)"

definition new_summary :: "condensation \<Rightarrow> string \<Rightarrow> event" where
  "new_summary c s = CondensationSummaryEvent
     \<lparr>cs_id = cd_id c @ ''-summary'', cs_source = cd_source c, cs_summary = s\<rparr>"

lemma apply_condensation_cases:
  "apply_condensation c es =
     (let kept = filter (\<lambda>e. event_id e \<notin> cd_forgotten_event_ids c) es
      in case (cd_summary c, cd_summary_offset c) of
           (Some s, Some off) \<Rightarrow> take off kept @ new_summary c s # drop off kept
         | _ \<Rightarrow> kept)"
  by (auto simp: apply_condensation_def has_summary_metadata_def summary_event_def new_summary_def
      py_insert_def Let_def split: option.splits)

section \<open>Tool calls and results in the messages\<close>

text \<open>The tool calls the assistant messages carry, and the calls the tool messages answer.\<close>

definition called :: "message list \<Rightarrow> message_tool_call list" where
  "called ms = concat (map (\<lambda>m. case m_tool_calls m of Some tcs \<Rightarrow> tcs | None \<Rightarrow> []) ms)"

definition answered :: "message list \<Rightarrow> string list" where
  "answered ms = List.map_filter m_tool_call_id ms"

definition event_calls :: "event list \<Rightarrow> message_tool_call list" where
  "event_calls es = List.map_filter (\<lambda>e. case e of ActionEvent a \<Rightarrow> Some (ae_tool_call a) | _ \<Rightarrow> None) es"

definition event_answers :: "event list \<Rightarrow> string list" where
  "event_answers es = List.map_filter observed_call es"

text \<open>A message event carries text, neither tool calls nor a tool result.\<close>

fun plain_message :: "event \<Rightarrow> bool" where
  "plain_message (MessageEvent e) =
     (m_tool_calls (me_llm_message e) = None \<and> m_tool_call_id (me_llm_message e) = None)"
| "plain_message _ = True"

lemma called_simps [simp]:
  "called [] = []"
  "called (m # ms) = (case m_tool_calls m of Some tcs \<Rightarrow> tcs | None \<Rightarrow> []) @ called ms"
  by (simp_all add: called_def)

lemma answered_simps [simp]:
  "answered [] = []"
  "answered (m # ms) = (case m_tool_call_id m of Some t \<Rightarrow> t # answered ms | None \<Rightarrow> answered ms)"
  by (simp_all add: answered_def List.map_filter_def split: option.splits)

lemma event_calls_simps [simp]:
  "event_calls [] = []"
  "event_calls (e # es) = (case e of ActionEvent a \<Rightarrow> ae_tool_call a # event_calls es | _ \<Rightarrow> event_calls es)"
  by (simp_all add: event_calls_def List.map_filter_def split: event.splits)

lemma event_answers_simps [simp]:
  "event_answers [] = []"
  "event_answers (e # es) =
     (case observed_call e of Some t \<Rightarrow> t # event_answers es | None \<Rightarrow> event_answers es)"
  by (simp_all add: event_answers_def List.map_filter_def split: option.splits)

lemma event_calls_batch: "event_calls (map ActionEvent as @ es) = map ae_tool_call as @ event_calls es"
  by (induction as) auto

lemma event_answers_batch: "event_answers (map ActionEvent as @ es) = event_answers es"
  by (induction as) auto

lemma new_message_simps [simp]:
  "m_role (new_message r c) = r" "m_content (new_message r c) = c"
  "m_tool_calls (new_message r c) = None" "m_tool_call_id (new_message r c) = None"
  "m_name (new_message r c) = None" "m_reasoning_content (new_message r c) = None"
  by (simp_all add: new_message_def)

lemma combine_action_events_message:
  "combine_action_events e es = Inr m \<Longrightarrow>
     m_tool_calls m = Some (map ae_tool_call (e # es)) \<and> m_tool_call_id m = None"
  by (auto simp: combine_action_events_def action_message_def split: if_splits)

text \<open>
  The batches the agent emits: an action that follows an action of the same response carries no
  thought of its own.
\<close>

fun thoughts_ok :: "event list \<Rightarrow> bool" where
  "thoughts_ok (ActionEvent a # ActionEvent b # es) =
     ((ae_llm_response_id a = ae_llm_response_id b \<longrightarrow> ae_thought b = []) \<and>
      thoughts_ok (ActionEvent b # es))"
| "thoughts_ok (e # es) = thoughts_ok es"
| "thoughts_ok [] = True"

lemma thoughts_ok_tl: "thoughts_ok (e # es) \<Longrightarrow> thoughts_ok es"
  by (induction "e # es" rule: thoughts_ok.induct) auto

lemma take_batch_thoughts:
  "thoughts_ok (ActionEvent a # es) \<Longrightarrow> take_batch (ae_llm_response_id a) es = (as, rest) \<Longrightarrow>
     (\<forall>b \<in> set as. ae_thought b = []) \<and> thoughts_ok rest"
proof (induction as arbitrary: a es)
  case Nil
  then show ?case using take_batch_eq [of _ es] thoughts_ok_tl by fastforce
next
  case (Cons b as)
  then obtain es' where es: "es = ActionEvent b # es'" by (auto dest: take_batch_eq)
  with Cons.prems(2) have rid: "ae_llm_response_id b = ae_llm_response_id a"
    and t: "take_batch (ae_llm_response_id b) es' = (as, rest)"
    by (auto split: if_splits prod.splits)
  with Cons.prems(1) es have "ae_thought b = []" "thoughts_ok (ActionEvent b # es')" by auto
  with Cons.IH [of b es'] t show ?case by auto
qed

text \<open>The stream batch by batch: what the two lemmas below induct over.\<close>

lemma batch_induct [case_names Nil Batch Other]:
  assumes "P []"
    and "\<And>a as rest. take_batch (ae_llm_response_id a) (map ActionEvent as @ rest) = (as, rest) \<Longrightarrow>
           P rest \<Longrightarrow> P (ActionEvent a # map ActionEvent as @ rest)"
    and "\<And>e es. \<not> is_action e \<Longrightarrow> P es \<Longrightarrow> P (e # es)"
  shows "P es"
proof (induction es rule: length_induct)
  case (1 es)
  show ?case
  proof (cases es)
    case (Cons e es')
    show ?thesis
    proof (cases "is_action e")
      case True
      then obtain a where a: "e = ActionEvent a" by (auto simp: is_action_iff)
      obtain as rest where t: "take_batch (ae_llm_response_id a) es' = (as, rest)" by fastforce
      from take_batch_eq [OF t] have "es' = map ActionEvent as @ rest" .
      with 1 Cons a t show ?thesis using assms(2) [of a as rest] by simp
    qed (use 1 Cons assms(3) in auto)
  qed (simp add: assms(1))
qed

lemma events_to_messages_batch:
  "take_batch (ae_llm_response_id a) es = (as, rest) \<Longrightarrow>
     events_to_messages (ActionEvent a # es) =
       bind_res (combine_action_events a as)
         (\<lambda>m. bind_res (events_to_messages rest) (\<lambda>ms. Inr (m # ms)))"
  by simp

lemma events_to_messages_other:
  "\<not> is_action e \<Longrightarrow>
     events_to_messages (e # es) =
       bind_res (to_llm_message e) (\<lambda>m. bind_res (events_to_messages es) (\<lambda>ms. Inr (m # ms)))"
  by (cases e) simp_all

declare events_to_messages.simps(2) [simp del]

lemma other_message_calls:
  "\<not> is_action e \<Longrightarrow> plain_message e \<Longrightarrow> to_llm_message e = Inr m \<Longrightarrow>
     called (m # ms) = called ms \<and> event_calls (e # es) = event_calls es \<and>
     m_tool_call_id m = observed_call e"
  by (cases e) (auto simp: tool_message_def)

lemma events_to_messages_calls:
  "\<forall>e \<in> set es. plain_message e \<Longrightarrow> events_to_messages es = Inr ms \<Longrightarrow>
     called ms = event_calls es \<and> answered ms = event_answers es"
proof (induction es arbitrary: ms rule: batch_induct)
  case (Batch a as rest)
  then obtain m ms' where m: "combine_action_events a as = Inr m"
    "events_to_messages rest = Inr ms'" "ms = m # ms'"
    by (auto simp: events_to_messages_batch res_simps)
  with Batch.IH Batch.prems(1) have "called ms' = event_calls rest \<and> answered ms' = event_answers rest"
    by auto
  then show ?case
    using combine_action_events_message [OF m(1)] m(3)
    by (simp add: event_calls_batch event_answers_batch)
next
  case (Other e es)
  then obtain m ms' where m: "to_llm_message e = Inr m" "events_to_messages es = Inr ms'"
    "ms = m # ms'"
    by (auto simp: events_to_messages_other res_simps)
  with Other show ?case
    using other_message_calls [of e m ms' es] by (auto split: option.splits)
qed simp

lemma events_to_messages_ok:
  "\<forall>e \<in> set es. is_llm_convertible e \<Longrightarrow> thoughts_ok es \<Longrightarrow>
     \<exists>ms. events_to_messages es = Inr ms \<and> length ms \<le> length es"
proof (induction es rule: batch_induct)
  case (Batch a as rest)
  from take_batch_thoughts [OF Batch.prems(2) Batch.hyps]
  have ok: "\<forall>b \<in> set as. ae_thought b = []" "thoughts_ok rest" by auto
  then obtain m where "combine_action_events a as = Inr m"
    by (cases "as = []") (auto simp: combine_action_events_def list_ex_iff)
  with Batch ok show ?case by (auto simp: events_to_messages_batch)
next
  case (Other e es)
  then obtain m where "to_llm_message e = Inr m" by (cases e) auto
  with Other show ?case
    using thoughts_ok_tl [of e es] by (auto simp: events_to_messages_other)
qed simp

section \<open>Sample events\<close>

text \<open>Concrete events for the witnesses: an action, its observation, an error, a user message.\<close>

definition sample_call :: "string \<Rightarrow> string \<Rightarrow> message_tool_call" where
  "sample_call cid nm = \<lparr>tc_id = cid, tc_responses_item_id = None, tc_name = nm,
     tc_arguments = ''{}'', tc_origin = Completion\<rparr>"

definition sample_action_event :: "string \<Rightarrow> string \<Rightarrow> string \<Rightarrow> action option \<Rightarrow> action_event" where
  "sample_action_event i cid rid act = \<lparr>ae_id = i, ae_source = SrcAgent, ae_thought = [],
     ae_reasoning_content = None, ae_thinking_blocks = [], ae_responses_reasoning_item = None,
     ae_action = act, ae_tool_name = ''terminal'', ae_tool_call_id = cid,
     ae_tool_call = sample_call cid ''terminal'', ae_llm_response_id = rid,
     ae_security_risk = UNKNOWN, ae_critic_result = None, ae_summary = None\<rparr>"

definition sample_action :: "string \<Rightarrow> string \<Rightarrow> string \<Rightarrow> event" where
  "sample_action i cid rid =
     ActionEvent (sample_action_event i cid rid (Some (ToolAction ''ExecuteBashAction'' [])))"

definition sample_observation_obj :: observation where
  "sample_observation_obj = observation_from_text ''ExecuteBashObservation'' ''ok'' False []"

definition sample_observation :: "string \<Rightarrow> string \<Rightarrow> string \<Rightarrow> event" where
  "sample_observation i aid cid =
     ObservationEvent \<lparr>oe_id = i, oe_source = SrcEnvironment, oe_tool_name = ''terminal'',
       oe_tool_call_id = cid, oe_observation = sample_observation_obj, oe_action_id = aid\<rparr>"

definition sample_error :: "string \<Rightarrow> string \<Rightarrow> event" where
  "sample_error i cid =
     AgentErrorEvent \<lparr>er_id = i, er_source = SrcAgent, er_tool_name = ''terminal'',
       er_tool_call_id = cid, er_error = ''boom''\<rparr>"

definition sample_message :: "string \<Rightarrow> source_type \<Rightarrow> event" where
  "sample_message i src =
     MessageEvent \<lparr>me_id = i, me_source = src, me_llm_message = new_message RUser [text_content ''hi''],
       me_llm_response_id = None, me_activated_skills = [], me_extended_content = [],
       me_sender = None, me_critic_result = None\<rparr>"

lemmas sample_defs = sample_call_def sample_action_event_def sample_action_def
  sample_observation_obj_def sample_observation_def sample_error_def sample_message_def

section \<open>Properties\<close>



end
