(* ===== verification/Conv_State.thy ===== *)
theory Conv_State
  imports Events
begin

text \<open>
  The conversation state (\<open>sdk/conversation/state.py\<close>): the persisted fields, the autosave on
  assignment that \<open>with state:\<close> blocks defer, creation and resumption, the hook-blocked actions
  and messages, and the actions that still wait for a result. The snapshot file is part of the
  state record; the JSON encoding of the fields and the outcome of the n-th write are parameters.
  The lemmas show when the snapshot agrees with the fields and which actions are unmatched.
\<close>

section \<open>The fields\<close>

datatype execution_status =
  IDLE | RUNNING | PAUSED | WAITING_FOR_CONFIRMATION | FINISHED | ERROR | STUCK | DELETING

definition is_terminal :: "execution_status \<Rightarrow> bool" where
  "is_terminal s \<longleftrightarrow> s \<in> {FINISHED, ERROR, STUCK}"

text \<open>
  The public fields; the agent, the workspace and the security analyzer are named by their
  configuration, the statistics, secrets, tags and hook configuration by their dump.
\<close>

record conv_fields =
  cf_id :: string
  cf_agent :: string
  cf_workspace :: string
  cf_persistence_dir :: "string option"
  cf_max_iterations :: nat
  cf_stuck_detection :: bool
  cf_execution_status :: execution_status
  cf_confirmation_policy :: confirmation_policy
  cf_security_analyzer :: "string option"
  cf_activated_knowledge_skills :: "string list"
  cf_invoked_skills :: "string list"
  cf_blocked_actions :: "(string \<times> string) list"
  cf_blocked_messages :: "(string \<times> string) list"
  cf_last_user_message_id :: "string option"
  cf_agent_state :: dict
  cf_other :: dict

text \<open>
  The private attributes: the snapshot file, the event log, the autosave switch, the nesting
  depth of context managers, the pending-save flag, whether a callback is set, the keys it was
  called with and the number of writes tried.
\<close>

record 's conv_state =
  cs_fields :: conv_fields
  cs_events :: "event list"
  cs_base_state :: "'s option"
  cs_autosave :: bool
  cs_save_depth :: nat
  cs_dirty :: bool
  cs_callback :: bool
  cs_notified :: "string list"
  cs_writes :: nat

text \<open>
  The snapshot format is a parameter type: its encoding, its decoding, which snapshot is the empty
  text, and which of the writes succeed.
\<close>

record 's persist_env =
  pe_dump :: "conv_fields \<Rightarrow> 's"
  pe_parse :: "'s \<Rightarrow> conv_fields option"
  pe_empty :: "'s \<Rightarrow> bool"
  pe_write_ok :: "nat \<Rightarrow> bool"

datatype state_error = StateValueError string | StateWriteError | StateVerifyError

section \<open>Saving\<close>

text \<open>
  \<open>_save_base_state\<close>: the write, under the write guard if there is one, happens or raises.
\<close>

definition save_base_state :: "'s persist_env \<Rightarrow> 's conv_state \<Rightarrow> 's conv_state \<times> state_error option" where
  "save_base_state env st =
     (let payload = pe_dump env (cs_fields st);
          st' = st\<lparr>cs_writes := cs_writes st + 1\<rparr>
      in if pe_write_ok env (cs_writes st)
         then (st'\<lparr>cs_base_state := Some payload\<rparr>, None)
         else (st', Some StateWriteError))"

definition notify :: "string \<Rightarrow> 's conv_state \<Rightarrow> 's conv_state" where
  "notify key st = (if cs_callback st then st\<lparr>cs_notified := cs_notified st @ [key]\<rparr> else st)"

text \<open>
  \<open>__setattr__\<close> on a public field: \<open>upd\<close> is the assignment. The value is stored first; a failed
  save raises with the new value in place and without a notification.
\<close>

definition setattr ::
    "'s persist_env \<Rightarrow> string \<Rightarrow> (conv_fields \<Rightarrow> conv_fields) \<Rightarrow> 's conv_state
       \<Rightarrow> 's conv_state \<times> state_error option" where
  "setattr env key upd st =
     (let old = cs_fields st; st1 = st\<lparr>cs_fields := upd old\<rparr>
      in if \<not> cs_autosave st then (st1, None)
         else if upd old \<noteq> old then
           (if cs_save_depth st > 0 then (notify key (st1\<lparr>cs_dirty := True\<rparr>), None)
            else (case save_base_state env st1 of
                    (st2, Some e) \<Rightarrow> (st2, Some e)
                  | (st2, None) \<Rightarrow> (notify key st2, None)))
         else (st1, None))"

definition enter_state :: "'s conv_state \<Rightarrow> 's conv_state" where
  "enter_state st = st\<lparr>cs_save_depth := cs_save_depth st + 1\<rparr>"

definition exit_state :: "'s persist_env \<Rightarrow> 's conv_state \<Rightarrow> 's conv_state \<times> state_error option" where
  "exit_state env st =
     (let st1 = st\<lparr>cs_save_depth := cs_save_depth st - 1\<rparr>
      in if cs_save_depth st1 = 0 \<and> cs_dirty st1 then
           (if cs_autosave st1 then
              (case save_base_state env st1 of
                 (st2, Some e) \<Rightarrow> (st2, Some e)
               | (st2, None) \<Rightarrow> (st2\<lparr>cs_dirty := False\<rparr>, None))
            else (st1\<lparr>cs_dirty := False\<rparr>, None))
         else (st1, None))"

section \<open>Blocked actions and messages\<close>

definition block_action :: "'s persist_env \<Rightarrow> string \<Rightarrow> string \<Rightarrow> 's conv_state \<Rightarrow> 's conv_state \<times> state_error option" where
  "block_action env action_id reason st =
     setattr env ''blocked_actions''
       (\<lambda>f. f\<lparr>cf_blocked_actions := AList.update action_id reason (cf_blocked_actions f)\<rparr>) st"

definition pop_blocked_action ::
    "'s persist_env \<Rightarrow> string \<Rightarrow> 's conv_state \<Rightarrow> 's conv_state \<times> (state_error, string option) result" where
  "pop_blocked_action env action_id st =
     (case map_of (cf_blocked_actions (cs_fields st)) action_id of
        None \<Rightarrow> (st, Inr None)
      | Some reason \<Rightarrow>
          (case setattr env ''blocked_actions''
                  (\<lambda>f. f\<lparr>cf_blocked_actions := AList.delete action_id (cf_blocked_actions f)\<rparr>) st of
             (st', None) \<Rightarrow> (st', Inr (Some reason))
           | (st', Some e) \<Rightarrow> (st', Inl e)))"

definition block_message :: "'s persist_env \<Rightarrow> string \<Rightarrow> string \<Rightarrow> 's conv_state \<Rightarrow> 's conv_state \<times> state_error option" where
  "block_message env message_id reason st =
     setattr env ''blocked_messages''
       (\<lambda>f. f\<lparr>cf_blocked_messages := AList.update message_id reason (cf_blocked_messages f)\<rparr>) st"

definition pop_blocked_message ::
    "'s persist_env \<Rightarrow> string \<Rightarrow> 's conv_state \<Rightarrow> 's conv_state \<times> (state_error, string option) result" where
  "pop_blocked_message env message_id st =
     (case map_of (cf_blocked_messages (cs_fields st)) message_id of
        None \<Rightarrow> (st, Inr None)
      | Some reason \<Rightarrow>
          (case setattr env ''blocked_messages''
                  (\<lambda>f. f\<lparr>cf_blocked_messages := AList.delete message_id (cf_blocked_messages f)\<rparr>) st of
             (st', None) \<Rightarrow> (st', Inr (Some reason))
           | (st', Some e) \<Rightarrow> (st', Inl e)))"

section \<open>Creating and resuming\<close>

definition fresh_fields ::
    "string \<Rightarrow> string \<Rightarrow> string \<Rightarrow> string option \<Rightarrow> nat \<Rightarrow> bool \<Rightarrow> conv_fields" where
  "fresh_fields i agent workspace persistence_dir max_iterations stuck_detection =
     \<lparr>cf_id = i, cf_agent = agent, cf_workspace = workspace, cf_persistence_dir = persistence_dir,
      cf_max_iterations = max_iterations, cf_stuck_detection = stuck_detection,
      cf_execution_status = IDLE, cf_confirmation_policy = NeverConfirm,
      cf_security_analyzer = None, cf_activated_knowledge_skills = [], cf_invoked_skills = [],
      cf_blocked_actions = [], cf_blocked_messages = [], cf_last_user_message_id = None,
      cf_agent_state = [], cf_other = []\<rparr>"

definition state_of :: "conv_fields \<Rightarrow> event list \<Rightarrow> 's option \<Rightarrow> bool \<Rightarrow> 's conv_state" where
  "state_of f events base autosave =
     \<lparr>cs_fields = f, cs_events = events, cs_base_state = base, cs_autosave = autosave,
      cs_save_depth = 0, cs_dirty = False, cs_callback = False, cs_notified = [], cs_writes = 0\<rparr>"

text \<open>Run a list of assignments, stopping at the first that raises.\<close>

fun set_all ::
    "'s persist_env \<Rightarrow> (string \<times> (conv_fields \<Rightarrow> conv_fields)) list \<Rightarrow> 's conv_state
       \<Rightarrow> 's conv_state \<times> state_error option" where
  "set_all env [] st = (st, None)"
| "set_all env ((key, upd) # rest) st =
     (case setattr env key upd st of
        (st', None) \<Rightarrow> set_all env rest st'
      | (st', Some e) \<Rightarrow> (st', Some e))"

text \<open>
  \<open>ConversationState.create\<close>: \<open>base\<close> is the snapshot file, if it is there, \<open>log\<close> the events of
  the log directory, \<open>verify\<close> the compatibility check of the agent. An empty snapshot counts as
  none; one that does not parse raises.
\<close>

definition create_state ::
    "'s persist_env \<Rightarrow> (string \<Rightarrow> string \<Rightarrow> event list \<Rightarrow> bool) \<Rightarrow> 's option \<Rightarrow> event list \<Rightarrow>
     string \<Rightarrow> string \<Rightarrow> string \<Rightarrow> string option \<Rightarrow> nat \<Rightarrow> bool \<Rightarrow> (state_error, 's conv_state) result" where
  "create_state env verify base log i agent workspace persistence_dir max_iterations stuck_detection =
     (if base \<noteq> None \<and> \<not> pe_empty env (the base) then
          (case pe_parse env (the base) of
             None \<Rightarrow> Inl (StateValueError ''invalid snapshot'')
           | Some f \<Rightarrow>
               (if cf_id f \<noteq> i then Inl (StateValueError ''Conversation ID mismatch'')
                else if \<not> verify agent (cf_agent f) log then Inl StateVerifyError
                else
                  (case set_all env
                     [(''agent'', \<lambda>f. f\<lparr>cf_agent := agent\<rparr>),
                      (''workspace'', \<lambda>f. f\<lparr>cf_workspace := workspace\<rparr>),
                      (''max_iterations'', \<lambda>f. f\<lparr>cf_max_iterations := max_iterations\<rparr>)]
                     (state_of f log base True) of
                     (st, None) \<Rightarrow> Inr st
                   | (st, Some e) \<Rightarrow> Inl e)))
      else
          (case save_base_state env
             (state_of (fresh_fields i agent workspace persistence_dir max_iterations stuck_detection)
                log base False) of
             (st, None) \<Rightarrow> Inr (st\<lparr>cs_autosave := True\<rparr>)
           | (st, Some e) \<Rightarrow> Inl e))"

section \<open>Unmatched actions\<close>

text \<open>
  \<open>get_unmatched_actions\<close> walks the log backwards with the action ids and tool call ids it has
  seen answered, and inserts each unmatched action at the front.
\<close>

fun unmatched_walk ::
    "string set \<Rightarrow> string set \<Rightarrow> event list \<Rightarrow> action_event list \<Rightarrow> action_event list" where
  "unmatched_walk aids tcids [] acc = acc"
| "unmatched_walk aids tcids (ObservationEvent e # es) acc =
     unmatched_walk (insert (oe_action_id e) aids) tcids es acc"
| "unmatched_walk aids tcids (UserRejectObservation e # es) acc =
     unmatched_walk (insert (ur_action_id e) aids) tcids es acc"
| "unmatched_walk aids tcids (AgentErrorEvent e # es) acc =
     unmatched_walk aids (insert (er_tool_call_id e) tcids) es acc"
| "unmatched_walk aids tcids (ActionEvent a # es) acc =
     unmatched_walk aids tcids es
       (if ae_action a \<noteq> None \<and> ae_id a \<notin> aids \<and> ae_tool_call_id a \<notin> tcids then a # acc else acc)"
| "unmatched_walk aids tcids (_ # es) acc = unmatched_walk aids tcids es acc"

definition get_unmatched_actions :: "event list \<Rightarrow> action_event list" where
  "get_unmatched_actions events = unmatched_walk {} {} (rev events) []"

text \<open>The specification: an executable action no later event answers.\<close>

fun answers :: "event \<Rightarrow> action_event \<Rightarrow> bool" where
  "answers (ObservationEvent e) a = (oe_action_id e = ae_id a)"
| "answers (UserRejectObservation e) a = (ur_action_id e = ae_id a)"
| "answers (AgentErrorEvent e) a = (er_tool_call_id e = ae_tool_call_id a)"
| "answers _ a = False"

fun pending_actions :: "event list \<Rightarrow> action_event list" where
  "pending_actions [] = []"
| "pending_actions (e # es) =
     (case e of
        ActionEvent a \<Rightarrow>
          (if ae_action a \<noteq> None \<and> list_all (\<lambda>x. \<not> answers x a) es
           then a # pending_actions es else pending_actions es)
      | _ \<Rightarrow> pending_actions es)"

section \<open>Lemmas on unmatched actions\<close>

definition answered_aids :: "event list \<Rightarrow> string set" where
  "answered_aids es = {i. \<exists>e \<in> set es. (\<exists>x. e = ObservationEvent x \<and> oe_action_id x = i) \<or>
     (\<exists>x. e = UserRejectObservation x \<and> ur_action_id x = i)}"

definition answered_tcids :: "event list \<Rightarrow> string set" where
  "answered_tcids es = {t. \<exists>x. AgentErrorEvent x \<in> set es \<and> er_tool_call_id x = t}"

lemma answers_iff:
  "(\<exists>e \<in> set es. answers e a) \<longleftrightarrow> ae_id a \<in> answered_aids es \<or> ae_tool_call_id a \<in> answered_tcids es"
proof -
  have "answers e a \<longleftrightarrow> (\<exists>x. e = ObservationEvent x \<and> oe_action_id x = ae_id a) \<or>
      (\<exists>x. e = UserRejectObservation x \<and> ur_action_id x = ae_id a) \<or>
      (\<exists>x. e = AgentErrorEvent x \<and> er_tool_call_id x = ae_tool_call_id a)" for e
    by (cases e) auto
  then show ?thesis by (auto simp: answered_aids_def answered_tcids_def)
qed

lemma answered_ids_simps:
  "answered_aids [] = {}" "answered_tcids [] = {}"
  "answered_aids (e # es) =
     (case e of
        ObservationEvent x \<Rightarrow> insert (oe_action_id x) (answered_aids es)
      | UserRejectObservation x \<Rightarrow> insert (ur_action_id x) (answered_aids es)
      | _ \<Rightarrow> answered_aids es)"
  "answered_tcids (e # es) =
     (case e of
        AgentErrorEvent x \<Rightarrow> insert (er_tool_call_id x) (answered_tcids es)
      | _ \<Rightarrow> answered_tcids es)"
  by (cases e; auto simp: answered_aids_def answered_tcids_def)+

lemma unmatched_walk_append:
  "unmatched_walk aids tcids (xs @ [e]) acc =
     unmatched_walk (aids \<union> answered_aids xs) (tcids \<union> answered_tcids xs) [e]
       (unmatched_walk aids tcids xs acc)"
  by (induction xs arbitrary: aids tcids acc) (simp_all add: answered_ids_simps split: event.splits)

lemma answered_rev [simp]: "answered_aids (rev es) = answered_aids es" "answered_tcids (rev es) = answered_tcids es"
  by (simp_all add: answered_aids_def answered_tcids_def)

lemma get_unmatched_actions_eq: "get_unmatched_actions es = pending_actions es"
proof (induction es)
  case (Cons e es)
  have "get_unmatched_actions (e # es) =
      unmatched_walk (answered_aids es) (answered_tcids es) [e] (get_unmatched_actions es)"
    using unmatched_walk_append [of "{}" "{}" "rev es" e "[]"] by (simp add: get_unmatched_actions_def)
  with Cons show ?case
    using answers_iff [of es] by (cases e) (auto simp: list_all_iff)
qed (simp add: get_unmatched_actions_def)

lemma pending_actions_iff:
  "a \<in> set (pending_actions es) \<longleftrightarrow>
     (\<exists>xs ys. es = xs @ ActionEvent a # ys \<and> ae_action a \<noteq> None \<and> (\<forall>y \<in> set ys. \<not> answers y a))"
proof (induction es)
  case (Cons e es)
  have "(\<exists>xs ys. e # es = xs @ ActionEvent a # ys \<and> ae_action a \<noteq> None \<and> (\<forall>y \<in> set ys. \<not> answers y a)) \<longleftrightarrow>
      (e = ActionEvent a \<and> ae_action a \<noteq> None \<and> (\<forall>y \<in> set es. \<not> answers y a)) \<or>
      (\<exists>xs ys. es = xs @ ActionEvent a # ys \<and> ae_action a \<noteq> None \<and> (\<forall>y \<in> set ys. \<not> answers y a))"
    by (auto simp: Cons_eq_append_conv)
  also have "\<dots> \<longleftrightarrow> (e = ActionEvent a \<and> ae_action a \<noteq> None \<and> (\<forall>y \<in> set es. \<not> answers y a)) \<or>
      a \<in> set (pending_actions es)"
    by (simp only: Cons.IH)
  also have "\<dots> \<longleftrightarrow> a \<in> set (pending_actions (e # es))"
    by (cases e) (auto simp: list_all_iff)
  finally show ?case by simp
qed simp

lemma pending_actions_subseq: "subseq (map ActionEvent (pending_actions es)) es"
  by (induction es) (auto split: event.splits)

lemma pending_actions_append:
  "pending_actions (es @ ds) =
     filter (\<lambda>a. list_all (\<lambda>x. \<not> answers x a) ds) (pending_actions es) @ pending_actions ds"
  by (induction es) (auto split: event.splits simp: list_all_iff)

section \<open>The autosave machine\<close>

text \<open>
  One step of a thread that uses the state: an assignment to a public field, entering a \<open>with\<close>
  block, leaving one. Every step that raises is left out: \<open>None\<close> is a step that returned.
\<close>

inductive state_step :: "'s persist_env \<Rightarrow> 's conv_state \<Rightarrow> 's conv_state \<Rightarrow> bool"
  for env where
  Assign: "setattr env key upd st = (st', None) \<Longrightarrow> state_step env st st'"
| Enter: "state_step env st (enter_state st)"
| Exit: "cs_save_depth st > 0 \<Longrightarrow> exit_state env st = (st', None) \<Longrightarrow> state_step env st st'"

inductive state_steps :: "'s persist_env \<Rightarrow> 's conv_state \<Rightarrow> 's conv_state \<Rightarrow> bool"
  for env where
  refl: "state_steps env st st"
| step: "state_steps env st st' \<Longrightarrow> state_step env st' st'' \<Longrightarrow> state_steps env st st''"

inductive_cases state_stepE: "state_step env st st'"

definition synced :: "'s persist_env \<Rightarrow> 's conv_state \<Rightarrow> bool" where
  "synced env st \<longleftrightarrow> (\<exists>s. cs_base_state st = Some s \<and> pe_parse env s = Some (cs_fields st))"

text \<open>Autosave is on, a pending save is flagged, and only inside a block.\<close>

definition autosave_inv :: "'s persist_env \<Rightarrow> 's conv_state \<Rightarrow> bool" where
  "autosave_inv env st \<longleftrightarrow> cs_autosave st \<and> (cs_dirty st \<or> synced env st) \<and>
     (cs_dirty st \<longrightarrow> cs_save_depth st > 0)"

lemma notify_simps [simp]:
  "cs_fields (notify k st) = cs_fields st" "cs_base_state (notify k st) = cs_base_state st"
  "cs_dirty (notify k st) = cs_dirty st" "cs_save_depth (notify k st) = cs_save_depth st"
  "cs_autosave (notify k st) = cs_autosave st" "cs_writes (notify k st) = cs_writes st"
  "cs_events (notify k st) = cs_events st"
  by (simp_all add: notify_def)

lemma synced_notify [simp]: "synced env (notify k st) = synced env st"
  by (simp add: synced_def)

lemma save_base_state_ok:
  assumes "\<And>f. pe_parse env (pe_dump env f) = Some f" and "save_base_state env st = (st', None)"
  shows "synced env st' \<and> cs_fields st' = cs_fields st \<and> cs_autosave st' = cs_autosave st \<and>
     cs_dirty st' = cs_dirty st \<and> cs_save_depth st' = cs_save_depth st \<and>
     cs_events st' = cs_events st \<and> cs_writes st' = cs_writes st + 1"
  using assms by (auto simp: save_base_state_def synced_def Let_def split: if_splits)

text \<open>The outcomes of an assignment that returned, with autosave on.\<close>

lemma setattr_cases:
  assumes "setattr env key upd st = (st', None)" and "cs_autosave st"
  obtains (same) "upd (cs_fields st) = cs_fields st" "st' = st\<lparr>cs_fields := upd (cs_fields st)\<rparr>"
  | (later) "cs_save_depth st > 0"
      "st' = notify key (st\<lparr>cs_fields := upd (cs_fields st), cs_dirty := True\<rparr>)"
  | (save) st2 where "cs_save_depth st = 0"
      "save_base_state env (st\<lparr>cs_fields := upd (cs_fields st)\<rparr>) = (st2, None)" "st' = notify key st2"
proof (cases "upd (cs_fields st) = cs_fields st")
  case True
  with assms show ?thesis by (intro same) (simp_all add: setattr_def Let_def)
next
  case changed: False
  show ?thesis
  proof (cases "cs_save_depth st > 0")
    case True
    with changed assms show ?thesis by (intro later) (simp_all add: setattr_def Let_def)
  next
    case False
    obtain st2 e where s: "save_base_state env (st\<lparr>cs_fields := upd (cs_fields st)\<rparr>) = (st2, e)"
      by fastforce
    with changed False assms have "e = None \<and> st' = notify key st2"
      by (simp add: setattr_def Let_def split: option.splits)
    with False s show ?thesis by (intro save [of st2]) simp_all
  qed
qed

lemma setattr_fields: "setattr env key upd st = (st', r) \<Longrightarrow> cs_fields st' = upd (cs_fields st)"
  by (auto simp: setattr_def save_base_state_def Let_def split: if_splits prod.splits option.splits)

lemma setattr_inv:
  assumes rt: "\<And>f. pe_parse env (pe_dump env f) = Some f"
    and "setattr env key upd st = (st', None)" and inv: "autosave_inv env st"
  shows "autosave_inv env st'"
proof -
  have "cs_autosave st" using inv by (simp add: autosave_inv_def)
  from assms(2) this show ?thesis
  proof (cases rule: setattr_cases)
    case same
    with inv show ?thesis by (simp add: autosave_inv_def synced_def)
  next
    case later
    with inv show ?thesis by (simp add: autosave_inv_def)
  next
    case (save st2)
    with save_base_state_ok [OF rt save(2)] inv show ?thesis by (auto simp: autosave_inv_def)
  qed
qed

lemma state_step_inv:
  assumes rt: "\<And>f. pe_parse env (pe_dump env f) = Some f"
    and "state_step env st st'" and "autosave_inv env st"
  shows "autosave_inv env st'"
  using assms(2)
proof (cases rule: state_step.cases)
  case (Assign key upd)
  with setattr_inv [OF rt _ assms(3)] show ?thesis by blast
next
  case Enter
  with assms(3) show ?thesis by (auto simp: autosave_inv_def enter_state_def synced_def)
next
  case Exit
  let ?st = "st\<lparr>cs_save_depth := cs_save_depth st - 1\<rparr>"
  show ?thesis
  proof (cases "cs_save_depth ?st = 0 \<and> cs_dirty st")
    case True
    with Exit(2) assms(3) obtain st2 where s: "save_base_state env ?st = (st2, None)"
      and st': "st' = st2\<lparr>cs_dirty := False\<rparr>"
      by (auto simp: exit_state_def Let_def autosave_inv_def split: prod.splits option.splits)
    from save_base_state_ok [OF rt s] st' assms(3) show ?thesis
      by (auto simp: autosave_inv_def synced_def)
  next
    case False
    then have "st' = ?st" using Exit(2) by (auto simp: exit_state_def Let_def)
    with False assms(3) show ?thesis by (auto simp: autosave_inv_def synced_def)
  qed
qed

lemma state_steps_inv:
  assumes rt: "\<And>f. pe_parse env (pe_dump env f) = Some f"
  shows "state_steps env st st' \<Longrightarrow> autosave_inv env st \<Longrightarrow> autosave_inv env st'"
  by (induction rule: state_steps.induct) (auto intro: state_step_inv [OF rt])

lemma set_all_inv:
  assumes rt: "\<And>f. pe_parse env (pe_dump env f) = Some f"
  shows "set_all env us st = (st', None) \<Longrightarrow> autosave_inv env st \<Longrightarrow> autosave_inv env st'"
proof (induction us arbitrary: st)
  case (Cons u us)
  obtain key upd where u: "u = (key, upd)" by fastforce
  from Cons.prems(1) u obtain st1 where s: "setattr env key upd st = (st1, None)"
    "set_all env us st1 = (st', None)"
    by (auto split: prod.splits option.splits)
  with Cons.IH [OF s(2)] setattr_inv [OF rt s(1)] Cons.prems(2) show ?case by simp
qed simp

lemma create_state_inv:
  assumes rt: "\<And>f. pe_parse env (pe_dump env f) = Some f"
    and c: "create_state env verify base log i agent workspace pd mi sd = Inr st"
  shows "autosave_inv env st \<and> cs_save_depth st = 0"
proof (cases "base \<noteq> None \<and> \<not> pe_empty env (the base)")
  case True
  then obtain f where f: "pe_parse env (the base) = Some f"
    and s: "set_all env
      [(''agent'', \<lambda>f. f\<lparr>cf_agent := agent\<rparr>), (''workspace'', \<lambda>f. f\<lparr>cf_workspace := workspace\<rparr>),
       (''max_iterations'', \<lambda>f. f\<lparr>cf_max_iterations := mi\<rparr>)] (state_of f log base True) = (st, None)"
    using c by (auto simp: create_state_def split: option.splits if_splits prod.splits)
  have "autosave_inv env (state_of f log base True)"
    using True f by (auto simp: autosave_inv_def synced_def state_of_def)
  from set_all_inv [OF rt s this] have inv: "autosave_inv env st" .
  have depth: "cs_save_depth st1 = cs_save_depth st0" if "setattr env k u st0 = (st1, None)" for k u st0 st1
    using that by (auto simp: setattr_def save_base_state_def Let_def split: if_splits prod.splits option.splits)
  have "cs_save_depth st = cs_save_depth (state_of f log base True)"
    using s by (auto dest!: depth split: prod.splits option.splits)
  with inv show ?thesis by (simp add: state_of_def)
next
  case False
  then obtain st1 where s: "save_base_state env (state_of (fresh_fields i agent workspace pd mi sd) log base False)
      = (st1, None)" "st = st1\<lparr>cs_autosave := True\<rparr>"
    using c by (auto simp: create_state_def split: prod.splits option.splits)
  from save_base_state_ok [OF rt s(1)] s(2) show ?thesis
    by (auto simp: autosave_inv_def synced_def state_of_def)
qed

text \<open>Inside a block no assignment writes, so leaving it writes at most once.\<close>

lemma set_all_deferred:
  "cs_save_depth st > 0 \<Longrightarrow> set_all env us st = (st', r) \<Longrightarrow>
     cs_writes st' = cs_writes st \<and> cs_save_depth st' = cs_save_depth st \<and>
     cs_base_state st' = cs_base_state st \<and> r = None"
proof (induction us arbitrary: st)
  case (Cons u us)
  obtain key upd where u: "u = (key, upd)" by fastforce
  obtain st1 e where s: "setattr env key upd st = (st1, e)" by fastforce
  then have "e = None \<and> cs_writes st1 = cs_writes st \<and> cs_save_depth st1 = cs_save_depth st \<and>
      cs_base_state st1 = cs_base_state st"
    using Cons.prems(1) by (auto simp: setattr_def Let_def split: if_splits)
  moreover from this s u Cons.prems(2) have "set_all env us st1 = (st', r)" by simp
  ultimately show ?case using Cons.IH [of st1] Cons.prems(1) by simp
qed simp

lemma exit_writes: "cs_writes (fst (exit_state env st)) \<le> cs_writes st + 1"
  by (auto simp: exit_state_def save_base_state_def Let_def)

section \<open>Properties\<close>

text \<open>
  C3: The pending actions of a conversation are exactly the executable actions that no later
  event answers: no observation or rejection with the action's id and no agent error with its
  tool call id comes after them. They are listed in the order of the log.
\<close>

theorem get_unmatched_actions_correct:
  "subseq (map ActionEvent (get_unmatched_actions events)) events \<and>
   (a \<in> set (get_unmatched_actions events) \<longleftrightarrow>
      (\<exists>xs ys. events = xs @ ActionEvent a # ys \<and> ae_action a \<noteq> None \<and>
         {y \<in> set ys. answers y a} = {}))"
  using pending_actions_iff [of a events] pending_actions_subseq [of events]
  unfolding get_unmatched_actions_eq by blast


definition sample_env :: "conv_fields persist_env" where
  "sample_env = \<lparr>pe_dump = id, pe_parse = Some, pe_empty = (\<lambda>_. False), pe_write_ok = (\<lambda>_. True)\<rparr>"


text \<open>
  A block batches its saves. However many assignments run inside an outermost \<open>with\<close> block,
  the snapshot is written at most once, when the block is left, and no assignment in the block
  raises.
\<close>

theorem with_block_writes_once:
  assumes "set_all env us (enter_state st) = (st1, r)" and "exit_state env st1 = (st2, e)"
  shows "r = None \<and> cs_writes st1 = cs_writes st \<and> cs_base_state st1 = cs_base_state st \<and>
     cs_writes st2 \<le> cs_writes st + 1"
  using set_all_deferred [OF _ assms(1)] exit_writes [of env st1] assms(2)
  by (auto simp: enter_state_def)

theorem with_block_writes_once_witness:
  "let st = state_of (fresh_fields ''id'' ''agent'' ''ws'' None 500 True) [] None True;
       us = [(''a'', \<lambda>f. f\<lparr>cf_execution_status := RUNNING\<rparr>), (''b'', \<lambda>f. f\<lparr>cf_max_iterations := 3\<rparr>)]
   in cs_writes (fst (exit_state sample_env (fst (set_all sample_env us (enter_state st))))) \<le> 1"
proof -
  let ?st = "state_of (fresh_fields ''id'' ''agent'' ''ws'' None 500 True) [] None True"
  let ?us = "[(''a'', \<lambda>f. f\<lparr>cf_execution_status := RUNNING\<rparr>), (''b'', \<lambda>f. f\<lparr>cf_max_iterations := 3\<rparr>)]"
  obtain st1 r where 1: "set_all sample_env ?us (enter_state ?st) = (st1, r)" by fastforce
  obtain st2 e where 2: "exit_state sample_env st1 = (st2, e)" by fastforce
  from with_block_writes_once [OF 1 2] 1 2 show ?thesis
    by (simp add: state_of_def Let_def)
qed

end
