(* ===== verification/Tool_Calls.thy ===== *)
theory Tool_Calls
  imports Events
begin

text \<open>
  From a raw tool call to the arguments of a tool (\<open>sdk/agent/utils.py\<close> and the two extractors of
  \<open>sdk/agent/agent.py\<close>): parsing with the repair of control characters, typo repair, decoding of
  doubly encoded collections, tool name aliases and the terminal fallback, inference of the
  editor command, the security risk and the summary. Arguments are dictionaries in insertion order.
  What \<open>json.loads\<close>, \<open>json.dumps\<close> and the shell quoting of the platform give is a parameter. The
  lemmas show that a registered tool is never hijacked and when the repair leaves a text alone.
\<close>

section \<open>The environment\<close>

text \<open>What the parsing raises; of the \<open>Cannot infer\<close> message only the tool it names is kept.\<close>

datatype call_error = JSONDecodeError | CallValueError string | CannotInfer string

text \<open>
  \<open>je_loads strict\<close> is \<open>json.loads\<close> with its \<open>strict\<close> flag, \<open>None\<close> a decoding error; \<open>je_which\<close> is
  \<open>shutil.which(...) is not None\<close>; \<open>je_join\<close> quotes and joins a command; \<open>je_grep_script\<close> is the
  Python source of the last grep fallback as \<open>exec(...)\<close>; \<open>je_str\<close> is the text of an exception and
  \<open>je_repr\<close> that of a list of names.
\<close>

record json_env =
  je_loads :: "bool \<Rightarrow> string \<Rightarrow> json option"
  je_dumps :: "dict \<Rightarrow> string"
  je_which :: "string \<Rightarrow> bool"
  je_join :: "string list \<Rightarrow> string"
  je_grep_script :: string
  je_str :: "call_error \<Rightarrow> string"
  je_repr :: "string list \<Rightarrow> string"

section \<open>Parsing\<close>

definition is_control :: "char \<Rightarrow> bool" where
  "is_control c \<longleftrightarrow> (of_char c :: nat) < 32"

definition hex_digit :: "nat \<Rightarrow> char" where
  "hex_digit d = (if d < 10 then char_of (48 + d) else char_of (87 + d))"

text \<open>\<open>_escape_control_char\<close>: the table, and \<open>\uXXXX\<close> for the others.\<close>

definition backslash :: char where
  "backslash = CHR 0x5C"

definition escape_control_char :: "char \<Rightarrow> string" where
  "escape_control_char c =
     (let n = of_char c :: nat
      in if n = 8 then [backslash, CHR ''b'']
         else if n = 9 then [backslash, CHR ''t'']
         else if n = 10 then [backslash, CHR ''n'']
         else if n = 12 then [backslash, CHR ''f'']
         else if n = 13 then [backslash, CHR ''r'']
         else [backslash, CHR ''u'', CHR ''0'', CHR ''0'', hex_digit (n div 16), hex_digit (n mod 16)])"

definition sanitize_json_control_chars :: "string \<Rightarrow> string" where
  "sanitize_json_control_chars raw = concat (map (\<lambda>c. if is_control c then escape_control_char c else [c]) raw)"

text \<open>
  \<open>_normalize_arguments\<close>: a typo of \<open>security_risk\<close> that is present is renamed, which puts
  the key last unless the right one is there, and keys with value \<open>None\<close> are dropped. The typos are
  a Python set; when several are present the model takes the order in which they are written.
\<close>

definition SECURITY_RISK_TYPOS :: "string list" where
  "SECURITY_RISK_TYPOS = [''security_rort'', ''securtiy_risk'', ''security_riks'']"

definition fix_typo :: "string list \<Rightarrow> dict \<Rightarrow> dict" where
  "fix_typo typos args =
     (case find (\<lambda>t. map_of args t \<noteq> None) typos of
        None \<Rightarrow> args
      | Some t \<Rightarrow> set_key ''security_risk'' (the (map_of args t)) (pop_key t args))"

definition normalize_arguments :: "dict \<Rightarrow> dict" where
  "normalize_arguments args = filter (\<lambda>(k, v). v \<noteq> JNull) (fix_typo SECURITY_RISK_TYPOS args)"

fun dict_or_empty :: "json \<Rightarrow> dict" where
  "dict_or_empty (JObj d) = d"
| "dict_or_empty _ = []"

definition parse_tool_call_arguments :: "json_env \<Rightarrow> string \<Rightarrow> (call_error, dict) result" where
  "parse_tool_call_arguments je raw =
     (case je_loads je True raw of
        Some p \<Rightarrow> Inr (normalize_arguments (dict_or_empty p))
      | None \<Rightarrow>
          (case je_loads je True (sanitize_json_control_chars raw) of
             Some p \<Rightarrow> Inr (normalize_arguments (dict_or_empty p))
           | None \<Rightarrow> Inl JSONDecodeError))"

section \<open>Doubly encoded collections\<close>

text \<open>
  \<open>fix_malformed_tool_arguments\<close>. A field of the action class is its key in the dictionary and
  whether its annotation, or a member of a union, is a list or a dict.
\<close>

fun is_collection :: "json \<Rightarrow> bool" where
  "is_collection (JList _) = True"
| "is_collection (JObj _) = True"
| "is_collection _ = False"

text \<open>\<open>s[: s.rfind(c) + 1]\<close>, if the character occurs.\<close>

definition upto_last :: "char \<Rightarrow> string \<Rightarrow> string option" where
  "upto_last c s = (if c \<in> set s then Some (rev (dropWhile (\<lambda>x. x \<noteq> c) (rev s))) else None)"

fun truncated_parse :: "json_env \<Rightarrow> string \<Rightarrow> char list \<Rightarrow> json option" where
  "truncated_parse je s [] = None"
| "truncated_parse je s (c # cs) =
     (case upto_last c s of
        None \<Rightarrow> truncated_parse je s cs
      | Some t \<Rightarrow>
          (case je_loads je False t of
             Some v \<Rightarrow> if is_collection v then Some v else truncated_parse je s cs
           | None \<Rightarrow> truncated_parse je s cs))"

definition fix_value :: "json_env \<Rightarrow> string \<Rightarrow> json option" where
  "fix_value je s =
     (case je_loads je False s of
        Some v \<Rightarrow> if is_collection v then Some v else None
      | None \<Rightarrow> truncated_parse je s [CHR ''}'', CHR '']''])"

fun fix_malformed_tool_arguments :: "json_env \<Rightarrow> (string \<times> bool) list \<Rightarrow> dict \<Rightarrow> dict" where
  "fix_malformed_tool_arguments je [] args = args"
| "fix_malformed_tool_arguments je ((key, wants_collection) # flds) args =
     fix_malformed_tool_arguments je flds
       (case map_of args key of
          Some (JStr s) \<Rightarrow>
            if wants_collection
            then (case fix_value je s of Some v \<Rightarrow> set_key key v args | None \<Rightarrow> args)
            else args
        | _ \<Rightarrow> args)"

section \<open>Names\<close>

definition TOOL_NAME_ALIASES :: "(string \<times> string) list" where
  "TOOL_NAME_ALIASES =
     [(''bash'', ''terminal''), (''command'', ''terminal''), (''execute'', ''terminal''),
      (''execute_bash'', ''terminal''), (''str_replace'', ''file_editor''),
      (''str_replace_editor'', ''file_editor'')]"

definition SHELL_TOOL_FALLBACK_COMMANDS :: "string list" where
  "SHELL_TOOL_FALLBACK_COMMANDS = [''find'', ''ls'', ''pwd'']"

definition infer_file_editor_command :: "dict \<Rightarrow> string option" where
  "infer_file_editor_command args =
     (if map_of args ''command'' \<noteq> None then None
      else if map_of args ''old_str'' \<noteq> None then Some ''str_replace''
      else if map_of args ''insert_line'' \<noteq> None then Some ''insert''
      else if map_of args ''file_text'' \<noteq> None then Some ''create''
      else if map_of args ''path'' \<noteq> None then Some ''view''
      else None)"

definition has_file_editor_hint :: "dict \<Rightarrow> bool" where
  "has_file_editor_hint args \<longleftrightarrow>
     list_ex (\<lambda>k. map_of args k \<noteq> None)
       [''old_str'', ''new_str'', ''insert_line'', ''file_text'', ''path'', ''view_range'']"

text \<open>A string argument that is not blank.\<close>

definition nonblank :: "json option \<Rightarrow> string option" where
  "nonblank v = (case v of Some (JStr s) \<Rightarrow> if py_strip s \<noteq> [] then Some s else None | _ \<Rightarrow> None)"

definition build_grep_terminal_command :: "json_env \<Rightarrow> dict \<Rightarrow> string option" where
  "build_grep_terminal_command je args =
     (case nonblank (map_of args ''pattern'') of
        None \<Rightarrow> None
      | Some pattern \<Rightarrow>
          (let search_path = (case nonblank (map_of args ''path'') of Some p \<Rightarrow> p | None \<Rightarrow> ''.'');
               inc = nonblank (map_of args ''include'')
           in Some (je_join je
                (if je_which je ''rg'' then
                   [''rg'', ''-n'', ''-i'', pattern, search_path, ''--sortr=modified''] @
                     (case inc of Some i \<Rightarrow> [''-g'', i] | None \<Rightarrow> [])
                 else if je_which je ''grep'' then
                   [''grep'', ''-R'', ''-I'', ''-n'', ''-i'', pattern, search_path] @
                     (case inc of Some i \<Rightarrow> [''--include='' @ i] | None \<Rightarrow> [])
                 else
                   [''python'', ''-c'', je_grep_script je, pattern, search_path] @
                     (case inc of Some i \<Rightarrow> [i] | None \<Rightarrow> [])))))"

definition maybe_rewrite_as_terminal_command :: "json_env \<Rightarrow> string \<Rightarrow> dict \<Rightarrow> string option" where
  "maybe_rewrite_as_terminal_command je tool_name args =
     (if tool_name = ''grep'' then build_grep_terminal_command je args
      else if args \<noteq> [] \<or> tool_name \<notin> set SHELL_TOOL_FALLBACK_COMMANDS then None
      else Some tool_name)"

text \<open>The name after aliases and the terminal fallback, and the arguments that go with it.\<close>

definition resolve_tool_name :: "json_env \<Rightarrow> string \<Rightarrow> dict \<Rightarrow> string list \<Rightarrow> string \<times> dict" where
  "resolve_tool_name je tool_name args available =
     (if tool_name \<in> set available then (tool_name, args)
      else
        let alias = map_of TOOL_NAME_ALIASES tool_name
        in if alias \<noteq> None \<and> the alias \<in> set available then (the alias, args)
           else if ''terminal'' \<in> set available then
             (case maybe_rewrite_as_terminal_command je tool_name args of
                None \<Rightarrow> (tool_name, args)
              | Some cmd \<Rightarrow>
                  (''terminal'',
                   set_key ''command'' (JStr cmd)
                     (filter (\<lambda>(k, v). k \<in> {''security_risk'', ''summary''}) args)))
           else (tool_name, args))"

definition normalize_tool_call ::
    "json_env \<Rightarrow> string \<Rightarrow> dict \<Rightarrow> string list \<Rightarrow> (call_error, string \<times> dict) result" where
  "normalize_tool_call je tool_name args available =
     (let (name, args1) = resolve_tool_name je tool_name args available
      in if name = ''file_editor'' then
           (case infer_file_editor_command args1 of
              Some cmd \<Rightarrow> Inr (name, (''command'', JStr cmd) # args1)
            | None \<Rightarrow>
                if args1 = [] \<or> (map_of args1 ''command'' = None \<and> \<not> has_file_editor_hint args1)
                then Inl (CannotInfer name)
                else Inr (name, args1))
         else Inr (name, args1))"

section \<open>The security risk and the summary\<close>

fun risk_of_json :: "json \<Rightarrow> security_risk option" where
  "risk_of_json (JStr s) =
     (if s = ''UNKNOWN'' then Some UNKNOWN else if s = ''LOW'' then Some LOW
      else if s = ''MEDIUM'' then Some MEDIUM else if s = ''HIGH'' then Some HIGH else None)"
| "risk_of_json _ = None"

text \<open>\<open>_extract_security_risk\<close>: the field is popped first, whatever comes of it.\<close>

definition extract_security_risk :: "dict \<Rightarrow> bool \<Rightarrow> bool \<Rightarrow> dict \<times> (call_error, security_risk) result" where
  "extract_security_risk args read_only_tool has_analyzer =
     (pop_key ''security_risk'' args,
      (if read_only_tool \<or> \<not> has_analyzer then Inr UNKNOWN
       else case map_of args ''security_risk'' of
         None \<Rightarrow> Inr UNKNOWN
       | Some raw \<Rightarrow>
           if raw = JNull then Inr UNKNOWN
           else (case risk_of_json raw of
                   Some r \<Rightarrow> Inr r
                 | None \<Rightarrow> Inl (CallValueError ''invalid SecurityRisk''))))"

definition extract_summary :: "json_env \<Rightarrow> string \<Rightarrow> dict \<Rightarrow> bool \<Rightarrow> dict \<times> string" where
  "extract_summary je tool_name args owns_summary =
     (if owns_summary then
        (args, (case nonblank (map_of args ''summary'') of
                  Some s \<Rightarrow> py_strip s
                | None \<Rightarrow> tool_name @ '': '' @ je_dumps je args))
      else
        (let args' = pop_key ''summary'' args
         in (args', (case nonblank (map_of args ''summary'') of
                       Some s \<Rightarrow> s
                     | None \<Rightarrow> tool_name @ '': '' @ je_dumps je args'))))"

section \<open>Lemmas\<close>

lemma sanitize_id: "list_all (\<lambda>c. \<not> is_control c) raw \<Longrightarrow> sanitize_json_control_chars raw = raw"
  by (induction raw) (auto simp: sanitize_json_control_chars_def)

lemma hex_digit_plain: "d < 16 \<Longrightarrow> \<not> is_control (hex_digit d)"
  by (auto simp: hex_digit_def is_control_def of_char_of)

lemma plain_chars:
  "\<not> is_control backslash" "\<not> is_control (CHR ''b'')" "\<not> is_control (CHR ''t'')" "\<not> is_control (CHR ''n'')"
  "\<not> is_control (CHR ''f'')" "\<not> is_control (CHR ''r'')" "\<not> is_control (CHR ''u'')" "\<not> is_control (CHR ''0'')"
  by (simp_all add: is_control_def backslash_def)

lemma escape_plain:
  assumes "is_control c"
  shows "list_all (\<lambda>c'. \<not> is_control c') (escape_control_char c)"
proof -
  have n: "(of_char c :: nat) < 32" using assms by (simp add: is_control_def)
  then have "(of_char c :: nat) div 16 < 16" "(of_char c :: nat) mod 16 < 16" by simp_all
  then have "\<not> is_control (hex_digit (of_char c div 16))" "\<not> is_control (hex_digit (of_char c mod 16))"
    using hex_digit_plain by blast+
  then show ?thesis by (simp add: escape_control_char_def Let_def plain_chars)
qed

lemma sanitize_no_control: "list_all (\<lambda>c. \<not> is_control c) (sanitize_json_control_chars raw)"
proof (induction raw)
  case (Cons c raw)
  have "sanitize_json_control_chars (c # raw) =
      (if is_control c then escape_control_char c else [c]) @ sanitize_json_control_chars raw"
    by (simp add: sanitize_json_control_chars_def)
  with Cons escape_plain [of c] show ?case by simp
qed (simp add: sanitize_json_control_chars_def)

lemma keys_set_key: "fst ` set (set_key k v d) = insert k (fst ` set d)"
  by (induction d) auto

lemma resolve_tool_name_target:
  "resolve_tool_name je tool_name args available = (name, args') \<Longrightarrow>
     name = tool_name \<and> args' = args \<or> tool_name \<notin> set available \<and> name \<in> set available \<and>
       name \<in> {''terminal'', ''file_editor''}"
  by (auto simp: resolve_tool_name_def Let_def TOOL_NAME_ALIASES_def split: if_splits option.splits)

text \<open>
  Normalization never hijacks a registered tool: its name is kept, and its arguments are too
  unless it is the file editor, which may get a \<open>command\<close> in front. A name that is not registered
  either stays as it is or becomes \<open>terminal\<close> or \<open>file_editor\<close>, and only if that tool is registered;
  what the terminal fallback passes on is the security risk, the summary and one generated command.
\<close>

theorem normalize_tool_call_target:
  assumes "normalize_tool_call je tool_name args available = Inr (name, args')"
  shows "(tool_name \<in> set available \<longrightarrow> name = tool_name) \<and>
    (name \<noteq> tool_name \<longrightarrow> name \<in> set available \<and> name \<in> {''terminal'', ''file_editor''}) \<and>
    (name = ''file_editor'' \<longrightarrow> map_of args' ''command'' \<noteq> None \<or> has_file_editor_hint args') \<and>
    (tool_name \<in> set available \<and> tool_name \<noteq> ''file_editor'' \<longrightarrow> args' = args) \<and>
    (name \<noteq> tool_name \<and> map_of TOOL_NAME_ALIASES tool_name = None \<longrightarrow>
       fst ` set args' \<subseteq> {''security_risk'', ''summary'', ''command''})"
proof -
  obtain n a where r: "resolve_tool_name je tool_name args available = (n, a)" by fastforce
  have n: "n = name" and a': "args' = a \<or> (\<exists>c. args' = (''command'', JStr c) # a \<and> name = ''file_editor'')"
    and ed: "name = ''file_editor'' \<Longrightarrow> map_of args' ''command'' \<noteq> None \<or> has_file_editor_hint args'"
    using assms r by (auto simp: normalize_tool_call_def split: if_splits option.splits)
  have fallback: "fst ` set a \<subseteq> {''security_risk'', ''summary'', ''command''} \<and> name = ''terminal''"
    if other: "name \<noteq> tool_name" "map_of TOOL_NAME_ALIASES tool_name = None"
  proof -
    have "\<exists>cmd. name = ''terminal'' \<and>
        a = set_key ''command'' (JStr cmd) (filter (\<lambda>(k, v). k \<in> {''security_risk'', ''summary''}) args)"
      using r n other by (auto simp: resolve_tool_name_def Let_def split: if_splits option.splits)
    then obtain cmd where t: "name = ''terminal''"
      and a: "a = set_key ''command'' (JStr cmd) (filter (\<lambda>(k, v). k \<in> {''security_risk'', ''summary''}) args)"
      by blast
    have "fst ` set (filter (\<lambda>(k, v). k \<in> {''security_risk'', ''summary''}) args) \<subseteq> {''security_risk'', ''summary''}"
      by auto
    with t show ?thesis unfolding a keys_set_key by blast
  qed
  have own: "tool_name \<in> set available \<Longrightarrow> n = tool_name \<and> a = args"
    using r by (simp add: resolve_tool_name_def)
  show ?thesis
    using resolve_tool_name_target [OF r] n a' ed fallback own by auto
qed

definition plain_json :: json_env where
  "plain_json = \<lparr>je_loads = (\<lambda>b s. None), je_dumps = (\<lambda>d. ''{}''), je_which = (\<lambda>c. True),
     je_join = concat, je_grep_script = '''', je_str = (\<lambda>e. ''error''), je_repr = concat\<rparr>"

lemma normalize_tool_call_target_witness:
  "fst ` set [(''security_risk'', JStr ''LOW''), (''command'', JStr ''rg-n-ix.--sortr=modified'')]
     \<subseteq> {''security_risk'', ''summary'', ''command''}"
  using normalize_tool_call_target
    [of plain_json "''grep''" "[(''pattern'', JStr ''x''), (''security_risk'', JStr ''LOW'')]" "[''terminal'']"
      "''terminal''" "[(''security_risk'', JStr ''LOW''), (''command'', JStr ''rg-n-ix.--sortr=modified'')]"]
  by (simp add: normalize_tool_call_def resolve_tool_name_def TOOL_NAME_ALIASES_def
      maybe_rewrite_as_terminal_command_def build_grep_terminal_command_def nonblank_def plain_json_def
      py_strip_def py_lstrip_def py_rstrip_def py_space_def Let_def)

text \<open>
  The repair of control characters gives a text without raw control characters, leaves exactly
  the texts that have none as they are, and doing it twice is doing it once.
\<close>

theorem sanitize_json_idempotent:
  "list_all (\<lambda>c. \<not> is_control c) (sanitize_json_control_chars raw) \<and>
   (sanitize_json_control_chars raw = raw) = list_all (\<lambda>c. \<not> is_control c) raw \<and>
   sanitize_json_control_chars (sanitize_json_control_chars raw) = sanitize_json_control_chars raw"
  using sanitize_no_control [of raw] sanitize_id [of raw] sanitize_id [of "sanitize_json_control_chars raw"]
  by metis

end
