(* ===== verification/Views.thy ===== *)
theory Views
  imports Events
begin

text \<open>
  The view a condenser and the LLM see (\<open>sdk/context/view\<close>): the four view properties, each
  with its enforcement and its manipulation indices, the enforcement loop and the construction of
  a view from the event log. A property is a pair of functions; what the loop needs of it is the
  locale \<open>view_property\<close>, interpreted for each of the four. A \<open>KeyError\<close> of the pairing is
  \<open>None\<close>. The lemmas show that the loop ends in a state that violates no property, that such a
  state pairs tool calls with results exactly, and that a cut between two manipulation indices
  keeps the pairing.
\<close>

section \<open>Manipulation indices\<close>

type_synonym indices = "nat set"

definition complete_indices :: "event list \<Rightarrow> indices" where
  "complete_indices es = insert (length es) {0..<length es}"

text \<open>\<open>find_next\<close>: no index at or past the threshold raises \<open>ValueError\<close>.\<close>

definition find_next :: "indices \<Rightarrow> int \<Rightarrow> nat option" where
  "find_next I threshold =
     (let valid = {i \<in> I. int i \<ge> threshold} in if valid = {} then None else Some (Min valid))"

lemma complete_indices_eq: "complete_indices es = {0..length es}"
  by (auto simp: complete_indices_def)

lemma find_next_SomeD:
  assumes "finite I" and "find_next I t = Some k"
  shows "k \<in> I" and "t \<le> int k" and "\<And>i. i \<in> I \<Longrightarrow> t \<le> int i \<Longrightarrow> k \<le> i"
proof -
  have fin: "finite {i \<in> I. int i \<ge> t}" using assms(1) by simp
  moreover have ne: "{i \<in> I. int i \<ge> t} \<noteq> {}" and k: "k = Min {i \<in> I. int i \<ge> t}"
    using assms(2) by (auto simp: find_next_def Let_def split: if_splits)
  ultimately have "k \<in> {i \<in> I. int i \<ge> t}" using Min_in by metis
  then show "k \<in> I" "t \<le> int k" by auto
  show "\<And>i. i \<in> I \<Longrightarrow> t \<le> int i \<Longrightarrow> k \<le> i"
    using fin by (simp add: k)
qed

lemma find_next_total: "i \<in> I \<Longrightarrow> t \<le> int i \<Longrightarrow> \<exists>k. find_next I t = Some k"
  by (auto simp: find_next_def Let_def)

section \<open>Observation uniqueness\<close>

fun uniqueness_remove :: "string set \<Rightarrow> event list \<Rightarrow> string set" where
  "uniqueness_remove seen [] = {}"
| "uniqueness_remove seen (e # es) =
     (case observed_call e of
        Some t \<Rightarrow>
          (if t \<in> seen then insert (event_id e) (uniqueness_remove seen es)
           else uniqueness_remove (insert t seen) es)
      | None \<Rightarrow> uniqueness_remove seen es)"

definition uniqueness_enforce :: "event list \<Rightarrow> event list \<Rightarrow> string set" where
  "uniqueness_enforce view all_events = uniqueness_remove {} view"

definition uniqueness_indices :: "event list \<Rightarrow> indices option" where
  "uniqueness_indices view = Some (complete_indices view)"

section \<open>Batch atomicity\<close>

text \<open>\<open>_build_batches\<close>: the ids of the actions of one response; a missing key is the empty set.\<close>

fun batch_ids :: "string \<Rightarrow> event list \<Rightarrow> string set" where
  "batch_ids rid [] = {}"
| "batch_ids rid (e # es) =
     (case e of
        ActionEvent a \<Rightarrow>
          (if ae_llm_response_id a = rid then insert (ae_id a) (batch_ids rid es)
           else batch_ids rid es)
      | _ \<Rightarrow> batch_ids rid es)"

fun response_ids :: "event list \<Rightarrow> string list" where
  "response_ids [] = []"
| "response_ids (ActionEvent a # es) = List.insert (ae_llm_response_id a) (response_ids es)"
| "response_ids (_ # es) = response_ids es"

definition batch_enforce :: "event list \<Rightarrow> event list \<Rightarrow> string set" where
  "batch_enforce view all_events =
     \<Union> (set (map (\<lambda>rid. if batch_ids rid view \<noteq> batch_ids rid all_events
                         then batch_ids rid view else {}) (response_ids view)))"

fun same_batch :: "event \<Rightarrow> event \<Rightarrow> bool" where
  "same_batch (ActionEvent a) (ActionEvent b) = (ae_llm_response_id a = ae_llm_response_id b)"
| "same_batch _ _ = False"

fun inside_batch :: "nat \<Rightarrow> event list \<Rightarrow> indices" where
  "inside_batch index (left # right # es) =
     (if same_batch left right then insert (index + 1) (inside_batch (index + 1) (right # es))
      else inside_batch (index + 1) (right # es))"
| "inside_batch index _ = {}"

definition batch_indices :: "event list \<Rightarrow> indices option" where
  "batch_indices view = Some (complete_indices view - inside_batch 0 view)"

section \<open>Tool call matching\<close>

definition action_calls :: "event list \<Rightarrow> string list" where
  "action_calls es = List.map_filter action_call es"

definition observed_calls :: "event list \<Rightarrow> string list" where
  "observed_calls es = List.map_filter observed_call es"

definition unmatched :: "string list \<Rightarrow> string list \<Rightarrow> event \<Rightarrow> bool" where
  "unmatched actions observations e =
     (case action_call e of
        Some t \<Rightarrow> t \<notin> set observations
      | None \<Rightarrow> (case observed_call e of Some t \<Rightarrow> t \<notin> set actions | None \<Rightarrow> False))"

definition matching_enforce :: "event list \<Rightarrow> event list \<Rightarrow> string set" where
  "matching_enforce view all_events =
     set (map event_id (filter (unmatched (action_calls view) (observed_calls view)) view))"

text \<open>
  One event of the pairing: an action opens its call, an observation closes it, and closing a
  call that is not open is the \<open>KeyError\<close> of \<open>set.remove\<close>.
\<close>

fun pend :: "event \<Rightarrow> string set \<Rightarrow> string set option" where
  "pend (ActionEvent a) P = Some (insert (ae_tool_call_id a) P)"
| "pend e P =
     (case observed_call e of
        Some t \<Rightarrow> (if t \<in> P then Some (P - {t}) else None)
      | None \<Rightarrow> Some P)"

fun matching_walk :: "nat \<Rightarrow> string set \<Rightarrow> event list \<Rightarrow> indices \<Rightarrow> indices option" where
  "matching_walk index P [] I = Some I"
| "matching_walk index P (e # es) I =
     (case pend e P of
        None \<Rightarrow> None
      | Some P' \<Rightarrow> matching_walk (index + 1) P' es (if P' \<noteq> {} then I - {index + 1} else I))"

definition matching_indices :: "event list \<Rightarrow> indices option" where
  "matching_indices view = matching_walk 0 {} view (complete_indices view)"

section \<open>Tool loop atomicity\<close>

fun starts_loop :: "event \<Rightarrow> bool" where
  "starts_loop (ActionEvent a) = (ae_thinking_blocks a \<noteq> [])"
| "starts_loop _ = False"

fun loop_walk :: "string set list \<Rightarrow> string set option \<Rightarrow> event list \<Rightarrow> string set list" where
  "loop_walk loops cur [] = (case cur of Some c \<Rightarrow> loops @ [c] | None \<Rightarrow> loops)"
| "loop_walk loops cur (e # es) =
     (if starts_loop e then
        loop_walk (case cur of Some c \<Rightarrow> loops @ [c] | None \<Rightarrow> loops) (Some {event_id e}) es
      else if is_action e \<or> is_observation e then
        loop_walk loops (map_option (insert (event_id e)) cur) es
      else
        loop_walk (case cur of Some c \<Rightarrow> loops @ [c] | None \<Rightarrow> loops) None es)"

definition tool_loops :: "event list \<Rightarrow> string set list" where
  "tool_loops es = loop_walk [] None es"

fun loop_remove :: "string set list \<Rightarrow> string set \<Rightarrow> string set \<Rightarrow> event list \<Rightarrow> string set" where
  "loop_remove loops ids removed [] = removed"
| "loop_remove loops ids removed (e # es) =
     (if event_id e \<in> removed then loop_remove loops ids removed es
      else case find (\<lambda>l. event_id e \<in> l) loops of
             None \<Rightarrow> loop_remove loops ids removed es
           | Some l \<Rightarrow>
               (if \<not> l \<subseteq> ids then loop_remove loops ids (removed \<union> (ids \<inter> l)) es
                else loop_remove loops ids removed es))"

definition loop_enforce :: "event list \<Rightarrow> event list \<Rightarrow> string set" where
  "loop_enforce view all_events =
     loop_remove (tool_loops all_events) (set (map event_id view)) {} view"

fun inside_loop :: "nat \<Rightarrow> bool \<Rightarrow> event list \<Rightarrow> indices" where
  "inside_loop index in_loop [] = {}"
| "inside_loop index in_loop (e # es) =
     (if starts_loop e then inside_loop (index + 1) True es
      else if is_action e \<or> is_observation e then
        (if in_loop then insert index (inside_loop (index + 1) in_loop es)
         else inside_loop (index + 1) in_loop es)
      else inside_loop (index + 1) False es)"

definition loop_indices :: "event list \<Rightarrow> indices option" where
  "loop_indices view = Some (complete_indices view - inside_loop 0 False view)"

section \<open>The view\<close>

record view_property_impl =
  vp_enforce :: "event list \<Rightarrow> event list \<Rightarrow> string set"
  vp_indices :: "event list \<Rightarrow> indices option"

definition ALL_PROPERTIES :: "view_property_impl list" where
  "ALL_PROPERTIES =
     [\<lparr>vp_enforce = uniqueness_enforce, vp_indices = uniqueness_indices\<rparr>,
      \<lparr>vp_enforce = batch_enforce, vp_indices = batch_indices\<rparr>,
      \<lparr>vp_enforce = matching_enforce, vp_indices = matching_indices\<rparr>,
      \<lparr>vp_enforce = loop_enforce, vp_indices = loop_indices\<rparr>]"

fun meet_indices :: "view_property_impl list \<Rightarrow> event list \<Rightarrow> indices \<Rightarrow> indices option" where
  "meet_indices [] es I = Some I"
| "meet_indices (p # ps) es I =
     (case vp_indices p es of None \<Rightarrow> None | Some J \<Rightarrow> meet_indices ps es (I \<inter> J))"

definition manipulation_indices :: "event list \<Rightarrow> indices option" where
  "manipulation_indices es = meet_indices ALL_PROPERTIES es (complete_indices es)"

text \<open>The \<open>for ... break ... else\<close>: the first property with something to forget.\<close>

fun first_violation ::
    "view_property_impl list \<Rightarrow> event list \<Rightarrow> event list \<Rightarrow> string set option" where
  "first_violation [] es all_events = None"
| "first_violation (p # ps) es all_events =
     (let forget = vp_enforce p es all_events
      in if forget \<noteq> {} then Some forget else first_violation ps es all_events)"

definition forget_ids :: "string set \<Rightarrow> event list \<Rightarrow> event list" where
  "forget_ids ids es = filter (\<lambda>e. event_id e \<notin> ids) es"

text \<open>
  The interface the loop relies on: a property only names events of the view, and its
  manipulation indices are positions of the view.
\<close>

locale view_property =
  fixes enforce :: "event list \<Rightarrow> event list \<Rightarrow> string set"
    and indices :: "event list \<Rightarrow> indices option"
  assumes enforce_in_view: "enforce view all_events \<subseteq> event_id ` set view"
    and indices_in_view: "indices view = Some I \<Longrightarrow> I \<subseteq> {0..length view}"
begin

lemma enforce_progress:
  assumes "enforce view all_events \<noteq> {}"
  shows "length (forget_ids (enforce view all_events) view) < length view"
proof -
  obtain i where "i \<in> enforce view all_events" using assms by blast
  with enforce_in_view [of view all_events] obtain e where e: "e \<in> set view" "event_id e \<in> enforce view all_events" by auto
  then show ?thesis unfolding forget_ids_def by (intro length_filter_strict) auto
qed

lemma indices_finite: "indices view = Some I \<Longrightarrow> finite I"
  using indices_in_view finite_subset by blast

end

lemma uniqueness_remove_in: "uniqueness_remove S es \<subseteq> event_id ` set es"
  by (induction S es rule: uniqueness_remove.induct) (auto split: option.splits)

lemma batch_ids_in: "batch_ids rid es \<subseteq> event_id ` set es"
proof (induction es)
  case (Cons e es)
  then show ?case by (cases "is_action e") (auto simp: is_action_iff split: event.splits)
qed simp

lemma loop_remove_in: "loop_remove loops ids R es \<subseteq> R \<union> ids"
proof (induction es arbitrary: R)
  case (Cons e es)
  show ?case
  proof (cases "find (\<lambda>l. event_id e \<in> l) loops")
    case None
    then show ?thesis using Cons [of R] by simp
  next
    case (Some l)
    then show ?thesis using Cons [of R] Cons [of "R \<union> (ids \<inter> l)"] by auto
  qed
qed simp

lemma matching_walk_in: "matching_walk n P es I = Some J \<Longrightarrow> J \<subseteq> I"
proof (induction es arbitrary: n P I)
  case (Cons e es)
  then obtain P' where P': "pend e P = Some P'" by (auto split: option.splits)
  show ?case
    using Cons.IH [of "n + 1" P' "if P' \<noteq> {} then I - {n + 1} else I"] Cons.prems P'
    by (auto split: if_splits)
qed simp

interpretation uniq: view_property uniqueness_enforce uniqueness_indices
  by unfold_locales
    (auto simp: uniqueness_enforce_def uniqueness_indices_def complete_indices_eq
      dest: subsetD [OF uniqueness_remove_in])

interpretation bat: view_property batch_enforce batch_indices
  by unfold_locales
    (auto simp: batch_enforce_def batch_indices_def complete_indices_eq
      dest: subsetD [OF batch_ids_in] split: if_splits)

interpretation mat: view_property matching_enforce matching_indices
  by unfold_locales
    (auto simp: matching_enforce_def matching_indices_def complete_indices_eq
      dest: subsetD [OF matching_walk_in])

interpretation loop: view_property loop_enforce loop_indices
  by unfold_locales
    (auto simp: loop_enforce_def loop_indices_def complete_indices_eq
      dest: subsetD [OF loop_remove_in])

lemmas enforce_progress = uniq.enforce_progress bat.enforce_progress mat.enforce_progress
  loop.enforce_progress

lemma first_violation_progress:
  "first_violation ALL_PROPERTIES es all_events = Some ids \<Longrightarrow>
     length (forget_ids ids es) < length es"
  by (auto simp: ALL_PROPERTIES_def Let_def intro: enforce_progress split: if_splits)

function enforce_properties :: "event list \<Rightarrow> event list \<Rightarrow> event list" where
  "enforce_properties es all_events =
     (case first_violation ALL_PROPERTIES es all_events of
        None \<Rightarrow> es
      | Some ids \<Rightarrow> enforce_properties (forget_ids ids es) all_events)"
  by pat_completeness auto
termination
  by (relation "measure (\<lambda>(es, _). length es)") (auto intro: first_violation_progress)

declare enforce_properties.simps [simp del]

record view =
  v_events :: "event list"
  v_unhandled_condensation_request :: bool

definition empty_view :: view where
  "empty_view = \<lparr>v_events = [], v_unhandled_condensation_request = False\<rparr>"

fun append_event :: "view \<Rightarrow> event \<Rightarrow> view" where
  "append_event v (Condensation c) =
     v\<lparr>v_events := apply_condensation c (v_events v), v_unhandled_condensation_request := False\<rparr>"
| "append_event v (CondensationRequest i s) = v\<lparr>v_unhandled_condensation_request := True\<rparr>"
| "append_event v e =
     (if is_llm_convertible e then v\<lparr>v_events := v_events v @ [e]\<rparr> else v)"

definition from_events :: "event list \<Rightarrow> view" where
  "from_events events =
     (let result = foldl append_event empty_view events
      in result\<lparr>v_events := enforce_properties (v_events result) events\<rparr>)"

section \<open>The enforcement loop\<close>

lemma first_violation_None_iff:
  "first_violation ps es all_events = None \<longleftrightarrow> (\<forall>p \<in> set ps. vp_enforce p es all_events = {})"
  by (induction ps) (auto simp: Let_def)

definition satisfies_all :: "event list \<Rightarrow> event list \<Rightarrow> bool" where
  "satisfies_all es all_events \<longleftrightarrow>
     uniqueness_enforce es all_events = {} \<and> batch_enforce es all_events = {} \<and>
     matching_enforce es all_events = {} \<and> loop_enforce es all_events = {}"

lemma satisfies_all_iff:
  "satisfies_all es all_events \<longleftrightarrow> first_violation ALL_PROPERTIES es all_events = None"
  unfolding satisfies_all_def first_violation_None_iff ALL_PROPERTIES_def by simp

lemma enforce_properties_satisfies: "satisfies_all (enforce_properties es all_events) all_events"
proof (induction es all_events rule: enforce_properties.induct)
  case (1 es all_events)
  then show ?case
    by (subst enforce_properties.simps) (auto simp: satisfies_all_iff split: option.splits)
qed

lemma enforce_properties_subseq: "subseq (enforce_properties es all_events) es"
proof (induction es all_events rule: enforce_properties.induct)
  case (1 es all_events)
  have "subseq (forget_ids ids es) es" for ids by (simp add: forget_ids_def)
  with 1 show ?case
    by (subst enforce_properties.simps)
      (auto split: option.splits intro: subseq_order.trans)
qed

lemma enforce_properties_stable: "satisfies_all es all_events \<Longrightarrow> enforce_properties es all_events = es"
  by (subst enforce_properties.simps) (simp add: satisfies_all_iff)

section \<open>What an enforced view looks like\<close>

lemma action_calls_simps [simp]:
  "action_calls [] = []"
  "action_calls (e # es) = (case action_call e of Some t \<Rightarrow> t # action_calls es | None \<Rightarrow> action_calls es)"
  "action_calls (xs @ ys) = action_calls xs @ action_calls ys"
  by (simp_all add: action_calls_def List.map_filter_def split: option.splits)

lemma observed_calls_simps [simp]:
  "observed_calls [] = []"
  "observed_calls (e # es) =
     (case observed_call e of Some t \<Rightarrow> t # observed_calls es | None \<Rightarrow> observed_calls es)"
  "observed_calls (xs @ ys) = observed_calls xs @ observed_calls ys"
  by (simp_all add: observed_calls_def List.map_filter_def split: option.splits)

lemma set_action_calls: "t \<in> set (action_calls es) \<longleftrightarrow> (\<exists>e \<in> set es. action_call e = Some t)"
  by (induction es) (auto split: option.splits)

lemma set_observed_calls: "t \<in> set (observed_calls es) \<longleftrightarrow> (\<exists>e \<in> set es. observed_call e = Some t)"
  by (induction es) (auto split: option.splits)

lemma matching_enforce_empty_iff:
  "matching_enforce es all_events = {} \<longleftrightarrow> set (action_calls es) = set (observed_calls es)"
proof -
  have "unmatched as os e \<longleftrightarrow> (\<exists>t. action_call e = Some t \<and> t \<notin> set os) \<or>
      (\<exists>t. observed_call e = Some t \<and> t \<notin> set as)" for as os e
    by (cases e) (auto simp: unmatched_def)
  then have "matching_enforce es all_events = {} \<longleftrightarrow>
      (\<forall>e \<in> set es. (\<forall>t. action_call e = Some t \<longrightarrow> t \<in> set (observed_calls es)) \<and>
         (\<forall>t. observed_call e = Some t \<longrightarrow> t \<in> set (action_calls es)))"
    by (auto simp: matching_enforce_def filter_empty_conv)
  also have "\<dots> \<longleftrightarrow> set (action_calls es) = set (observed_calls es)"
    by (auto simp: set_action_calls set_observed_calls)
  finally show ?thesis .
qed

lemma uniqueness_remove_empty_iff:
  "uniqueness_remove S es = {} \<longleftrightarrow> distinct (observed_calls es) \<and> S \<inter> set (observed_calls es) = {}"
  by (induction S es rule: uniqueness_remove.induct) (auto split: option.splits)

lemma uniqueness_enforce_empty_iff:
  "uniqueness_enforce es all_events = {} \<longleftrightarrow> distinct (observed_calls es)"
  by (simp add: uniqueness_enforce_def uniqueness_remove_empty_iff)

lemma set_response_ids:
  "set (response_ids es) = {ae_llm_response_id a | a. ActionEvent a \<in> set es}"
  by (induction es rule: response_ids.induct) auto

lemma batch_ids_eq:
  "batch_ids rid es = {ae_id a | a. ActionEvent a \<in> set es \<and> ae_llm_response_id a = rid}"
proof (induction es)
  case (Cons e es)
  then show ?case by (cases "is_action e") (auto simp: is_action_iff split: event.splits)
qed simp

lemma batch_enforce_empty_iff:
  "batch_enforce es all_events = {} \<longleftrightarrow>
     (\<forall>a. ActionEvent a \<in> set es \<longrightarrow>
        batch_ids (ae_llm_response_id a) es = batch_ids (ae_llm_response_id a) all_events)"
proof -
  have ne: "batch_ids (ae_llm_response_id a) es \<noteq> {}" if "ActionEvent a \<in> set es" for a
    using that by (auto simp: batch_ids_eq)
  have "batch_enforce es all_events = {} \<longleftrightarrow>
      (\<forall>rid \<in> set (response_ids es). batch_ids rid es = batch_ids rid all_events \<or> batch_ids rid es = {})"
    by (auto simp: batch_enforce_def split: if_splits)
  also have "\<dots> \<longleftrightarrow> (\<forall>a. ActionEvent a \<in> set es \<longrightarrow>
        batch_ids (ae_llm_response_id a) es = batch_ids (ae_llm_response_id a) all_events)"
    using ne by (simp add: set_response_ids) blast
  finally show ?thesis .
qed

text \<open>A tool loop that meets an enforced view lies in it, for the first loop an event is in.\<close>

lemma loop_remove_mono: "R \<subseteq> loop_remove loops ids R es"
proof (induction es arbitrary: R)
  case (Cons e es)
  show ?case
    using Cons.IH [of R] Cons.IH [of "R \<union> (ids \<inter> the (find (\<lambda>l. event_id e \<in> l) loops))"]
    by (auto split: option.splits)
qed simp

lemma loop_remove_empty:
  assumes "loop_remove loops ids {} es = {}" and "e \<in> set es" and "event_id e \<in> ids"
    and "find (\<lambda>l. event_id e \<in> l) loops = Some l"
  shows "l \<subseteq> ids"
  using assms(1,2)
proof (induction es)
  case (Cons x es)
  show ?case
  proof (cases "x = e")
    case True
    have "event_id e \<in> l" using assms(4) by (auto simp: find_Some_iff)
    moreover have "\<not> l \<subseteq> ids \<Longrightarrow> ids \<inter> l \<subseteq> {}"
      using Cons.prems(1) True assms(4) loop_remove_mono [of "ids \<inter> l" loops ids es] by simp
    ultimately show ?thesis using assms(3) by blast
  next
    case False
    have "loop_remove loops ids {} es = {}"
    proof (cases "find (\<lambda>l. event_id x \<in> l) loops")
      case (Some k)
      have "\<not> k \<subseteq> ids \<Longrightarrow> ids \<inter> k = {}"
        using Cons.prems(1) Some loop_remove_mono [of "ids \<inter> k" loops ids es] by auto
      with Cons.prems(1) Some show ?thesis by (auto split: if_splits)
    qed (use Cons.prems(1) in simp)
    with Cons False show ?thesis by simp
  qed
qed simp

lemma satisfies_all_facts:
  assumes "satisfies_all es all_events"
  shows "set (action_calls es) = set (observed_calls es)"
    and "distinct (observed_calls es)"
    and "ActionEvent a \<in> set es \<Longrightarrow>
      batch_ids (ae_llm_response_id a) es = batch_ids (ae_llm_response_id a) all_events"
    and "e \<in> set es \<Longrightarrow> find (\<lambda>l. event_id e \<in> l) (tool_loops all_events) = Some l \<Longrightarrow>
      l \<subseteq> event_id ` set es"
  using assms loop_remove_empty [of "tool_loops all_events" "event_id ` set es" es e l]
  by (auto simp: satisfies_all_def matching_enforce_empty_iff uniqueness_enforce_empty_iff
      batch_enforce_empty_iff loop_enforce_def)

section \<open>Cutting a view between manipulation indices\<close>

text \<open>
  \<open>pends P es\<close>: the calls open after the events, when \<open>P\<close> are open before them. An index is a
  matching index exactly when no call is open there.
\<close>

fun pends :: "string set \<Rightarrow> event list \<Rightarrow> string set option" where
  "pends P [] = Some P"
| "pends P (e # es) = (case pend e P of None \<Rightarrow> None | Some P' \<Rightarrow> pends P' es)"

lemma pends_append:
  "pends P (xs @ ys) = (case pends P xs of None \<Rightarrow> None | Some P' \<Rightarrow> pends P' ys)"
  by (induction xs arbitrary: P) (auto split: option.splits)

lemma matching_walk_eq:
  "matching_walk n P es I =
     (case pends P es of
        None \<Rightarrow> None
      | Some _ \<Rightarrow> Some {k \<in> I. \<forall>m < length es. k = n + Suc m \<longrightarrow> pends P (take (Suc m) es) = Some {}})"
proof (induction es arbitrary: n P I)
  case (Cons e es)
  show ?case
  proof (cases "pend e P")
    case (Some P')
    let ?J = "if P' \<noteq> {} then I - {n + 1} else I"
    let ?A = "{k \<in> ?J. \<forall>m < length es. k = n + 1 + Suc m \<longrightarrow> pends P' (take (Suc m) es) = Some {}}"
      and ?B = "{k \<in> I. \<forall>m < length (e # es). k = n + Suc m \<longrightarrow> pends P (take (Suc m) (e # es)) = Some {}}"
    have "k \<in> ?A \<longleftrightarrow> k \<in> ?B" for k
      using Some by (auto simp: less_Suc_eq_0_disj)
    then have eq: "?A = ?B" by blast
    have "matching_walk n P (e # es) I = matching_walk (n + 1) P' es ?J"
      using Some by simp
    also have "\<dots> = (case pends P' es of None \<Rightarrow> None | Some _ \<Rightarrow> Some ?A)"
      by (rule Cons.IH)
    also have "\<dots> = (case pends P (e # es) of None \<Rightarrow> None | Some _ \<Rightarrow> Some ?B)"
      unfolding eq using Some by simp
    finally show ?thesis .
  qed simp
qed simp

lemma matching_indices_eq:
  "matching_indices es =
     (case pends {} es of
        None \<Rightarrow> None
      | Some _ \<Rightarrow> Some {k. k \<le> length es \<and> pends {} (take k es) = Some {}})"
proof -
  have "(k \<in> complete_indices es \<and> (\<forall>m < length es. k = 0 + Suc m \<longrightarrow> pends {} (take (Suc m) es) = Some {}))
     \<longleftrightarrow> (k \<le> length es \<and> pends {} (take k es) = Some {})" for k
    by (cases k) (auto simp: complete_indices_eq)
  then show ?thesis
    unfolding matching_indices_def matching_walk_eq by (auto split: option.splits)
qed

definition cut :: "nat \<Rightarrow> nat \<Rightarrow> 'a list \<Rightarrow> 'a list" where
  "cut i j es = take i es @ drop j es"

text \<open>Where the cut ends, the pairing is in the state it was in without the cut.\<close>

lemma pends_cut:
  assumes "matching_indices es = Some I" and "i \<in> I" and "j \<in> I"
  shows "pends {} (cut i j es) = pends {} es" and "i \<le> length es" and "j \<le> length es"
proof -
  have ij: "pends {} (take i es) = Some {}" "pends {} (take j es) = Some {}"
    and le: "i \<le> length es" "j \<le> length es"
    using assms by (auto simp: matching_indices_eq split: option.splits)
  have "pends {} es = pends {} (drop j es)"
    using pends_append [of "{}" "take j es" "drop j es"] ij(2) by simp
  also have "\<dots> = pends {} (cut i j es)"
    using ij(1) by (simp add: cut_def pends_append)
  finally show "pends {} (cut i j es) = pends {} es" by simp
  show "i \<le> length es" "j \<le> length es" by (fact le)+
qed

text \<open>When every call is closed at the end, calls and results are the same set.\<close>

lemma pend_sets:
  "pend e P = Some Q \<Longrightarrow>
     Q \<subseteq> P \<union> set (action_calls [e]) \<and> P \<union> set (action_calls [e]) \<subseteq> Q \<union> set (observed_calls [e]) \<and>
     set (observed_calls [e]) \<subseteq> P"
  by (cases e) (auto split: if_splits)

lemma pends_sets:
  "pends P es = Some Q \<Longrightarrow>
     Q \<subseteq> P \<union> set (action_calls es) \<and> P \<union> set (action_calls es) \<subseteq> Q \<union> set (observed_calls es) \<and>
     set (observed_calls es) \<subseteq> P \<union> set (action_calls es)"
proof (induction es arbitrary: P)
  case (Cons e es)
  then obtain P' where P': "pend e P = Some P'" "pends P' es = Some Q"
    by (auto split: option.splits)
  from Cons.IH [OF P'(2)] pend_sets [OF P'(1)] show ?case
    by (auto split: option.splits)
qed simp

lemma matching_closed:
  assumes "matching_indices es = Some I" and "length es \<in> I"
  shows "matching_enforce es all_events = {}"
  using assms pends_sets [of "{}" es "{}"]
  by (auto simp: matching_indices_eq matching_enforce_empty_iff split: option.splits)

lemma matching_indices_cut:
  assumes I: "matching_indices es = Some I" and "i \<in> I" and "j \<in> I" and "length es \<in> I"
  shows "\<exists>J. matching_indices (cut i j es) = Some J \<and> length (cut i j es) \<in> J"
  using assms pends_cut [OF assms(1-3)]
  by (auto simp: matching_indices_eq split: option.splits)

lemma observed_calls_cut_distinct:
  assumes "distinct (observed_calls es)" and "i \<le> j"
  shows "distinct (observed_calls (cut i j es))"
proof -
  have "es = take i es @ take (j - i) (drop i es) @ drop j es" by (rule split_three [OF assms(2)])
  then have "distinct (observed_calls (take i es) @ observed_calls (take (j - i) (drop i es)) @
      observed_calls (drop j es))"
    using assms(1) by (metis observed_calls_simps(3))
  then show ?thesis by (auto simp: cut_def)
qed

text \<open>The meet of all properties' indices lies in each property's indices.\<close>

lemma manipulation_indices_subset:
  assumes "manipulation_indices es = Some I"
  shows "\<exists>M. matching_indices es = Some M \<and> I \<subseteq> M"
    and "I \<subseteq> complete_indices es - inside_batch 0 es"
    and "I \<subseteq> complete_indices es - inside_loop 0 False es"
  using assms
  by (auto simp: manipulation_indices_def ALL_PROPERTIES_def uniqueness_indices_def
      batch_indices_def loop_indices_def split: option.splits)

lemma manipulation_indices_finite: "manipulation_indices es = Some I \<Longrightarrow> finite I"
  using manipulation_indices_subset(2) [of es I] finite_subset
  by (fastforce simp: complete_indices_eq)

lemma length_in_complete: "length es \<in> complete_indices es" "0 \<in> complete_indices es"
  by (auto simp: complete_indices_eq)

lemma inside_batch_bounds: "k \<in> inside_batch n es \<Longrightarrow> n < k \<and> k < n + length es"
  by (induction n es rule: inside_batch.induct) (auto split: if_splits)

lemma inside_loop_bounds:
  "k \<in> inside_loop n b es \<Longrightarrow> n \<le> k \<and> k < n + length es \<and> (b \<or> n < k)"
  by (induction n b es rule: inside_loop.induct) (auto split: if_splits)

lemma manipulation_indices_iff:
  "manipulation_indices es = Some I \<longleftrightarrow>
     (\<exists>M. matching_indices es = Some M \<and>
        I = M - inside_batch 0 es - inside_loop 0 False es)"
proof -
  have "M \<subseteq> complete_indices es" if "matching_indices es = Some M" for M
    using that matching_walk_in unfolding matching_indices_def by blast
  then show ?thesis
    by (auto simp: manipulation_indices_def ALL_PROPERTIES_def uniqueness_indices_def
        batch_indices_def loop_indices_def split: option.splits)
qed

text \<open>
  A closed view (every call answered in order) has both its ends among its manipulation indices.
\<close>

lemma manipulation_indices_ends:
  assumes "pends {} es = Some {}"
  shows "\<exists>I. manipulation_indices es = Some I \<and> 0 \<in> I \<and> length es \<in> I"
  using assms inside_batch_bounds [of 0 0 es] inside_batch_bounds [of "length es" 0 es]
    inside_loop_bounds [of 0 0 False es] inside_loop_bounds [of "length es" 0 False es]
  by (auto simp: manipulation_indices_iff matching_indices_eq)
text \<open>An event that neither opens nor closes a call leaves the pairing alone wherever it is inserted.\<close>

lemma pend_neutral: "action_call e = None \<Longrightarrow> observed_call e = None \<Longrightarrow> pend e P = Some P"
  by (cases e) auto

lemma pends_insert:
  "action_call e = None \<Longrightarrow> observed_call e = None \<Longrightarrow> pends P (xs @ e # ys) = pends P (xs @ ys)"
  by (simp add: pends_append pend_neutral split: option.splits)

text \<open>Batches: the positions inside a run of actions of one response.\<close>

lemma inside_batch_iff:
  "k \<in> inside_batch n es \<longleftrightarrow> (\<exists>m. k = n + Suc m \<and> Suc m < length es \<and> same_batch (es ! m) (es ! Suc m))"
proof (induction n es rule: inside_batch.induct)
  case (1 n l r es)
  have "(\<exists>m. k = n + Suc m \<and> Suc m < length (l # r # es) \<and> same_batch ((l # r # es) ! m) ((l # r # es) ! Suc m))
    \<longleftrightarrow> (k = n + 1 \<and> same_batch l r) \<or>
      (\<exists>m. k = n + 1 + Suc m \<and> Suc m < length (r # es) \<and> same_batch ((r # es) ! m) ((r # es) ! Suc m))"
    (is "?L \<longleftrightarrow> ?R")
  proof
    assume ?L
    then obtain m where "k = n + Suc m" "Suc m < length (l # r # es)"
      "same_batch ((l # r # es) ! m) ((l # r # es) ! Suc m)" by blast
    then show ?R by (cases m) auto
  next
    assume ?R
    then show ?L
    proof
      assume "\<exists>m. k = n + 1 + Suc m \<and> Suc m < length (r # es) \<and> same_batch ((r # es) ! m) ((r # es) ! Suc m)"
      then obtain m where "k = n + 1 + Suc m" "Suc m < length (r # es)"
        "same_batch ((r # es) ! m) ((r # es) ! Suc m)" by blast
      then show ?L by (intro exI [of _ "Suc m"]) simp
    qed auto
  qed
  with 1 show ?case by auto
qed auto

text \<open>Every batch is a run: between two actions of one response there are only actions of it.\<close>

definition batches_adjacent :: "event list \<Rightarrow> bool" where
  "batches_adjacent es \<longleftrightarrow>
     (\<forall>p q. p < q \<longrightarrow> q < length es \<longrightarrow> same_batch (es ! p) (es ! q) \<longrightarrow>
        (\<forall>r. p \<le> r \<longrightarrow> r < q \<longrightarrow> same_batch (es ! r) (es ! Suc r)))"

lemma batches_adjacentD:
  "batches_adjacent es \<Longrightarrow> p < q \<Longrightarrow> q < length es \<Longrightarrow> same_batch (es ! p) (es ! q) \<Longrightarrow>
     p \<le> r \<Longrightarrow> r < q \<Longrightarrow> same_batch (es ! r) (es ! Suc r)"
  unfolding batches_adjacent_def by blast

lemma in_cut_iff:
  assumes "i \<le> j" and "j \<le> length es"
  shows "x \<in> set (cut i j es) \<longleftrightarrow> (\<exists>p < length es. (p < i \<or> j \<le> p) \<and> es ! p = x)"
proof -
  have "x \<in> set (take i es) \<longleftrightarrow> (\<exists>p < length es. p < i \<and> es ! p = x)"
    by (auto simp: in_set_conv_nth)
  moreover have "x \<in> set (drop j es) \<longleftrightarrow> (\<exists>p < length es. j \<le> p \<and> es ! p = x)"
  proof
    assume "x \<in> set (drop j es)"
    then obtain m where "m < length es - j" "es ! (j + m) = x"
      using assms by (auto simp: in_set_conv_nth)
    then show "\<exists>p < length es. j \<le> p \<and> es ! p = x" by (intro exI [of _ "j + m"]) auto
  next
    assume "\<exists>p < length es. j \<le> p \<and> es ! p = x"
    then obtain p where "p < length es" "j \<le> p" "es ! p = x" by blast
    then show "x \<in> set (drop j es)"
      using assms by (auto simp: in_set_conv_nth intro!: exI [of _ "p - j"])
  qed
  ultimately show ?thesis by (auto simp: cut_def)
qed

text \<open>A cut at two indices that lie in no run keeps or drops each batch as a whole.\<close>

lemma batch_ids_cut:
  assumes adj: "batches_adjacent es" and ij: "i \<le> j" "j \<le> length es"
    and out: "i \<notin> inside_batch 0 es" "j \<notin> inside_batch 0 es"
    and a: "ActionEvent a \<in> set (cut i j es)"
  shows "batch_ids (ae_llm_response_id a) (cut i j es) = batch_ids (ae_llm_response_id a) es"
proof -
  obtain p where p: "p < length es" "p < i \<or> j \<le> p" "es ! p = ActionEvent a"
    using a in_cut_iff [OF ij] by blast
  have "ActionEvent b \<in> set (cut i j es)"
    if b: "ActionEvent b \<in> set es" "ae_llm_response_id b = ae_llm_response_id a" for b
  proof (rule ccontr)
    assume n: "ActionEvent b \<notin> set (cut i j es)"
    obtain q where q: "q < length es" "es ! q = ActionEvent b" using b(1) by (auto simp: in_set_conv_nth)
    with n in_cut_iff [OF ij] have iq: "i \<le> q" "q < j" by fastforce+
    have run: "same_batch (es ! r) (es ! Suc r)" if "min p q \<le> r" "r < max p q" for r
    proof -
      have "same_batch (es ! p) (es ! q)" "same_batch (es ! q) (es ! p)" using p(3) q(2) b(2) by auto
      then show ?thesis
        using batches_adjacentD [OF adj, of p q r] batches_adjacentD [OF adj, of q p r] that p(1) q(1)
        by (cases "p < q") auto
    qed
    show False
    proof (cases "p < i")
      case True
      then have "same_batch (es ! (i - 1)) (es ! Suc (i - 1))" using run [of "i - 1"] iq by auto
      then have "i \<in> inside_batch 0 es"
        using True iq q(1) by (auto simp: inside_batch_iff intro!: exI [of _ "i - 1"])
      with out(1) show False by simp
    next
      case False
      then have jp: "j \<le> p" using p(2) by simp
      then have "same_batch (es ! (j - 1)) (es ! Suc (j - 1))" using run [of "j - 1"] iq by auto
      then have "j \<in> inside_batch 0 es"
        using jp iq p(1) by (auto simp: inside_batch_iff intro!: exI [of _ "j - 1"])
      with out(2) show False by simp
    qed
  qed
  moreover have "set (cut i j es) \<subseteq> set es" using in_cut_iff [OF ij] by fastforce
  ultimately show ?thesis by (auto simp: batch_ids_eq)
qed

lemma batch_enforce_cut:
  assumes "batch_enforce es all_events = {}" and "batches_adjacent es"
    and "manipulation_indices es = Some I" and "i \<in> I" and "j \<in> I" and "i \<le> j"
  shows "batch_enforce (cut i j es) all_events = {}"
proof -
  have I: "i \<notin> inside_batch 0 es" "j \<notin> inside_batch 0 es" "j \<le> length es"
    using manipulation_indices_subset(2) [OF assms(3)] assms(4,5) by (auto simp: complete_indices_eq)
  have sub: "set (cut i j es) \<subseteq> set es" using in_cut_iff [OF assms(6) I(3)] by fastforce
  show ?thesis
    using batch_ids_cut [OF assms(2,6) I(3,1,2)] assms(1) sub
    by (auto simp: batch_enforce_empty_iff)
qed

section \<open>Properties\<close>

text \<open>
  C1: The view built from any event log is well formed. The enforcement loop always ends, in a
  subsequence of the events the log leaves after its condensations that the loop would leave as
  it is: every tool call of the view has a result and every result a call, no call has two
  results, no batch of the log is partly in the view, and no tool loop of the log is partly in
  the view.
\<close>

theorem from_events_well_formed:
  "let V = v_events (from_events events)
   in subseq V (v_events (foldl append_event empty_view events)) \<and>
      enforce_properties V events = V \<and>
      set (action_calls V) = set (observed_calls V) \<and> distinct (observed_calls V) \<and>
      {a. ActionEvent a \<in> set V \<and>
         batch_ids (ae_llm_response_id a) V \<noteq> batch_ids (ae_llm_response_id a) events} = {} \<and>
      {e \<in> set V. \<exists>l. find (\<lambda>l. event_id e \<in> l) (tool_loops events) = Some l \<and>
         \<not> l \<subseteq> event_id ` set V} = {}"
proof -
  let ?W = "v_events (foldl append_event empty_view events)"
  have V: "v_events (from_events events) = enforce_properties ?W events"
    by (simp add: from_events_def Let_def)
  let ?V = "enforce_properties ?W events"
  have sat: "satisfies_all ?V events" by (rule enforce_properties_satisfies)
  have "subseq ?V ?W" by (rule enforce_properties_subseq)
  moreover have "enforce_properties ?V events = ?V" by (rule enforce_properties_stable [OF sat])
  moreover have "{a. ActionEvent a \<in> set ?V \<and>
       batch_ids (ae_llm_response_id a) ?V \<noteq> batch_ids (ae_llm_response_id a) events} = {}"
    using satisfies_all_facts(3) [OF sat] by blast
  moreover have "{e \<in> set ?V. \<exists>l. find (\<lambda>l. event_id e \<in> l) (tool_loops events) = Some l \<and>
       \<not> l \<subseteq> event_id ` set ?V} = {}"
    using satisfies_all_facts(4) [OF sat] by blast
  ultimately show ?thesis
    using satisfies_all_facts(1,2) [OF sat] by (simp only: V Let_def)
qed

text \<open>
  C4: The manipulation indices are safe for tool calls. Cutting a view between two of its indices
  leaves a view whose calls and results still match exactly, one result per call, and whose own
  manipulation indices can be computed again without a \<open>KeyError\<close> and include both of its ends.
\<close>

theorem cut_keeps_pairing:
  assumes "manipulation_indices es = Some I" and "i \<in> I" and "j \<in> I" and "i \<le> j"
    and "length es \<in> I" and "distinct (observed_calls es)"
  shows "matching_enforce (cut i j es) all_events = {} \<and>
     uniqueness_enforce (cut i j es) all_events = {} \<and>
     (\<exists>J. manipulation_indices (cut i j es) = Some J \<and> 0 \<in> J \<and> length (cut i j es) \<in> J)"
proof -
  obtain M where M: "matching_indices es = Some M" "I \<subseteq> M"
    using manipulation_indices_subset(1) [OF assms(1)] by blast
  with assms have in_M: "i \<in> M" "j \<in> M" "length es \<in> M" by auto
  obtain N where N: "matching_indices (cut i j es) = Some N" "length (cut i j es) \<in> N"
    using matching_indices_cut [OF M(1) in_M] by blast
  have "pends {} (cut i j es) = Some {}"
    using N by (auto simp: matching_indices_eq split: option.splits)
  from manipulation_indices_ends [OF this] matching_closed [OF N]
    observed_calls_cut_distinct [OF assms(6,4)]
  show ?thesis by (simp add: uniqueness_enforce_empty_iff)
qed

definition sample_view :: "event list" where
  "sample_view = [sample_message ''m1'' SrcUser, sample_action ''a1'' ''c1'' ''r1'',
     sample_observation ''o1'' ''a1'' ''c1'', sample_action ''a2'' ''c2'' ''r2'',
     sample_error ''e2'' ''c2'', sample_message ''m2'' SrcAgent]"

lemma sample_view_indices: "manipulation_indices sample_view = Some {0, 1, 3, 5, 6}"
proof -
  have "complete_indices sample_view = {0, 1, 2, 3, 4, 5, 6}"
    by (auto simp: complete_indices_eq sample_view_def)
  moreover have "inside_batch 0 sample_view = {}" "inside_loop 0 False sample_view = {}"
    by (simp_all add: sample_view_def sample_defs)
  moreover have "matching_walk 0 {} sample_view {0, 1, 2, 3, 4, 5, 6} = Some {0, 1, 3, 5, 6}"
    by (auto simp: sample_view_def sample_defs)
  ultimately show ?thesis
    by (simp add: manipulation_indices_iff matching_indices_def)
qed

theorem cut_keeps_pairing_witness:
  "matching_enforce (cut 1 3 sample_view) sample_view = {}"
proof -
  have "distinct (observed_calls sample_view)" "length sample_view = 6"
    by (simp_all add: sample_view_def sample_defs)
  then show ?thesis
    using cut_keeps_pairing [OF sample_view_indices, of 1 3 sample_view] by simp
qed

text \<open>
  Where every batch is a run of adjacent actions, a cut between two manipulation indices
  removes or keeps each batch of the log as a whole.
\<close>

theorem cut_keeps_batches:
  assumes "manipulation_indices es = Some I" and "i \<in> I" and "j \<in> I" and "i \<le> j"
    and "batches_adjacent es" and "batch_enforce es all_events = {}"
  shows "batch_enforce (cut i j es) all_events = {}"
  by (rule batch_enforce_cut [OF assms(6,5,1-4)])

theorem cut_keeps_batches_witness:
  "batch_enforce (cut 1 3 sample_view) sample_view = {}"
proof -
  have "batches_adjacent sample_view"
    unfolding batches_adjacent_def sample_view_def
    by (auto simp: less_Suc_eq numeral_eq_Suc sample_defs)
  moreover have "batch_enforce sample_view sample_view = {}"
    by (auto simp: batch_enforce_empty_iff)
  ultimately show ?thesis
    using cut_keeps_batches [OF sample_view_indices, of 1 3 sample_view] by simp
qed

definition split_batch :: "event list" where
  "split_batch = [sample_action ''a1'' ''c1'' ''r1'', sample_error ''e1'' ''c1'',
     sample_action ''a2'' ''c2'' ''r1'', sample_observation ''o2'' ''a2'' ''c2'']"

text \<open>
  Without adjacency the batch indices do not protect a batch. The agent emits the error of a
  tool call right after its action, so a batch whose first call fails validation is
  action, error, action, observation; index 2 is a manipulation index of it, and forgetting
  everything before it leaves one action of the batch, which enforcement then drops.
\<close>

theorem split_batch_is_cut:
  "manipulation_indices split_batch = Some {0, 2, 4} \<and>
   batch_enforce split_batch split_batch = {} \<and>
   batch_enforce (cut 0 2 split_batch) split_batch = {''a2''} \<and>
   enforce_properties (cut 0 2 split_batch) split_batch = []"
proof -
  have "manipulation_indices split_batch = Some {0, 2, 4}"
  proof -
    have "complete_indices split_batch = {0, 1, 2, 3, 4}"
      by (auto simp: complete_indices_eq split_batch_def)
    moreover have "inside_batch 0 split_batch = {}" "inside_loop 0 False split_batch = {}"
      by (simp_all add: split_batch_def sample_defs)
    moreover have "matching_walk 0 {} split_batch {0, 1, 2, 3, 4} = Some {0, 2, 4}"
      by (auto simp: split_batch_def sample_defs)
    ultimately show ?thesis by (simp add: manipulation_indices_iff matching_indices_def)
  qed
  moreover have "batch_enforce split_batch split_batch = {}"
    by (auto simp: batch_enforce_empty_iff)
  moreover have a2: "batch_enforce (cut 0 2 split_batch) split_batch = {''a2''}"
    by (simp add: split_batch_def cut_def sample_defs batch_enforce_def)
  moreover have "enforce_properties (cut 0 2 split_batch) split_batch = []"
  proof -
    have u: "uniqueness_enforce (cut 0 2 split_batch) split_batch = {}"
      by (simp add: split_batch_def cut_def sample_defs uniqueness_enforce_def)
    define o2 where "o2 = sample_observation ''o2'' ''a2'' ''c2''"
    have f: "forget_ids {''a2''} (cut 0 2 split_batch) = [o2]"
      by (simp add: split_batch_def cut_def sample_defs forget_ids_def o2_def)
    have "uniqueness_enforce [o2] split_batch = {}" "batch_enforce [o2] split_batch = {}"
      "matching_enforce [o2] split_batch = {''o2''}" "forget_ids {''o2''} [o2] = []"
      by (simp_all add: o2_def sample_defs uniqueness_enforce_def batch_enforce_def
          matching_enforce_def unmatched_def forget_ids_def)
    then have "enforce_properties [o2] split_batch = enforce_properties [] split_batch"
      by (subst enforce_properties.simps) (simp add: ALL_PROPERTIES_def Let_def)
    also have "\<dots> = []"
      using enforce_properties_subseq [of "[]" split_batch] by simp
    finally show ?thesis
      using u a2 f by (subst enforce_properties.simps) (simp add: ALL_PROPERTIES_def Let_def)
  qed
  ultimately show ?thesis by blast
qed

end
