(* ===== verification/Condensers.thy ===== *)
theory Condensers
  imports Views Complex_Main
begin

text \<open>
  The condensers (\<open>sdk/context/condenser\<close>): the token search of \<open>utils.py\<close>, the decision of
  \<open>RollingCondenser.condense\<close>, the summarizing condenser and the pipeline. The LLM is a
  parameter: a token count of a message list, and a completion that depends on how many
  completions were made before, so that a failing call can be retried with another outcome; the
  call counter is the state the functions thread. The prompt template is a parameter, a float
  field is the rational it denotes and float arithmetic is exact. The lemmas show that the binary
  search finds the least prefix, what a condensation forgets, and what the view is afterwards.
\<close>

section \<open>Parameters and errors\<close>

datatype cond_error =
    NoCondensationAvailable string
  | CondAssertion string
  | CondValueError string
  | CondKeyError
  | CompletionError string

record llm =
  llm_token_count :: "message list \<Rightarrow> int"
  llm_completion :: "nat \<Rightarrow> message list \<Rightarrow> (cond_error, content list \<times> string) result"

text \<open>A summarizing condenser; \<open>sz_render\<close> is the prompt template.\<close>

record summarizer =
  sz_llm :: llm
  sz_max_size :: int
  sz_max_tokens :: "int option"
  sz_keep_first :: nat
  sz_minimum_progress :: rat
  sz_max_retries :: nat
  sz_scaling :: rat
  sz_render :: "string list \<Rightarrow> string"

text \<open>The field bounds and the model validator \<open>validate_keep_first_vs_max_size\<close>.\<close>

definition summarizer_valid :: "summarizer \<Rightarrow> bool" where
  "summarizer_valid sz \<longleftrightarrow> sz_max_size sz > 0 \<and> sz_minimum_progress sz > 0 \<and>
     sz_minimum_progress sz < 1 \<and> sz_max_retries sz > 0 \<and> sz_scaling sz > 0 \<and> sz_scaling sz < 1 \<and>
     sz_max_size sz div 2 - int (sz_keep_first sz) - 1 > 0"

section \<open>Token counts\<close>

fun event_error_to_cond :: "event_error \<Rightarrow> cond_error" where
  "event_error_to_cond (EvAssertionError s) = CondAssertion s"
| "event_error_to_cond (EvValueError s) = CondValueError s"
| "event_error_to_cond EvAttributeError = CondAssertion ''AttributeError''"

definition get_total_token_count :: "event list \<Rightarrow> llm \<Rightarrow> (cond_error, int) result" where
  "get_total_token_count events l =
     (case events_to_messages events of
        Inl e \<Rightarrow> Inl (event_error_to_cond e)
      | Inr messages \<Rightarrow> Inr (llm_token_count l messages))"

function prefix_search ::
    "event list \<Rightarrow> llm \<Rightarrow> int \<Rightarrow> nat \<Rightarrow> nat \<Rightarrow> (cond_error, nat) result" where
  "prefix_search events l token_count left right =
     (if left < right then
        let mid = (left + right) div 2
        in bind_res (get_total_token_count (take mid events) l)
             (\<lambda>prefix_tokens.
                if prefix_tokens > token_count then prefix_search events l token_count left mid
                else prefix_search events l token_count (mid + 1) right)
      else Inr left)"
  by pat_completeness auto
termination
  by (relation "measure (\<lambda>(_, _, _, left, right). right - left)") auto

declare prefix_search.simps [simp del]

definition get_shortest_prefix_above_token_count ::
    "event list \<Rightarrow> llm \<Rightarrow> int \<Rightarrow> (cond_error, nat) result" where
  "get_shortest_prefix_above_token_count events l token_count =
     (if events = [] then Inr 0
      else bind_res (get_total_token_count events l)
        (\<lambda>total_tokens.
           if total_tokens \<le> token_count then Inr (length events)
           else prefix_search events l token_count 1 (length events)))"

definition get_suffix_length_for_token_reduction ::
    "event list \<Rightarrow> llm \<Rightarrow> int \<Rightarrow> (cond_error, nat) result" where
  "get_suffix_length_for_token_reduction events l token_reduction =
     (if events = [] then Inr 0
      else if token_reduction \<le> 0 then Inr (length events)
      else bind_res (get_shortest_prefix_above_token_count events l token_reduction)
        (\<lambda>prefix_length. Inr (length events - prefix_length)))"

section \<open>Why and whether to condense\<close>

datatype reason = REQUEST | TOKENS | EVENTS

datatype requirement = HARD | SOFT

definition get_condensation_reasons ::
    "summarizer \<Rightarrow> view \<Rightarrow> llm option \<Rightarrow> (cond_error, reason set) result" where
  "get_condensation_reasons sz v agent_llm =
     bind_res
       (case (sz_max_tokens sz, agent_llm) of
          (Some mt, Some l) \<Rightarrow>
            (if mt \<noteq> 0 then
               bind_res (get_total_token_count (v_events v) l)
                 (\<lambda>total. Inr (if total > mt then {TOKENS} else {}))
             else Inr {})
        | _ \<Rightarrow> Inr {})
       (\<lambda>tokens. Inr
          ((if v_unhandled_condensation_request v then {REQUEST} else {}) \<union> tokens \<union>
           (if int (length (v_events v)) > sz_max_size sz then {EVENTS} else {})))"

definition condensation_requirement ::
    "summarizer \<Rightarrow> view \<Rightarrow> llm option \<Rightarrow> (cond_error, requirement option) result" where
  "condensation_requirement sz v agent_llm =
     bind_res (get_condensation_reasons sz v agent_llm)
       (\<lambda>reasons. Inr
          (if reasons = {} then None
           else if reasons \<subseteq> {TOKENS, EVENTS} then Some SOFT
           else if REQUEST \<in> reasons then Some HARD
           else None))"

section \<open>What to forget\<close>

definition min_list :: "int list \<Rightarrow> int" where
  "min_list xs = foldr min (tl xs) (hd xs)"

text \<open>The three candidates for the number of events kept at the end of the view.\<close>

definition size_tails :: "summarizer \<Rightarrow> view \<Rightarrow> reason set \<Rightarrow> int list" where
  "size_tails sz v reasons =
     (let n = int (length (v_events v)); kf = int (sz_keep_first sz)
      in (if REQUEST \<in> reasons then [n div 2 - kf - 1] else []) @
         (if EVENTS \<in> reasons then [sz_max_size sz div 2 - kf - 1] else []))"

definition token_tails ::
    "summarizer \<Rightarrow> view \<Rightarrow> llm option \<Rightarrow> reason set \<Rightarrow> (cond_error, int list) result" where
  "token_tails sz v agent_llm reasons =
     (if TOKENS \<notin> reasons then Inr []
      else case (sz_max_tokens sz, agent_llm) of
             (Some mt, Some l) \<Rightarrow>
               bind_res (get_total_token_count (v_events v) l)
                 (\<lambda>total.
                   bind_res (get_suffix_length_for_token_reduction
                               (drop (sz_keep_first sz) (v_events v)) l (total - mt div 2))
                     (\<lambda>k. Inr [int k]))
           | _ \<Rightarrow> Inl (CondAssertion ''max_tokens and agent_llm''))"

definition forget_range ::
    "summarizer \<Rightarrow> event list \<Rightarrow> int list \<Rightarrow> (cond_error, event list \<times> nat) result" where
  "forget_range sz events suffix_events_to_keep =
     (let events_from_tail = min_list suffix_events_to_keep;
          naive_end = int (length events) - events_from_tail
      in case manipulation_indices events of
           None \<Rightarrow> Inl CondKeyError
         | Some I \<Rightarrow>
             (case find_next I (int (sz_keep_first sz)) of
                None \<Rightarrow> Inl (CondValueError ''No manipulation index found'')
              | Some forgetting_start \<Rightarrow>
                  (case find_next I naive_end of
                     None \<Rightarrow> Inl (CondValueError ''No manipulation index found'')
                   | Some forgetting_end \<Rightarrow>
                       Inr (py_slice events (int forgetting_start) (int forgetting_end),
                            forgetting_start))))"

definition get_forgotten_events ::
    "summarizer \<Rightarrow> view \<Rightarrow> llm option \<Rightarrow> (cond_error, event list \<times> nat) result" where
  "get_forgotten_events sz v agent_llm =
     bind_res (get_condensation_reasons sz v agent_llm)
       (\<lambda>reasons.
          if reasons = {} then Inl (CondAssertion ''No condensation reasons found.'')
          else bind_res (token_tails sz v agent_llm reasons)
            (\<lambda>tokens. forget_range sz (v_events v) (size_tails sz v reasons @ tokens)))"

section \<open>Summarizing\<close>

text \<open>
  \<open>_generate_condensation\<close>: the first content of the answer is the summary when it is text.
  \<open>cid\<close> is the fresh id of the condensation event, \<open>k\<close> the number of completions made so far.
\<close>

definition answer_summary :: "content list \<Rightarrow> string option" where
  "answer_summary c = (case c of TextContent s _ # _ \<Rightarrow> Some s | _ \<Rightarrow> None)"

definition generate_condensation ::
    "summarizer \<Rightarrow> string \<Rightarrow> nat \<Rightarrow> event list \<Rightarrow> nat \<Rightarrow> int option
       \<Rightarrow> nat \<times> (cond_error, condensation) result" where
  "generate_condensation sz cid k forgotten_events summary_offset max_event_str_length =
     (if forgotten_events = [] then (k, Inl (CondAssertion ''No events to condense.''))
      else
        let event_strings = map (\<lambda>e. maybe_truncate (the (event_str e)) max_event_str_length)
              forgotten_events;
            prompt = sz_render sz event_strings
        in case llm_completion (sz_llm sz) k [new_message RUser [text_content prompt]] of
             Inl e \<Rightarrow> (k + 1, Inl e)
           | Inr (c, response_id) \<Rightarrow>
               (k + 1, Inr \<lparr>cd_id = cid, cd_source = SrcEnvironment,
                  cd_forgotten_event_ids = set (map event_id forgotten_events),
                  cd_summary = answer_summary c, cd_summary_offset = Some summary_offset,
                  cd_llm_response_id = response_id\<rparr>))"

definition get_condensation ::
    "summarizer \<Rightarrow> string \<Rightarrow> nat \<Rightarrow> view \<Rightarrow> llm option \<Rightarrow> nat \<times> (cond_error, condensation) result" where
  "get_condensation sz cid k v agent_llm =
     (case get_forgotten_events sz v agent_llm of
        Inl (CondValueError s) \<Rightarrow>
          (k, Inl (NoCondensationAvailable ''Unable to compute forgotten events''))
      | Inl e \<Rightarrow> (k, Inl e)
      | Inr (forgotten_events, summary_offset) \<Rightarrow>
          if forgotten_events = [] then
            (k, Inl (NoCondensationAvailable ''Cannot condense 0 events.''))
          else if of_nat (length forgotten_events)
                    < of_nat (length (v_events v)) * sz_minimum_progress sz then
            (k, Inl (NoCondensationAvailable ''events forgotten below minimum progress threshold.''))
          else generate_condensation sz cid k forgotten_events summary_offset None)"

text \<open>
  \<open>hard_context_reset\<close>: one completion per attempt. After a failure the event strings are cut to
  a fraction of the longest one; the longest of no strings raises \<open>ValueError\<close>.
\<close>

fun max_list :: "nat list \<Rightarrow> nat option" where
  "max_list [] = None"
| "max_list (x # xs) = Some (foldr max xs x)"

fun reset_attempts ::
    "nat \<Rightarrow> summarizer \<Rightarrow> string \<Rightarrow> nat \<Rightarrow> event list \<Rightarrow> int option
       \<Rightarrow> nat \<times> (cond_error, condensation option) result" where
  "reset_attempts 0 sz cid k events max_len = (k, Inr None)"
| "reset_attempts (Suc attempts) sz cid k events max_len =
     (case generate_condensation sz cid k events 0 max_len of
        (k', Inr c) \<Rightarrow> (k', Inr (Some c))
      | (k', Inl e) \<Rightarrow>
          (case (case max_len of
                   None \<Rightarrow> map_option int (max_list (map (\<lambda>e. length (the (event_str e))) events))
                 | Some m \<Rightarrow> Some m) of
             None \<Rightarrow> (k', Inl (CondValueError ''max() arg is an empty sequence''))
           | Some m \<Rightarrow> reset_attempts attempts sz cid k' events (Some \<lfloor>of_int m * sz_scaling sz\<rfloor>)))"

definition hard_context_reset ::
    "summarizer \<Rightarrow> string \<Rightarrow> nat \<Rightarrow> view \<Rightarrow> nat \<times> (cond_error, condensation option) result" where
  "hard_context_reset sz cid k v = reset_attempts (sz_max_retries sz) sz cid k (v_events v) None"

section \<open>Condensing\<close>

datatype condense_result = Uncondensed view | Condensed condensation

text \<open>
  \<open>RollingCondenser.condense\<close>, over the three methods a rolling condenser supplies.
\<close>

definition rolling_condense ::
    "(view \<Rightarrow> (cond_error, requirement option) result) \<Rightarrow>
     (nat \<Rightarrow> view \<Rightarrow> nat \<times> (cond_error, condensation) result) \<Rightarrow>
     (nat \<Rightarrow> view \<Rightarrow> nat \<times> (cond_error, condensation option) result) \<Rightarrow>
     nat \<Rightarrow> view \<Rightarrow> nat \<times> (cond_error, condense_result) result" where
  "rolling_condense requires get reset k v =
     (case requires v of
        Inl e \<Rightarrow> (k, Inl e)
      | Inr None \<Rightarrow> (k, Inr (Uncondensed v))
      | Inr (Some request) \<Rightarrow>
          (case get k v of
             (k', Inr c) \<Rightarrow> (k', Inr (Condensed c))
           | (k', Inl (NoCondensationAvailable s)) \<Rightarrow>
               (case request of
                  SOFT \<Rightarrow> (k', Inr (Uncondensed v))
                | HARD \<Rightarrow>
                    (case reset k' v of
                       (k'', Inr (Some c)) \<Rightarrow> (k'', Inr (Condensed c))
                     | (k'', Inr None) \<Rightarrow> (k'', Inl (NoCondensationAvailable s))
                     | (k'', Inl e) \<Rightarrow> (k'', Inl e)))
           | (k', Inl e) \<Rightarrow> (k', Inl e)))"

definition condense ::
    "summarizer \<Rightarrow> string \<Rightarrow> nat \<Rightarrow> view \<Rightarrow> llm option \<Rightarrow> nat \<times> (cond_error, condense_result) result" where
  "condense sz cid k v agent_llm =
     rolling_condense (\<lambda>v. condensation_requirement sz v agent_llm)
       (\<lambda>k v. get_condensation sz cid k v agent_llm) (\<lambda>k v. hard_context_reset sz cid k v) k v"

text \<open>The condenser classes; a pipeline stops at the first condensation.\<close>

datatype condenser = NoOpCondenser | LLMSummarizingCondenser summarizer | PipelineCondenser "condenser list"

fun run_condenser ::
    "condenser \<Rightarrow> string \<Rightarrow> nat \<Rightarrow> view \<Rightarrow> llm option \<Rightarrow> nat \<times> (cond_error, condense_result) result"
and run_pipeline ::
    "condenser list \<Rightarrow> string \<Rightarrow> nat \<Rightarrow> condense_result \<Rightarrow> llm option
       \<Rightarrow> nat \<times> (cond_error, condense_result) result" where
  "run_condenser NoOpCondenser cid k v l = (k, Inr (Uncondensed v))"
| "run_condenser (LLMSummarizingCondenser sz) cid k v l = condense sz cid k v l"
| "run_condenser (PipelineCondenser cs) cid k v l = run_pipeline cs cid k (Uncondensed v) l"
| "run_pipeline [] cid k r l = (k, Inr r)"
| "run_pipeline (c # cs) cid k r l =
     (case r of
        Condensed d \<Rightarrow> (k, Inr r)
      | Uncondensed v \<Rightarrow>
          (case run_condenser c cid k v l of
             (k', Inl e) \<Rightarrow> (k', Inl e)
           | (k', Inr r') \<Rightarrow> run_pipeline cs cid k' r' l))"

fun handles_condensation_requests :: "condenser \<Rightarrow> bool" where
  "handles_condensation_requests NoOpCondenser = False"
| "handles_condensation_requests (LLMSummarizingCondenser sz) = True"
| "handles_condensation_requests (PipelineCondenser cs) = list_ex handles_condensation_requests cs"

section \<open>The token search\<close>

text \<open>
  With the counts of all prefixes known, the search ends at a boundary: a prefix above the target
  whose predecessor is not above it.
\<close>

lemma prefix_search_boundary:
  assumes cnt: "\<And>m. m \<le> length es \<Longrightarrow> get_total_token_count (take m es) l = Inr (c m)"
  shows "1 \<le> left \<Longrightarrow> left \<le> right \<Longrightarrow> right \<le> length es \<Longrightarrow> c right > t \<Longrightarrow>
     left = 1 \<or> c (left - 1) \<le> t \<Longrightarrow>
     \<exists>k. prefix_search es l t left right = Inr k \<and> 1 \<le> k \<and> k \<le> length es \<and> c k > t \<and>
       (k = 1 \<or> c (k - 1) \<le> t)"
proof (induction "right - left" arbitrary: left right rule: less_induct)
  case less
  let ?mid = "(left + right) div 2"
  show ?case
  proof (cases "left < right")
    case True
    then have mid: "left \<le> ?mid" "?mid < right" "?mid \<le> length es" using less.prems(3) by auto
    then have eq: "prefix_search es l t left right =
        (if c ?mid > t then prefix_search es l t left ?mid else prefix_search es l t (?mid + 1) right)"
      using True cnt [OF mid(3)] by (subst prefix_search.simps) (simp add: Let_def)
    show ?thesis
    proof (cases "c ?mid > t")
      case True
      with less.hyps [of ?mid left] mid less.prems eq show ?thesis by auto
    next
      case False
      with less.hyps [of right "?mid + 1"] mid less.prems eq show ?thesis by auto
    qed
  next
    case False
    with less.prems show ?thesis by (subst prefix_search.simps) auto
  qed
qed

lemma shortest_prefix_boundary:
  assumes cnt: "\<And>m. m \<le> length es \<Longrightarrow> get_total_token_count (take m es) l = Inr (c m)"
    and "c (length es) > t" and "es \<noteq> []"
  shows "\<exists>k. get_shortest_prefix_above_token_count es l t = Inr k \<and> 1 \<le> k \<and> k \<le> length es \<and>
     c k > t \<and> (k = 1 \<or> c (k - 1) \<le> t)"
proof -
  have "get_total_token_count es l = Inr (c (length es))" using cnt [of "length es"] by simp
  moreover have "Suc 0 \<le> length es" using assms(3) by (cases es) auto
  ultimately show ?thesis
    using prefix_search_boundary [OF cnt, of 1 "length es" t] assms(2,3)
    by (simp add: get_shortest_prefix_above_token_count_def)
qed

section \<open>What a condensation forgets\<close>

lemma min_list_le: "x \<in> set xs \<Longrightarrow> min_list xs \<le> x"
proof -
  have "foldr min ys y \<le> x \<or> False" if "x \<in> set (y # ys)" for y ys
    using that by (induction ys) (auto simp: min_le_iff_disj)
  then show "x \<in> set xs \<Longrightarrow> min_list xs \<le> x" by (cases xs) (auto simp: min_list_def)
qed

lemma get_condensation_reasons_EVENTS:
  "get_condensation_reasons sz v l = Inr R \<Longrightarrow>
     EVENTS \<in> R \<longleftrightarrow> int (length (v_events v)) > sz_max_size sz"
  "get_condensation_reasons sz v l = Inr R \<Longrightarrow>
     REQUEST \<in> R \<longleftrightarrow> v_unhandled_condensation_request v"
  by (auto simp: get_condensation_reasons_def res_simps split: option.splits if_splits)

text \<open>The forgotten events are a slice between two manipulation indices past \<open>keep_first\<close>.\<close>

lemma get_forgotten_eventsD:
  assumes "get_forgotten_events sz v l = Inr (fe, i)"
  shows "\<exists>I j. manipulation_indices (v_events v) = Some I \<and> i \<in> I \<and> j \<in> I \<and>
     find_next I (int (sz_keep_first sz)) = Some i \<and>
     fe = py_slice (v_events v) (int i) (int j) \<and>
     (int (length (v_events v)) > sz_max_size sz \<longrightarrow>
        int (length (v_events v)) - (sz_max_size sz div 2 - int (sz_keep_first sz) - 1) \<le> int j)"
proof -
  obtain R tokens where R: "get_condensation_reasons sz v l = Inr R"
    and "forget_range sz (v_events v) (size_tails sz v R @ tokens) = Inr (fe, i)"
    using assms by (auto simp: get_forgotten_events_def res_simps split: if_splits)
  then obtain I j where
    I: "manipulation_indices (v_events v) = Some I"
    and s: "find_next I (int (sz_keep_first sz)) = Some i"
    and e: "find_next I (int (length (v_events v)) - min_list (size_tails sz v R @ tokens)) = Some j"
    and fe: "fe = py_slice (v_events v) (int i) (int j)"
    by (auto simp: forget_range_def Let_def split: option.splits)
  have fin: "finite I" by (rule manipulation_indices_finite [OF I])
  have "int (length (v_events v)) - (sz_max_size sz div 2 - int (sz_keep_first sz) - 1) \<le> int j"
    if "int (length (v_events v)) > sz_max_size sz"
  proof -
    have "EVENTS \<in> R" using that get_condensation_reasons_EVENTS(1) [OF R] by simp
    then have "min_list (size_tails sz v R @ tokens) \<le> sz_max_size sz div 2 - int (sz_keep_first sz) - 1"
      by (intro min_list_le) (simp add: size_tails_def Let_def)
    with find_next_SomeD(2) [OF fin e] show ?thesis by simp
  qed
  with I s fe find_next_SomeD(1) [OF fin s] find_next_SomeD(1) [OF fin e] show ?thesis by blast
qed

lemma generate_condensationD:
  "generate_condensation sz cid k fe off ml = (k', Inr c) \<Longrightarrow>
     k' = k + 1 \<and> fe \<noteq> [] \<and> cd_id c = cid \<and> cd_forgotten_event_ids c = event_id ` set fe \<and>
     cd_summary_offset c = Some off"
  by (auto simp: generate_condensation_def Let_def split: if_splits sum.splits)

lemma generate_condensation_calls: "fst (generate_condensation sz cid k fe off ml) \<in> {k, k + 1}"
  by (auto simp: generate_condensation_def Let_def split: sum.splits)

lemma get_condensationD:
  assumes "get_condensation sz cid k v l = (k', Inr c)"
  obtains I i j where "manipulation_indices (v_events v) = Some I" and "i \<in> I" and "j \<in> I"
    and "i < j" and "j \<le> length (v_events v)" and "find_next I (int (sz_keep_first sz)) = Some i"
    and "cd_forgotten_event_ids c = event_id ` set (take (j - i) (drop i (v_events v)))"
    and "cd_summary_offset c = Some i" and "k' = k + 1"
    and "of_nat (length (v_events v)) * sz_minimum_progress sz \<le> of_nat (j - i)"
    and "int (length (v_events v)) > sz_max_size sz \<Longrightarrow>
        int (length (v_events v)) - (sz_max_size sz div 2 - int (sz_keep_first sz) - 1) \<le> int j"
proof -
  obtain fe i where fe: "get_forgotten_events sz v l = Inr (fe, i)" "fe \<noteq> []"
    and prog: "\<not> of_nat (length fe) < of_nat (length (v_events v)) * sz_minimum_progress sz"
    and gen: "generate_condensation sz cid k fe i None = (k', Inr c)"
    using assms by (auto simp: get_condensation_def split: sum.splits cond_error.splits if_splits)
  from get_forgotten_eventsD [OF fe(1)] obtain I j where
    I: "manipulation_indices (v_events v) = Some I" "i \<in> I" "j \<in> I"
      "find_next I (int (sz_keep_first sz)) = Some i"
    and sl: "fe = py_slice (v_events v) (int i) (int j)"
    and size: "int (length (v_events v)) > sz_max_size sz \<longrightarrow>
        int (length (v_events v)) - (sz_max_size sz div 2 - int (sz_keep_first sz) - 1) \<le> int j"
    by blast
  have j: "j \<le> length (v_events v)" "i \<le> length (v_events v)"
    using manipulation_indices_subset(2) [OF I(1)] I(2,3) by (auto simp: complete_indices_eq)
  have "i < j"
  proof (rule ccontr)
    assume "\<not> i < j"
    with j sl have "fe = []" by (simp add: py_slice_nat)
    with fe(2) show False by simp
  qed
  with sl j have fe_eq: "fe = take (j - i) (drop i (v_events v))" by (simp add: py_slice_le)
  have "length fe = j - i" using fe_eq j \<open>i < j\<close> by simp
  with generate_condensationD [OF gen] I j fe_eq prog size \<open>i < j\<close> that [of I i j] show ?thesis
    by (simp add: linorder_not_less)
qed

text \<open>Applied to the view it was made from, the condensation cuts the slice and puts the summary in.\<close>

lemma apply_condensation_slice:
  assumes "distinct (map event_id es)" and "i \<le> j" and "j \<le> length es"
    and "cd_forgotten_event_ids c = event_id ` set (take (j - i) (drop i es))"
    and "cd_summary_offset c = Some i"
  shows "apply_condensation c es =
     take i es @ (case cd_summary c of Some s \<Rightarrow> [new_summary c s] | None \<Rightarrow> []) @ drop j es"
proof -
  have "filter (\<lambda>e. event_id e \<notin> cd_forgotten_event_ids c) es = take i es @ drop j es"
    unfolding assms(4) by (rule filter_not_slice [OF assms(1-3)])
  then show ?thesis
    using assms(2,3,5) by (auto simp: apply_condensation_cases Let_def split: option.splits)
qed

lemma pends_summary:
  "pends {} (take i es @ (case cd_summary c of Some s \<Rightarrow> [new_summary c s] | None \<Rightarrow> []) @ drop j es) =
     pends {} (cut i j es)"
  by (auto simp: cut_def new_summary_def pends_insert split: option.splits)

section \<open>The contract of a rolling condenser\<close>

text \<open>
  A rolling condenser supplies a requirement, a condensation and a hard reset. What
  \<open>condense\<close> promises of its result follows from what the two generators promise of theirs:
  a condensation \<open>c\<close> of a view \<open>v\<close> satisfies \<open>good v c\<close>, and each generator makes a bounded
  number of completions.
\<close>

locale rolling_condenser =
  fixes requires :: "view \<Rightarrow> (cond_error, requirement option) result"
    and get :: "nat \<Rightarrow> view \<Rightarrow> nat \<times> (cond_error, condensation) result"
    and reset :: "nat \<Rightarrow> view \<Rightarrow> nat \<times> (cond_error, condensation option) result"
    and good :: "view \<Rightarrow> condensation \<Rightarrow> bool"
    and retries :: nat
  assumes get_good: "get k v = (k', Inr c) \<Longrightarrow> good v c"
    and get_calls: "fst (get k v) \<le> k + 1"
    and reset_good: "reset k v = (k', Inr (Some c)) \<Longrightarrow> good v c"
    and reset_calls: "fst (reset k v) \<le> k + retries"
begin

lemma condense_good: "rolling_condense requires get reset k v = (k', Inr (Condensed c)) \<Longrightarrow> good v c"
  by (auto simp: rolling_condense_def intro: get_good reset_good
      split: sum.splits option.splits prod.splits requirement.splits cond_error.splits)

lemma condense_calls: "fst (rolling_condense requires get reset k v) \<le> k + 1 + retries"
proof -
  obtain k' r where g: "get k v = (k', r)" by (cases "get k v")
  have "k' \<le> k + 1" using get_calls [of k v] g by simp
  moreover have "fst (reset k' v) \<le> k' + retries" by (rule reset_calls)
  ultimately show ?thesis
    using g by (auto simp: rolling_condense_def
        split: sum.splits option.splits prod.splits requirement.splits cond_error.splits)
qed

lemma condense_unchanged:
  "rolling_condense requires get reset k v = (k', Inr (Uncondensed w)) \<Longrightarrow>
     w = v \<and> requires v \<noteq> Inr (Some HARD)"
  by (auto simp: rolling_condense_def
      split: sum.splits option.splits prod.splits requirement.splits cond_error.splits)

end

text \<open>A condensation of a view forgets events of that view and puts the summary inside it.\<close>

definition forgets_in_view :: "view \<Rightarrow> condensation \<Rightarrow> bool" where
  "forgets_in_view v c \<longleftrightarrow> cd_forgotten_event_ids c \<noteq> {} \<and>
     cd_forgotten_event_ids c \<subseteq> event_id ` set (v_events v) \<and>
     (\<exists>i \<le> length (v_events v). cd_summary_offset c = Some i)"

lemma get_condensation_in_view: "get_condensation sz cid k v l = (k', Inr c) \<Longrightarrow> forgets_in_view v c"
proof (erule get_condensationD)
  fix I i j
  assume "i < j" "j \<le> length (v_events v)" "cd_summary_offset c = Some i"
    and f: "cd_forgotten_event_ids c = event_id ` set (take (j - i) (drop i (v_events v)))"
  moreover from this have "take (j - i) (drop i (v_events v)) \<noteq> []" by auto
  ultimately show "forgets_in_view v c"
    by (auto simp: forgets_in_view_def dest!: in_set_takeD in_set_dropD)
qed

lemma get_condensation_calls: "fst (get_condensation sz cid k v l) \<le> k + 1"
proof -
  have "fst (generate_condensation sz cid k fe off ml) \<le> k + 1" for fe off ml
    using generate_condensation_calls [of sz cid k fe off ml] by auto
  then show ?thesis
    by (auto simp: get_condensation_def split: sum.splits cond_error.splits)
qed

lemma reset_attempts_spec:
  "fst (reset_attempts n sz cid k es ml) \<le> k + n \<and>
   (\<forall>k' c. reset_attempts n sz cid k es ml = (k', Inr (Some c)) \<longrightarrow>
      es \<noteq> [] \<and> cd_forgotten_event_ids c = event_id ` set es \<and> cd_summary_offset c = Some 0)"
proof (induction n arbitrary: k ml)
  case (Suc n)
  obtain k1 r where g: "generate_condensation sz cid k es 0 ml = (k1, r)"
    by (cases "generate_condensation sz cid k es 0 ml")
  have k1: "k1 \<le> k + 1" using generate_condensation_calls [of sz cid k es 0 ml] g by auto
  show ?case
  proof (cases r)
    case (Inl e)
    show ?thesis
    proof (cases "case ml of None \<Rightarrow> map_option int (max_list (map (\<lambda>e. length (the (event_str e))) es))
        | Some m \<Rightarrow> Some m")
      case None
      with g Inl k1 show ?thesis by simp
    next
      case (Some m)
      with g Inl k1 Suc.IH [of k1 "Some \<lfloor>of_int m * sz_scaling sz\<rfloor>"] show ?thesis by auto
    qed
  next
    case (Inr c)
    with g k1 generate_condensationD [of sz cid k es 0 ml k1 c] show ?thesis by auto
  qed
qed simp

lemma hard_context_reset_in_view:
  "hard_context_reset sz cid k v = (k', Inr (Some c)) \<Longrightarrow> forgets_in_view v c"
  using reset_attempts_spec [of "sz_max_retries sz" sz cid k "v_events v" None]
  by (auto simp: hard_context_reset_def forgets_in_view_def)

lemma hard_context_reset_calls: "fst (hard_context_reset sz cid k v) \<le> k + sz_max_retries sz"
  using reset_attempts_spec [of "sz_max_retries sz" sz cid k "v_events v" None]
  by (simp add: hard_context_reset_def)

interpretation summ: rolling_condenser
  "\<lambda>v. condensation_requirement sz v l" "\<lambda>k v. get_condensation sz cid k v l"
  "\<lambda>k v. hard_context_reset sz cid k v" forgets_in_view "sz_max_retries sz"
  for sz l cid
  by (unfold_locales; rule get_condensation_in_view hard_context_reset_in_view
      get_condensation_calls hard_context_reset_calls)

lemma requirement_HARD:
  "v_unhandled_condensation_request v \<Longrightarrow> condensation_requirement sz v l = Inr r \<Longrightarrow> r = Some HARD"
  using get_condensation_reasons_EVENTS(2) [of sz v l]
  by (auto simp: condensation_requirement_def res_simps split: if_splits)

lemma condense_spec:
  shows "condense sz cid k v l = (k', Inr (Condensed c)) \<Longrightarrow> forgets_in_view v c"
    and "fst (condense sz cid k v l) \<le> k + 1 + sz_max_retries sz"
    and "condense sz cid k v l = (k', Inr (Uncondensed w)) \<Longrightarrow>
           w = v \<and> \<not> v_unhandled_condensation_request v"
proof -
  show "condense sz cid k v l = (k', Inr (Condensed c)) \<Longrightarrow> forgets_in_view v c"
    unfolding condense_def by (rule summ.condense_good)
  show "fst (condense sz cid k v l) \<le> k + 1 + sz_max_retries sz"
    unfolding condense_def by (rule summ.condense_calls)
  assume u: "condense sz cid k v l = (k', Inr (Uncondensed w))"
  then have "w = v \<and> condensation_requirement sz v l \<noteq> Inr (Some HARD)"
    unfolding condense_def by (rule summ.condense_unchanged)
  moreover have "\<exists>r. condensation_requirement sz v l = Inr r"
    using u by (auto simp: condense_def rolling_condense_def split: sum.splits)
  ultimately show "w = v \<and> \<not> v_unhandled_condensation_request v"
    using requirement_HARD by blast
qed

section \<open>Samples\<close>

lemma find_next_member: "finite I \<Longrightarrow> k \<in> I \<Longrightarrow> find_next I (int k) = Some k"
proof -
  assume I: "finite I" "k \<in> I"
  then obtain m where m: "find_next I (int k) = Some m" using find_next_total [of k I "int k"] by auto
  with find_next_SomeD [OF I(1) m] I(2) show ?thesis by fastforce
qed

definition sample_llm :: llm where
  "sample_llm = \<lparr>llm_token_count = (\<lambda>ms. int (length ms)),
     llm_completion = (\<lambda>k ms. Inr ([text_content ''sum''], ''resp''))\<rparr>"

definition sample_summarizer :: summarizer where
  "sample_summarizer = \<lparr>sz_llm = sample_llm, sz_max_size = 6, sz_max_tokens = None,
     sz_keep_first = 1, sz_minimum_progress = 1 / 10, sz_max_retries = 5, sz_scaling = 4 / 5,
     sz_render = concat\<rparr>"

definition sample_events :: "event list" where
  "sample_events = map (\<lambda>n. sample_message (show_nat n) SrcUser) [0..<8]"

definition sample_long_view :: view where
  "sample_long_view = \<lparr>v_events = sample_events, v_unhandled_condensation_request = False\<rparr>"

lemma sample_events_facts:
  "length sample_events = 8" "distinct (map event_id sample_events)" "pends {} sample_events = Some {}"
  "manipulation_indices sample_events = Some {0..8}"
proof -
  have neutral: "action_call e = None" "observed_call e = None" "\<not> is_action e" if "e \<in> set sample_events" for e
    using that by (auto simp: sample_events_def sample_message_def)
  have pend: "pends {} xs = Some {}" if "set xs \<subseteq> set sample_events" for xs
    using that neutral by (induction xs) (auto simp: pend_neutral)
  show len: "length sample_events = 8" by (simp add: sample_events_def)
  have "map event_id sample_events = map show_nat [0..<8]"
    by (simp add: sample_events_def sample_message_def)
  then show "distinct (map event_id sample_events)"
    by (simp add: distinct_map inj_on_def)
  show "pends {} sample_events = Some {}" by (rule pend) simp
  have same: "\<not> same_batch (sample_events ! m) (sample_events ! k)" if "m < 8" for m k
  proof -
    have "\<not> is_action (sample_events ! m)" using neutral(3) that len by simp
    then show ?thesis by (cases "sample_events ! m") auto
  qed
  have "inside_batch 0 sample_events = {}"
    using same by (auto simp: inside_batch_iff len)
  moreover have "inside_loop n b xs = {}" if "set xs \<subseteq> set sample_events" for n b xs
    using that by (induction xs arbitrary: n b) (auto simp: sample_events_def sample_message_def)
  moreover have "matching_indices sample_events = Some {k. k \<le> 8}"
    using pend [of "take _ sample_events"] set_take_subset [of _ sample_events]
    by (simp add: matching_indices_eq len pend)
  ultimately show "manipulation_indices sample_events = Some {0..8}"
    by (auto simp: manipulation_indices_iff)
qed

lemma sample_get_condensation:
  "get_condensation sample_summarizer ''c'' 0 sample_long_view None =
     (1, Inr \<lparr>cd_id = ''c'', cd_source = SrcEnvironment,
        cd_forgotten_event_ids = event_id ` set (take 6 (drop 1 sample_events)),
        cd_summary = Some ''sum'', cd_summary_offset = Some 1, cd_llm_response_id = ''resp''\<rparr>)"
proof -
  have r: "get_condensation_reasons sample_summarizer sample_long_view None = Inr {EVENTS}"
    by (simp add: get_condensation_reasons_def sample_summarizer_def sample_long_view_def
        sample_events_facts)
  have "forget_range sample_summarizer sample_events [1] = Inr (take 6 (drop 1 sample_events), 1)"
    using find_next_member [of "{0..8}" 1] find_next_member [of "{0..8}" 7]
      py_slice_nat [of sample_events 1 7]
    by (simp add: forget_range_def sample_events_facts min_list_def sample_summarizer_def)
  moreover have "size_tails sample_summarizer sample_long_view {EVENTS} = [1]"
    by (simp add: size_tails_def sample_summarizer_def)
  ultimately have f: "get_forgotten_events sample_summarizer sample_long_view None =
      Inr (take 6 (drop 1 sample_events), 1)"
    using r by (simp add: get_forgotten_events_def token_tails_def sample_long_view_def)
  have "take 6 (drop 1 sample_events) \<noteq> []" by (simp add: sample_events_facts flip: length_greater_0_conv)
  then show ?thesis
    using f by (simp add: get_condensation_def generate_condensation_def Let_def sample_summarizer_def
        sample_llm_def sample_long_view_def sample_events_facts answer_summary_def)
qed

section \<open>Properties\<close>

text \<open>
  C2: A condensation forgets exactly one slice of the view. When every call of the view is
  answered and the event ids are distinct, appending the condensation to the view leaves the
  events before the slice and after it, with at most one summary event between them; the first
  \<open>keep_first\<close> events stay, at least the minimum share of the view is forgotten, the pairing of
  calls and results is intact, and a pending condensation request is cleared.
\<close>

theorem condensation_cuts_slice:
  assumes "get_condensation sz cid k v agent_llm = (k', Inr c)"
    and "distinct (map event_id (v_events v))" and "pends {} (v_events v) = Some {}"
  shows "\<exists>i j s. sz_keep_first sz \<le> i \<and> i < j \<and> j \<le> length (v_events v) \<and>
     v_events (append_event v (Condensation c)) = take i (v_events v) @ s @ drop j (v_events v) \<and>
     s = (case cd_summary c of Some t \<Rightarrow> [new_summary c t] | None \<Rightarrow> []) \<and>
     of_nat (length (v_events v)) * sz_minimum_progress sz \<le> of_nat (j - i) \<and>
     pends {} (v_events (append_event v (Condensation c))) = Some {} \<and>
     \<not> v_unhandled_condensation_request (append_event v (Condensation c))"
proof (rule get_condensationD [OF assms(1)])
  fix I i j
  assume I: "manipulation_indices (v_events v) = Some I" "i \<in> I" "j \<in> I"
    and ij: "i < j" "j \<le> length (v_events v)" "find_next I (int (sz_keep_first sz)) = Some i"
    and c: "cd_forgotten_event_ids c = event_id ` set (take (j - i) (drop i (v_events v)))"
      "cd_summary_offset c = Some i"
    and prog: "of_nat (length (v_events v)) * sz_minimum_progress sz \<le> of_nat (j - i)"
  have kf: "sz_keep_first sz \<le> i"
    using find_next_SomeD(2) [OF manipulation_indices_finite [OF I(1)] ij(3)] by simp
  have ap: "apply_condensation c (v_events v) = take i (v_events v) @
      (case cd_summary c of Some s \<Rightarrow> [new_summary c s] | None \<Rightarrow> []) @ drop j (v_events v)"
    by (rule apply_condensation_slice [OF assms(2) _ ij(2) c]) (use ij in simp)
  obtain M where "matching_indices (v_events v) = Some M" "i \<in> M" "j \<in> M"
    using manipulation_indices_subset(1) [OF I(1)] I(2,3) by blast
  then have "pends {} (cut i j (v_events v)) = Some {}" using pends_cut(1) assms(3) by metis
  then have "pends {} (apply_condensation c (v_events v)) = Some {}"
    unfolding ap pends_summary .
  with ap ij kf prog show ?thesis by (intro exI [of _ i] exI [of _ j]) simp
qed

theorem condensation_cuts_slice_witness:
  "\<exists>i j. 1 \<le> i \<and> i < j \<and> j \<le> 8 \<and> 8 / 10 \<le> (of_nat (j - i) :: rat)"
  using condensation_cuts_slice [OF sample_get_condensation]
  by (auto simp: sample_long_view_def sample_events_facts sample_summarizer_def)

text \<open>
  A condensation made because the view is too long brings it down to half the maximum size,
  when \<open>keep_first\<close> is itself a manipulation index; otherwise the result is longer by the
  distance to the next one.
\<close>

theorem condensed_view_size:
  assumes "get_condensation sz cid k v agent_llm = (k', Inr c)"
    and "distinct (map event_id (v_events v))"
    and "int (length (v_events v)) > sz_max_size sz"
    and "manipulation_indices (v_events v) = Some I"
    and "find_next I (int (sz_keep_first sz)) = Some i"
  shows "int (length (v_events (append_event v (Condensation c))))
           \<le> sz_max_size sz div 2 + int (i - sz_keep_first sz)"
proof (rule get_condensationD [OF assms(1)])
  fix J m j
  assume J: "manipulation_indices (v_events v) = Some J" "m \<in> J" "j \<in> J"
    and ij: "m < j" "j \<le> length (v_events v)" "find_next J (int (sz_keep_first sz)) = Some m"
    and c: "cd_forgotten_event_ids c = event_id ` set (take (j - m) (drop m (v_events v)))"
      "cd_summary_offset c = Some m"
    and size: "int (length (v_events v)) > sz_max_size sz \<Longrightarrow>
        int (length (v_events v)) - (sz_max_size sz div 2 - int (sz_keep_first sz) - 1) \<le> int j"
  have [simp]: "J = I" "m = i" using J assms(4,5) ij(3) by auto
  have kf: "sz_keep_first sz \<le> i"
    using find_next_SomeD(2) [OF manipulation_indices_finite [OF assms(4)] assms(5)] by simp
  have "apply_condensation c (v_events v) = take i (v_events v) @
      (case cd_summary c of Some s \<Rightarrow> [new_summary c s] | None \<Rightarrow> []) @ drop j (v_events v)"
    by (rule apply_condensation_slice [OF assms(2) _ ij(2)]) (use c ij in auto)
  then have "length (v_events (append_event v (Condensation c))) \<le> i + 1 + (length (v_events v) - j)"
    using ij by (auto split: option.splits)
  with size [OF assms(3)] kf ij show ?thesis by simp
qed

theorem condensed_view_size_witness:
  "\<exists>c. get_condensation sample_summarizer ''c'' 0 sample_long_view None = (1, Inr c) \<and>
     int (length (v_events (append_event sample_long_view (Condensation c)))) \<le> 3"
  using condensed_view_size [OF sample_get_condensation, of "{0..8}" 1]
    find_next_member [of "{0..8}" 1] sample_get_condensation
  by (auto simp: sample_long_view_def sample_events_facts sample_summarizer_def)

text \<open>
  C9: What \<open>condense\<close> returns. A returned condensation forgets only events of the view and puts
  its summary inside it; a returned view is the view that came in, and it has no unhandled
  request, so an explicit request ends in a condensation or an exception and is never dropped;
  and at most one completion plus the configured retries are made.
\<close>

theorem condense_result_safe:
  "(case condense sz cid k v agent_llm of
      (k', Inr (Condensed c)) \<Rightarrow> forgets_in_view v c \<and> k' \<le> k + 1 + sz_max_retries sz
    | (k', Inr (Uncondensed w)) \<Rightarrow>
        w = v \<and> \<not> v_unhandled_condensation_request v \<and> k' \<le> k + 1 + sz_max_retries sz
    | (k', Inl e) \<Rightarrow> k' \<le> k + 1 + sz_max_retries sz)"
  using condense_spec(1) [of sz cid k v agent_llm] condense_spec(2) [of sz cid k v agent_llm]
    condense_spec(3) [of sz cid k v agent_llm]
  by (auto split: prod.splits sum.splits condense_result.splits)

text \<open>
  The token search. When the prefixes of the events have token counts and counts grow with
  the prefix, the binary search returns the length of the shortest prefix above the target.
\<close>

theorem shortest_prefix_correct:
  assumes "\<And>m. m \<le> length events \<Longrightarrow> get_total_token_count (take m events) l = Inr (c m)"
    and "\<And>m n. m \<le> n \<Longrightarrow> n \<le> length events \<Longrightarrow> c m \<le> c n"
    and "events \<noteq> []" and "c (length events) > token_count"
  shows "\<exists>k. get_shortest_prefix_above_token_count events l token_count = Inr k \<and>
     1 \<le> k \<and> k \<le> length events \<and> c k > token_count \<and>
     {m. 1 \<le> m \<and> m < k \<and> c m > token_count} = {}"
proof -
  obtain k where k: "get_shortest_prefix_above_token_count events l token_count = Inr k"
    "1 \<le> k" "k \<le> length events" "c k > token_count" "k = 1 \<or> c (k - 1) \<le> token_count"
    using shortest_prefix_boundary [OF assms(1,4,3)] by blast
  have "c m \<le> token_count" if "1 \<le> m" "m < k" for m
  proof -
    have "m \<le> k - 1" "k - 1 \<le> length events" "c (k - 1) \<le> token_count" using k that by auto
    with assms(2) [of m "k - 1"] show ?thesis by linarith
  qed
  then have "{m. 1 \<le> m \<and> m < k \<and> c m > token_count} = {}" using leD by blast
  with k show ?thesis by blast
qed

theorem shortest_prefix_correct_witness:
  "\<exists>k. get_shortest_prefix_above_token_count sample_events sample_llm 3 = Inr k \<and> k = 4"
proof -
  have msgs: "\<exists>ms. events_to_messages xs = Inr ms \<and> length ms = length xs"
    if "set xs \<subseteq> set sample_events" for xs
    using that
    by (induction xs) (auto simp: events_to_messages_other sample_events_def sample_message_def)
  have cnt: "get_total_token_count (take m sample_events) sample_llm = Inr (int m)" if "m \<le> length sample_events" for m
    using msgs [OF set_take_subset, of m] that
    by (auto simp: get_total_token_count_def sample_llm_def)
  have "\<exists>k. get_shortest_prefix_above_token_count sample_events sample_llm 3 = Inr k \<and>
     1 \<le> k \<and> k \<le> length sample_events \<and> int k > 3 \<and> {m. 1 \<le> m \<and> m < k \<and> int m > 3} = {}"
    by (rule shortest_prefix_correct [OF cnt])
      (auto simp: sample_events_facts simp flip: length_greater_0_conv)
  then obtain k where k: "get_shortest_prefix_above_token_count sample_events sample_llm 3 = Inr k"
    "int k > 3" "{m. 1 \<le> m \<and> m < k \<and> int m > 3} = {}" by blast
  then have "\<not> 4 < k" by auto
  with k show ?thesis by auto
qed

text \<open>
  The hard reset summarizes the whole view. It makes at most the configured number of
  completions, and a condensation it returns forgets every event of a non-empty view and puts
  the summary first, so the next view is the summary alone.
\<close>

theorem hard_reset_forgets_all:
  assumes "hard_context_reset sz cid k v = (k', Inr (Some c))"
  shows "k' \<le> k + sz_max_retries sz \<and> v_events v \<noteq> [] \<and>
     cd_forgotten_event_ids c = event_id ` set (v_events v) \<and>
     v_events (append_event v (Condensation c)) =
       (case cd_summary c of Some s \<Rightarrow> [new_summary c s] | None \<Rightarrow> [])"
proof -
  have spec: "v_events v \<noteq> []" "cd_forgotten_event_ids c = event_id ` set (v_events v)"
    "cd_summary_offset c = Some 0"
    using assms reset_attempts_spec [of "sz_max_retries sz" sz cid k "v_events v" None]
    by (auto simp: hard_context_reset_def)
  have "filter (\<lambda>e. event_id e \<notin> event_id ` set (v_events v)) (v_events v) = []"
    by (auto simp: filter_empty_conv)
  then have "apply_condensation c (v_events v) =
       (case cd_summary c of Some s \<Rightarrow> [new_summary c s] | None \<Rightarrow> [])"
    using spec by (auto simp: apply_condensation_cases Let_def split: option.splits)
  with spec hard_context_reset_calls [of sz cid k v] assms show ?thesis by simp
qed

theorem hard_reset_forgets_all_witness:
  "\<exists>c. hard_context_reset sample_summarizer ''c'' 0 sample_long_view = (1, Inr (Some c)) \<and>
     cd_forgotten_event_ids c = event_id ` set sample_events"
proof -
  have "sample_events \<noteq> []" by (simp add: sample_events_facts flip: length_greater_0_conv)
  then have "\<exists>c. hard_context_reset sample_summarizer ''c'' 0 sample_long_view = (1, Inr (Some c))"
    by (simp add: hard_context_reset_def generate_condensation_def sample_summarizer_def
        sample_llm_def sample_long_view_def numeral_eq_Suc Let_def)
  then show ?thesis
    using hard_reset_forgets_all [of sample_summarizer "''c''" 0 sample_long_view 1]
    by (auto simp: sample_long_view_def)
qed

end
