(* ===== verification/Action_Batch.thy ===== *)
theory Action_Batch
  imports Conv_State Tool_Calls Condensers "HOL-Library.Multiset"
begin

text \<open>
  Executing a batch of actions: the parallel tool executor (\<open>sdk/agent/parallel_executor.py\<close>) and
  \<open>_ActionBatch\<close> (\<open>sdk/agent/agent.py\<close>), with the event callback of the conversation and the critic's
  refinement. The world is the conversation state, the numbers of ids drawn and of
  condenser completions, and the state outside the program, which tools read and change. Tools, the LLM and the critic are parameters. The tasks
  of a batch run one after another in an order the schedule picks; a tool call is one step. The
  lemmas show that a batch answers each of its actions once, in order.
\<close>

section \<open>Programs that can raise\<close>

datatype step_error =
    StateError state_error
  | CondenserError cond_error
  | MessageError event_error
  | CompletionFailed string string
  | PyError string string

type_synonym ('w, 'a) prog = "('w, step_error, 'a) program"

section \<open>The world\<close>

record ('s, 'x) world =
  w_state :: "'s conv_state"
  w_ids :: nat
  w_llm :: nat
  w_ext :: 'x

datatype tool_exn = ToolValueError string | ToolException string

text \<open>
  A tool: \<open>td_fields\<close> are the keys of its action class with whether they hold a collection,
  \<open>td_parse\<close> is \<open>action_from_arguments\<close>, \<open>td_execute\<close> the call and \<open>td_resources\<close> the result of
  \<open>declared_resources\<close>: whether it declares and the keys.
\<close>

record 'x tool_def =
  td_name :: string
  td_read_only :: bool
  td_owns_summary :: bool
  td_fields :: "(string \<times> bool) list"
  td_parse :: "dict \<Rightarrow> (string, action) result"
  td_execute :: "action option \<Rightarrow> 'x \<Rightarrow> 'x \<times> (tool_exn, observation) result"
  td_resources :: "action \<Rightarrow> bool \<times> string list"

text \<open>
  A critic: whether its mode is \<open>all_actions\<close>, its evaluation of the history with the new event
  (\<open>None\<close> when it raised), and its iterative refinement: the bound on iterations, the decision and
  the follow-up prompt.
\<close>

record critic =
  cr_all_actions :: bool
  cr_evaluate :: "event list \<Rightarrow> json option"
  cr_refinement :: "nat option"
  cr_should_refine :: "json \<Rightarrow> bool"
  cr_followup :: "json \<Rightarrow> nat \<Rightarrow> string"

record llm_response =
  lr_message :: message
  lr_id :: string
  lr_token_ids :: "(int list \<times> int list) option"

datatype completion_error =
    FunctionCallValidationError string
  | LLMMalformedConversationHistoryError string
  | LLMContextWindowExceedError string
  | OtherCompletionError string string

record ('s, 'x) agent_env =
  av_persist :: "'s persist_env"
  av_fresh :: "nat \<Rightarrow> string"
  av_tools :: "(string \<times> 'x tool_def) list"
  av_json :: json_env
  av_max_workers :: nat
  av_schedule :: "'x \<Rightarrow> nat \<Rightarrow> nat list"
  av_lock :: "string list \<Rightarrow> 'x \<Rightarrow> string option"
  av_cancelled :: "'x \<Rightarrow> bool"
  av_condenser :: "condenser option"
  av_condenser_llm :: llm
  av_complete :: "message list \<Rightarrow> 'x \<Rightarrow> 'x \<times> (completion_error, llm_response) result"
  av_analyzer :: "string \<Rightarrow> action_event analyzer"
  av_critic :: "critic option"
  av_return_token_ids :: bool

definition events_of :: "('s, 'x) world \<Rightarrow> event list" where
  "events_of w = cs_events (w_state w)"

definition fields_of :: "('s, 'x) world \<Rightarrow> conv_fields" where
  "fields_of w = cs_fields (w_state w)"

definition fresh_id :: "('s, 'x) agent_env \<Rightarrow> (('s, 'x) world, string) prog" where
  "fresh_id av w = (w\<lparr>w_ids := w_ids w + 1\<rparr>, Inr (av_fresh av (w_ids w)))"

definition set_field :: "('s, 'x) agent_env \<Rightarrow> string \<Rightarrow> (conv_fields \<Rightarrow> conv_fields) \<Rightarrow> (('s, 'x) world, unit) prog" where
  "set_field av key upd w =
     (case setattr (av_persist av) key upd (w_state w) of
        (st, None) \<Rightarrow> (w\<lparr>w_state := st\<rparr>, Inr ())
      | (st, Some e) \<Rightarrow> (w\<lparr>w_state := st\<rparr>, Inl (StateError e)))"

definition set_status :: "('s, 'x) agent_env \<Rightarrow> execution_status \<Rightarrow> (('s, 'x) world, unit) prog" where
  "set_status av s = set_field av ''execution_status'' (\<lambda>f. f\<lparr>cf_execution_status := s\<rparr>)"

text \<open>The conversation's callback: the event joins the log, and a user message is remembered.\<close>

definition append_log_event :: "event \<Rightarrow> ('s, 'x) world \<Rightarrow> ('s, 'x) world" where
  "append_log_event e w = w\<lparr>w_state := (w_state w)\<lparr>cs_events := cs_events (w_state w) @ [e]\<rparr>\<rparr>"

definition on_event :: "('s, 'x) agent_env \<Rightarrow> event \<Rightarrow> (('s, 'x) world, unit) prog" where
  "on_event av e w =
     (case e of
        MessageEvent m \<Rightarrow>
          if me_source m = SrcUser
          then set_field av ''last_user_message_id'' (\<lambda>f. f\<lparr>cf_last_user_message_id := Some (me_id m)\<rparr>)
                 (append_log_event e w)
          else (append_log_event e w, Inr ())
      | _ \<Rightarrow> (append_log_event e w, Inr ()))"

section \<open>Running one action\<close>

definition error_event :: "string \<Rightarrow> string \<Rightarrow> string \<Rightarrow> string \<Rightarrow> event" where
  "error_event eid err tool_name call_id =
     AgentErrorEvent \<lparr>er_id = eid, er_source = SrcAgent, er_tool_name = tool_name,
       er_tool_call_id = call_id, er_error = err\<rparr>"

definition executing_error :: "string \<Rightarrow> string \<Rightarrow> string" where
  "executing_error tool_name msg = ''Error executing tool '' @ quoted tool_name @ '': '' @ msg"

text \<open>\<open>_execute_action_event\<close>: a \<open>ValueError\<close> of the tool is an error event, another exception leaves.\<close>

definition execute_action_event ::
    "('s, 'x) agent_env \<Rightarrow> string \<Rightarrow> action_event \<Rightarrow> 'x \<Rightarrow> 'x \<times> (string, event list) result" where
  "execute_action_event av eid ae x =
     (case map_of (av_tools av) (ae_tool_name ae) of
        None \<Rightarrow> (x, Inl (''Tool '' @ quoted (ae_tool_name ae) @
                   '' not found. This should not happen as it was checked earlier.''))
      | Some td \<Rightarrow>
          (case td_execute td (ae_action ae) x of
             (x', Inl (ToolValueError msg)) \<Rightarrow>
               (x', Inr [error_event eid (executing_error (td_name td) msg) (td_name td) (tc_id (ae_tool_call ae))])
           | (x', Inl (ToolException msg)) \<Rightarrow> (x', Inl msg)
           | (x', Inr ob) \<Rightarrow>
               (x', Inr [ObservationEvent \<lparr>oe_id = eid, oe_source = SrcEnvironment, oe_tool_name = td_name td,
                  oe_tool_call_id = tc_id (ae_tool_call ae), oe_observation = ob, oe_action_id = ae_id ae\<rparr>])))"

definition resolve_lock_keys :: "(bool \<times> string list) option \<Rightarrow> 'x tool_def \<Rightarrow> string list" where
  "resolve_lock_keys resources td =
     (case resources of
        Some (True, keys) \<Rightarrow> keys
      | _ \<Rightarrow> [''tool:'' @ td_name td])"

definition extract_declared_resources :: "action_event \<Rightarrow> 'x tool_def \<Rightarrow> (bool \<times> string list) option" where
  "extract_declared_resources ae td = map_option (td_resources td) (ae_action ae)"

definition cancelled_error :: "string \<Rightarrow> action_event \<Rightarrow> event list" where
  "cancelled_error eid ae =
     [error_event eid ''Tool call cancelled by interrupt.'' (ae_tool_name ae) (ae_tool_call_id ae)]"

definition caught :: "string \<Rightarrow> action_event \<Rightarrow> 'x \<times> (string, event list) result \<Rightarrow> 'x \<times> event list" where
  "caught eid ae r =
     (case r of
        (x, Inr evs) \<Rightarrow> (x, evs)
      | (x, Inl msg) \<Rightarrow>
          (x, [error_event eid (executing_error (ae_tool_name ae) msg) (ae_tool_name ae) (ae_tool_call_id ae)]))"

definition run_safe :: "('s, 'x) agent_env \<Rightarrow> string \<Rightarrow> action_event \<Rightarrow> 'x \<Rightarrow> 'x \<times> event list" where
  "run_safe av eid ae x =
     (if av_cancelled av x then (x, cancelled_error eid ae)
      else caught eid ae
        (case map_of (av_tools av) (ae_tool_name ae) of
           None \<Rightarrow> execute_action_event av eid ae x
         | Some td \<Rightarrow>
             (let keys = resolve_lock_keys (extract_declared_resources ae td) td
              in if keys = [] then execute_action_event av eid ae x
                 else case av_lock av keys x of
                   Some timeout \<Rightarrow> (x, Inl timeout)
                 | None \<Rightarrow> execute_action_event av eid ae x)))"

section \<open>Running a batch\<close>

fun run_tasks ::
    "('s, 'x) agent_env \<Rightarrow> nat \<Rightarrow> action_event list \<Rightarrow> nat list \<Rightarrow> 'x \<Rightarrow> 'x \<times> (nat \<times> event list) list" where
  "run_tasks av base as [] x = (x, [])"
| "run_tasks av base as (i # is) x =
     (let (x1, evs) = run_safe av (av_fresh av (base + i)) (as ! i) x;
          (x2, rs) = run_tasks av base as is x1
      in (x2, (i, evs) # rs))"

text \<open>The results are in the order of the actions, whatever the order of execution.\<close>

definition execute_batch ::
    "('s, 'x) agent_env \<Rightarrow> action_event list \<Rightarrow> (('s, 'x) world, event list list) prog" where
  "execute_batch av as w =
     (if as = [] then (w, Inr [])
      else
        let n = length as;
            order = (if n = 1 \<or> av_max_workers av = 1 then [0..<n] else av_schedule av (w_ext w) n);
            (x, rs) = run_tasks av (w_ids w) as order (w_ext w)
        in (w\<lparr>w_ext := x, w_ids := w_ids w + n\<rparr>, Inr (map (\<lambda>i. the (map_of rs i)) [0..<n])))"

record action_batch =
  ab_actions :: "action_event list"
  ab_has_finish :: bool
  ab_blocked :: "(string \<times> string) list"
  ab_results :: "(string \<times> event list) list"

definition FINISH_TOOL :: string where
  "FINISH_TOOL = ''finish''"

definition truncate_at_finish :: "action_event list \<Rightarrow> action_event list \<times> bool" where
  "truncate_at_finish as =
     (case find_index (\<lambda>a. ae_tool_name a = FINISH_TOOL) as of
        None \<Rightarrow> (as, False)
      | Some i \<Rightarrow> (take (i + 1) as, True))"

definition pop_blocked :: "('s, 'x) agent_env \<Rightarrow> string \<Rightarrow> (('s, 'x) world, string option) prog" where
  "pop_blocked av i w =
     (case pop_blocked_action (av_persist av) i (w_state w) of
        (st, Inr r) \<Rightarrow> (w\<lparr>w_state := st\<rparr>, Inr r)
      | (st, Inl e) \<Rightarrow> (w\<lparr>w_state := st\<rparr>, Inl (StateError e)))"

fun partition_blocked ::
    "('s, 'x) agent_env \<Rightarrow> action_event list \<Rightarrow>
     (('s, 'x) world, (string \<times> string) list \<times> action_event list) prog" where
  "partition_blocked av [] = return_st ([], [])"
| "partition_blocked av (a # as) =
     bind_st (pop_blocked av (ae_id a)) (\<lambda>reason.
       bind_st (partition_blocked av as) (\<lambda>(blocked, executable).
         return_st (case reason of
             Some r \<Rightarrow> ((ae_id a, r) # blocked, executable)
           | None \<Rightarrow> (blocked, a # executable))))"

definition dict_zip :: "string list \<Rightarrow> 'a list \<Rightarrow> (string \<times> 'a) list" where
  "dict_zip ks vs = fold (\<lambda>(k, v) d. AList.update k v d) (zip ks vs) []"

definition prepare_batch ::
    "('s, 'x) agent_env \<Rightarrow> action_event list \<Rightarrow> (('s, 'x) world, action_batch) prog" where
  "prepare_batch av as0 =
     (let (as, has_finish) = truncate_at_finish as0
      in bind_st (partition_blocked av as) (\<lambda>(blocked, executable).
           bind_st (execute_batch av executable) (\<lambda>results.
             return_st \<lparr>ab_actions = as, ab_has_finish = has_finish, ab_blocked = blocked,
               ab_results = dict_zip (map ae_id executable) results\<rparr>)))"

definition reject_event :: "string \<Rightarrow> action_event \<Rightarrow> string \<Rightarrow> rejection_source \<Rightarrow> event" where
  "reject_event eid ae reason src =
     UserRejectObservation \<lparr>ur_id = eid, ur_source = SrcEnvironment, ur_tool_name = ae_tool_name ae,
       ur_tool_call_id = ae_tool_call_id ae, ur_rejection_reason = reason,
       ur_rejection_source = src, ur_action_id = ae_id ae\<rparr>"

definition emit_action :: "('s, 'x) agent_env \<Rightarrow> action_batch \<Rightarrow> action_event \<Rightarrow> (('s, 'x) world, unit) prog" where
  "emit_action av b ae =
     (case map_of (ab_blocked b) (ae_id ae) of
        Some reason \<Rightarrow>
          bind_st (fresh_id av) (\<lambda>i. on_event av (reject_event i ae reason RejectedByHook))
      | None \<Rightarrow>
          (case map_of (ab_results b) (ae_id ae) of
             None \<Rightarrow> raise_st (PyError ''KeyError'' (ae_id ae))
           | Some evs \<Rightarrow> for_each (on_event av) evs))"

definition emit_batch :: "('s, 'x) agent_env \<Rightarrow> action_batch \<Rightarrow> (('s, 'x) world, unit) prog" where
  "emit_batch av b = for_each (emit_action av b) (ab_actions b)"

section \<open>After the batch\<close>

definition REFINEMENT_KEY :: string where
  "REFINEMENT_KEY = ''iterative_refinement_iteration''"

definition refinement_iteration :: "conv_fields \<Rightarrow> nat" where
  "refinement_iteration f =
     (case map_of (cf_agent_state f) REFINEMENT_KEY of Some (JInt n) \<Rightarrow> nat n | _ \<Rightarrow> 0)"

definition check_iterative_refinement ::
    "('s, 'x) agent_env \<Rightarrow> action_event \<Rightarrow> (('s, 'x) world, string option) prog" where
  "check_iterative_refinement av ae w =
     (case av_critic av of
        None \<Rightarrow> (w, Inr None)
      | Some cr \<Rightarrow>
          (case cr_refinement cr of
             None \<Rightarrow> (w, Inr None)
           | Some max_iterations \<Rightarrow>
               (let iteration = refinement_iteration (fields_of w)
                in if iteration \<ge> max_iterations then (w, Inr None)
                   else case ae_critic_result ae of
                     None \<Rightarrow> (w, Inr None)
                   | Some res \<Rightarrow>
                       if \<not> cr_should_refine cr res then (w, Inr None)
                       else
                         bind_st (set_field av ''agent_state''
                             (\<lambda>f. f\<lparr>cf_agent_state :=
                                set_key REFINEMENT_KEY (JInt (int (iteration + 1))) (cf_agent_state f)\<rparr>))
                           (\<lambda>_. return_st (Some (cr_followup cr res (iteration + 1)))) w)))"

definition user_text_event :: "string \<Rightarrow> string \<Rightarrow> event" where
  "user_text_event eid txt =
     MessageEvent \<lparr>me_id = eid, me_source = SrcUser, me_llm_message = new_message RUser [text_content txt],
       me_llm_response_id = None, me_activated_skills = [], me_extended_content = [], me_sender = None,
       me_critic_result = None\<rparr>"

definition finalize_batch :: "('s, 'x) agent_env \<Rightarrow> action_batch \<Rightarrow> (('s, 'x) world, unit) prog" where
  "finalize_batch av b =
     (if \<not> ab_has_finish b \<or> map_of (ab_blocked b) (ae_id (last (ab_actions b))) \<noteq> None then return_st ()
      else
        bind_st (check_iterative_refinement av (last (ab_actions b))) (\<lambda>followup.
          case followup of
            Some txt \<Rightarrow>
              if txt \<noteq> [] then bind_st (fresh_id av) (\<lambda>i. on_event av (user_text_event i txt))
              else set_status av FINISHED
          | None \<Rightarrow> set_status av FINISHED))"

definition execute_actions :: "('s, 'x) agent_env \<Rightarrow> action_event list \<Rightarrow> (('s, 'x) world, unit) prog" where
  "execute_actions av as =
     bind_st (prepare_batch av as) (\<lambda>b.
       bind_st (emit_batch av b) (\<lambda>_. finalize_batch av b))"

section \<open>One answer per action\<close>

text \<open>The event carries the call it was made from.\<close>

definition consistent :: "action_event \<Rightarrow> bool" where
  "consistent a \<longleftrightarrow> tc_id (ae_tool_call a) = ae_tool_call_id a"

definition schedule_ok :: "('s, 'x) agent_env \<Rightarrow> bool" where
  "schedule_ok av \<longleftrightarrow> (\<forall>x n. mset (av_schedule av x n) = mset [0..<n])"

text \<open>An answer to an action: an observation, a rejection or an error of that very action.\<close>

definition answer_to :: "event \<Rightarrow> action_event \<Rightarrow> bool" where
  "answer_to e a \<longleftrightarrow> answers e a \<and> is_observation e \<and> observed_call e = Some (ae_tool_call_id a)"

lemma answer_error [simp]: "answer_to (error_event i m t (ae_tool_call_id a)) a"
  by (simp add: answer_to_def error_event_def)

lemma answer_reject [simp]: "answer_to (reject_event i a r s) a"
  by (simp add: answer_to_def reject_event_def)

lemma run_safe_answers:
  assumes "consistent a"
  shows "\<exists>e. snd (run_safe av i a x) = [e] \<and> answer_to e a"
proof -
  have "\<exists>e. snd (caught i a (execute_action_event av i a y)) = [e] \<and> answer_to e a" for y
    using assms
    by (auto simp: caught_def execute_action_event_def consistent_def answer_to_def error_event_def
        split: option.splits prod.splits sum.splits tool_exn.splits)
  moreover have "\<exists>e. snd (caught i a (x, Inl m)) = [e] \<and> answer_to e a" for m
    by (simp add: caught_def)
  ultimately show ?thesis
    by (simp add: run_safe_def cancelled_error_def Let_def split: option.splits)
qed

lemma run_tasks_lookup:
  assumes "distinct is" and "i \<in> set is"
  shows "\<exists>y. map_of (snd (run_tasks av base as is x)) i = Some (snd (run_safe av (av_fresh av (base + i)) (as ! i) y))"
  using assms
proof (induction "is" arbitrary: x)
  case (Cons j js)
  obtain x1 evs where r: "run_safe av (av_fresh av (base + j)) (as ! j) x = (x1, evs)" by fastforce
  obtain x2 rs where t: "run_tasks av base as js x1 = (x2, rs)" by fastforce
  show ?case
  proof (cases "i = j")
    case True
    with r t show ?thesis by (auto simp: Let_def intro: exI [of _ x])
  next
    case False
    with Cons.IH [of x1] Cons.prems t r show ?thesis by (simp add: Let_def)
  qed
qed simp

lemma batch_order:
  assumes "schedule_ok av"
  shows "distinct (if n = 1 \<or> av_max_workers av = 1 then [0..<n] else av_schedule av x n) \<and>
    set (if n = 1 \<or> av_max_workers av = 1 then [0..<n] else av_schedule av x n) = {0..<n}"
proof -
  have "mset (av_schedule av x n) = mset [0..<n]" using assms by (simp add: schedule_ok_def)
  then have "distinct (av_schedule av x n)" "set (av_schedule av x n) = {0..<n}"
    by (metis distinct_upt mset_eq_imp_distinct_iff) (metis \<open>mset (av_schedule av x n) = mset [0..<n]\<close> set_mset_mset set_upt)
  then show ?thesis by simp
qed

lemma execute_batch_answers:
  assumes ok: "schedule_ok av" and con: "\<forall>a \<in> set as. consistent a"
  shows "\<exists>w' rs. execute_batch av as w = (w', Inr rs) \<and> w_state w' = w_state w \<and>
     list_all2 (\<lambda>evs a. \<exists>e. evs = [e] \<and> answer_to e a) rs as"
proof (cases "as = []")
  case False
  define n where "n = length as"
  define order where "order = (if n = 1 \<or> av_max_workers av = 1 then [0..<n] else av_schedule av (w_ext w) n)"
  obtain x rs where t: "run_tasks av (w_ids w) as order (w_ext w) = (x, rs)" by fastforce
  have o: "distinct order" "set order = {0..<n}" using batch_order [OF ok] by (auto simp: order_def)
  have "\<exists>e. the (map_of rs i) = [e] \<and> answer_to e (as ! i)" if i: "i < n" for i
  proof -
    obtain y where "map_of rs i = Some (snd (run_safe av (av_fresh av (w_ids w + i)) (as ! i) y))"
      using run_tasks_lookup [OF o(1), of i av "w_ids w" as "w_ext w"] t o(2) i by auto
    moreover have "consistent (as ! i)" using con i by (simp add: n_def)
    ultimately show ?thesis using run_safe_answers by simp
  qed
  then have "list_all2 (\<lambda>evs a. \<exists>e. evs = [e] \<and> answer_to e a) (map (\<lambda>i. the (map_of rs i)) [0..<n]) as"
    by (simp add: list_all2_conv_all_nth n_def)
  moreover have "execute_batch av as w =
      (w\<lparr>w_ext := x, w_ids := w_ids w + n\<rparr>, Inr (map (\<lambda>i. the (map_of rs i)) [0..<n]))"
    unfolding execute_batch_def Let_def n_def [symmetric] order_def [symmetric] using False t by simp
  ultimately show ?thesis by simp
qed (simp add: execute_batch_def)

section \<open>Preparing\<close>

lemma setattr_ok_fields: "setattr env key upd st = (st', None) \<Longrightarrow> cs_fields st' = upd (cs_fields st) \<and> cs_events st' = cs_events st"
  by (auto simp: setattr_def save_base_state_def notify_def Let_def split: if_splits prod.splits option.splits)

lemma set_field_iff:
  "set_field av key upd w = (w', Inr u) \<Longrightarrow>
     fields_of w' = upd (fields_of w) \<and> events_of w' = events_of w \<and> w_ext w' = w_ext w \<and> w_ids w' = w_ids w"
  by (auto simp: set_field_def fields_of_def events_of_def dest: setattr_ok_fields split: prod.splits option.splits)

lemma pop_blocked_iff:
  "pop_blocked av i w = (w', Inr r) \<Longrightarrow>
     r = map_of (cf_blocked_actions (fields_of w)) i \<and> events_of w' = events_of w \<and>
     w_ext w' = w_ext w \<and> w_ids w' = w_ids w \<and>
     fields_of w' = (fields_of w)\<lparr>cf_blocked_actions := AList.delete i (cf_blocked_actions (fields_of w))\<rparr>"
proof (cases "map_of (cf_blocked_actions (fields_of w)) i")
  case None
  then have "AList.delete i (cf_blocked_actions (fields_of w)) = cf_blocked_actions (fields_of w)"
    by (simp add: delete_id map_of_eq_None_iff)
  moreover assume "pop_blocked av i w = (w', Inr r)"
  ultimately show ?thesis using None by (auto simp: pop_blocked_def pop_blocked_action_def fields_of_def)
next
  case (Some reason)
  moreover assume "pop_blocked av i w = (w', Inr r)"
  ultimately show ?thesis
    by (auto simp: pop_blocked_def pop_blocked_action_def fields_of_def events_of_def
        dest!: setattr_ok_fields split: prod.splits option.splits)
qed

lemma partition_blocked_iff:
  "partition_blocked av as w = (w', Inr (blocked, executable)) \<Longrightarrow> distinct (map ae_id as) \<Longrightarrow>
     executable = filter (\<lambda>a. map_of (cf_blocked_actions (fields_of w)) (ae_id a) = None) as \<and>
     (\<forall>i. map_of blocked i = (if i \<in> ae_id ` set as then map_of (cf_blocked_actions (fields_of w)) i else None)) \<and>
     events_of w' = events_of w \<and> w_ext w' = w_ext w \<and> w_ids w' = w_ids w \<and>
     cf_execution_status (fields_of w') = cf_execution_status (fields_of w)"
proof (induction as arbitrary: w w' blocked executable)
  case (Cons a as)
  obtain w1 reason bl ex where
    p: "pop_blocked av (ae_id a) w = (w1, Inr reason)" and
    r: "partition_blocked av as w1 = (w', Inr (bl, ex))" and
    res: "(blocked, executable) = (case reason of Some r \<Rightarrow> ((ae_id a, r) # bl, ex) | None \<Rightarrow> (bl, a # ex))"
    using Cons.prems(1) by (auto simp: st_simps)
  note pop = pop_blocked_iff [OF p]
  have reason: "reason = map_of (cf_blocked_actions (fields_of w)) (ae_id a)"
    and frame: "events_of w1 = events_of w" "w_ext w1 = w_ext w" "w_ids w1 = w_ids w"
      "cf_execution_status (fields_of w1) = cf_execution_status (fields_of w)"
    using pop by simp_all
  have d: "distinct (map ae_id as)" "ae_id a \<notin> ae_id ` set as" using Cons.prems(2) by auto
  note IH = Cons.IH [OF r d(1)]
  have same: "map_of (cf_blocked_actions (fields_of w1)) i = map_of (cf_blocked_actions (fields_of w)) i"
    if "i \<noteq> ae_id a" for i using pop that by (simp add: delete_conv')
  have "filter (\<lambda>b. map_of (cf_blocked_actions (fields_of w1)) (ae_id b) = None) as =
      filter (\<lambda>b. map_of (cf_blocked_actions (fields_of w)) (ae_id b) = None) as"
  proof (rule filter_cong [OF HOL.refl])
    fix c assume "c \<in> set as"
    then have "ae_id c \<noteq> ae_id a" using d(2) by (metis image_eqI)
    then show "(map_of (cf_blocked_actions (fields_of w1)) (ae_id c) = None) =
        (map_of (cf_blocked_actions (fields_of w)) (ae_id c) = None)" using same by simp
  qed
  moreover have "map_of bl i = (if i \<in> ae_id ` set as then map_of (cf_blocked_actions (fields_of w)) i else None)" for i
    using IH same [of i] d(2) by (cases "i = ae_id a") auto
  ultimately show ?case
    using IH frame res reason d(2) by (cases reason) auto
qed (simp add: st_simps)

lemma fold_update_lookup:
  "map_of (fold (\<lambda>(k, v) d. AList.update k v d) ps d) k =
     (case map_of (rev ps) k of Some v \<Rightarrow> Some v | None \<Rightarrow> map_of d k)"
proof (induction ps arbitrary: d)
  case (Cons p ps)
  obtain a v where "p = (a, v)" by fastforce
  with Cons [of "AList.update a v d"] show ?case
    by (simp add: update_conv' map_add_def split: option.splits)
qed simp

lemma dict_zip_lookup:
  assumes "length ks = length vs" and "distinct ks" and "i < length ks"
  shows "map_of (dict_zip ks vs) (ks ! i) = Some (vs ! i)"
proof -
  have "(ks ! i, vs ! i) \<in> set (rev (zip ks vs))" using assms by (force simp: set_zip)
  moreover have "distinct (map fst (rev (zip ks vs)))" using assms(1,2) by (simp add: rev_map [symmetric])
  ultimately have "map_of (rev (zip ks vs)) (ks ! i) = Some (vs ! i)" by (rule map_of_is_SomeI [rotated])
  then show ?thesis by (simp add: dict_zip_def fold_update_lookup)
qed

section \<open>Emitting\<close>

lemma on_event_observation:
  "is_observation e \<Longrightarrow> on_event av e w = (append_log_event e w, Inr ())"
  by (cases e) (simp_all add: on_event_def)

lemma append_log_event_simps [simp]:
  "events_of (append_log_event e w) = events_of w @ [e]" "fields_of (append_log_event e w) = fields_of w"
  "w_ext (append_log_event e w) = w_ext w" "w_ids (append_log_event e w) = w_ids w"
  by (simp_all add: append_log_event_def events_of_def fields_of_def)

text \<open>A blocked action is answered by its rejection.\<close>

definition rejects_blocked :: "(string \<times> string) list \<Rightarrow> event \<Rightarrow> action_event \<Rightarrow> bool" where
  "rejects_blocked blocked e a \<longleftrightarrow>
     (\<forall>r. map_of blocked (ae_id a) = Some r \<longrightarrow> (\<exists>i. e = reject_event i a r RejectedByHook))"

lemma emit_action_answer:
  assumes "map_of (ab_blocked b) (ae_id a) = None \<Longrightarrow> \<exists>e. map_of (ab_results b) (ae_id a) = Some [e] \<and> answer_to e a"
  shows "\<exists>w' e. emit_action av b a w = (w', Inr ()) \<and> answer_to e a \<and> events_of w' = events_of w @ [e] \<and>
     fields_of w' = fields_of w \<and> w_ext w' = w_ext w \<and>
     rejects_blocked (ab_blocked b) e a"
proof (cases "map_of (ab_blocked b) (ae_id a)")
  case None
  then obtain e where e: "map_of (ab_results b) (ae_id a) = Some [e]" "answer_to e a" using assms by blast
  then have "is_observation e" by (simp add: answer_to_def)
  then show ?thesis
    using None e by (simp add: rejects_blocked_def emit_action_def bind_st_def return_st_def on_event_observation)
next
  case (Some r)
  let ?e = "reject_event (av_fresh av (w_ids w)) a r RejectedByHook"
  let ?w = "append_log_event ?e (w\<lparr>w_ids := w_ids w + 1\<rparr>)"
  have "is_observation ?e" by (simp add: reject_event_def)
  then have "emit_action av b a w = (?w, Inr ())"
    using Some by (simp add: emit_action_def bind_st_def fresh_id_def on_event_observation)
  moreover have "events_of ?w = events_of w @ [?e]" "fields_of ?w = fields_of w" "w_ext ?w = w_ext w"
    by (simp_all add: events_of_def fields_of_def append_log_event_def)
  moreover have "rejects_blocked (ab_blocked b) ?e a"
    using Some by (auto simp: rejects_blocked_def)
  ultimately show ?thesis using answer_reject by blast
qed

lemma emit_batch_answers:
  assumes "\<And>a. a \<in> set as \<Longrightarrow> map_of (ab_blocked b) (ae_id a) = None \<Longrightarrow>
      \<exists>e. map_of (ab_results b) (ae_id a) = Some [e] \<and> answer_to e a"
  shows "\<exists>w' es. for_each (emit_action av b) as w = (w', Inr ()) \<and> events_of w' = events_of w @ es \<and>
     list_all2 answer_to es as \<and> fields_of w' = fields_of w \<and> w_ext w' = w_ext w \<and>
     list_all2 (rejects_blocked (ab_blocked b)) es as"
  using assms
proof (induction as arbitrary: w)
  case (Cons a as)
  obtain w1 e where e: "emit_action av b a w = (w1, Inr ())" "answer_to e a" "events_of w1 = events_of w @ [e]"
    "fields_of w1 = fields_of w" "w_ext w1 = w_ext w"
    "rejects_blocked (ab_blocked b) e a"
    using emit_action_answer [of b a av w] Cons.prems [of a] by auto
  have prem: "\<And>c. c \<in> set as \<Longrightarrow> map_of (ab_blocked b) (ae_id c) = None \<Longrightarrow>
      \<exists>e. map_of (ab_results b) (ae_id c) = Some [e] \<and> answer_to e c"
    using Cons.prems by simp
  obtain w2 es where es: "for_each (emit_action av b) as w1 = (w2, Inr ())" "events_of w2 = events_of w1 @ es"
    "list_all2 answer_to es as" "fields_of w2 = fields_of w1" "w_ext w2 = w_ext w1"
    "list_all2 (rejects_blocked (ab_blocked b)) es as"
    using Cons.IH [of w1, OF prem] by blast
  have "for_each (emit_action av b) (a # as) w = (w2, Inr ())"
    using e(1) es(1) by (simp add: bind_st_def)
  moreover have "events_of w2 = events_of w @ e # es" "fields_of w2 = fields_of w" "w_ext w2 = w_ext w"
    using e es by simp_all
  moreover have "list_all2 answer_to (e # es) (a # as)"
    "list_all2 (rejects_blocked (ab_blocked b)) (e # es) (a # as)"
    using e(2,6) es(3,6) by simp_all
  ultimately show ?case by blast
qed (simp add: return_st_def)

section \<open>A whole batch\<close>

lemma truncate_at_finish_prefix: "fst (truncate_at_finish as) = take (length (fst (truncate_at_finish as))) as"
  by (auto simp: truncate_at_finish_def min_def split: option.splits)

lemma truncate_at_finish_empty: "fst (truncate_at_finish as) = [] \<longleftrightarrow> as = []"
  by (cases as) (auto simp: truncate_at_finish_def split: option.splits)

lemma check_refinement_frame:
  "check_iterative_refinement av a w = (w', Inr r) \<Longrightarrow> events_of w' = events_of w \<and> w_ext w' = w_ext w"
  by (auto simp: check_iterative_refinement_def Let_def st_simps dest!: set_field_iff
      split: option.splits if_splits)

lemma on_event_frame:
  "on_event av e w = (w', Inr u) \<Longrightarrow> events_of w' = events_of w @ [e] \<and> w_ext w' = w_ext w \<and>
     cf_execution_status (fields_of w') = cf_execution_status (fields_of w)"
  by (auto simp: on_event_def dest!: set_field_iff split: event.splits if_splits)

lemma finalize_batch_frame:
  assumes "finalize_batch av b w = (w', Inr u)"
  shows "w_ext w' = w_ext w \<and>
    (events_of w' = events_of w \<or> (\<exists>i txt. events_of w' = events_of w @ [user_text_event i txt]))"
proof (cases "\<not> ab_has_finish b \<or> map_of (ab_blocked b) (ae_id (last (ab_actions b))) \<noteq> None")
  case True
  with assms show ?thesis by (auto simp: finalize_batch_def st_simps)
next
  case False
  then obtain w1 followup where c: "check_iterative_refinement av (last (ab_actions b)) w = (w1, Inr followup)"
    and r: "(case followup of
            Some txt \<Rightarrow>
              if txt \<noteq> [] then bind_st (fresh_id av) (\<lambda>i. on_event av (user_text_event i txt))
              else set_status av FINISHED
          | None \<Rightarrow> set_status av FINISHED) w1 = (w', Inr u)"
    using assms by (auto simp: finalize_batch_def st_simps)
  note frame = check_refinement_frame [OF c]
  have fin: "set_status av FINISHED w1 = (w', Inr u) \<Longrightarrow> w_ext w' = w_ext w \<and> events_of w' = events_of w"
    using frame by (auto simp: set_status_def dest!: set_field_iff)
  have follow: "w_ext w' = w_ext w \<and> (\<exists>i txt. events_of w' = events_of w @ [user_text_event i txt])"
    if o: "bind_st (fresh_id av) (\<lambda>i. on_event av (user_text_event i msg)) w1 = (w', Inr u)" for msg
  proof -
    obtain w2 i where f: "fresh_id av w1 = (w2, Inr i)" and "on_event av (user_text_event i msg) w2 = (w', Inr u)"
      using o by (auto simp: st_simps)
    from on_event_frame [OF this(2)] f frame show ?thesis by (auto simp: fresh_id_def events_of_def)
  qed
  show ?thesis using r fin follow by (auto split: option.splits if_splits)
qed

lemma prepare_batch_spec:
  assumes p: "prepare_batch av as w = (w', Inr b)" and ok: "schedule_ok av"
    and dis: "distinct (map ae_id as)" and con: "\<forall>a \<in> set as. consistent a"
  shows "ab_actions b = fst (truncate_at_finish as) \<and> events_of w' = events_of w \<and>
    ab_has_finish b = snd (truncate_at_finish as) \<and>
    (\<forall>i. map_of (ab_blocked b) i =
       (if i \<in> ae_id ` set (ab_actions b) then map_of (cf_blocked_actions (fields_of w)) i else None)) \<and>
    (\<forall>a \<in> set (ab_actions b). map_of (ab_blocked b) (ae_id a) = None \<longrightarrow>
       (\<exists>e. map_of (ab_results b) (ae_id a) = Some [e] \<and> answer_to e a)) \<and>
    (\<exists>w1 rs. execute_batch av (filter (\<lambda>a. map_of (cf_blocked_actions (fields_of w)) (ae_id a) = None) (ab_actions b))
        (w1\<lparr>w_ext := w_ext w, w_ids := w_ids w\<rparr>) = (w', Inr rs))"
proof -
  obtain ts fin where t: "truncate_at_finish as = (ts, fin)" by fastforce
  obtain w1 blocked ex rs where
    part: "partition_blocked av ts w = (w1, Inr (blocked, ex))" and
    run: "execute_batch av ex w1 = (w', Inr rs)" and
    b: "b = \<lparr>ab_actions = ts, ab_has_finish = fin, ab_blocked = blocked, ab_results = dict_zip (map ae_id ex) rs\<rparr>"
    using p t by (auto simp: prepare_batch_def st_simps)
  have ts: "ts = take (length ts) as" using truncate_at_finish_prefix [of as] t by simp
  have d: "distinct (map ae_id ts)" using dis by (metis ts distinct_take take_map)
  have c: "\<forall>a \<in> set ts. consistent a" using con by (metis ts in_set_takeD)
  note P = partition_blocked_iff [OF part d]
  have ex: "ex = filter (\<lambda>a. map_of (cf_blocked_actions (fields_of w)) (ae_id a) = None) ts" using P by simp
  have "\<forall>a \<in> set ex. consistent a" using c ex by simp
  from execute_batch_answers [OF ok this, of w1] run
  have rs: "w_state w' = w_state w1" "list_all2 (\<lambda>evs a. \<exists>e. evs = [e] \<and> answer_to e a) rs ex" by auto
  have dex: "distinct (map ae_id ex)" unfolding ex by (rule distinct_map_filterI [OF d])
  have res: "\<exists>e. map_of (dict_zip (map ae_id ex) rs) (ae_id a) = Some [e] \<and> answer_to e a" if "a \<in> set ex" for a
  proof -
    obtain j where j: "j < length ex" "ex ! j = a" using \<open>a \<in> set ex\<close> by (auto simp: in_set_conv_nth)
    have "length (map ae_id ex) = length rs" using rs(2) by (simp add: list_all2_lengthD)
    from dict_zip_lookup [OF this dex, of j] j have "map_of (dict_zip (map ae_id ex) rs) (ae_id a) = Some (rs ! j)"
      by simp
    with rs(2) j show ?thesis by (auto simp: list_all2_conv_all_nth)
  qed
  have "events_of w' = events_of w" using P rs(1) by (simp add: events_of_def)
  moreover have "w1\<lparr>w_ext := w_ext w, w_ids := w_ids w\<rparr> = w1" using P by simp
  then have "\<exists>w1 rs. execute_batch av ex (w1\<lparr>w_ext := w_ext w, w_ids := w_ids w\<rparr>) = (w', Inr rs)"
    using run by metis
  moreover have "a \<in> set ex" if "a \<in> set ts" "map_of blocked (ae_id a) = None" for a
    using P that by (auto simp: ex)
  ultimately show ?thesis using P res t unfolding b by (auto simp: ex)
qed

text \<open>The batch answers exactly its actions, in their order.\<close>

lemma execute_actions_spec:
  assumes x: "execute_actions av as w = (w', Inr u)" and ok: "schedule_ok av"
    and dis: "distinct (map ae_id as)" and con: "\<forall>a \<in> set as. consistent a"
  shows "\<exists>es tail. events_of w' = events_of w @ es @ tail \<and> list_all2 answer_to es (fst (truncate_at_finish as)) \<and>
    list_all2 (rejects_blocked (cf_blocked_actions (fields_of w))) es (fst (truncate_at_finish as)) \<and>
    (tail = [] \<or> (\<exists>i txt. tail = [user_text_event i txt]))"
proof -
  obtain w1 b w2 where p: "prepare_batch av as w = (w1, Inr b)" and e: "emit_batch av b w1 = (w2, Inr ())"
    and f: "finalize_batch av b w2 = (w', Inr u)"
    using x by (auto simp: execute_actions_def st_simps)
  note P = prepare_batch_spec [OF p ok dis con]
  have "\<And>a. a \<in> set (ab_actions b) \<Longrightarrow> map_of (ab_blocked b) (ae_id a) = None \<Longrightarrow>
      \<exists>e. map_of (ab_results b) (ae_id a) = Some [e] \<and> answer_to e a" using P by blast
  from emit_batch_answers [OF this, of "ab_actions b" av w1] e
  obtain es where es: "events_of w2 = events_of w1 @ es" "list_all2 answer_to es (ab_actions b)"
    "list_all2 (rejects_blocked (ab_blocked b)) es (ab_actions b)"
    by (auto simp: emit_batch_def)
  have "list_all2 (rejects_blocked (cf_blocked_actions (fields_of w))) es (ab_actions b)"
    using es(3) P by (auto simp: list_all2_conv_all_nth rejects_blocked_def)
  moreover have "\<exists>tail. events_of w' = events_of w2 @ tail \<and> (tail = [] \<or> (\<exists>i txt. tail = [user_text_event i txt]))"
    using finalize_batch_frame [OF f] by auto
  moreover have "events_of w2 = events_of w @ es" "ab_actions b = fst (truncate_at_finish as)"
    using P es(1) by simp_all
  ultimately show ?thesis using es(2) by (metis append.assoc)
qed

lemma execute_batch_ext:
  assumes "execute_batch av as w = (w', Inr rs)" and "schedule_ok av"
  shows "\<exists>order. mset order = mset [0..<length as] \<and>
    w_ext w' = fst (run_tasks av (w_ids w) as order (w_ext w))"
proof (cases "as = []")
  case True
  with assms(1) show ?thesis by (auto simp: execute_batch_def intro: exI [of _ "[]"])
next
  case False
  define order where "order = (if length as = 1 \<or> av_max_workers av = 1 then [0..<length as]
    else av_schedule av (w_ext w) (length as))"
  obtain x ts where t: "run_tasks av (w_ids w) as order (w_ext w) = (x, ts)" by fastforce
  have "w_ext w' = x"
    using assms(1) False t unfolding execute_batch_def Let_def order_def [symmetric] by auto
  moreover have "mset order = mset [0..<length as]" using assms(2) by (simp add: order_def schedule_ok_def)
  ultimately show ?thesis using t by (intro exI [of _ order]) simp
qed

text \<open>The tools that ran are those of the actions no hook blocked.\<close>

lemma execute_actions_ext:
  assumes x: "execute_actions av as w = (w', Inr u)" and ok: "schedule_ok av"
    and dis: "distinct (map ae_id as)" and con: "\<forall>a \<in> set as. consistent a"
    and run: "run = filter (\<lambda>a. map_of (cf_blocked_actions (fields_of w)) (ae_id a) = None) (fst (truncate_at_finish as))"
  shows "\<exists>order. mset order = mset [0..<length run] \<and> w_ext w' = fst (run_tasks av (w_ids w) run order (w_ext w))"
proof -
  obtain w1 b w2 where p: "prepare_batch av as w = (w1, Inr b)" and e: "emit_batch av b w1 = (w2, Inr ())"
    and f: "finalize_batch av b w2 = (w', Inr u)"
    using x by (auto simp: execute_actions_def st_simps)
  note P = prepare_batch_spec [OF p ok dis con]
  then obtain w0 rs where b: "execute_batch av run (w0\<lparr>w_ext := w_ext w, w_ids := w_ids w\<rparr>) = (w1, Inr rs)"
    unfolding run by auto
  have "\<And>a. a \<in> set (ab_actions b) \<Longrightarrow> map_of (ab_blocked b) (ae_id a) = None \<Longrightarrow>
      \<exists>e. map_of (ab_results b) (ae_id a) = Some [e] \<and> answer_to e a" using P by blast
  from emit_batch_answers [OF this, of "ab_actions b" av w1] e
  have "w_ext w2 = w_ext w1" by (auto simp: emit_batch_def)
  with execute_batch_ext [OF b ok] finalize_batch_frame [OF f] show ?thesis by simp
qed

lemma answer_to_only:
  "answer_to e b \<Longrightarrow> answers e a \<Longrightarrow> ae_id a = ae_id b \<or> ae_tool_call_id a = ae_tool_call_id b"
  by (cases e) (auto simp: answer_to_def)

lemma observations_no_pending: "\<forall>e \<in> set es. \<not> is_action e \<Longrightarrow> pending_actions es = []"
  by (induction es) (auto split: event.splits)

lemma answered_filter:
  assumes "list_all2 answer_to es bs" and "\<forall>e \<in> set tail. \<not> is_action e \<and> \<not> is_observation e"
    and "distinct (map ae_id (bs @ cs))" and "distinct (map ae_tool_call_id (bs @ cs))"
  shows "filter (\<lambda>a. list_all (\<lambda>x. \<not> answers x a) (es @ tail)) (bs @ cs) = cs"
proof -
  have tail: "\<not> answers x a" if "x \<in> set tail" for x a using assms(2) that by (cases x) auto
  have b: "\<exists>e \<in> set es. answers e a" if a: "a \<in> set bs" for a
  proof -
    obtain i where "i < length bs" "bs ! i = a" using a by (auto simp: in_set_conv_nth)
    then show ?thesis using assms(1) by (auto simp: list_all2_conv_all_nth answer_to_def intro!: bexI [of _ "es ! i"])
  qed
  have c: "\<not> answers e a" if "a \<in> set cs" and e: "e \<in> set es" for a e
  proof
    assume "answers e a"
    obtain i where "i < length es" "es ! i = e" using e by (auto simp: in_set_conv_nth)
    then have "answer_to e (bs ! i)" "bs ! i \<in> set bs" using assms(1) by (auto simp: list_all2_conv_all_nth)
    then have "ae_id a = ae_id (bs ! i) \<or> ae_tool_call_id a = ae_tool_call_id (bs ! i)"
      using answer_to_only \<open>answers e a\<close> by blast
    then show False using assms(3,4) that(1) \<open>bs ! i \<in> set bs\<close> by auto
  qed
  have "filter (\<lambda>a. list_all (\<lambda>x. \<not> answers x a) (es @ tail)) bs = []"
    using b by (auto simp: filter_empty_conv list_all_iff)
  moreover have "filter (\<lambda>a. list_all (\<lambda>x. \<not> answers x a) (es @ tail)) cs = cs"
    using c tail by (auto simp: filter_id_conv list_all_iff)
  ultimately show ?thesis by simp
qed

lemma answers_not_action: "list_all2 answer_to es bs \<Longrightarrow> e \<in> set es \<Longrightarrow> \<not> is_action e"
proof -
  assume l: "list_all2 answer_to es bs" and e: "e \<in> set es"
  obtain i where "i < length es" "es ! i = e" using e by (auto simp: in_set_conv_nth)
  then have "answer_to e (bs ! i)" using l by (auto simp: list_all2_conv_all_nth)
  then show "\<not> is_action e" by (cases e) (auto simp: answer_to_def)
qed

section \<open>A batch returns when the state can be saved\<close>

definition writes_ok :: "('s, 'x) agent_env \<Rightarrow> bool" where
  "writes_ok av \<longleftrightarrow> (\<forall>n. pe_write_ok (av_persist av) n)"

lemma setattr_returns: "\<forall>n. pe_write_ok env n \<Longrightarrow> \<exists>st'. setattr env key upd st = (st', None)"
  by (auto simp: setattr_def save_base_state_def notify_def Let_def)

lemma set_field_returns: "writes_ok av \<Longrightarrow> \<exists>w'. set_field av key upd w = (w', Inr ())"
  using setattr_returns [of "av_persist av" key upd "w_state w"]
  by (auto simp: set_field_def writes_ok_def)

lemma on_event_returns: "writes_ok av \<Longrightarrow> \<exists>w'. on_event av e w = (w', Inr ())"
  using set_field_returns [of av] by (cases e) (auto simp: on_event_def)

lemma pop_blocked_returns: "writes_ok av \<Longrightarrow> \<exists>w' r. pop_blocked av i w = (w', Inr r)"
  using setattr_returns [of "av_persist av" "''blocked_actions''" "\<lambda>f. f\<lparr>cf_blocked_actions := AList.delete i (cf_blocked_actions f)\<rparr>" "w_state w"]
  by (auto simp: pop_blocked_def pop_blocked_action_def writes_ok_def split: option.splits)

lemma partition_blocked_returns: "writes_ok av \<Longrightarrow> \<exists>w' r. partition_blocked av as w = (w', Inr r)"
proof (induction as arbitrary: w)
  case (Cons a as)
  obtain w1 r where p: "pop_blocked av (ae_id a) w = (w1, Inr r)" using pop_blocked_returns [OF Cons.prems] by blast
  obtain w2 bl ex where q: "partition_blocked av as w1 = (w2, Inr (bl, ex))" using Cons by (metis surj_pair)
  show ?case using p q by (simp add: bind_st_def return_st_def)
qed (simp add: return_st_def)

lemma finalize_batch_returns: "writes_ok av \<Longrightarrow> \<exists>w'. finalize_batch av b w = (w', Inr ())"
proof -
  assume ok: "writes_ok av"
  have "\<exists>w' r. check_iterative_refinement av a v = (w', Inr r)" for a and v :: "('a, 'b) world"
  proof -
    obtain v' where "set_field av ''agent_state''
        (\<lambda>f. f\<lparr>cf_agent_state := set_key REFINEMENT_KEY (JInt (int (refinement_iteration (fields_of v) + 1))) (cf_agent_state f)\<rparr>) v
        = (v', Inr ())" using set_field_returns [OF ok] by blast
    then show ?thesis
      by (simp add: check_iterative_refinement_def Let_def bind_st_def return_st_def split: option.splits)
  qed
  then obtain w1 r where c: "check_iterative_refinement av (last (ab_actions b)) w = (w1, Inr r)" by blast
  obtain w2 where s: "set_status av FINISHED w1 = (w2, Inr ())"
    using set_field_returns [OF ok] unfolding set_status_def by blast
  have f: "\<exists>w'. bind_st (fresh_id av) (\<lambda>i. on_event av (user_text_event i m)) w1 = (w', Inr ())" for m
    using on_event_returns [OF ok] by (simp add: bind_st_def fresh_id_def)
  show ?thesis
    using c s f by (simp add: finalize_batch_def bind_st_def [of "check_iterative_refinement av (last (ab_actions b))"]
        return_st_def split: option.splits)
qed

lemma execute_actions_returns:
  assumes wr: "writes_ok av" and ok: "schedule_ok av"
    and dis: "distinct (map ae_id as)" and con: "\<forall>a \<in> set as. consistent a"
  shows "\<exists>w'. execute_actions av as w = (w', Inr ())"
proof -
  obtain ts fin where t: "truncate_at_finish as = (ts, fin)" by fastforce
  have ts: "ts = take (length ts) as" using truncate_at_finish_prefix [of as] t by simp
  have d: "distinct (map ae_id ts)" using dis by (metis ts distinct_take take_map)
  have c: "\<forall>a \<in> set ts. consistent a" using con by (metis ts in_set_takeD)
  obtain w1 bl ex where part: "partition_blocked av ts w = (w1, Inr (bl, ex))"
    using partition_blocked_returns [OF wr] by (metis surj_pair)
  have "\<forall>a \<in> set ex. consistent a" using partition_blocked_iff [OF part d] c by simp
  then obtain w2 rs where run: "execute_batch av ex w1 = (w2, Inr rs)"
    using execute_batch_answers [OF ok] by blast
  have "\<exists>b. prepare_batch av as w = (w2, Inr b)"
    using t part run by (simp add: prepare_batch_def bind_st_def return_st_def)
  then obtain b where p: "prepare_batch av as w = (w2, Inr b)" by blast
  note P = prepare_batch_spec [OF p ok dis con]
  have "\<And>a. a \<in> set (ab_actions b) \<Longrightarrow> map_of (ab_blocked b) (ae_id a) = None \<Longrightarrow>
      \<exists>e. map_of (ab_results b) (ae_id a) = Some [e] \<and> answer_to e a" using P by blast
  from emit_batch_answers [OF this, of "ab_actions b" av w2]
  obtain w3 where e: "emit_batch av b w2 = (w3, Inr ())" by (auto simp: emit_batch_def)
  obtain w4 where "finalize_batch av b w3 = (w4, Inr ())" using finalize_batch_returns [OF wr] by blast
  then show ?thesis using p e by (simp add: execute_actions_def bind_st_def)
qed

lemma execute_pending_rest:
  assumes "writes_ok av" and "schedule_ok av"
    and "as = pending_actions (events_of w)"
    and "distinct (map ae_id as)" and "distinct (map ae_tool_call_id as)" and "\<forall>a \<in> set as. consistent a"
  shows "\<exists>w'. execute_actions av as w = (w', Inr ()) \<and>
    get_unmatched_actions (events_of w') = drop (length (fst (truncate_at_finish as))) as"
proof -
  obtain w' where x: "execute_actions av as w = (w', Inr ())"
    using execute_actions_returns [OF assms(1,2,4,6)] by blast
  obtain es tail where e: "events_of w' = events_of w @ es @ tail" "list_all2 answer_to es (fst (truncate_at_finish as))"
    "tail = [] \<or> (\<exists>i txt. tail = [user_text_event i txt])"
    using execute_actions_spec [OF x assms(2,4,6)] by blast
  define rest where "rest = drop (length (fst (truncate_at_finish as))) as"
  have as: "as = fst (truncate_at_finish as) @ rest"
    using truncate_at_finish_prefix [of as] unfolding rest_def by (metis append_take_drop_id)
  have t: "\<forall>x \<in> set tail. \<not> is_action x \<and> \<not> is_observation x" using e(3) by (auto simp: user_text_event_def)
  have "\<forall>x \<in> set (es @ tail). \<not> is_action x" using t answers_not_action [OF e(2)] by auto
  then have "pending_actions (es @ tail) = []" by (rule observations_no_pending)
  moreover have "filter (\<lambda>a. list_all (\<lambda>x. \<not> answers x a) (es @ tail)) (fst (truncate_at_finish as) @ rest) = rest"
    by (rule answered_filter [OF e(2) t]) (use assms(4,5) as in metis)+
  moreover have "filter (\<lambda>a. list_all (\<lambda>x. \<not> answers x a) (es @ tail)) as =
      filter (\<lambda>a. list_all (\<lambda>x. \<not> answers x a) (es @ tail)) (fst (truncate_at_finish as) @ rest)"
    by (rule arg_cong [OF as])
  moreover have "get_unmatched_actions (events_of w') =
      filter (\<lambda>a. list_all (\<lambda>x. \<not> answers x a) (es @ tail)) as @ pending_actions (es @ tail)"
    unfolding get_unmatched_actions_eq e(1) pending_actions_append [of _ "es @ tail"] assms(3) ..
  ultimately show ?thesis using x by (simp add: rest_def)
qed

section \<open>Properties\<close>

text \<open>
  C15: When the state can be saved, executing a batch returns and answers each of its actions up to
  the first finish call exactly once, in the order of the actions whatever the order of execution: with an observation, an error, or, when
  a hook blocked the action, its rejection with the hook's reason. The tools that ran are those of
  the actions that were not blocked, and at most one follow-up message of the critic comes after
  the answers.
\<close>

theorem batch_answers_each_action:
  assumes "writes_ok av" and "schedule_ok av"
    and "distinct (map ae_id as)" and "\<forall>a \<in> set as. consistent a"
    and "batch = fst (truncate_at_finish as)"
    and "run = filter (\<lambda>a. map_of (cf_blocked_actions (fields_of w)) (ae_id a) = None) batch"
  shows "\<exists>w' es tail order. execute_actions av as w = (w', Inr ()) \<and>
    events_of w' = events_of w @ es @ tail \<and> list_all2 answer_to es batch \<and>
    list_all2 (rejects_blocked (cf_blocked_actions (fields_of w))) es batch \<and>
    (tail = [] \<or> (\<exists>i txt. tail = [user_text_event i txt])) \<and>
    mset order = mset [0..<length run] \<and> w_ext w' = fst (run_tasks av (w_ids w) run order (w_ext w))"
proof -
  obtain w' where x: "execute_actions av as w = (w', Inr ())" using execute_actions_returns [OF assms(1-4)] by blast
  show ?thesis
    using x execute_actions_spec [OF x assms(2-4)] execute_actions_ext [OF x assms(2-4), of run] assms(5,6) by blast
qed

text \<open>
  The calls after a finish call are dropped from the batch but not answered, although the code
  says it discards them: when the state can be saved, executing the pending actions returns and leaves
  exactly those after the first finish call pending, so that the next step executes them.
\<close>

theorem discarded_calls_stay_pending:
  assumes "writes_ok av" and "schedule_ok av"
    and "as = pending_actions (events_of w)"
    and "distinct (map ae_id as)" and "distinct (map ae_tool_call_id as)" and "\<forall>a \<in> set as. consistent a"
  shows "\<exists>w'. execute_actions av as w = (w', Inr ()) \<and>
    get_unmatched_actions (events_of w') = drop (length (fst (truncate_at_finish as))) as"
  by (rule execute_pending_rest [OF assms])



section \<open>Witnesses\<close>

definition demo_persist :: "unit persist_env" where
  "demo_persist = \<lparr>pe_dump = (\<lambda>_. ()), pe_parse = (\<lambda>_. None), pe_empty = (\<lambda>_. False), pe_write_ok = (\<lambda>_. True)\<rparr>"

definition demo_tool :: "string \<Rightarrow> nat tool_def" where
  "demo_tool name = \<lparr>td_name = name, td_read_only = False, td_owns_summary = False, td_fields = [],
     td_parse = (\<lambda>d. Inr (ToolAction name d)),
     td_execute = (\<lambda>a x. (x + 1, Inr (observation_from_text ''out'' name False []))),
     td_resources = (\<lambda>_. (False, []))\<rparr>"

definition demo_env :: "(unit, nat) agent_env" where
  "demo_env = \<lparr>av_persist = demo_persist, av_fresh = (\<lambda>n. ''id'' @ show_nat n),
     av_tools = [(''finish'', demo_tool ''finish''), (''echo'', demo_tool ''echo'')], av_json = plain_json,
     av_max_workers = 4, av_schedule = (\<lambda>x n. rev [0..<n]), av_lock = (\<lambda>ks x. None),
     av_cancelled = (\<lambda>x. False), av_condenser = None,
     av_condenser_llm = \<lparr>llm_token_count = (\<lambda>_. 0), llm_completion = (\<lambda>_ _. Inl (CompletionError ''none''))\<rparr>,
     av_complete = (\<lambda>ms x. (x, Inr \<lparr>lr_message = new_message RAssistant [text_content ''hello''],
        lr_id = ''r'', lr_token_ids = None\<rparr>)),
     av_analyzer = (\<lambda>s a. Inr LOW), av_critic = None, av_return_token_ids = False\<rparr>"

definition demo_action :: "string \<Rightarrow> string \<Rightarrow> action_event" where
  "demo_action eid name = \<lparr>ae_id = eid, ae_source = SrcAgent, ae_thought = [], ae_reasoning_content = None,
     ae_thinking_blocks = [], ae_responses_reasoning_item = None, ae_action = Some (ToolAction name []),
     ae_tool_name = name, ae_tool_call_id = ''call-'' @ eid,
     ae_tool_call = \<lparr>tc_id = ''call-'' @ eid, tc_responses_item_id = None, tc_name = name, tc_arguments = ''{}'',
        tc_origin = Completion\<rparr>,
     ae_llm_response_id = ''r'', ae_security_risk = UNKNOWN, ae_critic_result = None, ae_summary = None\<rparr>"

definition demo_world :: "event list \<Rightarrow> (unit, nat) world" where
  "demo_world es = \<lparr>w_state = state_of (fresh_fields ''c'' ''a'' ''w'' None 10 True) es None False,
     w_ids = 0, w_llm = 0, w_ext = 0\<rparr>"

lemma demo_ok: "writes_ok demo_env" "schedule_ok demo_env"
  by (simp_all add: writes_ok_def schedule_ok_def demo_env_def demo_persist_def)

lemma demo_actions_ok:
  "\<forall>a \<in> set [demo_action ''1'' ''finish'', demo_action ''2'' ''echo'']. consistent a"
  by (simp add: consistent_def demo_action_def)

lemma batch_answers_each_action_witness:
  "\<exists>w' es. execute_actions demo_env [demo_action ''1'' ''echo'', demo_action ''2'' ''echo''] (demo_world [])
       = (w', Inr ()) \<and>
     list_all2 answer_to es [demo_action ''1'' ''echo'', demo_action ''2'' ''echo'']"
proof -
  let ?as = "[demo_action ''1'' ''echo'', demo_action ''2'' ''echo'']"
  have d: "distinct (map ae_id ?as)" and c: "\<forall>a \<in> set ?as. consistent a"
    by (simp_all add: demo_action_def consistent_def)
  have b: "?as = fst (truncate_at_finish ?as)"
    by (simp add: truncate_at_finish_def demo_action_def FINISH_TOOL_def)
  from batch_answers_each_action [OF demo_ok d c b HOL.refl, of "demo_world []"] show ?thesis by blast
qed

lemma discarded_calls_stay_pending_witness:
  "\<exists>w'. execute_actions demo_env [demo_action ''1'' ''finish'', demo_action ''2'' ''echo'']
       (demo_world (map ActionEvent [demo_action ''1'' ''finish'', demo_action ''2'' ''echo''])) = (w', Inr ()) \<and>
     get_unmatched_actions (events_of w') = [demo_action ''2'' ''echo'']"
proof -
  let ?as = "[demo_action ''1'' ''finish'', demo_action ''2'' ''echo'']"
  have p: "?as = pending_actions (events_of (demo_world (map ActionEvent ?as)))"
    by (simp add: demo_world_def events_of_def state_of_def demo_action_def)
  have d: "distinct (map ae_id ?as)" "distinct (map ae_tool_call_id ?as)" by (simp_all add: demo_action_def)
  have "fst (truncate_at_finish ?as) = [demo_action ''1'' ''finish'']"
    by (simp add: truncate_at_finish_def demo_action_def FINISH_TOOL_def)
  with discarded_calls_stay_pending [OF demo_ok p d demo_actions_ok] show ?thesis by simp
qed


end
