(* ===== verification/Agent_Step.thy ===== *)
theory Agent_Step
  imports Action_Batch
begin

text \<open>
  One step of the agent (\<open>sdk/agent/agent.py\<close>, \<open>sdk/agent/response_dispatch.py\<close> and
  \<open>prepare_llm_messages\<close> of \<open>sdk/agent/utils.py\<close>): the classification of a response, the conversion of its tool
  calls into action events, the confirmation gate, the message responses with the corrective nudge,
  and the whole of \<open>step\<close> with its recovery from completion errors; also \<open>init_state\<close>. The lemmas
  show that a response leaves either answered calls or a waiting confirmation.
\<close>

section \<open>Classification\<close>

datatype response_type = TOOL_CALLS | CONTENT | REASONING_ONLY | EMPTY

fun visible_text :: "content \<Rightarrow> bool" where
  "visible_text (TextContent s _) = (py_strip s \<noteq> [])"
| "visible_text (ImageContent _ _) = False"

definition calls_of :: "message \<Rightarrow> message_tool_call list" where
  "calls_of m = (case m_tool_calls m of None \<Rightarrow> [] | Some tcs \<Rightarrow> tcs)"

definition classify_response :: "message \<Rightarrow> response_type" where
  "classify_response m =
     (if calls_of m \<noteq> [] then TOOL_CALLS
      else if list_ex visible_text (m_content m) then CONTENT
      else if m_responses_reasoning_item m \<noteq> None \<or> m_reasoning_content m \<noteq> None \<or> m_thinking_blocks m \<noteq> []
      then REASONING_ONLY
      else EMPTY)"

section \<open>From a tool call to an action event\<close>

text \<open>\<open>re.search(r"for tool '([^']+)'", s)\<close>: the group of the leftmost match.\<close>

fun search_tool :: "string \<Rightarrow> string option" where
  "search_tool [] = None"
| "search_tool (c # s) =
     (let prefix = ''for tool '' @ [CHR 0x27];
          rest = drop (length prefix) (c # s);
          name = takeWhile (\<lambda>x. x \<noteq> CHR 0x27) rest
      in if starts_with prefix (c # s) \<and> name \<noteq> [] \<and> length name < length rest then Some name
         else search_tool s)"

fun contains :: "string \<Rightarrow> string \<Rightarrow> bool" where
  "contains p [] = (p = [])"
| "contains p (c # s) = (starts_with p (c # s) \<or> contains p s)"

text \<open>The name and the text of the error event of a call that does not validate.\<close>

definition validation_error ::
    "json_env \<Rightarrow> string \<Rightarrow> string \<Rightarrow> dict option \<Rightarrow> string \<times> string" where
  "validation_error je requested err arguments =
     (let display = (if contains ''Cannot infer'' err
                     then (case search_tool err of Some n \<Rightarrow> n | None \<Rightarrow> requested) else requested);
          params = (case arguments of
                      Some args \<Rightarrow> ''Parameters provided: '' @ je_repr je (map fst args)
                    | None \<Rightarrow> ''Arguments: unparseable JSON'')
      in (display, ''Error validating tool '' @ quoted display @ '': '' @ err @ ''. '' @ params))"

record 'x validated =
  vc_tool :: "'x tool_def"
  vc_call :: message_tool_call
  vc_risk :: security_risk
  vc_summary :: string
  vc_action :: action

definition validate_tool_call ::
    "('s, 'x) agent_env \<Rightarrow> bool \<Rightarrow> message_tool_call \<Rightarrow> (string \<times> string, 'x validated) result" where
  "validate_tool_call av has_analyzer tc =
     (let je = av_json av; err = validation_error je (tc_name tc)
      in case parse_tool_call_arguments je (tc_arguments tc) of
           Inl e \<Rightarrow> Inl (err (je_str je e) None)
         | Inr args \<Rightarrow>
             (case normalize_tool_call je (tc_name tc) args (map fst (av_tools av)) of
                Inl e \<Rightarrow> Inl (err (je_str je e) (Some args))
              | Inr (name, args1) \<Rightarrow>
                  (case map_of (av_tools av) name of
                     None \<Rightarrow> Inl (name, ''Tool '' @ quoted name @ '' not found. Available: '' @
                                je_repr je (map fst (av_tools av)))
                   | Some td \<Rightarrow>
                       (let args2 = fix_malformed_tool_arguments je (td_fields td) args1;
                            call = tc\<lparr>tc_name := name, tc_arguments := je_dumps je args2\<rparr>
                        in case extract_security_risk args2 (td_read_only td) has_analyzer of
                             (args3, Inl e) \<Rightarrow> Inl (err (je_str je e) (Some args3))
                           | (args3, Inr risk) \<Rightarrow>
                               (let (args4, summary) = extract_summary je (td_name td) args3 (td_owns_summary td)
                                in case td_parse td args4 of
                                     Inl msg \<Rightarrow> Inl (err msg (Some args4))
                                   | Inr act \<Rightarrow>
                                       Inr \<lparr>vc_tool = td, vc_call = call, vc_risk = risk,
                                            vc_summary = summary, vc_action = act\<rparr>)))))"

text \<open>What the first call of a response carries beside the call; the others carry nothing.\<close>

record call_context =
  cx_thought :: "content list"
  cx_reasoning_content :: "string option"
  cx_thinking_blocks :: "thinking_block list"
  cx_responses_reasoning_item :: "reasoning_item option"

definition empty_context :: call_context where
  "empty_context = \<lparr>cx_thought = [], cx_reasoning_content = None, cx_thinking_blocks = [],
     cx_responses_reasoning_item = None\<rparr>"

definition failed_action :: "string \<Rightarrow> string \<Rightarrow> call_context \<Rightarrow> message_tool_call \<Rightarrow> action_event" where
  "failed_action eid rid cx tc =
     \<lparr>ae_id = eid, ae_source = SrcAgent, ae_thought = cx_thought cx,
      ae_reasoning_content = cx_reasoning_content cx, ae_thinking_blocks = cx_thinking_blocks cx,
      ae_responses_reasoning_item = cx_responses_reasoning_item cx, ae_action = None,
      ae_tool_name = tc_name tc, ae_tool_call_id = tc_id tc, ae_tool_call = tc,
      ae_llm_response_id = rid, ae_security_risk = UNKNOWN, ae_critic_result = None, ae_summary = None\<rparr>"

definition valid_action :: "string \<Rightarrow> string \<Rightarrow> call_context \<Rightarrow> 'x validated \<Rightarrow> action_event" where
  "valid_action eid rid cx v =
     \<lparr>ae_id = eid, ae_source = SrcAgent, ae_thought = cx_thought cx,
      ae_reasoning_content = cx_reasoning_content cx, ae_thinking_blocks = cx_thinking_blocks cx,
      ae_responses_reasoning_item = cx_responses_reasoning_item cx, ae_action = Some (vc_action v),
      ae_tool_name = td_name (vc_tool v), ae_tool_call_id = tc_id (vc_call v), ae_tool_call = vc_call v,
      ae_llm_response_id = rid, ae_security_risk = vc_risk v, ae_critic_result = None,
      ae_summary = Some (vc_summary v)\<rparr>"

text \<open>Create an event with a new id and hand it to the callback.\<close>

definition emit :: "('s, 'x) agent_env \<Rightarrow> (string \<Rightarrow> event) \<Rightarrow> (('s, 'x) world, unit) prog" where
  "emit av mk = bind_st (fresh_id av) (\<lambda>i. on_event av (mk i))"

fun is_finish_action :: "action \<Rightarrow> bool" where
  "is_finish_action (FinishAction _) = True"
| "is_finish_action _ = False"

definition should_evaluate_with_critic :: "('s, 'x) agent_env \<Rightarrow> action option \<Rightarrow> bool" where
  "should_evaluate_with_critic av act =
     (case av_critic av of
        None \<Rightarrow> False
      | Some cr \<Rightarrow> cr_all_actions cr \<or> (case act of Some a \<Rightarrow> is_finish_action a | None \<Rightarrow> False))"

definition evaluate_with_critic :: "('s, 'x) agent_env \<Rightarrow> event \<Rightarrow> ('s, 'x) world \<Rightarrow> json option" where
  "evaluate_with_critic av e w =
     (case av_critic av of
        None \<Rightarrow> None
      | Some cr \<Rightarrow> cr_evaluate cr (filter is_llm_convertible (events_of w @ [e])))"

definition judged_action :: "('s, 'x) agent_env \<Rightarrow> action_event \<Rightarrow> ('s, 'x) world \<Rightarrow> action_event" where
  "judged_action av ae w =
     (if should_evaluate_with_critic av (ae_action ae) then
        (case evaluate_with_critic av (ActionEvent ae) w of
           None \<Rightarrow> ae
         | Some r \<Rightarrow> ae\<lparr>ae_critic_result := Some r\<rparr>)
      else ae)"

definition emit_tool_error ::
    "('s, 'x) agent_env \<Rightarrow> string \<Rightarrow> string \<Rightarrow> string \<Rightarrow> call_context \<Rightarrow> message_tool_call \<Rightarrow> (('s, 'x) world, unit) prog" where
  "emit_tool_error av err tool_name rid cx tc =
     bind_st (emit av (\<lambda>i. ActionEvent (failed_action i rid cx tc)))
       (\<lambda>_. emit av (\<lambda>i. error_event i err tool_name (tc_id tc)))"

definition get_action_event ::
    "('s, 'x) agent_env \<Rightarrow> string \<Rightarrow> call_context \<Rightarrow> message_tool_call
       \<Rightarrow> (('s, 'x) world, action_event option) prog" where
  "get_action_event av rid cx tc w =
     (case validate_tool_call av (cf_security_analyzer (fields_of w) \<noteq> None) tc of
        Inl (tool_name, err) \<Rightarrow>
          bind_st (emit_tool_error av err tool_name rid cx tc) (\<lambda>_. return_st None) w
      | Inr v \<Rightarrow>
          bind_st (fresh_id av) (\<lambda>i w.
            (let ae = judged_action av (valid_action i rid cx v) w
             in bind_st (on_event av (ActionEvent ae)) (\<lambda>_. return_st (Some ae)) w)) w)"

fun get_action_events ::
    "('s, 'x) agent_env \<Rightarrow> string \<Rightarrow> call_context \<Rightarrow> message_tool_call list
       \<Rightarrow> (('s, 'x) world, action_event list) prog" where
  "get_action_events av rid cx [] = return_st []"
| "get_action_events av rid cx (tc # tcs) =
     bind_st (get_action_event av rid cx tc) (\<lambda>r.
       bind_st (get_action_events av rid empty_context tcs) (\<lambda>rs.
         return_st (case r of None \<Rightarrow> rs | Some ae \<Rightarrow> ae # rs)))"

section \<open>The confirmation gate\<close>

fun never_confirmed :: "action option \<Rightarrow> bool" where
  "never_confirmed (Some (FinishAction _)) = True"
| "never_confirmed (Some (ThinkAction _)) = True"
| "never_confirmed _ = False"

fun any_confirm :: "confirmation_policy \<Rightarrow> security_risk list \<Rightarrow> (risk_error, bool) result" where
  "any_confirm p [] = Inr False"
| "any_confirm p (r # rs) =
     (case should_confirm p r of
        Inl e \<Rightarrow> Inl e
      | Inr True \<Rightarrow> Inr True
      | Inr False \<Rightarrow> any_confirm p rs)"

definition action_risks :: "('s, 'x) agent_env \<Rightarrow> conv_fields \<Rightarrow> action_event list \<Rightarrow> security_risk list" where
  "action_risks av f as =
     (case cf_security_analyzer f of
        Some name \<Rightarrow> map snd (analyze_pending_actions (av_analyzer av name) as)
      | None \<Rightarrow> replicate (length as) UNKNOWN)"

fun risk_error_text :: "risk_error \<Rightarrow> string" where
  "risk_error_text (ValueError s) = s"

definition requires_user_confirmation ::
    "('s, 'x) agent_env \<Rightarrow> action_event list \<Rightarrow> (('s, 'x) world, bool) prog" where
  "requires_user_confirmation av as w =
     (if length as = 1 \<and> never_confirmed (ae_action (hd as)) then (w, Inr False)
      else if as = [] then (w, Inr False)
      else
        case any_confirm (cf_confirmation_policy (fields_of w)) (action_risks av (fields_of w) as) of
          Inl e \<Rightarrow> (w, Inl (PyError ''ValueError'' (risk_error_text e)))
        | Inr True \<Rightarrow> bind_st (set_status av WAITING_FOR_CONFIRMATION) (\<lambda>_. return_st True) w
        | Inr False \<Rightarrow> (w, Inr False))"

section \<open>The handlers of a response\<close>

definition maybe_emit_vllm_tokens :: "('s, 'x) agent_env \<Rightarrow> llm_response \<Rightarrow> (('s, 'x) world, unit) prog" where
  "maybe_emit_vllm_tokens av resp =
     (if av_return_token_ids av then
        (case lr_token_ids resp of
           None \<Rightarrow> raise_st (PyError ''KeyError'' ''prompt_token_ids'')
         | Some (prompt, response) \<Rightarrow> emit av (\<lambda>i. TokenEvent i SrcAgent prompt response))
      else return_st ())"

definition first_context :: "message \<Rightarrow> call_context" where
  "first_context m = \<lparr>cx_thought = filter (\<lambda>c. \<not> is_image c) (m_content m),
     cx_reasoning_content = m_reasoning_content m, cx_thinking_blocks = m_thinking_blocks m,
     cx_responses_reasoning_item = m_responses_reasoning_item m\<rparr>"

definition handle_tool_calls :: "('s, 'x) agent_env \<Rightarrow> llm_response \<Rightarrow> (('s, 'x) world, unit) prog" where
  "handle_tool_calls av resp =
     (let m = lr_message resp
      in bind_st (get_action_events av (lr_id resp) (first_context m) (calls_of m)) (\<lambda>as.
           bind_st (requires_user_confirmation av as) (\<lambda>waits.
             if waits then return_st ()
             else bind_st (if as \<noteq> [] then execute_actions av as else return_st ()) (\<lambda>_.
               maybe_emit_vllm_tokens av resp))))"

definition agent_message_event :: "string \<Rightarrow> llm_response \<Rightarrow> message_event" where
  "agent_message_event i resp =
     \<lparr>me_id = i, me_source = SrcAgent, me_llm_message = lr_message resp,
      me_llm_response_id = Some (lr_id resp), me_activated_skills = [], me_extended_content = [],
      me_sender = None, me_critic_result = None\<rparr>"

definition emit_message_event :: "('s, 'x) agent_env \<Rightarrow> llm_response \<Rightarrow> (('s, 'x) world, unit) prog" where
  "emit_message_event av resp =
     bind_st (fresh_id av) (\<lambda>i w.
       (let me = agent_message_event i resp;
            judged = (case av_critic av of
                        Some cr \<Rightarrow> if cr_all_actions cr then None else evaluate_with_critic av (MessageEvent me) w
                      | None \<Rightarrow> None)
        in on_event av (MessageEvent (case judged of None \<Rightarrow> me | Some r \<Rightarrow> me\<lparr>me_critic_result := Some r\<rparr>)) w))"

definition NUDGE :: string where
  "NUDGE = ''Your last response did not include a function call or a message. '' @
     ''Please use a tool to proceed with the task.''"

definition send_corrective_nudge :: "('s, 'x) agent_env \<Rightarrow> (('s, 'x) world, unit) prog" where
  "send_corrective_nudge av = emit av (\<lambda>i. user_text_event i NUDGE)"

definition handle_content_response :: "('s, 'x) agent_env \<Rightarrow> llm_response \<Rightarrow> (('s, 'x) world, unit) prog" where
  "handle_content_response av resp =
     bind_st (emit_message_event av resp) (\<lambda>_.
       bind_st (maybe_emit_vllm_tokens av resp) (\<lambda>_. set_status av FINISHED))"

definition handle_no_content_response :: "('s, 'x) agent_env \<Rightarrow> llm_response \<Rightarrow> (('s, 'x) world, unit) prog" where
  "handle_no_content_response av resp =
     bind_st (emit_message_event av resp) (\<lambda>_.
       bind_st (maybe_emit_vllm_tokens av resp) (\<lambda>_. send_corrective_nudge av))"

definition handle_response :: "('s, 'x) agent_env \<Rightarrow> llm_response \<Rightarrow> (('s, 'x) world, unit) prog" where
  "handle_response av resp =
     (case classify_response (lr_message resp) of
        TOOL_CALLS \<Rightarrow> handle_tool_calls av resp
      | CONTENT \<Rightarrow> handle_content_response av resp
      | REASONING_ONLY \<Rightarrow> handle_no_content_response av resp
      | EMPTY \<Rightarrow> handle_no_content_response av resp)"

section \<open>The step\<close>

datatype prepared = Messages "message list" | NeedsCondensation condensation

text \<open>
  \<open>prepare_llm_messages\<close>. The id of a condensation is drawn whether or not one is made.
\<close>

definition prepare_llm_messages :: "('s, 'x) agent_env \<Rightarrow> (('s, 'x) world, prepared) prog" where
  "prepare_llm_messages av w =
     (let v = from_events (events_of w);
          w1 = w\<lparr>w_ids := w_ids w + 1\<rparr>;
          (k, r) = (case av_condenser av of
                      None \<Rightarrow> (w_llm w, Inr (Uncondensed v))
                    | Some c \<Rightarrow> run_condenser c (av_fresh av (w_ids w)) (w_llm w) v (Some (av_condenser_llm av)));
          w2 = w1\<lparr>w_llm := k\<rparr>
      in case r of
           Inl e \<Rightarrow> (w2, Inl (CondenserError e))
         | Inr (Condensed c) \<Rightarrow> (w2, Inr (NeedsCondensation c))
         | Inr (Uncondensed v') \<Rightarrow>
             (case events_to_messages (v_events v') of
                Inl e \<Rightarrow> (w2, Inl (MessageError e))
              | Inr ms \<Rightarrow> (w2, Inr (Messages ms))))"

definition make_llm_completion ::
    "('s, 'x) agent_env \<Rightarrow> message list \<Rightarrow> ('s, 'x) world \<Rightarrow> ('s, 'x) world \<times> (completion_error, llm_response) result" where
  "make_llm_completion av ms w = (case av_complete av ms (w_ext w) of (x, r) \<Rightarrow> (w\<lparr>w_ext := x\<rparr>, r))"

definition can_condense :: "('s, 'x) agent_env \<Rightarrow> bool" where
  "can_condense av = (case av_condenser av of None \<Rightarrow> False | Some c \<Rightarrow> handles_condensation_requests c)"

fun handle_completion_error :: "('s, 'x) agent_env \<Rightarrow> completion_error \<Rightarrow> (('s, 'x) world, unit) prog" where
  "handle_completion_error av (FunctionCallValidationError s) = emit av (\<lambda>i. user_text_event i s)"
| "handle_completion_error av (LLMMalformedConversationHistoryError s) =
     (if can_condense av then emit av (\<lambda>i. CondensationRequest i SrcEnvironment)
      else raise_st (CompletionFailed ''LLMMalformedConversationHistoryError'' s))"
| "handle_completion_error av (LLMContextWindowExceedError s) =
     (if can_condense av then emit av (\<lambda>i. CondensationRequest i SrcEnvironment)
      else raise_st (CompletionFailed ''LLMContextWindowExceedError'' s))"
| "handle_completion_error av (OtherCompletionError cls s) = raise_st (CompletionFailed cls s)"

definition pop_message :: "('s, 'x) agent_env \<Rightarrow> (('s, 'x) world, string option) prog" where
  "pop_message av w =
     (case cf_last_user_message_id (fields_of w) of
        None \<Rightarrow> (w, Inr None)
      | Some i \<Rightarrow>
          (case pop_blocked_message (av_persist av) i (w_state w) of
             (st, Inr r) \<Rightarrow> (w\<lparr>w_state := st\<rparr>, Inr r)
           | (st, Inl e) \<Rightarrow> (w\<lparr>w_state := st\<rparr>, Inl (StateError e))))"

definition sample_and_handle :: "('s, 'x) agent_env \<Rightarrow> (('s, 'x) world, unit) prog" where
  "sample_and_handle av =
     bind_st (prepare_llm_messages av) (\<lambda>p.
       case p of
         NeedsCondensation c \<Rightarrow> on_event av (Condensation c)
       | Messages ms \<Rightarrow>
           (\<lambda>w. case make_llm_completion av ms w of
                  (w', Inl e) \<Rightarrow> handle_completion_error av e w'
                | (w', Inr resp) \<Rightarrow> handle_response av resp w'))"

definition agent_step :: "('s, 'x) agent_env \<Rightarrow> (('s, 'x) world, unit) prog" where
  "agent_step av w =
     (let pending = get_unmatched_actions (events_of w)
      in if pending \<noteq> [] then execute_actions av pending w
         else
           bind_st (pop_message av) (\<lambda>reason.
             if reason \<noteq> None then set_status av FINISHED else sample_and_handle av) w)"

section \<open>Initialization\<close>

definition INIT_STATE_PREFIX_SCAN_WINDOW :: nat where
  "INIT_STATE_PREFIX_SCAN_WINDOW = 3"

fun is_system_prompt :: "event \<Rightarrow> bool" where
  "is_system_prompt (SystemPromptEvent _) = True"
| "is_system_prompt _ = False"

text \<open>The dynamic context is \<open>get_dynamic_context\<close>; an empty one counts as none.\<close>

definition init_state ::
    "('s, 'x) agent_env \<Rightarrow> string \<Rightarrow> string option \<Rightarrow> (('s, 'x) world, unit) prog" where
  "init_state av static_message dynamic_context w =
     (let prefix = take INIT_STATE_PREFIX_SCAN_WINDOW (events_of w)
      in if list_ex is_system_prompt prefix then (w, Inr ())
         else if list_ex is_user_message prefix
         then (w, Inl (PyError ''AssertionError'' ''user message exists before SystemPromptEvent''))
         else emit av (\<lambda>i. SystemPromptEvent
                \<lparr>sp_id = i, sp_source = SrcAgent, sp_system_prompt = text_content static_message,
                 sp_tools = map (\<lambda>(n, td). td_name td) (av_tools av),
                 sp_dynamic_context =
                   (case dynamic_context of
                      Some s \<Rightarrow> if s \<noteq> [] then Some (text_content s) else None
                    | None \<Rightarrow> None)\<rparr>) w)"

section \<open>The events of the calls\<close>

lemma on_event_plain:
  "\<not> is_user_message e \<Longrightarrow> on_event av e w = (append_log_event e w, Inr ())"
  by (cases e) (auto simp: on_event_def)

lemma emit_plain:
  "\<not> is_user_message (mk (av_fresh av (w_ids w))) \<Longrightarrow>
     emit av mk w = (append_log_event (mk (av_fresh av (w_ids w))) (w\<lparr>w_ids := w_ids w + 1\<rparr>), Inr ())"
  by (simp add: emit_def bind_st_def fresh_id_def on_event_plain)

lemma with_ids_simps [simp]:
  "events_of (w\<lparr>w_ids := n\<rparr>) = events_of w" "fields_of (w\<lparr>w_ids := n\<rparr>) = fields_of w"
  "events_of (w\<lparr>w_llm := k\<rparr>) = events_of w" "fields_of (w\<lparr>w_llm := k\<rparr>) = fields_of w"
  "events_of (w\<lparr>w_ext := x\<rparr>) = events_of w" "fields_of (w\<lparr>w_ext := x\<rparr>) = fields_of w"
  by (simp_all add: events_of_def fields_of_def)

lemma judged_action_simps [simp]:
  "ae_id (judged_action av a w) = ae_id a" "ae_action (judged_action av a w) = ae_action a"
  "ae_tool_call_id (judged_action av a w) = ae_tool_call_id a"
  "ae_tool_call (judged_action av a w) = ae_tool_call a"
  by (simp_all add: judged_action_def split: option.splits)

lemma validated_call: "validate_tool_call av b tc = Inr v \<Longrightarrow> tc_id (vc_call v) = tc_id tc"
  by (auto simp: validate_tool_call_def Let_def split: sum.splits option.splits prod.splits)

text \<open>A call becomes a pending action, or an action without arguments and its error.\<close>

lemma get_action_event_effect:
  "\<exists>w' r new. get_action_event av rid cx tc w = (w', Inr r) \<and> events_of w' = events_of w @ new \<and>
     fields_of w' = fields_of w \<and> w_ext w' = w_ext w \<and> w_ids w < w_ids w' \<and>
     ((\<exists>a. r = Some a \<and> new = [ActionEvent a] \<and> ae_action a \<noteq> None \<and> ae_tool_call_id a = tc_id tc \<and>
         consistent a \<and> ae_id a = av_fresh av (w_ids w)) \<or>
      (\<exists>a e. r = None \<and> new = [ActionEvent a, AgentErrorEvent e] \<and> ae_action a = None \<and>
         ae_tool_call_id a = tc_id tc \<and> er_tool_call_id e = tc_id tc))"
proof (cases "validate_tool_call av (cf_security_analyzer (fields_of w) \<noteq> None) tc")
  case (Inl p)
  obtain name err where "p = (name, err)" by fastforce
  with Inl show ?thesis
    by (simp add: get_action_event_def emit_tool_error_def bind_st_def emit_plain return_st_def
        error_event_def failed_action_def)
next
  case (Inr v)
  with validated_call [OF Inr] show ?thesis
    by (simp add: get_action_event_def bind_st_def fresh_id_def on_event_plain return_st_def Let_def
        valid_action_def consistent_def)
qed

lemma answers_AgentErrorEvent:
  "\<lbrakk>answers x a; \<forall>x \<in> set new. (\<exists>b. x = ActionEvent b) \<or> (\<exists>e. x = AgentErrorEvent e \<and> er_tool_call_id e \<in> T);
    x \<in> set new\<rbrakk> \<Longrightarrow> ae_tool_call_id a \<in> T"
  by fastforce

lemma get_action_events_effect:
  assumes "distinct (map tc_id tcs)"
  shows "\<exists>w' as new. get_action_events av rid cx tcs w = (w', Inr as) \<and> events_of w' = events_of w @ new \<and>
     fields_of w' = fields_of w \<and> w_ext w' = w_ext w \<and> w_ids w \<le> w_ids w' \<and>
     pending_actions new = as \<and> List.map_filter action_call new = map tc_id tcs \<and>
     (\<forall>x \<in> set new. (\<exists>b. x = ActionEvent b) \<or> (\<exists>e. x = AgentErrorEvent e \<and> er_tool_call_id e \<in> tc_id ` set tcs)) \<and>
     (\<forall>a \<in> set as. consistent a \<and> (\<exists>n. ae_id a = av_fresh av n \<and> w_ids w \<le> n)) \<and>
     subseq (map ae_tool_call_id as) (map tc_id tcs) \<and> (inj (av_fresh av) \<longrightarrow> distinct (map ae_id as))"
  using assms
proof (induction tcs arbitrary: cx w)
  case (Cons tc tcs)
  obtain w1 r new1 where one: "get_action_event av rid cx tc w = (w1, Inr r)" "events_of w1 = events_of w @ new1"
    "fields_of w1 = fields_of w" "w_ext w1 = w_ext w" "w_ids w < w_ids w1" and
    kind: "(\<exists>a. r = Some a \<and> new1 = [ActionEvent a] \<and> ae_action a \<noteq> None \<and> ae_tool_call_id a = tc_id tc \<and>
         consistent a \<and> ae_id a = av_fresh av (w_ids w)) \<or>
      (\<exists>a e. r = None \<and> new1 = [ActionEvent a, AgentErrorEvent e] \<and> ae_action a = None \<and>
         ae_tool_call_id a = tc_id tc \<and> er_tool_call_id e = tc_id tc)"
    using get_action_event_effect [of av rid cx tc w] by blast
  have d: "distinct (map tc_id tcs)" "tc_id tc \<notin> tc_id ` set tcs" using Cons.prems by auto
  obtain w2 as new2 where rest: "get_action_events av rid empty_context tcs w1 = (w2, Inr as)"
    "events_of w2 = events_of w1 @ new2" "fields_of w2 = fields_of w1" "w_ext w2 = w_ext w1" "w_ids w1 \<le> w_ids w2"
    "pending_actions new2 = as" "List.map_filter action_call new2 = map tc_id tcs"
    and calls: "\<forall>x \<in> set new2. (\<exists>b. x = ActionEvent b) \<or> (\<exists>e. x = AgentErrorEvent e \<and> er_tool_call_id e \<in> tc_id ` set tcs)"
    and ids: "\<forall>a \<in> set as. consistent a \<and> (\<exists>n. ae_id a = av_fresh av n \<and> w_ids w1 \<le> n)"
    and sub: "subseq (map ae_tool_call_id as) (map tc_id tcs)" and dis: "inj (av_fresh av) \<longrightarrow> distinct (map ae_id as)"
    using Cons.IH [OF d(1), of empty_context w1] by blast
  define as' where "as' = (case r of None \<Rightarrow> as | Some a \<Rightarrow> a # as)"
  have "get_action_events av rid cx (tc # tcs) w = (w2, Inr as')"
    using one(1) rest(1) by (simp add: bind_st_def return_st_def as'_def)
  moreover have "events_of w2 = events_of w @ (new1 @ new2)" "fields_of w2 = fields_of w" "w_ext w2 = w_ext w"
    "w_ids w \<le> w_ids w2" using one rest by simp_all
  moreover have "\<forall>x \<in> set (new1 @ new2). (\<exists>b. x = ActionEvent b) \<or>
      (\<exists>e. x = AgentErrorEvent e \<and> er_tool_call_id e \<in> tc_id ` set (tc # tcs))"
    using calls kind by auto
  moreover have "pending_actions (new1 @ new2) = as' \<and>
      List.map_filter action_call (new1 @ new2) = map tc_id (tc # tcs) \<and>
      (\<forall>a \<in> set as'. consistent a \<and> (\<exists>n. ae_id a = av_fresh av n \<and> w_ids w \<le> n)) \<and>
      subseq (map ae_tool_call_id as') (map tc_id (tc # tcs)) \<and> (inj (av_fresh av) \<longrightarrow> distinct (map ae_id as'))"
    using kind
  proof (elim disjE exE conjE)
    fix a assume a: "r = Some a" "new1 = [ActionEvent a]" "ae_action a \<noteq> None" "ae_tool_call_id a = tc_id tc"
      "consistent a" "ae_id a = av_fresh av (w_ids w)"
    have "list_all (\<lambda>x. \<not> answers x a) new2"
      unfolding list_all_iff using answers_AgentErrorEvent [OF _ calls] a(4) d(2) by metis
    moreover have "inj (av_fresh av) \<Longrightarrow> ae_id a \<notin> ae_id ` set as"
      using ids a(6) one(5) by (fastforce dest: injD)
    moreover have "\<forall>b \<in> set as. consistent b \<and> (\<exists>n. ae_id b = av_fresh av n \<and> w_ids w \<le> n)"
      using ids one(5) by (meson less_imp_le order_trans)
    ultimately show ?thesis
      using a rest(6,7) sub dis by (auto simp: as'_def List.map_filter_def)
  next
    fix a e assume a: "r = None" "new1 = [ActionEvent a, AgentErrorEvent e]" "ae_action a = None"
      "ae_tool_call_id a = tc_id tc"
    have "\<forall>b \<in> set as. consistent b \<and> (\<exists>n. ae_id b = av_fresh av n \<and> w_ids w \<le> n)"
      using ids one(5) by (meson less_imp_le order_trans)
    with a rest(6,7) sub dis show ?thesis
      by (auto simp: as'_def List.map_filter_def)
  qed
  ultimately show ?case by blast
qed (simp add: return_st_def List.map_filter_def)

section \<open>The gate\<close>

definition needs_confirmation :: "('s, 'x) agent_env \<Rightarrow> conv_fields \<Rightarrow> action_event list \<Rightarrow> bool" where
  "needs_confirmation av f as \<longleftrightarrow>
     as \<noteq> [] \<and> \<not> (length as = 1 \<and> never_confirmed (ae_action (hd as))) \<and>
     (\<exists>r \<in> set (action_risks av f as). confirms (cf_confirmation_policy f) r)"

lemma any_confirm_valid: "policy_valid p \<Longrightarrow> any_confirm p rs = Inr (list_ex (confirms p) rs)"
  by (induction rs) (simp_all add: should_confirm_valid split: bool.splits)

lemma requires_user_confirmation_effect:
  assumes "policy_valid (cf_confirmation_policy (fields_of w))" and "writes_ok av"
  shows "\<exists>w'. requires_user_confirmation av as w = (w', Inr (needs_confirmation av (fields_of w) as)) \<and>
    events_of w' = events_of w \<and> w_ext w' = w_ext w \<and> w_ids w' = w_ids w \<and>
    (if needs_confirmation av (fields_of w) as
     then fields_of w' = (fields_of w)\<lparr>cf_execution_status := WAITING_FOR_CONFIRMATION\<rparr> else w' = w)"
proof -
  obtain w1 where s: "set_status av WAITING_FOR_CONFIRMATION w = (w1, Inr ())"
    using set_field_returns [OF assms(2)] unfolding set_status_def by blast
  from set_field_iff [OF s [unfolded set_status_def]]
  have f: "fields_of w1 = (fields_of w)\<lparr>cf_execution_status := WAITING_FOR_CONFIRMATION\<rparr>"
    "events_of w1 = events_of w" "w_ext w1 = w_ext w" "w_ids w1 = w_ids w" by auto
  show ?thesis
    using s f by (auto simp: requires_user_confirmation_def needs_confirmation_def any_confirm_valid [OF assms(1)]
        bind_st_def return_st_def list_ex_iff split: bool.splits)
qed

lemma action_calls_distinct:
  "subseq (map ae_tool_call_id as) (map tc_id tcs) \<Longrightarrow> distinct (map tc_id tcs) \<Longrightarrow> distinct (map ae_tool_call_id as)"
  by (auto simp: subseq_conv_nths)

section \<open>Recovery from an overflow\<close>

text \<open>A condenser that passes a view on passes it on unchanged, and it does not if it has to answer a request.\<close>

lemma run_condenser_uncondensed:
  "run_condenser c cid k v l = (k', Inr (Uncondensed v')) \<Longrightarrow>
     v' = v \<and> \<not> (v_unhandled_condensation_request v \<and> handles_condensation_requests c)"
  "run_pipeline cs cid k r l = (k', Inr (Uncondensed v')) \<Longrightarrow>
     r = Uncondensed v' \<and> \<not> (v_unhandled_condensation_request v' \<and> list_ex handles_condensation_requests cs)"
proof (induction c cid k v l and cs cid k r l arbitrary: k' v' and k' v' rule: run_condenser_run_pipeline.induct)
  case (2 sz cid k v l)
  then show ?case using condense_spec(3) by auto
next
  case (5 c cs cid k r l)
  obtain v where r: "r = Uncondensed v" using "5.prems" by (cases r) auto
  obtain k1 r1 where one: "run_condenser c cid k v l = (k1, Inr r1)" and rest: "run_pipeline cs cid k1 r1 l = (k', Inr (Uncondensed v'))"
    using "5.prems" r by (auto split: prod.splits sum.splits)
  note R = "5.IH"(2) [OF r one [symmetric] HOL.refl rest]
  from R one "5.IH"(1) [OF r] r show ?case by auto
qed (auto)

lemma from_events_request:
  "v_unhandled_condensation_request (from_events (es @ [CondensationRequest i s]))"
  by (simp add: from_events_def Let_def)

lemma pop_message_none:
  assumes "\<forall>i. cf_last_user_message_id (fields_of w) = Some i \<longrightarrow> map_of (cf_blocked_messages (fields_of w)) i = None"
  shows "pop_message av w = (w, Inr None)"
  using assms by (auto simp: pop_message_def pop_blocked_message_def fields_of_def split: option.splits)

lemma prepare_llm_messages_effect:
  assumes "prepare_llm_messages av w = (w', r)"
  shows "events_of w' = events_of w \<and> fields_of w' = fields_of w \<and> w_ext w' = w_ext w"
  using assms by (auto simp: prepare_llm_messages_def Let_def events_of_def fields_of_def
      split: prod.splits sum.splits condense_result.splits)

lemma prepare_after_request:
  assumes "v_unhandled_condensation_request (from_events (events_of w))" and "can_condense av"
    and "prepare_llm_messages av w = (w', r)"
  shows "(\<exists>c. r = Inr (NeedsCondensation c)) \<or> (\<exists>e. r = Inl (CondenserError e))"
proof -
  obtain c where c: "av_condenser av = Some c" "handles_condensation_requests c"
    using assms(2) by (auto simp: can_condense_def split: option.splits)
  then have "run_condenser c i k (from_events (events_of w)) l \<noteq> (k', Inr (Uncondensed v'))" for i k l k' v'
    using run_condenser_uncondensed(1) assms(1) by blast
  with assms(3) c(1) show ?thesis
    by (auto simp: prepare_llm_messages_def Let_def split: prod.splits sum.splits condense_result.splits)
qed

section \<open>Properties\<close>

text \<open>
  C17: The confirmation gate, for a response whose calls have distinct ids, when nothing is pending
  and the state can be saved. Every call of the response becomes an action in the log, in order.
  If the new actions need a confirmation no tool runs, the conversation waits and exactly the
  valid actions are pending; otherwise they are all answered, except the calls after a finish call.
\<close>

theorem confirmation_gate:
  assumes "writes_ok av" and "schedule_ok av" and "inj (av_fresh av)" and "\<not> av_return_token_ids av"
    and "policy_valid (cf_confirmation_policy (fields_of w))"
    and "distinct (map tc_id (calls_of (lr_message resp)))"
    and "get_unmatched_actions (events_of w) = []"
  shows "\<exists>w' as new tail. handle_tool_calls av resp w = (w', Inr ()) \<and>
    events_of w' = events_of w @ new @ tail \<and>
    List.map_filter action_call new = map tc_id (calls_of (lr_message resp)) \<and> as = pending_actions new \<and>
    (if needs_confirmation av (fields_of w) as
     then cf_execution_status (fields_of w') = WAITING_FOR_CONFIRMATION \<and> w_ext w' = w_ext w \<and> tail = [] \<and>
       get_unmatched_actions (events_of w') = as
     else get_unmatched_actions (events_of w') = drop (length (fst (truncate_at_finish as))) as)"
proof -
  let ?m = "lr_message resp"
  obtain w1 as new where g: "get_action_events av (lr_id resp) (first_context ?m) (calls_of ?m) w = (w1, Inr as)"
    "events_of w1 = events_of w @ new" "fields_of w1 = fields_of w" "w_ext w1 = w_ext w"
    "pending_actions new = as" "List.map_filter action_call new = map tc_id (calls_of ?m)"
    and as: "\<forall>a \<in> set as. consistent a" "subseq (map ae_tool_call_id as) (map tc_id (calls_of ?m))"
      "distinct (map ae_id as)"
    using get_action_events_effect [OF assms(6), of av "lr_id resp" "first_context ?m" w] assms(3) by blast
  have pend: "pending_actions (events_of w1) = as"
    using assms(7) g(2,5) by (simp add: get_unmatched_actions_eq pending_actions_append)
  let ?needs = "needs_confirmation av (fields_of w) as"
  obtain w2 where r: "requires_user_confirmation av as w1 = (w2, Inr ?needs)" "events_of w2 = events_of w1"
    "w_ext w2 = w_ext w1"
    "if ?needs then fields_of w2 = (fields_of w1)\<lparr>cf_execution_status := WAITING_FOR_CONFIRMATION\<rparr> else w2 = w1"
    using requires_user_confirmation_effect [of w1 av as] assms(1,5) g(3) by auto
  show ?thesis
  proof (cases ?needs)
    case True
    then have "handle_tool_calls av resp w = (w2, Inr ())"
      using g(1) r(1) by (simp add: handle_tool_calls_def bind_st_def return_st_def Let_def)
    with True r g pend show ?thesis
      by (intro exI [of _ w2] exI [of _ as] exI [of _ new] exI [of _ "[]"]) (simp add: get_unmatched_actions_eq)
  next
    case False
    then have w2: "w2 = w1" using r(4) by simp
    obtain w3 tail where x: "(if as \<noteq> [] then execute_actions av as else return_st ()) w1 = (w3, Inr ())"
      "events_of w3 = events_of w1 @ tail"
      "get_unmatched_actions (events_of w3) = drop (length (fst (truncate_at_finish as))) as"
    proof (cases "as = []")
      case True
      then show ?thesis using that [of w1 "[]"] pend by (simp add: return_st_def get_unmatched_actions_eq)
    next
      case nonempty: False
      have d: "distinct (map ae_tool_call_id as)" by (rule action_calls_distinct [OF as(2) assms(6)])
      obtain w3 where w3: "execute_actions av as w1 = (w3, Inr ())"
        "get_unmatched_actions (events_of w3) = drop (length (fst (truncate_at_finish as))) as"
        using execute_pending_rest [OF assms(1,2) pend [symmetric] as(3) d as(1)] by blast
      from execute_actions_spec [OF w3(1) assms(2) as(3,1)]
      obtain tail where "events_of w3 = events_of w1 @ tail" by blast
      with w3 nonempty that show ?thesis by simp
    qed
    have "handle_tool_calls av resp w = (w3, Inr ())"
      using g(1) r(1) w2 x(1) False assms(4)
      by (simp add: handle_tool_calls_def bind_st_def Let_def maybe_emit_vllm_tokens_def return_st_def)
    with False x g show ?thesis
      by (intro exI [of _ w3] exI [of _ as] exI [of _ new] exI [of _ tail]) simp
  qed
qed

text \<open>
  Recovery from a context overflow, with a condenser that handles requests: the step that
  meets the overflow logs one condensation request, and the step after it does not call the agent's
  model again. It logs a condensation, or the condenser raises and the log stays as it is.
\<close>

theorem overflow_forces_condensation:
  assumes "can_condense av" and "get_unmatched_actions (events_of w) = []"
    and "\<forall>i. cf_last_user_message_id (fields_of w) = Some i \<longrightarrow> map_of (cf_blocked_messages (fields_of w)) i = None"
    and "prepare_llm_messages av w = (w0, Inr (Messages ms))"
    and "av_complete av ms (w_ext w) = (x, Inl (LLMContextWindowExceedError msg))"
  shows "\<exists>w1 i w2 r. agent_step av w = (w1, Inr ()) \<and>
    events_of w1 = events_of w @ [CondensationRequest i SrcEnvironment] \<and> agent_step av w1 = (w2, r) \<and> w_ext w2 = x \<and>
    ((\<exists>c. r = Inr () \<and> events_of w2 = events_of w1 @ [Condensation c]) \<or>
     (\<exists>e. r = Inl (CondenserError e) \<and> events_of w2 = events_of w1))"
proof -
  note p = prepare_llm_messages_effect [OF assms(4)]
  define i where "i = av_fresh av (w_ids w0)"
  define w1 where "w1 = append_log_event (CondensationRequest i SrcEnvironment) (w0\<lparr>w_ext := x, w_ids := w_ids w0 + 1\<rparr>)"
  have one: "agent_step av w = (w1, Inr ())"
    using assms(1,2,4,5) pop_message_none [OF assms(3)] p
    by (simp add: agent_step_def bind_st_def sample_and_handle_def make_llm_completion_def emit_plain w1_def i_def)
  have e1: "events_of w1 = events_of w @ [CondensationRequest i SrcEnvironment]" "fields_of w1 = fields_of w" "w_ext w1 = x"
    using p by (simp_all add: w1_def)
  have n1: "get_unmatched_actions (events_of w1) = []"
    using assms(2) e1(1) by (simp add: get_unmatched_actions_eq pending_actions_append)
  have m1: "pop_message av w1 = (w1, Inr None)" by (rule pop_message_none) (use assms(3) e1(2) in simp)
  obtain w2 q where q: "prepare_llm_messages av w1 = (w2, q)" by fastforce
  note p2 = prepare_llm_messages_effect [OF q]
  have "v_unhandled_condensation_request (from_events (events_of w1))"
    unfolding e1(1) by (rule from_events_request)
  from prepare_after_request [OF this assms(1) q]
  show ?thesis
  proof (elim disjE exE)
    fix c assume c: "q = Inr (NeedsCondensation c)"
    have "agent_step av w1 = (append_log_event (Condensation c) w2, Inr ())"
      using n1 m1 q c by (simp add: agent_step_def bind_st_def sample_and_handle_def on_event_plain)
    with one e1 p2 show ?thesis by fastforce
  next
    fix e assume c: "q = Inl (CondenserError e)"
    have "agent_step av w1 = (w2, Inl (CondenserError e))"
      using n1 m1 q c by (simp add: agent_step_def bind_st_def sample_and_handle_def)
    with one e1 p2 show ?thesis by blast
  qed
qed

section \<open>Witnesses\<close>

definition gate_env :: "(unit, nat) agent_env" where
  "gate_env = demo_env\<lparr>av_json := plain_json\<lparr>je_loads := (\<lambda>b s. Some (JObj []))\<rparr>\<rparr>"

definition gate_response :: llm_response where
  "gate_response = \<lparr>lr_message = (new_message RAssistant [])\<lparr>m_tool_calls :=
     Some [\<lparr>tc_id = ''c1'', tc_responses_item_id = None, tc_name = ''echo'', tc_arguments = ''{}'', tc_origin = Completion\<rparr>,
           \<lparr>tc_id = ''c2'', tc_responses_item_id = None, tc_name = ''none'', tc_arguments = ''{}'', tc_origin = Completion\<rparr>]\<rparr>,
     lr_id = ''r'', lr_token_ids = None\<rparr>"

definition gate_world :: "(unit, nat) world" where
  "gate_world = \<lparr>w_state = state_of ((fresh_fields ''c'' ''a'' ''w'' None 10 True)\<lparr>cf_confirmation_policy := AlwaysConfirm\<rparr>)
     [] None False, w_ids = 0, w_llm = 0, w_ext = 0\<rparr>"

lemma gate_needs:
  "needs_confirmation gate_env (fields_of gate_world) as \<longleftrightarrow>
     as \<noteq> [] \<and> \<not> (length as = 1 \<and> never_confirmed (ae_action (hd as)))"
  by (auto simp: needs_confirmation_def gate_world_def fields_of_def state_of_def fresh_fields_def
      action_risks_def confirms_def)

lemma confirmation_gate_witness:
  "\<exists>w' as new. handle_tool_calls gate_env gate_response gate_world = (w', Inr ()) \<and>
     List.map_filter action_call new = [''c1'', ''c2''] \<and>
     (as \<noteq> [] \<and> \<not> (length as = 1 \<and> never_confirmed (ae_action (hd as))) \<longrightarrow> w_ext w' = 0)"
proof -
  have ok: "writes_ok gate_env" "schedule_ok gate_env" "\<not> av_return_token_ids gate_env" "inj (av_fresh gate_env)"
    using demo_ok by (auto simp: gate_env_def writes_ok_def schedule_ok_def demo_env_def inj_def show_nat_inject)
  have p: "policy_valid (cf_confirmation_policy (fields_of gate_world))"
    "get_unmatched_actions (events_of gate_world) = []" "w_ext gate_world = 0"
    by (simp_all add: gate_world_def fields_of_def events_of_def state_of_def get_unmatched_actions_eq)
  have c: "map tc_id (calls_of (lr_message gate_response)) = [''c1'', ''c2'']"
    by (simp add: gate_response_def calls_of_def)
  then have d: "distinct (map tc_id (calls_of (lr_message gate_response)))" by simp
  from confirmation_gate [OF ok(1,2,4,3) p(1) d p(2)] show ?thesis
    unfolding gate_needs c p(3) by fastforce
qed

definition overflow_env :: "(unit, nat) agent_env" where
  "overflow_env = demo_env\<lparr>av_condenser := Some (PipelineCondenser [NoOpCondenser, LLMSummarizingCondenser sample_summarizer]),
     av_complete := (\<lambda>ms x. (x + 1, Inl (LLMContextWindowExceedError ''too long'')))\<rparr>"

lemma overflow_forces_condensation_witness:
  "\<exists>w1 i w2 r. agent_step overflow_env (demo_world []) = (w1, Inr ()) \<and>
     events_of w1 = [CondensationRequest i SrcEnvironment] \<and> agent_step overflow_env w1 = (w2, r) \<and> w_ext w2 = 1"
proof -
  have v: "from_events [] = empty_view"
  proof -
    have "enforce_properties [] [] = []" using enforce_properties_subseq [of "[]" "[]"] by simp
    then show ?thesis by (simp add: from_events_def empty_view_def)
  qed
  have e: "events_of (demo_world []) = []" "w_ext (demo_world []) = 0" "cf_last_user_message_id (fields_of (demo_world [])) = None"
    by (simp_all add: demo_world_def events_of_def fields_of_def state_of_def fresh_fields_def)
  have "\<exists>w0. prepare_llm_messages overflow_env (demo_world []) = (w0, Inr (Messages []))"
    by (simp add: prepare_llm_messages_def e v overflow_env_def empty_view_def condense_def rolling_condense_def
        condensation_requirement_def get_condensation_reasons_def sample_summarizer_def Let_def)
  then obtain w0 where w0: "prepare_llm_messages overflow_env (demo_world []) = (w0, Inr (Messages []))" by blast
  have c: "can_condense overflow_env" "av_complete overflow_env [] (w_ext (demo_world [])) = (1, Inl (LLMContextWindowExceedError ''too long''))"
    by (simp_all add: overflow_env_def can_condense_def e)
  have n: "get_unmatched_actions (events_of (demo_world [])) = []" by (simp add: e get_unmatched_actions_eq)
  have b: "\<forall>i. cf_last_user_message_id (fields_of (demo_world [])) = Some i \<longrightarrow>
      map_of (cf_blocked_messages (fields_of (demo_world []))) i = None" by (simp add: e)
  from overflow_forces_condensation [OF c(1) n b w0 c(2)] show ?thesis unfolding e by fastforce
qed

end
