(* ===== verification/Stuck.thy ===== *)
theory Stuck
  imports Conv_State
begin

text \<open>
  The stuck detector (\<open>sdk/conversation/stuck_detector.py\<close>): the window of recent events, the
  collection of the latest actions and observations and the five scenarios. The lemmas replace
  the collecting loops by their closed form, from which the properties say when the detector fires.
\<close>

section \<open>The detector\<close>

definition MAX_EVENTS_TO_SCAN :: nat where
  "MAX_EVENTS_TO_SCAN = 20"

record thresholds =
  th_action_observation :: nat
  th_action_error :: nat
  th_monologue :: nat
  th_alternating_pattern :: nat

definition default_thresholds :: thresholds where
  "default_thresholds = \<lparr>th_action_observation = 4, th_action_error = 3, th_monologue = 3,
     th_alternating_pattern = 6\<rparr>"

text \<open>The field constraint \<open>ge=1\<close> of every threshold.\<close>

definition thresholds_valid :: "thresholds \<Rightarrow> bool" where
  "thresholds_valid th \<longleftrightarrow> th_action_observation th \<ge> 1 \<and> th_action_error th \<ge> 1 \<and>
     th_monologue th \<ge> 1 \<and> th_alternating_pattern th \<ge> 1"

text \<open>\<open>_event_eq\<close>: equality up to ids.\<close>

fun event_eq :: "event \<Rightarrow> event \<Rightarrow> bool" where
  "event_eq (ActionEvent a) e2 =
     (case e2 of
        ActionEvent b \<Rightarrow> ae_source a = ae_source b \<and> ae_thought a = ae_thought b \<and>
          ae_action a = ae_action b \<and> ae_tool_name a = ae_tool_name b
      | _ \<Rightarrow> False)"
| "event_eq (ObservationEvent a) e2 =
     (case e2 of
        ObservationEvent b \<Rightarrow> oe_source a = oe_source b \<and> oe_observation a = oe_observation b \<and>
          oe_tool_name a = oe_tool_name b
      | _ \<Rightarrow> False)"
| "event_eq (AgentErrorEvent a) e2 =
     (case e2 of
        AgentErrorEvent b \<Rightarrow> er_source a = er_source b \<and> er_error a = er_error b
      | _ \<Rightarrow> False)"
| "event_eq (MessageEvent a) e2 =
     (case e2 of
        MessageEvent b \<Rightarrow> me_source a = me_source b \<and> me_llm_message a = me_llm_message b
      | _ \<Rightarrow> False)"
| "event_eq e1 e2 = (e1 = e2)"

fun is_agent_error :: "event \<Rightarrow> bool" where
  "is_agent_error (AgentErrorEvent _) = True"
| "is_agent_error _ = False"

fun is_result_or_error :: "event \<Rightarrow> bool" where
  "is_result_or_error (ObservationEvent _) = True"
| "is_result_or_error (AgentErrorEvent _) = True"
| "is_result_or_error _ = False"

text \<open>
  The collecting loop over the reversed events, for the given class of observations: an event is
  taken while its list is short, and the loop breaks once both lists are full.
\<close>

fun collect_recent ::
    "(event \<Rightarrow> bool) \<Rightarrow> nat \<Rightarrow> event list \<Rightarrow> event list \<Rightarrow> event list \<Rightarrow> event list \<times> event list" where
  "collect_recent is_obs n [] acts obs = (acts, obs)"
| "collect_recent is_obs n (e # es) acts obs =
     (let (acts', obs') =
            (if is_action e \<and> length acts < n then (acts @ [e], obs)
             else if is_obs e \<and> length obs < n then (acts, obs @ [e])
             else (acts, obs))
      in if length acts' \<ge> n \<and> length obs' \<ge> n then (acts', obs')
         else collect_recent is_obs n es acts' obs')"

definition stuck_action_observation :: "nat \<Rightarrow> event list \<Rightarrow> event list \<Rightarrow> bool" where
  "stuck_action_observation threshold acts obs =
     (if length acts \<ge> threshold \<and> length obs \<ge> threshold then
        list_all (event_eq (acts ! 0)) (take threshold acts) \<and>
        list_all (event_eq (obs ! 0)) (take threshold obs)
      else False)"

definition stuck_action_error :: "nat \<Rightarrow> event list \<Rightarrow> event list \<Rightarrow> bool" where
  "stuck_action_error threshold acts obs =
     (if length acts < threshold \<or> length obs < threshold then False
      else if list_all (event_eq (acts ! 0)) (take threshold acts)
           then list_all is_agent_error (take threshold obs)
      else False)"

text \<open>The monologue count: agent messages at the end, summaries skipped.\<close>

fun monologue_count :: "event list \<Rightarrow> nat" where
  "monologue_count [] = 0"
| "monologue_count (MessageEvent m # es) =
     (if me_source m = SrcAgent then Suc (monologue_count es)
      else if me_source m = SrcUser then 0
      else monologue_count es)"
| "monologue_count (CondensationSummaryEvent c # es) = monologue_count es"
| "monologue_count (_ # es) = 0"

definition stuck_monologue :: "nat \<Rightarrow> event list \<Rightarrow> bool" where
  "stuck_monologue threshold events =
     (if length events < threshold then False else monologue_count (rev events) \<ge> threshold)"

text \<open>\<open>range(threshold - 2)\<close> is empty for thresholds below three.\<close>

definition alternates :: "nat \<Rightarrow> event list \<Rightarrow> bool" where
  "alternates threshold xs = list_all (\<lambda>i. event_eq (xs ! i) (xs ! (i + 2))) [0..<threshold - 2]"

definition stuck_alternating :: "nat \<Rightarrow> event list \<Rightarrow> bool" where
  "stuck_alternating threshold events =
     (let (acts, obs) = collect_recent is_result_or_error threshold (rev events) [] []
      in if length acts = threshold \<and> length obs = threshold
         then alternates threshold acts \<and> alternates threshold obs
         else False)"

definition stuck_context_window_error :: "event list \<Rightarrow> bool" where
  "stuck_context_window_error events = False"

text \<open>
  The window: the last \<open>MAX_EVENTS_TO_SCAN\<close> events, from after the last user message in them.
\<close>

definition recent :: "event list \<Rightarrow> event list" where
  "recent events = drop (length events - MAX_EVENTS_TO_SCAN) events"

fun after_last_user :: "event list \<Rightarrow> event list" where
  "after_last_user es =
     (case find_index is_user_message (rev es) of
        None \<Rightarrow> es
      | Some k \<Rightarrow> drop (length es - k) es)"

definition is_stuck :: "thresholds \<Rightarrow> event list \<Rightarrow> bool" where
  "is_stuck th all_events =
     (let events = after_last_user (recent all_events);
          min_threshold = min (min (th_action_observation th) (th_action_error th)) (th_monologue th)
      in if length events < min_threshold then False
         else
           let max_needed = max (th_action_observation th) (th_action_error th);
               (acts, obs) = collect_recent is_observation max_needed (rev events) [] []
           in if stuck_action_observation (th_action_observation th) acts obs then True
              else if stuck_action_error (th_action_error th) acts obs then True
              else if stuck_monologue (th_monologue th) events then True
              else if length events \<ge> th_alternating_pattern th
                   \<and> stuck_alternating (th_alternating_pattern th) events then True
              else if length events \<ge> 10 \<and> stuck_context_window_error events then True
              else False)"

section \<open>The loops in closed form\<close>

lemma collect_recent_eq:
  assumes "\<And>e. is_obs e \<Longrightarrow> \<not> is_action e"
  shows "length acts \<le> n \<Longrightarrow> length obs \<le> n \<Longrightarrow>
     collect_recent is_obs n es acts obs =
       (acts @ take (n - length acts) (filter is_action es), obs @ take (n - length obs) (filter is_obs es))"
proof (induction es arbitrary: acts obs)
  case (Cons e es)
  consider "is_action e" "\<not> is_obs e" | "\<not> is_action e" "is_obs e" | "\<not> is_action e" "\<not> is_obs e"
    using assms by blast
  then show ?case
  proof cases
    case 1
    with Cons.IH [of "acts @ [e]" obs] Cons.IH [of acts obs] Cons.prems show ?thesis
      by (auto simp: take_Cons' Let_def)
  next
    case 2
    with Cons.IH [of acts "obs @ [e]"] Cons.IH [of acts obs] Cons.prems show ?thesis
      by (auto simp: take_Cons' Let_def)
  next
    case 3
    with Cons.IH [of acts obs] Cons.prems show ?thesis by (auto simp: Let_def)
  qed
qed simp

text \<open>The latest \<open>n\<close> events of a class, newest first.\<close>

definition latest :: "(event \<Rightarrow> bool) \<Rightarrow> nat \<Rightarrow> event list \<Rightarrow> event list" where
  "latest p n es = take n (filter p (rev es))"

lemma collect_observation:
  "collect_recent is_observation n (rev es) [] [] = (latest is_action n es, latest is_observation n es)"
proof -
  have "is_observation e \<Longrightarrow> \<not> is_action e" for e by (cases e) auto
  from collect_recent_eq [OF this] show ?thesis by (simp add: latest_def)
qed

lemma collect_result_or_error:
  "collect_recent is_result_or_error n (rev es) [] [] =
     (latest is_action n es, latest is_result_or_error n es)"
proof -
  have "is_result_or_error e \<Longrightarrow> \<not> is_action e" for e by (cases e) auto
  from collect_recent_eq [OF this] show ?thesis by (simp add: latest_def)
qed

lemma take_latest: "m \<le> n \<Longrightarrow> take m (latest p n es) = latest p m es"
  by (simp add: latest_def min_absorb1)

lemma length_latest: "length (latest p n es) = min n (length (filter p es))"
  by (simp add: latest_def min.commute flip: rev_filter)

lemma nth_latest: "m \<le> n \<Longrightarrow> i < m \<Longrightarrow> latest p n es ! i = latest p m es ! i"
  by (simp add: latest_def)

text \<open>The window in closed form.\<close>

lemma after_last_user_none: "\<forall>e \<in> set es. \<not> is_user_message e \<Longrightarrow> after_last_user es = es"
  by (simp add: find_index_None_iff [THEN iffD2])

lemma after_last_user_append:
  assumes "is_user_message u" and "\<forall>e \<in> set ys. \<not> is_user_message e"
  shows "after_last_user (xs @ u # ys) = ys"
  using find_index_append_first [of "rev ys" is_user_message u "rev xs"] assms by simp

declare after_last_user.simps [simp del]

lemma recent_append: "length ys \<ge> MAX_EVENTS_TO_SCAN \<Longrightarrow> recent (xs @ ys) = recent ys"
  by (simp add: recent_def)

lemma length_recent: "length (recent es) \<le> MAX_EVENTS_TO_SCAN"
  by (simp add: recent_def)

lemma length_after_last_user: "length (after_last_user es) \<le> length es"
  by (simp add: after_last_user.simps split: option.splits)

text \<open>Equal latest events, as a predicate on the log.\<close>

definition all_equal :: "event list \<Rightarrow> bool" where
  "all_equal xs \<longleftrightarrow> list_all (event_eq (xs ! 0)) xs"

definition enough :: "(event \<Rightarrow> bool) \<Rightarrow> nat \<Rightarrow> event list \<Rightarrow> bool" where
  "enough p n es \<longleftrightarrow> length (filter p es) \<ge> n"

lemma stuck_action_observation_eq:
  "1 \<le> t \<Longrightarrow> t \<le> n \<Longrightarrow>
     stuck_action_observation t (latest is_action n es) (latest is_observation n es) \<longleftrightarrow>
       enough is_action t es \<and> enough is_observation t es \<and>
       all_equal (latest is_action t es) \<and> all_equal (latest is_observation t es)"
  by (auto simp: stuck_action_observation_def enough_def all_equal_def length_latest take_latest
      nth_latest [of t n 0])

lemma stuck_action_error_eq:
  "1 \<le> t \<Longrightarrow> t \<le> n \<Longrightarrow>
     stuck_action_error t (latest is_action n es) (latest is_observation n es) \<longleftrightarrow>
       enough is_action t es \<and> enough is_observation t es \<and>
       all_equal (latest is_action t es) \<and> list_all is_agent_error (latest is_observation t es)"
  by (auto simp: stuck_action_error_def enough_def all_equal_def length_latest take_latest
      nth_latest [of t n 0])

lemma stuck_alternating_eq:
  "stuck_alternating t es \<longleftrightarrow>
     enough is_action t es \<and> enough is_result_or_error t es \<and>
     alternates t (latest is_action t es) \<and> alternates t (latest is_result_or_error t es)"
  by (auto simp: stuck_alternating_def collect_result_or_error enough_def length_latest Let_def)

lemma monologue_count_le: "monologue_count es \<le> length es"
  by (induction es rule: monologue_count.induct) auto

text \<open>The whole detector over its window.\<close>

lemma is_stuck_eq:
  assumes "thresholds_valid th"
  defines "w es \<equiv> after_last_user (recent es)"
  shows "is_stuck th es \<longleftrightarrow>
     length (w es) \<ge> min (min (th_action_observation th) (th_action_error th)) (th_monologue th) \<and>
     ((let t = th_action_observation th
       in enough is_action t (w es) \<and> enough is_observation t (w es) \<and>
          all_equal (latest is_action t (w es)) \<and> all_equal (latest is_observation t (w es))) \<or>
      (let t = th_action_error th
       in enough is_action t (w es) \<and> enough is_observation t (w es) \<and>
          all_equal (latest is_action t (w es)) \<and>
          list_all is_agent_error (latest is_observation t (w es))) \<or>
      monologue_count (rev (w es)) \<ge> th_monologue th \<or>
      (let t = th_alternating_pattern th
       in enough is_action t (w es) \<and> enough is_result_or_error t (w es) \<and>
          alternates t (latest is_action t (w es)) \<and>
          alternates t (latest is_result_or_error t (w es))))"
proof -
  have t: "1 \<le> th_action_observation th" "1 \<le> th_action_error th"
    using assms(1) by (simp_all add: thresholds_valid_def)
  have m: "stuck_monologue (th_monologue th) es \<longleftrightarrow> monologue_count (rev es) \<ge> th_monologue th" for es
    using monologue_count_le [of "rev es"] by (auto simp: stuck_monologue_def)
  have len: "length (filter p es) \<le> length es" for p and es :: "event list"
    by (rule length_filter_le)
  have a: "stuck_alternating n es \<Longrightarrow> n \<le> length es" for n es
    using len [of is_action es] by (auto simp: stuck_alternating_eq enough_def intro: order_trans)
  have chain: "(if \<not> q then False else if a then True else if b then True else if c then True
      else if l then True else if l' \<and> False then True else False) \<longleftrightarrow> q \<and> (a \<or> b \<or> c \<or> l)"
    for q a b c l l' by simp
  have al: "n \<le> length es \<and> stuck_alternating n es \<longleftrightarrow> stuck_alternating n es" for n es
    using a by blast
  show ?thesis
    unfolding is_stuck_def Let_def collect_observation prod.case
      stuck_action_observation_eq [OF t(1) max.cobounded1]
      stuck_action_error_eq [OF t(2) max.cobounded2] m w_def [symmetric]
      stuck_context_window_error_def al not_le [symmetric] chain
    unfolding stuck_alternating_eq ..
qed

section \<open>Windows\<close>

lemma find_index_append_hit: "p b \<Longrightarrow> find_index p (as @ b # cs) = find_index p (as @ [b])"
  by (induction as) auto

lemma find_index_append_le: "p b \<Longrightarrow> \<exists>k \<le> length as. find_index p (as @ [b]) = Some k"
  by (induction as) auto

lemma after_last_user_prefix:
  assumes "is_user_message u"
  shows "after_last_user (xs @ u # ys) = after_last_user (u # ys)"
proof -
  obtain k where k: "k \<le> length ys" "find_index is_user_message (rev ys @ [u]) = Some k"
    using find_index_append_le [of is_user_message u "rev ys"] assms by auto
  then have "find_index is_user_message (rev (xs @ u # ys)) = Some k"
    using find_index_append_hit [of is_user_message u "rev ys" "rev xs"] assms by simp
  with k show ?thesis by (simp add: after_last_user.simps Suc_diff_le)
qed

lemma is_stuck_after_user:
  assumes "is_user_message u"
  shows "is_stuck th (xs @ u # ys) = is_stuck th (u # ys)"
proof -
  have "after_last_user (recent (xs @ u # ys)) = after_last_user (recent (u # ys))"
  proof (cases "length ys \<ge> MAX_EVENTS_TO_SCAN")
    case True
    then show ?thesis
      using recent_append [of ys "xs @ [u]"] recent_append [of ys "[u]"] by simp
  next
    case False
    then have "recent (xs @ u # ys) = drop (length (xs @ u # ys) - MAX_EVENTS_TO_SCAN) xs @ u # ys"
      "recent (u # ys) = u # ys"
      by (simp_all add: recent_def)
    with after_last_user_prefix [OF assms] show ?thesis by metis
  qed
  then show ?thesis by (simp only: is_stuck_def)
qed

lemma after_last_user_suffix:
  assumes "\<forall>e \<in> set ys. \<not> is_user_message e"
  shows "\<exists>zs. after_last_user (xs @ ys) = zs @ ys"
proof (cases "find_index is_user_message (rev xs)")
  case None
  then have "\<forall>e \<in> set (xs @ ys). \<not> is_user_message e"
    using assms by (auto simp: find_index_None_iff)
  then show ?thesis by (simp only: after_last_user_none) blast
next
  case (Some k)
  have "find_index is_user_message (rev ys @ zs) = map_option ((+) (length ys)) (find_index is_user_message zs)" for zs
    using assms by (cases "find_index is_user_message zs"; induction ys rule: rev_induct) simp_all
  with Some have "find_index is_user_message (rev (xs @ ys)) = Some (length ys + k)" by simp
  then have "after_last_user (xs @ ys) = drop (length xs - k) xs @ ys"
    by (simp add: after_last_user.simps)
  then show ?thesis by blast
qed

text \<open>The actions and the observations of a window of twenty events share its places.\<close>

lemma filter_classes_le:
  "length (filter is_action es) + length (filter is_observation es) \<le> length es"
proof (induction es)
  case (Cons e es)
  then show ?case by (cases e) auto
qed simp

lemma filter_result_le: "length (filter is_result_or_error es) \<le> length (filter is_observation es)"
proof (induction es)
  case (Cons e es)
  then show ?case by (cases e) auto
qed simp

text \<open>A run of action/observation pairs.\<close>

definition pair_events :: "(event \<times> event) list \<Rightarrow> event list" where
  "pair_events ps = concat (map (\<lambda>(a, ob). [a, ob]) ps)"

lemma pair_events_simps [simp]:
  "pair_events [] = []" "pair_events ((a, ob) # ps) = a # ob # pair_events ps"
  "pair_events (ps @ qs) = pair_events ps @ pair_events qs"
  by (simp_all add: pair_events_def)

lemma pair_events_filter:
  assumes "\<forall>(a, ob) \<in> set ps. is_action a \<and> is_observation ob"
  shows "filter is_action (pair_events ps) = map fst ps"
    and "filter is_observation (pair_events ps) = map snd ps"
    and "length (pair_events ps) = 2 * length ps"
    and "\<forall>e \<in> set (pair_events ps). \<not> is_user_message e"
proof -
  have no: "is_action e \<Longrightarrow> \<not> is_observation e \<and> \<not> is_user_message e"
    "is_observation e \<Longrightarrow> \<not> is_action e \<and> \<not> is_user_message e" for e
    by (cases e; simp)+
  have "\<forall>(a, ob) \<in> set ps. is_action a \<and> \<not> is_observation a \<and> \<not> is_user_message a \<and>
      \<not> is_action ob \<and> is_observation ob \<and> \<not> is_user_message ob"
    using assms no by fastforce
  then show "filter is_action (pair_events ps) = map fst ps"
    "filter is_observation (pair_events ps) = map snd ps"
    "length (pair_events ps) = 2 * length ps"
    "\<forall>e \<in> set (pair_events ps). \<not> is_user_message e"
    by (induction ps; force)+
qed

lemma repeated_pairs_stuck:
  assumes th: "thresholds_valid th" and n: "length ps = th_action_observation th" "th_action_observation th \<le> 10"
    and ps: "\<forall>(a, ob) \<in> set ps. is_action a \<and> is_observation ob"
    and eq: "\<forall>p \<in> set ps. \<forall>q \<in> set ps. event_eq (fst p) (fst q) \<and> event_eq (snd p) (snd q)"
  shows "is_stuck th (xs @ pair_events ps)"
proof -
  let ?n = "th_action_observation th"
  note f = pair_events_filter [OF ps]
  have pos: "1 \<le> ?n" using th by (simp add: thresholds_valid_def)
  have "recent (xs @ pair_events ps) = drop (length (xs @ pair_events ps) - 20) xs @ pair_events ps"
    using f(3) n by (simp add: recent_def MAX_EVENTS_TO_SCAN_def)
  then obtain zs where w: "after_last_user (recent (xs @ pair_events ps)) = zs @ pair_events ps"
    using after_last_user_suffix [OF f(4)] by metis
  have l: "latest is_action ?n (zs @ pair_events ps) = rev (map fst ps)"
    "latest is_observation ?n (zs @ pair_events ps) = rev (map snd ps)"
    using n(1) f(1,2) by (simp_all add: latest_def flip: rev_filter)
  have "ps \<noteq> []" using pos n(1) by auto
  then have nth: "rev (map g ps) ! 0 = g (last ps)" for g :: "event \<times> event \<Rightarrow> event"
    by (simp add: hd_conv_nth [symmetric] hd_rev last_map)
  have "all_equal (rev (map fst ps))" "all_equal (rev (map snd ps))"
    using eq \<open>ps \<noteq> []\<close> unfolding all_equal_def nth by (auto simp: list_all_iff)
  moreover have "enough is_action ?n (zs @ pair_events ps)" "enough is_observation ?n (zs @ pair_events ps)"
    using f(1,2) n(1) by (simp_all add: enough_def)
  moreover have "min (min ?n (th_action_error th)) (th_monologue th) \<le> length (zs @ pair_events ps)"
    using f(3) n(1) by simp
  ultimately show ?thesis
    unfolding is_stuck_eq [OF th] w Let_def l by blast
qed

section \<open>Properties\<close>

text \<open>
  A user message resets the detector. Nothing before the last user message counts, so a log
  that ends with one is never stuck.
\<close>

theorem user_message_resets:
  assumes "is_user_message u"
  shows "is_stuck th (xs @ u # ys) = is_stuck th (u # ys) \<and>
     (thresholds_valid th \<and> is_stuck th (xs @ [u])) = False"
proof -
  have "after_last_user (recent [u]) = []"
    using after_last_user_append [of u "[]" "[]"] assms by (simp add: recent_def MAX_EVENTS_TO_SCAN_def)
  then have "\<not> is_stuck th [u]" if "thresholds_valid th"
    using that by (simp add: is_stuck_eq) (simp add: thresholds_valid_def)
  with is_stuck_after_user [OF assms] show ?thesis by blast
qed

theorem user_message_resets_witness:
  "\<not> is_stuck default_thresholds ([sample_message ''a'' SrcAgent, sample_message ''b'' SrcAgent,
      sample_message ''c'' SrcAgent] @ [sample_message ''u'' SrcUser])"
proof -
  have "is_user_message (sample_message ''u'' SrcUser)" "thresholds_valid default_thresholds"
    by (simp_all add: sample_message_def thresholds_valid_def default_thresholds_def)
  with user_message_resets show ?thesis by blast
qed

text \<open>
  C8: As many action/observation pairs in a row as the threshold says, with actions equal up to
  ids and observations equal up to ids, are a stuck agent, whatever came before, for every
  threshold of at most ten pairs.
\<close>

theorem repetition_is_detected:
  assumes "thresholds_valid th" and "length pairs = th_action_observation th"
    and "th_action_observation th \<le> 10"
    and "\<forall>(a, ob) \<in> set pairs. is_action a \<and> is_observation ob"
    and "\<forall>p \<in> set pairs. \<forall>q \<in> set pairs. event_eq (fst p) (fst q) \<and> event_eq (snd p) (snd q)"
  shows "is_stuck th (log @ pair_events pairs)"
  by (rule repeated_pairs_stuck [OF assms])

theorem repetition_is_detected_witness:
  "is_stuck default_thresholds ([sample_message ''u'' SrcUser] @ pair_events
     (map (\<lambda>n. (sample_action (show_nat n) (show_nat n) (show_nat n),
                sample_observation (''o'' @ show_nat n) (show_nat n) (show_nat n))) [0..<4]))"
  by (rule repetition_is_detected)
    (auto simp: thresholds_valid_def default_thresholds_def sample_defs)

text \<open>
  The scan window bounds what can be detected. With action thresholds above ten, an
  alternation threshold above ten and a monologue threshold above twenty, values the field
  constraints allow, no log is ever stuck.
\<close>

theorem large_thresholds_never_fire:
  assumes "th_action_observation th > 10" and "th_action_error th > 10"
    and "th_alternating_pattern th > 10" and "th_monologue th > 20"
  shows "\<not> is_stuck th events"
proof -
  have v: "thresholds_valid th" using assms by (simp add: thresholds_valid_def)
  let ?w = "after_last_user (recent events)"
  have w: "length ?w \<le> 20"
    using length_after_last_user [of "recent events"] length_recent [of events]
    by (simp add: MAX_EVENTS_TO_SCAN_def)
  have "\<not> (enough is_action n ?w \<and> enough is_observation n ?w)" if "n > 10" for n
    using that w filter_classes_le [of ?w] by (auto simp: enough_def)
  moreover have "enough is_result_or_error n ?w \<Longrightarrow> enough is_observation n ?w" for n
    using filter_result_le [of ?w] by (simp add: enough_def)
  moreover have "monologue_count (rev ?w) < th_monologue th"
    using monologue_count_le [of "rev ?w"] w assms(4) by simp
  ultimately show ?thesis
    using assms(1-3) unfolding is_stuck_eq [OF v] Let_def by (meson not_le)
qed

theorem large_thresholds_never_fire_witness:
  "\<not> is_stuck \<lparr>th_action_observation = 11, th_action_error = 11, th_monologue = 21,
      th_alternating_pattern = 11\<rparr>
     (concat (replicate 50 [sample_action ''a'' ''c'' ''r'', sample_observation ''o'' ''a'' ''c'']))"
  by (rule large_thresholds_never_fire) simp_all

end
