(* ===== verification/Conversation_Run.thy ===== *)
theory Conversation_Run
  imports Agent_Step Stuck
begin

text \<open>
  The conversation (\<open>sdk/conversation/impl/local_conversation.py\<close>): initialization, messages of the user, the run loop with its stop hooks,
  stuck detection and iteration limit, pausing, rejecting and interrupting, forking, manual
  condensation and rerunning. What other threads do while the lock is free, between two passes of
  the loop, is a parameter. The lemmas bound the passes of the loop and its final status and show
  what becomes of pending actions.
\<close>

section \<open>The conversation's environment\<close>

text \<open>
  \<open>re_static\<close> and \<open>re_dynamic\<close> are the two blocks of the system message, \<open>re_stop_hook\<close> the stop
  hook (whether to stop, and its feedback), \<open>re_suffix\<close> the augmentation of a user message with
  the skills it activates, \<open>re_describe\<close> the class and the text of an exception, \<open>re_others n\<close> what
  other threads do before the n-th pass.
\<close>

record ('s, 'x) run_env =
  re_agent :: "('s, 'x) agent_env"
  re_acp :: bool
  re_static :: string
  re_dynamic :: "('s, 'x) world \<Rightarrow> string option"
  re_thresholds :: "thresholds option"
  re_stop_hook :: "('x \<Rightarrow> 'x \<times> bool \<times> string option) option"
  re_max_iterations :: nat
  re_suffix :: "message \<Rightarrow> string list \<Rightarrow> (content \<times> string list) option"
  re_describe :: "step_error \<Rightarrow> string \<times> string"
  re_has_executor :: "string \<Rightarrow> bool"
  re_others :: "nat \<Rightarrow> ('s, 'x) world \<Rightarrow> ('s, 'x) world"

definition status_of :: "('s, 'x) world \<Rightarrow> execution_status" where
  "status_of w = cf_execution_status (fields_of w)"

text \<open>\<open>with self._state:\<close>; the save on leaving may raise.\<close>

definition with_state :: "('s, 'x) agent_env \<Rightarrow> (('s, 'x) world, 'a) prog \<Rightarrow> (('s, 'x) world, 'a) prog" where
  "with_state av p w =
     (case p (w\<lparr>w_state := enter_state (w_state w)\<rparr>) of
        (w1, r) \<Rightarrow>
          (case exit_state (av_persist av) (w_state w1) of
             (st, None) \<Rightarrow> (w1\<lparr>w_state := st\<rparr>, r)
           | (st, Some e) \<Rightarrow> (w1\<lparr>w_state := st\<rparr>, Inl (StateError e))))"

text \<open>\<open>_ensure_agent_ready\<close>; \<open>ready\<close> is the flag, plugins and registries are left out.\<close>

definition ensure_agent_ready :: "('s, 'x) run_env \<Rightarrow> bool \<Rightarrow> (('s, 'x) world, unit) prog" where
  "ensure_agent_ready re ready =
     (if ready then return_st ()
      else with_state (re_agent re) (\<lambda>w. init_state (re_agent re) (re_static re) (re_dynamic re w) w))"

section \<open>Messages of the user\<close>

definition user_message_event ::
    "string \<Rightarrow> message \<Rightarrow> string list \<Rightarrow> content list \<Rightarrow> string option \<Rightarrow> event" where
  "user_message_event i msg names extended sender =
     MessageEvent \<lparr>me_id = i, me_source = SrcUser, me_llm_message = msg, me_llm_response_id = None,
       me_activated_skills = names, me_extended_content = extended, me_sender = sender, me_critic_result = None\<rparr>"

text \<open>The activated skills are extended in place, which is no assignment and saves nothing.\<close>

definition augment :: "('s, 'x) run_env \<Rightarrow> message \<Rightarrow> (('s, 'x) world, string list \<times> content list) prog" where
  "augment re msg w =
     (case re_suffix re msg (cf_activated_knowledge_skills (fields_of w)) of
        None \<Rightarrow> (w, Inr ([], []))
      | Some (c, names) \<Rightarrow>
          (w\<lparr>w_state := (w_state w)\<lparr>cs_fields := (fields_of w)
               \<lparr>cf_activated_knowledge_skills := cf_activated_knowledge_skills (fields_of w) @ names\<rparr>\<rparr>\<rparr>,
           Inr (names, [c])))"

definition send_message ::
    "('s, 'x) run_env \<Rightarrow> bool \<Rightarrow> message \<Rightarrow> string option \<Rightarrow> (('s, 'x) world, unit) prog" where
  "send_message re ready msg sender =
     (let av = re_agent re
      in bind_st (if re_acp re then return_st () else ensure_agent_ready re ready) (\<lambda>_.
           if m_role msg \<noteq> RUser then raise_st (PyError ''AssertionError'' ''Only user messages are allowed to be sent to the agent.'')
           else with_state av
             (bind_st (\<lambda>w. if status_of w \<in> {FINISHED, STUCK} then set_status av IDLE w else (w, Inr ())) (\<lambda>_.
                bind_st (augment re msg) (\<lambda>(names, extended).
                  emit av (\<lambda>i. user_message_event i msg names extended sender))))))"

section \<open>The run loop\<close>

definition feedback_event :: "string \<Rightarrow> string \<Rightarrow> event" where
  "feedback_event i feedback =
     MessageEvent \<lparr>me_id = i, me_source = SrcEnvironment,
       me_llm_message = new_message RUser [text_content (''[Stop hook feedback] '' @ feedback)],
       me_llm_response_id = None, me_activated_skills = [], me_extended_content = [], me_sender = None,
       me_critic_result = None\<rparr>"

text \<open>On \<open>FINISHED\<close>: whether the loop stops; a denied stop sets the status back to running.\<close>

definition check_stop :: "('s, 'x) run_env \<Rightarrow> (('s, 'x) world, bool) prog" where
  "check_stop re w =
     (case re_stop_hook re of
        None \<Rightarrow> (w, Inr True)
      | Some hook \<Rightarrow>
          (case hook (w_ext w) of
             (x, should_stop, feedback) \<Rightarrow>
               (if should_stop then (w\<lparr>w_ext := x\<rparr>, Inr True)
                else
                  bind_st (case feedback of
                      Some fb \<Rightarrow> if fb \<noteq> [] then emit (re_agent re) (\<lambda>i. feedback_event i fb) else return_st ()
                    | None \<Rightarrow> return_st ())
                  (\<lambda>_. bind_st (set_status (re_agent re) RUNNING) (\<lambda>_. return_st False)) (w\<lparr>w_ext := x\<rparr>))))"

definition error_msg :: "nat \<Rightarrow> string" where
  "error_msg n = ''Agent reached maximum iterations limit ('' @ show_nat n @ '').''"

definition reach_limit :: "('s, 'x) run_env \<Rightarrow> (('s, 'x) world, unit) prog" where
  "reach_limit re =
     bind_st (set_status (re_agent re) ERROR) (\<lambda>_.
       emit (re_agent re) (\<lambda>i. ConversationErrorEvent i SrcEnvironment ''MaxIterationsReached''
         (error_msg (re_max_iterations re))))"

text \<open>The part of a pass from the step on; the result is whether to go on and the iterations so far.\<close>

definition run_step :: "('s, 'x) run_env \<Rightarrow> nat \<Rightarrow> (('s, 'x) world, bool \<times> nat) prog" where
  "run_step re iteration =
     (let av = re_agent re
      in bind_st (\<lambda>w. if status_of w = WAITING_FOR_CONFIRMATION then set_status av RUNNING w else (w, Inr ())) (\<lambda>_.
           bind_st (agent_step av) (\<lambda>_ w.
             (let iteration' = iteration + 1
              in if status_of w = WAITING_FOR_CONFIRMATION then (w, Inr (False, iteration'))
                 else if iteration' \<ge> re_max_iterations re then
                   (if status_of w = FINISHED then (w, Inr (False, iteration'))
                    else bind_st (reach_limit re) (\<lambda>_. return_st (False, iteration')) w)
                 else (w, Inr (True, iteration'))))))"

definition run_pass :: "('s, 'x) run_env \<Rightarrow> nat \<Rightarrow> (('s, 'x) world, bool \<times> nat) prog" where
  "run_pass re iteration =
     (let av = re_agent re
      in with_state av (\<lambda>w.
           if status_of w \<in> {PAUSED, STUCK} then (w, Inr (False, iteration))
           else if status_of w = FINISHED then
             bind_st (check_stop re) (\<lambda>stop. return_st (\<not> stop, iteration)) w
           else if (case re_thresholds re of None \<Rightarrow> False | Some th \<Rightarrow> is_stuck th (events_of w))
           then bind_st (set_status av STUCK) (\<lambda>_. return_st (True, iteration)) w
           else run_step re iteration w))"

text \<open>The loop, with fuel for its passes; \<open>None\<close> is a loop that is still going.\<close>

fun run_loop ::
    "('s, 'x) run_env \<Rightarrow> nat \<Rightarrow> nat \<Rightarrow> nat \<Rightarrow> ('s, 'x) world
       \<Rightarrow> (('s, 'x) world \<times> (step_error, nat) result) option" where
  "run_loop re 0 n iteration w = None"
| "run_loop re (Suc fuel) n iteration w =
     (case run_pass re iteration (re_others re n w) of
        (w1, Inl e) \<Rightarrow> Some (w1, Inl e)
      | (w1, Inr (goes_on, iteration')) \<Rightarrow>
          if goes_on then run_loop re fuel (n + 1) iteration' w1 else Some (w1, Inr iteration'))"

datatype run_error = Raised step_error | ConversationRunError step_error

definition start_running :: "('s, 'x) run_env \<Rightarrow> (('s, 'x) world, unit) prog" where
  "start_running re =
     with_state (re_agent re) (\<lambda>w.
       if status_of w \<in> {IDLE, PAUSED, ERROR, STUCK} then set_status (re_agent re) RUNNING w else (w, Inr ()))"

definition record_error :: "('s, 'x) run_env \<Rightarrow> step_error \<Rightarrow> (('s, 'x) world, unit) prog" where
  "record_error re e =
     with_state (re_agent re)
       (bind_st (set_status (re_agent re) ERROR) (\<lambda>_.
          emit (re_agent re) (\<lambda>i. ConversationErrorEvent i SrcEnvironment
            (fst (re_describe re e)) (snd (re_describe re e)))))"

definition run ::
    "('s, 'x) run_env \<Rightarrow> nat \<Rightarrow> bool \<Rightarrow> ('s, 'x) world \<Rightarrow> (('s, 'x) world \<times> (run_error, unit) result) option" where
  "run re fuel ready w =
     (case bind_st (ensure_agent_ready re ready) (\<lambda>_. start_running re) w of
        (w1, Inl e) \<Rightarrow> Some (w1, Inl (Raised e))
      | (w1, Inr _) \<Rightarrow>
          (case run_loop re fuel 0 0 w1 of
             None \<Rightarrow> None
           | Some (w2, Inr _) \<Rightarrow> Some (w2, Inr ())
           | Some (w2, Inl e) \<Rightarrow>
               (case record_error re e w2 of
                  (w3, Inl e') \<Rightarrow> Some (w3, Inl (Raised e'))
                | (w3, Inr _) \<Rightarrow> Some (w3, Inl (ConversationRunError e)))))"

section \<open>Between runs\<close>

definition set_confirmation_policy :: "('s, 'x) agent_env \<Rightarrow> confirmation_policy \<Rightarrow> (('s, 'x) world, unit) prog" where
  "set_confirmation_policy av p =
     with_state av (set_field av ''confirmation_policy'' (\<lambda>f. f\<lparr>cf_confirmation_policy := p\<rparr>))"

definition set_security_analyzer :: "('s, 'x) agent_env \<Rightarrow> string option \<Rightarrow> (('s, 'x) world, unit) prog" where
  "set_security_analyzer av a =
     with_state av (set_field av ''security_analyzer'' (\<lambda>f. f\<lparr>cf_security_analyzer := a\<rparr>))"

definition reject_pending_actions :: "('s, 'x) agent_env \<Rightarrow> string \<Rightarrow> (('s, 'x) world, unit) prog" where
  "reject_pending_actions av reason w =
     (let pending = get_unmatched_actions (events_of w)
      in with_state av
           (bind_st (\<lambda>w. if status_of w = WAITING_FOR_CONFIRMATION then set_status av IDLE w else (w, Inr ())) (\<lambda>_.
              for_each (\<lambda>ae. emit av (\<lambda>i. reject_event i ae reason RejectedByUser)) pending)) w)"

definition emit_orphaned_action_errors :: "('s, 'x) agent_env \<Rightarrow> (('s, 'x) world, unit) prog" where
  "emit_orphaned_action_errors av w =
     for_each (\<lambda>ae. emit av (\<lambda>i. error_event i
         ''Tool call interrupted before completion. The conversation was paused.''
         (ae_tool_name ae) (ae_tool_call_id ae)))
       (get_unmatched_actions (events_of w)) w"

text \<open>The handler of a cancelled \<open>arun\<close>.\<close>

definition handle_cancelled :: "('s, 'x) agent_env \<Rightarrow> (('s, 'x) world, unit) prog" where
  "handle_cancelled av =
     with_state av
       (bind_st (emit_orphaned_action_errors av) (\<lambda>_.
          bind_st (set_status av PAUSED) (\<lambda>_. emit av (\<lambda>i. InterruptEvent i SrcUser))))"

definition pause :: "('s, 'x) agent_env \<Rightarrow> (('s, 'x) world, unit) prog" where
  "pause av w =
     (if status_of w = PAUSED then (w, Inr ())
      else with_state av (\<lambda>w.
        if status_of w = IDLE \<or> status_of w = RUNNING
        then bind_st (set_status av PAUSED) (\<lambda>_. emit av (\<lambda>i. PauseEvent i SrcUser)) w
        else (w, Inr ())) w)"

text \<open>\<open>condense\<close>: the request is emitted before the lock is taken.\<close>

definition condense_conversation :: "('s, 'x) agent_env \<Rightarrow> (('s, 'x) world, unit) prog" where
  "condense_conversation av =
     (if \<not> can_condense av then raise_st (PyError ''ValueError'' ''Cannot condense conversation'')
      else bind_st (emit av (\<lambda>i. CondensationRequest i SrcEnvironment)) (\<lambda>_. with_state av (agent_step av)))"

text \<open>
  \<open>fork\<close>: a new state in a fresh directory \<open>dir\<close>, the events, and the fields that are copied. Tags
  and statistics are entries of \<open>cf_other\<close>.
\<close>

definition fork_copies ::
    "conv_fields \<Rightarrow> string option \<Rightarrow> dict \<Rightarrow> bool \<Rightarrow> (string \<times> (conv_fields \<Rightarrow> conv_fields)) list" where
  "fork_copies src title tags reset_metrics =
     [(''activated_knowledge_skills'', \<lambda>f. f\<lparr>cf_activated_knowledge_skills := cf_activated_knowledge_skills src\<rparr>),
      (''agent_state'', \<lambda>f. f\<lparr>cf_agent_state := cf_agent_state src\<rparr>)] @
     (case title of
        Some t \<Rightarrow> [(''tags'', \<lambda>f. f\<lparr>cf_other := set_key ''tags'' (JObj (set_key ''title'' (JStr t) tags)) (cf_other f)\<rparr>)]
      | None \<Rightarrow> []) @
     (if reset_metrics then []
      else [(''stats'', \<lambda>f. f\<lparr>cf_other := set_key ''stats''
               (case map_of (cf_other src) ''stats'' of Some s \<Rightarrow> s | None \<Rightarrow> JNull) (cf_other f)\<rparr>)])"

definition fork ::
    "('s, 'x) run_env \<Rightarrow> string \<Rightarrow> string option \<Rightarrow> string option \<Rightarrow> string option \<Rightarrow> dict \<Rightarrow> bool
       \<Rightarrow> ('s, 'x) world \<Rightarrow> (step_error, 's conv_state) result" where
  "fork re fork_id agent dir title tags reset_metrics w =
     (let env = av_persist (re_agent re); src = fields_of w
      in case create_state env (\<lambda>_ _ _. True) None [] fork_id
                (case agent of Some a \<Rightarrow> a | None \<Rightarrow> cf_agent src) (cf_workspace src) dir
                (re_max_iterations re) (re_thresholds re \<noteq> None) of
           Inl e \<Rightarrow> Inl (StateError e)
         | Inr st \<Rightarrow>
             (case set_all env (fork_copies src title tags reset_metrics)
                 (st\<lparr>cs_fields := (cs_fields st)\<lparr>cf_other := set_key ''tags'' (JObj tags) (cf_other (cs_fields st))\<rparr>,
                     cs_events := events_of w\<rparr>) of
                (st', None) \<Rightarrow> Inr st'
              | (st', Some e) \<Rightarrow> Inl (StateError e)))"

section \<open>Running tools again\<close>

text \<open>The result is whether all actions ran, with the events of the rerun log.\<close>

fun rerun_loop ::
    "('s, 'x) run_env \<Rightarrow> event list \<Rightarrow> event list \<Rightarrow> (('s, 'x) world, bool \<times> event list) prog" where
  "rerun_loop re [] acc w = (w, Inr (True, acc))"
| "rerun_loop re (e # es) acc w =
     (case e of
        ActionEvent ae \<Rightarrow>
          (if ae_action ae = None then rerun_loop re es acc w
           else
             case map_of (av_tools (re_agent re)) (ae_tool_name ae) of
               None \<Rightarrow> (w, Inl (PyError ''KeyError'' (''Tool '' @ quoted (ae_tool_name ae) @ '' not found during rerun.'')))
             | Some td \<Rightarrow>
                 if \<not> re_has_executor re (ae_tool_name ae) then rerun_loop re es acc w
                 else
                   (case td_execute td (ae_action ae) (w_ext w) of
                      (x, Inl _) \<Rightarrow> (w\<lparr>w_ext := x\<rparr>, Inr (False, acc))
                    | (x, Inr ob) \<Rightarrow>
                        rerun_loop re es
                          (acc @ [e, ObservationEvent \<lparr>oe_id = av_fresh (re_agent re) (w_ids w),
                             oe_source = SrcEnvironment, oe_tool_name = ae_tool_name ae,
                             oe_tool_call_id = ae_tool_call_id ae, oe_observation = ob, oe_action_id = ae_id ae\<rparr>])
                          (w\<lparr>w_ext := x, w_ids := w_ids w + 1\<rparr>)))
      | _ \<Rightarrow> rerun_loop re es acc w)"

definition rerun_actions :: "('s, 'x) run_env \<Rightarrow> bool \<Rightarrow> (('s, 'x) world, bool \<times> event list) prog" where
  "rerun_actions re ready =
     bind_st (ensure_agent_ready re ready) (\<lambda>_ w. rerun_loop re (events_of w) [] w)"

definition execute_tool ::
    "('s, 'x) run_env \<Rightarrow> bool \<Rightarrow> string \<Rightarrow> action \<Rightarrow> (('s, 'x) world, observation) prog" where
  "execute_tool re ready tool_name act =
     bind_st (ensure_agent_ready re ready) (\<lambda>_ w.
       case map_of (av_tools (re_agent re)) tool_name of
         None \<Rightarrow> (w, Inl (PyError ''KeyError'' (''Tool '' @ quoted tool_name @ '' not found.'')))
       | Some td \<Rightarrow>
           if \<not> re_has_executor re tool_name
           then (w, Inl (PyError ''NotImplementedError'' (''Tool '' @ quoted tool_name @ '' has no executor'')))
           else
             (case td_execute td (Some act) (w_ext w) of
                (x, Inr ob) \<Rightarrow> (w\<lparr>w_ext := x\<rparr>, Inr ob)
              | (x, Inl (ToolValueError m)) \<Rightarrow> (w\<lparr>w_ext := x\<rparr>, Inl (PyError ''ValueError'' m))
              | (x, Inl (ToolException m)) \<Rightarrow> (w\<lparr>w_ext := x\<rparr>, Inl (PyError ''Exception'' m))))"

section \<open>Blocks\<close>

lemma exit_state_frame:
  "exit_state env st = (st', r) \<Longrightarrow> cs_fields st' = cs_fields st \<and> cs_events st' = cs_events st"
  by (auto simp: exit_state_def save_base_state_def Let_def split: if_splits prod.splits option.splits)

lemma with_state_iff:
  "with_state av p w = (w', Inr a) \<Longrightarrow>
     \<exists>w1. p (w\<lparr>w_state := enter_state (w_state w)\<rparr>) = (w1, Inr a) \<and> fields_of w' = fields_of w1 \<and>
       events_of w' = events_of w1 \<and> w_ext w' = w_ext w1 \<and> w_ids w' = w_ids w1"
  by (auto simp: with_state_def fields_of_def events_of_def dest!: exit_state_frame split: prod.splits option.splits)

lemma exit_state_returns: "\<forall>n. pe_write_ok env n \<Longrightarrow> \<exists>st'. exit_state env st = (st', None)"
  by (simp add: exit_state_def save_base_state_def Let_def)

lemma with_state_returns:
  assumes "writes_ok av" and "p (w\<lparr>w_state := enter_state (w_state w)\<rparr>) = (w1, Inr a)"
  shows "\<exists>w'. with_state av p w = (w', Inr a) \<and> fields_of w' = fields_of w1 \<and>
       events_of w' = events_of w1 \<and> w_ext w' = w_ext w1 \<and> w_ids w' = w_ids w1"
proof -
  obtain st where "exit_state (av_persist av) (w_state w1) = (st, None)"
    using assms(1) exit_state_returns unfolding writes_ok_def by blast
  with assms(2) exit_state_frame [OF this] show ?thesis
    by (simp add: with_state_def fields_of_def events_of_def)
qed

lemma entered_simps [simp]:
  "fields_of (w\<lparr>w_state := enter_state (w_state w)\<rparr>) = fields_of w"
  "events_of (w\<lparr>w_state := enter_state (w_state w)\<rparr>) = events_of w"
  "status_of (w\<lparr>w_state := enter_state (w_state w)\<rparr>) = status_of w"
  by (simp_all add: fields_of_def events_of_def enter_state_def status_of_def)

lemma set_status_iff:
  "set_status av s w = (w', Inr u) \<Longrightarrow> status_of w' = s \<and> events_of w' = events_of w \<and> w_ext w' = w_ext w"
  by (auto simp: set_status_def status_of_def dest!: set_field_iff)

lemma emit_iff:
  "emit av mk w = (w', Inr u) \<Longrightarrow> \<exists>i. events_of w' = events_of w @ [mk i] \<and> status_of w' = status_of w \<and> w_ext w' = w_ext w"
  by (auto simp: emit_def st_simps fresh_id_def status_of_def dest!: on_event_frame)

text \<open>A block whose program keeps the fields, the outside state and appends the given events.\<close>

lemma for_each_emit:
  assumes "\<And>a i. \<not> is_user_message (mk a i)"
  shows "\<exists>w' es. for_each (\<lambda>a. emit av (mk a)) as w = (w', Inr ()) \<and> events_of w' = events_of w @ es \<and>
     list_all2 (\<lambda>e a. \<exists>i. e = mk a i) es as \<and> fields_of w' = fields_of w \<and> w_ext w' = w_ext w"
proof (induction as arbitrary: w)
  case (Cons a as)
  let ?e = "mk a (av_fresh av (w_ids w))"
  let ?w = "append_log_event ?e (w\<lparr>w_ids := w_ids w + 1\<rparr>)"
  obtain w2 es where r: "for_each (\<lambda>a. emit av (mk a)) as ?w = (w2, Inr ())" "events_of w2 = events_of ?w @ es"
    "list_all2 (\<lambda>e a. \<exists>i. e = mk a i) es as" "fields_of w2 = fields_of ?w" "w_ext w2 = w_ext ?w"
    using Cons.IH [of ?w] by blast
  have "for_each (\<lambda>a. emit av (mk a)) (a # as) w = (w2, Inr ())"
    using r(1) assms by (simp add: bind_st_def emit_plain)
  moreover have "list_all2 (\<lambda>e a. \<exists>i. e = mk a i) (?e # es) (a # as)" using r(3) by auto
  ultimately show ?case using r(2,4,5) by (intro exI [of _ w2] exI [of _ "?e # es"]) simp
qed (simp add: return_st_def)

section \<open>The loop ends\<close>

text \<open>How far a status is from the end of the loop, when no step happens.\<close>

fun phase :: "execution_status \<Rightarrow> nat" where
  "phase PAUSED = 0"
| "phase STUCK = 0"
| "phase FINISHED = 2"
| "phase _ = 1"

definition iteration_bound :: "('s, 'x) run_env \<Rightarrow> nat" where
  "iteration_bound re = max 1 (re_max_iterations re)"

definition loop_measure :: "('s, 'x) run_env \<Rightarrow> nat \<Rightarrow> ('s, 'x) world \<Rightarrow> nat" where
  "loop_measure re iteration w = 2 * (iteration_bound re - iteration) + phase (status_of w)"

lemma phase_le_2: "phase s \<le> 2"
  by (cases s) simp_all

lemma phase_pos: "s \<notin> {PAUSED, STUCK, FINISHED} \<Longrightarrow> phase s = 1"
  by (cases s) simp_all

lemma check_stop_iff:
  "check_stop re w = (w', Inr stop) \<Longrightarrow> status_of w = FINISHED \<Longrightarrow>
     status_of w' = (if stop then FINISHED else RUNNING)"
  by (auto simp: check_stop_def st_simps status_of_def fields_of_def dest!: set_status_iff
      split: option.splits prod.splits if_splits)

text \<open>The statuses the loop can end with.\<close>

definition final_statuses :: "execution_status set" where
  "final_statuses = {PAUSED, STUCK, FINISHED, WAITING_FOR_CONFIRMATION, ERROR}"

lemma run_step_iff:
  assumes "run_step re it w = (w', Inr (goes_on, it'))" and "it < iteration_bound re"
  shows "it' = it + 1 \<and> (goes_on \<longrightarrow> it' < iteration_bound re) \<and> (\<not> goes_on \<longrightarrow> status_of w' \<in> final_statuses)"
  using assms
  by (auto simp: run_step_def Let_def st_simps reach_limit_def final_statuses_def iteration_bound_def
      dest!: set_status_iff emit_iff split: if_splits)

lemma run_pass_iff:
  assumes "run_pass re it w = (w', Inr (goes_on, it'))" and "it < iteration_bound re"
  shows "it' \<le> iteration_bound re \<and>
    (goes_on \<longrightarrow> it' < iteration_bound re \<and> loop_measure re it' w' < loop_measure re it w) \<and>
    (\<not> goes_on \<longrightarrow> status_of w' \<in> final_statuses)"
proof -
  let ?w = "w\<lparr>w_state := enter_state (w_state w)\<rparr>"
  obtain w1 where
    body: "(if status_of ?w \<in> {PAUSED, STUCK} then (?w, Inr (False, it))
       else if status_of ?w = FINISHED then bind_st (check_stop re) (\<lambda>stop. return_st (\<not> stop, it)) ?w
       else if (case re_thresholds re of None \<Rightarrow> False | Some th \<Rightarrow> is_stuck th (events_of ?w))
       then bind_st (set_status (re_agent re) STUCK) (\<lambda>_. return_st (True, it)) ?w
       else run_step re it ?w) = (w1, Inr (goes_on, it'))"
    and s1: "status_of w' = status_of w1"
    using with_state_iff [OF assms(1) [unfolded run_pass_def Let_def]] by (auto simp: status_of_def)
  note s = entered_simps(3) [of w]
  consider (ended) "status_of w \<in> {PAUSED, STUCK}" | (finished) "status_of w = FINISHED"
    | (live) "status_of w \<notin> {PAUSED, STUCK, FINISHED}" by auto
  then show ?thesis
  proof cases
    case ended
    with body s s1 assms(2) show ?thesis by (auto simp: final_statuses_def)
  next
    case finished
    then obtain stop where c: "check_stop re ?w = (w1, Inr stop)" and r: "goes_on = (\<not> stop)" "it' = it"
      using body s by (auto simp: st_simps)
    from check_stop_iff [OF c] finished s s1 r assms(2) show ?thesis
      by (auto simp: loop_measure_def final_statuses_def split: if_splits)
  next
    case live
    show ?thesis
    proof (cases "case re_thresholds re of None \<Rightarrow> False | Some th \<Rightarrow> is_stuck th (events_of ?w)")
      case True
      then have "set_status (re_agent re) STUCK ?w = (w1, Inr ())" "goes_on" "it' = it"
        using body live s by (auto simp: st_simps)
      with set_status_iff [OF this(1)] s1 assms(2) live phase_pos [of "status_of w"] show ?thesis
        by (simp add: loop_measure_def)
    next
      case False
      then have "run_step re it ?w = (w1, Inr (goes_on, it'))" using body live s by auto
      from run_step_iff [OF this assms(2)] s1 assms(2) live phase_pos [of "status_of w"] phase_le_2 [of "status_of w1"]
      show ?thesis by (auto simp: loop_measure_def)
    qed
  qed
qed

lemma loop_measure_le: "loop_measure re it w \<le> 2 * iteration_bound re + 2"
  unfolding loop_measure_def using phase_le_2 [of "status_of w"] by (intro add_mono) auto

text \<open>Once the other threads are quiet, as many passes as the measure says are enough.\<close>

lemma run_loop_quiet:
  assumes "\<forall>m v. n \<le> m \<longrightarrow> re_others re m v = v" and "it < iteration_bound re" and "loop_measure re it w < fuel"
  shows "\<exists>w' r. run_loop re fuel n it w = Some (w', r)"
  using assms
proof (induction fuel arbitrary: n it w)
  case (Suc fuel)
  have q: "re_others re n w = w" using Suc.prems(1) by simp
  show ?case
  proof (cases "snd (run_pass re it w)")
    case (Inl e)
    then obtain w1 where "run_pass re it w = (w1, Inl e)" by (metis prod.collapse)
    with q show ?thesis by simp
  next
    case (Inr p)
    obtain go it' where "p = (go, it')" by fastforce
    then obtain w1 where r: "run_pass re it w = (w1, Inr (go, it'))" using Inr by (metis prod.collapse)
    note I = run_pass_iff [OF r Suc.prems(2)]
    show ?thesis
    proof (cases go)
      case True
      with I Suc.prems(3) have "loop_measure re it' w1 < fuel" "it' < iteration_bound re" by auto
      from Suc.IH [OF _ this(2,1), of "n + 1"] Suc.prems(1) r q True show ?thesis by simp
    qed (use r q in simp)
  qed
qed simp

lemma run_loop_returns:
  assumes "\<forall>m v. k \<le> m \<longrightarrow> re_others re m v = v" and "it < iteration_bound re"
    and "(k - n) + 2 * iteration_bound re + 3 \<le> fuel"
  shows "\<exists>w' r. run_loop re fuel n it w = Some (w', r)"
  using assms(2,3)
proof (induction "k - n" arbitrary: n it w fuel)
  case 0
  then have "\<forall>m v. n \<le> m \<longrightarrow> re_others re m v = v" using assms(1) by simp
  with 0 show ?case using loop_measure_le [of re it w] by (intro run_loop_quiet) auto
next
  case (Suc d)
  then obtain f where f: "fuel = Suc f" by (cases fuel) auto
  show ?case
  proof (cases "snd (run_pass re it (re_others re n w))")
    case (Inl e)
    then obtain w1 where "run_pass re it (re_others re n w) = (w1, Inl e)" by (metis prod.collapse)
    then show ?thesis unfolding f by simp
  next
    case (Inr p)
    obtain go it' where "p = (go, it')" by fastforce
    then obtain w1 where r: "run_pass re it (re_others re n w) = (w1, Inr (go, it'))" using Inr by (metis prod.collapse)
    note I = run_pass_iff [OF r Suc.prems(1)]
    show ?thesis
    proof (cases go)
      case True
      have "d = k - (n + 1)" "(k - (n + 1)) + 2 * iteration_bound re + 3 \<le> f" using Suc.hyps(2) Suc.prems(2) f by auto
      from Suc.hyps(1) [OF this(1) _ this(2)] I r f True show ?thesis by simp
    qed (use r f in simp)
  qed
qed

lemma run_loop_result:
  assumes "run_loop re fuel n it w = Some (w', Inr i)" and "it < iteration_bound re"
  shows "status_of w' \<in> final_statuses \<and> i \<le> iteration_bound re"
  using assms
proof (induction fuel arbitrary: n it w)
  case (Suc fuel)
  obtain w1 go it' where r: "run_pass re it (re_others re n w) = (w1, Inr (go, it'))"
    and rest: "if go then run_loop re fuel (n + 1) it' w1 = Some (w', Inr i) else w' = w1 \<and> i = it'"
    using Suc.prems(1) by (auto split: prod.splits sum.splits if_splits)
  from run_pass_iff [OF r Suc.prems(2)] rest Suc.IH [of "n + 1" it' w1] show ?case by (auto split: if_splits)
qed simp

lemma record_error_iff:
  "record_error re e w = (w', Inr u) \<Longrightarrow> status_of w' = ERROR \<and>
     (\<exists>i. events_of w' = events_of w @ [ConversationErrorEvent i SrcEnvironment (fst (re_describe re e)) (snd (re_describe re e))])"
  by (auto simp: record_error_def st_simps status_of_def [symmetric] dest!: with_state_iff set_status_iff emit_iff)
    (simp_all add: status_of_def)

section \<open>Pending actions\<close>

text \<open>Answering every pending action leaves none.\<close>

lemma all_answered:
  assumes "list_all2 (\<lambda>e a. answers e a) es (pending_actions xs)" and "\<forall>e \<in> set es. \<not> is_action e"
  shows "pending_actions (xs @ es) = []"
proof -
  have "\<exists>e \<in> set es. answers e a" if "a \<in> set (pending_actions xs)" for a
    using assms(1) that by (auto simp: list_all2_conv_all_nth in_set_conv_nth) (metis nth_mem)
  with observations_no_pending [OF assms(2)] show ?thesis
    by (auto simp: pending_actions_append filter_empty_conv list_all_iff)
qed

lemma observation_not_action: "is_observation e \<Longrightarrow> \<not> is_action e \<and> \<not> is_user_message e"
  by (cases e) auto

lemma answer_pending:
  assumes "\<And>a i. answers (mk a i) a \<and> is_observation (mk a i)"
    and "as = get_unmatched_actions (events_of w)"
  shows "\<exists>w' es. for_each (\<lambda>a. emit av (mk a)) as w = (w', Inr ()) \<and> events_of w' = events_of w @ es \<and>
     list_all2 (\<lambda>e a. \<exists>i. e = mk a i) es as \<and> fields_of w' = fields_of w \<and> w_ext w' = w_ext w \<and>
     get_unmatched_actions (events_of w') = []"
proof -
  have u: "\<not> is_user_message (mk a i)" for a i using assms(1) [of a i] observation_not_action by blast
  obtain w' es where r: "for_each (\<lambda>a. emit av (mk a)) as w = (w', Inr ())" "events_of w' = events_of w @ es"
    "list_all2 (\<lambda>e a. \<exists>i. e = mk a i) es as" "fields_of w' = fields_of w" "w_ext w' = w_ext w"
    using for_each_emit [of mk av as w] u by blast
  have "list_all2 (\<lambda>e a. answers e a) es as"
    using r(3) assms(1) by (auto simp: list_all2_conv_all_nth)
  moreover have "\<forall>e \<in> set es. \<not> is_action e"
  proof
    fix e assume "e \<in> set es"
    then obtain i where "i < length es" "e = es ! i" by (auto simp: in_set_conv_nth)
    with r(3) obtain a j where "e = mk a j" by (auto simp: list_all2_conv_all_nth)
    with assms(1) [of a j] show "\<not> is_action e" using observation_not_action by simp
  qed
  ultimately have "get_unmatched_actions (events_of w') = []"
    using all_answered [of es "events_of w"] r(2) assms(2) by (simp add: get_unmatched_actions_eq)
  with r show ?thesis by blast
qed

lemma augment_effect:
  "\<exists>w' names extended. augment re msg w = (w', Inr (names, extended)) \<and> events_of w' = events_of w \<and> status_of w' = status_of w"
  by (cases "re_suffix re msg (cf_activated_knowledge_skills (fields_of w))")
    (auto simp: augment_def events_of_def status_of_def fields_of_def)

lemma set_status_returns:
  "writes_ok av \<Longrightarrow> \<exists>w'. set_status av s w = (w', Inr ()) \<and> status_of w' = s \<and> events_of w' = events_of w \<and> w_ext w' = w_ext w"
  using set_field_returns [of av "''execution_status''" "\<lambda>f. f\<lparr>cf_execution_status := s\<rparr>" w] set_status_iff [of av s w]
  by (auto simp: set_status_def)

section \<open>Stuck detection after a user message\<close>

definition thresholds_positive :: "thresholds \<Rightarrow> bool" where
  "thresholds_positive th \<longleftrightarrow> 0 < th_action_observation th \<and> 0 < th_action_error th \<and> 0 < th_monologue th"

lemma fresh_message_not_stuck:
  assumes "thresholds_positive th" and "is_user_message e"
  shows "\<not> is_stuck th (es @ [e])"
proof -
  have "recent (es @ [e]) = drop (length es + 1 - MAX_EVENTS_TO_SCAN) es @ [e]"
    by (simp add: recent_def MAX_EVENTS_TO_SCAN_def)
  then have "after_last_user (recent (es @ [e])) = []" using assms(2) by (simp add: after_last_user.simps)
  with assms(1) show ?thesis by (simp add: is_stuck_def thresholds_positive_def Let_def)
qed

lemma setattr_frame:
  "\<forall>n. pe_write_ok env n \<Longrightarrow> \<exists>st'. setattr env key upd st = (st', None) \<and> cs_fields st' = upd (cs_fields st) \<and> cs_events st' = cs_events st"
  using setattr_returns [of env key upd st] setattr_ok_fields by blast

lemma set_all_effect:
  assumes "\<forall>n. pe_write_ok env n"
  shows "\<exists>st'. set_all env us st = (st', None) \<and> cs_fields st' = fold (\<lambda>(k, u) f. u f) us (cs_fields st) \<and> cs_events st' = cs_events st"
proof (induction us arbitrary: st)
  case (Cons u us)
  obtain k f where u: "u = (k, f)" by fastforce
  obtain st1 where s: "setattr env k f st = (st1, None)" "cs_fields st1 = f (cs_fields st)" "cs_events st1 = cs_events st"
    using setattr_frame [OF assms] by blast
  from Cons.IH [of st1] s u show ?case by auto
qed simp

lemma fork_effect:
  assumes "\<forall>n. pe_write_ok (av_persist (re_agent re)) n"
  shows "\<exists>st. fork re fork_id agent dir title tags reset_metrics w = Inr st \<and> cs_events st = events_of w \<and>
    cf_execution_status (cs_fields st) = IDLE \<and> cf_confirmation_policy (cs_fields st) = NeverConfirm \<and>
    cf_blocked_actions (cs_fields st) = []"
proof -
  let ?env = "av_persist (re_agent re)"
  obtain st where c: "create_state ?env (\<lambda>_ _ _. True) None [] fork_id
      (case agent of Some a \<Rightarrow> a | None \<Rightarrow> cf_agent (fields_of w)) (cf_workspace (fields_of w)) dir
      (re_max_iterations re) (re_thresholds re \<noteq> None) = Inr st"
    and f: "cf_execution_status (cs_fields st) = IDLE" "cf_confirmation_policy (cs_fields st) = NeverConfirm"
      "cf_blocked_actions (cs_fields st) = []"
    using assms by (simp add: create_state_def save_base_state_def Let_def state_of_def fresh_fields_def)
  define st0 where "st0 = st\<lparr>cs_fields := (cs_fields st)\<lparr>cf_other := set_key ''tags'' (JObj tags) (cf_other (cs_fields st))\<rparr>,
    cs_events := events_of w\<rparr>"
  obtain st' where a: "set_all ?env (fork_copies (fields_of w) title tags reset_metrics) st0 = (st', None)"
    "cs_fields st' = fold (\<lambda>(k, u) f. u f) (fork_copies (fields_of w) title tags reset_metrics) (cs_fields st0)"
    "cs_events st' = cs_events st0"
    using set_all_effect [OF assms] by blast
  have "fork re fork_id agent dir title tags reset_metrics w = Inr st'"
    using c a(1) by (simp add: fork_def Let_def st0_def)
  moreover have "cf_execution_status (cs_fields st') = IDLE" "cf_confirmation_policy (cs_fields st') = NeverConfirm"
    "cf_blocked_actions (cs_fields st') = []"
    using a(2) f by (simp_all add: fork_copies_def st0_def split: option.splits)
  ultimately show ?thesis using a(3) by (simp add: st0_def)
qed

section \<open>Properties\<close>

text \<open>
  C18: The run loop ends. When the other threads are quiet from pass \<open>k\<close> on, \<open>k + 2 * max 1 m + 3\<close>
  passes are enough for the iteration limit \<open>m\<close>, whatever the agent, the tools and the stop hook
  do. A run that returns leaves a final status, and one that raises an error of the loop leaves the
  status \<open>ERROR\<close> and that error as the last event.
\<close>

theorem run_terminates:
  assumes "\<forall>m v. k \<le> m \<longrightarrow> re_others re m v = v" and "k + 2 * max 1 (re_max_iterations re) + 3 \<le> fuel"
  shows "\<exists>w' r. run re fuel ready w = Some (w', r) \<and>
    (case r of
       Inr _ \<Rightarrow> status_of w' \<in> final_statuses
     | Inl (ConversationRunError e) \<Rightarrow> status_of w' = ERROR \<and>
         (\<exists>i. last (events_of w') = ConversationErrorEvent i SrcEnvironment (fst (re_describe re e)) (snd (re_describe re e)))
     | Inl (Raised e) \<Rightarrow> True)"
proof (cases "snd (bind_st (ensure_agent_ready re ready) (\<lambda>_. start_running re) w)")
  case (Inl e)
  then obtain w1 where "bind_st (ensure_agent_ready re ready) (\<lambda>_. start_running re) w = (w1, Inl e)"
    by (metis prod.collapse)
  then show ?thesis by (simp add: run_def)
next
  case (Inr u)
  then obtain w1 where start: "bind_st (ensure_agent_ready re ready) (\<lambda>_. start_running re) w = (w1, Inr u)"
    by (metis prod.collapse)
  have b: "0 < iteration_bound re" "(k - 0) + 2 * iteration_bound re + 3 \<le> fuel"
    using assms(2) by (simp_all add: iteration_bound_def)
  obtain w2 r where loop: "run_loop re fuel 0 0 w1 = Some (w2, r)"
    using run_loop_returns [OF assms(1) b] by blast
  show ?thesis
  proof (cases r)
    case (Inr i)
    with run_loop_result [of re fuel 0 0 w1 w2 i] loop b(1) start show ?thesis by (simp add: run_def)
  next
    case (Inl e)
    obtain w3 q where "record_error re e w2 = (w3, q)" by fastforce
    with record_error_iff [of re e w2 w3] loop start Inl show ?thesis
      by (cases q) (auto simp: run_def)
  qed
qed

text \<open>
  C19: A message that the user sends between two passes is not lost, also when the agent has just
  finished or was found stuck: when the state can be saved the message joins the log, and the next
  pass of the loop takes a step of the agent on it, unless the conversation is paused.
\<close>

theorem message_gets_a_step:
  assumes "writes_ok (re_agent re)" and "m_role msg = RUser" and "status_of w \<noteq> PAUSED"
    and "\<forall>th. re_thresholds re = Some th \<longrightarrow> thresholds_positive th"
  shows "\<exists>w1 i names extended. send_message re True msg sender w = (w1, Inr ()) \<and>
    events_of w1 = events_of w @ [user_message_event i msg names extended sender] \<and>
    run_pass re iteration w1 = with_state (re_agent re) (run_step re iteration) w1"
proof -
  let ?av = "re_agent re" and ?w = "w\<lparr>w_state := enter_state (w_state w)\<rparr>"
  obtain w1 where w1: "(if status_of ?w \<in> {FINISHED, STUCK} then set_status ?av IDLE ?w else (?w, Inr ())) = (w1, Inr ())"
    "events_of w1 = events_of w" "status_of w1 \<notin> {PAUSED, FINISHED, STUCK}"
    using set_status_returns [OF assms(1), of IDLE ?w] assms(3) by (cases "status_of w \<in> {FINISHED, STUCK}") auto
  obtain w2 names extended where w2: "augment re msg w1 = (w2, Inr (names, extended))"
    "events_of w2 = events_of w" "status_of w2 = status_of w1"
    using augment_effect [of re msg w1] w1(2) by auto
  obtain w3 where e: "emit ?av (\<lambda>i. user_message_event i msg names extended sender) w2 = (w3, Inr ())"
    using on_event_returns [OF assms(1), of "user_message_event (av_fresh ?av (w_ids w2)) msg names extended sender"
      "w2\<lparr>w_ids := w_ids w2 + 1\<rparr>"] by (auto simp: emit_def bind_st_def fresh_id_def)
  from emit_iff [OF e] w2 obtain i where w3: "events_of w3 = events_of w @ [user_message_event i msg names extended sender]"
    "status_of w3 = status_of w1" by auto
  let ?p = "bind_st (\<lambda>w. if status_of w \<in> {FINISHED, STUCK} then set_status ?av IDLE w else (w, Inr ())) (\<lambda>_.
        bind_st (augment re msg) (\<lambda>(names, extended).
          emit ?av (\<lambda>i. user_message_event i msg names extended sender)))"
  have "?p ?w = (w3, Inr ())"
    using w1(1) w2(1) e by (simp add: bind_st_def)
  from with_state_returns [of ?av ?p w, OF assms(1) this]
  obtain w4 where s: "send_message re True msg sender w = (w4, Inr ())" and w4: "events_of w4 = events_of w3" "status_of w4 = status_of w3"
    using assms(2) by (auto simp: send_message_def ensure_agent_ready_def bind_st_def return_st_def status_of_def Let_def)
  have ev: "events_of w4 = events_of w @ [user_message_event i msg names extended sender]" using w4(1) w3(1) by simp
  have "is_user_message (user_message_event i msg names extended sender)" by (simp add: user_message_event_def)
  then have stuck: "\<not> (case re_thresholds re of None \<Rightarrow> False | Some th \<Rightarrow> is_stuck th (events_of w4))"
    using fresh_message_not_stuck assms(4) ev by (auto split: option.splits)
  have "status_of w4 \<notin> {PAUSED, FINISHED, STUCK}" using w4(2) w3(2) w1(3) by simp
  with stuck have "run_pass re iteration w4 = with_state ?av (run_step re iteration) w4"
    by (cases "re_thresholds re") (simp_all add: run_pass_def with_state_def Let_def)
  with s ev show ?thesis by blast
qed

text \<open>
  Rejecting answers every pending action with a rejection by the user that gives the reason,
  runs no tool and ends the wait for a confirmation; a cancelled run answers every pending action
  with an error, runs no tool and is paused. After either nothing is pending.
\<close>

theorem pending_actions_are_closed:
  assumes "writes_ok av"
  shows "(\<exists>w' es. reject_pending_actions av reason w = (w', Inr ()) \<and> events_of w' = events_of w @ es \<and>
      list_all2 (\<lambda>e a. \<exists>i. e = reject_event i a reason RejectedByUser) es (get_unmatched_actions (events_of w)) \<and>
      get_unmatched_actions (events_of w') = [] \<and> w_ext w' = w_ext w \<and>
      status_of w' = (if status_of w = WAITING_FOR_CONFIRMATION then IDLE else status_of w)) \<and>
    (\<exists>w'. handle_cancelled av w = (w', Inr ()) \<and> get_unmatched_actions (events_of w') = [] \<and>
      w_ext w' = w_ext w \<and> status_of w' = PAUSED)"
proof
  let ?w = "w\<lparr>w_state := enter_state (w_state w)\<rparr>" and ?as = "get_unmatched_actions (events_of w)"
  obtain w1 where w1: "(if status_of ?w = WAITING_FOR_CONFIRMATION then set_status av IDLE ?w else (?w, Inr ())) = (w1, Inr ())"
    "events_of w1 = events_of w" "w_ext w1 = w_ext w"
    "status_of w1 = (if status_of w = WAITING_FOR_CONFIRMATION then IDLE else status_of w)"
    using set_status_returns [OF assms, of IDLE ?w] by (cases "status_of w = WAITING_FOR_CONFIRMATION") auto
  have "answers (reject_event i a reason RejectedByUser) a \<and> is_observation (reject_event i a reason RejectedByUser)" for a i
    by (simp add: reject_event_def)
  from answer_pending [of "\<lambda>a i. reject_event i a reason RejectedByUser" ?as w1 av, OF this] w1(2)
  obtain w2 es where w2: "for_each (\<lambda>a. emit av (\<lambda>i. reject_event i a reason RejectedByUser)) ?as w1 = (w2, Inr ())"
    "events_of w2 = events_of w1 @ es" "list_all2 (\<lambda>e a. \<exists>i. e = reject_event i a reason RejectedByUser) es ?as"
    "fields_of w2 = fields_of w1" "w_ext w2 = w_ext w1" "get_unmatched_actions (events_of w2) = []" by auto
  let ?p = "bind_st (\<lambda>w. if status_of w = WAITING_FOR_CONFIRMATION then set_status av IDLE w else (w, Inr ())) (\<lambda>_.
      for_each (\<lambda>a. emit av (\<lambda>i. reject_event i a reason RejectedByUser)) ?as)"
  have "?p ?w = (w2, Inr ())" using w1(1) w2(1) by (simp add: bind_st_def)
  from with_state_returns [of av ?p w, OF assms this] w1 w2
  show "\<exists>w' es. reject_pending_actions av reason w = (w', Inr ()) \<and> events_of w' = events_of w @ es \<and>
      list_all2 (\<lambda>e a. \<exists>i. e = reject_event i a reason RejectedByUser) es ?as \<and>
      get_unmatched_actions (events_of w') = [] \<and> w_ext w' = w_ext w \<and>
      status_of w' = (if status_of w = WAITING_FOR_CONFIRMATION then IDLE else status_of w)"
    by (auto simp: reject_pending_actions_def Let_def status_of_def)
next
  let ?w = "w\<lparr>w_state := enter_state (w_state w)\<rparr>"
  let ?mk = "\<lambda>a i. error_event i ''Tool call interrupted before completion. The conversation was paused.''
    (ae_tool_name a) (ae_tool_call_id a)"
  have "answers (?mk a i) a \<and> is_observation (?mk a i)" for a i by (simp add: error_event_def)
  from answer_pending [of ?mk "get_unmatched_actions (events_of ?w)" ?w av, OF this]
  obtain w1 where w1: "emit_orphaned_action_errors av ?w = (w1, Inr ())" "w_ext w1 = w_ext w"
    "get_unmatched_actions (events_of w1) = []"
    by (auto simp: emit_orphaned_action_errors_def)
  obtain w2 where w2: "set_status av PAUSED w1 = (w2, Inr ())" "status_of w2 = PAUSED" "events_of w2 = events_of w1" "w_ext w2 = w_ext w1"
    using set_status_returns [OF assms] by blast
  obtain w3 where e: "emit av (\<lambda>i. InterruptEvent i SrcUser) w2 = (w3, Inr ())" using emit_plain [of "\<lambda>i. InterruptEvent i SrcUser"] by auto
  have w3: "status_of w3 = PAUSED" "w_ext w3 = w_ext w" "get_unmatched_actions (events_of w3) = []"
    using emit_iff [OF e] w1 w2 by (auto simp: get_unmatched_actions_eq pending_actions_append)
  let ?p = "bind_st (emit_orphaned_action_errors av) (\<lambda>_.
      bind_st (set_status av PAUSED) (\<lambda>_. emit av (\<lambda>i. InterruptEvent i SrcUser)))"
  have "?p ?w = (w3, Inr ())" using w1 w2 e by (simp add: bind_st_def)
  from with_state_returns [of av ?p w, OF assms this] w3
  show "\<exists>w'. handle_cancelled av w = (w', Inr ()) \<and> get_unmatched_actions (events_of w') = [] \<and>
      w_ext w' = w_ext w \<and> status_of w' = PAUSED"
    by (auto simp: handle_cancelled_def status_of_def)
qed

text \<open>
  Forking a conversation that waits for a confirmation drops the wait: when its state can be
  saved the fork has the same events, is idle, confirms nothing and knows no blocked action, so
  that its next step executes the actions that the source still waits to have confirmed.
\<close>

theorem fork_drops_confirmation:
  assumes "\<forall>n. pe_write_ok (av_persist (re_agent re)) n" and "get_unmatched_actions (events_of w) \<noteq> []"
  shows "\<exists>st. fork re fork_id agent dir title tags reset_metrics w = Inr st \<and> cs_events st = events_of w \<and>
    cf_execution_status (cs_fields st) = IDLE \<and> cf_confirmation_policy (cs_fields st) = NeverConfirm \<and>
    cf_blocked_actions (cs_fields st) = [] \<and>
    agent_step (re_agent re) (v\<lparr>w_state := st\<rparr>) =
      execute_actions (re_agent re) (get_unmatched_actions (events_of w)) (v\<lparr>w_state := st\<rparr>)"
proof -
  obtain st where st: "fork re fork_id agent dir title tags reset_metrics w = Inr st" "cs_events st = events_of w"
    "cf_execution_status (cs_fields st) = IDLE" "cf_confirmation_policy (cs_fields st) = NeverConfirm"
    "cf_blocked_actions (cs_fields st) = []"
    using fork_effect [OF assms(1)] by blast
  have "events_of (v\<lparr>w_state := st\<rparr>) = events_of w" using st(2) by (simp add: events_of_def)
  with assms(2) have "agent_step (re_agent re) (v\<lparr>w_state := st\<rparr>) =
      execute_actions (re_agent re) (get_unmatched_actions (events_of w)) (v\<lparr>w_state := st\<rparr>)"
    by (simp add: agent_step_def)
  with st show ?thesis by blast
qed

text \<open>
  Manual condensation of a conversation with pending actions does not condense: the one step it
  takes executes the pending actions, without a confirmation, and logs their answers after the
  request.
\<close>

theorem condense_runs_pending_actions:
  assumes "writes_ok av" and "schedule_ok av" and "can_condense av"
    and "as = get_unmatched_actions (events_of w)" and "as \<noteq> []"
    and "distinct (map ae_id as)" and "\<forall>a \<in> set as. consistent a"
  shows "\<exists>w' i es tail. condense_conversation av w = (w', Inr ()) \<and>
    events_of w' = events_of w @ [CondensationRequest i SrcEnvironment] @ es @ tail \<and>
    list_all2 answer_to es (fst (truncate_at_finish as)) \<and> (tail = [] \<or> (\<exists>j txt. tail = [user_text_event j txt]))"
proof -
  let ?r = "CondensationRequest (av_fresh av (w_ids w)) SrcEnvironment"
  let ?w = "append_log_event ?r (w\<lparr>w_ids := w_ids w + 1\<rparr>)"
  let ?e = "?w\<lparr>w_state := enter_state (w_state ?w)\<rparr>"
  have e: "emit av (\<lambda>i. CondensationRequest i SrcEnvironment) w = (?w, Inr ())" by (simp add: emit_plain)
  have p: "get_unmatched_actions (events_of ?e) = as"
    using assms(4) by (simp add: get_unmatched_actions_eq pending_actions_append)
  obtain w1 where x: "execute_actions av as ?e = (w1, Inr ())"
    using execute_actions_returns [OF assms(1,2,6,7)] by blast
  have "agent_step av ?e = (w1, Inr ())"
    using p assms(5) x unfolding agent_step_def by simp
  from with_state_returns [of av "agent_step av" ?w, OF assms(1) this]
  obtain w' where w': "with_state av (agent_step av) ?w = (w', Inr ())" "events_of w' = events_of w1" by blast
  have "condense_conversation av w = (w', Inr ())"
    using assms(3) e w'(1) by (simp add: condense_conversation_def bind_st_def)
  moreover obtain es tail where "events_of w1 = events_of ?e @ es @ tail" "list_all2 answer_to es (fst (truncate_at_finish as))"
    "tail = [] \<or> (\<exists>j txt. tail = [user_text_event j txt])"
    using execute_actions_spec [OF x assms(2,6,7)] by blast
  moreover have "events_of w' = events_of w @ [?r] @ es @ tail" using w'(2) calculation(2) by simp
  ultimately show ?thesis by blast
qed

section \<open>Witnesses\<close>

definition demo_run :: "(unit, nat) run_env" where
  "demo_run = \<lparr>re_agent = demo_env\<lparr>av_condenser := Some (LLMSummarizingCondenser sample_summarizer)\<rparr>, re_acp = False,
     re_static = ''system'', re_dynamic = (\<lambda>w. None), re_thresholds = Some default_thresholds,
     re_stop_hook = Some (\<lambda>x. (x + 1, x > 3, Some ''go on'')), re_max_iterations = 5,
     re_suffix = (\<lambda>m s. None), re_describe = (\<lambda>e. (''Error'', ''text'')), re_has_executor = (\<lambda>n. True),
     re_others = (\<lambda>n w. if n < 2 then w\<lparr>w_ext := n\<rparr> else w)\<rparr>"

lemma demo_run_ok: "writes_ok (re_agent demo_run)" "schedule_ok (re_agent demo_run)" "can_condense (re_agent demo_run)"
  using demo_ok by (simp_all add: demo_run_def writes_ok_def schedule_ok_def can_condense_def)

lemma run_terminates_witness: "\<exists>w' r. run demo_run 15 False (demo_world []) = Some (w', r)"
  using run_terminates [of 2 demo_run 15 False "demo_world []"] by (auto simp: demo_run_def)

lemma message_gets_a_step_witness:
  "\<exists>w1 i. events_of w1 = [user_message_event i (new_message RUser [text_content ''hi'']) [] [] None] \<and>
     run_pass demo_run 3 w1 = with_state (re_agent demo_run) (run_step demo_run 3) w1"
proof -
  have m: "m_role (new_message RUser [text_content ''hi'']) = RUser" by (simp add: new_message_def)
  have s: "status_of (demo_world []) \<noteq> PAUSED" "events_of (demo_world []) = []"
    by (simp_all add: status_of_def fields_of_def events_of_def demo_world_def state_of_def fresh_fields_def)
  have t: "\<forall>th. re_thresholds demo_run = Some th \<longrightarrow> thresholds_positive th"
    by (simp add: demo_run_def thresholds_positive_def default_thresholds_def)
  from message_gets_a_step [OF demo_run_ok(1) m s(1) t, of None 3]
  obtain w1 i names extended where w: "send_message demo_run True (new_message RUser [text_content ''hi'']) None (demo_world []) = (w1, Inr ())"
    "events_of w1 = [user_message_event i (new_message RUser [text_content ''hi'']) names extended None]"
    "run_pass demo_run 3 w1 = with_state (re_agent demo_run) (run_step demo_run 3) w1"
    using s(2) by auto
  have "names = [] \<and> extended = []"
    using w(1,2) by (auto simp: send_message_def ensure_agent_ready_def augment_def demo_run_def bind_st_def return_st_def
        Let_def user_message_event_def dest!: with_state_iff emit_iff split: if_splits prod.splits sum.splits)
  with w show ?thesis by blast
qed

lemma pending_actions_are_closed_witness:
  "\<exists>w'. reject_pending_actions demo_env ''no'' (demo_world [ActionEvent (demo_action ''1'' ''echo'')]) = (w', Inr ()) \<and>
     get_unmatched_actions (events_of w') = []"
  using pending_actions_are_closed [OF demo_ok(1)] by blast

lemma fork_drops_confirmation_witness:
  "\<exists>st. fork demo_run ''f'' None None None [] True (demo_world [ActionEvent (demo_action ''1'' ''echo'')]) = Inr st \<and>
     cf_confirmation_policy (cs_fields st) = NeverConfirm"
proof -
  have "get_unmatched_actions (events_of (demo_world [ActionEvent (demo_action ''1'' ''echo'')])) \<noteq> []"
    by (simp add: demo_world_def events_of_def state_of_def get_unmatched_actions_eq demo_action_def)
  from fork_drops_confirmation [OF demo_run_ok(1) [unfolded writes_ok_def] this] show ?thesis by blast
qed

lemma condense_runs_pending_actions_witness:
  "\<exists>w' es. condense_conversation (re_agent demo_run) (demo_world [ActionEvent (demo_action ''1'' ''echo'')]) = (w', Inr ()) \<and>
     list_all2 answer_to es [demo_action ''1'' ''echo'']"
proof -
  let ?a = "demo_action ''1'' ''echo''"
  have p: "[?a] = get_unmatched_actions (events_of (demo_world [ActionEvent ?a]))"
    by (simp add: demo_world_def events_of_def state_of_def get_unmatched_actions_eq demo_action_def)
  have c: "\<forall>a \<in> set [?a]. consistent a" by (simp add: consistent_def demo_action_def)
  have t: "fst (truncate_at_finish [?a]) = [?a]" by (simp add: truncate_at_finish_def demo_action_def FINISH_TOOL_def)
  from condense_runs_pending_actions [OF demo_run_ok p _ _ c] show ?thesis unfolding t by auto
qed

end
