(* ===== verification/Substitution.thy ===== *)
theory Substitution
  imports Prelude
begin

text \<open>
  \<open>str.replace\<close> and \<open>re.sub\<close>. A pattern is a function of the character before a position (for word
  boundaries) and the text from there: \<open>None\<close>, or the number of characters it matches and their replacement. The locale
  \<open>cleaning\<close> says when one pass of a substitution leaves no match behind.
\<close>

section \<open>Replacing a text\<close>

fun replace_from :: "string \<Rightarrow> string \<Rightarrow> string \<Rightarrow> string" where
  "replace_from old new [] = []"
| "replace_from old new (c # s) =
     (if starts_with old (c # s) then new @ replace_from old new (drop (length old - 1) s)
      else c # replace_from old new s)"

definition py_replace :: "string \<Rightarrow> string \<Rightarrow> string \<Rightarrow> string" where
  "py_replace old new s = (if old = [] then new @ concat (map (\<lambda>c. c # new) s) else replace_from old new s)"

lemma starts_with_before:
  "starts_with v (a @ c # b) \<Longrightarrow> c \<notin> set v \<Longrightarrow> starts_with v a"
proof (induction a arbitrary: v)
  case (Cons d a)
  then show ?case by (cases v) (auto simp: starts_with_def)
qed (auto simp: starts_with_def Cons_eq_append_conv split: list.splits, case_tac v, auto)

section \<open>Substituting a pattern\<close>

type_synonym matcher = "char option \<Rightarrow> string \<Rightarrow> (nat \<times> string) option"

fun sub_from :: "matcher \<Rightarrow> char option \<Rightarrow> string \<Rightarrow> string" where
  "sub_from m p [] = []"
| "sub_from m p (c # s) =
     (case m p (c # s) of
        None \<Rightarrow> c # sub_from m (Some c) s
      | Some (n, new) \<Rightarrow> new @ sub_from m (Some (last (c # take (n - 1) s))) (drop (n - 1) s))"

definition re_sub :: "matcher \<Rightarrow> string \<Rightarrow> string" where
  "re_sub m s = sub_from m None s"

text \<open>A match somewhere in a text.\<close>

fun has_match :: "matcher \<Rightarrow> char option \<Rightarrow> string \<Rightarrow> bool" where
  "has_match m p [] \<longleftrightarrow> False"
| "has_match m p (c # s) \<longleftrightarrow> m p (c # s) \<noteq> None \<or> has_match m (Some c) s"

lemma sub_no_match: "\<not> has_match m p s \<Longrightarrow> sub_from m p s = s"
  by (induction s arbitrary: p) (auto split: option.splits)

lemma has_match_append:
  "has_match m p (u @ s) \<longleftrightarrow>
     (\<exists>x y. u = x @ y \<and> y \<noteq> [] \<and> m (if x = [] then p else Some (last x)) (y @ s) \<noteq> None) \<or>
     has_match m (if u = [] then p else Some (last u)) s"
proof (induction u arbitrary: p)
  case (Cons c u)
  have "(\<exists>x y. c # u = x @ y \<and> y \<noteq> [] \<and> m (if x = [] then p else Some (last x)) (y @ s) \<noteq> None) \<longleftrightarrow>
      m p (c # u @ s) \<noteq> None \<or>
      (\<exists>x y. u = x @ y \<and> y \<noteq> [] \<and> m (if x = [] then Some c else Some (last x)) (y @ s) \<noteq> None)"
    (is "?L \<longleftrightarrow> ?M \<or> ?R")
  proof
    assume ?L
    then obtain x y where xy: "c # u = x @ y" "y \<noteq> []" "m (if x = [] then p else Some (last x)) (y @ s) \<noteq> None"
      by blast
    show "?M \<or> ?R"
    proof (cases x)
      case Nil
      with xy show ?thesis by auto
    next
      case (Cons a x')
      with xy have "u = x' @ y" "m (if x' = [] then Some c else Some (last x')) (y @ s) \<noteq> None"
        by (auto split: if_splits)
      with xy(2) show ?thesis by blast
    qed
  next
    assume "?M \<or> ?R"
    then show ?L
    proof
      assume ?M
      then have "c # u = [] @ (c # u) \<and> c # u \<noteq> [] \<and> m (if [] = [] then p else Some (last [])) ((c # u) @ s) \<noteq> None"
        by simp
      then show ?L by blast
    next
      assume ?R
      then obtain x y where xy: "u = x @ y" "y \<noteq> []" "m (if x = [] then Some c else Some (last x)) (y @ s) \<noteq> None"
        by blast
      then have "c # u = (c # x) @ y \<and> y \<noteq> [] \<and> m (if c # x = [] then p else Some (last (c # x))) (y @ s) \<noteq> None"
        by (auto split: if_splits)
      then show ?L by blast
    qed
  qed
  with Cons.IH [of "Some c"] show ?case by auto
qed simp

text \<open>
  A pattern whose matches are determined by the text they cover, never contain the mark that every replacement
  starts with, and are as long as they can be; no match starts in a replacement.
\<close>

locale cleaning =
  fixes m :: matcher and mark :: char
  assumes nonempty: "m p s = Some (n, new) \<Longrightarrow> 0 < n \<and> n \<le> length s"
    and covers: "m p (u @ v) = Some (length u, new) \<Longrightarrow> m p (u @ w) \<noteq> None"
    and unmarked: "m p s = Some (n, new) \<Longrightarrow> mark \<notin> set (take n s)"
    and marked: "m p s = Some (n, new) \<Longrightarrow> new \<noteq> [] \<and> hd new = mark"
    and inert: "m p s = Some (n, new) \<Longrightarrow> new = x @ y \<Longrightarrow> y \<noteq> [] \<Longrightarrow> m q (y @ t) = None"
    and maximal: "m p s = Some (n, new) \<Longrightarrow> m q (drop n s) = None"

context cleaning
begin

text \<open>Where the original has no match, the rest of the text may be substituted.\<close>

lemma prefix_of_substituted:
  assumes "mark \<notin> set u" and "sub_from m p s = u @ t"
  shows "\<exists>v. s = u @ v"
  using assms
proof (induction s arbitrary: p u)
  case (Cons c s)
  show ?case
  proof (cases u)
    case (Cons a u')
    show ?thesis
    proof (cases "m p (c # s)")
      case None
      with Cons.prems Cons have "a = c" "sub_from m (Some c) s = u' @ t" "mark \<notin> set u'" by auto
      with Cons.IH [of u' "Some c"] Cons show ?thesis by auto
    next
      case (Some r)
      obtain n new where r: "r = (n, new)" by (cases r)
      with Some marked [of p "c # s" n new] have "new \<noteq> []" "hd new = mark" by auto
      then have "hd (sub_from m p (c # s)) = mark" using Some r by simp
      with Cons.prems Cons show ?thesis by auto
    qed
  qed simp
qed auto

lemma no_new_match:
  assumes "m p s = None" and "u @ sub_from m q v = s'" and "s = u @ v"
  shows "m p s' = None"
proof (rule ccontr)
  assume "m p s' \<noteq> None"
  then obtain n new where n: "m p s' = Some (n, new)" by auto
  let ?w = "take n s'"
  have w: "s' = ?w @ drop n s'" "length ?w = n" "mark \<notin> set ?w"
    using nonempty [OF n] unmarked [OF n] by auto
  have "\<exists>x. s = ?w @ x"
  proof (cases "n \<le> length u")
    case True
    then have "?w = take n u" using assms(2) by (metis append_take_drop_id le_cases take_all take_append diff_is_0_eq append_Nil2 take0)
    then show ?thesis using assms(3) True by (metis append_assoc append_take_drop_id)
  next
    case False
    let ?x = "take (n - length u) (sub_from m q v)"
    have e: "?w = u @ ?x" using assms(2) False by (metis (no_types, lifting) le_cases take_all take_append)
    then have "mark \<notin> set ?x" using w(3) by auto
    from prefix_of_substituted [OF this, of q v "drop (n - length u) (sub_from m q v)"]
    obtain y where "v = ?x @ y" by auto
    then show ?thesis using e assms(3) by (metis append_assoc)
  qed
  then obtain x where x: "s = ?w @ x" by blast
  from covers [of p ?w "drop n s'" new x] n w(1,2) x assms(1) show False by simp
qed

lemma nothing_left:
  assumes "m q s = None \<or> q = p"
  shows "\<not> has_match m q (sub_from m p s)"
  using assms
proof (induction s arbitrary: p q rule: length_induct)
  case (1 s)
  show ?case
  proof (cases s)
    case (Cons c s')
    show ?thesis
    proof (cases "m p (c # s')")
      case None
      from 1(2) None Cons have q: "m q (c # s') = None" by auto
      have "m q (c # sub_from m (Some c) s') = None"
        using no_new_match [OF q, of "[c]" "Some c" s'] by simp
      moreover have "\<not> has_match m (Some c) (sub_from m (Some c) s')"
        using 1(1) Cons by auto
      ultimately show ?thesis using None Cons by simp
    next
      case (Some r)
      obtain n new where r: "r = (n, new)" by (cases r)
      with Some have m: "m p (c # s') = Some (n, new)" by simp
      from nonempty [OF m] obtain k where k: "n = Suc k" by (cases n) auto
      let ?l = "Some (last (c # take k s'))" and ?d = "drop k s'"
      have none: "m a ?d = None" for a using maximal [OF m, of a] k by simp
      have "length ?d < length s" using Cons by simp
      with 1(1) none have "\<not> has_match m (Some (last new)) (sub_from m ?l ?d)" by blast
      moreover have "\<nexists>x y. new = x @ y \<and> y \<noteq> [] \<and> m (if x = [] then q else Some (last x)) (y @ sub_from m ?l ?d) \<noteq> None"
      proof clarify
        fix x y a b assume "new = x @ y" "y \<noteq> []" "m (if x = [] then q else Some (last x)) (y @ sub_from m ?l ?d) = Some (a, b)"
        with inert [OF m this(1,2), of "if x = [] then q else Some (last x)" "sub_from m ?l ?d"] show False by simp
      qed
      ultimately have "\<not> has_match m q (new @ sub_from m ?l ?d)"
        using has_match_append [of m q new] marked [OF m] by simp
      then show ?thesis using m k Cons by (simp del: last.simps)
    qed
  qed simp
qed

lemma substitution_cleans: "\<not> has_match m p (sub_from m p s)"
  by (rule nothing_left) simp

lemma substitution_idempotent: "re_sub m (re_sub m s) = re_sub m s"
  unfolding re_sub_def by (rule sub_no_match) (rule substitution_cleans)

end

end
