(* ===== verification/Terminal_Output.thy ===== *)
theory Terminal_Output
  imports Substitution Messages
begin

text \<open>
  \<open>openhands/tools/terminal/utils/escape_filter.py\<close> and \<open>terminal/metadata.py\<close>: queries to the terminal are
  removed from outputs, also when they arrive in pieces, and the blocks the prompt prints are found in a
  screen. The filter works on UTF-8 bytes; its patterns are of ASCII bytes, so the model works on characters.
\<close>

section \<open>Queries\<close>

definition ESC :: char where "ESC = CHR 0x1B"
definition BEL :: char where "BEL = CHR 0x07"

text \<open>Each pattern gives the length of its match at the start of a text.\<close>

definition dsr_query :: "string \<Rightarrow> nat option" where
  "dsr_query s = (if starts_with (ESC # ''[6n'') s then Some 4 else None)"

text \<open>The marker and the terminator of an OSC query after its first \<open>i\<close> characters.\<close>

definition osc_end :: "nat \<Rightarrow> string \<Rightarrow> nat option" where
  "osc_end i s =
     (if starts_with (CHR '';'' # CHR ''?'' # [BEL]) (drop i s) then Some (i + 3)
      else if starts_with (CHR '';'' # CHR ''?'' # ESC # [CHR 0x5C]) (drop i s) then Some (i + 4)
      else None)"

definition osc_query :: "string \<Rightarrow> nat option" where
  "osc_query s =
     (let i = 2 + length (takeWhile is_digit (drop 2 s));
          sub = takeWhile (\<lambda>c. c \<noteq> CHR '';'' \<and> c \<noteq> BEL \<and> c \<noteq> ESC) (drop (i + 1) s)
      in if starts_with (ESC # '']'') s \<and> 2 < i
         then (case (if starts_with '';'' (drop i s) then osc_end (i + 1 + length sub) s else None) of
                 Some n \<Rightarrow> Some n
               | None \<Rightarrow> osc_end i s)
         else None)"

definition da_query :: "string \<Rightarrow> nat option" where
  "da_query s =
     (if starts_with (ESC # ''[0c'') s then Some 4 else if starts_with (ESC # ''[c'') s then Some 3 else None)"

definition da2_query :: "string \<Rightarrow> nat option" where
  "da2_query s =
     (if starts_with (ESC # ''[>0c'') s then Some 5 else if starts_with (ESC # ''[>c'') s then Some 4 else None)"

definition decrqss_query :: "string \<Rightarrow> nat option" where
  "decrqss_query s =
     (let body = takeWhile (\<lambda>c. c \<noteq> ESC) (drop 4 s); i = 4 + length body
      in if starts_with (ESC # ''P$q'') s \<and> starts_with (ESC # [CHR 0x5C]) (drop i s) then Some (i + 2) else None)"

definition removes :: "(string \<Rightarrow> nat option) \<Rightarrow> matcher" where
  "removes q p s = map_option (\<lambda>n. (n, [])) (q s)"

definition filter_complete_queries :: "string \<Rightarrow> string" where
  "filter_complete_queries s =
     foldl (\<lambda>t q. re_sub (removes q) t) s [dsr_query, osc_query, da_query, da2_query, decrqss_query]"

section \<open>Queries in pieces\<close>

text \<open>
  The rest of a text that may be the beginning of a query, by the four alternatives of the pattern; \<open>$\<close> also matches
  before a newline that ends the text.
\<close>

definition csi_param :: "char \<Rightarrow> bool" where
  "csi_param c \<longleftrightarrow> is_digit c \<or> c = CHR '';'' \<or> c = CHR ''>''"

definition at_end :: "string \<Rightarrow> bool" where
  "at_end s \<longleftrightarrow> s = [] \<or> s = [newline]"

definition incomplete :: "string \<Rightarrow> bool" where
  "incomplete s \<longleftrightarrow>
     (starts_with [ESC] s \<and> at_end (drop 1 s)) \<or>
     (starts_with (ESC # ''['') s \<and> at_end (dropWhile csi_param (drop 2 s))) \<or>
     (starts_with (ESC # '']'') s \<and> BEL \<notin> set (drop 2 s)) \<or>
     (starts_with (ESC # ''P'') s \<and> \<not> is_infix [ESC, CHR 0x5C] (drop 2 s))"

fun hold_back :: "string \<Rightarrow> string \<times> string" where
  "hold_back [] = ([], [])"
| "hold_back (c # s) =
     (if incomplete (c # s) then ([], c # s) else (case hold_back s of (a, p) \<Rightarrow> (c # a, p)))"

text \<open>The state of a \<open>TerminalQueryFilter\<close> is what it holds back.\<close>

definition filter_output :: "string \<Rightarrow> string \<Rightarrow> string \<times> string" where
  "filter_output pending output =
     (case hold_back (pending @ output) of (a, p) \<Rightarrow> (filter_complete_queries a, p))"

definition filter_flush :: "string \<Rightarrow> string \<times> string" where
  "filter_flush pending = (filter_complete_queries pending, [])"

definition filter_terminal_queries :: "string \<Rightarrow> string" where
  "filter_terminal_queries output = (case filter_output [] output of (t, p) \<Rightarrow> t @ fst (filter_flush p))"

text \<open>The outputs of a command that are read one after the other, the last one being the flush.\<close>

fun filter_chunks :: "string \<Rightarrow> string list \<Rightarrow> string list" where
  "filter_chunks pending [] = [fst (filter_flush pending)]"
| "filter_chunks pending (c # cs) =
     (case filter_output pending c of (t, p) \<Rightarrow> t # filter_chunks p cs)"

section \<open>Blocks of the prompt\<close>

text \<open>The markers of \<open>constants.py\<close> without the newlines around them, as the pattern uses them.\<close>

definition PS1_BEGIN :: string where "PS1_BEGIN = ''###PS1JSON###''"
definition PS1_END :: string where "PS1_END = ''###PS1END###''"

record ps1_match =
  pm_start :: nat
  pm_end :: nat
  pm_content :: string

text \<open>The content of a block: up to the next end, unless another block begins before it.\<close>

fun ps1_body :: "string \<Rightarrow> string option" where
  "ps1_body [] = None"
| "ps1_body (c # s) =
     (if starts_with PS1_END (c # s) then Some []
      else if starts_with PS1_BEGIN (c # s) then None
      else map_option ((#) c) (ps1_body s))"

text \<open>\<open>finditer\<close> from position \<open>i\<close>, where the flag says whether a line begins.\<close>

fun find_ps1 :: "nat \<Rightarrow> bool \<Rightarrow> string \<Rightarrow> ps1_match list" where
  "find_ps1 i line_start [] = []"
| "find_ps1 i line_start (c # s) =
     (case (if line_start \<and> starts_with PS1_BEGIN (c # s) then ps1_body (drop (length PS1_BEGIN) (c # s)) else None) of
        Some body \<Rightarrow>
          (let n = length PS1_BEGIN + length body + length PS1_END
           in \<lparr>pm_start = i, pm_end = i + n, pm_content = body\<rparr> # find_ps1 (i + n) False (drop (n - 1) s))
      | None \<Rightarrow> find_ps1 (Suc i) (c = newline) s)"

definition matches_ps1_metadata :: "(string \<Rightarrow> json option) \<Rightarrow> string \<Rightarrow> ps1_match list" where
  "matches_ps1_metadata loads s = filter (\<lambda>m. loads (py_strip (pm_content m)) \<noteq> None) (find_ps1 0 True s)"

text \<open>\<open>CmdOutputMetadata\<close>.\<close>

record cmd_metadata =
  cm_exit_code :: int
  cm_pid :: int
  cm_username :: "string option"
  cm_hostname :: "string option"
  cm_working_dir :: "string option"
  cm_py_interpreter_path :: "string option"
  cm_prefix :: string
  cm_suffix :: string

definition no_metadata :: cmd_metadata where
  "no_metadata = \<lparr>cm_exit_code = -1, cm_pid = -1, cm_username = None, cm_hostname = None, cm_working_dir = None,
     cm_py_interpreter_path = None, cm_prefix = [], cm_suffix = []\<rparr>"

datatype terminal_error = TermRuntimeError string | TermAttributeError | TermValidationError | TermValueError string

text \<open>
  \<open>to_int\<close> is \<open>int(float(str(v)))\<close>, \<open>None\<close> for the errors that are caught. A field that is missing keeps its default.
\<close>

definition text_field :: "dict \<Rightarrow> string \<Rightarrow> (terminal_error, string option) result" where
  "text_field d k = (case map_of d k of
       None \<Rightarrow> Inr None | Some JNull \<Rightarrow> Inr None | Some (JStr s) \<Rightarrow> Inr (Some s) | Some _ \<Rightarrow> Inl TermValidationError)"

definition int_field :: "(json \<Rightarrow> int option) \<Rightarrow> dict \<Rightarrow> string \<Rightarrow> int" where
  "int_field to_int d k = (case map_of d k of
       None \<Rightarrow> -1 | Some v \<Rightarrow> (case to_int v of Some n \<Rightarrow> n | None \<Rightarrow> -1))"

definition plain_field :: "dict \<Rightarrow> string \<Rightarrow> (terminal_error, string) result" where
  "plain_field d k = (case map_of d k of
       None \<Rightarrow> Inr [] | Some (JStr s) \<Rightarrow> Inr s | Some _ \<Rightarrow> Inl TermValidationError)"

definition from_ps1_match ::
    "(string \<Rightarrow> json option) \<Rightarrow> (json \<Rightarrow> int option) \<Rightarrow> ps1_match \<Rightarrow> (terminal_error, cmd_metadata) result" where
  "from_ps1_match loads to_int m =
     (case loads (pm_content m) of
        Some (JObj d) \<Rightarrow>
          bind_res (text_field d ''username'') (\<lambda>u.
          bind_res (text_field d ''hostname'') (\<lambda>h.
          bind_res (text_field d ''working_dir'') (\<lambda>w.
          bind_res (text_field d ''py_interpreter_path'') (\<lambda>p.
          bind_res (plain_field d ''prefix'') (\<lambda>pre.
          bind_res (plain_field d ''suffix'') (\<lambda>suf.
            Inr \<lparr>cm_exit_code = int_field to_int d ''exit_code'', cm_pid = int_field to_int d ''pid'',
              cm_username = u, cm_hostname = h, cm_working_dir = w, cm_py_interpreter_path = p,
              cm_prefix = pre, cm_suffix = suf\<rparr>))))))
      | _ \<Rightarrow> Inl TermAttributeError)"

text \<open>\<open>_combine_outputs_between_matches\<close>.\<close>

definition between :: "nat \<Rightarrow> nat \<Rightarrow> string \<Rightarrow> string" where
  "between a b s = take (b - a) (drop a s)"

fun join_segments :: "string \<Rightarrow> ps1_match list \<Rightarrow> string" where
  "join_segments s [] = []"
| "join_segments s [m] = drop (pm_end m + 1) s"
| "join_segments s (m # m' # ms) = between (pm_end m + 1) (pm_start m') s @ [newline] @ join_segments s (m' # ms)"

definition combine_outputs :: "string \<Rightarrow> ps1_match list \<Rightarrow> bool \<Rightarrow> string" where
  "combine_outputs content ms before_last =
     (case ms of
        [] \<Rightarrow> content
      | [m] \<Rightarrow> if before_last then take (pm_start m) content else drop (pm_end m + 1) content
      | _ \<Rightarrow> join_segments content ms)"

definition removeprefix :: "string \<Rightarrow> string \<Rightarrow> string" where
  "removeprefix p s = (if starts_with p s then drop (length p) s else s)"

definition remove_command_prefix :: "string \<Rightarrow> string \<Rightarrow> string" where
  "remove_command_prefix output command = py_lstrip (removeprefix (py_lstrip command) (py_lstrip output))"

section \<open>No query is cut\<close>

text \<open>The forms of a query; all but the last two characters of a terminator are free of the two control characters.\<close>

definition query_at :: "string \<Rightarrow> nat option \<Rightarrow> bool" where
  "query_at s r \<longleftrightarrow> r \<noteq> None \<and> r \<in> {dsr_query s, osc_query s, da_query s, da2_query s, decrqss_query s}"

definition string_end :: "string \<Rightarrow> bool" where
  "string_end t \<longleftrightarrow> t = [BEL] \<or> t = [ESC, CHR 0x5C]"

inductive query_text :: "string \<Rightarrow> bool" where
  csi_query: "(\<forall>c \<in> set ps. csi_param c) \<Longrightarrow> c \<in> {CHR ''n'', CHR ''c''} \<Longrightarrow> query_text (ESC # CHR ''['' # ps @ [c])"
| osc_text: "BEL \<notin> set b \<Longrightarrow> ESC \<notin> set b \<Longrightarrow> string_end t \<Longrightarrow> query_text (ESC # CHR '']'' # b @ t)"
| dcs_text: "ESC \<notin> set b \<Longrightarrow> query_text (ESC # CHR ''P'' # b @ [ESC, CHR 0x5C])"

lemma take_takeWhile_self: "take (length (takeWhile P s)) s = takeWhile P s"
  by (metis takeWhile_eq_take)

lemma starts_with_drop:
  assumes "starts_with w (drop i s)"
  shows "take (i + length w) s = take i s @ w"
  using assms by (simp add: starts_with_def take_add)

lemma osc_end_text:
  assumes "osc_end i s = Some n" and "i \<le> length s"
  shows "\<exists>t. string_end t \<and> take n s = take i s @ CHR '';'' # CHR ''?'' # t \<and> n = i + 2 + length t"
proof (cases "starts_with (CHR '';'' # CHR ''?'' # [BEL]) (drop i s)")
  case True
  then have "n = i + 3" using assms(1) by (simp add: osc_end_def)
  with starts_with_drop [OF True] show ?thesis
    by (intro exI [of _ "[BEL]"]) (simp add: string_end_def eval_nat_numeral)
next
  case False
  then have t: "starts_with (CHR '';'' # CHR ''?'' # ESC # [CHR 0x5C]) (drop i s)" "n = i + 4"
    using assms(1) by (simp_all add: osc_end_def split: if_splits)
  from starts_with_drop [OF t(1)] t(2) show ?thesis
    by (intro exI [of _ "[ESC, CHR 0x5C]"]) (simp add: string_end_def eval_nat_numeral)
qed

lemma csi_chars: "csi_param (CHR ''6'')" "csi_param (CHR ''0'')" "csi_param (CHR ''>'')"
  by (simp_all add: csi_param_def is_digit_def)

lemma query_forms:
  assumes "query_at s (Some n)"
  shows "query_text (take n s) \<and> n \<le> length s"
proof -
  from assms consider "dsr_query s = Some n" | "osc_query s = Some n" | "da_query s = Some n" | "da2_query s = Some n"
    | "decrqss_query s = Some n" by (auto simp: query_at_def)
  then show ?thesis
  proof cases
    case 1
    then obtain r where "s = ESC # ''[6n'' @ r" "n = 4" by (auto simp: dsr_query_def starts_with_iff split: if_splits)
    then show ?thesis using csi_query [of "''6''" "CHR ''n''"] csi_chars by simp
  next
    case 3
    then consider r where "s = ESC # ''[0c'' @ r" "n = 4" | r where "s = ESC # ''[c'' @ r" "n = 3"
      by (auto simp: da_query_def starts_with_iff split: if_splits)
    then show ?thesis using csi_query [of "''0''" "CHR ''c''"] csi_query [of "[]" "CHR ''c''"] csi_chars by cases simp_all
  next
    case 4
    then consider r where "s = ESC # ''[>0c'' @ r" "n = 5" | r where "s = ESC # ''[>c'' @ r" "n = 4"
      by (auto simp: da2_query_def starts_with_iff split: if_splits)
    then show ?thesis using csi_query [of "''>0''" "CHR ''c''"] csi_query [of "''>''" "CHR ''c''"] csi_chars by cases simp_all
  next
    case 5
    then have g: "starts_with (ESC # ''P$q'') s" "starts_with [ESC, CHR 0x5C] (drop (4 + length (takeWhile (\<lambda>c. c \<noteq> ESC) (drop 4 s))) s)"
        "n = 4 + length (takeWhile (\<lambda>c. c \<noteq> ESC) (drop 4 s)) + 2"
      by (auto simp: decrqss_query_def Let_def split: if_splits)
    then obtain r where r: "s = ESC # ''P$q'' @ r" by (auto simp: starts_with_iff)
    let ?b = "takeWhile (\<lambda>c. c \<noteq> ESC) r"
    have four: "drop 4 s = r" using r by simp
    then have "drop (4 + length ?b) s = drop (length ?b) r" by (metis add.commute drop_drop)
    then have d: "starts_with [ESC, CHR 0x5C] (drop (length ?b) r)" "n = 4 + length ?b + 2" using g(2,3) four by simp_all
    then obtain r' where r': "drop (length ?b) r = [ESC, CHR 0x5C] @ r'" by (auto simp: starts_with_iff)
    then have "r = ?b @ [ESC, CHR 0x5C] @ r'" by (metis take_takeWhile_self append_take_drop_id)
    then have "s = (ESC # CHR ''P'' # (''$q'' @ ?b) @ [ESC, CHR 0x5C]) @ r'" using r by simp
    moreover have "n = length (ESC # CHR ''P'' # (''$q'' @ ?b) @ [ESC, CHR 0x5C])" using d by simp
    moreover have "query_text (ESC # CHR ''P'' # (''$q'' @ ?b) @ [ESC, CHR 0x5C])"
      by (rule dcs_text) (auto simp: ESC_def dest: set_takeWhileD)
    ultimately show ?thesis by (metis append_eq_conv_conj length_append le_add1)
  next
    case 2
    define ds where "ds = takeWhile is_digit (drop 2 s)"
    define i where "i = 2 + length ds"
    define sub where "sub = takeWhile (\<lambda>c. c \<noteq> CHR '';'' \<and> c \<noteq> BEL \<and> c \<noteq> ESC) (drop (i + 1) s)"
    have g: "starts_with (ESC # '']'') s"
        "(starts_with '';'' (drop i s) \<and> osc_end (i + 1 + length sub) s = Some n) \<or> osc_end i s = Some n"
      using 2 unfolding osc_query_def Let_def ds_def [symmetric] i_def [symmetric] sub_def [symmetric]
      by (auto split: if_splits option.splits)
    then obtain r where r: "s = ESC # CHR '']'' # r" by (auto simp: starts_with_iff)
    have ds: "take (length ds) r = ds" using take_takeWhile_self [of is_digit r] by (simp add: ds_def r)
    have i: "take i s = ESC # CHR '']'' # ds" "i \<le> length s"
      using r ds length_takeWhile_le [of is_digit r] by (simp_all add: i_def ds_def)
    have clean_ds: "BEL \<notin> set ds" "ESC \<notin> set ds"
      unfolding ds_def by (auto dest!: set_takeWhileD simp: is_digit_def BEL_def ESC_def)
    from g(2) show ?thesis
    proof
      assume o: "osc_end i s = Some n"
      from osc_end_text [OF this i(2)] obtain t where t: "string_end t" "take n s = (ESC # CHR '']'' # ds) @ CHR '';'' # CHR ''?'' # t"
          "n = i + 2 + length t" using i(1) by auto
      have "query_text (ESC # CHR '']'' # (ds @ '';?'') @ t)"
        by (rule osc_text) (use clean_ds t(1) in \<open>auto simp: BEL_def ESC_def\<close>)
      moreover have "n \<le> length s" using arg_cong [OF t(2), of length] t(3) by (simp add: i_def min_def split: if_splits)
      ultimately show ?thesis using t(2) by simp
    next
      assume o: "starts_with '';'' (drop i s) \<and> osc_end (i + 1 + length sub) s = Some n"
      have "take (i + 1) s = take i s @ '';''" using starts_with_drop [of "'';''" i s] o by simp
      moreover have "take (length sub) (drop (i + 1) s) = sub" unfolding sub_def by (rule take_takeWhile_self)
      ultimately have j: "take (i + 1 + length sub) s = ESC # CHR '']'' # (ds @ '';'' @ sub)"
        using i(1) take_add [of "i + 1" "length sub" s] by simp
      have "length (take (i + 1 + length sub) s) = i + 1 + length sub" unfolding j by (simp add: i_def)
      then have jl: "i + 1 + length sub \<le> length s" by simp
      from osc_end_text [OF conjunct2 [OF o] jl] obtain t where t: "string_end t"
          "take n s = (ESC # CHR '']'' # (ds @ '';'' @ sub)) @ CHR '';'' # CHR ''?'' # t" "n = i + 1 + length sub + 2 + length t"
        using j by auto
      have "query_text (ESC # CHR '']'' # (ds @ '';'' @ sub @ '';?'') @ t)"
      proof (rule osc_text)
        show "BEL \<notin> set (ds @ '';'' @ sub @ '';?'')" "ESC \<notin> set (ds @ '';'' @ sub @ '';?'')"
          using clean_ds unfolding sub_def by (auto dest!: set_takeWhileD simp: BEL_def ESC_def)
      qed (rule t(1))
      moreover have "n \<le> length s" using arg_cong [OF t(2), of length] t(3) by (simp add: i_def min_def split: if_splits)
      ultimately show ?thesis using t(2) by simp
    qed
  qed
qed

lemma incomplete_ESC: "incomplete [ESC]"
  by (simp add: incomplete_def starts_with_def at_end_def)

lemma proper_prefix:
  assumes "x @ y = b @ [c]" and "y \<noteq> []"
  shows "\<exists>z. b = x @ z"
proof -
  obtain y' d where "y = y' @ [d]" using assms(2) by (metis rev_exhaust)
  then show ?thesis using assms(1) by auto
qed

lemma query_prefix_incomplete:
  assumes "query_text (x @ y)" and "x \<noteq> []" and "y \<noteq> []"
  shows "incomplete x"
proof -
  have st: "\<not> is_infix [ESC, CHR 0x5C] (b @ [ESC])" if "ESC \<notin> set b" for b
  proof
    assume "is_infix [ESC, CHR 0x5C] (b @ [ESC])"
    then obtain u v where "(b @ [ESC]) = (u @ [ESC]) @ CHR 0x5C # v" by (auto simp: is_infix_iff)
    then obtain z where "b = (u @ [ESC]) @ z" using proper_prefix [of "u @ [ESC]" "CHR 0x5C # v" b ESC] by auto
    with that show False by simp
  qed
  have two: "x = [ESC] \<or> (\<exists>x'. x = ESC # e # x' \<and> x' @ y = b)" if t: "x @ y = ESC # e # b" for e b
  proof -
    from assms(2) obtain d x1 where x: "x = d # x1" by (cases x) auto
    show ?thesis
    proof (cases x1)
      case Nil
      with t x show ?thesis by simp
    next
      case (Cons d' x2)
      with t x show ?thesis by simp
    qed
  qed
  from assms(1) show ?thesis
  proof cases
    case (csi_query ps c)
    from two [OF csi_query(1)] show ?thesis
    proof
      assume "\<exists>x'. x = ESC # CHR ''['' # x' \<and> x' @ y = ps @ [c]"
      then obtain x' where x: "x = ESC # CHR ''['' # x'" "x' @ y = ps @ [c]" by blast
      from proper_prefix [OF x(2) assms(3)] obtain z where "ps = x' @ z" by blast
      then have "dropWhile csi_param x' = []" using csi_query(2) by simp
      then show ?thesis using x(1) by (simp add: incomplete_def starts_with_def at_end_def)
    qed (simp add: incomplete_ESC)
  next
    case (osc_text b t)
    from two [OF osc_text(1)] show ?thesis
    proof
      assume "\<exists>x'. x = ESC # CHR '']'' # x' \<and> x' @ y = b @ t"
      then obtain x' where x: "x = ESC # CHR '']'' # x'" "x' @ y = b @ t" by blast
      have "\<exists>z. b @ butlast t = x' @ z"
        using proper_prefix [of x' y "b @ butlast t" "last t"] x(2) assms(3) osc_text(4) by (auto simp: string_end_def)
      moreover have "BEL \<notin> set (b @ butlast t)" using osc_text(2,4) by (auto simp: string_end_def BEL_def ESC_def)
      ultimately have "BEL \<notin> set x'" by (metis Un_iff set_append)
      then show ?thesis using x(1) by (simp add: incomplete_def starts_with_def)
    qed (simp add: incomplete_ESC)
  next
    case (dcs_text b)
    from two [OF dcs_text(1)] show ?thesis
    proof
      assume "\<exists>x'. x = ESC # CHR ''P'' # x' \<and> x' @ y = b @ [ESC, CHR 0x5C]"
      then obtain x' where x': "x = ESC # CHR ''P'' # x'" "x' @ y = (b @ [ESC]) @ [CHR 0x5C]" by auto
      from proper_prefix [OF x'(2) assms(3)] obtain z where x: "x = ESC # CHR ''P'' # x'" "b @ [ESC] = x' @ z"
        using x'(1) by blast
      then have "\<not> is_infix [ESC, CHR 0x5C] x'" using st [OF dcs_text(2)] unfolding is_infix_iff by (metis append_assoc)
      then show ?thesis using x(1) by (simp add: incomplete_def starts_with_def)
    qed (simp add: incomplete_ESC)
  qed
qed

lemma query_inner_escape:
  assumes "query_text (x @ ESC # p)" and "x \<noteq> []"
  shows "\<exists>p'. p = CHR 0x5C # p'"
proof -
  have inner: "\<exists>p'. p = CHR 0x5C # p'" if "x' @ ESC # p = b @ t" "ESC \<notin> set b" "string_end t" for x' b t
  proof -
    from that(1) consider z where "b = x' @ z" "z @ t = ESC # p" | z where "x' = b @ z" "t = z @ ESC # p"
      by (auto simp: append_eq_append_conv2)
    then show ?thesis
    proof cases
      case 1
      then show ?thesis using that(2,3) by (cases z) (auto simp: string_end_def BEL_def ESC_def)
    next
      case 2
      then show ?thesis using that(3)
        by (cases z; cases "tl z") (auto simp: string_end_def BEL_def ESC_def)
    qed
  qed
  have two: "\<exists>x'. x' @ ESC # p = b" if "x @ ESC # p = ESC # e # b" "e \<noteq> ESC" for e b
    using that assms(2) by (cases x; cases "tl x") auto
  from assms(1) show ?thesis
  proof cases
    case (csi_query ps c)
    from two [OF csi_query(1)] obtain x' where x: "x' @ ESC # p = ps @ [c]" by (auto simp: ESC_def)
    then have "ESC \<in> set (ps @ [c])" by (metis in_set_conv_decomp)
    then show ?thesis using csi_query(2,3) by (auto simp: csi_param_def is_digit_def ESC_def)
  next
    case (osc_text b t)
    from two [OF osc_text(1)] obtain x' where "x' @ ESC # p = b @ t" by (auto simp: ESC_def)
    then show ?thesis using inner osc_text(3,4) by blast
  next
    case (dcs_text b)
    from two [OF dcs_text(1)] obtain x' where "x' @ ESC # p = b @ [ESC, CHR 0x5C]" by (auto simp: ESC_def)
    then show ?thesis using inner [of x' b "[ESC, CHR 0x5C]"] dcs_text(2) by (simp add: string_end_def)
  qed
qed

lemma incomplete_start: "incomplete p \<Longrightarrow> \<exists>r. p = ESC # r \<and> (\<forall>r'. r \<noteq> CHR 0x5C # r')"
  by (auto simp: incomplete_def starts_with_iff at_end_def newline_def Cons_eq_append_conv)

lemma hold_back_parts:
  "hold_back s = (a, p) \<Longrightarrow> s = a @ p \<and> (p = [] \<or> incomplete p) \<and> (\<forall>b c. a = b @ c \<and> c \<noteq> [] \<longrightarrow> \<not> incomplete (c @ p))"
proof (induction s arbitrary: a)
  case (Cons x s)
  show ?case
  proof (cases "incomplete (x # s)")
    case False
    with Cons.prems obtain a' where a: "hold_back s = (a', p)" "a = x # a'" by (auto split: prod.splits)
    with Cons.IH False show ?thesis by (auto simp: Cons_eq_append_conv)
  qed (use Cons.prems in auto)
qed simp

text \<open>A query that starts before the cut ends before it, whatever follows the text.\<close>

definition uncut :: "string \<Rightarrow> string \<Rightarrow> bool" where
  "uncut u v \<longleftrightarrow> (\<forall>x y n. u = x @ y \<and> y \<noteq> [] \<and> query_at (y @ v) (Some n) \<longrightarrow> n \<le> length y)"

lemma hold_back_uncut:
  assumes "hold_back s = (a, p)"
  shows "uncut a (p @ w)"
  unfolding uncut_def
proof (intro allI impI, elim conjE)
  fix x y n assume a: "a = x @ y" "y \<noteq> []" "query_at (y @ p @ w) (Some n)"
  note parts = hold_back_parts [OF assms]
  from query_forms [OF a(3)] have q: "query_text (take n (y @ p @ w))" "n \<le> length (y @ p @ w)" by blast+
  have not_incomplete: "\<not> incomplete (y @ p)" using parts a(1,2) by blast
  show "n \<le> length y"
  proof (rule ccontr)
    assume "\<not> n \<le> length y"
    show False
    proof (cases "length (y @ p) < n")
      case True
      then have "take n (y @ p @ w) = (y @ p) @ take (n - length (y @ p)) w" by simp
      with q(1) have "query_text ((y @ p) @ take (n - length (y @ p)) w)" by metis
      moreover have "take (n - length (y @ p)) w \<noteq> []" using True q(2) by auto
      moreover have "y @ p \<noteq> []" using a(2) by simp
      ultimately show False using query_prefix_incomplete not_incomplete by blast
    next
      case False
      then have "p \<noteq> []" using \<open>\<not> n \<le> length y\<close> by auto
      with parts have "incomplete p" by simp
      from incomplete_start [OF this] obtain r where r: "p = ESC # r" "\<forall>r'. r \<noteq> CHR 0x5C # r'" by blast
      define k where "k = n - length y"
      have k: "0 < k" "k \<le> length p" using \<open>\<not> n \<le> length y\<close> False by (auto simp: k_def)
      have "take n (y @ p @ w) = y @ take k p" using k by (simp add: k_def)
      also have "\<dots> = y @ ESC # take (k - 1) r" using k(1) r(1) by (cases k) auto
      finally have "query_text (y @ ESC # take (k - 1) r)" using q(1) by simp
      from query_inner_escape [OF this a(2)] obtain p' where "take (k - 1) r = CHR 0x5C # p'" by blast
      then have "\<exists>r'. r = CHR 0x5C # r'" by (metis append_Cons append_take_drop_id)
      then show False using r(2) by blast
    qed
  qed
qed

text \<open>The raw pieces of a sequence of outputs.\<close>

fun raw_pieces :: "string \<Rightarrow> string list \<Rightarrow> string list" where
  "raw_pieces pending [] = [pending]"
| "raw_pieces pending (c # cs) = (case hold_back (pending @ c) of (a, p) \<Rightarrow> a # raw_pieces p cs)"

lemma filter_chunks_pieces: "filter_chunks pending cs = map filter_complete_queries (raw_pieces pending cs)"
  by (induction cs arbitrary: pending) (auto simp: filter_flush_def filter_output_def split: prod.splits)

lemma concat_pieces: "concat (raw_pieces pending cs) = pending @ concat cs"
proof (induction cs arbitrary: pending)
  case (Cons c cs)
  obtain a p where h: "hold_back (pending @ c) = (a, p)" by (cases "hold_back (pending @ c)")
  with hold_back_parts [OF h] Cons.IH [of p] show ?case by simp
qed simp

lemma pieces_uncut:
  "raw_pieces pending cs = xs @ ys \<Longrightarrow> uncut (concat xs) (concat ys)"
proof (induction cs arbitrary: pending xs)
  case Nil
  then have "xs = [] \<or> (ys = [] \<and> concat xs = pending)" by (auto simp: Cons_eq_append_conv)
  then show ?case using query_forms by (auto simp: uncut_def)
next
  case (Cons c cs)
  obtain a p where h: "hold_back (pending @ c) = (a, p)" by (cases "hold_back (pending @ c)")
  show ?case
  proof (cases xs)
    case Nil
    then show ?thesis by (simp add: uncut_def)
  next
    case (Cons x xs')
    with Cons.prems h have x: "x = a" "raw_pieces p cs = xs' @ ys" by auto
    have all: "concat xs' @ concat ys = p @ concat cs" using concat_pieces [of p cs] x(2) by simp
    have ih: "uncut (concat xs') (concat ys)" using Cons.IH x(2) by blast
    have first: "uncut a (concat xs' @ concat ys)" using hold_back_uncut [OF h, of "concat cs"] all by simp
    show ?thesis
      unfolding uncut_def
    proof (intro allI impI, elim conjE)
      fix u y n assume y: "concat xs = u @ y" "y \<noteq> []" "query_at (y @ concat ys) (Some n)"
      have "a @ concat xs' = u @ y" using y(1) Cons x(1) by simp
      then have "(\<exists>z. a = u @ z \<and> y = z @ concat xs' \<and> z \<noteq> []) \<or> (\<exists>z. u = a @ z \<and> concat xs' = z @ y)"
        unfolding append_eq_append_conv2 by (metis append_Nil append_Nil2)
      then consider z where "a = u @ z" "y = z @ concat xs'" "z \<noteq> []"
        | z where "u = a @ z" "concat xs' = z @ y" by blast
      then show "n \<le> length y"
      proof cases
        case 1
        then have "query_at (z @ concat xs' @ concat ys) (Some n)" using y(3) by simp
        then have "n \<le> length z" using first 1 unfolding uncut_def by blast
        then show ?thesis using 1(2) by simp
      next
        case 2
        then show ?thesis using ih y(2,3) unfolding uncut_def by blast
      qed
    qed
  qed
qed

section \<open>Properties\<close>

lemma plain_held_back: "ESC \<notin> set s \<Longrightarrow> hold_back s = (s, [])"
  by (induction s) (auto simp: incomplete_def starts_with_def)

lemma no_query_without_escape:
  assumes "ESC \<notin> set s" and "q \<in> {dsr_query, osc_query, da_query, da2_query, decrqss_query}"
  shows "q s = None"
proof (rule ccontr)
  assume "q s \<noteq> None"
  then have "starts_with [ESC] s" using assms(2)
    by (auto simp: dsr_query_def osc_query_def da_query_def da2_query_def decrqss_query_def starts_with_iff Let_def
        split: if_splits)
  with assms(1) show False by (auto simp: starts_with_iff)
qed

lemma plain_filtered: "ESC \<notin> set s \<Longrightarrow> filter_complete_queries s = s"
proof -
  assume s: "ESC \<notin> set s"
  have "re_sub (removes q) s = s" if "q \<in> {dsr_query, osc_query, da_query, da2_query, decrqss_query}" for q
  proof -
    have "\<not> has_match (removes q) p t" if "ESC \<notin> set t" for p t
      using that
    proof (induction t arbitrary: p)
      case (Cons c t)
      then show ?case using no_query_without_escape [of "c # t" q] \<open>q \<in> _\<close> by (simp add: removes_def)
    qed simp
    then show ?thesis unfolding re_sub_def by (rule sub_no_match) (rule s)
  qed
  then show ?thesis by (simp add: filter_complete_queries_def)
qed

text \<open>
  C36: However the output of a command is cut into chunks, the pieces the filter removes queries from make up the
  whole output and no query, wherever it starts, is cut between two of them.
\<close>

theorem no_query_is_cut:
  "\<exists>pieces. filter_chunks [] chunks = map filter_complete_queries pieces \<and> concat pieces = concat chunks \<and>
     (\<forall>i. uncut (concat (take i pieces)) (concat (drop i pieces)))"
proof (intro exI conjI allI)
  show "filter_chunks [] chunks = map filter_complete_queries (raw_pieces [] chunks)" by (rule filter_chunks_pieces)
  show "concat (raw_pieces [] chunks) = concat chunks" by (simp add: concat_pieces)
  show "uncut (concat (take i (raw_pieces [] chunks))) (concat (drop i (raw_pieces [] chunks)))" for i
    by (rule pieces_uncut [of "[]" chunks]) simp
qed

theorem plain_output_is_kept:
  assumes "ESC \<notin> set output"
  shows "filter_output [] output = (output, [])"
  using plain_held_back [OF assms] plain_filtered [OF assms] by (simp add: filter_output_def)

text \<open>
  A title or a link that ends by the string terminator instead of the bell counts as unfinished: all output after it is
  held back until a bell or the end of the command, so it is missing from what a timeout reports.
\<close>

theorem string_terminator_holds_output:
  assumes "BEL \<notin> set t" and "BEL \<notin> set output"
  shows "filter_output [] (ESC # CHR '']'' # t @ [ESC, CHR 0x5C] @ output) =
    ([], ESC # CHR '']'' # t @ [ESC, CHR 0x5C] @ output)"
proof -
  have "incomplete (ESC # CHR '']'' # t @ [ESC, CHR 0x5C] @ output)"
    using assms by (simp add: incomplete_def starts_with_def BEL_def ESC_def)
  then show ?thesis by (simp add: filter_output_def filter_complete_queries_def re_sub_def)
qed

text \<open>
  The patterns are applied one after the other, once each: a query around another one is put together by
  the removal and remains.
\<close>

theorem nested_query_survives:
  "filter_terminal_queries ([ESC] @ (ESC # '']10;?'' @ [BEL]) @ ''[6n'') = ESC # ''[6n''"
  by (simp add: filter_terminal_queries_def filter_output_def filter_flush_def incomplete_def starts_with_def at_end_def
      filter_complete_queries_def re_sub_def removes_def dsr_query_def osc_query_def osc_end_def da_query_def
      da2_query_def decrqss_query_def ESC_def BEL_def is_digit_def csi_param_def newline_def)

end
