(* ===== verification/Redaction.thy ===== *)
theory Redaction
  imports Substitution Messages
begin

text \<open>
  \<open>sdk/utils/redact.py\<close>: secrets in structured data, found by the names of keys, and in texts, found
  by patterns. Both are shown to hide what they should; the parsing of URLs is left out.
\<close>

section \<open>Structured data\<close>

text \<open>\<open>str.upper()\<close> on the characters of Latin-1 that change within it; the sharp s becomes two letters.\<close>

definition upper_text :: "char \<Rightarrow> string" where
  "upper_text c =
     (let n = of_char c :: nat
      in if n = 223 then ''SS''
         else if (97 \<le> n \<and> n \<le> 122) \<or> (224 \<le> n \<and> n \<le> 254 \<and> n \<noteq> 247) then [char_of (n - 32)]
         else [c])"

definition py_upper :: "string \<Rightarrow> string" where
  "py_upper s = concat (map upper_text s)"

definition SECRET_KEY_PATTERNS :: "string list" where
  "SECRET_KEY_PATTERNS =
     [''AUTHORIZATION'', ''COOKIE'', ''CREDENTIAL'', ''KEY'', ''PASSWORD'', ''SECRET'', ''SESSION'', ''TOKEN'']"

definition REDACT_ALL_VALUES_KEYS :: "string list" where
  "REDACT_ALL_VALUES_KEYS = [''environment'', ''env'', ''headers'', ''acp_env'']"

definition is_secret_key :: "string \<Rightarrow> bool" where
  "is_secret_key key \<longleftrightarrow> list_ex (\<lambda>pat. is_infix pat (py_upper key)) SECRET_KEY_PATTERNS"

definition redacts_all :: "string \<Rightarrow> bool" where
  "redacts_all key \<longleftrightarrow> List.member REDACT_ALL_VALUES_KEYS (py_lower key)"

definition REDACTED :: string where
  "REDACTED = ''<redacted>''"

fun redact_all_values :: "json \<Rightarrow> json" where
  "redact_all_values (JObj d) = JObj (map (\<lambda>e. (fst e, redact_all_values (snd e))) d)"
| "redact_all_values (JList xs) = JList (map redact_all_values xs)"
| "redact_all_values v = JStr REDACTED"

fun sanitize_dict :: "json \<Rightarrow> json" where
  "sanitize_dict (JObj d) =
     JObj (map (\<lambda>e. (fst e,
        if redacts_all (fst e) then redact_all_values (snd e)
        else if is_secret_key (fst e) then JStr REDACTED
        else sanitize_dict (snd e))) d)"
| "sanitize_dict (JList xs) = JList (map sanitize_dict xs)"
| "sanitize_dict v = v"

text \<open>
  What the result may depend on: of the values to be redacted altogether their shape, of a value with a secret name
  nothing, and everything else.
\<close>

inductive same_shape :: "json \<Rightarrow> json \<Rightarrow> bool" where
  shape_obj: "list_all2 (\<lambda>e e'. fst e = fst e' \<and> same_shape (snd e) (snd e')) d d' \<Longrightarrow> same_shape (JObj d) (JObj d')"
| shape_list: "list_all2 same_shape xs ys \<Longrightarrow> same_shape (JList xs) (JList ys)"
| shape_scalar: "redact_all_values v = JStr REDACTED \<Longrightarrow> redact_all_values w = JStr REDACTED \<Longrightarrow> same_shape v w"
monos list_all2_mono

inductive same_public :: "json \<Rightarrow> json \<Rightarrow> bool" where
  public_obj: "list_all2 (\<lambda>e e'. fst e = fst e' \<and>
       (redacts_all (fst e) \<and> same_shape (snd e) (snd e') \<or>
        \<not> redacts_all (fst e) \<and> (is_secret_key (fst e) \<or> same_public (snd e) (snd e')))) d d' \<Longrightarrow>
     same_public (JObj d) (JObj d')"
| public_list: "list_all2 same_public xs ys \<Longrightarrow> same_public (JList xs) (JList ys)"
| public_scalar: "same_public v v"
monos list_all2_mono

lemma map_eq_map: "map f xs = map g ys \<longleftrightarrow> list_all2 (\<lambda>x y. f x = g y) xs ys"
  by (auto simp: list_all2_conv_all_nth list_eq_iff_nth_eq)

lemma redact_all_shape: "redact_all_values a = redact_all_values b \<longleftrightarrow> same_shape a b"
proof
  show "same_shape a b \<Longrightarrow> redact_all_values a = redact_all_values b"
    by (induction rule: same_shape.induct) (auto simp: map_eq_map elim: list_all2_mono)
next
  show "redact_all_values a = redact_all_values b \<Longrightarrow> same_shape a b"
  proof (induction a arbitrary: b rule: redact_all_values.induct)
    case (1 d)
    from "1.prems" obtain d' where b: "b = JObj d'" by (cases b) (auto simp: REDACTED_def)
    with "1.prems" have "list_all2 (\<lambda>e e'. fst e = fst e' \<and> redact_all_values (snd e) = redact_all_values (snd e')) d d'"
      by (simp add: map_eq_map)
    then have "list_all2 (\<lambda>e e'. fst e = fst e' \<and> same_shape (snd e) (snd e')) d d'"
      by (rule list.rel_mono_strong) (use "1.IH" in auto)
    then show ?case using b by (auto intro: shape_obj)
  next
    case (2 xs)
    from "2.prems" obtain ys where b: "b = JList ys" by (cases b) (auto simp: REDACTED_def)
    with "2.prems" have "list_all2 (\<lambda>x y. redact_all_values x = redact_all_values y) xs ys"
      by (simp add: map_eq_map)
    then have "list_all2 same_shape xs ys" by (rule list.rel_mono_strong) (use "2.IH" in auto)
    then show ?case using b by (auto intro: shape_list)
  qed (auto intro: shape_scalar)
qed

lemma sanitized_scalar:
  "JNull = sanitize_dict b \<Longrightarrow> same_public JNull b"
  "JBool x = sanitize_dict b \<Longrightarrow> same_public (JBool x) b"
  "JInt i = sanitize_dict b \<Longrightarrow> same_public (JInt i) b"
  "JStr t = sanitize_dict b \<Longrightarrow> same_public (JStr t) b"
  by (cases b; auto intro: public_scalar)+

lemma sanitize_public: "sanitize_dict a = sanitize_dict b \<longleftrightarrow> same_public a b"
proof
  show "same_public a b \<Longrightarrow> sanitize_dict a = sanitize_dict b"
    by (induction rule: same_public.induct) (auto simp: map_eq_map redact_all_shape elim!: list_all2_mono)
next
  show "sanitize_dict a = sanitize_dict b \<Longrightarrow> same_public a b"
  proof (induction a arbitrary: b rule: sanitize_dict.induct)
    case (1 d)
    from "1.prems" obtain d' where b: "b = JObj d'" by (cases b) auto
    let ?f = "\<lambda>e. if redacts_all (fst e) then redact_all_values (snd e)
        else if is_secret_key (fst e) then JStr REDACTED else sanitize_dict (snd e)"
    from "1.prems" b have "list_all2 (\<lambda>e e'. fst e = fst e' \<and> ?f e = ?f e') d d'"
      by (simp add: map_eq_map)
    then have "list_all2 (\<lambda>e e'. fst e = fst e' \<and>
       (redacts_all (fst e) \<and> same_shape (snd e) (snd e') \<or>
        \<not> redacts_all (fst e) \<and> (is_secret_key (fst e) \<or> same_public (snd e) (snd e')))) d d'"
    proof (rule list.rel_mono_strong)
      fix e e' assume e: "e \<in> set d" "e' \<in> set d'" "fst e = fst e' \<and> ?f e = ?f e'"
      consider "redacts_all (fst e)" | "\<not> redacts_all (fst e)" "is_secret_key (fst e)"
        | "\<not> redacts_all (fst e)" "\<not> is_secret_key (fst e)" by blast
      then show "fst e = fst e' \<and> (redacts_all (fst e) \<and> same_shape (snd e) (snd e') \<or>
        \<not> redacts_all (fst e) \<and> (is_secret_key (fst e) \<or> same_public (snd e) (snd e')))"
      proof cases
        case 1
        with e(3) show ?thesis by (simp add: redact_all_shape)
      next
        case 2
        with e(3) show ?thesis by simp
      next
        case 3
        with e(3) have "sanitize_dict (snd e) = sanitize_dict (snd e')" by simp
        with "1.IH" [OF e(1) 3] 3 e(3) show ?thesis by simp
      qed
    qed
    then show ?case using b by (auto intro: public_obj)
  next
    case (2 xs)
    from "2.prems" obtain ys where b: "b = JList ys" by (cases b) auto
    with "2.prems" have "list_all2 (\<lambda>x y. sanitize_dict x = sanitize_dict y) xs ys" by (simp add: map_eq_map)
    then have "list_all2 same_public xs ys" by (rule list.rel_mono_strong) (use "2.IH" in auto)
    then show ?case using b by (auto intro: public_list)
  qed (unfold sanitize_dict.simps, (erule sanitized_scalar)+)
qed

section \<open>Texts\<close>

definition q1 :: char where "q1 = CHR 0x27"
definition q2 :: char where "q2 = CHR 0x22"

text \<open>\<open>api_key='[^']*'\<close>, for either quote.\<close>

definition match_api_key :: "char \<Rightarrow> matcher" where
  "match_api_key q p s =
     (let opening = ''api_key='' @ [q]; v = takeWhile (\<lambda>c. c \<noteq> q) (drop (length opening) s)
      in if starts_with opening s \<and> length opening + length v < length s
         then Some (length opening + length v + 1, opening @ REDACTED @ [q]) else None)"

text \<open>The quoted value after the first \<open>k\<close> characters and some spaces.\<close>

definition match_value :: "char \<Rightarrow> nat \<Rightarrow> string \<Rightarrow> (nat \<times> string) option" where
  "match_value q k s =
     (let spaces = takeWhile py_space (drop k s); i = k + length spaces
      in case drop i s of
           [] \<Rightarrow> None
         | c # v \<Rightarrow>
             (let x = takeWhile (\<lambda>c. c \<noteq> q) v
              in if c = q \<and> length x < length v
                 then Some (i + length x + 2, take (i + 1) s @ REDACTED @ [q]) else None))"

definition upper_name_char :: "char \<Rightarrow> bool" where
  "upper_name_char c \<longleftrightarrow> (65 \<le> (of_char c :: nat) \<and> (of_char c :: nat) \<le> 90) \<or> c = CHR ''_''"

text \<open>\<open>('[A-Z_]*(?:KEY|SECRET|TOKEN|PASSWORD)[A-Z_]*':\s*')[^']*(')\<close>; the name is as long as it can be, because a quote follows.\<close>

definition match_entry :: "char \<Rightarrow> matcher" where
  "match_entry q p s =
     (let name = takeWhile upper_name_char (drop 1 s)
      in if starts_with [q] s \<and> starts_with [q, CHR '':''] (drop (1 + length name) s) \<and>
            list_ex (\<lambda>w. is_infix w name) [''KEY'', ''SECRET'', ''TOKEN'', ''PASSWORD'']
         then match_value q (length name + 3) s else None)"

definition match_header :: "string \<Rightarrow> matcher" where
  "match_header name p s =
     (let opening = q1 # name @ [q1, CHR '':'']
      in if starts_with opening s then match_value q1 (length opening) s else None)"

definition URL_PARAMS :: "string list" where
  "URL_PARAMS = [''tavilyApiKey'', ''apiKey'', ''api_key'', ''token'', ''access_token'', ''secret'', ''key'']"

definition param_char :: "char \<Rightarrow> bool" where
  "param_char c \<longleftrightarrow> \<not> py_space c \<and> c \<noteq> CHR ''&'' \<and> c \<noteq> q1 \<and> c \<noteq> q2 \<and> c \<noteq> CHR '')'' \<and> c \<noteq> CHR '']''"

definition match_url_param :: matcher where
  "match_url_param p s =
     (case find (\<lambda>w. starts_with (py_lower w @ ''='') (py_lower s) \<and>
                     takeWhile param_char (drop (length w + 1) s) \<noteq> []) URL_PARAMS of
        None \<Rightarrow> None
      | Some w \<Rightarrow>
          (let i = length w + 1 in Some (i + length (takeWhile param_char (drop i s)), take i s @ REDACTED)))"

text \<open>
  \<open>_API_KEY_LITERAL_RE\<close>: a word boundary, then the first branch whose prefix matches and whose body is
  long enough. A branch gives the length of its prefix, the characters of a body and its least length.
\<close>

definition char_between :: "nat \<Rightarrow> nat \<Rightarrow> char \<Rightarrow> bool" where
  "char_between a b c \<longleftrightarrow> a \<le> (of_char c :: nat) \<and> (of_char c :: nat) \<le> b"

definition alnum :: "char \<Rightarrow> bool" where
  "alnum c \<longleftrightarrow> char_between 65 90 c \<or> char_between 97 122 c \<or> char_between 48 57 c"

definition alnum_and :: "string \<Rightarrow> char \<Rightarrow> bool" where
  "alnum_and others c \<longleftrightarrow> alnum c \<or> List.member others c"

text \<open>The characters of \<open>\w\<close> in Latin-1.\<close>

definition is_word_char :: "char \<Rightarrow> bool" where
  "is_word_char c \<longleftrightarrow> alnum c \<or> c = CHR ''_'' \<or>
     List.member [170, 178, 179, 181, 185, 186, 188, 189, 190] (of_char c :: nat) \<or>
     char_between 192 214 c \<or> char_between 216 246 c \<or> char_between 248 255 c"

type_synonym key_branch = "(string \<Rightarrow> nat option) \<times> (char \<Rightarrow> bool) \<times> nat"

definition after_text :: "string \<Rightarrow> string \<Rightarrow> nat option" where
  "after_text w s = (if starts_with w s then Some (length w) else None)"

text \<open>\<open>sk-ant-(?:api|oat)\d{2}-\<close>, one of the three alternatives that start with \<open>sk-\<close>.\<close>

definition after_ant :: "string \<Rightarrow> nat option" where
  "after_ant s =
     (if starts_with_any [''sk-ant-api'', ''sk-ant-oat''] s \<and>
         (case drop 10 s of a # b # c # _ \<Rightarrow> is_digit a \<and> is_digit b \<and> c = CHR ''-'' | _ \<Rightarrow> False)
      then Some 13 else None)"

definition after_bearer :: "string \<Rightarrow> nat option" where
  "after_bearer s =
     (let spaces = takeWhile py_space (drop 6 s)
      in if starts_with ''Bearer'' s \<and> spaces \<noteq> [] then Some (6 + length spaces) else None)"

definition API_KEY_BRANCHES :: "key_branch list" where
  "API_KEY_BRANCHES =
     [(after_text ''sk-or-v1-'', alnum_and ''_-'', 20),
      (after_text ''sk-proj-'', alnum_and ''_-'', 20),
      (after_ant, alnum_and ''_-'', 20),
      (after_text ''gsk_'', alnum, 20),
      (after_text ''hf_'', alnum, 20),
      (after_text ''tgp_v1_'', alnum_and ''_-'', 20),
      (after_text ''ghp_'', alnum, 20),
      (after_text ''github_pat_'', alnum_and ''_'', 20),
      (after_text ''sk-oh-'', alnum, 20),
      (after_text ''ctx7sk-'', alnum_and ''_-'', 10),
      (after_text ''cla_'', alnum_and ''_-'', 20),
      (after_text ''sntryu_'', alnum, 10),
      (after_text ''lin_api_'', alnum, 10),
      (after_text ''tvly-'', alnum_and ''_-'', 10),
      (after_text ''ATATT3x'', alnum_and ''_-'', 10),
      (after_text ''xoxb-'', alnum_and ''_-'', 20),
      (after_text ''xoxp-'', alnum_and ''_-'', 20),
      (after_bearer, alnum_and ''_.-'', 20)]"

definition match_branch :: "key_branch \<Rightarrow> string \<Rightarrow> nat option" where
  "match_branch b s =
     (case b of (pre, body, k) \<Rightarrow>
        (case pre s of
           None \<Rightarrow> None
         | Some n \<Rightarrow>
             (let m = length (takeWhile body (drop n s)) in if k \<le> m then Some (n + m) else None)))"

fun first_branch :: "key_branch list \<Rightarrow> string \<Rightarrow> nat option" where
  "first_branch [] s = None"
| "first_branch (b # bs) s = (case match_branch b s of Some n \<Rightarrow> Some n | None \<Rightarrow> first_branch bs s)"

definition match_key_literal :: matcher where
  "match_key_literal p s =
     (if (case p of None \<Rightarrow> True | Some c \<Rightarrow> \<not> is_word_char c)
      then map_option (\<lambda>n. (n, REDACTED)) (first_branch API_KEY_BRANCHES s) else None)"

definition redact_api_key_literals :: "string \<Rightarrow> string" where
  "redact_api_key_literals s = re_sub match_key_literal s"

definition redact_text_secrets :: "string \<Rightarrow> string" where
  "redact_text_secrets s =
     redact_api_key_literals
       (foldl (\<lambda>t m. re_sub m t) s
         [match_api_key q1, match_api_key q2, match_entry q1, match_entry q2, match_url_param,
          match_header ''Authorization'', match_header ''X-Session-API-Key''])"

section \<open>No key of a known form is left\<close>

text \<open>
  What each branch guarantees: its prefix starts with a letter, holds no bracket and, when a body follows, is found
  whatever comes after it.
\<close>

definition branch_ok :: "key_branch \<Rightarrow> bool" where
  "branch_ok b \<longleftrightarrow> (case b of (pre, body, k) \<Rightarrow>
     0 < k \<and> \<not> body (CHR ''<'') \<and> (\<forall>c. alnum c \<longrightarrow> body c) \<and>
     (\<forall>s n. pre s = Some n \<longrightarrow> 0 < n \<and> n \<le> length s \<and> CHR ''<'' \<notin> set (take n s) \<and> alnum (hd s)) \<and>
     (\<forall>x c y z. pre (x @ c # y) = Some (length x) \<and> body c \<longrightarrow> pre (x @ c # z) = Some (length x)))"

lemma branch_text:
  assumes "w \<noteq> []" "alnum (hd w)" "CHR ''<'' \<notin> set w" "0 < k" "\<not> body (CHR ''<'')" "\<And>c. alnum c \<Longrightarrow> body c"
  shows "branch_ok (after_text w, body, k)"
  using assms by (auto simp: branch_ok_def after_text_def starts_with_iff)

lemma alnum_less: "\<not> alnum (CHR ''<'')" "\<not> alnum (CHR ''>'')"
  by (simp_all add: alnum_def char_between_def)

lemma alnum_not_space: "alnum c \<Longrightarrow> \<not> py_space c"
  by (auto simp: alnum_def char_between_def py_space_def)

lemma space_not_less: "\<not> py_space (CHR ''<'')"
  by (simp add: py_space_def)

lemma alnum_sk: "alnum (CHR ''s'')" "alnum (CHR ''B'')"
  by (simp_all add: alnum_def char_between_def)

lemma after_ant_iff:
  "after_ant s = Some n \<longleftrightarrow> n = 13 \<and> (\<exists>w a b r. s = w @ a # b # CHR ''-'' # r \<and>
     w \<in> {''sk-ant-api'', ''sk-ant-oat''} \<and> is_digit a \<and> is_digit b)"
proof
  assume "after_ant s = Some n"
  then have n: "n = 13" and w: "starts_with ''sk-ant-api'' s \<or> starts_with ''sk-ant-oat'' s"
    and t: "case drop 10 s of a # b # c # _ \<Rightarrow> is_digit a \<and> is_digit b \<and> c = CHR ''-'' | _ \<Rightarrow> False"
    by (simp_all add: after_ant_def starts_with_any_def split: if_splits)
  from t obtain a b r where "drop 10 s = a # b # CHR ''-'' # r" "is_digit a" "is_digit b"
    by (auto split: list.splits)
  moreover have "take 10 s \<in> {''sk-ant-api'', ''sk-ant-oat''}"
    using w by (auto simp: starts_with_def numeral_eq_Suc)
  moreover have "s = take 10 s @ drop 10 s" by simp
  ultimately show "n = 13 \<and> (\<exists>w a b r. s = w @ a # b # CHR ''-'' # r \<and>
     w \<in> {''sk-ant-api'', ''sk-ant-oat''} \<and> is_digit a \<and> is_digit b)"
    using n by metis
qed (auto simp: after_ant_def starts_with_any_def starts_with_def)

lemma after_ant_covered:
  assumes "after_ant (u @ v) = Some (length u)"
  shows "after_ant (u @ w) = Some (length u)"
proof -
  from assms obtain x a b r where x: "u @ v = (x @ [a, b, CHR ''-'']) @ r" "x \<in> {''sk-ant-api'', ''sk-ant-oat''}"
      "is_digit a" "is_digit b" "length u = 13"
    by (auto simp: after_ant_iff)
  then have "u = x @ [a, b, CHR ''-'']" using append_eq_append_conv [of u "x @ [a, b, CHR ''-'']" v r] by auto
  then have "u @ w = x @ a # b # CHR ''-'' # w" by simp
  with x(2-5) show ?thesis unfolding after_ant_iff by blast
qed

lemma after_ant_found:
  assumes "after_ant s = Some n"
  shows "0 < n \<and> n \<le> length s \<and> CHR ''<'' \<notin> set (take n s) \<and> alnum (hd s)"
  using assms by (auto simp: after_ant_iff alnum_sk is_digit_def)

lemma branch_ant:
  assumes "0 < k" "\<not> body (CHR ''<'')" "\<And>c. alnum c \<Longrightarrow> body c"
  shows "branch_ok (after_ant, body, k)"
  using assms after_ant_covered after_ant_found by (auto simp: branch_ok_def)

lemma takeWhile_split_iff:
  "takeWhile P s = w \<longleftrightarrow> (\<exists>r. s = w @ r \<and> (\<forall>c \<in> set w. P c) \<and> (r = [] \<or> \<not> P (hd r)))"
proof
  assume w: "takeWhile P s = w"
  have "s = w @ dropWhile P s" using w by (metis takeWhile_dropWhile_id)
  moreover have "\<forall>c \<in> set w. P c" using w by (metis set_takeWhileD)
  moreover have "dropWhile P s = [] \<or> \<not> P (hd (dropWhile P s))" using hd_dropWhile by blast
  ultimately show "\<exists>r. s = w @ r \<and> (\<forall>c \<in> set w. P c) \<and> (r = [] \<or> \<not> P (hd r))" by blast
next
  assume "\<exists>r. s = w @ r \<and> (\<forall>c \<in> set w. P c) \<and> (r = [] \<or> \<not> P (hd r))"
  then obtain r where r: "s = w @ r" "\<forall>c \<in> set w. P c" "r = [] \<or> \<not> P (hd r)" by blast
  from r(3) have "takeWhile P r = []" by (cases r) auto
  with r(1,2) show "takeWhile P s = w" by simp
qed

lemma after_bearer_iff:
  "after_bearer s = Some n \<longleftrightarrow> (\<exists>w r. s = (''Bearer'' @ w) @ r \<and> w \<noteq> [] \<and> (\<forall>c \<in> set w. py_space c) \<and>
     (r = [] \<or> \<not> py_space (hd r)) \<and> n = length (''Bearer'' @ w))"
proof
  assume "after_bearer s = Some n"
  then obtain t where t: "s = ''Bearer'' @ t" "takeWhile py_space t \<noteq> []" "n = 6 + length (takeWhile py_space t)"
    by (auto simp: after_bearer_def starts_with_iff Let_def split: if_splits)
  obtain w where w: "takeWhile py_space t = w" by simp
  then obtain r where "t = w @ r" "\<forall>c \<in> set w. py_space c" "r = [] \<or> \<not> py_space (hd r)"
    using takeWhile_split_iff [of py_space t w] by blast
  with t w show "\<exists>w r. s = (''Bearer'' @ w) @ r \<and> w \<noteq> [] \<and> (\<forall>c \<in> set w. py_space c) \<and>
     (r = [] \<or> \<not> py_space (hd r)) \<and> n = length (''Bearer'' @ w)"
    by (intro exI [of _ w] exI [of _ r]) simp
next
  assume "\<exists>w r. s = (''Bearer'' @ w) @ r \<and> w \<noteq> [] \<and> (\<forall>c \<in> set w. py_space c) \<and>
     (r = [] \<or> \<not> py_space (hd r)) \<and> n = length (''Bearer'' @ w)"
  then obtain w r where s: "s = (''Bearer'' @ w) @ r" "w \<noteq> []" "\<forall>c \<in> set w. py_space c"
      "r = [] \<or> \<not> py_space (hd r)" "n = length (''Bearer'' @ w)" by blast
  then have "takeWhile py_space (w @ r) = w" using takeWhile_split_iff [of py_space "w @ r" w] by blast
  with s show "after_bearer s = Some n" by (simp add: after_bearer_def starts_with_def)
qed

lemma after_bearer_found:
  assumes "after_bearer s = Some n"
  shows "0 < n \<and> n \<le> length s \<and> CHR ''<'' \<notin> set (take n s) \<and> alnum (hd s)"
  using assms space_not_less by (auto simp: after_bearer_iff alnum_sk)

lemma after_bearer_covered:
  assumes "after_bearer (x @ c # y) = Some (length x)" and "\<not> py_space c"
  shows "after_bearer (x @ c # z) = Some (length x)"
proof -
  from assms(1) obtain w r where w: "x @ c # y = (''Bearer'' @ w) @ r" "w \<noteq> []" "\<forall>c \<in> set w. py_space c"
      "length x = length (''Bearer'' @ w)"
    unfolding after_bearer_iff by blast
  then have "x = ''Bearer'' @ w" using append_eq_append_conv [of x "''Bearer'' @ w" "c # y" r] by blast
  then have "x @ c # z = (''Bearer'' @ w) @ c # z" by simp
  with w(2-4) assms(2) show ?thesis unfolding after_bearer_iff by (metis list.sel(1))
qed

lemma branch_bearer:
  assumes "0 < k" "\<not> body (CHR ''<'')" "\<And>c. alnum c \<Longrightarrow> body c" "\<And>c. body c \<Longrightarrow> \<not> py_space c"
  shows "branch_ok (after_bearer, body, k)"
  unfolding branch_ok_def using assms after_bearer_found after_bearer_covered by simp blast

lemma body_ok: "CHR ''<'' \<notin> set cs \<Longrightarrow> \<not> alnum_and cs (CHR ''<'')" "alnum c \<Longrightarrow> alnum_and cs c"
  using alnum_less by (auto simp: alnum_and_def)

lemma branches_ok: "\<forall>b \<in> set API_KEY_BRANCHES. branch_ok b"
proof -
  have a: "alnum (CHR ''g'')" "alnum (CHR ''h'')" "alnum (CHR ''t'')" "alnum (CHR ''s'')" "alnum (CHR ''c'')"
      "alnum (CHR ''l'')" "alnum (CHR ''A'')" "alnum (CHR ''x'')"
    by (simp_all add: alnum_def char_between_def)
  have n: "CHR ''<'' \<notin> set ''_-''" "CHR ''<'' \<notin> set ''_''" "CHR ''<'' \<notin> set ''_.-''" by simp_all
  have s: "alnum_and ''_.-'' c \<Longrightarrow> \<not> py_space c" for c
    using alnum_not_space by (auto simp: alnum_and_def py_space_def)
  show ?thesis
    unfolding API_KEY_BRANCHES_def
    by (auto intro!: branch_ant branch_bearer branch_text body_ok a n alnum_less s)
qed

lemma first_branch_None: "first_branch bs s = None \<longleftrightarrow> (\<forall>b \<in> set bs. match_branch b s = None)"
  by (induction bs) (auto split: option.splits)

lemma first_branch_Some: "first_branch bs s = Some n \<Longrightarrow> \<exists>b \<in> set bs. match_branch b s = Some n"
  by (induction bs) (auto split: option.splits)

lemma match_branchE:
  assumes "branch_ok b" and "match_branch b s = Some n"
  obtains pre body k x t r where "b = (pre, body, k)" "s = x @ t @ r" "n = length x + length t" "k \<le> length t"
    "0 < length x" "\<forall>c \<in> set t. body c" "r = [] \<or> \<not> body (hd r)" "CHR ''<'' \<notin> set x" "alnum (hd s)"
    "\<not> body (CHR ''<'')" "\<forall>c. alnum c \<longrightarrow> body c" "\<And>z. pre (x @ t @ z) = Some (length x)"
proof -
  obtain pre body k where b: "b = (pre, body, k)" by (cases b) auto
  obtain m t where m: "pre s = Some m" "takeWhile body (drop m s) = t" "k \<le> length t" "n = m + length t"
    using assms(2) by (auto simp: b match_branch_def Let_def split: option.splits if_splits)
  have ok: "0 < k \<and> \<not> body (CHR ''<'') \<and> (\<forall>c. alnum c \<longrightarrow> body c)"
    and found: "0 < m \<and> m \<le> length s \<and> CHR ''<'' \<notin> set (take m s) \<and> alnum (hd s)"
    using assms(1) m(1) unfolding b branch_ok_def by simp_all
  have covered: "\<forall>x c y z. pre (x @ c # y) = Some (length x) \<and> body c \<longrightarrow> pre (x @ c # z) = Some (length x)"
    using assms(1) unfolding b branch_ok_def prod.case by (elim conjE)
  obtain r where r: "drop m s = t @ r" "\<forall>c \<in> set t. body c" "r = [] \<or> \<not> body (hd r)"
    using m(2) takeWhile_split_iff [of body "drop m s" t] by blast
  let ?x = "take m s"
  have s: "s = ?x @ t @ r" using r(1) by (metis append_take_drop_id)
  have x: "length ?x = m" using found by simp
  obtain c t' where t: "t = c # t'" using m(3) ok by (cases t) auto
  have "pre (?x @ c # t' @ r) = Some (length ?x)" using s m(1) x t by (metis append_Cons)
  moreover have "body c" using r(2) t by simp
  ultimately have "pre (?x @ c # z) = Some (length ?x)" for z using covered by blast
  then have "pre (?x @ t @ z) = Some (length ?x)" for z using t by (metis append_Cons)
  then show thesis using that [OF b s] m x ok found r by simp
qed

lemma match_branch_bounds:
  assumes "branch_ok b" and "match_branch b s = Some n"
  shows "0 < n \<and> n \<le> length s \<and> CHR ''<'' \<notin> set (take n s) \<and> alnum (hd s)"
  by (rule match_branchE [OF assms]) auto

lemma match_branch_covers:
  assumes "branch_ok b" and "match_branch b (u @ v) = Some (length u)"
  shows "match_branch b (u @ w) \<noteq> None"
proof (rule match_branchE [OF assms])
  fix pre body k x t r
  assume g: "b = (pre, body, k)" "u @ v = x @ t @ r" "length u = length x + length t" "k \<le> length t"
    "\<forall>c \<in> set t. body c" "\<And>z. pre (x @ t @ z) = Some (length x)"
  have u: "u = x @ t" using g(2,3) append_eq_append_conv [of u "x @ t" v r] by simp
  have "takeWhile body (t @ w) = t @ takeWhile body w" using g(5) by simp
  then show ?thesis using g(1,4,6) u by (simp add: match_branch_def Let_def)
qed

lemma match_branch_maximal:
  assumes "branch_ok b" and "match_branch b s = Some n"
  shows "drop n s = [] \<or> \<not> alnum (hd (drop n s))"
  by (rule match_branchE [OF assms]) auto

lemma no_branch_without_letter:
  assumes "s = [] \<or> \<not> alnum (hd s)"
  shows "first_branch API_KEY_BRANCHES s = None"
proof -
  have "match_branch b s = None" if b: "b \<in> set API_KEY_BRANCHES" for b
  proof (rule ccontr)
    assume "match_branch b s \<noteq> None"
    then obtain n where "match_branch b s = Some n" by auto
    with match_branch_bounds [of b s n] b branches_ok assms show False by auto
  qed
  then show ?thesis by (simp add: first_branch_None)
qed

definition KEY_PREFIXES :: "string list" where
  "KEY_PREFIXES =
     [''sk-'', ''gsk_'', ''hf_'', ''tgp_v1_'', ''ghp_'', ''github_pat_'', ''ctx7sk-'', ''cla_'', ''sntryu_'', ''lin_api_'',
      ''tvly-'', ''ATATT3x'', ''xox'', ''Bearer'']"

lemma starts_with_take: "starts_with w s \<Longrightarrow> starts_with (take n w) s"
  by (auto simp: starts_with_iff) (metis append_assoc append_take_drop_id)

lemma no_branch_without_prefix:
  assumes "\<And>w. w \<in> set KEY_PREFIXES \<Longrightarrow> \<not> starts_with w s"
  shows "first_branch API_KEY_BRANCHES s = None"
proof -
  have no: "\<not> starts_with w s" if "take n w \<in> set KEY_PREFIXES" for w n
    using assms [OF that] starts_with_take [of w s n] by blast
  have "after_text w s = None"
    if "w \<in> set [''sk-or-v1-'', ''sk-proj-'', ''gsk_'', ''hf_'', ''tgp_v1_'', ''ghp_'', ''github_pat_'', ''sk-oh-'', ''ctx7sk-'',
      ''cla_'', ''sntryu_'', ''lin_api_'', ''tvly-'', ''ATATT3x'', ''xoxb-'', ''xoxp-'']" for w
  proof -
    have "take 3 w \<in> set KEY_PREFIXES \<or> take (length w) w \<in> set KEY_PREFIXES"
      using that unfolding list.set by (elim insertE emptyE; simp add: KEY_PREFIXES_def)
    then show ?thesis using no [of 3 w] no [of "length w" w] by (auto simp: after_text_def)
  qed
  moreover have "after_ant s = None" "after_bearer s = None"
    using no [of 3 "''sk-ant-api''"] no [of 3 "''sk-ant-oat''"] no [of 6 "''Bearer''"]
    by (simp_all add: after_ant_def after_bearer_def starts_with_any_def KEY_PREFIXES_def)
  ultimately show ?thesis
    by (simp add: API_KEY_BRANCHES_def match_branch_def)
qed

lemma no_branch_in_mark:
  assumes "REDACTED = x @ y" and "y \<noteq> []"
  shows "first_branch API_KEY_BRANCHES (y @ t) = None"
proof -
  have "y = drop (length x) REDACTED" using arg_cong [OF assms(1), of "drop (length x)"] by simp
  moreover have "length x + length y = 10" using assms(1) 
  proof -
    have "length REDACTED = length x + length y" unfolding assms(1) by (rule length_append)
    then show ?thesis by (simp add: REDACTED_def)
  qed
  ultimately have "y \<in> (\<lambda>i. drop i REDACTED) ` {..<10}" using assms(2) by (cases y) auto
  also have "{..<10} = {0, 1, 2, 3, 4, 5, 6, 7, 8, 9 :: nat}" by auto
  finally have "y \<in> {''<redacted>'', ''redacted>'', ''edacted>'', ''dacted>'', ''acted>'', ''cted>'', ''ted>'', ''ed>'', ''d>'', ''>''}"
    by (simp add: REDACTED_def)
  then have "\<not> starts_with w (y @ t)" if "w \<in> set KEY_PREFIXES" for w
    using that unfolding KEY_PREFIXES_def
    by (elim insertE emptyE; simp add: starts_with_def) (elim disjE; simp)+
  then show ?thesis by (rule no_branch_without_prefix)
qed

lemma match_key_literal_Some:
  "match_key_literal p s = Some (n, new) \<Longrightarrow>
    new = REDACTED \<and> (\<exists>b \<in> set API_KEY_BRANCHES. branch_ok b \<and> match_branch b s = Some n)"
  using branches_ok by (auto simp: match_key_literal_def dest: first_branch_Some split: if_splits)

interpretation key_literal: cleaning match_key_literal "CHR ''<''"
proof
  fix p q s t u v w n new x y
  show "0 < n \<and> n \<le> length s" if "match_key_literal p s = Some (n, new)"
    using match_key_literal_Some [OF that] match_branch_bounds by blast
  show "CHR ''<'' \<notin> set (take n s)" if "match_key_literal p s = Some (n, new)"
    using match_key_literal_Some [OF that] match_branch_bounds by blast
  show "new \<noteq> [] \<and> hd new = CHR ''<''" if "match_key_literal p s = Some (n, new)"
    using match_key_literal_Some [OF that] by (simp add: REDACTED_def)
  show "match_key_literal q (y @ t) = None" if "match_key_literal p s = Some (n, new)" "new = x @ y" "y \<noteq> []"
    using match_key_literal_Some [OF that(1)] that(2,3) no_branch_in_mark [of x y t] by (simp add: match_key_literal_def)
  show "match_key_literal q (drop n s) = None" if "match_key_literal p s = Some (n, new)"
    using match_key_literal_Some [OF that] match_branch_maximal no_branch_without_letter [of "drop n s"]
    by (auto simp: match_key_literal_def)
  show "match_key_literal p (u @ w) \<noteq> None" if m: "match_key_literal p (u @ v) = Some (length u, new)"
  proof -
    from match_key_literal_Some [OF m] obtain b where b: "b \<in> set API_KEY_BRANCHES" "branch_ok b"
        "match_branch b (u @ v) = Some (length u)" by blast
    have "first_branch API_KEY_BRANCHES (u @ w) \<noteq> None"
      using match_branch_covers [OF b(2,3), of w] b(1) by (auto simp: first_branch_None)
    then show ?thesis using m by (auto simp: match_key_literal_def split: if_splits)
  qed
qed

section \<open>Properties\<close>

text \<open>
  C35: Sanitized data are equal exactly when the data agree outside the secrets: nothing of a value with a secret
  name and only the shape of an environment or of headers can be learned from the result, and nothing else is lost.
\<close>

theorem sanitizing_hides_exactly_secrets:
  "sanitize_dict a = sanitize_dict b \<longleftrightarrow> same_public a b"
  by (rule sanitize_public)

text \<open>
  C34: A redacted text holds no key of a known provider at a word boundary, also none that the
  redaction of another place would have put together, and redacting it again changes nothing.
\<close>

theorem redacted_text_holds_no_key:
  "\<not> has_match match_key_literal None (redact_text_secrets s) \<and>
   redact_api_key_literals (redact_text_secrets s) = redact_text_secrets s"
  unfolding redact_text_secrets_def redact_api_key_literals_def
  using key_literal.substitution_cleans key_literal.substitution_idempotent by (simp add: re_sub_def)

text \<open>
  The documentation says that entries of a dictionary whose keys contain \<open>KEY\<close>, \<open>TOKEN\<close> and the like are
  redacted; the pattern wants the whole name in capitals, so the usual spelling is left.
\<close>

theorem small_names_are_not_redacted:
  assumes "name \<noteq> []" and "\<not> upper_name_char (hd name)"
  shows "match_entry q p (q # name @ s) = None"
proof -
  have "takeWhile upper_name_char (name @ s) = []" using assms by (cases name) auto
  then show ?thesis by (simp add: match_entry_def Let_def)
qed

end
