(* ===== verification/Terminal_Session.thy ===== *)
theory Terminal_Session
  imports Complex_Main Terminal_Output Redaction
begin

text \<open>
  \<open>openhands/tools/terminal/terminal/terminal_session.py\<close> and \<open>timeout_policy.py\<close>: a session sends one
  command at a time to a shell and polls its screen until the prompt is back or a timeout ends the wait. The
  shell is the terminal of the environment (not PowerShell); the parser of shell syntax and the rendering of
  numbers are parameters.
\<close>

section \<open>Actions, observations and the session\<close>

record terminal_action =
  ta_command :: string
  ta_is_input :: bool
  ta_timeout :: "rat option"
  ta_reset :: bool

record terminal_observation =
  to_text :: string
  to_command :: "string option"
  to_exit_code :: "int option"
  to_is_error :: bool
  to_metadata :: cmd_metadata

definition error_observation :: "string \<Rightarrow> string \<Rightarrow> terminal_observation" where
  "error_observation msg command =
     \<lparr>to_text = msg, to_command = Some command, to_exit_code = None, to_is_error = True, to_metadata = no_metadata\<rparr>"

datatype command_status = Continue | Completed | Interrupted | NoChangeTimeout | HardTimeout

record 'x session =
  ss_ext :: 'x
  ss_status :: "command_status option"
  ss_prev_output :: string
  ss_pending :: string
  ss_cwd :: "string option"
  ss_initialized :: bool
  ss_closed :: bool
  ss_no_change :: rat

text \<open>
  \<open>te_read_screen\<close>, \<open>te_send_keys\<close> (the flag sends Enter) and \<open>te_clear_screen\<close> are the terminal;
  \<open>te_idle\<close> is the variable \<open>OH_RUNTIME_IDLE_TIMEOUT_SECONDS\<close> and \<open>te_float\<close> reads a number.
\<close>

record 'x term_env =
  te_read_screen :: "'x \<Rightarrow> 'x \<times> string"
  te_send_keys :: "string \<Rightarrow> bool \<Rightarrow> 'x \<Rightarrow> 'x"
  te_clear_screen :: "'x \<Rightarrow> 'x"
  te_now :: "'x \<Rightarrow> rat"
  te_sleep :: "rat \<Rightarrow> 'x \<Rightarrow> 'x"
  te_loads :: "string \<Rightarrow> json option"
  te_to_int :: "json \<Rightarrow> int option"
  te_split :: "string \<Rightarrow> string list"
  te_escape :: "string \<Rightarrow> string"
  te_idle :: "string option"
  te_float :: "string \<Rightarrow> rat option"
  te_show :: "rat \<Rightarrow> string"

definition POLL_INTERVAL :: rat where "POLL_INTERVAL = 1 / 2"
definition NO_CHANGE_TIMEOUT_SECONDS :: rat where "NO_CHANGE_TIMEOUT_SECONDS = 30"
definition MAX_CMD_OUTPUT_SIZE :: int where "MAX_CMD_OUTPUT_SIZE = 30000"

definition apostrophes :: "string \<Rightarrow> string" where
  "apostrophes s = CHR 0x27 # s @ [CHR 0x27]"

definition double_quotes :: "string \<Rightarrow> string" where
  "double_quotes s = CHR 0x22 # s @ [CHR 0x22]"

definition TIMEOUT_MESSAGE_TEMPLATE :: string where
  "TIMEOUT_MESSAGE_TEMPLATE =
     ''You may wait longer to see additional output by sending empty command '' @ apostrophes [] @
     '', send other commands to interact with the current process, send keys ('' @
     double_quotes ''C-c'' @ '', '' @ double_quotes ''C-z'' @ '', '' @ double_quotes ''C-d'' @
     '') to interrupt/kill the previous command before sending your new command, '' @
     ''or use the timeout parameter in terminal for future commands.''"

section \<open>The timeout policy\<close>

definition MAX_FOREGROUND_TIMEOUT_RATIO :: rat where "MAX_FOREGROUND_TIMEOUT_RATIO = 9 / 10"

definition get_runtime_idle_timeout_seconds :: "'x term_env \<Rightarrow> rat option" where
  "get_runtime_idle_timeout_seconds env =
     (case te_idle env of
        None \<Rightarrow> None
      | Some raw \<Rightarrow>
          if py_strip raw = [] then None
          else (case te_float env raw of None \<Rightarrow> None | Some v \<Rightarrow> if v \<le> 0 then None else Some v))"

definition foreground_timeout_rejection_message :: "'x term_env \<Rightarrow> rat \<Rightarrow> rat \<Rightarrow> string" where
  "foreground_timeout_rejection_message env requested idle =
     ''Refusing to run foreground terminal command with timeout='' @ te_show env requested @ ''s.'' @ [newline, newline] @
     ''This runtime is subject to idle cleanup after '' @ te_show env idle @ ''s. Foreground terminal '' @
     ''commands are capped at 90% of that threshold, currently '' @
     te_show env (idle * MAX_FOREGROUND_TIMEOUT_RATIO) @
     ''s, so commands can return control before the runtime is considered idle.'' @ [newline, newline] @
     ''For long-running work, use a shorter timeout, omit the timeout to use '' @
     ''the terminal soft-timeout/polling flow, or start the command in the '' @
     ''background and poll its log file.''"

definition foreground_timeout_rejection_for ::
    "'x term_env \<Rightarrow> string \<Rightarrow> bool \<Rightarrow> rat option \<Rightarrow> string option" where
  "foreground_timeout_rejection_for env command is_input timeout =
     (case timeout of
        None \<Rightarrow> None
      | Some t \<Rightarrow>
          if is_input \<or> py_strip command = [] then None
          else (case get_runtime_idle_timeout_seconds env of
                  None \<Rightarrow> None
                | Some idle \<Rightarrow>
                    if t \<le> idle * MAX_FOREGROUND_TIMEOUT_RATIO then None
                    else Some (foreground_timeout_rejection_message env t idle)))"

section \<open>Outputs\<close>

definition is_special_key :: "string \<Rightarrow> bool" where
  "is_special_key command \<longleftrightarrow> starts_with ''C-'' (py_strip command) \<and> length (py_strip command) = 3"

definition get_command_output ::
    "string \<Rightarrow> string \<Rightarrow> cmd_metadata \<Rightarrow> string \<Rightarrow> bool \<Rightarrow> 'x session \<Rightarrow> 'x session \<times> cmd_metadata \<times> string" where
  "get_command_output command raw md continue_prefix is_final s =
     (let prev = ss_prev_output s;
          out = (if prev = [] then raw else removeprefix prev raw);
          md' = (if prev = [] then md else md\<lparr>cm_prefix := continue_prefix\<rparr>)
      in case filter_output (ss_pending s) (remove_command_prefix out command) of
           (t, p) \<Rightarrow>
             if is_final
             then (case filter_flush p of (u, p') \<Rightarrow>
                     (s\<lparr>ss_prev_output := raw, ss_pending := p'\<rparr>, md', py_rstrip (t @ u)))
             else (s\<lparr>ss_prev_output := raw, ss_pending := p\<rparr>, md', py_rstrip t))"

definition clipped :: "string \<Rightarrow> string" where
  "clipped out = maybe_truncate out (Some MAX_CMD_OUTPUT_SIZE)"

definition observe :: "string \<Rightarrow> string \<Rightarrow> cmd_metadata \<Rightarrow> bool \<Rightarrow> terminal_observation" where
  "observe command out md is_error =
     \<lparr>to_text = clipped out, to_command = Some command, to_exit_code = Some (cm_exit_code md),
      to_is_error = is_error, to_metadata = md\<rparr>"

definition CONTINUE_PREFIX :: string where
  "CONTINUE_PREFIX = ''[Below is the output of the previous command.]'' @ [newline]"

text \<open>The end of \<open>_handle_completed_command\<close>.\<close>

definition ready_for_next_command :: "'x term_env \<Rightarrow> 'x session \<Rightarrow> 'x session" where
  "ready_for_next_command env s =
     s\<lparr>ss_status := Some Completed, ss_prev_output := [], ss_pending := [], ss_ext := te_clear_screen env (ss_ext s)\<rparr>"

definition handle_completed_command ::
    "'x term_env \<Rightarrow> string \<Rightarrow> string \<Rightarrow> ps1_match list \<Rightarrow> 'x session
       \<Rightarrow> 'x session \<times> (terminal_error, terminal_observation) result" where
  "handle_completed_command env command content ms s =
     (if ms = [] then
        (let md = no_metadata\<lparr>cm_working_dir := ss_cwd s, cm_suffix := [newline] @
               ''[The command completed but the exit code could not be determined. '' @
               ''Terminal output may have corrupted the PS1 metadata markers.]''\<rparr>
         in case get_command_output command content md [] True s of
              (s', md', out) \<Rightarrow> (ready_for_next_command env s', Inr (observe command out md' False)))
      else
        (case from_ps1_match (te_loads env) (te_to_int env) (last ms) of
           Inl e \<Rightarrow> (s, Inl e)
         | Inr md \<Rightarrow>
             (let s1 = (case cm_working_dir md of
                          Some w \<Rightarrow> if Some w \<noteq> ss_cwd s \<and> w \<noteq> [] then s\<lparr>ss_cwd := Some w\<rparr> else s
                        | None \<Rightarrow> s);
                  before_last = (length ms = 1);
                  raw = combine_outputs content ms before_last;
                  md1 = (if before_last
                         then md\<lparr>cm_prefix := ''[Previous command outputs are truncated. Showing the last '' @
                                show_nat (length (py_splitlines raw)) @ '' lines of the output below.]'' @ [newline]\<rparr>
                         else md);
                  done_text = ''[The command completed with exit code '' @ show_int (cm_exit_code md);
                  md2 = md1\<lparr>cm_suffix := [newline] @ done_text @
                          (if is_special_key command
                           then ''. CTRL+'' @ py_upper [last command] @ '' was sent.]'' else ''.]'')\<rparr>
              in case get_command_output command raw md2 [] True s1 of
                   (s2, md3, out) \<Rightarrow> (ready_for_next_command env s2, Inr (observe command out md3 False)))))"

definition handle_timeout_command ::
    "command_status \<Rightarrow> string \<Rightarrow> string \<Rightarrow> string \<Rightarrow> ps1_match list \<Rightarrow> 'x session \<Rightarrow> 'x session \<times> terminal_observation" where
  "handle_timeout_command status msg command content ms s =
     (case get_command_output command (combine_outputs content ms False) (no_metadata\<lparr>cm_suffix := msg\<rparr>)
             CONTINUE_PREFIX False (s\<lparr>ss_status := Some status\<rparr>) of
        (s', md, out) \<Rightarrow> (s', observe command out md False))"

definition handle_nochange_timeout_command ::
    "'x term_env \<Rightarrow> string \<Rightarrow> string \<Rightarrow> ps1_match list \<Rightarrow> 'x session \<Rightarrow> 'x session \<times> terminal_observation" where
  "handle_nochange_timeout_command env command content ms s =
     handle_timeout_command NoChangeTimeout
       ([newline] @ ''[The command has no new output after '' @ te_show env (ss_no_change s) @ '' seconds. '' @
        TIMEOUT_MESSAGE_TEMPLATE @ '']'') command content ms s"

definition handle_hard_timeout_command ::
    "'x term_env \<Rightarrow> rat \<Rightarrow> string \<Rightarrow> string \<Rightarrow> ps1_match list \<Rightarrow> 'x session \<Rightarrow> 'x session \<times> terminal_observation" where
  "handle_hard_timeout_command env timeout command content ms s =
     handle_timeout_command HardTimeout
       ([newline] @ ''[The command timed out after '' @ te_show env timeout @ '' seconds. '' @
        TIMEOUT_MESSAGE_TEMPLATE @ '']'') command content ms s"

section \<open>Executing a command\<close>

definition running_status :: "command_status option \<Rightarrow> bool" where
  "running_status st \<longleftrightarrow> st \<in> {Some Continue, Some NoChangeTimeout, Some HardTimeout}"

definition is_running :: "'x session \<Rightarrow> bool" where
  "is_running s \<longleftrightarrow> ss_initialized s \<and> running_status (ss_status s)"

definition ends_with_prompt :: "string \<Rightarrow> bool" where
  "ends_with_prompt screen \<longleftrightarrow> starts_with (rev (newline # PS1_END)) (rev (py_rstrip screen))"

text \<open>What the loop knows of the time before the command was sent.\<close>

record poll_start =
  ps_screen :: string
  ps_count :: nat
  ps_sent :: bool
  ps_time :: rat

fun poll ::
    "nat \<Rightarrow> 'x term_env \<Rightarrow> terminal_action \<Rightarrow> string \<Rightarrow> poll_start \<Rightarrow> string \<Rightarrow> rat \<Rightarrow> 'x session
       \<Rightarrow> ('x session \<times> (terminal_error, terminal_observation) result) option" where
  "poll 0 env a command st last_screen last_change s = None"
| "poll (Suc k) env a command st last_screen last_change s =
     (case te_read_screen env (ss_ext s) of
        (x, screen) \<Rightarrow>
          (let s1 = s\<lparr>ss_ext := x\<rparr>;
               ms = matches_ps1_metadata (te_loads env) screen;
               change = (if screen \<noteq> last_screen then te_now env x else last_change)
           in if (\<not> ps_sent st \<or> screen \<noteq> ps_screen st) \<and> (ps_count st < length ms \<or> ends_with_prompt screen)
              then Some (handle_completed_command env command screen ms s1)
              else if ta_timeout a = None \<and> ss_no_change s \<le> te_now env x - change
              then Some (case handle_nochange_timeout_command env command screen ms s1 of (s2, obs) \<Rightarrow> (s2, Inr obs))
              else (case ta_timeout a of
                      Some t \<Rightarrow>
                        if t \<le> te_now env x - ps_time st
                        then Some (case handle_hard_timeout_command env t command screen ms s1 of (s2, obs) \<Rightarrow> (s2, Inr obs))
                        else poll k env a command st screen change (s1\<lparr>ss_ext := te_sleep env POLL_INTERVAL x\<rparr>)
                    | None \<Rightarrow> poll k env a command st screen change (s1\<lparr>ss_ext := te_sleep env POLL_INTERVAL x\<rparr>))))"

definition numbered :: "nat \<Rightarrow> string \<Rightarrow> string" where
  "numbered i cmd = ''('' @ show_nat (i + 1) @ '') '' @ cmd"

definition several_commands :: "string list \<Rightarrow> string" where
  "several_commands cmds =
     ''Cannot execute multiple commands at once.'' @ [newline] @
     ''Please run each command separately OR chain them into a single command via && or ;'' @ [newline] @
     ''Provided commands:'' @ [newline] @ join_with newline (map2 numbered [0..<length cmds] cmds)"

definition not_executed :: "string \<Rightarrow> string" where
  "not_executed command =
     [newline] @ ''[Your command '' @ double_quotes command @ '' is NOT executed. The previous command '' @
     ''is still running - You CANNOT send new commands until the previous command is completed. '' @
     ''By setting `is_input` to `true`, you can interact with the current process: '' @ TIMEOUT_MESSAGE_TEMPLATE @ '']''"

text \<open>The checks before the terminal is read, and the command sent to it.\<close>

definition refusal :: "'x term_env \<Rightarrow> terminal_action \<Rightarrow> string \<Rightarrow> 'x session \<Rightarrow> terminal_observation option" where
  "refusal env a command s =
     (case foreground_timeout_rejection_for env command (ta_is_input a) (ta_timeout a) of
        Some msg \<Rightarrow> Some (error_observation msg command)
      | None \<Rightarrow>
          if \<not> running_status (ss_status s) \<and> command = []
          then Some (error_observation ''No previous running command to retrieve logs from.'' command)
          else if \<not> running_status (ss_status s) \<and> ta_is_input a
          then Some (error_observation ''No previous running command to interact with.'' command)
          else if 1 < length (te_split env command)
          then Some (error_observation (several_commands (te_split env command)) command)
          else None)"

definition still_busy :: "terminal_action \<Rightarrow> string \<Rightarrow> string \<Rightarrow> 'x session \<Rightarrow> bool" where
  "still_busy a command screen s \<longleftrightarrow>
     ss_status s \<in> {Some HardTimeout, Some NoChangeTimeout} \<and> \<not> ends_with_prompt screen \<and>
     \<not> ta_is_input a \<and> command \<noteq> []"

definition report_busy ::
    "'x term_env \<Rightarrow> string \<Rightarrow> string \<Rightarrow> ps1_match list \<Rightarrow> 'x session \<Rightarrow> 'x session \<times> terminal_observation" where
  "report_busy env command screen ms s =
     (case get_command_output command (combine_outputs screen ms False)
             (no_metadata\<lparr>cm_suffix := not_executed command\<rparr>) CONTINUE_PREFIX False s of
        (s', md, out) \<Rightarrow> (s', observe command out md True))"

definition send_and_wait ::
    "nat \<Rightarrow> 'x term_env \<Rightarrow> terminal_action \<Rightarrow> string \<Rightarrow> string \<Rightarrow> ps1_match list \<Rightarrow> 'x session
       \<Rightarrow> ('x session \<times> (terminal_error, terminal_observation) result) option" where
  "send_and_wait fuel env a command screen ms s =
     (let start = te_now env (ss_ext s);
          sent = (command \<noteq> []);
          command' = (if sent \<and> \<not> ta_is_input a then te_escape env command else command);
          s' = (if sent
                then s\<lparr>ss_ext := te_send_keys env command' (\<not> is_special_key command) (ss_ext s)\<rparr> else s)
      in poll fuel env a command'
           \<lparr>ps_screen = screen, ps_count = length ms, ps_sent = sent, ps_time = start\<rparr> screen start s')"

definition execute ::
    "nat \<Rightarrow> 'x term_env \<Rightarrow> terminal_action \<Rightarrow> 'x session
       \<Rightarrow> ('x session \<times> (terminal_error, terminal_observation) result) option" where
  "execute fuel env a s =
     (if \<not> ss_initialized s then Some (s, Inl (TermRuntimeError ''Unified session is not initialized''))
      else
        let command = py_strip (ta_command a)
        in case refusal env a command s of
             Some obs \<Rightarrow> Some (s, Inr obs)
           | None \<Rightarrow>
               (case te_read_screen env (ss_ext s) of
                  (x, screen) \<Rightarrow>
                    (let ms = matches_ps1_metadata (te_loads env) screen;
                         s1 = s\<lparr>ss_ext := x\<rparr>
                     in if still_busy a command screen s
                        then Some (case report_busy env command screen ms s1 of (s2, obs) \<Rightarrow> (s2, Inr obs))
                        else send_and_wait fuel env a command screen ms s1)))"

section \<open>The wait ends\<close>

text \<open>A clock that does not go back and advances by \<open>d\<close> in each sleep.\<close>

definition clock_ok :: "rat \<Rightarrow> 'x term_env \<Rightarrow> bool" where
  "clock_ok d env \<longleftrightarrow>
     (\<forall>x. te_now env x \<le> te_now env (fst (te_read_screen env x))) \<and>
     (\<forall>keys enter x. te_now env x \<le> te_now env (te_send_keys env keys enter x)) \<and>
     (\<forall>x. te_now env x + d \<le> te_now env (te_sleep env POLL_INTERVAL x))"

lemma poll_ends:
  assumes "clock_ok d env" and "ta_timeout a = Some t"
    and "t \<le> te_now env (ss_ext s) - ps_time st + of_nat n * d"
  shows "poll (Suc n) env a command st last_screen last_change s \<noteq> None"
  using assms(3)
proof (induction n arbitrary: last_screen last_change s)
  case 0
  obtain x screen where r: "te_read_screen env (ss_ext s) = (x, screen)" by (cases "te_read_screen env (ss_ext s)")
  have "te_now env (ss_ext s) \<le> te_now env x" using assms(1) r unfolding clock_ok_def by (metis fst_conv)
  with 0 have "t \<le> te_now env x - ps_time st" by simp
  then show ?case using r assms(2) by (simp add: Let_def)
next
  case (Suc n)
  obtain x screen where r: "te_read_screen env (ss_ext s) = (x, screen)" by (cases "te_read_screen env (ss_ext s)")
  have x: "te_now env (ss_ext s) \<le> te_now env x" using assms(1) r unfolding clock_ok_def by (metis fst_conv)
  let ?s = "s\<lparr>ss_ext := te_sleep env POLL_INTERVAL x\<rparr>"
  have "te_now env x + d \<le> te_now env (ss_ext ?s)" using assms(1) by (simp add: clock_ok_def)
  moreover have "t \<le> te_now env (ss_ext s) - ps_time st + (of_nat n * d + d)"
    using Suc.prems by (simp add: algebra_simps)
  ultimately have "t \<le> te_now env (ss_ext ?s) - ps_time st + of_nat n * d" using x by linarith
  then have ih: "poll (Suc n) env a command st l c ?s \<noteq> None" for l c by (rule Suc.IH)
  show ?case
    by (subst poll.simps(2)) (use r assms(2) ih in \<open>simp add: Let_def del: poll.simps\<close>)
qed

lemma send_and_wait_ends:
  assumes "clock_ok d env" and "ta_timeout a = Some t" and "t \<le> of_nat n * d"
  shows "send_and_wait (Suc n) env a command screen ms s \<noteq> None"
proof -
  let ?x = "ss_ext s"
  have "te_now env ?x \<le> te_now env (te_send_keys env k e ?x)" for k e using assms(1) by (simp add: clock_ok_def)
  then have t: "t \<le> te_now env (te_send_keys env k e ?x) - te_now env ?x + of_nat n * d" for k e
    using assms(3) by (smt (verit) add_increasing diff_ge_0_iff_ge)
  show ?thesis
    unfolding send_and_wait_def Let_def
    by (rule poll_ends [OF assms(1,2)]) (use t assms(3) in auto)
qed

lemma execute_ends:
  assumes "clock_ok d env" and "ta_timeout a = Some t" and "t \<le> of_nat n * d"
  shows "execute (Suc n) env a s \<noteq> None"
  using send_and_wait_ends [OF assms]
  by (auto simp: execute_def Let_def split: option.splits prod.splits)

section \<open>Endless waits\<close>

lemma poll_never_ends:
  assumes "ta_timeout a = None" and "0 < ss_no_change s"
    and quiet: "\<And>x. matches_ps1_metadata (te_loads env) (snd (te_read_screen env x)) = []"
    and open_end: "\<And>x. \<not> ends_with_prompt (snd (te_read_screen env x))"
    and fresh: "\<And>x. snd (te_read_screen env (te_sleep env POLL_INTERVAL (fst (te_read_screen env x)))) \<noteq> snd (te_read_screen env x)"
    and "snd (te_read_screen env (ss_ext s)) \<noteq> last_screen"
  shows "poll fuel env a command st last_screen last_change s = None"
  using assms(2,6)
proof (induction fuel arbitrary: last_screen last_change s)
  case (Suc k)
  obtain x screen where r: "te_read_screen env (ss_ext s) = (x, screen)" by (cases "te_read_screen env (ss_ext s)")
  have x: "matches_ps1_metadata (te_loads env) screen = []" "\<not> ends_with_prompt screen" "screen \<noteq> last_screen"
    using quiet [of "ss_ext s"] open_end [of "ss_ext s"] Suc.prems r by auto
  let ?s = "s\<lparr>ss_ext := te_sleep env POLL_INTERVAL x\<rparr>"
  have "poll k env a command st screen (te_now env x) ?s = None"
    by (rule Suc.IH) (use Suc.prems fresh [of "ss_ext s"] r in auto)
  then show ?case using r x Suc.prems(1) assms(1) by (simp add: Let_def)
qed simp

section \<open>What a session keeps\<close>

text \<open>Without a command that runs, nothing of an earlier output is kept.\<close>

definition session_ok :: "'x session \<Rightarrow> bool" where
  "session_ok s \<longleftrightarrow> (\<not> running_status (ss_status s) \<longrightarrow> ss_prev_output s = [] \<and> ss_pending s = [])"

lemma ready_ok: "session_ok (ready_for_next_command env s)"
  by (simp add: session_ok_def ready_for_next_command_def)

lemma get_command_output_status:
  "get_command_output command raw md pre final s = (s', md', out) \<Longrightarrow>
    ss_status s' = ss_status s \<and> ss_ext s' = ss_ext s \<and> ss_initialized s' = ss_initialized s \<and> ss_prev_output s' = raw"
  by (auto simp: get_command_output_def Let_def split: prod.splits if_splits)

lemma completed_ok:
  "handle_completed_command env command content ms s = (s', r) \<Longrightarrow> session_ok s \<Longrightarrow> session_ok s'"
  using ready_ok by (auto simp: handle_completed_command_def Let_def split: if_splits sum.splits prod.splits)

lemma timeout_ok:
  "handle_timeout_command status msg command content ms s = (s', obs) \<Longrightarrow> running_status (Some status) \<Longrightarrow> session_ok s'"
  by (auto simp: handle_timeout_command_def session_ok_def dest: get_command_output_status split: prod.splits)

lemma poll_ok:
  "poll fuel env a command st ls lc s = Some (s', r) \<Longrightarrow> session_ok s \<Longrightarrow> session_ok s'"
proof (induction fuel arbitrary: ls lc s)
  case (Suc k)
  obtain x screen where x: "te_read_screen env (ss_ext s) = (x, screen)" by (cases "te_read_screen env (ss_ext s)")
  have ok: "session_ok (s\<lparr>ss_ext := y\<rparr>)" for y using Suc.prems(2) by (simp add: session_ok_def)
  have rs: "running_status (Some NoChangeTimeout)" "running_status (Some HardTimeout)" by (simp_all add: running_status_def)
  from Suc.prems(1) consider
      "handle_completed_command env command screen (matches_ps1_metadata (te_loads env) screen) (s\<lparr>ss_ext := x\<rparr>) = (s', r)"
    | obs where "handle_nochange_timeout_command env command screen (matches_ps1_metadata (te_loads env) screen) (s\<lparr>ss_ext := x\<rparr>) = (s', obs)"
    | t obs where "handle_hard_timeout_command env t command screen (matches_ps1_metadata (te_loads env) screen) (s\<lparr>ss_ext := x\<rparr>) = (s', obs)"
    | c where "poll k env a command st screen c (s\<lparr>ss_ext := te_sleep env POLL_INTERVAL x\<rparr>) = Some (s', r)"
    using x by (auto simp: Let_def simp del: poll.simps(1) split: if_splits option.splits prod.splits)
  then show ?case
  proof cases
    case 1
    then show ?thesis using completed_ok ok by blast
  next
    case 2
    then show ?thesis unfolding handle_nochange_timeout_command_def by (rule timeout_ok) (rule rs)
  next
    case 3
    then show ?thesis unfolding handle_hard_timeout_command_def by (rule timeout_ok) (rule rs)
  next
    case 4
    then show ?thesis using Suc.IH ok by blast
  qed
qed simp

lemma execute_ok:
  assumes "execute fuel env a s = Some (s', r)" and "session_ok s"
  shows "session_ok s'"
proof -
  have ok: "session_ok (s\<lparr>ss_ext := y\<rparr>)" for y using assms(2) by (simp add: session_ok_def)
  obtain x screen where x: "te_read_screen env (ss_ext s) = (x, screen)" by (cases "te_read_screen env (ss_ext s)")
  let ?c = "py_strip (ta_command a)" and ?ms = "matches_ps1_metadata (te_loads env) screen"
  from assms(1) consider "s' = s"
    | obs where "still_busy a ?c screen s" "report_busy env ?c screen ?ms (s\<lparr>ss_ext := x\<rparr>) = (s', obs)"
    | "send_and_wait fuel env a ?c screen ?ms (s\<lparr>ss_ext := x\<rparr>) = Some (s', r)"
    using x by (auto simp: execute_def Let_def split: if_splits option.splits prod.splits)
  then show ?thesis
  proof cases
    case 1
    then show ?thesis using assms(2) by simp
  next
    case 2
    then have "ss_status s' = ss_status s" by (auto simp: report_busy_def dest: get_command_output_status split: prod.splits)
    then show ?thesis using 2(1) by (auto simp: session_ok_def still_busy_def running_status_def)
  next
    case 3
    then show ?thesis unfolding send_and_wait_def Let_def by (rule poll_ok) (use ok assms(2) in \<open>simp\<close>)
  qed
qed

section \<open>Screens made of prompts\<close>

text \<open>
  A screen as the shell prints it: some text, and for each prompt its block and the text after it. The
  prompt starts with a newline and ends with one.
\<close>

fun render_blocks :: "(string \<times> string) list \<Rightarrow> string" where
  "render_blocks [] = []"
| "render_blocks ((b, t) # r) =
     newline # PS1_BEGIN @ b @ newline # PS1_END @ newline # t @ render_blocks r"

definition screen_of :: "string \<Rightarrow> (string \<times> string) list \<Rightarrow> string" where
  "screen_of t0 blocks = t0 @ render_blocks blocks"

definition clean_block :: "string \<times> string \<Rightarrow> bool" where
  "clean_block e \<longleftrightarrow> \<not> is_infix PS1_BEGIN (fst e) \<and> \<not> is_infix PS1_END (fst e) \<and> \<not> is_infix PS1_BEGIN (snd e)"

lemma not_newline: "newline \<notin> set PS1_BEGIN" "newline \<notin> set PS1_END"
  by (simp_all add: PS1_BEGIN_def PS1_END_def newline_def)

lemma ps1_body_found:
  assumes "\<not> is_infix PS1_BEGIN b" and "\<not> is_infix PS1_END b"
  shows "ps1_body (b @ newline # PS1_END @ r) = Some (b @ [newline])"
  using assms
proof (induction b)
  case Nil
  have n: "\<not> starts_with PS1_END (newline # t)" "\<not> starts_with PS1_BEGIN (newline # t)" for t
    by (simp_all add: PS1_END_def PS1_BEGIN_def starts_with_def newline_def)
  have "ps1_body (PS1_END @ r) = Some []"
    by (cases "PS1_END @ r") (simp_all add: PS1_END_def starts_with_def)
  then show ?case using n by simp
next
  case (Cons c b)
  have "\<not> starts_with PS1_END ((c # b) @ newline # PS1_END @ r)" "\<not> starts_with PS1_BEGIN ((c # b) @ newline # PS1_END @ r)"
    using starts_with_before [of PS1_END "c # b"] starts_with_before [of PS1_BEGIN "c # b"] not_newline Cons.prems by auto
  then show ?case using Cons by simp
qed

lemma find_ps1_skip:
  assumes "\<not> is_infix PS1_BEGIN t"
  shows "find_ps1 i l (t @ newline # r) = find_ps1 (i + length t + 1) True r"
  using assms
proof (induction t arbitrary: i l)
  case Nil
  have "\<not> starts_with PS1_BEGIN (newline # r)" by (simp add: PS1_BEGIN_def starts_with_def newline_def)
  then show ?case by simp
next
  case (Cons c t)
  have "\<not> starts_with PS1_BEGIN ((c # t) @ newline # r)"
    using starts_with_before [of PS1_BEGIN "c # t"] not_newline Cons.prems by auto
  then show ?case using Cons by simp
qed

lemma find_ps1_rest: "\<not> is_infix PS1_BEGIN t \<Longrightarrow> find_ps1 i l t = []"
  by (induction t arbitrary: i l) auto

lemma find_ps1_block:
  assumes "\<not> is_infix PS1_BEGIN b" and "\<not> is_infix PS1_END b"
  shows "find_ps1 i True (PS1_BEGIN @ b @ newline # PS1_END @ r) =
    (let n = 13 + length b + 13
     in \<lparr>pm_start = i, pm_end = i + n, pm_content = b @ [newline]\<rparr> # find_ps1 (i + n) False r)"
proof -
  let ?s = "PS1_BEGIN @ b @ newline # PS1_END @ r"
  have l: "length PS1_BEGIN = 13" "length PS1_END = 12" by (simp_all add: PS1_BEGIN_def PS1_END_def)
  obtain c t where s: "?s = c # t" by (cases ?s) (auto simp: PS1_BEGIN_def)
  have "ps1_body (drop (length PS1_BEGIN) ?s) = Some (b @ [newline])" using ps1_body_found [OF assms] by simp
  then have "ps1_body (drop (length PS1_BEGIN) (c # t)) = Some (b @ [newline])" unfolding s .
  moreover have "starts_with PS1_BEGIN (c # t)" unfolding s [symmetric] by simp
  moreover have "drop (Suc (24 + length b)) t = r"
  proof -
    have "drop (26 + length b) (c # t) = r" unfolding s [symmetric] using l by simp
    then show ?thesis by (simp add: eval_nat_numeral)
  qed
  ultimately have "find_ps1 i True (c # t) =
      (let n = 13 + length b + 13
       in \<lparr>pm_start = i, pm_end = i + n, pm_content = b @ [newline]\<rparr> # find_ps1 (i + n) False r)"
    using l by (simp add: Let_def eval_nat_numeral)
  then show ?thesis unfolding s .
qed

fun block_matches :: "nat \<Rightarrow> (string \<times> string) list \<Rightarrow> ps1_match list" where
  "block_matches i [] = []"
| "block_matches i ((b, t) # r) =
     (let n = i + 1 + (13 + length b + 13)
      in \<lparr>pm_start = i + 1, pm_end = n, pm_content = b @ [newline]\<rparr> # block_matches (n + 1 + length t) r)"

lemma find_ps1_blocks:
  assumes "\<not> is_infix PS1_BEGIN t0" and "\<forall>e \<in> set blocks. clean_block e"
  shows "find_ps1 i l (screen_of t0 blocks) = block_matches (i + length t0) blocks"
  using assms
proof (induction blocks arbitrary: t0 i l)
  case Nil
  then show ?case by (simp add: screen_of_def find_ps1_rest)
next
  case (Cons e r)
  obtain b t where e: "e = (b, t)" by (cases e)
  have c: "\<not> is_infix PS1_BEGIN b" "\<not> is_infix PS1_END b" "\<not> is_infix PS1_BEGIN t"
    using Cons.prems(2) e by (simp_all add: clean_block_def)
  let ?i = "i + length t0 + 1" and ?n = "13 + length b + 13"
  have nt: "\<not> is_infix PS1_BEGIN (newline # t)" using c(3) by (simp add: PS1_BEGIN_def starts_with_def newline_def)
  have "find_ps1 i l (screen_of t0 (e # r)) =
      find_ps1 ?i True (PS1_BEGIN @ b @ newline # PS1_END @ screen_of (newline # t) r)"
    using find_ps1_skip [OF Cons.prems(1), of i l] by (simp add: screen_of_def e)
  also have "\<dots> = \<lparr>pm_start = ?i, pm_end = ?i + ?n, pm_content = b @ [newline]\<rparr> #
      find_ps1 (?i + ?n) False (screen_of (newline # t) r)"
    using find_ps1_block [OF c(1,2)] by (simp add: Let_def)
  also have "find_ps1 (?i + ?n) False (screen_of (newline # t) r) = block_matches (?i + ?n + length (newline # t)) r"
    using Cons.IH [OF nt] Cons.prems(2) by simp
  finally show ?case using e by (simp add: Let_def)
qed

fun outputs_of :: "(string \<times> string) list \<Rightarrow> string" where
  "outputs_of [] = []"
| "outputs_of [(b, t)] = t"
| "outputs_of ((b, t) # r) = t @ newline # newline # outputs_of r"

lemma join_blocks:
  "blocks \<noteq> [] \<Longrightarrow> join_segments (pre @ render_blocks blocks) (block_matches (length pre) blocks) = outputs_of blocks"
proof (induction blocks arbitrary: pre rule: outputs_of.induct)
  case (2 b t)
  have l: "length PS1_BEGIN = 13" "length PS1_END = 12" by (simp_all add: PS1_BEGIN_def PS1_END_def)
  let ?p = "pre @ newline # PS1_BEGIN @ b @ newline # PS1_END @ [newline]"
  have p: "length ?p = length pre + 28 + length b" using l by simp
  have s: "pre @ render_blocks [(b, t)] = ?p @ t" by simp
  have d: "drop (length u) (u @ v) = v" for u v :: string by simp
  have "drop (length ?p) (pre @ render_blocks [(b, t)]) = t" unfolding s by (rule d)
  then have "drop (length pre + 28 + length b) (pre @ render_blocks [(b, t)]) = t" unfolding p .
  then show ?case by (simp add: Let_def ac_simps del: render_blocks.simps drop_append)
next
  case (3 b t e r)
  have l: "length PS1_BEGIN = 13" "length PS1_END = 12" by (simp_all add: PS1_BEGIN_def PS1_END_def)
  obtain b' t' where e: "e = (b', t')" by (cases e)
  let ?p = "pre @ newline # PS1_BEGIN @ b @ newline # PS1_END @ [newline]"
  define n where "n = length pre + 28 + length b"
  have p: "length ?p = n" using l by (simp add: n_def)
  let ?s = "pre @ render_blocks ((b, t) # e # r)"
  have s: "?s = (?p @ t) @ render_blocks (e # r)" by simp
  have "join_segments ((?p @ t) @ render_blocks (e # r)) (block_matches (length (?p @ t)) (e # r)) = outputs_of (e # r)"
    by (rule "3.IH") simp
  then have ih: "join_segments ?s (block_matches (n + length t) (e # r)) = outputs_of (e # r)"
    unfolding s length_append [of ?p t] p .
  have cut: "take (k + 1 - length q) (drop (length q) (q @ (u @ [newline]) @ v)) = u @ [newline]"
    if "k = length q + length u" for q u v :: string and k using that by simp
  have "?s = ?p @ (t @ [newline]) @ PS1_BEGIN @ b' @ newline # PS1_END @ newline # t' @ render_blocks r"
    by (simp add: e)
  then have btw: "between n (n + length t + 1) ?s = t @ [newline]"
    unfolding between_def p [symmetric] using cut [of "length ?p + length t" ?p t] by metis
  obtain m ms where m: "block_matches (n + length t) (e # r) = m # ms" "pm_start m = n + length t + 1"
    by (simp add: e Let_def)
  have "block_matches (length pre) ((b, t) # e # r) =
      \<lparr>pm_start = length pre + 1, pm_end = length pre + 27 + length b, pm_content = b @ [newline]\<rparr> #
      block_matches (n + length t) (e # r)"
    by (simp add: Let_def n_def ac_simps del: block_matches.simps(2)) (simp add: Let_def ac_simps)
  then have "join_segments ?s (block_matches (length pre) ((b, t) # e # r)) =
      between n (n + length t + 1) ?s @ [newline] @ join_segments ?s (block_matches (n + length t) (e # r))"
    using m by (simp add: n_def ac_simps del: render_blocks.simps)
  then show ?case unfolding btw ih by (simp add: e)
qed simp

lemma matches_of_screen:
  assumes "\<not> is_infix PS1_BEGIN t0" and "\<forall>e \<in> set blocks. clean_block e \<and> loads (py_strip (fst e @ [newline])) \<noteq> None"
  shows "matches_ps1_metadata loads (screen_of t0 blocks) = block_matches (length t0) blocks"
proof -
  have "\<forall>m \<in> set (block_matches i blocks). loads (py_strip (pm_content m)) \<noteq> None" for i
    using assms(2) by (induction blocks arbitrary: i) (auto simp: Let_def)
  then show ?thesis
    using find_ps1_blocks [OF assms(1), of blocks 0 True] assms(2) by (simp add: matches_ps1_metadata_def)
qed

lemma block_matches_last:
  "blocks \<noteq> [] \<Longrightarrow> pm_content (last (block_matches i blocks)) = fst (last blocks) @ [newline]"
proof (induction blocks arbitrary: i)
  case (Cons e r)
  then show ?case by (cases e; cases r) (auto simp: Let_def)
qed simp

lemma length_block_matches [simp]: "length (block_matches i blocks) = length blocks"
  by (induction blocks arbitrary: i) (auto simp: Let_def)

lemma strip_trailing: "py_rstrip (py_lstrip (s @ [newline, newline])) = py_strip s"
proof (cases "py_lstrip s = []")
  case True
  then have "\<forall>c \<in> set s. py_space c" by (simp add: py_lstrip_def dropWhile_eq_Nil_conv)
  then have "\<forall>c \<in> set (s @ [newline, newline]). py_space c" by (simp add: py_space_def newline_def)
  then have "py_lstrip (s @ [newline, newline]) = []" by (simp only: py_lstrip_def dropWhile_eq_Nil_conv)
  with True show ?thesis by (simp add: py_strip_def)
next
  case False
  then have "\<exists>c \<in> set s. \<not> py_space c" by (simp add: py_lstrip_def dropWhile_eq_Nil_conv)
  then have "py_lstrip (s @ [newline, newline]) = py_lstrip s @ [newline, newline]"
    unfolding py_lstrip_def by (metis dropWhile_append1)
  then show ?thesis by (simp add: py_strip_def py_rstrip_def py_space_def newline_def)
qed

lemma escape_not_in_strip: "ESC \<notin> set s \<Longrightarrow> ESC \<notin> set (py_lstrip s)"
  unfolding py_lstrip_def by (metis set_dropWhileD)

lemma command_removed:
  assumes "c \<noteq> []" and "py_lstrip c = c"
  shows "remove_command_prefix (c @ newline # out @ [newline, newline]) c = py_lstrip (out @ [newline, newline])"
proof -
  have "\<not> py_space (hd c)" using assms dropWhile_eq_self_iff [of py_space c] by (simp add: py_lstrip_def)
  then obtain d r where c: "c = d # r" "\<not> py_space d" using assms(1) by (cases c) auto
  then have "py_lstrip (c @ newline # out @ [newline, newline]) = c @ newline # out @ [newline, newline]"
    by (simp add: py_lstrip_def)
  then show ?thesis using assms by (simp add: remove_command_prefix_def removeprefix_def)
    (simp add: py_lstrip_def py_space_def newline_def)
qed

text \<open>A completed command between its two prompts, from the screen to the observation.\<close>

lemma completed_output:
  assumes "\<not> is_infix PS1_BEGIN t0" and "screen = screen_of t0 [(b1, c @ newline # out), (b2, [])]"
    and "\<forall>e \<in> {(b1, c @ newline # out), (b2, [])}. clean_block e \<and> te_loads env (py_strip (fst e @ [newline])) \<noteq> None"
    and "\<And>m. pm_content m = b2 @ [newline] \<Longrightarrow> from_ps1_match (te_loads env) (te_to_int env) m = Inr md"
    and "c \<noteq> []" "py_lstrip c = c" "ESC \<notin> set out" "length out \<le> 30000" "ss_prev_output s = []" "ss_pending s = []"
  shows "\<exists>s' obs. handle_completed_command env c screen (matches_ps1_metadata (te_loads env) screen) s = (s', Inr obs) \<and>
    ss_status s' = Some Completed \<and> to_text obs = py_strip out \<and> to_exit_code obs = Some (cm_exit_code md)"
proof -
  let ?blocks = "[(b1, c @ newline # out), (b2, [])]"
  let ?ms = "block_matches (length t0) ?blocks"
  have ms: "matches_ps1_metadata (te_loads env) screen = ?ms"
    unfolding assms(2) by (rule matches_of_screen) (use assms(1,3) in auto)
  have "pm_content (last ?ms) = b2 @ [newline]" using block_matches_last [of ?blocks "length t0"] by simp
  then have md: "from_ps1_match (te_loads env) (te_to_int env) (last ?ms) = Inr md" by (rule assms(4))
  have "join_segments (t0 @ render_blocks ?blocks) ?ms = outputs_of ?blocks" by (rule join_blocks) simp
  then have raw: "combine_outputs screen ?ms False = c @ newline # out @ [newline, newline]"
    unfolding assms(2) by (simp add: combine_outputs_def screen_of_def Let_def)
  have plain: "ESC \<notin> set (py_lstrip (out @ [newline, newline]))"
    by (rule escape_not_in_strip) (use assms(7) in \<open>simp add: ESC_def newline_def\<close>)
  have text_eq: "get_command_output c (combine_outputs screen ?ms False) m [] True s' =
      (s'\<lparr>ss_prev_output := c @ newline # out @ [newline, newline], ss_pending := []\<rparr>, m, py_strip out)"
    if "ss_prev_output s' = []" "ss_pending s' = []" for m and s' :: "'a session"
    unfolding raw get_command_output_def
    using that plain_output_is_kept [OF plain] strip_trailing [of out]
    by (simp add: command_removed [OF assms(5,6)] filter_flush_def filter_complete_queries_def re_sub_def)
  have len: "clipped (py_strip out) = py_strip out"
  proof -
    have "length (py_strip out) \<le> length out"
      unfolding py_strip_def py_rstrip_def py_lstrip_def
      by (metis length_dropWhile_le length_rev order_trans)
    then have "int (length (py_strip out)) \<le> MAX_CMD_OUTPUT_SIZE" using assms(8) by (simp add: MAX_CMD_OUTPUT_SIZE_def)
    then show ?thesis
      unfolding clipped_def maybe_truncate_def by (simp add: maybe_truncate_files_short)
  qed
  have nonempty: "?ms \<noteq> []" "length ?ms \<noteq> 1" by (simp_all add: Let_def)
  show ?thesis
    unfolding ms handle_completed_command_def
    using md nonempty assms(9,10) len
    by (auto simp: Let_def text_eq observe_def ready_for_next_command_def simp del: block_matches.simps split: option.splits)
qed

lemma poll_completed:
  assumes "te_read_screen env (ss_ext s) = (x, screen)" and "screen \<noteq> ps_screen st"
    and "ps_count st < length (matches_ps1_metadata (te_loads env) screen)"
  shows "poll (Suc n) env a c st ls lc s =
    Some (handle_completed_command env c screen (matches_ps1_metadata (te_loads env) screen) (s\<lparr>ss_ext := x\<rparr>))"
  using assms by (simp add: Let_def)

section \<open>Properties\<close>

text \<open>
  While an earlier command runs, that is after a timeout as long as the screen does not end with a
  prompt, a new command is never typed into the terminal: it only reads the screen, the caller gets an error, and the
  session still counts as running.
\<close>

theorem running_command_gets_no_new_one:
  assumes "ss_initialized s" and "ss_status s \<in> {Some HardTimeout, Some NoChangeTimeout}"
    and "refusal env a (py_strip (ta_command a)) s = None" and "py_strip (ta_command a) \<noteq> []" and "\<not> ta_is_input a"
    and "te_read_screen env (ss_ext s) = (x, screen)" and "\<not> ends_with_prompt screen"
  shows "\<exists>s' obs. execute fuel env a s = Some (s', Inr obs) \<and> ss_ext s' = x \<and> is_running s' \<and> to_is_error obs"
proof -
  let ?c = "py_strip (ta_command a)" and ?s = "s\<lparr>ss_ext := x\<rparr>"
  obtain s' obs where b: "report_busy env ?c screen (matches_ps1_metadata (te_loads env) screen) ?s = (s', obs)"
    by (cases "report_busy env ?c screen (matches_ps1_metadata (te_loads env) screen) ?s")
  have "still_busy a ?c screen s" using assms by (simp add: still_busy_def)
  then have e: "execute fuel env a s = Some (s', Inr obs)" using assms(1,3,6) b by (simp add: execute_def Let_def)
  have "ss_status s' = ss_status s \<and> ss_ext s' = x \<and> ss_initialized s' = ss_initialized s" "to_is_error obs"
    using b by (auto simp: report_busy_def observe_def dest: get_command_output_status split: prod.splits)
  with e assms(1,2) show ?thesis by (auto simp: is_running_def running_status_def)
qed

text \<open>
  A command with a timeout returns: after as many polls as the clock needs to reach the
  timeout, one more is enough, whatever the terminal shows and does.
\<close>

theorem timed_command_returns:
  assumes "clock_ok d env" and "ta_timeout a = Some t" and "t \<le> of_nat n * d"
  shows "execute (Suc n) env a s \<noteq> None"
  by (rule execute_ends [OF assms])

text \<open>
  Without a timeout there is only the wait for a screen that stays the same: a command that keeps printing and
  never shows a prompt is polled forever.
\<close>

theorem printing_command_is_polled_forever:
  assumes "ta_timeout a = None" and "0 < ss_no_change s"
    and "\<And>x. matches_ps1_metadata (te_loads env) (snd (te_read_screen env x)) = []"
    and "\<And>x. \<not> ends_with_prompt (snd (te_read_screen env x))"
    and "\<And>x. snd (te_read_screen env (te_sleep env POLL_INTERVAL (fst (te_read_screen env x)))) \<noteq> snd (te_read_screen env x)"
    and "snd (te_read_screen env (ss_ext s)) \<noteq> last_screen"
  shows "poll fuel env a command st last_screen last_change s = None"
  by (rule poll_never_ends [OF assms])

text \<open>
  Whatever actions a session executed, with every outcome, once no command runs nothing is left of
  earlier outputs, so the next command's output starts clean.
\<close>

theorem finished_session_is_clean:
  assumes "execute fuel env a s = Some (s', r)" and "session_ok s"
  shows "\<not> running_status (ss_status s') \<longrightarrow> ss_prev_output s' = [] \<and> ss_pending s' = []"
  using execute_ok [OF assms] by (simp add: session_ok_def)

text \<open>
  C31: A command whose echo and output appear between two prompts is reported with exactly its output, stripped,
  and with the exit code the second prompt reports; the text before the first prompt plays no part.
\<close>

theorem command_reports_its_output:
  assumes "ss_initialized s" "\<not> running_status (ss_status s)" "session_ok s"
    and "refusal env a (py_strip (ta_command a)) s = None" and "\<not> ta_is_input a"
    and c: "c = te_escape env (py_strip (ta_command a))" "c \<noteq> []" "py_lstrip c = c" "py_strip (ta_command a) \<noteq> []"
    and "te_read_screen env (ss_ext s) = (x, screen_of t0 [(b1, [])])"
    and "te_read_screen env (te_send_keys env c (\<not> is_special_key (py_strip (ta_command a))) x) =
        (x', screen_of t0 [(b1, c @ newline # out), (b2, [])])"
    and "\<not> is_infix PS1_BEGIN t0" "\<forall>e \<in> {(b1, c @ newline # out), (b2, [])}. clean_block e \<and>
        te_loads env (py_strip (fst e @ [newline])) \<noteq> None"
    and "\<And>m. pm_content m = b2 @ [newline] \<Longrightarrow> from_ps1_match (te_loads env) (te_to_int env) m = Inr md"
    and "ESC \<notin> set out" "length out \<le> 30000"
  shows "\<exists>s' obs. execute (Suc n) env a s = Some (s', Inr obs) \<and> to_text obs = py_strip out \<and>
    to_exit_code obs = Some (cm_exit_code md) \<and> \<not> is_running s'"
proof -
  let ?c = "py_strip (ta_command a)" and ?first = "screen_of t0 [(b1, [])]"
  let ?second = "screen_of t0 [(b1, c @ newline # out), (b2, [])]"
  let ?x = "te_send_keys env c (\<not> is_special_key ?c) x"
  have prev: "ss_prev_output s = []" "ss_pending s = []" using assms(2,3) by (auto simp: session_ok_def)
  obtain s' obs where h: "handle_completed_command env c ?second (matches_ps1_metadata (te_loads env) ?second)
        (s\<lparr>ss_ext := x'\<rparr>) = (s', Inr obs)" "ss_status s' = Some Completed" "to_text obs = py_strip out"
      "to_exit_code obs = Some (cm_exit_code md)"
    using completed_output [OF assms(12) HOL.refl assms(13,14) c(2,3) assms(15,16), of "s\<lparr>ss_ext := x'\<rparr>"] prev by auto
  have b1: "clean_block (b1, [])" using assms(13) by (simp add: clean_block_def PS1_BEGIN_def)
  have m1: "matches_ps1_metadata (te_loads env) ?first = block_matches (length t0) [(b1, [])]"
    by (rule matches_of_screen) (use assms(12,13) b1 in auto)
  have m2: "matches_ps1_metadata (te_loads env) ?second = block_matches (length t0) [(b1, c @ newline # out), (b2, [])]"
    by (rule matches_of_screen) (use assms(12,13) in auto)
  have "length ?first < length ?second" by (simp add: screen_of_def)
  then have ne: "?second \<noteq> ?first" by (metis less_irrefl)
  have count: "length (matches_ps1_metadata (te_loads env) ?first) < length (matches_ps1_metadata (te_loads env) ?second)"
    unfolding m1 m2 length_block_matches by simp
  have busy: "\<not> still_busy a ?c ?first s" using assms(2) by (auto simp: still_busy_def running_status_def)
  have "execute (Suc n) env a s = send_and_wait (Suc n) env a ?c ?first (matches_ps1_metadata (te_loads env) ?first) (s\<lparr>ss_ext := x\<rparr>)"
    using assms(1,4,10) busy by (simp add: execute_def Let_def)
  also have "\<dots> = Some (s', Inr obs)"
  proof -
    have r: "te_read_screen env (ss_ext (s\<lparr>ss_ext := ?x\<rparr>)) = (x', ?second)" using assms(11) by simp
    have "poll (Suc n) env a c \<lparr>ps_screen = ?first, ps_count = length (matches_ps1_metadata (te_loads env) ?first),
        ps_sent = True, ps_time = te_now env x\<rparr> ?first (te_now env x) (s\<lparr>ss_ext := ?x\<rparr>) = Some (s', Inr obs)"
      by (subst poll_completed [OF r]) (use ne count h(1) in \<open>simp_all del: poll.simps\<close>)
    then show ?thesis using assms(5) c by (simp add: send_and_wait_def del: poll.simps)
  qed
  finally show ?thesis using h by (auto simp: is_running_def running_status_def)
qed

section \<open>Witnesses\<close>

text \<open>A terminal whose state counts what happened, and one that runs \<open>ls\<close>.\<close>

definition demo_screen :: "nat \<Rightarrow> string" where
  "demo_screen n = (if n < 2 then screen_of [] [(''{}'', [])]
     else screen_of [] [(''{}'', ''ls'' @ newline # ''a.txt''), (''{}'', [])])"

definition demo_term :: "(nat \<Rightarrow> string) \<Rightarrow> nat term_env" where
  "demo_term screen = \<lparr>te_read_screen = (\<lambda>x. (x, screen x)), te_send_keys = (\<lambda>keys enter x. x + 2),
     te_clear_screen = id, te_now = of_nat, te_sleep = (\<lambda>d x. x + 1), te_loads = (\<lambda>s. Some (JObj [])),
     te_to_int = (\<lambda>v. None), te_split = (\<lambda>c. [c]), te_escape = id, te_idle = None, te_float = (\<lambda>s. None),
     te_show = (\<lambda>r. [])\<rparr>"

definition demo_session :: "command_status option \<Rightarrow> nat session" where
  "demo_session st = \<lparr>ss_ext = 0, ss_status = st, ss_prev_output = [], ss_pending = [], ss_cwd = None,
     ss_initialized = True, ss_closed = False, ss_no_change = NO_CHANGE_TIMEOUT_SECONDS\<rparr>"

definition ls_action :: terminal_action where
  "ls_action = \<lparr>ta_command = ''ls'', ta_is_input = False, ta_timeout = Some 3, ta_reset = False\<rparr>"

lemma strip_ls: "py_strip ''ls'' = ''ls''" "py_lstrip ''ls'' = ''ls''"
  by (simp_all add: py_strip_def py_lstrip_def py_rstrip_def py_space_def)

lemma ls_accepted: "refusal (demo_term f) ls_action ''ls'' (demo_session st) = None"
  by (simp add: refusal_def foreground_timeout_rejection_for_def get_runtime_idle_timeout_seconds_def demo_term_def
      ls_action_def strip_ls)

lemma running_command_gets_no_new_one_witness:
  "\<exists>s' obs. execute 0 (demo_term (\<lambda>x. ''working'')) ls_action (demo_session (Some HardTimeout)) = Some (s', Inr obs) \<and>
     ss_ext s' = 0 \<and> is_running s' \<and> to_is_error obs"
proof -
  have a: "ss_initialized (demo_session (Some HardTimeout))"
      "ss_status (demo_session (Some HardTimeout)) \<in> {Some HardTimeout, Some NoChangeTimeout}"
      "ss_ext (demo_session (Some HardTimeout)) = 0" by (simp_all add: demo_session_def)
  have b: "py_strip (ta_command ls_action) = ''ls''" "\<not> ta_is_input ls_action" by (simp_all add: ls_action_def strip_ls)
  have c: "te_read_screen (demo_term (\<lambda>x. ''working'')) 0 = (0, ''working'')" by (simp add: demo_term_def)
  have d: "\<not> ends_with_prompt ''working''"
    by (simp add: ends_with_prompt_def py_rstrip_def py_space_def PS1_END_def newline_def starts_with_def)
  show ?thesis
    by (rule running_command_gets_no_new_one [OF a(1,2) _ _ b(2) _ d]) (simp_all add: a b c ls_accepted)
qed

lemma timed_command_returns_witness:
  "execute 4 (demo_term (\<lambda>x. ''working'')) ls_action (demo_session None) \<noteq> None"
proof -
  have "clock_ok 1 (demo_term f)" for f by (simp add: clock_ok_def demo_term_def)
  then show ?thesis
    using timed_command_returns [of 1 "demo_term (\<lambda>x. ''working'')" ls_action 3 3 "demo_session None"]
    by (simp add: ls_action_def eval_nat_numeral)
qed

lemma command_reports_its_output_witness:
  "\<exists>s' obs. execute (Suc 0) (demo_term demo_screen) ls_action (demo_session None) = Some (s', Inr obs) \<and>
     to_text obs = ''a.txt'' \<and> to_exit_code obs = Some (- 1) \<and> \<not> is_running s'"
proof -
  let ?env = "demo_term demo_screen" and ?s = "demo_session None"
  let ?cmd = "py_strip (ta_command ls_action)"
  have cmd: "?cmd = ''ls''" by (simp add: ls_action_def strip_ls)
  have i: "\<not> ta_is_input ls_action" by (simp add: ls_action_def)
  have s: "ss_initialized ?s" "\<not> running_status (ss_status ?s)" "session_ok ?s" "ss_ext ?s = 0"
    by (simp_all add: demo_session_def running_status_def session_ok_def)
  have c: "''ls'' = te_escape ?env ?cmd" by (simp add: cmd demo_term_def)
  have r: "te_read_screen ?env (ss_ext ?s) = (0, screen_of [] [(''{}'', [])])"
      "te_read_screen ?env (te_send_keys ?env ''ls'' (\<not> is_special_key ?cmd) 0) =
        (2, screen_of [] [(''{}'', ''ls'' @ newline # ''a.txt''), (''{}'', [])])"
    by (simp_all add: demo_term_def demo_session_def demo_screen_def)
  have t0: "\<not> is_infix PS1_BEGIN []" by (simp add: PS1_BEGIN_def)
  have cl: "\<forall>e \<in> {(''{}'', ''ls'' @ newline # ''a.txt''), (''{}'', [])}. clean_block e \<and>
      te_loads ?env (py_strip (fst e @ [newline])) \<noteq> None"
    by (simp add: clean_block_def PS1_BEGIN_def PS1_END_def starts_with_def newline_def demo_term_def)
  have m: "pm_content m = ''{}'' @ [newline] \<Longrightarrow> from_ps1_match (te_loads ?env) (te_to_int ?env) m = Inr no_metadata" for m
    by (simp add: from_ps1_match_def demo_term_def text_field_def plain_field_def int_field_def no_metadata_def)
  have o: "ESC \<notin> set ''a.txt''" "length ''a.txt'' \<le> 30000" by (simp_all add: ESC_def)
  have st: "py_strip ''a.txt'' = ''a.txt''" by (simp add: py_strip_def py_lstrip_def py_rstrip_def py_space_def)
  have "\<exists>s' obs. execute (Suc 0) ?env ls_action ?s = Some (s', Inr obs) \<and>
     to_text obs = py_strip ''a.txt'' \<and> to_exit_code obs = Some (cm_exit_code no_metadata) \<and> \<not> is_running s'"
    by (rule command_reports_its_output [OF s(1-3) _ i c _ strip_ls(2) _ r t0 cl m o]) (simp_all add: cmd ls_accepted)
  then show ?thesis by (simp add: st no_metadata_def)
qed

lemma finished_session_is_clean_witness:
  "\<exists>s' obs. execute (Suc 0) (demo_term demo_screen) (ls_action\<lparr>ta_command := []\<rparr>) (demo_session None) = Some (s', Inr obs) \<and>
     ss_pending s' = []"
proof -
  let ?a = "ls_action\<lparr>ta_command := []\<rparr>" and ?s = "demo_session None"
  obtain obs where e: "execute (Suc 0) (demo_term demo_screen) ?a ?s = Some (?s, Inr obs)"
    by (simp add: execute_def refusal_def foreground_timeout_rejection_for_def demo_session_def ls_action_def
        running_status_def py_strip_def py_lstrip_def py_rstrip_def)
  from finished_session_is_clean [OF e] e show ?thesis by (simp add: session_ok_def demo_session_def running_status_def)
qed

end
