(* ===== verification/Secrets.thy ===== *)
theory Secrets
  imports Redaction
begin

text \<open>
  \<open>sdk/secret/secrets.py\<close>, \<open>sdk/utils/pydantic_secrets.py\<close> and
  \<open>sdk/conversation/secret_registry.py\<close>: sources of secrets, their serialization under a cipher, the registry that
  hands them to commands and masks their values in outputs. The cipher and the lookup of a secret by
  HTTP are parameters, as is the order in which a set of strings is iterated.
\<close>

section \<open>Serialization of a secret\<close>

definition REDACTED_SECRET_VALUE :: string where
  "REDACTED_SECRET_VALUE = ''**********''"

record fernet =
  fn_encrypt :: "string \<Rightarrow> string \<Rightarrow> string"
  fn_decrypt :: "string \<Rightarrow> string \<Rightarrow> string option"

text \<open>The context of a dump or a load: the option \<open>expose_secrets\<close> and the key of the cipher.\<close>

record secret_context =
  sc_expose :: "json option"
  sc_cipher :: "string option"

datatype expose_mode = Plaintext | Encrypted | Redact

definition resolve_expose_mode :: "secret_context \<Rightarrow> expose_mode" where
  "resolve_expose_mode c =
     (if sc_expose c = Some (JStr ''plaintext'') \<or> sc_expose c = Some (JBool True) then Plaintext
      else if sc_expose c = Some (JStr ''encrypted'') \<or> sc_cipher c \<noteq> None then Encrypted
      else Redact)"

definition is_redacted_secret :: "string \<Rightarrow> bool" where
  "is_redacted_secret v \<longleftrightarrow> v = REDACTED_SECRET_VALUE"

datatype secret_error = MissingCipherError string | SecretValueError string | SecretFailure string

text \<open>A \<open>SecretStr\<close> that is returned as it is is rendered masked.\<close>

datatype serialized = Shown string | Hidden string

fun rendered :: "serialized \<Rightarrow> string" where
  "rendered (Shown v) = v"
| "rendered (Hidden v) = (if v = [] then [] else REDACTED_SECRET_VALUE)"

definition serialize_secret :: "fernet \<Rightarrow> secret_context \<Rightarrow> string option \<Rightarrow> (secret_error, serialized option) result" where
  "serialize_secret f c v =
     (case v of
        None \<Rightarrow> Inr None
      | Some x \<Rightarrow>
          (case resolve_expose_mode c of
             Plaintext \<Rightarrow> Inr (Some (Shown x))
           | Encrypted \<Rightarrow>
               (case sc_cipher c of
                  None \<Rightarrow> Inl (MissingCipherError
                    ''Cannot encrypt secret: no cipher configured. Set OH_SECRET_KEY environment variable.'')
                | Some k \<Rightarrow> Inr (Some (Shown (fn_encrypt f k x))))
           | Redact \<Rightarrow> Inr (Some (Hidden x))))"

definition validate_secret :: "fernet \<Rightarrow> secret_context \<Rightarrow> string option \<Rightarrow> string option" where
  "validate_secret f c v =
     (case v of
        None \<Rightarrow> None
      | Some x \<Rightarrow>
          if py_strip x = [] \<or> is_redacted_secret x then None
          else (case sc_cipher c of Some k \<Rightarrow> fn_decrypt f k x | None \<Rightarrow> Some x))"

section \<open>Sources\<close>

datatype secret_source =
    StaticSecret "string option" "string option"
  | LookupSecret "string option" string "(string \<times> string) list"

fun description :: "secret_source \<Rightarrow> string option" where
  "description (StaticSecret d v) = d"
| "description (LookupSecret d url headers) = d"

text \<open>\<open>get_value\<close>: a lookup may raise or fail, and changes the outside world \<open>'x\<close>.\<close>

record 'x secret_env =
  se_lookup :: "string \<Rightarrow> (string \<times> string) list \<Rightarrow> 'x \<Rightarrow> 'x \<times> (string, string) result"
  se_order :: "string list \<Rightarrow> string list"
  se_fernet :: fernet

fun get_value :: "'x secret_env \<Rightarrow> secret_source \<Rightarrow> 'x \<Rightarrow> 'x \<times> (string, string option) result" where
  "get_value env (StaticSecret d v) x = (x, Inr v)"
| "get_value env (LookupSecret d url headers) x =
     (case se_lookup env url headers x of
        (x', Inl e) \<Rightarrow> (x', Inl e)
      | (x', Inr t) \<Rightarrow> (x', Inr (Some t)))"

text \<open>The headers of a lookup hold secrets under secret names.\<close>

fun serialize_headers ::
    "fernet \<Rightarrow> secret_context \<Rightarrow> (string \<times> string) list \<Rightarrow> (secret_error, (string \<times> serialized) list) result" where
  "serialize_headers f c [] = Inr []"
| "serialize_headers f c ((k, v) # hs) =
     (if is_secret_key k
      then bind_res (serialize_secret f c (Some v)) (\<lambda>s. bind_res (serialize_headers f c hs) (\<lambda>r.
             Inr (case s of None \<Rightarrow> r | Some t \<Rightarrow> (k, t) # r)))
      else bind_res (serialize_headers f c hs) (\<lambda>r. Inr ((k, Shown v) # r)))"

fun validate_headers :: "fernet \<Rightarrow> secret_context \<Rightarrow> (string \<times> string) list \<Rightarrow> (string \<times> string) list" where
  "validate_headers f c [] = []"
| "validate_headers f c ((k, v) # hs) =
     (if \<not> is_secret_key k then (k, v) # validate_headers f c hs
      else if py_strip v = [] \<or> is_redacted_secret v then validate_headers f c hs
      else (case validate_secret f c (Some v) of
              None \<Rightarrow> (k, v) # validate_headers f c hs
            | Some s \<Rightarrow> (k, s) # validate_headers f c hs))"

section \<open>The registry\<close>

datatype secret_value = PlainValue string | SourceValue secret_source | OtherValue

record secret_registry =
  sr_sources :: "(string \<times> secret_source) list"
  sr_exported :: "(string \<times> string) list"

definition no_context :: secret_context where
  "no_context = \<lparr>sc_expose = None, sc_cipher = None\<rparr>"

fun wrap_secret :: "fernet \<Rightarrow> secret_value \<Rightarrow> (secret_error, secret_source) result" where
  "wrap_secret f (SourceValue s) = Inr s"
| "wrap_secret f (PlainValue v) = Inr (StaticSecret None (validate_secret f no_context (Some v)))"
| "wrap_secret f OtherValue = Inl (SecretValueError ''Invalid SecretValue'')"

fun wrap_all :: "fernet \<Rightarrow> (string \<times> secret_value) list \<Rightarrow> (secret_error, (string \<times> secret_source) list) result" where
  "wrap_all f [] = Inr []"
| "wrap_all f ((k, v) # r) = bind_res (wrap_secret f v) (\<lambda>s. bind_res (wrap_all f r) (\<lambda>t. Inr ((k, s) # t)))"

definition update_secrets ::
    "'x secret_env \<Rightarrow> (string \<times> secret_value) list \<Rightarrow> secret_registry \<Rightarrow> (secret_error, secret_registry) result" where
  "update_secrets env secrets r =
     bind_res (wrap_all (se_fernet env) secrets) (\<lambda>new.
       Inr (r\<lparr>sr_sources := foldl (\<lambda>d e. AList.update (fst e) (snd e) d) (sr_sources r) new\<rparr>))"

definition find_secrets_in_text :: "string \<Rightarrow> secret_registry \<Rightarrow> string list" where
  "find_secrets_in_text text r = filter (\<lambda>k. is_infix (py_lower k) (py_lower text)) (map fst (sr_sources r))"

text \<open>\<open>if value:\<close> skips a secret without a value; a failed lookup is logged and skipped.\<close>

definition present :: "(string, string option) result \<Rightarrow> string option" where
  "present r = (case r of Inr (Some v) \<Rightarrow> if v = [] then None else Some v | _ \<Rightarrow> None)"

fun export_secrets ::
    "'x secret_env \<Rightarrow> string list \<Rightarrow> secret_registry \<times> 'x \<times> (string \<times> string) list
       \<Rightarrow> secret_registry \<times> 'x \<times> (string \<times> string) list" where
  "export_secrets env [] s = s"
| "export_secrets env (k # ks) (r, x, vars) =
     (case map_of (sr_sources r) k of
        None \<Rightarrow> export_secrets env ks (r, x, vars)
      | Some source \<Rightarrow>
          (case get_value env source x of
             (x', v) \<Rightarrow>
               (case present v of
                  None \<Rightarrow> export_secrets env ks (r, x', vars)
                | Some t \<Rightarrow> export_secrets env ks
                    (r\<lparr>sr_exported := AList.update k t (sr_exported r)\<rparr>, x', AList.update k t vars))))"

definition get_secrets_as_env_vars ::
    "'x secret_env \<Rightarrow> string \<Rightarrow> secret_registry \<Rightarrow> 'x \<Rightarrow> secret_registry \<times> 'x \<times> (string \<times> string) list" where
  "get_secrets_as_env_vars env command r x =
     export_secrets env (se_order env (find_secrets_in_text command r)) (r, x, [])"

definition SECRET_HIDDEN :: string where
  "SECRET_HIDDEN = ''<secret-hidden>''"

definition mask_secrets_in_output :: "string \<Rightarrow> secret_registry \<Rightarrow> string" where
  "mask_secrets_in_output text r =
     (if text = [] then text
      else foldl (\<lambda>t v. py_replace v SECRET_HIDDEN t) text (map snd (sr_exported r)))"

definition get_secret_infos :: "secret_registry \<Rightarrow> (string \<times> string option) list" where
  "get_secret_infos r = map (\<lambda>(name, source). (name, description source)) (sr_sources r)"

definition get_secret_value ::
    "'x secret_env \<Rightarrow> string \<Rightarrow> secret_registry \<Rightarrow> 'x \<Rightarrow> secret_registry \<times> 'x \<times> string option" where
  "get_secret_value env name r x =
     (case map_of (sr_sources r) name of
        None \<Rightarrow> (r, x, None)
      | Some source \<Rightarrow>
          (case get_value env source x of
             (x', Inl e) \<Rightarrow> (r, x', None)
           | (x', Inr v) \<Rightarrow>
               (case present (Inr v) of
                  None \<Rightarrow> (r, x', v)
                | Some t \<Rightarrow> (r\<lparr>sr_exported := AList.update name t (sr_exported r)\<rparr>, x', v))))"

section \<open>Masking\<close>

lemma infix_append: "is_infix p a \<Longrightarrow> is_infix p (a @ b)" "is_infix p b \<Longrightarrow> is_infix p (a @ b)"
  unfolding is_infix_iff by (metis append_assoc)+

lemma infix_around:
  assumes "is_infix v (a @ c # b)" and "c \<notin> set v"
  shows "is_infix v a \<or> is_infix v b"
  using assms(1)
proof (induction a)
  case Nil
  then show ?case using starts_with_before [of v "[]" c b] assms(2) by (auto simp: starts_with_def)
next
  case (Cons d a)
  then show ?case using starts_with_before [of v "d # a" c b] assms(2) by auto
qed

definition maskable :: "string \<Rightarrow> bool" where
  "maskable v \<longleftrightarrow> v \<noteq> [] \<and> CHR ''<'' \<notin> set v \<and> CHR ''>'' \<notin> set v \<and> \<not> is_infix v ''secret-hidden''"

lemma starts_with_replaced:
  assumes "starts_with u (replace_from old SECRET_HIDDEN s)" and "CHR ''<'' \<notin> set u"
  shows "starts_with u s"
  using assms
proof (induction s arbitrary: u)
  case (Cons c s)
  show ?case
  proof (cases u)
    case (Cons a u')
    with Cons.prems have "\<not> starts_with old (c # s)" by (auto simp: starts_with_iff SECRET_HIDDEN_def)
    with Cons.prems Cons Cons.IH [of u'] show ?thesis by (auto simp: starts_with_def)
  qed simp
qed simp

lemma infix_mask:
  assumes "maskable v" and "is_infix v (SECRET_HIDDEN @ s)"
  shows "is_infix v s"
proof -
  have "SECRET_HIDDEN @ s = [] @ CHR ''<'' # ''secret-hidden'' @ CHR ''>'' # s" by (simp add: SECRET_HIDDEN_def)
  with assms have "is_infix v [] \<or> is_infix v (''secret-hidden'' @ CHR ''>'' # s)"
    using infix_around [of v "[]" "CHR ''<''" "''secret-hidden'' @ CHR ''>'' # s"] by (simp add: maskable_def)
  with assms(1) have "is_infix v (''secret-hidden'' @ CHR ''>'' # s)" by (simp add: maskable_def)
  with assms(1) show ?thesis using infix_around [of v "''secret-hidden''" "CHR ''>''" s] by (simp add: maskable_def)
qed

lemma infix_replaced:
  assumes "maskable v" and "is_infix v (replace_from old SECRET_HIDDEN s)"
  shows "is_infix v s"
  using assms(2)
proof (induction old SECRET_HIDDEN s rule: replace_from.induct)
  case (2 old c s)
  show ?case
  proof (cases "starts_with old (c # s)")
    case True
    with "2.prems" have "is_infix v (replace_from old SECRET_HIDDEN (drop (length old - 1) s))"
      using infix_mask [OF assms(1)] by simp
    with True "2.hyps"(1) have "is_infix v (drop (length old - 1) s)" by blast
    then have "is_infix v (take (length old - 1) s @ drop (length old - 1) s)" by (rule infix_append(2))
    then show ?thesis by simp
  next
    case False
    with "2.prems" consider "starts_with v (c # replace_from old SECRET_HIDDEN s)"
      | "is_infix v (replace_from old SECRET_HIDDEN s)" by auto
    then show ?thesis
    proof cases
      case 1
      then have "starts_with v (c # s)"
        using starts_with_replaced [of v old "c # s"] False assms(1) by (simp add: maskable_def)
      then show ?thesis by simp
    qed (use False "2.hyps"(2) in auto)
  qed
qed simp

lemma replaced_gone:
  assumes "maskable v"
  shows "\<not> is_infix v (replace_from v SECRET_HIDDEN s)"
  using assms
proof (induction v SECRET_HIDDEN s rule: replace_from.induct)
  case (1 v)
  then show ?case by (simp add: maskable_def)
next
  case (2 v c s)
  show ?case
  proof (cases "starts_with v (c # s)")
    case True
    with "2.hyps"(1) "2.prems" infix_mask [OF "2.prems"] show ?thesis by auto
  next
    case False
    with starts_with_replaced [of v v "c # s"] "2.prems" "2.hyps"(2) show ?thesis
      by (auto simp: maskable_def)
  qed
qed

lemma mask_foldl:
  assumes "maskable v" and "\<forall>u \<in> set us. u \<noteq> []" and "v \<in> set us \<or> \<not> is_infix v t"
  shows "\<not> is_infix v (foldl (\<lambda>t u. py_replace u SECRET_HIDDEN t) t us)"
  using assms(2,3)
proof (induction us arbitrary: t)
  case (Cons u us)
  have "v \<in> set us \<or> \<not> is_infix v (replace_from u SECRET_HIDDEN t)"
    using Cons.prems(2) replaced_gone [OF assms(1), of t] infix_replaced [OF assms(1), of u t] by auto
  with Cons show ?case by (simp add: py_replace_def)
qed simp

section \<open>Exported values\<close>

definition exports_nonempty :: "secret_registry \<Rightarrow> bool" where
  "exports_nonempty r \<longleftrightarrow> (\<forall>v \<in> snd ` set (sr_exported r). v \<noteq> [])"

lemma masked_value_gone:
  assumes "exports_nonempty r" and "v \<in> snd ` set (sr_exported r)" and "maskable v"
  shows "\<not> is_infix v (mask_secrets_in_output text r)"
proof -
  have "v \<noteq> []" using assms(3) by (simp add: maskable_def)
  then show ?thesis
    using mask_foldl [OF assms(3), of "map snd (sr_exported r)" "text"] assms(1,2)
    by (auto simp: mask_secrets_in_output_def exports_nonempty_def)
qed

lemma replaced_nonempty: "s \<noteq> [] \<Longrightarrow> py_replace old SECRET_HIDDEN s \<noteq> []"
  by (cases s) (auto simp: py_replace_def SECRET_HIDDEN_def)

lemma mask_foldl_nonempty: "t \<noteq> [] \<Longrightarrow> mask_secrets_in_output t r \<noteq> []"
proof -
  have "t \<noteq> [] \<Longrightarrow> foldl (\<lambda>t v. py_replace v SECRET_HIDDEN t) t us \<noteq> []" for us t
    by (induction us arbitrary: t) (auto simp: replaced_nonempty)
  then show "t \<noteq> [] \<Longrightarrow> mask_secrets_in_output t r \<noteq> []" by (simp add: mask_secrets_in_output_def)
qed

lemma present_nonempty: "present r = Some v \<Longrightarrow> v \<noteq> []"
  by (auto simp: present_def split: sum.splits option.splits if_splits)

lemma update_values: "snd ` set (AList.update k v al) \<subseteq> insert v (snd ` set al)"
  by (induction al) (auto split: if_splits)

lemma update_contains: "(k, v) \<in> set (AList.update k v al)"
  by (induction al) auto

lemma update_keeps: "(j, w) \<in> set al \<Longrightarrow> j \<noteq> k \<Longrightarrow> (j, w) \<in> set (AList.update k v al)"
  by (induction al) auto

lemma update_cases: "(j, w) \<in> set (AList.update k v al) \<Longrightarrow> distinct (map fst al) \<Longrightarrow> (j = k \<and> w = v) \<or> (j \<noteq> k \<and> (j, w) \<in> set al)"
  by (metis map_of_eq_Some_iff distinct_update map_of_SomeD update_conv fun_upd_other fun_upd_same option.inject)

text \<open>What is handed to a command is exactly what the registry keeps for masking under the same name.\<close>

definition tracked :: "(string \<times> string) list \<Rightarrow> secret_registry \<Rightarrow> bool" where
  "tracked vars r \<longleftrightarrow> exports_nonempty r \<and> distinct (map fst vars) \<and> distinct (map fst (sr_exported r)) \<and>
     set vars \<subseteq> set (sr_exported r)"

lemma tracked_update:
  assumes "tracked vars r" and "t \<noteq> []"
  shows "tracked (AList.update k t vars) (r\<lparr>sr_exported := AList.update k t (sr_exported r)\<rparr>)"
proof -
  have "set (AList.update k t vars) \<subseteq> set (AList.update k t (sr_exported r))"
  proof
    fix e assume e: "e \<in> set (AList.update k t vars)"
    obtain j w where jw: "e = (j, w)" by (cases e)
    with e update_cases [of j w k t vars] assms(1) consider "j = k" "w = t" | "j \<noteq> k" "(j, w) \<in> set (sr_exported r)"
      by (auto simp: tracked_def)
    then show "e \<in> set (AList.update k t (sr_exported r))"
      using jw update_contains update_keeps by cases auto
  qed
  moreover have "\<forall>v \<in> snd ` set (AList.update k t (sr_exported r)). v \<noteq> []"
  proof
    fix v assume "v \<in> snd ` set (AList.update k t (sr_exported r))"
    with update_values [of k t "sr_exported r"] have "v = t \<or> v \<in> snd ` set (sr_exported r)" by blast
    with assms show "v \<noteq> []" by (auto simp: tracked_def exports_nonempty_def)
  qed
  ultimately show ?thesis
    using assms(1) by (simp add: tracked_def exports_nonempty_def distinct_update)
qed

lemma export_tracked:
  "tracked vars r \<Longrightarrow> export_secrets env ks (r, x, vars) = (r', x', vars') \<Longrightarrow> tracked vars' r'"
proof (induction ks arbitrary: r x vars)
  case (Cons k ks)
  show ?case
  proof (cases "map_of (sr_sources r) k")
    case None
    with Cons show ?thesis by simp
  next
    case (Some source)
    obtain x1 v where v: "get_value env source x = (x1, v)" by (cases "get_value env source x")
    show ?thesis
    proof (cases "present v")
      case None
      with Cons Some v show ?thesis by simp
    next
      case (Some t)
      have "export_secrets env ks (r\<lparr>sr_exported := AList.update k t (sr_exported r)\<rparr>, x1, AList.update k t vars) =
          (r', x', vars')"
        using Cons.prems(2) Some v \<open>map_of (sr_sources r) k = Some source\<close> by simp
      with tracked_update [OF Cons.prems(1) present_nonempty [OF Some], of k] show ?thesis by (rule Cons.IH)
    qed
  qed
qed simp

lemma masked_after_export:
  assumes "exports_nonempty r" "distinct (map fst (sr_exported r))"
    and "get_secrets_as_env_vars env command r x = (r', x', vars)" and "(k, v) \<in> set vars" and "maskable v"
  shows "\<not> is_infix v (mask_secrets_in_output text r')"
proof -
  have "tracked [] r" using assms(1,2) by (simp add: tracked_def)
  with assms(3) have "tracked vars r'" using export_tracked by (simp add: get_secrets_as_env_vars_def)
  then have "exports_nonempty r'" "v \<in> snd ` set (sr_exported r')"
    using assms(4) by (force simp: tracked_def)+
  then show ?thesis by (rule masked_value_gone [OF _ _ assms(5)])
qed

section \<open>Values handed to a command\<close>

text \<open>The value a secret has when its source needs no lookup.\<close>

definition static_value :: "secret_registry \<Rightarrow> string \<Rightarrow> string option" where
  "static_value r k = (case map_of (sr_sources r) k of
     Some (StaticSecret d (Some v)) \<Rightarrow> if v = [] then None else Some v | _ \<Rightarrow> None)"

definition all_static :: "secret_registry \<Rightarrow> bool" where
  "all_static r \<longleftrightarrow> (\<forall>s \<in> snd ` set (sr_sources r). \<exists>d v. s = StaticSecret d v)"

lemma export_static:
  assumes "all_static r" and "export_secrets env ks (r, x, vars) = (r', x', vars')"
  shows "x' = x" and "map_of vars' k = (if k \<in> set ks \<and> static_value r k \<noteq> None then static_value r k else map_of vars k)"
proof -
  have "x' = x \<and> map_of vars' k = (if k \<in> set ks \<and> static_value r k \<noteq> None then static_value r k else map_of vars k)"
    using assms
  proof (induction ks arbitrary: r vars)
    case (Cons j ks)
    show ?case
    proof (cases "map_of (sr_sources r) j")
      case None
      with Cons show ?thesis by (auto simp: static_value_def)
    next
      case (Some s)
      then have "s \<in> snd ` set (sr_sources r)" by (metis map_of_SomeD image_eqI snd_conv)
      with Cons.prems(1) obtain d v where s: "s = StaticSecret d v" by (auto simp: all_static_def)
      show ?thesis
      proof (cases "present (Inr v)")
        case None
        then have "static_value r j = None" using Some s
          by (auto simp: static_value_def present_def split: option.splits if_splits)
        with Cons Some s None show ?thesis by (auto split: if_splits)
      next
        case p: (Some t)
        then have j: "static_value r j = Some t" using Some s
          by (auto simp: static_value_def present_def split: option.splits if_splits)
        let ?r = "r\<lparr>sr_exported := AList.update j t (sr_exported r)\<rparr>"
        have e: "export_secrets env ks (?r, x, AList.update j t vars) = (r', x', vars')"
          using Cons.prems(2) Some s p by simp
        have "all_static ?r" "static_value ?r = static_value r"
          using Cons.prems(1) by (auto simp: all_static_def static_value_def fun_eq_iff)
        with Cons.IH [OF _ e] j show ?thesis by (auto simp: update_conv)
      qed
    qed
  qed simp
  then show "x' = x" "map_of vars' k = (if k \<in> set ks \<and> static_value r k \<noteq> None then static_value r k else map_of vars k)"
    by blast+
qed

section \<open>Round trips\<close>

definition fernet_ok :: "fernet \<Rightarrow> bool" where
  "fernet_ok f \<longleftrightarrow> (\<forall>k v. fn_decrypt f k (fn_encrypt f k v) = Some v \<and>
     py_strip (fn_encrypt f k v) \<noteq> [] \<and> fn_encrypt f k v \<noteq> REDACTED_SECRET_VALUE)"

definition encrypting :: "secret_context \<Rightarrow> bool" where
  "encrypting c \<longleftrightarrow> resolve_expose_mode c = Encrypted \<and> sc_cipher c \<noteq> None"

lemma encrypted_roundtrip:
  assumes "fernet_ok f" and "encrypting c"
  shows "\<exists>s. serialize_secret f c (Some v) = Inr (Some s) \<and> validate_secret f c (Some (rendered s)) = Some v \<and>
    py_strip (rendered s) \<noteq> [] \<and> \<not> is_redacted_secret (rendered s)"
proof -
  obtain k where "sc_cipher c = Some k" "resolve_expose_mode c = Encrypted" using assms(2) by (auto simp: encrypting_def)
  with assms(1) show ?thesis
    by (intro exI [of _ "Shown (fn_encrypt f k v)"])
      (simp add: fernet_ok_def serialize_secret_def validate_secret_def is_redacted_secret_def)
qed

lemma headers_roundtrip:
  assumes "fernet_ok f" and "encrypting c"
  shows "\<exists>r. serialize_headers f c hs = Inr r \<and> validate_headers f c (map (\<lambda>e. (fst e, rendered (snd e))) r) = hs"
proof (induction hs)
  case (Cons h hs)
  obtain k v where h: "h = (k, v)" by (cases h)
  from Cons.IH obtain r where r: "serialize_headers f c hs = Inr r"
    "validate_headers f c (map (\<lambda>e. (fst e, rendered (snd e))) r) = hs" by blast
  from encrypted_roundtrip [OF assms, of v] obtain s where s: "serialize_secret f c (Some v) = Inr (Some s)"
    "validate_secret f c (Some (rendered s)) = Some v" "py_strip (rendered s) \<noteq> []" "\<not> is_redacted_secret (rendered s)"
    by blast
  show ?case using h r s by (cases "is_secret_key k") simp_all
qed simp

section \<open>Properties\<close>

text \<open>
  A value a command gets in its environment never appears in an output masked afterwards, when it
  holds no angle bracket and is no part of the placeholder, whatever other values are masked with it and
  in whatever order.
\<close>

theorem exported_secret_is_masked:
  assumes "exports_nonempty r" and "distinct (map fst (sr_exported r))"
    and "get_secrets_as_env_vars env command r x = (r', x', vars)" and "(k, v) \<in> set vars" and "maskable v"
  shows "\<not> is_infix v (mask_secrets_in_output output r')"
  by (rule masked_after_export [OF assms])

text \<open>
  A command gets exactly the secrets whose names it mentions, in any case of letters, and that have a value.
\<close>

theorem command_gets_mentioned_secrets:
  assumes "all_static r" and "\<forall>ks. set (se_order env ks) = set ks"
    and "get_secrets_as_env_vars env command r x = (r', x', vars)"
  shows "map_of vars k = (if is_infix (py_lower k) (py_lower command) then static_value r k else None)"
proof -
  let ?ks = "se_order env (find_secrets_in_text command r)"
  have "k \<in> set ?ks \<longleftrightarrow> k \<in> fst ` set (sr_sources r) \<and> is_infix (py_lower k) (py_lower command)"
    using assms(2) by (auto simp: find_secrets_in_text_def)
  moreover have "static_value r k = None" if "k \<notin> fst ` set (sr_sources r)"
    using that by (simp add: static_value_def map_of_eq_None_iff [THEN iffD2])
  ultimately show ?thesis
    using export_static(2) [OF assms(1) assms(3) [unfolded get_secrets_as_env_vars_def], of k] by auto
qed

text \<open>
  Secrets and headers saved under a cipher are read back as they were, and secrets saved without one
  are gone after a load, never replaced by the mask they were rendered as.
\<close>

theorem saved_secrets_come_back:
  assumes "fernet_ok f" and "encrypting c"
  shows "(\<exists>r. serialize_headers f c hs = Inr r \<and>
      validate_headers f c (map (\<lambda>e. (fst e, rendered (snd e))) r) = hs) \<and>
    (\<exists>s. serialize_secret f c (Some v) = Inr (Some s) \<and> validate_secret f c (Some (rendered s)) = Some v) \<and>
    (\<exists>s. serialize_secret f no_context (Some v) = Inr (Some s) \<and> validate_secret f c' (Some (rendered s)) = None)"
proof -
  have "serialize_secret f no_context (Some v) = Inr (Some (Hidden v)) \<and> validate_secret f c' (Some (rendered (Hidden v))) = None"
    by (simp add: serialize_secret_def no_context_def resolve_expose_mode_def validate_secret_def is_redacted_secret_def
        py_strip_def py_lstrip_def py_rstrip_def)
  with headers_roundtrip [OF assms] encrypted_roundtrip [OF assms] show ?thesis by meson
qed

text \<open>
  Values are masked in the order they were exported: one that begins another and was exported before it
  leaves the rest of the longer one in the output.
\<close>

theorem extended_value_leaks_its_rest:
  "mask_secrets_in_output ''abcdef'' \<lparr>sr_sources = [], sr_exported = [(''A'', ''abc''), (''B'', ''abcdef'')]\<rparr> =
   ''<secret-hidden>def''"
  by (simp add: mask_secrets_in_output_def py_replace_def SECRET_HIDDEN_def starts_with_def)

section \<open>Witnesses\<close>

definition demo_secret_env :: "unit secret_env" where
  "demo_secret_env =
     \<lparr>se_lookup = (\<lambda>url hs x. (x, Inl ''offline'')), se_order = id,
      se_fernet = \<lparr>fn_encrypt = (\<lambda>k v. CHR ''g'' # v @ ''A''), fn_decrypt = (\<lambda>k v. Some (butlast (tl v)))\<rparr>\<rparr>"

definition demo_registry :: secret_registry where
  "demo_registry = \<lparr>sr_sources = [(''TOK'', StaticSecret None (Some ''s3cr3t''))], sr_exported = []\<rparr>"

lemma exported_secret_is_masked_witness:
  "\<exists>r' vars. get_secrets_as_env_vars demo_secret_env ''echo $tok'' demo_registry () = (r', (), vars) \<and>
     \<not> is_infix ''s3cr3t'' (mask_secrets_in_output ''it is s3cr3t'' r')"
proof -
  let ?r = "demo_registry\<lparr>sr_exported := [(''TOK'', ''s3cr3t'')]\<rparr>"
  have f: "find_secrets_in_text ''echo $tok'' demo_registry = [''TOK'']"
    by (simp add: find_secrets_in_text_def demo_registry_def lower_char_def starts_with_def char_of_def bit_0)
  have e: "get_secrets_as_env_vars demo_secret_env ''echo $tok'' demo_registry () = (?r, (), [(''TOK'', ''s3cr3t'')])"
    unfolding get_secrets_as_env_vars_def f by (simp add: demo_secret_env_def demo_registry_def present_def)
  have m: "maskable ''s3cr3t''" by (simp add: maskable_def starts_with_def)
  have "exports_nonempty demo_registry" "distinct (map fst (sr_exported demo_registry))"
    by (simp_all add: exports_nonempty_def demo_registry_def)
  from exported_secret_is_masked [OF this e _ m] e show ?thesis by auto
qed

lemma saved_secrets_come_back_witness:
  "\<exists>r. serialize_headers (se_fernet demo_secret_env) \<lparr>sc_expose = None, sc_cipher = Some ''k''\<rparr> [(''X-Token'', ''t'')] = Inr r \<and>
     validate_headers (se_fernet demo_secret_env) \<lparr>sc_expose = None, sc_cipher = Some ''k''\<rparr>
       (map (\<lambda>e. (fst e, rendered (snd e))) r) = [(''X-Token'', ''t'')]"
proof -
  have "py_strip (CHR ''g'' # v @ ''A'') \<noteq> []" for v
    by (subst strip_id) (simp_all add: py_space_def)
  then have "fernet_ok (se_fernet demo_secret_env)"
    by (simp add: fernet_ok_def demo_secret_env_def REDACTED_SECRET_VALUE_def)
  moreover have "encrypting \<lparr>sc_expose = None, sc_cipher = Some ''k''\<rparr>"
    by (simp add: encrypting_def resolve_expose_mode_def)
  ultimately show ?thesis using saved_secrets_come_back by blast
qed

end
