(* ===== verification/Terminal_Executor.thy ===== *)
theory Terminal_Executor
  imports Terminal_Session Secrets
begin

text \<open>
  \<open>openhands/tools/terminal/impl.py\<close>: the executor of the terminal tool exports the secrets a command mentions,
  executes it in its session, resets the session on request and masks the secrets in the observation. The
  terminal's state is \<open>'x\<close>, that of the sources of secrets \<open>'y\<close>.
\<close>

section \<open>Quoting\<close>

definition bslash :: char where "bslash = CHR 0x5C"

definition powershell_quote :: "string \<Rightarrow> string" where
  "powershell_quote v = [q1] @ py_replace [q1] [q1, q1] v @ [q1]"

definition bash_quote :: "string \<Rightarrow> string" where
  "bash_quote v =
     (let e1 = py_replace [bslash] [bslash, bslash] v;
          e2 = py_replace [q1] [bslash, q1] e1;
          e3 = py_replace [newline] [bslash, CHR ''n''] e2;
          e4 = py_replace [CHR 0x0D] [bslash, CHR ''r''] e3;
          e5 = py_replace [CHR 0x09] [bslash, CHR ''t''] e4
      in CHR ''$'' # q1 # e5 @ [q1])"

text \<open>\<open>^[a-zA-Z_][a-zA-Z0-9_]*$\<close> with \<open>match\<close>; the end may be followed by a newline.\<close>

definition plain_name :: "string \<Rightarrow> bool" where
  "plain_name k \<longleftrightarrow> (case k of
       [] \<Rightarrow> False
     | c # r \<Rightarrow> alnum_and ''_'' c \<and> \<not> is_digit c \<and> list_all (alnum_and ''_'') r)"

definition env_name_matches :: "string \<Rightarrow> bool" where
  "env_name_matches k \<longleftrightarrow> plain_name k \<or> (k \<noteq> [] \<and> last k = newline \<and> plain_name (butlast k))"

definition build_env_exports :: "bool \<Rightarrow> (string \<times> string) list \<Rightarrow> string" where
  "build_env_exports powershell vars =
     (let valid = filter (\<lambda>e. env_name_matches (fst e)) vars
      in if valid = [] then []
         else if powershell
         then py_join ''; '' (map (\<lambda>(k, v). ''$env:'' @ k @ '' = '' @ powershell_quote v) valid)
         else py_join '' && '' (map (\<lambda>(k, v). ''export '' @ k @ ''='' @ bash_quote v) valid))"

section \<open>Execution\<close>

text \<open>
  \<open>xe_fresh\<close> closes the terminal and creates an initialized session on a new one; the registry is there when
  the executor is called with a conversation.
\<close>

record ('x, 'y) executor_env =
  xe_term :: "'x term_env"
  xe_secret :: "'y secret_env"
  xe_fresh :: "'x session \<Rightarrow> 'x session"

record ('x, 'y) executor =
  ex_session :: "'x session"
  ex_registry :: "secret_registry option"
  ex_secrets :: 'y

definition export_envs ::
    "nat \<Rightarrow> ('x, 'y) executor_env \<Rightarrow> terminal_action \<Rightarrow> ('x, 'y) executor
       \<Rightarrow> (('x, 'y) executor \<times> (terminal_error, unit) result) option" where
  "export_envs fuel env a e =
     (if py_strip (ta_command a) = [] \<or> ta_is_input a then Some (e, Inr ())
      else
        (case ex_registry e of
           None \<Rightarrow> Some (e, Inr ())
         | Some r \<Rightarrow>
             (case get_secrets_as_env_vars (xe_secret env) (ta_command a) r (ex_secrets e) of
                (r', y, vars) \<Rightarrow>
                  (let e' = e\<lparr>ex_registry := Some r', ex_secrets := y\<rparr>;
                       exports = build_env_exports False vars
                   in if vars = [] \<or> exports = [] then Some (e', Inr ())
                      else map_option
                        (\<lambda>(s, res). (e'\<lparr>ex_session := s\<rparr>, case res of Inl err \<Rightarrow> Inl err | Inr obs \<Rightarrow> Inr ()))
                        (execute fuel (xe_term env)
                          \<lparr>ta_command = exports, ta_is_input = False, ta_timeout = ta_timeout a, ta_reset = False\<rparr>
                          (ex_session e'))))))"

definition mask_observation :: "secret_registry option \<Rightarrow> terminal_observation \<Rightarrow> terminal_observation" where
  "mask_observation registry obs =
     (case registry of
        None \<Rightarrow> obs
      | Some r \<Rightarrow>
          if to_text obs = [] then obs
          else let masked = mask_secrets_in_output (to_text obs) r
               in if masked = [] then obs else obs\<lparr>to_text := masked\<rparr>)"

definition RESET_TEXT :: string where
  "RESET_TEXT = ''Terminal session has been reset. All previous environment '' @
     ''variables and session state have been cleared.''"

definition reset_observation :: terminal_observation where
  "reset_observation = \<lparr>to_text = RESET_TEXT, to_command = Some ''[RESET]'', to_exit_code = Some 0,
     to_is_error = False, to_metadata = no_metadata\<rparr>"

definition run_in_session ::
    "nat \<Rightarrow> ('x, 'y) executor_env \<Rightarrow> terminal_action \<Rightarrow> ('x, 'y) executor
       \<Rightarrow> (('x, 'y) executor \<times> (terminal_error, terminal_observation) result) option" where
  "run_in_session fuel env a e =
     (case export_envs fuel env a e of
        None \<Rightarrow> None
      | Some (e1, Inl err) \<Rightarrow> Some (e1, Inl err)
      | Some (e1, Inr _) \<Rightarrow>
          map_option (\<lambda>(s, res). (e1\<lparr>ex_session := s\<rparr>, res)) (execute fuel (xe_term env) a (ex_session e1)))"

definition execute_single_session ::
    "nat \<Rightarrow> ('x, 'y) executor_env \<Rightarrow> terminal_action \<Rightarrow> ('x, 'y) executor
       \<Rightarrow> (('x, 'y) executor \<times> (terminal_error, terminal_observation) result) option" where
  "execute_single_session fuel env a e =
     (let masked = (\<lambda>(e', res). (e', map_sum id (mask_observation (ex_registry e')) res))
      in if ta_reset a \<or> ss_closed (ex_session e)
         then (let e1 = e\<lparr>ex_session := xe_fresh env (ex_session e)\<rparr>
               in if py_strip (ta_command a) = [] then Some (masked (e1, Inr reset_observation))
                  else map_option
                    (\<lambda>(e2, res). masked (e2, map_sum id (\<lambda>obs. obs\<lparr>
                       to_text := RESET_TEXT @ [newline, newline] @ to_text obs,
                       to_command := Some (''[RESET] '' @ ta_command a)\<rparr>) res))
                    (run_in_session fuel env (a\<lparr>ta_is_input := False, ta_reset := False\<rparr>) e1))
         else map_option masked (run_in_session fuel env a e))"

definition executor_call ::
    "nat \<Rightarrow> ('x, 'y) executor_env \<Rightarrow> terminal_action \<Rightarrow> ('x, 'y) executor
       \<Rightarrow> (('x, 'y) executor \<times> (terminal_error, terminal_observation) result) option" where
  "executor_call fuel env a e =
     (if ta_reset a \<and> ta_is_input a then Some (e, Inl (TermValueError ''Cannot use reset=True with is_input=True''))
      else execute_single_session fuel env a e)"

text \<open>
  \<open>_prepare_pooled_session\<close>: a pane that is handed out again is interrupted when its last command did not
  finish, for at most two seconds.
\<close>

fun await_prompt :: "nat \<Rightarrow> 'x term_env \<Rightarrow> 'x \<Rightarrow> 'x" where
  "await_prompt 0 env x = x"
| "await_prompt (Suc k) env x =
     (case te_read_screen env (te_sleep env (1 / 20) x) of
        (x', screen) \<Rightarrow> if ends_with_prompt screen then x' else await_prompt k env x')"

definition prepare_pooled_session :: "'x term_env \<Rightarrow> ('x \<Rightarrow> 'x) \<Rightarrow> 'x session \<Rightarrow> 'x session" where
  "prepare_pooled_session env interrupt s =
     (let s1 = (if running_status (ss_status s)
                then s\<lparr>ss_ext := te_clear_screen env (await_prompt 40 env (interrupt (ss_ext s)))\<rparr> else s)
      in s1\<lparr>ss_status := None, ss_prev_output := []\<rparr>)"

section \<open>What the shell reads\<close>

text \<open>
  The shell's documented reading of \<open>$'...'\<close>, for the escapes that are used, and of a PowerShell literal: the
  value and the text after the closing quote.
\<close>

fun read_ansi :: "string \<Rightarrow> (string \<times> string) option" where
  "read_ansi [] = None"
| "read_ansi (c # s) =
     (if c = q1 then Some ([], s)
      else if c = bslash then
        (case s of
           [] \<Rightarrow> None
         | d # t \<Rightarrow>
             (case (if d = bslash \<or> d = q1 then Some d
                    else if d = CHR ''n'' then Some newline
                    else if d = CHR ''r'' then Some (CHR 0x0D)
                    else if d = CHR ''t'' then Some (CHR 0x09) else None) of
                None \<Rightarrow> None
              | Some x \<Rightarrow> map_option (\<lambda>(v, r). (x # v, r)) (read_ansi t)))
      else map_option (\<lambda>(v, r). (c # v, r)) (read_ansi s))"

fun read_literal :: "string \<Rightarrow> (string \<times> string) option" where
  "read_literal [] = None"
| "read_literal (c # s) =
     (if c = q1
      then (case s of
              d # t \<Rightarrow> if d = q1 then map_option (\<lambda>(v, r). (q1 # v, r)) (read_literal t) else Some ([], s)
            | [] \<Rightarrow> Some ([], []))
      else map_option (\<lambda>(v, r). (c # v, r)) (read_literal s))"

definition escape_char :: "char \<Rightarrow> string" where
  "escape_char c =
     (if c = bslash then [bslash, bslash] else if c = q1 then [bslash, q1]
      else if c = newline then [bslash, CHR ''n''] else if c = CHR 0x0D then [bslash, CHR ''r'']
      else if c = CHR 0x09 then [bslash, CHR ''t''] else [c])"

lemma replace_char: "py_replace [a] new s = concat (map (\<lambda>c. if c = a then new else [c]) s)"
proof -
  have "replace_from [a] new s = concat (map (\<lambda>c. if c = a then new else [c]) s)"
    by (induction s) (auto simp: starts_with_def)
  then show ?thesis by (simp add: py_replace_def)
qed

lemma concat_map_concat: "concat (map f (concat (map g s))) = concat (map (\<lambda>c. concat (map f (g c))) s)"
  by (induction s) auto

lemma bash_quote_chars: "bash_quote v = CHR ''$'' # q1 # concat (map escape_char v) @ [q1]"
proof -
  have e: "concat (map (\<lambda>c. if c = CHR 0x09 then [bslash, CHR ''t''] else [c])
      (concat (map (\<lambda>c. if c = CHR 0x0D then [bslash, CHR ''r''] else [c])
      (concat (map (\<lambda>c. if c = newline then [bslash, CHR ''n''] else [c])
      (concat (map (\<lambda>c. if c = q1 then [bslash, q1] else [c])
         (if c = bslash then [bslash, bslash] else [c])))))))) = escape_char c" for c
    by (simp add: escape_char_def bslash_def q1_def newline_def)
  show ?thesis
    unfolding bash_quote_def Let_def replace_char concat_map_concat by (simp add: e [unfolded concat_map_concat])
qed

lemma read_escaped: "read_ansi (concat (map escape_char v) @ q1 # r) = Some (v, r)"
proof (induction v)
  case (Cons c v)
  then show ?case
    by (simp add: escape_char_def) (simp add: bslash_def q1_def newline_def)
qed simp

text \<open>The assignments of a line \<open>export A=$'..' && export B=$'..'\<close>, as the shell reads them.\<close>

definition read_assignment :: "string \<Rightarrow> ((string \<times> string) \<times> string) option" where
  "read_assignment s =
     (let t = drop 7 s;
          k = takeWhile (alnum_and ''_'') t;
          u = dropWhile (alnum_and ''_'') t
      in if starts_with ''export '' s \<and> starts_with (''=$'' @ [q1]) u
         then map_option (\<lambda>(v, r). ((k, v), r)) (read_ansi (drop 3 u)) else None)"

fun read_exports :: "nat \<Rightarrow> string \<Rightarrow> (string \<times> string) list option" where
  "read_exports 0 s = None"
| "read_exports (Suc n) s =
     (case read_assignment s of
        None \<Rightarrow> None
      | Some (e, r) \<Rightarrow>
          if r = [] then Some [e]
          else if starts_with '' && '' r then map_option ((#) e) (read_exports n (drop 4 r)) else None)"

lemma name_chars: "plain_name k \<Longrightarrow> \<forall>c \<in> set k. alnum_and ''_'' c"
  by (auto simp: plain_name_def list_all_iff split: list.splits)

lemma read_assignment_export:
  assumes "plain_name k"
  shows "read_assignment (''export '' @ k @ ''='' @ bash_quote v @ r) = Some ((k, v), r)"
proof -
  have n: "\<not> alnum_and ''_'' CHR ''=''" by (simp add: alnum_and_def alnum_def is_digit_def char_between_def)
  have t: "takeWhile (alnum_and ''_'') (k @ CHR ''='' # u) = k" "dropWhile (alnum_and ''_'') (k @ CHR ''='' # u) = CHR ''='' # u" for u
    using name_chars [OF assms] n by (simp_all add: takeWhile_append dropWhile_append)
  show ?thesis
    by (simp add: read_assignment_def Let_def t bash_quote_chars starts_with_def read_escaped)
qed

definition export_line :: "string \<times> string \<Rightarrow> string" where
  "export_line e = ''export '' @ fst e @ ''='' @ bash_quote (snd e)"

lemma read_export_lines:
  assumes "vars \<noteq> []" and "\<forall>e \<in> set vars. plain_name (fst e)"
  shows "read_exports (length vars) (py_join '' && '' (map export_line vars)) = Some vars"
  using assms
proof (induction vars rule: induct_list012)
  case (2 e)
  then show ?case using read_assignment_export [of "fst e" "snd e" "[]"] by (simp add: export_line_def)
next
  case (3 e f vars)
  let ?rest = "py_join '' && '' (map export_line (f # vars))"
  have "read_assignment (export_line e @ '' && '' @ ?rest) = Some (e, '' && '' @ ?rest)"
    using read_assignment_export [of "fst e" "snd e" "'' && '' @ ?rest"] 3(4) by (simp add: export_line_def)
  then show ?case using "3.IH"(2) 3(4) by (simp add: starts_with_def)
qed simp

lemma exports_are_lines:
  assumes "\<forall>e \<in> set vars. newline \<notin> set (fst e)"
  shows "build_env_exports False vars = py_join '' && '' (map export_line (filter (\<lambda>e. plain_name (fst e)) vars))"
proof -
  have m: "env_name_matches (fst e) = plain_name (fst e)" if "e \<in> set vars" for e
    using assms that by (auto simp: env_name_matches_def) (metis last_in_set)
  have "filter (\<lambda>e. env_name_matches (fst e)) vars = filter (\<lambda>e. plain_name (fst e)) vars"
    by (rule filter_cong) (simp_all add: m)
  moreover have "(\<lambda>(k, v). ''export '' @ k @ ''='' @ bash_quote v) = export_line"
    by (auto simp: export_line_def)
  ultimately show ?thesis by (simp add: build_env_exports_def Let_def)
qed

lemma read_doubled:
  "(r = [] \<or> hd r \<noteq> q1) \<Longrightarrow>
   read_literal (concat (map (\<lambda>c. if c = q1 then [q1, q1] else [c]) v) @ q1 # r) = Some (v, r)"
  by (induction v) (auto split: list.splits)

lemma read_exports_more: "read_exports n s = Some es \<Longrightarrow> n \<le> m \<Longrightarrow> read_exports m s = Some es"
proof (induction n arbitrary: s m es)
  case (Suc n)
  from Suc.prems(1) obtain e r where e: "read_assignment s = Some (e, r)" by (auto split: option.splits)
  obtain k where m: "m = Suc k" "n \<le> k" using Suc.prems(2) by (cases m) auto
  show ?case
  proof (cases "r = []")
    case True
    then show ?thesis using Suc.prems(1) e m by simp
  next
    case False
    then obtain es' where "starts_with '' && '' r" "read_exports n (drop 4 r) = Some es'" "es = e # es'"
      using Suc.prems(1) e by (auto split: if_splits)
    moreover from this(2) have "read_exports k (drop 4 r) = Some es'" using Suc.IH m(2) by blast
    ultimately show ?thesis using e m False by simp
  qed
qed simp

section \<open>Masked observations\<close>

definition registry_ok :: "secret_registry option \<Rightarrow> bool" where
  "registry_ok o' \<longleftrightarrow> (\<forall>r. o' = Some r \<longrightarrow> exports_nonempty r \<and> distinct (map fst (sr_exported r)))"

lemma export_envs_registry:
  assumes "export_envs fuel env a e = Some (e', res)" and "registry_ok (ex_registry e)"
  shows "registry_ok (ex_registry e')"
proof (cases "ex_registry e")
  case None
  then show ?thesis using assms by (auto simp: export_envs_def split: if_splits)
next
  case (Some r)
  obtain r' y vars where g: "get_secrets_as_env_vars (xe_secret env) (ta_command a) r (ex_secrets e) = (r', y, vars)"
    by (cases "get_secrets_as_env_vars (xe_secret env) (ta_command a) r (ex_secrets e)") auto
  have "tracked [] r" using assms(2) Some by (simp add: registry_ok_def tracked_def)
  then have "tracked vars r'" using export_tracked g by (simp add: get_secrets_as_env_vars_def)
  then have r': "registry_ok (Some r')" by (simp add: registry_ok_def tracked_def)
  from assms(1) consider "ex_registry e' = Some r" | "ex_registry e' = Some r'"
    using Some g by (auto simp: export_envs_def Let_def split: if_splits option.splits)
  then show ?thesis using r' assms(2) Some by cases simp_all
qed

lemma run_in_session_registry:
  assumes "run_in_session fuel env a e = Some (e', res)" and "registry_ok (ex_registry e)"
  shows "registry_ok (ex_registry e')"
proof -
  from assms(1) obtain e1 res1 where x: "export_envs fuel env a e = Some (e1, res1)" "ex_registry e' = ex_registry e1"
    by (auto simp: run_in_session_def split: option.splits prod.splits sum.splits)
  from export_envs_registry [OF x(1) assms(2)] show ?thesis using x(2) by simp
qed

lemma mask_observation_hides:
  assumes "registry_ok (Some r)" and "v \<in> snd ` set (sr_exported r)" and "maskable v"
  shows "\<not> is_infix v (to_text (mask_observation (Some r) obs))"
proof -
  have v: "v \<noteq> []" using assms(3) by (simp add: maskable_def)
  have m: "\<not> is_infix v (mask_secrets_in_output t r)" for t
    by (rule masked_value_gone) (use assms in \<open>simp_all add: registry_ok_def\<close>)
  have "to_text obs \<noteq> [] \<Longrightarrow> mask_secrets_in_output (to_text obs) r = [] \<Longrightarrow> \<not> is_infix v (to_text obs)"
    using m [of "to_text obs"] mask_foldl_nonempty [of "to_text obs" r] by simp
  then show ?thesis using m v by (auto simp: mask_observation_def Let_def)
qed

lemma export_envs_session_registry:
  "execute_single_session fuel env a e = Some (e', res) \<Longrightarrow> registry_ok (ex_registry e) \<Longrightarrow> registry_ok (ex_registry e')"
  by (auto simp: execute_single_session_def Let_def dest!: run_in_session_registry split: if_splits)

lemma executor_call_masks:
  assumes "executor_call fuel env a e = Some (e', Inr obs)"
  obtains obs' where "obs = mask_observation (ex_registry e') obs'"
  proof -
  have m: "map_sum id f y = Inr obs \<Longrightarrow> \<exists>z. obs = f z" for f and y :: "(terminal_error, terminal_observation) result"
    by (cases y) auto
  have "\<exists>z. obs = mask_observation (ex_registry e') z"
    using assms by (auto simp: executor_call_def execute_single_session_def Let_def dest!: m split: if_splits)
  then show thesis using that by blast
qed

lemma executor_call_registry:
  assumes "executor_call fuel env a e = Some (e', res)" and "registry_ok (ex_registry e)"
  shows "registry_ok (ex_registry e')"
  using assms export_envs_session_registry by (auto simp: executor_call_def split: if_splits)

section \<open>Properties\<close>

text \<open>
  C32: The line that exports secrets is read by the shell as exactly the assignments of the secrets whose names
  are identifiers, each with its value: no value, whatever quotes, backslashes or newlines it holds, ends its
  quotation early or adds a command.
\<close>

theorem shell_reads_exported_values:
  assumes "\<forall>e \<in> set vars. newline \<notin> set (fst e)" and "filter (\<lambda>e. plain_name (fst e)) vars \<noteq> []"
  shows "read_exports (length vars) (build_env_exports False vars) = Some (filter (\<lambda>e. plain_name (fst e)) vars)"
  using read_exports_more [OF read_export_lines [OF assms(2)], of "length vars"] exports_are_lines [OF assms(1)]
  by simp


section \<open>Observed limits\<close>

text \<open>
  The output of a busy session is reported once: a command that is refused because another one runs, also the
  line that exports secrets (whose observation nobody reads), takes the new output with it.
\<close>

lemma clipped_empty: "clipped [] = []"
  unfolding clipped_def maybe_truncate_def by (simp add: maybe_truncate_files_short MAX_CMD_OUTPUT_SIZE_def)

theorem refused_command_takes_output:
  assumes "report_busy env c screen ms s = (s1, obs1)" and "report_busy env c' screen ms s1 = (s2, obs2)"
    and "combine_outputs screen ms False \<noteq> []" and "ss_pending s1 = []"
  shows "to_text obs2 = []"
proof -
  have p: "ss_prev_output s1 = combine_outputs screen ms False"
    using assms(1) by (auto simp: report_busy_def dest: get_command_output_status split: prod.splits)
  have "removeprefix u u = []" for u :: string by (simp add: removeprefix_def)
  moreover have "remove_command_prefix [] c' = []"
    by (simp add: remove_command_prefix_def removeprefix_def py_lstrip_def py_rstrip_def)
  moreover have "filter_output [] [] = ([], [])" by (simp add: filter_output_def filter_complete_queries_def re_sub_def)
  ultimately show ?thesis
    using assms(2-4) p clipped_empty
    by (auto simp: report_busy_def get_command_output_def observe_def py_rstrip_def split: prod.splits)
qed

text \<open>A pane that is handed out again keeps the query cut off at the end of its last output.\<close>

theorem prepared_session_keeps_pending:
  assumes "ss_pending s \<noteq> []"
  shows "\<not> session_ok (prepare_pooled_session env interrupt s)"
  using assms by (simp add: session_ok_def prepare_pooled_session_def running_status_def Let_def)

lemma newline_ends_a_name: "env_name_matches (''A'' @ [newline])"
  by (simp add: env_name_matches_def plain_name_def alnum_and_def alnum_def char_between_def is_digit_def)

section \<open>Witnesses\<close>

lemma shell_reads_exported_values_witness:
  "read_exports 2 (build_env_exports False [(''1x'', ''b''), (''A'', [q1, bslash, newline])]) =
     Some [(''A'', [q1, bslash, newline])]"
  using shell_reads_exported_values [of "[(''1x'', ''b''), (''A'', [q1, bslash, newline])]"]
  by (simp add: plain_name_def alnum_and_def alnum_def char_between_def is_digit_def newline_def eval_nat_numeral)

definition demo_executor_env :: "(nat, unit) executor_env" where
  "demo_executor_env = \<lparr>xe_term = demo_term (\<lambda>x. ''working''), xe_secret = demo_secret_env, xe_fresh = id\<rparr>"

definition demo_executor :: "(nat, unit) executor" where
  "demo_executor = \<lparr>ex_session = demo_session (Some HardTimeout),
     ex_registry = Some \<lparr>sr_sources = [], sr_exported = [(''K'', ''work'')]\<rparr>, ex_secrets = ()\<rparr>"

lemma demo_executor_runs:
  "\<exists>e' obs. executor_call 0 demo_executor_env ls_action demo_executor = Some (e', Inr obs) \<and>
     ex_registry e' = Some \<lparr>sr_sources = [], sr_exported = [(''K'', ''work'')]\<rparr>"
proof -
  let ?env = "demo_term (\<lambda>x. ''working'')" and ?s = "demo_session (Some HardTimeout)"
  have d: "\<not> ends_with_prompt ''working''"
    by (simp add: ends_with_prompt_def py_rstrip_def py_space_def PS1_END_def newline_def starts_with_def)
  have "still_busy ls_action ''ls'' ''working'' ?s"
    using d by (simp add: still_busy_def ls_action_def demo_session_def)
  then have e: "\<exists>s obs. execute 0 ?env ls_action ?s = Some (s, Inr obs)"
    using ls_accepted [of "\<lambda>x. ''working''" "Some HardTimeout"]
    by (simp add: execute_def ls_action_def strip_ls demo_session_def demo_term_def split: prod.splits)
  have g: "get_secrets_as_env_vars demo_secret_env t \<lparr>sr_sources = [], sr_exported = x\<rparr> () =
      (\<lparr>sr_sources = [], sr_exported = x\<rparr>, (), [])" for t x
    by (simp add: get_secrets_as_env_vars_def find_secrets_in_text_def demo_secret_env_def)
  have n: "\<not> ta_reset ls_action" "\<not> ta_is_input ls_action" "py_strip (ta_command ls_action) \<noteq> []"
    by (simp_all add: ls_action_def strip_ls)
  have "export_envs 0 demo_executor_env ls_action demo_executor = Some (demo_executor, Inr ())"
    using n g by (simp add: export_envs_def demo_executor_env_def demo_executor_def)
  then show ?thesis
    using e n by (auto simp: executor_call_def execute_single_session_def run_in_session_def
        demo_executor_env_def demo_executor_def demo_session_def)
qed


end
