(* ===== verification/Pane_Pool.thy ===== *)
theory Pane_Pool
  imports Terminal_Executor
begin

text \<open>
  The pool of tmux panes (\<open>openhands/tools/terminal/terminal/tmux_pane_pool.py\<close>) and the calls of the
  executor on it (\<open>impl.py\<close>). Threads are steps between critical sections: a thread that checks a pane
  out passes the guard, acquires the semaphore and takes a pane under the lock; one that checks a pane in puts it
  back under the lock and then releases the semaphore. A pane is named by the order of its creation.
\<close>

section \<open>The pool\<close>

record pane_pool =
  tp_max :: nat
  tp_permits :: nat
  tp_available :: "nat list"
  tp_all :: "nat list"
  tp_initialized :: bool
  tp_closed :: bool
  tp_alive :: bool
  tp_next :: nat

definition new_pool :: "int \<Rightarrow> (terminal_error, pane_pool) result" where
  "new_pool max_panes =
     (if max_panes < 1
      then Inl (TermValueError (''max_panes must be >= 1, but got '' @ show_int max_panes @ ''.''))
      else Inr \<lparr>tp_max = nat max_panes, tp_permits = nat max_panes, tp_available = [], tp_all = [],
                tp_initialized = False, tp_closed = False, tp_alive = False, tp_next = 0\<rparr>)"

definition pool_initialize :: "pane_pool \<Rightarrow> pane_pool" where
  "pool_initialize p = (if tp_initialized p then p else p\<lparr>tp_alive := True, tp_initialized := True\<rparr>)"

text \<open>\<open>close\<close>: the flag, the lists under the lock, the end of the session.\<close>

definition close_flag :: "pane_pool \<Rightarrow> pane_pool" where
  "close_flag p = p\<lparr>tp_closed := True\<rparr>"

definition close_clear :: "pane_pool \<Rightarrow> pane_pool" where
  "close_clear p = p\<lparr>tp_all := [], tp_available := []\<rparr>"

definition close_kill :: "pane_pool \<Rightarrow> pane_pool" where
  "close_kill p = p\<lparr>tp_alive := False\<rparr>"

definition pool_close :: "pane_pool \<Rightarrow> pane_pool" where
  "pool_close p = (if tp_closed p then p else close_kill (close_clear (close_flag p)))"

text \<open>
  \<open>_create_pane\<close> and its append. It may fail for reasons of tmux, and it does when the session is gone: the
  result is then \<open>None\<close>.
\<close>

definition create_pane :: "bool \<Rightarrow> pane_pool \<Rightarrow> (pane_pool \<times> nat) option" where
  "create_pane ok p =
     (if ok \<and> tp_alive p then Some (p\<lparr>tp_all := tp_all p @ [tp_next p], tp_next := Suc (tp_next p)\<rparr>, tp_next p)
      else None)"

definition checkout_allowed :: "pane_pool \<Rightarrow> bool" where
  "checkout_allowed p \<longleftrightarrow> tp_initialized p \<and> \<not> tp_closed p"

text \<open>\<open>checkout\<close> under the lock.\<close>

definition take_pane :: "bool \<Rightarrow> pane_pool \<Rightarrow> (pane_pool \<times> nat) option" where
  "take_pane ok p =
     (case tp_available p of
        a # rest \<Rightarrow> Some (p\<lparr>tp_available := rest\<rparr>, a)
      | [] \<Rightarrow> create_pane ok p)"

text \<open>\<open>checkin\<close> under the lock, and whether the semaphore is released after it.\<close>

definition checkin :: "nat \<Rightarrow> pane_pool \<Rightarrow> pane_pool \<times> bool" where
  "checkin a p =
     (if a \<notin> set (tp_all p) then (p, False)
      else (if tp_closed p then p else p\<lparr>tp_available := tp_available p @ [a]\<rparr>, True))"

definition replace_pane :: "bool \<Rightarrow> nat \<Rightarrow> pane_pool \<Rightarrow> (pane_pool \<times> nat) option" where
  "replace_pane ok old p =
     (case create_pane ok p of
        None \<Rightarrow> None
      | Some (p', new) \<Rightarrow>
          Some (p'\<lparr>tp_all := remove1 old (tp_all p'), tp_available := remove1 old (tp_available p')\<rparr>, new))"

section \<open>Threads\<close>

datatype user = Idle | Wanting bool | Granted | Holding nat | Returning | Clearing | Killing

record 't pool_system =
  sy_pool :: pane_pool
  sy_users :: "'t \<Rightarrow> user"
  sy_lost :: nat

text \<open>
  \<open>Wanting\<close> carries whether the wait has a timeout. \<open>sy_lost\<close> counts the permits whose thread left without
  releasing the semaphore; it is no field of the code.
\<close>

inductive pool_step :: "'t pool_system \<Rightarrow> 't \<Rightarrow> 't pool_system \<Rightarrow> bool" where
  Enter: "sy_users s t = Idle \<Longrightarrow> checkout_allowed (sy_pool s) \<Longrightarrow>
     pool_step s t (s\<lparr>sy_users := (sy_users s)(t := Wanting timed)\<rparr>)"
| Acquire: "sy_users s t = Wanting timed \<Longrightarrow> 0 < tp_permits (sy_pool s) \<Longrightarrow>
     pool_step s t (s\<lparr>sy_users := (sy_users s)(t := Granted),
       sy_pool := (sy_pool s)\<lparr>tp_permits := tp_permits (sy_pool s) - 1\<rparr>\<rparr>)"
| Expire: "sy_users s t = Wanting True \<Longrightarrow> pool_step s t (s\<lparr>sy_users := (sy_users s)(t := Idle)\<rparr>)"
| Take: "sy_users s t = Granted \<Longrightarrow> take_pane ok (sy_pool s) = Some (p, a) \<Longrightarrow>
     pool_step s t (s\<lparr>sy_users := (sy_users s)(t := Holding a), sy_pool := p\<rparr>)"
| TakeFails: "sy_users s t = Granted \<Longrightarrow> take_pane ok (sy_pool s) = None \<Longrightarrow>
     pool_step s t (s\<lparr>sy_users := (sy_users s)(t := Idle), sy_lost := Suc (sy_lost s)\<rparr>)"
| Replace: "sy_users s t = Holding a \<Longrightarrow> replace_pane ok a (sy_pool s) = Some (p, b) \<Longrightarrow>
     pool_step s t (s\<lparr>sy_users := (sy_users s)(t := Holding b), sy_pool := p\<rparr>)"
| GiveBack: "sy_users s t = Holding a \<Longrightarrow> checkin a (sy_pool s) = (p, True) \<Longrightarrow>
     pool_step s t (s\<lparr>sy_users := (sy_users s)(t := Returning), sy_pool := p\<rparr>)"
| Dismiss: "sy_users s t = Holding a \<Longrightarrow> checkin a (sy_pool s) = (p, False) \<Longrightarrow>
     pool_step s t (s\<lparr>sy_users := (sy_users s)(t := Idle), sy_pool := p, sy_lost := Suc (sy_lost s)\<rparr>)"
| Release: "sy_users s t = Returning \<Longrightarrow>
     pool_step s t (s\<lparr>sy_users := (sy_users s)(t := Idle),
       sy_pool := (sy_pool s)\<lparr>tp_permits := Suc (tp_permits (sy_pool s))\<rparr>\<rparr>)"
| Close: "sy_users s t = Idle \<Longrightarrow> \<not> tp_closed (sy_pool s) \<Longrightarrow>
     pool_step s t (s\<lparr>sy_users := (sy_users s)(t := Clearing), sy_pool := close_flag (sy_pool s)\<rparr>)"
| Clear: "sy_users s t = Clearing \<Longrightarrow>
     pool_step s t (s\<lparr>sy_users := (sy_users s)(t := Killing), sy_pool := close_clear (sy_pool s)\<rparr>)"
| Kill: "sy_users s t = Killing \<Longrightarrow>
     pool_step s t (s\<lparr>sy_users := (sy_users s)(t := Idle), sy_pool := close_kill (sy_pool s)\<rparr>)"

inductive pool_run :: "'t pool_system \<Rightarrow> 't pool_system \<Rightarrow> bool" where
  Stop: "pool_run s s"
| Go: "pool_run s s' \<Longrightarrow> pool_step s' t s'' \<Longrightarrow> pool_run s s''"

definition pool_start :: "nat \<Rightarrow> 't pool_system" where
  "pool_start m =
     \<lparr>sy_pool = pool_initialize \<lparr>tp_max = m, tp_permits = m, tp_available = [], tp_all = [],
        tp_initialized = False, tp_closed = False, tp_alive = False, tp_next = 0\<rparr>,
      sy_users = (\<lambda>t. Idle), sy_lost = 0\<rparr>"

section \<open>The invariant\<close>

definition uses_permit :: "user \<Rightarrow> bool" where
  "uses_permit u \<longleftrightarrow> u = Granted \<or> u = Returning \<or> (\<exists>a. u = Holding a)"

definition busy :: "'t pool_system \<Rightarrow> 't set" where
  "busy s = {t. uses_permit (sy_users s t)}"

definition held :: "'t pool_system \<Rightarrow> nat set" where
  "held s = {a. \<exists>t. sy_users s t = Holding a}"

definition permits_ok :: "nat \<Rightarrow> 't pool_system \<Rightarrow> bool" where
  "permits_ok m s \<longleftrightarrow> finite (busy s) \<and> tp_permits (sy_pool s) + card (busy s) + sy_lost s = m"

definition exclusive :: "'t pool_system \<Rightarrow> bool" where
  "exclusive s \<longleftrightarrow> (\<forall>t u a. sy_users s t = Holding a \<and> sy_users s u = Holding a \<longrightarrow> t = u)"

definition panes_ok :: "'t pool_system \<Rightarrow> bool" where
  "panes_ok s \<longleftrightarrow>
     exclusive s \<and> distinct (tp_available (sy_pool s)) \<and> distinct (tp_all (sy_pool s)) \<and>
     set (tp_available (sy_pool s)) \<subseteq> set (tp_all (sy_pool s)) \<and>
     held s \<inter> set (tp_available (sy_pool s)) = {} \<and>
     held s \<union> set (tp_all (sy_pool s)) \<subseteq> {..< tp_next (sy_pool s)}"

definition open_ok :: "nat \<Rightarrow> 't pool_system \<Rightarrow> bool" where
  "open_ok m s \<longleftrightarrow>
     (\<not> tp_closed (sy_pool s) \<longrightarrow>
        held s \<subseteq> set (tp_all (sy_pool s)) \<and>
        set (tp_all (sy_pool s)) \<subseteq> held s \<union> set (tp_available (sy_pool s)) \<and>
        length (tp_all (sy_pool s)) \<le> m \<and> tp_alive (sy_pool s) \<and>
        (\<forall>t. sy_users s t \<noteq> Clearing \<and> sy_users s t \<noteq> Killing))"

lemmas pool_defs = create_pane_def take_pane_def checkin_def replace_pane_def close_flag_def close_clear_def
  close_kill_def checkout_allowed_def

lemma uses_permit_simps [simp]:
  "uses_permit Granted" "uses_permit Returning" "uses_permit (Holding a)" "\<not> uses_permit Idle"
  "\<not> uses_permit (Wanting b)" "\<not> uses_permit Clearing" "\<not> uses_permit Killing"
  by (simp_all add: uses_permit_def)

lemma busy_update [simp]:
  "busy (s\<lparr>sy_users := (sy_users s)(t := u), sy_pool := p, sy_lost := n\<rparr>) =
     (if uses_permit u then insert t (busy s) else busy s - {t})"
  "busy (s\<lparr>sy_users := (sy_users s)(t := u), sy_pool := p\<rparr>) =
     (if uses_permit u then insert t (busy s) else busy s - {t})"
  "busy (s\<lparr>sy_users := (sy_users s)(t := u), sy_lost := n\<rparr>) =
     (if uses_permit u then insert t (busy s) else busy s - {t})"
  "busy (s\<lparr>sy_users := (sy_users s)(t := u)\<rparr>) =
     (if uses_permit u then insert t (busy s) else busy s - {t})"
  by (auto simp: busy_def split: if_splits)

lemma in_busy [simp]: "t \<in> busy s \<longleftrightarrow> uses_permit (sy_users s t)"
  by (simp add: busy_def)

lemma create_pane_keeps:
  "create_pane ok p = Some (p', a) \<Longrightarrow>
     tp_permits p' = tp_permits p \<and> tp_closed p' = tp_closed p \<and> tp_alive p' = tp_alive p \<and> tp_alive p \<and>
     tp_available p' = tp_available p \<and> tp_all p' = tp_all p @ [a] \<and> a = tp_next p \<and> tp_next p' = Suc a"
  by (auto simp: create_pane_def split: if_splits)

lemma permits_step:
  assumes "pool_step s t s'" and "permits_ok m s"
  shows "permits_ok m s'"
  using assms
proof (induction rule: pool_step.induct)
  case (Take s t ok p a)
  then have "tp_permits p = tp_permits (sy_pool s)"
    by (auto simp: take_pane_def dest: create_pane_keeps split: list.splits)
  with Take show ?case by (simp add: permits_ok_def insert_absorb)
next
  case (Replace s t a ok p b)
  then have "tp_permits p = tp_permits (sy_pool s)"
    by (auto simp: replace_pane_def dest: create_pane_keeps split: option.splits)
  with Replace show ?case by (simp add: permits_ok_def insert_absorb)
next
  case (GiveBack s t a p)
  then have "tp_permits p = tp_permits (sy_pool s)" by (auto simp: checkin_def split: if_splits)
  with GiveBack show ?case by (simp add: permits_ok_def insert_absorb)
next
  case (Dismiss s t a p)
  then have p: "p = sy_pool s" by (auto simp: checkin_def split: if_splits)
  have "t \<in> busy s" using Dismiss by simp
  then show ?case using Dismiss p card_Suc_Diff1 [of "busy s" t] by (auto simp: permits_ok_def)
next
  case (TakeFails s t ok)
  have "t \<in> busy s" using TakeFails by simp
  then show ?case using TakeFails card_Suc_Diff1 [of "busy s" t] by (auto simp: permits_ok_def)
next
  case (Release s t)
  have "t \<in> busy s" using Release by simp
  then show ?case using Release card_Suc_Diff1 [of "busy s" t] by (auto simp: permits_ok_def)
qed (simp_all add: permits_ok_def pool_defs)

text \<open>The panes of one thread and those of the others.\<close>

fun pane_of :: "user \<Rightarrow> nat set" where
  "pane_of (Holding a) = {a}"
| "pane_of u = {}"

definition others :: "'t pool_system \<Rightarrow> 't \<Rightarrow> nat set" where
  "others s t = {a. \<exists>u. u \<noteq> t \<and> sy_users s u = Holding a}"

lemma pane_of_iff: "a \<in> pane_of u \<longleftrightarrow> u = Holding a"
  by (cases u) auto

lemma held_split: "held s = pane_of (sy_users s t) \<union> others s t"
  unfolding held_def others_def by (auto simp: pane_of_iff)

lemma others_update: "sy_users s' = (sy_users s)(t := v) \<Longrightarrow> others s' t = others s t"
  unfolding others_def by auto

lemma exclusive_others: "exclusive s \<Longrightarrow> pane_of (sy_users s t) \<inter> others s t = {}"
  unfolding exclusive_def others_def by (auto simp: pane_of_iff)

lemma exclusive_update:
  assumes "exclusive s" and "sy_users s' = (sy_users s)(t := v)" and "pane_of v \<inter> others s t = {}"
  shows "exclusive s'"
  unfolding exclusive_def
proof (intro allI impI, elim conjE)
  fix x y a assume h: "sy_users s' x = Holding a" "sy_users s' y = Holding a"
  show "x = y"
  proof (cases "x = t \<or> y = t")
    case False
    then show ?thesis using h assms(1,2) unfolding exclusive_def by (metis fun_upd_other)
  next
    case True
    then have "a \<in> pane_of v" using h assms(2) by (auto simp: pane_of_iff)
    then have "a \<notin> others s t" using assms(3) by blast
    then show ?thesis using h assms(2) True unfolding others_def by (auto split: if_splits)
  qed
qed

text \<open>A step changes the thread \<open>t\<close> and the pool: what it must give for the panes.\<close>

lemma panes_update:
  assumes "panes_ok s" and "sy_users s' = (sy_users s)(t := v)"
    and "pane_of v \<inter> others s t = {}"
    and "distinct (tp_available (sy_pool s'))" and "distinct (tp_all (sy_pool s'))"
    and "set (tp_available (sy_pool s')) \<subseteq> set (tp_all (sy_pool s'))"
    and "(pane_of v \<union> others s t) \<inter> set (tp_available (sy_pool s')) = {}"
    and "pane_of v \<union> others s t \<union> set (tp_all (sy_pool s')) \<subseteq> {..< tp_next (sy_pool s')}"
  shows "panes_ok s'"
proof -
  have "exclusive s'" using exclusive_update [OF _ assms(2,3)] assms(1) by (simp add: panes_ok_def)
  moreover have "held s' = pane_of v \<union> others s t"
    using held_split [of s' t] others_update [OF assms(2)] assms(2) by simp
  ultimately show ?thesis using assms(4-8) by (simp add: panes_ok_def)
qed

lemma panes_step:
  assumes "pool_step s t s'" and "panes_ok s"
  shows "panes_ok s'"
proof -
  let ?p = "sy_pool s" and ?o = "others s t"
  have h: "held s = pane_of (sy_users s t) \<union> ?o" by (rule held_split)
  have e: "pane_of (sy_users s t) \<inter> ?o = {}"
    by (rule exclusive_others) (use assms(2) in \<open>simp add: panes_ok_def\<close>)
  have ok: "distinct (tp_available ?p)" "distinct (tp_all ?p)" "set (tp_available ?p) \<subseteq> set (tp_all ?p)"
      "(pane_of (sy_users s t) \<union> ?o) \<inter> set (tp_available ?p) = {}"
      "pane_of (sy_users s t) \<union> ?o \<union> set (tp_all ?p) \<subseteq> {..< tp_next ?p}"
    using assms(2) h by (simp_all add: panes_ok_def)
  have fresh: "tp_next ?p \<notin> ?o" "tp_next ?p \<notin> set (tp_all ?p)" using ok(5) by auto
  note up = panes_update [OF assms(2), of s' t]
  from assms(1) show ?thesis
  proof cases
    case (Take ok' p a)
    show ?thesis
    proof (cases "tp_available ?p")
      case Nil
      with Take have c: "create_pane ok' ?p = Some (p, a)" by (simp add: take_pane_def)
      show ?thesis
        by (rule up [of "Holding a"]) (use Take create_pane_keeps [OF c] Nil ok fresh in \<open>auto simp: less_Suc_eq\<close>)
    next
      case (Cons b rest)
      with Take have c: "p = ?p\<lparr>tp_available := rest\<rparr>" "a = b" by (simp_all add: take_pane_def)
      show ?thesis
        by (rule up [of "Holding a"]) (use Take c Cons ok in auto)
    qed
  next
    case (Replace a ok' p b)
    then obtain p' where c: "create_pane ok' ?p = Some (p', b)"
      and p: "p = p'\<lparr>tp_all := remove1 a (tp_all p'), tp_available := remove1 a (tp_available p')\<rparr>"
      by (auto simp: replace_pane_def split: option.splits)
    note k = create_pane_keeps [OF c]
    have "set (remove1 a (tp_available ?p)) \<subseteq> set (remove1 a (tp_all ?p @ [b]))"
      using ok(1-3) k fresh(2) by (auto simp: set_remove1_eq remove1_append)
    then show ?thesis
      using Replace p k ok fresh e
      by (intro up [of "Holding b"]) (auto simp: less_Suc_eq distinct_remove1 dest: notin_set_remove1 set_remove1_subset [THEN subsetD])
  next
    case (GiveBack a p)
    show ?thesis
      by (rule up [of Returning]) (use GiveBack ok e in \<open>auto simp: checkin_def split: if_splits\<close>)
  next
    case (Dismiss a p)
    show ?thesis
      by (rule up [of Idle]) (use Dismiss ok e in \<open>auto simp: checkin_def split: if_splits\<close>)
  next
    case (Enter timed)
    show ?thesis by (rule up [of "Wanting timed"]) (use Enter ok in auto)
  next
    case (Acquire timed)
    show ?thesis by (rule up [of Granted]) (use Acquire ok in auto)
  next
    case Close
    show ?thesis by (rule up [of Clearing]) (use Close ok in \<open>auto simp: pool_defs\<close>)
  next
    case Clear
    show ?thesis by (rule up [of Killing]) (use Clear ok in \<open>auto simp: pool_defs\<close>)
  next
    case Kill
    show ?thesis by (rule up [of Idle]) (use Kill ok in \<open>auto simp: pool_defs\<close>)
  qed (rule up [of Idle]; use ok in auto)+
qed

lemma card_held:
  assumes "finite B" and "\<And>u a. sy_users s u = Holding a \<Longrightarrow> u \<in> B"
  shows "finite (held s) \<and> card (held s) \<le> card B"
proof -
  have "held s \<subseteq> (\<lambda>u. case sy_users s u of Holding a \<Rightarrow> a | _ \<Rightarrow> 0) ` B"
    using assms(2) unfolding held_def by (force simp: image_iff)
  then show ?thesis using assms(1) by (meson card_image_le card_mono finite_imageI finite_subset le_trans)
qed

lemma open_update:
  assumes "open_ok m s" and "sy_users s' = (sy_users s)(t := v)" and "v \<noteq> Clearing" and "v \<noteq> Killing"
    and "\<not> tp_closed (sy_pool s') \<Longrightarrow> \<not> tp_closed (sy_pool s) \<and>
       pane_of v \<union> others s t \<subseteq> set (tp_all (sy_pool s')) \<and>
       set (tp_all (sy_pool s')) \<subseteq> pane_of v \<union> others s t \<union> set (tp_available (sy_pool s')) \<and>
       length (tp_all (sy_pool s')) \<le> m \<and> tp_alive (sy_pool s')"
  shows "open_ok m s'"
proof -
  have "held s' = pane_of v \<union> others s t"
    using held_split [of s' t] others_update [OF assms(2)] assms(2) by simp
  then show ?thesis using assms by (auto simp: open_ok_def)
qed

lemma room_for_a_pane:
  assumes "permits_ok m s" and "panes_ok s" and "sy_users s t = Granted"
    and "set (tp_all (sy_pool s)) \<subseteq> held s"
  shows "Suc (length (tp_all (sy_pool s))) \<le> m"
proof -
  have b: "finite (busy s)" "card (busy s) \<le> m" "t \<in> busy s"
    using assms(1,3) by (auto simp: permits_ok_def)
  have "\<And>u a. sy_users s u = Holding a \<Longrightarrow> u \<in> busy s - {t}" using assms(3) by auto
  then have "finite (held s)" "card (held s) \<le> card (busy s - {t})" using card_held [of "busy s - {t}" s] b(1) by auto
  moreover have "length (tp_all (sy_pool s)) = card (set (tp_all (sy_pool s)))"
    using assms(2) by (simp add: panes_ok_def distinct_card)
  moreover have "card (set (tp_all (sy_pool s))) \<le> card (held s)" using assms(4) calculation(1) by (simp add: card_mono)
  ultimately show ?thesis using b card_Suc_Diff1 [OF b(1,3)] by linarith
qed

lemma open_step:
  assumes "pool_step s t s'" and "open_ok m s" and "permits_ok m s" and "panes_ok s"
  shows "open_ok m s'"
proof -
  let ?p = "sy_pool s" and ?o = "others s t"
  have h: "held s = pane_of (sy_users s t) \<union> ?o" by (rule held_split)
  have e: "pane_of (sy_users s t) \<inter> ?o = {}"
    by (rule exclusive_others) (use assms(4) in \<open>simp add: panes_ok_def\<close>)
  have ok: "\<not> tp_closed ?p \<Longrightarrow> pane_of (sy_users s t) \<union> ?o \<subseteq> set (tp_all ?p) \<and>
      set (tp_all ?p) \<subseteq> pane_of (sy_users s t) \<union> ?o \<union> set (tp_available ?p) \<and>
      length (tp_all ?p) \<le> m \<and> tp_alive ?p \<and> (\<forall>u. sy_users s u \<noteq> Clearing \<and> sy_users s u \<noteq> Killing)"
    using assms(2) h by (auto simp: open_ok_def)
  have d: "distinct (tp_all ?p)" "tp_next ?p \<notin> set (tp_all ?p)" "tp_next ?p \<notin> ?o"
      "set (tp_available ?p) \<subseteq> set (tp_all ?p)" using assms(4) h by (auto simp: panes_ok_def)
  note up = open_update [OF assms(2), of s' t]
  from assms(1) show ?thesis
  proof cases
    case (Take ok' p a)
    show ?thesis
    proof (cases "tp_available ?p")
      case Nil
      with Take have c: "create_pane ok' ?p = Some (p, a)" by (simp add: take_pane_def)
      have "\<not> tp_closed ?p \<Longrightarrow> Suc (length (tp_all ?p)) \<le> m"
        by (rule room_for_a_pane [OF assms(3,4) Take(2)]) (use ok Nil h in auto)
      then show ?thesis
        by (intro up [of "Holding a"]) (use Take create_pane_keeps [OF c] Nil ok in auto)
    next
      case (Cons b rest)
      with Take have c: "p = ?p\<lparr>tp_available := rest\<rparr>" "a = b" by (simp_all add: take_pane_def)
      show ?thesis
        by (rule up [of "Holding a"]) (use Take c Cons ok d in auto)
    qed
  next
    case (Replace a ok' p b)
    then obtain p' where c: "create_pane ok' ?p = Some (p', b)"
      and p: "p = p'\<lparr>tp_all := remove1 a (tp_all p'), tp_available := remove1 a (tp_available p')\<rparr>"
      by (auto simp: replace_pane_def split: option.splits)
    note k = create_pane_keeps [OF c]
    have r: "set (remove1 a (tp_all p')) = insert b (set (tp_all ?p)) - {a}" if "a \<in> set (tp_all ?p)"
      using k d that by (auto simp: set_remove1_eq)
    have l: "length (remove1 a (tp_all p')) = length (tp_all ?p)" if "a \<in> set (tp_all ?p)"
      using k that by (simp add: length_remove1)
    have av: "a \<notin> set (tp_available ?p)" using assms(4) Replace(2) h by (auto simp: panes_ok_def)
    show ?thesis
      by (rule up [of "Holding b"]) (use Replace p k ok r l e av d in \<open>auto simp: remove1_idem\<close>)
  next
    case (GiveBack a p)
    show ?thesis
      by (rule up [of Returning]) (use GiveBack ok e in \<open>auto simp: checkin_def split: if_splits\<close>)
  next
    case (Dismiss a p)
    show ?thesis
      by (rule up [of Idle]) (use Dismiss ok e in \<open>auto simp: checkin_def split: if_splits\<close>)
  next
    case (Enter timed)
    show ?thesis by (rule up [of "Wanting timed"]) (use Enter ok in auto)
  next
    case (Acquire timed)
    show ?thesis by (rule up [of Granted]) (use Acquire ok in auto)
  next
    case Close
    then show ?thesis by (simp add: open_ok_def pool_defs)
  next
    case Clear
    then show ?thesis using ok by (auto simp: open_ok_def pool_defs)
  next
    case Kill
    then show ?thesis using ok by (auto simp: open_ok_def pool_defs)
  qed (rule up [of Idle]; use ok in auto)+
qed

lemma start_ok: "permits_ok m (pool_start m)" "panes_ok (pool_start m)" "open_ok m (pool_start m)"
  by (simp_all add: permits_ok_def panes_ok_def open_ok_def pool_start_def pool_initialize_def busy_def held_def exclusive_def)

lemma run_ok:
  assumes "pool_run (pool_start m) s"
  shows "permits_ok m s \<and> panes_ok s \<and> open_ok m s"
proof -
  have "pool_run s0 s \<Longrightarrow> s0 = pool_start m \<Longrightarrow> permits_ok m s \<and> panes_ok s \<and> open_ok m s" for s0
  proof (induction rule: pool_run.induct)
    case (Stop s)
    then show ?case by (simp add: start_ok)
  next
    case (Go s s' t s'')
    then have "permits_ok m s'" "panes_ok s'" "open_ok m s'" by simp_all
    then show ?case
      using permits_step [OF Go(2)] panes_step [OF Go(2)] open_step [OF Go(2)] by simp
  qed
  then show ?thesis using assms by blast
qed

section \<open>Waiting\<close>

lemma run_trans: "pool_run s' s'' \<Longrightarrow> pool_run s s' \<Longrightarrow> pool_run s s''"
  by (induction rule: pool_run.induct) (auto intro: pool_run.intros)

lemma one_step: "pool_step s t s' \<Longrightarrow> pool_run s s'"
  by (rule pool_run.Go [OF pool_run.Stop])

text \<open>A thread that wants a pane gets one when a permit is free and the pool is open.\<close>

lemma granted_takes:
  assumes "sy_users s t = Granted" and "tp_alive (sy_pool s)"
  shows "\<exists>s' a. pool_run s s' \<and> sy_users s' = (sy_users s)(t := Holding a) \<and>
     tp_permits (sy_pool s') = tp_permits (sy_pool s) \<and> tp_closed (sy_pool s') = tp_closed (sy_pool s) \<and>
     tp_alive (sy_pool s') \<and> a \<in> set (tp_all (sy_pool s')) \<union> set (tp_available (sy_pool s))"
proof -
  have "take_pane True (sy_pool s) \<noteq> None" using assms(2) by (simp add: take_pane_def create_pane_def split: list.splits)
  then obtain p a where p: "take_pane True (sy_pool s) = Some (p, a)" by (cases "take_pane True (sy_pool s)") auto
  have "tp_permits p = tp_permits (sy_pool s) \<and> tp_closed p = tp_closed (sy_pool s) \<and> tp_alive p \<and>
      a \<in> set (tp_all p) \<union> set (tp_available (sy_pool s))"
    using p assms(2) create_pane_keeps [of True "sy_pool s" p a] by (auto simp: take_pane_def split: list.splits)
  then show ?thesis
    using one_step [OF pool_step.Take [OF assms(1) p]] by (intro exI [of _ "s\<lparr>sy_users := (sy_users s)(t := Holding a), sy_pool := p\<rparr>"]) auto
qed

lemma free_permit_serves:
  assumes "sy_users s t = Wanting b" and "0 < tp_permits (sy_pool s)" and "tp_alive (sy_pool s)"
  shows "\<exists>s' a. pool_run s s' \<and> sy_users s' t = Holding a"
proof -
  let ?s = "s\<lparr>sy_users := (sy_users s)(t := Granted), sy_pool := (sy_pool s)\<lparr>tp_permits := tp_permits (sy_pool s) - 1\<rparr>\<rparr>"
  have a: "pool_run s ?s" using one_step [OF pool_step.Acquire [OF assms(1,2)]] .
  obtain s' x where x: "pool_run ?s s'" "sy_users s' = (sy_users ?s)(t := Holding x)"
    using granted_takes [of ?s t] assms(3) by auto
  have "sy_users s' t = Holding x" unfolding x(2) by simp
  then show ?thesis using run_trans [OF x(1) a] by blast
qed

text \<open>A thread that returns or holds a pane of an open pool lets another one go on.\<close>

lemma returning_frees:
  assumes "sy_users s u = Returning" and "sy_users s t = Wanting b" and "tp_alive (sy_pool s)"
  shows "\<exists>s' a. pool_run s s' \<and> sy_users s' t = Holding a"
proof -
  let ?s = "s\<lparr>sy_users := (sy_users s)(u := Idle), sy_pool := (sy_pool s)\<lparr>tp_permits := Suc (tp_permits (sy_pool s))\<rparr>\<rparr>"
  have a: "pool_run s ?s" using one_step [OF pool_step.Release [OF assms(1)]] .
  have "sy_users ?s t = Wanting b" using assms(1,2) by auto
  then obtain s' x where "pool_run ?s s'" "sy_users s' t = Holding x"
    using free_permit_serves [of ?s t b] assms(3) by auto
  then show ?thesis using run_trans a by blast
qed

lemma holding_frees:
  assumes "sy_users s u = Holding a" and "a \<in> set (tp_all (sy_pool s))" and "sy_users s t = Wanting b" and "tp_alive (sy_pool s)"
  shows "\<exists>s' a. pool_run s s' \<and> sy_users s' t = Holding a"
proof -
  obtain p where p: "checkin a (sy_pool s) = (p, True)" "tp_alive p" using assms(2,4) by (simp add: checkin_def)
  let ?s = "s\<lparr>sy_users := (sy_users s)(u := Returning), sy_pool := p\<rparr>"
  have a: "pool_run s ?s" using one_step [OF pool_step.GiveBack [OF assms(1) p(1)]] .
  have "sy_users ?s u = Returning" "sy_users ?s t = Wanting b" using assms(1,3) by auto
  then obtain s' x where "pool_run ?s s'" "sy_users s' t = Holding x" using returning_frees [of ?s u t b] p(2) by auto
  then show ?thesis using run_trans a by blast
qed

lemma open_pool_serves:
  assumes "pool_run (pool_start m) s" and "\<not> tp_closed (sy_pool s)" and "sy_lost s < m" and "sy_users s t = Wanting b"
  shows "\<exists>s' a. pool_run s s' \<and> sy_users s' t = Holding a"
proof -
  have ok: "permits_ok m s" "panes_ok s" "open_ok m s" using run_ok [OF assms(1)] by auto
  have alive: "tp_alive (sy_pool s)" and heldall: "held s \<subseteq> set (tp_all (sy_pool s))"
    using ok(3) assms(2) by (simp_all add: open_ok_def)
  show ?thesis
  proof (cases "tp_permits (sy_pool s) = 0")
    case False
    then show ?thesis using free_permit_serves [OF assms(4) _ alive] by simp
  next
    case True
    then have "card (busy s) > 0" using ok(1) assms(3) by (simp add: permits_ok_def)
    then obtain u where u: "u \<in> busy s" by (metis card_gt_0_iff ex_in_conv)
    then consider "sy_users s u = Granted" | "sy_users s u = Returning" | a where "sy_users s u = Holding a"
      by (auto simp: uses_permit_def)
    then show ?thesis
    proof cases
      case 1
      obtain s' a where s': "pool_run s s'" "sy_users s' = (sy_users s)(u := Holding a)" "tp_alive (sy_pool s')"
          "tp_closed (sy_pool s') = tp_closed (sy_pool s)"
        using granted_takes [OF 1 alive] by auto
      have "sy_users s' u = Holding a" "sy_users s' t = Wanting b" using s'(2) 1 assms(4) by auto
      moreover have "a \<in> set (tp_all (sy_pool s'))"
      proof -
        have "open_ok m s'" using run_ok [of m s'] run_trans [OF s'(1) assms(1)] by blast
        then show ?thesis using s'(4) assms(2) calculation(1) by (auto simp: open_ok_def held_def)
      qed
      ultimately show ?thesis using holding_frees [of s' u a t b] s'(1,3) run_trans by blast
    next
      case 2
      then show ?thesis by (rule returning_frees [OF _ assms(4) alive])
    next
      case 3
      then have "a \<in> held s" by (auto simp: held_def)
      then show ?thesis using holding_frees [OF 3 _ assms(4) alive] heldall by blast
    qed
  qed
qed

text \<open>
  Nobody will release the semaphore: it is at zero, nobody was granted a permit or returns one, and the panes
  that are held are of a closed pool.
\<close>

definition stranded :: "'t pool_system \<Rightarrow> bool" where
  "stranded s \<longleftrightarrow> tp_permits (sy_pool s) = 0 \<and>
     (\<forall>u. sy_users s u \<noteq> Granted \<and> sy_users s u \<noteq> Returning) \<and>
     (held s = {} \<or> \<not> tp_alive (sy_pool s) \<and> held s \<inter> set (tp_all (sy_pool s)) = {})"

lemma stranded_update:
  assumes "stranded s" and "sy_users s' = (sy_users s)(t := v)" and "v \<noteq> Granted" and "v \<noteq> Returning"
    and "pane_of v = {}" and "tp_permits (sy_pool s') = 0" and "tp_alive (sy_pool s') \<Longrightarrow> tp_alive (sy_pool s)"
    and "set (tp_all (sy_pool s')) \<subseteq> set (tp_all (sy_pool s))" and "sy_users s t \<noteq> Wanting False"
  shows "stranded s' \<and> (\<forall>u. sy_users s u = Wanting False \<longrightarrow> sy_users s' u = Wanting False)"
proof -
  have "held s' = pane_of (sy_users s' t) \<union> others s' t" by (rule held_split)
  then have "held s' = others s t" using others_update [OF assms(2)] assms(2,5) by simp
  moreover have "held s = pane_of (sy_users s t) \<union> others s t" by (rule held_split)
  ultimately have "held s' \<subseteq> held s" by simp
  then show ?thesis using assms unfolding stranded_def by auto
qed

lemma stranded_step:
  assumes "pool_step s t s'" and "stranded s"
  shows "stranded s' \<and> (\<forall>u. sy_users s u = Wanting False \<longrightarrow> sy_users s' u = Wanting False)"
proof -
  note up = stranded_update [OF assms(2), of s' t]
  have st: "tp_permits (sy_pool s) = 0" "sy_users s t \<noteq> Granted" "sy_users s t \<noteq> Returning"
    using assms(2) by (simp_all add: stranded_def)
  have dead: "\<not> tp_alive (sy_pool s) \<and> a \<notin> set (tp_all (sy_pool s))" if "sy_users s t = Holding a" for a
  proof -
    have "a \<in> held s" using that by (auto simp: held_def)
    then show ?thesis using assms(2) by (auto simp: stranded_def)
  qed
  from assms(1) show ?thesis
  proof cases
    case (Enter timed)
    show ?thesis by (rule up [of "Wanting timed"]) (use Enter st in auto)
  next
    case (Replace a ok p b)
    then show ?thesis using dead by (auto simp: replace_pane_def create_pane_def)
  next
    case (GiveBack a p)
    then show ?thesis using dead by (auto simp: checkin_def)
  next
    case (Dismiss a p)
    then have "p = sy_pool s" using dead by (auto simp: checkin_def)
    then show ?thesis by (intro up [of Idle]) (use Dismiss st in auto)
  next
    case Close
    show ?thesis by (rule up [of Clearing]) (use Close st in \<open>auto simp: pool_defs\<close>)
  next
    case Clear
    show ?thesis by (rule up [of Killing]) (use Clear st in \<open>auto simp: pool_defs\<close>)
  next
    case Kill
    show ?thesis by (rule up [of Idle]) (use Kill st in \<open>auto simp: pool_defs\<close>)
  next
    case Expire
    show ?thesis by (rule up [of Idle]) (use Expire st in auto)
  qed (use st in simp_all)
qed

lemma stranded_run:
  assumes "pool_run s s'" and "stranded s" and "sy_users s t = Wanting False"
  shows "stranded s' \<and> sy_users s' t = Wanting False"
  using assms
proof (induction rule: pool_run.induct)
  case (Go s s' u s'')
  then have "stranded s'" "sy_users s' t = Wanting False" by simp_all
  then show ?case using stranded_step [OF Go(2)] by simp
qed simp

section \<open>Calls of the executor on a pool\<close>

text \<open>
  One call, whose thread is alone: the pool, the sessions by pane and the terminals that are marked as closed.
  \<open>xp_create\<close> gives the error of tmux when the creation of a pane fails, \<open>xp_gone\<close> the one of a session
  that is gone, \<open>xp_attach\<close> the terminal of a pane.
\<close>

datatype pooled_error = PoolError terminal_error | TmuxError string

record ('x, 'y) pooled_env =
  xp_exec :: "('x, 'y) executor_env"
  xp_create :: "nat \<Rightarrow> string option"
  xp_gone :: string
  xp_attach :: "nat \<Rightarrow> 'x"
  xp_interrupt :: "'x \<Rightarrow> 'x"
  xp_no_change :: "rat option"

record ('x, 'y) pooled =
  px_pool :: pane_pool
  px_sessions :: "(nat \<times> 'x session) list"
  px_dead :: "nat list"
  px_registry :: "secret_registry option"
  px_secrets :: 'y

definition creatable :: "('x, 'y) pooled_env \<Rightarrow> pane_pool \<Rightarrow> bool" where
  "creatable env p \<longleftrightarrow> xp_create env (tp_next p) = None"

definition creation_error :: "('x, 'y) pooled_env \<Rightarrow> pane_pool \<Rightarrow> string" where
  "creation_error env p = (case xp_create env (tp_next p) of Some m \<Rightarrow> m | None \<Rightarrow> xp_gone env)"

definition TMUX_RECOVERABLE_ERROR_MARKERS :: "string list" where
  "TMUX_RECOVERABLE_ERROR_MARKERS =
     [''no server running'', ''can'' @ [q1] @ ''t find session'', ''could not find window_id'', ''could not find pane_id'']"

definition is_recoverable_tmux_pool_error :: "pooled_error \<Rightarrow> bool" where
  "is_recoverable_tmux_pool_error e =
     (case e of
        TmuxError m \<Rightarrow> list_ex (\<lambda>marker. is_infix marker (py_lower m)) TMUX_RECOVERABLE_ERROR_MARKERS
      | PoolError _ \<Rightarrow> False)"

definition attach_to_existing :: "('x, 'y) pooled_env \<Rightarrow> nat \<Rightarrow> 'x session" where
  "attach_to_existing env a =
     \<lparr>ss_ext = xp_attach env a, ss_status = None, ss_prev_output = [], ss_pending = [], ss_cwd = None,
      ss_initialized = True, ss_closed = False,
      ss_no_change = (case xp_no_change env of
         Some t \<Rightarrow> if t = 0 then NO_CHANGE_TIMEOUT_SECONDS else t | None \<Rightarrow> NO_CHANGE_TIMEOUT_SECONDS)\<rparr>"

definition wrap_session :: "('x, 'y) pooled_env \<Rightarrow> nat \<Rightarrow> ('x, 'y) pooled \<Rightarrow> 'x session" where
  "wrap_session env a p =
     (case map_of (px_sessions p) a of Some s \<Rightarrow> s | None \<Rightarrow> attach_to_existing env a)"

definition discard_session :: "nat \<Rightarrow> ('x, 'y) pooled \<Rightarrow> ('x, 'y) pooled" where
  "discard_session a p =
     (if map_of (px_sessions p) a = None then p
      else p\<lparr>px_sessions := filter (\<lambda>e. fst e \<noteq> a) (px_sessions p), px_dead := a # px_dead p\<rparr>)"

text \<open>The pane the call works on, and whether it replaces the one that was checked out.\<close>

definition working_pane ::
    "('x, 'y) pooled_env \<Rightarrow> terminal_action \<Rightarrow> nat \<Rightarrow> ('x, 'y) pooled
       \<Rightarrow> ('x, 'y) pooled \<times> (pooled_error, nat \<times> bool) result" where
  "working_pane env a pane p =
     (if \<not> ta_reset a \<and> pane \<notin> set (px_dead p) then (p, Inr (pane, False))
      else (let p1 = discard_session pane p
            in case replace_pane (creatable env (px_pool p1)) pane (px_pool p1) of
                 None \<Rightarrow> (p1, Inl (TmuxError (creation_error env (px_pool p1))))
               | Some (pool, new) \<Rightarrow> (p1\<lparr>px_pool := pool, px_dead := pane # px_dead p1\<rparr>, Inr (new, True))))"

definition with_reset_text :: "terminal_action \<Rightarrow> terminal_observation \<Rightarrow> terminal_observation" where
  "with_reset_text a obs =
     obs\<lparr>to_text := RESET_TEXT @ [newline, newline] @ to_text obs, to_command := Some (''[RESET] '' @ ta_command a)\<rparr>"

text \<open>The body of the call, and the pane that is checked in after it.\<close>

definition pooled_body ::
    "nat \<Rightarrow> ('x, 'y) pooled_env \<Rightarrow> terminal_action \<Rightarrow> nat \<Rightarrow> ('x, 'y) pooled
       \<Rightarrow> (('x, 'y) pooled \<times> nat \<times> (pooled_error, terminal_observation) result) option" where
  "pooled_body fuel env a pane p =
     (case working_pane env a pane p of
        (p1, Inl e) \<Rightarrow> Some (p1, pane, Inl e)
      | (p1, Inr (new, replaced)) \<Rightarrow>
          if replaced \<and> py_strip (ta_command a) = [] then Some (p1, new, Inr reset_observation)
          else
            (let s = prepare_pooled_session (xe_term (xp_exec env)) (xp_interrupt env) (wrap_session env new p1);
                 a' = (if replaced then a\<lparr>ta_is_input := False, ta_reset := False\<rparr> else a)
             in map_option (\<lambda>(e, res).
                  (p1\<lparr>px_sessions := AList.update new (ex_session e) (px_sessions p1),
                      px_registry := ex_registry e, px_secrets := ex_secrets e\<rparr>, new,
                   map_sum PoolError (\<lambda>obs. mask_observation (ex_registry e)
                     (if replaced then with_reset_text a obs else obs)) res))
                  (run_in_session fuel (xp_exec env) a'
                    \<lparr>ex_session = s, ex_registry = px_registry p1, ex_secrets = px_secrets p1\<rparr>)))"

definition fresh_pool :: "pane_pool \<Rightarrow> pane_pool" where
  "fresh_pool p = pool_initialize \<lparr>tp_max = tp_max p, tp_permits = tp_max p, tp_available = [], tp_all = [],
     tp_initialized = False, tp_closed = False, tp_alive = False, tp_next = tp_next p\<rparr>"

definition recover_tmux_pool :: "('x, 'y) pooled \<Rightarrow> ('x, 'y) pooled" where
  "recover_tmux_pool p = p\<lparr>px_sessions := [], px_pool := fresh_pool (pool_close (px_pool p))\<rparr>"

definition TMUX_POOL_RECOVERY_MESSAGE :: string where
  "TMUX_POOL_RECOVERY_MESSAGE =
     ''The terminal session was reset because the underlying tmux server/session '' @
     ''disappeared while running the previous command. This often happens when a '' @
     ''command terminates the persistent shell, for example by ending with a '' @
     ''top-level `exit` such as `exit $code`, or otherwise kills tmux. OpenHands '' @
     ''rebuilt the terminal pool, but the interrupted command'' @ [q1] @ ''s result is not '' @
     ''reliable and was not retried. Avoid top-level `exit` in future terminal '' @
     ''commands; use a non-shell-exiting status check like `test '' @ double_quotes ''$code'' @ '' -eq 0` '' @
     ''or conditional shell logic instead. Please rerun any needed command.''"

definition recovery_observation :: "terminal_action \<Rightarrow> string \<Rightarrow> terminal_observation" where
  "recovery_observation a error =
     \<lparr>to_text = TMUX_POOL_RECOVERY_MESSAGE @ [newline, newline] @ ''Original tmux error: '' @ error,
      to_command = Some (if ta_command a = [] then ''[RESET]'' else ta_command a),
      to_exit_code = Some (- 1), to_is_error = True, to_metadata = no_metadata\<rparr>"

definition after_error ::
    "terminal_action \<Rightarrow> pooled_error \<Rightarrow> ('x, 'y) pooled
       \<Rightarrow> ('x, 'y) pooled \<times> (pooled_error, terminal_observation) result" where
  "after_error a e p =
     (if is_recoverable_tmux_pool_error e
      then (recover_tmux_pool p, Inr (recovery_observation a (case e of TmuxError m \<Rightarrow> m | PoolError _ \<Rightarrow> [])))
      else (p, Inl e))"

definition give_back :: "nat \<Rightarrow> pane_pool \<Rightarrow> pane_pool" where
  "give_back a p = (case checkin a p of (p', released) \<Rightarrow> if released then p'\<lparr>tp_permits := Suc (tp_permits p')\<rparr> else p')"

definition execute_pooled ::
    "nat \<Rightarrow> ('x, 'y) pooled_env \<Rightarrow> terminal_action \<Rightarrow> ('x, 'y) pooled
       \<Rightarrow> (('x, 'y) pooled \<times> (pooled_error, terminal_observation) result) option" where
  "execute_pooled fuel env a p =
     (if \<not> checkout_allowed (px_pool p)
      then Some (p, Inl (PoolError (TermRuntimeError ''TmuxPanePool is not initialized or already closed'')))
      else if tp_permits (px_pool p) = 0 then None
      else
        (let pool = (px_pool p)\<lparr>tp_permits := tp_permits (px_pool p) - 1\<rparr>
         in case take_pane (creatable env pool) pool of
              None \<Rightarrow> Some (after_error a (TmuxError (creation_error env pool)) (p\<lparr>px_pool := pool\<rparr>))
            | Some (pool', pane) \<Rightarrow>
                map_option (\<lambda>(p1, pane', res).
                  (let p2 = p1\<lparr>px_pool := give_back pane' (px_pool p1)\<rparr>
                   in case res of Inr obs \<Rightarrow> (p2, Inr obs) | Inl e \<Rightarrow> after_error a e p2))
                  (pooled_body fuel env a pane (p\<lparr>px_pool := pool'\<rparr>))))"

definition pooled_call ::
    "nat \<Rightarrow> ('x, 'y) pooled_env \<Rightarrow> terminal_action \<Rightarrow> ('x, 'y) pooled
       \<Rightarrow> (('x, 'y) pooled \<times> (pooled_error, terminal_observation) result) option" where
  "pooled_call fuel env a p =
     (if ta_reset a \<and> ta_is_input a
      then Some (p, Inl (PoolError (TermValueError ''Cannot use reset=True with is_input=True'')))
      else execute_pooled fuel env a p)"

text \<open>The pool between calls: every permit is free and every pane available.\<close>

definition pool_idle :: "pane_pool \<Rightarrow> bool" where
  "pool_idle p \<longleftrightarrow> tp_initialized p \<and> \<not> tp_closed p \<and> tp_alive p \<and> tp_permits p = tp_max p \<and>
     distinct (tp_all p) \<and> distinct (tp_available p) \<and> set (tp_available p) = set (tp_all p) \<and>
     set (tp_all p) \<subseteq> {..< tp_next p}"

text \<open>During a call one pane is out.\<close>

definition one_out :: "nat \<Rightarrow> pane_pool \<Rightarrow> bool" where
  "one_out a p \<longleftrightarrow> tp_initialized p \<and> \<not> tp_closed p \<and> tp_alive p \<and> Suc (tp_permits p) = tp_max p \<and>
     distinct (tp_all p) \<and> distinct (tp_available p) \<and> a \<in> set (tp_all p) \<and>
     set (tp_available p) = set (tp_all p) - {a} \<and> set (tp_all p) \<subseteq> {..< tp_next p}"

lemma give_back_idle: "one_out a p \<Longrightarrow> pool_idle (give_back a p)"
  by (auto simp: one_out_def pool_idle_def give_back_def checkin_def)

lemma fresh_pool_idle: "pool_idle (fresh_pool p)"
  by (simp add: pool_idle_def fresh_pool_def pool_initialize_def)

lemma take_out:
  assumes "pool_idle p" and "0 < tp_permits p"
    and "take_pane ok (p\<lparr>tp_permits := tp_permits p - 1\<rparr>) = Some (p', a)"
  shows "one_out a p'"
proof (cases "tp_available p")
  case Nil
  then have "p' = p\<lparr>tp_permits := tp_permits p - 1, tp_all := [a], tp_next := Suc a\<rparr>" "a = tp_next p"
    using assms by (auto simp: pool_idle_def take_pane_def create_pane_def split: if_splits)
  then show ?thesis using assms(1,2) Nil by (simp add: pool_idle_def one_out_def)
next
  case (Cons b rest)
  then have "p' = p\<lparr>tp_permits := tp_permits p - 1, tp_available := rest\<rparr>" "a = b"
    using assms(3) by (auto simp: take_pane_def)
  then show ?thesis using assms(1,2) Cons by (auto simp: pool_idle_def one_out_def)
qed

lemma replace_out:
  assumes "one_out a p" and "replace_pane ok a p = Some (p', b)"
  shows "one_out b p'"
proof -
  obtain q where c: "create_pane ok p = Some (q, b)"
    and p': "p' = q\<lparr>tp_all := remove1 a (tp_all q), tp_available := remove1 a (tp_available q)\<rparr>"
    using assms(2) by (auto simp: replace_pane_def split: option.splits)
  have b: "b = tp_next p" and q: "q = p\<lparr>tp_all := tp_all p @ [b], tp_next := Suc b\<rparr>"
    using c by (auto simp: create_pane_def split: if_splits)
  have o: "distinct (tp_all p)" "distinct (tp_available p)" "a \<in> set (tp_all p)"
      "set (tp_available p) = set (tp_all p) - {a}" "set (tp_all p) \<subseteq> {..< tp_next p}"
    using assms(1) by (simp_all add: one_out_def)
  have n: "b \<notin> set (tp_all p)" "b \<noteq> a" "a \<notin> set (tp_available p)" using o b by auto
  have d: "distinct (tp_all p @ [b])" using o(1) n(1) by simp
  then have s: "set (remove1 a (tp_all p @ [b])) = insert b (set (tp_all p) - {a})"
    using n(2) by (auto simp: set_remove1_eq)
  have v: "remove1 a (tp_available p) = tp_available p" using n(3) by (rule remove1_idem)
  have w: "set (tp_all p) - {a} \<subseteq> {..< Suc b}" using o(5) b by auto
  have f: "tp_available p' = tp_available p" "tp_all p' = remove1 a (tp_all p @ [b])" "tp_next p' = Suc b"
      "tp_initialized p' = tp_initialized p" "tp_closed p' = tp_closed p" "tp_alive p' = tp_alive p"
      "tp_permits p' = tp_permits p" "tp_max p' = tp_max p"
    unfolding p' q by (simp_all add: v)
  show ?thesis
    unfolding one_out_def f s
    using assms(1) o n d w by (auto simp: one_out_def distinct_remove1 s)
qed

lemma working_pane_out:
  assumes "working_pane env a pane p = (p', res)" and "one_out pane (px_pool p)"
  shows "one_out (case res of Inl _ \<Rightarrow> pane | Inr (b, _) \<Rightarrow> b) (px_pool p')"
proof -
  have "px_pool (discard_session pane p) = px_pool p" by (simp add: discard_session_def)
  then show ?thesis
    using assms replace_out by (auto simp: working_pane_def Let_def split: if_splits option.splits)
qed

lemma pooled_body_out:
  assumes "pooled_body fuel env a pane p = Some (p', b, res)" and "one_out pane (px_pool p)"
  shows "one_out b (px_pool p')"
proof -
  obtain p1 r where w: "working_pane env a pane p = (p1, r)" by (cases "working_pane env a pane p")
  show ?thesis
    using assms(1) w working_pane_out [OF w assms(2)]
    by (cases r) (auto simp: pooled_body_def Let_def split: if_splits)
qed

lemma after_error_idle:
  "after_error a e p = (p', res) \<Longrightarrow> pool_idle (px_pool p) \<Longrightarrow> pool_idle (px_pool p')"
  using fresh_pool_idle by (auto simp: after_error_def recover_tmux_pool_def split: if_splits)

lemma execute_pooled_idle:
  assumes "execute_pooled fuel env a p = Some (p', res)" and "pool_idle (px_pool p)"
  shows "pool_idle (px_pool p') \<or>
    (\<exists>m. res = Inl (TmuxError m) \<and> tp_available (px_pool p) = [] \<and> Suc (tp_permits (px_pool p')) = tp_permits (px_pool p))"
proof -
  have allowed: "checkout_allowed (px_pool p)" using assms(2) by (simp add: pool_idle_def checkout_allowed_def)
  let ?pool = "(px_pool p)\<lparr>tp_permits := tp_permits (px_pool p) - 1\<rparr>"
  have pos: "0 < tp_permits (px_pool p)" using assms(1) allowed by (auto simp: execute_pooled_def split: if_splits)
  show ?thesis
  proof (cases "take_pane (creatable env ?pool) ?pool")
    case None
    then have r: "after_error a (TmuxError (creation_error env ?pool)) (p\<lparr>px_pool := ?pool\<rparr>) = (p', res)"
      using assms(1) allowed pos by (simp add: execute_pooled_def Let_def)
    have "tp_available (px_pool p) = []" using None by (auto simp: take_pane_def split: list.splits)
    then show ?thesis
      using r pos fresh_pool_idle by (auto simp: after_error_def recover_tmux_pool_def split: if_splits)
  next
    case (Some x)
    obtain pool' pane where x: "x = (pool', pane)" by (cases x)
    have out: "one_out pane pool'" using take_out [OF assms(2) pos] Some x by simp
    obtain p1 b r where body: "pooled_body fuel env a pane (p\<lparr>px_pool := pool'\<rparr>) = Some (p1, b, r)"
        and res: "(case r of Inr obs \<Rightarrow> (p1\<lparr>px_pool := give_back b (px_pool p1)\<rparr>, Inr obs)
           | Inl e \<Rightarrow> after_error a e (p1\<lparr>px_pool := give_back b (px_pool p1)\<rparr>)) = (p', res)"
      using assms(1) allowed pos Some x by (auto simp: execute_pooled_def Let_def)
    have "one_out b (px_pool p1)" using pooled_body_out [OF body] out by simp
    then have "pool_idle (give_back b (px_pool p1))" by (rule give_back_idle)
    then have "pool_idle (px_pool p')"
      using res after_error_idle [of a _ "p1\<lparr>px_pool := give_back b (px_pool p1)\<rparr>" p' res] by (cases r) auto
    then show ?thesis ..
  qed
qed

section \<open>Properties\<close>

text \<open>
  C37: However calls, replacements and the end of the pool interleave, no two threads hold the same pane, no pane that is
  held is offered to another thread, at most \<open>max_panes\<close> threads hold one, and as long as the pool is open it
  has at most \<open>max_panes\<close> panes.
\<close>

theorem panes_are_exclusive:
  assumes "pool_run (pool_start m) s"
  shows "exclusive s \<and> held s \<inter> set (tp_available (sy_pool s)) = {} \<and> finite (held s) \<and> card (held s) \<le> m \<and>
     (tp_closed (sy_pool s) \<or> length (tp_all (sy_pool s)) \<le> m)"
proof -
  have ok: "permits_ok m s" "panes_ok s" "open_ok m s" using run_ok [OF assms] by simp_all
  have "finite (held s) \<and> card (held s) \<le> card (busy s)"
    by (rule card_held) (use ok(1) in \<open>auto simp: permits_ok_def\<close>)
  then show ?thesis using ok by (auto simp: permits_ok_def panes_ok_def open_ok_def)
qed

text \<open>
  As long as the pool is open and fewer than \<open>max_panes\<close> creations of a pane failed, every thread that waits
  for a pane can be served: nobody waits for a permit that no thread will release.
\<close>

theorem waiting_thread_can_be_served:
  assumes "pool_run (pool_start m) s" and "\<not> tp_closed (sy_pool s)" and "sy_lost s < m"
    and "sy_users s t = Wanting b"
  shows "\<exists>s' a. pool_run s s' \<and> sy_users s' t = Holding a"
  by (rule open_pool_serves [OF assms])

text \<open>
  A pool whose panes are all in use when it is closed: a thread that already waits for a pane waits
  forever, since panes that come back to a closed pool release no permit. The executor closes a pool when tmux
  is gone, with its other calls waiting.
\<close>

theorem closing_strands_waiting_threads:
  assumes "tp_permits (sy_pool s) = 0" and "\<forall>u. sy_users s u \<noteq> Granted \<and> sy_users s u \<noteq> Returning"
    and "\<not> tp_closed (sy_pool s)" and "sy_users s t = Wanting False"
    and "pool_run (s\<lparr>sy_pool := pool_close (sy_pool s)\<rparr>) s'"
  shows "sy_users s' t = Wanting False"
proof -
  have "stranded (s\<lparr>sy_pool := pool_close (sy_pool s)\<rparr>)"
    using assms(1-3) by (simp add: stranded_def pool_close_def pool_defs held_def)
  then show ?thesis using stranded_run [OF assms(5)] assms(4) by simp
qed

text \<open>As many failed creations as the pool has panes: the open pool never serves anyone again.\<close>

theorem failed_creations_exhaust_the_pool:
  assumes "pool_run (pool_start m) s" and "sy_lost s = m" and "sy_users s t = Wanting False" and "pool_run s s'"
  shows "sy_users s' t = Wanting False"
proof -
  have "permits_ok m s" using run_ok [OF assms(1)] by simp
  then have p: "tp_permits (sy_pool s) = 0" "busy s = {}" using assms(2) by (auto simp: permits_ok_def)
  have n: "\<not> uses_permit (sy_users s u)" for u using p(2) unfolding busy_def by blast
  have "sy_users s u \<noteq> Granted \<and> sy_users s u \<noteq> Returning \<and> sy_users s u \<noteq> Holding a" for u a
    using n [of u] by (auto simp: uses_permit_def)
  then have "stranded s" using p(1) by (simp add: stranded_def held_def)
  then show ?thesis using stranded_run [OF assms(4)] assms(3) by simp
qed

text \<open>
  A call on a pool, whatever its outcome, gives its pane back: the pool it leaves has every permit free
  and every pane available, also when the pane was replaced, the command failed or the pool was rebuilt after tmux
  disappeared. The exception is a call that found no pane to check out and whose creation of one failed with another
  error: its permit is lost.
\<close>

theorem pooled_call_gives_its_pane_back:
  assumes "pooled_call fuel env a p = Some (p', res)" and "pool_idle (px_pool p)"
  shows "pool_idle (px_pool p') \<or>
    (\<exists>m. res = Inl (TmuxError m) \<and> tp_available (px_pool p) = [] \<and> Suc (tp_permits (px_pool p')) = tp_permits (px_pool p))"
proof (cases "ta_reset a \<and> ta_is_input a")
  case True
  then show ?thesis using assms by (auto simp: pooled_call_def)
next
  case False
  then have "execute_pooled fuel env a p = Some (p', res)" using assms(1) by (auto simp: pooled_call_def split: if_splits)
  then show ?thesis using assms(2) by (rule execute_pooled_idle)
qed

section \<open>Witnesses\<close>

definition two_users :: "bool pool_system" where
  "two_users = \<lparr>sy_pool = \<lparr>tp_max = 1, tp_permits = 0, tp_available = [], tp_all = [0], tp_initialized = True,
       tp_closed = False, tp_alive = True, tp_next = 1\<rparr>,
     sy_users = (\<lambda>t. if t then Holding 0 else Wanting True), sy_lost = 0\<rparr>"

lemma two_users_reachable: "pool_run (pool_start 1) two_users"
proof -
  let ?p = "\<lparr>tp_max = 1, tp_permits = 1, tp_available = [], tp_all = [], tp_initialized = True, tp_closed = False,
     tp_alive = True, tp_next = 0\<rparr>"
  let ?s = "\<lambda>u v p. \<lparr>sy_pool = p, sy_users = (\<lambda>t. if t then u else v), sy_lost = 0\<rparr>"
  have f: "(\<lambda>t. if t then u else v)(True := w) = (\<lambda>t. if t then w else v)"
    "(\<lambda>t. if t then u else v)(False := w) = (\<lambda>t. if t then u else w)"
    "(\<lambda>t. u)(True := w) = (\<lambda>t. if t then w else u)" for u v w :: user by auto
  have s0: "pool_start 1 = ?s Idle Idle ?p" by (simp add: pool_start_def pool_initialize_def)
  have a: "pool_step (?s Idle Idle ?p) True (?s (Wanting False) Idle ?p)"
    using pool_step.Enter [of "?s Idle Idle ?p" True False] by (simp add: checkout_allowed_def f)
  have b: "pool_step (?s (Wanting False) Idle ?p) True (?s Granted Idle (?p\<lparr>tp_permits := 0\<rparr>))"
    using pool_step.Acquire [of "?s (Wanting False) Idle ?p" True False] by (simp add: f)
  have c: "pool_step (?s Granted Idle (?p\<lparr>tp_permits := 0\<rparr>)) True (?s (Holding 0) Idle (sy_pool two_users))"
    using pool_step.Take [of "?s Granted Idle (?p\<lparr>tp_permits := 0\<rparr>)" True True "sy_pool two_users" 0]
    by (simp add: f take_pane_def create_pane_def two_users_def)
  have d: "pool_step (?s (Holding 0) Idle (sy_pool two_users)) False two_users"
    using pool_step.Enter [of "?s (Holding 0) Idle (sy_pool two_users)" False True]
    by (simp add: checkout_allowed_def f two_users_def)
  show ?thesis
    unfolding s0 by (rule pool_run.Go [OF _ d], rule pool_run.Go [OF _ c], rule pool_run.Go [OF one_step [OF a] b])
qed

lemma panes_are_exclusive_witness: "exclusive two_users \<and> card (held two_users) \<le> 1"
  using panes_are_exclusive [OF two_users_reachable] by blast

lemma waiting_thread_can_be_served_witness: "\<exists>s' a. pool_run two_users s' \<and> sy_users s' False = Holding a"
  by (rule waiting_thread_can_be_served [OF two_users_reachable, of False True]) (simp_all add: two_users_def)

definition demo_pooled_env :: "(nat, unit) pooled_env" where
  "demo_pooled_env = \<lparr>xp_exec = demo_executor_env, xp_create = (\<lambda>n. None), xp_gone = [], xp_attach = id,
     xp_interrupt = id, xp_no_change = None\<rparr>"

definition demo_pooled :: "(nat, unit) pooled" where
  "demo_pooled = \<lparr>px_pool = \<lparr>tp_max = 1, tp_permits = 1, tp_available = [], tp_all = [], tp_initialized = True,
       tp_closed = False, tp_alive = True, tp_next = 0\<rparr>,
     px_sessions = [], px_dead = [], px_registry = None, px_secrets = ()\<rparr>"

definition reset_action :: terminal_action where
  "reset_action = \<lparr>ta_command = [], ta_is_input = False, ta_timeout = None, ta_reset = True\<rparr>"

lemma demo_reset:
  "pooled_call 0 demo_pooled_env reset_action demo_pooled =
     Some (demo_pooled\<lparr>px_pool := \<lparr>tp_max = 1, tp_permits = 1, tp_available = [1], tp_all = [1], tp_initialized = True,
       tp_closed = False, tp_alive = True, tp_next = 2\<rparr>, px_dead := [0]\<rparr>, Inr reset_observation)"
  by (simp add: pooled_call_def execute_pooled_def checkout_allowed_def demo_pooled_def reset_action_def take_pane_def
      create_pane_def creatable_def demo_pooled_env_def pooled_body_def working_pane_def discard_session_def
      replace_pane_def give_back_def checkin_def py_strip_def py_lstrip_def py_rstrip_def)

lemma pooled_call_gives_its_pane_back_witness:
  "\<exists>p'. pooled_call 0 demo_pooled_env reset_action demo_pooled = Some (p', Inr reset_observation) \<and> pool_idle (px_pool p')"
proof -
  have "pool_idle (px_pool demo_pooled)" by (simp add: pool_idle_def demo_pooled_def)
  from pooled_call_gives_its_pane_back [OF demo_reset this] demo_reset show ?thesis by auto
qed

end
