(* ===== verification/Webhooks.thy ===== *)
theory Webhooks
  imports Prelude "HOL-Library.Multiset"
begin

text \<open>
  The subscriber that posts the events of a conversation to a webhook (\<open>WebhookSubscriber\<close> of
  \<open>agent_server/conversation_service.py\<close>). It is a machine of steps: what runs between two \<open>await\<close>s is one
  step, and the calls, the timers and the posts that wait interleave. The server of the webhook decides how a post ends.
\<close>

section \<open>The subscriber\<close>

record webhook_spec =
  wb_event_buffer_size :: nat
  wb_num_retries :: nat
  wb_max_queue_size :: nat

text \<open>Who runs a post: a call of the subscriber, or the task of a timer.\<close>

datatype poster = Caller | Timer nat

record 'e post =
  po_events :: "'e list"
  po_by :: poster
  po_attempt :: nat

text \<open>
  \<open>wh_timer\<close> is \<open>_flush_timer\<close>; a timer task sleeps, posts, or was cancelled and has its \<open>finally\<close> before
  it. The last four fields record what happened to the events and are no fields of the code.
\<close>

record 'e webhook =
  wh_queue :: "'e list"
  wh_timer :: "nat option"
  wh_sleeping :: "nat list"
  wh_ending :: "nat list"
  wh_posts :: "'e post list"
  wh_next :: nat
  wh_given :: "'e list"
  wh_sent :: "'e list"
  wh_dropped :: "'e list"
  wh_cancelled :: "'e list"

definition new_webhook :: "'e webhook" where
  "new_webhook = \<lparr>wh_queue = [], wh_timer = None, wh_sleeping = [], wh_ending = [], wh_posts = [], wh_next = 0,
     wh_given = [], wh_sent = [], wh_dropped = [], wh_cancelled = []\<rparr>"

text \<open>\<open>_post_events\<close> up to its first request.\<close>

definition begin_post :: "poster \<Rightarrow> 'e webhook \<Rightarrow> 'e webhook" where
  "begin_post who h =
     (if wh_queue h = [] then h
      else h\<lparr>wh_posts := wh_posts h @ [\<lparr>po_events = wh_queue h, po_by = who, po_attempt = 0\<rparr>], wh_queue := []\<rparr>)"

definition timer_done :: "nat \<Rightarrow> 'e webhook \<Rightarrow> bool" where
  "timer_done n h \<longleftrightarrow> n \<notin> set (wh_sleeping h) \<and> (\<forall>p \<in> set (wh_posts h). po_by p \<noteq> Timer n)"

text \<open>
  \<open>_cancel_flush_timer\<close>: a task that is cancelled gets \<open>CancelledError\<close> where it waits, also within a post, whose
  \<open>except Exception\<close> does not catch it.
\<close>

definition cancel_flush_timer :: "'e webhook \<Rightarrow> 'e webhook" where
  "cancel_flush_timer h =
     (case wh_timer h of
        None \<Rightarrow> h
      | Some n \<Rightarrow>
          if timer_done n h then h\<lparr>wh_timer := None\<rparr>
          else h\<lparr>wh_timer := None, wh_sleeping := filter (\<lambda>m. m \<noteq> n) (wh_sleeping h), wh_ending := n # wh_ending h,
                 wh_posts := filter (\<lambda>p. po_by p \<noteq> Timer n) (wh_posts h),
                 wh_cancelled := wh_cancelled h @ concat (map po_events (filter (\<lambda>p. po_by p = Timer n) (wh_posts h)))\<rparr>)"

text \<open>\<open>__call__\<close> up to its first wait.\<close>

definition webhook_call :: "webhook_spec \<Rightarrow> 'e \<Rightarrow> 'e webhook \<Rightarrow> 'e webhook" where
  "webhook_call w e h =
     (let h1 = h\<lparr>wh_queue := wh_queue h @ [e], wh_given := wh_given h @ [e]\<rparr>
      in if wb_event_buffer_size w \<le> length (wh_queue h1) then begin_post Caller (cancel_flush_timer h1)
         else if wh_timer h1 = None
         then h1\<lparr>wh_timer := Some (wh_next h1), wh_sleeping := wh_next h1 # wh_sleeping h1, wh_next := Suc (wh_next h1)\<rparr>
         else h1)"

text \<open>The end of the task of a timer: its \<open>finally\<close>.\<close>

definition task_ends :: "poster \<Rightarrow> 'e webhook \<Rightarrow> 'e webhook" where
  "task_ends who h = (case who of Caller \<Rightarrow> h | Timer n \<Rightarrow> h\<lparr>wh_timer := None\<rparr>)"

definition timer_fires :: "nat \<Rightarrow> 'e webhook \<Rightarrow> 'e webhook" where
  "timer_fires n h =
     (let h1 = h\<lparr>wh_sleeping := filter (\<lambda>m. m \<noteq> n) (wh_sleeping h)\<rparr>
      in if wh_queue h1 = [] then task_ends (Timer n) h1 else begin_post (Timer n) h1)"

definition remove_post :: "nat \<Rightarrow> 'e webhook \<Rightarrow> 'e webhook" where
  "remove_post i h = h\<lparr>wh_posts := take i (wh_posts h) @ drop (Suc i) (wh_posts h)\<rparr>"

definition post_succeeds :: "nat \<Rightarrow> 'e webhook \<Rightarrow> 'e webhook" where
  "post_succeeds i h =
     (let p = wh_posts h ! i
      in task_ends (po_by p) ((remove_post i h)\<lparr>wh_sent := wh_sent h @ po_events p\<rparr>))"

text \<open>A request that fails: another attempt, or the events go back to the queue, which is cut at its beginning.\<close>

definition requeue :: "webhook_spec \<Rightarrow> 'e list \<Rightarrow> 'e webhook \<Rightarrow> 'e webhook" where
  "requeue w events h =
     (let q = wh_queue h @ events;
          overflow = length q - wb_max_queue_size w
      in h\<lparr>wh_queue := drop overflow q, wh_dropped := wh_dropped h @ take overflow q\<rparr>)"

definition post_fails :: "webhook_spec \<Rightarrow> nat \<Rightarrow> 'e webhook \<Rightarrow> 'e webhook" where
  "post_fails w i h =
     (let p = wh_posts h ! i
      in if po_attempt p < wb_num_retries w
         then h\<lparr>wh_posts := (wh_posts h)[i := p\<lparr>po_attempt := Suc (po_attempt p)\<rparr>]\<rparr>
         else task_ends (po_by p) (requeue w (po_events p) (remove_post i h)))"

definition close_webhook :: "'e webhook \<Rightarrow> 'e webhook" where
  "close_webhook h = begin_post Caller (cancel_flush_timer h)"

text \<open>
  A cancelled task runs its \<open>finally\<close>; one that is cancelled before it ever ran does not reach its \<open>try\<close>.
\<close>

definition cancelled_ends :: "nat \<Rightarrow> 'e webhook \<Rightarrow> 'e webhook" where
  "cancelled_ends n h = (h\<lparr>wh_ending := remove1 n (wh_ending h), wh_timer := None\<rparr>)"

definition unstarted_ends :: "nat \<Rightarrow> 'e webhook \<Rightarrow> 'e webhook" where
  "unstarted_ends n h = h\<lparr>wh_ending := remove1 n (wh_ending h)\<rparr>"

inductive webhook_step :: "webhook_spec \<Rightarrow> 'e webhook \<Rightarrow> 'e webhook \<Rightarrow> bool" for w where
  Deliver: "webhook_step w h (webhook_call w e h)"
| Fires: "n \<in> set (wh_sleeping h) \<Longrightarrow> webhook_step w h (timer_fires n h)"
| Succeeds: "i < length (wh_posts h) \<Longrightarrow> webhook_step w h (post_succeeds i h)"
| Fails: "i < length (wh_posts h) \<Longrightarrow> webhook_step w h (post_fails w i h)"
| Ends: "n \<in> set (wh_ending h) \<Longrightarrow> webhook_step w h (cancelled_ends n h)"
| Unstarted: "n \<in> set (wh_ending h) \<Longrightarrow> webhook_step w h (unstarted_ends n h)"
| Closes: "webhook_step w h (close_webhook h)"

inductive webhook_run :: "webhook_spec \<Rightarrow> 'e webhook \<Rightarrow> 'e webhook \<Rightarrow> bool" for w where
  Start: "webhook_run w h h"
| Next: "webhook_run w h h' \<Longrightarrow> webhook_step w h' h'' \<Longrightarrow> webhook_run w h h''"

section \<open>Where the events are\<close>

definition in_flight :: "'e post list \<Rightarrow> 'e multiset" where
  "in_flight ps = mset (concat (map po_events ps))"

definition accounted :: "'e webhook \<Rightarrow> bool" where
  "accounted h \<longleftrightarrow> mset (wh_given h) =
     mset (wh_queue h) + in_flight (wh_posts h) + mset (wh_sent h) + mset (wh_dropped h) + mset (wh_cancelled h)"

lemma in_flight_simps [simp]:
  "in_flight [] = {#}" "in_flight (p # ps) = mset (po_events p) + in_flight ps"
  "in_flight (ps @ qs) = in_flight ps + in_flight qs"
  by (simp_all add: in_flight_def)

lemma in_flight_filter: "in_flight ps = in_flight (filter P ps) + in_flight (filter (\<lambda>p. \<not> P p) ps)"
  by (induction ps) auto

lemma in_flight_split: "i < length ps \<Longrightarrow> in_flight ps = mset (po_events (ps ! i)) + in_flight (take i ps @ drop (Suc i) ps)"
proof -
  assume "i < length ps"
  then have "in_flight ps = in_flight (take i ps @ ps ! i # drop (Suc i) ps)" by (metis id_take_nth_drop)
  then show ?thesis by (simp add: ac_simps)
qed

lemma accounted_begin [simp]: "accounted (begin_post who h) = accounted h"
  by (auto simp: accounted_def begin_post_def)

lemma accounted_cancel [simp]: "accounted (cancel_flush_timer h) = accounted h"
proof (cases "wh_timer h")
  case (Some n)
  have "in_flight (wh_posts h) = in_flight (filter (\<lambda>p. po_by p \<noteq> Timer n) (wh_posts h)) +
      mset (concat (map po_events (filter (\<lambda>p. po_by p = Timer n) (wh_posts h))))"
    using in_flight_filter [of "wh_posts h" "\<lambda>p. po_by p \<noteq> Timer n"] by (simp add: in_flight_def)
  then show ?thesis using Some by (auto simp: cancel_flush_timer_def accounted_def ac_simps)
qed (simp add: cancel_flush_timer_def)

lemma accounted_ends [simp]: "accounted (task_ends who h) = accounted h"
  by (cases who) (simp_all add: task_ends_def accounted_def)

lemma accounted_step:
  assumes "webhook_step w h h'" and "accounted h"
  shows "accounted h'"
  using assms
proof (induction rule: webhook_step.induct)
  case (Deliver h e)
  let ?h = "h\<lparr>wh_queue := wh_queue h @ [e], wh_given := wh_given h @ [e]\<rparr>"
  have h: "accounted ?h" using Deliver by (simp add: accounted_def)
  have "accounted (?h\<lparr>wh_timer := t, wh_sleeping := s, wh_next := k\<rparr>)" for t s k
    using h by (simp add: accounted_def)
  then show ?case using h by (simp add: webhook_call_def Let_def)
next
  case (Fires n h)
  have "accounted (h\<lparr>wh_sleeping := s\<rparr>)" for s using Fires by (simp add: accounted_def)
  then show ?case by (simp add: timer_fires_def Let_def)
next
  case (Succeeds i h)
  have "accounted ((remove_post i h)\<lparr>wh_sent := wh_sent h @ po_events (wh_posts h ! i)\<rparr>)"
    using Succeeds in_flight_split [OF Succeeds(1)] by (simp add: accounted_def remove_post_def ac_simps)
  then show ?case by (simp add: post_succeeds_def Let_def)
next
  case (Fails i h)
  let ?p = "wh_posts h ! i"
  have "in_flight ((wh_posts h)[i := ?p\<lparr>po_attempt := k\<rparr>]) = in_flight (wh_posts h)" for k
    using Fails(1) in_flight_split [OF Fails(1)] in_flight_split [of i "(wh_posts h)[i := ?p\<lparr>po_attempt := k\<rparr>]"] by simp
  then have a: "accounted (h\<lparr>wh_posts := (wh_posts h)[i := ?p\<lparr>po_attempt := k\<rparr>]\<rparr>)" for k
    using Fails(2) by (simp add: accounted_def)
  have "mset (take k q) + mset (drop k q) = mset q" for k and q :: "'a list"
    by (metis append_take_drop_id mset_append)
  then have "accounted (requeue w (po_events ?p) (remove_post i h))"
    using Fails in_flight_split [OF Fails(1)]
    by (simp add: accounted_def requeue_def remove_post_def Let_def ac_simps)
  with a show ?case by (simp add: post_fails_def Let_def)
next
  case (Ends n h)
  then show ?case by (simp add: cancelled_ends_def accounted_def)
next
  case (Unstarted n h)
  then show ?case by (simp add: unstarted_ends_def accounted_def)
next
  case (Closes h)
  then show ?case by (simp add: close_webhook_def)
qed

section \<open>How many events wait\<close>

definition queue_bound :: "webhook_spec \<Rightarrow> nat" where
  "queue_bound w = max (wb_max_queue_size w) (wb_event_buffer_size w - 1)"

lemma queue_simps [simp]:
  "wh_queue (begin_post who h) = []" "wh_queue (cancel_flush_timer h) = wh_queue h"
  "wh_queue (task_ends who h) = wh_queue h" "wh_queue (remove_post i h) = wh_queue h"
  by (auto simp: begin_post_def cancel_flush_timer_def task_ends_def remove_post_def split: option.splits poster.splits)

lemma queue_step:
  assumes "webhook_step w h h'" and "length (wh_queue h) \<le> queue_bound w"
  shows "length (wh_queue h') \<le> queue_bound w"
  using assms
  by (induction rule: webhook_step.induct)
    (auto simp: webhook_call_def timer_fires_def post_succeeds_def post_fails_def requeue_def close_webhook_def
      cancelled_ends_def unstarted_ends_def queue_bound_def Let_def)

text \<open>Each post makes at most \<open>num_retries + 1\<close> requests.\<close>

definition attempts_ok :: "webhook_spec \<Rightarrow> 'e webhook \<Rightarrow> bool" where
  "attempts_ok w h \<longleftrightarrow> (\<forall>p \<in> set (wh_posts h). po_attempt p \<le> wb_num_retries w \<and> po_events p \<noteq> [])"

lemma posts_simps [simp]:
  "wh_posts (task_ends who h) = wh_posts h" "wh_posts (requeue w es h) = wh_posts h"
  by (auto simp: task_ends_def requeue_def Let_def split: poster.splits)

lemma attempts_begin: "attempts_ok w h \<Longrightarrow> attempts_ok w (begin_post who h)"
  by (auto simp: attempts_ok_def begin_post_def)

lemma attempts_cancel: "attempts_ok w h \<Longrightarrow> attempts_ok w (cancel_flush_timer h)"
  by (auto simp: attempts_ok_def cancel_flush_timer_def split: option.splits)

lemma attempts_same: "attempts_ok w h \<Longrightarrow> set (wh_posts h') \<subseteq> set (wh_posts h) \<Longrightarrow> attempts_ok w h'"
  by (auto simp: attempts_ok_def)

lemma attempts_step:
  assumes "webhook_step w h h'" and "attempts_ok w h"
  shows "attempts_ok w h'"
  using assms
proof (induction rule: webhook_step.induct)
  case (Deliver h e)
  let ?h = "h\<lparr>wh_queue := wh_queue h @ [e], wh_given := wh_given h @ [e]\<rparr>"
  have h: "attempts_ok w ?h" by (rule attempts_same [OF Deliver]) simp
  then have "attempts_ok w (?h\<lparr>wh_timer := t, wh_sleeping := s, wh_next := k\<rparr>)" for t s k by (rule attempts_same) simp
  then show ?case using h attempts_begin [OF attempts_cancel [OF h]] by (simp add: webhook_call_def Let_def)
next
  case (Fires n h)
  let ?h = "h\<lparr>wh_sleeping := filter (\<lambda>m. m \<noteq> n) (wh_sleeping h)\<rparr>"
  have h: "attempts_ok w ?h" by (rule attempts_same [OF Fires(2)]) simp
  have "attempts_ok w (task_ends (Timer n) ?h)" by (rule attempts_same [OF h]) simp
  then show ?case using attempts_begin [OF h, of "Timer n"] by (simp add: timer_fires_def Let_def)
next
  case (Succeeds i h)
  show ?case
    by (rule attempts_same [OF Succeeds(2)])
      (auto simp: post_succeeds_def remove_post_def Let_def dest: in_set_takeD in_set_dropD)
next
  case (Fails i h)
  show ?case
  proof (cases "po_attempt (wh_posts h ! i) < wb_num_retries w")
    case True
    then show ?thesis
      using Fails nth_mem [of i "wh_posts h"]
      by (auto simp: post_fails_def attempts_ok_def Let_def dest!: set_update_subset_insert [THEN subsetD])
  next
    case False
    then show ?thesis
      by (intro attempts_same [OF Fails(2)])
        (auto simp: post_fails_def remove_post_def Let_def dest: in_set_takeD in_set_dropD)
  qed
next
  case (Ends n h)
  show ?case by (rule attempts_same [OF Ends(2)]) (simp add: cancelled_ends_def)
next
  case (Unstarted n h)
  show ?case by (rule attempts_same [OF Unstarted(2)]) (simp add: unstarted_ends_def)
next
  case (Closes h)
  then show ?case unfolding close_webhook_def by (intro attempts_begin attempts_cancel)
qed

lemma webhook_run_ok:
  "webhook_run w h h' \<Longrightarrow> accounted h \<and> length (wh_queue h) \<le> queue_bound w \<and> attempts_ok w h \<Longrightarrow>
     accounted h' \<and> length (wh_queue h') \<le> queue_bound w \<and> attempts_ok w h'"
proof (induction rule: webhook_run.induct)
  case (Next h h' h'')
  then show ?case using accounted_step [OF Next(2)] queue_step [OF Next(2)] attempts_step [OF Next(2)] by simp
qed simp

lemma new_webhook_ok: "accounted new_webhook \<and> length (wh_queue new_webhook) \<le> queue_bound w \<and> attempts_ok w new_webhook"
  by (simp add: new_webhook_def accounted_def attempts_ok_def)

section \<open>Properties\<close>

text \<open>
  C40: However deliveries, timers, answers of the server and cancellations interleave, every event that was given to the
  subscriber is in exactly one place: it waits in the queue, is part of a post that runs, was accepted by the server, was
  dropped because too many waited, or went down with a post that was cancelled. Without overflow and
  cancellation none is lost, and none is posted twice.
\<close>

theorem every_event_is_accounted_for:
  assumes "webhook_run w new_webhook h"
  shows "mset (wh_given h) =
    mset (wh_queue h) + in_flight (wh_posts h) + mset (wh_sent h) + mset (wh_dropped h) + mset (wh_cancelled h)"
  using webhook_run_ok [OF assms new_webhook_ok] by (simp add: accounted_def)

text \<open>
  The queue is bounded by \<open>max_queue_size\<close>, or by the buffer when that is larger, and a post makes at
  most \<open>num_retries + 1\<close> requests and never an empty one.
\<close>

theorem webhook_queue_is_bounded:
  assumes "webhook_run w new_webhook h"
  shows "length (wh_queue h) \<le> queue_bound w \<and>
    list_all (\<lambda>p. po_attempt p \<le> wb_num_retries w \<and> po_events p \<noteq> []) (wh_posts h)"
  using webhook_run_ok [OF assms new_webhook_ok] by (simp add: attempts_ok_def list_all_iff)

section \<open>Observed limits\<close>

lemma run_stepI: "webhook_step w h h' \<Longrightarrow> webhook_run w h' h'' \<Longrightarrow> webhook_run w h h''"
proof -
  have "webhook_run w h' h'' \<Longrightarrow> webhook_step w h h' \<Longrightarrow> webhook_run w h h''" for h
    by (induction rule: webhook_run.induct) (auto intro: webhook_run.intros)
  then show "webhook_step w h h' \<Longrightarrow> webhook_run w h' h'' \<Longrightarrow> webhook_run w h h''" by blast
qed

text \<open>
  An event that arrives while a timer posts finds the timer set and starts none. When the post has succeeded nobody is
  left who would post the event: it waits for the next one.
\<close>

theorem event_during_a_flush_is_stranded:
  assumes "3 \<le> wb_event_buffer_size w"
  shows "\<exists>h. webhook_run w new_webhook h \<and> wh_queue h = [b] \<and> wh_timer h = None \<and> wh_sleeping h = [] \<and>
     wh_ending h = [] \<and> wh_posts h = []"
proof -
  let ?h = "post_succeeds 0 (webhook_call w b (timer_fires 0 (webhook_call w a new_webhook)))"
  have "webhook_run w new_webhook ?h"
    by (rule run_stepI [OF webhook_step.Deliver], rule run_stepI [OF webhook_step.Fires], rule_tac [2] run_stepI [OF webhook_step.Deliver],
        rule_tac [2] run_stepI [OF webhook_step.Succeeds], rule_tac [3] webhook_run.Start)
      (use assms in \<open>simp_all add: webhook_call_def timer_fires_def begin_post_def new_webhook_def Let_def\<close>)
  moreover have "wh_queue ?h = [b] \<and> wh_timer ?h = None \<and> wh_sleeping ?h = [] \<and> wh_ending ?h = [] \<and> wh_posts ?h = []"
    using assms by (simp add: webhook_call_def timer_fires_def begin_post_def new_webhook_def post_succeeds_def remove_post_def
        task_ends_def Let_def)
  ultimately show ?thesis by blast
qed

text \<open>
  The buffer that fills up while a timer posts cancels the post: its events are in no queue any more, though
  the server never refused anything.
\<close>

theorem full_buffer_cancels_the_post:
  assumes "wb_event_buffer_size w = 2"
  shows "\<exists>h. webhook_run w new_webhook h \<and> wh_cancelled h = [a] \<and> wh_sent h = [] \<and> wh_dropped h = []"
proof -
  let ?h = "webhook_call w c (webhook_call w b (timer_fires 0 (webhook_call w a new_webhook)))"
  have "webhook_run w new_webhook ?h"
    by (rule run_stepI [OF webhook_step.Deliver], rule run_stepI [OF webhook_step.Fires], rule_tac [2] run_stepI [OF webhook_step.Deliver],
        rule_tac [2] run_stepI [OF webhook_step.Deliver], rule_tac [2] webhook_run.Start)
      (use assms in \<open>simp add: webhook_call_def new_webhook_def Let_def\<close>)
  moreover have "wh_cancelled ?h = [a] \<and> wh_sent ?h = [] \<and> wh_dropped ?h = []"
    using assms by (simp add: webhook_call_def timer_fires_def begin_post_def new_webhook_def cancel_flush_timer_def timer_done_def Let_def)
  ultimately show ?thesis by blast
qed

text \<open>
  Events that go back to the queue are put behind those that arrived in the meantime: the order is lost, and the overflow
  drops the newer events first.
\<close>

theorem requeue_drops_newer_events:
  assumes "wb_event_buffer_size w = 2" and "wb_max_queue_size w = 2" and "wb_num_retries w = 0"
  shows "\<exists>h. webhook_run w new_webhook h \<and> wh_given h = [a, b, c] \<and> wh_dropped h = [c] \<and> wh_queue h = [a, b]"
proof -
  let ?h = "post_fails w 0 (webhook_call w c (webhook_call w b (webhook_call w a new_webhook)))"
  have "webhook_run w new_webhook ?h"
    by (rule run_stepI [OF webhook_step.Deliver], rule run_stepI [OF webhook_step.Deliver], rule run_stepI [OF webhook_step.Deliver],
        rule run_stepI [OF webhook_step.Fails], rule_tac [2] webhook_run.Start)
      (use assms in \<open>simp add: webhook_call_def begin_post_def new_webhook_def cancel_flush_timer_def timer_done_def Let_def\<close>)
  moreover have "wh_given ?h = [a, b, c] \<and> wh_dropped ?h = [c] \<and> wh_queue ?h = [a, b]"
    using assms by (simp add: webhook_call_def begin_post_def new_webhook_def cancel_flush_timer_def timer_done_def Let_def
        post_fails_def requeue_def remove_post_def task_ends_def)
  ultimately show ?thesis by blast
qed

section \<open>Witnesses\<close>

definition demo_webhook :: webhook_spec where
  "demo_webhook = \<lparr>wb_event_buffer_size = 2, wb_num_retries = 0, wb_max_queue_size = 2\<rparr>"

lemma demo_webhook_run: "webhook_run demo_webhook new_webhook (webhook_call demo_webhook ''b'' (webhook_call demo_webhook ''a'' new_webhook))"
  by (rule run_stepI [OF webhook_step.Deliver], rule run_stepI [OF webhook_step.Deliver], rule webhook_run.Start)

lemma every_event_is_accounted_for_witness:
  "in_flight (wh_posts (webhook_call demo_webhook ''b'' (webhook_call demo_webhook ''a'' new_webhook))) = {#''a'', ''b''#}"
  using every_event_is_accounted_for [OF demo_webhook_run]
  by (simp add: webhook_call_def begin_post_def new_webhook_def cancel_flush_timer_def timer_done_def demo_webhook_def Let_def)

lemma webhook_queue_is_bounded_witness:
  "length (wh_queue (webhook_call demo_webhook ''b'' (webhook_call demo_webhook ''a'' new_webhook))) \<le> 2"
  using webhook_queue_is_bounded [OF demo_webhook_run] by (simp add: queue_bound_def demo_webhook_def)

end
