(* ===== verification/Regex.thy ===== *)
theory Regex
  imports Prelude
begin

text \<open>
  The patterns of Python's \<open>re\<close> that the security analyzers use, over code points: classes, sequences,
  alternatives, repetitions, word boundaries and the end of the text. \<open>ends\<close> computes where a match that starts
  at a place may end, \<open>accepts\<close> says it as a relation, and \<open>search\<close> tells whether there is a match
  somewhere. Only the existence of a match is modelled, which does not depend on greediness.
\<close>

section \<open>Code points\<close>

type_synonym codes = "nat list"

definition codes_of :: "string \<Rightarrow> codes" where
  "codes_of = map of_char"

definition between_codes :: "nat \<Rightarrow> nat \<Rightarrow> nat \<Rightarrow> bool" where
  "between_codes a b c \<longleftrightarrow> a \<le> c \<and> c \<le> b"

text \<open>\<open>\w\<close>: letters, digits and the underscore; above ASCII as the Unicode data \<open>wu\<close> says.\<close>

definition word_code :: "(nat \<Rightarrow> bool) \<Rightarrow> nat \<Rightarrow> bool" where
  "word_code wu c \<longleftrightarrow>
     (if c < 128 then between_codes 48 57 c \<or> between_codes 65 90 c \<or> between_codes 97 122 c \<or> c = 95 else wu c)"

text \<open>\<open>\s\<close>: the white space of Unicode.\<close>

definition space_code :: "nat \<Rightarrow> bool" where
  "space_code c \<longleftrightarrow> between_codes 9 13 c \<or> between_codes 28 32 c \<or> c \<in> {133, 160, 5760} \<or>
     between_codes 8192 8202 c \<or> c \<in> {8232, 8233, 8239, 8287, 12288}"

text \<open>
  A literal under \<open>IGNORECASE\<close>: both cases of an ASCII letter, and the letters outside ASCII that Python treats as
  equal to \<open>i\<close>, \<open>k\<close> and \<open>s\<close>.
\<close>

definition lower_code :: "nat \<Rightarrow> nat" where
  "lower_code c = (if between_codes 65 90 c then c + 32 else c)"

definition same_letter :: "nat \<Rightarrow> nat \<Rightarrow> bool" where
  "same_letter c x \<longleftrightarrow> lower_code c = lower_code x \<or>
     (lower_code c = 105 \<and> x \<in> {304, 305}) \<or> (lower_code c = 107 \<and> x = 8490) \<or> (lower_code c = 115 \<and> x = 383)"

section \<open>Patterns\<close>

datatype re =
    Empty
  | Class "nat \<Rightarrow> bool"
  | Boundary
  | Finish
  | Seq re re
  | Alt re re
  | Upto nat re
  | Star re

text \<open>A place in a text: the code point before it and the text from there.\<close>

type_synonym place = "nat option \<times> codes"

definition word_opt :: "(nat \<Rightarrow> bool) \<Rightarrow> nat option \<Rightarrow> bool" where
  "word_opt wu o' \<longleftrightarrow> (case o' of Some c \<Rightarrow> word_code wu c | None \<Rightarrow> False)"

definition first_code :: "codes \<Rightarrow> nat option" where
  "first_code s = (case s of [] \<Rightarrow> None | c # _ \<Rightarrow> Some c)"

definition at_boundary :: "(nat \<Rightarrow> bool) \<Rightarrow> place \<Rightarrow> bool" where
  "at_boundary wu x \<longleftrightarrow> word_opt wu (fst x) \<noteq> word_opt wu (first_code (snd x))"

text \<open>At most \<open>n\<close> repetitions of a step.\<close>

fun repeated :: "nat \<Rightarrow> ('a \<Rightarrow> 'a list) \<Rightarrow> 'a \<Rightarrow> 'a list" where
  "repeated 0 f x = [x]"
| "repeated (Suc n) f x = x # concat (map (repeated n f) (f x))"

fun ends :: "(nat \<Rightarrow> bool) \<Rightarrow> re \<Rightarrow> place \<Rightarrow> place list" where
  "ends wu Empty x = [x]"
| "ends wu (Class f) x = (case snd x of [] \<Rightarrow> [] | c # t \<Rightarrow> if f c then [(Some c, t)] else [])"
| "ends wu Boundary x = (if at_boundary wu x then [x] else [])"
| "ends wu Finish x = (if snd x = [] \<or> snd x = [10] then [x] else [])"
| "ends wu (Seq r q) x = concat (map (ends wu q) (ends wu r x))"
| "ends wu (Alt r q) x = ends wu r x @ ends wu q x"
| "ends wu (Upto n r) x = repeated n (ends wu r) x"
| "ends wu (Star r) x = repeated (length (snd x)) (ends wu r) x"

fun search_from :: "(nat \<Rightarrow> bool) \<Rightarrow> re \<Rightarrow> nat option \<Rightarrow> codes \<Rightarrow> bool" where
  "search_from wu r p [] \<longleftrightarrow> ends wu r (p, []) \<noteq> []"
| "search_from wu r p (c # s) \<longleftrightarrow> ends wu r (p, c # s) \<noteq> [] \<or> search_from wu r (Some c) s"

definition search :: "(nat \<Rightarrow> bool) \<Rightarrow> re \<Rightarrow> codes \<Rightarrow> bool" where
  "search wu r s = search_from wu r None s"

section \<open>What a pattern reads\<close>

fun accepts :: "(nat \<Rightarrow> bool) \<Rightarrow> re \<Rightarrow> place \<Rightarrow> place \<Rightarrow> bool" where
  "accepts wu Empty x y \<longleftrightarrow> y = x"
| "accepts wu (Class f) x y \<longleftrightarrow> (\<exists>c t. snd x = c # t \<and> f c \<and> y = (Some c, t))"
| "accepts wu Boundary x y \<longleftrightarrow> y = x \<and> at_boundary wu x"
| "accepts wu Finish x y \<longleftrightarrow> y = x \<and> (snd x = [] \<or> snd x = [10])"
| "accepts wu (Seq r q) x y \<longleftrightarrow> (\<exists>z. accepts wu r x z \<and> accepts wu q z y)"
| "accepts wu (Alt r q) x y \<longleftrightarrow> accepts wu r x y \<or> accepts wu q x y"
| "accepts wu (Upto n r) x y \<longleftrightarrow> (\<exists>k \<le> n. (accepts wu r ^^ k) x y)"
| "accepts wu (Star r) x y \<longleftrightarrow> (accepts wu r)\<^sup>*\<^sup>* x y"

definition smaller :: "place \<Rightarrow> place \<Rightarrow> bool" where
  "smaller x y \<longleftrightarrow> y = x \<or> length (snd y) < length (snd x)"

lemma smaller_trans: "smaller x y \<Longrightarrow> smaller y z \<Longrightarrow> smaller x z"
  by (auto simp: smaller_def)

lemma smaller_power: "(\<And>x y. R x y \<Longrightarrow> smaller x y) \<Longrightarrow> (R ^^ k) x y \<Longrightarrow> smaller x y"
proof (induction k arbitrary: y)
  case (Suc k)
  from Suc.prems(2) obtain z where z: "(R ^^ k) x z" "R z y" by auto
  from smaller_trans [OF Suc.IH [OF Suc.prems(1) z(1)] Suc.prems(1) [OF z(2)]] show ?case by blast
qed (simp add: smaller_def)

lemma reads_shrinks: "accepts wu r x y \<Longrightarrow> smaller x y"
proof (induction r arbitrary: x y)
  case (Seq r q)
  from Seq.prems obtain z where "accepts wu r x z" "accepts wu q z y" by auto
  with Seq.IH show ?case using smaller_trans by blast
next
  case (Alt r q)
  from Alt.prems have "accepts wu r x y \<or> accepts wu q x y" by simp
  with Alt.IH show ?case by blast
next
  case (Upto n r)
  from Upto.prems obtain k where "(accepts wu r ^^ k) x y" by auto
  with Upto.IH show ?case by (rule smaller_power)
next
  case (Star r)
  from Star.prems obtain k where "(accepts wu r ^^ k) x y" by (auto dest: rtranclp_imp_relpowp)
  with Star.IH show ?case by (rule smaller_power)
qed (auto simp: smaller_def)

lemma repeated_iff:
  "y \<in> set (repeated n f x) \<longleftrightarrow> (\<exists>k \<le> n. ((\<lambda>x y. y \<in> set (f x)) ^^ k) x y)"
proof (induction n arbitrary: x)
  case (Suc n)
  show ?case
  proof
    assume "y \<in> set (repeated (Suc n) f x)"
    then consider "y = x" | z where "z \<in> set (f x)" "y \<in> set (repeated n f z)" by auto
    then show "\<exists>k \<le> Suc n. ((\<lambda>x y. y \<in> set (f x)) ^^ k) x y"
    proof cases
      case 1
      then show ?thesis by (intro exI [of _ 0]) simp
    next
      case 2
      then obtain k where "k \<le> n" "((\<lambda>x y. y \<in> set (f x)) ^^ k) z y" using Suc.IH by blast
      with 2(1) show ?thesis by (intro exI [of _ "Suc k"]) (auto simp del: relpowp.simps intro: relpowp_Suc_I2)
    qed
  next
    assume "\<exists>k \<le> Suc n. ((\<lambda>x y. y \<in> set (f x)) ^^ k) x y"
    then obtain k where k: "k \<le> Suc n" "((\<lambda>x y. y \<in> set (f x)) ^^ k) x y" by blast
    show "y \<in> set (repeated (Suc n) f x)"
    proof (cases k)
      case 0
      then show ?thesis using k by simp
    next
      case (Suc j)
      then obtain z where "z \<in> set (f x)" "((\<lambda>x y. y \<in> set (f x)) ^^ j) z y"
        using relpowp_Suc_D2 [of j "\<lambda>x y. y \<in> set (f x)" x y] k(2) by blast
      with k(1) Suc Suc.IH show ?thesis by auto
    qed
  qed
qed auto

text \<open>As many repetitions as the text is long are enough: each one that does not stay consumes a code point.\<close>

lemma star_bounded:
  assumes "\<And>x y. R x y \<Longrightarrow> smaller x y" and "R\<^sup>*\<^sup>* x y"
  shows "\<exists>k \<le> length (snd x). (R ^^ k) x y"
proof -
  have "R\<^sup>*\<^sup>* x y \<Longrightarrow> \<exists>k. k + length (snd y) \<le> length (snd x) \<and> (R ^^ k) x y" for x y
  proof (induction rule: rtranclp_induct)
    case base
    show ?case by (intro exI [of _ 0]) simp
  next
    case (step y z)
    then obtain k where k: "k + length (snd y) \<le> length (snd x)" "(R ^^ k) x y" by blast
    show ?case
    proof (cases "z = y")
      case True
      then show ?thesis using k by blast
    next
      case False
      then have "length (snd z) < length (snd y)" using assms(1) [OF step(2)] by (simp add: smaller_def)
      moreover have "(R ^^ Suc k) x z" using k(2) step(2) by auto
      ultimately show ?thesis using k(1) by (intro exI [of _ "Suc k"]) (simp del: relpowp.simps)
    qed
  qed
  then obtain k where "k + length (snd y) \<le> length (snd x)" "(R ^^ k) x y" using assms(2) by blast
  then show ?thesis by (intro exI [of _ k]) simp
qed

theorem ends_are_reads: "y \<in> set (ends wu r x) \<longleftrightarrow> accepts wu r x y"
proof (induction r arbitrary: x y)
  case (Class f)
  then show ?case by (auto split: list.splits)
next
  case (Seq r q)
  have "y \<in> set (ends wu (Seq r q) x) \<longleftrightarrow> (\<exists>z \<in> set (ends wu r x). y \<in> set (ends wu q z))" by simp
  then show ?case unfolding accepts.simps using Seq.IH by blast
next
  case (Upto n r)
  then have "(\<lambda>x y. y \<in> set (ends wu r x)) = accepts wu r" by auto
  then show ?case by (simp add: repeated_iff)
next
  case (Star r)
  then have e: "(\<lambda>x y. y \<in> set (ends wu r x)) = accepts wu r" by auto
  show ?case
    using star_bounded [of "accepts wu r" x y] reads_shrinks
    by (auto simp: repeated_iff e intro: relpowp_imp_rtranclp)
qed auto

lemma ends_nonempty: "ends wu r x \<noteq> [] \<longleftrightarrow> (\<exists>y. accepts wu r x y)"
  by (metis ends_are_reads last_in_set list.set(1) empty_iff)

text \<open>The places of a text.\<close>

definition place_after :: "nat option \<Rightarrow> codes \<Rightarrow> codes \<Rightarrow> place" where
  "place_after p u v = (if u = [] then p else Some (last u), v)"

lemma search_from_iff: "search_from wu r p s \<longleftrightarrow> (\<exists>u v y. s = u @ v \<and> accepts wu r (place_after p u v) y)"
proof (induction s arbitrary: p)
  case Nil
  then show ?case by (simp add: ends_nonempty place_after_def)
next
  case (Cons c s)
  have "(\<exists>u v y. c # s = u @ v \<and> accepts wu r (place_after p u v) y) \<longleftrightarrow>
      (\<exists>y. accepts wu r (place_after p [] (c # s)) y) \<or> (\<exists>u v y. s = u @ v \<and> accepts wu r (place_after p (c # u) v) y)"
    unfolding Cons_eq_append_conv by blast
  moreover have "place_after p [] (c # s) = (p, c # s)" by (simp add: place_after_def)
  moreover have "place_after p (c # u) v = place_after (Some c) u v" for u v by (simp add: place_after_def)
  ultimately show ?case using Cons.IH by (simp add: ends_nonempty)
qed

lemma search_iff: "search wu r s \<longleftrightarrow> (\<exists>u v y. s = u @ v \<and> accepts wu r (place_after None u v) y)"
  unfolding search_def by (rule search_from_iff)

lemma searchI: "accepts wu r (place_after None u v) y \<Longrightarrow> search wu r (u @ v)"
  unfolding search_iff by blast

end
