(* ===== verification/Scan_Texts.thy ===== *)
theory Scan_Texts
  imports Regex Events
begin

text \<open>
  \<open>sdk/security/defense_in_depth/utils.py\<close>: which texts of an action the security analyzers read, how much of
  them, and the normalization before a pattern is tried. Texts are code points. \<open>json.loads\<close> is a parameter, \<open>None\<close>
  when it or the walk of its result raises, and so are the Unicode data: the letters above ASCII and NFKC.
\<close>

section \<open>The action as the analyzers see it\<close>

record action_texts =
  at_arguments :: codes
  at_call_name :: codes
  at_tool_name :: codes
  at_summary :: "codes option"
  at_reasoning :: "codes option"
  at_thought :: "codes list"

definition texts_of_action :: "action_event \<Rightarrow> action_texts" where
  "texts_of_action e =
     \<lparr>at_arguments = codes_of (tc_arguments (ae_tool_call e)), at_call_name = codes_of (tc_name (ae_tool_call e)),
      at_tool_name = codes_of (ae_tool_name e), at_summary = map_option codes_of (ae_summary e),
      at_reasoning = map_option codes_of (ae_reasoning_content e),
      at_thought = map codes_of (texts_of (ae_thought e))\<rparr>"

datatype code_tree = Leaf codes | Scalar | Items "code_tree list" | Fields "(codes \<times> code_tree) list"

record scan_env =
  sn_loads :: "codes \<Rightarrow> code_tree option"
  sn_word :: "nat \<Rightarrow> bool"
  sn_nfkc :: "codes \<Rightarrow> codes"

section \<open>Extraction\<close>

definition EXTRACT_HARD_CAP :: nat where "EXTRACT_HARD_CAP = 30000"

record segment_buffer =
  sg_cap :: nat
  sg_segments :: "codes list"
  sg_total :: nat

definition new_buffer :: "nat \<Rightarrow> segment_buffer" where
  "new_buffer cap = \<lparr>sg_cap = cap, sg_segments = [], sg_total = 0\<rparr>"

definition add_segment :: "codes \<Rightarrow> segment_buffer \<Rightarrow> segment_buffer" where
  "add_segment s b =
     (let separator_len = (if sg_segments b = [] then 0 else 1);
          used = sg_total b + separator_len
      in if sg_cap b \<le> used then b
         else let t = take (sg_cap b - used) s
              in b\<lparr>sg_segments := sg_segments b @ [t], sg_total := sg_total b + length t + separator_len\<rparr>)"

fun walk_json_strings :: "code_tree \<Rightarrow> codes list" where
  "walk_json_strings (Leaf s) = [s]"
| "walk_json_strings (Fields d) = concat (map (\<lambda>e. walk_json_strings (snd e)) d)"
| "walk_json_strings (Items xs) = concat (map walk_json_strings xs)"
| "walk_json_strings Scalar = []"

definition argument_segments :: "scan_env \<Rightarrow> codes \<Rightarrow> codes list" where
  "argument_segments env arguments =
     (if arguments = [] then []
      else (case sn_loads env arguments of Some v \<Rightarrow> walk_json_strings v | None \<Rightarrow> [arguments]))"

definition given :: "codes \<Rightarrow> codes list" where
  "given s = (if s = [] then [] else [s])"

definition optional :: "codes option \<Rightarrow> codes list" where
  "optional s = (case s of None \<Rightarrow> [] | Some t \<Rightarrow> given t)"

definition buffered :: "codes list \<Rightarrow> codes list" where
  "buffered ss = sg_segments (fold add_segment ss (new_buffer EXTRACT_HARD_CAP))"

definition extract_exec_segments :: "scan_env \<Rightarrow> action_texts \<Rightarrow> codes list" where
  "extract_exec_segments env a =
     buffered (argument_segments env (at_arguments a) @ given (at_tool_name a) @ given (at_call_name a))"

definition extract_text_segments :: "action_texts \<Rightarrow> codes list" where
  "extract_text_segments a =
     buffered (optional (at_summary a) @ optional (at_reasoning a) @ concat (map given (at_thought a)))"

definition extract_segments :: "scan_env \<Rightarrow> action_texts \<Rightarrow> codes list" where
  "extract_segments env a = extract_exec_segments env a @ extract_text_segments a"

fun join_codes :: "codes list \<Rightarrow> codes" where
  "join_codes [] = []"
| "join_codes [s] = s"
| "join_codes (s # t # ss) = s @ 32 # join_codes (t # ss)"

definition extract_content :: "scan_env \<Rightarrow> action_texts \<Rightarrow> codes" where
  "extract_content env a = join_codes (extract_segments env a)"

definition extract_exec_content :: "scan_env \<Rightarrow> action_texts \<Rightarrow> codes" where
  "extract_exec_content env a = join_codes (extract_exec_segments env a)"

section \<open>Normalization\<close>

definition ZERO_WIDTH :: "nat list" where
  "ZERO_WIDTH = [0x200B, 0x200C, 0x200D, 0x200E, 0x200F, 0x2060, 0xFEFF, 0x180E]"

definition FORMAT_CHARS :: "nat list" where
  "FORMAT_CHARS =
     [0x00AD, 0x034F, 0x2009, 0x200A, 0xFFF9, 0xFFFA, 0xFFFB, 0xFFFC, 0x2061, 0x2062, 0x2063, 0x2064, 0x206A,
      0x206B, 0x206C, 0x206D, 0x206E, 0x206F, 0x2800, 0x1680, 0x115F, 0x1160, 0x3164, 0xFFA0, 0x061C]"

definition BIDI_CHARS :: "nat list" where
  "BIDI_CHARS = [0x202A, 0x202B, 0x202C, 0x202D, 0x202E, 0x2066, 0x2067, 0x2068, 0x2069]"

definition MONGOLIAN_FVS :: "nat list" where
  "MONGOLIAN_FVS = [0x180B, 0x180C, 0x180D, 0x180F]"

definition INVISIBLE_RANGES :: "(nat \<times> nat) list" where
  "INVISIBLE_RANGES =
     [(0xFE00, 0xFE0F), (0xE0000, 0xE007F), (0xE0100, 0xE01EF), (0x01, 0x08), (0x0B, 0x0C), (0x0E, 0x1F), (0x80, 0x9F),
      (0x7F, 0x7F)]"

definition invisible :: "nat \<Rightarrow> bool" where
  "invisible c \<longleftrightarrow> c \<in> set (ZERO_WIDTH @ FORMAT_CHARS @ BIDI_CHARS @ MONGOLIAN_FVS) \<or>
     list_ex (\<lambda>(a, b). between_codes a b c) INVISIBLE_RANGES"

definition visible :: "codes \<Rightarrow> codes" where
  "visible s = filter (\<lambda>c. \<not> invisible c) (filter (\<lambda>c. c \<noteq> 0) s)"

function collapse_spaces :: "codes \<Rightarrow> codes" where
  "collapse_spaces [] = []"
| "collapse_spaces (c # s) =
     (if space_code c then 32 # collapse_spaces (dropWhile space_code s) else c # collapse_spaces s)"
  by pat_completeness auto
termination by (relation "measure length") (auto simp: le_imp_less_Suc length_dropWhile_le)

definition normalize :: "scan_env \<Rightarrow> codes \<Rightarrow> codes" where
  "normalize env s = collapse_spaces (sn_nfkc env (visible s))"

section \<open>The budget\<close>

lemma length_join_snoc:
  "ss \<noteq> [] \<Longrightarrow> length (join_codes (ss @ [t])) = length (join_codes ss) + 1 + length t"
  by (induction ss rule: join_codes.induct) auto

definition buffer_ok :: "segment_buffer \<Rightarrow> bool" where
  "buffer_ok b \<longleftrightarrow> sg_total b = length (join_codes (sg_segments b)) \<and> sg_total b \<le> sg_cap b"

lemma add_segment_ok: "buffer_ok b \<Longrightarrow> buffer_ok (add_segment s b) \<and> sg_cap (add_segment s b) = sg_cap b"
  by (cases "sg_segments b = []") (auto simp: add_segment_def buffer_ok_def Let_def length_join_snoc min_def)

lemma fold_add_ok: "buffer_ok b \<Longrightarrow> buffer_ok (fold add_segment ss b) \<and> sg_cap (fold add_segment ss b) = sg_cap b"
  by (induction ss arbitrary: b) (auto simp: add_segment_ok)

lemma buffered_bounded: "length (join_codes (buffered ss)) \<le> EXTRACT_HARD_CAP"
  using fold_add_ok [of "new_buffer EXTRACT_HARD_CAP" ss]
  by (auto simp: buffered_def buffer_ok_def new_buffer_def)

lemma length_join_append:
  "length (join_codes (xs @ ys)) \<le> length (join_codes xs) + 1 + length (join_codes ys)"
proof (induction xs rule: join_codes.induct)
  case (2 s)
  then show ?case by (cases ys) auto
qed auto

text \<open>Segments that fit are kept as they are.\<close>

lemma fold_add_fits:
  assumes "buffer_ok b" and "length (join_codes (sg_segments b @ ss)) < sg_cap b"
  shows "sg_segments (fold add_segment ss b) = sg_segments b @ ss"
  using assms
proof (induction ss arbitrary: b)
  case (Cons s ss)
  have pre: "length (join_codes (xs @ ys)) \<ge> length (join_codes xs)" for xs ys
    by (induction xs rule: join_codes.induct) (cases ys; auto)+
  have l: "length (join_codes (sg_segments b @ [s])) < sg_cap b"
    using pre [of "sg_segments b @ [s]" ss] Cons.prems(2) by simp
  have "sg_segments (add_segment s b) = sg_segments b @ [s]"
    using Cons.prems(1) l by (cases "sg_segments b = []") (auto simp: add_segment_def buffer_ok_def Let_def length_join_snoc)
  moreover have "buffer_ok (add_segment s b)" "sg_cap (add_segment s b) = sg_cap b" using add_segment_ok Cons.prems(1) by auto
  ultimately show ?case using Cons.IH [of "add_segment s b"] Cons.prems(2) by simp
qed simp

lemma buffered_fits: "length (join_codes ss) < EXTRACT_HARD_CAP \<Longrightarrow> buffered ss = ss"
  using fold_add_fits [of "new_buffer EXTRACT_HARD_CAP" ss] by (simp add: buffered_def new_buffer_def buffer_ok_def)

lemma segments_stay: "x \<in> set (sg_segments b) \<Longrightarrow> x \<in> set (sg_segments (fold add_segment ss b))"
  by (induction ss arbitrary: b) (auto simp: add_segment_def Let_def)

lemma first_segment_kept:
  "sg_segments b = [] \<Longrightarrow> sg_total b = 0 \<Longrightarrow> 0 < sg_cap b \<Longrightarrow>
     take (sg_cap b) s \<in> set (sg_segments (fold add_segment (s # ss) b))"
  by (simp add: segments_stay add_segment_def Let_def)

section \<open>Normalized texts\<close>

lemma collapse_append:
  "t = [] \<or> \<not> space_code (hd t) \<Longrightarrow> collapse_spaces (s @ t) = collapse_spaces s @ collapse_spaces t"
proof (induction s rule: collapse_spaces.induct)
  case (2 c s)
  have "dropWhile space_code (s @ t) = dropWhile space_code s @ t"
  proof (cases "\<forall>x \<in> set s. space_code x")
    case True
    then show ?thesis using 2(3) by (cases t) (auto simp: dropWhile_append2)
  next
    case False
    then show ?thesis by (auto simp: dropWhile_append1)
  qed
  then show ?case using 2 by auto
qed simp

lemma collapse_plain: "\<forall>c \<in> set s. \<not> space_code c \<Longrightarrow> collapse_spaces s = s"
  by (induction s) auto

lemma collapse_space:
  assumes "s \<noteq> []" and "\<forall>c \<in> set s. space_code c" and "t = [] \<or> \<not> space_code (hd t)"
  shows "collapse_spaces (s @ t) = 32 # collapse_spaces t"
proof -
  obtain c s' where s: "s = c # s'" using assms(1) by (cases s) auto
  have "dropWhile space_code (s' @ t) = t"
    using assms(2,3) s by (simp add: dropWhile_append2) (metis dropWhile_eq_self_iff)
  then show ?thesis using assms(2) s by simp
qed

lemma visible_append: "visible (s @ t) = visible s @ visible t"
  by (simp add: visible_def)

lemma normalize_visible: "visible s = visible t \<Longrightarrow> normalize env s = normalize env t"
  by (simp add: normalize_def)

end
