(* ===== verification/Hooks.thy ===== *)
theory Hooks
  imports Tool_Calls
begin

text \<open>
  The hooks of a conversation (\<open>sdk/hooks/\<close>): their configuration with its accepted spellings and
  the matching of tool names (\<open>config.py\<close>), the executor that runs them as shell commands and reads
  their decision, with the manager of background processes (\<open>executor.py\<close>), and the hook manager
  (\<open>manager.py\<close>). What a command does, \<open>re.fullmatch\<close>, \<open>json.loads\<close>, the clock and the processes of
  the system are parameters. The lemmas show which hooks run and what their answers decide.
\<close>

section \<open>Configuration\<close>

datatype hook_type = CommandHook | PromptHook

record hook_definition =
  hd_type :: hook_type
  hd_command :: string
  hd_prompt :: "string option"
  hd_timeout :: int
  hd_async :: bool

record hook_matcher =
  hm_matcher :: string
  hm_hooks :: "hook_definition list"

record hook_config =
  hc_pre_tool_use :: "hook_matcher list"
  hc_post_tool_use :: "hook_matcher list"
  hc_user_prompt_submit :: "hook_matcher list"
  hc_session_start :: "hook_matcher list"
  hc_session_end :: "hook_matcher list"
  hc_stop :: "hook_matcher list"

datatype hook_event_type = PreToolUse | PostToolUse | UserPromptSubmit | SessionStart | SessionEnd | Stop

fun hook_event_value :: "hook_event_type \<Rightarrow> string" where
  "hook_event_value PreToolUse = ''PreToolUse''"
| "hook_event_value PostToolUse = ''PostToolUse''"
| "hook_event_value UserPromptSubmit = ''UserPromptSubmit''"
| "hook_event_value SessionStart = ''SessionStart''"
| "hook_event_value SessionEnd = ''SessionEnd''"
| "hook_event_value Stop = ''Stop''"

definition HOOK_EVENT_FIELDS :: "string list" where
  "HOOK_EVENT_FIELDS =
     [''pre_tool_use'', ''post_tool_use'', ''user_prompt_submit'', ''session_start'', ''session_end'', ''stop'']"

text \<open>\<open>_pascal_to_snake\<close>: an underscore before each ASCII capital but one at the start, then lower case.\<close>

definition ascii_upper :: "char \<Rightarrow> bool" where
  "ascii_upper c \<longleftrightarrow> (let n = of_char c :: nat in 65 \<le> n \<and> n \<le> 90)"

definition underscored :: "string \<Rightarrow> string" where
  "underscored s = concat (map (\<lambda>c. if ascii_upper c then [CHR ''_'', c] else [c]) s)"

definition pascal_to_snake :: "string \<Rightarrow> string" where
  "pascal_to_snake name = py_lower (take 1 name @ underscored (drop 1 name))"

datatype hook_error = HookValueError string | HookAttributeError | HookValidationError

text \<open>The two validators of a hook definition, before and after its fields are read.\<close>

definition set_command_for_prompt_hooks :: "json \<Rightarrow> json" where
  "set_command_for_prompt_hooks raw =
     (case raw of
        JObj d \<Rightarrow>
          if map_of d ''type'' = Some (JStr ''prompt'') \<and> map_of d ''command'' = None
          then JObj (set_key ''command'' (JStr []) d) else raw
      | _ \<Rightarrow> raw)"

definition check_required_fields :: "hook_definition \<Rightarrow> (hook_error, hook_definition) result" where
  "check_required_fields h =
     (if hd_type h = CommandHook \<and> hd_command h = [] then
        Inl (HookValueError (quoted ''command'' @ '' is required when type is '' @ quoted ''command''))
      else if hd_type h = PromptHook \<and> (hd_prompt h = None \<or> hd_prompt h = Some []) then
        Inl (HookValueError (quoted ''prompt'' @ '' is required when type is '' @ quoted ''prompt''))
      else Inr h)"

text \<open>
  \<open>_normalize_hooks_input\<close>: the wrapper is taken off and the keys are spelled in snake case; a
  \<open>hooks\<close> entry that is no dictionary has no \<open>items\<close>.
\<close>

definition valid_types :: string where
  "valid_types = py_join '', ''
     [''post_tool_use'', ''pre_tool_use'', ''session_end'', ''session_start'', ''stop'', ''user_prompt_submit'']"

definition unknown_event_type :: "string \<Rightarrow> hook_error" where
  "unknown_event_type key =
     HookValueError (''Unknown event type '' @ quoted key @ ''. Valid types: '' @ valid_types)"

definition duplicate_hook_event :: "string \<Rightarrow> string \<Rightarrow> hook_error" where
  "duplicate_hook_event key snake_key =
     HookValueError (''Duplicate hook event: both '' @ quoted key @ '' and its snake_case equivalent '' @
       quoted snake_key @ '' were provided'')"

fun normalize_keys :: "dict \<Rightarrow> dict \<Rightarrow> (hook_error, dict) result" where
  "normalize_keys [] normalized = Inr normalized"
| "normalize_keys ((key, v) # rest) normalized =
     (let snake_key = pascal_to_snake key
      in if snake_key \<noteq> key \<and> snake_key \<notin> set HOOK_EVENT_FIELDS then Inl (unknown_event_type key)
         else if map_of normalized snake_key \<noteq> None then Inl (duplicate_hook_event key snake_key)
         else normalize_keys rest (normalized @ [(snake_key, v)]))"

definition normalize_hooks_input :: "json \<Rightarrow> (hook_error, json) result" where
  "normalize_hooks_input raw =
     (case raw of
        JObj d \<Rightarrow>
          (case map_of d ''hooks'' of
             Some (JObj d') \<Rightarrow> bind_res (normalize_keys d' []) (\<lambda>n. Inr (JObj n))
           | Some _ \<Rightarrow> Inl HookAttributeError
           | None \<Rightarrow> bind_res (normalize_keys d []) (\<lambda>n. Inr (JObj n)))
      | _ \<Rightarrow> Inr raw)"

text \<open>
  The model's validation after it: no key but the fields, and the value of each is read by
  \<open>read_matchers\<close>; a field that is left out is the empty list.
\<close>

definition read_field ::
    "(json \<Rightarrow> hook_matcher list option) \<Rightarrow> dict \<Rightarrow> string \<Rightarrow> (hook_error, hook_matcher list) result" where
  "read_field read_matchers d field =
     (case map_of d field of
        None \<Rightarrow> Inr []
      | Some v \<Rightarrow> (case read_matchers v of None \<Rightarrow> Inl HookValidationError | Some ms \<Rightarrow> Inr ms))"

definition read_config ::
    "(json \<Rightarrow> hook_matcher list option) \<Rightarrow> json \<Rightarrow> (hook_error, hook_config) result" where
  "read_config read_matchers raw =
     (case raw of
        JObj d \<Rightarrow>
          if \<not> set (map fst d) \<subseteq> set HOOK_EVENT_FIELDS then Inl HookValidationError
          else
            bind_res (read_field read_matchers d ''pre_tool_use'') (\<lambda>pre.
            bind_res (read_field read_matchers d ''post_tool_use'') (\<lambda>post.
            bind_res (read_field read_matchers d ''user_prompt_submit'') (\<lambda>user.
            bind_res (read_field read_matchers d ''session_start'') (\<lambda>start.
            bind_res (read_field read_matchers d ''session_end'') (\<lambda>ends.
            bind_res (read_field read_matchers d ''stop'') (\<lambda>stop.
              Inr \<lparr>hc_pre_tool_use = pre, hc_post_tool_use = post, hc_user_prompt_submit = user,
                   hc_session_start = start, hc_session_end = ends, hc_stop = stop\<rparr>))))))
      | _ \<Rightarrow> Inl HookValidationError)"

definition config_from_dict ::
    "(json \<Rightarrow> hook_matcher list option) \<Rightarrow> json \<Rightarrow> (hook_error, hook_config) result" where
  "config_from_dict read_matchers raw = bind_res (normalize_hooks_input raw) (read_config read_matchers)"

definition empty_config :: hook_config where
  "empty_config =
     \<lparr>hc_pre_tool_use = [], hc_post_tool_use = [], hc_user_prompt_submit = [],
      hc_session_start = [], hc_session_end = [], hc_stop = []\<rparr>"

text \<open>
  \<open>load\<close>: an explicit path, or the first of the two search paths that exists; no file gives the
  empty configuration. \<open>files\<close> holds the JSON of each file.
\<close>

definition load_config ::
    "(json \<Rightarrow> hook_matcher list option) \<Rightarrow> (string \<Rightarrow> json option) \<Rightarrow> string option \<Rightarrow> string list
       \<Rightarrow> (hook_error, hook_config) result" where
  "load_config read_matchers files path search_paths =
     (let path' = (case path of Some p \<Rightarrow> Some p | None \<Rightarrow> find (\<lambda>p. files p \<noteq> None) search_paths)
      in case path' of
           None \<Rightarrow> Inr empty_config
         | Some p \<Rightarrow>
             (case files p of
                None \<Rightarrow> Inr empty_config
              | Some raw \<Rightarrow> config_from_dict read_matchers raw))"

fun config_fields :: "hook_config \<Rightarrow> (string \<times> hook_matcher list) list" where
  "config_fields c =
     [(''pre_tool_use'', hc_pre_tool_use c), (''post_tool_use'', hc_post_tool_use c),
      (''user_prompt_submit'', hc_user_prompt_submit c), (''session_start'', hc_session_start c),
      (''session_end'', hc_session_end c), (''stop'', hc_stop c)]"

text \<open>\<open>getattr(self, name, [])\<close> for a name of a field.\<close>

definition get_matchers_for_event :: "hook_config \<Rightarrow> hook_event_type \<Rightarrow> hook_matcher list" where
  "get_matchers_for_event c et =
     (case map_of (config_fields c) (pascal_to_snake (hook_event_value et)) of Some ms \<Rightarrow> ms | None \<Rightarrow> [])"

definition has_hooks_for_event :: "hook_config \<Rightarrow> hook_event_type \<Rightarrow> bool" where
  "has_hooks_for_event c et \<longleftrightarrow> length (get_matchers_for_event c et) > 0"

definition config_is_empty :: "hook_config \<Rightarrow> bool" where
  "config_is_empty c \<longleftrightarrow>
     \<not> (hc_pre_tool_use c \<noteq> [] \<or> hc_post_tool_use c \<noteq> [] \<or> hc_user_prompt_submit c \<noteq> [] \<or>
        hc_session_start c \<noteq> [] \<or> hc_session_end c \<noteq> [] \<or> hc_stop c \<noteq> [])"

definition merge_configs :: "hook_config list \<Rightarrow> hook_config option" where
  "merge_configs configs =
     (if configs = [] then None
      else
        let merged =
              \<lparr>hc_pre_tool_use = concat (map hc_pre_tool_use configs),
               hc_post_tool_use = concat (map hc_post_tool_use configs),
               hc_user_prompt_submit = concat (map hc_user_prompt_submit configs),
               hc_session_start = concat (map hc_session_start configs),
               hc_session_end = concat (map hc_session_end configs),
               hc_stop = concat (map hc_stop configs)\<rparr>
        in if config_is_empty merged then None else Some merged)"

text \<open>
  \<open>HookMatcher.matches\<close>: \<open>fullmatch p s\<close> is \<open>re.fullmatch\<close>, \<open>None\<close> an invalid pattern, which never
  matches when it is written between slashes and is compared as a plain text otherwise.
\<close>

definition REGEX_METACHARACTERS :: string where
  "REGEX_METACHARACTERS = ''|.*+?[]()^$'' @ [CHR 0x5C]"

definition matcher_matches ::
    "(string \<Rightarrow> string \<Rightarrow> bool option) \<Rightarrow> hook_matcher \<Rightarrow> string option \<Rightarrow> bool" where
  "matcher_matches fullmatch m tool_name =
     (let p = hm_matcher m
      in if p = ''*'' \<or> p = [] then True
         else case tool_name of
           None \<Rightarrow> False
         | Some name \<Rightarrow>
             if hd p = CHR ''/'' \<and> last p = CHR ''/'' \<and> length p > 2
             then fullmatch (butlast (tl p)) name = Some True
             else if list_ex (\<lambda>c. c \<in> set p) REGEX_METACHARACTERS then
               (case fullmatch p name of Some b \<Rightarrow> b | None \<Rightarrow> p = name)
             else p = name)"

definition get_hooks_for_event ::
    "(string \<Rightarrow> string \<Rightarrow> bool option) \<Rightarrow> hook_config \<Rightarrow> hook_event_type \<Rightarrow> string option \<Rightarrow> hook_definition list" where
  "get_hooks_for_event fullmatch c et tool_name =
     concat (map hm_hooks (filter (\<lambda>m. matcher_matches fullmatch m tool_name) (get_matchers_for_event c et)))"

section \<open>Executing hooks\<close>

datatype hook_decision = Allow | Deny

record hook_result =
  hr_success :: bool
  hr_blocked :: bool
  hr_exit_code :: int
  hr_stdout :: string
  hr_stderr :: string
  hr_decision :: "hook_decision option"
  hr_reason :: "string option"
  hr_additional_context :: "string option"
  hr_error :: "string option"
  hr_async_started :: bool

definition should_continue :: "hook_result \<Rightarrow> bool" where
  "should_continue r = (if hr_blocked r then False else if hr_decision r = Some Deny then False else True)"

definition new_result :: "bool \<Rightarrow> int \<Rightarrow> hook_result" where
  "new_result success exit_code =
     \<lparr>hr_success = success, hr_blocked = False, hr_exit_code = exit_code, hr_stdout = [], hr_stderr = [],
      hr_decision = None, hr_reason = None, hr_additional_context = None, hr_error = None,
      hr_async_started = False\<rparr>"

record hook_event =
  hk_event_type :: string
  hk_tool_name :: "string option"
  hk_tool_input :: "dict option"
  hk_tool_response :: "dict option"
  hk_message :: "string option"
  hk_session_id :: "string option"
  hk_working_dir :: "string option"
  hk_metadata :: dict

datatype run_outcome = Completed int string string | TimedOut | CommandNotFound string | RunFailed string

text \<open>
  \<open>hx_run\<close> is \<open>subprocess.run\<close>, \<open>hx_popen\<close> the start of a background process with its event written
  to it, \<open>hx_running\<close> is \<open>poll() is None\<close>; \<open>hx_pgid\<close>, \<open>hx_killpg\<close> (the flag is \<open>SIGKILL\<close>; whether it
  was delivered) and \<open>hx_wait\<close> (the flag is the bound of one second; whether the process ended) are the calls
  of \<open>_terminate_process\<close>. \<open>'x\<close> is the state of the system.
\<close>

record 'x hook_env =
  hx_fullmatch :: "string \<Rightarrow> string \<Rightarrow> bool option"
  hx_loads :: "string \<Rightarrow> json option"
  hx_str :: "json \<Rightarrow> string"
  hx_cwd :: string
  hx_sanitized_env :: "(string \<times> string) list"
  hx_run :: "hook_definition \<Rightarrow> (string \<times> string) list \<Rightarrow> hook_event \<Rightarrow> 'x \<Rightarrow> 'x \<times> run_outcome"
  hx_popen :: "hook_definition \<Rightarrow> (string \<times> string) list \<Rightarrow> hook_event \<Rightarrow> 'x \<Rightarrow> 'x \<times> (string, nat) result"
  hx_time :: "'x \<Rightarrow> int"
  hx_running :: "'x \<Rightarrow> nat \<Rightarrow> bool"
  hx_pgid :: "'x \<Rightarrow> nat \<Rightarrow> nat option"
  hx_killpg :: "nat \<Rightarrow> bool \<Rightarrow> 'x \<Rightarrow> 'x \<times> bool"
  hx_wait :: "nat \<Rightarrow> bool \<Rightarrow> 'x \<Rightarrow> 'x \<times> bool"

record 'x exec_state =
  xs_ext :: 'x
  xs_procs :: "(nat \<times> int \<times> int) list"

text \<open>\<open>AsyncProcessManager\<close>, on a system with process groups.\<close>

definition add_process :: "'x hook_env \<Rightarrow> nat \<Rightarrow> int \<Rightarrow> 'x exec_state \<Rightarrow> 'x exec_state" where
  "add_process env p timeout s = s\<lparr>xs_procs := xs_procs s @ [(p, hx_time env (xs_ext s), timeout)]\<rparr>"

definition terminate_process :: "'x hook_env \<Rightarrow> nat \<Rightarrow> 'x \<Rightarrow> 'x" where
  "terminate_process env p x =
     (case hx_pgid env x p of
        None \<Rightarrow> x
      | Some g \<Rightarrow>
          (case hx_killpg env g False x of
             (x1, False) \<Rightarrow> x1
           | (x1, True) \<Rightarrow>
               (case hx_wait env p True x1 of
                  (x2, True) \<Rightarrow> x2
                | (x2, False) \<Rightarrow>
                    (case hx_killpg env g True x2 of
                       (x3, False) \<Rightarrow> x3
                     | (x3, True) \<Rightarrow> fst (hx_wait env p False x3)))))"

fun sweep :: "'x hook_env \<Rightarrow> int \<Rightarrow> (nat \<times> int \<times> int) list \<Rightarrow> 'x \<Rightarrow> 'x \<times> (nat \<times> int \<times> int) list" where
  "sweep env now [] x = (x, [])"
| "sweep env now ((p, start, timeout) # ps) x =
     (if hx_running env x p then
        if now - start > timeout then sweep env now ps (terminate_process env p x)
        else (let (x', active) = sweep env now ps x in (x', (p, start, timeout) # active))
      else sweep env now ps x)"

definition cleanup_expired :: "'x hook_env \<Rightarrow> 'x exec_state \<Rightarrow> 'x exec_state" where
  "cleanup_expired env s =
     (let (x, active) = sweep env (hx_time env (xs_ext s)) (xs_procs s) (xs_ext s)
      in \<lparr>xs_ext = x, xs_procs = active\<rparr>)"

fun stop_all :: "'x hook_env \<Rightarrow> (nat \<times> int \<times> int) list \<Rightarrow> 'x \<Rightarrow> 'x" where
  "stop_all env [] x = x"
| "stop_all env ((p, _, _) # ps) x = stop_all env ps (if hx_running env x p then terminate_process env p x else x)"

definition cleanup_all :: "'x hook_env \<Rightarrow> 'x exec_state \<Rightarrow> 'x exec_state" where
  "cleanup_all env s = \<lparr>xs_ext = stop_all env (xs_procs s) (xs_ext s), xs_procs = []\<rparr>"

text \<open>The environment of a command.\<close>

definition hook_environment ::
    "'x hook_env \<Rightarrow> string \<Rightarrow> hook_event \<Rightarrow> (string \<times> string) list \<Rightarrow> (string \<times> string) list" where
  "hook_environment env working_dir ev extra =
     (let e1 = AList.update ''OPENHANDS_PROJECT_DIR'' working_dir (hx_sanitized_env env);
          e2 = AList.update ''OPENHANDS_SESSION_ID'' (or_else (hk_session_id ev) []) e1;
          e3 = AList.update ''OPENHANDS_EVENT_TYPE'' (hk_event_type ev) e2;
          e4 = (case hk_tool_name ev of
                  Some n \<Rightarrow> if n \<noteq> [] then AList.update ''OPENHANDS_TOOL_NAME'' n e3 else e3
                | None \<Rightarrow> e3)
      in fold (\<lambda>(k, v) d. AList.update k v d) extra e4)"

text \<open>
  The answer in the JSON of the standard output. A decision that is no text has no \<open>lower\<close>: the
  exception leaves to the handler that reports a failed hook.
\<close>

fun truthy :: "json \<Rightarrow> bool" where
  "truthy JNull = False"
| "truthy (JBool b) = b"
| "truthy (JInt i) = (i \<noteq> 0)"
| "truthy (JStr s) = (s \<noteq> [])"
| "truthy (JList l) = (l \<noteq> [])"
| "truthy (JObj d) = (d \<noteq> [])"

fun py_type_name :: "json \<Rightarrow> string" where
  "py_type_name JNull = ''NoneType''"
| "py_type_name (JBool _) = ''bool''"
| "py_type_name (JInt _) = ''int''"
| "py_type_name (JStr _) = ''str''"
| "py_type_name (JList _) = ''list''"
| "py_type_name (JObj _) = ''dict''"

definition read_decision :: "dict \<Rightarrow> hook_result \<Rightarrow> (string, hook_result) result" where
  "read_decision d r =
     (case map_of d ''decision'' of
        None \<Rightarrow> Inr r
      | Some (JStr s) \<Rightarrow>
          (if py_lower s = ''allow'' then Inr (r\<lparr>hr_decision := Some Allow\<rparr>)
           else if py_lower s = ''deny'' then Inr (r\<lparr>hr_decision := Some Deny, hr_blocked := True\<rparr>)
           else Inr r)
      | Some v \<Rightarrow>
          Inl (quoted (py_type_name v) @ '' object has no attribute '' @ quoted ''lower''))"

definition read_output :: "'x hook_env \<Rightarrow> dict \<Rightarrow> hook_result \<Rightarrow> (string, hook_result) result" where
  "read_output env d r =
     bind_res (read_decision d r) (\<lambda>r1.
       let r2 = (case map_of d ''reason'' of Some v \<Rightarrow> r1\<lparr>hr_reason := Some (hx_str env v)\<rparr> | None \<Rightarrow> r1);
           r3 = (case map_of d ''additionalContext'' of
                   Some v \<Rightarrow> r2\<lparr>hr_additional_context := Some (hx_str env v)\<rparr> | None \<Rightarrow> r2);
           r4 = (case map_of d ''continue'' of
                   Some v \<Rightarrow> if truthy v then r3 else r3\<lparr>hr_blocked := True\<rparr> | None \<Rightarrow> r3)
       in Inr r4)"

definition failed_result :: "string \<Rightarrow> hook_result" where
  "failed_result err = (new_result False (-1))\<lparr>hr_error := Some err\<rparr>"

definition completed_result :: "int \<Rightarrow> string \<Rightarrow> string \<Rightarrow> hook_result" where
  "completed_result code out err =
     (new_result (code = 0) code)\<lparr>hr_blocked := (code = 2), hr_stdout := out, hr_stderr := err\<rparr>"

definition result_of_run :: "'x hook_env \<Rightarrow> hook_definition \<Rightarrow> run_outcome \<Rightarrow> hook_result" where
  "result_of_run env h outcome =
     (case outcome of
        Completed code out err \<Rightarrow>
          (let r = completed_result code out err
           in if py_strip out = [] then r
              else case hx_loads env out of
                Some (JObj d) \<Rightarrow>
                  (case read_output env d r of
                     Inr r' \<Rightarrow> r'
                   | Inl e \<Rightarrow> failed_result (''Hook execution failed: '' @ e))
              | _ \<Rightarrow> r)
      | TimedOut \<Rightarrow> failed_result (''Hook timed out after '' @ show_int (hd_timeout h) @ '' seconds'')
      | CommandNotFound e \<Rightarrow> failed_result (''Hook command not found: '' @ e)
      | RunFailed e \<Rightarrow> failed_result (''Hook execution failed: '' @ e))"

definition execute_hook ::
    "'x hook_env \<Rightarrow> string \<Rightarrow> hook_definition \<Rightarrow> hook_event \<Rightarrow> 'x exec_state \<Rightarrow> 'x exec_state \<times> hook_result" where
  "execute_hook env working_dir h ev s =
     (let vars = hook_environment env working_dir ev [];
          s1 = cleanup_expired env s
      in if hd_async h then
           (case hx_popen env h vars ev (xs_ext s1) of
              (x, Inl e) \<Rightarrow> (s1\<lparr>xs_ext := x\<rparr>, failed_result (''Failed to start async hook: '' @ e))
            | (x, Inr p) \<Rightarrow>
                (add_process env p (hd_timeout h) (s1\<lparr>xs_ext := x\<rparr>),
                 (new_result True 0)\<lparr>hr_async_started := True\<rparr>))
         else
           (case hx_run env h vars ev (xs_ext s1) of
              (x, outcome) \<Rightarrow> (s1\<lparr>xs_ext := x\<rparr>, result_of_run env h outcome)))"

fun execute_hooks ::
    "'x hook_env \<Rightarrow> string \<Rightarrow> bool \<Rightarrow> hook_event \<Rightarrow> hook_definition list \<Rightarrow> 'x exec_state
       \<Rightarrow> 'x exec_state \<times> hook_result list" where
  "execute_hooks env working_dir stop_on_block ev [] s = (s, [])"
| "execute_hooks env working_dir stop_on_block ev (h # hs) s =
     (let (s1, r) = execute_hook env working_dir h ev s
      in if stop_on_block \<and> hr_blocked r then (s1, [r])
         else (let (s2, rs) = execute_hooks env working_dir stop_on_block ev hs s1 in (s2, r # rs)))"

definition execute_all ::
    "'x hook_env \<Rightarrow> string \<Rightarrow> hook_definition list \<Rightarrow> hook_event \<Rightarrow> bool \<Rightarrow> 'x exec_state
       \<Rightarrow> 'x exec_state \<times> hook_result list" where
  "execute_all env working_dir hooks ev stop_on_block s =
     execute_hooks env working_dir stop_on_block ev hooks (cleanup_expired env s)"

section \<open>The hook manager\<close>

record hook_manager =
  hg_config :: hook_config
  hg_session_id :: "string option"
  hg_working_dir :: "string option"

definition manager_dir :: "'x hook_env \<Rightarrow> hook_manager \<Rightarrow> string" where
  "manager_dir env mg =
     (case hg_working_dir mg of Some d \<Rightarrow> if d = [] then hx_cwd env else d | None \<Rightarrow> hx_cwd env)"

definition create_event :: "hook_manager \<Rightarrow> hook_event_type \<Rightarrow> hook_event" where
  "create_event mg et =
     \<lparr>hk_event_type = hook_event_value et, hk_tool_name = None, hk_tool_input = None, hk_tool_response = None,
      hk_message = None, hk_session_id = hg_session_id mg, hk_working_dir = hg_working_dir mg, hk_metadata = []\<rparr>"

definition manager_hooks ::
    "'x hook_env \<Rightarrow> hook_manager \<Rightarrow> hook_event_type \<Rightarrow> string option \<Rightarrow> hook_definition list" where
  "manager_hooks env mg et tool_name = get_hooks_for_event (hx_fullmatch env) (hg_config mg) et tool_name"

definition run_pre_tool_use ::
    "'x hook_env \<Rightarrow> hook_manager \<Rightarrow> string \<Rightarrow> dict \<Rightarrow> 'x exec_state \<Rightarrow> 'x exec_state \<times> bool \<times> hook_result list" where
  "run_pre_tool_use env mg tool_name tool_input s =
     (let hooks = manager_hooks env mg PreToolUse (Some tool_name)
      in if hooks = [] then (s, True, [])
         else
           let ev = (create_event mg PreToolUse)\<lparr>hk_tool_name := Some tool_name, hk_tool_input := Some tool_input\<rparr>;
               (s', results) = execute_all env (manager_dir env mg) hooks ev True s
           in (s', list_all should_continue results, results))"

definition run_post_tool_use ::
    "'x hook_env \<Rightarrow> hook_manager \<Rightarrow> string \<Rightarrow> dict \<Rightarrow> dict \<Rightarrow> 'x exec_state \<Rightarrow> 'x exec_state \<times> hook_result list" where
  "run_post_tool_use env mg tool_name tool_input tool_response s =
     (let hooks = manager_hooks env mg PostToolUse (Some tool_name)
      in if hooks = [] then (s, [])
         else
           let ev = (create_event mg PostToolUse)\<lparr>hk_tool_name := Some tool_name,
                 hk_tool_input := Some tool_input, hk_tool_response := Some tool_response\<rparr>
           in execute_all env (manager_dir env mg) hooks ev False s)"

text \<open>The contexts of the results that are given and not empty, joined by line feeds.\<close>

definition context_parts :: "hook_result list \<Rightarrow> string list" where
  "context_parts results =
     concat (map (\<lambda>r. case hr_additional_context r of
                        Some c \<Rightarrow> if c = [] then [] else [c] | None \<Rightarrow> []) results)"

definition run_user_prompt_submit ::
    "'x hook_env \<Rightarrow> hook_manager \<Rightarrow> string \<Rightarrow> 'x exec_state
       \<Rightarrow> 'x exec_state \<times> bool \<times> string option \<times> hook_result list" where
  "run_user_prompt_submit env mg msg s =
     (let hooks = manager_hooks env mg UserPromptSubmit None
      in if hooks = [] then (s, True, None, [])
         else
           let ev = (create_event mg UserPromptSubmit)\<lparr>hk_message := Some msg\<rparr>;
               (s', results) = execute_all env (manager_dir env mg) hooks ev True s;
               parts = context_parts results
           in (s', list_all should_continue results,
               if parts = [] then None else Some (py_join [newline] parts), results))"

definition run_session_start_hooks ::
    "'x hook_env \<Rightarrow> hook_manager \<Rightarrow> 'x exec_state \<Rightarrow> 'x exec_state \<times> hook_result list" where
  "run_session_start_hooks env mg s =
     (let hooks = manager_hooks env mg SessionStart None
      in if hooks = [] then (s, [])
         else execute_all env (manager_dir env mg) hooks (create_event mg SessionStart) False s)"

definition run_session_end_hooks ::
    "'x hook_env \<Rightarrow> hook_manager \<Rightarrow> 'x exec_state \<Rightarrow> 'x exec_state \<times> hook_result list" where
  "run_session_end_hooks env mg s =
     (let hooks = manager_hooks env mg SessionEnd None;
          (s1, results) =
            (if hooks = [] then (s, [])
             else execute_all env (manager_dir env mg) hooks (create_event mg SessionEnd) False s)
      in (cleanup_all env s1, results))"

definition run_stop_hooks ::
    "'x hook_env \<Rightarrow> hook_manager \<Rightarrow> string option \<Rightarrow> 'x exec_state \<Rightarrow> 'x exec_state \<times> bool \<times> hook_result list" where
  "run_stop_hooks env mg reason s =
     (let hooks = manager_hooks env mg Stop None
      in if hooks = [] then (s, True, [])
         else
           let ev = (create_event mg Stop)
                 \<lparr>hk_metadata := (case reason of
                      Some t \<Rightarrow> if t = [] then [] else [(''reason'', JStr t)] | None \<Rightarrow> [])\<rparr>;
               (s', results) = execute_all env (manager_dir env mg) hooks ev True s
           in (s', list_all should_continue results, results))"

definition manager_has_hooks :: "hook_manager \<Rightarrow> hook_event_type \<Rightarrow> bool" where
  "manager_has_hooks mg et = has_hooks_for_event (hg_config mg) et"

fun get_blocking_reason :: "hook_result list \<Rightarrow> string option" where
  "get_blocking_reason [] = None"
| "get_blocking_reason (r # rs) =
     (if hr_blocked r then
        Some (case hr_reason r of
                Some t \<Rightarrow> if t \<noteq> [] then t
                  else if hr_stderr r \<noteq> [] then py_strip (hr_stderr r) else ''Blocked by hook''
              | None \<Rightarrow> if hr_stderr r \<noteq> [] then py_strip (hr_stderr r) else ''Blocked by hook'')
      else get_blocking_reason rs)"

section \<open>The configuration's spellings\<close>

lemma event_field_table:
  "map pascal_to_snake
     [''PreToolUse'', ''PostToolUse'', ''UserPromptSubmit'', ''SessionStart'', ''SessionEnd'', ''Stop''] =
     HOOK_EVENT_FIELDS"
  "map pascal_to_snake HOOK_EVENT_FIELDS = HOOK_EVENT_FIELDS"
  by (simp_all add: pascal_to_snake_def underscored_def ascii_upper_def lower_char_def char_of_def HOOK_EVENT_FIELDS_def bit_0)

lemma event_fields [simp]:
  "pascal_to_snake ''PreToolUse'' = ''pre_tool_use''"
  "pascal_to_snake ''pre_tool_use'' = ''pre_tool_use''"
  "pascal_to_snake ''PostToolUse'' = ''post_tool_use''"
  "pascal_to_snake ''post_tool_use'' = ''post_tool_use''"
  "pascal_to_snake ''UserPromptSubmit'' = ''user_prompt_submit''"
  "pascal_to_snake ''user_prompt_submit'' = ''user_prompt_submit''"
  "pascal_to_snake ''SessionStart'' = ''session_start''"
  "pascal_to_snake ''session_start'' = ''session_start''"
  "pascal_to_snake ''SessionEnd'' = ''session_end''"
  "pascal_to_snake ''session_end'' = ''session_end''"
  "pascal_to_snake ''Stop'' = ''stop''"
  "pascal_to_snake ''stop'' = ''stop''"
  using event_field_table unfolding HOOK_EVENT_FIELDS_def by simp_all

definition event_field :: "hook_event_type \<Rightarrow> string" where
  "event_field et = pascal_to_snake (hook_event_value et)"

lemma event_field_simps [simp]:
  "event_field PreToolUse = ''pre_tool_use''"
  "event_field PostToolUse = ''post_tool_use''"
  "event_field UserPromptSubmit = ''user_prompt_submit''"
  "event_field SessionStart = ''session_start''"
  "event_field SessionEnd = ''session_end''"
  "event_field Stop = ''stop''"
  by (simp_all add: event_field_def)

lemma event_field_in [simp]: "event_field et \<in> set HOOK_EVENT_FIELDS"
  by (cases et) (simp_all add: HOOK_EVENT_FIELDS_def)

lemma event_field_inj [simp]: "event_field a = event_field b \<longleftrightarrow> a = b"
  by (cases a; cases b; simp)

lemma event_field_snake [simp]: "pascal_to_snake (event_field et) = event_field et"
  by (cases et) simp_all

lemma event_field_not_hooks [simp]: "event_field et \<noteq> ''hooks''" "''hooks'' \<noteq> event_field et"
  by (cases et; simp)+

text \<open>Both spellings of distinct event types are normalized to the fields.\<close>

lemma normalize_named:
  assumes "distinct (map fst d)" and "\<forall>et \<in> fst ` set d. map_of acc (event_field et) = None"
    and "\<forall>et. pascal_to_snake (name et) = event_field et"
  shows "normalize_keys (map (\<lambda>(et, v). (name et, v)) d) acc = Inr (acc @ map (\<lambda>(et, v). (event_field et, v)) d)"
  using assms(1,2)
proof (induction d arbitrary: acc)
  case (Cons x xs)
  obtain et v where x: "x = (et, v)" by fastforce
  have "normalize_keys (map (\<lambda>(et, v). (name et, v)) xs) (acc @ [(event_field et, v)]) =
      Inr ((acc @ [(event_field et, v)]) @ map (\<lambda>(et, v). (event_field et, v)) xs)"
  proof (rule Cons.IH)
    show "distinct (map fst xs)" using Cons.prems(1) by simp
    show "\<forall>e \<in> fst ` set xs. map_of (acc @ [(event_field et, v)]) (event_field e) = None"
      using Cons.prems by (auto simp: x map_add_def)
  qed
  with Cons.prems show ?case using assms(3) by (auto simp: x Let_def)
qed simp

lemma config_spellings:
  assumes "distinct (map fst d)"
  shows "config_from_dict rd (JObj [(''hooks'', JObj (map (\<lambda>(et, v). (hook_event_value et, v)) d))]) =
    config_from_dict rd (JObj (map (\<lambda>(et, v). (event_field et, v)) d))"
proof -
  have no: "map_of (map (\<lambda>(et, v). (event_field et, v)) d) ''hooks'' = None"
    by (auto simp: map_of_eq_None_iff)
  have 1: "normalize_keys (map (\<lambda>(et, v). (hook_event_value et, v)) d) [] = Inr (map (\<lambda>(et, v). (event_field et, v)) d)"
    using normalize_named [OF assms, of "[]" hook_event_value] by (simp flip: event_field_def)
  have 2: "normalize_keys (map (\<lambda>(et, v). (event_field et, v)) d) [] = Inr (map (\<lambda>(et, v). (event_field et, v)) d)"
    using normalize_named [OF assms, of "[]" event_field] by simp
  show ?thesis by (simp add: config_from_dict_def normalize_hooks_input_def no 1 2)
qed

lemma get_matchers_simps [simp]:
  "get_matchers_for_event c PreToolUse = hc_pre_tool_use c"
  "get_matchers_for_event c PostToolUse = hc_post_tool_use c"
  "get_matchers_for_event c UserPromptSubmit = hc_user_prompt_submit c"
  "get_matchers_for_event c SessionStart = hc_session_start c"
  "get_matchers_for_event c SessionEnd = hc_session_end c"
  "get_matchers_for_event c Stop = hc_stop c"
  by (simp_all add: get_matchers_for_event_def)

lemma hooks_of_concat:
  "concat (map hm_hooks (filter P (concat (map f cs)))) = concat (map (\<lambda>c. concat (map hm_hooks (filter P (f c)))) cs)"
  by (induction cs) auto

lemma merged_hooks:
  "(case merge_configs cs of None \<Rightarrow> [] | Some m \<Rightarrow> get_hooks_for_event fm m et name) =
     concat (map (\<lambda>c. get_hooks_for_event fm c et name) cs)"
proof -
  define m where "m =
      \<lparr>hc_pre_tool_use = concat (map hc_pre_tool_use cs), hc_post_tool_use = concat (map hc_post_tool_use cs),
       hc_user_prompt_submit = concat (map hc_user_prompt_submit cs),
       hc_session_start = concat (map hc_session_start cs), hc_session_end = concat (map hc_session_end cs),
       hc_stop = concat (map hc_stop cs)\<rparr>"
  have get: "get_hooks_for_event fm m et name = concat (map (\<lambda>c. get_hooks_for_event fm c et name) cs)"
    by (cases et) (simp_all add: get_hooks_for_event_def m_def hooks_of_concat)
  have none: "config_is_empty m \<Longrightarrow> get_hooks_for_event fm m et name = []"
    by (cases et) (simp_all add: get_hooks_for_event_def config_is_empty_def)
  show ?thesis
    using get none by (auto simp: merge_configs_def Let_def m_def [symmetric])
qed

section \<open>What an answer decides\<close>

text \<open>
  The documented contract of a command: exit code 2, a decision \<open>deny\<close> or a false \<open>continue\<close> blocks.
\<close>

fun asks_to_block :: "'x hook_env \<Rightarrow> run_outcome \<Rightarrow> bool" where
  "asks_to_block env (Completed code out err) \<longleftrightarrow>
     code = 2 \<or>
     (case hx_loads env out of
        Some (JObj d) \<Rightarrow> py_strip out \<noteq> [] \<and>
          ((case map_of d ''decision'' of Some (JStr t) \<Rightarrow> py_lower t = ''deny'' | _ \<Rightarrow> False) \<or>
           (case map_of d ''continue'' of Some v \<Rightarrow> \<not> truthy v | None \<Rightarrow> False))
      | _ \<Rightarrow> False)"
| "asks_to_block env _ \<longleftrightarrow> False"

text \<open>An answer whose decision is no text.\<close>

fun bad_decision :: "'x hook_env \<Rightarrow> run_outcome \<Rightarrow> bool" where
  "bad_decision env (Completed code out err) \<longleftrightarrow>
     (case hx_loads env out of
        Some (JObj d) \<Rightarrow> py_strip out \<noteq> [] \<and>
          (case map_of d ''decision'' of None \<Rightarrow> False | Some (JStr _) \<Rightarrow> False | Some _ \<Rightarrow> True)
      | _ \<Rightarrow> False)"
| "bad_decision env _ \<longleftrightarrow> False"

lemma new_result_fields [simp]:
  "hr_blocked (new_result b c) = False" "hr_decision (new_result b c) = None"
  "hr_success (new_result b c) = b" "hr_exit_code (new_result b c) = c"
  "hr_reason (new_result b c) = None" "hr_stderr (new_result b c) = []"
  by (simp_all add: new_result_def)

lemma failed_result_fields [simp]:
  "hr_blocked (failed_result e) = False" "hr_decision (failed_result e) = None"
  "hr_success (failed_result e) = False"
  by (simp_all add: failed_result_def)

lemma completed_result_fields [simp]:
  "hr_blocked (completed_result c out err) \<longleftrightarrow> c = 2" "hr_decision (completed_result c out err) = None"
  "hr_success (completed_result c out err) \<longleftrightarrow> c = 0"
  by (simp_all add: completed_result_def)

lemma read_decision_cases:
  "read_decision d r =
     (if (case map_of d ''decision'' of None \<Rightarrow> False | Some (JStr _) \<Rightarrow> False | Some _ \<Rightarrow> True)
      then Inl (quoted (py_type_name (the (map_of d ''decision''))) @ '' object has no attribute '' @ quoted ''lower'')
      else Inr (case map_of d ''decision'' of
          Some (JStr t) \<Rightarrow>
            (if py_lower t = ''deny'' then r\<lparr>hr_decision := Some Deny, hr_blocked := True\<rparr>
             else if py_lower t = ''allow'' then r\<lparr>hr_decision := Some Allow\<rparr> else r)
        | _ \<Rightarrow> r))"
  unfolding read_decision_def by (simp split: option.split json.split)

lemma read_output_Inr:
  "read_output env d r = Inr r' \<Longrightarrow>
     \<exists>r1. read_decision d r = Inr r1 \<and> hr_decision r' = hr_decision r1 \<and>
       hr_blocked r' = (hr_blocked r1 \<or> (case map_of d ''continue'' of Some v \<Rightarrow> \<not> truthy v | None \<Rightarrow> False))"
  unfolding read_output_def
  by (cases "read_decision d r"; cases "map_of d ''reason''"; cases "map_of d ''additionalContext''";
      cases "map_of d ''continue''") (auto simp: Let_def split: if_splits)

lemma read_output_Inl: "read_output env d r = Inl e \<longleftrightarrow> read_decision d r = Inl e"
  unfolding read_output_def by (cases "read_decision d r") (simp_all add: Let_def)

lemma result_of_run_blocked:
  "hr_blocked (result_of_run env h out) \<longleftrightarrow> asks_to_block env out \<and> \<not> bad_decision env out"
  "hr_decision (result_of_run env h out) = Some Deny \<Longrightarrow> hr_blocked (result_of_run env h out)"
proof -
  have "hr_blocked (result_of_run env h out) = (asks_to_block env out \<and> \<not> bad_decision env out) \<and>
      (hr_decision (result_of_run env h out) = Some Deny \<longrightarrow> hr_blocked (result_of_run env h out))"
  proof (cases out)
    case (Completed code ot err)
    show ?thesis
    proof (cases "\<exists>d. hx_loads env ot = Some (JObj d) \<and> py_strip ot \<noteq> []")
      case True
      then obtain d where d: "hx_loads env ot = Some (JObj d)" "py_strip ot \<noteq> []" by blast
      show ?thesis
      proof (cases "read_output env d (completed_result code ot err)")
        case (Inl e)
        then have "read_decision d (completed_result code ot err) = Inl e" by (simp add: read_output_Inl)
        then have "bad_decision env out" using d
          by (simp add: Completed read_decision_cases split: if_splits)
        with Inl d show ?thesis by (simp add: Completed result_of_run_def Let_def)
      next
        case (Inr r')
        from read_output_Inr [OF Inr] obtain r1 where r1: "read_decision d (completed_result code ot err) = Inr r1"
            "hr_decision r' = hr_decision r1"
            "hr_blocked r' = (hr_blocked r1 \<or> (case map_of d ''continue'' of Some v \<Rightarrow> \<not> truthy v | None \<Rightarrow> False))"
          by blast
        have "\<not> bad_decision env out" using r1(1) d
          by (simp add: Completed read_decision_cases split: if_splits)
        moreover have "hr_blocked r1 = (code = 2 \<or>
            (case map_of d ''decision'' of Some (JStr t) \<Rightarrow> py_lower t = ''deny'' | _ \<Rightarrow> False)) \<and>
            (hr_decision r1 = Some Deny \<longrightarrow> hr_blocked r1)"
          using r1(1) by (auto simp: read_decision_cases split: if_splits option.splits json.splits)
        moreover have "asks_to_block env out \<longleftrightarrow> hr_blocked r'"
          using calculation(2) r1(3) d by (simp add: Completed disj_assoc)
        ultimately show ?thesis using Inr d r1(2,3)
          by (simp add: Completed result_of_run_def Let_def del: asks_to_block.simps bad_decision.simps) blast
      qed
    next
      case False
      then show ?thesis
        by (auto simp: Completed result_of_run_def Let_def split: option.splits json.splits)
    qed
  qed (simp_all add: result_of_run_def)
  then show "hr_blocked (result_of_run env h out) \<longleftrightarrow> asks_to_block env out \<and> \<not> bad_decision env out"
      "hr_decision (result_of_run env h out) = Some Deny \<Longrightarrow> hr_blocked (result_of_run env h out)"
    by blast+
qed

text \<open>A background hook never blocks, and a denial always does.\<close>

lemma execute_hook_result:
  assumes "execute_hook env wd h ev s = (s', r)"
  shows "hr_decision r = Some Deny \<Longrightarrow> hr_blocked r"
    and "hd_async h \<Longrightarrow> \<not> hr_blocked r"
    and "hr_blocked r \<Longrightarrow> \<exists>vars x x' out. hx_run env h vars ev x = (x', out) \<and> asks_to_block env out"
  using assms result_of_run_blocked [of env h]
  by (auto simp: execute_hook_def Let_def split: if_splits prod.splits sum.splits) blast+

lemma should_continue_iff:
  assumes "execute_hook env wd h ev s = (s', r)"
  shows "should_continue r \<longleftrightarrow> \<not> hr_blocked r"
  using execute_hook_result(1) [OF assms] by (auto simp: should_continue_def)

section \<open>Which hooks run\<close>

lemma execute_hooks_prefix:
  assumes "execute_hooks env wd True ev hs s = (s', rs)"
  shows "length rs \<le> length hs"
    and "\<forall>r \<in> set (butlast rs). \<not> hr_blocked r"
    and "length rs < length hs \<Longrightarrow> rs \<noteq> [] \<and> hr_blocked (last rs)"
    and "\<forall>r \<in> set rs. should_continue r \<longleftrightarrow> \<not> hr_blocked r"
proof -
  have "length rs \<le> length hs \<and> (\<forall>r \<in> set (butlast rs). \<not> hr_blocked r) \<and>
      (length rs < length hs \<longrightarrow> rs \<noteq> [] \<and> hr_blocked (last rs)) \<and>
      (\<forall>r \<in> set rs. should_continue r \<longleftrightarrow> \<not> hr_blocked r)"
    using assms
  proof (induction hs arbitrary: s s' rs)
    case (Cons h hs)
    obtain s1 r where r: "execute_hook env wd h ev s = (s1, r)" by fastforce
    note c = should_continue_iff [OF r]
    show ?case
    proof (cases "hr_blocked r")
      case True
      then have "rs = [r]" using Cons.prems r by simp
      then show ?thesis using True c by simp
    next
      case False
      obtain s2 rs2 where rs2: "execute_hooks env wd True ev hs s1 = (s2, rs2)" by fastforce
      from Cons.IH [OF rs2] Cons.prems r False rs2 c show ?thesis by (auto split: if_splits)
    qed
  qed simp
  then show "length rs \<le> length hs" "\<forall>r \<in> set (butlast rs). \<not> hr_blocked r"
      "length rs < length hs \<Longrightarrow> rs \<noteq> [] \<and> hr_blocked (last rs)"
      "\<forall>r \<in> set rs. should_continue r \<longleftrightarrow> \<not> hr_blocked r"
    by blast+
qed

lemma execute_hooks_all: "length (snd (execute_hooks env wd False ev hs s)) = length hs"
proof (induction hs arbitrary: s)
  case (Cons h hs)
  obtain s1 r where r: "execute_hook env wd h ev s = (s1, r)" by fastforce
  show ?case using Cons.IH [of s1] by (simp add: r split_beta Let_def)
qed simp

lemma blocking_reason_iff: "get_blocking_reason rs \<noteq> None \<longleftrightarrow> (\<exists>r \<in> set rs. hr_blocked r)"
  by (induction rs) auto

lemma pre_tool_use_goes_on:
  assumes "run_pre_tool_use env mg name input s = (s', go_on, rs)"
  shows "go_on \<longleftrightarrow> (\<forall>r \<in> set rs. \<not> hr_blocked r)"
    and "go_on \<Longrightarrow> length rs = length (manager_hooks env mg PreToolUse (Some name))"
    and "\<not> go_on \<longleftrightarrow> get_blocking_reason rs \<noteq> None"
proof -
  have "(go_on \<longleftrightarrow> (\<forall>r \<in> set rs. \<not> hr_blocked r)) \<and>
      (go_on \<longrightarrow> length rs = length (manager_hooks env mg PreToolUse (Some name)))"
  proof (cases "manager_hooks env mg PreToolUse (Some name) = []")
    case True
    then show ?thesis using assms by (auto simp: run_pre_tool_use_def)
  next
    case False
    define hooks where "hooks = manager_hooks env mg PreToolUse (Some name)"
    define ev where "ev = (create_event mg PreToolUse)\<lparr>hk_tool_name := Some name, hk_tool_input := Some input\<rparr>"
    obtain x where x: "execute_all env (manager_dir env mg) hooks ev True s = (x, rs)"
        and g: "go_on = list_all should_continue rs"
      using assms False by (auto simp: run_pre_tool_use_def Let_def hooks_def ev_def split: prod.splits)
    note pre = execute_hooks_prefix [OF x [unfolded execute_all_def]]
    have g2: "go_on \<longleftrightarrow> (\<forall>r \<in> set rs. \<not> hr_blocked r)" using g pre(4) by (auto simp: list_all_iff)
    moreover have "length rs = length hooks" if "go_on"
      using pre(1) pre(3) g2 that by (metis last_in_set le_neq_implies_less)
    ultimately show ?thesis by (simp add: hooks_def)
  qed
  then show "go_on \<longleftrightarrow> (\<forall>r \<in> set rs. \<not> hr_blocked r)"
      "go_on \<Longrightarrow> length rs = length (manager_hooks env mg PreToolUse (Some name))"
      "\<not> go_on \<longleftrightarrow> get_blocking_reason rs \<noteq> None"
    using blocking_reason_iff [of rs] by blast+
qed

section \<open>Background processes\<close>

text \<open>
  What the process system documents: a process without a group, one whose group takes no signal, one a wait
  reports as ended and one waited for without a bound does not run; no call starts an ended process again.
\<close>

definition processes_ok :: "'x hook_env \<Rightarrow> bool" where
  "processes_ok env \<longleftrightarrow>
     (\<forall>x p. hx_pgid env x p = None \<longrightarrow> \<not> hx_running env x p) \<and>
     (\<forall>x p g f x1 x2. hx_pgid env x p = Some g \<longrightarrow> hx_killpg env g f x1 = (x2, False) \<longrightarrow> \<not> hx_running env x2 p) \<and>
     (\<forall>x p x'. hx_wait env p True x = (x', True) \<longrightarrow> \<not> hx_running env x' p) \<and>
     (\<forall>x p. \<not> hx_running env (fst (hx_wait env p False x)) p) \<and>
     (\<forall>x q g f. hx_running env (fst (hx_killpg env g f x)) q \<longrightarrow> hx_running env x q) \<and>
     (\<forall>x q p b. hx_running env (fst (hx_wait env p b x)) q \<longrightarrow> hx_running env x q)"

lemma processes_okD:
  assumes "processes_ok env"
  shows "hx_pgid env x p = None \<Longrightarrow> \<not> hx_running env x p"
    and "hx_pgid env x p = Some g \<Longrightarrow> hx_killpg env g f x1 = (x2, False) \<Longrightarrow> \<not> hx_running env x2 p"
    and "hx_wait env p True x = (x', True) \<Longrightarrow> \<not> hx_running env x' p"
    and "\<not> hx_running env (fst (hx_wait env p False x)) p"
    and "hx_killpg env g f x = (x', b) \<Longrightarrow> hx_running env x' q \<Longrightarrow> hx_running env x q"
    and "hx_wait env p b' x = (x', b) \<Longrightarrow> hx_running env x' q \<Longrightarrow> hx_running env x q"
  using assms unfolding processes_ok_def by (metis fst_conv)+

lemma terminate_stops:
  assumes "processes_ok env"
  shows "\<not> hx_running env (terminate_process env p x) p"
    and "hx_running env (terminate_process env p x) q \<Longrightarrow> hx_running env x q"
proof -
  note ok = processes_okD [OF assms]
  have "\<not> hx_running env (terminate_process env p x) p \<and>
      (\<forall>q. hx_running env (terminate_process env p x) q \<longrightarrow> hx_running env x q)"
  proof (cases "hx_pgid env x p")
    case None
    then show ?thesis using ok(1) by (simp add: terminate_process_def)
  next
    case (Some g)
    obtain x1 b1 where k1: "hx_killpg env g False x = (x1, b1)" by fastforce
    obtain x2 b2 where w1: "hx_wait env p True x1 = (x2, b2)" by fastforce
    obtain x3 b3 where k2: "hx_killpg env g True x2 = (x3, b3)" by fastforce
    obtain x4 b4 where w2: "hx_wait env p False x3 = (x4, b4)" by fastforce
    have r: "terminate_process env p x = (if \<not> b1 then x1 else if b2 then x2 else if \<not> b3 then x3 else x4)"
      by (simp add: terminate_process_def Some k1 w1 k2 w2)
    have "\<not> b1 \<Longrightarrow> \<not> hx_running env x1 p" "b2 \<Longrightarrow> \<not> hx_running env x2 p" "\<not> b3 \<Longrightarrow> \<not> hx_running env x3 p"
        "\<not> hx_running env x4 p"
      using ok(2) [OF Some] ok(3) ok(4) [of p x3] k1 w1 k2 w2 by auto
    moreover have "\<forall>q. hx_running env x1 q \<longrightarrow> hx_running env x q" "\<forall>q. hx_running env x2 q \<longrightarrow> hx_running env x1 q"
        "\<forall>q. hx_running env x3 q \<longrightarrow> hx_running env x2 q" "\<forall>q. hx_running env x4 q \<longrightarrow> hx_running env x3 q"
      using ok(5) [OF k1] ok(6) [OF w1] ok(5) [OF k2] ok(6) [OF w2] by blast+
    ultimately show ?thesis by (simp add: r)
  qed
  then show "\<not> hx_running env (terminate_process env p x) p"
      "hx_running env (terminate_process env p x) q \<Longrightarrow> hx_running env x q"
    by blast+
qed

lemma stop_all_stops:
  assumes "processes_ok env"
  shows "hx_running env (stop_all env ps x) q \<longrightarrow> hx_running env x q \<and> q \<notin> fst ` set ps"
proof (induction ps arbitrary: x)
  case (Cons t ps)
  obtain p a b where t: "t = (p, a, b)" by (cases t) auto
  define y where "y = (if hx_running env x p then terminate_process env p x else x)"
  have y: "\<not> hx_running env y p" "hx_running env y q \<longrightarrow> hx_running env x q"
    using terminate_stops [OF assms, of p x] by (auto simp: y_def)
  have "stop_all env (t # ps) x = stop_all env ps y" by (simp add: t y_def)
  then show ?case using Cons.IH [of y] y by (auto simp: t)
qed simp

lemma sweep_result:
  assumes "processes_ok env"
  shows "sweep env now ps x = (x', active) \<Longrightarrow>
      (\<forall>q. hx_running env x' q \<longrightarrow> hx_running env x q) \<and> subseq active ps \<and>
      (\<forall>(p, start, timeout) \<in> set active. now - start \<le> timeout) \<and>
      (\<forall>t \<in> set ps. t \<in> set active \<or> \<not> hx_running env x' (fst t))"
proof (induction ps arbitrary: x x' active)
  case (Cons t ps)
  obtain p start timeout where t: "t = (p, start, timeout)" by (cases t) auto
  show ?case
  proof (cases "hx_running env x p \<and> \<not> now - start > timeout")
    case True
    obtain x1 act where s: "sweep env now ps x = (x1, act)" by fastforce
    with True Cons.prems have "x' = x1" "active = (p, start, timeout) # act" by (simp_all add: t)
    with Cons.IH [OF s] True show ?thesis by (auto simp: t)
  next
    case False
    define y where "y = (if hx_running env x p then terminate_process env p x else x)"
    have y: "\<not> hx_running env y p" "\<forall>q. hx_running env y q \<longrightarrow> hx_running env x q"
      using terminate_stops [OF assms] by (auto simp: y_def)
    have "sweep env now ps y = (x', active)" using False Cons.prems by (auto simp: t y_def split: if_splits)
    note ih = Cons.IH [OF this]
    have "subseq active (t # ps)" using ih by (simp add: list_emb_Cons)
    moreover have "\<not> hx_running env x' (fst t)" using ih y(1) by (auto simp: t)
    ultimately show ?thesis using ih y(2) by simp
  qed
qed simp

section \<open>Properties\<close>

text \<open>
  A tool goes ahead exactly when every hook configured for it has run and none of them blocked:
  the run of the hooks stops at the first that blocks, and no hook is skipped otherwise.
\<close>

theorem tool_waits_for_its_hooks:
  "case run_pre_tool_use env mg name input s of
     (s', go_on, rs) \<Rightarrow>
       go_on \<longleftrightarrow> length rs = length (manager_hooks env mg PreToolUse (Some name)) \<and> list_all (\<lambda>r. \<not> hr_blocked r) rs"
proof -
  obtain s' go_on rs where r: "run_pre_tool_use env mg name input s = (s', go_on, rs)" by (cases "run_pre_tool_use env mg name input s") auto
  show ?thesis using pre_tool_use_goes_on [OF r] by (auto simp: r list_all_iff)
qed

text \<open>
  A command blocks as the contract of the executor says, by exit code 2, by the decision
  \<open>deny\<close> or by a false \<open>continue\<close>, except that an answer whose decision is no text never blocks, even
  with exit code 2: the exception it raises is reported as a failed hook, and failed hooks, like timeouts, let the operation go on.
\<close>

theorem hook_blocks_unless_decision_is_malformed:
  "hr_blocked (result_of_run env h out) = (asks_to_block env out \<and> \<not> bad_decision env out)"
  by (rule result_of_run_blocked)

text \<open>
  The wrapped configuration in Pascal case that other tools write and the plain one with the
  names of the fields are read as the same hooks.
\<close>

theorem spellings_are_equivalent:
  assumes "distinct (map fst d)"
  shows "config_from_dict rd (JObj [(''hooks'', JObj (map (\<lambda>(et, v). (hook_event_value et, v)) d))]) =
    config_from_dict rd (JObj (map (\<lambda>(et, v). (event_field et, v)) d))"
  by (rule config_spellings [OF assms])

text \<open>
  Merging configurations runs the hooks of each, in the order of the list; nothing is lost when the
  merged configuration is empty and \<open>None\<close> is returned.
\<close>

theorem merged_hooks_run_in_order:
  "(case merge_configs cs of None \<Rightarrow> [] | Some m \<Rightarrow> get_hooks_for_event fm m et name) =
     concat (map (\<lambda>c. get_hooks_for_event fm c et name) cs)"
  by (rule merged_hooks)

text \<open>
  No background hook outlives its bounds: a cleanup keeps only processes within their timeout, every
  tracked process it drops has ended, and at the end of the session all have ended.
\<close>

theorem background_hooks_are_stopped:
  assumes "processes_ok env"
  shows "list_all (\<lambda>(p, start, timeout). hx_time env (xs_ext s) - start \<le> timeout) (xs_procs (cleanup_expired env s)) \<and>
    list_all (\<lambda>t. t \<in> set (xs_procs (cleanup_expired env s)) \<or> \<not> hx_running env (xs_ext (cleanup_expired env s)) (fst t))
      (xs_procs s) \<and>
    list_all (\<lambda>t. \<not> hx_running env (xs_ext (cleanup_all env s)) (fst t)) (xs_procs s) \<and>
    xs_procs (cleanup_all env s) = []"
proof -
  obtain x active where sw: "sweep env (hx_time env (xs_ext s)) (xs_procs s) (xs_ext s) = (x, active)" by fastforce
  have "\<forall>t \<in> set (xs_procs s). \<not> hx_running env (stop_all env (xs_procs s) (xs_ext s)) (fst t)"
    using stop_all_stops [OF assms] by auto
  with sweep_result [OF assms sw] show ?thesis
    by (simp add: cleanup_expired_def cleanup_all_def sw list_all_iff)
qed

section \<open>Witnesses\<close>

text \<open>A system whose state is the list of the running processes, each its own group; a command prints the text 5.\<close>

definition listing_env :: "nat list hook_env" where
  "listing_env =
     \<lparr>hx_fullmatch = (\<lambda>p s. Some (p = s)), hx_loads = (\<lambda>s. Some (JInt 5)), hx_str = (\<lambda>_. ''5''), hx_cwd = ''/'',
      hx_sanitized_env = [], hx_run = (\<lambda>h vars ev x. (x, Completed 0 ''5'' [])),
      hx_popen = (\<lambda>h vars ev x. (x @ [length x], Inr (length x))), hx_time = (\<lambda>x. 10),
      hx_running = (\<lambda>x p. p \<in> set x), hx_pgid = (\<lambda>x p. if p \<in> set x then Some p else None),
      hx_killpg = (\<lambda>g f x. (if f then removeAll g x else x, True)),
      hx_wait = (\<lambda>p b x. if b then (x, p \<notin> set x) else (removeAll p x, True))\<rparr>"

lemma listing_env_ok: "processes_ok listing_env"
  by (auto simp: processes_ok_def listing_env_def)

lemma background_hooks_are_stopped_witness:
  "\<not> hx_running listing_env (xs_ext (cleanup_all listing_env \<lparr>xs_ext = [7, 8], xs_procs = [(7, 0, 60)]\<rparr>)) 7"
  using background_hooks_are_stopped [OF listing_env_ok, of "\<lparr>xs_ext = [7, 8], xs_procs = [(7, 0, 60)]\<rparr>"] by simp

lemma spellings_are_equivalent_witness:
  "config_from_dict (\<lambda>_. Some []) (JObj [(''hooks'', JObj [(''PreToolUse'', JNull), (''Stop'', JNull)])]) =
   config_from_dict (\<lambda>_. Some []) (JObj [(''pre_tool_use'', JNull), (''stop'', JNull)])"
  using spellings_are_equivalent [of "[(PreToolUse, JNull), (Stop, JNull)]" "\<lambda>_. Some []"] by simp

end
