(* ===== verification/Hook_Events.thy ===== *)
theory Hook_Events
  imports Agent_Step Hooks
begin

text \<open>
  The hooks in a conversation (\<open>sdk/hooks/conversation_hooks.py\<close>): the processor that stands before
  the conversation's callback, runs the hooks an event calls for, reports them as events and marks what they deny as
  blocked in the state, where the agent's step looks for it. The state of the system is the one of the
  world, the background processes are kept beside it. The lemmas follow a denial from the
  hook to the agent.
\<close>

section \<open>The processor\<close>

record ('s, 'x) hook_world =
  hw_world :: "('s, 'x) world"
  hw_procs :: "(nat \<times> int \<times> int) list"

type_synonym ('s, 'x, 'a) hook_prog = "(('s, 'x) hook_world, step_error, 'a) program"

text \<open>
  \<open>pr_callback\<close> and \<open>pr_state\<close> say whether the original callback and the conversation state are set,
  \<open>pr_emit\<close> is \<open>emit_hook_events\<close>; \<open>pr_dump_action\<close> and \<open>pr_dump_observation\<close> are \<open>model_dump\<close>,
  \<open>None\<close> when it raises.
\<close>

record ('s, 'x) processor =
  pr_agent :: "('s, 'x) agent_env"
  pr_env :: "'x hook_env"
  pr_manager :: hook_manager
  pr_callback :: bool
  pr_state :: bool
  pr_emit :: bool
  pr_dump_action :: "action \<Rightarrow> dict option"
  pr_dump_observation :: "observation \<Rightarrow> dict option"

definition in_world :: "(('s, 'x) world, 'a) prog \<Rightarrow> ('s, 'x, 'a) hook_prog" where
  "in_world p hw = (case p (hw_world hw) of (w, r) \<Rightarrow> (hw\<lparr>hw_world := w\<rparr>, r))"

definition with_hooks :: "('x exec_state \<Rightarrow> 'x exec_state \<times> 'a) \<Rightarrow> ('s, 'x, 'a) hook_prog" where
  "with_hooks f hw =
     (let (s, a) = f \<lparr>xs_ext = w_ext (hw_world hw), xs_procs = hw_procs hw\<rparr>
      in (\<lparr>hw_world = (hw_world hw)\<lparr>w_ext := xs_ext s\<rparr>, hw_procs = xs_procs s\<rparr>, Inr a))"

definition MAX_HOOK_LOG_CHARS :: nat where
  "MAX_HOOK_LOG_CHARS = 50000"

definition TRUNCATION_SUFFIX :: string where
  "TRUNCATION_SUFFIX = [newline] @ ''<TRUNCATED>''"

definition truncate_hook_log :: "string \<Rightarrow> string" where
  "truncate_hook_log s =
     (if length s \<le> MAX_HOOK_LOG_CHARS then s
      else if MAX_HOOK_LOG_CHARS \<le> length TRUNCATION_SUFFIX then take MAX_HOOK_LOG_CHARS s
      else take (MAX_HOOK_LOG_CHARS - length TRUNCATION_SUFFIX) s @ TRUNCATION_SUFFIX)"

definition hook_execution ::
    "string \<Rightarrow> hook_event_type \<Rightarrow> string \<Rightarrow> hook_result \<Rightarrow> string option \<Rightarrow> string option \<Rightarrow> string option
       \<Rightarrow> dict option \<Rightarrow> event" where
  "hook_execution i et command r tool_name action_id message_id hook_input =
     HookExecutionEvent \<lparr>he_id = i, he_source = SrcHook, he_hook_event_type = hook_event_value et,
       he_hook_command = command, he_tool_name = tool_name, he_success = hr_success r, he_blocked = hr_blocked r,
       he_exit_code = hr_exit_code r, he_stdout = truncate_hook_log (hr_stdout r),
       he_stderr = truncate_hook_log (hr_stderr r), he_reason = map_option truncate_hook_log (hr_reason r),
       he_additional_context = map_option truncate_hook_log (hr_additional_context r),
       he_error = map_option truncate_hook_log (hr_error r), he_action_id = action_id, he_message_id = message_id,
       he_hook_input = hook_input\<rparr>"

definition emit_hook_execution_event ::
    "('s, 'x) processor \<Rightarrow> hook_event_type \<Rightarrow> string option \<Rightarrow> string option \<Rightarrow> string option \<Rightarrow> dict option
       \<Rightarrow> hook_definition \<times> hook_result \<Rightarrow> (('s, 'x) world, unit) prog" where
  "emit_hook_execution_event pr et tool_name action_id message_id hook_input hr =
     (if \<not> pr_emit pr \<or> \<not> pr_callback pr then return_st ()
      else bind_st (fresh_id (pr_agent pr)) (\<lambda>i.
        on_event (pr_agent pr) (hook_execution i et (hd_command (fst hr)) (snd hr) tool_name action_id message_id hook_input)))"

definition emit_hook_events ::
    "('s, 'x) processor \<Rightarrow> hook_event_type \<Rightarrow> string option \<Rightarrow> string option \<Rightarrow> string option \<Rightarrow> dict option
       \<Rightarrow> hook_definition list \<Rightarrow> hook_result list \<Rightarrow> ('s, 'x, unit) hook_prog" where
  "emit_hook_events pr et tool_name action_id message_id hook_input hooks results =
     in_world (for_each (emit_hook_execution_event pr et tool_name action_id message_id hook_input) (zip hooks results))"

text \<open>An assignment of the state made by the state itself, as a program.\<close>

definition state_call ::
    "('s conv_state \<Rightarrow> 's conv_state \<times> state_error option) \<Rightarrow> (('s, 'x) world, unit) prog" where
  "state_call f w =
     (case f (w_state w) of
        (st, None) \<Rightarrow> (w\<lparr>w_state := st\<rparr>, Inr ())
      | (st, Some e) \<Rightarrow> (w\<lparr>w_state := st\<rparr>, Inl (StateError e)))"

definition block_reason :: "hook_result list \<Rightarrow> string" where
  "block_reason results = or_else (get_blocking_reason results) ''Blocked by hook''"

definition dumped :: "('a \<Rightarrow> dict option) \<Rightarrow> 'a option \<Rightarrow> dict" where
  "dumped dump x = (case x of None \<Rightarrow> [] | Some a \<Rightarrow> (case dump a of Some d \<Rightarrow> d | None \<Rightarrow> []))"

definition hooks_for :: "('s, 'x) processor \<Rightarrow> hook_event_type \<Rightarrow> string option \<Rightarrow> hook_definition list" where
  "hooks_for pr et tool_name = manager_hooks (pr_env pr) (pr_manager pr) et tool_name"

definition handle_pre_tool_use :: "('s, 'x) processor \<Rightarrow> action_event \<Rightarrow> ('s, 'x, unit) hook_prog" where
  "handle_pre_tool_use pr a =
     (if \<not> manager_has_hooks (pr_manager pr) PreToolUse then return_st ()
      else
        let tool_name = ae_tool_name a;
            tool_input = dumped (pr_dump_action pr) (ae_action a);
            hooks = hooks_for pr PreToolUse (Some tool_name)
        in bind_st (with_hooks (run_pre_tool_use (pr_env pr) (pr_manager pr) tool_name tool_input)) (\<lambda>(go_on, results).
           bind_st (emit_hook_events pr PreToolUse (Some tool_name) (Some (ae_id a)) None
                      (Some [(''tool_name'', JStr tool_name), (''tool_input'', JObj tool_input)]) hooks results) (\<lambda>_.
             if \<not> go_on \<and> pr_state pr
             then in_world (state_call (block_action (av_persist (pr_agent pr)) (ae_id a) (block_reason results)))
             else return_st ())))"

text \<open>
  After a tool: the action the observation answers is looked up in the log by its id; without a state or such
  an action no hook runs.
\<close>

definition find_action_event :: "event list \<Rightarrow> string \<Rightarrow> action_event option" where
  "find_action_event es i =
     (case find (\<lambda>e. event_id e = i) es of Some (ActionEvent a) \<Rightarrow> Some a | _ \<Rightarrow> None)"

definition handle_post_tool_use :: "('s, 'x) processor \<Rightarrow> observation_event \<Rightarrow> ('s, 'x, unit) hook_prog" where
  "handle_post_tool_use pr ob hw =
     (if \<not> manager_has_hooks (pr_manager pr) PostToolUse then (hw, Inr ())
      else
        case (if pr_state pr then find_action_event (events_of (hw_world hw)) (oe_action_id ob) else None) of
          None \<Rightarrow> (hw, Inr ())
        | Some a \<Rightarrow>
            (let tool_name = oe_tool_name ob;
                 tool_input = dumped (pr_dump_action pr) (ae_action a);
                 tool_response = dumped (pr_dump_observation pr) (Some (oe_observation ob));
                 hooks = hooks_for pr PostToolUse (Some tool_name)
             in bind_st (with_hooks (run_post_tool_use (pr_env pr) (pr_manager pr) tool_name tool_input tool_response)) (\<lambda>results.
                  emit_hook_events pr PostToolUse (Some tool_name) (Some (ae_id a)) None
                    (Some [(''tool_name'', JStr tool_name), (''tool_input'', JObj tool_input),
                           (''tool_response'', JObj tool_response)]) hooks results) hw))"

text \<open>
  A user message: the block is recorded under the id of the event that came in; a context of the hooks makes a new event with
  an id of its own.
\<close>

definition message_text :: "message_event \<Rightarrow> string" where
  "message_text m = concat (texts_of (m_content (me_llm_message m)))"

definition with_context :: "message_event \<Rightarrow> string \<Rightarrow> string \<Rightarrow> message_event" where
  "with_context m i c =
     \<lparr>me_id = i, me_source = me_source m, me_llm_message = me_llm_message m,
      me_llm_response_id = me_llm_response_id m, me_activated_skills = me_activated_skills m,
      me_extended_content = me_extended_content m @ [text_content c], me_sender = me_sender m,
      me_critic_result = None\<rparr>"

definition handle_user_prompt_submit ::
    "('s, 'x) processor \<Rightarrow> message_event \<Rightarrow> ('s, 'x, message_event) hook_prog" where
  "handle_user_prompt_submit pr m =
     (if \<not> manager_has_hooks (pr_manager pr) UserPromptSubmit then return_st m
      else
        let msg = message_text m;
            hooks = hooks_for pr UserPromptSubmit None
        in bind_st (with_hooks (run_user_prompt_submit (pr_env pr) (pr_manager pr) msg)) (\<lambda>(go_on, ctx, results).
           bind_st (emit_hook_events pr UserPromptSubmit None None (Some (me_id m)) (Some [(''message'', JStr msg)])
                      hooks results) (\<lambda>_.
           bind_st (if \<not> go_on \<and> pr_state pr
                    then in_world (state_call (block_message (av_persist (pr_agent pr)) (me_id m) (block_reason results)))
                    else return_st ()) (\<lambda>_.
             case ctx of
               None \<Rightarrow> return_st m
             | Some c \<Rightarrow> if c = [] then return_st m
                 else bind_st (in_world (fresh_id (pr_agent pr))) (\<lambda>i. return_st (with_context m i c))))))"

definition process_event :: "('s, 'x) processor \<Rightarrow> event \<Rightarrow> ('s, 'x, unit) hook_prog" where
  "process_event pr e =
     bind_st (case e of
         ActionEvent a \<Rightarrow> if ae_action a \<noteq> None then handle_pre_tool_use pr a else return_st ()
       | _ \<Rightarrow> return_st ()) (\<lambda>_.
     bind_st (case e of ObservationEvent ob \<Rightarrow> handle_post_tool_use pr ob | _ \<Rightarrow> return_st ()) (\<lambda>_.
     bind_st (case e of
         MessageEvent m \<Rightarrow>
           if me_source m = SrcUser
           then bind_st (handle_user_prompt_submit pr m) (\<lambda>m'. return_st (MessageEvent m'))
           else return_st e
       | _ \<Rightarrow> return_st e) (\<lambda>e'.
       if pr_callback pr then in_world (on_event (pr_agent pr) e') else return_st ())))"

definition is_action_blocked :: "('s, 'x) processor \<Rightarrow> ('s, 'x) hook_world \<Rightarrow> string \<Rightarrow> bool" where
  "is_action_blocked pr hw i \<longleftrightarrow>
     pr_state pr \<and> map_of (cf_blocked_actions (fields_of (hw_world hw))) i \<noteq> None"

definition is_message_blocked :: "('s, 'x) processor \<Rightarrow> ('s, 'x) hook_world \<Rightarrow> string \<Rightarrow> bool" where
  "is_message_blocked pr hw i \<longleftrightarrow>
     pr_state pr \<and> map_of (cf_blocked_messages (fields_of (hw_world hw))) i \<noteq> None"

definition processor_session_start :: "('s, 'x) processor \<Rightarrow> ('s, 'x, unit) hook_prog" where
  "processor_session_start pr =
     bind_st (with_hooks (run_session_start_hooks (pr_env pr) (pr_manager pr))) (\<lambda>results.
       emit_hook_events pr SessionStart None None None None (hooks_for pr SessionStart None) results)"

definition processor_session_end :: "('s, 'x) processor \<Rightarrow> ('s, 'x, unit) hook_prog" where
  "processor_session_end pr =
     bind_st (with_hooks (run_session_end_hooks (pr_env pr) (pr_manager pr))) (\<lambda>results.
       emit_hook_events pr SessionEnd None None None None (hooks_for pr SessionEnd None) results)"

text \<open>The stop hooks: whether to stop, and the feedback of a denial.\<close>

definition stop_feedback :: "bool \<Rightarrow> hook_result list \<Rightarrow> string option" where
  "stop_feedback should_stop results =
     (if should_stop then None
      else if context_parts results \<noteq> [] then Some (py_join [newline] (context_parts results))
      else case get_blocking_reason results of
        Some t \<Rightarrow> if t \<noteq> [] then Some t else None
      | None \<Rightarrow> None)"

definition processor_stop ::
    "('s, 'x) processor \<Rightarrow> string option \<Rightarrow> ('s, 'x, bool \<times> string option) hook_prog" where
  "processor_stop pr reason =
     (if \<not> manager_has_hooks (pr_manager pr) Stop then return_st (True, None)
      else
        bind_st (with_hooks (run_stop_hooks (pr_env pr) (pr_manager pr) reason)) (\<lambda>(should_stop, results).
        bind_st (emit_hook_events pr Stop None None None
                   (case reason of Some t \<Rightarrow> if t \<noteq> [] then Some [(''reason'', JStr t)] else None | None \<Rightarrow> None)
                   (hooks_for pr Stop None) results) (\<lambda>_.
          return_st (should_stop, stop_feedback should_stop results))))"

section \<open>What a step of the processor leaves\<close>

definition is_hook_event :: "event \<Rightarrow> bool" where
  "is_hook_event e \<longleftrightarrow> (case e of HookExecutionEvent _ \<Rightarrow> True | _ \<Rightarrow> False)"

text \<open>Reporting hooks appends hook events and changes nothing else.\<close>

definition reports :: "('s, 'x) world \<Rightarrow> ('s, 'x) world \<Rightarrow> bool" where
  "reports w w' \<longleftrightarrow>
     (\<exists>hs. events_of w' = events_of w @ hs \<and> list_all is_hook_event hs) \<and> fields_of w' = fields_of w \<and> w_ext w' = w_ext w"

lemma reports_refl [simp]: "reports w w"
  by (simp add: reports_def)

lemma reports_trans: "reports u v \<Longrightarrow> reports v w \<Longrightarrow> reports u w"
  unfolding reports_def by auto

lemma emit_one_reports:
  "\<exists>w'. emit_hook_execution_event pr et tn ai mi inp hr w = (w', Inr ()) \<and> reports w w'"
proof (cases "pr_emit pr \<and> pr_callback pr")
  case True
  define e where "e = hook_execution (av_fresh (pr_agent pr) (w_ids w)) et (hd_command (fst hr)) (snd hr) tn ai mi inp"
  have "emit_hook_execution_event pr et tn ai mi inp hr w = (append_log_event e (w\<lparr>w_ids := w_ids w + 1\<rparr>), Inr ())"
    using True by (simp add: emit_hook_execution_event_def bind_st_def fresh_id_def on_event_def e_def hook_execution_def)
  moreover have "reports w (append_log_event e (w\<lparr>w_ids := w_ids w + 1\<rparr>))"
    by (auto simp: reports_def is_hook_event_def e_def hook_execution_def append_log_event_def events_of_def fields_of_def)
  ultimately show ?thesis by blast
qed (auto simp: emit_hook_execution_event_def return_st_def)

lemma emit_all_reports:
  "\<exists>w'. for_each (emit_hook_execution_event pr et tn ai mi inp) hrs w = (w', Inr ()) \<and> reports w w'"
proof (induction hrs arbitrary: w)
  case (Cons hr hrs)
  obtain w1 where w1: "emit_hook_execution_event pr et tn ai mi inp hr w = (w1, Inr ())" "reports w w1"
    using emit_one_reports by blast
  obtain w2 where "for_each (emit_hook_execution_event pr et tn ai mi inp) hrs w1 = (w2, Inr ())" "reports w1 w2"
    using Cons.IH by blast
  with w1 reports_trans show ?case by (auto simp: bind_st_def)
qed (simp add: return_st_def)

lemma emit_hook_events_reports:
  "\<exists>w'. emit_hook_events pr et tn ai mi inp hooks results hw = (hw\<lparr>hw_world := w'\<rparr>, Inr ()) \<and> reports (hw_world hw) w'"
  using emit_all_reports [of pr et tn ai mi inp "zip hooks results" "hw_world hw"]
  by (auto simp: emit_hook_events_def in_world_def)

text \<open>The state of the hooks and the system as the hooks of a processor see them.\<close>

definition hook_state :: "('s, 'x) hook_world \<Rightarrow> 'x exec_state" where
  "hook_state hw = \<lparr>xs_ext = w_ext (hw_world hw), xs_procs = hw_procs hw\<rparr>"

lemma with_hooks_run:
  assumes "f (hook_state hw) = (s, a)"
  shows "with_hooks f hw = (\<lparr>hw_world = (hw_world hw)\<lparr>w_ext := xs_ext s\<rparr>, hw_procs = xs_procs s\<rparr>, Inr a)"
  using assms by (simp add: with_hooks_def hook_state_def)

lemma state_call_runs:
  fixes av :: "('s, 'x) agent_env" and w :: "('s, 'x) world"
  assumes "writes_ok av" and "f = setattr (av_persist av) key upd"
  shows "\<exists>w'. state_call f w = (w', Inr ()) \<and> fields_of w' = upd (fields_of w) \<and> events_of w' = events_of w \<and>
     w_ext w' = w_ext w \<and> w_ids w' = w_ids w"
proof -
  have eq: "state_call f w = set_field av key upd w"
    by (simp add: state_call_def set_field_def assms(2))
  obtain w' where "set_field av key upd w = (w', Inr ())" using set_field_returns [OF assms(1)] by blast
  with set_field_iff [OF this] eq show ?thesis by auto
qed

lemma block_action_set:
    "block_action env i r = setattr env ''blocked_actions''
       (\<lambda>f. f\<lparr>cf_blocked_actions := AList.update i r (cf_blocked_actions f)\<rparr>)"
  and block_message_set:
    "block_message env i r = setattr env ''blocked_messages''
       (\<lambda>f. f\<lparr>cf_blocked_messages := AList.update i r (cf_blocked_messages f)\<rparr>)"
  by (simp_all add: fun_eq_iff block_action_def block_message_def)

lemma no_hooks_no_denial:
  "\<not> manager_has_hooks mg et \<Longrightarrow> manager_hooks env mg et name = []"
  by (simp add: manager_has_hooks_def has_hooks_for_event_def manager_hooks_def get_hooks_for_event_def)

section \<open>A denied action\<close>

lemma process_denied_action:
  assumes ready: "pr_callback pr" "pr_state pr" and ok: "writes_ok (pr_agent pr)" and act: "ae_action a \<noteq> None"
    and denied: "run_pre_tool_use (pr_env pr) (pr_manager pr) (ae_tool_name a)
        (dumped (pr_dump_action pr) (ae_action a)) (hook_state hw) = (s, False, rs)"
  shows "\<exists>hw' hs. process_event pr (ActionEvent a) hw = (hw', Inr ()) \<and>
     events_of (hw_world hw') = events_of (hw_world hw) @ hs @ [ActionEvent a] \<and> list_all is_hook_event hs \<and>
     cf_blocked_actions (fields_of (hw_world hw')) =
       AList.update (ae_id a) (block_reason rs) (cf_blocked_actions (fields_of (hw_world hw))) \<and>
     w_ext (hw_world hw') = xs_ext s \<and> hw_procs hw' = xs_procs s"
proof -
  have has: "manager_has_hooks (pr_manager pr) PreToolUse"
    using denied no_hooks_no_denial [of "pr_manager pr" PreToolUse "pr_env pr" "Some (ae_tool_name a)"]
    by (cases "manager_has_hooks (pr_manager pr) PreToolUse") (simp_all add: run_pre_tool_use_def)
  define hw1 where "hw1 = \<lparr>hw_world = (hw_world hw)\<lparr>w_ext := xs_ext s\<rparr>, hw_procs = xs_procs s\<rparr>"
  note h1 = with_hooks_run [of "run_pre_tool_use (pr_env pr) (pr_manager pr) (ae_tool_name a)
        (dumped (pr_dump_action pr) (ae_action a))", OF denied, folded hw1_def]
  define inp where "inp = Some [(''tool_name'', JStr (ae_tool_name a)),
        (''tool_input'', JObj (dumped (pr_dump_action pr) (ae_action a)))]"
  obtain w2 where w2: "emit_hook_events pr PreToolUse (Some (ae_tool_name a)) (Some (ae_id a)) None inp
        (hooks_for pr PreToolUse (Some (ae_tool_name a))) rs hw1 = (hw1\<lparr>hw_world := w2\<rparr>, Inr ())"
      "reports (hw_world hw1) w2"
    using emit_hook_events_reports by blast
  obtain w3 where w3: "state_call (block_action (av_persist (pr_agent pr)) (ae_id a) (block_reason rs)) w2 = (w3, Inr ())"
      "fields_of w3 = (fields_of w2)\<lparr>cf_blocked_actions :=
         AList.update (ae_id a) (block_reason rs) (cf_blocked_actions (fields_of w2))\<rparr>"
      "events_of w3 = events_of w2" "w_ext w3 = w_ext w2"
    using state_call_runs [OF ok block_action_set, of "ae_id a" "block_reason rs" w2] by auto
  have pre: "handle_pre_tool_use pr a hw = (hw1\<lparr>hw_world := w3\<rparr>, Inr ())"
    using has ready h1 w2(1) w3(1)
    by (simp add: handle_pre_tool_use_def Let_def bind_st_def inp_def [symmetric] in_world_def)
  define hw4 where "hw4 = hw1\<lparr>hw_world := append_log_event (ActionEvent a) w3\<rparr>"
  have "process_event pr (ActionEvent a) hw = (hw4, Inr ())"
    using pre act ready(1)
    by (simp add: process_event_def bind_st_def return_st_def in_world_def on_event_def hw4_def)
  moreover obtain hs where "events_of w2 = events_of (hw_world hw1) @ hs" "list_all is_hook_event hs"
      "fields_of w2 = fields_of (hw_world hw1)" "w_ext w2 = w_ext (hw_world hw1)"
    using w2(2) by (auto simp: reports_def)
  moreover have "events_of (hw_world hw1) = events_of (hw_world hw)" "fields_of (hw_world hw1) = fields_of (hw_world hw)"
    by (simp_all add: hw1_def events_of_def fields_of_def)
  ultimately show ?thesis using w3 by (intro exI [of _ hw4] exI [of _ hs]) (simp add: hw4_def hw1_def)
qed

lemma denied_then_executed:
  assumes "pr_callback pr" "pr_state pr" and ok: "writes_ok (pr_agent pr)" "schedule_ok (pr_agent pr)"
    and act: "ae_action a \<noteq> None" "consistent a"
    and denied: "run_pre_tool_use (pr_env pr) (pr_manager pr) (ae_tool_name a)
        (dumped (pr_dump_action pr) (ae_action a)) (hook_state hw) = (s, False, rs)"
  shows "\<exists>hw' w' i tail. process_event pr (ActionEvent a) hw = (hw', Inr ()) \<and>
     execute_actions (pr_agent pr) [a] (hw_world hw') = (w', Inr ()) \<and> w_ext w' = xs_ext s \<and>
     events_of w' = events_of (hw_world hw') @ reject_event i a (block_reason rs) RejectedByHook # tail"
proof -
  from process_denied_action [OF assms(1,2) ok(1) act(1) denied] obtain hw' where hw':
      "process_event pr (ActionEvent a) hw = (hw', Inr ())"
      "map_of (cf_blocked_actions (fields_of (hw_world hw'))) (ae_id a) = Some (block_reason rs)"
      "w_ext (hw_world hw') = xs_ext s"
    by (auto simp: update_conv)
  have d: "distinct (map ae_id [a])" "\<forall>x \<in> set [a]. consistent x" using act by simp_all
  have t: "fst (truncate_at_finish [a]) = [a]" by (simp add: truncate_at_finish_def)
  obtain w' where x: "execute_actions (pr_agent pr) [a] (hw_world hw') = (w', Inr ())"
    using execute_actions_returns [OF ok d] by blast
  obtain es tail where es: "events_of w' = events_of (hw_world hw') @ es @ tail" "list_all2 answer_to es [a]"
      "list_all2 (rejects_blocked (cf_blocked_actions (fields_of (hw_world hw')))) es [a]"
    using execute_actions_spec [OF x ok(2) d] t by auto
  then obtain i where "es = [reject_event i a (block_reason rs) RejectedByHook]"
    using hw'(2) by (auto simp: rejects_blocked_def list_all2_Cons2)
  moreover have "w_ext w' = w_ext (hw_world hw')"
    using execute_actions_ext [OF x ok(2) d, of "[]"] hw'(2) t by auto
  ultimately show ?thesis using hw' x es(1) by auto
qed

section \<open>A denied message\<close>

lemma context_not_empty:
  assumes "run_user_prompt_submit env mg msg s = (s', go_on, Some c, rs)"
  shows "c \<noteq> []"
proof -
  have parts: "p \<noteq> []" if "p \<in> set (context_parts rs)" for p rs
    using that by (auto simp: context_parts_def split: option.splits if_splits)
  have "py_join sep ps \<noteq> []" if "ps \<noteq> []" "\<forall>p \<in> set ps. p \<noteq> []" for sep ps
    using that by (induction sep ps rule: py_join.induct) auto
  with parts assms show ?thesis
    by (auto simp: run_user_prompt_submit_def Let_def split: if_splits prod.splits)
qed

lemma process_denied_message:
  assumes ready: "pr_callback pr" "pr_state pr" and ok: "writes_ok (pr_agent pr)" and src: "me_source m = SrcUser"
    and denied: "run_user_prompt_submit (pr_env pr) (pr_manager pr) (message_text m) (hook_state hw) = (s, False, ctx, rs)"
  shows "\<exists>hw' k. process_event pr (MessageEvent m) hw = (hw', Inr ()) \<and>
     cf_blocked_messages (fields_of (hw_world hw')) =
       AList.update (me_id m) (block_reason rs) (cf_blocked_messages (fields_of (hw_world hw))) \<and>
     cf_last_user_message_id (fields_of (hw_world hw')) =
       Some (if ctx = None then me_id m else av_fresh (pr_agent pr) k)"
proof -
  let ?av = "pr_agent pr"
  have has: "manager_has_hooks (pr_manager pr) UserPromptSubmit"
    using denied no_hooks_no_denial [of "pr_manager pr" UserPromptSubmit "pr_env pr" None]
    by (cases "manager_has_hooks (pr_manager pr) UserPromptSubmit") (simp_all add: run_user_prompt_submit_def)
  define hw1 where "hw1 = \<lparr>hw_world = (hw_world hw)\<lparr>w_ext := xs_ext s\<rparr>, hw_procs = xs_procs s\<rparr>"
  note h1 = with_hooks_run [of "run_user_prompt_submit (pr_env pr) (pr_manager pr) (message_text m)", OF denied, folded hw1_def]
  obtain w2 where w2: "emit_hook_events pr UserPromptSubmit None None (Some (me_id m)) (Some [(''message'', JStr (message_text m))])
        (hooks_for pr UserPromptSubmit None) rs hw1 = (hw1\<lparr>hw_world := w2\<rparr>, Inr ())" "reports (hw_world hw1) w2"
    using emit_hook_events_reports by blast
  obtain w3 where w3: "state_call (block_message (av_persist ?av) (me_id m) (block_reason rs)) w2 = (w3, Inr ())"
      "fields_of w3 = (fields_of w2)\<lparr>cf_blocked_messages :=
         AList.update (me_id m) (block_reason rs) (cf_blocked_messages (fields_of w2))\<rparr>"
    using state_call_runs [OF ok block_message_set, of "me_id m" "block_reason rs" w2] by auto
  define m' where "m' = (case ctx of None \<Rightarrow> m | Some c \<Rightarrow> with_context m (av_fresh ?av (w_ids w3)) c)"
  define w4 where "w4 = (if ctx = None then w3 else w3\<lparr>w_ids := w_ids w3 + 1\<rparr>)"
  have ne: "ctx \<noteq> Some []" using context_not_empty denied by blast
  have h: "handle_user_prompt_submit pr m hw = (hw1\<lparr>hw_world := w4\<rparr>, Inr m')"
    using has ready h1 w2(1) w3(1) ne
    by (cases ctx) (simp_all add: handle_user_prompt_submit_def Let_def bind_st_def in_world_def return_st_def
        m'_def w4_def fresh_id_def)
  have m': "me_source m' = SrcUser" "me_id m' = (if ctx = None then me_id m else av_fresh ?av (w_ids w3))"
    using src by (auto simp: m'_def with_context_def split: option.splits)
  obtain w5 where w5: "set_field ?av ''last_user_message_id'' (\<lambda>f. f\<lparr>cf_last_user_message_id := Some (me_id m')\<rparr>)
        (append_log_event (MessageEvent m') w4) = (w5, Inr ())"
    using set_field_returns [OF ok] by blast
  have "process_event pr (MessageEvent m) hw = (hw1\<lparr>hw_world := w5\<rparr>, Inr ())"
    using h src ready(1) m'(1) w5
    by (simp add: process_event_def bind_st_def return_st_def in_world_def on_event_def)
  moreover have "fields_of w5 = (fields_of w4)\<lparr>cf_last_user_message_id := Some (me_id m')\<rparr>"
    using set_field_iff [OF w5] by simp
  moreover have "fields_of w4 = fields_of w3" by (simp add: w4_def fields_of_def)
  moreover have "fields_of w2 = fields_of (hw_world hw)" using w2(2) by (simp add: reports_def hw1_def fields_of_def)
  ultimately show ?thesis using w3(2) m'(2)
    by (intro exI [of _ "hw1\<lparr>hw_world := w5\<rparr>"] exI [of _ "w_ids w3"]) simp
qed

lemma pop_message_blocked:
  assumes "writes_ok av" and "cf_last_user_message_id (fields_of w) = Some i"
  shows "\<exists>w'. pop_message av w = (w', Inr (map_of (cf_blocked_messages (fields_of w)) i))"
  using assms setattr_returns [of "av_persist av" "''blocked_messages''"
      "\<lambda>f. f\<lparr>cf_blocked_messages := AList.delete i (cf_blocked_messages f)\<rparr>" "w_state w"]
  by (auto simp: pop_message_def pop_blocked_message_def writes_ok_def fields_of_def split: option.splits)

lemma block_found_without_context:
  assumes "pr_callback pr" "pr_state pr" "writes_ok (pr_agent pr)" "me_source m = SrcUser"
    and "run_user_prompt_submit (pr_env pr) (pr_manager pr) (message_text m) (hook_state hw) = (s, False, ctx, rs)"
    and "\<forall>k. av_fresh (pr_agent pr) k \<notin> insert (me_id m) (fst ` set (cf_blocked_messages (fields_of (hw_world hw))))"
  shows "\<exists>hw' w' r. process_event pr (MessageEvent m) hw = (hw', Inr ()) \<and>
     pop_message (pr_agent pr) (hw_world hw') = (w', Inr r) \<and> (r \<noteq> None \<longleftrightarrow> ctx = None)"
proof -
  from process_denied_message [OF assms(1-5)] obtain hw' k where hw':
      "process_event pr (MessageEvent m) hw = (hw', Inr ())"
      "cf_blocked_messages (fields_of (hw_world hw')) =
         AList.update (me_id m) (block_reason rs) (cf_blocked_messages (fields_of (hw_world hw)))"
      "cf_last_user_message_id (fields_of (hw_world hw')) =
         Some (if ctx = None then me_id m else av_fresh (pr_agent pr) k)"
    by blast
  have new: "map_of (cf_blocked_messages (fields_of (hw_world hw))) (av_fresh (pr_agent pr) k) = None"
      "av_fresh (pr_agent pr) k \<noteq> me_id m"
    using assms(6) by (auto simp: map_of_eq_None_iff)
  have "map_of (cf_blocked_messages (fields_of (hw_world hw'))) (if ctx = None then me_id m else av_fresh (pr_agent pr) k)
      \<noteq> None \<longleftrightarrow> ctx = None"
    using new by (simp add: hw'(2) update_conv)
  with pop_message_blocked [OF assms(3) hw'(3)] hw'(1) show ?thesis by blast
qed

section \<open>Properties\<close>

text \<open>
  C29: A tool call that a hook denies never runs: when the state can be saved, the processor passes the action on
  marked as blocked, and executing it leaves the system as the hooks left it and answers it
  by a rejection with the hook's reason.
\<close>

theorem denied_tool_never_runs:
  assumes "pr_callback pr" "pr_state pr" and "writes_ok (pr_agent pr)" "schedule_ok (pr_agent pr)"
    and "ae_action a \<noteq> None" "consistent a"
    and "run_pre_tool_use (pr_env pr) (pr_manager pr) (ae_tool_name a)
        (dumped (pr_dump_action pr) (ae_action a)) (hook_state hw) = (s, False, rs)"
  shows "\<exists>hw' w' i tail. process_event pr (ActionEvent a) hw = (hw', Inr ()) \<and>
     execute_actions (pr_agent pr) [a] (hw_world hw') = (w', Inr ()) \<and> w_ext w' = xs_ext s \<and>
     events_of w' = events_of (hw_world hw') @ reject_event i a (block_reason rs) RejectedByHook # tail"
  by (rule denied_then_executed [OF assms])

text \<open>
  A user message that a hook denies is held back by the agent only when no hook also gives a context:
  the block is recorded under the message's id, but a context makes a new message with a fresh id, under
  which the agent looks for a block and finds none.
\<close>

theorem context_voids_the_block:
  assumes "pr_callback pr" "pr_state pr" and "writes_ok (pr_agent pr)" and "me_source m = SrcUser"
    and "run_user_prompt_submit (pr_env pr) (pr_manager pr) (message_text m) (hook_state hw) = (s, False, ctx, rs)"
    and "\<forall>k. av_fresh (pr_agent pr) k \<notin> insert (me_id m) (fst ` set (cf_blocked_messages (fields_of (hw_world hw))))"
  shows "\<exists>hw' w' r. process_event pr (MessageEvent m) hw = (hw', Inr ()) \<and>
     pop_message (pr_agent pr) (hw_world hw') = (w', Inr r) \<and> (r \<noteq> None \<longleftrightarrow> ctx = None)"
  by (rule block_found_without_context [OF assms])

section \<open>Witnesses\<close>

text \<open>
  One hook for every tool and every message: its command exits with code 2, and for a message prints a context.
\<close>

definition deny_hook :: hook_definition where
  "deny_hook = \<lparr>hd_type = CommandHook, hd_command = ''deny.sh'', hd_prompt = None, hd_timeout = 60, hd_async = False\<rparr>"

definition deny_manager :: hook_manager where
  "deny_manager =
     \<lparr>hg_config = empty_config\<lparr>hc_pre_tool_use := [\<lparr>hm_matcher = ''*'', hm_hooks = [deny_hook]\<rparr>],
        hc_user_prompt_submit := [\<lparr>hm_matcher = ''*'', hm_hooks = [deny_hook]\<rparr>]\<rparr>,
      hg_session_id = None, hg_working_dir = None\<rparr>"

definition deny_env :: "nat hook_env" where
  "deny_env =
     \<lparr>hx_fullmatch = (\<lambda>p s. None), hx_loads = (\<lambda>s. Some (JObj [(''additionalContext'', JStr ''rules'')])),
      hx_str = (\<lambda>_. ''rules''), hx_cwd = ''/'', hx_sanitized_env = [],
      hx_run = (\<lambda>h vars ev x. (x + 1, if hk_message ev = None then Completed 2 [] ''no'' else Completed 2 ''json'' ''no'')),
      hx_popen = (\<lambda>h vars ev x. (x, Inl ''none'')), hx_time = (\<lambda>x. 0), hx_running = (\<lambda>x p. False),
      hx_pgid = (\<lambda>x p. None), hx_killpg = (\<lambda>g f x. (x, True)), hx_wait = (\<lambda>p b x. (x, True))\<rparr>"

definition deny_processor :: "(unit, nat) processor" where
  "deny_processor =
     \<lparr>pr_agent = demo_env, pr_env = deny_env, pr_manager = deny_manager, pr_callback = True, pr_state = True,
      pr_emit = True, pr_dump_action = (\<lambda>_. Some []), pr_dump_observation = (\<lambda>_. Some [])\<rparr>"

definition demo_hook_world :: "(unit, nat) hook_world" where
  "demo_hook_world = \<lparr>hw_world = demo_world [], hw_procs = []\<rparr>"

lemmas deny_defs = deny_processor_def deny_manager_def deny_env_def deny_hook_def hook_state_def demo_hook_world_def
  manager_hooks_def get_hooks_for_event_def empty_config_def matcher_matches_def execute_all_def execute_hook_def
  cleanup_expired_def result_of_run_def create_event_def

lemma denied_tool_never_runs_witness:
  "\<exists>hw' w' i tail. process_event deny_processor (ActionEvent (demo_action ''1'' ''echo'')) demo_hook_world = (hw', Inr ()) \<and>
     execute_actions demo_env [demo_action ''1'' ''echo''] (hw_world hw') = (w', Inr ()) \<and> w_ext w' = 1 \<and>
     events_of w' = events_of (hw_world hw') @ reject_event i (demo_action ''1'' ''echo'') ''no'' RejectedByHook # tail"
proof -
  let ?a = "demo_action ''1'' ''echo''"
  have py: "py_strip [] = []" "py_strip ''no'' = ''no''"
    by (simp_all add: py_strip_def py_lstrip_def py_rstrip_def py_space_def)
  obtain s rs where r: "run_pre_tool_use (pr_env deny_processor) (pr_manager deny_processor) (ae_tool_name ?a)
        (dumped (pr_dump_action deny_processor) (ae_action ?a)) (hook_state demo_hook_world) = (s, False, rs)"
      "xs_ext s = 1" "block_reason rs = ''no''"
    by (simp add: run_pre_tool_use_def deny_defs Let_def py completed_result_def new_result_def should_continue_def
        block_reason_def demo_world_def)
  have c: "pr_callback deny_processor" "pr_state deny_processor" "writes_ok (pr_agent deny_processor)"
      "schedule_ok (pr_agent deny_processor)" "ae_action ?a \<noteq> None" "consistent ?a" "pr_agent deny_processor = demo_env"
    using demo_ok by (simp_all add: deny_processor_def demo_action_def consistent_def)
  from denied_tool_never_runs [OF c(1-6) r(1)] r(2,3) c(7) show ?thesis by simp
qed

lemma context_voids_the_block_witness:
  "\<exists>hw' w' r m. process_event deny_processor (MessageEvent m) demo_hook_world = (hw', Inr ()) \<and>
     pop_message demo_env (hw_world hw') = (w', Inr None) \<and> me_source m = SrcUser"
proof -
  obtain m where m: "MessageEvent m = sample_message ''m1'' SrcUser" "me_id m = ''m1''" "me_source m = SrcUser"
    by (simp add: sample_message_def)
  have py: "py_strip ''no'' = ''no''" "py_strip ''json'' = ''json''"
    by (simp_all add: py_strip_def py_lstrip_def py_rstrip_def py_space_def)
  obtain s rs where r: "run_user_prompt_submit (pr_env deny_processor) (pr_manager deny_processor) (message_text m)
        (hook_state demo_hook_world) = (s, False, Some ''rules'', rs)"
    by (simp add: run_user_prompt_submit_def deny_defs Let_def py completed_result_def new_result_def should_continue_def
        read_output_def read_decision_def context_parts_def demo_world_def)
  have c: "pr_callback deny_processor" "pr_state deny_processor" "writes_ok (pr_agent deny_processor)"
      "pr_agent deny_processor = demo_env"
    using demo_ok by (simp_all add: deny_processor_def)
  have f: "\<forall>k. av_fresh (pr_agent deny_processor) k \<notin>
      insert (me_id m) (fst ` set (cf_blocked_messages (fields_of (hw_world demo_hook_world))))"
    by (simp add: c(4) m(2) demo_env_def demo_hook_world_def demo_world_def fields_of_def state_of_def fresh_fields_def)
  from context_voids_the_block [OF c(1-3) m(3) r f] c(4) m(3) show ?thesis by auto
qed

end
