(* ===== verification/Llm_Metrics.thy ===== *)
theory Llm_Metrics
  imports Complex_Main Prelude
begin

text \<open>
  What the model calls cost: the metrics of a model (\<open>sdk/llm/utils/metrics.py\<close>), the part of the
  telemetry that records a response in them (\<open>telemetry.py\<close>), the registry that keeps the metrics of its models
  apart (\<open>sdk/llm/llm_registry.py\<close>) and the statistics of a conversation
  (\<open>sdk/conversation/conversation_stats.py\<close>). Costs and times are rationals: the rounding of floats
  is left out. The lemmas show that totals agree with the records, and when the sharing of metrics
  between models is undone.
\<close>

section \<open>Records\<close>

datatype metrics_error = MetricsValueError string | MetricsValidationError

record cost_entry =
  co_model :: string
  co_cost :: rat
  co_timestamp :: rat

record latency_entry =
  rl_model :: string
  rl_latency :: rat
  rl_response_id :: string

record token_usage =
  tu_model :: string
  tu_prompt :: int
  tu_completion :: int
  tu_cache_read :: int
  tu_cache_write :: int
  tu_reasoning :: int
  tu_context_window :: int
  tu_per_turn :: int
  tu_response_id :: string

definition usage_valid :: "token_usage \<Rightarrow> bool" where
  "usage_valid u \<longleftrightarrow> tu_prompt u \<ge> 0 \<and> tu_completion u \<ge> 0 \<and> tu_cache_read u \<ge> 0 \<and> tu_cache_write u \<ge> 0 \<and>
     tu_reasoning u \<ge> 0 \<and> tu_context_window u \<ge> 0 \<and> tu_per_turn u \<ge> 0"

text \<open>The constructor validates its fields.\<close>

definition new_usage :: "token_usage \<Rightarrow> (metrics_error, token_usage) result" where
  "new_usage u = (if usage_valid u then Inr u else Inl MetricsValidationError)"

definition add_usage :: "token_usage \<Rightarrow> token_usage \<Rightarrow> (metrics_error, token_usage) result" where
  "add_usage a b = new_usage
     \<lparr>tu_model = tu_model a, tu_prompt = tu_prompt a + tu_prompt b,
      tu_completion = tu_completion a + tu_completion b,
      tu_cache_read = tu_cache_read a + tu_cache_read b, tu_cache_write = tu_cache_write a + tu_cache_write b,
      tu_reasoning = tu_reasoning a + tu_reasoning b,
      tu_context_window = max (tu_context_window a) (tu_context_window b),
      tu_per_turn = tu_per_turn b, tu_response_id = tu_response_id a\<rparr>"

record metrics =
  mt_model_name :: string
  mt_accumulated_cost :: rat
  mt_max_budget :: "rat option"
  mt_accumulated_usage :: "token_usage option"
  mt_costs :: "cost_entry list"
  mt_latencies :: "latency_entry list"
  mt_usages :: "token_usage list"

definition zero_usage :: "string \<Rightarrow> token_usage" where
  "zero_usage model =
     \<lparr>tu_model = model, tu_prompt = 0, tu_completion = 0, tu_cache_read = 0, tu_cache_write = 0, tu_reasoning = 0,
      tu_context_window = 0, tu_per_turn = 0, tu_response_id = []\<rparr>"

definition new_metrics :: "string \<Rightarrow> metrics" where
  "new_metrics model =
     \<lparr>mt_model_name = model, mt_accumulated_cost = 0, mt_max_budget = None,
      mt_accumulated_usage = Some (zero_usage model), mt_costs = [], mt_latencies = [], mt_usages = []\<rparr>"

record metrics_snapshot =
  sn_model_name :: string
  sn_accumulated_cost :: rat
  sn_max_budget :: "rat option"
  sn_accumulated_usage :: "token_usage option"

definition get_snapshot :: "metrics \<Rightarrow> metrics_snapshot" where
  "get_snapshot m =
     \<lparr>sn_model_name = mt_model_name m, sn_accumulated_cost = mt_accumulated_cost m,
      sn_max_budget = mt_max_budget m, sn_accumulated_usage = mt_accumulated_usage m\<rparr>"

section \<open>Adding\<close>

definition add_cost :: "rat \<Rightarrow> rat \<Rightarrow> metrics \<Rightarrow> (metrics_error, metrics) result" where
  "add_cost now c m =
     (if c < 0 then Inl (MetricsValueError ''Added cost cannot be negative.'')
      else Inr (m\<lparr>mt_accumulated_cost := mt_accumulated_cost m + c,
             mt_costs := mt_costs m @ [\<lparr>co_model = mt_model_name m, co_cost = c, co_timestamp = now\<rparr>]\<rparr>))"

definition add_response_latency :: "rat \<Rightarrow> string \<Rightarrow> metrics \<Rightarrow> metrics" where
  "add_response_latency l rid m =
     m\<lparr>mt_latencies := mt_latencies m @ [\<lparr>rl_model = mt_model_name m, rl_latency = max 0 l, rl_response_id = rid\<rparr>]\<rparr>"

definition call_usage :: "string \<Rightarrow> int \<Rightarrow> int \<Rightarrow> int \<Rightarrow> int \<Rightarrow> int \<Rightarrow> int \<Rightarrow> string \<Rightarrow> token_usage" where
  "call_usage model prompt completion cache_read cache_write reasoning context_window rid =
     \<lparr>tu_model = model, tu_prompt = prompt, tu_completion = completion, tu_cache_read = cache_read,
      tu_cache_write = cache_write, tu_reasoning = reasoning, tu_context_window = context_window,
      tu_per_turn = prompt + completion, tu_response_id = rid\<rparr>"

text \<open>The usage is validated before it is recorded, the accumulated one when it is added up.\<close>

definition add_token_usage ::
    "int \<Rightarrow> int \<Rightarrow> int \<Rightarrow> int \<Rightarrow> int \<Rightarrow> string \<Rightarrow> int \<Rightarrow> metrics \<Rightarrow> metrics \<times> metrics_error option" where
  "add_token_usage prompt completion cache_read cache_write context_window rid reasoning m =
     (case new_usage (call_usage (mt_model_name m) prompt completion cache_read cache_write reasoning context_window rid) of
        Inl e \<Rightarrow> (m, Some e)
      | Inr u \<Rightarrow>
          (let m1 = m\<lparr>mt_usages := mt_usages m @ [u]\<rparr>; fresh = u\<lparr>tu_response_id := []\<rparr>
           in case mt_accumulated_usage m of
                None \<Rightarrow> (m1\<lparr>mt_accumulated_usage := Some fresh\<rparr>, None)
              | Some a \<Rightarrow>
                  (case add_usage a fresh of
                     Inl e \<Rightarrow> (m1, Some e)
                   | Inr v \<Rightarrow> (m1\<lparr>mt_accumulated_usage := Some v\<rparr>, None))))"

section \<open>Merging and differences\<close>

definition merge_metrics :: "metrics \<Rightarrow> metrics \<Rightarrow> metrics \<times> metrics_error option" where
  "merge_metrics m other =
     (let m1 = m\<lparr>mt_accumulated_cost := mt_accumulated_cost m + mt_accumulated_cost other,
            mt_max_budget := (if mt_max_budget m = None \<and> mt_max_budget other \<noteq> None then mt_max_budget other
              else mt_max_budget m),
            mt_costs := mt_costs m @ mt_costs other, mt_usages := mt_usages m @ mt_usages other,
            mt_latencies := mt_latencies m @ mt_latencies other\<rparr>
      in case mt_accumulated_usage m of
           None \<Rightarrow> (m1\<lparr>mt_accumulated_usage := mt_accumulated_usage other\<rparr>, None)
         | Some a \<Rightarrow>
             (case mt_accumulated_usage other of
                None \<Rightarrow> (m1, None)
              | Some b \<Rightarrow>
                  (case add_usage a b of
                     Inl e \<Rightarrow> (m1, Some e)
                   | Inr v \<Rightarrow> (m1\<lparr>mt_accumulated_usage := Some v\<rparr>, None))))"

definition usage_diff :: "string \<Rightarrow> token_usage \<Rightarrow> token_usage \<Rightarrow> (metrics_error, token_usage) result" where
  "usage_diff model c b = new_usage
     \<lparr>tu_model = model, tu_prompt = tu_prompt c - tu_prompt b, tu_completion = tu_completion c - tu_completion b,
      tu_cache_read = tu_cache_read c - tu_cache_read b, tu_cache_write = tu_cache_write c - tu_cache_write b,
      tu_reasoning = tu_reasoning c - tu_reasoning b, tu_context_window = tu_context_window c,
      tu_per_turn = 0, tu_response_id = []\<rparr>"

definition metrics_diff :: "metrics \<Rightarrow> metrics \<Rightarrow> (metrics_error, metrics) result" where
  "metrics_diff m baseline =
     (let r = (new_metrics (mt_model_name m))
            \<lparr>mt_accumulated_cost := mt_accumulated_cost m - mt_accumulated_cost baseline,
             mt_costs := (if mt_costs baseline \<noteq> []
               then filter (\<lambda>c. co_timestamp c > co_timestamp (last (mt_costs baseline))) (mt_costs m)
               else mt_costs m),
             mt_latencies := drop (length (mt_latencies baseline)) (mt_latencies m),
             mt_usages := drop (length (mt_usages baseline)) (mt_usages m)\<rparr>
      in case mt_accumulated_usage m of
           None \<Rightarrow> Inr (r\<lparr>mt_accumulated_usage := None\<rparr>)
         | Some c \<Rightarrow>
             (case mt_accumulated_usage baseline of
                None \<Rightarrow> Inr (r\<lparr>mt_accumulated_usage := Some c\<rparr>)
              | Some b \<Rightarrow>
                  (case usage_diff (mt_model_name m) c b of
                     Inl e \<Rightarrow> Inl e
                   | Inr d \<Rightarrow> Inr (r\<lparr>mt_accumulated_usage := Some d\<rparr>))))"

section \<open>Telemetry\<close>

text \<open>
  The usage of a response, with the attributes that may be missing; the details are the cached and the
  reasoning tokens. \<open>rp_header_cost\<close> is the cost of the provider's header, \<open>te_cost\<close> the calculator of the library,
  called with the provider and the bare name of the model.
\<close>

record usage =
  us_prompt_tokens :: "int option"
  us_input_tokens :: "int option"
  us_completion_tokens :: "int option"
  us_output_tokens :: "int option"
  us_prompt_details :: "int option option"
  us_input_details :: "int option option"
  us_completion_details :: "int option option"
  us_output_details :: "int option option"
  us_cached_tokens :: "int option"
  us_cache_creation :: "int option"

record response =
  rp_id :: string
  rp_header_cost :: "rat option"
  rp_usage :: "usage option"

record telemetry =
  te_model_name :: string
  te_metrics :: metrics
  te_req_start :: "rat option"
  te_last_latency :: rat
  te_context_window :: int

definition on_request :: "rat \<Rightarrow> int \<Rightarrow> telemetry \<Rightarrow> telemetry" where
  "on_request now context_window te = te\<lparr>te_req_start := Some now, te_context_window := context_window\<rparr>"

text \<open>\<open>x or y\<close> on optional integers, as \<open>None\<close> and zero are false.\<close>

definition int_or :: "int option \<Rightarrow> int option \<Rightarrow> int option" where
  "int_or x y = (case x of Some i \<Rightarrow> if i = 0 then y else x | None \<Rightarrow> y)"

definition int_of :: "int option \<Rightarrow> int" where
  "int_of x = (case x of Some i \<Rightarrow> i | None \<Rightarrow> 0)"

definition has_meaningful_usage :: "usage \<Rightarrow> bool" where
  "has_meaningful_usage u \<longleftrightarrow>
     (let prompt = (case us_prompt_tokens u of None \<Rightarrow> us_input_tokens u | x \<Rightarrow> x);
          completion = (case us_completion_tokens u of None \<Rightarrow> us_output_tokens u | x \<Rightarrow> x)
      in int_of prompt > 0 \<or> int_of completion > 0)"

definition record_usage :: "usage \<Rightarrow> string \<Rightarrow> int \<Rightarrow> metrics \<Rightarrow> metrics \<times> metrics_error option" where
  "record_usage u rid context_window m =
     (let prompt = int_of (int_or (us_prompt_tokens u) (us_input_tokens u));
          completion = int_of (int_or (us_completion_tokens u) (us_output_tokens u));
          p_details = (case us_prompt_details u of None \<Rightarrow> us_input_details u | x \<Rightarrow> x);
          read1 = (case p_details of None \<Rightarrow> 0 | Some c \<Rightarrow> int_of c);
          cache_read = (if read1 = 0 then int_of (us_cached_tokens u) else read1);
          c_details = (case us_completion_details u of None \<Rightarrow> us_output_details u | x \<Rightarrow> x);
          reasoning = (case c_details of None \<Rightarrow> 0 | Some c \<Rightarrow> int_of c);
          cache_write = int_of (us_cache_creation u)
      in add_token_usage prompt completion cache_read cache_write context_window rid reasoning m)"

definition compute_cost :: "(string \<Rightarrow> string option \<Rightarrow> response \<Rightarrow> rat option) \<Rightarrow> string \<Rightarrow> response \<Rightarrow> rat option" where
  "compute_cost calculator model_name resp =
     (case rp_header_cost resp of
        Some c \<Rightarrow> Some c
      | None \<Rightarrow>
          if CHR ''/'' \<in> set model_name
          then calculator (tl (dropWhile (\<lambda>c. c \<noteq> CHR ''/'') model_name))
                 (Some (takeWhile (\<lambda>c. c \<noteq> CHR ''/'') model_name)) resp
          else calculator model_name None resp)"

text \<open>\<open>on_response\<close>; a zero cost is not recorded, an error leaves with what was recorded before it.\<close>

definition on_response ::
    "(string \<Rightarrow> string option \<Rightarrow> response \<Rightarrow> rat option) \<Rightarrow> rat \<Rightarrow> response \<Rightarrow> telemetry \<Rightarrow> telemetry \<times> metrics_error option" where
  "on_response calculator now resp te =
     (let start = (case te_req_start te of Some t \<Rightarrow> if t = 0 then now else t | None \<Rightarrow> now);
          te1 = te\<lparr>te_last_latency := now - start,
                   te_metrics := add_response_latency (now - start) (rp_id resp) (te_metrics te)\<rparr>;
          costed = (case compute_cost calculator (te_model_name te) resp of
             Some c \<Rightarrow> if c \<noteq> 0 then add_cost now c (te_metrics te1) else Inr (te_metrics te1)
           | None \<Rightarrow> Inr (te_metrics te1))
      in case costed of
           Inl e \<Rightarrow> (te1, Some e)
         | Inr m \<Rightarrow>
             (case rp_usage resp of
                Some u \<Rightarrow>
                  (if has_meaningful_usage u
                   then (case record_usage u (rp_id resp) (te_context_window te) m of
                           (m', e) \<Rightarrow> (te1\<lparr>te_metrics := m'\<rparr>, e))
                   else (te1\<lparr>te_metrics := m\<rparr>, None))
              | None \<Rightarrow> (te1\<lparr>te_metrics := m\<rparr>, None)))"

section \<open>Totals\<close>

text \<open>The totals are those of the records, and all records are valid.\<close>

definition totals_agree :: "metrics \<Rightarrow> bool" where
  "totals_agree m \<longleftrightarrow>
     mt_accumulated_cost m = sum_list (map co_cost (mt_costs m)) \<and> list_all (\<lambda>c. co_cost c \<ge> 0) (mt_costs m) \<and>
     list_all usage_valid (mt_usages m) \<and>
     (case mt_accumulated_usage m of
        None \<Rightarrow> False
      | Some a \<Rightarrow> usage_valid a \<and>
          tu_prompt a = sum_list (map tu_prompt (mt_usages m)) \<and>
          tu_completion a = sum_list (map tu_completion (mt_usages m)) \<and>
          tu_cache_read a = sum_list (map tu_cache_read (mt_usages m)) \<and>
          tu_cache_write a = sum_list (map tu_cache_write (mt_usages m)) \<and>
          tu_reasoning a = sum_list (map tu_reasoning (mt_usages m)) \<and>
          tu_context_window a = foldr max (map tu_context_window (mt_usages m)) 0)"

lemma foldr_max_append: "foldr max (xs @ ys) (0::int) = max (foldr max xs 0) (foldr max ys 0)"
proof (induction xs)
  case Nil
  have "foldr max ys (0::int) \<ge> 0" by (induction ys) auto
  then show ?case by simp
qed (simp add: max.assoc)

lemma add_usage_valid:
  assumes "usage_valid a" and "usage_valid b"
  shows "\<exists>v. add_usage a b = Inr v \<and> usage_valid v \<and> tu_prompt v = tu_prompt a + tu_prompt b \<and>
     tu_completion v = tu_completion a + tu_completion b \<and> tu_cache_read v = tu_cache_read a + tu_cache_read b \<and>
     tu_cache_write v = tu_cache_write a + tu_cache_write b \<and> tu_reasoning v = tu_reasoning a + tu_reasoning b \<and>
     tu_context_window v = max (tu_context_window a) (tu_context_window b) \<and> tu_per_turn v = tu_per_turn b \<and>
     tu_model v = tu_model a \<and> tu_response_id v = tu_response_id a"
  using assms by (simp add: add_usage_def new_usage_def usage_valid_def max_def)

lemma totals_new [simp]: "totals_agree (new_metrics model)"
  by (simp add: totals_agree_def new_metrics_def zero_usage_def usage_valid_def)

lemma totals_add_cost: "totals_agree m \<Longrightarrow> add_cost now c m = Inr m' \<Longrightarrow> totals_agree m'"
  by (auto simp: totals_agree_def add_cost_def split: if_splits option.splits)

lemma totals_add_latency: "totals_agree m \<Longrightarrow> totals_agree (add_response_latency l rid m)"
  by (simp add: totals_agree_def add_response_latency_def split: option.splits)

text \<open>One call: it raises only for a negative count, and then records nothing.\<close>

lemma add_token_usage_result:
  assumes "totals_agree m"
    and u: "u = call_usage (mt_model_name m) prompt completion read write reasoning window rid"
  shows "\<not> usage_valid u \<Longrightarrow> add_token_usage prompt completion read write window rid reasoning m = (m, Some MetricsValidationError)"
    and "usage_valid u \<Longrightarrow> \<exists>a v. mt_accumulated_usage m = Some a \<and> add_usage a (u\<lparr>tu_response_id := []\<rparr>) = Inr v \<and>
      add_token_usage prompt completion read write window rid reasoning m =
        (m\<lparr>mt_usages := mt_usages m @ [u], mt_accumulated_usage := Some v\<rparr>, None)"
proof -
  show "add_token_usage prompt completion read write window rid reasoning m = (m, Some MetricsValidationError)"
    if "\<not> usage_valid u"
    using that by (simp add: add_token_usage_def new_usage_def u [symmetric])
  assume valid: "usage_valid u"
  obtain a where a: "mt_accumulated_usage m = Some a" "usage_valid a"
    using assms(1) by (auto simp: totals_agree_def split: option.splits)
  have "usage_valid (u\<lparr>tu_response_id := []\<rparr>)" using valid by (simp add: usage_valid_def)
  then obtain v where "add_usage a (u\<lparr>tu_response_id := []\<rparr>) = Inr v" using add_usage_valid a(2) by blast
  then show "\<exists>a v. mt_accumulated_usage m = Some a \<and> add_usage a (u\<lparr>tu_response_id := []\<rparr>) = Inr v \<and>
      add_token_usage prompt completion read write window rid reasoning m =
        (m\<lparr>mt_usages := mt_usages m @ [u], mt_accumulated_usage := Some v\<rparr>, None)"
    using a valid by (simp add: add_token_usage_def new_usage_def u [symmetric] Let_def)
qed

lemma totals_add_usage:
  assumes "totals_agree m" and r: "add_token_usage prompt completion read write window rid reasoning m = (m', e)"
  shows "totals_agree m'"
proof -
  define u where "u = call_usage (mt_model_name m) prompt completion read write reasoning window rid"
  show ?thesis
  proof (cases "usage_valid u")
    case False
    then show ?thesis using add_token_usage_result(1) [OF assms(1) u_def] assms by simp
  next
    case True
    then obtain a v where a: "mt_accumulated_usage m = Some a" "add_usage a (u\<lparr>tu_response_id := []\<rparr>) = Inr v"
        "m' = m\<lparr>mt_usages := mt_usages m @ [u], mt_accumulated_usage := Some v\<rparr>"
      using add_token_usage_result(2) [OF assms(1) u_def] r by fastforce
    have av: "usage_valid a" using assms(1) a(1) by (simp add: totals_agree_def)
    have uv: "usage_valid (u\<lparr>tu_response_id := []\<rparr>)" using True by (simp add: usage_valid_def)
    have w: "max (tu_context_window u) 0 = tu_context_window u" using True by (simp add: usage_valid_def)
    from add_usage_valid [OF av uv] a(2) assms(1) a(1) True w show ?thesis
      by (simp add: a(3) totals_agree_def foldr_max_append del: foldr_append)
  qed
qed

lemma merge_result:
  assumes "totals_agree m" and "totals_agree other"
  shows "\<exists>a b v. mt_accumulated_usage m = Some a \<and> mt_accumulated_usage other = Some b \<and> add_usage a b = Inr v \<and>
     merge_metrics m other =
       (m\<lparr>mt_accumulated_cost := mt_accumulated_cost m + mt_accumulated_cost other,
          mt_max_budget := (if mt_max_budget m = None \<and> mt_max_budget other \<noteq> None then mt_max_budget other
            else mt_max_budget m),
          mt_costs := mt_costs m @ mt_costs other, mt_usages := mt_usages m @ mt_usages other,
          mt_latencies := mt_latencies m @ mt_latencies other, mt_accumulated_usage := Some v\<rparr>, None)"
proof -
  obtain a b where ab: "mt_accumulated_usage m = Some a" "usage_valid a" "mt_accumulated_usage other = Some b" "usage_valid b"
    using assms by (auto simp: totals_agree_def split: option.splits)
  obtain v where "add_usage a b = Inr v" using add_usage_valid ab by blast
  with ab show ?thesis by (simp add: merge_metrics_def Let_def)
qed

lemma totals_merge:
  assumes "totals_agree m" and "totals_agree other" and "merge_metrics m other = (m', e)"
  shows "e = None \<and> totals_agree m'"
proof -
  obtain a b v where abv: "mt_accumulated_usage m = Some a" "mt_accumulated_usage other = Some b" "add_usage a b = Inr v"
      "merge_metrics m other =
       (m\<lparr>mt_accumulated_cost := mt_accumulated_cost m + mt_accumulated_cost other,
          mt_max_budget := (if mt_max_budget m = None \<and> mt_max_budget other \<noteq> None then mt_max_budget other
            else mt_max_budget m),
          mt_costs := mt_costs m @ mt_costs other, mt_usages := mt_usages m @ mt_usages other,
          mt_latencies := mt_latencies m @ mt_latencies other, mt_accumulated_usage := Some v\<rparr>, None)"
    using merge_result [OF assms(1,2)] by blast
  have "usage_valid a" "usage_valid b" using abv assms by (simp_all add: totals_agree_def)
  from add_usage_valid [OF this] abv assms show ?thesis
    by (auto simp: totals_agree_def foldr_max_append simp del: foldr_append)
qed

section \<open>Calls and their differences\<close>

text \<open>What a model's calls do to its metrics.\<close>

datatype metrics_op =
    CostOp rat rat
  | LatencyOp rat string
  | UsageOp int int int int int string int

fun apply_op :: "metrics_op \<Rightarrow> metrics \<Rightarrow> (metrics_error, metrics) result" where
  "apply_op (CostOp now c) m = add_cost now c m"
| "apply_op (LatencyOp l rid) m = Inr (add_response_latency l rid m)"
| "apply_op (UsageOp p c rd wr win rid rs) m =
     (case add_token_usage p c rd wr win rid rs m of (m', None) \<Rightarrow> Inr m' | (_, Some e) \<Rightarrow> Inl e)"

fun apply_ops :: "metrics_op list \<Rightarrow> metrics \<Rightarrow> (metrics_error, metrics) result" where
  "apply_ops [] m = Inr m"
| "apply_ops (p # ps) m = bind_res (apply_op p m) (apply_ops ps)"

fun op_after :: "rat \<Rightarrow> metrics_op \<Rightarrow> bool" where
  "op_after t (CostOp now c) \<longleftrightarrow> now > t"
| "op_after t _ \<longleftrightarrow> True"

text \<open>What a sequence of calls adds: \<open>extended m m'\<close> has the new records.\<close>

definition extends :: "metrics \<Rightarrow> metrics \<Rightarrow> bool" where
  "extends m m' \<longleftrightarrow> mt_model_name m' = mt_model_name m \<and> mt_max_budget m' = mt_max_budget m \<and>
     (\<exists>cs ls us. mt_costs m' = mt_costs m @ cs \<and> mt_latencies m' = mt_latencies m @ ls \<and> mt_usages m' = mt_usages m @ us) \<and>
     (\<forall>a. mt_accumulated_usage m = Some a \<longrightarrow>
        (\<exists>a'. mt_accumulated_usage m' = Some a' \<and> tu_model a' = tu_model a \<and> tu_response_id a' = tu_response_id a))"

lemma extends_refl [simp]: "extends m m"
  by (simp add: extends_def)

lemma extends_trans: "extends a b \<Longrightarrow> extends b c \<Longrightarrow> extends a c"
  unfolding extends_def by (elim conjE exE) (force intro!: conjI)

lemma apply_op_facts:
  assumes "totals_agree m" and "apply_op p m = Inr m'"
  shows "totals_agree m'" and "extends m m'"
    and "\<forall>t. op_after t p \<longrightarrow> (\<exists>cs. mt_costs m' = mt_costs m @ cs \<and> list_all (\<lambda>c. co_timestamp c > t) cs)"
proof -
  have "totals_agree m' \<and> extends m m' \<and>
      (\<forall>t. op_after t p \<longrightarrow> (\<exists>cs. mt_costs m' = mt_costs m @ cs \<and> list_all (\<lambda>c. co_timestamp c > t) cs))"
  proof (cases p)
    case (CostOp now c)
    then show ?thesis using assms totals_add_cost by (auto simp: add_cost_def extends_def split: if_splits)
  next
    case (LatencyOp l rid)
    then show ?thesis using assms totals_add_latency by (auto simp: add_response_latency_def extends_def)
  next
    case (UsageOp pr c rd wr win rid rs)
    define u where "u = call_usage (mt_model_name m) pr c rd wr rs win rid"
    have r: "add_token_usage pr c rd wr win rid rs m = (m', None)"
      using assms(2) UsageOp by (auto split: prod.splits option.splits)
    have "usage_valid u"
      using add_token_usage_result(1) [OF assms(1) u_def] r by auto
    then obtain a v where a: "mt_accumulated_usage m = Some a" "add_usage a (u\<lparr>tu_response_id := []\<rparr>) = Inr v"
        "m' = m\<lparr>mt_usages := mt_usages m @ [u], mt_accumulated_usage := Some v\<rparr>"
      using add_token_usage_result(2) [OF assms(1) u_def] r by fastforce
    have "tu_model v = tu_model a \<and> tu_response_id v = tu_response_id a"
      using a(2) by (auto simp: add_usage_def new_usage_def split: if_splits)
    with totals_add_usage [OF assms(1) r] a show ?thesis by (simp add: extends_def)
  qed
  then show "totals_agree m'" "extends m m'"
      "\<forall>t. op_after t p \<longrightarrow> (\<exists>cs. mt_costs m' = mt_costs m @ cs \<and> list_all (\<lambda>c. co_timestamp c > t) cs)"
    by blast+
qed

lemma apply_ops_facts:
  assumes "totals_agree m" and "apply_ops ps m = Inr m'"
  shows "totals_agree m' \<and> extends m m' \<and>
    (\<forall>t. list_all (op_after t) ps \<longrightarrow> (\<exists>cs. mt_costs m' = mt_costs m @ cs \<and> list_all (\<lambda>c. co_timestamp c > t) cs))"
  using assms
proof (induction ps arbitrary: m)
  case (Cons p ps)
  from Cons.prems(2) obtain m1 where m1: "apply_op p m = Inr m1" "apply_ops ps m1 = Inr m'" by (auto simp: res_simps)
  note f = apply_op_facts [OF Cons.prems(1) m1(1)]
  note ih = Cons.IH [OF f(1) m1(2)]
  have "\<exists>cs. mt_costs m' = mt_costs m @ cs \<and> list_all (\<lambda>c. co_timestamp c > t) cs"
    if t: "list_all (op_after t) (p # ps)" for t
  proof -
    obtain cs where "mt_costs m1 = mt_costs m @ cs" "list_all (\<lambda>c. co_timestamp c > t) cs" using f(3) t by auto
    moreover obtain ds where "mt_costs m' = mt_costs m1 @ ds" "list_all (\<lambda>c. co_timestamp c > t) ds" using ih t by auto
    ultimately show ?thesis by (intro exI [of _ "cs @ ds"]) simp
  qed
  with ih f extends_trans show ?case by blast
qed simp

lemma max_split: "foldr max (xs @ ys) (0::int) = max (foldr max xs 0) (foldr max (xs @ ys) 0)"
  by (simp add: foldr_max_append del: foldr_append)

lemma diff_then_merge:
  assumes ok: "totals_agree m" and ops: "apply_ops ps m = Inr m'"
    and clock: "\<forall>c \<in> set (mt_costs m). list_all (op_after (co_timestamp c)) ps"
    and old: "mt_costs m \<noteq> [] \<longrightarrow> (\<forall>c \<in> set (mt_costs m). co_timestamp c \<le> co_timestamp (last (mt_costs m)))"
  shows "\<exists>d a. metrics_diff m' m = Inr d \<and> mt_accumulated_usage m' = Some a \<and>
    merge_metrics m d = (m'\<lparr>mt_accumulated_usage := Some (a\<lparr>tu_per_turn := 0\<rparr>)\<rparr>, None)"
proof -
  note f = apply_ops_facts [OF ok ops]
  then have ok': "totals_agree m'" and ext: "extends m m'" by simp_all
  obtain a where a: "mt_accumulated_usage m = Some a" "usage_valid a" using ok by (auto simp: totals_agree_def split: option.splits)
  obtain a' where a': "mt_accumulated_usage m' = Some a'" "tu_model a' = tu_model a" "tu_response_id a' = tu_response_id a"
    using ext a(1) by (auto simp: extends_def)
  obtain cs ls us where new: "mt_costs m' = mt_costs m @ cs" "mt_latencies m' = mt_latencies m @ ls"
      "mt_usages m' = mt_usages m @ us" and same: "mt_model_name m' = mt_model_name m" "mt_max_budget m' = mt_max_budget m"
    using ext by (auto simp: extends_def)
  have kept: "(if mt_costs m \<noteq> [] then filter (\<lambda>c. co_timestamp c > co_timestamp (last (mt_costs m))) (mt_costs m')
      else mt_costs m') = cs"
  proof (cases "mt_costs m = []")
    case False
    then have "list_all (op_after (co_timestamp (last (mt_costs m)))) ps" using clock by simp
    with f new(1) have "list_all (\<lambda>c. co_timestamp c > co_timestamp (last (mt_costs m))) cs" by auto
    then show ?thesis using old False
      by (simp add: new(1)) (auto simp: filter_empty_conv filter_id_conv list_all_iff not_less)
  qed (simp add: new(1))
  have us: "list_all usage_valid us" using ok' new(3) by (simp add: totals_agree_def)
  have pos: "sum_list (map f us) \<ge> 0" if "\<And>u. usage_valid u \<Longrightarrow> f u \<ge> (0::int)" for f
    using us that by (auto intro!: sum_list_nonneg simp: list_all_iff)
  define du where "du = \<lparr>tu_model = mt_model_name m', tu_prompt = tu_prompt a' - tu_prompt a,
      tu_completion = tu_completion a' - tu_completion a, tu_cache_read = tu_cache_read a' - tu_cache_read a,
      tu_cache_write = tu_cache_write a' - tu_cache_write a, tu_reasoning = tu_reasoning a' - tu_reasoning a,
      tu_context_window = tu_context_window a', tu_per_turn = 0, tu_response_id = []\<rparr>"
  have sums: "tu_prompt a' = tu_prompt a + sum_list (map tu_prompt us)"
      "tu_completion a' = tu_completion a + sum_list (map tu_completion us)"
      "tu_cache_read a' = tu_cache_read a + sum_list (map tu_cache_read us)"
      "tu_cache_write a' = tu_cache_write a + sum_list (map tu_cache_write us)"
      "tu_reasoning a' = tu_reasoning a + sum_list (map tu_reasoning us)"
      "tu_context_window a' = max (tu_context_window a) (tu_context_window a')"
    using ok ok' a a' new(3) max_split [of "map tu_context_window (mt_usages m)" "map tu_context_window us"]
    by (simp_all add: totals_agree_def del: foldr_append)
  have valid: "usage_valid du"
    using ok' a'(1) sums pos [of tu_prompt] pos [of tu_completion] pos [of tu_cache_read] pos [of tu_cache_write] pos [of tu_reasoning]
    by (simp add: du_def usage_valid_def totals_agree_def)
  define d where "d = (new_metrics (mt_model_name m'))
      \<lparr>mt_accumulated_cost := mt_accumulated_cost m' - mt_accumulated_cost m, mt_costs := cs, mt_latencies := ls,
       mt_usages := us, mt_accumulated_usage := Some du\<rparr>"
  have diff: "metrics_diff m' m = Inr d"
    using valid kept new by (simp add: metrics_diff_def Let_def a a' usage_diff_def new_usage_def du_def [symmetric] d_def)
  have "add_usage a du = Inr (a'\<lparr>tu_per_turn := 0\<rparr>)"
    using a(2) valid sums(6) a'(2,3) by (auto simp: add_usage_def new_usage_def usage_valid_def du_def)
  then have "merge_metrics m d = (m'\<lparr>mt_accumulated_usage := Some (a'\<lparr>tu_per_turn := 0\<rparr>)\<rparr>, None)"
    using a new same by (simp add: merge_metrics_def Let_def d_def new_metrics_def)
  with diff a'(1) show ?thesis by blast
qed

section \<open>The registry and the statistics\<close>

text \<open>
  Models and metrics are objects that several owners refer to: a model is its place in \<open>lw_llms\<close>, a metrics
  object its place in \<open>lw_metrics\<close>, which stands for its \<open>id\<close>. \<open>lw_usage\<close> and \<open>lw_restored\<close> are the
  statistics of the conversation, the subscriber of the registry.
\<close>

record llm_object =
  ml_usage_id :: string
  ml_model :: string
  ml_metrics :: "nat option"

record llm_world =
  lw_llms :: "llm_object list"
  lw_metrics :: "metrics list"
  lw_registered :: "(string \<times> nat) list"
  lw_metrics_ids :: "nat list"
  lw_subscribed :: bool
  lw_usage :: "(string \<times> nat) list"
  lw_restored :: "string list"

definition set_metrics :: "nat \<Rightarrow> nat option \<Rightarrow> llm_world \<Rightarrow> llm_world" where
  "set_metrics i r w = w\<lparr>lw_llms := (lw_llms w)[i := (lw_llms w ! i)\<lparr>ml_metrics := r\<rparr>]\<rparr>"

text \<open>The property \<open>metrics\<close> makes the object on first use.\<close>

definition llm_metrics :: "nat \<Rightarrow> llm_world \<Rightarrow> llm_world \<times> nat" where
  "llm_metrics i w =
     (case ml_metrics (lw_llms w ! i) of
        Some r \<Rightarrow> (w, r)
      | None \<Rightarrow>
          (let r = length (lw_metrics w)
           in (set_metrics i (Some r) (w\<lparr>lw_metrics := lw_metrics w @ [new_metrics (ml_model (lw_llms w ! i))]\<rparr>), r)))"

definition restore_metrics :: "nat \<Rightarrow> nat \<Rightarrow> llm_world \<Rightarrow> llm_world" where
  "restore_metrics i r w = set_metrics i (Some r) w"

definition reset_metrics :: "nat \<Rightarrow> llm_world \<Rightarrow> llm_world" where
  "reset_metrics i w = set_metrics i None w"

definition ensure_independent_metrics :: "nat \<Rightarrow> llm_world \<Rightarrow> llm_world" where
  "ensure_independent_metrics i w =
     (let (w1, r) = llm_metrics i w
      in if r \<in> set (lw_metrics_ids w1)
         then (let (w2, r2) = llm_metrics i (reset_metrics i w1) in w2\<lparr>lw_metrics_ids := lw_metrics_ids w2 @ [r2]\<rparr>)
         else w1\<lparr>lw_metrics_ids := lw_metrics_ids w1 @ [r]\<rparr>)"

definition register_llm :: "nat \<Rightarrow> llm_world \<Rightarrow> llm_world" where
  "register_llm i w =
     (let usage_id = ml_usage_id (lw_llms w ! i);
          w1 = (case map_of (lw_usage w) usage_id of
                  Some r \<Rightarrow>
                    if usage_id \<notin> set (lw_restored w)
                    then (restore_metrics i r w)\<lparr>lw_restored := lw_restored w @ [usage_id]\<rparr> else w
                | None \<Rightarrow> w)
      in if map_of (lw_usage w1) usage_id = None
         then (let (w2, r) = llm_metrics i w1 in w2\<lparr>lw_usage := lw_usage w2 @ [(usage_id, r)]\<rparr>)
         else w1)"

definition registry_add :: "nat \<Rightarrow> llm_world \<Rightarrow> (metrics_error, llm_world) result" where
  "registry_add i w =
     (let usage_id = ml_usage_id (lw_llms w ! i)
      in if map_of (lw_registered w) usage_id \<noteq> None
         then Inl (MetricsValueError (''Usage ID '' @ quoted usage_id @ '' already exists in registry. '' @
           ''Use a different usage_id on the LLM or call get() to retrieve the existing LLM.''))
         else
           let w1 = ensure_independent_metrics i w;
               w2 = w1\<lparr>lw_registered := lw_registered w1 @ [(usage_id, i)]\<rparr>
           in Inr (if lw_subscribed w2 then register_llm i w2 else w2))"

definition registry_get :: "string \<Rightarrow> llm_world \<Rightarrow> nat option" where
  "registry_get usage_id w = map_of (lw_registered w) usage_id"

definition list_usage_ids :: "llm_world \<Rightarrow> string list" where
  "list_usage_ids w = map fst (lw_registered w)"

definition get_metrics_for_usage :: "string \<Rightarrow> llm_world \<Rightarrow> (metrics_error, metrics) result" where
  "get_metrics_for_usage usage_id w =
     (case map_of (lw_usage w) usage_id of
        None \<Rightarrow> Inl (MetricsValueError (''LLM usage does not exist '' @ usage_id))
      | Some r \<Rightarrow> Inr (lw_metrics w ! r))"

fun merge_all :: "metrics list \<Rightarrow> metrics \<Rightarrow> (metrics_error, metrics) result" where
  "merge_all [] t = Inr t"
| "merge_all (m # ms) t = (case merge_metrics t m of (t', None) \<Rightarrow> merge_all ms t' | (_, Some e) \<Rightarrow> Inl e)"

definition get_combined_metrics :: "llm_world \<Rightarrow> (metrics_error, metrics) result" where
  "get_combined_metrics w = merge_all (map (\<lambda>(u, r). lw_metrics w ! r) (lw_usage w)) (new_metrics ''default'')"

section \<open>Metrics kept apart\<close>

lemma merge_all_totals:
  assumes "list_all totals_agree ms" and "totals_agree t"
  shows "\<exists>t'. merge_all ms t = Inr t' \<and> totals_agree t' \<and>
    mt_accumulated_cost t' = mt_accumulated_cost t + sum_list (map mt_accumulated_cost ms) \<and>
    mt_costs t' = mt_costs t @ concat (map mt_costs ms)"
  using assms
proof (induction ms arbitrary: t)
  case (Cons m ms)
  have m: "totals_agree m" "list_all totals_agree ms" using Cons.prems by simp_all
  obtain t1 where t1: "merge_metrics t m = (t1, None)" "totals_agree t1"
      "mt_accumulated_cost t1 = mt_accumulated_cost t + mt_accumulated_cost m" "mt_costs t1 = mt_costs t @ mt_costs m"
    using merge_result [OF Cons.prems(2) m(1)] totals_merge [OF Cons.prems(2) m(1)] by fastforce
  from Cons.IH [OF m(2) t1(2)] t1 show ?case by auto
qed simp

text \<open>
  Each registered model has metrics of its own, which the registry has seen and the statistics show under its usage.
\<close>

definition kept_apart :: "llm_world \<Rightarrow> bool" where
  "kept_apart w \<longleftrightarrow>
     distinct (map (\<lambda>(u, i). ml_metrics (lw_llms w ! i)) (lw_registered w)) \<and>
     (\<forall>(u, i) \<in> set (lw_registered w). i < length (lw_llms w) \<and> ml_usage_id (lw_llms w ! i) = u \<and>
        (\<exists>r. ml_metrics (lw_llms w ! i) = Some r \<and> r \<in> set (lw_metrics_ids w) \<and> r < length (lw_metrics w) \<and>
          map_of (lw_usage w) u = Some r)) \<and>
     fst ` set (lw_usage w) \<subseteq> fst ` set (lw_registered w) \<and> lw_subscribed w \<and>
     (\<forall>i < length (lw_llms w). \<forall>r. ml_metrics (lw_llms w ! i) = Some r \<longrightarrow> r < length (lw_metrics w)) \<and>
     (\<forall>r \<in> set (lw_metrics_ids w). r < length (lw_metrics w))"

lemma ensure_independent:
  assumes "i < length (lw_llms w)"
    and "\<forall>i < length (lw_llms w). \<forall>r. ml_metrics (lw_llms w ! i) = Some r \<longrightarrow> r < length (lw_metrics w)"
    and "\<forall>r \<in> set (lw_metrics_ids w). r < length (lw_metrics w)"
  shows "\<exists>r ms. ensure_independent_metrics i w = w\<lparr>lw_llms := (lw_llms w)[i := (lw_llms w ! i)\<lparr>ml_metrics := Some r\<rparr>],
       lw_metrics := lw_metrics w @ ms, lw_metrics_ids := lw_metrics_ids w @ [r]\<rparr> \<and>
     r \<notin> set (lw_metrics_ids w) \<and> r < length (lw_metrics w) + length ms"
proof (cases "ml_metrics (lw_llms w ! i)")
  case None
  define r where "r = length (lw_metrics w)"
  have "r \<notin> set (lw_metrics_ids w)" using assms(3) by (auto simp: r_def)
  then show ?thesis using None
    by (intro exI [of _ r] exI [of _ "[new_metrics (ml_model (lw_llms w ! i))]"])
      (simp add: ensure_independent_metrics_def llm_metrics_def Let_def set_metrics_def r_def)
next
  case (Some r)
  show ?thesis
  proof (cases "r \<in> set (lw_metrics_ids w)")
    case False
    have same: "(lw_llms w ! i)\<lparr>ml_metrics := Some r\<rparr> = lw_llms w ! i"
      using Some by (cases "lw_llms w ! i") simp
    have "(lw_llms w)[i := (lw_llms w ! i)\<lparr>ml_metrics := Some r\<rparr>] = lw_llms w"
      using same by simp
    then show ?thesis using Some False assms(1,2)
      by (intro exI [of _ r] exI [of _ "[]"]) (simp add: ensure_independent_metrics_def llm_metrics_def Let_def)
  next
    case True
    define q where "q = length (lw_metrics w)"
    have "q \<notin> set (lw_metrics_ids w)" using assms(3) by (auto simp: q_def)
    then show ?thesis using Some True assms(1)
      by (intro exI [of _ q] exI [of _ "[new_metrics (ml_model (lw_llms w ! i))]"])
        (simp add: ensure_independent_metrics_def llm_metrics_def Let_def set_metrics_def reset_metrics_def q_def)
  qed
qed

lemma registry_add_apart:
  assumes apart: "kept_apart w" and i: "i < length (lw_llms w)" "i \<notin> snd ` set (lw_registered w)"
    and add: "registry_add i w = Inr w'"
  shows "kept_apart w'"
proof -
  let ?u = "ml_usage_id (lw_llms w ! i)"
  have inv: "\<forall>i < length (lw_llms w). \<forall>r. ml_metrics (lw_llms w ! i) = Some r \<longrightarrow> r < length (lw_metrics w)"
      "\<forall>r \<in> set (lw_metrics_ids w). r < length (lw_metrics w)"
      "fst ` set (lw_usage w) \<subseteq> fst ` set (lw_registered w)" "lw_subscribed w"
    using apart by (simp_all add: kept_apart_def)
  obtain r ms where e: "ensure_independent_metrics i w =
      w\<lparr>lw_llms := (lw_llms w)[i := (lw_llms w ! i)\<lparr>ml_metrics := Some r\<rparr>],
        lw_metrics := lw_metrics w @ ms, lw_metrics_ids := lw_metrics_ids w @ [r]\<rparr>"
      "r \<notin> set (lw_metrics_ids w)" "r < length (lw_metrics w) + length ms"
    using ensure_independent [OF i(1) inv(1,2)] by blast
  have new: "map_of (lw_registered w) ?u = None" using add by (auto simp: registry_add_def Let_def split: if_splits)
  have nu: "?u \<notin> fst ` set (lw_usage w)" using inv(3) new by (auto simp: map_of_eq_None_iff)
  then have unused: "map_of (lw_usage w) ?u = None" by (simp add: map_of_eq_None_iff)
  have w': "w' = w\<lparr>lw_llms := (lw_llms w)[i := (lw_llms w ! i)\<lparr>ml_metrics := Some r\<rparr>],
      lw_metrics := lw_metrics w @ ms, lw_metrics_ids := lw_metrics_ids w @ [r],
      lw_registered := lw_registered w @ [(?u, i)], lw_usage := lw_usage w @ [(?u, r)]\<rparr>"
    using add new i(1) unused inv(4)
    by (auto simp: registry_add_def Let_def e(1) register_llm_def llm_metrics_def)
  have old: "ml_metrics ((lw_llms w)[i := (lw_llms w ! i)\<lparr>ml_metrics := Some r\<rparr>] ! j) = ml_metrics (lw_llms w ! j) \<and>
      ml_usage_id ((lw_llms w)[i := (lw_llms w ! i)\<lparr>ml_metrics := Some r\<rparr>] ! j) = ml_usage_id (lw_llms w ! j)"
    if "(u, j) \<in> set (lw_registered w)" for u j
  proof -
    have "j \<noteq> i" using that i(2) by force
    then show ?thesis by simp
  qed
  have refs: "map (\<lambda>(u, j). ml_metrics ((lw_llms w)[i := (lw_llms w ! i)\<lparr>ml_metrics := Some r\<rparr>] ! j)) (lw_registered w) =
      map (\<lambda>(u, j). ml_metrics (lw_llms w ! j)) (lw_registered w)"
    using old by (auto intro!: map_cong)
  have fresh: "Some r \<notin> set (map (\<lambda>(u, j). ml_metrics (lw_llms w ! j)) (lw_registered w))"
    using apart e(2) by (fastforce simp: kept_apart_def)
  have "distinct (map (\<lambda>(u, i). ml_metrics (lw_llms w' ! i)) (lw_registered w'))"
    using apart fresh i(1) by (simp add: w' kept_apart_def refs)
  moreover have "\<forall>(u, j) \<in> set (lw_registered w'). j < length (lw_llms w') \<and> ml_usage_id (lw_llms w' ! j) = u \<and>
      (\<exists>r. ml_metrics (lw_llms w' ! j) = Some r \<and> r \<in> set (lw_metrics_ids w') \<and> r < length (lw_metrics w') \<and>
        map_of (lw_usage w') u = Some r)"
  proof (clarsimp simp only: prod.case)
    fix u j
    assume "(u, j) \<in> set (lw_registered w')"
    then consider "u = ?u" "j = i" | "(u, j) \<in> set (lw_registered w)" by (auto simp: w')
    then show "j < length (lw_llms w') \<and> ml_usage_id (lw_llms w' ! j) = u \<and>
        (\<exists>r. ml_metrics (lw_llms w' ! j) = Some r \<and> r \<in> set (lw_metrics_ids w') \<and> r < length (lw_metrics w') \<and>
          map_of (lw_usage w') u = Some r)"
    proof cases
      case 1
      then show ?thesis using i(1) e(3) unused by (simp add: w' map_add_def)
    next
      case 2
      then obtain q where "j < length (lw_llms w)" "ml_usage_id (lw_llms w ! j) = u" "ml_metrics (lw_llms w ! j) = Some q"
          "q \<in> set (lw_metrics_ids w)" "q < length (lw_metrics w)" "map_of (lw_usage w) u = Some q"
        using apart by (fastforce simp: kept_apart_def)
      then show ?thesis using old [OF 2] by (simp add: w' map_add_def)
    qed
  qed
  moreover have "fst ` set (lw_usage w') \<subseteq> fst ` set (lw_registered w')" "lw_subscribed w'"
    using inv by (auto simp: w')
  moreover have "\<forall>j < length (lw_llms w'). \<forall>q. ml_metrics (lw_llms w' ! j) = Some q \<longrightarrow> q < length (lw_metrics w')"
  proof (intro allI impI)
    fix j q
    assume "j < length (lw_llms w')" and "ml_metrics (lw_llms w' ! j) = Some q"
    then show "q < length (lw_metrics w')"
      using inv(1) e(3) i(1) by (cases "j = i") (auto simp: w' trans_less_add1)
  qed
  moreover have "\<forall>q \<in> set (lw_metrics_ids w'). q < length (lw_metrics w')" using inv(2) e(3) by (fastforce simp: w')
  ultimately show ?thesis by (simp add: kept_apart_def)
qed

text \<open>
  A model whose metrics were restored, and a copy of it made afterwards: the registry has seen the metrics the model had
  before, so the sharing is not noticed.
\<close>

lemma restored_copy_shares:
  assumes "i < length (lw_llms w)" and "ml_metrics (lw_llms w ! i) = Some r" and "r \<notin> set (lw_metrics_ids w)"
    and "map_of (lw_registered w) (ml_usage_id (lw_llms w ! i)) = None"
    and "map_of (lw_usage w) (ml_usage_id (lw_llms w ! i)) = None" and "lw_subscribed w"
  shows "\<exists>w'. registry_add i w = Inr w' \<and> lw_usage w' = lw_usage w @ [(ml_usage_id (lw_llms w ! i), r)] \<and>
    lw_llms w' = lw_llms w"
  using assms by (simp add: registry_add_def ensure_independent_metrics_def llm_metrics_def Let_def register_llm_def)

text \<open>
  A deep copy of a model, as \<open>ask_agent\<close> makes one: its metrics are an object of its own that holds what the
  model has cost so far.
\<close>

definition copy_llm :: "nat \<Rightarrow> string \<Rightarrow> llm_world \<Rightarrow> llm_world" where
  "copy_llm i usage_id w = w\<lparr>lw_llms := lw_llms w @ [(lw_llms w ! i)\<lparr>ml_usage_id := usage_id\<rparr>]\<rparr>"

definition deep_copy_llm :: "nat \<Rightarrow> string \<Rightarrow> llm_world \<Rightarrow> llm_world" where
  "deep_copy_llm i usage_id w =
     (case ml_metrics (lw_llms w ! i) of
        None \<Rightarrow> copy_llm i usage_id w
      | Some r \<Rightarrow>
          w\<lparr>lw_llms := lw_llms w @ [(lw_llms w ! i)\<lparr>ml_usage_id := usage_id, ml_metrics := Some (length (lw_metrics w))\<rparr>],
            lw_metrics := lw_metrics w @ [lw_metrics w ! r]\<rparr>)"

definition combined_cost :: "llm_world \<Rightarrow> rat" where
  "combined_cost w = (case get_combined_metrics w of Inr t \<Rightarrow> mt_accumulated_cost t | Inl _ \<Rightarrow> 0)"

lemma combined_cost_sum:
  assumes "\<forall>(u, r) \<in> set (lw_usage w). totals_agree (lw_metrics w ! r)"
  shows "combined_cost w = sum_list (map (\<lambda>x. mt_accumulated_cost (lw_metrics w ! snd x)) (lw_usage w))"
proof -
  have "list_all totals_agree (map (\<lambda>(u, r). lw_metrics w ! r) (lw_usage w))"
    using assms by (auto simp: list_all_iff)
  then obtain t where "get_combined_metrics w = Inr t"
      "mt_accumulated_cost t = sum_list (map mt_accumulated_cost (map (\<lambda>(u, r). lw_metrics w ! r) (lw_usage w)))"
    using merge_all_totals [of _ "new_metrics ''default''"] totals_new
    by (fastforce simp: get_combined_metrics_def new_metrics_def)
  then show ?thesis by (simp add: combined_cost_def comp_def split_beta)
qed

lemma deep_copy_doubles:
  assumes apart: "kept_apart w" and i: "(u, i) \<in> set (lw_registered w)"
    and ok: "list_all totals_agree (lw_metrics w)" and usages: "\<forall>(u, r) \<in> set (lw_usage w). r < length (lw_metrics w)"
    and new: "usage_id \<notin> fst ` set (lw_registered w)" and r: "ml_metrics (lw_llms w ! i) = Some r"
  shows "\<exists>w'. registry_add (length (lw_llms w)) (deep_copy_llm i usage_id w) = Inr w' \<and>
    combined_cost w' = combined_cost w + mt_accumulated_cost (lw_metrics w ! r)"
proof -
  have inv: "fst ` set (lw_usage w) \<subseteq> fst ` set (lw_registered w)" "lw_subscribed w"
      "\<forall>r \<in> set (lw_metrics_ids w). r < length (lw_metrics w)"
    using apart by (simp_all add: kept_apart_def)
  have "\<exists>q. ml_metrics (lw_llms w ! i) = Some q \<and> q < length (lw_metrics w)"
    using apart i unfolding kept_apart_def by blast
  with r have rl: "r < length (lw_metrics w)" by simp
  have "length (lw_metrics w) \<notin> set (lw_metrics_ids w)" using inv(3) by auto
  moreover have "map_of (lw_registered w) usage_id = None" "map_of (lw_usage w) usage_id = None"
    using new inv(1) by (auto simp: map_of_eq_None_iff)
  ultimately obtain w' where w': "registry_add (length (lw_llms w)) (deep_copy_llm i usage_id w) = Inr w'"
      "lw_usage w' = lw_usage w @ [(usage_id, length (lw_metrics w))]" "lw_metrics w' = lw_metrics w @ [lw_metrics w ! r]"
    using inv(2) by (simp add: registry_add_def deep_copy_llm_def r ensure_independent_metrics_def llm_metrics_def Let_def
        register_llm_def)
  have all: "\<forall>(u, q) \<in> set (lw_usage w). totals_agree (lw_metrics w ! q)"
    using ok usages by (auto simp: list_all_length)
  have same: "map (\<lambda>x. mt_accumulated_cost (lw_metrics w' ! snd x)) (lw_usage w) =
      map (\<lambda>x. mt_accumulated_cost (lw_metrics w ! snd x)) (lw_usage w)"
    using usages by (auto simp: w'(3) nth_append)
  have "\<forall>(u, q) \<in> set (lw_usage w'). totals_agree (lw_metrics w' ! q)"
    using all usages ok rl by (auto simp: w'(2,3) nth_append list_all_length)
  from combined_cost_sum [OF this] combined_cost_sum [OF all]
  have "combined_cost w' = combined_cost w + mt_accumulated_cost (lw_metrics w' ! length (lw_metrics w))"
    by (simp only: w'(2) map_append sum_list_append same list.map snd_conv sum_list.Cons sum_list.Nil add_0_right)
  then show ?thesis using w'(1,3) by simp
qed

section \<open>Properties\<close>

text \<open>
  The totals of a model's metrics are those of the records of its calls, through any sequence of
  calls and merges.
\<close>

theorem totals_are_kept:
  assumes "totals_agree m" and "totals_agree other" and "apply_ops ps m = Inr m'"
  shows "totals_agree m' \<and> totals_agree (fst (merge_metrics m' other)) \<and> snd (merge_metrics m' other) = None"
  using apply_ops_facts [OF assms(1,3)] totals_merge [OF _ assms(2), of m'] by (cases "merge_metrics m' other") auto

text \<open>
  The difference of the metrics after and before some calls, merged into the metrics before, gives
  the metrics after, up to the tokens of the last turn, which the difference sets to zero. The
  clock must have advanced since the recorded costs, whose times do not decrease.
\<close>

theorem merging_the_difference_restores:
  assumes "totals_agree m" and "apply_ops ps m = Inr m'"
    and "\<forall>c \<in> set (mt_costs m). list_all (op_after (co_timestamp c)) ps"
    and "mt_costs m \<noteq> [] \<longrightarrow> (\<forall>c \<in> set (mt_costs m). co_timestamp c \<le> co_timestamp (last (mt_costs m)))"
  shows "\<exists>d a. metrics_diff m' m = Inr d \<and> mt_accumulated_usage m' = Some a \<and>
    merge_metrics m d = (m'\<lparr>mt_accumulated_usage := Some (a\<lparr>tu_per_turn := 0\<rparr>)\<rparr>, None)"
  by (rule diff_then_merge [OF assms])

text \<open>
  In a new conversation every registered model has metrics of its own, which its usage shows:
  adding a model, a copy of another one included, keeps this.
\<close>

theorem registered_models_do_not_share:
  assumes "kept_apart w" and "i < length (lw_llms w)" and "i \<notin> snd ` set (lw_registered w)"
    and "registry_add i w = Inr w'"
  shows "kept_apart w'"
  by (rule registry_add_apart [OF assms])

text \<open>
  In a resumed conversation they can share them: the statistics give the agent's model the metrics of the last
  run after the registry has noted the ones it came with, so that a copy of the model, made for another
  usage, is registered with the same metrics, and the combined cost counts them twice.
\<close>

definition resumed_world :: llm_world where
  "resumed_world =
     \<lparr>lw_llms = [\<lparr>ml_usage_id = ''agent'', ml_model = ''m'', ml_metrics = None\<rparr>],
      lw_metrics = [(new_metrics ''m'')\<lparr>mt_accumulated_cost := 1, mt_costs := [\<lparr>co_model = ''m'', co_cost = 1, co_timestamp = 0\<rparr>]\<rparr>],
      lw_registered = [], lw_metrics_ids = [], lw_subscribed = True, lw_usage = [(''agent'', 0)], lw_restored = []\<rparr>"

theorem restored_metrics_are_shared:
  "\<exists>w1 w2 t. registry_add 0 resumed_world = Inr w1 \<and>
     registry_add 1 (copy_llm 0 ''condenser'' w1) = Inr w2 \<and>
     lw_usage w2 = [(''agent'', 0), (''condenser'', 0)] \<and>
     get_combined_metrics w2 = Inr t \<and> mt_accumulated_cost (lw_metrics w2 ! 0) = 1 \<and> mt_accumulated_cost t = 2"
proof -
  define w1 where "w1 = resumed_world
      \<lparr>lw_llms := [\<lparr>ml_usage_id = ''agent'', ml_model = ''m'', ml_metrics = Some 0\<rparr>],
       lw_metrics := lw_metrics resumed_world @ [new_metrics ''m''], lw_registered := [(''agent'', 0)],
       lw_metrics_ids := [1], lw_restored := [''agent'']\<rparr>"
  have 1: "registry_add 0 resumed_world = Inr w1"
    by (simp add: registry_add_def ensure_independent_metrics_def llm_metrics_def set_metrics_def register_llm_def
        restore_metrics_def resumed_world_def w1_def Let_def)
  obtain w2 where w2: "registry_add 1 (copy_llm 0 ''condenser'' w1) = Inr w2"
      "lw_usage w2 = [(''agent'', 0), (''condenser'', 0)]" "lw_metrics w2 = lw_metrics w1"
    by (simp add: registry_add_def ensure_independent_metrics_def llm_metrics_def set_metrics_def register_llm_def
        copy_llm_def resumed_world_def w1_def Let_def)
  have ok: "totals_agree (lw_metrics w1 ! 0)"
    by (simp add: w1_def resumed_world_def totals_agree_def new_metrics_def zero_usage_def usage_valid_def)
  have c: "mt_accumulated_cost (lw_metrics w1 ! 0) = 1" by (simp add: w1_def resumed_world_def)
  have z: "mt_accumulated_cost (new_metrics ''default'') = 0" by (simp add: new_metrics_def)
  obtain t where "merge_all [lw_metrics w1 ! 0, lw_metrics w1 ! 0] (new_metrics ''default'') = Inr t" "mt_accumulated_cost t = 2"
    using merge_all_totals [of "[lw_metrics w1 ! 0, lw_metrics w1 ! 0]" "new_metrics ''default''"] ok c z
    by (auto simp del: merge_all.simps)
  then have "get_combined_metrics w2 = Inr t" "mt_accumulated_cost t = 2"
    by (simp_all add: get_combined_metrics_def w2 del: merge_all.simps)
  with 1 w2 c show ?thesis by auto
qed

text \<open>
  Asking the agent a question counts its cost twice: the copy of the agent's model that answers has metrics of
  its own, but they start with what the agent has cost, so that registering it raises the combined cost
  of the conversation by that amount although no call was made.
\<close>

theorem asking_counts_the_cost_twice:
  assumes "kept_apart w" and "(u, i) \<in> set (lw_registered w)"
    and "list_all totals_agree (lw_metrics w)" and "\<forall>(u, r) \<in> set (lw_usage w). r < length (lw_metrics w)"
    and "usage_id \<notin> fst ` set (lw_registered w)" and "ml_metrics (lw_llms w ! i) = Some r"
  shows "\<exists>w'. registry_add (length (lw_llms w)) (deep_copy_llm i usage_id w) = Inr w' \<and>
    combined_cost w' = combined_cost w + mt_accumulated_cost (lw_metrics w ! r)"
  by (rule deep_copy_doubles [OF assms])

section \<open>Witnesses\<close>

definition demo_metrics :: metrics where
  "demo_metrics = (new_metrics ''m'')\<lparr>mt_accumulated_cost := 2,
     mt_costs := [\<lparr>co_model = ''m'', co_cost = 2, co_timestamp = 5\<rparr>]\<rparr>"

definition demo_calls :: "metrics_op list" where
  "demo_calls = [LatencyOp 1 ''r'', CostOp 7 3, UsageOp 10 4 0 0 100 ''r'' 2]"

lemma demo_metrics_ok: "totals_agree demo_metrics"
  by (simp add: demo_metrics_def totals_agree_def new_metrics_def zero_usage_def usage_valid_def)

lemma demo_calls_run: "\<exists>m'. apply_ops demo_calls demo_metrics = Inr m' \<and> mt_accumulated_cost m' = 5"
  by (simp add: demo_calls_def demo_metrics_def add_response_latency_def add_cost_def add_token_usage_def call_usage_def
      new_usage_def usage_valid_def add_usage_def new_metrics_def zero_usage_def Let_def)

lemma totals_are_kept_witness:
  "\<exists>m'. apply_ops demo_calls demo_metrics = Inr m' \<and> totals_agree (fst (merge_metrics m' demo_metrics))"
proof -
  obtain m' where m': "apply_ops demo_calls demo_metrics = Inr m'" using demo_calls_run by blast
  from totals_are_kept [OF demo_metrics_ok demo_metrics_ok m'] m' show ?thesis by blast
qed

lemma merging_the_difference_restores_witness:
  "\<exists>m' d a. apply_ops demo_calls demo_metrics = Inr m' \<and> metrics_diff m' demo_metrics = Inr d \<and>
     merge_metrics demo_metrics d = (m'\<lparr>mt_accumulated_usage := Some (a\<lparr>tu_per_turn := 0\<rparr>)\<rparr>, None)"
proof -
  obtain m' where m': "apply_ops demo_calls demo_metrics = Inr m'" using demo_calls_run by blast
  have "\<forall>c \<in> set (mt_costs demo_metrics). list_all (op_after (co_timestamp c)) demo_calls"
    by (simp add: demo_metrics_def demo_calls_def)
  from merging_the_difference_restores [OF demo_metrics_ok m' this] m' show ?thesis by (auto simp: demo_metrics_def)
qed

definition fresh_world :: llm_world where
  "fresh_world =
     \<lparr>lw_llms = [\<lparr>ml_usage_id = ''agent'', ml_model = ''m'', ml_metrics = Some 0\<rparr>,
                 \<lparr>ml_usage_id = ''condenser'', ml_model = ''m'', ml_metrics = Some 0\<rparr>],
      lw_metrics = [new_metrics ''m''], lw_registered = [(''agent'', 0)], lw_metrics_ids = [0], lw_subscribed = True,
      lw_usage = [(''agent'', 0)], lw_restored = []\<rparr>"

lemma registered_models_do_not_share_witness:
  "\<exists>w'. registry_add 1 fresh_world = Inr w' \<and> kept_apart w'"
proof -
  have apart: "kept_apart fresh_world" by (simp add: kept_apart_def fresh_world_def less_Suc_eq)
  obtain w' where w': "registry_add 1 fresh_world = Inr w'"
    by (simp add: registry_add_def fresh_world_def Let_def)
  have "1 < length (lw_llms fresh_world)" "1 \<notin> snd ` set (lw_registered fresh_world)" by (simp_all add: fresh_world_def)
  from registered_models_do_not_share [OF apart this w'] w' show ?thesis by blast
qed

lemma asking_counts_the_cost_twice_witness:
  "\<exists>w'. registry_add 2 (deep_copy_llm 0 ''ask-agent-llm'' (fresh_world\<lparr>lw_metrics := [demo_metrics]\<rparr>)) = Inr w' \<and>
    combined_cost w' = combined_cost (fresh_world\<lparr>lw_metrics := [demo_metrics]\<rparr>) + 2"
proof -
  let ?w = "fresh_world\<lparr>lw_metrics := [demo_metrics]\<rparr>"
  have apart: "kept_apart ?w" by (simp add: kept_apart_def fresh_world_def less_Suc_eq)
  have c: "(''agent'', 0) \<in> set (lw_registered ?w)" "list_all totals_agree (lw_metrics ?w)"
      "\<forall>(u, r) \<in> set (lw_usage ?w). r < length (lw_metrics ?w)"
      "''ask-agent-llm'' \<notin> fst ` set (lw_registered ?w)" "ml_metrics (lw_llms ?w ! 0) = Some 0"
      "length (lw_llms ?w) = 2" "mt_accumulated_cost (lw_metrics ?w ! 0) = 2"
    using demo_metrics_ok by (simp_all add: fresh_world_def demo_metrics_def)
  from asking_counts_the_cost_twice [OF apart c(1-5)] c(6,7) show ?thesis by simp
qed

end
