(* ===== verification/Llm_Call.thy ===== *)
theory Llm_Call
  imports Llm_Metrics Messages
begin

text \<open>
  A call of the model: the classification of the provider's exceptions and their mapping to the types the
  agent handles (\<open>sdk/llm/exceptions/\<close>), the fallback to other models (\<open>sdk/llm/fallback_strategy.py\<close>),
  the adjustment between retries (\<open>sdk/llm/utils/retry_mixin.py\<close>) and the flow of \<open>completion\<close> and \<open>acompletion\<close>
  (\<open>sdk/llm/llm.py\<close>). The provider, the retry loop of the tenacity library and the profiles on disk
  are parameters. The lemmas show which model answers and which exceptions the caller sees.
\<close>

section \<open>Exceptions\<close>

datatype exn_class =
    APIConnectionErrorC | RateLimitErrorC | ServiceUnavailableErrorC | LiteLLMTimeoutC | InternalServerErrorC
  | BadRequestErrorC | ContextWindowExceededErrorC | OpenAIErrorC | AuthenticationErrorC | PermissionDeniedErrorC
  | LLMNoResponseErrorC | LLMContextWindowExceedErrorC | LLMMalformedConversationHistoryErrorC
  | LLMAuthenticationErrorC | LLMRateLimitErrorC | LLMTimeoutErrorC | LLMServiceUnavailableErrorC | LLMBadRequestErrorC
  | FileNotFoundErrorC | ValueErrorC | OtherExceptionC string

text \<open>An exception: the classes it is an instance of, with its own class first, and its text.\<close>

record exn =
  ex_classes :: "exn_class list"
  ex_text :: string

definition isinstance :: "exn \<Rightarrow> exn_class list \<Rightarrow> bool" where
  "isinstance e cs \<longleftrightarrow> list_ex (\<lambda>c. c \<in> set (ex_classes e)) cs"

definition new_exn :: "exn_class \<Rightarrow> string \<Rightarrow> exn" where
  "new_exn c msg = \<lparr>ex_classes = [c], ex_text = msg\<rparr>"

definition LONG_PROMPT_PATTERNS :: "string list" where
  "LONG_PROMPT_PATTERNS =
     [''contextwindowexceedederror'', ''prompt is too long'', ''input length and `max_tokens` exceed context limit'',
      ''please reduce the length of'', ''the request exceeds the available context size'', ''context length exceeded'',
      ''input exceeds the context window'', ''context window exceeds limit'']"

definition MALFORMED_HISTORY_PATTERNS :: "string list" where
  "MALFORMED_HISTORY_PATTERNS =
     [''tool_use ids were found without `tool_result` blocks immediately after'',
      ''each `tool_use` block must have a corresponding `tool_result` block in the next message'',
      ''each tool_use must have a single result'', ''found multiple `tool_result` blocks with id:'',
      ''unexpected `tool_use_id` found in `tool_result` blocks'',
      ''each `tool_result` block must have a corresponding `tool_use` block in the previous message'']"

definition AUTH_PATTERNS :: "string list" where
  "AUTH_PATTERNS =
     [''invalid api key'', ''unauthorized'', ''missing api key'', ''invalid authentication'', ''access denied'']"

definition mentions :: "string list \<Rightarrow> exn \<Rightarrow> bool" where
  "mentions patterns e \<longleftrightarrow> list_ex (\<lambda>p. is_infix p (py_lower (ex_text e))) patterns"

definition is_context_window_exceeded :: "exn \<Rightarrow> bool" where
  "is_context_window_exceeded e =
     (if isinstance e [ContextWindowExceededErrorC, LLMContextWindowExceedErrorC] then True
      else if \<not> isinstance e [BadRequestErrorC, OpenAIErrorC, APIConnectionErrorC] then False
      else mentions LONG_PROMPT_PATTERNS e)"

definition looks_like_malformed_conversation_history_error :: "exn \<Rightarrow> bool" where
  "looks_like_malformed_conversation_history_error e =
     (if isinstance e [LLMMalformedConversationHistoryErrorC] then True
      else if \<not> isinstance e [BadRequestErrorC, OpenAIErrorC, APIConnectionErrorC] then False
      else mentions MALFORMED_HISTORY_PATTERNS e)"

definition looks_like_auth_error :: "exn \<Rightarrow> bool" where
  "looks_like_auth_error e =
     (if isinstance e [AuthenticationErrorC, PermissionDeniedErrorC] then True
      else if \<not> isinstance e [BadRequestErrorC, OpenAIErrorC] then False
      else if mentions AUTH_PATTERNS e then True
      else mentions [''status 401'', ''status 403''] e)"

definition map_provider_exception :: "exn \<Rightarrow> exn" where
  "map_provider_exception e =
     (if is_context_window_exceeded e then new_exn LLMContextWindowExceedErrorC (ex_text e)
      else if looks_like_malformed_conversation_history_error e
      then new_exn LLMMalformedConversationHistoryErrorC (ex_text e)
      else if looks_like_auth_error e then new_exn LLMAuthenticationErrorC (ex_text e)
      else if isinstance e [RateLimitErrorC] then new_exn LLMRateLimitErrorC (ex_text e)
      else if isinstance e [LiteLLMTimeoutC] then new_exn LLMTimeoutErrorC (ex_text e)
      else if isinstance e [APIConnectionErrorC, ServiceUnavailableErrorC, InternalServerErrorC]
      then new_exn LLMServiceUnavailableErrorC (ex_text e)
      else if isinstance e [BadRequestErrorC] then new_exn LLMBadRequestErrorC (ex_text e)
      else e)"

definition LLM_RETRY_EXCEPTIONS :: "exn_class list" where
  "LLM_RETRY_EXCEPTIONS =
     [APIConnectionErrorC, RateLimitErrorC, ServiceUnavailableErrorC, LiteLLMTimeoutC, InternalServerErrorC, LLMNoResponseErrorC]"

definition should_fallback :: "exn \<Rightarrow> bool" where
  "should_fallback e = isinstance e
     [APIConnectionErrorC, RateLimitErrorC, ServiceUnavailableErrorC, LiteLLMTimeoutC, InternalServerErrorC, LLMNoResponseErrorC]"

section \<open>Between retries\<close>

text \<open>
  \<open>before_sleep\<close> on the temperature among the keyword arguments of the attempt; \<open>listener\<close> is called with the
  attempt and the exception. The attempt's own arguments take precedence over those of the call.
\<close>

definition before_sleep :: "exn \<Rightarrow> rat option \<Rightarrow> rat option" where
  "before_sleep e temperature =
     (if isinstance e [LLMNoResponseErrorC]
      then (if (case temperature of Some t \<Rightarrow> t | None \<Rightarrow> 0) = 0 then Some 1 else temperature)
      else temperature)"

definition final_temperature :: "rat option \<Rightarrow> rat option \<Rightarrow> rat option" where
  "final_temperature call_kwarg retry_kwarg = (case retry_kwarg of Some t \<Rightarrow> Some t | None \<Rightarrow> call_kwarg)"

section \<open>Fallback\<close>

record llm_client =
  lo_model :: string
  lo_telemetry :: telemetry
  lo_temperature :: "rat option"
  lo_fallback :: "string list option"

abbreviation lo_metrics :: "llm_client \<Rightarrow> metrics" where
  "lo_metrics l \<equiv> te_metrics (lo_telemetry l)"

definition with_metrics :: "llm_client \<Rightarrow> metrics \<Rightarrow> llm_client" where
  "with_metrics l m = l\<lparr>lo_telemetry := (lo_telemetry l)\<lparr>te_metrics := m\<rparr>\<rparr>"

text \<open>
  The state of a fallback: the world outside, the metrics of the primary model, and the models tried so far, which the
  log names.
\<close>

record 'x fb_state =
  fs_ext :: 'x
  fs_primary :: metrics
  fs_tried :: "string list"

type_synonym ('x, 'r) call_fn = "llm_client \<Rightarrow> 'x \<Rightarrow> 'x \<times> llm_client \<times> (exn, 'r) result"

text \<open>
  One fallback model, called without a strategy of its own: a failure, also of the bookkeeping of metrics, is
  swallowed.
\<close>

definition try_one :: "('x, 'r) call_fn \<Rightarrow> llm_client \<Rightarrow> 'x fb_state \<Rightarrow> 'x fb_state \<times> llm_client \<times> 'r option" where
  "try_one call fb s =
     (case call (fb\<lparr>lo_fallback := None\<rparr>) (fs_ext s) of
        (x, fb1, r) \<Rightarrow>
          (let fb2 = fb1\<lparr>lo_fallback := lo_fallback fb\<rparr>;
               s1 = s\<lparr>fs_ext := x, fs_tried := fs_tried s @ [lo_model fb]\<rparr>
           in case r of
                Inl e \<Rightarrow> (s1, fb2, None)
              | Inr resp \<Rightarrow>
                  (case metrics_diff (lo_metrics fb2) (lo_metrics fb) of
                     Inl e \<Rightarrow> (s1, fb2, None)
                   | Inr d \<Rightarrow>
                       (case merge_metrics (fs_primary s1) d of
                          (m, Some e) \<Rightarrow> (s1\<lparr>fs_primary := m\<rparr>, fb2, None)
                        | (m, None) \<Rightarrow> (s1\<lparr>fs_primary := m\<rparr>, fb2, Some resp)))))"

text \<open>The models resolved before, then the remaining names: those after as many as have been resolved.\<close>

fun try_resolved :: "('x, 'r) call_fn \<Rightarrow> llm_client list \<Rightarrow> 'x fb_state \<Rightarrow> 'x fb_state \<times> llm_client list \<times> 'r option" where
  "try_resolved call [] s = (s, [], None)"
| "try_resolved call (fb # fbs) s =
     (case try_one call fb s of
        (s1, fb', Some r) \<Rightarrow> (s1, fb' # fbs, Some r)
      | (s1, fb', None) \<Rightarrow>
          (case try_resolved call fbs s1 of (s2, fbs', r) \<Rightarrow> (s2, fb' # fbs', r)))"

fun try_names ::
    "('x, 'r) call_fn \<Rightarrow> (string \<Rightarrow> 'x \<Rightarrow> (exn, llm_client) result) \<Rightarrow> string list \<Rightarrow> llm_client list \<Rightarrow> 'x fb_state
       \<Rightarrow> 'x fb_state \<times> llm_client list \<times> (exn, 'r option) result" where
  "try_names call load [] resolved s = (s, resolved, Inr None)"
| "try_names call load (name # names) resolved s =
     (case load name (fs_ext s) of
        Inl e \<Rightarrow>
          if isinstance e [FileNotFoundErrorC, ValueErrorC] then try_names call load names resolved s
          else (s, resolved, Inl e)
      | Inr fb \<Rightarrow>
          (case try_one call fb s of
             (s1, fb', Some r) \<Rightarrow> (s1, resolved @ [fb'], Inr (Some r))
           | (s1, fb', None) \<Rightarrow> try_names call load names (resolved @ [fb']) s1))"

definition try_fallback ::
    "('x, 'r) call_fn \<Rightarrow> (string \<Rightarrow> 'x \<Rightarrow> (exn, llm_client) result) \<Rightarrow> string list \<Rightarrow> llm_client list \<Rightarrow> 'x fb_state
       \<Rightarrow> 'x fb_state \<times> llm_client list \<times> (exn, 'r option) result" where
  "try_fallback call load fallback_llms resolved s =
     (case try_resolved call resolved s of
        (s1, resolved', Some r) \<Rightarrow> (s1, resolved', Inr (Some r))
      | (s1, resolved', None) \<Rightarrow> try_names call load (drop (length resolved') fallback_llms) resolved' s1)"

section \<open>Completions\<close>

record call_response =
  cp_response :: response
  cp_choices :: "lite_message list"

text \<open>
  \<open>le_transport\<close> is the request to the provider, the conversion of mocked tool calls included; \<open>le_retry\<close>
  is the retry loop around an attempt, with what happens between attempts; \<open>le_resolved\<close> are the resolved fallback models of a model.
\<close>

record 'x call_world =
  kw_ext :: 'x
  kw_llm :: llm_client
  kw_resolved :: "llm_client list"

record 'x llm_env =
  le_transport :: "string \<Rightarrow> message list \<Rightarrow> rat option \<Rightarrow> 'x \<Rightarrow> 'x \<times> (exn, call_response) result"
  le_now :: "'x \<Rightarrow> rat"
  le_context_window :: int
  le_calculator :: "string \<Rightarrow> string option \<Rightarrow> response \<Rightarrow> rat option"
  le_retry :: "(exn \<Rightarrow> rat option \<Rightarrow> rat option) \<Rightarrow>
     (rat option \<Rightarrow> 'x call_world \<Rightarrow> 'x call_world \<times> (exn, call_response) result) \<Rightarrow>
     'x call_world \<Rightarrow> 'x call_world \<times> (exn, call_response) result"
  le_load :: "string \<Rightarrow> 'x \<Rightarrow> (exn, llm_client) result"

definition metrics_exn :: "metrics_error \<Rightarrow> exn" where
  "metrics_exn e = (case e of MetricsValueError msg \<Rightarrow> new_exn ValueErrorC msg
     | MetricsValidationError \<Rightarrow> new_exn ValueErrorC ''validation error'')"

definition one_attempt ::
    "'x llm_env \<Rightarrow> message list \<Rightarrow> rat option \<Rightarrow> 'x call_world \<Rightarrow> 'x call_world \<times> (exn, call_response) result" where
  "one_attempt env ms retry_temperature w =
     (let l = kw_llm w;
          te = on_request (le_now env (kw_ext w)) (le_context_window env) (lo_telemetry l)
      in case le_transport env (lo_model l) ms (final_temperature (lo_temperature l) retry_temperature) (kw_ext w) of
           (x, Inl e) \<Rightarrow> (w\<lparr>kw_ext := x, kw_llm := l\<lparr>lo_telemetry := te\<rparr>\<rparr>, Inl e)
         | (x, Inr resp) \<Rightarrow>
             (case on_response (le_calculator env) (le_now env x) (cp_response resp) te of
                (te', Some e) \<Rightarrow> (w\<lparr>kw_ext := x, kw_llm := l\<lparr>lo_telemetry := te'\<rparr>\<rparr>, Inl (metrics_exn e))
              | (te', None) \<Rightarrow>
                  (w\<lparr>kw_ext := x, kw_llm := l\<lparr>lo_telemetry := te'\<rparr>\<rparr>,
                   if cp_choices resp = [] then Inl (new_exn LLMNoResponseErrorC ''Response choices is less than 1.'')
                   else Inr resp)))"

record llm_answer =
  an_message :: message
  an_metrics :: metrics_snapshot
  an_raw :: call_response

definition message_exn :: "message_error \<Rightarrow> exn" where
  "message_exn e = (case e of MsgValueError msg \<Rightarrow> new_exn ValueErrorC msg
     | MsgAssertionError msg \<Rightarrow> new_exn (OtherExceptionC ''AssertionError'') msg
     | MsgValidationError \<Rightarrow> new_exn ValueErrorC ''validation error'')"

definition read_answer :: "llm_client \<Rightarrow> call_response \<Rightarrow> (exn, llm_answer) result" where
  "read_answer l resp =
     (case from_llm_chat_message (hd (cp_choices resp)) of
        Inl e \<Rightarrow> Inl (message_exn e)
      | Inr m \<Rightarrow> Inr \<lparr>an_message = m, an_metrics = get_snapshot (lo_metrics l), an_raw = resp\<rparr>)"

text \<open>\<open>_handle_error\<close>: the exception of a failed fallback is the mapped one of the primary model.\<close>

definition handle_error ::
    "'x llm_env \<Rightarrow> ('x, llm_answer) call_fn \<Rightarrow> exn \<Rightarrow> 'x call_world \<Rightarrow> 'x call_world \<times> (exn, llm_answer) result" where
  "handle_error env call e w =
     (case lo_fallback (kw_llm w) of
        None \<Rightarrow> (w, Inl (map_provider_exception e))
      | Some names \<Rightarrow>
          if \<not> should_fallback e then (w, Inl (map_provider_exception e))
          else
            (case try_fallback call (le_load env) names (kw_resolved w)
                \<lparr>fs_ext = kw_ext w, fs_primary = lo_metrics (kw_llm w), fs_tried = []\<rparr> of
               (s, resolved, r) \<Rightarrow>
                 (let w1 = w\<lparr>kw_ext := fs_ext s, kw_llm := with_metrics (kw_llm w) (fs_primary s), kw_resolved := resolved\<rparr>
                  in case r of
                       Inl e' \<Rightarrow> (w1, Inl e')
                     | Inr (Some a) \<Rightarrow> (w1, Inr a)
                     | Inr None \<Rightarrow> (w1, Inl (map_provider_exception e)))))"

text \<open>
  The body of \<open>completion\<close> inside its \<open>try\<close>, and the completion of a fallback model, whose strategy is
  disabled.
\<close>

definition attempt_completion ::
    "'x llm_env \<Rightarrow> message list \<Rightarrow> 'x call_world \<Rightarrow> 'x call_world \<times> (exn, llm_answer) result" where
  "attempt_completion env ms w =
     (case le_retry env before_sleep (one_attempt env ms) w of
        (w1, Inl e) \<Rightarrow> (w1, Inl e)
      | (w1, Inr resp) \<Rightarrow> (w1, read_answer (kw_llm w1) resp))"

definition fallback_call :: "'x llm_env \<Rightarrow> message list \<Rightarrow> ('x, llm_answer) call_fn" where
  "fallback_call env ms fb x =
     (case attempt_completion env ms \<lparr>kw_ext = x, kw_llm = fb, kw_resolved = []\<rparr> of
        (w, Inl e) \<Rightarrow> (kw_ext w, kw_llm w, Inl (map_provider_exception e))
      | (w, Inr a) \<Rightarrow> (kw_ext w, kw_llm w, Inr a))"

definition completion ::
    "'x llm_env \<Rightarrow> message list \<Rightarrow> 'x call_world \<Rightarrow> 'x call_world \<times> (exn, llm_answer) result" where
  "completion env ms w =
     (case attempt_completion env ms w of
        (w1, Inl e) \<Rightarrow> handle_error env (fallback_call env ms) e w1
      | (w1, Inr a) \<Rightarrow> (w1, Inr a))"

text \<open>
  \<open>acompletion\<close>: here the retry loop stands before the \<open>try\<close>, which holds only the reading of the answer.
\<close>

definition acompletion ::
    "'x llm_env \<Rightarrow> message list \<Rightarrow> 'x call_world \<Rightarrow> 'x call_world \<times> (exn, llm_answer) result" where
  "acompletion env ms w =
     (case le_retry env (\<lambda>e t. t) (\<lambda>t. one_attempt env ms None) w of
        (w1, Inl e) \<Rightarrow> (w1, Inl e)
      | (w1, Inr resp) \<Rightarrow>
          (case read_answer (kw_llm w1) resp of
             Inl e \<Rightarrow> handle_error env (fallback_call env ms) e w1
           | Inr a \<Rightarrow> (w1, Inr a)))"

section \<open>Which models are tried\<close>

lemma try_one_tried:
  "try_one call fb s = (s', fb', r) \<Longrightarrow> fs_tried s' = fs_tried s @ [lo_model fb]"
  by (auto simp: try_one_def Let_def split: prod.splits sum.splits option.splits)

lemma try_resolved_tried:
  assumes "try_resolved call fbs s = (s', fbs', r)"
  shows "length fbs' = length fbs" and "\<exists>k \<le> length fbs. fs_tried s' = fs_tried s @ map lo_model (take k fbs)"
    and "r = None \<Longrightarrow> fs_tried s' = fs_tried s @ map lo_model fbs"
proof -
  have "length fbs' = length fbs \<and> (\<exists>k \<le> length fbs. fs_tried s' = fs_tried s @ map lo_model (take k fbs)) \<and>
      (r = None \<longrightarrow> fs_tried s' = fs_tried s @ map lo_model fbs)"
    using assms
  proof (induction fbs arbitrary: s fbs')
    case (Cons fb fbs)
    obtain s1 fb1 r1 where t: "try_one call fb s = (s1, fb1, r1)" by (cases "try_one call fb s") auto
    note tt = try_one_tried [OF t]
    show ?case
    proof (cases r1)
      case (Some a)
      with Cons.prems t tt show ?thesis by (auto intro!: exI [of _ 1])
    next
      case None
      obtain s2 fbs2 r2 where u: "try_resolved call fbs s1 = (s2, fbs2, r2)" by (cases "try_resolved call fbs s1") auto
      with Cons.prems t None have eq: "s' = s2" "fbs' = fb1 # fbs2" "r = r2" by simp_all
      have ih: "length fbs2 = length fbs" "\<exists>k \<le> length fbs. fs_tried s2 = fs_tried s1 @ map lo_model (take k fbs)"
          "r2 = None \<longrightarrow> fs_tried s2 = fs_tried s1 @ map lo_model fbs"
        using Cons.IH [of s1 fbs2] u eq by auto
      then obtain k where "k \<le> length fbs" "fs_tried s2 = fs_tried s1 @ map lo_model (take k fbs)" by blast
      then have "Suc k \<le> length (fb # fbs) \<and> fs_tried s2 = fs_tried s @ map lo_model (take (Suc k) (fb # fbs))"
        using tt by simp
      with ih tt eq show ?thesis by auto
    qed
  qed simp
  then show "length fbs' = length fbs" "\<exists>k \<le> length fbs. fs_tried s' = fs_tried s @ map lo_model (take k fbs)"
      "r = None \<Longrightarrow> fs_tried s' = fs_tried s @ map lo_model fbs" by blast+
qed

text \<open>Profiles that can be loaded: the profile gives the model whatever happened before.\<close>

definition profiles_load :: "(string \<Rightarrow> 'x \<Rightarrow> (exn, llm_client) result) \<Rightarrow> (string \<Rightarrow> string) \<Rightarrow> string list \<Rightarrow> bool" where
  "profiles_load load model names \<longleftrightarrow> (\<forall>name \<in> set names. \<forall>x. \<exists>fb. load name x = Inr fb \<and> lo_model fb = model name)"

lemma try_names_tried:
  assumes "profiles_load load model names" and "try_names call load names resolved s = (s', resolved', r)"
  shows "\<exists>k \<le> length names. fs_tried s' = fs_tried s @ map model (take k names) \<and>
      length resolved' = length resolved + k \<and> (r = Inr None \<longrightarrow> k = length names) \<and> (\<exists>a. r = Inr a)"
  using assms
proof (induction names arbitrary: resolved s)
  case (Cons name names)
  obtain fb where fb: "load name (fs_ext s) = Inr fb" "lo_model fb = model name"
    using Cons.prems(1) unfolding profiles_load_def by (meson list.set_intros(1))
  obtain s1 fb1 r1 where t: "try_one call fb s = (s1, fb1, r1)" by (cases "try_one call fb s") auto
  note tt = try_one_tried [OF t]
  have pl: "profiles_load load model names" using Cons.prems(1) by (simp add: profiles_load_def)
  show ?case
  proof (cases r1)
    case (Some a)
    with Cons.prems fb t tt show ?thesis by (auto intro!: exI [of _ 1])
  next
    case None
    then have "try_names call load names (resolved @ [fb1]) s1 = (s', resolved', r)" using Cons.prems(2) fb t by simp
    from Cons.IH [OF pl this] obtain k where "k \<le> length names" "fs_tried s' = fs_tried s1 @ map model (take k names)"
        "length resolved' = length (resolved @ [fb1]) + k" "r = Inr None \<longrightarrow> k = length names" "\<exists>a. r = Inr a"
      by blast
    then show ?thesis using tt fb(2) by (intro exI [of _ "Suc k"]) auto
  qed
qed auto

lemma fallback_order:
  assumes load: "profiles_load load model names" and pre: "map lo_model resolved = map model (take (length resolved) names)"
    and res: "try_fallback call load names resolved s = (s', resolved', r)"
  shows "\<exists>k \<le> length names. fs_tried s' = fs_tried s @ map model (take k names) \<and> (r = Inr None \<longrightarrow> k = length names)"
proof -
  obtain s1 fbs1 r1 where t: "try_resolved call resolved s = (s1, fbs1, r1)" by (cases "try_resolved call resolved s") auto
  note tr = try_resolved_tried [OF t]
  have len: "length resolved \<le> length names"
    using arg_cong [OF pre, of length] by (simp add: min_def split: if_splits)
  show ?thesis
  proof (cases r1)
    case (Some a)
    then have eq: "s' = s1" "r = Inr (Some a)" using res t by (simp_all add: try_fallback_def)
    obtain k where k: "k \<le> length resolved" "fs_tried s1 = fs_tried s @ map lo_model (take k resolved)" using tr(2) by blast
    have "map lo_model (take k resolved) = take k (map lo_model resolved)" by (simp add: take_map)
    also have "\<dots> = map model (take k names)" using k(1) by (subst pre) (simp add: take_map min_def)
    finally show ?thesis using eq k len by (intro exI [of _ k]) simp
  next
    case None
    have s1: "fs_tried s1 = fs_tried s @ map model (take (length resolved) names)" using tr(3) None pre by simp
    have rest: "profiles_load load model (drop (length fbs1) names)"
      using load by (auto simp: profiles_load_def dest: in_set_dropD)
    have "try_names call load (drop (length fbs1) names) fbs1 s1 = (s', resolved', r)"
      using res t None by (simp add: try_fallback_def)
    from try_names_tried [OF rest this] obtain k where k: "k \<le> length (drop (length fbs1) names)"
        "fs_tried s' = fs_tried s1 @ map model (take k (drop (length fbs1) names))"
        "r = Inr None \<longrightarrow> k = length (drop (length fbs1) names)"
      by blast
    have "take (length resolved) names @ take k (drop (length resolved) names) = take (length resolved + k) names"
      by (simp add: take_add)
    then have "fs_tried s' = fs_tried s @ map model (take (length resolved + k) names)"
      using k(2) s1 tr(1) by (metis append.assoc map_append)
    then show ?thesis using k(1,3) tr(1) len by (intro exI [of _ "length resolved + k"]) auto
  qed
qed

section \<open>What a fallback costs\<close>

text \<open>The primary model is charged what the answer has cost the model that gave it.\<close>

theorem answering_model_is_charged:
  assumes "try_one call fb s = (s', fb', Some r)"
  shows "mt_accumulated_cost (fs_primary s') = mt_accumulated_cost (fs_primary s) +
     (mt_accumulated_cost (lo_metrics fb') - mt_accumulated_cost (lo_metrics fb))"
proof -
  obtain x fb1 r1 where c: "call (fb\<lparr>lo_fallback := None\<rparr>) (fs_ext s) = (x, fb1, r1)"
    by (cases "call (fb\<lparr>lo_fallback := None\<rparr>) (fs_ext s)") auto
  obtain resp where r1: "r1 = Inr resp" using assms c by (cases r1) (simp_all add: try_one_def Let_def)
  obtain d where d: "metrics_diff (lo_metrics fb1) (lo_metrics fb) = Inr d"
    using assms c r1 by (cases "metrics_diff (lo_metrics fb1) (lo_metrics fb)") (simp_all add: try_one_def Let_def)
  obtain m e where m: "merge_metrics (fs_primary s) d = (m, e)" by fastforce
  have e: "e = None" "fs_primary s' = m" "lo_metrics fb' = lo_metrics fb1"
    using assms c r1 d m by (auto simp: try_one_def Let_def split: option.splits)
  have "mt_accumulated_cost d = mt_accumulated_cost (lo_metrics fb1) - mt_accumulated_cost (lo_metrics fb)"
    using d by (auto simp: metrics_diff_def Let_def split: option.splits sum.splits)
  moreover have "mt_accumulated_cost m = mt_accumulated_cost (fs_primary s) + mt_accumulated_cost d"
    using m e(1) by (auto simp: merge_metrics_def Let_def split: option.splits sum.splits)
  ultimately show ?thesis using e by simp
qed

section \<open>The exceptions the caller sees\<close>

lemma context_window_mapped:
  "is_context_window_exceeded e \<Longrightarrow> map_provider_exception e = new_exn LLMContextWindowExceedErrorC (ex_text e)"
  by (simp add: map_provider_exception_def)

lemma completion_failure:
  assumes "le_retry env before_sleep (one_attempt env ms) w = (w1, Inl e)" and "lo_fallback (kw_llm w1) = None"
  shows "completion env ms w = (w1, Inl (map_provider_exception e))"
  using assms by (simp add: completion_def attempt_completion_def handle_error_def)

lemma acompletion_failure:
  assumes "le_retry env (\<lambda>e t. t) (\<lambda>t. one_attempt env ms None) w = (w1, Inl e)"
  shows "acompletion env ms w = (w1, Inl e)"
  using assms by (simp add: acompletion_def)

section \<open>Properties\<close>

text \<open>
  When its profiles can be loaded, a fallback tries them in the order of the strategy, each at most once, up
  to the first that answers, and fails only when it has tried all; the models resolved by earlier
  requests come first, as they are the first of the list.
\<close>

theorem fallbacks_are_tried_in_order:
  assumes "profiles_load load model names" and "map lo_model resolved = map model (take (length resolved) names)"
    and "try_fallback call load names resolved s = (s', resolved', r)"
  shows "\<exists>k \<le> length names. fs_tried s' = fs_tried s @ map model (take k names) \<and> (r = Inr None \<longrightarrow> k = length names)"
  by (rule fallback_order [OF assms])

definition demo_llm :: "string \<Rightarrow> llm_client" where
  "demo_llm name =
     \<lparr>lo_model = name,
      lo_telemetry = \<lparr>te_model_name = name, te_metrics = new_metrics name, te_req_start = None, te_last_latency = 0,
        te_context_window = 0\<rparr>,
      lo_temperature = None, lo_fallback = None\<rparr>"

definition busy_call :: "(unit, unit) call_fn" where
  "busy_call fb x = (x, fb, Inl (new_exn RateLimitErrorC ''busy''))"

definition demo_load :: "string \<Rightarrow> unit \<Rightarrow> (exn, llm_client) result" where
  "demo_load name x = (if name = ''lost'' then Inl (new_exn FileNotFoundErrorC name) else Inr (demo_llm name))"

definition demo_fb_state :: "unit fb_state" where
  "demo_fb_state = \<lparr>fs_ext = (), fs_primary = new_metrics ''p'', fs_tried = []\<rparr>"

text \<open>
  A profile that cannot be loaded shifts the names that remain: they are those after as many as were resolved, so that
  the next request tries a model again that it has just tried, the second of the list here.
\<close>

theorem lost_profile_repeats_a_model:
  "\<exists>s1 fbs1 s2 fbs2.
     try_fallback busy_call demo_load [''lost'', ''good''] [] demo_fb_state = (s1, fbs1, Inr None) \<and>
     fs_tried s1 = [''good''] \<and>
     try_fallback busy_call demo_load [''lost'', ''good''] fbs1 demo_fb_state = (s2, fbs2, Inr None) \<and>
     fs_tried s2 = [''good'', ''good'']"
  by (simp add: try_fallback_def try_one_def busy_call_def demo_load_def demo_fb_state_def demo_llm_def new_exn_def
      isinstance_def)

text \<open>
  C30: A provider's overflow of the context window reaches the agent as the type it handles only
  through \<open>completion\<close>: in \<open>acompletion\<close> the retries stand outside the handler, so that the same
  failure is raised as the provider's own exception, unmapped, and no fallback model is asked whatever the strategy.
\<close>

theorem async_overflow_is_not_mapped:
  assumes "le_retry env before_sleep (one_attempt env ms) w = (w1, Inl e)" and "lo_fallback (kw_llm w1) = None"
    and "le_retry env (\<lambda>e t. t) (\<lambda>t. one_attempt env ms None) w = (w2, Inl e)"
    and "is_context_window_exceeded e"
  shows "completion env ms w = (w1, Inl (new_exn LLMContextWindowExceedErrorC (ex_text e))) \<and>
    acompletion env ms w = (w2, Inl e)"
  using completion_failure [OF assms(1,2)] acompletion_failure [OF assms(3)] context_window_mapped [OF assms(4)] by simp

text \<open>
  A response without choices raises the temperature of the next attempt to one, also when the call was
  configured with another: the attempt's own arguments hold no temperature, which counts as zero.
\<close>

theorem retry_overrides_temperature:
  "final_temperature (lo_temperature l) (before_sleep (new_exn LLMNoResponseErrorC msg) None) = Some 1"
  by (simp add: final_temperature_def before_sleep_def new_exn_def isinstance_def)

section \<open>Witnesses\<close>

lemma fallbacks_are_tried_in_order_witness:
  "\<exists>s' fbs r. try_fallback busy_call demo_load [''a'', ''b''] [] demo_fb_state = (s', fbs, r) \<and>
     (\<exists>k \<le> 2. fs_tried s' = take k [''a'', ''b''])"
proof -
  have l: "profiles_load demo_load id [''a'', ''b'']"
    by (simp add: profiles_load_def demo_load_def demo_llm_def)
  obtain s' fbs r where t: "try_fallback busy_call demo_load [''a'', ''b''] [] demo_fb_state = (s', fbs, r)"
    by (cases "try_fallback busy_call demo_load [''a'', ''b''] [] demo_fb_state") auto
  from fallbacks_are_tried_in_order [OF l _ t] t show ?thesis by (auto simp: demo_fb_state_def numeral_2_eq_2)
qed

text \<open>A provider whose every request overflows, tried once.\<close>

definition overflow :: exn where
  "overflow = \<lparr>ex_classes = [ContextWindowExceededErrorC, BadRequestErrorC, OpenAIErrorC], ex_text = ''too long''\<rparr>"

definition overflow_provider :: "unit llm_env" where
  "overflow_provider =
     \<lparr>le_transport = (\<lambda>model ms t x. (x, Inl overflow)), le_now = (\<lambda>x. 0), le_context_window = 8,
      le_calculator = (\<lambda>m p r. None), le_retry = (\<lambda>between attempt w. attempt None w), le_load = demo_load\<rparr>"

lemma async_overflow_is_not_mapped_witness:
  "\<exists>w1 w2. completion overflow_provider [] \<lparr>kw_ext = (), kw_llm = demo_llm ''m'', kw_resolved = []\<rparr> =
       (w1, Inl (new_exn LLMContextWindowExceedErrorC ''too long'')) \<and>
     acompletion overflow_provider [] \<lparr>kw_ext = (), kw_llm = demo_llm ''m'', kw_resolved = []\<rparr> = (w2, Inl overflow)"
proof -
  let ?w = "\<lparr>kw_ext = (), kw_llm = demo_llm ''m'', kw_resolved = []\<rparr>"
  obtain w1 where w1: "one_attempt overflow_provider [] None ?w = (w1, Inl overflow)" "lo_fallback (kw_llm w1) = None"
    by (simp add: one_attempt_def overflow_provider_def demo_llm_def)
  have r: "le_retry overflow_provider = (\<lambda>between attempt w. attempt None w)" by (simp add: overflow_provider_def)
  have o: "is_context_window_exceeded overflow" "ex_text overflow = ''too long''"
    by (simp_all add: is_context_window_exceeded_def isinstance_def overflow_def)
  have "le_retry overflow_provider before_sleep (one_attempt overflow_provider []) ?w = (w1, Inl overflow)"
      "le_retry overflow_provider (\<lambda>e t. t) (\<lambda>t. one_attempt overflow_provider [] None) ?w = (w1, Inl overflow)"
    using w1(1) by (simp_all add: r)
  from async_overflow_is_not_mapped [OF this(1) w1(2) this(2) o(1)] o(2) show ?thesis by auto
qed

end
