(* ===== verification/Lease.thy ===== *)
theory Lease
  imports Prelude
begin

text \<open>
  The ownership lease of a conversation (\<open>agent_server/conversation_lease.py\<close>, and the uses of it in
  \<open>agent_server/event_service.py\<close>): a file that names the owner, a generation and a time of expiry,
  read and written under a file lock, so that each operation is one step. The services of several
  processes share the file; a step relation interleaves their operations with the passing of time
  and with crashes. Times are integers, in units of the clock. The lemmas show that a service that
  lost the lease is fenced off, that one that renews in time keeps it, and where a write escapes the fence.
\<close>

section \<open>The lease file\<close>

text \<open>What \<open>json.loads\<close> gives for the fields; a \<open>bool\<close> is an \<open>int\<close> of Python.\<close>

datatype raw_value = Raw_Int int | Raw_Bool bool | Raw_Float int | Raw_Str string | Raw_Other

datatype raw_lease = Unreadable | Not_Object | Object "(string \<times> raw_value) list"

record lease_payload =
  lp_owner :: string
  lp_generation :: int
  lp_expires :: int
  lp_host :: "string option"
  lp_pid :: "int option"

record lease_claim =
  lc_generation :: int
  lc_takeover :: bool

datatype lease_error = Lease_Held string int | Ownership_Lost string int

fun raw_str :: "raw_value \<Rightarrow> string option" where
  "raw_str (Raw_Str s) = Some s"
| "raw_str _ = None"

fun raw_int :: "raw_value \<Rightarrow> int option" where
  "raw_int (Raw_Int n) = Some n"
| "raw_int (Raw_Bool b) = Some (if b then 1 else 0)"
| "raw_int _ = None"

fun raw_number :: "raw_value \<Rightarrow> int option" where
  "raw_number (Raw_Float x) = Some x"
| "raw_number v = raw_int v"

definition field_of :: "(raw_value \<Rightarrow> 'a option) \<Rightarrow> (string \<times> raw_value) list \<Rightarrow> string \<Rightarrow> 'a option" where
  "field_of f kv k = (case map_of kv k of None \<Rightarrow> None | Some v \<Rightarrow> f v)"

definition parse_payload :: "(string \<times> raw_value) list \<Rightarrow> lease_payload option" where
  "parse_payload kv =
     (case (field_of raw_str kv ''owner_instance_id'', field_of raw_int kv ''generation'',
            field_of raw_number kv ''expires_at'') of
        (Some owner, Some generation, Some expires) \<Rightarrow>
          Some \<lparr>lp_owner = owner, lp_generation = generation, lp_expires = expires,
                lp_host = (case field_of raw_str kv ''owner_host'' of
                             Some h \<Rightarrow> if h = [] then None else Some h | None \<Rightarrow> None),
                lp_pid = field_of raw_int kv ''owner_pid''\<rparr>
      | _ \<Rightarrow> None)"

text \<open>\<open>_read_payload\<close>: a file that cannot be parsed counts as no lease.\<close>

definition read_payload :: "raw_lease option \<Rightarrow> lease_payload option" where
  "read_payload file = (case file of Some (Object kv) \<Rightarrow> parse_payload kv | _ \<Rightarrow> None)"

section \<open>Processes\<close>

record process =
  pr_owner :: string      \<comment> \<open>the instance id\<close>
  pr_host :: string       \<comment> \<open>empty when the name of the host is not available\<close>
  pr_pid :: int

datatype kill_result = Kill_Ok | Process_Lookup_Error | Permission_Error | Os_Kill_Error

definition is_pid_alive :: "(int \<Rightarrow> kill_result) \<Rightarrow> int \<Rightarrow> bool" where
  "is_pid_alive kill pid \<longleftrightarrow>
     (if pid \<le> 0 then False
      else case kill pid of
             Kill_Ok \<Rightarrow> True
           | Process_Lookup_Error \<Rightarrow> False
           | Permission_Error \<Rightarrow> True
           | Os_Kill_Error \<Rightarrow> True)"

definition owner_is_dead :: "process \<Rightarrow> (int \<Rightarrow> kill_result) \<Rightarrow> lease_payload \<Rightarrow> bool" where
  "owner_is_dead pr kill p \<longleftrightarrow>
     (case (lp_host p, lp_pid p) of
        (Some host, Some pid) \<Rightarrow>
          if host \<noteq> pr_host pr then False
          else if pid = pr_pid pr then False
          else \<not> is_pid_alive kill pid
      | _ \<Rightarrow> False)"

section \<open>The operations, under the file lock\<close>

definition written_lease :: "process \<Rightarrow> int \<Rightarrow> int \<Rightarrow> raw_lease" where
  "written_lease pr generation expires_at =
     Object [(''owner_instance_id'', Raw_Str (pr_owner pr)), (''generation'', Raw_Int generation),
       (''expires_at'', Raw_Float expires_at), (''owner_host'', Raw_Str (pr_host pr)),
       (''owner_pid'', Raw_Int (pr_pid pr))]"

definition claim ::
    "process \<Rightarrow> (int \<Rightarrow> kill_result) \<Rightarrow> int \<Rightarrow> int \<Rightarrow> raw_lease option \<Rightarrow>
     raw_lease option \<times> (lease_error, lease_claim) result" where
  "claim pr kill ttl now file =
     (case read_payload file of
        None \<Rightarrow> (Some (written_lease pr 1 (now + ttl)), Inr \<lparr>lc_generation = 1, lc_takeover = False\<rparr>)
      | Some p \<Rightarrow>
          (let same_owner = (lp_owner p = pr_owner pr)
           in if \<not> same_owner \<and> lp_expires p > now \<and> \<not> owner_is_dead pr kill p
              then (file, Inl (Lease_Held (lp_owner p) (lp_expires p)))
              else
                let generation = (if same_owner then lp_generation p else lp_generation p + 1)
                in (Some (written_lease pr generation (now + ttl)),
                    Inr \<lparr>lc_generation = generation, lc_takeover = \<not> same_owner\<rparr>)))"

definition assert_owner :: "process \<Rightarrow> int \<Rightarrow> raw_lease option \<Rightarrow> (lease_error, unit) result" where
  "assert_owner pr generation file =
     (case read_payload file of
        None \<Rightarrow> Inl (Ownership_Lost (pr_owner pr) generation)
      | Some p \<Rightarrow>
          if lp_owner p \<noteq> pr_owner pr \<or> lp_generation p \<noteq> generation
          then Inl (Ownership_Lost (pr_owner pr) generation) else Inr ())"

definition renew ::
    "process \<Rightarrow> int \<Rightarrow> int \<Rightarrow> int \<Rightarrow> raw_lease option \<Rightarrow> raw_lease option \<times> (lease_error, unit) result" where
  "renew pr ttl now generation file =
     (case assert_owner pr generation file of
        Inl e \<Rightarrow> (file, Inl e)
      | Inr _ \<Rightarrow> (Some (written_lease pr generation (now + ttl)), Inr ()))"

definition release_lease :: "process \<Rightarrow> int \<Rightarrow> raw_lease option \<Rightarrow> raw_lease option" where
  "release_lease pr generation file =
     (case read_payload file of
        None \<Rightarrow> file
      | Some p \<Rightarrow> if lp_owner p \<noteq> pr_owner pr \<or> lp_generation p \<noteq> generation then file else None)"

section \<open>Services\<close>

text \<open>
  An event service with its token; \<open>None\<close> before it starts and after it is closed, when its write
  guard does nothing.
\<close>

record service =
  sv_proc :: process
  sv_generation :: "int option"

record lease_world =
  lw_file :: "raw_lease option"
  lw_now :: int
  lw_dead :: "(string \<times> int) list"
  lw_services :: "nat \<Rightarrow> service"
  lw_writes :: "nat list"        \<comment> \<open>the services whose writes went through, last first\<close>

definition kill_of :: "lease_world \<Rightarrow> string \<Rightarrow> int \<Rightarrow> kill_result" where
  "kill_of w host pid = (if (host, pid) \<in> set (lw_dead w) then Process_Lookup_Error else Kill_Ok)"

definition sv_alive :: "lease_world \<Rightarrow> nat \<Rightarrow> bool" where
  "sv_alive w i \<longleftrightarrow>
     (pr_host (sv_proc (lw_services w i)), pr_pid (sv_proc (lw_services w i))) \<notin> set (lw_dead w)"

definition set_token :: "nat \<Rightarrow> int option \<Rightarrow> lease_world \<Rightarrow> lease_world" where
  "set_token i g w = w\<lparr>lw_services := (lw_services w)(i := (lw_services w i)\<lparr>sv_generation := g\<rparr>)\<rparr>"

text \<open>\<open>EventService.start\<close>, up to the claim.\<close>

definition start_service :: "int \<Rightarrow> nat \<Rightarrow> lease_world \<Rightarrow> lease_world \<times> (lease_error, unit) result" where
  "start_service ttl i w =
     (let pr = sv_proc (lw_services w i)
      in case claim pr (kill_of w (pr_host pr)) ttl (lw_now w) (lw_file w) of
           (f, Inl e) \<Rightarrow> (w\<lparr>lw_file := f\<rparr>, Inl e)
         | (f, Inr c) \<Rightarrow> (set_token i (Some (lc_generation c)) (w\<lparr>lw_file := f\<rparr>), Inr ()))"

text \<open>\<open>EventService.renew_lease\<close>: errors are logged.\<close>

definition renew_service :: "int \<Rightarrow> nat \<Rightarrow> lease_world \<Rightarrow> lease_world" where
  "renew_service ttl i w =
     (case sv_generation (lw_services w i) of
        None \<Rightarrow> w
      | Some g \<Rightarrow> w\<lparr>lw_file := fst (renew (sv_proc (lw_services w i)) ttl (lw_now w) g (lw_file w))\<rparr>)"

text \<open>A write under \<open>EventService._write_guard\<close>\<close>

definition guard_allows :: "lease_world \<Rightarrow> nat \<Rightarrow> bool" where
  "guard_allows w i \<longleftrightarrow>
     (case sv_generation (lw_services w i) of
        None \<Rightarrow> True
      | Some g \<Rightarrow> assert_owner (sv_proc (lw_services w i)) g (lw_file w) = Inr ())"

definition write_service :: "nat \<Rightarrow> lease_world \<Rightarrow> lease_world" where
  "write_service i w = (if guard_allows w i then w\<lparr>lw_writes := i # lw_writes w\<rparr> else w)"

text \<open>The end of \<open>EventService.close\<close>\<close>

definition close_service :: "nat \<Rightarrow> lease_world \<Rightarrow> lease_world" where
  "close_service i w =
     (case sv_generation (lw_services w i) of
        None \<Rightarrow> w
      | Some g \<Rightarrow>
          set_token i None (w\<lparr>lw_file := release_lease (sv_proc (lw_services w i)) g (lw_file w)\<rparr>))"

section \<open>Steps\<close>

datatype lease_label = Tick int | Start nat | Renew nat | Write_Event nat | Close nat | Crash string int

text \<open>Time does not go back; only services of living processes act.\<close>

fun label_possible :: "lease_world \<Rightarrow> lease_label \<Rightarrow> bool" where
  "label_possible w (Tick d) \<longleftrightarrow> 0 \<le> d"
| "label_possible w (Start i) \<longleftrightarrow> sv_alive w i"
| "label_possible w (Renew i) \<longleftrightarrow> sv_alive w i"
| "label_possible w (Write_Event i) \<longleftrightarrow> sv_alive w i"
| "label_possible w (Close i) \<longleftrightarrow> sv_alive w i"
| "label_possible w (Crash h p) \<longleftrightarrow> True"

fun label_effect :: "int \<Rightarrow> lease_label \<Rightarrow> lease_world \<Rightarrow> lease_world" where
  "label_effect ttl (Tick d) w = w\<lparr>lw_now := lw_now w + d\<rparr>"
| "label_effect ttl (Start i) w = fst (start_service ttl i w)"
| "label_effect ttl (Renew i) w = renew_service ttl i w"
| "label_effect ttl (Write_Event i) w = write_service i w"
| "label_effect ttl (Close i) w = close_service i w"
| "label_effect ttl (Crash h p) w = w\<lparr>lw_dead := (h, p) # lw_dead w\<rparr>"

inductive lease_steps :: "int \<Rightarrow> lease_world \<Rightarrow> lease_label list \<Rightarrow> lease_world \<Rightarrow> bool" for ttl where
  steps_refl: "lease_steps ttl w [] w"
| steps_cons: "label_possible w l \<Longrightarrow> lease_steps ttl (label_effect ttl l w) ls w' \<Longrightarrow> lease_steps ttl w (l # ls) w'"

inductive_cases steps_ConsE [elim!]: "lease_steps ttl w (l # ls) w'"
inductive_cases steps_NilE [elim!]: "lease_steps ttl w [] w'"

section \<open>Lemmas\<close>

lemma read_written [simp]:
  "read_payload (Some (written_lease pr g e)) =
     Some \<lparr>lp_owner = pr_owner pr, lp_generation = g, lp_expires = e,
           lp_host = (if pr_host pr = [] then None else Some (pr_host pr)), lp_pid = Some (pr_pid pr)\<rparr>"
  by (simp add: read_payload_def written_lease_def parse_payload_def field_of_def)

lemma set_token_simps [simp]:
  "lw_file (set_token i g w) = lw_file w" "lw_now (set_token i g w) = lw_now w"
  "lw_dead (set_token i g w) = lw_dead w" "lw_writes (set_token i g w) = lw_writes w"
  "sv_proc (lw_services (set_token i g w) j) = sv_proc (lw_services w j)"
  "sv_generation (lw_services (set_token i g w) j) = (if j = i then g else sv_generation (lw_services w j))"
  by (simp_all add: set_token_def)

definition owner_of :: "lease_world \<Rightarrow> string option" where
  "owner_of w = map_option lp_owner (read_payload (lw_file w))"

lemma start_proc [simp]: "sv_proc (lw_services (fst (start_service ttl i w)) j) = sv_proc (lw_services w j)"
  by (simp add: start_service_def Let_def split: prod.split sum.split)

lemma renew_services [simp]: "lw_services (renew_service ttl i w) = lw_services w"
  by (simp add: renew_service_def split: option.split)

lemma write_services [simp]: "lw_services (write_service i w) = lw_services w" "lw_file (write_service i w) = lw_file w"
  by (simp_all add: write_service_def)

lemma step_now [simp]:
  "lw_now (fst (start_service ttl i w)) = lw_now w" "lw_now (renew_service ttl i w) = lw_now w"
  by (simp_all add: start_service_def renew_service_def Let_def split: prod.split sum.split option.split)

lemma close_proc [simp]: "sv_proc (lw_services (close_service i w) j) = sv_proc (lw_services w j)"
  by (simp add: close_service_def split: option.split)

lemma effect_proc [simp]: "sv_proc (lw_services (label_effect ttl l w) j) = sv_proc (lw_services w j)"
  by (cases l) simp_all

lemma steps_proc: "lease_steps ttl w tr w' \<Longrightarrow> sv_proc (lw_services w' j) = sv_proc (lw_services w j)"
  by (induction rule: lease_steps.induct) auto

text \<open>A service's token changes only when it starts or is closed.\<close>

lemma effect_token:
  "l \<noteq> Start j \<Longrightarrow> l \<noteq> Close j \<Longrightarrow>
     sv_generation (lw_services (label_effect ttl l w) j) = sv_generation (lw_services w j)"
  by (cases l) (auto simp: start_service_def Let_def close_service_def split: prod.split sum.split option.split)

lemma assert_owner_iff:
  "assert_owner pr g f = Inr () \<longleftrightarrow>
     (\<exists>p. read_payload f = Some p \<and> lp_owner p = pr_owner pr \<and> lp_generation p = g)"
  by (auto simp: assert_owner_def split: option.split)

lemma guard_allows_owner:
  "guard_allows w i \<Longrightarrow> sv_generation (lw_services w i) = Some g \<Longrightarrow>
     owner_of w = Some (pr_owner (sv_proc (lw_services w i)))"
  by (auto simp: guard_allows_def assert_owner_iff owner_of_def)

text \<open>Only a start by one of its services makes an instance the owner.\<close>

lemma effect_not_owner:
  assumes "owner_of w \<noteq> Some a" and "\<And>i. l = Start i \<Longrightarrow> pr_owner (sv_proc (lw_services w i)) \<noteq> a"
  shows "owner_of (label_effect ttl l w) \<noteq> Some a"
proof (cases l)
  case (Start i)
  then show ?thesis
    using assms
    by (auto simp: owner_of_def start_service_def claim_def Let_def split: option.split)
next
  case (Renew i)
  show ?thesis
  proof (cases "sv_generation (lw_services w i)")
    case (Some g)
    show ?thesis
    proof (cases "assert_owner (sv_proc (lw_services w i)) g (lw_file w)")
      case (Inr u)
      then have "owner_of w = Some (pr_owner (sv_proc (lw_services w i)))"
        by (auto simp: assert_owner_iff owner_of_def)
      with Renew Some Inr assms(1) show ?thesis by (auto simp: renew_service_def renew_def owner_of_def)
    qed (use Renew Some assms(1) in \<open>auto simp: renew_service_def renew_def owner_of_def\<close>)
  qed (use Renew assms(1) in \<open>simp add: renew_service_def\<close>)
next
  case (Close i)
  then show ?thesis
    using assms(1) by (auto simp: owner_of_def close_service_def release_lease_def read_payload_def split: option.split)
qed (use assms(1) in \<open>auto simp: owner_of_def\<close>)

lemma effect_writes:
  "lw_writes (label_effect ttl l w) =
     (case l of Write_Event i \<Rightarrow> if guard_allows w i then i # lw_writes w else lw_writes w | _ \<Rightarrow> lw_writes w)"
  by (cases l) (auto simp: start_service_def Let_def renew_service_def write_service_def close_service_def
      split: prod.split sum.split option.split)

lemma fenced:
  assumes "lease_steps ttl w tr w'" and "owner_of w \<noteq> Some a"
    and "pr_owner (sv_proc (lw_services w j)) = a" and "sv_generation (lw_services w j) = Some g"
    and "\<forall>i. Start i \<in> set tr \<longrightarrow> pr_owner (sv_proc (lw_services w i)) \<noteq> a" and "Close j \<notin> set tr"
  shows "count_list (lw_writes w') j = count_list (lw_writes w) j"
  using assms
proof (induction rule: lease_steps.induct)
  case (steps_cons w l ls w')
  let ?w = "label_effect ttl l w"
  have ne: "l \<noteq> Start j" "l \<noteq> Close j" using steps_cons.prems by auto
  have "owner_of ?w \<noteq> Some a"
    by (rule effect_not_owner [OF steps_cons.prems(1)]) (use steps_cons.prems(4) in auto)
  moreover have "sv_generation (lw_services ?w j) = Some g"
    using effect_token [OF ne] steps_cons.prems(3) by simp
  ultimately have "count_list (lw_writes w') j = count_list (lw_writes ?w) j"
    using steps_cons.IH steps_cons.prems by simp
  moreover have "\<not> guard_allows w j"
    using guard_allows_owner [OF _ steps_cons.prems(3)] steps_cons.prems(1,2) by blast
  ultimately show ?case by (auto simp: effect_writes split: lease_label.split)
qed simp

text \<open>What keeps a lease: the payload is the holder's own and has time left.\<close>

definition holds_lease :: "int \<Rightarrow> lease_world \<Rightarrow> nat \<Rightarrow> bool" where
  "holds_lease r w i \<longleftrightarrow>
     (\<exists>p g. read_payload (lw_file w) = Some p \<and> sv_generation (lw_services w i) = Some g \<and>
        lp_owner p = pr_owner (sv_proc (lw_services w i)) \<and> lp_generation p = g \<and>
        lp_host p \<in> {None, Some (pr_host (sv_proc (lw_services w i)))} \<and>
        lp_pid p = Some (pr_pid (sv_proc (lw_services w i))) \<and> 0 < pr_pid (sv_proc (lw_services w i)) \<and>
        sv_alive w i \<and> 0 < r \<and> lw_now w + r \<le> lp_expires p)"

text \<open>
  The schedule of a service that renews in time, is not closed and does not crash: \<open>r\<close> is the time
  that is left of its lease.
\<close>

fun in_time :: "int \<Rightarrow> nat \<Rightarrow> process \<Rightarrow> int \<Rightarrow> lease_label list \<Rightarrow> bool" where
  "in_time ttl i pr r [] = True"
| "in_time ttl i pr r (Tick d # ls) \<longleftrightarrow> d < r \<and> in_time ttl i pr (r - d) ls"
| "in_time ttl i pr r (Renew k # ls) \<longleftrightarrow> in_time ttl i pr (if k = i then ttl else r) ls"
| "in_time ttl i pr r (Start k # ls) \<longleftrightarrow> k \<noteq> i \<and> in_time ttl i pr r ls"
| "in_time ttl i pr r (Close k # ls) \<longleftrightarrow> k \<noteq> i \<and> in_time ttl i pr r ls"
| "in_time ttl i pr r (Crash h p # ls) \<longleftrightarrow> (h, p) \<noteq> (pr_host pr, pr_pid pr) \<and> in_time ttl i pr r ls"
| "in_time ttl i pr r (Write_Event k # ls) \<longleftrightarrow> in_time ttl i pr r ls"

lemma start_refused:
  assumes "holds_lease r w i" and "pr_owner (sv_proc (lw_services w k)) \<noteq> pr_owner (sv_proc (lw_services w i))"
  shows "\<exists>e. start_service ttl k w = (w, Inl e)"
proof -
  obtain p where p: "read_payload (lw_file w) = Some p" "lp_owner p = pr_owner (sv_proc (lw_services w i))"
      "lp_host p \<in> {None, Some (pr_host (sv_proc (lw_services w i)))}"
      "lp_pid p = Some (pr_pid (sv_proc (lw_services w i)))" "0 < pr_pid (sv_proc (lw_services w i))"
      "sv_alive w i" "lw_now w < lp_expires p"
    using assms(1) unfolding holds_lease_def by force
  have "\<not> owner_is_dead (sv_proc (lw_services w k)) (kill_of w (pr_host (sv_proc (lw_services w k)))) p"
    using p(3-6) by (auto simp: owner_is_dead_def is_pid_alive_def kill_of_def sv_alive_def)
  with p(1,2,7) assms(2) show ?thesis by (simp add: start_service_def claim_def)
qed

lemma holds_step:
  assumes "holds_lease r w i" and "\<forall>k. k \<noteq> i \<longrightarrow> pr_owner (sv_proc (lw_services w k)) \<noteq> pr_owner (sv_proc (lw_services w i))"
    and "0 < ttl" and "in_time ttl i (sv_proc (lw_services w i)) r (l # ls)" and "label_possible w l"
  obtains r' where "holds_lease r' (label_effect ttl l w) i" and "in_time ttl i (sv_proc (lw_services w i)) r' ls"
proof -
  obtain p g where p: "read_payload (lw_file w) = Some p" "sv_generation (lw_services w i) = Some g"
      "lp_owner p = pr_owner (sv_proc (lw_services w i))" "lp_generation p = g"
    using assms(1) by (auto simp: holds_lease_def)
  have other: "lp_owner p \<noteq> pr_owner (sv_proc (lw_services w k))" if "k \<noteq> i" for k
    using assms(2) that p(3) by auto
  show thesis
  proof (cases l)
    case (Tick d)
    with assms(1,4) that [of "r - d"] show thesis by (auto simp: holds_lease_def sv_alive_def)
  next
    case (Start k)
    then obtain e where "start_service ttl k w = (w, Inl e)"
      using start_refused [OF assms(1), of k ttl] assms(2,4) by auto
    with Start assms(1,4) that [of r] show thesis by simp
  next
    case (Renew k)
    show thesis
    proof (cases "k = i")
      case True
      have "assert_owner (sv_proc (lw_services w i)) g (lw_file w) = Inr ()"
        using p by (simp add: assert_owner_iff)
      then have "holds_lease ttl (label_effect ttl l w) i"
        using assms(1,3) True Renew p(2)
        by (auto simp: holds_lease_def renew_service_def renew_def sv_alive_def)
      with that assms(4) Renew True show thesis by auto
    next
      case False
      have "label_effect ttl l w = w"
      proof (cases "sv_generation (lw_services w k)")
        case (Some h)
        have "\<not> assert_owner (sv_proc (lw_services w k)) h (lw_file w) = Inr ()"
          using p(1) other [OF False] by (auto simp: assert_owner_iff)
        then show ?thesis
          using Renew Some by (cases "assert_owner (sv_proc (lw_services w k)) h (lw_file w)") (auto simp: renew_service_def renew_def)
      qed (simp add: Renew renew_service_def)
      with that [of r] assms(1,4) Renew False show thesis by simp
    qed
  next
    case (Write_Event k)
    with assms(1,4) that [of r] show thesis by (auto simp: holds_lease_def sv_alive_def write_service_def)
  next
    case (Close k)
    then have k: "k \<noteq> i" using assms(4) by simp
    have f: "lw_file (close_service k w) = lw_file w" "lw_now (close_service k w) = lw_now w"
      "lw_dead (close_service k w) = lw_dead w"
      using p(1) other [OF k] by (auto simp: close_service_def release_lease_def split: option.split)
    have "sv_generation (lw_services (close_service k w) i) = sv_generation (lw_services w i)"
      using k by (auto simp: close_service_def split: option.split)
    then have "holds_lease r (close_service k w) i"
      using assms(1) f by (auto simp: holds_lease_def sv_alive_def)
    with that [of r] assms(4) Close show thesis by simp
  next
    case (Crash h q)
    with assms(1,4) that [of r] show thesis by (auto simp: holds_lease_def sv_alive_def)
  qed
qed

lemma holds_steps:
  assumes "lease_steps ttl w tr w'" and "holds_lease r w i" and "0 < ttl"
    and "\<forall>k. k \<noteq> i \<longrightarrow> pr_owner (sv_proc (lw_services w k)) \<noteq> pr_owner (sv_proc (lw_services w i))"
    and "in_time ttl i (sv_proc (lw_services w i)) r tr"
  shows "\<exists>r'. holds_lease r' w' i"
  using assms
proof (induction arbitrary: r rule: lease_steps.induct)
  case (steps_cons w l ls w')
  obtain r' where "holds_lease r' (label_effect ttl l w) i" "in_time ttl i (sv_proc (lw_services w i)) r' ls"
    by (rule holds_step [OF steps_cons.prems(1,3,2,4) steps_cons.hyps(1)])
  with steps_cons.IH [of r'] steps_cons.prems(2,3) show ?case by simp
qed blast

lemma holds_guard: "holds_lease r w i \<Longrightarrow> guard_allows w i"
  by (auto simp: holds_lease_def guard_allows_def assert_owner_iff)

section \<open>Properties\<close>

definition demo_proc :: "nat \<Rightarrow> process" where
  "demo_proc i = \<lparr>pr_owner = (if i = 0 then ''A'' else if i = 2 then ''A'' else ''B''), pr_host = ''h'', pr_pid = int i + 1\<rparr>"

definition demo_leases :: "raw_lease option \<Rightarrow> (nat \<Rightarrow> int option) \<Rightarrow> lease_world" where
  "demo_leases f g = \<lparr>lw_file = f, lw_now = 0, lw_dead = [],
     lw_services = (\<lambda>i. \<lparr>sv_proc = demo_proc i, sv_generation = g i\<rparr>), lw_writes = []\<rparr>"

text \<open>
  C24: a service whose instance is not the owner any more gets no write through, whatever
  the other services do, until a service of its instance starts or it is closed itself.
\<close>

theorem lost_lease_is_fenced:
  assumes "lease_steps ttl w tr w'" and "owner_of w \<noteq> Some (pr_owner (sv_proc (lw_services w j)))"
    and "sv_generation (lw_services w j) \<noteq> None" and "Close j \<notin> set tr"
    and "\<And>i. Start i \<in> set tr \<Longrightarrow> pr_owner (sv_proc (lw_services w i)) \<noteq> pr_owner (sv_proc (lw_services w j))"
  shows "count_list (lw_writes w') j = count_list (lw_writes w) j"
  using fenced [OF assms(1,2) refl _ _ assms(4)] assms(3,5) by auto

lemma lost_lease_is_fenced_witness:
  "count_list (lw_writes (write_service 0 (renew_service 45 0
     (demo_leases (Some (written_lease (demo_proc 1) 2 100)) (\<lambda>i. Some 1))))) 0 = 0"
proof -
  let ?w = "demo_leases (Some (written_lease (demo_proc 1) 2 100)) (\<lambda>i. Some 1)"
  have "lease_steps 45 ?w [Renew 0, Write_Event 0] (label_effect 45 (Write_Event 0) (label_effect 45 (Renew 0) ?w))"
    by (intro lease_steps.intros)
      (simp_all add: demo_leases_def sv_alive_def renew_service_def)
  from lost_lease_is_fenced [OF this, of 0] show ?thesis
    by (simp add: demo_leases_def owner_of_def demo_proc_def)
qed

text \<open>
  a service that holds_lease the lease and renews it before it runs out keeps it: its writes
  are let through, and no service of another instance can start, while it runs.
\<close>

theorem renewing_service_keeps_lease:
  assumes "lease_steps ttl w tr w'" and "holds_lease r w i" and "0 < ttl"
    and "\<And>k. k \<noteq> i \<Longrightarrow> pr_owner (sv_proc (lw_services w k)) \<noteq> pr_owner (sv_proc (lw_services w i))"
    and "in_time ttl i (sv_proc (lw_services w i)) r tr"
  shows "guard_allows w' i \<and> (\<forall>k. k \<noteq> i \<longrightarrow> (\<exists>e. start_service ttl k w' = (w', Inl e)))"
proof -
  obtain r' where r': "holds_lease r' w' i" using holds_steps [OF assms(1-3) _ assms(5)] assms(4) by blast
  have "\<exists>e. start_service ttl k w' = (w', Inl e)" if "k \<noteq> i" for k
    by (rule start_refused [OF r']) (use assms(4) [OF that] steps_proc [OF assms(1)] in simp)
  with holds_guard [OF r'] show ?thesis by blast
qed

definition keeper_world :: lease_world where
  "keeper_world = \<lparr>lw_file = Some (written_lease \<lparr>pr_owner = ''A'', pr_host = ''h'', pr_pid = 7\<rparr> 1 45),
     lw_now = 0, lw_dead = [],
     lw_services = (\<lambda>i. if i = 0 then \<lparr>sv_proc = \<lparr>pr_owner = ''A'', pr_host = ''h'', pr_pid = 7\<rparr>, sv_generation = Some 1\<rparr>
        else \<lparr>sv_proc = \<lparr>pr_owner = ''B'', pr_host = ''h'', pr_pid = 8\<rparr>, sv_generation = None\<rparr>), lw_writes = []\<rparr>"

lemma renewing_service_keeps_lease_witness:
  "\<exists>w'. lease_steps 45 keeper_world [Tick 30, Renew 0, Start 1, Tick 30] w' \<and> lw_now w' = 60 \<and> guard_allows w' 0"
proof -
  let ?l = "label_effect 45"
  let ?w' = "?l (Tick 30) (?l (Start 1) (?l (Renew 0) (?l (Tick 30) keeper_world)))"
  have s: "lease_steps 45 keeper_world [Tick 30, Renew 0, Start 1, Tick 30] ?w'"
    by (intro lease_steps.intros)
      (simp_all add: keeper_world_def sv_alive_def renew_service_def)
  have g: "guard_allows ?w' 0 \<and> (\<forall>k. k \<noteq> 0 \<longrightarrow> (\<exists>e. start_service 45 k ?w' = (?w', Inl e)))"
    by (rule renewing_service_keeps_lease [OF s, of 45])
      (simp_all add: keeper_world_def holds_lease_def sv_alive_def)
  have n: "lw_now ?w' = 60" by (simp add: keeper_world_def)
  show ?thesis by (intro exI [of _ ?w'] conjI s n conjunct1 [OF g])
qed

text \<open>
  When the process that owns the lease is gone, a service of another instance on the
  same host can start at once, before the lease runs out, with the next generation.
\<close>

theorem crashed_owner_is_replaced:
  assumes "read_payload (lw_file w) = Some p" and "lp_host p = Some (pr_host (sv_proc (lw_services w k)))"
    and "lp_pid p = Some q" and "q \<noteq> pr_pid (sv_proc (lw_services w k))"
    and "(pr_host (sv_proc (lw_services w k)), q) \<in> set (lw_dead w)"
    and "lp_owner p \<noteq> pr_owner (sv_proc (lw_services w k))"
  shows "snd (start_service ttl k w) = Inr () \<and> guard_allows (fst (start_service ttl k w)) k \<and>
           sv_generation (lw_services (fst (start_service ttl k w)) k) = Some (lp_generation p + 1)"
proof -
  have "owner_is_dead (sv_proc (lw_services w k)) (kill_of w (pr_host (sv_proc (lw_services w k)))) p"
    using assms(2-5) by (simp add: owner_is_dead_def is_pid_alive_def kill_of_def)
  then show ?thesis
    using assms(1,6) by (simp add: start_service_def claim_def Let_def guard_allows_def assert_owner_iff)
qed

lemma crashed_owner_is_replaced_witness:
  "snd (start_service 45 1 (label_effect 45 (Crash ''h'' 7) keeper_world)) = Inr ()"
  using crashed_owner_is_replaced [of "label_effect 45 (Crash ''h'' 7) keeper_world" _ 1 7 45]
  by (simp add: keeper_world_def)

text \<open>
  The generation starts again at one after a release, so a service that was fenced off
  with generation one is let through again when its instance starts another service.
\<close>

theorem stale_token_is_accepted_after_release:
  assumes "sv_generation (lw_services w j) = Some 1"
    and "pr_owner (sv_proc (lw_services w k)) = pr_owner (sv_proc (lw_services w j))"
    and "guard_allows w i" and "sv_generation (lw_services w i) = Some g" and "i \<noteq> j" and "k \<noteq> j"
  shows "guard_allows (fst (start_service ttl k (close_service i w))) j"
proof -
  have "lw_file (close_service i w) = None"
    using assms(3,4) by (auto simp: close_service_def release_lease_def guard_allows_def assert_owner_iff)
  then have "claim pr kl t n (lw_file (close_service i w)) =
      (Some (written_lease pr 1 (n + t)), Inr \<lparr>lc_generation = 1, lc_takeover = False\<rparr>)" for pr kl t n
    by (simp add: claim_def read_payload_def)
  moreover have "sv_generation (lw_services (close_service i w) j) = Some 1"
    using assms(1,4,5) by (simp add: close_service_def)
  ultimately show ?thesis
    using assms(2,6) by (simp add: start_service_def Let_def guard_allows_def assert_owner_iff)
qed

lemma stale_token_is_accepted_after_release_witness:
  "\<not> guard_allows (demo_leases (Some (written_lease (demo_proc 1) 2 100)) (\<lambda>i. if i = 1 then Some 2 else Some 1)) 0 \<and>
   guard_allows (fst (start_service 45 2 (close_service 1
     (demo_leases (Some (written_lease (demo_proc 1) 2 100)) (\<lambda>i. if i = 1 then Some 2 else Some 1))))) 0"
  using stale_token_is_accepted_after_release
    [of "demo_leases (Some (written_lease (demo_proc 1) 2 100)) (\<lambda>i. if i = 1 then Some 2 else Some 1)" 0 2 1 2 45]
  by (simp add: demo_leases_def demo_proc_def guard_allows_def assert_owner_iff)

text \<open>
  after a service is closed its write guard does nothing, so every later write it makes
  goes through, whoever owns the lease by then.
\<close>

theorem closed_service_is_not_guarded:
  assumes "lease_steps ttl (close_service i w) tr w'" and "Start i \<notin> set tr" and "sv_generation (lw_services w i) \<noteq> None"
  shows "guard_allows w' i"
proof -
  have "sv_generation (lw_services w' i) = None" if "lease_steps ttl v tr w'" "Start i \<notin> set tr"
    "sv_generation (lw_services v i) = None" for v tr
    using that
  proof (induction rule: lease_steps.induct)
    case (steps_cons v l ls w')
    have "sv_generation (lw_services (label_effect ttl l v) i) = None"
    proof (cases "l = Close i")
      case True
      then show ?thesis using steps_cons.prems(2) by (simp add: close_service_def)
    next
      case False
      then show ?thesis using effect_token [of l i ttl v] steps_cons.prems by auto
    qed
    with steps_cons.IH steps_cons.prems(1) show ?case by simp
  qed
  then have "sv_generation (lw_services w' i) = None"
    using assms by (auto simp: close_service_def split: option.splits)
  then show ?thesis by (simp add: guard_allows_def)
qed

lemma closed_service_is_not_guarded_witness:
  "guard_allows (label_effect 45 (Start 1) (close_service 0 keeper_world)) 0"
proof (rule closed_service_is_not_guarded [of 45 0 keeper_world "[Start 1]"])
  show "lease_steps 45 (close_service 0 keeper_world) [Start 1] (label_effect 45 (Start 1) (close_service 0 keeper_world))"
    by (intro lease_steps.intros) (simp add: sv_alive_def close_service_def keeper_world_def release_lease_def)
qed (simp_all add: keeper_world_def)

end
