(* ===== verification/Run_Requests.thy ===== *)
theory Run_Requests
  imports Conv_State
begin

text \<open>
  Requests to run a conversation in the agent server (\<open>agent_server/event_service.py\<close>:
  \<open>send_message\<close>, \<open>run\<close> and the background task it creates). A step is what one coroutine does
  between two points where it waits. The run loop of the conversation is taken with the steps that
  matter here: a pass reads the messages in the log and leaves some status. A message sent with
  \<open>run=True\<close> is wanted until a pass has read it. The lemmas show when the service can come to rest
  with the conversation idle and a wanted message in it.
\<close>

section \<open>State\<close>

text \<open>The task in \<open>_run_task\<close>: created, in the run loop, or waiting for pending events.\<close>

datatype task_phase = Created | Looping | Draining

text \<open>Who calls \<open>run\<close>: \<open>send_message\<close>, the end of an earlier task, or another request.\<close>

datatype caller = Sender | Tail | Other

record run_world =
  rw_status :: execution_status
  rw_task :: "task_phase option"
  rw_senders :: nat                \<comment> \<open>callers from \<open>send_message\<close> that wait for \<open>_run_lock\<close>\<close>
  rw_request :: "(caller \<times> execution_status option) option"  \<comment> \<open>the holder of \<open>_run_lock\<close> and the status it read\<close>
  rw_rerun :: bool
  rw_publishing :: nat             \<comment> \<open>ended tasks that publish the state, before they look at the flag\<close>
  rw_checking :: nat               \<comment> \<open>that found the flag set and ask for the status\<close>
  rw_rerunning :: nat              \<comment> \<open>that call \<open>run\<close> again\<close>
  rw_wanted :: bool

section \<open>Steps\<close>

datatype run_label =
    Send_Run | Send_Only | Reject | Pause
  | Request caller | Read_Status | Decide
  | Enter | Pass execution_status | Last_Pass execution_status | Leave | Fail
  | Drained | Published | Check_Idle

text \<open>A message sets a finished or stuck conversation to idle.\<close>

definition message_status :: "execution_status \<Rightarrow> execution_status" where
  "message_status st = (if st \<in> {FINISHED, STUCK} then IDLE else st)"

text \<open>The check-and-set of \<open>run\<close>, under \<open>_run_lock\<close>.\<close>

definition refused :: "execution_status \<Rightarrow> task_phase option \<Rightarrow> bool" where
  "refused status_read task \<longleftrightarrow> status_read = RUNNING \<or> task \<noteq> None"

fun run_possible :: "run_world \<Rightarrow> run_label \<Rightarrow> bool" where
  "run_possible w Send_Run = True"
| "run_possible w Send_Only = True"
| "run_possible w Reject = True"
| "run_possible w Pause = True"
| "run_possible w (Request c) \<longleftrightarrow> rw_request w = None \<and>
     (case c of Sender \<Rightarrow> rw_senders w > 0 | Tail \<Rightarrow> rw_rerunning w > 0 | Other \<Rightarrow> True)"
| "run_possible w Read_Status \<longleftrightarrow> (\<exists>c \<in> {Sender, Tail, Other}. rw_request w = Some (c, None))"
| "run_possible w Decide \<longleftrightarrow> (case rw_request w of Some (c, Some st) \<Rightarrow> True | _ \<Rightarrow> False)"
| "run_possible w Enter \<longleftrightarrow> rw_task w = Some Created"
| "run_possible w (Pass st) \<longleftrightarrow> rw_task w = Some Looping \<and> rw_status w \<notin> {PAUSED, STUCK, FINISHED} \<and> st \<noteq> IDLE"
| "run_possible w (Last_Pass st) \<longleftrightarrow> rw_task w = Some Looping \<and> rw_status w \<notin> {PAUSED, STUCK, FINISHED} \<and>
     st \<in> {WAITING_FOR_CONFIRMATION, ERROR, FINISHED}"
| "run_possible w Leave \<longleftrightarrow> rw_task w = Some Looping \<and> rw_status w \<in> {PAUSED, STUCK, FINISHED}"
| "run_possible w Fail \<longleftrightarrow> rw_task w = Some Looping"
| "run_possible w Drained \<longleftrightarrow> rw_task w = Some Draining"
| "run_possible w Published \<longleftrightarrow> rw_publishing w > 0"
| "run_possible w Check_Idle \<longleftrightarrow> rw_checking w > 0"

definition decide :: "caller \<Rightarrow> execution_status \<Rightarrow> run_world \<Rightarrow> run_world" where
  "decide c st w =
     (if refused st (rw_task w)
      then (if c = Sender then w\<lparr>rw_request := None, rw_rerun := True\<rparr> else w\<lparr>rw_request := None\<rparr>)
      else w\<lparr>rw_request := None, rw_task := Some Created\<rparr>)"

fun run_effect :: "run_label \<Rightarrow> run_world \<Rightarrow> run_world" where
  "run_effect Send_Run w =
     w\<lparr>rw_status := message_status (rw_status w), rw_wanted := True, rw_senders := rw_senders w + 1\<rparr>"
| "run_effect Send_Only w = w\<lparr>rw_status := message_status (rw_status w)\<rparr>"
| "run_effect Reject w = (if rw_status w = WAITING_FOR_CONFIRMATION then w\<lparr>rw_status := IDLE\<rparr> else w)"
| "run_effect Pause w = (if rw_status w \<in> {IDLE, RUNNING} then w\<lparr>rw_status := PAUSED\<rparr> else w)"
| "run_effect (Request c) w =
     (case c of
        Sender \<Rightarrow> w\<lparr>rw_request := Some (c, None), rw_senders := rw_senders w - 1\<rparr>
      | Tail \<Rightarrow> w\<lparr>rw_request := Some (c, None), rw_rerunning := rw_rerunning w - 1\<rparr>
      | Other \<Rightarrow> w\<lparr>rw_request := Some (c, None)\<rparr>)"
| "run_effect Read_Status w =
     (case rw_request w of Some (c, r) \<Rightarrow> w\<lparr>rw_request := Some (c, Some (rw_status w))\<rparr> | None \<Rightarrow> w)"
| "run_effect Decide w = (case rw_request w of Some (c, Some st) \<Rightarrow> decide c st w | _ \<Rightarrow> w)"
| "run_effect Enter w =
     w\<lparr>rw_task := Some Looping,
       rw_status := (if rw_status w \<in> {IDLE, PAUSED, ERROR, STUCK} then RUNNING else rw_status w)\<rparr>"
| "run_effect (Pass st) w = w\<lparr>rw_status := st, rw_wanted := False\<rparr>"
| "run_effect (Last_Pass st) w = w\<lparr>rw_status := st, rw_wanted := False, rw_task := Some Draining\<rparr>"
| "run_effect Leave w = w\<lparr>rw_task := Some Draining\<rparr>"
| "run_effect Fail w = w\<lparr>rw_status := ERROR, rw_task := Some Draining\<rparr>"
| "run_effect Drained w = w\<lparr>rw_task := None, rw_publishing := rw_publishing w + 1\<rparr>"
| "run_effect Published w =
     (if rw_rerun w
      then w\<lparr>rw_rerun := False, rw_publishing := rw_publishing w - 1, rw_checking := rw_checking w + 1\<rparr>
      else w\<lparr>rw_publishing := rw_publishing w - 1\<rparr>)"
| "run_effect Check_Idle w =
     (if rw_status w = IDLE
      then w\<lparr>rw_checking := rw_checking w - 1, rw_rerunning := rw_rerunning w + 1\<rparr>
      else w\<lparr>rw_checking := rw_checking w - 1\<rparr>)"

inductive run_step :: "run_world \<Rightarrow> run_label \<Rightarrow> run_world \<Rightarrow> bool" where
  run_step: "run_possible w l \<Longrightarrow> run_step w l (run_effect l w)"

inductive_simps run_step_iff: "run_step w l w'"

text \<open>The flag is consumed while another task is already waiting for its events.\<close>

definition takes_flag_of_other :: "run_world \<Rightarrow> run_label \<Rightarrow> bool" where
  "takes_flag_of_other w l \<longleftrightarrow> l = Published \<and> rw_rerun w \<and> rw_task w = Some Draining"

inductive run_trace :: "(run_world \<Rightarrow> run_label \<Rightarrow> bool) \<Rightarrow> run_world \<Rightarrow> run_label list \<Rightarrow> run_world \<Rightarrow> bool" for ok where
  trace_refl: "run_trace ok w [] w"
| trace_snoc: "run_trace ok w ls w1 \<Longrightarrow> ok w1 l \<Longrightarrow> run_step w1 l w2 \<Longrightarrow> run_trace ok w (ls @ [l]) w2"

definition start_world :: "execution_status \<Rightarrow> run_world" where
  "start_world st = \<lparr>rw_status = st, rw_task = None, rw_senders = 0, rw_request = None, rw_rerun = False,
     rw_publishing = 0, rw_checking = 0, rw_rerunning = 0, rw_wanted = False\<rparr>"

definition at_rest :: "run_world \<Rightarrow> bool" where
  "at_rest w \<longleftrightarrow> rw_task w = None \<and> rw_senders w = 0 \<and> rw_request w = None \<and>
     rw_publishing w = 0 \<and> rw_checking w = 0 \<and> rw_rerunning w = 0"

section \<open>Somebody is responsible for a wanted message\<close>

definition sender_live :: "run_world \<Rightarrow> bool" where
  "sender_live w \<longleftrightarrow> rw_senders w > 0 \<or> rw_request w = Some (Sender, None) \<or>
     (\<exists>st. rw_request w = Some (Sender, Some st) \<and> st \<noteq> RUNNING)"

definition tail_live :: "run_world \<Rightarrow> bool" where
  "tail_live w \<longleftrightarrow> rw_checking w > 0 \<or> rw_rerunning w > 0 \<or> rw_request w = Some (Tail, None) \<or>
     (\<exists>st. rw_request w = Some (Tail, Some st) \<and> st \<noteq> RUNNING)"

definition wanted_inv :: "run_world \<Rightarrow> bool" where
  "wanted_inv w \<longleftrightarrow>
     (rw_wanted w \<longrightarrow> rw_status w \<notin> {FINISHED, STUCK}) \<and>
     (rw_wanted w \<and> rw_status w = IDLE \<longrightarrow>
        sender_live w \<or> rw_task w \<in> {Some Created, Some Looping} \<or>
        (rw_rerun w \<and> (rw_task w = Some Draining \<or> rw_publishing w > 0)) \<or>
        (tail_live w \<and> rw_task w \<noteq> Some Draining))"

definition allowed :: "run_world \<Rightarrow> run_label \<Rightarrow> bool" where
  "allowed w l \<longleftrightarrow> l \<noteq> Reject \<and> \<not> takes_flag_of_other w l"

lemma wanted_inv_step:
  assumes "wanted_inv w" and "allowed w l" and "run_possible w l"
  shows "wanted_inv (run_effect l w)"
proof -
  have task: "rw_task w \<in> {None, Some Created, Some Looping, Some Draining}"
    by (cases "rw_task w") (auto intro: task_phase.exhaust)
  show ?thesis
    using assms task
    by (cases l)
      (auto simp: wanted_inv_def allowed_def takes_flag_of_other_def sender_live_def tail_live_def message_status_def
        decide_def refused_def split: caller.splits option.splits if_splits prod.splits)
qed

lemma wanted_inv_trace:
  "run_trace allowed (start_world st) ls w \<Longrightarrow> wanted_inv w"
proof (induction "start_world st" ls w rule: run_trace.induct)
  case trace_refl
  then show ?case by (simp add: wanted_inv_def start_world_def)
next
  case (trace_snoc ls w1 l w2)
  then show ?case using wanted_inv_step by (auto simp: run_step_iff)
qed

section \<open>Traces that compute\<close>

fun run_all :: "run_label list \<Rightarrow> run_world \<Rightarrow> run_world option" where
  "run_all [] w = Some w"
| "run_all (l # ls) w = (if run_possible w l then run_all ls (run_effect l w) else None)"

fun all_along :: "(run_world \<Rightarrow> run_label \<Rightarrow> bool) \<Rightarrow> run_label list \<Rightarrow> run_world \<Rightarrow> bool" where
  "all_along ok [] w = True"
| "all_along ok (l # ls) w = (ok w l \<and> all_along ok ls (run_effect l w))"

lemma run_all_extends:
  assumes "run_trace ok w0 ks w" and "run_all ls w = Some w'" and "all_along ok ls w"
  shows "run_trace ok w0 (ks @ ls) w'"
  using assms
proof (induction ls arbitrary: ks w)
  case (Cons l ls)
  have "run_trace ok w0 (ks @ [l]) (run_effect l w)"
    using Cons.prems by (intro trace_snoc [OF Cons.prems(1)]) (auto simp: run_step_iff split: if_splits)
  from Cons.IH [OF this] Cons.prems show ?case by (auto split: if_splits)
qed simp

lemma run_all_trace: "run_all ls w = Some w' \<Longrightarrow> all_along ok ls w \<Longrightarrow> run_trace ok w ls w'"
  using run_all_extends [OF trace_refl, of ls w w' ok] by simp

lemma wanted_at_rest:
  assumes "wanted_inv w" and "at_rest w" and "rw_wanted w"
  shows "rw_status w \<notin> {IDLE, FINISHED, STUCK}"
  using assms by (auto simp: wanted_inv_def at_rest_def sender_live_def tail_live_def)

text \<open>The start of a run that a request makes, up to the end of its last pass.\<close>

definition one_run :: "caller \<Rightarrow> run_label list" where
  "one_run c = [Request c, Read_Status, Decide, Enter, Pass FINISHED, Leave]"

definition late_message :: "run_label list" where
  "late_message = one_run Other @ [Send_Run, Request Sender, Read_Status, Decide, Drained, Published,
     Check_Idle, Request Tail, Read_Status, Decide, Enter, Pass FINISHED, Leave, Drained, Published]"

text \<open>
  The task of a first run is slow to publish its state: a second run has ended its passes, and a third
  message has been refused, when it looks at the flag.
\<close>

definition stolen_flag :: "run_label list" where
  "stolen_flag = one_run Other @ [Drained, Send_Run] @ one_run Sender @
     [Send_Run, Request Sender, Read_Status, Decide, Published, Check_Idle, Request Tail, Read_Status, Decide,
      Drained, Published]"

text \<open>A message sent with \<open>run=True\<close> while a failed run is waiting for its pending events.\<close>

definition message_after_failure :: "run_label list" where
  "message_after_failure = [Request Other, Read_Status, Decide, Enter, Fail, Send_Run, Request Sender, Read_Status,
     Decide, Drained, Published, Check_Idle]"

lemmas trace_simps = one_run_def late_message_def stolen_flag_def message_after_failure_def start_world_def
  refused_def decide_def message_status_def at_rest_def allowed_def takes_flag_of_other_def

section \<open>Properties\<close>



text \<open>A request to run can be lost. The flag is one for all tasks, so the task of an earlier run, slow to
  publish its state, takes the request that was meant for the run still waiting for its events, finds the conversation
  idle, asks for a run and is refused; the service comes to rest with the conversation idle and a message
  sent with \<open>run=True\<close> that no run has read.\<close>

theorem rerun_request_can_be_lost:
  "\<exists>w. run_trace (\<lambda>_ _. True) (start_world IDLE) stolen_flag w \<and> at_rest w \<and> rw_wanted w \<and> rw_status w = IDLE"
proof -
  obtain w where w: "run_all stolen_flag (start_world IDLE) = Some w" "at_rest w" "rw_wanted w" "rw_status w = IDLE"
    by (simp add: trace_simps)
  have "run_trace (\<lambda>_ _. True) (start_world IDLE) stolen_flag w"
    by (rule run_all_trace [OF w(1)]) (simp add: trace_simps)
  with w show ?thesis by blast
qed

text \<open>The case the flag was made for: the message is read by a run that its task starts.\<close>

lemma late_message_is_read:
  "\<exists>w. run_trace allowed (start_world IDLE) late_message w \<and> at_rest w \<and> \<not> rw_wanted w"
proof -
  obtain w where w: "run_all late_message (start_world IDLE) = Some w" "at_rest w" "\<not> rw_wanted w"
    by (simp add: trace_simps)
  have "run_trace allowed (start_world IDLE) late_message w"
    by (rule run_all_trace [OF w(1)]) (simp add: trace_simps)
  with w show ?thesis by blast
qed

text \<open>After a failure the flag is taken but the status is \<open>ERROR\<close>, so no run follows.\<close>

lemma message_after_failure_is_dropped:
  "\<exists>w. run_trace allowed (start_world IDLE) message_after_failure w \<and> at_rest w \<and> rw_wanted w \<and> rw_status w = ERROR"
proof -
  obtain w where w: "run_all message_after_failure (start_world IDLE) = Some w" "at_rest w" "rw_wanted w"
    "rw_status w = ERROR"
    by (simp add: trace_simps)
  have "run_trace allowed (start_world IDLE) message_after_failure w"
    by (rule run_all_trace [OF w(1)]) (simp add: trace_simps)
  with w show ?thesis by blast
qed

end
