(* ===== verification/Event_Service.thy ===== *)
theory Event_Service
  imports Conv_State
begin

text \<open>
  Reading a conversation through the agent server (\<open>agent_server/event_service.py\<close>): the
  search for events page by page, the count, events by id, the final response of the agent
  (\<open>sdk/conversation/response_utils.py\<close>), and the recovery of a conversation that was running when the
  server stopped. The log is a list; timestamps, which the events leave out, are a parameter. The lemmas show that
  the pages of a search make up the matching events although the log grows between the pages, and
  what the recovery leaves for the agent to run.
\<close>

section \<open>Filters\<close>

text \<open>\<open>f"{event.__class__.__module__}.{event.__class__.__name__}"\<close>\<close>

definition in_module :: "string \<Rightarrow> string \<Rightarrow> string" where
  "in_module m c = ''openhands.sdk.event.'' @ m @ ''.'' @ c"

fun event_kind :: "event \<Rightarrow> string" where
  "event_kind (SystemPromptEvent _) = in_module ''llm_convertible.system'' ''SystemPromptEvent''"
| "event_kind (MessageEvent _) = in_module ''llm_convertible.message'' ''MessageEvent''"
| "event_kind (ActionEvent _) = in_module ''llm_convertible.action'' ''ActionEvent''"
| "event_kind (ObservationEvent _) = in_module ''llm_convertible.observation'' ''ObservationEvent''"
| "event_kind (UserRejectObservation _) = in_module ''llm_convertible.observation'' ''UserRejectObservation''"
| "event_kind (AgentErrorEvent _) = in_module ''llm_convertible.observation'' ''AgentErrorEvent''"
| "event_kind (CondensationSummaryEvent _) = in_module ''condenser'' ''CondensationSummaryEvent''"
| "event_kind (Condensation _) = in_module ''condenser'' ''Condensation''"
| "event_kind (CondensationRequest _ _) = in_module ''condenser'' ''CondensationRequest''"
| "event_kind (PauseEvent _ _) = in_module ''user_action'' ''PauseEvent''"
| "event_kind (InterruptEvent _ _) = in_module ''user_action'' ''InterruptEvent''"
| "event_kind (ConversationErrorEvent _ _ _ _) = in_module ''conversation_error'' ''ConversationErrorEvent''"
| "event_kind (ConversationStateUpdateEvent _ _ _ _) = in_module ''conversation_state'' ''ConversationStateUpdateEvent''"
| "event_kind (TokenEvent _ _ _ _) = in_module ''token'' ''TokenEvent''"
| "event_kind (HookExecutionEvent _) = in_module ''hook_execution'' ''HookExecutionEvent''"
| "event_kind (ACPToolCallEvent _ _ _) = in_module ''acp_tool_call'' ''ACPToolCallEvent''"
| "event_kind (StreamingDeltaEvent _ _ _ _) = in_module ''streaming_delta'' ''StreamingDeltaEvent''"
| "event_kind (LLMCompletionLogEvent _ _ _ _) = in_module ''llm_completion_log'' ''LLMCompletionLogEvent''"

text \<open>\<open>_event_matches_body\<close>; the parts are the content, the extended content and the reasoning.\<close>

fun event_matches_body :: "event \<Rightarrow> string \<Rightarrow> bool" where
  "event_matches_body (MessageEvent e) body =
     (let text_parts = content_to_str (m_content (me_llm_message e)) @ content_to_str (me_extended_content e) @
            (case m_reasoning_content (me_llm_message e) of
               Some r \<Rightarrow> if r = [] then [] else [r] | None \<Rightarrow> []);
          full_text = py_lower (py_join '' '' text_parts)
      in is_infix (py_lower body) full_text)"
| "event_matches_body _ body = False"

text \<open>The filters of a search; the times are already rendered by \<open>isoformat\<close>.\<close>

record event_filters =
  fl_kind :: "string option"
  fl_source :: "string option"
  fl_body :: "string option"
  fl_gte :: "string option"
  fl_lt :: "string option"

definition event_matches_filters :: "(event \<Rightarrow> string) \<Rightarrow> event_filters \<Rightarrow> event \<Rightarrow> bool" where
  "event_matches_filters timestamp fl e =
     (if (case fl_kind fl of Some k \<Rightarrow> event_kind e \<noteq> k | None \<Rightarrow> False) then False
      else if (case fl_source fl of Some s \<Rightarrow> source_str (event_source e) \<noteq> s | None \<Rightarrow> False) then False
      else if (case fl_gte fl of Some t \<Rightarrow> \<not> str_le t (timestamp e) | None \<Rightarrow> False) then False
      else if (case fl_lt fl of Some t \<Rightarrow> str_le t (timestamp e) | None \<Rightarrow> False) then False
      else if (case fl_body fl of Some b \<Rightarrow> \<not> event_matches_body e b | None \<Rightarrow> False) then False
      else True)"

section \<open>Search\<close>

datatype service_error = Inactive_Service | Unknown_Event_Id

datatype sort_order = TIMESTAMP | TIMESTAMP_DESC

record event_page =
  ep_items :: "event list"
  ep_next_page_id :: "string option"

definition index_of_id :: "event list \<Rightarrow> string \<Rightarrow> nat option" where
  "index_of_id events i = find_index (\<lambda>e. event_id e = i) events"

text \<open>The index a page starts at: an empty or unknown id means the start of the iteration.\<close>

definition start_index :: "event list \<Rightarrow> bool \<Rightarrow> string option \<Rightarrow> nat" where
  "start_index events reverse page_id =
     (case (case page_id of None \<Rightarrow> None | Some i \<Rightarrow> if i = [] then None else index_of_id events i) of
        Some k \<Rightarrow> k
      | None \<Rightarrow> if reverse then length events - 1 else 0)"

text \<open>The events in the order of \<open>range(start, total)\<close> or \<open>range(start, -1, -1)\<close>.\<close>

definition from_index :: "event list \<Rightarrow> bool \<Rightarrow> nat \<Rightarrow> event list" where
  "from_index events reverse k = (if reverse then rev (take (k + 1) events) else drop k events)"

fun collect_page :: "(event \<Rightarrow> bool) \<Rightarrow> int \<Rightarrow> event list \<Rightarrow> event list \<Rightarrow> event_page" where
  "collect_page p limit items [] = \<lparr>ep_items = items, ep_next_page_id = None\<rparr>"
| "collect_page p limit items (e # es) =
     (if \<not> p e then collect_page p limit items es
      else if int (length items) \<ge> limit then \<lparr>ep_items = items, ep_next_page_id = Some (event_id e)\<rparr>
      else collect_page p limit (items @ [e]) es)"

definition search_page ::
    "(event \<Rightarrow> bool) \<Rightarrow> sort_order \<Rightarrow> int \<Rightarrow> event list \<Rightarrow> string option \<Rightarrow> event_page" where
  "search_page p sort_order limit events page_id =
     (let reverse = (sort_order = TIMESTAMP_DESC)
      in collect_page p limit [] (from_index events reverse (start_index events reverse page_id)))"

text \<open>\<open>_search_events_sync\<close>; the log is there while the service is active.\<close>

definition search_events ::
    "(event \<Rightarrow> string) \<Rightarrow> event_filters \<Rightarrow> sort_order \<Rightarrow> int \<Rightarrow> event list option \<Rightarrow> string option
       \<Rightarrow> (service_error, event_page) result" where
  "search_events timestamp fl sort_order limit conversation page_id =
     (case conversation of
        None \<Rightarrow> Inl Inactive_Service
      | Some events \<Rightarrow>
          Inr (search_page (event_matches_filters timestamp fl) sort_order limit events page_id))"

fun count_loop :: "(event \<Rightarrow> bool) \<Rightarrow> event list \<Rightarrow> nat \<Rightarrow> nat" where
  "count_loop p [] n = n"
| "count_loop p (e # es) n = count_loop p es (if p e then n + 1 else n)"

definition count_events ::
    "(event \<Rightarrow> string) \<Rightarrow> event_filters \<Rightarrow> event list option \<Rightarrow> (service_error, nat) result" where
  "count_events timestamp fl conversation =
     (case conversation of
        None \<Rightarrow> Inl Inactive_Service
      | Some events \<Rightarrow>
          if fl_kind fl = None \<and> fl_source fl = None \<and> fl_body fl = None \<and> fl_gte fl = None \<and> fl_lt fl = None
          then Inr (length events)
          else Inr (count_loop (event_matches_filters timestamp fl) events 0))"

definition get_event :: "event list option \<Rightarrow> string \<Rightarrow> (service_error, event) result" where
  "get_event conversation i =
     (case conversation of
        None \<Rightarrow> Inl Inactive_Service
      | Some events \<Rightarrow> (case index_of_id events i of None \<Rightarrow> Inl Unknown_Event_Id | Some k \<Rightarrow> Inr (events ! k)))"

text \<open>\<open>batch_get_events\<close>: \<open>asyncio.gather\<close> raises what one of the calls raises.\<close>

definition batch_get_events ::
    "event list option \<Rightarrow> string list \<Rightarrow> (service_error, event list) result" where
  "batch_get_events conversation ids = map_res (get_event conversation) ids"

section \<open>The final response\<close>

text \<open>\<open>FinishTool.name\<close> is made from the name of the class.\<close>

definition finish_tool_name :: string where
  "finish_tool_name = ''finish''"

fun final_response_walk :: "event list \<Rightarrow> string" where
  "final_response_walk [] = []"
| "final_response_walk (e # es) =
     (case e of
        ActionEvent a \<Rightarrow>
          if ae_source a = SrcAgent \<and> ae_tool_name a = finish_tool_name
          then (case ae_action a of Some (FinishAction m) \<Rightarrow> m | _ \<Rightarrow> [])
          else final_response_walk es
      | MessageEvent m \<Rightarrow>
          if me_source m = SrcAgent then concat (content_to_str (m_content (me_llm_message m)))
          else final_response_walk es
      | _ \<Rightarrow> final_response_walk es)"

definition get_agent_final_response :: "event list \<Rightarrow> string" where
  "get_agent_final_response events = final_response_walk (rev events)"

section \<open>Recovery at the start\<close>

definition restart_error :: string where
  "restart_error = ''A restart occurred while this tool was in progress. ''
     @ ''This may indicate a fatal memory error or system crash. ''
     @ ''The tool execution was interrupted and did not complete.''"

definition log_event :: "event \<Rightarrow> 's conv_state \<Rightarrow> 's conv_state" where
  "log_event e st = st\<lparr>cs_events := cs_events st @ [e]\<rparr>"

text \<open>
  The end of \<open>start\<close>: the state change callback is the conversation's \<open>_on_event\<close>, so the new status is an
  event of the log. \<open>new_id\<close> gives the ids of the two events.
\<close>

definition recover_interrupted ::
    "'s persist_env \<Rightarrow> (nat \<Rightarrow> string) \<Rightarrow> 's conv_state \<Rightarrow> 's conv_state \<times> state_error option" where
  "recover_interrupted env new_id st =
     (if cf_execution_status (cs_fields st) \<noteq> RUNNING then (st, None)
      else case setattr env ''execution_status'' (cf_execution_status_update (\<lambda>_. ERROR)) st of
             (st1, Some e) \<Rightarrow> (st1, Some e)
           | (st1, None) \<Rightarrow>
               let st2 = (if cs_notified st1 \<noteq> cs_notified st
                          then log_event (ConversationStateUpdateEvent (new_id 0) SrcEnvironment
                                 ''execution_status'' (JStr ''error'')) st1
                          else st1)
               in case get_unmatched_actions (cs_events st2) of
                    [] \<Rightarrow> (st2, None)
                  | first_action # _ \<Rightarrow>
                      if list_ex (\<lambda>e. observed_call e = Some (ae_tool_call_id first_action)) (cs_events st2)
                      then (st2, None)
                      else (log_event (AgentErrorEvent
                              \<lparr>er_id = new_id 1, er_source = SrcAgent,
                               er_tool_name = ae_tool_name first_action,
                               er_tool_call_id = ae_tool_call_id first_action,
                               er_error = restart_error\<rparr>) st2, None))"

section \<open>Lemmas on pages\<close>

lemma collect_page_end:
  assumes "int (length items) + int (length (filter p es)) \<le> limit"
  shows "collect_page p limit items es = \<lparr>ep_items = items @ filter p es, ep_next_page_id = None\<rparr>"
  using assms by (induction p limit items es rule: collect_page.induct) auto

lemma collect_page_cut:
  assumes "int (length items) \<le> limit" and "limit < int (length items) + int (length (filter p es))"
  shows "\<exists>xs e ys. es = xs @ e # ys \<and> p e \<and> int (length items) + int (length (filter p xs)) = limit \<and>
     collect_page p limit items es = \<lparr>ep_items = items @ filter p xs, ep_next_page_id = Some (event_id e)\<rparr>"
  using assms
proof (induction p limit items es rule: collect_page.induct)
  case (2 p limit items e es)
  show ?case
  proof (cases "p e")
    case False
    with 2 obtain xs e' ys where "es = xs @ e' # ys" "p e'" "int (length items) + int (length (filter p xs)) = limit"
      "collect_page p limit items es = \<lparr>ep_items = items @ filter p xs, ep_next_page_id = Some (event_id e')\<rparr>"
      by auto
    with False show ?thesis by (intro exI [of _ "e # xs"] exI [of _ e'] exI [of _ ys]) simp
  next
    case p: True
    show ?thesis
    proof (cases "int (length items) \<ge> limit")
      case True
      with p 2(3) show ?thesis by (intro exI [of _ "[]"] exI [of _ e] exI [of _ es]) simp
    next
      case False
      with p 2 obtain xs e' ys where "es = xs @ e' # ys" "p e'"
        "int (length (items @ [e])) + int (length (filter p xs)) = limit"
        "collect_page p limit (items @ [e]) es =
           \<lparr>ep_items = (items @ [e]) @ filter p xs, ep_next_page_id = Some (event_id e')\<rparr>"
        by auto
      with p False show ?thesis by (intro exI [of _ "e # xs"] exI [of _ e'] exI [of _ ys]) simp
    qed
  qed
qed simp

lemma get_index_split:
  assumes "distinct (map event_id (xs @ e # ys))"
  shows "index_of_id (xs @ e # ys) (event_id e) = Some (length xs)"
  using assms unfolding index_of_id_def by (intro find_index_append_first) (auto simp: image_iff)

lemma start_index_split:
  assumes "distinct (map event_id (xs @ e # ys))" and "event_id e \<noteq> []"
  shows "start_index (xs @ e # ys) reverse (Some (event_id e)) = length xs"
  using assms by (simp add: start_index_def get_index_split)

section \<open>Following the pages\<close>

text \<open>
  The loop of a client (\<open>_do_full_sync\<close> and \<open>reconcile\<close> of the remote conversation use it): request \<open>k\<close> is answered by
  \<open>request k\<close>, which is \<open>None\<close> when it fails. The result is what was read and whether the end was reached, or \<open>None\<close> when the
  fuel is too small.
\<close>

fun fetch_loop ::
    "nat \<Rightarrow> (nat \<Rightarrow> string option \<Rightarrow> event_page option) \<Rightarrow> nat \<Rightarrow> event list \<Rightarrow> string option
       \<Rightarrow> (event list \<times> bool) option" where
  "fetch_loop 0 request k events page_id = None"
| "fetch_loop (Suc n) request k events page_id =
     (case request k page_id of
        None \<Rightarrow> Some (events, False)
      | Some page \<Rightarrow>
          (case ep_next_page_id page of
             None \<Rightarrow> Some (events @ ep_items page, True)
           | Some i \<Rightarrow>
               if i = [] then Some (events @ ep_items page, True)
               else fetch_loop n request (k + 1) (events @ ep_items page) (Some i)))"

definition answering ::
    "(event \<Rightarrow> bool) \<Rightarrow> sort_order \<Rightarrow> int \<Rightarrow> (nat \<Rightarrow> event list) \<Rightarrow> nat \<Rightarrow> string option \<Rightarrow> event_page option" where
  "answering p order limit logs k page_id = Some (search_page p order limit (logs k) page_id)"

lemma fetch_step:
  "fetch_loop (Suc n) (answering p order limit logs) k acc pid =
     (let page = search_page p order limit (logs k) pid
      in case ep_next_page_id page of
           None \<Rightarrow> Some (acc @ ep_items page, True)
         | Some i \<Rightarrow>
             if i = [] then Some (acc @ ep_items page, True)
             else fetch_loop n (answering p order limit logs) (k + 1) (acc @ ep_items page) (Some i))"
  by (simp add: answering_def Let_def)

text \<open>A log that other threads append to between the requests.\<close>

definition growing :: "(nat \<Rightarrow> event list) \<Rightarrow> nat \<Rightarrow> bool" where
  "growing logs bound \<longleftrightarrow>
     (\<forall>k. prefix (logs k) (logs (k + 1)) \<and> length (logs k) \<le> bound \<and> distinct (map event_id (logs k)) \<and>
          (\<forall>e \<in> set (logs k). event_id e \<noteq> []))"

lemma growingD:
  assumes "growing logs bound"
  shows "prefix (logs k) (logs (k + 1))" "length (logs k) \<le> bound" "distinct (map event_id (logs k))"
    "e \<in> set (logs k) \<Longrightarrow> event_id e \<noteq> []"
  using assms by (auto simp: growing_def)

lemma growing_prefix:
  assumes "growing logs bound" and "k \<le> j"
  shows "prefix (logs k) (logs j)"
  using assms(2)
proof (induction j)
  case (Suc j)
  then show ?case
    using growingD(1) [OF assms(1), of j] by (cases "k = Suc j") (auto intro: prefix_order.trans)
qed simp

lemma growing_split:
  assumes "growing logs bound" and "k \<le> j" and "logs k = as @ e # bs"
  shows "start_index (logs j) reverse (Some (event_id e)) = length as"
proof -
  obtain zs where j: "logs j = as @ e # bs @ zs"
    using growing_prefix [OF assms(1,2)] assms(3) by (auto simp: prefix_def)
  show ?thesis
    unfolding j
    using growingD(3) [OF assms(1), of j] growingD(4) [OF assms(1), of e j] j
    by (intro start_index_split) simp_all
qed

lemma page_step:
  fixes p :: "event \<Rightarrow> bool" and es :: "event list"
  assumes "1 \<le> limit"
  defines "page \<equiv> collect_page p limit [] es"
  shows "(ep_next_page_id page = None \<and> ep_items page = filter p es) \<or>
    (\<exists>xs e ys. es = xs @ e # ys \<and> xs \<noteq> [] \<and> ep_next_page_id page = Some (event_id e) \<and> ep_items page = filter p xs)"
proof (cases "int (length (filter p es)) \<le> limit")
  case True
  then show ?thesis unfolding page_def by (intro disjI1) (simp add: collect_page_end)
next
  case False
  then obtain xs e ys where "es = xs @ e # ys" "int (length (filter p xs)) = limit"
    "page = \<lparr>ep_items = filter p xs, ep_next_page_id = Some (event_id e)\<rparr>"
    using collect_page_cut [of "[]" limit p es] assms(1) unfolding page_def by auto
  moreover from this assms(1) have "xs \<noteq> []" by (cases xs) auto
  ultimately show ?thesis by (intro disjI2 exI [of _ xs] exI [of _ e] exI [of _ ys] conjI) simp_all
qed

lemma fetch_forward:
  assumes "growing logs bound" and "1 \<le> limit"
    and "s \<le> length (logs k)" and "start_index (logs k) False pid = s" and "bound < fuel + s"
  shows "\<exists>j \<ge> k. fetch_loop fuel (answering p TIMESTAMP limit logs) k acc pid = Some (acc @ filter p (drop s (logs j)), True)"
  using assms(3-5)
proof (induction fuel arbitrary: k s acc pid)
  case 0
  then show ?case using growingD(2) [OF assms(1), of k] by simp
next
  case (Suc fuel)
  define es where "es = drop s (logs k)"
  have search: "search_page p TIMESTAMP limit (logs k) pid = collect_page p limit [] es"
    using Suc.prems(2) by (simp add: search_page_def from_index_def es_def)
  from page_step [OF assms(2), of p es] show ?case
  proof (elim disjE exE conjE)
    assume "ep_next_page_id (collect_page p limit [] es) = None"
      and "ep_items (collect_page p limit [] es) = filter p es"
    then show ?thesis by (intro exI [of _ k]) (simp add: fetch_step search es_def del: fetch_loop.simps)
  next
    fix xs e ys
    assume es: "es = xs @ e # ys" and xs: "xs \<noteq> []"
      and nxt: "ep_next_page_id (collect_page p limit [] es) = Some (event_id e)"
      and items: "ep_items (collect_page p limit [] es) = filter p xs"
    have k: "logs k = (take s (logs k) @ xs) @ e # ys" using es by (metis append.assoc append_take_drop_id es_def)
    have ne: "event_id e \<noteq> []" using growingD(4) [OF assms(1), of e k] k by (metis in_set_conv_decomp)
    let ?s = "s + length xs"
    have len: "length (take s (logs k) @ xs) = ?s" using Suc.prems(1) by simp
    have start: "start_index (logs (k + 1)) False (Some (event_id e)) = ?s"
      using growing_split [OF assms(1) _ k, of "k + 1" False] len by simp
    have "?s \<le> length (logs k)" using k len by (metis length_append trans_le_add1 order_refl)
    then have le: "?s \<le> length (logs (k + 1))"
      using prefix_length_le [OF growingD(1) [OF assms(1)], of k] by simp
    have fuel: "bound < fuel + ?s" using Suc.prems(3) xs by (cases xs) auto
    obtain j where j: "j \<ge> k + 1"
      "fetch_loop fuel (answering p TIMESTAMP limit logs) (k + 1) (acc @ filter p xs) (Some (event_id e)) =
         Some ((acc @ filter p xs) @ filter p (drop ?s (logs j)), True)"
      using Suc.IH [OF le start fuel] by blast
    obtain zs where "logs j = logs k @ zs"
      using growing_prefix [OF assms(1), of k j] j(1) by (auto simp: prefix_def)
    then have d: "drop s (logs j) = xs @ e # ys @ zs"
      using es Suc.prems(1) unfolding es_def by simp
    then have "drop ?s (logs j) = e # ys @ zs"
      by (metis add.commute append_eq_conv_conj drop_drop)
    with d have "drop s (logs j) = xs @ drop ?s (logs j)" by simp
    then show ?thesis
      using j ne by (intro exI [of _ j]) (simp add: fetch_step search nxt items del: fetch_loop.simps)
  qed
qed

lemma fetch_backward:
  assumes "growing logs bound" and "1 \<le> limit"
    and "start_index (logs k) True pid = s" and "s < fuel"
  shows "fetch_loop fuel (answering p TIMESTAMP_DESC limit logs) k acc pid =
    Some (acc @ filter p (rev (take (s + 1) (logs k))), True)"
  using assms(3,4)
proof (induction fuel arbitrary: k s acc pid)
  case (Suc fuel)
  define es where "es = rev (take (s + 1) (logs k))"
  have search: "search_page p TIMESTAMP_DESC limit (logs k) pid = collect_page p limit [] es"
    using Suc.prems(1) by (simp add: search_page_def from_index_def es_def)
  from page_step [OF assms(2), of p es] show ?case
  proof (elim disjE exE conjE)
    assume "ep_next_page_id (collect_page p limit [] es) = None"
      and "ep_items (collect_page p limit [] es) = filter p es"
    then show ?thesis by (simp add: fetch_step search es_def del: fetch_loop.simps)
  next
    fix xs e ys
    assume es: "es = xs @ e # ys" and xs: "xs \<noteq> []"
      and nxt: "ep_next_page_id (collect_page p limit [] es) = Some (event_id e)"
      and items: "ep_items (collect_page p limit [] es) = filter p xs"
    have tk: "take (s + 1) (logs k) = rev ys @ e # rev xs"
      using arg_cong [OF es, of rev] unfolding es_def by simp
    then have k: "logs k = rev ys @ e # (rev xs @ drop (s + 1) (logs k))"
      by (metis append.assoc append_Cons append_take_drop_id)
    have ne: "event_id e \<noteq> []" using growingD(4) [OF assms(1), of e k] k by (metis in_set_conv_decomp)
    have start: "start_index (logs (k + 1)) True (Some (event_id e)) = length ys"
      using growing_split [OF assms(1) _ k, of "k + 1" True] by simp
    have "length (rev ys @ e # rev xs) \<le> s + 1" using tk by (metis length_take min.cobounded2)
    then have fuel: "length ys < fuel" using Suc.prems(2) xs by (cases xs) auto
    obtain zs where "logs (k + 1) = logs k @ zs" using growingD(1) [OF assms(1), of k] by (auto simp: prefix_def)
    then have "take (length ys + 1) (logs (k + 1)) = rev ys @ [e]" by (subst (asm) k) simp
    with Suc.IH [OF start fuel, of "acc @ filter p xs"]
    have "fetch_loop fuel (answering p TIMESTAMP_DESC limit logs) (k + 1) (acc @ filter p xs) (Some (event_id e)) =
        Some (acc @ filter p es, True)"
      using es by simp
    then show ?thesis
      unfolding es_def [symmetric] using ne by (simp add: fetch_step search nxt items del: fetch_loop.simps)
  qed
qed simp

section \<open>Counts, single events and the final response\<close>

lemma count_loop_eq: "count_loop p es n = n + length (filter p es)"
  by (induction p es n rule: count_loop.induct) auto

lemma no_filters: "fl_kind fl = None \<Longrightarrow> fl_source fl = None \<Longrightarrow> fl_body fl = None \<Longrightarrow> fl_gte fl = None \<Longrightarrow>
    fl_lt fl = None \<Longrightarrow> event_matches_filters timestamp fl e"
  by (simp add: event_matches_filters_def)

lemma count_is_length_of_matches:
  "count_events timestamp fl (Some events) = Inr (length (filter (event_matches_filters timestamp fl) events))"
  by (simp add: count_events_def count_loop_eq no_filters)

text \<open>The two bounds on the time cut out an interval that is closed below and open above.\<close>

lemma filter_by_time:
  "event_matches_filters timestamp \<lparr>fl_kind = None, fl_source = None, fl_body = None, fl_gte = Some a, fl_lt = Some b\<rparr> e
     \<longleftrightarrow> str_le a (timestamp e) \<and> \<not> str_le b (timestamp e)"
  by (simp add: event_matches_filters_def)

lemma get_event_Inr:
  assumes "get_event (Some events) i = Inr e"
  shows "e \<in> set events \<and> event_id e = i"
  using assms find_index_SomeD [of "\<lambda>e. event_id e = i" events]
  by (auto simp: get_event_def index_of_id_def split: option.splits)

lemma get_event_known:
  assumes "distinct (map event_id events)" and "e \<in> set events"
  shows "get_event (Some events) (event_id e) = Inr e"
proof -
  obtain xs ys where es: "events = xs @ e # ys" using assms(2) by (meson split_list)
  show ?thesis using assms(1) unfolding es get_event_def by (simp add: get_index_split)
qed

text \<open>One unknown id makes the whole batch fail.\<close>

lemma batch_with_unknown_id:
  "i \<in> set ids \<Longrightarrow> i \<notin> event_id ` set events \<Longrightarrow> batch_get_events (Some events) ids = Inl Unknown_Event_Id"
proof (induction ids)
  case (Cons j ids)
  show ?case
  proof (cases "get_event (Some events) j")
    case (Inl e)
    then show ?thesis by (auto simp: batch_get_events_def get_event_def split: option.splits)
  next
    case (Inr e)
    then have "j \<noteq> i" using get_event_Inr Cons.prems(2) by blast
    with Inr Cons show ?thesis by (auto simp: batch_get_events_def)
  qed
qed simp

text \<open>A kind without a module matches no event.\<close>

lemma unqualified_kind_matches_nothing:
  assumes "fl_kind fl = Some k" and "CHR ''.'' \<notin> set k"
  shows "\<not> event_matches_filters timestamp fl e"
proof -
  have "CHR ''.'' \<in> set (event_kind e)" by (cases e) (simp_all add: in_module_def)
  with assms show ?thesis by (auto simp: event_matches_filters_def)
qed

fun ends_response :: "event \<Rightarrow> bool" where
  "ends_response (ActionEvent a) \<longleftrightarrow> ae_source a = SrcAgent \<and> ae_tool_name a = finish_tool_name"
| "ends_response (MessageEvent m) \<longleftrightarrow> me_source m = SrcAgent"
| "ends_response _ \<longleftrightarrow> False"

lemma final_response_walk_skip:
  "\<forall>e \<in> set ys. \<not> ends_response e \<Longrightarrow> final_response_walk (ys @ zs) = final_response_walk zs"
proof (induction ys)
  case (Cons y ys)
  then show ?case by (cases y) auto
qed simp

lemma final_response_is_last:
  assumes "\<forall>e \<in> set ys. \<not> ends_response e"
  shows "get_agent_final_response (xs @ e # ys) = get_agent_final_response (xs @ [e])"
  using assms by (simp add: get_agent_final_response_def final_response_walk_skip)

section \<open>Lemmas on the recovery\<close>

lemma pending_snoc:
  assumes "action_call e = None"
  shows "pending_actions (es @ [e]) = filter (\<lambda>a. \<not> answers e a) (pending_actions es)"
proof (induction es)
  case Nil
  then show ?case using assms by (cases e) auto
next
  case (Cons x es)
  then show ?case by (cases x) auto
qed

lemma setattr_status:
  assumes "cf_execution_status (cs_fields st) = RUNNING" and "cs_autosave st" and "cs_save_depth st = 0"
    and "pe_write_ok env (cs_writes st)"
  shows "setattr env ''execution_status'' (cf_execution_status_update (\<lambda>_. ERROR)) st =
    (notify ''execution_status'' (st\<lparr>cs_fields := (cs_fields st)\<lparr>cf_execution_status := ERROR\<rparr>,
       cs_writes := cs_writes st + 1,
       cs_base_state := Some (pe_dump env ((cs_fields st)\<lparr>cf_execution_status := ERROR\<rparr>))\<rparr>), None)"
proof -
  have "(cs_fields st)\<lparr>cf_execution_status := ERROR\<rparr> \<noteq> cs_fields st"
    using assms(1) by (metis conv_fields.ext_inject conv_fields.surjective conv_fields.update_convs(7) execution_status.distinct)
  then show ?thesis using assms(2-4) by (simp add: setattr_def save_base_state_def Let_def)
qed

definition restarted :: "'s persist_env \<Rightarrow> 's conv_state \<Rightarrow> bool" where
  "restarted env st \<longleftrightarrow> cf_execution_status (cs_fields st) = RUNNING \<and> cs_autosave st \<and> cs_save_depth st = 0 \<and>
     cs_callback st \<and> pe_write_ok env (cs_writes st)"

lemma recover_events:
  assumes "restarted env st" and "get_unmatched_actions (cs_events st) = a # as"
    and "\<forall>e \<in> set (cs_events st). observed_call e \<noteq> Some (ae_tool_call_id a)"
    and "recover_interrupted env new_id st = (st', r)"
  defines "update \<equiv> ConversationStateUpdateEvent (new_id 0) SrcEnvironment ''execution_status'' (JStr ''error'')"
    and "error \<equiv> \<lparr>er_id = new_id 1, er_source = SrcAgent, er_tool_name = ae_tool_name a,
       er_tool_call_id = ae_tool_call_id a, er_error = restart_error\<rparr>"
  shows "r = None" and "cs_events st' = cs_events st @ [update, AgentErrorEvent error]"
    and "cf_execution_status (cs_fields st') = ERROR"
    and "cs_base_state st' = Some (pe_dump env (cs_fields st'))"
proof -
  have pending: "pending_actions (cs_events st @ [update]) = a # as"
    using assms(2) by (simp add: get_unmatched_actions_eq pending_snoc update_def)
  have "\<not> list_ex (\<lambda>e. observed_call e = Some (ae_tool_call_id a)) (cs_events st @ [update])"
    using assms(3) by (auto simp: list_ex_iff update_def)
  then have run: "r = None \<and> cs_events st' = cs_events st @ [update, AgentErrorEvent error] \<and>
      cf_execution_status (cs_fields st') = ERROR \<and> cs_base_state st' = Some (pe_dump env (cs_fields st'))"
    using assms(1,4) pending
    by (auto simp: recover_interrupted_def restarted_def setattr_status notify_def log_event_def
      get_unmatched_actions_eq Let_def update_def error_def)
  show "r = None" "cs_events st' = cs_events st @ [update, AgentErrorEvent error]"
    "cf_execution_status (cs_fields st') = ERROR" "cs_base_state st' = Some (pe_dump env (cs_fields st'))"
    using run by simp_all
qed

section \<open>Properties\<close>

definition demo_log :: "event list" where
  "demo_log = map (\<lambda>i. sample_message i SrcUser) [''m1'', ''m2'', ''m3'', ''m4'', ''m5'']"

definition demo_logs :: "nat \<Rightarrow> event list" where
  "demo_logs k = take (k + 3) demo_log"

lemma growing_demo: "growing demo_logs 5"
proof -
  have dis: "distinct (map event_id demo_log)" and ne: "\<forall>e \<in> set demo_log. event_id e \<noteq> []"
    by (simp_all add: demo_log_def sample_message_def)
  have "prefix (take (k + 3) demo_log) (take (k + 1 + 3) demo_log)" for k
    by (metis add.commute add_le_cancel_left le_add2 min.absorb1 take_is_prefix take_take add.assoc)
  moreover have "distinct (map event_id (take n demo_log))" for n
    using dis by (metis distinct_take take_map)
  moreover have "length (take n demo_log) \<le> 5" for n by (simp add: demo_log_def)
  ultimately show ?thesis
    using ne by (auto simp: growing_def demo_logs_def dest: in_set_takeD)
qed

text \<open>Following the pages of a search gives every matching event once and in order, although the log grows between
  the requests: forwards, the result is the matching events of one of the logs met on the way; backwards, it is those of
  the first log, last first. The walk ends after at most as many requests as the log has events at its
  longest, plus one.\<close>

theorem paging_returns_matching_events:
  assumes "growing logs bound" and "1 \<le> limit" and "bound < fuel"
  shows "\<exists>k. fetch_loop fuel (answering p order limit logs) 0 [] None =
    Some (if order = TIMESTAMP then filter p (logs k) else rev (filter p (logs 0)), True)"
proof (cases order)
  case TIMESTAMP
  then show ?thesis
    using fetch_forward [OF assms(1,2), of 0 0 None fuel p "[]"] assms(3)
    by (auto simp: start_index_def)
next
  case TIMESTAMP_DESC
  have "length (logs 0) - 1 < fuel" using growingD(2) [OF assms(1), of 0] assms(3) by simp
  then show ?thesis
    using fetch_backward [OF assms(1,2), of 0 None "length (logs 0) - 1" fuel p "[]"] TIMESTAMP_DESC
    by (simp add: start_index_def rev_filter)
qed

lemma paging_returns_matching_events_witness:
  "\<exists>k. fetch_loop 6 (answering (\<lambda>e. event_id e \<noteq> ''m2'') TIMESTAMP 1 demo_logs) 0 [] None =
    Some (filter (\<lambda>e. event_id e \<noteq> ''m2'') (demo_logs k), True)"
  using paging_returns_matching_events [OF growing_demo, of 1 6 "\<lambda>e. event_id e \<noteq> ''m2''" TIMESTAMP] by simp

text \<open>A conversation that was running when the server stopped comes back with the status \<open>ERROR\<close>, saved, and with an
  agent error that answers the first pending action. Only that call is closed: the other pending actions,
  those the parallel executor had also started, stay pending in their order for the next run to execute.\<close>

theorem restart_closes_first_pending:
  assumes "restarted env st" and "get_unmatched_actions (cs_events st) = a # as"
    and "\<forall>e \<in> set (cs_events st). observed_call e \<noteq> Some (ae_tool_call_id a)"
    and "recover_interrupted env new_id st = (st', r)"
  shows "r = None \<and> cf_execution_status (cs_fields st') = ERROR \<and>
     cs_base_state st' = Some (pe_dump env (cs_fields st')) \<and>
     get_unmatched_actions (cs_events st') = filter (\<lambda>b. ae_tool_call_id b \<noteq> ae_tool_call_id a) as"
proof -
  note ev = recover_events [OF assms]
  have "pending_actions (cs_events st') = filter (\<lambda>b. ae_tool_call_id b \<noteq> ae_tool_call_id a) (a # as)"
    using assms(2) pending_snoc [of "AgentErrorEvent e" "cs_events st @ [u]" for e u]
    by (simp add: ev(2) get_unmatched_actions_eq pending_snoc eq_commute [of "ae_tool_call_id a"]
      flip: append.assoc [of _ "[_]" "[_]", simplified])
  then show ?thesis using ev(1,3,4) by (simp add: get_unmatched_actions_eq)
qed

definition interrupted_state :: "conv_fields conv_state" where
  "interrupted_state =
     (state_of ((fresh_fields ''id'' ''agent'' ''ws'' None 500 True)\<lparr>cf_execution_status := RUNNING\<rparr>)
        [sample_message ''m'' SrcUser, sample_action ''a1'' ''c1'' ''r'', sample_action ''a2'' ''c2'' ''r''] None True)
       \<lparr>cs_callback := True\<rparr>"

lemma restart_closes_first_pending_witness:
  "\<exists>st' r. recover_interrupted sample_env show_nat interrupted_state = (st', r) \<and> r = None \<and>
     map ae_id (get_unmatched_actions (cs_events interrupted_state)) = [''a1'', ''a2''] \<and>
     map ae_id (get_unmatched_actions (cs_events st')) = [''a2'']"
proof -
  obtain st' r where run: "recover_interrupted sample_env show_nat interrupted_state = (st', r)" by fastforce
  have start: "restarted sample_env interrupted_state"
    by (simp add: restarted_def interrupted_state_def state_of_def sample_env_def)
  have pending: "get_unmatched_actions (cs_events interrupted_state) =
      sample_action_event ''a1'' ''c1'' ''r'' (Some (ToolAction ''ExecuteBashAction'' [])) #
      [sample_action_event ''a2'' ''c2'' ''r'' (Some (ToolAction ''ExecuteBashAction'' []))]"
    by (simp add: get_unmatched_actions_eq interrupted_state_def state_of_def sample_defs)
  have "\<forall>e \<in> set (cs_events interrupted_state).
      observed_call e \<noteq> Some (ae_tool_call_id (sample_action_event ''a1'' ''c1'' ''r'' (Some (ToolAction ''ExecuteBashAction'' []))))"
    by (simp add: interrupted_state_def state_of_def sample_defs)
  from restart_closes_first_pending [OF start pending this run] run pending show ?thesis
    by (simp add: sample_action_event_def)
qed

end
