(* ===== verification/Remote_Events.thy ===== *)
theory Remote_Events
  imports Event_Service
begin

text \<open>
  The event cache of a remote conversation (\<open>RemoteEventsList\<close> of
  \<open>sdk/conversation/impl/remote_conversation.py\<close>): the first synchronization and the reconciliation page through
  the search of the agent server (\<open>Event_Service\<close>), the websocket adds single events in any order. The
  lemmas show that after a reconciliation the cache holds the whole log, ordered by time and without
  duplicates, and what the replacement of tool call updates of an ACP agent does to that order.
\<close>

section \<open>Binary search\<close>

text \<open>\<open>bisect.bisect_right(es, t, key=...)\<close>\<close>

function bisect_right :: "(event \<Rightarrow> string) \<Rightarrow> event list \<Rightarrow> string \<Rightarrow> nat \<Rightarrow> nat \<Rightarrow> nat" where
  "bisect_right timestamp es t lo hi =
     (if lo < hi then
        (let mid = (lo + hi) div 2
         in if \<not> str_le (timestamp (es ! mid)) t then bisect_right timestamp es t lo mid
            else bisect_right timestamp es t (mid + 1) hi)
      else lo)"
  by pat_completeness auto
termination
  by (relation "measure (\<lambda>(timestamp, es, t, lo, hi). hi - lo)") auto

declare bisect_right.simps [simp del]

abbreviation by_time :: "(event \<Rightarrow> string) \<Rightarrow> event list \<Rightarrow> bool" where
  "by_time timestamp \<equiv> sorted_wrt (\<lambda>a b. str_le (timestamp a) (timestamp b))"

lemma bisect_right_bounds:
  assumes "by_time timestamp es" and "lo \<le> hi" and "hi \<le> length es"
    and "\<forall>i < lo. str_le (timestamp (es ! i)) t"
    and "\<forall>i < length es. hi \<le> i \<longrightarrow> \<not> str_le (timestamp (es ! i)) t"
  defines "k \<equiv> bisect_right timestamp es t lo hi"
  shows "k \<le> length es \<and> (\<forall>i < k. str_le (timestamp (es ! i)) t) \<and>
    (\<forall>i < length es. k \<le> i \<longrightarrow> \<not> str_le (timestamp (es ! i)) t)"
  using assms(1-5) unfolding k_def
proof (induction timestamp es t lo hi rule: bisect_right.induct)
  case (1 timestamp es t lo hi)
  let ?mid = "(lo + hi) div 2"
  have sorted: "i \<le> j \<Longrightarrow> j < length es \<Longrightarrow> str_le (timestamp (es ! i)) (timestamp (es ! j))" for i j
    using 1(3) by (cases "i = j") (auto simp: sorted_wrt_iff_nth_less)
  show ?case
  proof (cases "lo < hi")
    case False
    then have "bisect_right timestamp es t lo hi = lo" by (subst bisect_right.simps) simp
    then show ?thesis using 1(4-7) False by simp
  next
    case lt: True
    then have mid: "lo \<le> ?mid" "?mid < hi" "?mid < length es" using 1(5) by auto
    show ?thesis
    proof (cases "str_le (timestamp (es ! ?mid)) t")
      case True
      then have "\<forall>i < ?mid + 1. str_le (timestamp (es ! i)) t"
        using sorted [of _ ?mid] mid(3) str_le_trans by (metis Suc_eq_plus1 less_Suc_eq_le)
      with 1(2) [OF lt HOL.refl] True mid 1(3,5,7) show ?thesis
        by (simp add: bisect_right.simps [of timestamp es t lo hi] lt)
    next
      case False
      then have "\<forall>i < length es. ?mid \<le> i \<longrightarrow> \<not> str_le (timestamp (es ! i)) t"
        using sorted [of ?mid] str_le_trans by blast
      with 1(1) [OF lt HOL.refl False] mid 1(3,6) show ?thesis
        by (simp add: bisect_right.simps [of timestamp es t lo hi] lt False)
    qed
  qed
qed

lemma bisect_right_split:
  fixes t :: string
  assumes "by_time timestamp es"
  defines "k \<equiv> bisect_right timestamp es t 0 (length es)"
  shows "\<forall>a \<in> set (take k es). str_le (timestamp a) t" and "\<forall>b \<in> set (drop k es). \<not> str_le (timestamp b) t"
  using bisect_right_bounds [OF assms(1), of 0 "length es" t, folded k_def]
  by (auto simp: in_set_conv_nth)

section \<open>The cache\<close>

record remote_events =
  re_cached :: "event list"
  re_ids :: "string set"
  re_acp :: "(string \<times> string) list"

definition empty_events :: remote_events where
  "empty_events = \<lparr>re_cached = [], re_ids = {}, re_acp = []\<rparr>"

text \<open>The insertion at the end of \<open>_add_event_unsafe\<close>.\<close>

definition insert_by_time :: "(event \<Rightarrow> string) \<Rightarrow> event \<Rightarrow> remote_events \<Rightarrow> remote_events" where
  "insert_by_time timestamp e s =
     (let pos = bisect_right timestamp (re_cached s) (timestamp e) 0 (length (re_cached s));
          s1 = s\<lparr>re_cached := py_insert pos e (re_cached s), re_ids := insert (event_id e) (re_ids s)\<rparr>
      in case e of
           ACPToolCallEvent i src call \<Rightarrow> s1\<lparr>re_acp := AList.update call i (re_acp s1)\<rparr>
         | _ \<Rightarrow> s1)"

definition add_event_unsafe :: "(event \<Rightarrow> string) \<Rightarrow> event \<Rightarrow> remote_events \<Rightarrow> remote_events" where
  "add_event_unsafe timestamp e s =
     (case e of
        ACPToolCallEvent i src call \<Rightarrow>
          (case map_of (re_acp s) call of
             None \<Rightarrow> insert_by_time timestamp e s
           | Some existing \<Rightarrow>
               (case find_index (\<lambda>x. event_id x = existing) (re_cached s) of
                  Some k \<Rightarrow> s\<lparr>re_cached := (re_cached s)[k := e],
                            re_ids := insert i (re_ids s - {existing}),
                            re_acp := AList.update call i (re_acp s)\<rparr>
                | None \<Rightarrow> insert_by_time timestamp e
                            (s\<lparr>re_ids := re_ids s - {existing}, re_acp := AList.delete call (re_acp s)\<rparr>)))
      | _ \<Rightarrow> insert_by_time timestamp e s)"

definition add_event :: "(event \<Rightarrow> string) \<Rightarrow> event \<Rightarrow> remote_events \<Rightarrow> remote_events" where
  "add_event timestamp e s = (if event_id e \<notin> re_ids s then add_event_unsafe timestamp e s else s)"

text \<open>\<open>_do_full_sync\<close>: a failed request raises, and the cache is only set at the end.\<close>

definition full_sync ::
    "nat \<Rightarrow> (nat \<Rightarrow> string option \<Rightarrow> event_page option) \<Rightarrow> remote_events \<Rightarrow> (unit, remote_events) result option" where
  "full_sync fuel request s =
     (case fetch_loop fuel request 0 [] None of
        None \<Rightarrow> None
      | Some (events, False) \<Rightarrow> Some (Inl ())
      | Some (events, True) \<Rightarrow>
          Some (Inr (s\<lparr>re_cached := events, re_ids := re_ids s \<union> event_id ` set events\<rparr>)))"

text \<open>\<open>reconcile\<close>: what could be fetched is merged, and the new events are counted.\<close>

fun merge_events :: "(event \<Rightarrow> string) \<Rightarrow> event list \<Rightarrow> nat \<Rightarrow> remote_events \<Rightarrow> nat \<times> remote_events" where
  "merge_events timestamp [] n s = (n, s)"
| "merge_events timestamp (e # es) n s =
     (if event_id e \<notin> re_ids s then merge_events timestamp es (n + 1) (add_event_unsafe timestamp e s)
      else merge_events timestamp es n s)"

definition reconcile ::
    "(event \<Rightarrow> string) \<Rightarrow> nat \<Rightarrow> (nat \<Rightarrow> string option \<Rightarrow> event_page option) \<Rightarrow> remote_events
       \<Rightarrow> (nat \<times> remote_events) option" where
  "reconcile timestamp fuel request s =
     (case fetch_loop fuel request 0 [] None of
        None \<Rightarrow> None
      | Some (events, complete) \<Rightarrow> Some (merge_events timestamp events 0 s))"

text \<open>The constructor synchronizes, the websocket delivers, and the handshake reconciles.\<close>

definition page_limit :: int where
  "page_limit = 100"

definition deliver :: "(event \<Rightarrow> string) \<Rightarrow> event list \<Rightarrow> remote_events \<Rightarrow> remote_events" where
  "deliver timestamp es s = fold (add_event timestamp) es s"

section \<open>Lemmas on the cache\<close>

fun is_acp :: "event \<Rightarrow> bool" where
  "is_acp (ACPToolCallEvent _ _ _) = True"
| "is_acp _ = False"

text \<open>The ids are those of the cached events, each once; and the events are ordered by time.\<close>

definition ids_exact :: "remote_events \<Rightarrow> bool" where
  "ids_exact s \<longleftrightarrow> re_ids s = event_id ` set (re_cached s) \<and> distinct (map event_id (re_cached s))"

lemma distinct_py_insert: "f x \<notin> f ` set xs \<Longrightarrow> distinct (map f xs) \<Longrightarrow> distinct (map f (py_insert k x xs))"
proof -
  assume x: "f x \<notin> f ` set xs" and d: "distinct (map f xs)"
  have "distinct (map f (take k xs @ drop k xs))" using d by simp
  moreover have "set xs = set (take k xs) \<union> set (drop k xs)" by (metis append_take_drop_id set_append)
  ultimately show ?thesis using x unfolding py_insert_def by (auto simp del: append_take_drop_id)
qed

lemma insert_by_time_exact:
  assumes "ids_exact s" and "event_id e \<notin> re_ids s"
  shows "ids_exact (insert_by_time timestamp e s)"
  using assms by (auto simp: insert_by_time_def ids_exact_def Let_def distinct_py_insert split: event.split)

lemma add_event_exact:
  assumes "ids_exact s"
  shows "ids_exact (add_event timestamp e s)"
proof (cases "event_id e \<in> re_ids s")
  case new: False
  show ?thesis
  proof (cases "\<exists>i src call existing. e = ACPToolCallEvent i src call \<and> map_of (re_acp s) call = Some existing")
    case False
    then have "add_event_unsafe timestamp e s = insert_by_time timestamp e s"
      by (auto simp: add_event_unsafe_def split: event.split option.split)
    then show ?thesis using insert_by_time_exact [OF assms new] new by (simp add: add_event_def)
  next
    case True
    then obtain i src call existing where e: "e = ACPToolCallEvent i src call" and m: "map_of (re_acp s) call = Some existing"
      by blast
    show ?thesis
    proof (cases "find_index (\<lambda>x. event_id x = existing) (re_cached s)")
      case None
      then have "existing \<notin> re_ids s" using assms by (auto simp: find_index_None_iff ids_exact_def)
      then have "ids_exact (s\<lparr>re_ids := re_ids s - {existing}, re_acp := AList.delete call (re_acp s)\<rparr>)"
        using assms by (simp add: ids_exact_def)
      from insert_by_time_exact [OF this, of e timestamp] new show ?thesis
        by (simp add: add_event_def add_event_unsafe_def e m None)
    next
      case (Some k)
      note k = find_index_SomeD [OF Some]
      let ?xs = "re_cached s"
      have ids: "map event_id (?xs[k := e]) = (map event_id ?xs)[k := i]" by (simp add: map_update e)
      have d: "distinct (map event_id ?xs)" and i: "i \<notin> set (map event_id ?xs)" and kl: "k < length (map event_id ?xs)"
        using assms new k e by (auto simp: ids_exact_def)
      have "set ((map event_id ?xs)[k := i]) = insert i (set (map event_id ?xs) - {map event_id ?xs ! k})"
        by (rule set_update_distinct [OF d kl])
      then have "event_id ` set (?xs[k := e]) = insert i (event_id ` set ?xs - {existing})"
        using ids k kl by (metis list.set_map nth_map length_map)
      moreover have "distinct (map event_id (?xs[k := e]))"
        unfolding ids using distinct_list_update [OF d] i by auto
      ultimately show ?thesis using assms new by (simp add: add_event_def add_event_unsafe_def e m Some ids_exact_def)
    qed
  qed
qed (simp add: add_event_def assms)

lemma deliver_exact: "ids_exact s \<Longrightarrow> ids_exact (deliver timestamp es s)"
  unfolding deliver_def by (induction es arbitrary: s) (simp_all add: add_event_exact)

lemma merge_is_deliver: "snd (merge_events timestamp es n s) = deliver timestamp es s"
  unfolding deliver_def by (induction timestamp es n s rule: merge_events.induct) (simp_all add: add_event_def)

text \<open>Without updates of ACP tool calls, adding an event keeps the order.\<close>

lemma add_plain_event:
  assumes "\<not> is_acp e" and "event_id e \<notin> re_ids s"
  shows "add_event timestamp e s = s\<lparr>re_cached :=
      py_insert (bisect_right timestamp (re_cached s) (timestamp e) 0 (length (re_cached s))) e (re_cached s),
    re_ids := insert (event_id e) (re_ids s)\<rparr>"
  using assms by (cases e) (auto simp: add_event_def add_event_unsafe_def insert_by_time_def Let_def)

lemma by_time_insert:
  assumes "by_time timestamp xs"
  shows "by_time timestamp (py_insert (bisect_right timestamp xs (timestamp e) 0 (length xs)) e xs)"
proof -
  let ?k = "bisect_right timestamp xs (timestamp e) 0 (length xs)"
  note split = bisect_right_split [OF assms, of "timestamp e"]
  have "by_time timestamp (take ?k xs @ drop ?k xs)" using assms by simp
  moreover have "str_le (timestamp e) (timestamp b)" if "b \<in> set (drop ?k xs)" for b
    using split(2) that str_le_total by blast
  ultimately show ?thesis
    using split(1) unfolding py_insert_def by (auto simp: sorted_wrt_append simp del: append_take_drop_id)
qed

lemma add_event_by_time:
  assumes "\<not> is_acp e" and "by_time timestamp (re_cached s)"
  shows "by_time timestamp (re_cached (add_event timestamp e s))"
proof (cases "event_id e \<in> re_ids s")
  case False
  then show ?thesis using by_time_insert [OF assms(2)] by (simp add: add_plain_event assms(1))
qed (simp add: add_event_def assms)

lemma deliver_by_time:
  assumes "\<forall>e \<in> set es. \<not> is_acp e" and "by_time timestamp (re_cached s)"
  shows "by_time timestamp (re_cached (deliver timestamp es s))"
  using assms unfolding deliver_def by (induction es arbitrary: s) (simp_all add: add_event_by_time)

lemma deliver_set:
  assumes "\<forall>e \<in> set es. \<not> is_acp e" and "ids_exact s" and "inj_on event_id (set es \<union> set (re_cached s))"
  shows "set (re_cached (deliver timestamp es s)) = set es \<union> set (re_cached s)"
  using assms
proof (induction es arbitrary: s)
  case (Cons e es)
  show ?case
  proof (cases "event_id e \<in> re_ids s")
    case True
    then have "e \<in> set (re_cached s)" using Cons.prems(2,3) by (auto simp: ids_exact_def inj_on_def)
    moreover have "add_event timestamp e s = s" using True by (simp add: add_event_def)
    ultimately show ?thesis
      using Cons.IH [of s] Cons.prems by (auto simp: deliver_def insert_absorb)
  next
    case False
    have c: "set (re_cached (add_event timestamp e s)) = insert e (set (re_cached s))"
      using Cons.prems(1) False by (simp add: add_plain_event)
    then have "inj_on event_id (set es \<union> set (re_cached (add_event timestamp e s)))"
      using Cons.prems(3) by simp
    with Cons.IH [OF _ add_event_exact [OF Cons.prems(2)]] Cons.prems(1) c show ?thesis
      by (simp add: deliver_def)
  qed
qed (simp add: deliver_def)

lemma strictly_sorted_unique:
  assumes "sorted_wrt R xs" and "sorted_wrt R ys" and "set xs = set ys"
    and asym: "\<And>x y. R x y \<Longrightarrow> \<not> R y x"
  shows "xs = ys"
  using assms(1-3)
proof (induction xs arbitrary: ys)
  case (Cons x xs)
  then obtain y zs where ys: "ys = y # zs" by (cases ys) auto
  have R: "\<forall>x' \<in> set xs. R x x'" "\<forall>y' \<in> set zs. R y y'" using Cons.prems(1,2) ys by auto
  have xy: "x = y"
  proof (rule ccontr)
    assume "x \<noteq> y"
    then have "y \<in> set xs" "x \<in> set zs" using Cons.prems(3) ys by auto
    with R asym show False by blast
  qed
  moreover have "x \<notin> set xs" "y \<notin> set zs" using R asym by blast+
  ultimately have "set xs = set zs" using Cons.prems(3) ys by auto
  with Cons.IH [of zs] Cons.prems(1,2) ys xy show ?case by simp
qed simp

lemma growing_shift: "growing logs bound \<Longrightarrow> growing (\<lambda>k. logs (m + k)) bound"
  by (simp add: growing_def)

lemma growing_set_mono: "growing logs bound \<Longrightarrow> k \<le> j \<Longrightarrow> set (logs k) \<subseteq> set (logs j)"
  using growing_prefix set_mono_prefix by blast

text \<open>What a fetch of the whole log returns.\<close>

lemma fetch_whole_log:
  assumes "growing logs bound" and "bound < fuel"
  shows "\<exists>k. fetch_loop fuel (answering (\<lambda>_. True) TIMESTAMP page_limit logs) 0 [] None = Some (logs k, True)"
  using fetch_forward [OF assms(1), of page_limit 0 0 None fuel "\<lambda>_. True" "[]"] assms(2)
  by (auto simp: start_index_def page_limit_def)

definition earlier :: "(event \<Rightarrow> string) \<Rightarrow> event \<Rightarrow> event \<Rightarrow> bool" where
  "earlier timestamp a b \<longleftrightarrow> \<not> str_le (timestamp b) (timestamp a)"

lemma earlier_logs:
  assumes "sorted_wrt (earlier timestamp) L" and "by_time timestamp es" and "distinct es" and "set es = set L"
  shows "es = L"
proof (rule strictly_sorted_unique [of "earlier timestamp"])
  have inj: "x = y" if "x \<in> set L" "y \<in> set L" "str_le (timestamp x) (timestamp y)" "str_le (timestamp y) (timestamp x)" for x y
  proof (rule ccontr)
    assume "x \<noteq> y"
    then obtain i j where ij: "L ! i = x" "L ! j = y" "i < length L" "j < length L" "i \<noteq> j"
      using \<open>x \<in> set L\<close> \<open>y \<in> set L\<close> by (metis in_set_conv_nth)
    then have "earlier timestamp x y \<or> earlier timestamp y x"
      using assms(1) by (metis sorted_wrt_nth_less linorder_neq_iff)
    then show False using that(3,4) by (auto simp: earlier_def)
  qed
  show "sorted_wrt (earlier timestamp) es"
    unfolding sorted_wrt_iff_nth_less
  proof (intro allI impI)
    fix i j assume ij: "i < j" "j < length es"
    then have "str_le (timestamp (es ! i)) (timestamp (es ! j))" using assms(2) by (auto simp: sorted_wrt_iff_nth_less)
    moreover have "es ! i \<noteq> es ! j" using ij assms(3) by (simp add: nth_eq_iff_index_eq)
    ultimately show "earlier timestamp (es ! i) (es ! j)"
      using inj [of "es ! i" "es ! j"] ij assms(4) nth_mem unfolding earlier_def by (metis order.strict_trans)
  qed
  show "\<not> earlier timestamp y x" if "earlier timestamp x y" for x y
    using that str_le_total unfolding earlier_def by blast
qed (use assms in simp_all)

section \<open>Properties\<close>

text \<open>C26: The event cache of a remote conversation is complete after the handshake. The first synchronization pages through the
  log while the agent appends to it, the websocket delivers events in any order, with repetitions and gaps, and the
  reconciliation pages through the log again, from request \<open>m\<close> of the server on. Then the cache holds exactly a log the
  server had since and what was delivered, each event once and ordered by time; where the log's times increase
  strictly and only events of it were delivered, it is that log. No event is an update of an ACP tool call.\<close>

theorem cache_is_complete_after_handshake:
  assumes "growing logs bound" and "bound < fuel" and "\<And>k. by_time timestamp (logs k)"
    and "\<And>k. list_all (\<lambda>e. \<not> is_acp e) (logs k @ es)"
    and "\<And>k. inj_on event_id (set es \<union> set (logs k))"
  shows "\<exists>s0 n s k. full_sync fuel (answering (\<lambda>_. True) TIMESTAMP page_limit logs) empty_events = Some (Inr s0) \<and>
    reconcile timestamp fuel (answering (\<lambda>_. True) TIMESTAMP page_limit (\<lambda>i. logs (m + i))) (deliver timestamp es s0) = Some (n, s) \<and>
    m \<le> k \<and> set (re_cached s) = set (logs k) \<union> set es \<and> distinct (re_cached s) \<and> by_time timestamp (re_cached s) \<and>
    (sorted_wrt (earlier timestamp) (logs k) \<and> set es \<subseteq> set (logs k) \<longrightarrow> re_cached s = logs k)"
proof -
  obtain j where j: "fetch_loop fuel (answering (\<lambda>_. True) TIMESTAMP page_limit logs) 0 [] None = Some (logs j, True)"
    using fetch_whole_log [OF assms(1,2)] by blast
  obtain i where i: "fetch_loop fuel (answering (\<lambda>_. True) TIMESTAMP page_limit (\<lambda>i. logs (m + i))) 0 [] None =
      Some (logs (m + i), True)"
    using fetch_whole_log [OF growing_shift [OF assms(1)] assms(2)] by blast
  let ?k = "max (m + i) j" and ?start = "\<lparr>re_cached = logs j, re_ids = event_id ` set (logs j), re_acp = []\<rparr>"
  let ?seen = "deliver timestamp es ?start" and ?final = "deliver timestamp (logs (m + i)) (deliver timestamp es ?start)"
  have plain: "\<forall>e \<in> set (logs k) \<union> set es. \<not> is_acp e" for k using assms(4) [of k] by (auto simp: list_all_iff)
  have sub: "set (logs j) \<subseteq> set (logs ?k)" "set (logs (m + i)) \<subseteq> set (logs ?k)"
    by (rule growing_set_mono [OF assms(1)]; simp)+
  have inj: "inj_on event_id A" if "A \<subseteq> set es \<union> set (logs ?k)" for A
    using assms(5) [of ?k] that inj_on_subset by blast
  have 0: "ids_exact ?start" "by_time timestamp (re_cached ?start)"
    using growingD(3) [OF assms(1), of j] assms(3) by (auto simp: ids_exact_def)
  have 1: "ids_exact ?seen" "by_time timestamp (re_cached ?seen)" "set (re_cached ?seen) = set es \<union> set (logs j)"
    using deliver_exact [OF 0(1)] deliver_by_time [OF _ 0(2), of es] deliver_set [OF _ 0(1), of es timestamp] plain
      inj [of "set es \<union> set (logs j)"] sub
    unfolding remote_events.simps by blast+
  have 2: "ids_exact ?final" "by_time timestamp (re_cached ?final)"
      "set (re_cached ?final) = set (logs (m + i)) \<union> (set es \<union> set (logs j))"
    using deliver_exact [OF 1(1)] deliver_by_time [OF _ 1(2), of "logs (m + i)"]
      deliver_set [OF _ 1(1), of "logs (m + i)" timestamp] plain [of "m + i"]
      inj [of "set (logs (m + i)) \<union> (set es \<union> set (logs j))"] sub
    unfolding 1(3) by blast+
  have all: "set (re_cached ?final) = set (logs ?k) \<union> set es"
    using 2(3) sub by (auto simp: max_def split: if_splits)
  have dis: "distinct (re_cached ?final)" using 2(1) by (simp add: ids_exact_def distinct_map)
  obtain n where n: "merge_events timestamp (logs (m + i)) 0 ?seen = (n, ?final)"
    using merge_is_deliver [of timestamp "logs (m + i)" 0 ?seen] by (metis prod.collapse)
  show ?thesis
  proof (intro exI conjI impI)
    show "full_sync fuel (answering (\<lambda>_. True) TIMESTAMP page_limit logs) empty_events = Some (Inr ?start)"
      by (simp add: full_sync_def j empty_events_def)
    show "reconcile timestamp fuel (answering (\<lambda>_. True) TIMESTAMP page_limit (\<lambda>i. logs (m + i))) ?seen = Some (n, ?final)"
      by (simp add: reconcile_def i n)
    show "m \<le> ?k" by simp
    show "re_cached ?final = logs ?k" if "sorted_wrt (earlier timestamp) (logs ?k) \<and> set es \<subseteq> set (logs ?k)"
      using earlier_logs [of timestamp "logs ?k"] 2(2) dis all that by blast
  qed (fact all dis 2(2))+
qed

text \<open>Messages whose ids are their times.\<close>

lemma cache_is_complete_after_handshake_witness:
  "\<exists>s0 n s k. full_sync 6 (answering (\<lambda>_. True) TIMESTAMP page_limit demo_logs) empty_events = Some (Inr s0) \<and>
    reconcile event_id 6 (answering (\<lambda>_. True) TIMESTAMP page_limit (\<lambda>i. demo_logs (4 + i)))
      (deliver event_id [demo_log ! 4, demo_log ! 2, demo_log ! 4] s0) = Some (n, s) \<and> re_cached s = demo_log"
proof -
  let ?es = "[demo_log ! 4, demo_log ! 2, demo_log ! 4]"
  have sorted: "sorted_wrt (earlier event_id) demo_log"
    by (simp add: earlier_def demo_log_def sample_message_def)
  have inj: "inj_on event_id (set demo_log)" by (simp add: demo_log_def sample_message_def)
  have sub: "set ?es \<subseteq> set demo_log" and logs: "set (demo_logs k) \<subseteq> set demo_log" for k
    by (auto simp: demo_log_def demo_logs_def dest: in_set_takeD)
  have plain: "\<forall>e \<in> set demo_log. \<not> is_acp e" by (simp add: demo_log_def sample_message_def)
  have "by_time event_id demo_log"
    using sorted_wrt_mono_rel [OF _ sorted, of "\<lambda>a b. str_le (event_id a) (event_id b)"] str_le_total
    unfolding earlier_def by blast
  then have "by_time event_id (demo_logs k)" for k by (simp add: demo_logs_def sorted_wrt_take)
  moreover have "list_all (\<lambda>e. \<not> is_acp e) (demo_logs k @ ?es)" for k
    using plain sub logs [of k] by (auto simp: list_all_iff)
  moreover have "inj_on event_id (set ?es \<union> set (demo_logs k))" for k
    by (rule inj_on_subset [OF inj Un_least [OF sub logs]])
  ultimately obtain s0 n s k where
    run: "full_sync 6 (answering (\<lambda>_. True) TIMESTAMP page_limit demo_logs) empty_events = Some (Inr s0)"
      "reconcile event_id 6 (answering (\<lambda>_. True) TIMESTAMP page_limit (\<lambda>i. demo_logs (4 + i))) (deliver event_id ?es s0) = Some (n, s)"
    and k: "4 \<le> k" and log: "sorted_wrt (earlier event_id) (demo_logs k) \<and> set ?es \<subseteq> set (demo_logs k) \<longrightarrow> re_cached s = demo_logs k"
    using cache_is_complete_after_handshake [OF growing_demo, of 6 event_id ?es 4] by auto
  have "demo_logs k = demo_log" using k by (simp add: demo_logs_def demo_log_def)
  with log sorted sub have "re_cached s = demo_log" by simp
  with run show ?thesis by blast
qed

lemma acp_first: "add_event timestamp (ACPToolCallEvent i src call) empty_events =
    \<lparr>re_cached = [ACPToolCallEvent i src call], re_ids = {i}, re_acp = [(call, i)]\<rparr>"
  by (simp add: add_event_def add_event_unsafe_def insert_by_time_def empty_events_def py_insert_def)

lemma acp_replaces:
  assumes "map_of (re_acp s) call = Some j" and "re_cached s = ACPToolCallEvent j src0 call # es" and "i \<notin> re_ids s"
  shows "re_cached (add_event timestamp (ACPToolCallEvent i src call) s) = ACPToolCallEvent i src call # es"
  using assms by (simp add: add_event_def add_event_unsafe_def)

text \<open>An update of an ACP tool call takes the place of the earlier one whatever their times. In the order of the log it
  comes to stand before an event that is older than it, so that the cache is no longer ordered by time, the order the
  binary search relies on; and when the websocket delivers two updates the wrong way round, the
  older one replaces the newer.\<close>

theorem acp_update_ignores_time:
  fixes timestamp :: "event \<Rightarrow> string" and call :: string
  defines "a \<equiv> ACPToolCallEvent ''a'' SrcAgent call" and "b \<equiv> ACPToolCallEvent ''b'' SrcAgent call"
  assumes "\<not> is_acp x" and "event_id x \<notin> {''a'', ''b''}" and "by_time timestamp [a, x, b]"
    and "\<not> str_le (timestamp b) (timestamp x)"
  shows "re_cached (deliver timestamp [a, x, b] empty_events) = [b, x] \<and> \<not> by_time timestamp [b, x] \<and>
    re_cached (deliver timestamp [b, a] empty_events) = [a]"
proof -
  let ?s = "\<lparr>re_cached = [a], re_ids = {''a''}, re_acp = [(call, ''a'')]\<rparr>"
  have a: "add_event timestamp a empty_events = ?s" and b: "add_event timestamp b empty_events =
      \<lparr>re_cached = [b], re_ids = {''b''}, re_acp = [(call, ''b'')]\<rparr>"
    unfolding a_def b_def by (rule acp_first)+
  have "bisect_right timestamp [a] (timestamp x) 0 1 = 1"
    using assms(5) by (subst bisect_right.simps) (simp add: bisect_right.simps)
  then have x: "add_event timestamp x ?s = \<lparr>re_cached = [a, x], re_ids = {event_id x, ''a''}, re_acp = [(call, ''a'')]\<rparr>"
    using assms(4) by (simp add: add_plain_event [OF assms(3)] py_insert_def)
  have "re_cached (add_event timestamp b \<lparr>re_cached = [a, x], re_ids = {event_id x, ''a''}, re_acp = [(call, ''a'')]\<rparr>) = [b, x]"
    unfolding a_def b_def by (rule acp_replaces [where j = "''a''"]) (use assms(4) in auto)
  then have "re_cached (deliver timestamp [a, x, b] empty_events) = [b, x]" by (simp add: deliver_def a x)
  moreover have "re_cached (add_event timestamp a \<lparr>re_cached = [b], re_ids = {''b''}, re_acp = [(call, ''b'')]\<rparr>) = [a]"
    unfolding a_def b_def by (rule acp_replaces [where j = "''b''"]) auto
  then have "re_cached (deliver timestamp [b, a] empty_events) = [a]" by (simp add: deliver_def b)
  ultimately show ?thesis using assms(6) by simp
qed

lemma acp_update_ignores_time_witness:
  "re_cached (deliver (\<lambda>e. if event_id e = ''b'' then ''3'' else ''2'')
     [ACPToolCallEvent ''a'' SrcAgent ''c'', sample_message ''m'' SrcUser, ACPToolCallEvent ''b'' SrcAgent ''c''] empty_events) =
   [ACPToolCallEvent ''b'' SrcAgent ''c'', sample_message ''m'' SrcUser]"
  by (rule acp_update_ignores_time [where x = "sample_message ''m'' SrcUser", THEN conjunct1])
    (simp_all add: sample_message_def)

text \<open>Reconciling a cache that is up to date reports new events, as the ids of replaced updates are forgotten.\<close>

lemma reconcile_counts_old_updates:
  assumes "a = ACPToolCallEvent ''a'' SrcAgent call" and "b = ACPToolCallEvent ''b'' SrcAgent call"
  shows "fst (merge_events timestamp [a, b] 0 (deliver timestamp [a, b] empty_events)) = 2"
proof -
  have "deliver timestamp [a, b] empty_events = \<lparr>re_cached = [b], re_ids = {''b''}, re_acp = [(call, ''b'')]\<rparr>"
    unfolding assms deliver_def by (simp add: acp_first) (simp add: add_event_def add_event_unsafe_def)
  moreover have "add_event_unsafe timestamp a \<lparr>re_cached = [b], re_ids = {''b''}, re_acp = [(call, ''b'')]\<rparr> =
      \<lparr>re_cached = [a], re_ids = {''a''}, re_acp = [(call, ''a'')]\<rparr>"
    unfolding assms by (simp add: add_event_unsafe_def)
  ultimately show ?thesis using assms by simp
qed

text \<open>The first synchronization does not index the updates it loads, so the next update of a call is added, not replaced.\<close>

lemma full_sync_keeps_all_updates:
  "full_sync fuel request empty_events = Some (Inr s) \<Longrightarrow> re_acp s = []"
  by (auto simp: full_sync_def empty_events_def split: option.splits prod.splits bool.splits)

end
