(* ===== verification/Remote_Run.thy ===== *)
theory Remote_Run
  imports Event_Service
begin

text \<open>
  The state cache and the blocking \<open>run\<close> of a remote conversation (\<open>RemoteState\<close> and \<open>RemoteConversation\<close> of
  \<open>sdk/conversation/impl/remote_conversation.py\<close>). What the server and the websocket do is a parameter: for every turn of
  the waiting loop the time since the start, the status the websocket has put into the queue, and the answers
  to the requests. The lemmas show when the wait ends and that a conversation that is paused or waits for a confirmation is waited for until
  the time is over.
\<close>

section \<open>Statuses\<close>

fun status_value :: "execution_status \<Rightarrow> string" where
  "status_value IDLE = ''idle''"
| "status_value RUNNING = ''running''"
| "status_value PAUSED = ''paused''"
| "status_value WAITING_FOR_CONFIRMATION = ''waiting_for_confirmation''"
| "status_value FINISHED = ''finished''"
| "status_value ERROR = ''error''"
| "status_value STUCK = ''stuck''"
| "status_value DELETING = ''deleting''"

definition all_statuses :: "execution_status list" where
  "all_statuses = [IDLE, RUNNING, PAUSED, WAITING_FOR_CONFIRMATION, FINISHED, ERROR, STUCK, DELETING]"

text \<open>\<open>ConversationExecutionStatus(s)\<close>; \<open>None\<close> is the \<open>ValueError\<close>.\<close>

definition parse_status :: "string \<Rightarrow> execution_status option" where
  "parse_status s = map_of (map (\<lambda>x. (status_value x, x)) all_statuses) s"

lemma parse_status_value [simp]: "parse_status (status_value x) = Some x"
  by (cases x) (simp_all add: parse_status_def all_statuses_def)

lemma parse_status_Some: "parse_status s = Some x \<longleftrightarrow> s = status_value x"
proof
  assume "parse_status s = Some x"
  then have "(s, x) \<in> set (map (\<lambda>x. (status_value x, x)) all_statuses)"
    unfolding parse_status_def by (rule map_of_SomeD)
  then show "s = status_value x" by auto
qed simp

section \<open>The state cache\<close>

definition FULL_STATE_KEY :: string where
  "FULL_STATE_KEY = ''full_state''"

text \<open>\<open>update_state_from_event\<close>; a snapshot is a dictionary.\<close>

definition update_state_from_event :: "string \<Rightarrow> json \<Rightarrow> dict option \<Rightarrow> dict option" where
  "update_state_from_event key val cached =
     (let old = (case cached of None \<Rightarrow> [] | Some d \<Rightarrow> d)
      in if key = FULL_STATE_KEY
         then (case val of JObj kv \<Rightarrow> Some (fold (\<lambda>(k, v). set_key k v) kv old) | _ \<Rightarrow> Some old)
         else Some (set_key key val old))"

definition state_update_callback :: "event \<Rightarrow> dict option \<Rightarrow> dict option" where
  "state_update_callback e cached =
     (case e of ConversationStateUpdateEvent i src key val \<Rightarrow> update_state_from_event key val cached | _ \<Rightarrow> cached)"

text \<open>\<open>_get_conversation_info\<close>: the cache if there is one, the server otherwise; and the status in it.\<close>

definition get_conversation_info :: "dict \<Rightarrow> dict option \<Rightarrow> dict \<times> dict option" where
  "get_conversation_info server cached = (case cached of Some d \<Rightarrow> (d, cached) | None \<Rightarrow> (server, Some server))"

datatype remote_state_error = Status_Missing | Status_Invalid

definition remote_status :: "dict \<Rightarrow> dict option \<Rightarrow> (remote_state_error, execution_status) result" where
  "remote_status server cached =
     (case map_of (fst (get_conversation_info server cached)) ''execution_status'' of
        Some (JStr s) \<Rightarrow> (case parse_status s of Some x \<Rightarrow> Inr x | None \<Rightarrow> Inl Status_Invalid)
      | None \<Rightarrow> Inl Status_Missing
      | Some JNull \<Rightarrow> Inl Status_Missing
      | _ \<Rightarrow> Inl Status_Invalid)"

section \<open>Waiting for the end of a run\<close>

datatype poll_result =
    Poll_Info "string option"     \<comment> \<open>the \<open>execution_status\<close> of the answer\<close>
  | Poll_Http nat | Poll_Request_Error | Poll_Other_Error

datatype run_failure =
    Timed_Out | Ended_With_Error string | Got_Stuck | Not_Found | Http_Failed nat | Other_Failure
  | Refresh_Failed | Invalid_Status string

datatype run_end = By_Websocket | By_Polling

record wait_turn =
  wt_elapsed :: int
  wt_queue :: "string option"
  wt_poll :: poll_result
  wt_refresh :: poll_result

text \<open>\<open>_get_last_error_detail\<close>: an event without text gives nothing.\<close>

fun last_error_walk :: "event list \<Rightarrow> string option" where
  "last_error_walk [] = None"
| "last_error_walk (ConversationErrorEvent i src code detail # es) =
     (let d = py_strip detail; c = py_strip code
      in if d \<noteq> [] \<and> c \<noteq> [] then Some (c @ '': '' @ d)
         else if d \<noteq> [] then Some d else if c \<noteq> [] then Some c else None)"
| "last_error_walk (_ # es) = last_error_walk es"

definition get_last_error_detail :: "event list \<Rightarrow> string option" where
  "get_last_error_detail events = last_error_walk (rev events)"

definition default_error :: string where
  "default_error = ''Remote conversation ended with error''"

definition handle_status :: "event list \<Rightarrow> string option \<Rightarrow> (run_failure, bool) result" where
  "handle_status events st =
     (if st = Some (status_value RUNNING) then Inr False
      else if st = Some (status_value ERROR) then
        Inl (Ended_With_Error (case get_last_error_detail events of
               Some d \<Rightarrow> if d = [] then default_error else d | None \<Rightarrow> default_error))
      else if st = Some (status_value STUCK) then Inl Got_Stuck
      else Inr True)"

text \<open>\<open>_handle_poll_exception\<close>: \<open>None\<close> when the poll is tried again.\<close>

fun handle_poll_exception :: "poll_result \<Rightarrow> run_failure option" where
  "handle_poll_exception (Poll_Http c) =
     (if c = 404 then Some Not_Found
      else if 400 \<le> c \<and> c < 500 \<and> c \<noteq> 429 then Some (Http_Failed c)
      else None)"
| "handle_poll_exception Poll_Request_Error = None"
| "handle_poll_exception Poll_Other_Error = Some Other_Failure"
| "handle_poll_exception (Poll_Info _) = None"

definition TERMINAL_POLL_THRESHOLD :: nat where
  "TERMINAL_POLL_THRESHOLD = 3"

text \<open>
  What one turn does: it ends the wait, or goes on with a count of consecutive terminal polls.
  \<open>events\<close> is the event cache, from which an error takes its text.
\<close>

definition wait_step ::
    "int \<Rightarrow> event list \<Rightarrow> wait_turn \<Rightarrow> nat \<Rightarrow> (run_failure, run_end) result + nat" where
  "wait_step timeout events t consecutive =
     (if wt_elapsed t > timeout then Inl (Inl Timed_Out)
      else case wt_queue t of
        Some ws_status \<Rightarrow>
          (case handle_status events (Some ws_status) of
             Inl e \<Rightarrow> Inl (Inl e)
           | Inr _ \<Rightarrow> (case wt_refresh t of Poll_Info _ \<Rightarrow> Inl (Inr By_Websocket) | _ \<Rightarrow> Inl (Inl Refresh_Failed)))
      | None \<Rightarrow>
          (case wt_poll t of
             Poll_Info st \<Rightarrow>
               (case handle_status events st of
                  Inl e \<Rightarrow> Inl (Inl e)
                | Inr _ \<Rightarrow>
                    (case st of
                       None \<Rightarrow> Inr 0
                     | Some s \<Rightarrow>
                         if s = [] then Inr 0
                         else (case parse_status s of
                                 None \<Rightarrow> Inl (Inl (Invalid_Status s))
                               | Some x \<Rightarrow>
                                   if is_terminal x then
                                     (if consecutive + 1 \<ge> TERMINAL_POLL_THRESHOLD then
                                        (case wt_refresh t of
                                           Poll_Info final \<Rightarrow>
                                             (case handle_status events final of
                                                Inl e \<Rightarrow> Inl (Inl e)
                                              | Inr _ \<Rightarrow> Inl (Inr By_Polling))
                                         | _ \<Rightarrow> Inl (Inl Refresh_Failed))
                                      else Inr (consecutive + 1))
                                   else Inr 0)))
           | failed \<Rightarrow> (case handle_poll_exception failed of Some e \<Rightarrow> Inl (Inl e) | None \<Rightarrow> Inr 0)))"

text \<open>\<open>_wait_for_run_completion\<close> from turn \<open>k\<close> on; \<open>None\<close> when the fuel is too small.\<close>

fun wait_loop ::
    "nat \<Rightarrow> int \<Rightarrow> event list \<Rightarrow> (nat \<Rightarrow> wait_turn) \<Rightarrow> nat \<Rightarrow> nat \<Rightarrow> (run_failure, run_end) result option" where
  "wait_loop 0 timeout events turn k consecutive = None"
| "wait_loop (Suc n) timeout events turn k consecutive =
     (case wait_step timeout events (turn k) consecutive of
        Inl r \<Rightarrow> Some r
      | Inr c \<Rightarrow> wait_loop n timeout events turn (k + 1) c)"

text \<open>\<open>run\<close>: a conflict means that the conversation is already running.\<close>

definition remote_run ::
    "nat \<Rightarrow> bool \<Rightarrow> int \<Rightarrow> event list \<Rightarrow> poll_result \<Rightarrow> (nat \<Rightarrow> wait_turn) \<Rightarrow> (run_failure, run_end option) result option" where
  "remote_run fuel blocking timeout events trigger turn =
     (if (case trigger of Poll_Info _ \<Rightarrow> True | Poll_Http c \<Rightarrow> c \<in> {200, 201, 204, 409} | _ \<Rightarrow> False)
      then (if blocking then map_option (map_sum id Some) (wait_loop fuel timeout events turn 0 0) else Some (Inr None))
      else Some (Inl Other_Failure))"

section \<open>Lemmas on the wait\<close>

lemma handle_status_Inr: "handle_status events st = Inr b \<longleftrightarrow>
    st \<notin> {Some (status_value ERROR), Some (status_value STUCK)} \<and> b = (st \<noteq> Some (status_value RUNNING))"
  by (auto simp: handle_status_def)

lemma terminal_not_failed:
  "is_terminal x \<Longrightarrow> status_value x \<noteq> ''error'' \<Longrightarrow> status_value x \<noteq> ''stuck'' \<Longrightarrow> status_value x = ''finished''"
  by (auto simp: is_terminal_def)

definition finished_poll :: "wait_turn \<Rightarrow> bool" where
  "finished_poll t \<longleftrightarrow> wt_queue t = None \<and> wt_poll t = Poll_Info (Some (status_value FINISHED))"

lemma wait_step_goes_on:
  assumes "wait_step timeout events t c = Inr c'"
  shows "wt_elapsed t \<le> timeout \<and> (c' = 0 \<or> (c' = c + 1 \<and> finished_poll t))"
  using assms
  by (auto simp: wait_step_def finished_poll_def parse_status_Some handle_status_Inr dest: terminal_not_failed
      split: if_splits option.splits poll_result.splits sum.splits)

lemma wait_step_succeeds:
  assumes "wait_step timeout events t c = Inl (Inr how)"
  shows "wt_elapsed t \<le> timeout \<and>
    (how = By_Websocket \<longrightarrow> (\<exists>s. wt_queue t = Some s \<and> s \<noteq> status_value ERROR \<and> s \<noteq> status_value STUCK)) \<and>
    (how = By_Polling \<longrightarrow> 2 \<le> c \<and> finished_poll t \<and>
       (\<exists>final. wt_refresh t = Poll_Info final \<and> final \<noteq> Some (status_value ERROR) \<and> final \<noteq> Some (status_value STUCK)))"
  using assms
  by (auto simp: wait_step_def finished_poll_def parse_status_Some handle_status_Inr TERMINAL_POLL_THRESHOLD_def
      dest: terminal_not_failed split: if_splits option.splits poll_result.splits sum.splits)

text \<open>The count is that of the finished polls just before.\<close>

lemma wait_loop_succeeds:
  assumes "wait_loop fuel timeout events turn k c = Some (Inr how)"
    and "c \<le> k" and "\<forall>i. k - c \<le> i \<and> i < k \<longrightarrow> finished_poll (turn i)"
  shows "\<exists>m \<ge> k. wt_elapsed (turn m) \<le> timeout \<and>
    (how = By_Websocket \<longrightarrow> (\<exists>s. wt_queue (turn m) = Some s \<and> s \<noteq> status_value ERROR \<and> s \<noteq> status_value STUCK)) \<and>
    (how = By_Polling \<longrightarrow> 2 \<le> m \<and> (\<forall>i. m - 2 \<le> i \<and> i \<le> m \<longrightarrow> finished_poll (turn i)))"
  using assms
proof (induction fuel arbitrary: k c)
  case (Suc fuel)
  show ?case
  proof (cases "wait_step timeout events (turn k) c")
    case (Inl r)
    then have "wait_step timeout events (turn k) c = Inl (Inr how)" using Suc.prems(1) by simp
    note last = wait_step_succeeds [OF this]
    have "finished_poll (turn i)" if "2 \<le> c" "finished_poll (turn k)" "k - 2 \<le> i" "i \<le> k" for i
      using Suc.prems(3) that by (cases "i = k") auto
    then show ?thesis using last Suc.prems(2) by (intro exI [of _ k]) auto
  next
    case (Inr c')
    note goes = wait_step_goes_on [OF Inr]
    have "c' \<le> k + 1" using goes Suc.prems(2) by auto
    moreover have "\<forall>i. k + 1 - c' \<le> i \<and> i < k + 1 \<longrightarrow> finished_poll (turn i)"
      using goes Suc.prems(2,3) by (auto simp: less_Suc_eq)
    moreover have "wait_loop fuel timeout events turn (k + 1) c' = Some (Inr how)"
      using Suc.prems(1) Inr by simp
    ultimately obtain m where "k + 1 \<le> m" "wt_elapsed (turn m) \<le> timeout"
      "how = By_Websocket \<longrightarrow> (\<exists>s. wt_queue (turn m) = Some s \<and> s \<noteq> status_value ERROR \<and> s \<noteq> status_value STUCK)"
      "how = By_Polling \<longrightarrow> 2 \<le> m \<and> (\<forall>i. m - 2 \<le> i \<and> i \<le> m \<longrightarrow> finished_poll (turn i))"
      using Suc.IH by blast
    then show ?thesis by (intro exI [of _ m]) auto
  qed
qed simp

lemma wait_loop_ends:
  assumes "wt_elapsed (turn (k + d)) > timeout" and "d < fuel"
  shows "\<exists>r. wait_loop fuel timeout events turn k c = Some r"
  using assms
proof (induction fuel arbitrary: k d c)
  case (Suc fuel)
  show ?case
  proof (cases "wait_step timeout events (turn k) c")
    case (Inr c')
    have "d \<noteq> 0" using Suc.prems(1) wait_step_goes_on [OF Inr] by (cases d) auto
    then show ?thesis using Suc.IH [of "k + 1" "d - 1" c'] Suc.prems Inr by simp
  qed simp
qed simp

lemma wait_step_open_status:
  assumes "wt_elapsed t \<le> timeout" and "wt_queue t = None" and "wt_poll t = Poll_Info (Some (status_value x))"
    and "\<not> is_terminal x"
  shows "wait_step timeout events t c = Inr 0"
proof -
  have "x \<noteq> ERROR" "x \<noteq> STUCK" using assms(4) by (auto simp: is_terminal_def)
  then have "handle_status events (Some (status_value x)) = Inr (x \<noteq> RUNNING)"
    by (cases x) (simp_all add: handle_status_def)
  moreover have "status_value x \<noteq> []" by (cases x) simp_all
  ultimately show ?thesis using assms by (simp add: wait_step_def)
qed

lemma wait_loop_open_status:
  assumes "\<forall>i. k \<le> i \<and> i < k + d \<longrightarrow> wt_elapsed (turn i) \<le> timeout \<and> wt_queue (turn i) = None \<and>
      (\<exists>x. wt_poll (turn i) = Poll_Info (Some (status_value x)) \<and> \<not> is_terminal x)"
    and "wt_elapsed (turn (k + d)) > timeout" and "d < fuel"
  shows "wait_loop fuel timeout events turn k c = Some (Inl Timed_Out)"
  using assms
proof (induction d arbitrary: k c fuel)
  case 0
  then obtain n where "fuel = Suc n" by (cases fuel) auto
  then show ?case using 0(2) by (simp add: wait_step_def)
next
  case (Suc d)
  then obtain n where fuel: "fuel = Suc n" "d < n" by (cases fuel) auto
  have "wait_step timeout events (turn k) c = Inr 0"
    using Suc.prems(1) wait_step_open_status by (metis add_Suc_right le_add1 le_imp_less_Suc order_refl)
  then show ?case using Suc.IH [of "k + 1" n 0] Suc.prems(1,2) fuel by simp
qed

definition accepted_trigger :: "poll_result \<Rightarrow> bool" where
  "accepted_trigger t \<longleftrightarrow> (case t of Poll_Info _ \<Rightarrow> True | Poll_Http c \<Rightarrow> c \<in> {200, 201, 204, 409} | _ \<Rightarrow> False)"

lemma remote_run_waits:
  "accepted_trigger trigger \<Longrightarrow>
     remote_run fuel True timeout events trigger turn = map_option (map_sum id Some) (wait_loop fuel timeout events turn 0 0)"
  by (simp add: remote_run_def accepted_trigger_def)

definition demo_turn :: "(nat \<Rightarrow> string) \<Rightarrow> nat \<Rightarrow> wait_turn" where
  "demo_turn st k = \<lparr>wt_elapsed = 1200 * int k, wt_queue = None, wt_poll = Poll_Info (Some (st k)),
     wt_refresh = Poll_Info (Some (st k))\<rparr>"

section \<open>Properties\<close>



text \<open>A blocking run of a remote conversation that comes to wait for a confirmation, or is paused, does not come
  back: these statuses are not terminal, and what \<open>_handle_conversation_status\<close> returns for them is not used. While the
  polls show such a status the run goes on until the time is over and then fails with a timeout.\<close>

theorem waiting_run_times_out:
  assumes "accepted_trigger trigger" and "wt_elapsed (turn d) > timeout" and "d < fuel"
    and "\<forall>i < d. wt_elapsed (turn i) \<le> timeout \<and> wt_queue (turn i) = None \<and>
      wt_poll (turn i) \<in> {Poll_Info (Some (status_value WAITING_FOR_CONFIRMATION)), Poll_Info (Some (status_value PAUSED))}"
  shows "remote_run fuel True timeout events trigger turn = Some (Inl Timed_Out)"
proof -
  have "\<forall>i. 0 \<le> i \<and> i < 0 + d \<longrightarrow> wt_elapsed (turn i) \<le> timeout \<and> wt_queue (turn i) = None \<and>
      (\<exists>x. wt_poll (turn i) = Poll_Info (Some (status_value x)) \<and> \<not> is_terminal x)"
  proof (intro allI impI)
    fix i assume "0 \<le> i \<and> i < 0 + d"
    with assms(4) consider "wt_poll (turn i) = Poll_Info (Some (status_value WAITING_FOR_CONFIRMATION))"
      | "wt_poll (turn i) = Poll_Info (Some (status_value PAUSED))" by auto
    then have "\<exists>x. wt_poll (turn i) = Poll_Info (Some (status_value x)) \<and> \<not> is_terminal x"
    proof cases
      case 1
      then show ?thesis by (intro exI [of _ WAITING_FOR_CONFIRMATION]) (simp add: is_terminal_def)
    next
      case 2
      then show ?thesis by (intro exI [of _ PAUSED]) (simp add: is_terminal_def)
    qed
    with assms(4) \<open>0 \<le> i \<and> i < 0 + d\<close> show "wt_elapsed (turn i) \<le> timeout \<and> wt_queue (turn i) = None \<and>
        (\<exists>x. wt_poll (turn i) = Poll_Info (Some (status_value x)) \<and> \<not> is_terminal x)" by simp
  qed
  from wait_loop_open_status [OF this, of fuel events 0] assms(2,3) show ?thesis
    by (simp add: remote_run_waits [OF assms(1)])
qed

lemma waiting_run_times_out_witness:
  "remote_run 5 True 3600 [] (Poll_Info None) (demo_turn (\<lambda>k. if k = 0 then ''paused'' else ''waiting_for_confirmation'')) =
    Some (Inl Timed_Out)"
  by (rule waiting_run_times_out [where d = 4]) (auto simp: accepted_trigger_def demo_turn_def)

text \<open>An update of one field makes a cache out of nothing: the status is then missing although the server has it.\<close>

lemma partial_update_hides_status:
  assumes "key \<noteq> FULL_STATE_KEY" and "key \<noteq> ''execution_status''"
  shows "remote_status server (update_state_from_event key val None) = Inl Status_Missing"
  using assms by (simp add: remote_status_def get_conversation_info_def update_state_from_event_def)

lemma status_after_snapshot:
  "remote_status server (update_state_from_event ''execution_status'' (JStr (status_value x)) cached) = Inr x"
  by (simp add: remote_status_def get_conversation_info_def update_state_from_event_def FULL_STATE_KEY_def
      update_conv' Let_def)

end
