(* ===== verification/Pub_Sub.thy ===== *)
theory Pub_Sub
  imports Prelude
begin

text \<open>
  How events reach the subscribers of the agent server: the subscriptions
  (\<open>agent_server/pub_sub.py\<close>) and the wrapper that runs an asynchronous callback in the loop of the
  server and keeps its pending futures (\<open>sdk/utils/async_utils.py\<close>). What a subscriber does with an event is
  a parameter. The lemmas show that every subscriber gets every event whatever the others do, and how long a
  wait for the pending callbacks takes.
\<close>

section \<open>Subscriptions\<close>

datatype call_outcome = Call_Ok | Call_Raises string

record 's pubsub =
  ps_subscribers :: "(string \<times> 's) list"
  ps_max_subscribers :: "nat option"

definition max_subscribers_error :: "nat \<Rightarrow> string" where
  "max_subscribers_error n = ''Subscriber limit reached ('' @ show_nat n @ '')''"

text \<open>\<open>uuid4()\<close> is the argument \<open>new_id\<close>.\<close>

definition subscribe :: "string \<Rightarrow> 's \<Rightarrow> 's pubsub \<Rightarrow> (string, string \<times> 's pubsub) result" where
  "subscribe new_id subscriber ps =
     (case ps_max_subscribers ps of
        Some n \<Rightarrow>
          if length (ps_subscribers ps) \<ge> n then Inl (max_subscribers_error n)
          else Inr (new_id, ps\<lparr>ps_subscribers := AList.update new_id subscriber (ps_subscribers ps)\<rparr>)
      | None \<Rightarrow> Inr (new_id, ps\<lparr>ps_subscribers := AList.update new_id subscriber (ps_subscribers ps)\<rparr>))"

definition unsubscribe :: "string \<Rightarrow> 's pubsub \<Rightarrow> 's pubsub \<times> bool" where
  "unsubscribe i ps =
     (if i \<in> fst ` set (ps_subscribers ps)
      then (ps\<lparr>ps_subscribers := AList.delete i (ps_subscribers ps)\<rparr>, True)
      else (ps, False))"

text \<open>
  \<open>__call__\<close>: the calls that are made, with the errors that are logged. The subscribers of the moment are called; none
  of the errors is raised.
\<close>

definition publish :: "('s \<Rightarrow> 'e \<Rightarrow> call_outcome) \<Rightarrow> 'e \<Rightarrow> 's pubsub \<Rightarrow> (string \<times> 's) list \<times> (string \<times> string) list" where
  "publish call e ps =
     (let subscribers = ps_subscribers ps
      in (subscribers,
          concat (map (\<lambda>(i, s). case call s e of Call_Raises err \<Rightarrow> [(i, err)] | Call_Ok \<Rightarrow> []) subscribers)))"

text \<open>
  \<open>close\<close>: every \<open>close\<close> is started; \<open>asyncio.gather\<close> raises the first error, and then the subscribers
  stay. (The order in which several fail is the one of the list here.)
\<close>

definition first_error :: "call_outcome list \<Rightarrow> string option" where
  "first_error rs = (case concat (map (\<lambda>r. case r of Call_Raises e \<Rightarrow> [e] | Call_Ok \<Rightarrow> []) rs) of
     [] \<Rightarrow> None | e # _ \<Rightarrow> Some e)"

definition close_pubsub :: "('s \<Rightarrow> call_outcome) \<Rightarrow> 's pubsub \<Rightarrow> 's pubsub \<times> (string, unit) result" where
  "close_pubsub close ps =
     (case first_error (map (close \<circ> snd) (ps_subscribers ps)) of
        Some e \<Rightarrow> (ps, Inl e)
      | None \<Rightarrow> (ps\<lparr>ps_subscribers := []\<rparr>, Inr ()))"

section \<open>The callback wrapper\<close>

text \<open>
  A future is a number; \<open>finishes f\<close> is the time it is done, \<open>None\<close> if never. A call while the loop runs adds a future and drops
  the finished ones.
\<close>

definition future_done :: "('f \<Rightarrow> int option) \<Rightarrow> int \<Rightarrow> 'f \<Rightarrow> bool" where
  "future_done finishes now f \<longleftrightarrow> (case finishes f of Some t \<Rightarrow> t \<le> now | None \<Rightarrow> False)"

definition wrapper_call :: "('f \<Rightarrow> int option) \<Rightarrow> bool \<Rightarrow> int \<Rightarrow> 'f \<Rightarrow> 'f list \<Rightarrow> 'f list" where
  "wrapper_call finishes running now new_future pending =
     (if running then filter (\<lambda>f. \<not> future_done finishes now f) pending @ [new_future] else pending)"

text \<open>\<open>future.result(timeout)\<close> from the time \<open>now\<close> on: the time it returns or raises; \<open>None\<close> if it does not.\<close>

definition result_time :: "('f \<Rightarrow> int option) \<Rightarrow> int option \<Rightarrow> int \<Rightarrow> 'f \<Rightarrow> int option" where
  "result_time finishes timeout now f =
     (case (finishes f, timeout) of
        (Some t, Some d) \<Rightarrow> Some (max now (min t (now + d)))
      | (Some t, None) \<Rightarrow> Some (max now t)
      | (None, Some d) \<Rightarrow> Some (now + d)
      | (None, None) \<Rightarrow> None)"

text \<open>\<open>wait_for_pending\<close>: the time it returns. All exceptions are dropped, that of a timeout too.\<close>

fun wait_for_pending :: "('f \<Rightarrow> int option) \<Rightarrow> int option \<Rightarrow> int \<Rightarrow> 'f list \<Rightarrow> int option" where
  "wait_for_pending finishes timeout now [] = Some now"
| "wait_for_pending finishes timeout now (f # fs) =
     (case result_time finishes timeout now f of
        None \<Rightarrow> None
      | Some t \<Rightarrow> wait_for_pending finishes timeout t fs)"

section \<open>Lemmas\<close>

lemma subscribe_then_publish:
  assumes "subscribe i s ps = Inr (i', ps')"
  shows "i' = i \<and> (i, s) \<in> set (fst (publish call e ps'))"
  using assms by (auto simp: subscribe_def publish_def Let_def map_of_SomeD update_conv' split: option.splits if_splits
      intro: map_of_SomeD)

lemma subscribe_within_limit:
  assumes "subscribe i s ps = Inr (i', ps')" and "ps_max_subscribers ps = Some n"
    and "length (ps_subscribers ps) \<le> n"
  shows "length (ps_subscribers ps') \<le> n"
  using assms by (auto simp: subscribe_def length_update split: if_splits)

lemma unsubscribed_gets_nothing:
  assumes "unsubscribe i ps = (ps', b)"
  shows "(i, s) \<notin> set (fst (publish call e ps'))"
proof -
  have "i \<notin> fst ` set (ps_subscribers ps')"
  proof (cases "i \<in> fst ` set (ps_subscribers ps)")
    case True
    then have "ps_subscribers ps' = AList.delete i (ps_subscribers ps)"
      using assms by (simp add: unsubscribe_def) (metis pubsub.select_convs(1) pubsub.surjective pubsub.update_convs(1))
    then show ?thesis using delete_notin_dom by metis
  next
    case False
    then show ?thesis using assms by (simp add: unsubscribe_def)
  qed
  then show ?thesis by (metis (no_types, lifting) fst_conv image_eqI publish_def)
qed

text \<open>What a subscriber raises does not reach the others: the calls do not depend on the outcomes.\<close>

lemma publish_is_isolated: "fst (publish call e ps) = fst (publish call' e ps)"
  by (simp add: publish_def Let_def)

lemma failed_close_keeps_subscribers:
  assumes "(i, s) \<in> set (ps_subscribers ps)" and "close s = Call_Raises err"
  shows "\<exists>e. close_pubsub close ps = (ps, Inl e)"
proof -
  let ?es = "concat (map (\<lambda>r. case r of Call_Raises e \<Rightarrow> [e] | Call_Ok \<Rightarrow> []) (map (close \<circ> snd) (ps_subscribers ps)))"
  have "err \<in> set ?es" using assms by force
  then have "?es \<noteq> []" by (metis empty_iff list.set(1))
  then obtain e es where "?es = e # es" by (meson neq_Nil_conv)
  then show ?thesis unfolding close_pubsub_def first_error_def by simp
qed

lemma wait_finishes_all:
  "wait_for_pending finishes None now fs = Some t \<Longrightarrow> now \<le> t \<and> (\<forall>f \<in> set fs. future_done finishes t f)"
proof (induction fs arbitrary: now)
  case (Cons f fs)
  then obtain u where u: "result_time finishes None now f = Some u" "wait_for_pending finishes None u fs = Some t"
    by (auto split: option.splits)
  from Cons.IH [OF u(2)] u(1) show ?case
    by (auto simp: result_time_def future_done_def split: option.splits)
qed simp

text \<open>The timeout is one per future: a wait with timeout \<open>d\<close> returns after at most, and may take, \<open>d\<close> times their number.\<close>

lemma wait_is_bounded:
  assumes "0 \<le> d"
  shows "\<exists>t. wait_for_pending finishes (Some d) now fs = Some t \<and> now \<le> t \<and> t \<le> now + d * int (length fs)"
proof (induction fs arbitrary: now)
  case (Cons f fs)
  obtain u where u: "result_time finishes (Some d) now f = Some u" "now \<le> u" "u \<le> now + d"
    using assms that by (cases "finishes f") (simp_all add: result_time_def)
  with Cons.IH [of u] show ?case by (auto simp: algebra_simps)
qed simp

lemma wait_for_stuck_callbacks:
  "\<forall>f \<in> set fs. finishes f = None \<Longrightarrow>
     wait_for_pending finishes (Some d) now fs = Some (now + d * int (length fs))"
  by (induction fs arbitrary: now) (auto simp: result_time_def algebra_simps)

text \<open>The wrapper forgets only futures that are done, so a wait after any calls covers every event.\<close>

lemma wrapper_keeps_pending:
  assumes "f \<in> set pending" and "\<not> future_done finishes now f"
  shows "f \<in> set (wrapper_call finishes running now g pending)"
  using assms by (auto simp: wrapper_call_def)

end
