(* ===== verification/Fn_Call.thy ===== *)
theory Fn_Call
  imports Messages "HOL-Library.Multiset"
begin

text \<open>
  Function calls for models without them (\<open>sdk/llm/mixins/fn_call_converter.py\<close>): a tool call is written into
  the text of a message and read back with regular expressions. The expressions are written out as
  functions on strings that do what \<open>re.search\<close>, \<open>re.finditer\<close> and \<open>re.sub\<close> do with them. The JSON library, the
  description of the tools and the example for the prompt are parameters. The lemmas show which calls come back as
  they were, what is lost of the others, and that splitting a message with several calls puts each call before its result.
\<close>

section \<open>Searching in strings\<close>

text \<open>The text before and after the first occurrence: \<open>(.*?)p\<close> with the rest.\<close>

fun split_first :: "string \<Rightarrow> string \<Rightarrow> (string \<times> string) option" where
  "split_first p [] = (if p = [] then Some ([], []) else None)"
| "split_first p (c # cs) =
     (if starts_with p (c # cs) then Some ([], drop (length p) (c # cs))
      else map_option (\<lambda>(a, b). (c # a, b)) (split_first p cs))"

lemma split_first_length: "split_first p s = Some (a, b) \<Longrightarrow> length s = length a + length p + length b"
proof (induction s arbitrary: a)
  case (Cons c cs)
  then show ?case
    by (auto simp: starts_with_def split: if_splits option.splits dest: arg_cong [where f = length])
qed (auto split: if_splits)

fun count_sub :: "string \<Rightarrow> string \<Rightarrow> nat \<Rightarrow> nat" where
  "count_sub p s 0 = 0"
| "count_sub p s (Suc n) = (case split_first p s of None \<Rightarrow> 0 | Some (a, b) \<Rightarrow> Suc (count_sub p b n))"

text \<open>\<open>s.count(p)\<close> for a non-empty \<open>p\<close>, and \<open>s.endswith(p)\<close>.\<close>

definition py_count :: "string \<Rightarrow> string \<Rightarrow> nat" where
  "py_count p s = count_sub p s (length s)"

definition ends_with :: "string \<Rightarrow> string \<Rightarrow> bool" where
  "ends_with p s \<longleftrightarrow> starts_with (rev p) (rev s)"

text \<open>\<open>s.split(p)[0]\<close>.\<close>

definition before_first :: "string \<Rightarrow> string \<Rightarrow> string" where
  "before_first p s = (case split_first p s of None \<Rightarrow> s | Some (a, b) \<Rightarrow> a)"

definition remove_prefix :: "string \<Rightarrow> string \<Rightarrow> string" where
  "remove_prefix p s = (if starts_with p s then drop (length p) s else s)"

definition remove_suffix :: "string \<Rightarrow> string \<Rightarrow> string" where
  "remove_suffix p s = (if ends_with p s then take (length s - length p) s else s)"

section \<open>The tags\<close>

definition FN_OPEN :: string where "FN_OPEN = ''<function=''"
definition FN_CLOSE :: string where "FN_CLOSE = ''</function>''"
definition PARAM_OPEN :: string where "PARAM_OPEN = ''<parameter=''"
definition PARAM_CLOSE :: string where "PARAM_CLOSE = ''</parameter>''"
definition THINK_CLOSE :: string where "THINK_CLOSE = ''</think>''"
definition TOOL_CALL_OPEN :: string where "TOOL_CALL_OPEN = ''<tool_call>''"
definition TOOL_CALL_CLOSE :: string where "TOOL_CALL_CLOSE = ''</tool_call>''"

lemmas tag_defs = FN_OPEN_def FN_CLOSE_def PARAM_OPEN_def PARAM_CLOSE_def THINK_CLOSE_def TOOL_CALL_OPEN_def
  TOOL_CALL_CLOSE_def

text \<open>\<open><function=([^>]+)>\n?(.*?)</function>\<close> after the opening: the name and the body.\<close>

definition tag_name :: "string \<Rightarrow> (string \<times> string) option" where
  "tag_name t =
     (let name = takeWhile (\<lambda>c. c \<noteq> CHR ''>'') t; rest = dropWhile (\<lambda>c. c \<noteq> CHR ''>'') t
      in if name = [] \<or> rest = [] then None else Some (name, tl rest))"

definition match_fn :: "string \<Rightarrow> (string \<times> string) option" where
  "match_fn t =
     (case tag_name t of
        None \<Rightarrow> None
      | Some (name, rest) \<Rightarrow>
          (let body = (if rest \<noteq> [] \<and> hd rest = newline then tl rest else rest)
           in map_option (\<lambda>(b, _). (name, b)) (split_first FN_CLOSE body)))"

text \<open>\<open>re.search(FN_REGEX_PATTERN, s, re.DOTALL)\<close>: the leftmost match.\<close>

fun search_fn :: "string \<Rightarrow> (string \<times> string) option" where
  "search_fn [] = None"
| "search_fn (c # cs) =
     (case (if starts_with FN_OPEN (c # cs) then match_fn (drop (length FN_OPEN) (c # cs)) else None) of
        Some m \<Rightarrow> Some m
      | None \<Rightarrow> search_fn cs)"

text \<open>\<open><parameter=([^>]+)>(.*?)</parameter>\<close> after the opening, with the text after the match.\<close>

definition match_param :: "string \<Rightarrow> (string \<times> string \<times> string) option" where
  "match_param t =
     (case tag_name t of
        None \<Rightarrow> None
      | Some (name, rest) \<Rightarrow> map_option (\<lambda>(v, after). (name, v, after)) (split_first PARAM_CLOSE rest))"

lemma tag_name_length:
  assumes "tag_name t = Some (name, rest)"
  shows "length rest < length t"
proof -
  let ?d = "dropWhile (\<lambda>c. c \<noteq> CHR ''>'') t"
  have "rest = tl ?d" "?d \<noteq> []" using assms by (auto simp: tag_name_def Let_def split: if_splits)
  moreover have "length ?d \<le> length t" by (rule length_dropWhile_le)
  ultimately show ?thesis by (cases ?d) auto
qed

lemma match_param_length: "match_param t = Some (name, v, after) \<Longrightarrow> length after < length t"
  using tag_name_length split_first_length
  by (fastforce simp: match_param_def split: option.splits prod.splits)

text \<open>\<open>re.finditer(FN_PARAM_REGEX_PATTERN, s, re.DOTALL)\<close>: the groups of the matches.\<close>

function find_params :: "string \<Rightarrow> (string \<times> string) list" where
  "find_params [] = []"
| "find_params (c # cs) =
     (case (if starts_with PARAM_OPEN (c # cs) then match_param (drop (length PARAM_OPEN) (c # cs)) else None) of
        Some (name, v, after) \<Rightarrow> (name, v) # find_params after
      | None \<Rightarrow> find_params cs)"
  by pat_completeness auto
termination
  by (relation "measure length") (auto dest!: match_param_length split: if_splits)

section \<open>Cleaning the output of a model\<close>

text \<open>\<open>re.sub(tag + r"\s*(?=<function=)", "", s)\<close>.\<close>

definition before_call :: "string \<Rightarrow> string \<Rightarrow> bool" where
  "before_call tag s \<longleftrightarrow> starts_with tag s \<and> starts_with FN_OPEN (dropWhile py_space (drop (length tag) s))"

function drop_before_call :: "string \<Rightarrow> string \<Rightarrow> string" where
  "drop_before_call tag [] = []"
| "drop_before_call tag (c # cs) =
     (if tag \<noteq> [] \<and> before_call tag (c # cs) then drop_before_call tag (dropWhile py_space (drop (length tag) (c # cs)))
      else c # drop_before_call tag cs)"
  by pat_completeness auto
termination
proof (relation "measure (\<lambda>(tag, s). length s)", goal_cases)
  case (2 tag c cs)
  have "length (dropWhile py_space (drop (length tag) (c # cs))) \<le> length (drop (length tag) (c # cs))"
    by (rule length_dropWhile_le)
  also have "\<dots> < length (c # cs)" using 2 by (cases tag) auto
  finally show ?case by simp
qed auto

text \<open>\<open>re.sub(r"(?<=</function>)\s*</tool_call>", "", s)\<close>.\<close>

definition after_call :: "string \<Rightarrow> bool" where
  "after_call s \<longleftrightarrow> starts_with FN_CLOSE s \<and>
     starts_with TOOL_CALL_CLOSE (dropWhile py_space (drop (length FN_CLOSE) s))"

function drop_after_call :: "string \<Rightarrow> string" where
  "drop_after_call [] = []"
| "drop_after_call (c # cs) =
     (if after_call (c # cs)
      then FN_CLOSE @ drop_after_call (drop (length TOOL_CALL_CLOSE) (dropWhile py_space (drop (length FN_CLOSE) (c # cs))))
      else c # drop_after_call cs)"
  by pat_completeness auto
termination
proof (relation "measure length", goal_cases)
  case (2 c cs)
  have "length (drop (length TOOL_CALL_CLOSE) (dropWhile py_space (drop (length FN_CLOSE) (c # cs)))) \<le>
      length (drop (length FN_CLOSE) (c # cs))"
    by (metis diff_le_self length_drop length_dropWhile_le order_trans)
  also have "\<dots> < length (c # cs)" by (simp add: FN_CLOSE_def)
  finally show ?case by simp
qed auto

definition preprocess_model_output :: "string \<Rightarrow> string" where
  "preprocess_model_output s = drop_after_call (drop_before_call TOOL_CALL_OPEN (drop_before_call THINK_CLOSE s))"

definition fix_stopword :: "string \<Rightarrow> string" where
  "fix_stopword s =
     (let t = preprocess_model_output s
      in if is_infix FN_OPEN t \<and> py_count FN_OPEN t = 1 then
           (if ends_with ''</'' t then py_rstrip t @ ''function>''
            else if \<not> ends_with FN_CLOSE (py_rstrip t) then t @ [newline] @ FN_CLOSE
            else t)
         else t)"

text \<open>
  \<open>re.sub(r"<parameter=([a-zA-Z0-9_]+)=([^<]*)</parameter>", r"<parameter=\1>\2</parameter>", s)\<close>: the match after the
  opening is the name, the value and the text after it.
\<close>

definition word_char :: "char \<Rightarrow> bool" where
  "word_char c \<longleftrightarrow> (let n = of_char c :: nat in (97 \<le> n \<and> n \<le> 122) \<or> (65 \<le> n \<and> n \<le> 90) \<or> (48 \<le> n \<and> n \<le> 57) \<or> n = 95)"

definition match_malformed :: "string \<Rightarrow> (string \<times> string \<times> string) option" where
  "match_malformed t =
     (let name = takeWhile word_char t; rest = dropWhile word_char t
      in if name = [] \<or> rest = [] \<or> hd rest \<noteq> CHR ''='' then None
         else (let v = takeWhile (\<lambda>c. c \<noteq> CHR ''<'') (tl rest); tail = dropWhile (\<lambda>c. c \<noteq> CHR ''<'') (tl rest)
               in if starts_with PARAM_CLOSE tail then Some (name, v, drop (length PARAM_CLOSE) tail) else None))"

lemma match_malformed_length: "match_malformed t = Some (name, v, after) \<Longrightarrow> length after \<le> length t"
proof -
  assume m: "match_malformed t = Some (name, v, after)"
  let ?rest = "tl (dropWhile word_char t)"
  have "after = drop (length PARAM_CLOSE) (dropWhile (\<lambda>c. c \<noteq> CHR ''<'') ?rest)"
    using m by (auto simp: match_malformed_def Let_def split: if_splits)
  moreover have "length ?rest \<le> length t" "length (dropWhile (\<lambda>c. c \<noteq> CHR ''<'') ?rest) \<le> length ?rest"
    by (metis diff_le_self le_trans length_dropWhile_le length_tl) (rule length_dropWhile_le)
  ultimately show ?thesis by simp
qed

function normalize_parameter_tags :: "string \<Rightarrow> string" where
  "normalize_parameter_tags [] = []"
| "normalize_parameter_tags (c # cs) =
     (case (if starts_with PARAM_OPEN (c # cs) then match_malformed (drop (length PARAM_OPEN) (c # cs)) else None) of
        Some (name, v, after) \<Rightarrow> PARAM_OPEN @ name @ ''>'' @ v @ PARAM_CLOSE @ normalize_parameter_tags after
      | None \<Rightarrow> c # normalize_parameter_tags cs)"
  by pat_completeness auto
termination
  by (relation "measure length") (auto dest!: match_malformed_length simp: PARAM_OPEN_def split: if_splits)

section \<open>Messages and tools\<close>

text \<open>
  A content is a string or a list of parts; the flag of a part is its \<open>cache_control\<close>. A message is the dictionary
  with the keys the converter uses. Of an error the kind is kept, of a validation error also the name it is about.
\<close>

datatype fc_part = Text_Part string bool | Other_Part json bool

datatype fc_content = Str_Content string | List_Content "fc_part list"

record fc_call =
  fc_id :: "string option"
  fc_type :: "string option"
  fc_function :: "(string \<times> string) option"     \<comment> \<open>the name and the arguments\<close>

record fc_message =
  fm_role :: string
  fm_content :: "fc_content option"
  fm_tool_calls :: "fc_call list option"
  fm_tool_call_id :: "string option"
  fm_name :: "string option"
  fm_cache_control :: bool

definition fc_text :: "string \<Rightarrow> fc_content \<Rightarrow> fc_message" where
  "fc_text role content = \<lparr>fm_role = role, fm_content = Some content, fm_tool_calls = None, fm_tool_call_id = None,
     fm_name = None, fm_cache_control = False\<rparr>"

text \<open>\<open>message.get("content") or ""\<close>: an empty list is false.\<close>

definition content_of :: "fc_message \<Rightarrow> fc_content" where
  "content_of m = (case fm_content m of
     None \<Rightarrow> Str_Content []
   | Some (List_Content []) \<Rightarrow> Str_Content []
   | Some c \<Rightarrow> c)"

text \<open>The schema of a tool's parameters, as far as it is looked at.\<close>

record fc_property =
  fp_type :: "string option"
  fp_enum :: "json list option"

record fc_tool =
  ft_type :: string
  ft_name :: string
  ft_properties :: "(string \<times> fc_property) list"
  ft_required :: "string list"

datatype fc_error =
    Conversion_Error | Assertion_Failed | Attribute_Error | Key_Error
  | Not_Allowed string | Not_Integer string | Not_Array string | Not_In_Enum string
  | Missing_Parameters "string set" | Unknown_Function string

record fc_env =
  fe_loads :: "string \<Rightarrow> json option"
  fe_dumps :: "json \<Rightarrow> string"
  fe_suffix :: string        \<comment> \<open>\<open>_build_system_message_suffix(tools, ...)\<close>\<close>
  fe_example :: string       \<comment> \<open>\<open>get_example_for_tools(tools)\<close>\<close>
  fe_example_suffix :: string
  fe_tools :: "fc_tool list"

section \<open>Writing calls into the text\<close>

text \<open>\<open>str(value)\<close> of a scalar, \<open>json.dumps\<close> of a list or dictionary.\<close>

fun render_value :: "(json \<Rightarrow> string) \<Rightarrow> json \<Rightarrow> string" where
  "render_value dumps (JStr s) = s"
| "render_value dumps (JInt i) = show_int i"
| "render_value dumps (JBool b) = (if b then ''True'' else ''False'')"
| "render_value dumps JNull = ''None''"
| "render_value dumps v = dumps v"

definition render_parameter :: "(json \<Rightarrow> string) \<Rightarrow> string \<times> json \<Rightarrow> string" where
  "render_parameter dumps p =
     (let (name, v) = p; rendered = render_value dumps v
      in if (case v of JStr s \<Rightarrow> newline \<in> set s | _ \<Rightarrow> False)
         then PARAM_OPEN @ name @ ''>'' @ [newline] @ rendered @ [newline] @ PARAM_CLOSE
         else PARAM_OPEN @ name @ ''>'' @ rendered @ PARAM_CLOSE)"

definition convert_tool_call_to_string :: "fc_env \<Rightarrow> fc_call \<Rightarrow> (fc_error, string) result" where
  "convert_tool_call_to_string env tc =
     (case (fc_function tc, fc_id tc, fc_type tc) of
        (Some (name, arguments), Some _, Some ty) \<Rightarrow>
          if ty \<noteq> ''function'' then Inl Conversion_Error
          else (case fe_loads env arguments of
                  None \<Rightarrow> Inl Conversion_Error
                | Some (JObj args) \<Rightarrow>
                    Inr (py_join [newline]
                      ([FN_OPEN @ name @ ''>''] @ map (render_parameter (fe_dumps env)) args @ [FN_CLOSE]))
                | Some _ \<Rightarrow> Inl Attribute_Error)
      | _ \<Rightarrow> Inl Conversion_Error)"

definition append_to_content :: "string \<Rightarrow> fc_content \<Rightarrow> fc_content" where
  "append_to_content sfx c =
     (case c of
        Str_Content s \<Rightarrow> Str_Content (s @ sfx)
      | List_Content ps \<Rightarrow>
          List_Content (case rev ps of
            Text_Part t k # rest \<Rightarrow> rev (Text_Part (t @ sfx) k # rest)
          | _ \<Rightarrow> ps @ [Text_Part sfx False]))"

definition prepend_to_content :: "string \<Rightarrow> fc_content \<Rightarrow> fc_content" where
  "prepend_to_content prfx c =
     (case c of
        Str_Content s \<Rightarrow> Str_Content (prfx @ s)
      | List_Content ps \<Rightarrow>
          List_Content (case ps of Text_Part t k # rest \<Rightarrow> Text_Part (prfx @ t) k # rest | _ \<Rightarrow> Text_Part prfx False # ps))"

definition wrap_content_with_example :: "string \<Rightarrow> string \<Rightarrow> fc_content \<Rightarrow> fc_content" where
  "wrap_content_with_example prfx sfx c =
     (case c of
        Str_Content s \<Rightarrow> Str_Content (prfx @ s @ sfx)
      | List_Content ps \<Rightarrow>
          List_Content (case ps of
            Text_Part t k # rest \<Rightarrow> Text_Part (prfx @ t @ sfx) k # rest
          | _ \<Rightarrow> [Text_Part prfx False] @ ps @ [Text_Part sfx False]))"

definition convert_system_to_non_fncall :: "fc_env \<Rightarrow> fc_content \<Rightarrow> fc_message" where
  "convert_system_to_non_fncall env content = fc_text ''system'' (append_to_content (fe_suffix env) content)"

definition convert_user_to_non_fncall :: "fc_env \<Rightarrow> fc_content \<Rightarrow> bool \<Rightarrow> bool \<Rightarrow> fc_message" where
  "convert_user_to_non_fncall env content is_first add_example =
     fc_text ''user''
       (if is_first \<and> add_example \<and> fe_example env \<noteq> []
        then wrap_content_with_example (fe_example env) (fe_example_suffix env) content
        else content)"

definition convert_assistant_to_non_fncall :: "fc_env \<Rightarrow> fc_message \<Rightarrow> fc_content \<Rightarrow> (fc_error, fc_message) result" where
  "convert_assistant_to_non_fncall env m content =
     (case fm_tool_calls m of
        None \<Rightarrow> Inr (fc_text ''assistant'' content)
      | Some [tc] \<Rightarrow>
          (case convert_tool_call_to_string env tc of
             Inl Attribute_Error \<Rightarrow> Inl Attribute_Error
           | Inl _ \<Rightarrow> Inl Conversion_Error
           | Inr tool_content \<Rightarrow>
               Inr (fc_text ''assistant''
                 (case content of
                    Str_Content s \<Rightarrow> Str_Content (py_lstrip (s @ [newline, newline] @ tool_content))
                  | List_Content ps \<Rightarrow>
                      List_Content (case rev ps of
                        Text_Part t k # rest \<Rightarrow> rev (Text_Part (py_lstrip (t @ [newline, newline] @ tool_content)) k # rest)
                      | _ \<Rightarrow> ps @ [Text_Part tool_content False]))))
      | Some _ \<Rightarrow> Inl Conversion_Error)"

definition RESULT_OPEN :: string where "RESULT_OPEN = ''EXECUTION RESULT of [''"
definition RESULT_MIDDLE :: string where "RESULT_MIDDLE = '']:'' @ [newline]"

fun prefix_first_text :: "string \<Rightarrow> fc_part list \<Rightarrow> fc_part list option" where
  "prefix_first_text pfx [] = None"
| "prefix_first_text pfx (Text_Part t k # ps) = Some (Text_Part (pfx @ t) k # ps)"
| "prefix_first_text pfx (p # ps) = map_option ((#) p) (prefix_first_text pfx ps)"

fun mark_cached :: "fc_part list \<Rightarrow> fc_part list" where
  "mark_cached [] = []"
| "mark_cached [Text_Part t k] = [Text_Part t True]"
| "mark_cached [Other_Part j k] = [Other_Part j True]"
| "mark_cached (p # ps) = p # mark_cached ps"

definition convert_tool_to_non_fncall :: "fc_message \<Rightarrow> fc_content \<Rightarrow> fc_message" where
  "convert_tool_to_non_fncall m content =
     (let tool_name = (case fm_name m of Some n \<Rightarrow> n | None \<Rightarrow> ''function'');
          pfx = RESULT_OPEN @ tool_name @ RESULT_MIDDLE
      in fc_text ''user''
           (case content of
              Str_Content s \<Rightarrow> Str_Content (pfx @ s)
            | List_Content ps \<Rightarrow>
                (let qs = (case prefix_first_text pfx ps of Some qs \<Rightarrow> qs | None \<Rightarrow> Text_Part pfx False # ps)
                 in List_Content (if fm_cache_control m then mark_cached qs else qs))))"

text \<open>\<open>convert_fncall_messages_to_non_fncall_messages\<close>; the flag tells whether a user message has been met.\<close>

fun to_non_fncall :: "fc_env \<Rightarrow> bool \<Rightarrow> bool \<Rightarrow> fc_message list \<Rightarrow> (fc_error, fc_message list) result" where
  "to_non_fncall env add_example seen [] = Inr []"
| "to_non_fncall env add_example seen (m # ms) =
     (let content = content_of m
      in if fm_role m = ''system'' then
           bind_res (to_non_fncall env add_example seen ms) (\<lambda>rs. Inr (convert_system_to_non_fncall env content # rs))
         else if fm_role m = ''user'' then
           bind_res (to_non_fncall env add_example True ms)
             (\<lambda>rs. Inr (convert_user_to_non_fncall env content (\<not> seen) add_example # rs))
         else if fm_role m = ''assistant'' then
           bind_res (convert_assistant_to_non_fncall env m content)
             (\<lambda>r. bind_res (to_non_fncall env add_example seen ms) (\<lambda>rs. Inr (r # rs)))
         else if fm_role m = ''tool'' then
           bind_res (to_non_fncall env add_example seen ms) (\<lambda>rs. Inr (convert_tool_to_non_fncall m content # rs))
         else Inl Conversion_Error)"

section \<open>Reading calls from the text\<close>

text \<open>\<open>int(s)\<close>: spaces around, a sign, digits with single underscores between them.\<close>

definition py_int :: "string \<Rightarrow> int option" where
  "py_int s =
     (let t = py_strip s;
          (neg, u) = (case t of c # cs \<Rightarrow> if c = CHR ''-'' then (True, cs) else if c = CHR ''+'' then (False, cs) else (False, t)
                       | [] \<Rightarrow> (False, []))
      in if list_all (\<lambda>d. d \<noteq> [] \<and> list_all is_digit d) (split_on CHR ''_'' u)
         then Some ((if neg then -1 else 1) * int (read_nat (filter is_digit u)))
         else None)"

definition convert_param :: "fc_env \<Rightarrow> fc_property \<Rightarrow> string \<Rightarrow> string \<Rightarrow> (fc_error, json) result" where
  "convert_param env prop name s =
     (let ty = (case fp_type prop of Some t \<Rightarrow> t | None \<Rightarrow> ''string'');
          converted =
            (if ty = ''integer'' then (case py_int s of Some i \<Rightarrow> Inr (JInt i) | None \<Rightarrow> Inl (Not_Integer name))
             else if ty = ''array'' then (case fe_loads env s of Some v \<Rightarrow> Inr v | None \<Rightarrow> Inl (Not_Array name))
             else Inr (JStr s))
      in bind_res converted (\<lambda>v.
           case fp_enum prop of
             Some vs \<Rightarrow> if v \<in> set vs then Inr v else Inl (Not_In_Enum name)
           | None \<Rightarrow> Inr v))"

definition no_property :: fc_property where
  "no_property = \<lparr>fp_type = None, fp_enum = None\<rparr>"

fun extract_params :: "fc_env \<Rightarrow> fc_tool \<Rightarrow> (string \<times> string) list \<Rightarrow> dict \<Rightarrow> (fc_error, dict) result" where
  "extract_params env tool [] params = Inr params"
| "extract_params env tool ((name, raw) # ms) params =
     (if ft_properties tool \<noteq> [] \<and> name \<notin> fst ` set (ft_properties tool) then Inl (Not_Allowed name)
      else bind_res (convert_param env (case map_of (ft_properties tool) name of Some p \<Rightarrow> p | None \<Rightarrow> no_property)
               name (py_strip raw))
             (\<lambda>v. extract_params env tool ms (set_key name v params)))"

definition extract_and_validate_params ::
    "fc_env \<Rightarrow> fc_tool \<Rightarrow> (string \<times> string) list \<Rightarrow> (fc_error, dict) result" where
  "extract_and_validate_params env tool ms =
     bind_res (extract_params env tool ms []) (\<lambda>params.
       let missing = set (ft_required tool) - fst ` set ms - {''security_risk''}
       in if missing \<noteq> {} then Inl (Missing_Parameters missing) else Inr params)"

definition TOOL_NAME_ALIASES :: "(string \<times> string) list" where
  "TOOL_NAME_ALIASES = [(''str_replace_editor'', ''file_editor''), (''bash'', ''terminal''),
     (''execute_bash'', ''terminal''), (''str_replace'', ''file_editor'')]"

definition find_tool :: "fc_tool list \<Rightarrow> string \<Rightarrow> fc_tool option" where
  "find_tool tools name = find (\<lambda>t. ft_type t = ''function'' \<and> ft_name t = name) tools"

definition resolve_tool_name :: "fc_tool list \<Rightarrow> string \<Rightarrow> (fc_error, string \<times> fc_tool) result" where
  "resolve_tool_name tools fn_name =
     (case find_tool tools fn_name of
        Some t \<Rightarrow> Inr (fn_name, t)
      | None \<Rightarrow>
          (case map_of TOOL_NAME_ALIASES fn_name of
             None \<Rightarrow> Inl (Unknown_Function fn_name)
           | Some alias \<Rightarrow>
               (case find_tool tools alias of
                  Some t \<Rightarrow> Inr (alias, t)
                | None \<Rightarrow> Inl (Unknown_Function alias))))"

text \<open>\<open>_remove_suffix_from_content\<close>; splitting at an empty suffix is a \<open>ValueError\<close>, the template is never empty.\<close>

definition remove_suffix_from_content :: "string \<Rightarrow> fc_content \<Rightarrow> fc_content" where
  "remove_suffix_from_content sfx c =
     (case c of
        Str_Content s \<Rightarrow> Str_Content (before_first sfx s)
      | List_Content ps \<Rightarrow>
          List_Content (case rev ps of Text_Part t k # rest \<Rightarrow> rev (Text_Part (before_first sfx t) k # rest) | _ \<Rightarrow> ps))"

fun strip_part :: "fc_env \<Rightarrow> fc_part \<Rightarrow> fc_part" where
  "strip_part env (Text_Part t k) = Text_Part (remove_suffix (fe_example_suffix env) (remove_prefix (fe_example env) t)) k"
| "strip_part env p = p"

definition strip_in_context_example :: "fc_env \<Rightarrow> fc_content \<Rightarrow> fc_content" where
  "strip_in_context_example env c =
     (case c of
        Str_Content s \<Rightarrow> Str_Content (remove_suffix (fe_example_suffix env) (remove_prefix (fe_example env) s))
      | List_Content ps \<Rightarrow> List_Content (map (strip_part env) ps))"

text \<open>\<open>re.search(r"EXECUTION RESULT of \[(.*?)\]:\n(.*)", s, re.DOTALL)\<close>.\<close>

definition search_result :: "string \<Rightarrow> (string \<times> string) option" where
  "search_result s = (case split_first RESULT_OPEN s of None \<Rightarrow> None | Some (_, rest) \<Rightarrow> split_first RESULT_MIDDLE rest)"

fun part_match :: "(string \<Rightarrow> 'a option) \<Rightarrow> fc_part list \<Rightarrow> 'a option" where
  "part_match f [] = None"
| "part_match f (Text_Part t k # ps) = (case f t of Some m \<Rightarrow> Some m | None \<Rightarrow> part_match f ps)"
| "part_match f (p # ps) = part_match f ps"

definition find_tool_result_match :: "fc_content \<Rightarrow> (string \<times> string) option" where
  "find_tool_result_match c =
     (case c of Str_Content s \<Rightarrow> search_result s | List_Content ps \<Rightarrow> part_match search_result ps)"

text \<open>\<open>f"toolu_{n:02d}"\<close>.\<close>

definition call_id :: "nat \<Rightarrow> string" where
  "call_id n = ''toolu_'' @ (if n < 10 then ''0'' else []) @ show_nat n"

definition convert_user_to_fncall :: "fc_env \<Rightarrow> fc_content \<Rightarrow> nat \<Rightarrow> bool \<Rightarrow> fc_message" where
  "convert_user_to_fncall env content counter is_first =
     (let c = (if is_first then strip_in_context_example env content else content)
      in case find_tool_result_match c of
           Some (name, res) \<Rightarrow>
             (fc_text ''tool'' (case c of List_Content _ \<Rightarrow> List_Content [Text_Part (py_strip res) False]
                                       | Str_Content _ \<Rightarrow> Str_Content (py_strip res)))
               \<lparr>fm_name := Some name, fm_tool_call_id := Some (call_id (counter - 1))\<rparr>
         | None \<Rightarrow> fc_text ''user'' c)"

definition find_function_match :: "fc_content \<Rightarrow> (fc_error, fc_content \<times> (string \<times> string) option) result" where
  "find_function_match content =
     (case content of
        Str_Content s \<Rightarrow> (let t = fix_stopword s in Inr (Str_Content t, search_fn t))
      | List_Content ps \<Rightarrow>
          (let (qs, m) = (case rev ps of
                  Text_Part t k # rest \<Rightarrow> (rev (Text_Part (fix_stopword t) k # rest), search_fn (fix_stopword t))
                | _ \<Rightarrow> (ps, None))
           in if part_match search_fn qs \<noteq> None \<and> m = None then Inl Conversion_Error
              else Inr (List_Content qs, m)))"

definition strip_function_call :: "fc_content \<Rightarrow> fc_content" where
  "strip_function_call content =
     (case content of
        Str_Content s \<Rightarrow> Str_Content (py_strip (before_first FN_OPEN s))
      | List_Content ps \<Rightarrow>
          List_Content (case rev ps of
            Text_Part t k # rest \<Rightarrow> rev (Text_Part (py_strip (before_first FN_OPEN t)) k # rest) | _ \<Rightarrow> ps))"

text \<open>Without a match the message is returned; a list in it has been changed in place.\<close>

definition convert_assistant_to_fncall ::
    "fc_env \<Rightarrow> fc_message \<Rightarrow> fc_content \<Rightarrow> nat \<Rightarrow> (fc_error, fc_message \<times> nat) result" where
  "convert_assistant_to_fncall env m content counter =
     bind_res (find_function_match content) (\<lambda>(c, found).
       case found of
         None \<Rightarrow> Inr (case c of List_Content _ \<Rightarrow> m\<lparr>fm_content := Some c\<rparr> | Str_Content _ \<Rightarrow> m, counter)
       | Some (fn_name, body) \<Rightarrow>
           bind_res (resolve_tool_name (fe_tools env) fn_name) (\<lambda>(name, tool).
             bind_res (extract_and_validate_params env tool (find_params (normalize_parameter_tags body))) (\<lambda>params.
               Inr ((fc_text ''assistant'' (strip_function_call c))
                      \<lparr>fm_tool_calls := Some [\<lparr>fc_id = Some (call_id counter), fc_type = Some ''function'',
                         fc_function = Some (name, fe_dumps env (JObj params))\<rparr>]\<rparr>,
                    counter + 1))))"

text \<open>\<open>convert_non_fncall_messages_to_fncall_messages\<close>; its counter starts at 1.\<close>

fun to_fncall :: "fc_env \<Rightarrow> nat \<Rightarrow> bool \<Rightarrow> fc_message list \<Rightarrow> (fc_error, fc_message list) result" where
  "to_fncall env counter seen [] = Inr []"
| "to_fncall env counter seen (m # ms) =
     (let content = content_of m
      in if fm_role m = ''system'' then
           bind_res (to_fncall env counter seen ms)
             (\<lambda>rs. Inr (fc_text ''system'' (remove_suffix_from_content (fe_suffix env) content) # rs))
         else if fm_role m = ''user'' then
           bind_res (to_fncall env counter True ms)
             (\<lambda>rs. Inr (convert_user_to_fncall env content counter (\<not> seen) # rs))
         else if fm_role m = ''assistant'' then
           bind_res (convert_assistant_to_fncall env m content counter)
             (\<lambda>(r, counter'). bind_res (to_fncall env counter' seen ms) (\<lambda>rs. Inr (r # rs)))
         else Inl Conversion_Error)"

text \<open>\<open>post_response_prompt_mock\<close>: the history and the answer are read back, the last message is the answer.\<close>

definition read_response :: "fc_env \<Rightarrow> fc_message list \<Rightarrow> fc_message \<Rightarrow> (fc_error, fc_message) result" where
  "read_response env history answer = bind_res (to_fncall env 1 False (history @ [answer])) (\<lambda>rs. Inr (last rs))"

section \<open>Splitting several calls\<close>

text \<open>The walk of \<open>convert_from_multiple_tool_calls_to_single_tool_call_messages\<close>, with the pending messages by id.\<close>

definition single_call :: "fc_content \<Rightarrow> fc_call \<Rightarrow> fc_message" where
  "single_call content tc = (fc_text ''assistant'' content)\<lparr>fm_tool_calls := Some [tc]\<rparr>"

fun add_pending :: "fc_content \<Rightarrow> fc_call list \<Rightarrow> (string \<times> fc_message) list \<Rightarrow> (string \<times> fc_message) list" where
  "add_pending content [] pending = pending"
| "add_pending content (tc # tcs) pending =
     add_pending (Str_Content []) tcs (AList.update (the (fc_id tc)) (single_call content tc) pending)"

fun split_walk :: "(string \<times> fc_message) list \<Rightarrow> fc_message list \<Rightarrow> (fc_error, fc_message list \<times> (string \<times> fc_message) list) result" where
  "split_walk pending [] = Inr ([], pending)"
| "split_walk pending (m # ms) =
     (if fm_role m = ''assistant'' then
        (case fm_tool_calls m of
           Some (tc1 # tc2 # tcs) \<Rightarrow>
             if list_ex (\<lambda>tc. fc_id tc = None) (tc1 # tc2 # tcs) then Inl Key_Error
             else split_walk (add_pending (content_of m) (tc1 # tc2 # tcs) pending) ms
         | _ \<Rightarrow> bind_res (split_walk pending ms) (\<lambda>(rs, p). Inr (m # rs, p)))
      else if fm_role m = ''tool'' then
        (case fm_tool_call_id m of
           None \<Rightarrow> Inl Key_Error
         | Some i \<Rightarrow>
             (case map_of pending i of
                Some call \<Rightarrow> bind_res (split_walk (AList.delete i pending) ms) (\<lambda>(rs, p). Inr (call # m # rs, p))
              | None \<Rightarrow>
                  if pending \<noteq> [] then Inl Assertion_Failed
                  else bind_res (split_walk pending ms) (\<lambda>(rs, p). Inr (m # rs, p))))
      else if pending \<noteq> [] then Inl Assertion_Failed
      else bind_res (split_walk pending ms) (\<lambda>(rs, p). Inr (m # rs, p)))"

definition split_tool_calls :: "bool \<Rightarrow> fc_message list \<Rightarrow> (fc_error, fc_message list) result" where
  "split_tool_calls ignore_final ms =
     bind_res (split_walk [] ms) (\<lambda>(rs, pending).
       if \<not> ignore_final \<and> pending \<noteq> [] then Inl Conversion_Error else Inr rs)"

section \<open>Lemmas on text without tags\<close>

definition plain :: "string \<Rightarrow> bool" where
  "plain s \<longleftrightarrow> CHR ''<'' \<notin> set s"

lemma plain_simps [simp]: "plain []" "plain (c # s) \<longleftrightarrow> c \<noteq> CHR ''<'' \<and> plain s" "plain (s @ t) \<longleftrightarrow> plain s \<and> plain t"
  by (auto simp: plain_def)

lemma starts_with_step [simp]: "starts_with (p # ps) (c # cs) \<longleftrightarrow> p = c \<and> starts_with ps cs" "\<not> starts_with (p # ps) []"
  by (auto simp: starts_with_def)

text \<open>Every search passes over a text without an opening bracket.\<close>

lemma split_first_plain:
  assumes "plain a"
  shows "split_first (CHR ''<'' # p) (a @ s) = map_option (\<lambda>(x, y). (a @ x, y)) (split_first (CHR ''<'' # p) s)"
  using assms by (induction a) (auto simp: option.map_comp comp_def case_prod_beta' option.map_ident intro!: option.map_cong)

lemma search_fn_plain: "plain a \<Longrightarrow> search_fn (a @ s) = search_fn s"
  by (induction a) (auto simp: FN_OPEN_def)

lemma find_params_plain: "plain a \<Longrightarrow> find_params (a @ s) = find_params s"
  by (induction a) (auto simp: PARAM_OPEN_def)

lemma normalize_plain: "plain a \<Longrightarrow> normalize_parameter_tags (a @ s) = a @ normalize_parameter_tags s"
  by (induction a) (auto simp: PARAM_OPEN_def)

lemma drop_before_plain: "plain a \<Longrightarrow> drop_before_call (CHR ''<'' # tag) (a @ s) = a @ drop_before_call (CHR ''<'' # tag) s"
  by (induction a) (auto simp: before_call_def)

lemma drop_after_plain: "plain a \<Longrightarrow> drop_after_call (a @ s) = a @ drop_after_call s"
  by (induction a) (auto simp: after_call_def FN_CLOSE_def)

lemma normalize_skip:
  assumes "\<not> starts_with PARAM_OPEN (c # cs) \<or> match_malformed (drop (length PARAM_OPEN) (c # cs)) = None"
  shows "normalize_parameter_tags (c # cs) = c # normalize_parameter_tags cs"
  using assms by auto

section \<open>Lemmas on the written call\<close>

text \<open>The parameters as they stand in the text, one per line.\<close>

fun params_text :: "(string \<times> string) list \<Rightarrow> string" where
  "params_text [] = []"
| "params_text ((k, w) # ps) = PARAM_OPEN @ k @ CHR ''>'' # w @ PARAM_CLOSE @ newline # params_text ps"

fun raw_text :: "(json \<Rightarrow> string) \<Rightarrow> json \<Rightarrow> string" where
  "raw_text dumps (JStr s) = (if newline \<in> set s then newline # s @ [newline] else s)"
| "raw_text dumps v = render_value dumps v"

definition name_ok :: "string \<Rightarrow> bool" where
  "name_ok k \<longleftrightarrow> k \<noteq> [] \<and> CHR ''<'' \<notin> set k \<and> CHR ''>'' \<notin> set k \<and> CHR ''='' \<notin> set k"

definition texts_ok :: "(string \<times> string) list \<Rightarrow> bool" where
  "texts_ok ps \<longleftrightarrow> (\<forall>(k, w) \<in> set ps. name_ok k \<and> plain w)"

lemma name_ok_plain: "name_ok k \<Longrightarrow> plain k"
  by (simp add: name_ok_def plain_def)

lemma newline_not_bracket [simp]: "newline \<noteq> CHR ''<''" "newline \<noteq> CHR ''>''" "newline \<noteq> CHR ''=''"
  by (simp_all add: newline_def)

lemma render_parameter_text:
  "render_parameter dumps (k, v) = PARAM_OPEN @ k @ CHR ''>'' # raw_text dumps v @ PARAM_CLOSE"
  by (cases v) (simp_all add: render_parameter_def)

lemma join_lines: "py_join [newline] (a # ls @ [z]) = a @ newline # concat (map (\<lambda>l. l @ [newline]) ls) @ z"
  by (induction ls arbitrary: a) auto

lemma rendered_params:
  "concat (map ((\<lambda>l. l @ [newline]) \<circ> render_parameter dumps) args) = params_text (map (\<lambda>(k, v). (k, raw_text dumps v)) args)"
  by (induction args) (auto simp: render_parameter_text)

lemma written_call:
  assumes "fc_function tc = Some (fn, arguments)" and "fc_id tc = Some i" and "fc_type tc = Some ''function''"
    and "fe_loads env arguments = Some (JObj args)"
  shows "convert_tool_call_to_string env tc = Inr (FN_OPEN @ fn @ CHR ''>'' # newline #
    params_text (map (\<lambda>(k, v). (k, raw_text (fe_dumps env) v)) args) @ FN_CLOSE)"
  using assms by (simp add: convert_tool_call_to_string_def join_lines [of _ "map f xs" for f xs] rendered_params)

lemma while_stop: "c \<notin> set k \<Longrightarrow> takeWhile (\<lambda>x. x \<noteq> c) (k @ c # r) = k"
  "c \<notin> set k \<Longrightarrow> dropWhile (\<lambda>x. x \<noteq> c) (k @ c # r) = c # r"
  by (induction k) auto

lemma tag_name_ok: "name_ok k \<Longrightarrow> tag_name (k @ CHR ''>'' # r) = Some (k, r)"
proof -
  assume k: "name_ok k"
  then have "takeWhile (\<lambda>c. c \<noteq> CHR ''>'') (k @ CHR ''>'' # r) = k" "dropWhile (\<lambda>c. c \<noteq> CHR ''>'') (k @ CHR ''>'' # r) = CHR ''>'' # r"
    by (simp_all add: name_ok_def while_stop)
  with k show ?thesis by (simp add: tag_name_def name_ok_def)
qed

lemma split_first_here: "split_first p (p @ s) = Some ([], s)"
  by (cases p; cases s) simp_all

lemma split_at_tag: "plain w \<Longrightarrow> split_first (CHR ''<'' # p) (w @ CHR ''<'' # p @ s) = Some (w, s)"
  using split_first_here [of "CHR ''<'' # p" s] by (simp add: split_first_plain)

lemma find_params_step:
  assumes "name_ok k" and "plain w"
  shows "find_params (PARAM_OPEN @ k @ CHR ''>'' # w @ PARAM_CLOSE @ s) = (k, w) # find_params s"
proof -
  have "match_param (k @ CHR ''>'' # w @ PARAM_CLOSE @ s) = Some (k, w, s)"
    using split_at_tag [OF assms(2), of "''/parameter>''" s]
    by (simp add: match_param_def tag_name_ok [OF assms(1)] PARAM_CLOSE_def)
  then show ?thesis by (simp add: PARAM_OPEN_def)
qed

lemma find_params_text: "texts_ok ps \<Longrightarrow> find_params (params_text ps) = ps"
proof (induction ps rule: params_text.induct)
  case (2 k w ps)
  then show ?case
    using find_params_plain [of "[newline]" "params_text ps"] by (simp add: texts_ok_def find_params_step)
qed simp

lemma match_malformed_ok:
  assumes "name_ok k"
  shows "match_malformed (k @ CHR ''>'' # s) = None"
proof -
  let ?t = "k @ CHR ''>'' # s"
  have "dropWhile word_char ?t = [] \<or> hd (dropWhile word_char ?t) \<noteq> CHR ''=''"
  proof (cases "\<forall>c \<in> set k. word_char c")
    case True
    have "\<not> word_char CHR ''>''" by (simp add: word_char_def)
    with True have "dropWhile word_char ?t = CHR ''>'' # s" by (simp add: dropWhile_append2)
    then show ?thesis by simp
  next
    case False
    then obtain xs c ys where k: "k = xs @ c # ys" "\<forall>x \<in> set xs. word_char x" "\<not> word_char c"
      using split_list_first_prop [of k "\<lambda>x. \<not> word_char x"] by blast
    then have "dropWhile word_char ?t = c # ys @ CHR ''>'' # s" by (simp add: dropWhile_append2)
    moreover have "c \<noteq> CHR ''=''" using assms k(1) by (auto simp: name_ok_def)
    ultimately show ?thesis by simp
  qed
  then show ?thesis by (auto simp: match_malformed_def Let_def)
qed

lemma normalize_text: "texts_ok ps \<Longrightarrow> normalize_parameter_tags (params_text ps) = params_text ps"
proof (induction ps rule: params_text.induct)
  case (2 k w ps)
  let ?s = "newline # params_text ps"
  have kw: "name_ok k" "plain w" and ps: "texts_ok ps" using 2 by (auto simp: texts_ok_def)
  have "normalize_parameter_tags (PARAM_OPEN @ k @ CHR ''>'' # w @ PARAM_CLOSE @ ?s) =
      CHR ''<'' # normalize_parameter_tags ((''parameter='' @ k @ CHR ''>'' # w) @ PARAM_CLOSE @ ?s)"
    using match_malformed_ok [OF kw(1), of "w @ PARAM_CLOSE @ ?s"] normalize_skip [of "CHR ''<''" "''parameter='' @ k @ CHR ''>'' # w @ PARAM_CLOSE @ ?s"]
    by (simp add: PARAM_OPEN_def del: normalize_parameter_tags.simps)
  also have "\<dots> = CHR ''<'' # (''parameter='' @ k @ CHR ''>'' # w) @ normalize_parameter_tags (PARAM_CLOSE @ ?s)"
    using kw name_ok_plain by (subst normalize_plain) auto
  also have "normalize_parameter_tags (PARAM_CLOSE @ ?s) = PARAM_CLOSE @ normalize_parameter_tags ?s"
    using normalize_plain [of "''/parameter>''" ?s] by (simp add: PARAM_CLOSE_def PARAM_OPEN_def)
  also have "normalize_parameter_tags ?s = ?s"
    using normalize_plain [of "[newline]" "params_text ps"] 2(1) [OF ps] by simp
  finally show ?case by (simp add: PARAM_OPEN_def)
qed simp

text \<open>Chunks of the text that other tags skip.\<close>

lemma split_fn_close:
  "texts_ok ps \<Longrightarrow> split_first FN_CLOSE (params_text ps @ FN_CLOSE @ s) = Some (params_text ps, s)"
proof (induction ps rule: params_text.induct)
  case 1
  then show ?case by (simp add: split_first_here)
next
  case (2 k w ps)
  have kw: "plain k" "plain w" and ps: "texts_ok ps" using 2 by (auto simp: texts_ok_def name_ok_plain)
  have "split_first FN_CLOSE (params_text ((k, w) # ps) @ FN_CLOSE @ s) =
      map_option (\<lambda>(x, y). (PARAM_OPEN @ x, y)) (split_first FN_CLOSE ((k @ CHR ''>'' # w) @ PARAM_CLOSE @ newline # params_text ps @ FN_CLOSE @ s))"
    by (simp add: PARAM_OPEN_def FN_CLOSE_def option.map_comp comp_def case_prod_beta')
  also have "split_first FN_CLOSE ((k @ CHR ''>'' # w) @ PARAM_CLOSE @ newline # params_text ps @ FN_CLOSE @ s) =
      map_option (\<lambda>(x, y). ((k @ CHR ''>'' # w) @ x, y)) (split_first FN_CLOSE (PARAM_CLOSE @ newline # params_text ps @ FN_CLOSE @ s))"
    unfolding FN_CLOSE_def using kw by (intro split_first_plain) simp
  also have "split_first FN_CLOSE (PARAM_CLOSE @ newline # params_text ps @ FN_CLOSE @ s) =
      map_option (\<lambda>(x, y). (PARAM_CLOSE @ newline # x, y)) (split_first FN_CLOSE (params_text ps @ FN_CLOSE @ s))"
    by (simp add: PARAM_CLOSE_def FN_CLOSE_def newline_def option.map_comp comp_def case_prod_beta')
  finally show ?case using 2(1) [OF ps] by simp
qed

text \<open>A text that a substitution leaves alone and passes over.\<close>

definition passes :: "(string \<Rightarrow> string) \<Rightarrow> string \<Rightarrow> bool" where
  "passes f a \<longleftrightarrow> (\<forall>s. f (a @ s) = a @ f s)"

lemma passes_append: "passes f a \<Longrightarrow> passes f b \<Longrightarrow> passes f (a @ b)"
  by (simp add: passes_def)

lemma passes_params:
  assumes "\<And>a. plain a \<Longrightarrow> passes f a" and "passes f PARAM_OPEN" and "passes f PARAM_CLOSE" and "texts_ok ps"
  shows "passes f (params_text ps)"
  using assms(4)
proof (induction ps rule: params_text.induct)
  case 1
  then show ?case by (simp add: passes_def assms(1))
next
  case (2 k w ps)
  have "plain (k @ CHR ''>'' # w)" using 2(2) by (auto simp: texts_ok_def name_ok_plain)
  then have "passes f (PARAM_OPEN @ (k @ CHR ''>'' # w) @ PARAM_CLOSE @ [newline] @ params_text ps)"
    using assms(1-3) 2 by (intro passes_append) (auto simp: texts_ok_def)
  then show ?case by simp
qed

definition written :: "string \<Rightarrow> string \<Rightarrow> (string \<times> string) list \<Rightarrow> string" where
  "written a fn ps = a @ FN_OPEN @ fn @ CHR ''>'' # newline # params_text ps @ FN_CLOSE"

definition function_name_ok :: "string \<Rightarrow> bool" where
  "function_name_ok fn \<longleftrightarrow> fn \<noteq> [] \<and> plain fn \<and> CHR ''>'' \<notin> set fn"

lemma passes_written:
  assumes "\<And>a. plain a \<Longrightarrow> passes f a" and "passes f PARAM_OPEN" and "passes f PARAM_CLOSE" and "passes f FN_OPEN"
    and "f FN_CLOSE = FN_CLOSE" and "plain a" and "function_name_ok fn" and "texts_ok ps"
  shows "f (written a fn ps) = written a fn ps"
proof -
  have "passes f (a @ FN_OPEN @ (fn @ CHR ''>'' # [newline]) @ params_text ps)"
    using assms by (intro passes_append passes_params) (auto simp: function_name_ok_def)
  then show ?thesis using assms(5) by (simp add: passes_def written_def)
qed

lemma before_call_passes:
  assumes "tag \<in> {TOOL_CALL_OPEN, THINK_CLOSE}"
  shows "\<And>a. plain a \<Longrightarrow> passes (drop_before_call tag) a" and "passes (drop_before_call tag) PARAM_OPEN"
    and "passes (drop_before_call tag) PARAM_CLOSE" and "passes (drop_before_call tag) FN_OPEN"
    and "drop_before_call tag FN_CLOSE = FN_CLOSE"
proof -
  show "passes (drop_before_call tag) a" if "plain a" for a
    using assms drop_before_plain [OF that, of "''tool_call>''"] drop_before_plain [OF that, of "''/think>''"]
    by (auto simp: passes_def TOOL_CALL_OPEN_def THINK_CLOSE_def)
  consider "tag = ''<tool_call>''" | "tag = ''</think>''" using assms by (auto simp: TOOL_CALL_OPEN_def THINK_CLOSE_def)
  note tag = this
  show "passes (drop_before_call tag) PARAM_OPEN"
    by (cases rule: tag) (simp_all add: passes_def PARAM_OPEN_def before_call_def)
  show "passes (drop_before_call tag) PARAM_CLOSE"
    by (cases rule: tag) (simp_all add: passes_def PARAM_CLOSE_def before_call_def)
  show "passes (drop_before_call tag) FN_OPEN"
    by (cases rule: tag) (simp_all add: passes_def FN_OPEN_def before_call_def)
  show "drop_before_call tag FN_CLOSE = FN_CLOSE"
    by (cases rule: tag) (simp_all add: FN_CLOSE_def before_call_def)
qed

lemma after_call_passes:
  "plain a \<Longrightarrow> passes drop_after_call a" "passes drop_after_call PARAM_OPEN" "passes drop_after_call PARAM_CLOSE"
  "passes drop_after_call FN_OPEN" "drop_after_call FN_CLOSE = FN_CLOSE"
  by (simp_all add: passes_def drop_after_plain) (simp_all add: tag_defs after_call_def)

lemma preprocess_written:
  assumes "plain a" and "function_name_ok fn" and "texts_ok ps"
  shows "preprocess_model_output (written a fn ps) = written a fn ps"
proof -
  have "drop_before_call tag (written a fn ps) = written a fn ps" if "tag \<in> {TOOL_CALL_OPEN, THINK_CLOSE}" for tag
    by (rule passes_written [OF before_call_passes [OF that] assms])
  moreover have "drop_after_call (written a fn ps) = written a fn ps"
    by (rule passes_written [OF after_call_passes assms])
  ultimately show ?thesis by (simp add: preprocess_model_output_def)
qed

lemma rstrip_last: "s \<noteq> [] \<Longrightarrow> \<not> py_space (last s) \<Longrightarrow> py_rstrip s = s"
proof -
  assume "s \<noteq> []" and "\<not> py_space (last s)"
  then have "dropWhile py_space (rev s) = rev s" by (simp add: dropWhile_eq_self_iff hd_rev)
  then show ?thesis by (simp add: py_rstrip_def)
qed

lemma fix_stopword_written:
  assumes "plain a" and "function_name_ok fn" and "texts_ok ps"
  shows "fix_stopword (written a fn ps) = written a fn ps"
proof -
  obtain u where u: "written a fn ps = u @ FN_CLOSE" by (simp add: written_def)
  have "py_rstrip (u @ FN_CLOSE) = u @ FN_CLOSE"
    by (rule rstrip_last) (simp_all add: FN_CLOSE_def py_space_def)
  moreover have "ends_with FN_CLOSE (u @ FN_CLOSE)" by (simp add: ends_with_def)
  moreover have "\<not> ends_with ''</'' (u @ FN_CLOSE)" by (simp add: ends_with_def FN_CLOSE_def)
  moreover have "preprocess_model_output (u @ FN_CLOSE) = u @ FN_CLOSE" using preprocess_written [OF assms] u by simp
  ultimately show ?thesis by (simp add: fix_stopword_def u Let_def)
qed

lemma search_written:
  assumes "plain a" and "function_name_ok fn" and "texts_ok ps"
  shows "search_fn (written a fn ps) = Some (fn, params_text ps)"
proof -
  have "takeWhile (\<lambda>x. x \<noteq> CHR ''>'') (fn @ CHR ''>'' # r) = fn"
    "dropWhile (\<lambda>x. x \<noteq> CHR ''>'') (fn @ CHR ''>'' # r) = CHR ''>'' # r" for r
    using assms(2) by (simp_all add: while_stop function_name_ok_def)
  then have "match_fn (fn @ CHR ''>'' # newline # params_text ps @ FN_CLOSE) = Some (fn, params_text ps)"
    using assms(2) split_fn_close [OF assms(3), of "[]"]
    by (simp add: match_fn_def tag_name_def function_name_ok_def)
  then show ?thesis
    unfolding written_def by (simp add: search_fn_plain [OF assms(1)]) (simp add: FN_OPEN_def)
qed

lemma before_first_written:
  assumes "plain a"
  shows "before_first FN_OPEN (written a fn ps) = a"
  unfolding before_first_def written_def
  using split_at_tag [OF assms, of "''function=''"] by (simp add: FN_OPEN_def)

section \<open>Lemmas on values\<close>

lemma strip_newlines: "py_strip (newline # s @ [newline]) = py_strip s"
proof -
  have nl: "py_space newline" by (simp add: newline_def py_space_def)
  show ?thesis
  proof (cases "\<forall>c \<in> set s. py_space c")
    case True
    have all: "dropWhile py_space t = []" if "\<forall>c \<in> set t. py_space c" for t
      using that by (induction t) auto
    have "dropWhile py_space (newline # s @ [newline]) = []" "dropWhile py_space s = []"
      using True nl by (intro all; simp)+
    then show ?thesis by (simp only: py_strip_def py_lstrip_def)
  next
    case False
    then have "dropWhile py_space (s @ [newline]) = dropWhile py_space s @ [newline]"
      by (auto simp: dropWhile_append1)
    then show ?thesis using nl by (simp add: py_strip_def py_lstrip_def py_rstrip_def)
  qed
qed

lemma digit_facts: "is_digit c \<Longrightarrow> \<not> py_space c \<and> c \<noteq> CHR ''_'' \<and> c \<noteq> CHR ''-'' \<and> c \<noteq> CHR ''+''"
  by (auto simp: is_digit_def py_space_def Let_def)

lemma strip_show_int: "py_strip (show_int i) = show_int i"
proof (rule strip_id)
  show "show_int i \<noteq> []" by (simp add: show_int_def)
  have "\<not> py_space (hd (show_nat n)) \<and> \<not> py_space (last (show_nat n))" for n
    using show_nat_digits [of _ n] digit_facts hd_in_set last_in_set show_nat_not_Nil by metis
  then show "\<not> py_space (hd (show_int i))" "\<not> py_space (last (show_int i))"
    by (auto simp: show_int_def py_space_def)
qed

lemma plain_show_int: "plain (show_int i)"
proof -
  have "plain (show_nat n)" for n using show_nat_digits [of "CHR ''<''" n] by (auto simp: plain_def is_digit_def)
  then show ?thesis by (simp add: show_int_def)
qed

lemma py_int_show: "py_int (show_int i) = Some i"
proof -
  have digits: "list_all is_digit (show_nat n)" for n using show_nat_digits by (auto simp: list_all_iff)
  have split: "split_on CHR ''_'' (show_nat n) = [show_nat n]" for n
    using show_nat_digits digit_facts by (intro split_on_plain) auto
  have filt: "filter is_digit (show_nat n) = show_nat n" for n
    using show_nat_digits by (intro filter_True) auto
  show ?thesis
  proof (cases "i < 0")
    case True
    then show ?thesis
      using strip_show_int [of i] by (simp add: py_int_def show_int_def split digits filt)
  next
    case False
    obtain d ds where d: "show_nat (nat i) = d # ds" using show_nat_not_Nil by (cases "show_nat (nat i)") blast+
    then have "d \<noteq> CHR ''-''" "d \<noteq> CHR ''+''" using show_nat_digits [of d "nat i"] digit_facts by auto
    then show ?thesis
      using False strip_show_int [of i] split [of "nat i"] digits [of "nat i"] filt [of "nat i"] read_show_nat [of "nat i"]
      by (simp add: py_int_def show_int_def d)
  qed
qed

text \<open>What becomes of a value: a string loses the space around it.\<close>

fun stripped :: "json \<Rightarrow> json" where
  "stripped (JStr s) = JStr (py_strip s)"
| "stripped v = v"

definition property_of :: "fc_tool \<Rightarrow> string \<Rightarrow> fc_property" where
  "property_of tool k = (case map_of (ft_properties tool) k of Some p \<Rightarrow> p | None \<Rightarrow> no_property)"

definition arg_ok :: "fc_env \<Rightarrow> fc_tool \<Rightarrow> string \<times> json \<Rightarrow> bool" where
  "arg_ok env tool a \<longleftrightarrow>
     (let (k, v) = a; prop = property_of tool k
      in name_ok k \<and> plain (raw_text (fe_dumps env) v) \<and>
         (ft_properties tool = [] \<or> k \<in> fst ` set (ft_properties tool)) \<and>
         (case v of
            JStr s \<Rightarrow> fp_type prop \<notin> {Some ''integer'', Some ''array''}
          | JInt i \<Rightarrow> fp_type prop = Some ''integer''
          | JList vs \<Rightarrow> fp_type prop = Some ''array'' \<and> fe_loads env (py_strip (fe_dumps env v)) = Some v
          | _ \<Rightarrow> False) \<and>
         (case fp_enum prop of Some vs \<Rightarrow> stripped v \<in> set vs | None \<Rightarrow> True))"

lemma convert_param_ok:
  assumes "arg_ok env tool (k, v)"
  shows "convert_param env (property_of tool k) k (py_strip (raw_text (fe_dumps env) v)) = Inr (stripped v)"
proof (cases v)
  case (JStr s)
  have "py_strip (raw_text (fe_dumps env) v) = py_strip s" by (simp add: JStr strip_newlines)
  then show ?thesis
    using assms JStr by (auto simp: convert_param_def arg_ok_def Let_def split: option.splits)
next
  case (JInt i)
  then show ?thesis
    using assms by (auto simp: convert_param_def arg_ok_def Let_def py_int_show strip_show_int split: option.splits)
next
  case (JList vs)
  then show ?thesis
    using assms by (auto simp: convert_param_def arg_ok_def Let_def split: option.splits)
qed (use assms in \<open>auto simp: arg_ok_def Let_def\<close>)

lemma extract_params_ok:
  assumes "list_all (arg_ok env tool) args" and "distinct (map fst acc @ map fst args)"
  shows "extract_params env tool (map (\<lambda>(k, v). (k, raw_text (fe_dumps env) v)) args) acc =
    Inr (acc @ map (\<lambda>(k, v). (k, stripped v)) args)"
  using assms
proof (induction args arbitrary: acc)
  case (Cons a args)
  obtain k v where a: "a = (k, v)" by fastforce
  have "set_key k (stripped v) acc = acc @ [(k, stripped v)]"
    using Cons.prems(2) a by (intro update_new) auto
  then show ?case
    using Cons.IH [of "acc @ [(k, stripped v)]"] Cons.prems a convert_param_ok [of env tool k v]
    by (auto simp: property_of_def [symmetric] arg_ok_def Let_def)
qed simp

section \<open>A call there and back\<close>

definition call_ok :: "fc_env \<Rightarrow> fc_tool \<Rightarrow> string \<Rightarrow> dict \<Rightarrow> fc_call \<Rightarrow> bool" where
  "call_ok env tool fn args tc \<longleftrightarrow>
     (\<exists>i arguments. tc = \<lparr>fc_id = Some i, fc_type = Some ''function'', fc_function = Some (fn, arguments)\<rparr> \<and>
        fe_loads env arguments = Some (JObj args)) \<and>
     function_name_ok fn \<and> find_tool (fe_tools env) fn = Some tool \<and>
     distinct (map fst args) \<and> list_all (arg_ok env tool) args \<and>
     set (ft_required tool) \<subseteq> insert ''security_risk'' (fst ` set args)"

definition read_call :: "fc_env \<Rightarrow> nat \<Rightarrow> string \<Rightarrow> dict \<Rightarrow> fc_call" where
  "read_call env n fn args = \<lparr>fc_id = Some (call_id n), fc_type = Some ''function'',
     fc_function = Some (fn, fe_dumps env (JObj (map (\<lambda>(k, v). (k, stripped v)) args)))\<rparr>"

lemma strip_two_newlines: "py_strip s = s \<Longrightarrow> s \<noteq> [] \<Longrightarrow> py_strip (s @ [newline, newline]) = s"
proof -
  assume s: "py_strip s = s" "s \<noteq> []"
  note edges = strip_edges [OF s]
  have nl: "py_space newline" by (simp add: newline_def py_space_def)
  have "dropWhile py_space (s @ [newline, newline]) = s @ [newline, newline]"
    using edges(1) s(2) by (cases s) auto
  moreover have "dropWhile py_space (rev s) = rev s" using edges(2) s(2) by (simp add: dropWhile_eq_self_iff hd_rev)
  ultimately show ?thesis using nl by (simp add: py_strip_def py_lstrip_def py_rstrip_def)
qed

lemma lstrip_written:
  assumes "py_strip s = s"
  shows "py_lstrip (s @ newline # newline # written [] fn ps) = written (if s = [] then [] else s @ [newline, newline]) fn ps"
proof (cases s)
  case Nil
  have "\<not> py_space CHR ''<''" "py_space newline" by (simp_all add: py_space_def newline_def)
  then show ?thesis using Nil by (simp add: py_lstrip_def written_def FN_OPEN_def)
next
  case (Cons c cs)
  then have "\<not> py_space c" using strip_edges(1) [OF assms] by simp
  then show ?thesis using Cons by (simp add: py_lstrip_def written_def)
qed

lemma assistant_comes_back:
  assumes "call_ok env tool fn args tc" and "plain s" and "py_strip s = s"
  shows "\<exists>t. convert_assistant_to_non_fncall env (single_call (Str_Content s) tc) (Str_Content s) = Inr (fc_text ''assistant'' (Str_Content t)) \<and>
    t \<noteq> [] \<and> convert_assistant_to_fncall env (fc_text ''assistant'' (Str_Content t)) (Str_Content t) n =
      Inr (single_call (Str_Content s) (read_call env n fn args), n + 1)"
proof -
  obtain i arguments where tc: "tc = \<lparr>fc_id = Some i, fc_type = Some ''function'', fc_function = Some (fn, arguments)\<rparr>"
    and loads: "fe_loads env arguments = Some (JObj args)" and fn: "function_name_ok fn"
    and tool: "find_tool (fe_tools env) fn = Some tool" and dis: "distinct (map fst args)"
    and ok: "list_all (arg_ok env tool) args" and req: "set (ft_required tool) \<subseteq> insert ''security_risk'' (fst ` set args)"
    using assms(1) by (auto simp: call_ok_def)
  define ps where "ps = map (\<lambda>(k, v). (k, raw_text (fe_dumps env) v)) args"
  define a where "a = (if s = [] then [] else s @ [newline, newline])"
  define t where "t = written a fn ps"
  have ps: "texts_ok ps" using ok by (auto simp: texts_ok_def ps_def list_all_iff arg_ok_def Let_def)
  have a: "plain a" "py_strip a = s"
    using assms(2,3) strip_two_newlines by (auto simp: a_def)
  have call: "convert_tool_call_to_string env tc = Inr (written [] fn ps)"
    using written_call [of tc fn arguments i env args] loads tc by (simp add: written_def ps_def)
  then have there: "convert_assistant_to_non_fncall env (single_call (Str_Content s) tc) (Str_Content s) = Inr (fc_text ''assistant'' (Str_Content t))"
    using lstrip_written [OF assms(3)] by (simp add: convert_assistant_to_non_fncall_def single_call_def t_def a_def)
  have "fst ` set ps = fst ` set args" by (force simp: ps_def)
  then have "extract_and_validate_params env tool ps = Inr (map (\<lambda>(k, v). (k, stripped v)) args)"
    using extract_params_ok [OF ok, of "[]"] dis req
    by (auto simp: extract_and_validate_params_def ps_def Let_def)
  then have again: "convert_assistant_to_fncall env (fc_text ''assistant'' (Str_Content t)) (Str_Content t) n =
      Inr (single_call (Str_Content s) (read_call env n fn args), n + 1)"
    using search_written [OF a(1) fn ps] fix_stopword_written [OF a(1) fn ps] before_first_written [OF a(1)] a(2)
      find_params_text [OF ps] normalize_text [OF ps] tool
    by (simp add: convert_assistant_to_fncall_def find_function_match_def t_def resolve_tool_name_def Let_def
        strip_function_call_def single_call_def read_call_def)
  have "t \<noteq> []" by (simp add: t_def written_def FN_OPEN_def)
  with there again show ?thesis by blast
qed

section \<open>Numbers of calls\<close>

definition calls_of :: "fc_message list \<Rightarrow> fc_call list" where
  "calls_of ms = concat (map (\<lambda>m. case fm_tool_calls m of Some tcs \<Rightarrow> tcs | None \<Rightarrow> []) ms)"

lemma calls_of_simps [simp]: "calls_of [] = []"
  "calls_of (m # ms) = (case fm_tool_calls m of Some tcs \<Rightarrow> tcs | None \<Rightarrow> []) @ calls_of ms"
  "calls_of (ms @ ns) = calls_of ms @ calls_of ns"
  by (simp_all add: calls_of_def)

lemma assistant_calls:
  assumes "convert_assistant_to_fncall env m c n = Inr (r, n')" and "fm_tool_calls m = None"
  shows "map fc_id (calls_of [r]) = map (Some \<circ> call_id) [n..<n'] \<and> n \<le> n'"
  using assms
  by (auto simp: convert_assistant_to_fncall_def fc_text_def res_simps split: option.splits prod.splits fc_content.splits)

lemma user_no_calls: "fm_tool_calls (convert_user_to_fncall env c n b) = None"
  by (auto simp: convert_user_to_fncall_def fc_text_def Let_def split: option.splits prod.splits)

lemma to_fncall_numbers:
  assumes "to_fncall env n seen ms = Inr rs" and "\<forall>m \<in> set ms. fm_tool_calls m = None"
  shows "map fc_id (calls_of rs) = map (Some \<circ> call_id) [n..<n + length (calls_of rs)]"
  using assms
proof (induction ms arbitrary: n seen rs)
  case (Cons m ms)
  consider "fm_role m = ''system''" | "fm_role m = ''user''" | "fm_role m = ''assistant''"
    using Cons.prems(1) by (auto simp: Let_def split: if_splits)
  then show ?case
  proof cases
    case 1
    then show ?thesis using Cons by (auto simp: res_simps Let_def fc_text_def)
  next
    case 2
    then show ?thesis using Cons user_no_calls by (auto simp: res_simps Let_def)
  next
    case 3
    then obtain r n' rs' where r: "convert_assistant_to_fncall env m (content_of m) n = Inr (r, n')"
      "to_fncall env n' seen ms = Inr rs'" "rs = r # rs'"
      using Cons.prems(1) by (auto simp: res_simps Let_def)
    have ids: "map fc_id (calls_of [r]) = map (Some \<circ> call_id) [n..<n']" "n \<le> n'"
      using assistant_calls [OF r(1)] Cons.prems(2) by simp_all
    have rest: "map fc_id (calls_of rs') = map (Some \<circ> call_id) [n'..<n' + length (calls_of rs')]"
      using Cons.IH [OF r(2)] Cons.prems(2) by simp
    have "length (calls_of [r]) = n' - n" using ids(1) by (metis length_map length_upt)
    then have len: "n + length (calls_of rs) = n' + length (calls_of rs')"
      using ids(2) by (simp add: r(3))
    have "map fc_id (calls_of rs) = map fc_id (calls_of [r]) @ map fc_id (calls_of rs')" by (simp add: r(3))
    also have "\<dots> = map (Some \<circ> call_id) ([n..<n'] @ [n'..<n' + length (calls_of rs')])"
      unfolding ids(1) rest map_append ..
    also have "[n..<n'] @ [n'..<n' + length (calls_of rs')] = [n..<n + length (calls_of rs)]"
      using upt_add_eq_append [OF ids(2), of "length (calls_of rs')"] len by simp
    finally show ?thesis .
  qed
qed simp

lemma to_fncall_append:
  assumes "to_fncall env n seen (ms @ ns) = Inr rs"
  shows "\<exists>rs1 rs2 n' seen'. to_fncall env n seen ms = Inr rs1 \<and> to_fncall env n' seen' ns = Inr rs2 \<and> rs = rs1 @ rs2"
  using assms
proof (induction ms arbitrary: n seen rs)
  case (Cons m ms)
  then show ?case by (fastforce simp: res_simps Let_def split: if_splits)
qed auto

lemma to_fncall_length: "to_fncall env n seen ms = Inr rs \<Longrightarrow> length rs = length ms"
  by (induction ms arbitrary: n seen rs) (auto simp: res_simps Let_def split: if_splits)

section \<open>Lemmas on splitting\<close>

definition id_of :: "fc_call \<Rightarrow> string" where
  "id_of tc = the (fc_id tc)"

text \<open>Each message with a call of \<open>ids\<close> has that call alone and stands before its result.\<close>

fun followed :: "string set \<Rightarrow> fc_message list \<Rightarrow> bool" where
  "followed ids [] = True"
| "followed ids [m] = (\<forall>tc \<in> set (calls_of [m]). id_of tc \<notin> ids)"
| "followed ids (m # m' # ms) =
     (((\<forall>tc \<in> set (calls_of [m]). id_of tc \<notin> ids) \<or>
       (\<exists>tc i. fm_tool_calls m = Some [tc] \<and> fc_id tc = Some i \<and> fm_role m' = ''tool'' \<and> fm_tool_call_id m' = Some i)) \<and>
      followed ids (m' # ms))"

lemma followed_Cons:
  assumes "\<forall>tc \<in> set (calls_of [m]). id_of tc \<notin> ids" and "followed ids ms"
  shows "followed ids (m # ms)"
  using assms by (cases ms) auto

fun entries :: "fc_content \<Rightarrow> fc_call list \<Rightarrow> (string \<times> fc_message) list" where
  "entries content [] = []"
| "entries content (tc # tcs) = (id_of tc, single_call content tc) # entries (Str_Content []) tcs"

lemma entries_calls: "calls_of (map snd (entries c tcs)) = tcs" "map fst (entries c tcs) = map (id_of) tcs"
  by (induction tcs arbitrary: c) (auto simp: single_call_def)

lemma add_pending_step [simp]: "add_pending content (tc # tcs) pending =
    add_pending (Str_Content []) tcs (AList.update (id_of tc) (single_call content tc) pending)"
  by (simp add: id_of_def)

declare add_pending.simps(2) [simp del]

lemma add_pending_entries:
  "distinct (map fst pending @ map (id_of) tcs) \<Longrightarrow> add_pending c tcs pending = pending @ entries c tcs"
proof (induction tcs arbitrary: c pending)
  case (Cons tc tcs)
  have "AList.update (id_of tc) (single_call c tc) pending = pending @ [(id_of tc, single_call c tc)]"
    using Cons.prems by (intro update_new) auto
  with Cons show ?case by auto
qed simp

definition pending_ok :: "string set \<Rightarrow> (string \<times> fc_message) list \<Rightarrow> bool" where
  "pending_ok ids pending \<longleftrightarrow>
     (\<forall>(i, m) \<in> set pending. i \<in> ids \<and> (\<exists>c tc. m = single_call c tc \<and> fc_id tc = Some i))"

lemma entries_ok:
  "\<forall>tc \<in> set tcs. fc_id tc \<noteq> None \<and> id_of tc \<in> ids \<Longrightarrow> pending_ok ids (entries c tcs)"
proof (induction tcs arbitrary: c)
  case (Cons tc tcs)
  then have "fc_id tc = Some (id_of tc)" by (auto simp: id_of_def)
  with Cons show ?case by (auto simp: pending_ok_def)
qed (simp add: pending_ok_def)

text \<open>Several calls come in one message of the assistant; their ids are \<open>ids\<close>, all ids differ.\<close>

definition splittable :: "string set \<Rightarrow> fc_message list \<Rightarrow> bool" where
  "splittable ids ms \<longleftrightarrow>
     (\<forall>m \<in> set ms. (fm_role m \<noteq> ''assistant'' \<longrightarrow> fm_tool_calls m = None) \<and>
        (if length (calls_of [m]) > 1 then (\<forall>tc \<in> set (calls_of [m]). id_of tc \<in> ids)
         else (\<forall>tc \<in> set (calls_of [m]). id_of tc \<notin> ids)))"

lemma mset_delete: "map_of xs k = Some v \<Longrightarrow> distinct (map fst xs) \<Longrightarrow> mset xs = add_mset (k, v) (mset (AList.delete k xs))"
proof (induction xs)
  case (Cons x xs)
  show ?case
  proof (cases "fst x = k")
    case True
    then have "k \<notin> fst ` set xs" using Cons.prems(2) by auto
    then show ?thesis using True Cons.prems(1) by (cases x) auto
  next
    case False
    then show ?thesis using Cons by (cases x) auto
  qed
qed simp

lemma calls_of_mset:
  assumes "mset xs = mset ys"
  shows "mset (calls_of xs) = mset (calls_of ys)"
proof -
  have "mset (calls_of zs) = sum_mset (image_mset (\<lambda>m. mset (calls_of [m])) (mset zs))" for zs
    by (induction zs) auto
  with assms show ?thesis by simp
qed

lemma delete_subset: "set (AList.delete k xs) \<subseteq> set xs"
  by (induction xs) auto

lemma split_walk_ok:
  assumes "split_walk pending ms = Inr (rs, p)" and "pending_ok ids pending" and "splittable ids ms"
    and "distinct (map fst pending @ map (id_of) (calls_of ms))"
  shows "followed ids rs \<and> filter (\<lambda>m. fm_role m \<noteq> ''assistant'') rs = filter (\<lambda>m. fm_role m \<noteq> ''assistant'') ms \<and>
    (\<forall>m \<in> set rs. length (calls_of [m]) \<le> 1) \<and>
    mset (calls_of rs) + mset (calls_of (map snd p)) = mset (calls_of ms) + mset (calls_of (map snd pending))"
  using assms
proof (induction ms arbitrary: pending rs)
  case Nil
  then show ?case by simp
next
  case (Cons m ms)
  note split = Cons.prems(3) [unfolded splittable_def]
  have ms: "splittable ids ms" using Cons.prems(3) by (simp add: splittable_def)
  consider (multi) tc1 tc2 tcs where "fm_role m = ''assistant''" "fm_tool_calls m = Some (tc1 # tc2 # tcs)"
    | (result) i call rs' where "fm_role m = ''tool''" "fm_tool_call_id m = Some i" "map_of pending i = Some call"
        "split_walk (AList.delete i pending) ms = Inr (rs', p)" "rs = call # m # rs'"
    | (kept) rs' where "length (calls_of [m]) \<le> 1" "split_walk pending ms = Inr (rs', p)" "rs = m # rs'"
  proof (cases "fm_role m = ''assistant''")
    case True
    show ?thesis
    proof (cases "fm_tool_calls m")
      case None
      then show ?thesis using Cons.prems(1) True kept by (auto simp: res_simps)
    next
      case (Some tcs)
      show ?thesis
      proof (cases tcs)
        case Nil
        then show ?thesis using Cons.prems(1) True Some kept by (auto simp: res_simps)
      next
        case (Cons tc1 tcs1)
        then show ?thesis using \<open>split_walk pending (m # ms) = Inr (rs, p)\<close> True Some kept multi
          by (cases tcs1) (auto simp: res_simps)
      qed
    qed
  next
    case False
    then have "calls_of [m] = []" using split by simp
    then show ?thesis
      using Cons.prems(1) False kept result by (auto simp: res_simps split: if_splits option.splits)
  qed
  then show ?case
  proof cases
    case multi
    let ?tcs = "tc1 # tc2 # tcs"
    have some: "\<forall>tc \<in> set ?tcs. fc_id tc \<noteq> None" and
      walk: "split_walk (add_pending (content_of m) ?tcs pending) ms = Inr (rs, p)"
      using Cons.prems(1) multi by (auto simp: list_ex_iff split: if_splits)
    have "\<forall>tc \<in> set ?tcs. id_of tc \<in> ids" using split multi by simp
    then have ok: "pending_ok ids (pending @ entries (content_of m) ?tcs)"
      using Cons.prems(2) entries_ok [of ?tcs ids "content_of m"] some by (auto simp: pending_ok_def)
    have add: "add_pending (content_of m) ?tcs pending = pending @ entries (content_of m) ?tcs"
      using Cons.prems(4) multi by (intro add_pending_entries) auto
    have dis: "distinct (map fst (pending @ entries (content_of m) ?tcs) @ map (id_of) (calls_of ms))"
      using Cons.prems(4) multi unfolding map_append entries_calls(2) by auto
    from Cons.IH [OF walk [unfolded add] ok ms dis] multi show ?thesis
      by (simp add: entries_calls(1) del: entries.simps)
  next
    case result
    obtain c tc where call: "call = single_call c tc" "fc_id tc = Some i"
      using Cons.prems(2) map_of_SomeD [OF result(3)] by (auto simp: pending_ok_def)
    have nocalls: "calls_of [m] = []" using split result(1) by simp
    have ok: "pending_ok ids (AList.delete i pending)"
      using Cons.prems(2) delete_subset [of i pending] by (auto simp: pending_ok_def)
    have dis: "distinct (map fst (AList.delete i pending) @ map (id_of) (calls_of ms))"
      using Cons.prems(4) nocalls by (auto simp: delete_keys distinct_removeAll)
    note IH = Cons.IH [OF result(4) ok ms dis]
    have "mset (map snd pending) = add_mset call (mset (map snd (AList.delete i pending)))"
      using mset_delete [OF result(3)] Cons.prems(4) by simp
    then have "mset (calls_of (map snd pending)) = mset (calls_of (call # map snd (AList.delete i pending)))"
      by (intro calls_of_mset) simp
    then have m: "mset (calls_of (map snd pending)) = add_mset tc (mset (calls_of (map snd (AList.delete i pending))))"
      by (simp add: call single_call_def)
    have "followed ids (m # rs')" using IH nocalls by (intro followed_Cons) auto
    then have "followed ids rs" using result call by (auto simp: single_call_def)
    then show ?thesis using IH m result call nocalls by (simp add: single_call_def fc_text_def)
  next
    case kept
    note IH = Cons.IH [OF kept(2) Cons.prems(2) ms]
    have "distinct (map fst pending @ map (id_of) (calls_of ms))" using Cons.prems(4) by auto
    note IH = IH [OF this]
    have "\<forall>tc \<in> set (calls_of [m]). id_of tc \<notin> ids" using split kept(1) by (simp add: not_less [symmetric])
    then have "followed ids rs" using IH kept(3) followed_Cons by blast
    then show ?thesis using IH kept by simp
  qed
qed

section \<open>What does not come back\<close>

text \<open>A value that contains the closing tag is cut there.\<close>

lemma closing_tag_cuts_value:
  assumes "name_ok k" and "plain a"
  shows "\<exists>ps. find_params (PARAM_OPEN @ k @ CHR ''>'' # (a @ PARAM_CLOSE @ b) @ PARAM_CLOSE @ s) = (k, a) # ps"
  using find_params_step [OF assms, of "b @ PARAM_CLOSE @ s"] by simp

text \<open>Only integers and arrays are read by their type; a boolean comes back as a string.\<close>

lemma boolean_comes_back_as_text:
  "convert_param env \<lparr>fp_type = Some ''boolean'', fp_enum = None\<rparr> k (py_strip (raw_text dumps (JBool b))) =
     Inr (JStr (if b then ''True'' else ''False''))"
  by (simp add: convert_param_def py_strip_def py_lstrip_def py_rstrip_def py_space_def)

text \<open>A text of the user that quotes a result becomes a tool message.\<close>

lemma quoted_result_becomes_tool_message:
  "fm_role (convert_user_to_fncall env (Str_Content (RESULT_OPEN @ RESULT_MIDDLE @ s)) n False) = ''tool''"
  using split_first_here [of RESULT_OPEN "RESULT_MIDDLE @ s"] split_first_here [of RESULT_MIDDLE s]
  by (simp add: convert_user_to_fncall_def find_tool_result_match_def search_result_def fc_text_def)

section \<open>Properties\<close>

definition demo_tool :: fc_tool where
  "demo_tool = \<lparr>ft_type = ''function'', ft_name = ''terminal'',
     ft_properties = [(''command'', \<lparr>fp_type = Some ''string'', fp_enum = None\<rparr>),
       (''timeout'', \<lparr>fp_type = Some ''integer'', fp_enum = None\<rparr>)],
     ft_required = [''command'', ''security_risk'']\<rparr>"

definition demo_args :: dict where
  "demo_args = [(''command'', JStr ''  ls''), (''timeout'', JInt 5)]"

definition demo_fc_env :: fc_env where
  "demo_fc_env = \<lparr>fe_loads = (\<lambda>s. if s = ''A'' then Some (JObj demo_args) else None), fe_dumps = (\<lambda>_. ''B''),
     fe_suffix = ''functions'', fe_example = [], fe_example_suffix = [], fe_tools = [demo_tool]\<rparr>"

definition demo_call :: "string \<Rightarrow> fc_call" where
  "demo_call i = \<lparr>fc_id = Some i, fc_type = Some ''function'', fc_function = Some (''terminal'', ''A'')\<rparr>"



text \<open>The id of a tool call read from an answer is its number in the prompt: one more than the calls that the history still
  contains. A condensation that drops calls from the history makes the next answers reuse the ids of earlier calls.\<close>

theorem call_id_is_number_in_prompt:
  assumes "read_response env history answer = Inr m" and "to_fncall env 1 False history = Inr rs"
    and "\<forall>x \<in> set (history @ [answer]). fm_tool_calls x = None" and "fm_tool_calls m = Some [tc]"
  shows "fc_id tc = Some (call_id (length (calls_of rs) + 1))"
proof -
  obtain rs' where all: "to_fncall env 1 False (history @ [answer]) = Inr rs'" and m: "m = last rs'"
    using assms(1) by (auto simp: read_response_def res_simps)
  obtain rs2 n' seen' where rs': "rs' = rs @ rs2" "to_fncall env n' seen' [answer] = Inr rs2"
    using to_fncall_append [OF all] assms(2) by auto
  have "length rs2 = 1" using to_fncall_length [OF rs'(2)] by simp
  then obtain r where "rs2 = [r]" by (cases rs2) auto
  with rs' m have rs'_eq: "rs' = rs @ [m]" by simp
  let ?l = "length (calls_of rs)"
  have calls: "calls_of rs' = calls_of rs @ [tc]" using assms(4) by (simp add: rs'_eq)
  have "map fc_id (calls_of rs') = map (Some \<circ> call_id) [1..<1 + length (calls_of rs')]"
    by (rule to_fncall_numbers [OF all assms(3)])
  then have "map fc_id (calls_of rs') ! ?l = map (Some \<circ> call_id) [1..<1 + (?l + 1)] ! ?l" by (simp only: calls) simp
  also have "\<dots> = Some (call_id (1 + ?l))" by (simp del: upt_Suc)
  finally show ?thesis by (simp add: calls nth_append)
qed

lemma call_id_is_number_in_prompt_witness:
  "\<exists>m tc. read_response demo_fc_env [fc_text ''user'' (Str_Content ''go'')]
       (fc_text ''assistant'' (Str_Content (written [] ''terminal'' [(''command'', ''ls'')]))) = Inr m \<and>
     fm_tool_calls m = Some [tc] \<and> fc_id tc = Some (call_id 1)"
proof -
  let ?answer = "fc_text ''assistant'' (Str_Content (written [] ''terminal'' [(''command'', ''ls'')]))"
  let ?user = "fc_text ''user'' (Str_Content ''go'')"
  have ps: "texts_ok [(''command'', ''ls'')]" and fn: "function_name_ok ''terminal''"
    by (simp_all add: texts_ok_def name_ok_def function_name_ok_def)
  have params: "extract_and_validate_params demo_fc_env demo_tool [(''command'', ''ls'')] = Inr [(''command'', JStr ''ls'')]"
    by (simp add: extract_and_validate_params_def demo_tool_def convert_param_def py_strip_def py_lstrip_def py_rstrip_def py_space_def)
  have user: "to_fncall demo_fc_env 1 False [?user] = Inr [?user]"
    by (simp add: content_of_def fc_text_def convert_user_to_fncall_def strip_in_context_example_def demo_fc_env_def
        remove_prefix_def remove_suffix_def ends_with_def find_tool_result_match_def search_result_def RESULT_OPEN_def)
  have "written [] ''terminal'' [(''command'', ''ls'')] \<noteq> []" by (simp add: written_def FN_OPEN_def)
  then have c: "content_of ?answer = Str_Content (written [] ''terminal'' [(''command'', ''ls'')])"
    by (simp add: content_of_def fc_text_def)
  obtain m where m: "convert_assistant_to_fncall demo_fc_env ?answer (content_of ?answer) 1 = Inr (m, 2)"
    and call: "fm_tool_calls m = Some [\<lparr>fc_id = Some (call_id 1), fc_type = Some ''function'', fc_function = Some (''terminal'', ''B'')\<rparr>]"
    unfolding c using search_written [OF _ fn ps, of "[]"] fix_stopword_written [OF _ fn ps, of "[]"]
      find_params_text [OF ps] normalize_text [OF ps] params
    by (simp add: convert_assistant_to_fncall_def find_function_match_def resolve_tool_name_def find_tool_def demo_fc_env_def
        demo_tool_def fc_text_def)
  have run: "read_response demo_fc_env [?user] ?answer = Inr m"
    using user m by (simp add: read_response_def fc_text_def)
  note id = call_id_is_number_in_prompt [OF run user _ call]
  have "calls_of [?user] = []" "\<forall>x \<in> set ([?user] @ [?answer]). fm_tool_calls x = None" by (simp_all add: fc_text_def)
  with id have "fc_id \<lparr>fc_id = Some (call_id 1), fc_type = Some ''function'', fc_function = Some (''terminal'', ''B'')\<rparr> = Some (call_id 1)"
    by simp
  with run call show ?thesis by blast
qed

text \<open>Splitting messages with several calls, when it succeeds, gives messages with at most one call each: no call is lost or
  doubled, every split call stands right before its result, and the other messages keep their order. The ids of all calls
  differ, and only messages of the assistant carry calls.\<close>

theorem split_pairs_calls_with_results:
  assumes "split_tool_calls False ms = Inr rs" and "splittable ids ms" and "distinct (map id_of (calls_of ms))"
  shows "followed ids rs \<and> (\<forall>m \<in> set rs. length (calls_of [m]) \<le> 1) \<and> mset (calls_of rs) = mset (calls_of ms) \<and>
    filter (\<lambda>m. fm_role m \<noteq> ''assistant'') rs = filter (\<lambda>m. fm_role m \<noteq> ''assistant'') ms"
proof -
  have "split_walk [] ms = Inr (rs, [])" using assms(1) by (auto simp: split_tool_calls_def res_simps split: if_splits)
  from split_walk_ok [OF this _ assms(2)] assms(3) show ?thesis by (simp add: pending_ok_def)
qed

lemma split_pairs_calls_with_results_witness:
  "\<exists>rs. split_tool_calls False
      [(fc_text ''assistant'' (Str_Content ''both''))\<lparr>fm_tool_calls := Some [demo_call ''a'', demo_call ''b'']\<rparr>,
       (fc_text ''tool'' (Str_Content ''2''))\<lparr>fm_tool_call_id := Some ''b''\<rparr>,
       (fc_text ''tool'' (Str_Content ''1''))\<lparr>fm_tool_call_id := Some ''a''\<rparr>] = Inr rs \<and>
    followed {''a'', ''b''} rs \<and> length rs = 4"
proof -
  let ?ms = "[(fc_text ''assistant'' (Str_Content ''both''))\<lparr>fm_tool_calls := Some [demo_call ''a'', demo_call ''b'']\<rparr>,
       (fc_text ''tool'' (Str_Content ''2''))\<lparr>fm_tool_call_id := Some ''b''\<rparr>,
       (fc_text ''tool'' (Str_Content ''1''))\<lparr>fm_tool_call_id := Some ''a''\<rparr>]"
  obtain rs where rs: "split_tool_calls False ?ms = Inr rs" "length rs = 4"
    by (simp add: split_tool_calls_def fc_text_def demo_call_def content_of_def id_of_def)
  have "splittable {''a'', ''b''} ?ms" by (simp add: splittable_def fc_text_def demo_call_def id_of_def)
  moreover have "distinct (map id_of (calls_of ?ms))" by (simp add: fc_text_def demo_call_def id_of_def)
  ultimately show ?thesis using split_pairs_calls_with_results [OF rs(1)] rs by blast
qed

end
