(* ===== verification/Apply_Patch.thy ===== *)
theory Apply_Patch
  imports Prelude
begin

text \<open>
  The patch tool (\<open>tools/apply_patch/core.py\<close> and the executor in \<open>definition.py\<close>): parsing the patch
  text, locating each section in the file with three levels of tolerance, computing the new
  contents and writing them. The three file operations are arguments, as in the code; the executor
  supplies them for a workspace. The lemmas show that a patch that quotes a unique piece of a file
  replaces it exactly, and which files a patch can change.
\<close>

section \<open>Changes and patches\<close>

datatype patch_error =
    DiffError string
  | PatchAssertion string
  | PatchIndexError
  | PatchKeyError string
  | PatchFileNotFound string

datatype action_type = ADD | DELETE | UPDATE

record file_change =
  fc_type :: action_type
  fc_old_content :: "string option"
  fc_new_content :: "string option"
  fc_move_path :: "string option"

type_synonym commit = "(string \<times> file_change) list"

record chunk =
  ch_orig_index :: int
  ch_del_lines :: "string list"
  ch_ins_lines :: "string list"

record patch_action =
  pa_type :: action_type
  pa_new_file :: "string option"
  pa_chunks :: "chunk list"
  pa_move_path :: "string option"

record parser =
  ps_index :: nat
  ps_actions :: "(string \<times> patch_action) list"
  ps_fuzz :: int

section \<open>Reading lines\<close>

definition END_PATCH :: string where
  "END_PATCH = ''*** End Patch''"

definition UPDATE_FILE :: string where
  "UPDATE_FILE = ''*** Update File: ''"

definition DELETE_FILE :: string where
  "DELETE_FILE = ''*** Delete File: ''"

definition ADD_FILE :: string where
  "ADD_FILE = ''*** Add File: ''"

definition MOVE_TO :: string where
  "MOVE_TO = ''*** Move to: ''"

definition END_OF_FILE :: string where
  "END_OF_FILE = ''*** End of File''"

definition BEGIN_PATCH :: string where
  "BEGIN_PATCH = ''*** Begin Patch''"

lemmas marker_defs = END_PATCH_def UPDATE_FILE_def DELETE_FILE_def ADD_FILE_def MOVE_TO_def END_OF_FILE_def BEGIN_PATCH_def

definition file_stops :: "string list" where
  "file_stops = [END_PATCH, ''*** Update File:'', ''*** Delete File:'', ''*** Add File:'']"

definition is_done :: "string list \<Rightarrow> string list \<Rightarrow> nat \<Rightarrow> bool" where
  "is_done stops lines i \<longleftrightarrow> i \<ge> length lines \<or> starts_with_any stops (lines ! i)"

definition line_at :: "string list \<Rightarrow> nat \<Rightarrow> string option" where
  "line_at lines i = (if i < length lines then Some (lines ! i) else None)"

definition read_str :: "string list \<Rightarrow> string \<Rightarrow> nat \<Rightarrow> (patch_error, string \<times> nat) result" where
  "read_str lines p i =
     (case line_at lines i of
        None \<Rightarrow> Inl (PatchAssertion ''Index'')
      | Some l \<Rightarrow> Inr (if starts_with p l then (drop (length p) l, i + 1) else ('''', i)))"

section \<open>A section of an update\<close>

datatype line_mode = Keep | Add | Delete

record section_state =
  sc_old :: "string list"
  sc_del :: "string list"
  sc_ins :: "string list"
  sc_chunks :: "chunk list"
  sc_mode :: line_mode

definition flush_chunk :: "section_state \<Rightarrow> chunk list" where
  "flush_chunk sc =
     (if sc_ins sc \<noteq> [] \<or> sc_del sc \<noteq> []
      then sc_chunks sc @ [\<lparr>ch_orig_index = int (length (sc_old sc)) - int (length (sc_del sc)),
             ch_del_lines = sc_del sc, ch_ins_lines = sc_ins sc\<rparr>]
      else sc_chunks sc)"

definition section_line :: "line_mode \<Rightarrow> string \<Rightarrow> section_state \<Rightarrow> section_state" where
  "section_line m s sc =
     (let sc1 = (if m = Keep \<and> sc_mode sc \<noteq> m
                 then sc\<lparr>sc_chunks := flush_chunk sc, sc_del := [], sc_ins := []\<rparr> else sc);
          sc2 = sc1\<lparr>sc_mode := m\<rparr>
      in case m of
           Delete \<Rightarrow> sc2\<lparr>sc_del := sc_del sc2 @ [s], sc_old := sc_old sc2 @ [s]\<rparr>
         | Add \<Rightarrow> sc2\<lparr>sc_ins := sc_ins sc2 @ [s]\<rparr>
         | Keep \<Rightarrow> sc2\<lparr>sc_old := sc_old sc2 @ [s]\<rparr>)"

text \<open>An empty line counts as an empty line that is kept.\<close>

definition read_mode :: "string \<Rightarrow> (line_mode \<times> string) option" where
  "read_mode s =
     (case s of
        [] \<Rightarrow> Some (Keep, [])
      | c # t \<Rightarrow>
          if c = CHR ''+'' then Some (Add, t)
          else if c = CHR ''-'' then Some (Delete, t)
          else if c = CHR '' '' then Some (Keep, t)
          else None)"

definition section_stops :: "string list" where
  "section_stops = ''@@'' # file_stops @ [END_OF_FILE]"

fun peek_loop :: "string list \<Rightarrow> section_state \<Rightarrow> (patch_error, section_state \<times> string list) result" where
  "peek_loop [] sc = Inr (sc, [])"
| "peek_loop (s # ss) sc =
     (if starts_with_any section_stops s \<or> s = ''***'' then Inr (sc, s # ss)
      else if starts_with ''***'' s then Inl (DiffError (''Invalid Line: '' @ s))
      else case read_mode s of
             None \<Rightarrow> Inl (DiffError (''Invalid Line: '' @ s))
           | Some (m, t) \<Rightarrow> peek_loop ss (section_line m t sc))"

definition empty_section :: section_state where
  "empty_section = \<lparr>sc_old = [], sc_del = [], sc_ins = [], sc_chunks = [], sc_mode = Keep\<rparr>"

definition peek_next_section ::
    "string list \<Rightarrow> nat \<Rightarrow> (patch_error, string list \<times> chunk list \<times> nat \<times> bool) result" where
  "peek_next_section lines index =
     (case peek_loop (drop index lines) empty_section of
        Inl e \<Rightarrow> Inl e
      | Inr (sc, rest) \<Rightarrow>
          (let stop = index + (length (drop index lines) - length rest)
           in if rest \<noteq> [] \<and> hd rest = END_OF_FILE then Inr (sc_old sc, flush_chunk sc, stop + 1, True)
              else if stop = index then
                (case rest of
                   [] \<Rightarrow> Inl PatchIndexError
                 | s # _ \<Rightarrow> Inl (DiffError (''Nothing in this section - index='' @ show_nat stop @ '' '' @ s)))
              else Inr (sc_old sc, flush_chunk sc, stop, False)))"

section \<open>Locating a section\<close>

definition window :: "string list \<Rightarrow> string list \<Rightarrow> int \<Rightarrow> string list" where
  "window lines context i = py_slice lines i (i + int (length context))"

definition find_context_core :: "string list \<Rightarrow> string list \<Rightarrow> int \<Rightarrow> int \<times> int" where
  "find_context_core lines context start =
     (if context = [] then (start, 0)
      else
        let candidates = [start..int (length lines) - 1];
            win = window lines context
        in case find (\<lambda>i. win i = context) candidates of
             Some i \<Rightarrow> (i, 0)
           | None \<Rightarrow>
               (case find (\<lambda>i. map py_rstrip (win i) = map py_rstrip context) candidates of
                  Some i \<Rightarrow> (i, 1)
                | None \<Rightarrow>
                    (case find (\<lambda>i. map py_strip (win i) = map py_strip context) candidates of
                       Some i \<Rightarrow> (i, 100)
                     | None \<Rightarrow> (-1, 0))))"

definition find_context :: "string list \<Rightarrow> string list \<Rightarrow> int \<Rightarrow> bool \<Rightarrow> int \<times> int" where
  "find_context lines context start eof =
     (if eof then
        (let (new_index, fuzz) = find_context_core lines context (int (length lines) - int (length context))
         in if new_index \<noteq> -1 then (new_index, fuzz)
            else (let (new_index, fuzz) = find_context_core lines context start in (new_index, fuzz + 10000)))
      else find_context_core lines context start)"

text \<open>The line of an \<open>@@\<close> header: the index after it and the fuzz.\<close>

definition seek_definition :: "string list \<Rightarrow> nat \<Rightarrow> string \<Rightarrow> nat \<times> int" where
  "seek_definition lines index def_str =
     (if py_strip def_str = [] then (index, 0)
      else
        let before = take index lines; after = drop index lines
        in case (if def_str \<in> set before then None else find_index (\<lambda>s. s = def_str) after) of
             Some k \<Rightarrow> (index + k + 1, 0)
           | None \<Rightarrow>
               (case (if list_ex (\<lambda>s. py_strip s = py_strip def_str) before then None
                      else find_index (\<lambda>s. py_strip s = py_strip def_str) after) of
                  Some k \<Rightarrow> (index + k + 1, 1)
                | None \<Rightarrow> (index, 0)))"

section \<open>Parsing\<close>

definition shift_chunk :: "int \<Rightarrow> chunk \<Rightarrow> chunk" where
  "shift_chunk k ch = ch\<lparr>ch_orig_index := ch_orig_index ch + k\<rparr>"

text \<open>
  One pass of \<open>parse_update_file\<close>: from the index in the patch and in the file to the next
  indices, the fuzz and the chunks of the section.
\<close>

definition place_section ::
    "string list \<Rightarrow> nat \<times> int \<Rightarrow> string list \<times> chunk list \<times> nat \<times> bool \<Rightarrow> (patch_error, nat \<times> nat \<times> int \<times> chunk list) result" where
  "place_section lines pos section =
     (case (pos, section) of
        ((index, fuzz1), (context, chunks, i', eof)) \<Rightarrow>
          (case find_context lines context (int index) eof of
             (new_index, fuzz2) \<Rightarrow>
               (if new_index = -1 then
                  Inl (DiffError ((if eof then ''Invalid EOF Context '' else ''Invalid Context '') @
                    show_nat index @ '':'' @ [newline] @ join_with newline context))
                else Inr (i', nat new_index + length context, fuzz1 + fuzz2, map (shift_chunk new_index) chunks))))"

definition section_header :: "string list \<Rightarrow> nat \<Rightarrow> nat \<Rightarrow> (patch_error, string \<times> nat) result" where
  "section_header plines i index =
     bind_res (read_str plines ''@@ '' i) (\<lambda>(def_str, i1).
       if def_str \<noteq> [] then Inr (def_str, i1)
       else
         (case line_at plines i1 of
            None \<Rightarrow> Inl PatchIndexError
          | Some l \<Rightarrow>
              if l = ''@@'' then Inr ([], i1 + 1)
              else if index = 0 then Inr ([], i1)
              else Inl (DiffError (''Invalid Line:'' @ [newline] @ l))))"

definition update_section ::
    "string list \<Rightarrow> string list \<Rightarrow> nat \<Rightarrow> nat \<Rightarrow> (patch_error, nat \<times> nat \<times> int \<times> chunk list) result" where
  "update_section plines lines i index =
     bind_res (section_header plines i index) (\<lambda>(def_str, i').
       bind_res (peek_next_section plines i') (place_section lines (seek_definition lines index def_str)))"

lemma read_str_mono: "read_str lines p i = Inr (s, j) \<Longrightarrow> i \<le> j \<and> (s \<noteq> [] \<longrightarrow> i < j)"
  by (auto simp: read_str_def split: option.splits if_splits)

lemma peek_next_section_progress: "peek_next_section lines i = Inr (ctx, chs, j, eof) \<Longrightarrow> i < j"
  by (auto simp: peek_next_section_def Let_def split: sum.splits if_splits list.splits)

lemma section_header_mono: "section_header plines i index = Inr (d, j) \<Longrightarrow> i \<le> j"
  by (auto simp: section_header_def res_simps dest!: read_str_mono split: if_splits option.splits)

lemma place_section_index: "place_section lines pos (ctx, chs, i, eof) = Inr (j, r) \<Longrightarrow> j = i"
  by (auto simp: place_section_def split: prod.splits if_splits)

lemma update_section_progress:
  assumes "update_section plines lines i index = Inr (j, r)"
  shows "i < j"
proof -
  obtain d i' ctx chs i2 eof where h: "section_header plines i index = Inr (d, i')"
    and k: "peek_next_section plines i' = Inr (ctx, chs, i2, eof)"
    and p: "place_section lines (seek_definition lines index d) (ctx, chs, i2, eof) = Inr (j, r)"
    using assms by (auto simp: update_section_def res_simps)
  show ?thesis
    using section_header_mono [OF h] peek_next_section_progress [OF k] place_section_index [OF p] by simp
qed

function update_loop ::
    "string list \<Rightarrow> string list \<Rightarrow> nat \<Rightarrow> nat \<Rightarrow> int \<Rightarrow> chunk list \<Rightarrow> (patch_error, nat \<times> int \<times> chunk list) result" where
  "update_loop plines lines i index fuzz chunks =
     (if is_done (file_stops @ [END_OF_FILE]) plines i then Inr (i, fuzz, chunks)
      else case update_section plines lines i index of
             Inl e \<Rightarrow> Inl e
           | Inr (i', index', f, chs) \<Rightarrow> update_loop plines lines i' index' (fuzz + f) (chunks @ chs))"
  by pat_completeness auto
termination
  by (relation "measure (\<lambda>(plines, lines, i, index, fuzz, chunks). length plines - i)")
    (auto simp: is_done_def dest!: update_section_progress)

declare update_loop.simps [simp del]

definition parse_update_file ::
    "string list \<Rightarrow> string \<Rightarrow> nat \<Rightarrow> (patch_error, nat \<times> int \<times> patch_action) result" where
  "parse_update_file plines text i =
     bind_res (update_loop plines (split_on newline text) i 0 0 []) (\<lambda>(j, fuzz, chunks).
       Inr (j, fuzz, \<lparr>pa_type = UPDATE, pa_new_file = None, pa_chunks = chunks, pa_move_path = None\<rparr>))"

fun add_lines :: "string list \<Rightarrow> (patch_error, string list \<times> string list) result" where
  "add_lines [] = Inr ([], [])"
| "add_lines (s # ss) =
     (if starts_with_any file_stops s then Inr ([], s # ss)
      else if \<not> starts_with ''+'' s then Inl (DiffError (''Invalid Add File Line: '' @ s))
      else bind_res (add_lines ss) (\<lambda>(ls, rest). Inr (drop 1 s # ls, rest)))"

definition parse_add_file :: "string list \<Rightarrow> nat \<Rightarrow> (patch_error, nat \<times> patch_action) result" where
  "parse_add_file plines i =
     bind_res (add_lines (drop i plines)) (\<lambda>(ls, rest).
       Inr (i + (length (drop i plines) - length rest),
            \<lparr>pa_type = ADD, pa_new_file = Some (join_with newline ls), pa_chunks = [], pa_move_path = None\<rparr>))"

lemma update_loop_mono: "update_loop plines lines i index fuzz chunks = Inr (j, s) \<Longrightarrow> i \<le> j"
proof (induction plines lines i index fuzz chunks rule: update_loop.induct)
  case (1 plines lines i index fuzz chunks)
  note unfolded = update_loop.simps [of plines lines i index fuzz chunks]
  show ?case
  proof (cases "is_done (file_stops @ [END_OF_FILE]) plines i")
    case True
    with "1.prems" unfolded show ?thesis by simp
  next
    case False
    with "1.prems" unfolded obtain i' index' f chs where u: "update_section plines lines i index = Inr (i', index', f, chs)"
      and r: "update_loop plines lines i' index' (fuzz + f) (chunks @ chs) = Inr (j, s)"
      by (auto split: sum.splits)
    have "i' \<le> j" using "1.IH" [OF False u HOL.refl HOL.refl HOL.refl] r by blast
    with update_section_progress [OF u] show ?thesis by simp
  qed
qed

lemma parse_update_file_mono: "parse_update_file plines text i = Inr (j, r) \<Longrightarrow> i \<le> j"
  by (auto simp: parse_update_file_def res_simps dest: update_loop_mono)

lemma parse_add_file_mono: "parse_add_file plines i = Inr (j, r) \<Longrightarrow> i \<le> j"
  by (auto simp: parse_add_file_def res_simps)

text \<open>One pass of \<open>parse\<close>.\<close>

definition add_entry :: "string \<Rightarrow> patch_action \<Rightarrow> nat \<Rightarrow> int \<Rightarrow> parser \<Rightarrow> parser" where
  "add_entry path act i fuzz ps =
     \<lparr>ps_index = i, ps_actions = ps_actions ps @ [(path, act)], ps_fuzz = ps_fuzz ps + fuzz\<rparr>"

definition parse_entry ::
    "string list \<Rightarrow> (string \<rightharpoonup> string) \<Rightarrow> parser \<Rightarrow> (patch_error, parser) result" where
  "parse_entry plines files ps =
     bind_res (read_str plines UPDATE_FILE (ps_index ps)) (\<lambda>(path, i1).
       if path \<noteq> [] then
         (if map_of (ps_actions ps) path \<noteq> None then Inl (DiffError (''Update File Error: Duplicate Path: '' @ path))
          else bind_res (read_str plines MOVE_TO i1) (\<lambda>(move_to, i2).
                 case files path of
                   None \<Rightarrow> Inl (DiffError (''Update File Error: Missing File: '' @ path))
                 | Some text \<Rightarrow>
                     bind_res (parse_update_file plines text i2) (\<lambda>(i3, fuzz, act).
                       Inr (add_entry path (act\<lparr>pa_move_path := Some move_to\<rparr>) i3 fuzz ps))))
       else bind_res (read_str plines DELETE_FILE i1) (\<lambda>(path, i2).
         if path \<noteq> [] then
           (if map_of (ps_actions ps) path \<noteq> None then Inl (DiffError (''Delete File Error: Duplicate Path: '' @ path))
            else if files path = None then Inl (DiffError (''Delete File Error: Missing File: '' @ path))
            else Inr (add_entry path \<lparr>pa_type = DELETE, pa_new_file = None, pa_chunks = [], pa_move_path = None\<rparr> i2 0 ps))
         else bind_res (read_str plines ADD_FILE i2) (\<lambda>(path, i3).
           if path \<noteq> [] then
             (if map_of (ps_actions ps) path \<noteq> None then Inl (DiffError (''Add File Error: Duplicate Path: '' @ path))
              else bind_res (parse_add_file plines i3) (\<lambda>(i4, act). Inr (add_entry path act i4 0 ps)))
           else case line_at plines i3 of
                  None \<Rightarrow> Inl PatchIndexError
                | Some l \<Rightarrow> Inl (DiffError (''Unknown Line: '' @ l)))))"

lemma parse_entry_progress:
  assumes "parse_entry plines files ps = Inr ps'"
  shows "ps_index ps < ps_index ps'"
proof -
  obtain path1 i1 where r1: "read_str plines UPDATE_FILE (ps_index ps) = Inr (path1, i1)"
    using assms by (auto simp: parse_entry_def res_simps)
  note m1 = read_str_mono [OF r1]
  show ?thesis
  proof (cases "path1 = []")
    case False
    with assms r1 obtain mv i2 contents i3 fuzz act where r2: "read_str plines MOVE_TO i1 = Inr (mv, i2)"
      and u: "parse_update_file plines contents i2 = Inr (i3, fuzz, act)" and e: "ps_index ps' = i3"
      by (auto simp: parse_entry_def res_simps add_entry_def split: if_splits option.splits)
    show ?thesis using m1 False e read_str_mono [OF r2] parse_update_file_mono [OF u] by simp
  next
    case True
    with assms r1 obtain path2 i2 where r2: "read_str plines DELETE_FILE i1 = Inr (path2, i2)"
      by (auto simp: parse_entry_def res_simps)
    note m2 = read_str_mono [OF r2]
    show ?thesis
    proof (cases "path2 = []")
      case False
      with assms r1 r2 True have "ps_index ps' = i2"
        by (auto simp: parse_entry_def res_simps add_entry_def split: if_splits)
      with m1 m2 False show ?thesis by simp
    next
      case path2: True
      with assms r1 r2 True obtain path3 i3 where r3: "read_str plines ADD_FILE i2 = Inr (path3, i3)"
        by (auto simp: parse_entry_def res_simps)
      with assms r1 r2 True path2 obtain i4 act where "path3 \<noteq> []" "parse_add_file plines i3 = Inr (i4, act)" "ps_index ps' = i4"
        by (auto simp: parse_entry_def res_simps add_entry_def split: if_splits option.splits)
      with read_str_mono [OF r3] parse_add_file_mono [of plines i3 i4 act] m1 m2 show ?thesis by simp
    qed
  qed
qed

function parse_loop ::
    "string list \<Rightarrow> (string \<rightharpoonup> string) \<Rightarrow> parser \<Rightarrow> (patch_error, parser) result" where
  "parse_loop plines files ps =
     (if is_done [END_PATCH] plines (ps_index ps) then Inr ps
      else case parse_entry plines files ps of
             Inl e \<Rightarrow> Inl e
           | Inr ps' \<Rightarrow> parse_loop plines files ps')"
  by pat_completeness auto
termination
  by (relation "measure (\<lambda>(plines, files, ps). length plines - ps_index ps)")
    (auto simp: is_done_def dest!: parse_entry_progress)

declare parse_loop.simps [simp del]

definition parse_patch :: "string list \<Rightarrow> (string \<rightharpoonup> string) \<Rightarrow> parser \<Rightarrow> (patch_error, parser) result" where
  "parse_patch plines files ps =
     bind_res (parse_loop plines files ps) (\<lambda>ps.
       case line_at plines (ps_index ps) of
         None \<Rightarrow> Inl (PatchAssertion ''Index'')
       | Some l \<Rightarrow> if starts_with END_PATCH l then Inr (ps\<lparr>ps_index := ps_index ps + 1\<rparr>)
                   else Inl (DiffError ''Missing End Patch''))"

definition text_to_patch ::
    "string \<Rightarrow> (string \<rightharpoonup> string) \<Rightarrow> (patch_error, (string \<times> patch_action) list \<times> int) result" where
  "text_to_patch text orig =
     (let lines = split_on newline (py_strip text)
      in if length lines < 2 \<or> \<not> starts_with BEGIN_PATCH (hd lines) \<or> last lines \<noteq> END_PATCH
         then Inl (DiffError ''Invalid patch text'')
         else bind_res (parse_patch lines orig \<lparr>ps_index = 1, ps_actions = [], ps_fuzz = 0\<rparr>) (\<lambda>ps.
                Inr (ps_actions ps, ps_fuzz ps)))"

text \<open>\<open>identify_files_needed\<close> gives a set; the model lists it in the order of the patch.\<close>

definition needed_file :: "string \<Rightarrow> string list" where
  "needed_file l =
     (if starts_with UPDATE_FILE l then [drop (length UPDATE_FILE) l]
      else if starts_with DELETE_FILE l then [drop (length DELETE_FILE) l] else [])"

definition identify_files_needed :: "string \<Rightarrow> string list" where
  "identify_files_needed text = remdups (concat (map needed_file (split_on newline (py_strip text))))"

section \<open>The new contents\<close>

fun updated_lines ::
    "string list \<Rightarrow> string \<Rightarrow> int \<Rightarrow> chunk list \<Rightarrow> string list \<Rightarrow> (patch_error, string list) result" where
  "updated_lines orig path i [] dest =
     (if i > int (length orig) then Inl (PatchAssertion ''dest_index'') else Inr (dest @ drop (nat i) orig))"
| "updated_lines orig path i (ch # chs) dest =
     (if ch_orig_index ch > int (length orig) then
        Inl (DiffError (''_get_updated_file: '' @ path @ '': chunk.orig_index '' @ show_int (ch_orig_index ch) @
          '' > len(lines) '' @ show_nat (length orig)))
      else if i > ch_orig_index ch then
        Inl (DiffError (''_get_updated_file: '' @ path @ '': orig_index '' @ show_int i @
          '' > chunk.orig_index '' @ show_int (ch_orig_index ch)))
      else updated_lines orig path (ch_orig_index ch + int (length (ch_del_lines ch))) chs
             (dest @ py_slice orig i (ch_orig_index ch) @ ch_ins_lines ch))"

definition get_updated_file :: "string \<Rightarrow> patch_action \<Rightarrow> string \<Rightarrow> (patch_error, string) result" where
  "get_updated_file text act path =
     (if pa_type act \<noteq> UPDATE then Inl (PatchAssertion ''type'')
      else bind_res (updated_lines (split_on newline text) path 0 (pa_chunks act) []) (\<lambda>ls. Inr (join_with newline ls)))"

definition change_of :: "(string \<rightharpoonup> string) \<Rightarrow> string \<Rightarrow> patch_action \<Rightarrow> (patch_error, file_change) result" where
  "change_of orig path act =
     (case pa_type act of
        DELETE \<Rightarrow>
          (case orig path of
             None \<Rightarrow> Inl (PatchKeyError path)
           | Some t \<Rightarrow> Inr \<lparr>fc_type = DELETE, fc_old_content = Some t, fc_new_content = None, fc_move_path = None\<rparr>)
      | ADD \<Rightarrow> Inr \<lparr>fc_type = ADD, fc_old_content = None, fc_new_content = pa_new_file act, fc_move_path = None\<rparr>
      | UPDATE \<Rightarrow>
          (case orig path of
             None \<Rightarrow> Inl (PatchKeyError path)
           | Some t \<Rightarrow>
               bind_res (get_updated_file t act path) (\<lambda>new.
                 Inr \<lparr>fc_type = UPDATE, fc_old_content = Some t, fc_new_content = Some new,
                      fc_move_path = pa_move_path act\<rparr>)))"

fun patch_to_commit ::
    "(string \<times> patch_action) list \<Rightarrow> (string \<rightharpoonup> string) \<Rightarrow> (patch_error, commit) result" where
  "patch_to_commit [] orig = Inr []"
| "patch_to_commit ((path, act) # acts) orig =
     bind_res (change_of orig path act) (\<lambda>c.
       bind_res (patch_to_commit acts orig) (\<lambda>cs. Inr ((path, c) # cs)))"

text \<open>\<open>assemble_changes\<close>: the commit between two sets of contents.\<close>

definition assemble_change ::
    "(string \<rightharpoonup> string) \<Rightarrow> (string \<rightharpoonup> string) \<Rightarrow> string \<Rightarrow> (patch_error, file_change option) result" where
  "assemble_change orig dest path =
     (let old = orig path; new = dest path
      in if old = new then Inr None
         else if old \<noteq> None \<and> new \<noteq> None then
           Inr (Some \<lparr>fc_type = UPDATE, fc_old_content = old, fc_new_content = new, fc_move_path = None\<rparr>)
         else if new \<noteq> None \<and> new \<noteq> Some [] then
           Inr (Some \<lparr>fc_type = ADD, fc_old_content = None, fc_new_content = new, fc_move_path = None\<rparr>)
         else if old \<noteq> None \<and> old \<noteq> Some [] then
           Inr (Some \<lparr>fc_type = DELETE, fc_old_content = old, fc_new_content = None, fc_move_path = None\<rparr>)
         else Inl (PatchAssertion ''False''))"

fun assemble_changes ::
    "(string \<rightharpoonup> string) \<Rightarrow> (string \<rightharpoonup> string) \<Rightarrow> string list \<Rightarrow> (patch_error, commit) result" where
  "assemble_changes orig dest [] = Inr []"
| "assemble_changes orig dest (p # ps) =
     bind_res (assemble_change orig dest p) (\<lambda>c.
       bind_res (assemble_changes orig dest ps) (\<lambda>cs.
         Inr (case c of None \<Rightarrow> cs | Some ch \<Rightarrow> (p, ch) # cs)))"

section \<open>Applying\<close>

text \<open>The file operations, over a state of files; writing and removing keep what was done before an error.\<close>

record 'f patch_io =
  io_open :: "string \<Rightarrow> 'f \<Rightarrow> (patch_error, string) result"
  io_write :: "string \<Rightarrow> string \<Rightarrow> 'f \<Rightarrow> (patch_error, 'f) result"
  io_remove :: "string \<Rightarrow> 'f \<Rightarrow> (patch_error, 'f) result"

fun load_files :: "'f patch_io \<Rightarrow> string list \<Rightarrow> 'f \<Rightarrow> (patch_error, string \<rightharpoonup> string) result" where
  "load_files io [] f = Inr Map.empty"
| "load_files io (p # ps) f =
     (case io_open io p f of
        Inl (PatchFileNotFound _) \<Rightarrow> Inl (DiffError (''Delete File Error: Missing File: '' @ p))
      | Inl e \<Rightarrow> Inl e
      | Inr t \<Rightarrow> bind_res (load_files io ps f) (\<lambda>m. Inr (m(p \<mapsto> t))))"

definition apply_change :: "'f patch_io \<Rightarrow> string \<Rightarrow> file_change \<Rightarrow> 'f \<Rightarrow> 'f \<times> (patch_error, unit) result" where
  "apply_change io path c f =
     (let put = (\<lambda>p f. case fc_new_content c of
                   None \<Rightarrow> (f, Inl (PatchAssertion ''new_content''))
                 | Some t \<Rightarrow> (case io_write io p t f of Inl e \<Rightarrow> (f, Inl e) | Inr f' \<Rightarrow> (f', Inr ())));
          del = (\<lambda>f. case io_remove io path f of Inl e \<Rightarrow> (f, Inl e) | Inr f' \<Rightarrow> (f', Inr ()))
      in case fc_type c of
           DELETE \<Rightarrow> del f
         | ADD \<Rightarrow> put path f
         | UPDATE \<Rightarrow>
             (case fc_move_path c of
                Some (m # ms) \<Rightarrow> (case put (m # ms) f of (f', Inl e) \<Rightarrow> (f', Inl e) | (f', Inr _) \<Rightarrow> del f')
              | _ \<Rightarrow> put path f))"

fun apply_commit :: "'f patch_io \<Rightarrow> commit \<Rightarrow> 'f \<Rightarrow> 'f \<times> (patch_error, unit) result" where
  "apply_commit io [] f = (f, Inr ())"
| "apply_commit io ((path, c) # cs) f =
     (case apply_change io path c f of
        (f', Inl e) \<Rightarrow> (f', Inl e)
      | (f', Inr _) \<Rightarrow> apply_commit io cs f')"

definition plan_patch :: "'f patch_io \<Rightarrow> string \<Rightarrow> 'f \<Rightarrow> (patch_error, int \<times> commit) result" where
  "plan_patch io text f =
     (if \<not> starts_with BEGIN_PATCH text then Inl (PatchAssertion ''text'')
      else bind_res (load_files io (identify_files_needed text) f) (\<lambda>orig.
             bind_res (text_to_patch text orig) (\<lambda>(acts, fuzz).
               bind_res (patch_to_commit acts orig) (\<lambda>commit. Inr (fuzz, commit)))))"

definition process_patch ::
    "'f patch_io \<Rightarrow> string \<Rightarrow> 'f \<Rightarrow> 'f \<times> (patch_error, string \<times> int \<times> commit) result" where
  "process_patch io text f =
     (case plan_patch io text f of
        Inl e \<Rightarrow> (f, Inl e)
      | Inr (fuzz, commit) \<Rightarrow>
          (case apply_commit io commit f of
             (f', Inl e) \<Rightarrow> (f', Inl e)
           | (f', Inr _) \<Rightarrow> (f', Inr (''Done!'', fuzz, commit))))"

section \<open>The executor\<close>

text \<open>
  \<open>Path.resolve\<close> on the parts of an absolute path, when no part is a symbolic link.
\<close>

fun resolve_parts :: "string list \<Rightarrow> string list \<Rightarrow> string list" where
  "resolve_parts done_parts [] = done_parts"
| "resolve_parts done_parts (p # ps) =
     resolve_parts
       (if p = [] \<or> p = ''.'' then done_parts
        else if p = ''..'' then butlast done_parts
        else done_parts @ [p]) ps"

definition path_str :: "string list \<Rightarrow> string" where
  "path_str ps = (if ps = [] then ''/'' else concat (map (\<lambda>p. CHR ''/'' # p) ps))"

text \<open>\<open>_resolve_path\<close>, for a resolved root.\<close>

definition resolve_path :: "string list \<Rightarrow> string \<Rightarrow> (patch_error, string list) result" where
  "resolve_path root p =
     (let parts = split_on (CHR ''/'') p;
          pth = resolve_parts [] (if starts_with ''/'' p then parts else root @ parts)
      in if starts_with (path_str root) (path_str pth) then Inr pth
         else Inl (DiffError ''Absolute or escaping paths are not allowed''))"

type_synonym files = "string list \<rightharpoonup> string"

definition workspace_io :: "string list \<Rightarrow> files patch_io" where
  "workspace_io root =
     \<lparr>io_open = (\<lambda>p fs. bind_res (resolve_path root p) (\<lambda>fp.
        case fs fp of None \<Rightarrow> Inl (PatchFileNotFound p) | Some t \<Rightarrow> Inr t)),
      io_write = (\<lambda>p t fs. bind_res (resolve_path root p) (\<lambda>fp. Inr (fs(fp \<mapsto> t)))),
      io_remove = (\<lambda>p fs. bind_res (resolve_path root p) (\<lambda>fp.
        if fs fp = None then Inl (PatchFileNotFound p) else Inr (fs(fp := None))))\<rparr>"

text \<open>\<open>__call__\<close>: the text of the observation and whether it is an error; only a \<open>DiffError\<close> is caught.\<close>

definition apply_patch_call :: "string list \<Rightarrow> string \<Rightarrow> files \<Rightarrow> files \<times> (patch_error, string \<times> bool) result" where
  "apply_patch_call root patch fs =
     (case process_patch (workspace_io root) patch fs of
        (fs', Inr (msg, fuzz, commit)) \<Rightarrow> (fs', Inr (msg, False))
      | (fs', Inl (DiffError s)) \<Rightarrow> (fs', Inr (s, True))
      | (fs', Inl e) \<Rightarrow> (fs', Inl e))"

section \<open>Chunks\<close>

text \<open>A section as signed lines, its old and its new text.\<close>

type_synonym hunk = "(line_mode \<times> string) list"

fun sign :: "line_mode \<Rightarrow> char" where
  "sign Keep = CHR '' ''"
| "sign Add = CHR ''+''"
| "sign Delete = CHR ''-''"

definition signed :: "line_mode \<times> string \<Rightarrow> string" where
  "signed l = sign (fst l) # snd l"

definition old_of :: "hunk \<Rightarrow> string list" where
  "old_of h = map snd (filter (\<lambda>l. fst l \<noteq> Add) h)"

definition new_of :: "hunk \<Rightarrow> string list" where
  "new_of h = map snd (filter (\<lambda>l. fst l \<noteq> Delete) h)"

lemma hunk_simps [simp]:
  "old_of [] = []" "new_of [] = []"
  "old_of ((m, s) # h) = (if m = Add then old_of h else s # old_of h)"
  "new_of ((m, s) # h) = (if m = Delete then new_of h else s # new_of h)"
  by (simp_all add: old_of_def new_of_def)

lemma read_mode_signed: "read_mode (signed l) = Some l"
  by (cases l; cases "fst l") (auto simp: read_mode_def signed_def)

lemma signed_plain:
  "\<not> starts_with_any section_stops (signed l)" "signed l \<noteq> ''***''" "\<not> starts_with ''***'' (signed l)"
  "\<not> starts_with_any (file_stops @ [END_OF_FILE]) (signed l)" "\<not> starts_with ''@@ '' (signed l)"
  "signed l \<noteq> ''@@''" "\<not> starts_with MOVE_TO (signed l)" "needed_file (signed l) = []"
  by (cases "fst l"; simp add: signed_def section_stops_def file_stops_def starts_with_any_def starts_with_def
      needed_file_def marker_defs)+

lemma peek_loop_signed:
  "starts_with_any section_stops stop \<Longrightarrow>
     peek_loop (map signed h @ stop # rest) sc = Inr (fold (\<lambda>(m, s). section_line m s) h sc, stop # rest)"
  by (induction h arbitrary: sc) (auto simp: signed_plain read_mode_signed split: prod.splits)

text \<open>The state between two chunks: the index in the file and the new lines so far.\<close>

fun chunk_run :: "string list \<Rightarrow> chunk list \<Rightarrow> int \<times> string list \<Rightarrow> (int \<times> string list) option" where
  "chunk_run orig [] st = Some st"
| "chunk_run orig (ch # chs) (i, dest) =
     (if ch_orig_index ch > int (length orig) \<or> i > ch_orig_index ch then None
      else chunk_run orig chs (ch_orig_index ch + int (length (ch_del_lines ch)),
             dest @ py_slice orig i (ch_orig_index ch) @ ch_ins_lines ch))"

lemma chunk_run_append:
  "chunk_run orig (chs @ chs') st = (case chunk_run orig chs st of None \<Rightarrow> None | Some st' \<Rightarrow> chunk_run orig chs' st')"
  by (induction orig chs st rule: chunk_run.induct) auto

lemma chunk_run_updated:
  "chunk_run orig chs (i, dest) = Some (j, dest') \<Longrightarrow> j \<le> int (length orig) \<Longrightarrow>
     updated_lines orig path i chs dest = Inr (dest' @ drop (nat j) orig)"
  by (induction orig chs "(i, dest)" arbitrary: i dest rule: chunk_run.induct) (auto split: if_splits)

text \<open>
  While a section is read, the chunks so far and the pending lines turn the file up to this point
  into the text before the section and the new lines so far.
\<close>

definition section_inv :: "string list \<Rightarrow> string list \<Rightarrow> section_state \<Rightarrow> string list \<Rightarrow> bool" where
  "section_inv orig pre sc N \<longleftrightarrow>
     (\<exists>i dest. chunk_run orig (map (shift_chunk (int (length pre))) (sc_chunks sc)) (0, []) = Some (int i, dest) \<and>
        length (sc_del sc) \<le> length (sc_old sc) \<and>
        i + length (sc_del sc) \<le> length pre + length (sc_old sc) \<and>
        dest @ take (length pre + length (sc_old sc) - length (sc_del sc) - i) (drop i orig) @ sc_ins sc = pre @ N) \<and>
     (sc_mode sc = Keep \<longrightarrow> sc_del sc = [] \<and> sc_ins sc = [])"

lemma flush_inv:
  assumes "section_inv orig pre sc N" and "length pre + length (sc_old sc) \<le> length orig"
  shows "\<exists>i dest. chunk_run orig (map (shift_chunk (int (length pre))) (flush_chunk sc)) (0, []) = Some (int i, dest) \<and>
    i \<le> length pre + length (sc_old sc) \<and>
    dest @ take (length pre + length (sc_old sc) - i) (drop i orig) = pre @ N"
proof -
  obtain i dest where r: "chunk_run orig (map (shift_chunk (int (length pre))) (sc_chunks sc)) (0, []) = Some (int i, dest)"
    and d: "length (sc_del sc) \<le> length (sc_old sc)" "i + length (sc_del sc) \<le> length pre + length (sc_old sc)"
    and N: "dest @ take (length pre + length (sc_old sc) - length (sc_del sc) - i) (drop i orig) @ sc_ins sc = pre @ N"
    using assms(1) by (auto simp: section_inv_def)
  show ?thesis
  proof (cases "sc_ins sc = [] \<and> sc_del sc = []")
    case True
    with r d N show ?thesis by (intro exI [of _ i] exI [of _ dest]) (simp add: flush_chunk_def)
  next
    case False
    let ?at = "length pre + length (sc_old sc) - length (sc_del sc)"
    have at: "int (length (sc_old sc)) - int (length (sc_del sc)) + int (length pre) = int ?at" using d by simp
    have "chunk_run orig (map (shift_chunk (int (length pre))) (flush_chunk sc)) (0, [])
        = Some (int ?at + int (length (sc_del sc)), dest @ py_slice orig (int i) (int ?at) @ sc_ins sc)"
      using False r d assms(2) by (auto simp: flush_chunk_def chunk_run_append shift_chunk_def at)
    moreover have "py_slice orig (int i) (int ?at) = take (?at - i) (drop i orig)"
      unfolding py_slice_nat using d assms(2) by simp
    moreover have "int ?at + int (length (sc_del sc)) = int (length pre + length (sc_old sc))" using d by simp
    ultimately show ?thesis
      using N by (intro exI [of _ "length pre + length (sc_old sc)"] exI [of _ "pre @ N"]) simp
  qed
qed

lemma section_line_inv:
  assumes "section_inv orig pre sc N" and o: "orig = pre @ sc_old sc @ old_of [(m, s)] @ rest"
  shows "section_inv orig pre (section_line m s sc) (N @ new_of [(m, s)]) \<and>
    sc_old (section_line m s sc) = sc_old sc @ old_of [(m, s)]"
proof (cases m)
  case Add
  with assms(1) show ?thesis by (auto simp: section_inv_def section_line_def Let_def)
next
  case Delete
  with assms(1) show ?thesis by (auto simp: section_inv_def section_line_def Let_def)
next
  case Keep
  let ?n = "length pre + length (sc_old sc)"
  have n: "?n < length orig" "orig ! ?n = s" using o Keep by (simp_all add: nth_append)
  obtain i dest where r: "chunk_run orig (map (shift_chunk (int (length pre))) (flush_chunk sc)) (0, []) = Some (int i, dest)"
    and i: "i \<le> ?n" and N: "dest @ take (?n - i) (drop i orig) = pre @ N"
    using flush_inv [OF assms(1)] n(1) by auto
  have "take (Suc ?n - i) (drop i orig) = take (?n - i) (drop i orig) @ [s]"
    using i n by (simp add: Suc_diff_le take_Suc_conv_app_nth)
  with N have N': "dest @ take (Suc ?n - i) (drop i orig) = pre @ N @ [s]" by simp
  have chunks: "sc_mode sc = Keep \<Longrightarrow> flush_chunk sc = sc_chunks sc"
    using assms(1) by (simp add: section_inv_def flush_chunk_def)
  have "sc_chunks (section_line m s sc) = flush_chunk sc" "sc_del (section_line m s sc) = []" "sc_ins (section_line m s sc) = []"
    "sc_old (section_line m s sc) = sc_old sc @ [s]"
    using Keep chunks assms(1) by (auto simp: section_line_def Let_def section_inv_def)
  then show ?thesis
    using r i N' Keep unfolding section_inv_def by (intro conjI exI [of _ i] exI [of _ dest]) (auto simp: add.commute)
qed

lemma section_lines_inv:
  "section_inv orig pre sc N \<Longrightarrow> orig = pre @ sc_old sc @ old_of h @ post \<Longrightarrow>
     section_inv orig pre (fold (\<lambda>(m, s). section_line m s) h sc) (N @ new_of h) \<and>
     sc_old (fold (\<lambda>(m, s). section_line m s) h sc) = sc_old sc @ old_of h"
proof (induction h arbitrary: sc N)
  case (Cons l h)
  obtain m s where l: "l = (m, s)" by fastforce
  have o: "orig = pre @ sc_old sc @ old_of [(m, s)] @ old_of h @ post" using Cons.prems(2) l by simp
  note L = section_line_inv [OF Cons.prems(1) o]
  have "orig = pre @ sc_old (section_line m s sc) @ old_of h @ post" using o L by simp
  from Cons.IH [OF _ this, of "N @ new_of [(m, s)]"] L
  have "section_inv orig pre (fold (\<lambda>(m, s). section_line m s) h (section_line m s sc)) ((N @ new_of [(m, s)]) @ new_of h)"
    "sc_old (fold (\<lambda>(m, s). section_line m s) h (section_line m s sc)) = (sc_old sc @ old_of [(m, s)]) @ old_of h" by simp_all
  moreover have "(N @ new_of [(m, s)]) @ new_of h = N @ new_of (l # h)"
    "(sc_old sc @ old_of [(m, s)]) @ old_of h = sc_old sc @ old_of (l # h)" using l by simp_all
  ultimately show ?case using l by simp
qed simp

text \<open>The chunks of a section, placed where its old lines are, put its new lines in their place.\<close>

lemma section_replaces:
  assumes "sc = fold (\<lambda>(m, s). section_line m s) h empty_section"
  shows "sc_old sc = old_of h \<and>
    updated_lines (pre @ old_of h @ post) path 0 (map (shift_chunk (int (length pre))) (flush_chunk sc)) []
      = Inr (pre @ new_of h @ post)"
proof -
  let ?orig = "pre @ old_of h @ post"
  have "section_inv ?orig pre empty_section []"
    by (simp add: section_inv_def empty_section_def)
  from section_lines_inv [OF this, of h post]
  have inv: "section_inv ?orig pre sc (new_of h)" and old: "sc_old sc = old_of h"
    by (simp_all add: assms empty_section_def)
  obtain i dest where r: "chunk_run ?orig (map (shift_chunk (int (length pre))) (flush_chunk sc)) (0, []) = Some (int i, dest)"
    and i: "i \<le> length pre + length (old_of h)"
    and N: "dest @ take (length pre + length (old_of h) - i) (drop i ?orig) = pre @ new_of h"
    using flush_inv [OF inv] old by auto
  have "drop i ?orig = take (length pre + length (old_of h) - i) (drop i ?orig) @ drop (length pre + length (old_of h)) ?orig"
    using i by (metis append_take_drop_id drop_drop le_add_diff_inverse2)
  then have "drop i ?orig = take (length pre + length (old_of h) - i) (drop i ?orig) @ post" by simp
  then have "dest @ drop i ?orig = pre @ new_of h @ post" using N by (metis append.assoc)
  moreover have "int i \<le> int (length ?orig)" using i by simp
  ultimately show ?thesis using chunk_run_updated [OF r] old by simp
qed

section \<open>The place of a section\<close>

lemma find_upto:
  assumes "P (int k)" and "\<forall>j < k. \<not> P (int j)" and "k < n"
  shows "find P [0..int n - 1] = Some (int k)"
proof -
  have u: "[0..int n - 1] = map int [0..<n]" by (rule nth_equalityI) simp_all
  have "find P (map int [0..<n]) = Some (int k)"
    unfolding find_Some_iff using assms by (intro exI [of _ k]) simp
  then show ?thesis by (simp add: u)
qed

lemma window_nat: "i + length ctx \<le> length lines \<Longrightarrow> window lines ctx (int i) = take (length ctx) (drop i lines)"
  using py_slice_nat [of lines i "i + length ctx"] by (simp add: window_def)

lemma window_short: "i + length ctx > length lines \<Longrightarrow> ctx \<noteq> [] \<Longrightarrow> window lines ctx (int i) \<noteq> ctx"
  using py_slice_nat [of lines i "i + length ctx"] by (auto simp: window_def dest: arg_cong [where f=length])

lemma find_context_unique:
  assumes "ctx \<noteq> []" and "\<forall>j < length pre. take (length ctx) (drop j (pre @ ctx @ post)) \<noteq> ctx"
  shows "find_context (pre @ ctx @ post) ctx 0 False = (int (length pre), 0)"
proof -
  let ?lines = "pre @ ctx @ post"
  have here: "window ?lines ctx (int (length pre)) = ctx" by (simp add: window_nat)
  have before: "\<forall>j < length pre. window ?lines ctx (int j) \<noteq> ctx"
    using assms(2) by (simp add: window_nat)
  have "length pre < length ?lines" using assms(1) by simp
  from find_upto [of "\<lambda>i. window ?lines ctx i = ctx", OF here before this] assms(1)
  show ?thesis by (simp add: find_context_def find_context_core_def Let_def)
qed

section \<open>A patch of one section\<close>

definition section_patch :: "string \<Rightarrow> hunk \<Rightarrow> string list" where
  "section_patch path h = [BEGIN_PATCH, UPDATE_FILE @ path] @ map signed h @ [END_PATCH]"

lemma stop_lines:
  "starts_with_any section_stops END_PATCH" "starts_with_any (file_stops @ [END_OF_FILE]) END_PATCH"
  "starts_with END_PATCH END_PATCH" "needed_file END_PATCH = []" "needed_file BEGIN_PATCH = []"
  "needed_file (UPDATE_FILE @ path) = [path]" "\<not> starts_with END_PATCH (UPDATE_FILE @ path)"
  "END_PATCH \<noteq> END_OF_FILE"
  by (simp_all add: section_stops_def file_stops_def starts_with_any_def starts_with_def needed_file_def marker_defs)

lemma peek_signed:
  assumes "h \<noteq> []" and "plines = front @ map signed h @ [END_PATCH]" and "sc = fold (\<lambda>(m, s). section_line m s) h empty_section"
  shows "peek_next_section plines (length front) = Inr (sc_old sc, flush_chunk sc, length front + length h, False)"
proof -
  have "peek_loop (drop (length front) plines) empty_section = Inr (sc, [END_PATCH])"
    using peek_loop_signed [OF stop_lines(1), of h "[]" empty_section] assms(2,3) by simp
  moreover have "length (drop (length front) plines) = length h + 1" using assms(2) by simp
  ultimately show ?thesis using assms(1) stop_lines(8) by (simp add: peek_next_section_def Let_def)
qed

lemma update_signed:
  assumes ne: "old_of h \<noteq> []" and pl: "plines = front @ map signed h @ [END_PATCH]"
    and uniq: "\<forall>j < length pre. take (length (old_of h)) (drop j (pre @ old_of h @ post)) \<noteq> old_of h"
    and sc: "sc = fold (\<lambda>(m, s). section_line m s) h empty_section"
  shows "update_loop plines (pre @ old_of h @ post) (length front) 0 0 []
    = Inr (length front + length h, 0, map (shift_chunk (int (length pre))) (flush_chunk sc))"
proof -
  let ?lines = "pre @ old_of h @ post" and ?i = "length front"
  have h: "h \<noteq> []" using ne by auto
  have at: "plines ! ?i = signed (hd h)" "?i < length plines" "line_at plines ?i = Some (signed (hd h))"
    using h pl by (cases h; simp add: line_at_def nth_append)+
  have "section_header plines ?i 0 = Inr ([], ?i)"
    using at signed_plain [of "hd h"] by (simp add: section_header_def read_str_def)
  moreover have "seek_definition ?lines 0 [] = (0, 0)"
    by (simp add: seek_definition_def py_strip_def py_lstrip_def py_rstrip_def)
  moreover note peek_signed [OF h pl sc]
  moreover have "sc_old sc = old_of h" using section_replaces [OF sc] by blast
  ultimately have sec: "update_section plines ?lines ?i 0
      = Inr (?i + length h, length pre + length (old_of h), 0, map (shift_chunk (int (length pre))) (flush_chunk sc))"
    using find_context_unique [OF ne uniq] by (simp add: update_section_def place_section_def)
  have go: "\<not> is_done (file_stops @ [END_OF_FILE]) plines ?i"
    using at signed_plain [of "hd h"] by (simp add: is_done_def)
  have "plines ! (?i + length h) = END_PATCH" using pl by (simp add: nth_append)
  then have "is_done (file_stops @ [END_OF_FILE]) plines (?i + length h)"
    using stop_lines(2) by (simp add: is_done_def)
  with go sec show ?thesis by (simp add: update_loop.simps [of plines ?lines])
qed

lemma join_last: "ls \<noteq> [] \<Longrightarrow> last ls \<noteq> [] \<Longrightarrow> join_with c ls \<noteq> [] \<and> last (join_with c ls) = last (last ls)"
  by (induction c ls rule: join_with.induct) auto

lemma sign_not_newline: "sign m \<noteq> newline"
  by (cases m) (simp_all add: newline_def)

lemma section_patch_lines:
  assumes "newline \<notin> set path" and "\<forall>l \<in> set h. newline \<notin> set (snd l)"
  shows "split_on newline (py_strip (join_with newline (section_patch path h))) = section_patch path h \<and>
    starts_with BEGIN_PATCH (join_with newline (section_patch path h))"
proof -
  let ?ls = "section_patch path h"
  have j: "join_with newline ?ls = BEGIN_PATCH @ newline # join_with newline (tl ?ls)"
    by (simp add: section_patch_def)
  have "last (join_with newline ?ls) = CHR ''h''" "join_with newline ?ls \<noteq> []" "hd (join_with newline ?ls) = CHR ''*''"
    using join_last [of ?ls newline] j by (simp_all add: section_patch_def marker_defs)
  then have "py_strip (join_with newline ?ls) = join_with newline ?ls"
    by (intro strip_id) (simp_all add: py_space_def)
  moreover have "\<forall>l \<in> set ?ls. newline \<notin> set l"
  proof -
    have "\<forall>l \<in> set (map signed h). newline \<notin> set l"
      using assms(2) sign_not_newline by (auto simp: signed_def) metis
    moreover have "\<forall>l \<in> {BEGIN_PATCH, UPDATE_FILE, END_PATCH}. newline \<notin> set l"
      by (simp add: marker_defs newline_def)
    ultimately show ?thesis using assms(1) by (auto simp: section_patch_def)
  qed
  ultimately show ?thesis using split_join [of ?ls newline] j by (simp add: section_patch_def)
qed

lemma section_patch_parses:
  assumes "path \<noteq> []" and "old_of h \<noteq> []" and "files path = Some (join_with newline (pre @ old_of h @ post))"
    and lines: "\<forall>l \<in> set (pre @ old_of h @ post). newline \<notin> set l"
    and uniq: "\<forall>j < length pre. take (length (old_of h)) (drop j (pre @ old_of h @ post)) \<noteq> old_of h"
    and sc: "sc = fold (\<lambda>(m, s). section_line m s) h empty_section"
  shows "parse_patch (section_patch path h) files \<lparr>ps_index = 1, ps_actions = [], ps_fuzz = 0\<rparr>
    = Inr \<lparr>ps_index = 3 + length h,
        ps_actions = [(path, \<lparr>pa_type = UPDATE, pa_new_file = None,
          pa_chunks = map (shift_chunk (int (length pre))) (flush_chunk sc), pa_move_path = Some []\<rparr>)],
        ps_fuzz = 0\<rparr>"
proof -
  let ?pl = "section_patch path h"
  have pl: "?pl = [BEGIN_PATCH, UPDATE_FILE @ path] @ map signed h @ [END_PATCH]" by (simp add: section_patch_def)
  have h: "h \<noteq> []" using assms(2) by auto
  have at: "line_at ?pl 1 = Some (UPDATE_FILE @ path)" "line_at ?pl 2 = Some (signed (hd h))"
    "line_at ?pl (2 + length h) = Some END_PATCH"
    using h by (cases h; simp add: line_at_def section_patch_def nth_append)+
  have "split_on newline (join_with newline (pre @ old_of h @ post)) = pre @ old_of h @ post"
    using assms(2) lines by (intro split_join) auto
  then have up: "parse_update_file ?pl (join_with newline (pre @ old_of h @ post)) 2
      = Inr (2 + length h, 0, \<lparr>pa_type = UPDATE, pa_new_file = None,
          pa_chunks = map (shift_chunk (int (length pre))) (flush_chunk sc), pa_move_path = None\<rparr>)"
    using update_signed [OF assms(2) pl uniq sc] by (simp add: parse_update_file_def numeral_2_eq_2)
  have "parse_entry ?pl files \<lparr>ps_index = 1, ps_actions = [], ps_fuzz = 0\<rparr>
      = Inr (add_entry path \<lparr>pa_type = UPDATE, pa_new_file = None,
          pa_chunks = map (shift_chunk (int (length pre))) (flush_chunk sc), pa_move_path = Some []\<rparr>
          (2 + length h) 0 \<lparr>ps_index = 1, ps_actions = [], ps_fuzz = 0\<rparr>)"
    using at assms(1,3) up signed_plain(7) [of "hd h"] by (simp add: parse_entry_def read_str_def numeral_2_eq_2)
  moreover have "\<not> is_done [END_PATCH] ?pl 1" "is_done [END_PATCH] ?pl (2 + length h)"
    using at stop_lines by (auto simp: is_done_def starts_with_any_def line_at_def split: if_splits)
  ultimately show ?thesis
    using at(3) stop_lines(3) by (simp add: parse_patch_def parse_loop.simps add_entry_def)
qed

lemma workspace_write_frame:
  "io_write (workspace_io root) q t fs = Inr fs' \<Longrightarrow> fs' fp \<noteq> fs fp \<Longrightarrow> resolve_path root q = Inr fp"
  by (auto simp: workspace_io_def res_simps split: if_splits)

lemma workspace_remove_frame:
  "io_remove (workspace_io root) q fs = Inr fs' \<Longrightarrow> fs' fp \<noteq> fs fp \<Longrightarrow> resolve_path root q = Inr fp"
  by (auto simp: workspace_io_def res_simps split: if_splits)

definition named_by :: "string \<Rightarrow> file_change \<Rightarrow> string set" where
  "named_by path c = insert path (set_option (fc_move_path c))"

lemma apply_change_frame:
  assumes "apply_change (workspace_io root) path c fs = (fs', r)" and "fs' fp \<noteq> fs fp"
  shows "\<exists>q \<in> named_by path c. resolve_path root q = Inr fp"
proof (rule ccontr)
  assume no: "\<not> (\<exists>q \<in> named_by path c. resolve_path root q = Inr fp)"
  have w: "io_write (workspace_io root) q t f = Inr f' \<Longrightarrow> q \<in> named_by path c \<Longrightarrow> f' fp = f fp" for q t f f'
    using workspace_write_frame no by blast
  have d: "io_remove (workspace_io root) path f = Inr f' \<Longrightarrow> f' fp = f fp" for f f'
    using workspace_remove_frame [of root path f f' fp] no by (auto simp: named_by_def)
  have p: "path \<in> named_by path c" "\<And>m. fc_move_path c = Some m \<Longrightarrow> m \<in> named_by path c" by (auto simp: named_by_def)
  have "fs' fp = fs fp"
    using assms(1) unfolding apply_change_def Let_def
    by (auto split: action_type.splits option.splits sum.splits list.splits prod.splits dest!: d w intro: p)
  with assms(2) show False by simp
qed

lemma apply_commit_frame:
  "apply_commit (workspace_io root) cs fs = (fs', r) \<Longrightarrow> fs' fp \<noteq> fs fp \<Longrightarrow>
     \<exists>(path, c) \<in> set cs. \<exists>q \<in> named_by path c. resolve_path root q = Inr fp"
proof (induction cs arbitrary: fs)
  case (Cons pc cs)
  obtain path c where pc: "pc = (path, c)" by fastforce
  obtain fs1 r1 where a: "apply_change (workspace_io root) path c fs = (fs1, r1)" by fastforce
  show ?case
  proof (cases "fs1 fp = fs fp")
    case False
    with apply_change_frame [OF a] pc show ?thesis by auto
  next
    case True
    with Cons a pc obtain u where "apply_commit (workspace_io root) cs fs1 = (fs', r)" "r1 = Inr u"
      by (cases r1) auto
    with Cons.IH True Cons.prems(2) show ?thesis by auto
  qed
qed simp

section \<open>Properties\<close>

text \<open>
  C20: A patch whose section spells out a piece of the file, line by line as kept, deleted or
  added, and whose old lines occur nowhere earlier, replaces exactly that piece: the file
  afterwards has the new lines of the section in the place of the old ones, everything around it is
  as before, and the patch needed no tolerance.
\<close>

theorem patch_replaces_section:
  assumes "path \<noteq> []" and "newline \<notin> set path" and "\<forall>l \<in> set h. newline \<notin> set (snd l)"
    and "\<forall>l \<in> set (pre @ post). newline \<notin> set l" and "old_of h \<noteq> []"
    and "\<forall>j < length pre. take (length (old_of h)) (drop j (pre @ old_of h @ post)) \<noteq> old_of h"
    and "io_open io path f = Inr (join_with newline (pre @ old_of h @ post))"
    and "io_write io path (join_with newline (pre @ new_of h @ post)) f = Inr f'"
  shows "\<exists>commit. process_patch io (join_with newline (section_patch path h)) f = (f', Inr (''Done!'', 0, commit))"
proof -
  define sc where "sc = fold (\<lambda>(m, s). section_line m s) h empty_section"
  let ?file = "join_with newline (pre @ old_of h @ post)" and ?orig = "[path \<mapsto> join_with newline (pre @ old_of h @ post)]"
  let ?act = "\<lparr>pa_type = UPDATE, pa_new_file = None,
    pa_chunks = map (shift_chunk (int (length pre))) (flush_chunk sc), pa_move_path = Some []\<rparr>"
  have lines: "\<forall>l \<in> set (pre @ old_of h @ post). newline \<notin> set l" using assms(3,4) by (auto simp: old_of_def)
  note T = section_patch_lines [OF assms(2,3)]
  have "concat (map needed_file (map signed h)) = []" by (simp add: signed_plain)
  then have "identify_files_needed (join_with newline (section_patch path h)) = [path]"
    using T by (simp add: identify_files_needed_def section_patch_def stop_lines)
  then have load: "load_files io (identify_files_needed (join_with newline (section_patch path h))) f = Inr ?orig"
    using assms(7) by simp
  have parse: "text_to_patch (join_with newline (section_patch path h)) ?orig = Inr ([(path, ?act)], 0)"
    using T section_patch_parses [of path h ?orig pre post sc] assms(1,5,6) lines sc_def
    by (simp add: text_to_patch_def Let_def) (simp add: section_patch_def starts_with_def)
  have "split_on newline ?file = pre @ old_of h @ post" using assms(5) lines by (intro split_join) auto
  then have "get_updated_file ?file ?act path = Inr (join_with newline (pre @ new_of h @ post))"
    using section_replaces [of sc h pre post path] sc_def by (simp add: get_updated_file_def)
  then have commit: "patch_to_commit [(path, ?act)] ?orig =
      Inr [(path, \<lparr>fc_type = UPDATE, fc_old_content = Some ?file,
        fc_new_content = Some (join_with newline (pre @ new_of h @ post)), fc_move_path = Some []\<rparr>)]"
    by (simp add: change_of_def)
  show ?thesis
    using T load parse commit assms(8) by (simp add: process_patch_def plan_patch_def apply_change_def Let_def)
qed

text \<open>
  A patch changes no other file: what differs afterwards is a file that some change of the
  commit names as its path or as the target of its move, whether the patch succeeds or fails half way, and a patch
  that does not parse or does not fit changes nothing.
\<close>

theorem patch_touches_named_files:
  assumes "process_patch (workspace_io root) text fs = (fs', r)" and "fs' fp \<noteq> fs fp"
  shows "\<exists>fuzz cs. plan_patch (workspace_io root) text fs = Inr (fuzz, cs) \<and>
    (\<exists>(path, c) \<in> set cs. \<exists>q \<in> named_by path c. resolve_path root q = Inr fp)"
proof (cases "plan_patch (workspace_io root) text fs")
  case (Inl e)
  with assms show ?thesis by (simp add: process_patch_def)
next
  case (Inr p)
  obtain fuzz cs where p: "p = (fuzz, cs)" by fastforce
  obtain fs1 r1 where a: "apply_commit (workspace_io root) cs fs = (fs1, r1)" by fastforce
  have "fs1 = fs'" using assms(1) Inr p a by (auto simp: process_patch_def split: sum.splits)
  with apply_commit_frame [OF a] assms(2) Inr p show ?thesis by auto
qed

text \<open>
  An update that moves a file onto itself, under any spelling of its path, loses it: the new
  contents are written and the file is then removed, without an error.
\<close>

theorem move_onto_itself_deletes:
  assumes "resolve_path root path = Inr fp" and "resolve_path root target = Inr fp" and "target \<noteq> []"
    and "c = \<lparr>fc_type = UPDATE, fc_old_content = Some old, fc_new_content = Some new, fc_move_path = Some target\<rparr>"
  shows "apply_commit (workspace_io root) [(path, c)] fs = (fs(fp := None), Inr ())"
  using assms by (cases target) (auto simp: apply_change_def workspace_io_def Let_def)

lemma resolve_plain: "\<forall>p \<in> set ps. p \<notin> {[], ''.'', ''..''} \<Longrightarrow> resolve_parts qs (ps @ rest) = resolve_parts (qs @ ps) rest"
  by (induction ps arbitrary: qs) auto

text \<open>
  The check that keeps paths inside the workspace compares strings, not parts of paths: from a
  workspace \<open>r/d\<close> the path \<open>../d-x/f\<close> is accepted and names the file \<open>r/d-x/f\<close> beside it.
\<close>

theorem sibling_directory_is_accepted:
  assumes "\<forall>p \<in> set (r @ [d]). p \<notin> {[], ''.'', ''..''}" and "CHR ''/'' \<notin> set d"
  shows "resolve_path (r @ [d]) (''../'' @ d @ ''-x/f'') = Inr (r @ [d @ ''-x'', ''f''])"
proof -
  have s: "split_on (CHR ''/'') (d @ ''-x/f'') = [d @ ''-x'', ''f'']"
  proof -
    have "CHR ''/'' \<notin> set (d @ ''-x'')" using assms(2) by simp
    from split_on_append_sep [OF this, of "''f''"] show ?thesis by simp
  qed
  have "split_on (CHR ''/'') (''../'' @ d @ ''-x/f'') = [''..'', d @ ''-x'', ''f'']"
    using s by simp
  moreover have "resolve_parts [] ((r @ [d]) @ [''..'', d @ ''-x'', ''f'']) = r @ [d @ ''-x'', ''f'']"
    using resolve_plain [OF assms(1), of "[]" "[''..'', d @ ''-x'', ''f'']"] by simp
  moreover have "path_str (r @ [d @ ''-x'', ''f'']) = path_str (r @ [d]) @ ''-x/f''"
    by (simp add: path_str_def)
  moreover have "\<not> starts_with ''/'' (''../'' @ d @ ''-x/f'')" by (simp add: starts_with_def)
  ultimately show ?thesis by (simp add: resolve_path_def Let_def del: append_assoc)
qed

section \<open>Witnesses\<close>

lemma patch_replaces_section_witness:
  "\<exists>commit. process_patch (workspace_io [''w''])
     (join_with newline (section_patch ''a'' [(Keep, ''x''), (Delete, ''y''), (Add, ''z''), (Keep, ''x'')]))
     [[''w'', ''a''] \<mapsto> join_with newline [''p'', ''x'', ''y'', ''x'', ''q'']]
   = ([[''w'', ''a''] \<mapsto> join_with newline [''p'', ''x'', ''z'', ''x'', ''q'']], Inr (''Done!'', 0, commit))"
proof -
  let ?h = "[(Keep, ''x''), (Delete, ''y''), (Add, ''z''), (Keep, ''x'')]"
  let ?f = "[[''w'', ''a''] \<mapsto> join_with newline [''p'', ''x'', ''y'', ''x'', ''q'']]"
  have p: "(''a''::string) \<noteq> []" "newline \<notin> set ''a''" "\<forall>l \<in> set ?h. newline \<notin> set (snd l)"
    "\<forall>l \<in> set ([''p''] @ [''q'']). newline \<notin> set l" "old_of ?h \<noteq> []"
    "\<forall>j < length [''p'']. take (length (old_of ?h)) (drop j ([''p''] @ old_of ?h @ [''q''])) \<noteq> old_of ?h"
    by (simp_all add: newline_def)
  have r: "resolve_path [''w''] ''a'' = Inr [''w'', ''a'']" by (simp add: resolve_path_def path_str_def starts_with_def)
  have io: "io_open (workspace_io [''w'']) ''a'' ?f = Inr (join_with newline ([''p''] @ old_of ?h @ [''q'']))"
    "io_write (workspace_io [''w'']) ''a'' (join_with newline ([''p''] @ new_of ?h @ [''q''])) ?f
      = Inr [[''w'', ''a''] \<mapsto> join_with newline [''p'', ''x'', ''z'', ''x'', ''q'']]"
    by (simp_all add: workspace_io_def r)
  from patch_replaces_section [OF p io] show ?thesis .
qed

lemma patch_touches_named_files_witness:
  "\<exists>fuzz cs. plan_patch (workspace_io [''w'']) (join_with newline [BEGIN_PATCH, ADD_FILE @ ''a'', ''+x'', END_PATCH]) Map.empty
     = Inr (fuzz, cs)"
proof -
  let ?t = "join_with newline [BEGIN_PATCH, ADD_FILE @ ''a'', ''+x'', END_PATCH]"
  have "fst (process_patch (workspace_io [''w'']) ?t Map.empty) [''w'', ''a''] = Some ''x''" by code_simp
  then have d: "fst (process_patch (workspace_io [''w'']) ?t Map.empty) [''w'', ''a''] \<noteq> Map.empty [''w'', ''a'']" by simp
  have "process_patch (workspace_io [''w'']) ?t Map.empty =
      (fst (process_patch (workspace_io [''w'']) ?t Map.empty), snd (process_patch (workspace_io [''w'']) ?t Map.empty))" by simp
  from patch_touches_named_files [OF this, of "[''w'', ''a'']"] d show ?thesis by blast
qed

lemma move_onto_itself_deletes_witness:
  "apply_commit (workspace_io [''w'']) [(''a'', \<lparr>fc_type = UPDATE, fc_old_content = Some ''x'',
     fc_new_content = Some ''y'', fc_move_path = Some ''./a''\<rparr>)] [[''w'', ''a''] \<mapsto> ''x''] = (Map.empty, Inr ())"
proof -
  have "resolve_path [''w''] ''a'' = Inr [''w'', ''a'']" "resolve_path [''w''] ''./a'' = Inr [''w'', ''a'']"
    by (simp_all add: resolve_path_def path_str_def starts_with_def)
  from move_onto_itself_deletes [OF this _ HOL.refl, of "''x''" "''y''" "[[''w'', ''a''] \<mapsto> ''x'']"] show ?thesis by simp
qed

lemma sibling_directory_is_accepted_witness:
  "resolve_path [''home'', ''work''] ''../work-x/f'' = Inr [''home'', ''work-x'', ''f'']"
  using sibling_directory_is_accepted [of "[''home'']" "''work''"] by simp

end
