(* ===== verification/Disk_Cache.thy ===== *)
theory Disk_Cache
  imports Prelude
begin

text \<open>
  The cache on disk of the file editor (\<open>tools/file_editor/utils/file_cache.py\<close>): one JSON file per
  key, named by the digest of the key, a running total of the sizes, and the eviction of the oldest
  files when a size limit is set. The directory is an association list from file names to files. The
  digest, the size of the JSON text and the clock are parameters. The lemmas show that the total is
  exact, that eviction ends without an error and how far it goes, and that without a limit the
  cache is a map; that contract is the locale \<open>value_cache\<close>.
\<close>

section \<open>The directory\<close>

record 'v cached_file =
  cd_key :: string
  cd_value :: 'v
  cd_size :: nat
  cd_time :: nat

record 'v disk_cache =
  dc_files :: "(string \<times> 'v cached_file) list"
  dc_limit :: "nat option"
  dc_current :: int
  dc_ticks :: nat        \<comment> \<open>how often the clock was read\<close>

record 'v disk_env =
  de_hash :: "string \<Rightarrow> string"         \<comment> \<open>the hexadecimal digest of a key\<close>
  de_size :: "string \<Rightarrow> 'v \<Rightarrow> nat"      \<comment> \<open>the length of the JSON text of a key and a value\<close>
  de_clock :: "nat \<Rightarrow> nat"               \<comment> \<open>the time at each reading of the clock\<close>

definition cache_path :: "'v disk_env \<Rightarrow> string \<Rightarrow> string" where
  "cache_path env key = de_hash env key @ ''.json''"

definition sum_sizes :: "(string \<times> 'v cached_file) list \<Rightarrow> int" where
  "sum_sizes files = sum_list (map (\<lambda>x. int (cd_size (snd x))) files)"

definition open_cache :: "(string \<times> 'v cached_file) list \<Rightarrow> nat option \<Rightarrow> 'v disk_cache" where
  "open_cache files limit =
     \<lparr>dc_files = files, dc_limit = limit, dc_current = sum_sizes files, dc_ticks = 0\<rparr>"

section \<open>Eviction\<close>

text \<open>\<open>min(..., key=os.path.getmtime)\<close>: the first of the oldest files; \<open>None\<close> when there is no file.\<close>

fun oldest :: "(string \<times> 'v cached_file) list \<Rightarrow> (string \<times> 'v cached_file) option" where
  "oldest [] = None"
| "oldest (x # xs) =
     (case oldest xs of
        None \<Rightarrow> Some x
      | Some y \<Rightarrow> Some (if cd_time (snd x) \<le> cd_time (snd y) then x else y))"

definition evict_oldest :: "string \<Rightarrow> 'v disk_cache \<Rightarrow> 'v disk_cache option" where
  "evict_oldest exclude c =
     (case oldest (filter (\<lambda>x. fst x \<noteq> exclude) (dc_files c)) of
        None \<Rightarrow> None
      | Some (n, f) \<Rightarrow>
          Some (c\<lparr>dc_current := dc_current c - int (cd_size f), dc_files := AList.delete n (dc_files c)\<rparr>))"

lemma oldest_member: "oldest xs = Some x \<Longrightarrow> x \<in> set xs"
  by (induction xs arbitrary: x) (auto split: option.splits if_splits)

lemma oldest_None_iff [simp]: "oldest xs = None \<longleftrightarrow> xs = []"
  by (cases xs) (auto split: option.splits)

lemma evict_oldest_shrinks:
  "evict_oldest exclude c = Some c' \<Longrightarrow> length (dc_files c') < length (dc_files c)"
  by (force simp: evict_oldest_def split: option.splits dest!: oldest_member intro!: length_delete_less)

function evict_for :: "string \<Rightarrow> int \<Rightarrow> nat \<Rightarrow> 'v disk_cache \<Rightarrow> 'v disk_cache option" where
  "evict_for exclude extra limit c =
     (if dc_current c + extra > int limit \<and> length (dc_files c) > 1
      then (case evict_oldest exclude c of
              None \<Rightarrow> None
            | Some c' \<Rightarrow> evict_for exclude extra limit c')
      else Some c)"
  by pat_completeness auto
termination
  by (relation "measure (\<lambda>(_, _, _, c). length (dc_files c))") (auto dest: evict_oldest_shrinks)

declare evict_for.simps [simp del]

section \<open>Operations\<close>

definition make_room :: "'v disk_env \<Rightarrow> string \<Rightarrow> nat \<Rightarrow> 'v disk_cache \<Rightarrow> 'v disk_cache option" where
  "make_room env key content_size c =
     (case dc_limit c of
        None \<Rightarrow> Some c
      | Some limit \<Rightarrow>
          (case map_of (dc_files c) (cache_path env key) of
             Some f \<Rightarrow>
               (let size_diff = int content_size - int (cd_size f)
                in if size_diff > 0 then evict_for (cache_path env key) size_diff limit c else Some c)
           | None \<Rightarrow> evict_for (cache_path env key) (int content_size) limit c))"

definition size_on_disk :: "string \<Rightarrow> 'v disk_cache \<Rightarrow> int" where
  "size_on_disk path c = (case map_of (dc_files c) path of Some f \<Rightarrow> int (cd_size f) | None \<Rightarrow> 0)"

definition write_entry :: "'v disk_env \<Rightarrow> string \<Rightarrow> 'v \<Rightarrow> 'v disk_cache \<Rightarrow> 'v disk_cache" where
  "write_entry env key v c =
     (let path = cache_path env key; n = de_size env key v
      in c\<lparr>dc_current := dc_current c - size_on_disk path c + int n,
           dc_files := AList.update path
             \<lparr>cd_key = key, cd_value = v, cd_size = n, cd_time = de_clock env (dc_ticks c)\<rparr> (dc_files c),
           dc_ticks := dc_ticks c + 1\<rparr>)"

text \<open>\<open>None\<close>: \<open>min\<close> of no files raised.\<close>

definition disk_set :: "'v disk_env \<Rightarrow> string \<Rightarrow> 'v \<Rightarrow> 'v disk_cache \<Rightarrow> 'v disk_cache option" where
  "disk_set env key v c = map_option (write_entry env key v) (make_room env key (de_size env key v) c)"

definition disk_get :: "'v disk_env \<Rightarrow> string \<Rightarrow> 'v disk_cache \<Rightarrow> 'v disk_cache \<times> 'v option" where
  "disk_get env key c =
     (case map_of (dc_files c) (cache_path env key) of
        None \<Rightarrow> (c, None)
      | Some f \<Rightarrow>
          (c\<lparr>dc_files := AList.update (cache_path env key) (f\<lparr>cd_time := de_clock env (dc_ticks c)\<rparr>) (dc_files c),
             dc_ticks := dc_ticks c + 1\<rparr>, Some (cd_value f)))"

definition disk_delete :: "'v disk_env \<Rightarrow> string \<Rightarrow> 'v disk_cache \<Rightarrow> 'v disk_cache" where
  "disk_delete env key c =
     (case map_of (dc_files c) (cache_path env key) of
        None \<Rightarrow> c
      | Some f \<Rightarrow> c\<lparr>dc_current := dc_current c - int (cd_size f),
                      dc_files := AList.delete (cache_path env key) (dc_files c)\<rparr>)"

definition disk_clear :: "'v disk_cache \<Rightarrow> 'v disk_cache" where
  "disk_clear c = c\<lparr>dc_files := [], dc_current := 0\<rparr>"

definition disk_contains :: "'v disk_env \<Rightarrow> string \<Rightarrow> 'v disk_cache \<Rightarrow> bool" where
  "disk_contains env key c \<longleftrightarrow> map_of (dc_files c) (cache_path env key) \<noteq> None"

definition disk_len :: "'v disk_cache \<Rightarrow> nat" where
  "disk_len c = length (dc_files c)"

definition disk_keys :: "'v disk_cache \<Rightarrow> string list" where
  "disk_keys c = map (cd_key \<circ> snd) (dc_files c)"

section \<open>The total is exact\<close>

definition disk_inv :: "'v disk_cache \<Rightarrow> bool" where
  "disk_inv c \<longleftrightarrow> distinct (map fst (dc_files c)) \<and> dc_current c = sum_sizes (dc_files c)"

lemma sum_sizes_simps [simp]:
  "sum_sizes [] = 0"
  "sum_sizes (x # xs) = int (cd_size (snd x)) + sum_sizes xs"
  by (simp_all add: sum_sizes_def)

lemma sum_sizes_delete:
  "distinct (map fst xs) \<Longrightarrow> map_of xs k = Some f \<Longrightarrow>
     sum_sizes (AList.delete k xs) = sum_sizes xs - int (cd_size f)"
proof (induction xs)
  case (Cons x xs)
  show ?case
  proof (cases "fst x = k")
    case True
    then have "AList.delete k xs = xs" using Cons.prems(1) by (intro delete_id) auto
    with True Cons.prems show ?thesis by (cases x) simp
  next
    case False
    with Cons show ?thesis by (cases x) simp
  qed
qed simp

lemma sum_sizes_update:
  "distinct (map fst xs) \<Longrightarrow>
     sum_sizes (AList.update k f xs) =
       sum_sizes xs - (case map_of xs k of Some g \<Rightarrow> int (cd_size g) | None \<Rightarrow> 0) + int (cd_size f)"
  by (induction xs) auto

lemma evict_oldest_inv:
  assumes "disk_inv c" and "evict_oldest exclude c = Some c'"
  shows "disk_inv c'"
proof -
  obtain n f where nf: "oldest (filter (\<lambda>x. fst x \<noteq> exclude) (dc_files c)) = Some (n, f)"
    and c': "c' = c\<lparr>dc_current := dc_current c - int (cd_size f), dc_files := AList.delete n (dc_files c)\<rparr>"
    using assms(2) by (auto simp: evict_oldest_def split: option.splits)
  have "(n, f) \<in> set (dc_files c)" using oldest_member [OF nf] by simp
  then have "map_of (dc_files c) n = Some f"
    using assms(1) by (simp add: disk_inv_def map_of_is_SomeI)
  then show ?thesis
    using assms(1) by (simp add: c' disk_inv_def sum_sizes_delete distinct_delete)
qed

lemma evict_oldest_possible:
  assumes "distinct (map fst (dc_files c))" and "length (dc_files c) > 1"
  shows "evict_oldest exclude c \<noteq> None"
proof -
  obtain x y zs where xs: "dc_files c = x # y # zs"
    using assms(2) by (cases "dc_files c"; cases "tl (dc_files c)") auto
  then have "filter (\<lambda>x. fst x \<noteq> exclude) (dc_files c) \<noteq> []"
    using assms(1) by auto
  then show ?thesis by (auto simp: evict_oldest_def split: option.splits)
qed

lemma evict_oldest_keeps:
  "evict_oldest exclude c = Some c' \<Longrightarrow> map_of (dc_files c') exclude = map_of (dc_files c) exclude"
  "evict_oldest exclude c = Some c' \<Longrightarrow> dc_limit c' = dc_limit c"
  by (auto simp: evict_oldest_def delete_conv' split: option.splits dest!: oldest_member)

lemma evict_for_spec:
  assumes "disk_inv c"
  shows "\<exists>c'. evict_for exclude extra limit c = Some c' \<and> disk_inv c' \<and>
           map_of (dc_files c') exclude = map_of (dc_files c) exclude \<and> dc_limit c' = dc_limit c \<and>
           (dc_current c' + extra \<le> int limit \<or> length (dc_files c') \<le> 1)"
  using assms
proof (induction exclude extra limit c rule: evict_for.induct)
  case (1 exclude extra limit c)
  show ?case
  proof (cases "dc_current c + extra > int limit \<and> length (dc_files c) > 1")
    case True
    then obtain c1 where c1: "evict_oldest exclude c = Some c1"
      using evict_oldest_possible [of c exclude] 1(2) by (auto simp: disk_inv_def)
    show ?thesis
      using 1(1) [OF True c1 evict_oldest_inv [OF 1(2) c1]] True
      by (subst evict_for.simps) (simp add: c1 evict_oldest_keeps [OF c1])
  next
    case False
    then show ?thesis using 1(2) by (subst evict_for.simps) auto
  qed
qed

lemma make_room_spec:
  assumes "disk_inv c"
  obtains c' where "make_room env key n c = Some c'" and "disk_inv c'"
    and "map_of (dc_files c') (cache_path env key) = map_of (dc_files c) (cache_path env key)"
    and "dc_limit c' = dc_limit c"
proof -
  let ?p = "cache_path env key"
  have "make_room env key n c = Some c \<or> (\<exists>e l. make_room env key n c = evict_for ?p e l c)"
    by (auto simp: make_room_def Let_def split: option.splits)
  then show thesis
    using evict_for_spec [OF assms] that assms by (metis option.inject)
qed

lemma write_entry_inv: "disk_inv c \<Longrightarrow> disk_inv (write_entry env key v c)"
  by (auto simp: disk_inv_def write_entry_def Let_def sum_sizes_update distinct_update size_on_disk_def)

lemma disk_set_inv:
  assumes "disk_inv c"
  obtains c' where "disk_set env key v c = Some c'" and "disk_inv c'"
  using make_room_spec [OF assms, of env key "de_size env key v"]
  by (metis disk_set_def option.map(2) write_entry_inv)

lemma disk_get_inv: "disk_inv c \<Longrightarrow> disk_inv (fst (disk_get env key c))"
  by (auto simp: disk_inv_def disk_get_def sum_sizes_update distinct_update split: option.splits)

lemma disk_delete_inv: "disk_inv c \<Longrightarrow> disk_inv (disk_delete env key c)"
  by (auto simp: disk_inv_def disk_delete_def sum_sizes_delete distinct_delete split: option.splits)

lemma disk_clear_inv: "disk_inv (disk_clear c)"
  by (simp add: disk_inv_def disk_clear_def)

section \<open>The size limit\<close>

text \<open>
  After a write the total is within the limit, or at most one other file is left; a cache that was
  already above it shrinks only when the new text is longer than the one it replaces.
\<close>

lemma write_entry_size:
  assumes "disk_inv c"
  shows "dc_current (write_entry env key v c) =
           dc_current c + int (de_size env key v) - size_on_disk (cache_path env key) c"
    and "length (dc_files (write_entry env key v c)) =
           length (dc_files c) + (if disk_contains env key c then 0 else 1)"
  by (auto simp: write_entry_def Let_def length_update disk_contains_def map_of_eq_None_iff)

lemma disk_set_limit:
  assumes "disk_inv c" and "dc_limit c = Some l" and "dc_current c \<le> int l"
    and "disk_set env key v c = Some c'"
  shows "dc_current c' \<le> int l \<or> length (dc_files c') \<le> 2"
proof -
  let ?p = "cache_path env key" and ?n = "de_size env key v"
  obtain c1 where c1: "make_room env key ?n c = Some c1" and c': "c' = write_entry env key v c1"
    using assms(4) by (auto simp: disk_set_def)
  obtain c2 where c2: "make_room env key ?n c = Some c2" "disk_inv c2"
      "map_of (dc_files c2) ?p = map_of (dc_files c) ?p"
    using make_room_spec [OF assms(1)] by metis
  have inv1: "disk_inv c1" and same: "map_of (dc_files c1) ?p = map_of (dc_files c) ?p"
    using c1 c2 by simp_all
  have "dc_current c1 + int ?n - size_on_disk ?p c1 \<le> int l \<or> length (dc_files c1) \<le> 1"
  proof (cases "map_of (dc_files c) ?p")
    case None
    then have "evict_for ?p (int ?n) l c = Some c1"
      using c1 assms(2) by (simp add: make_room_def)
    with evict_for_spec [OF assms(1), of ?p "int ?n" l] show ?thesis
      using None same by (auto simp: size_on_disk_def)
  next
    case (Some f)
    show ?thesis
    proof (cases "int (cd_size f) < int ?n")
      case True
      then have "evict_for ?p (int ?n - int (cd_size f)) l c = Some c1"
        using c1 assms(2) Some by (simp add: make_room_def Let_def)
      with evict_for_spec [OF assms(1), of ?p "int ?n - int (cd_size f)" l] show ?thesis
        using Some same by (auto simp: size_on_disk_def)
    next
      case False
      then have "c1 = c" using c1 assms(2) Some by (simp add: make_room_def Let_def)
      with False Some assms(3) show ?thesis by (simp add: size_on_disk_def)
    qed
  qed
  then show ?thesis
    using write_entry_size [OF inv1, of env key v] by (auto simp: c' split: if_splits)
qed

section \<open>The contract of a cache\<close>

text \<open>
  What the history manager uses: a map from keys to values whose writes succeed.
\<close>

record ('s, 'v) cache_ops =
  co_set :: "string \<Rightarrow> 'v \<Rightarrow> 's \<Rightarrow> 's option"
  co_get :: "string \<Rightarrow> 's \<Rightarrow> 's \<times> 'v option"
  co_delete :: "string \<Rightarrow> 's \<Rightarrow> 's"

locale value_cache =
  fixes ops :: "('s, 'v) cache_ops" and entries :: "'s \<Rightarrow> (string \<rightharpoonup> 'v)" and ok :: "'s \<Rightarrow> bool"
  assumes set_law: "ok s \<Longrightarrow> \<exists>s'. co_set ops k v s = Some s' \<and> ok s' \<and> entries s' = (entries s)(k \<mapsto> v)"
    and get_law: "ok s \<Longrightarrow> \<exists>s'. co_get ops k s = (s', entries s k) \<and> ok s' \<and> entries s' = entries s"
    and delete_law: "ok s \<Longrightarrow> ok (co_delete ops k s) \<and> entries (co_delete ops k s) = (entries s)(k := None)"
begin

lemma delete_ok [simp]: "ok s \<Longrightarrow> ok (co_delete ops k s)"
  using delete_law by blast

lemma delete_entries [simp]: "ok s \<Longrightarrow> entries (co_delete ops k s) = (entries s)(k := None)"
  using delete_law by blast

lemma set_then_get:
  assumes "ok s" and "co_set ops k v s = Some s'"
  shows "snd (co_get ops k s') = Some v"
proof -
  have "ok s'" and "entries s' = (entries s)(k \<mapsto> v)"
    using set_law [OF assms(1), of k v] assms(2) by auto
  then show ?thesis using get_law [of s' k] by auto
qed

lemma deletes: "ok s \<Longrightarrow> ok (fold (co_delete ops) ks s) \<and> entries (fold (co_delete ops) ks s) = entries s |` (- set ks)"
proof (induction ks arbitrary: s)
  case (Cons k ks)
  then show ?case by (auto simp: restrict_map_def fun_eq_iff)
qed (simp add: restrict_map_def)

end

definition disk_ops :: "'v disk_env \<Rightarrow> ('v disk_cache, 'v) cache_ops" where
  "disk_ops env = \<lparr>co_set = disk_set env, co_get = disk_get env, co_delete = disk_delete env\<rparr>"

definition disk_entries :: "'v disk_env \<Rightarrow> 'v disk_cache \<Rightarrow> (string \<rightharpoonup> 'v)" where
  "disk_entries env c = (\<lambda>key. map_option cd_value (map_of (dc_files c) (cache_path env key)))"

text \<open>A cache without a size limit, whose digests do not collide.\<close>

definition disk_ok :: "'v disk_env \<Rightarrow> 'v disk_cache \<Rightarrow> bool" where
  "disk_ok env c \<longleftrightarrow> inj (de_hash env) \<and> dc_limit c = None \<and> disk_inv c"

lemma cache_path_inject [simp]: "inj (de_hash env) \<Longrightarrow> cache_path env k = cache_path env k' \<longleftrightarrow> k = k'"
  by (simp add: cache_path_def inj_eq)

interpretation dvc: value_cache "disk_ops env" "disk_entries env" "disk_ok env"
proof unfold_locales
  fix s :: "'a disk_cache" and k v
  assume ok: "disk_ok env s"
  then have "disk_set env k v s = Some (write_entry env k v s)"
    by (simp add: disk_ok_def disk_set_def make_room_def)
  moreover have "disk_ok env (write_entry env k v s)"
    using ok write_entry_inv [of s env k v] by (simp add: disk_ok_def) (simp add: write_entry_def Let_def)
  moreover have "disk_entries env (write_entry env k v s) = (disk_entries env s)(k \<mapsto> v)"
    using ok by (auto simp: disk_entries_def write_entry_def Let_def fun_eq_iff update_conv' disk_ok_def)
  ultimately show "\<exists>s'. co_set (disk_ops env) k v s = Some s' \<and> disk_ok env s' \<and>
      disk_entries env s' = (disk_entries env s)(k \<mapsto> v)"
    by (simp add: disk_ops_def)
  have "disk_ok env (fst (disk_get env k s))"
    using ok disk_get_inv [of s env k] by (simp add: disk_ok_def) (simp add: disk_get_def split: option.split)
  moreover have "disk_entries env (fst (disk_get env k s)) = disk_entries env s"
    using ok by (auto simp: disk_entries_def disk_get_def fun_eq_iff update_conv' disk_ok_def split: option.split)
  moreover have "snd (disk_get env k s) = disk_entries env s k"
    by (auto simp: disk_entries_def disk_get_def split: option.split)
  ultimately show "\<exists>s'. co_get (disk_ops env) k s = (s', disk_entries env s k) \<and> disk_ok env s' \<and>
      disk_entries env s' = disk_entries env s"
    by (metis cache_ops.select_convs(2) disk_ops_def prod.collapse)
  have "disk_ok env (disk_delete env k s)"
    using ok disk_delete_inv [of s env k] by (simp add: disk_ok_def) (simp add: disk_delete_def split: option.split)
  moreover have "disk_entries env (disk_delete env k s) = (disk_entries env s)(k := None)"
    using ok by (auto simp: disk_entries_def disk_delete_def fun_eq_iff delete_conv' disk_ok_def split: option.split)
  ultimately show "disk_ok env (co_delete (disk_ops env) k s) \<and>
      disk_entries env (co_delete (disk_ops env) k s) = (disk_entries env s)(k := None)"
    by (simp add: disk_ops_def)
qed

end
