(* ===== verification/Edit_History.thy ===== *)
theory Edit_History
  imports Disk_Cache
begin

text \<open>
  The history of the file editor (\<open>tools/file_editor/utils/history.py\<close>): for every file a list of
  entry numbers and a counter under one key of the cache, and one key per entry. The cache is an
  argument of the operations, used through its three calls. The lemmas, proved from the contract
  \<open>value_cache\<close>, show that the histories are bounded stacks that do not influence each other; that is
  the contract \<open>edit_stack\<close> on which the editor relies.
\<close>

section \<open>Keys and values\<close>

datatype hist_value = Meta "nat list" nat | Text string

datatype cache_error = Value_Error | Type_Error

definition metadata_key :: "string \<Rightarrow> string" where
  "metadata_key file_path = file_path @ ''.metadata''"

definition history_key :: "string \<Rightarrow> nat \<Rightarrow> string" where
  "history_key file_path counter = file_path @ ''.'' @ show_nat counter"

section \<open>Operations\<close>

text \<open>The subscripts \<open>metadata["entries"]\<close> raise on a text, which no key of the metadata holds.\<close>

definition metadata_of ::
    "('s, hist_value) cache_ops \<Rightarrow> string \<Rightarrow> 's \<Rightarrow> (cache_error, 's \<times> nat list \<times> nat) result" where
  "metadata_of ops file_path s =
     (case co_get ops (metadata_key file_path) s of
        (s1, None) \<Rightarrow> Inr (s1, [], 0)
      | (s1, Some (Meta entries counter)) \<Rightarrow> Inr (s1, entries, counter)
      | (s1, Some (Text t)) \<Rightarrow> Inl Type_Error)"

definition cache_set ::
    "('s, hist_value) cache_ops \<Rightarrow> string \<Rightarrow> hist_value \<Rightarrow> 's \<Rightarrow> (cache_error, 's) result" where
  "cache_set ops key v s = (case co_set ops key v s of None \<Rightarrow> Inl Value_Error | Some s1 \<Rightarrow> Inr s1)"

fun trim_entries ::
    "('s, hist_value) cache_ops \<Rightarrow> nat \<Rightarrow> string \<Rightarrow> nat list \<Rightarrow> 's \<Rightarrow> nat list \<times> 's" where
  "trim_entries ops max_history file_path [] s = ([], s)"
| "trim_entries ops max_history file_path (e # es) s =
     (if length (e # es) > max_history
      then trim_entries ops max_history file_path es (co_delete ops (history_key file_path e) s)
      else (e # es, s))"

definition add_history ::
    "('s, hist_value) cache_ops \<Rightarrow> nat \<Rightarrow> string \<Rightarrow> string \<Rightarrow> 's \<Rightarrow> (cache_error, 's) result" where
  "add_history ops max_history file_path content s =
     bind_res (metadata_of ops file_path s) (\<lambda>(s1, entries, counter).
     bind_res (cache_set ops (history_key file_path counter) (Text content) s1) (\<lambda>s2.
       let (entries', s3) = trim_entries ops max_history file_path (entries @ [counter]) s2
       in cache_set ops (metadata_key file_path) (Meta entries' (counter + 1)) s3))"

definition pop_last_history ::
    "('s, hist_value) cache_ops \<Rightarrow> string \<Rightarrow> 's \<Rightarrow> (cache_error, 's \<times> hist_value option) result" where
  "pop_last_history ops file_path s =
     bind_res (metadata_of ops file_path s) (\<lambda>(s1, entries, counter).
       if entries = [] then Inr (s1, None)
       else
         let key = history_key file_path (last entries);
             (s2, content) = co_get ops key s1;
             s3 = (if content = None then s2 else co_delete ops key s2)
         in bind_res (cache_set ops (metadata_key file_path) (Meta (butlast entries) counter) s3)
              (\<lambda>s4. Inr (s4, content)))"

definition clear_history ::
    "('s, hist_value) cache_ops \<Rightarrow> string \<Rightarrow> 's \<Rightarrow> (cache_error, 's) result" where
  "clear_history ops file_path s =
     bind_res (metadata_of ops file_path s) (\<lambda>(s1, entries, counter).
       cache_set ops (metadata_key file_path) (Meta [] 0)
         (fold (\<lambda>c. co_delete ops (history_key file_path c)) entries s1))"

fun collect_entries ::
    "('s, hist_value) cache_ops \<Rightarrow> string \<Rightarrow> nat list \<Rightarrow> 's \<Rightarrow> 's \<times> hist_value list" where
  "collect_entries ops file_path [] s = (s, [])"
| "collect_entries ops file_path (c # cs) s =
     (let (s1, content) = co_get ops (history_key file_path c) s;
          (s2, rest) = collect_entries ops file_path cs s1
      in (s2, case content of None \<Rightarrow> rest | Some v \<Rightarrow> v # rest))"

definition get_all_history ::
    "('s, hist_value) cache_ops \<Rightarrow> string \<Rightarrow> 's \<Rightarrow> (cache_error, 's \<times> hist_value list) result" where
  "get_all_history ops file_path s =
     bind_res (metadata_of ops file_path s) (\<lambda>(s1, entries, counter).
       Inr (collect_entries ops file_path entries s1))"

section \<open>Keys do not collide\<close>

lemma no_dot_in_numeral: "CHR ''.'' \<notin> set (show_nat n)"
  using show_nat_digits [of "CHR ''.''" n] by (auto simp: is_digit_def)

lemma last_dot_unique:
  assumes "a @ CHR ''.'' # x = b @ CHR ''.'' # y" and "CHR ''.'' \<notin> set x" and "CHR ''.'' \<notin> set y"
  shows "a = b \<and> x = y"
proof -
  have "rev x @ CHR ''.'' # rev a = rev y @ CHR ''.'' # rev b"
    using arg_cong [OF assms(1), of rev] by simp
  moreover have "takeWhile (\<lambda>c. c \<noteq> CHR ''.'') (rev x @ CHR ''.'' # rev a) = rev x"
    and "takeWhile (\<lambda>c. c \<noteq> CHR ''.'') (rev y @ CHR ''.'' # rev b) = rev y"
    using assms(2,3) by (auto simp: takeWhile_append)
  ultimately have "rev x = rev y" by metis
  then show ?thesis using assms(1) by simp
qed

lemma history_key_inject [simp]: "history_key p n = history_key q m \<longleftrightarrow> p = q \<and> n = m"
  using last_dot_unique [of p "show_nat n" q "show_nat m"]
  by (auto simp: history_key_def no_dot_in_numeral)

lemma metadata_key_inject [simp]: "metadata_key p = metadata_key q \<longleftrightarrow> p = q"
  by (simp add: metadata_key_def)

lemma metadata_not_history [simp]: "metadata_key p \<noteq> history_key q n" "history_key q n \<noteq> metadata_key p"
proof -
  show "metadata_key p \<noteq> history_key q n"
  proof
    assume "metadata_key p = history_key q n"
    then have "''metadata'' = show_nat n"
      using last_dot_unique [of p "''metadata''" q "show_nat n"]
      by (simp add: metadata_key_def history_key_def no_dot_in_numeral)
    then have "CHR ''m'' \<in> set (show_nat n)" by (metis list.set_intros(1))
    then show False using show_nat_digits [of "CHR ''m''" n] by (auto simp: is_digit_def)
  qed
  then show "history_key q n \<noteq> metadata_key p" by metis
qed

section \<open>Histories as stacks\<close>

definition last_n :: "nat \<Rightarrow> 'a list \<Rightarrow> 'a list" where
  "last_n n xs = drop (length xs - n) xs"

definition entries_of :: "(string \<rightharpoonup> hist_value) \<Rightarrow> string \<Rightarrow> nat list" where
  "entries_of m p = (case m (metadata_key p) of Some (Meta es n) \<Rightarrow> es | _ \<Rightarrow> [])"

definition text_at :: "(string \<rightharpoonup> hist_value) \<Rightarrow> string \<Rightarrow> nat \<Rightarrow> string" where
  "text_at m p n = (case m (history_key p n) of Some (Text t) \<Rightarrow> t | _ \<Rightarrow> [])"

definition stack_of :: "(string \<rightharpoonup> hist_value) \<Rightarrow> string \<Rightarrow> string list" where
  "stack_of m p = map (text_at m p) (entries_of m p)"

definition history_wf :: "nat \<Rightarrow> (string \<rightharpoonup> hist_value) \<Rightarrow> string \<Rightarrow> bool" where
  "history_wf max_history m p \<longleftrightarrow>
     (case m (metadata_key p) of
        None \<Rightarrow> True
      | Some (Text t) \<Rightarrow> False
      | Some (Meta es n) \<Rightarrow>
          length es \<le> max_history \<and> sorted_wrt (<) (es @ [n]) \<and>
          (\<forall>e \<in> set es. \<exists>t. m (history_key p e) = Some (Text t)))"

definition histories_wf :: "nat \<Rightarrow> (string \<rightharpoonup> hist_value) \<Rightarrow> bool" where
  "histories_wf max_history m \<longleftrightarrow> (\<forall>p. history_wf max_history m p)"

text \<open>What an operation on one file leaves of the map: every other file's keys.\<close>

definition other_files_kept :: "string \<Rightarrow> (string \<rightharpoonup> hist_value) \<Rightarrow> (string \<rightharpoonup> hist_value) \<Rightarrow> bool" where
  "other_files_kept p m m' \<longleftrightarrow>
     (\<forall>q. q \<noteq> p \<longrightarrow> m' (metadata_key q) = m (metadata_key q) \<and> (\<forall>n. m' (history_key q n) = m (history_key q n)))"

lemma other_files_keptD:
  assumes "other_files_kept p m m'" and "q \<noteq> p"
  shows "stack_of m' q = stack_of m q" and "history_wf mh m' q = history_wf mh m q"
  using assms
  by (auto simp: other_files_kept_def stack_of_def entries_of_def text_at_def history_wf_def
      split: option.splits hist_value.splits)

lemma histories_wf_step:
  "histories_wf mh m \<Longrightarrow> other_files_kept p m m' \<Longrightarrow> history_wf mh m' p \<Longrightarrow> histories_wf mh m'"
  unfolding histories_wf_def by (metis other_files_keptD(2))

lemma stacks_step:
  "other_files_kept p m m' \<Longrightarrow> stack_of m' p = xs \<Longrightarrow> stack_of m' = (stack_of m)(p := xs)"
  using other_files_keptD(1) by fastforce

lemma last_n_map: "last_n n (map f xs) = map f (last_n n xs)"
  by (simp add: last_n_def drop_map)

lemma length_last_n [simp]: "length (last_n n xs) = min n (length xs)"
  by (simp add: last_n_def)

lemma set_last_n: "set (last_n n xs) \<subseteq> set xs"
  by (simp add: last_n_def set_drop_subset)

lemma sorted_last_n:
  assumes "sorted_wrt (<) (xs @ [n::nat])"
  shows "sorted_wrt (<) (last_n k (xs @ [n]) @ [n + 1])"
proof -
  have "x < n + 1" if "x \<in> set (xs @ [n])" for x
    using assms that by (auto simp: sorted_wrt_append)
  moreover have "sorted_wrt (<) (last_n k (xs @ [n]))"
    unfolding last_n_def by (rule sorted_wrt_drop [OF assms])
  ultimately show ?thesis
    using set_last_n [of k "xs @ [n]"] by (auto simp: sorted_wrt_append)
qed

section \<open>The operations on the stacks\<close>

locale history_cache = value_cache ops entries ok
  for ops :: "('s, hist_value) cache_ops" and entries :: "'s \<Rightarrow> (string \<rightharpoonup> hist_value)"
    and ok :: "'s \<Rightarrow> bool" +
  fixes max_history :: nat
begin

lemma cache_set_spec:
  assumes "ok s"
  obtains s' where "cache_set ops k v s = Inr s'" and "ok s'" and "entries s' = (entries s)(k \<mapsto> v)"
  using set_law [OF assms, of k v] by (auto simp: cache_set_def)

lemma metadata_of_spec:
  assumes "ok s" and "history_wf max_history (entries s) p"
  obtains s' es n where "metadata_of ops p s = Inr (s', es, n)" and "ok s'" and "entries s' = entries s"
    and "es = entries_of (entries s) p" and "length es \<le> max_history" and "sorted_wrt (<) (es @ [n])"
    and "\<forall>e \<in> set es. \<exists>t. entries s (history_key p e) = Some (Text t)"
proof -
  obtain s' where s': "co_get ops (metadata_key p) s = (s', entries s (metadata_key p))" "ok s'"
      "entries s' = entries s"
    using get_law [OF assms(1)] by blast
  show thesis
  proof (cases "entries s (metadata_key p)")
    case None
    with s' show thesis by (intro that [of s' "[]" 0]) (auto simp: metadata_of_def entries_of_def)
  next
    case (Some v)
    then obtain es n where "v = Meta es n"
      using assms(2) by (cases v) (auto simp: history_wf_def)
    with Some s' assms(2) show thesis
      by (intro that [of s' es n]) (auto simp: metadata_of_def entries_of_def history_wf_def)
  qed
qed

lemma trim_entries_spec:
  "ok s \<Longrightarrow> \<exists>s'. trim_entries ops max_history p es s = (last_n max_history es, s') \<and> ok s' \<and>
     entries s' = entries s |` (- history_key p ` set (take (length es - max_history) es))"
proof (induction es arbitrary: s)
  case (Cons e es)
  show ?case
  proof (cases "length (e # es) > max_history")
    case True
    let ?s = "co_delete ops (history_key p e) s"
    let ?gone = "history_key p ` set (take (length es - max_history) es)"
    have n: "length (e # es) - max_history = Suc (length es - max_history)" using True by simp
    have "ok ?s" using Cons.prems by simp
    from Cons.IH [OF this] obtain s' where
      s': "trim_entries ops max_history p es ?s = (last_n max_history es, s')" "ok s'"
        "entries s' = entries ?s |` (- ?gone)" by blast
    have "entries ?s |` (- ?gone) = entries s |` (- insert (history_key p e) ?gone)"
      using Cons.prems by (auto simp: restrict_map_def)
    with s' True show ?thesis by (intro exI [of _ s']) (simp add: n, simp add: last_n_def Suc_diff_le)
  next
    case False
    then show ?thesis using Cons.prems by (intro exI [of _ s]) (auto simp: last_n_def restrict_map_def)
  qed
qed (simp add: last_n_def restrict_map_def)

lemma add_history_spec:
  assumes "ok s" and "histories_wf max_history (entries s)"
  obtains s' where "add_history ops max_history p c s = Inr s'" and "ok s'"
    and "histories_wf max_history (entries s')"
    and "stack_of (entries s') = (stack_of (entries s))(p := last_n max_history (stack_of (entries s) p @ [c]))"
proof -
  have wf: "history_wf max_history (entries s) p" using assms(2) by (simp add: histories_wf_def)
  obtain s1 es n where s1: "metadata_of ops p s = Inr (s1, es, n)" "ok s1" "entries s1 = entries s"
      "es = entries_of (entries s) p" "length es \<le> max_history" "sorted_wrt (<) (es @ [n])"
      "\<forall>e \<in> set es. \<exists>t. entries s (history_key p e) = Some (Text t)"
    by (rule metadata_of_spec [OF assms(1) wf])
  obtain s2 where s2: "cache_set ops (history_key p n) (Text c) s1 = Inr s2" "ok s2"
      "entries s2 = (entries s)(history_key p n \<mapsto> Text c)"
    using cache_set_spec [OF s1(2)] s1(3) by metis
  let ?all = "es @ [n]" and ?es = "last_n max_history (es @ [n])"
  obtain s3 where s3: "trim_entries ops max_history p ?all s2 = (?es, s3)" "ok s3"
      "entries s3 = entries s2 |` (- history_key p ` set (take (length ?all - max_history) ?all))"
    using trim_entries_spec [OF s2(2)] by blast
  obtain s4 where s4: "cache_set ops (metadata_key p) (Meta ?es (n + 1)) s3 = Inr s4" "ok s4"
      "entries s4 = (entries s3)(metadata_key p \<mapsto> Meta ?es (n + 1))"
    using cache_set_spec [OF s3(2)] by metis
  have dist: "distinct ?all" using s1(6) by (metis strict_sorted_iff)
  have kept: "entries s4 (history_key p e) = entries s2 (history_key p e)" if "e \<in> set ?es" for e
    using that dist set_take_disj_set_drop_if_distinct [OF dist, of "length ?all - max_history" "length ?all - max_history"]
    by (auto simp: s4(3) s3(3) last_n_def restrict_map_def)
  have other: "other_files_kept p (entries s) (entries s4)"
    by (auto simp: other_files_kept_def s4(3) s3(3) s2(3) restrict_map_def)
  have wf4: "history_wf max_history (entries s4) p"
  proof -
    have "sorted_wrt (<) (?es @ [n + 1])"
      by (rule sorted_last_n [OF s1(6)])
    moreover have "\<exists>t. entries s4 (history_key p e) = Some (Text t)" if "e \<in> set ?es" for e
      using kept [OF that] set_last_n [of max_history ?all] that s1(7) by (auto simp: s2(3))
    ultimately show ?thesis by (simp add: history_wf_def s4(3))
  qed
  have "stack_of (entries s4) p = map (text_at (entries s2) p) ?es"
    using kept by (auto simp: stack_of_def entries_of_def s4(3) text_at_def s3(3) restrict_map_def)
  also have "\<dots> = last_n max_history (map (text_at (entries s2) p) ?all)"
    by (simp only: last_n_map)
  also have "map (text_at (entries s2) p) ?all = stack_of (entries s) p @ [c]"
    using dist by (auto simp: stack_of_def s1(4) [symmetric] text_at_def s2(3))
  finally have st: "stack_of (entries s4) p = last_n max_history (stack_of (entries s) p @ [c])" .
  show thesis
    using s1(1) s2(1) s3(1) s4(1,2)
    by (intro that [of s4] histories_wf_step [OF assms(2) other wf4] stacks_step [OF other st])
      (simp_all add: add_history_def)
qed

lemma pop_last_history_spec:
  fixes p
  assumes "ok s" and "histories_wf max_history (entries s)"
  defines "st \<equiv> stack_of (entries s) p"
  obtains s' where "pop_last_history ops p s = Inr (s', if st = [] then None else Some (Text (last st)))"
    and "ok s'" and "histories_wf max_history (entries s')"
    and "stack_of (entries s') = (stack_of (entries s))(p := butlast st)"
proof -
  have wf: "history_wf max_history (entries s) p" using assms(2) by (simp add: histories_wf_def)
  obtain s1 es n where s1: "metadata_of ops p s = Inr (s1, es, n)" "ok s1" "entries s1 = entries s"
      "es = entries_of (entries s) p" "length es \<le> max_history" "sorted_wrt (<) (es @ [n])"
      "\<forall>e \<in> set es. \<exists>t. entries s (history_key p e) = Some (Text t)"
    by (rule metadata_of_spec [OF assms(1) wf])
  have st: "st = map (text_at (entries s) p) es" by (simp add: st_def stack_of_def s1(4))
  show thesis
  proof (cases "es = []")
    case True
    with s1 assms(2) st show thesis
      by (intro that [of s1]) (auto simp: pop_last_history_def st_def [symmetric])
  next
    case False
    let ?key = "history_key p (last es)"
    obtain s2 where s2: "co_get ops ?key s1 = (s2, entries s ?key)" "ok s2" "entries s2 = entries s"
      using get_law [OF s1(2), of ?key] s1(3) by metis
    obtain t where t: "entries s ?key = Some (Text t)" using s1(7) False by (meson last_in_set)
    obtain s4 where s4: "cache_set ops (metadata_key p) (Meta (butlast es) n) (co_delete ops ?key s2) = Inr s4"
        "ok s4" "entries s4 = ((entries s)(?key := None))(metadata_key p \<mapsto> Meta (butlast es) n)"
      using cache_set_spec [of "co_delete ops ?key s2"] s2 by (metis delete_entries delete_ok)
    have es: "es = butlast es @ [last es]" using False by simp
    have srt: "sorted_wrt (<) (butlast es @ [last es] @ [n])" using s1(6) es by (metis append_assoc)
    then have lt: "e < last es" if "e \<in> set (butlast es)" for e
      using that by (auto simp: sorted_wrt_append)
    have other: "other_files_kept p (entries s) (entries s4)"
      by (auto simp: other_files_kept_def s4(3))
    have wf4: "history_wf max_history (entries s4) p"
      using srt s1(5,7) lt by (auto simp: history_wf_def s4(3) sorted_wrt_append dest: in_set_butlastD)
    have "stack_of (entries s4) p = map (text_at (entries s) p) (butlast es)"
      using lt by (auto simp: stack_of_def entries_of_def s4(3) text_at_def)
    then have st4: "stack_of (entries s4) p = butlast st" by (simp add: st map_butlast)
    have "last st = t" using False t by (simp add: st last_map text_at_def)
    then have "pop_last_history ops p s = Inr (s4, if st = [] then None else Some (Text (last st)))"
      using s1(1) s2(1) s4(1) t False st by (simp add: pop_last_history_def)
    then show thesis
      by (intro that [of s4] histories_wf_step [OF assms(2) other wf4] stacks_step [OF other st4] s4(2))
  qed
qed

lemma clear_history_spec:
  assumes "ok s" and "histories_wf max_history (entries s)"
  obtains s' where "clear_history ops p s = Inr s'" and "ok s'" and "histories_wf max_history (entries s')"
    and "stack_of (entries s') = (stack_of (entries s))(p := [])"
proof -
  have wf: "history_wf max_history (entries s) p" using assms(2) by (simp add: histories_wf_def)
  obtain s1 es n where s1: "metadata_of ops p s = Inr (s1, es, n)" "ok s1" "entries s1 = entries s"
    by (rule metadata_of_spec [OF assms(1) wf])
  let ?s2 = "fold (\<lambda>c. co_delete ops (history_key p c)) es s1"
  have f: "?s2 = fold (co_delete ops) (map (history_key p) es) s1" by (simp add: fold_map comp_def)
  have s2: "ok ?s2" "entries ?s2 = entries s |` (- history_key p ` set es)"
    using deletes [OF s1(2), of "map (history_key p) es"] s1(3) by (simp_all add: f)
  obtain s3 where s3: "cache_set ops (metadata_key p) (Meta [] 0) ?s2 = Inr s3" "ok s3"
      "entries s3 = (entries ?s2)(metadata_key p \<mapsto> Meta [] 0)"
    using cache_set_spec [OF s2(1)] by metis
  have other: "other_files_kept p (entries s) (entries s3)"
    by (auto simp: other_files_kept_def s3(3) s2(2) restrict_map_def)
  have wf3: "history_wf max_history (entries s3) p" by (simp add: history_wf_def s3(3))
  have st: "stack_of (entries s3) p = []" by (simp add: stack_of_def entries_of_def s3(3))
  show thesis
    using s1(1) s3(1)
    by (intro that [of s3] histories_wf_step [OF assms(2) other wf3] stacks_step [OF other st] s3(2))
      (simp add: clear_history_def)
qed

lemma collect_entries_spec:
  "ok s \<Longrightarrow> \<forall>e \<in> set es. \<exists>t. entries s (history_key p e) = Some (Text t) \<Longrightarrow>
     \<exists>s'. collect_entries ops p es s = (s', map (Text \<circ> text_at (entries s) p) es) \<and> ok s' \<and> entries s' = entries s"
proof (induction es arbitrary: s)
  case (Cons e es)
  obtain s1 where s1: "co_get ops (history_key p e) s = (s1, entries s (history_key p e))" "ok s1"
      "entries s1 = entries s"
    using get_law [OF Cons.prems(1)] by blast
  obtain s2 where "collect_entries ops p es s1 = (s2, map (Text \<circ> text_at (entries s) p) es)" "ok s2"
      "entries s2 = entries s"
    using Cons.IH [OF s1(2)] Cons.prems(2) s1(3) by auto
  with s1 Cons.prems(2) show ?case by (auto simp: text_at_def)
qed simp

lemma get_all_history_spec:
  assumes "ok s" and "histories_wf max_history (entries s)"
  obtains s' where "get_all_history ops p s = Inr (s', map Text (stack_of (entries s) p))"
    and "ok s'" and "entries s' = entries s"
proof -
  have wf: "history_wf max_history (entries s) p" using assms(2) by (simp add: histories_wf_def)
  obtain s1 es n where s1: "metadata_of ops p s = Inr (s1, es, n)" "ok s1" "entries s1 = entries s"
      "es = entries_of (entries s) p" "\<forall>e \<in> set es. \<exists>t. entries s (history_key p e) = Some (Text t)"
    by (rule metadata_of_spec [OF assms(1) wf])
  obtain s2 where "collect_entries ops p es s1 = (s2, map (Text \<circ> text_at (entries s) p) es)" "ok s2"
      "entries s2 = entries s"
    using collect_entries_spec [OF s1(2)] s1(3,5) by metis
  with s1 show thesis by (intro that [of s2]) (auto simp: get_all_history_def stack_of_def)
qed

end

section \<open>The contract the editor relies on\<close>

locale edit_stack =
  fixes push :: "string \<Rightarrow> string \<Rightarrow> 'h \<Rightarrow> (cache_error, 'h) result"
    and pop :: "string \<Rightarrow> 'h \<Rightarrow> (cache_error, 'h \<times> hist_value option) result"
    and stacks :: "'h \<Rightarrow> string \<Rightarrow> string list" and good :: "'h \<Rightarrow> bool" and depth :: nat
  assumes push_law: "good h \<Longrightarrow> \<exists>h'. push p c h = Inr h' \<and> good h' \<and>
      stacks h' = (stacks h)(p := last_n depth (stacks h p @ [c]))"
    and pop_law: "good h \<Longrightarrow> \<exists>h'. pop p h =
      Inr (h', if stacks h p = [] then None else Some (Text (last (stacks h p)))) \<and> good h' \<and>
      stacks h' = (stacks h)(p := butlast (stacks h p))"
begin

lemma push_never_fails: "good h \<Longrightarrow> push p c h \<noteq> Inl e"
  using push_law [of h p c] by auto

lemma push_result:
  "good h \<Longrightarrow> push p c h = Inr h' \<Longrightarrow>
     good h' \<and> stacks h' = (stacks h)(p := last_n depth (stacks h p @ [c]))"
  using push_law [of h p c] by auto

lemma pop_result:
  "good h \<Longrightarrow> pop p h = Inr (h', r) \<Longrightarrow>
     r = (if stacks h p = [] then None else Some (Text (last (stacks h p)))) \<and> good h' \<and>
     stacks h' = (stacks h)(p := butlast (stacks h p))"
  using pop_law [of h p] by auto

lemma pop_returns_pushed:
  assumes "good h" and "0 < depth" and "push p c h = Inr h1"
  shows "\<exists>h2. pop p h1 = Inr (h2, Some (Text c)) \<and> good h2"
proof -
  have "stacks h1 p = last_n depth (stacks h p @ [c])" and g: "good h1"
    using push_result [OF assms(1,3)] by simp_all
  moreover have "last_n depth (stacks h p @ [c]) \<noteq> []" "last (last_n depth (stacks h p @ [c])) = c"
    using assms(2) by (auto simp: last_n_def Suc_diff_le le_Suc_eq last_append)
  ultimately show ?thesis using pop_law [OF g, of p] by auto
qed

lemma other_stacks_kept:
  "good h \<Longrightarrow> p \<noteq> q \<Longrightarrow> push p c h = Inr h' \<Longrightarrow> stacks h' q = stacks h q"
  "good h \<Longrightarrow> p \<noteq> q \<Longrightarrow> pop p h = Inr (h'', r) \<Longrightarrow> stacks h'' q = stacks h q"
  using push_result [of h p c h'] pop_result [of h p h'' r] by auto

end

sublocale history_cache \<subseteq> stk: edit_stack "add_history ops max_history" "pop_last_history ops"
  "\<lambda>s. stack_of (entries s)" "\<lambda>s. ok s \<and> histories_wf max_history (entries s)" max_history
proof unfold_locales
  fix h p c assume "ok h \<and> histories_wf max_history (entries h)"
  then have h: "ok h" "histories_wf max_history (entries h)" by simp_all
  show "\<exists>h'. add_history ops max_history p c h = Inr h' \<and> (ok h' \<and> histories_wf max_history (entries h')) \<and>
      stack_of (entries h') = (stack_of (entries h))(p := last_n max_history (stack_of (entries h) p @ [c]))"
    by (rule add_history_spec [OF h]) blast
  show "\<exists>h'. pop_last_history ops p h =
      Inr (h', if stack_of (entries h) p = [] then None else Some (Text (last (stack_of (entries h) p)))) \<and>
      (ok h' \<and> histories_wf max_history (entries h')) \<and>
      stack_of (entries h') = (stack_of (entries h))(p := butlast (stack_of (entries h) p))"
    by (rule pop_last_history_spec [OF h]) blast
qed

interpretation ehm: history_cache "disk_ops env" "disk_entries env" "disk_ok env" m for env m
  by unfold_locales

section \<open>Stacks of edits\<close>

text \<open>A sequence of additions and removals of entries, on the cache and on plain stacks.\<close>

datatype hist_op = Add_Entry string string | Pop_Entry string

fun run_history ::
    "('s, hist_value) cache_ops \<Rightarrow> nat \<Rightarrow> hist_op list \<Rightarrow> 's \<Rightarrow> (cache_error, 's \<times> hist_value option list) result" where
  "run_history ops m [] s = Inr (s, [])"
| "run_history ops m (Add_Entry p c # os) s =
     bind_res (add_history ops m p c s) (\<lambda>s1. run_history ops m os s1)"
| "run_history ops m (Pop_Entry p # os) s =
     bind_res (pop_last_history ops p s) (\<lambda>(s1, r).
     bind_res (run_history ops m os s1) (\<lambda>(s2, rs). Inr (s2, r # rs)))"

fun run_stacks :: "nat \<Rightarrow> hist_op list \<Rightarrow> (string \<Rightarrow> string list) \<Rightarrow> (string \<Rightarrow> string list) \<times> string option list" where
  "run_stacks m [] st = (st, [])"
| "run_stacks m (Add_Entry p c # os) st = run_stacks m os (st(p := last_n m (st p @ [c])))"
| "run_stacks m (Pop_Entry p # os) st =
     (let (st', rs) = run_stacks m os (st(p := butlast (st p)))
      in (st', (if st p = [] then None else Some (last (st p))) # rs))"

lemma run_history_refines:
  assumes "disk_ok env c" and "histories_wf m (disk_entries env c)"
  shows "\<exists>c'. run_history (disk_ops env) m os c =
      Inr (c', map (map_option Text) (snd (run_stacks m os (stack_of (disk_entries env c))))) \<and>
      histories_wf m (disk_entries env c') \<and>
      stack_of (disk_entries env c') = fst (run_stacks m os (stack_of (disk_entries env c)))"
  using assms
proof (induction os arbitrary: c)
  case (Cons o1 os)
  show ?case
  proof (cases o1)
    case (Add_Entry p t)
    obtain c1 where c1: "add_history (disk_ops env) m p t c = Inr c1" "disk_ok env c1"
        "histories_wf m (disk_entries env c1)" "stack_of (disk_entries env c1) =
           (stack_of (disk_entries env c))(p := last_n m (stack_of (disk_entries env c) p @ [t]))"
      by (rule ehm.add_history_spec [OF Cons.prems])
    show ?thesis using Cons.IH [OF c1(2,3), unfolded c1(4)] c1(1) Add_Entry by (simp add: fun_upd_def)
  next
    case (Pop_Entry p)
    obtain c1 where c1: "pop_last_history (disk_ops env) p c = Inr (c1,
          if stack_of (disk_entries env c) p = [] then None
          else Some (Text (last (stack_of (disk_entries env c) p))))" "disk_ok env c1"
        "histories_wf m (disk_entries env c1)" "stack_of (disk_entries env c1) =
           (stack_of (disk_entries env c))(p := butlast (stack_of (disk_entries env c) p))"
      by (rule ehm.pop_last_history_spec [OF Cons.prems])
    from Cons.IH [OF c1(2,3)] obtain c2 where
      "run_history (disk_ops env) m os c1 =
         Inr (c2, map (map_option Text) (snd (run_stacks m os (stack_of (disk_entries env c1)))))"
      "histories_wf m (disk_entries env c2)"
      "stack_of (disk_entries env c2) = fst (run_stacks m os (stack_of (disk_entries env c1)))" by blast
    then show ?thesis unfolding c1(4) using c1(1) Pop_Entry by (simp add: Let_def split_beta)
  qed
qed simp

definition new_history :: "hist_value disk_cache" where
  "new_history = open_cache [] None"

lemma new_history_ok:
  "inj (de_hash env) \<Longrightarrow> disk_ok env new_history"
  "disk_entries env new_history = Map.empty"
  by (auto simp: new_history_def open_cache_def disk_ok_def disk_inv_def disk_entries_def)

lemma new_history_wf: "histories_wf m Map.empty"
  by (simp add: histories_wf_def history_wf_def)

text \<open>
  C23: the histories of edits refine bounded stacks, one per file: whatever the sequence of
  additions and removals, starting from an empty cache directory, the calls return and give
  exactly the texts that stacks of at most \<open>max_history\<close> texts give.
\<close>

theorem history_refines_stacks:
  assumes "inj (de_hash env)"
  shows "\<exists>c. run_history (disk_ops env) max_history os new_history =
    Inr (c, map (map_option Text) (snd (run_stacks max_history os (\<lambda>_. []))))"
proof -
  have "stack_of (disk_entries env new_history) = (\<lambda>_. [])"
    by (auto simp: new_history_ok(2) stack_of_def entries_of_def)
  then show ?thesis
    using run_history_refines [OF new_history_ok(1) [OF assms], of max_history os] new_history_wf new_history_ok(2)
    by metis
qed

definition demo_disk :: "hist_value disk_env" where
  "demo_disk = \<lparr>de_hash = id, de_size = (\<lambda>k v. length k), de_clock = id\<rparr>"

lemma history_refines_stacks_witness:
  "\<exists>c. run_history (disk_ops demo_disk) 2
     [Add_Entry ''/a'' ''1'', Add_Entry ''/a'' ''2'', Add_Entry ''/a'' ''3'', Pop_Entry ''/a'', Pop_Entry ''/a'', Pop_Entry ''/a'']
     new_history = Inr (c, [Some (Text ''3''), Some (Text ''2''), None])"
  using history_refines_stacks [of demo_disk 2 "[Add_Entry ''/a'' ''1'', Add_Entry ''/a'' ''2'', Add_Entry ''/a'' ''3'', Pop_Entry ''/a'', Pop_Entry ''/a'', Pop_Entry ''/a'']"]
  by (simp add: demo_disk_def last_n_def)

end
