(* ===== verification/File_Editor.thy ===== *)
theory File_Editor
  imports Edit_History Truncate
begin

text \<open>
  The file editor tool (\<open>tools/file_editor/\<close>: \<open>editor.py\<close>, \<open>impl.py\<close>, \<open>utils/encoding.py\<close>): the commands
  that view, create, edit and restore files, on a file system that maps path strings to files
  with their bytes. A text is read with universal newlines and written with the encoding that is
  detected for the file. The detection, the codecs, the test for binary files and the answers of
  the operating system are parameters. Symbolic links and parent references are not resolved. The
  lemmas show what each command does to the files and the history, and in which cases an edit is lost.
\<close>

section \<open>Paths\<close>

definition path_root :: "string \<Rightarrow> string" where
  "path_root s =
     (if starts_with ''//'' s \<and> \<not> starts_with ''///'' s then ''//''
      else if starts_with ''/'' s then ''/'' else [])"

definition path_parts :: "string \<Rightarrow> string list" where
  "path_parts s = filter (\<lambda>p. p \<noteq> [] \<and> p \<noteq> ''.'') (split_on (CHR ''/'') s)"

text \<open>\<open>str(Path(s))\<close>\<close>

definition py_path :: "string \<Rightarrow> string" where
  "py_path s =
     (let t = path_root s @ join_with (CHR ''/'') (path_parts s) in if t = [] then ''.'' else t)"

definition path_name :: "string \<Rightarrow> string" where
  "path_name s = (if path_parts s = [] then [] else last (path_parts s))"

text \<open>\<open>Path.suffix\<close>: from the last dot of the name, unless the dot is its first or last character.\<close>

definition path_suffix :: "string \<Rightarrow> string" where
  "path_suffix s =
     (let name = path_name s; ext = rev (takeWhile (\<lambda>c. c \<noteq> CHR ''.'') (rev name));
          i = length name - length ext - 1
      in if CHR ''.'' \<in> set name \<and> 0 < i \<and> ext \<noteq> [] then CHR ''.'' # ext else [])"

definition IMAGE_EXTENSIONS :: "string list" where
  "IMAGE_EXTENSIONS = [''.png'', ''.jpg'', ''.jpeg'', ''.gif'', ''.webp'', ''.bmp'']"

definition is_image_path :: "string \<Rightarrow> bool" where
  "is_image_path path \<longleftrightarrow> map lower_char (path_suffix path) \<in> set IMAGE_EXTENSIONS"

definition to_posix_path :: "string \<Rightarrow> string" where
  "to_posix_path p = map (\<lambda>c. if c = CHR 0x5C then CHR ''/'' else c) p"

section \<open>The editor and its world\<close>

datatype fs_node =
    Plain_File string nat nat    \<comment> \<open>bytes, time of modification, mode\<close>
  | Directory

datatype editor_error =
    Tool_Error string
  | Os_Error string
  | Decode_Error string
  | Encode_Error string
  | Type_Failure string
  | Cache_Failure cache_error
  | Runtime_Failure string

record charset_result =
  cr_encoding :: "string option"
  cr_confidence :: "nat option"      \<comment> \<open>in thousandths\<close>

record editor =
  fe_files :: "(string \<times> fs_node) list"
  fe_history :: "hist_value disk_cache"
  fe_encodings :: "(string \<times> string \<times> nat) list"   \<comment> \<open>least recently used first\<close>
  fe_writes :: nat

record editor_env =
  ev_cwd :: string
  ev_max_size :: nat
  ev_disk :: "hist_value disk_env"
  ev_charset :: "string \<Rightarrow> charset_result option"
  ev_decode :: "string \<Rightarrow> string \<Rightarrow> (string, string) result"
  ev_encode :: "string \<Rightarrow> string \<Rightarrow> (string, string) result"
  ev_binary :: "string \<Rightarrow> bool"
  ev_can_read :: "string \<Rightarrow> bool"
  ev_can_write :: "string \<Rightarrow> bool"
  ev_can_move :: "string \<Rightarrow> bool"
  ev_can_list :: "string \<Rightarrow> bool"
  ev_os_error :: "string \<Rightarrow> string"
  ev_clock :: "nat \<Rightarrow> nat"
  ev_new_mode :: nat
  ev_keep :: "(string \<times> string \<times> nat) list \<Rightarrow> (string \<times> string \<times> nat) list"
  ev_home :: "string \<Rightarrow> string option"
  ev_mime :: "string \<Rightarrow> string option"
  ev_resolve :: "string \<Rightarrow> string"
  ev_repr :: "string list \<Rightarrow> string"

type_synonym 'a ed = "(editor, editor_error, 'a) program"

definition node_at :: "editor \<Rightarrow> string \<Rightarrow> fs_node option" where
  "node_at s p = map_of (fe_files s) p"

definition path_exists :: "editor \<Rightarrow> string \<Rightarrow> bool" where
  "path_exists s p \<longleftrightarrow> node_at s p \<noteq> None"

definition is_dir :: "editor \<Rightarrow> string \<Rightarrow> bool" where
  "is_dir s p \<longleftrightarrow> node_at s p = Some Directory"

definition editor_max_size :: "nat option \<Rightarrow> nat" where
  "editor_max_size max_file_size_mb =
     (case max_file_size_mb of None \<Rightarrow> 10 | Some mb \<Rightarrow> if mb = 0 then 10 else mb) * 1024 * 1024"

definition new_editor :: "(string \<times> fs_node) list \<Rightarrow> editor" where
  "new_editor files = \<lparr>fe_files = files, fe_history = open_cache [] None, fe_encodings = [], fe_writes = 0\<rparr>"

definition max_history_per_file :: nat where
  "max_history_per_file = 10"

section \<open>Encodings\<close>

definition default_encoding :: string where
  "default_encoding = ''utf-8''"

text \<open>The confidence must be above 0.9.\<close>

definition detect_encoding :: "editor_env \<Rightarrow> string \<Rightarrow> string" where
  "detect_encoding env bytes =
     (case ev_charset env (take (1024 * 1024) bytes) of
        None \<Rightarrow> default_encoding
      | Some r \<Rightarrow>
          (case (cr_encoding r, cr_confidence r) of
             (Some e, Some c) \<Rightarrow>
               if c > 900 \<and> e \<noteq> [] then (if map lower_char e = ''ascii'' then default_encoding else e)
               else default_encoding
           | _ \<Rightarrow> default_encoding))"

definition max_cached_encodings :: nat where
  "max_cached_encodings = 1000"

definition remember_encoding :: "editor_env \<Rightarrow> string \<Rightarrow> string \<times> nat \<Rightarrow> editor \<Rightarrow> editor" where
  "remember_encoding env p v s =
     (let c = fe_encodings s;
          kept = (if map_of c p \<noteq> None then AList.delete p c
                  else if length c < max_cached_encodings then c else ev_keep env c)
      in s\<lparr>fe_encodings := kept @ [(p, v)]\<rparr>)"

definition touch_encoding :: "string \<Rightarrow> string \<times> nat \<Rightarrow> editor \<Rightarrow> editor" where
  "touch_encoding p v s = s\<lparr>fe_encodings := AList.delete p (fe_encodings s) @ [(p, v)]\<rparr>"

definition detect_and_cache :: "editor_env \<Rightarrow> string \<Rightarrow> string \<Rightarrow> nat \<Rightarrow> string ed" where
  "detect_and_cache env p bytes mtime s =
     (if ev_can_read env p
      then (remember_encoding env p (detect_encoding env bytes, mtime) s, Inr (detect_encoding env bytes))
      else (s, Inl (Os_Error (ev_os_error env p))))"

text \<open>What \<open>with_encoding\<close> passes to a method: the default for a directory and a missing file.\<close>

definition get_encoding :: "editor_env \<Rightarrow> string \<Rightarrow> string ed" where
  "get_encoding env p s =
     (case node_at s p of
        Some (Plain_File bytes mtime mode) \<Rightarrow>
          (case map_of (fe_encodings s) p of
             Some (enc, cached_mtime) \<Rightarrow>
               if cached_mtime = mtime then (touch_encoding p (enc, cached_mtime) s, Inr enc)
               else detect_and_cache env p bytes mtime (touch_encoding p (enc, cached_mtime) s)
           | None \<Rightarrow> detect_and_cache env p bytes mtime s)
      | _ \<Rightarrow> (s, Inr default_encoding))"

section \<open>Reading and writing\<close>

text \<open>Text mode: each of CR LF and CR becomes LF; lines keep their LF.\<close>

fun universal_newlines :: "string \<Rightarrow> string" where
  "universal_newlines [] = []"
| "universal_newlines (c # cs) =
     (if c = CHR 0x0D then newline # universal_newlines (skip_lf c cs) else c # universal_newlines cs)"

fun file_lines :: "string \<Rightarrow> string list" where
  "file_lines [] = []"
| "file_lines (c # cs) =
     (if c = newline then [c] # file_lines cs
      else (case file_lines cs of
              [] \<Rightarrow> [[c]]
            | l # ls \<Rightarrow> (c # l) # ls))"

definition read_text :: "editor_env \<Rightarrow> string \<Rightarrow> string \<Rightarrow> editor \<Rightarrow> (editor_error, string) result" where
  "read_text env enc p s =
     (case node_at s p of
        Some (Plain_File bytes mtime mode) \<Rightarrow>
          (if \<not> ev_can_read env p then Inl (Os_Error (ev_os_error env p))
           else case ev_decode env enc bytes of
                  Inl e \<Rightarrow> Inl (Decode_Error e)
                | Inr t \<Rightarrow> Inr (universal_newlines t))
      | _ \<Rightarrow> Inl (Os_Error (ev_os_error env p)))"

text \<open>\<open>f"{x:.1f}"\<close> of a number of bytes in megabytes, ties to even.\<close>

definition show_mb :: "nat \<Rightarrow> string" where
  "show_mb n =
     (let q = (10 * n) div 1048576; r = (10 * n) mod 1048576;
          t = (if 2 * r > 1048576 \<or> (2 * r = 1048576 \<and> odd q) then q + 1 else q)
      in show_nat (t div 10) @ ''.'' @ show_nat (t mod 10))"

definition file_validation_error :: "string \<Rightarrow> string \<Rightarrow> editor_error" where
  "file_validation_error path reason = Tool_Error (''File validation failed for '' @ path @ '': '' @ reason)"

definition validate_file :: "editor_env \<Rightarrow> string \<Rightarrow> editor \<Rightarrow> (editor_error, unit) result" where
  "validate_file env p s =
     (case node_at s p of
        Some (Plain_File bytes mtime mode) \<Rightarrow>
          (if length bytes > ev_max_size env
           then Inl (file_validation_error p
             (''File is too large ('' @ show_mb (length bytes) @ ''MB). Maximum allowed size is '' @
              show_nat (ev_max_size env div 1048576) @ ''MB.''))
           else if \<not> ev_can_read env p then Inl (Os_Error (ev_os_error env p))
           else if ev_binary env bytes \<and> \<not> is_image_path p
           then Inl (file_validation_error p
             (''File appears to be binary and this file type cannot be read '' @
              ''or edited by this tool.''))
           else Inr ())
      | _ \<Rightarrow> Inr ())"

fun error_text :: "editor_error \<Rightarrow> string" where
  "error_text (Tool_Error m) = m"
| "error_text (Os_Error m) = m"
| "error_text (Decode_Error m) = m"
| "error_text (Encode_Error m) = m"
| "error_text (Type_Failure m) = m"
| "error_text (Cache_Failure e) = ''cache''"
| "error_text (Runtime_Failure m) = m"

definition wrap_error :: "string \<Rightarrow> string \<Rightarrow> (editor_error, 'a) result \<Rightarrow> (editor_error, 'a) result" where
  "wrap_error what path r =
     (case r of
        Inr a \<Rightarrow> Inr a
      | Inl e \<Rightarrow> Inl (Tool_Error (''Ran into '' @ error_text e @ what @ path)))"

text \<open>\<open>for i, line in enumerate(f, 1)\<close> with \<open>start_line <= i <= end_line\<close>\<close>

definition line_range :: "int \<Rightarrow> int \<Rightarrow> string list \<Rightarrow> string list" where
  "line_range start_line end_line ls = drop (nat (start_line - 1)) (take (nat end_line) ls)"

definition read_range ::
    "int option \<Rightarrow> int option \<Rightarrow> (editor_error, string) result \<Rightarrow> (editor_error, string) result" where
  "read_range start_line end_line r =
     (case (start_line, end_line) of
        (Some a, Some b) \<Rightarrow> bind_res r (\<lambda>t. Inr (concat (line_range a b (file_lines t))))
      | (None, None) \<Rightarrow> r
      | _ \<Rightarrow> Inl (Type_Failure ''Both start_line and end_line must be provided together''))"

definition read_file :: "editor_env \<Rightarrow> string \<Rightarrow> int option \<Rightarrow> int option \<Rightarrow> string ed" where
  "read_file env p start_line end_line =
     bind_st (get_encoding env p) (\<lambda>enc s.
       (s, bind_res (validate_file env p s) (\<lambda>_.
             wrap_error '' while trying to read '' p
               (read_range start_line end_line (read_text env enc p s)))))"

definition put_node :: "string \<Rightarrow> fs_node \<Rightarrow> editor \<Rightarrow> editor" where
  "put_node p n s = s\<lparr>fe_files := AList.update p n (fe_files s), fe_writes := fe_writes s + 1\<rparr>"

definition mode_at :: "editor_env \<Rightarrow> editor \<Rightarrow> string \<Rightarrow> nat" where
  "mode_at env s p = (case node_at s p of Some (Plain_File b t m) \<Rightarrow> m | _ \<Rightarrow> ev_new_mode env)"

text \<open>
  \<open>open(path, "w")\<close> empties the file before the text is encoded; a text that cannot be encoded
  leaves it empty.
\<close>

definition encode_value :: "editor_env \<Rightarrow> string \<Rightarrow> hist_value \<Rightarrow> (editor_error, string) result" where
  "encode_value env enc v =
     (case v of
        Meta es n \<Rightarrow> Inl (Type_Failure ''write() argument must be str, not dict'')
      | Text t \<Rightarrow> (case ev_encode env enc t of Inl e \<Rightarrow> Inl (Encode_Error e) | Inr b \<Rightarrow> Inr b))"

definition write_text :: "editor_env \<Rightarrow> string \<Rightarrow> string \<Rightarrow> hist_value \<Rightarrow> unit ed" where
  "write_text env enc p v s =
     (if is_dir s p \<or> \<not> ev_can_write env p then (s, Inl (Os_Error (ev_os_error env p)))
      else
        let mtime = ev_clock env (fe_writes s); mode = mode_at env s p
        in case encode_value env enc v of
             Inl e \<Rightarrow> (put_node p (Plain_File [] mtime mode) s, Inl e)
           | Inr b \<Rightarrow> (put_node p (Plain_File b mtime mode) s, Inr ()))"

definition write_file :: "editor_env \<Rightarrow> string \<Rightarrow> hist_value \<Rightarrow> unit ed" where
  "write_file env p v =
     bind_st (get_encoding env p) (\<lambda>enc s.
       case validate_file env p s of
         Inl e \<Rightarrow> (s, Inl e)
       | Inr _ \<Rightarrow>
           (case write_text env enc p v s of
              (s', r) \<Rightarrow> (s', wrap_error '' while trying to write to '' p r)))"

text \<open>\<open>_count_lines\<close> neither validates the file nor wraps its errors.\<close>

definition count_lines :: "editor_env \<Rightarrow> string \<Rightarrow> nat ed" where
  "count_lines env p =
     bind_st (get_encoding env p) (\<lambda>enc s.
       (s, bind_res (read_text env enc p s) (\<lambda>t. Inr (length (file_lines t)))))"

definition validated_file :: "editor_env \<Rightarrow> string \<Rightarrow> unit ed" where
  "validated_file env p s = (s, validate_file env p s)"

definition push_history :: "editor_env \<Rightarrow> string \<Rightarrow> string \<Rightarrow> unit ed" where
  "push_history env p content s =
     (case add_history (disk_ops (ev_disk env)) max_history_per_file p content (fe_history s) of
        Inl e \<Rightarrow> (s, Inl (Cache_Failure e))
      | Inr h \<Rightarrow> (s\<lparr>fe_history := h\<rparr>, Inr ()))"

definition pop_history :: "editor_env \<Rightarrow> string \<Rightarrow> hist_value option ed" where
  "pop_history env p s =
     (case pop_last_history (disk_ops (ev_disk env)) p (fe_history s) of
        Inl e \<Rightarrow> (s, Inl (Cache_Failure e))
      | Inr (h, r) \<Rightarrow> (s\<lparr>fe_history := h\<rparr>, Inr r))"

section \<open>What the commands answer\<close>

datatype command = View | Create | Str_Replace | Insert | Undo_Edit | Unknown_Command string

fun command_text :: "command \<Rightarrow> string" where
  "command_text View = ''view''"
| "command_text Create = ''create''"
| "command_text Str_Replace = ''str_replace''"
| "command_text Insert = ''insert''"
| "command_text Undo_Edit = ''undo_edit''"
| "command_text (Unknown_Command c) = c"

record file_action =
  fa_command :: command
  fa_path :: string
  fa_file_text :: "string option"
  fa_view_range :: "int list option"
  fa_old_str :: "string option"
  fa_new_str :: "string option"
  fa_insert_line :: "int option"

record file_observation =
  fo_text :: string
  fo_images :: "string list"
  fo_command :: command
  fo_is_error :: bool
  fo_path :: "string option"
  fo_prev_exist :: bool
  fo_old_content :: "string option"
  fo_new_content :: "string option"

definition from_text :: "command \<Rightarrow> string \<Rightarrow> string option \<Rightarrow> file_observation" where
  "from_text cmd t p =
     \<lparr>fo_text = t, fo_images = [], fo_command = cmd, fo_is_error = False, fo_path = p,
      fo_prev_exist = True, fo_old_content = None, fo_new_content = None\<rparr>"

definition missing_parameter :: "command \<Rightarrow> string \<Rightarrow> editor_error" where
  "missing_parameter cmd parameter =
     Tool_Error (''Parameter `'' @ parameter @ ''` is required for command: '' @ command_text cmd @ ''.'')"

definition invalid_parameter :: "string \<Rightarrow> string \<Rightarrow> string \<Rightarrow> editor_error" where
  "invalid_parameter parameter v hint =
     Tool_Error (''Invalid `'' @ parameter @ ''` parameter: '' @ v @ ''. '' @ hint)"

definition MAX_RESPONSE_LEN_CHAR :: int where
  "MAX_RESPONSE_LEN_CHAR = 16000"

definition SNIPPET_CONTEXT_WINDOW :: int where
  "SNIPPET_CONTEXT_WINDOW = 4"

definition TEXT_FILE_CONTENT_TRUNCATED_NOTICE :: string where
  "TEXT_FILE_CONTENT_TRUNCATED_NOTICE =
     ''<response clipped><NOTE>Due to the max output limit, only part of this file has been shown '' @
     ''to you. You should retry this tool after you have searched inside the file with `grep -n` in '' @
     ''order to find the line numbers of what you are looking for.</NOTE>''"

definition DIRECTORY_CONTENT_TRUNCATED_NOTICE :: string where
  "DIRECTORY_CONTENT_TRUNCATED_NOTICE =
     ''<response clipped><NOTE>Due to the max output limit, only part of this directory has been '' @
     ''shown to you. You should use `ls -la` instead to view large directories incrementally.</NOTE>''"

definition clip :: "string \<Rightarrow> string \<Rightarrow> string" where
  "clip notice t =
     snd (maybe_truncate_files \<lparr>digest8 = id, path_str = (@), write_ok = (\<lambda>_. True)\<rparr> Map.empty
            t (Some MAX_RESPONSE_LEN_CHAR) notice None ''output'')"

text \<open>\<open>f"{n:6}\t{line}"\<close>\<close>

definition number_line :: "int \<Rightarrow> string \<Rightarrow> string" where
  "number_line n l = (let t = show_int n in replicate (6 - length t) (CHR '' '') @ t @ CHR 0x09 # l)"

fun number_lines :: "int \<Rightarrow> string list \<Rightarrow> string list" where
  "number_lines n [] = []"
| "number_lines n (l # ls) = number_line n l # number_lines (n + 1) ls"

definition make_output :: "string \<Rightarrow> string \<Rightarrow> int \<Rightarrow> string" where
  "make_output snippet_content snippet_description start_line =
     ''Here's the result of running `cat -n` on '' @ snippet_description @ '':'' @ [newline] @
     join_with newline
       (number_lines start_line (split_on newline (clip TEXT_FILE_CONTENT_TRUNCATED_NOTICE snippet_content))) @
     [newline]"

text \<open>\<open>str\<close> of a list of integers\<close>

definition show_ints :: "int list \<Rightarrow> string" where
  "show_ints ns = ''['' @ py_join '', '' (map show_int ns) @ '']''"

section \<open>Replacing\<close>

text \<open>The starts of the matches of a literal pattern that \<open>re.finditer\<close> gives.\<close>

fun find_from :: "string \<Rightarrow> nat \<Rightarrow> string \<Rightarrow> nat list" where
  "find_from old i [] = (if old = [] then [i] else [])"
| "find_from old i (c # cs) =
     (if starts_with old (c # cs)
      then i # (if old = [] then find_from old (i + 1) cs
                else find_from old (i + length old) (drop (length old - 1) cs))
      else find_from old (i + 1) cs)"

definition occurrences :: "string \<Rightarrow> string \<Rightarrow> nat list" where
  "occurrences old content = find_from old 0 content"

definition line_number :: "string \<Rightarrow> nat \<Rightarrow> int" where
  "line_number content i = int (length (filter (\<lambda>c. c = newline) (take i content))) + 1"

text \<open>The strings that are searched for and put in: a second attempt strips both.\<close>

definition replacement_pair :: "string \<Rightarrow> string \<Rightarrow> string \<Rightarrow> string \<times> string" where
  "replacement_pair old new content =
     (if occurrences old content = [] then (py_strip old, py_strip new) else (old, new))"

definition locate_unique :: "string \<Rightarrow> string \<Rightarrow> string \<Rightarrow> (editor_error, nat) result" where
  "locate_unique path old content =
     (case occurrences old content of
        [] \<Rightarrow> Inl (Tool_Error (''No replacement was performed, old_str `'' @ old @
               ''` did not appear verbatim in '' @ path @ ''.''))
      | [i] \<Rightarrow> Inr i
      | is \<Rightarrow> Inl (Tool_Error (''No replacement was performed. Multiple occurrences of old_str `'' @ old @
               ''` in lines '' @ show_ints (remdups (map (line_number content) is)) @
               ''. Please ensure it is unique.'')))"

definition edited_message :: "string \<Rightarrow> string \<Rightarrow> string \<Rightarrow> string" where
  "edited_message path output advice = ''The file '' @ path @ '' has been edited. '' @ output @ advice"

definition finish_replace :: "editor_env \<Rightarrow> string \<Rightarrow> string \<Rightarrow> int \<Rightarrow> string \<Rightarrow> string \<Rightarrow> file_observation ed" where
  "finish_replace env path file_content replacement_line new new_file_content =
     (let start_line = max 0 (replacement_line - SNIPPET_CONTEXT_WINDOW);
          end_line = replacement_line + SNIPPET_CONTEXT_WINDOW +
            int (length (filter (\<lambda>c. c = newline) new))
      in bind_st (read_file env path (Some (start_line + 1)) (Some end_line)) (\<lambda>snippet.
         return_st
           ((from_text Str_Replace
               (edited_message path (make_output snippet (''a snippet of '' @ path) (start_line + 1))
                 (''Review the changes and make sure they are as expected. Edit the '' @
                  ''file again if necessary.'')) (Some path))
             \<lparr>fo_old_content := Some file_content, fo_new_content := Some new_file_content\<rparr>)))"

definition replace_at :: "editor_env \<Rightarrow> string \<Rightarrow> string \<Rightarrow> string \<Rightarrow> string \<Rightarrow> nat \<Rightarrow> file_observation ed" where
  "replace_at env path file_content old new idx =
     (let new_file_content = take idx file_content @ new @ drop (idx + length old) file_content
      in bind_st (write_file env path (Text new_file_content)) (\<lambda>_.
         bind_st (push_history env path file_content) (\<lambda>_.
         finish_replace env path file_content (line_number file_content idx) new new_file_content)))"

definition str_replace :: "editor_env \<Rightarrow> string \<Rightarrow> string \<Rightarrow> string \<Rightarrow> file_observation ed" where
  "str_replace env path old_str new_str =
     bind_st (validated_file env path) (\<lambda>_.
     bind_st (read_file env path None None) (\<lambda>file_content.
     bind_st (return_st (replacement_pair old_str new_str file_content)) (\<lambda>(old, new).
     bind_st (lift_res (locate_unique path old file_content)) (\<lambda>idx.
     replace_at env path file_content old new idx))))"

section \<open>Inserting\<close>

text \<open>The new file replaces the old one, with the mode of a temporary file.\<close>

definition temp_file_mode :: nat where
  "temp_file_mode = 384"

definition inserted_text :: "int \<Rightarrow> string list \<Rightarrow> string list \<Rightarrow> string" where
  "inserted_text insert_line new_str_lines ls =
     concat (take (nat insert_line) ls) @ concat (map (\<lambda>l. l @ [newline]) new_str_lines) @
     concat (drop (nat insert_line) ls)"

definition replace_file :: "editor_env \<Rightarrow> string \<Rightarrow> string \<Rightarrow> string \<Rightarrow> unit ed" where
  "replace_file env path enc t s =
     (case ev_encode env enc t of
        Inl e \<Rightarrow> (s, Inl (Encode_Error e))
      | Inr bytes \<Rightarrow>
          if \<not> ev_can_move env path then (s, Inl (Os_Error (ev_os_error env path)))
          else (put_node path (Plain_File bytes (ev_clock env (fe_writes s)) temp_file_mode) s, Inr ()))"

definition finish_insert ::
    "editor_env \<Rightarrow> string \<Rightarrow> int \<Rightarrow> nat \<Rightarrow> nat \<Rightarrow> string \<Rightarrow> file_observation ed" where
  "finish_insert env path insert_line num_lines num_new file_text =
     (let start_line = max 0 (insert_line - SNIPPET_CONTEXT_WINDOW);
          end_line = min (int num_lines + int num_new) (insert_line + SNIPPET_CONTEXT_WINDOW + int num_new)
      in bind_st (read_file env path (Some (start_line + 1)) (Some end_line)) (\<lambda>snippet.
         bind_st (push_history env path file_text) (\<lambda>_.
         bind_st (read_file env path None None) (\<lambda>new_file_text.
           return_st
             ((from_text Insert
                 (edited_message path
                   (make_output snippet ''a snippet of the edited file''
                     (max 1 (insert_line - SNIPPET_CONTEXT_WINDOW + 1)))
                   (''Review the changes and make sure they are as expected (correct '' @
                    ''indentation, no duplicate lines, etc). Edit the file again if necessary.'')) (Some path))
               \<lparr>fo_old_content := Some file_text, fo_new_content := Some new_file_text\<rparr>)))))"

definition insert_text :: "editor_env \<Rightarrow> string \<Rightarrow> int \<Rightarrow> string \<Rightarrow> file_observation ed" where
  "insert_text env path insert_line new_str =
     bind_st (get_encoding env path) (\<lambda>enc.
     bind_st (validated_file env path) (\<lambda>_.
     bind_st (count_lines env path) (\<lambda>num_lines.
       if insert_line < 0 \<or> insert_line > int num_lines
       then raise_st (invalid_parameter ''insert_line'' (show_int insert_line)
              (''It should be within the range of allowed values: '' @ show_ints [0, int num_lines]))
       else
         bind_st (\<lambda>s. (s, read_text env enc path s)) (\<lambda>file_text.
         bind_st (replace_file env path enc
             (inserted_text insert_line (split_on newline new_str) (file_lines file_text))) (\<lambda>_.
         finish_insert env path insert_line num_lines (length (split_on newline new_str)) file_text)))))"

section \<open>Undoing\<close>

fun text_of_value :: "hist_value \<Rightarrow> string" where
  "text_of_value (Text t) = t"
| "text_of_value (Meta es n) = []"

definition undo_edit :: "editor_env \<Rightarrow> string \<Rightarrow> file_observation ed" where
  "undo_edit env path =
     bind_st (read_file env path None None) (\<lambda>current_text.
     bind_st (pop_history env path) (\<lambda>old.
       case old of
         None \<Rightarrow> raise_st (Tool_Error (''No edit history found for '' @ path @ ''.''))
       | Some v \<Rightarrow>
           bind_st (write_file env path v) (\<lambda>_.
             return_st
               ((from_text Undo_Edit
                   (''Last edit to '' @ path @ '' undone successfully. '' @ make_output (text_of_value v) path 1) (Some path))
                 \<lparr>fo_old_content := Some current_text, fo_new_content := Some (text_of_value v)\<rparr>))))"

section \<open>Viewing\<close>

definition single_quote :: string where
  "single_quote = [CHR 0x27]"

fun insert_str :: "string \<Rightarrow> string list \<Rightarrow> string list" where
  "insert_str x [] = [x]"
| "insert_str x (y # ys) = (if str_le x y then x # y # ys else y # insert_str x ys)"

definition sort_strs :: "string list \<Rightarrow> string list" where
  "sort_strs xs = foldr insert_str xs []"

definition dir_prefix :: "string \<Rightarrow> string" where
  "dir_prefix d = (if d \<noteq> [] \<and> last d = CHR ''/'' then d else d @ ''/'')"

definition is_child :: "string \<Rightarrow> string \<Rightarrow> bool" where
  "is_child d p \<longleftrightarrow>
     starts_with (dir_prefix d) p \<and> drop (length (dir_prefix d)) p \<noteq> [] \<and>
     CHR ''/'' \<notin> set (drop (length (dir_prefix d)) p)"

text \<open>\<open>None\<close>: the listing raised.\<close>

definition iterdir :: "editor_env \<Rightarrow> editor \<Rightarrow> string \<Rightarrow> string list option" where
  "iterdir env s d =
     (if ev_can_list env d then Some (filter (is_child d) (map fst (fe_files s))) else None)"

definition hidden :: "string \<Rightarrow> bool" where
  "hidden p \<longleftrightarrow> starts_with ''.'' (path_name p)"

definition visible_entries :: "editor_env \<Rightarrow> editor \<Rightarrow> string \<Rightarrow> string list" where
  "visible_entries env s item =
     (if hidden item then []
      else item # (if is_dir s item
                   then (case iterdir env s item of
                           None \<Rightarrow> []
                         | Some cs \<Rightarrow> filter (\<lambda>c. \<not> hidden c) (sort_strs cs))
                   else []))"

definition format_directory_entry :: "editor \<Rightarrow> string \<Rightarrow> string \<Rightarrow> string" where
  "format_directory_entry s root entry =
     (let display = (if entry = root then to_posix_path root
                     else to_posix_path root @ ''/'' @ to_posix_path (drop (length (dir_prefix root)) entry))
      in if is_dir s entry then display @ ''/'' else display)"

definition list_directory_for_view :: "editor_env \<Rightarrow> editor \<Rightarrow> string \<Rightarrow> string list \<Rightarrow> string list" where
  "list_directory_for_view env s path cs =
     map (format_directory_entry s path)
       (path # concat (map (visible_entries env s) (sort_strs cs)))"

definition view_directory :: "editor_env \<Rightarrow> editor \<Rightarrow> string \<Rightarrow> file_observation" where
  "view_directory env s path =
     (case iterdir env s path of
        None \<Rightarrow> (from_text View (ev_os_error env path) (Some path))\<lparr>fo_is_error := True\<rparr>
      | Some cs \<Rightarrow>
          (let hidden_count = length (filter hidden cs);
               listing = ''Here's the files and directories up to 2 levels deep in '' @ path @
                 '', excluding hidden items:'' @ [newline] @
                 join_with newline (list_directory_for_view env s path cs);
               msg = (if hidden_count > 0
                      then listing @ [newline, newline] @ show_nat hidden_count @
                        '' hidden files/directories in this directory are excluded. You can use '' @ single_quote @ ''ls -la '' @
                        path @ single_quote @ '' to see them.''
                      else listing)
           in from_text View (clip DIRECTORY_CONTENT_TRUNCATED_NOTICE msg) (Some path)))"

text \<open>\<open>base64.b64encode\<close>\<close>

definition base64_char :: "nat \<Rightarrow> char" where
  "base64_char n =
     (if n < 26 then char_of (65 + n) else if n < 52 then char_of (97 + n - 26)
      else if n < 62 then char_of (48 + n - 52) else if n = 62 then CHR ''+'' else CHR ''/'')"

fun base64 :: "string \<Rightarrow> string" where
  "base64 (a # b # c # cs) =
     (let n = of_char a * 65536 + of_char b * 256 + of_char c :: nat
      in [base64_char (n div 262144), base64_char (n div 4096 mod 64), base64_char (n div 64 mod 64),
          base64_char (n mod 64)] @ base64 cs)"
| "base64 [a, b] =
     (let n = of_char a * 65536 + of_char b * 256 :: nat
      in [base64_char (n div 262144), base64_char (n div 4096 mod 64), base64_char (n div 64 mod 64), CHR ''=''])"
| "base64 [a] =
     (let n = of_char a * 65536 :: nat
      in [base64_char (n div 262144), base64_char (n div 4096 mod 64), CHR ''='', CHR ''=''])"
| "base64 [] = []"

definition view_image :: "editor_env \<Rightarrow> editor \<Rightarrow> string \<Rightarrow> (editor_error, file_observation) result" where
  "view_image env s path =
     (case node_at s path of
        Some (Plain_File bytes mtime mode) \<Rightarrow>
          (if ev_can_read env path
           then
             let mime = (case ev_mime env path of
                           Some m \<Rightarrow> if starts_with ''image/'' m then m else ''image/png''
                         | None \<Rightarrow> ''image/png'')
             in Inr ((from_text View (''Image file '' @ path @ '' read successfully. Displaying image content.'') (Some path))
                  \<lparr>fo_images := [''data:'' @ mime @ '';base64,'' @ base64 bytes]\<rparr>)
           else Inl (Tool_Error (''Failed to read image file '' @ path @ '': '' @ ev_os_error env path)))
      | _ \<Rightarrow> Inl (Tool_Error (''Failed to read image file '' @ path @ '': '' @ ev_os_error env path)))"

text \<open>The lines to show and a warning, for a file of \<open>num_lines\<close> lines.\<close>

definition check_range :: "int list \<Rightarrow> nat \<Rightarrow> (editor_error, int \<times> int \<times> string option) result" where
  "check_range view_range num_lines =
     (case view_range of
        [start_line, end_line] \<Rightarrow>
          (if start_line < 1 \<or> start_line > int num_lines
           then Inl (invalid_parameter ''view_range'' (show_ints view_range)
             (''Its first element `'' @ show_int start_line @ ''` should be within the range of '' @
              ''lines of the file: '' @ show_ints [1, int num_lines] @ ''.''))
           else
             let warning =
                   (if end_line \<noteq> -1 \<and> end_line > int num_lines
                    then Some (''We only show up to '' @ show_nat num_lines @ '' since there're only '' @
                           show_nat num_lines @ '' lines in this file.'')
                    else None);
                 end' = (if end_line = -1 \<or> end_line > int num_lines then int num_lines else end_line)
             in if end' < start_line
                then Inl (invalid_parameter ''view_range'' (show_ints view_range)
                  (''Its second element `'' @ show_int end' @ ''` should be greater than or equal '' @
                   ''to the first element `'' @ show_int start_line @ ''`.''))
                else Inr (start_line, end', warning))
      | _ \<Rightarrow> Inl (invalid_parameter ''view_range'' (show_ints view_range) ''It should be a list of two integers.''))"

fun undecodable_view :: "string \<Rightarrow> editor_error \<Rightarrow> editor_error" where
  "undecodable_view path (Decode_Error e) =
     Tool_Error (''Cannot view '' @ path @ '': file contains binary content that cannot be '' @
       ''decoded as text. Error: '' @ e)"
| "undecodable_view path e = e"

definition map_error :: "('e \<Rightarrow> 'e) \<Rightarrow> ('w, 'e, 'a) program \<Rightarrow> ('w, 'e, 'a) program" where
  "map_error h m w = (case m w of (w', Inl e) \<Rightarrow> (w', Inl (h e)) | (w', Inr a) \<Rightarrow> (w', Inr a))"

definition view_text :: "editor_env \<Rightarrow> string \<Rightarrow> int list option \<Rightarrow> file_observation ed" where
  "view_text env path view_range =
     bind_st (validated_file env path) (\<lambda>_.
     bind_st (map_error (undecodable_view path) (count_lines env path)) (\<lambda>num_lines.
       if view_range = None \<or> view_range = Some []
       then bind_st (read_file env path None None) (\<lambda>file_content.
              return_st (from_text View (make_output file_content path 1) (Some path)))
       else
         bind_st (lift_res (check_range (the view_range) num_lines)) (\<lambda>(start_line, end_line, warning).
         bind_st (read_file env path (Some start_line) (Some end_line)) (\<lambda>file_content.
           let output = make_output (join_with newline (py_splitlines file_content)) path start_line
           in return_st (from_text View
                (case warning of None \<Rightarrow> output | Some w \<Rightarrow> ''NOTE: '' @ w @ [newline] @ output) (Some path))))))"

definition view_path :: "editor_env \<Rightarrow> string \<Rightarrow> int list option \<Rightarrow> file_observation ed" where
  "view_path env path view_range s =
     (if is_dir s path then
        (if view_range \<noteq> None \<and> view_range \<noteq> Some []
         then (s, Inl (invalid_parameter ''view_range'' (show_ints (the view_range))
                (''The `view_range` parameter is not allowed when `path` points to '' @ ''a directory.'')))
         else (s, Inr (view_directory env s path)))
      else if is_image_path path then (s, view_image env s path)
      else view_text env path view_range s)"

section \<open>The tool\<close>

text \<open>\<open>Path(value).expanduser().is_absolute()\<close>: a leading \<open>~\<close> stands for a home directory.\<close>

definition is_host_absolute_path :: "editor_env \<Rightarrow> string \<Rightarrow> (editor_error, bool) result" where
  "is_host_absolute_path env path =
     (let v = py_strip path
      in if v = [] then Inr False
         else if path_root v = [] \<and> path_parts v \<noteq> [] \<and> starts_with ''~'' (hd (path_parts v))
         then (case ev_home env (hd (path_parts v)) of
                 None \<Rightarrow> Inl (Runtime_Failure ''Could not determine home directory.'')
               | Some home \<Rightarrow> Inr (path_root home \<noteq> []))
         else Inr (path_root v \<noteq> []))"

definition validate_path :: "editor_env \<Rightarrow> command \<Rightarrow> string \<Rightarrow> editor \<Rightarrow> (editor_error, unit) result" where
  "validate_path env cmd path s =
     bind_res (is_host_absolute_path env path) (\<lambda>absolute.
       if \<not> absolute then
         (let suggested = py_path (ev_cwd env @ ''/'' @ path)
          in Inl (invalid_parameter ''path'' path
               (''The path should be an absolute path.'' @
                (if path_exists s suggested then '' Maybe you meant '' @ suggested @ ''?'' else []))))
       else if cmd = Create \<and> path_exists s path then
         Inl (invalid_parameter ''path'' path
           (''File already exists at: '' @ path @ ''. Cannot overwrite files using '' @ ''command `create`.''))
       else if cmd \<noteq> Create \<and> \<not> path_exists s path then
         Inl (invalid_parameter ''path'' path
           (''The path '' @ path @ '' does not exist. Please provide a valid path.''))
       else if cmd \<noteq> View \<and> is_dir s path then
         Inl (invalid_parameter ''path'' path
           (''The path '' @ path @ '' is a directory and only the `view` command can '' @ ''be used on directories.''))
       else Inr ())"

definition create_file :: "editor_env \<Rightarrow> string \<Rightarrow> string \<Rightarrow> file_observation ed" where
  "create_file env path file_text =
     bind_st (write_file env path (Text file_text)) (\<lambda>_.
     bind_st (push_history env path file_text) (\<lambda>_.
       return_st ((from_text Create (''File created successfully at: '' @ path) (Some path))
         \<lparr>fo_new_content := Some file_text, fo_prev_exist := False\<rparr>)))"

definition run_command :: "editor_env \<Rightarrow> file_action \<Rightarrow> string \<Rightarrow> file_observation ed" where
  "run_command env a path =
     (case fa_command a of
        View \<Rightarrow> view_path env path (fa_view_range a)
      | Create \<Rightarrow>
          (case fa_file_text a of
             None \<Rightarrow> raise_st (missing_parameter Create ''file_text'')
           | Some t \<Rightarrow> create_file env path t)
      | Str_Replace \<Rightarrow>
          (case (fa_old_str a, fa_new_str a) of
             (None, _) \<Rightarrow> raise_st (missing_parameter Str_Replace ''old_str'')
           | (Some old, None) \<Rightarrow> raise_st (missing_parameter Str_Replace ''new_str'')
           | (Some old, Some new) \<Rightarrow>
               if new = old
               then raise_st (invalid_parameter ''new_str'' new
                      (''No replacement was performed. `new_str` and `old_str` must be '' @ ''different.''))
               else str_replace env path old new)
      | Insert \<Rightarrow>
          (case (fa_insert_line a, fa_new_str a) of
             (None, _) \<Rightarrow> raise_st (missing_parameter Insert ''insert_line'')
           | (Some n, None) \<Rightarrow> raise_st (missing_parameter Insert ''new_str'')
           | (Some n, Some new) \<Rightarrow> insert_text env path n new)
      | Undo_Edit \<Rightarrow> undo_edit env path
      | Unknown_Command c \<Rightarrow>
          raise_st (Tool_Error (''Unrecognized command '' @ c @ ''. The allowed commands for '' @
            ''FileEditor tool are: view, create, str_replace, insert, undo_edit'')))"

definition editor_call :: "editor_env \<Rightarrow> file_action \<Rightarrow> file_observation ed" where
  "editor_call env a s =
     (let path = py_path (fa_path a)
      in case validate_path env (fa_command a) path s of
           Inl e \<Rightarrow> (s, Inl e)
         | Inr _ \<Rightarrow> run_command env a path s)"

definition allowed_files :: "editor_env \<Rightarrow> string list option \<Rightarrow> string list option" where
  "allowed_files env fs =
     (case fs of None \<Rightarrow> None | Some [] \<Rightarrow> None | Some (x # xs) \<Rightarrow> Some (map (ev_resolve env) (x # xs)))"

text \<open>\<open>file_editor\<close>: a tool error becomes an observation, any other exception passes.\<close>

definition file_editor :: "editor_env \<Rightarrow> file_action \<Rightarrow> file_observation ed" where
  "file_editor env a s =
     (case editor_call env a s of
        (s', Inl (Tool_Error m)) \<Rightarrow> (s', Inr ((from_text (fa_command a) m None)\<lparr>fo_is_error := True\<rparr>))
      | r \<Rightarrow> r)"

definition editor_executor :: "editor_env \<Rightarrow> string list option \<Rightarrow> file_action \<Rightarrow> file_observation ed" where
  "editor_executor env allowed a s =
     (case allowed of
        Some fs \<Rightarrow>
          if fa_command a \<noteq> View \<and> ev_resolve env (fa_path a) \<notin> set fs
          then (s, Inr ((from_text (fa_command a)
                  (''Operation '' @ single_quote @ command_text (fa_command a) @ single_quote @
                   '' is not allowed on file '' @ single_quote @ ev_resolve env (fa_path a) @ single_quote @ ''. Only the following files can be edited: '' @
                   ev_repr env (sort_strs fs)) None)\<lparr>fo_is_error := True\<rparr>))
          else file_editor env a s
      | None \<Rightarrow> file_editor env a s)"

text \<open>
  The lock the tool declares for the parallel executor, and whether an observation shows a change.
\<close>

definition declared_resources :: "editor_env \<Rightarrow> file_action \<Rightarrow> bool \<times> string list" where
  "declared_resources env a = (True, [''file:'' @ ev_resolve env (fa_path a)])"

definition has_meaningful_diff :: "file_observation \<Rightarrow> bool" where
  "has_meaningful_diff fo \<longleftrightarrow>
     \<not> fo_is_error fo \<and> fo_path fo \<notin> {None, Some []} \<and>
     ((fo_command fo = Create \<and> fo_new_content fo \<notin> {None, Some []} \<and> \<not> fo_prev_exist fo) \<or>
      (fo_command fo \<in> {Str_Replace, Insert, Undo_Edit} \<and> fo_old_content fo \<noteq> None \<and>
       fo_new_content fo \<noteq> None \<and> fo_old_content fo \<noteq> fo_new_content fo))"

section \<open>What a command can change\<close>

text \<open>
  A relation between states that the five primitive operations respect is respected by every
  command, on success and on error.
\<close>

locale reader_frame =
  fixes env :: editor_env and p :: string and R :: "editor \<Rightarrow> editor \<Rightarrow> bool"
  assumes R_refl: "reflp R" and R_trans: "transp R"
    and encoding_step: "stays R (get_encoding env p)"
begin

lemma reads: "stays R (\<lambda>s. (s, f s))"
  using R_refl by (simp add: stays_def reflp_def)

lemma binds: "stays R m \<Longrightarrow> (\<And>a. stays R (f a)) \<Longrightarrow> stays R (bind_st m f)"
  using R_trans by (rule stays_bind)

lemmas basic = stays_return [OF R_refl] stays_raise [OF R_refl] stays_lift [OF R_refl] binds reads

lemma read_file_step: "stays R (read_file env p a b)"
  unfolding read_file_def by (intro basic encoding_step)

lemma count_lines_step: "stays R (count_lines env p)"
  unfolding count_lines_def by (intro basic encoding_step)

lemma validated_step: "stays R (validated_file env p)"
  unfolding validated_file_def by (rule reads)

lemma map_error_step: "stays R m \<Longrightarrow> stays R (map_error h m)"
  by (auto simp: stays_def map_error_def split: prod.split sum.split) (metis fst_conv)+

lemmas read_steps = basic encoding_step read_file_step count_lines_step validated_step map_error_step

lemma view_text_step: "stays R (view_text env p r)"
  unfolding view_text_def Let_def by (intro read_steps) (auto intro!: read_steps)

lemma view_path_step: "stays R (view_path env p r)"
  using view_text_step R_refl by (auto simp: stays_def view_path_def reflp_def)

end

locale editor_frame = reader_frame +
  assumes write_step: "stays R (write_text env enc p v)"
    and replace_step: "stays R (replace_file env p enc t)"
    and push_step: "stays R (push_history env p c)"
    and pop_step: "stays R (pop_history env p)"
begin

lemma write_file_step: "stays R (write_file env p v)"
proof -
  have "stays R (\<lambda>s. case validate_file env p s of Inl e \<Rightarrow> (s, Inl e)
    | Inr _ \<Rightarrow> (case write_text env enc p v s of (s', r) \<Rightarrow> (s', wrap_error w p r)))" for enc w
    using R_refl write_step by (auto simp: stays_def reflp_def split: sum.split prod.split) (metis fst_conv)
  then show ?thesis unfolding write_file_def by (intro basic encoding_step)
qed

lemmas steps = read_steps write_file_step replace_step push_step pop_step

lemma str_replace_step: "stays R (str_replace env p old new)"
  unfolding str_replace_def replace_at_def finish_replace_def Let_def split_beta by (intro steps)

lemma insert_text_step: "stays R (insert_text env p n new)"
  unfolding insert_text_def finish_insert_def Let_def by (intro steps conjI impI) (auto intro!: steps)

lemma undo_edit_step: "stays R (undo_edit env p)"
  unfolding undo_edit_def by (intro steps) (auto intro!: steps split: option.split)

lemma create_file_step: "stays R (create_file env p t)"
  unfolding create_file_def by (intro steps)

lemma run_command_step: "stays R (run_command env a p)"
  by (auto simp: run_command_def intro!: view_path_step create_file_step str_replace_step
      insert_text_step undo_edit_step basic split: command.split option.split)

lemma editor_call_step: "p = py_path (fa_path a) \<Longrightarrow> R s (fst (editor_call env a s))"
  using run_command_step [of a] R_refl
  by (auto simp: editor_call_def Let_def stays_def reflp_def split: sum.split)

lemma file_editor_state: "fst (file_editor env a s) = fst (editor_call env a s)"
  by (auto simp: file_editor_def split: prod.split sum.split editor_error.split)

lemma executor_step: "p = py_path (fa_path a) \<Longrightarrow> R s (fst (editor_executor env allowed a s))"
  using editor_call_step [of a s] R_refl
  by (auto simp: editor_executor_def file_editor_state reflp_def split: option.split)

end

text \<open>Other files are not touched.\<close>

definition others_kept :: "string \<Rightarrow> editor \<Rightarrow> editor \<Rightarrow> bool" where
  "others_kept p s s' \<longleftrightarrow> (\<forall>q. q \<noteq> p \<longrightarrow> node_at s' q = node_at s q)"

lemma get_encoding_keeps [simp]:
  "fe_files (fst (get_encoding env p s)) = fe_files s"
  "fe_history (fst (get_encoding env p s)) = fe_history s"
  "fe_writes (fst (get_encoding env p s)) = fe_writes s"
  by (auto simp: get_encoding_def detect_and_cache_def touch_encoding_def remember_encoding_def Let_def
      split: option.split fs_node.split)

lemma push_history_keeps [simp]:
  "fe_files (fst (push_history env p c s)) = fe_files s"
  by (auto simp: push_history_def split: sum.split)

lemma pop_history_keeps [simp]:
  "fe_files (fst (pop_history env p s)) = fe_files s"
  by (auto simp: pop_history_def split: sum.split)

lemma same_nodes:
  "node_at (fst (get_encoding env p s)) q = node_at s q"
  "node_at (fst (push_history env p c s)) q = node_at s q"
  "node_at (fst (pop_history env p s)) q = node_at s q"
  by (simp_all add: node_at_def)

lemma node_at_put [simp]: "node_at (put_node p n s) q = (if q = p then Some n else node_at s q)"
  by (simp add: node_at_def put_node_def update_conv')

lemma write_text_others: "q \<noteq> p \<Longrightarrow> node_at (fst (write_text env enc p v s)) q = node_at s q"
  by (simp add: write_text_def Let_def split: sum.split)

lemma replace_file_others: "q \<noteq> p \<Longrightarrow> node_at (fst (replace_file env p enc t s)) q = node_at s q"
  by (simp add: replace_file_def split: sum.split)

interpretation oth: editor_frame env p "others_kept p" for env p
proof unfold_locales
  show "reflp (others_kept p)" by (simp add: reflp_def others_kept_def)
  show "transp (others_kept p)" by (simp add: transp_def others_kept_def)
qed (auto simp: stays_def others_kept_def write_text_others replace_file_others same_nodes)

text \<open>Viewing changes no file and no history.\<close>

definition all_kept :: "editor \<Rightarrow> editor \<Rightarrow> bool" where
  "all_kept s s' \<longleftrightarrow> fe_files s' = fe_files s \<and> fe_history s' = fe_history s"

interpretation vie: reader_frame env p all_kept for env p
proof unfold_locales
  show "reflp all_kept" by (simp add: reflp_def all_kept_def)
  show "transp all_kept" by (simp add: transp_def all_kept_def)
qed (simp add: stays_def all_kept_def)

text \<open>The histories stay well formed.\<close>

definition good_history :: "editor_env \<Rightarrow> editor \<Rightarrow> bool" where
  "good_history env s \<longleftrightarrow>
     disk_ok (ev_disk env) (fe_history s) \<and>
     histories_wf max_history_per_file (disk_entries (ev_disk env) (fe_history s))"

definition history_kept :: "editor_env \<Rightarrow> editor \<Rightarrow> editor \<Rightarrow> bool" where
  "history_kept env s s' \<longleftrightarrow> (good_history env s \<longrightarrow> good_history env s')"

definition undo_stack :: "editor_env \<Rightarrow> editor \<Rightarrow> string \<Rightarrow> string list" where
  "undo_stack env s = stack_of (disk_entries (ev_disk env) (fe_history s))"

lemma push_history_spec:
  assumes "good_history env s"
  obtains h where "push_history env p c s = (s\<lparr>fe_history := h\<rparr>, Inr ())"
    and "good_history env (s\<lparr>fe_history := h\<rparr>)"
    and "undo_stack env (s\<lparr>fe_history := h\<rparr>) = (undo_stack env s)(p := last_n max_history_per_file (undo_stack env s p @ [c]))"
  using ehm.stk.push_law [of "ev_disk env" "fe_history s" max_history_per_file p c] assms that
  by (fastforce simp: good_history_def push_history_def undo_stack_def)

lemma pop_history_spec:
  assumes "good_history env s"
  obtains h where "pop_history env p s = (s\<lparr>fe_history := h\<rparr>,
      Inr (if undo_stack env s p = [] then None else Some (Text (last (undo_stack env s p)))))"
    and "good_history env (s\<lparr>fe_history := h\<rparr>)"
    and "undo_stack env (s\<lparr>fe_history := h\<rparr>) = (undo_stack env s)(p := butlast (undo_stack env s p))"
  using ehm.stk.pop_law [of "ev_disk env" "fe_history s" max_history_per_file p] assms that
  by (fastforce simp: good_history_def pop_history_def undo_stack_def)

lemma good_history_cong: "fe_history s' = fe_history s \<Longrightarrow> good_history env s' = good_history env s"
  by (simp add: good_history_def)

lemma write_text_history [simp]: "fe_history (fst (write_text env enc p v s)) = fe_history s"
  by (simp add: write_text_def put_node_def Let_def split: sum.split)

lemma replace_file_history [simp]: "fe_history (fst (replace_file env p enc t s)) = fe_history s"
  by (simp add: replace_file_def put_node_def split: sum.split)

interpretation his: editor_frame env p "history_kept env" for env p
proof unfold_locales
  show "reflp (history_kept env)" by (simp add: reflp_def history_kept_def)
  show "transp (history_kept env)" by (auto simp: transp_def history_kept_def)
  show "stays (history_kept env) (push_history env p c)" for c
    unfolding stays_def history_kept_def
  proof (intro allI impI)
    fix s assume "good_history env s"
    then show "good_history env (fst (push_history env p c s))"
      by (rule push_history_spec [of env s p c]) simp
  qed
  show "stays (history_kept env) (pop_history env p)"
    unfolding stays_def history_kept_def
  proof (intro allI impI)
    fix s assume "good_history env s"
    then show "good_history env (fst (pop_history env p s))"
      by (rule pop_history_spec [of env s p]) simp
  qed
qed (auto simp: stays_def history_kept_def good_history_def)

section \<open>Commands that succeed\<close>

text \<open>
  The usual host: every file is taken for UTF-8, no file is taken for binary, files can be opened and
  replaced, the cache of encodings only drops entries; and a codec that encodes every text.
\<close>

definition host_env :: "editor_env \<Rightarrow> bool" where
  "host_env env \<longleftrightarrow>
     (\<forall>b. detect_encoding env b = default_encoding) \<and> (\<forall>b. \<not> ev_binary env b) \<and>
     (\<forall>p. ev_can_read env p \<and> ev_can_write env p \<and> ev_can_move env p) \<and>
     (\<forall>c. set (ev_keep env c) \<subseteq> set c)"

definition utf8_env :: "editor_env \<Rightarrow> bool" where
  "utf8_env env \<longleftrightarrow>
     host_env env \<and>
     (\<forall>t. \<exists>b. ev_encode env default_encoding t = Inr b \<and> ev_decode env default_encoding b = Inr t)"

definition ready :: "editor_env \<Rightarrow> editor \<Rightarrow> bool" where
  "ready env s \<longleftrightarrow> (\<forall>x \<in> set (fe_encodings s). fst (snd x) = default_encoding) \<and> good_history env s"

definition encoded :: "editor_env \<Rightarrow> string \<Rightarrow> string" where
  "encoded env t = (case ev_encode env default_encoding t of Inr b \<Rightarrow> b | Inl e \<Rightarrow> [])"

definition file_text :: "editor_env \<Rightarrow> editor \<Rightarrow> string \<Rightarrow> string option" where
  "file_text env s p =
     (case node_at s p of
        Some (Plain_File b t m) \<Rightarrow>
          (case ev_decode env default_encoding b of Inr t \<Rightarrow> Some (universal_newlines t) | Inl e \<Rightarrow> None)
      | _ \<Rightarrow> None)"

definition small_file :: "editor_env \<Rightarrow> editor \<Rightarrow> string \<Rightarrow> bool" where
  "small_file env s p \<longleftrightarrow>
     (case node_at s p of Some (Plain_File b t m) \<Rightarrow> length b \<le> ev_max_size env | _ \<Rightarrow> True)"

definition absolute_path :: "editor_env \<Rightarrow> string \<Rightarrow> bool" where
  "absolute_path env p \<longleftrightarrow> py_path p = p \<and> is_host_absolute_path env p = Inr True"

lemma universal_newlines_plain: "CHR 0x0D \<notin> set t \<Longrightarrow> universal_newlines t = t"
  by (induction t) auto

lemma universal_newlines_no_cr: "CHR 0x0D \<notin> set (universal_newlines t)"
  by (induction t rule: universal_newlines.induct) (auto simp: newline_def)

lemma universal_newlines_idem [simp]: "universal_newlines (universal_newlines t) = universal_newlines t"
  by (rule universal_newlines_plain [OF universal_newlines_no_cr])

lemma encoded_simps:
  assumes "utf8_env env"
  shows "ev_encode env default_encoding t = Inr (encoded env t)"
    and "ev_decode env default_encoding (encoded env t) = Inr t"
proof -
  obtain b where "ev_encode env default_encoding t = Inr b" "ev_decode env default_encoding b = Inr t"
    using assms unfolding utf8_env_def by blast
  then show "ev_encode env default_encoding t = Inr (encoded env t)"
    and "ev_decode env default_encoding (encoded env t) = Inr t"
    by (simp_all add: encoded_def)
qed

lemma encodings_irrelevant [simp]:
  "node_at (s\<lparr>fe_encodings := E\<rparr>) p = node_at s p"
  "file_text env (s\<lparr>fe_encodings := E\<rparr>) p = file_text env s p"
  "small_file env (s\<lparr>fe_encodings := E\<rparr>) p = small_file env s p"
  "undo_stack env (s\<lparr>fe_encodings := E\<rparr>) = undo_stack env s"
  "good_history env (s\<lparr>fe_encodings := E\<rparr>) = good_history env s"
  "is_dir (s\<lparr>fe_encodings := E\<rparr>) p = is_dir s p"
  "mode_at env (s\<lparr>fe_encodings := E\<rparr>) p = mode_at env s p"
  by (simp_all add: node_at_def file_text_def small_file_def undo_stack_def good_history_def is_dir_def mode_at_def)

lemma history_irrelevant [simp]:
  "node_at (s\<lparr>fe_history := h\<rparr>) p = node_at s p"
  "file_text env (s\<lparr>fe_history := h\<rparr>) p = file_text env s p"
  "small_file env (s\<lparr>fe_history := h\<rparr>) p = small_file env s p"
  by (simp_all add: node_at_def file_text_def small_file_def)

lemma put_node_irrelevant [simp]:
  "undo_stack env (put_node p n s) = undo_stack env s"
  "good_history env (put_node p n s) = good_history env s"
  "ready env (put_node p n s) = ready env s"
  by (simp_all add: put_node_def undo_stack_def good_history_def ready_def)

lemma file_text_put [simp]:
  "utf8_env env \<Longrightarrow> file_text env (put_node p (Plain_File (encoded env t) m k) s) p = Some (universal_newlines t)"
  by (simp add: file_text_def encoded_simps)

lemma small_file_put [simp]:
  "small_file env (put_node p (Plain_File b m k) s) p \<longleftrightarrow> length b \<le> ev_max_size env"
  by (simp add: small_file_def)

lemma file_text_not_dir: "file_text env s p = Some t \<Longrightarrow> \<not> is_dir s p \<and> path_exists s p"
  by (auto simp: file_text_def is_dir_def path_exists_def split: option.splits fs_node.splits)

lemma host_get_encoding:
  assumes "host_env env" and "ready env s"
  obtains E where "get_encoding env p s = (s\<lparr>fe_encodings := E\<rparr>, Inr default_encoding)"
    and "ready env (s\<lparr>fe_encodings := E\<rparr>)"
proof -
  have enc: "e = default_encoding" if "map_of (fe_encodings s) p = Some (e, t)" for e t
    using map_of_SomeD [OF that] assms(2) by (auto simp: ready_def)
  have same: "s\<lparr>fe_encodings := fe_encodings s\<rparr> = s" by simp
  have del: "\<forall>x \<in> set (AList.delete p (fe_encodings s)). fst (snd x) = default_encoding"
    using assms(2) by (auto simp: ready_def AList.delete_eq)
  have detect: "\<exists>E. detect_and_cache env p b m s1 = (s1\<lparr>fe_encodings := E\<rparr>, Inr default_encoding) \<and>
      ready env (s1\<lparr>fe_encodings := E\<rparr>)" if "ready env s1" for b m s1
  proof -
    have "ev_can_read env p" "detect_encoding env b = default_encoding"
      and k: "\<And>x c. x \<in> set (ev_keep env c) \<Longrightarrow> x \<in> set c"
      using assms(1) by (auto simp: host_env_def)
    define E where "E = (if map_of (fe_encodings s1) p \<noteq> None then AList.delete p (fe_encodings s1)
        else if length (fe_encodings s1) < max_cached_encodings then fe_encodings s1
        else ev_keep env (fe_encodings s1))"
    have E: "set E \<subseteq> set (fe_encodings s1)" using k by (auto simp: E_def AList.delete_eq)
    have "ready env (s1\<lparr>fe_encodings := E @ [(p, default_encoding, m)]\<rparr>)"
      using that E by (auto simp: ready_def)
    moreover have "detect_and_cache env p b m s1 =
        (s1\<lparr>fe_encodings := E @ [(p, default_encoding, m)]\<rparr>, Inr default_encoding)"
      using \<open>ev_can_read env p\<close> \<open>detect_encoding env b = default_encoding\<close>
      unfolding detect_and_cache_def remember_encoding_def Let_def E_def by simp
    ultimately show ?thesis by blast
  qed
  show thesis
  proof (cases "\<exists>b m k. node_at s p = Some (Plain_File b m k)")
    case False
    then have "get_encoding env p s = (s, Inr default_encoding)"
      by (auto simp: get_encoding_def split: option.split fs_node.split)
    with that [of "fe_encodings s"] assms(2) show thesis by simp
  next
    case True
    then obtain b m k where n: "node_at s p = Some (Plain_File b m k)" by blast
    show thesis
    proof (cases "map_of (fe_encodings s) p")
      case None
      with n that detect [OF assms(2), of b m] show thesis by (auto simp: get_encoding_def)
    next
      case (Some v)
      then obtain t where v: "map_of (fe_encodings s) p = Some (default_encoding, t)"
        using enc by (cases v) auto
      have t: "ready env (touch_encoding p (default_encoding, t) s)"
        using del assms(2) by (auto simp: ready_def touch_encoding_def)
      show thesis
      proof (cases "t = m")
        case True
        with n v that t show thesis by (auto simp: get_encoding_def touch_encoding_def)
      next
        case False
        with n v that detect [OF t, of b m] show thesis
          by (auto simp: get_encoding_def touch_encoding_def)
      qed
    qed
  qed
qed

lemma host_validate: "host_env env \<Longrightarrow> small_file env s p \<Longrightarrow> validate_file env p s = Inr ()"
  by (auto simp: validate_file_def host_env_def small_file_def split: option.split fs_node.split)

lemma host_read_text:
  "host_env env \<Longrightarrow> file_text env s p = Some t \<Longrightarrow> read_text env default_encoding p s = Inr t"
  by (auto simp: read_text_def file_text_def host_env_def split: option.splits fs_node.splits sum.splits)

lemma host_read_file:
  assumes "host_env env" and "ready env s" and "file_text env s p = Some t" and "small_file env s p"
  obtains E where "read_file env p None None s = (s\<lparr>fe_encodings := E\<rparr>, Inr t)"
      and "ready env (s\<lparr>fe_encodings := E\<rparr>)"
proof -
  obtain E where "get_encoding env p s = (s\<lparr>fe_encodings := E\<rparr>, Inr default_encoding)"
      "ready env (s\<lparr>fe_encodings := E\<rparr>)"
    by (rule host_get_encoding [OF assms(1,2)])
  with assms that [of E] show thesis
    by (simp add: read_file_def bind_st_def host_validate host_read_text read_range_def wrap_error_def)
qed

lemma utf8_host: "utf8_env env \<Longrightarrow> host_env env"
  by (simp add: utf8_env_def)

lemmas get_encoding_ok = host_get_encoding [OF utf8_host]
  and validate_ok = host_validate [OF utf8_host]
  and read_text_ok = host_read_text [OF utf8_host]
  and read_file_ok = host_read_file [OF utf8_host]

lemma read_lines_ok:
  assumes "utf8_env env" and "ready env s" and "file_text env s p = Some t" and "small_file env s p"
  obtains E where "read_file env p (Some a) (Some b) s =
        (s\<lparr>fe_encodings := E\<rparr>, Inr (concat (line_range a b (file_lines t))))"
      and "ready env (s\<lparr>fe_encodings := E\<rparr>)"
proof -
  obtain E where "get_encoding env p s = (s\<lparr>fe_encodings := E\<rparr>, Inr default_encoding)"
      "ready env (s\<lparr>fe_encodings := E\<rparr>)"
    by (rule get_encoding_ok [OF assms(1,2)])
  with assms that [of E] show thesis
    by (simp add: read_file_def bind_st_def validate_ok read_text_ok read_range_def wrap_error_def)
qed

lemma count_lines_ok:
  assumes "utf8_env env" and "ready env s" and "file_text env s p = Some t"
  obtains E where "count_lines env p s = (s\<lparr>fe_encodings := E\<rparr>, Inr (length (file_lines t)))"
      and "ready env (s\<lparr>fe_encodings := E\<rparr>)"
proof -
  obtain E where "get_encoding env p s = (s\<lparr>fe_encodings := E\<rparr>, Inr default_encoding)"
      "ready env (s\<lparr>fe_encodings := E\<rparr>)"
    by (rule get_encoding_ok [OF assms(1,2)])
  with assms that [of E] show thesis by (simp add: count_lines_def bind_st_def read_text_ok)
qed

lemma write_file_ok:
  assumes "utf8_env env" and "ready env s" and "\<not> is_dir s p" and "small_file env s p"
  obtains E where "write_file env p (Text t) s =
        (put_node p (Plain_File (encoded env t) (ev_clock env (fe_writes s)) (mode_at env s p))
           (s\<lparr>fe_encodings := E\<rparr>), Inr ())"
      and "ready env (s\<lparr>fe_encodings := E\<rparr>)"
proof -
  obtain E where "get_encoding env p s = (s\<lparr>fe_encodings := E\<rparr>, Inr default_encoding)"
      "ready env (s\<lparr>fe_encodings := E\<rparr>)"
    by (rule get_encoding_ok [OF assms(1,2)])
  moreover have "ev_can_write env p" using assms(1) by (simp add: utf8_env_def host_env_def)
  ultimately show thesis using assms that [of E]
    by (simp add: write_file_def bind_st_def validate_ok write_text_def Let_def encode_value_def
        encoded_simps wrap_error_def)
qed

section \<open>The effect of an edit\<close>

definition plain_file :: "editor_env \<Rightarrow> editor \<Rightarrow> string \<Rightarrow> string \<Rightarrow> bool" where
  "plain_file env s p t \<longleftrightarrow> (\<exists>m k. node_at s p = Some (Plain_File (encoded env t) m k))"

definition fits :: "editor_env \<Rightarrow> string \<Rightarrow> bool" where
  "fits env t \<longleftrightarrow> length (encoded env t) \<le> ev_max_size env"

text \<open>A file the editor can edit, with its text, in a state it reaches.\<close>

definition editable :: "editor_env \<Rightarrow> editor \<Rightarrow> string \<Rightarrow> string \<Rightarrow> bool" where
  "editable env s p t \<longleftrightarrow> utf8_env env \<and> ready env s \<and> file_text env s p = Some t \<and> small_file env s p"

lemma plain_file_text:
  "utf8_env env \<Longrightarrow> plain_file env s p t \<Longrightarrow> file_text env s p = Some (universal_newlines t)"
  "plain_file env s p t \<Longrightarrow> small_file env s p \<longleftrightarrow> fits env t"
  by (auto simp: plain_file_def file_text_def encoded_simps small_file_def fits_def)

lemma editable_text_plain: "editable env s p t \<Longrightarrow> universal_newlines t = t"
  by (auto simp: editable_def file_text_def split: option.splits fs_node.splits sum.splits)

text \<open>What holds after a write that is recorded in the history.\<close>

definition edited :: "editor_env \<Rightarrow> editor \<Rightarrow> string \<Rightarrow> string \<Rightarrow> string \<Rightarrow> editor \<Rightarrow> bool" where
  "edited env s p old_text new_text s' \<longleftrightarrow>
     ready env s' \<and> plain_file env s' p new_text \<and>
     undo_stack env s' = (undo_stack env s)(p := last_n max_history_per_file (undo_stack env s p @ [old_text]))"

lemma write_and_push:
  assumes "utf8_env env" and "ready env s" and "\<not> is_dir s p" and "small_file env s p"
  obtains s' where "bind_st (write_file env p (Text t)) (\<lambda>_. bind_st (push_history env p c) f) s = f () s'"
    and "edited env s p c t s'"
proof -
  obtain E where E: "write_file env p (Text t) s =
        (put_node p (Plain_File (encoded env t) (ev_clock env (fe_writes s)) (mode_at env s p))
           (s\<lparr>fe_encodings := E\<rparr>), Inr ())" "ready env (s\<lparr>fe_encodings := E\<rparr>)"
    by (rule write_file_ok [OF assms, of t])
  let ?s1 = "put_node p (Plain_File (encoded env t) (ev_clock env (fe_writes s)) (mode_at env s p))
           (s\<lparr>fe_encodings := E\<rparr>)"
  have r1: "ready env ?s1" using E(2) by simp
  then have g1: "good_history env ?s1" by (simp add: ready_def)
  obtain h where h: "push_history env p c ?s1 = (?s1\<lparr>fe_history := h\<rparr>, Inr ())"
      "good_history env (?s1\<lparr>fe_history := h\<rparr>)"
      "undo_stack env (?s1\<lparr>fe_history := h\<rparr>) = (undo_stack env ?s1)(p := last_n max_history_per_file (undo_stack env ?s1 p @ [c]))"
    by (rule push_history_spec [OF g1, of p c])
  have "edited env s p c t (?s1\<lparr>fe_history := h\<rparr>)"
    using h(2,3) r1 by (auto simp: edited_def ready_def plain_file_def)
  then show thesis
    by (intro that) (simp_all add: bind_st_def E(1) h(1))
qed

text \<open>A range read at the end only looks at the file: it fails exactly for a file above the limit.\<close>

lemma read_back:
  assumes "utf8_env env" and "edited env s p c t s'"
  shows "fits env t \<Longrightarrow> \<exists>E l. read_file env p (Some a) (Some b) s' = (s'\<lparr>fe_encodings := E\<rparr>, Inr l) \<and>
           edited env s p c t (s'\<lparr>fe_encodings := E\<rparr>)"
    and "\<not> fits env t \<Longrightarrow> \<exists>E m. read_file env p r1 r2 s' = (s'\<lparr>fe_encodings := E\<rparr>, Inl (Tool_Error m)) \<and>
           edited env s p c t (s'\<lparr>fe_encodings := E\<rparr>)"
proof -
  have pf: "plain_file env s' p t" and r: "ready env s'" using assms(2) by (simp_all add: edited_def)
  have keep: "edited env s p c t (s'\<lparr>fe_encodings := E\<rparr>)" if "ready env (s'\<lparr>fe_encodings := E\<rparr>)" for E
    using assms(2) that by (auto simp: edited_def plain_file_def)
  show "\<exists>E l. read_file env p (Some a) (Some b) s' = (s'\<lparr>fe_encodings := E\<rparr>, Inr l) \<and>
           edited env s p c t (s'\<lparr>fe_encodings := E\<rparr>)" if "fits env t"
    using plain_file_text(1) [OF assms(1) pf] plain_file_text(2) [OF pf] assms(1) that r keep
    by (metis read_lines_ok)
  show "\<exists>E m. read_file env p r1 r2 s' = (s'\<lparr>fe_encodings := E\<rparr>, Inl (Tool_Error m)) \<and>
           edited env s p c t (s'\<lparr>fe_encodings := E\<rparr>)" if nf: "\<not> fits env t"
  proof -
    obtain E where E: "get_encoding env p s' = (s'\<lparr>fe_encodings := E\<rparr>, Inr default_encoding)"
        "ready env (s'\<lparr>fe_encodings := E\<rparr>)"
      by (rule get_encoding_ok [OF assms(1) r])
    obtain m k where "node_at s' p = Some (Plain_File (encoded env t) m k)"
      using pf by (auto simp: plain_file_def)
    then have "\<exists>msg. validate_file env p (s'\<lparr>fe_encodings := E\<rparr>) = Inl (Tool_Error msg)"
      using nf by (simp add: validate_file_def fits_def file_validation_error_def)
    with E keep [OF E(2)] show ?thesis by (auto simp: read_file_def bind_st_def)
  qed
qed

lemma finish_replace_effect:
  assumes "utf8_env env" and "edited env s p c t s1"
  obtains E where "fst (finish_replace env p c l n t s1) = s1\<lparr>fe_encodings := E\<rparr>"
    and "edited env s p c t (s1\<lparr>fe_encodings := E\<rparr>)"
    and "if fits env t then \<exists>obs. snd (finish_replace env p c l n t s1) = Inr obs
         else \<exists>m. snd (finish_replace env p c l n t s1) = Inl (Tool_Error m)"
proof -
  have "\<exists>a b f. finish_replace env p c l n t = bind_st (read_file env p (Some a) (Some b)) (\<lambda>x. return_st (f x))"
    unfolding finish_replace_def Let_def by (intro exI) (rule refl)
  then obtain a b f where fr: "finish_replace env p c l n t =
      bind_st (read_file env p (Some a) (Some b)) (\<lambda>x. return_st (f x))" by blast
  show thesis
  proof (cases "fits env t")
    case True
    with read_back(1) [OF assms True, of a b] that show thesis
      by (auto simp: fr bind_st_def return_st_def)
  next
    case False
    with read_back(2) [OF assms False, of "Some a" "Some b"] that show thesis
      by (auto simp: fr bind_st_def return_st_def)
  qed
qed

lemma str_replace_effect:
  assumes "editable env s p content" and "replacement_pair old new content = (o1, n1)"
    and "locate_unique p o1 content = Inr i"
  defines "t \<equiv> take i content @ n1 @ drop (i + length o1) content"
  shows "edited env s p content t (fst (str_replace env p old new s))"
    and "if fits env t then \<exists>obs. snd (str_replace env p old new s) = Inr obs
         else \<exists>m. snd (str_replace env p old new s) = Inl (Tool_Error m)"
proof -
  have a: "utf8_env env" "ready env s" "file_text env s p = Some content" "small_file env s p"
    using assms(1) by (simp_all add: editable_def)
  obtain E where E: "read_file env p None None s = (s\<lparr>fe_encodings := E\<rparr>, Inr content)"
      "ready env (s\<lparr>fe_encodings := E\<rparr>)"
    by (rule read_file_ok [OF a])
  let ?s0 = "s\<lparr>fe_encodings := E\<rparr>"
  have nd: "\<not> is_dir ?s0 p" and sm: "small_file env ?s0 p" using file_text_not_dir [OF a(3)] a(4) by simp_all
  let ?rest = "\<lambda>_::unit. finish_replace env p content (line_number content i) n1 t"
  obtain s1 where s1: "bind_st (write_file env p (Text t)) (\<lambda>_. bind_st (push_history env p content) ?rest) ?s0 = ?rest () s1"
      "edited env ?s0 p content t s1"
    by (rule write_and_push [OF a(1) E(2) nd sm, of t content ?rest])
  have "str_replace env p old new s = replace_at env p content o1 n1 i ?s0"
    using a E(1) assms(2,3)
    by (simp add: str_replace_def validated_file_def bind_st_def validate_ok return_st_def)
  also have "\<dots> = ?rest () s1"
    using s1(1) by (simp add: replace_at_def Let_def t_def)
  finally have r: "str_replace env p old new s = ?rest () s1" .
  have same: "edited env s p content t s'" if "edited env ?s0 p content t s'" for s'
    using that by (simp add: edited_def)
  show "edited env s p content t (fst (str_replace env p old new s))"
    and "if fits env t then \<exists>obs. snd (str_replace env p old new s) = Inr obs
         else \<exists>m. snd (str_replace env p old new s) = Inl (Tool_Error m)"
    unfolding r by (rule finish_replace_effect [OF a(1) same [OF s1(2)], of "line_number content i" n1]; simp)+
qed

lemma insert_text_effect:
  fixes new
  assumes "editable env s p content" and "0 \<le> n" and "n \<le> int (length (file_lines content))"
  defines "t \<equiv> inserted_text n (split_on newline new) (file_lines content)"
  shows "fits env t \<Longrightarrow> edited env s p content t (fst (insert_text env p n new s)) \<and>
           (\<exists>obs. snd (insert_text env p n new s) = Inr obs)"
    and "\<not> fits env t \<Longrightarrow> plain_file env (fst (insert_text env p n new s)) p t \<and>
           undo_stack env (fst (insert_text env p n new s)) = undo_stack env s \<and>
           (\<exists>m. snd (insert_text env p n new s) = Inl (Tool_Error m))"
proof -
  have a: "utf8_env env" "ready env s" "file_text env s p = Some content" "small_file env s p"
    using assms(1) by (simp_all add: editable_def)
  obtain E where E: "get_encoding env p s = (s\<lparr>fe_encodings := E\<rparr>, Inr default_encoding)"
      "ready env (s\<lparr>fe_encodings := E\<rparr>)"
    by (rule get_encoding_ok [OF a(1,2)])
  let ?s0 = "s\<lparr>fe_encodings := E\<rparr>"
  obtain F where F: "count_lines env p ?s0 = (?s0\<lparr>fe_encodings := F\<rparr>, Inr (length (file_lines content)))"
      "ready env (?s0\<lparr>fe_encodings := F\<rparr>)"
    using count_lines_ok [OF a(1) E(2), of p content] a(3) by auto
  let ?s1 = "?s0\<lparr>fe_encodings := F\<rparr>"
  let ?s2 = "put_node p (Plain_File (encoded env t) (ev_clock env (fe_writes ?s1)) temp_file_mode) ?s1"
  let ?rest = "finish_insert env p n (length (file_lines content)) (length (split_on newline new)) content"
  have mv: "ev_can_move env p" using a(1) by (simp add: utf8_env_def host_env_def)
  have run: "insert_text env p n new s = ?rest ?s2"
    using a E(1) F(1) assms(2,3) mv
    by (simp add: insert_text_def bind_st_def validated_file_def validate_ok read_text_ok t_def [symmetric]
        replace_file_def encoded_simps)
  have r2: "ready env ?s2" using F(2) by simp
  have pf: "plain_file env ?s2 p t" by (auto simp: plain_file_def)
  have same: "plain_file env (x\<lparr>fe_encodings := G\<rparr>) p t = plain_file env x p t" for x G
    by (simp add: plain_file_def)
  have "\<exists>c d f. ?rest = bind_st (read_file env p (Some c) (Some d)) (\<lambda>snippet.
      bind_st (push_history env p content) (\<lambda>_. bind_st (read_file env p None None) (\<lambda>x. return_st (f snippet x))))"
    unfolding finish_insert_def Let_def by (intro exI) (rule refl)
  then obtain c d f where fr: "?rest = bind_st (read_file env p (Some c) (Some d)) (\<lambda>snippet.
      bind_st (push_history env p content) (\<lambda>_. bind_st (read_file env p None None) (\<lambda>x. return_st (f snippet x))))"
    by blast
  show "plain_file env (fst (insert_text env p n new s)) p t \<and>
           undo_stack env (fst (insert_text env p n new s)) = undo_stack env s \<and>
           (\<exists>m. snd (insert_text env p n new s) = Inl (Tool_Error m))" if "\<not> fits env t"
  proof -
    obtain G where G: "get_encoding env p ?s2 = (?s2\<lparr>fe_encodings := G\<rparr>, Inr default_encoding)"
      by (rule get_encoding_ok [OF a(1) r2])
    have "\<exists>msg. validate_file env p (?s2\<lparr>fe_encodings := G\<rparr>) = Inl (Tool_Error msg)"
      using that by (simp add: validate_file_def fits_def file_validation_error_def)
    then obtain msg where "read_file env p (Some c) (Some d) ?s2 = (?s2\<lparr>fe_encodings := G\<rparr>, Inl (Tool_Error msg))"
      using G by (auto simp: read_file_def bind_st_def)
    then show ?thesis unfolding run fr by (simp add: bind_st_def plain_file_def)
  qed
  show "edited env s p content t (fst (insert_text env p n new s)) \<and>
           (\<exists>obs. snd (insert_text env p n new s) = Inr obs)" if fit: "fits env t"
  proof -
    have ft: "file_text env ?s2 p = Some (universal_newlines t)" and sm: "small_file env ?s2 p"
      using plain_file_text(1) [OF a(1) pf] plain_file_text(2) [OF pf] fit by blast+
    obtain G where G: "read_file env p (Some c) (Some d) ?s2 =
          (?s2\<lparr>fe_encodings := G\<rparr>, Inr (concat (line_range c d (file_lines (universal_newlines t)))))"
        "ready env (?s2\<lparr>fe_encodings := G\<rparr>)"
      by (rule read_lines_ok [OF a(1) r2 ft sm, of c d])
    let ?s3 = "?s2\<lparr>fe_encodings := G\<rparr>"
    have g3: "good_history env ?s3" using G(2) by (simp add: ready_def)
    obtain h where h: "push_history env p content ?s3 = (?s3\<lparr>fe_history := h\<rparr>, Inr ())"
        "good_history env (?s3\<lparr>fe_history := h\<rparr>)"
        "undo_stack env (?s3\<lparr>fe_history := h\<rparr>) =
           (undo_stack env ?s3)(p := last_n max_history_per_file (undo_stack env ?s3 p @ [content]))"
      by (rule push_history_spec [OF g3, of p content])
    let ?s4 = "?s3\<lparr>fe_history := h\<rparr>"
    have r4: "ready env ?s4" using G(2) h(2) by (simp add: ready_def)
    have ft4: "file_text env ?s4 p = Some (universal_newlines t)" using ft by (simp del: file_text_put)
    have sm4: "small_file env ?s4 p" using sm by (simp del: small_file_put)
    obtain H where H: "read_file env p None None ?s4 = (?s4\<lparr>fe_encodings := H\<rparr>, Inr (universal_newlines t))"
        "ready env (?s4\<lparr>fe_encodings := H\<rparr>)"
      by (rule read_file_ok [OF a(1) r4 ft4 sm4])
    have "undo_stack env (?s4\<lparr>fe_encodings := H\<rparr>) =
        (undo_stack env s)(p := last_n max_history_per_file (undo_stack env s p @ [content]))"
      using h(3) by (simp add: undo_stack_def put_node_def)
    then have "edited env s p content t (?s4\<lparr>fe_encodings := H\<rparr>)"
      using H(2) by (simp add: edited_def plain_file_def)
    moreover have "insert_text env p n new s = (?s4\<lparr>fe_encodings := H\<rparr>, Inr (f (concat (line_range c d (file_lines (universal_newlines t)))) (universal_newlines t)))"
      unfolding run fr bind_st_run [of "read_file env p (Some c) (Some d)", OF G(1)]
        bind_st_run [of "push_history env p content", OF h(1)]
        bind_st_run [of "read_file env p None None", OF H(1)] by (simp add: return_st_def)
    ultimately show ?thesis by simp
  qed
qed

lemma undo_edit_effect:
  assumes "editable env s p cur" and "undo_stack env s p = st @ [old]"
  obtains s' obs where "undo_edit env p s = (s', Inr obs)" and "ready env s'" and "plain_file env s' p old"
    and "undo_stack env s' = (undo_stack env s)(p := st)"
proof -
  have a: "utf8_env env" "ready env s" "file_text env s p = Some cur" "small_file env s p"
    using assms(1) by (simp_all add: editable_def)
  obtain E where E: "read_file env p None None s = (s\<lparr>fe_encodings := E\<rparr>, Inr cur)"
      "ready env (s\<lparr>fe_encodings := E\<rparr>)"
    by (rule read_file_ok [OF a])
  let ?s0 = "s\<lparr>fe_encodings := E\<rparr>"
  have g0: "good_history env ?s0" using E(2) by (simp add: ready_def)
  obtain h where h: "pop_history env p ?s0 = (?s0\<lparr>fe_history := h\<rparr>, Inr (Some (Text old)))"
      "good_history env (?s0\<lparr>fe_history := h\<rparr>)"
      "undo_stack env (?s0\<lparr>fe_history := h\<rparr>) = (undo_stack env s)(p := st)"
    using pop_history_spec [OF g0, of p] assms(2) by auto
  let ?s1 = "?s0\<lparr>fe_history := h\<rparr>"
  have r1: "ready env ?s1" using E(2) h(2) by (simp add: ready_def)
  have nd: "\<not> is_dir ?s1 p" using file_text_not_dir [OF a(3)] by (simp add: is_dir_def)
  have sm: "small_file env ?s1 p" using a(4) by simp
  obtain F where F: "write_file env p (Text old) ?s1 =
        (put_node p (Plain_File (encoded env old) (ev_clock env (fe_writes ?s1)) (mode_at env ?s1 p))
           (?s1\<lparr>fe_encodings := F\<rparr>), Inr ())" "ready env (?s1\<lparr>fe_encodings := F\<rparr>)"
    by (rule write_file_ok [OF a(1) r1 nd sm, of old])
  let ?s2 = "put_node p (Plain_File (encoded env old) (ev_clock env (fe_writes ?s1)) (mode_at env ?s1 p))
           (?s1\<lparr>fe_encodings := F\<rparr>)"
  have "\<exists>obs. undo_edit env p s = (?s2, Inr obs)"
    by (simp add: undo_edit_def bind_st_def E(1) h(1) F(1) return_st_def)
  moreover have "ready env ?s2" using F(2) by simp
  moreover have "plain_file env ?s2 p old" by (auto simp: plain_file_def)
  moreover have "undo_stack env ?s2 = (undo_stack env s)(p := st)"
    using h(3) by (simp add: undo_stack_def put_node_def)
  ultimately show thesis using that by blast
qed

section \<open>Calls of the tool\<close>

definition basic_action :: "command \<Rightarrow> string \<Rightarrow> file_action" where
  "basic_action cmd p =
     \<lparr>fa_command = cmd, fa_path = p, fa_file_text = None, fa_view_range = None, fa_old_str = None,
      fa_new_str = None, fa_insert_line = None\<rparr>"

definition replace_action :: "string \<Rightarrow> string \<Rightarrow> string \<Rightarrow> file_action" where
  "replace_action p old new = (basic_action Str_Replace p)\<lparr>fa_old_str := Some old, fa_new_str := Some new\<rparr>"

definition insert_action :: "string \<Rightarrow> int \<Rightarrow> string \<Rightarrow> file_action" where
  "insert_action p n new = (basic_action Insert p)\<lparr>fa_insert_line := Some n, fa_new_str := Some new\<rparr>"

definition create_action :: "string \<Rightarrow> string \<Rightarrow> file_action" where
  "create_action p t = (basic_action Create p)\<lparr>fa_file_text := Some t\<rparr>"

lemmas action_defs = basic_action_def replace_action_def insert_action_def create_action_def

lemma call_existing:
  assumes "absolute_path env p" and "file_text env s p = Some t" and "fa_path a = p" and "fa_command a \<noteq> Create"
  shows "editor_call env a s = run_command env a p s"
  using assms file_text_not_dir [OF assms(2)]
  by (simp add: editor_call_def absolute_path_def validate_path_def)

lemma call_replace:
  "absolute_path env p \<Longrightarrow> file_text env s p = Some t \<Longrightarrow> new \<noteq> old \<Longrightarrow>
     editor_call env (replace_action p old new) s = str_replace env p old new s"
  by (simp add: call_existing run_command_def action_defs)

lemma call_insert:
  "absolute_path env p \<Longrightarrow> file_text env s p = Some t \<Longrightarrow>
     editor_call env (insert_action p n new) s = insert_text env p n new s"
  by (simp add: call_existing run_command_def action_defs)

lemma call_undo:
  "absolute_path env p \<Longrightarrow> file_text env s p = Some t \<Longrightarrow>
     editor_call env (basic_action Undo_Edit p) s = undo_edit env p s"
  by (simp add: call_existing run_command_def action_defs)

text \<open>The occurrences the scan gives.\<close>

definition occurs_at :: "string \<Rightarrow> string \<Rightarrow> nat \<Rightarrow> bool" where
  "occurs_at old s j \<longleftrightarrow> starts_with old (drop j s)"

lemma find_from_none: "old \<noteq> [] \<Longrightarrow> (\<And>j. \<not> occurs_at old s j) \<Longrightarrow> find_from old i s = []"
proof (induction old i s rule: find_from.induct)
  case (2 old i c cs)
  have "\<not> starts_with old (c # cs)" using 2(5) [of 0] by (simp add: occurs_at_def)
  moreover have "\<not> occurs_at old cs j" for j using 2(5) [of "Suc j"] by (simp add: occurs_at_def)
  ultimately show ?case using 2(3,4) by simp
qed simp

lemma find_from_unique:
  "old \<noteq> [] \<Longrightarrow> (\<And>j. occurs_at old (a @ old @ z) j \<Longrightarrow> j = length a) \<Longrightarrow>
     find_from old i (a @ old @ z) = [i + length a]"
proof (induction a arbitrary: i)
  case Nil
  obtain c cs where old: "old = c # cs" using Nil.prems(1) by (cases old) auto
  have "\<not> occurs_at old z j" for j
  proof
    assume "occurs_at old z j"
    then have "occurs_at old ([] @ old @ z) (length old + j)" by (simp add: occurs_at_def)
    from Nil.prems(2) [OF this] Nil.prems(1) show False by simp
  qed
  then have "find_from old (i + length old) z = []" by (rule find_from_none [OF Nil.prems(1)])
  moreover have "starts_with old (c # cs @ z)" unfolding old by (metis append_Cons starts_with_append)
  ultimately show ?case by (simp add: old)
next
  case (Cons x a)
  have "\<not> starts_with old (x # a @ old @ z)" using Cons.prems(2) [of 0] by (auto simp: occurs_at_def)
  moreover have "j = length a" if "occurs_at old (a @ old @ z) j" for j
    using Cons.prems(2) [of "Suc j"] that by (simp add: occurs_at_def)
  ultimately show ?case using Cons.IH [of "i + 1"] Cons.prems(1) by simp
qed

lemma unique_occurrence:
  assumes "old \<noteq> []" and "\<And>j. occurs_at old (a @ old @ z) j \<Longrightarrow> j = length a"
  shows "replacement_pair old new (a @ old @ z) = (old, new)"
    and "locate_unique p old (a @ old @ z) = Inr (length a)"
  using find_from_unique [OF assms, where i = 0] by (simp_all add: replacement_pair_def locate_unique_def occurrences_def)

lemma edited_editable:
  assumes "utf8_env env" and "edited env s p c t s'" and "fits env t"
  shows "editable env s' p (universal_newlines t)"
  using assms plain_file_text [of env s' p t] by (auto simp: editable_def edited_def)

lemma last_n_snoc: "0 < n \<Longrightarrow> \<exists>ys. last_n n (xs @ [x]) = ys @ [x]"
  by (auto simp: last_n_def Suc_diff_le le_Suc_eq)

lemma edited_top: "edited env s p c t s' \<Longrightarrow> \<exists>st. undo_stack env s' p = st @ [c]"
  using last_n_snoc [of max_history_per_file "undo_stack env s p" c]
  by (auto simp: edited_def max_history_per_file_def)

text \<open>An edit that succeeds has written a text that fits and recorded the text before.\<close>

lemma str_replace_success:
  assumes "editable env s p content" and "str_replace env p old new s = (s1, Inr obs)"
  shows "\<exists>t. edited env s p content t s1 \<and> fits env t"
proof -
  obtain o1 n1 where on: "replacement_pair old new content = (o1, n1)" by fastforce
  show ?thesis
  proof (cases "locate_unique p o1 content")
    case (Inr i)
    from str_replace_effect [OF assms(1) on Inr] assms(2) show ?thesis
      by (auto split: if_splits)
  next
    case (Inl e)
    have a: "utf8_env env" "ready env s" "file_text env s p = Some content" "small_file env s p"
      using assms(1) by (simp_all add: editable_def)
    obtain E where E: "read_file env p None None s = (s\<lparr>fe_encodings := E\<rparr>, Inr content)"
      by (rule read_file_ok [OF a])
    then have "str_replace env p old new s = (s\<lparr>fe_encodings := E\<rparr>, Inl e)"
      using a on Inl
      by (simp add: str_replace_def validated_file_def bind_st_def validate_ok return_st_def raise_st_def)
    with assms(2) show ?thesis by simp
  qed
qed

lemma insert_text_success:
  assumes "editable env s p content" and "insert_text env p n new s = (s1, Inr obs)"
  shows "\<exists>t. edited env s p content t s1 \<and> fits env t"
proof (cases "0 \<le> n \<and> n \<le> int (length (file_lines content))")
  case True
  then have n: "0 \<le> n" "n \<le> int (length (file_lines content))" by simp_all
  from insert_text_effect [OF assms(1) n, of new] assms(2) show ?thesis by auto
next
  case False
  have a: "utf8_env env" "ready env s" "file_text env s p = Some content" "small_file env s p"
    using assms(1) by (simp_all add: editable_def)
  obtain E where E: "get_encoding env p s = (s\<lparr>fe_encodings := E\<rparr>, Inr default_encoding)"
      "ready env (s\<lparr>fe_encodings := E\<rparr>)"
    by (rule get_encoding_ok [OF a(1,2)])
  obtain F where F: "count_lines env p (s\<lparr>fe_encodings := E\<rparr>) =
        (s\<lparr>fe_encodings := E, fe_encodings := F\<rparr>, Inr (length (file_lines content)))"
    using count_lines_ok [OF a(1) E(2), of p content] a(3) by auto
  have "\<exists>e. insert_text env p n new s = (s\<lparr>fe_encodings := E, fe_encodings := F\<rparr>, Inl e)"
    using a E(1) F False by (auto simp: insert_text_def bind_st_def validated_file_def validate_ok raise_st_def)
  with assms(2) show ?thesis by auto
qed

lemma undo_after_edit:
  assumes "utf8_env env" and "edited env s p c t s1" and "fits env t" and "absolute_path env p"
  obtains s2 obs where "editor_call env (basic_action Undo_Edit p) s1 = (s2, Inr obs)"
    and "ready env s2" and "plain_file env s2 p c"
proof -
  have e: "editable env s1 p (universal_newlines t)" by (rule edited_editable [OF assms(1-3)])
  then have ft: "file_text env s1 p = Some (universal_newlines t)" by (simp add: editable_def)
  obtain st where "undo_stack env s1 p = st @ [c]" using edited_top [OF assms(2)] by blast
  from undo_edit_effect [OF e this] that show thesis
    by (metis call_undo [OF assms(4) ft])
qed

section \<open>Properties\<close>

definition demo_editor_env :: editor_env where
  "demo_editor_env =
     \<lparr>ev_cwd = ''/w'', ev_max_size = 12, ev_disk = demo_disk, ev_charset = (\<lambda>_. None),
      ev_decode = (\<lambda>_ b. Inr b), ev_encode = (\<lambda>_ t. Inr t), ev_binary = (\<lambda>_. False),
      ev_can_read = (\<lambda>_. True), ev_can_write = (\<lambda>_. True), ev_can_move = (\<lambda>_. True),
      ev_can_list = (\<lambda>_. True), ev_os_error = (\<lambda>p. p), ev_clock = id, ev_new_mode = 420,
      ev_keep = tl, ev_home = (\<lambda>_. None), ev_mime = (\<lambda>_. None), ev_resolve = id,
      ev_repr = (\<lambda>_. [])\<rparr>"

definition demo_editor :: "string \<Rightarrow> editor" where
  "demo_editor t = new_editor [(''/w'', Directory), (''/w/a'', Plain_File t 0 420)]"

lemma demo_host: "host_env demo_editor_env"
proof -
  have "set (tl c) \<subseteq> set c" for c :: "(string \<times> string \<times> nat) list" by (cases c) auto
  then show ?thesis by (simp add: host_env_def demo_editor_env_def detect_encoding_def)
qed

lemma demo_utf8: "utf8_env demo_editor_env"
  using demo_host by (simp add: utf8_env_def) (simp add: demo_editor_env_def)

lemma new_editor_good: "inj (de_hash (ev_disk env)) \<Longrightarrow> good_history env (new_editor files)"
  using new_history_ok [of "ev_disk env"] new_history_wf
  by (simp add: good_history_def new_editor_def new_history_def)

lemma demo_ready: "ready demo_editor_env (demo_editor t)"
  using new_editor_good [of demo_editor_env]
  by (simp add: ready_def demo_editor_def) (simp add: new_editor_def demo_editor_env_def demo_disk_def)

lemma demo_editable:
  "length t \<le> 12 \<Longrightarrow> editable demo_editor_env (demo_editor t) ''/w/a'' (universal_newlines t)"
  by (simp add: editable_def demo_utf8 demo_ready)
    (simp add: demo_editor_def new_editor_def file_text_def small_file_def node_at_def demo_editor_env_def)

lemma demo_absolute: "absolute_path demo_editor_env ''/w/a''"
  by (simp add: absolute_path_def is_host_absolute_path_def py_path_def path_root_def path_parts_def
      starts_with_def py_strip_def py_rstrip_def py_lstrip_def py_space_def)

lemma demo_encoded [simp]: "encoded demo_editor_env t = t"
  by (simp add: encoded_def demo_editor_env_def)

lemma demo_fits [simp]: "fits demo_editor_env t \<longleftrightarrow> length t \<le> 12"
  by (simp add: fits_def) (simp add: demo_editor_env_def)


lemma occurs_at_bound: "occurs_at old s j \<Longrightarrow> old \<noteq> [] \<Longrightarrow> j < length s"
  by (cases "j < length s") (auto simp: occurs_at_def starts_with_def)


text \<open>
  undoing a replacement or an insertion that succeeded gives the file the text it had before.
\<close>

theorem undo_restores_text:
  assumes "editable env s p t" and "absolute_path env p"
    and "fa_path a = p" and "fa_command a \<in> {Str_Replace, Insert}"
    and "editor_call env a s = (s1, Inr obs)"
  shows "file_text env (fst (editor_call env (basic_action Undo_Edit p) s1)) p = Some t"
proof -
  have ft: "file_text env s p = Some t" and u: "utf8_env env" using assms(1) by (simp_all add: editable_def)
  have run: "run_command env a p s = (s1, Inr obs)"
    using call_existing [OF assms(2) ft assms(3)] assms(4,5) by auto
  have "\<exists>t'. edited env s p t t' s1 \<and> fits env t'"
  proof (cases "fa_command a = Str_Replace")
    case True
    then obtain old new where "str_replace env p old new s = (s1, Inr obs)"
      using run by (auto simp: run_command_def raise_st_def split: option.splits if_splits)
    then show ?thesis by (rule str_replace_success [OF assms(1)])
  next
    case False
    then obtain n new where "insert_text env p n new s = (s1, Inr obs)"
      using run assms(4) by (auto simp: run_command_def raise_st_def split: option.splits)
    then show ?thesis by (rule insert_text_success [OF assms(1)])
  qed
  then obtain t' where t': "edited env s p t t' s1" "fits env t'" by blast
  obtain s2 obs2 where s2: "editor_call env (basic_action Undo_Edit p) s1 = (s2, Inr obs2)" "plain_file env s2 p t"
    by (rule undo_after_edit [OF u t' assms(2)])
  then show ?thesis
    using plain_file_text(1) [OF u s2(2)] editable_text_plain [OF assms(1)] by simp
qed

lemma undo_restores_text_witness:
  "\<exists>s1 obs. editor_call demo_editor_env (insert_action ''/w/a'' 0 ''x'') (demo_editor ''abc'') = (s1, Inr obs) \<and>
     file_text demo_editor_env (fst (editor_call demo_editor_env (basic_action Undo_Edit ''/w/a'') s1)) ''/w/a'' = Some ''abc''"
proof -
  have e: "editable demo_editor_env (demo_editor ''abc'') ''/w/a'' ''abc''"
    using demo_editable [of "''abc''"] by simp
  then have ft: "file_text demo_editor_env (demo_editor ''abc'') ''/w/a'' = Some ''abc''" by (simp add: editable_def)
  have "fits demo_editor_env (inserted_text 0 (split_on newline ''x'') (file_lines ''abc''))"
    by (simp add: inserted_text_def newline_def)
  from insert_text_effect(1) [OF e _ _ this] obtain s1 obs where
    "editor_call demo_editor_env (insert_action ''/w/a'' 0 ''x'') (demo_editor ''abc'') = (s1, Inr obs)"
    by (cases "insert_text demo_editor_env ''/w/a'' 0 ''x'' (demo_editor ''abc'')")
      (auto simp: call_insert [OF demo_absolute ft])
  with undo_restores_text [OF e demo_absolute _ _ this] show ?thesis
    by (auto simp: insert_action_def basic_action_def)
qed

text \<open>
  with a list of allowed files, a call changes at most the file its path names, only if that
  path resolves to an allowed file, and never by viewing.
\<close>

theorem executor_touches_allowed:
  assumes "node_at (fst (editor_executor env (Some allowed) a s)) q \<noteq> node_at s q"
  shows "q = py_path (fa_path a) \<and> ev_resolve env (fa_path a) \<in> set allowed \<and> fa_command a \<noteq> View"
proof (intro conjI)
  show "q = py_path (fa_path a)"
    using oth.executor_step [OF refl, where env = env and a = a and s = s and allowed = "Some allowed"] assms by (auto simp: others_kept_def)
  have view: "fe_files (fst (editor_call env a s)) = fe_files s" if "fa_command a = View"
    using vie.view_path_step [of env "py_path (fa_path a)" "fa_view_range a"] that
    by (simp add: editor_call_def Let_def run_command_def stays_def all_kept_def split: sum.split)
  show nv: "fa_command a \<noteq> View"
    using assms view oth.file_editor_state by (auto simp: editor_executor_def node_at_def split: if_splits)
  show "ev_resolve env (fa_path a) \<in> set allowed"
    using assms nv by (auto simp: editor_executor_def split: if_splits)
qed

lemma executor_touches_allowed_witness:
  "ev_resolve demo_editor_env ''/w/a'' \<in> set [''/w/a'']"
proof -
  have e: "editable demo_editor_env (demo_editor ''abc'') ''/w/a'' ''abc''"
    using demo_editable [of "''abc''"] by simp
  then have ft: "file_text demo_editor_env (demo_editor ''abc'') ''/w/a'' = Some ''abc''" by (simp add: editable_def)
  have "fits demo_editor_env (inserted_text 0 (split_on newline ''x'') (file_lines ''abc''))"
    by (simp add: inserted_text_def newline_def)
  from insert_text_effect(1) [OF e _ _ this]
  have "plain_file demo_editor_env (fst (editor_call demo_editor_env (insert_action ''/w/a'' 0 ''x'') (demo_editor ''abc'')))
      ''/w/a'' (inserted_text 0 (split_on newline ''x'') (file_lines ''abc''))"
    by (simp add: edited_def call_insert [OF demo_absolute ft])
  moreover have "\<not> plain_file demo_editor_env (demo_editor ''abc'') ''/w/a'' (inserted_text 0 (split_on newline ''x'') (file_lines ''abc''))"
    by (simp add: plain_file_def demo_editor_def new_editor_def node_at_def inserted_text_def newline_def)
  ultimately have "node_at (fst (editor_call demo_editor_env (insert_action ''/w/a'' 0 ''x'') (demo_editor ''abc''))) ''/w/a'' \<noteq>
      node_at (demo_editor ''abc'') ''/w/a''"
    by (auto simp: plain_file_def)
  moreover have r: "ev_resolve demo_editor_env ''/w/a'' = ''/w/a''" by (simp add: demo_editor_env_def)
  ultimately have "node_at (fst (editor_executor demo_editor_env (Some [''/w/a'']) (insert_action ''/w/a'' 0 ''x'') (demo_editor ''abc''))) ''/w/a'' \<noteq>
      node_at (demo_editor ''abc'') ''/w/a''"
    by (simp add: editor_executor_def insert_action_def basic_action_def oth.file_editor_state)
  from executor_touches_allowed [OF this] show ?thesis by (simp add: insert_action_def basic_action_def)
qed

definition run_calls :: "editor_env \<Rightarrow> string list option \<Rightarrow> file_action list \<Rightarrow> editor \<Rightarrow> editor" where
  "run_calls env allowed as s = fold (\<lambda>a s. fst (editor_executor env allowed a s)) as s"

text \<open>
  C22: whatever the calls, on whatever host, every undo history stays well formed: its entry
  numbers increase up to the counter, each has its text, and there are at most ten.
\<close>

theorem calls_keep_histories:
  assumes "inj (de_hash (ev_disk env))"
  shows "history_wf 10 (disk_entries (ev_disk env) (fe_history (run_calls env allowed as (new_editor files)))) p"
proof -
  have "good_history env (run_calls env allowed as s)" if "good_history env s" for s
    using that
  proof (induction as arbitrary: s)
    case (Cons a as)
    have "good_history env (fst (editor_executor env allowed a s))"
      using his.executor_step [OF refl, where env = env and a = a and s = s and allowed = allowed] Cons.prems
      by (simp add: history_kept_def)
    from Cons.IH [OF this] show ?case by (simp add: run_calls_def)
  qed (simp add: run_calls_def)
  from this [OF new_editor_good [OF assms]] show ?thesis
    by (simp add: good_history_def histories_wf_def max_history_per_file_def)
qed

lemma calls_keep_histories_witness:
  "history_wf 10 (disk_entries demo_disk (fe_history (run_calls demo_editor_env None
     [create_action ''/w/b'' ''x'', replace_action ''/w/b'' ''x'' ''y'', basic_action Undo_Edit ''/w/b'']
     (new_editor [])))) ''/w/b''"
  using calls_keep_histories [of demo_editor_env None] by (simp add: demo_editor_env_def demo_disk_def)

text \<open>
  an edit whose text the file's encoding cannot represent empties the file: the call
  reports an error, and the text that was lost is not in the history.
\<close>

theorem unencodable_edit_empties_file:
  assumes "host_env env" and "ready env s" and "absolute_path env p"
    and "file_text env s p = Some content" and "small_file env s p" and "new \<noteq> old"
    and "occurrences old content = [i]"
    and "ev_encode env default_encoding (take i content @ new @ drop (i + length old) content) = Inl e"
  shows "\<exists>s' msg m k. editor_call env (replace_action p old new) s = (s', Inl (Tool_Error msg)) \<and>
           node_at s' p = Some (Plain_File [] m k) \<and> undo_stack env s' = undo_stack env s"
proof -
  let ?t = "take i content @ new @ drop (i + length old) content"
  obtain E where E: "read_file env p None None s = (s\<lparr>fe_encodings := E\<rparr>, Inr content)"
      "ready env (s\<lparr>fe_encodings := E\<rparr>)"
    by (rule host_read_file [OF assms(1,2,4,5)])
  obtain F where F: "get_encoding env p (s\<lparr>fe_encodings := E\<rparr>) = (s\<lparr>fe_encodings := E, fe_encodings := F\<rparr>, Inr default_encoding)"
    by (rule host_get_encoding [OF assms(1) E(2)])
  let ?s1 = "s\<lparr>fe_encodings := E, fe_encodings := F\<rparr>"
  let ?s2 = "put_node p (Plain_File [] (ev_clock env (fe_writes s)) (mode_at env s p)) (s\<lparr>fe_encodings := F\<rparr>)"
  have nd: "\<not> is_dir s p" using file_text_not_dir [OF assms(4)] by simp
  have cw: "ev_can_write env p" using assms(1) by (simp add: host_env_def)
  have v: "validate_file env p ?s1 = Inr ()" using host_validate [OF assms(1), of ?s1 p] assms(5) by simp
  have w: "\<exists>msg. write_file env p (Text ?t) (s\<lparr>fe_encodings := E\<rparr>) = (?s2, Inl (Tool_Error msg))"
    using F v nd cw assms(8)
    by (simp add: write_file_def bind_st_def write_text_def Let_def encode_value_def wrap_error_def)
  then obtain msg where w: "write_file env p (Text ?t) (s\<lparr>fe_encodings := E\<rparr>) = (?s2, Inl (Tool_Error msg))" by blast
  have "replacement_pair old new content = (old, new)" "locate_unique p old content = Inr i"
    using assms(7) by (simp_all add: replacement_pair_def locate_unique_def)
  then have "str_replace env p old new s = (?s2, Inl (Tool_Error msg))"
    using E(1) host_validate [OF assms(1,5)] w
    by (simp add: str_replace_def validated_file_def bind_st_def return_st_def replace_at_def Let_def)
  then show ?thesis
    by (simp add: call_replace [OF assms(3,4,6)])
qed

definition strict_codec_env :: editor_env where
  "strict_codec_env = demo_editor_env\<lparr>ev_encode := \<lambda>_ t. if CHR ''!'' \<in> set t then Inl ''unencodable'' else Inr t\<rparr>"

lemma unencodable_edit_empties_file_witness:
  "\<exists>s' msg m k. editor_call strict_codec_env (replace_action ''/w/a'' ''b'' ''!'') (demo_editor ''abc'') = (s', Inl (Tool_Error msg)) \<and>
     node_at s' ''/w/a'' = Some (Plain_File [] m k) \<and> undo_stack strict_codec_env s' = undo_stack strict_codec_env (demo_editor ''abc'')"
proof -
  have h: "host_env strict_codec_env"
    using demo_host by (simp add: host_env_def strict_codec_env_def detect_encoding_def)
  have r: "ready strict_codec_env (demo_editor ''abc'')"
    using demo_ready [of "''abc''"] by (simp add: ready_def good_history_def strict_codec_env_def)
  have a: "absolute_path strict_codec_env ''/w/a''"
    by (simp add: absolute_path_def is_host_absolute_path_def py_path_def path_root_def path_parts_def
        starts_with_def py_strip_def py_rstrip_def py_lstrip_def py_space_def)
  have f: "file_text strict_codec_env (demo_editor ''abc'') ''/w/a'' = Some ''abc''"
    "small_file strict_codec_env (demo_editor ''abc'') ''/w/a''"
    by (simp_all add: file_text_def small_file_def demo_editor_def new_editor_def node_at_def strict_codec_env_def demo_editor_env_def)
  show ?thesis
    by (rule unencodable_edit_empties_file [OF h r a f, of "''!''" "''b''" 1 "''unencodable''"])
      (simp_all add: occurrences_def starts_with_def strict_codec_env_def)
qed

text \<open>
  an edit that makes the file larger than the limit is written all the same; the call
  reports an error, and so does the undo, which leaves the file as it is.
\<close>

theorem oversized_edit_cannot_be_undone:
  assumes "editable env s p content" and "absolute_path env p" and "new \<noteq> old"
    and "occurrences old content = [i]"
    and "\<not> fits env (take i content @ new @ drop (i + length old) content)"
  shows "\<exists>s1 msg s2 msg2. editor_call env (replace_action p old new) s = (s1, Inl (Tool_Error msg)) \<and>
           editor_call env (basic_action Undo_Edit p) s1 = (s2, Inl (Tool_Error msg2)) \<and>
           plain_file env s2 p (take i content @ new @ drop (i + length old) content)"
proof -
  let ?t = "take i content @ new @ drop (i + length old) content"
  have ft: "file_text env s p = Some content" and u: "utf8_env env" using assms(1) by (simp_all add: editable_def)
  have rp: "replacement_pair old new content = (old, new)" and lo: "locate_unique p old content = Inr i"
    using assms(4) by (simp_all add: replacement_pair_def locate_unique_def)
  obtain s1 msg where s1: "str_replace env p old new s = (s1, Inl (Tool_Error msg))" "edited env s p content ?t s1"
    using str_replace_effect [OF assms(1) rp lo] assms(5) by (cases "str_replace env p old new s") auto
  obtain E m2 where E: "read_file env p None None s1 = (s1\<lparr>fe_encodings := E\<rparr>, Inl (Tool_Error m2))"
      "edited env s p content ?t (s1\<lparr>fe_encodings := E\<rparr>)"
    using read_back(2) [OF u s1(2) assms(5)] by blast
  have ft1: "file_text env s1 p = Some (universal_newlines ?t)"
    using plain_file_text(1) [OF u] s1(2) by (simp add: edited_def)
  have "undo_edit env p s1 = (s1\<lparr>fe_encodings := E\<rparr>, Inl (Tool_Error m2))"
    using E(1) by (simp add: undo_edit_def bind_st_def)
  with s1 E(2) show ?thesis
    by (auto simp: call_replace [OF assms(2) ft assms(3)] call_undo [OF assms(2) ft1] edited_def)
qed

lemma oversized_edit_cannot_be_undone_witness:
  "\<exists>s1 msg s2 msg2. editor_call demo_editor_env (replace_action ''/w/a'' ''b'' ''0123456789AB'') (demo_editor ''abc'') = (s1, Inl (Tool_Error msg)) \<and>
     editor_call demo_editor_env (basic_action Undo_Edit ''/w/a'') s1 = (s2, Inl (Tool_Error msg2)) \<and>
     plain_file demo_editor_env s2 ''/w/a'' ''a0123456789ABc''"
proof -
  have "editable demo_editor_env (demo_editor ''abc'') ''/w/a'' ''abc''"
    using demo_editable [of "''abc''"] by simp
  from oversized_edit_cannot_be_undone [OF this demo_absolute, of "''0123456789AB''" "''b''" 1] show ?thesis
    by (simp add: occurrences_def starts_with_def)
qed

lemma file_lines_concat [simp]: "concat (file_lines t) = t"
proof (induction t)
  case (Cons c cs)
  then show ?case by (cases "file_lines cs") auto
qed simp

text \<open>
  inserting after the last line of a file that does not end in a line break glues the
  first inserted line to it.
\<close>

theorem insert_joins_last_line:
  assumes "editable env s p (t @ [c])" and "absolute_path env p" and "c \<noteq> newline"
    and "newline \<notin> set new" and "fits env (t @ [c] @ new @ [newline])"
  shows "plain_file env (fst (editor_call env
           (insert_action p (int (length (file_lines (t @ [c])))) new) s)) p (t @ [c] @ new @ [newline])"
proof -
  let ?n = "int (length (file_lines (t @ [c])))"
  have ft: "file_text env s p = Some (t @ [c])" using assms(1) by (simp add: editable_def)
  have ins: "inserted_text ?n (split_on newline new) (file_lines (t @ [c])) = t @ [c] @ new @ [newline]"
    using assms(4) by (simp add: inserted_text_def)
  have "edited env s p (t @ [c]) (t @ [c] @ new @ [newline]) (fst (insert_text env p ?n new s))"
    using insert_text_effect(1) [OF assms(1), of ?n new] assms(5) by (simp add: ins)
  then show ?thesis by (simp add: call_insert [OF assms(2) ft] edited_def)
qed

lemma insert_joins_last_line_witness:
  "plain_file demo_editor_env (fst (editor_call demo_editor_env (insert_action ''/w/a'' 1 ''x'') (demo_editor ''abc'')))
     ''/w/a'' (''abcx'' @ [newline])"
proof -
  have e: "editable demo_editor_env (demo_editor ''abc'') ''/w/a'' (''ab'' @ ''c'')"
    using demo_editable [of "''abc''"] by simp
  from insert_joins_last_line [OF e demo_absolute, of "''x''"] show ?thesis by (simp add: newline_def)
qed

text \<open>
  undoing right after a file was created leaves it as it is: the history holds the new
  text, since there is no text before it.
\<close>

theorem undo_after_create_keeps_text:
  assumes "utf8_env env" and "ready env s" and "absolute_path env p" and "node_at s p = None" and "fits env t"
  shows "\<exists>s1 s2 obs1 obs2. editor_call env (create_action p t) s = (s1, Inr obs1) \<and>
           editor_call env (basic_action Undo_Edit p) s1 = (s2, Inr obs2) \<and> plain_file env s2 p t"
proof -
  have nd: "\<not> is_dir s p" and sm: "small_file env s p"
    using assms(4) by (simp_all add: is_dir_def small_file_def)
  let ?ret = "\<lambda>_::unit. return_st ((from_text Create (''File created successfully at: '' @ p) (Some p))
      \<lparr>fo_new_content := Some t, fo_prev_exist := False\<rparr>) :: file_observation ed"
  obtain s1 where s1: "create_file env p t s = ?ret () s1" "edited env s p t t s1"
    unfolding create_file_def by (rule write_and_push [OF assms(1,2) nd sm, of t t ?ret])
  have c: "editor_call env (create_action p t) s = create_file env p t s"
    using assms(3,4)
    by (simp add: editor_call_def absolute_path_def validate_path_def path_exists_def is_dir_def
        run_command_def create_action_def basic_action_def)
  obtain s2 obs2 where "editor_call env (basic_action Undo_Edit p) s1 = (s2, Inr obs2)" "plain_file env s2 p t"
    by (rule undo_after_edit [OF assms(1) s1(2) assms(5,3)])
  with c s1(1) show ?thesis by (auto simp: return_st_def)
qed

lemma undo_after_create_keeps_text_witness:
  "\<exists>s1 s2 obs1 obs2. editor_call demo_editor_env (create_action ''/w/a'' ''xy'') (new_editor []) = (s1, Inr obs1) \<and>
     editor_call demo_editor_env (basic_action Undo_Edit ''/w/a'') s1 = (s2, Inr obs2) \<and>
     plain_file demo_editor_env s2 ''/w/a'' ''xy''"
proof -
  have "ready demo_editor_env (new_editor [])"
    using new_editor_good [of demo_editor_env "[]"]
    by (simp add: ready_def) (simp add: new_editor_def demo_editor_env_def demo_disk_def)
  then show ?thesis
    by (intro undo_after_create_keeps_text [OF demo_utf8 _ demo_absolute])
      (simp_all add: node_at_def new_editor_def)
qed

text \<open>A replacement without \<open>new_str\<close> is refused, although the schema makes it optional.\<close>

lemma replace_needs_new_str:
  assumes "absolute_path env p" and "file_text env s p = Some t"
  shows "editor_call env ((basic_action Str_Replace p)\<lparr>fa_old_str := Some old\<rparr>) s =
           (s, Inl (missing_parameter Str_Replace ''new_str''))"
  using assms by (simp add: call_existing run_command_def basic_action_def raise_st_def)

text \<open>A file with CR LF line ends loses every CR in an edit.\<close>

lemma edit_drops_carriage_returns:
  assumes "editable env s p content" and "occurrences old content = [i]" and "CHR 0x0D \<notin> set new"
  shows "\<exists>t. plain_file env (fst (str_replace env p old new s)) p t \<and> CHR 0x0D \<notin> set t"
proof -
  have rp: "replacement_pair old new content = (old, new)" and lo: "locate_unique p old content = Inr i"
    using assms(2) by (simp_all add: replacement_pair_def locate_unique_def)
  have "CHR 0x0D \<notin> set content"
    using universal_newlines_no_cr [of content] by (simp add: editable_text_plain [OF assms(1)])
  with assms(3) str_replace_effect(1) [OF assms(1) rp lo] show ?thesis
    by (intro exI [of _ "take i content @ new @ drop (i + length old) content"])
      (auto simp: edited_def dest: in_set_takeD in_set_dropD)
qed

end
