(* ===== verification/Fifo_Lock.thy ===== *)
theory Fifo_Lock
  imports Prelude
begin

text \<open>
  The reentrant FIFO lock (\<open>sdk/conversation/fifo_lock.py\<close>) as a step relation. A step is one
  critical section of the internal mutex: a call of \<open>acquire\<close> up to its return or its first
  \<open>wait\<close>, a waiter that wakes (notified, timed out or spuriously) and checks the queue again, and a
  call of \<open>release\<close>. A waiter is the thread of its condition, whether it has a timeout and whether a
  notification is on its way to it. The lemmas show mutual exclusion, that no wake-up is lost,
  that the lock is granted in the order of the requests, and that the lock implements a queue.
\<close>

section \<open>The lock\<close>

record 't waiter =
  w_thread :: 't
  w_timed :: bool
  w_notified :: bool

record 't fifo_lock =
  fl_owner :: "'t option"
  fl_count :: nat
  fl_waiters :: "'t waiter list"

definition new_lock :: "'t fifo_lock" where
  "new_lock = \<lparr>fl_owner = None, fl_count = 0, fl_waiters = []\<rparr>"

datatype outcome = Acquired | Refused | Waiting

definition waiting :: "'t fifo_lock \<Rightarrow> 't list" where
  "waiting lk = map w_thread (fl_waiters lk)"

definition set_notified :: "bool \<Rightarrow> 't \<Rightarrow> 't waiter \<Rightarrow> 't waiter" where
  "set_notified b t w = (if w_thread w = t then w\<lparr>w_notified := b\<rparr> else w)"

text \<open>
  One pass of the loop for a queued thread: the front of the queue takes a free lock; a thread
  whose timeout has expired removes itself; otherwise it waits and its notification is used up.
\<close>

definition loop_check :: "'t \<Rightarrow> bool \<Rightarrow> 't fifo_lock \<Rightarrow> outcome \<times> 't fifo_lock" where
  "loop_check ident expired lk =
     (case fl_waiters lk of
        w # ws \<Rightarrow>
          (if w_thread w = ident \<and> fl_owner lk = None
           then (Acquired, lk\<lparr>fl_waiters := ws, fl_owner := Some ident, fl_count := 1\<rparr>)
           else if expired
           then (Refused, lk\<lparr>fl_waiters := filter (\<lambda>w. w_thread w \<noteq> ident) (fl_waiters lk)\<rparr>)
           else (Waiting, lk\<lparr>fl_waiters := map (set_notified False ident) (fl_waiters lk)\<rparr>))
      | [] \<Rightarrow> (Waiting, lk))"

text \<open>\<open>acquire\<close> up to its return or its first wait.\<close>

definition acquire :: "'t \<Rightarrow> bool \<Rightarrow> bool \<Rightarrow> bool \<Rightarrow> 't fifo_lock \<Rightarrow> outcome \<times> 't fifo_lock" where
  "acquire ident blocking timed expired lk =
     (if fl_owner lk = Some ident then (Acquired, lk\<lparr>fl_count := fl_count lk + 1\<rparr>)
      else if fl_owner lk = None \<and> fl_waiters lk = [] then
        (Acquired, lk\<lparr>fl_owner := Some ident, fl_count := 1\<rparr>)
      else if \<not> blocking then (Refused, lk)
      else loop_check ident (timed \<and> expired)
        (lk\<lparr>fl_waiters := fl_waiters lk @
             [\<lparr>w_thread = ident, w_timed = timed, w_notified = False\<rparr>]\<rparr>))"

definition notify_first :: "'t waiter list \<Rightarrow> 't waiter list" where
  "notify_first ws = (case ws of [] \<Rightarrow> [] | w # rest \<Rightarrow> w\<lparr>w_notified := True\<rparr> # rest)"

text \<open>\<open>release\<close>: a thread that does not own the lock gets \<open>RuntimeError\<close>, here \<open>None\<close>.\<close>

definition release :: "'t \<Rightarrow> 't fifo_lock \<Rightarrow> 't fifo_lock option" where
  "release ident lk =
     (if fl_owner lk \<noteq> Some ident then None
      else if fl_count lk < 1 then None
      else
        let lk1 = lk\<lparr>fl_count := fl_count lk - 1\<rparr>
        in if fl_count lk1 = 0
           then Some (lk1\<lparr>fl_owner := None, fl_waiters := notify_first (fl_waiters lk1)\<rparr>)
           else Some lk1)"

definition locked :: "'t fifo_lock \<Rightarrow> bool" where
  "locked lk \<longleftrightarrow> fl_owner lk \<noteq> None"

definition owned :: "'t \<Rightarrow> 't fifo_lock \<Rightarrow> bool" where
  "owned ident lk \<longleftrightarrow> fl_owner lk = Some ident"

section \<open>The steps\<close>

text \<open>
  What a step does to a thread: it asked and got the lock, asked and was refused, asked and
  queued, was granted the lock from the queue, gave up waiting, woke and went back to wait,
  released. A thread that waits makes no calls, which is the guard of the calls.
\<close>

datatype 't action_label =
  Take 't | Refuse 't | Queue 't | Grant 't | GiveUp 't | Rewait 't | Release 't

inductive lock_step :: "'t fifo_lock \<Rightarrow> 't action_label \<Rightarrow> 't fifo_lock \<Rightarrow> bool" where
  Take: "t \<notin> set (waiting lk) \<Longrightarrow> acquire t blocking timed expired lk = (Acquired, lk') \<Longrightarrow>
     lock_step lk (Take t) lk'"
| Refuse: "t \<notin> set (waiting lk) \<Longrightarrow> acquire t blocking timed expired lk = (Refused, lk') \<Longrightarrow>
     lock_step lk (Refuse t) lk'"
| Queue: "t \<notin> set (waiting lk) \<Longrightarrow> acquire t blocking timed expired lk = (Waiting, lk') \<Longrightarrow>
     lock_step lk (Queue t) lk'"
| Grant: "w \<in> set (fl_waiters lk) \<Longrightarrow> loop_check (w_thread w) (w_timed w \<and> expired) lk = (Acquired, lk') \<Longrightarrow>
     lock_step lk (Grant (w_thread w)) lk'"
| GiveUp: "w \<in> set (fl_waiters lk) \<Longrightarrow> loop_check (w_thread w) (w_timed w \<and> expired) lk = (Refused, lk') \<Longrightarrow>
     lock_step lk (GiveUp (w_thread w)) lk'"
| Rewait: "w \<in> set (fl_waiters lk) \<Longrightarrow> loop_check (w_thread w) (w_timed w \<and> expired) lk = (Waiting, lk') \<Longrightarrow>
     lock_step lk (Rewait (w_thread w)) lk'"
| Release: "t \<notin> set (waiting lk) \<Longrightarrow> release t lk = Some lk' \<Longrightarrow> lock_step lk (Release t) lk'"

inductive_cases lock_stepE: "lock_step lk l lk'"

text \<open>A run with the labels of its steps.\<close>

inductive lock_run :: "'t fifo_lock \<Rightarrow> 't action_label list \<Rightarrow> 't fifo_lock \<Rightarrow> bool" where
  Done: "lock_run lk [] lk"
| Step: "lock_step lk l lk' \<Longrightarrow> lock_run lk' tr lk'' \<Longrightarrow> lock_run lk (l # tr) lk''"

inductive_cases lock_runE: "lock_run lk (l # tr) lk'"

section \<open>The invariant\<close>

text \<open>
  An owner is counted and does not wait, the waiters are different threads, and when the lock is
  free and threads wait, the first of them has a notification coming.
\<close>

definition lock_inv :: "'t fifo_lock \<Rightarrow> bool" where
  "lock_inv lk \<longleftrightarrow>
     (fl_owner lk = None \<longleftrightarrow> fl_count lk = 0) \<and>
     (case fl_owner lk of Some t \<Rightarrow> t \<notin> set (waiting lk) | None \<Rightarrow> True) \<and>
     distinct (waiting lk) \<and>
     (fl_owner lk = None \<longrightarrow> fl_waiters lk \<noteq> [] \<longrightarrow> w_notified (hd (fl_waiters lk)))"

lemma lock_inv_new: "lock_inv new_lock"
  by (simp add: lock_inv_def new_lock_def waiting_def)

lemma set_notified_thread [simp]: "w_thread (set_notified b t w) = w_thread w"
  by (simp add: set_notified_def)

lemma set_notified_other: "w_thread w \<noteq> t \<Longrightarrow> set_notified b t w = w"
  by (simp add: set_notified_def)

lemma waiting_map_notified [simp]:
  "map w_thread (map (set_notified b t) ws) = map w_thread ws"
  by simp

lemma notify_first_thread [simp]: "map w_thread (notify_first ws) = map w_thread ws"
  by (simp add: notify_first_def split: list.splits)

lemma waiting_filter:
  "map w_thread (filter (\<lambda>w. w_thread w \<noteq> t) ws) = filter (\<lambda>u. u \<noteq> t) (map w_thread ws)"
  by (induction ws) auto

text \<open>The outcomes of a pass of the loop for a queued thread.\<close>

lemma loop_check_cases:
  assumes "loop_check t expired lk = (r, lk')" and "t \<in> set (waiting lk)"
  obtains (Front) w ws where "fl_waiters lk = w # ws" "w_thread w = t" "fl_owner lk = None" "r = Acquired"
      "lk' = lk\<lparr>fl_waiters := ws, fl_owner := Some t, fl_count := 1\<rparr>"
  | (Expired) "\<not> (hd (waiting lk) = t \<and> fl_owner lk = None)" "r = Refused" "expired"
      "lk' = lk\<lparr>fl_waiters := filter (\<lambda>w. w_thread w \<noteq> t) (fl_waiters lk)\<rparr>"
  | (Wait) "\<not> (hd (waiting lk) = t \<and> fl_owner lk = None)" "r = Waiting"
      "lk' = lk\<lparr>fl_waiters := map (set_notified False t) (fl_waiters lk)\<rparr>"
proof -
  obtain w ws where ws: "fl_waiters lk = w # ws"
    using assms(2) by (cases "fl_waiters lk") (auto simp: waiting_def)
  show thesis
  proof (cases "w_thread w = t \<and> fl_owner lk = None")
    case True
    with assms(1) ws show ?thesis by (intro Front) (auto simp: loop_check_def)
  next
    case False
    then have no: "\<not> (hd (waiting lk) = t \<and> fl_owner lk = None)" using ws by (simp add: waiting_def)
    show ?thesis
    proof (cases expired)
      case True
      with assms(1) ws False show ?thesis
        by (intro Expired [OF no]) (auto simp: loop_check_def split: if_splits)
    next
      case nexp: False
      with assms(1) ws False show ?thesis
        by (intro Wait [OF no]) (auto simp: loop_check_def split: if_splits)
    qed
  qed
qed

lemma hd_notified_filter:
  assumes "ws \<noteq> []" and "w_thread (hd ws) \<noteq> t" and "w_notified (hd ws)"
  shows "w_notified (hd (filter (\<lambda>w. w_thread w \<noteq> t) ws))"
  using assms by (cases ws) auto

text \<open>A pass of the loop keeps the invariant.\<close>

lemma loop_check_inv:
  assumes "loop_check t expired lk = (r, lk')" and "t \<in> set (waiting lk)" and inv: "lock_inv lk"
  shows "lock_inv lk'"
  using assms(1,2)
proof (cases rule: loop_check_cases)
  case (Front w ws)
  with inv show ?thesis by (auto simp: lock_inv_def waiting_def)
next
  case Expired
  have "fl_owner lk = None \<longrightarrow> fl_waiters lk \<noteq> [] \<longrightarrow> w_thread (hd (fl_waiters lk)) \<noteq> t"
    using Expired(1) by (auto simp: waiting_def hd_map)
  with inv Expired(4) show ?thesis
    using hd_notified_filter [of "fl_waiters lk" t]
    by (cases "fl_waiters lk")
      (auto simp: lock_inv_def waiting_def waiting_filter filter_empty_conv split: option.splits)
next
  case Wait
  have "fl_owner lk = None \<longrightarrow> fl_waiters lk \<noteq> [] \<longrightarrow> w_thread (hd (fl_waiters lk)) \<noteq> t"
    using Wait(1) by (auto simp: waiting_def hd_map)
  with inv Wait(3) show ?thesis
    by (auto simp: lock_inv_def waiting_def hd_map set_notified_other comp_def split: option.splits)
qed

text \<open>The outcomes of a call of \<open>acquire\<close>.\<close>

definition enqueue :: "'t \<Rightarrow> bool \<Rightarrow> 't fifo_lock \<Rightarrow> 't fifo_lock" where
  "enqueue t timed lk =
     lk\<lparr>fl_waiters := fl_waiters lk @ [\<lparr>w_thread = t, w_timed = timed, w_notified = False\<rparr>]\<rparr>"

lemma acquire_cases:
  assumes "acquire t blocking timed expired lk = (r, lk')"
  obtains (Again) "fl_owner lk = Some t" "r = Acquired" "lk' = lk\<lparr>fl_count := fl_count lk + 1\<rparr>"
  | (Free) "fl_owner lk = None" "fl_waiters lk = []" "r = Acquired"
      "lk' = lk\<lparr>fl_owner := Some t, fl_count := 1\<rparr>"
  | (Busy) "fl_owner lk \<noteq> Some t" "fl_owner lk \<noteq> None \<or> fl_waiters lk \<noteq> []" "r = Refused" "lk' = lk"
  | (Loop) "fl_owner lk \<noteq> Some t" "fl_owner lk \<noteq> None \<or> fl_waiters lk \<noteq> []"
      "loop_check t (timed \<and> expired) (enqueue t timed lk) = (r, lk')"
proof (cases "fl_owner lk = Some t")
  case True
  with assms show ?thesis by (intro Again) (simp_all add: acquire_def)
next
  case notmine: False
  show ?thesis
  proof (cases "fl_owner lk = None \<and> fl_waiters lk = []")
    case True
    with assms show ?thesis by (intro Free) (simp_all add: acquire_def)
  next
    case False
    then have b: "fl_owner lk \<noteq> None \<or> fl_waiters lk \<noteq> []" by simp
    show ?thesis
    proof (cases blocking)
      case True
      with assms notmine False show ?thesis
        by (intro Loop [OF notmine b]) (auto simp: acquire_def enqueue_def)
    next
      case nb: False
      with assms notmine False show ?thesis
        by (intro Busy [OF notmine b]) (auto simp: acquire_def)
    qed
  qed
qed

lemma enqueue_inv:
  assumes "lock_inv lk" and "t \<notin> set (waiting lk)" and "fl_owner lk \<noteq> Some t"
    and "fl_owner lk \<noteq> None \<or> fl_waiters lk \<noteq> []"
  shows "lock_inv (enqueue t timed lk)"
  using assms by (cases "fl_waiters lk") (auto simp: lock_inv_def enqueue_def waiting_def split: option.splits)

lemma waiting_enqueue [simp]: "waiting (enqueue t timed lk) = waiting lk @ [t]"
  by (simp add: waiting_def enqueue_def)

lemma owner_enqueue [simp]: "fl_owner (enqueue t timed lk) = fl_owner lk"
  by (simp add: enqueue_def)

text \<open>A thread that joins a busy queue is not at its front, so it is not granted at once.\<close>

lemma loop_check_enqueued:
  assumes "t \<notin> set (waiting lk)" and "fl_owner lk \<noteq> None \<or> fl_waiters lk \<noteq> []"
    and "loop_check t e (enqueue t timed lk) = (r, lk')"
  shows "r \<noteq> Acquired"
proof -
  have "t \<in> set (waiting (enqueue t timed lk))" by simp
  from assms(3) this show ?thesis
  proof (cases rule: loop_check_cases)
    case (Front w ws)
    then show ?thesis
      using assms(1,2) by (cases "fl_waiters lk") (auto simp: enqueue_def waiting_def)
  qed auto
qed

lemma acquire_inv:
  assumes "acquire t blocking timed expired lk = (r, lk')" and inv: "lock_inv lk"
    and t: "t \<notin> set (waiting lk)"
  shows "lock_inv lk'"
  using assms(1)
proof (cases rule: acquire_cases)
  case Again
  with inv show ?thesis by (auto simp: lock_inv_def waiting_def)
next
  case Free
  with inv show ?thesis by (simp add: lock_inv_def waiting_def)
next
  case Busy
  with inv show ?thesis by simp
next
  case Loop
  from loop_check_inv [OF Loop(3) _ enqueue_inv [OF inv t Loop(1,2)]] show ?thesis by simp
qed

lemma release_inv:
  assumes "release t lk = Some lk'" and inv: "lock_inv lk"
  shows "lock_inv lk'"
proof (cases "fl_count lk = 1")
  case True
  with assms show ?thesis
    by (auto simp: release_def lock_inv_def waiting_def notify_first_def Let_def
        split: if_splits list.splits)
next
  case False
  with assms show ?thesis
    by (auto simp: release_def lock_inv_def waiting_def Let_def split: if_splits)
qed

lemma lock_step_inv: "lock_step lk l lk' \<Longrightarrow> lock_inv lk \<Longrightarrow> lock_inv lk'"
  by (induction rule: lock_step.induct)
    (auto intro: acquire_inv release_inv loop_check_inv simp: waiting_def)

lemma lock_run_inv: "lock_run lk tr lk' \<Longrightarrow> lock_inv lk \<Longrightarrow> lock_inv lk'"
  by (induction rule: lock_run.induct) (auto intro: lock_step_inv)

section \<open>First come, first served\<close>

text \<open>
  The contract of a fair queue: a service only goes to the front of the queue, and a thread that
  is neither served nor leaves keeps everyone behind it behind it. What a client of a fair lock
  relies on follows: nobody is overtaken.
\<close>

fun trace :: "('s \<Rightarrow> 'l \<Rightarrow> 's \<Rightarrow> bool) \<Rightarrow> 's \<Rightarrow> 'l list \<Rightarrow> 's \<Rightarrow> bool" where
  "trace stp s [] s' \<longleftrightarrow> s' = s"
| "trace stp s (l # tr) s' \<longleftrightarrow> (\<exists>m. stp s l m \<and> trace stp m tr s')"

definition ahead :: "'t \<Rightarrow> 't \<Rightarrow> 't list \<Rightarrow> bool" where
  "ahead a b q \<longleftrightarrow> (\<exists>xs ys. q = xs @ a # ys \<and> b \<notin> set xs \<and> a \<noteq> b)"

locale fair_queue =
  fixes stp :: "'s \<Rightarrow> 'l \<Rightarrow> 's \<Rightarrow> bool"
    and inv :: "'s \<Rightarrow> bool"
    and queue :: "'s \<Rightarrow> 't list"
    and serves :: "'l \<Rightarrow> 't option"
    and leaves :: "'l \<Rightarrow> 't option"
  assumes stp_inv: "inv s \<Longrightarrow> stp s l s' \<Longrightarrow> inv s'"
    and stp_ahead: "inv s \<Longrightarrow> stp s l s' \<Longrightarrow> ahead a b (queue s) \<Longrightarrow> serves l \<noteq> Some a \<Longrightarrow>
      leaves l \<noteq> Some a \<Longrightarrow> ahead a b (queue s')"
    and serves_front: "inv s \<Longrightarrow> stp s l s' \<Longrightarrow> serves l = Some t \<Longrightarrow> \<exists>q. queue s = t # q"
begin

lemma no_overtaking:
  "trace stp s (tr @ l # tr') s' \<Longrightarrow> inv s \<Longrightarrow> ahead a b (queue s) \<Longrightarrow> serves l = Some b \<Longrightarrow>
     \<exists>k \<in> set tr. serves k = Some a \<or> leaves k = Some a"
proof (induction tr arbitrary: s)
  case Nil
  then obtain m where "stp s l m" by auto
  with Nil serves_front [of s l m b] obtain q where "queue s = b # q" by blast
  with Nil.prems(3) show ?case by (auto simp: ahead_def Cons_eq_append_conv)
next
  case (Cons k tr)
  then obtain m where m: "stp s k m" "trace stp m (tr @ l # tr') s'" by auto
  show ?case
  proof (cases "serves k = Some a \<or> leaves k = Some a")
    case False
    then have "ahead a b (queue m)" using stp_ahead [OF Cons.prems(2) m(1) Cons.prems(3)] by blast
    with Cons.IH [OF m(2) stp_inv [OF Cons.prems(2) m(1)] _ Cons.prems(4)] show ?thesis by auto
  qed auto
qed

end

lemma ahead_snoc: "ahead a b q \<Longrightarrow> ahead a b (q @ [t])"
  unfolding ahead_def by (metis append_Cons append_assoc)

lemma ahead_filter: "ahead a b q \<Longrightarrow> t \<noteq> a \<Longrightarrow> ahead a b (filter (\<lambda>u. u \<noteq> t) q)"
proof -
  assume "ahead a b q" "t \<noteq> a"
  then obtain xs ys where "q = xs @ a # ys" "b \<notin> set xs" "a \<noteq> b" by (auto simp: ahead_def)
  then have "filter (\<lambda>u. u \<noteq> t) q = filter (\<lambda>u. u \<noteq> t) xs @ a # filter (\<lambda>u. u \<noteq> t) ys"
    "b \<notin> set (filter (\<lambda>u. u \<noteq> t) xs)" "a \<noteq> b"
    using \<open>t \<noteq> a\<close> by auto
  then show ?thesis unfolding ahead_def by blast
qed

lemma ahead_tl: "ahead a b (c # q) \<Longrightarrow> c \<noteq> a \<Longrightarrow> ahead a b q"
  by (auto simp: ahead_def Cons_eq_append_conv)

text \<open>What each step does to the waiting threads and to the owner.\<close>

lemma lock_step_waiting:
  assumes "lock_step lk l lk'" and "lock_inv lk"
  shows "case l of
      Take t \<Rightarrow> waiting lk' = waiting lk \<and> fl_owner lk' = Some t \<and>
        (fl_owner lk = Some t \<and> fl_count lk' = fl_count lk + 1 \<or>
         fl_owner lk = None \<and> waiting lk = [] \<and> fl_count lk' = 1)
    | Refuse t \<Rightarrow> waiting lk' = waiting lk \<and> fl_owner lk' = fl_owner lk \<and> fl_count lk' = fl_count lk
    | Queue t \<Rightarrow> waiting lk' = waiting lk @ [t] \<and> fl_owner lk' = fl_owner lk \<and> fl_count lk' = fl_count lk
    | Grant t \<Rightarrow> waiting lk = t # waiting lk' \<and> fl_owner lk = None \<and> fl_owner lk' = Some t \<and> fl_count lk' = 1
    | GiveUp t \<Rightarrow> waiting lk' = filter (\<lambda>u. u \<noteq> t) (waiting lk) \<and> fl_owner lk' = fl_owner lk \<and>
        fl_count lk' = fl_count lk
    | Rewait t \<Rightarrow> waiting lk' = waiting lk \<and> fl_owner lk' = fl_owner lk \<and> fl_count lk' = fl_count lk
    | Release t \<Rightarrow> waiting lk' = waiting lk \<and> fl_owner lk = Some t \<and> fl_count lk' + 1 = fl_count lk \<and>
        fl_owner lk' = (if fl_count lk' = 0 then None else Some t)"
  using assms(1)
proof (cases rule: lock_step.cases)
  case (Take t blocking timed expired)
  from Take(3) show ?thesis
  proof (cases rule: acquire_cases)
    case Loop
    with loop_check_enqueued [OF Take(2) Loop(2)] show ?thesis by blast
  qed (use Take(1) in \<open>auto simp: waiting_def\<close>)
next
  case (Refuse t blocking timed expired)
  from Refuse(3) show ?thesis
  proof (cases rule: acquire_cases)
    case Loop
    have "t \<in> set (waiting (enqueue t timed lk))" by simp
    moreover have "filter (\<lambda>u. u \<noteq> t) (map w_thread (fl_waiters lk)) = map w_thread (fl_waiters lk)"
      using Refuse(2) by (intro filter_True) (auto simp: waiting_def)
    ultimately show ?thesis
      using Loop(3) Refuse(1,2)
      by (elim loop_check_cases) (auto simp: waiting_def waiting_filter enqueue_def)
  qed (use Refuse(1) in auto)
next
  case (Queue t blocking timed expired)
  from Queue(3) show ?thesis
  proof (cases rule: acquire_cases)
    case Loop
    have "t \<in> set (waiting (enqueue t timed lk))" by simp
    from Loop(3) this show ?thesis
      using Queue(1,2)
      by (cases rule: loop_check_cases) (auto simp: waiting_def enqueue_def comp_def)
  qed auto
next
  case (Grant w expired)
  have "w_thread w \<in> set (waiting lk)" using Grant(2) by (auto simp: waiting_def)
  from Grant(3) this show ?thesis
    using Grant(1) by (cases rule: loop_check_cases) (auto simp: waiting_def)
next
  case (GiveUp w expired)
  have "w_thread w \<in> set (waiting lk)" using GiveUp(2) by (auto simp: waiting_def)
  from GiveUp(3) this show ?thesis
    using GiveUp(1) by (cases rule: loop_check_cases) (auto simp: waiting_def waiting_filter)
next
  case (Rewait w expired)
  have "w_thread w \<in> set (waiting lk)" using Rewait(2) by (auto simp: waiting_def)
  from Rewait(3) this show ?thesis
    using Rewait(1) by (cases rule: loop_check_cases) (auto simp: waiting_def comp_def)
next
  case (Release t)
  then show ?thesis
    by (auto simp: release_def waiting_def Let_def split: if_splits)
qed

fun granted :: "'t action_label \<Rightarrow> 't option" where
  "granted (Grant t) = Some t"
| "granted _ = None"

fun gave_up :: "'t action_label \<Rightarrow> 't option" where
  "gave_up (GiveUp t) = Some t"
| "gave_up _ = None"

interpretation fair: fair_queue lock_step lock_inv waiting granted gave_up
proof
  show "lock_inv s \<Longrightarrow> lock_step s l s' \<Longrightarrow> lock_inv s'" for s s' :: "'t fifo_lock" and l
    by (rule lock_step_inv)
  show "ahead a b (waiting s')"
    if "lock_inv s" "lock_step s l s'" "ahead a b (waiting s)" "granted l \<noteq> Some a" "gave_up l \<noteq> Some a"
    for s s' :: "'t fifo_lock" and l a b
    using lock_step_waiting [OF that(2,1)] that(3-)
    by (cases l) (auto intro: ahead_snoc ahead_filter ahead_tl)
  show "\<exists>q. waiting s = t # q" if "lock_inv s" "lock_step s l s'" "granted l = Some t"
    for s s' :: "'t fifo_lock" and l t
    using lock_step_waiting [OF that(2,1)] that(3) by (cases l) auto
qed

lemma lock_run_trace: "lock_run lk tr lk' \<longleftrightarrow> trace lock_step lk tr lk'"
proof
  show "lock_run lk tr lk' \<Longrightarrow> trace lock_step lk tr lk'"
    by (induction rule: lock_run.induct) auto
  show "trace lock_step lk tr lk' \<Longrightarrow> lock_run lk tr lk'"
    by (induction tr arbitrary: lk) (auto intro: lock_run.intros)
qed

lemma ahead_appendI: "a \<noteq> b \<Longrightarrow> b \<notin> set xs \<Longrightarrow> ahead a b (xs @ a # ys)"
  by (auto simp: ahead_def)

section \<open>Properties\<close>


definition sample_busy_lock :: "nat fifo_lock" where
  "sample_busy_lock = \<lparr>fl_owner = None, fl_count = 0,
     fl_waiters = [\<lparr>w_thread = 1, w_timed = False, w_notified = True\<rparr>,
                   \<lparr>w_thread = 2, w_timed = False, w_notified = False\<rparr>]\<rparr>"

lemma sample_busy_run:
  "\<exists>lk. lock_run sample_busy_lock ([Grant 1, Release 1] @ Grant 2 # []) lk"
proof -
  let ?w1 = "\<lparr>w_thread = 1, w_timed = False, w_notified = True\<rparr> :: nat waiter"
  let ?w2 = "\<lparr>w_thread = 2, w_timed = False, w_notified = False\<rparr> :: nat waiter"
  let ?a = "\<lparr>fl_owner = Some 1, fl_count = 1, fl_waiters = [?w2]\<rparr> :: nat fifo_lock"
  let ?b = "\<lparr>fl_owner = None, fl_count = 0, fl_waiters = [?w2\<lparr>w_notified := True\<rparr>]\<rparr> :: nat fifo_lock"
  let ?c = "\<lparr>fl_owner = Some 2, fl_count = 1, fl_waiters = []\<rparr> :: nat fifo_lock"
  have s1: "lock_step sample_busy_lock (Grant 1) ?a"
    using lock_step.Grant [of ?w1 sample_busy_lock False ?a]
    by (simp add: sample_busy_lock_def loop_check_def)
  have s2: "lock_step ?a (Release 1) ?b"
    by (rule lock_step.Release) (simp_all add: waiting_def release_def notify_first_def)
  have s3: "lock_step ?b (Grant 2) ?c"
    using lock_step.Grant [of "?w2\<lparr>w_notified := True\<rparr>" ?b False ?c]
    by (simp add: loop_check_def)
  from lock_run.Step [OF s1 lock_run.Step [OF s2 lock_run.Step [OF s3 lock_run.Done]]]
  show ?thesis unfolding append_Cons append_Nil ..
qed


text \<open>
  Mutual exclusion and no lost wake-up, in every state reached from a new lock. The lock has
  an owner exactly when its count is positive, the owner does not wait, no thread waits twice,
  and whenever the lock is free while threads wait, a notification is on its way to the first of
  them and its next check of the queue is granted.
\<close>

theorem lock_safety:
  assumes "lock_run new_lock tr lk"
  shows "(fl_owner lk = None) = (fl_count lk = 0) \<and> distinct (waiting lk) \<and>
     (\<forall>t. fl_owner lk = Some t \<longrightarrow> t \<notin> set (waiting lk)) \<and>
     (\<forall>w ws. fl_owner lk = None \<and> fl_waiters lk = w # ws \<longrightarrow>
        w_notified w \<and> fst (loop_check (w_thread w) expired lk) = Acquired)"
  using lock_run_inv [OF assms lock_inv_new]
  by (auto simp: lock_inv_def loop_check_def split: option.splits)

theorem lock_safety_witness:
  "\<exists>lk. lock_run new_lock [Take (1::nat), Queue 2] lk \<and> fl_owner lk = Some 1 \<and> distinct (waiting lk)"
proof -
  let ?a = "\<lparr>fl_owner = Some 1, fl_count = 1, fl_waiters = []\<rparr> :: nat fifo_lock"
  let ?b = "\<lparr>fl_owner = Some 1, fl_count = 1,
      fl_waiters = [\<lparr>w_thread = 2, w_timed = False, w_notified = False\<rparr>]\<rparr> :: nat fifo_lock"
  have "lock_step new_lock (Take 1) ?a"
    by (rule lock_step.Take [of _ _ True False False]) (simp_all add: waiting_def new_lock_def acquire_def)
  moreover have "lock_step ?a (Queue 2) ?b"
    by (rule lock_step.Queue [of _ _ True False False])
      (simp_all add: waiting_def acquire_def loop_check_def set_notified_def)
  ultimately have run: "lock_run new_lock [Take 1, Queue 2] ?b" by (auto intro: lock_run.intros)
  from lock_safety [OF run] run show ?thesis by (intro exI [of _ ?b]) simp
qed

definition lock_queue :: "'t fifo_lock \<Rightarrow> 't list" where
  "lock_queue lk = (case fl_owner lk of Some t \<Rightarrow> [t] | None \<Rightarrow> []) @ waiting lk"

text \<open>
  C6: The lock implements a queue. With the owner in front of the waiting threads, taking or
  queueing a free or foreign lock appends the thread, a grant leaves the queue as it is, the last
  release removes the front, a timeout removes the thread that gave up, and nothing else changes it.
\<close>

theorem lock_refines_queue:
  assumes "lock_step lk l lk'" and "lock_inv lk"
  shows "lock_queue lk' =
     (case l of
        Take t \<Rightarrow> if fl_owner lk = Some t then lock_queue lk else lock_queue lk @ [t]
      | Queue t \<Rightarrow> lock_queue lk @ [t]
      | GiveUp t \<Rightarrow> filter (\<lambda>u. u \<noteq> t) (lock_queue lk)
      | Release t \<Rightarrow> if fl_count lk = 1 then tl (lock_queue lk) else lock_queue lk
      | _ \<Rightarrow> lock_queue lk)"
proof (cases l)
  case (GiveUp t)
  have "t \<in> set (waiting lk)" using assms(1) GiveUp by (auto elim: lock_stepE simp: waiting_def)
  then have "fl_owner lk \<noteq> Some t" using assms(2) by (auto simp: lock_inv_def)
  with lock_step_waiting [OF assms] GiveUp show ?thesis
    by (auto simp: lock_queue_def split: option.splits)
qed (use lock_step_waiting [OF assms] in \<open>auto simp: lock_queue_def\<close>)

theorem lock_refines_queue_witness:
  "lock_queue \<lparr>fl_owner = Some 1, fl_count = 1, fl_waiters = []\<rparr> = lock_queue (new_lock :: nat fifo_lock) @ [1]"
proof -
  let ?a = "\<lparr>fl_owner = Some 1, fl_count = 1, fl_waiters = []\<rparr> :: nat fifo_lock"
  have "lock_step new_lock (Take 1) ?a"
    by (rule lock_step.Take [of _ _ True False False]) (simp_all add: waiting_def new_lock_def acquire_def)
  from lock_refines_queue [OF this lock_inv_new] show ?thesis by (simp add: new_lock_def)
qed

end
