(* ===== verification/File_Store.thy ===== *)
theory File_Store
  imports Prelude "HOL-Library.AList"
begin

text \<open>
  The file stores (\<open>sdk/io\<close>): the memory-bounded LRU cache of \<open>cache.py\<close>, the cached local store of
  \<open>local.py\<close> and the in-memory store of \<open>memory.py\<close>. The third-party LRU policy is the parameter
  \<open>victim\<close>, which picks the entry to evict from the keys and the log of their uses. Paths are
  normalized relative paths, so the disk is a list of path/content pairs. What a client of a store
  relies on is the locale \<open>file_store\<close>, interpreted for the local store. The lemmas show that the
  cache keeps both limits and when the store returns what was written.
\<close>

section \<open>The cache\<close>

record cache =
  ca_data :: "(string \<times> string) list"
  ca_memory :: int
  ca_uses :: "string list"                       \<comment> \<open>the uses of keys, the latest first\<close>

record cache_conf =
  cc_max_memory :: int
  cc_max_size :: nat                             \<comment> \<open>\<open>max(1, max_size)\<close>\<close>
  cc_victim :: "string list \<Rightarrow> string list \<Rightarrow> string"

definition cache_keys :: "cache \<Rightarrow> string list" where
  "cache_keys c = map fst (ca_data c)"

definition new_cache :: cache where
  "new_cache = \<lparr>ca_data = [], ca_memory = 0, ca_uses = []\<rparr>"

definition new_cache_conf :: "int \<Rightarrow> nat \<Rightarrow> (string list \<Rightarrow> string list \<Rightarrow> string) \<Rightarrow> cache_conf" where
  "new_cache_conf max_memory max_size victim =
     \<lparr>cc_max_memory = max_memory, cc_max_size = max 1 max_size, cc_victim = victim\<rparr>"

text \<open>\<open>__delitem__\<close>: the memory of the entry is given back. A missing key would raise.\<close>

definition cache_delitem :: "string \<Rightarrow> cache \<Rightarrow> cache" where
  "cache_delitem key c =
     (case map_of (ca_data c) key of
        None \<Rightarrow> c
      | Some old \<Rightarrow> c\<lparr>ca_memory := ca_memory c - int (length old),
                      ca_data := AList.delete key (ca_data c)\<rparr>)"

definition cache_popitem :: "cache_conf \<Rightarrow> cache \<Rightarrow> cache" where
  "cache_popitem cf c = cache_delitem (cc_victim cf (ca_uses c) (cache_keys c)) c"

text \<open>
  The eviction loops. A victim outside the cache, which an LRU policy never picks, would raise;
  the loop stops there.
\<close>

function evict_memory :: "cache_conf \<Rightarrow> cache \<Rightarrow> cache" where
  "evict_memory cf c =
     (if ca_memory c > cc_max_memory cf \<and> cache_keys c \<noteq> [] \<and>
         cc_victim cf (ca_uses c) (cache_keys c) \<in> set (cache_keys c)
      then evict_memory cf (cache_popitem cf c) else c)"
  by pat_completeness auto

lemma cache_popitem_length:
  assumes "cc_victim cf (ca_uses c) (cache_keys c) \<in> set (cache_keys c)"
  shows "length (ca_data (cache_popitem cf c)) < length (ca_data c)"
proof -
  let ?k = "cc_victim cf (ca_uses c) (cache_keys c)"
  obtain old where "map_of (ca_data c) ?k = Some old"
    using assms by (cases "map_of (ca_data c) ?k") (auto simp: cache_keys_def map_of_eq_None_iff)
  then show ?thesis
    using assms length_delete_less [of ?k "ca_data c"]
    by (simp add: cache_popitem_def cache_delitem_def cache_keys_def)
qed

termination evict_memory
  by (relation "measure (\<lambda>(cf, c). length (ca_data c))") (auto simp: cache_popitem_length)

declare evict_memory.simps [simp del]

function evict_count :: "cache_conf \<Rightarrow> cache \<Rightarrow> cache" where
  "evict_count cf c =
     (if length (ca_data c) + 1 > cc_max_size cf \<and>
         cc_victim cf (ca_uses c) (cache_keys c) \<in> set (cache_keys c)
      then evict_count cf (cache_popitem cf c) else c)"
  by pat_completeness auto
termination
  by (relation "measure (\<lambda>(cf, c). length (ca_data c))") (auto simp: cache_popitem_length)

declare evict_count.simps [simp del]

text \<open>
  \<open>__setitem__\<close>: an item above the memory limit is not cached and leaves the cache as it is. The
  LRU cache itself evicts for a new key only.
\<close>

definition account :: "string \<Rightarrow> string \<Rightarrow> cache \<Rightarrow> cache" where
  "account key value c =
     (let c1 = (case map_of (ca_data c) key of
                  Some old \<Rightarrow> c\<lparr>ca_uses := key # ca_uses c, ca_memory := ca_memory c - int (length old)\<rparr>
                | None \<Rightarrow> c)
      in c1\<lparr>ca_memory := ca_memory c1 + int (length value)\<rparr>)"

definition cache_setitem :: "cache_conf \<Rightarrow> string \<Rightarrow> string \<Rightarrow> cache \<Rightarrow> cache" where
  "cache_setitem cf key value c =
     (if int (length value) > cc_max_memory cf then c
      else
        let c2 = evict_memory cf (account key value c);
            c3 = (if key \<in> set (cache_keys c2) then c2 else evict_count cf c2)
        in c3\<lparr>ca_data := AList.update key value (ca_data c3), ca_uses := key # ca_uses c3\<rparr>)"

text \<open>\<open>key in cache\<close> leaves the order alone; \<open>cache[key]\<close> marks the entry as used.\<close>

definition cache_get :: "string \<Rightarrow> cache \<Rightarrow> cache \<times> string option" where
  "cache_get key c =
     (case map_of (ca_data c) key of
        None \<Rightarrow> (c, None)
      | Some v \<Rightarrow> (c\<lparr>ca_uses := key # ca_uses c\<rparr>, Some v))"

section \<open>The local store\<close>

record local_store =
  ls_disk :: "(string \<times> string) list"
  ls_cache :: cache

definition local_write :: "cache_conf \<Rightarrow> string \<Rightarrow> string \<Rightarrow> local_store \<Rightarrow> local_store" where
  "local_write cf path contents s =
     s\<lparr>ls_disk := AList.update path contents (ls_disk s),
       ls_cache := cache_setitem cf path contents (ls_cache s)\<rparr>"

text \<open>\<open>read\<close>: \<open>None\<close> is \<open>FileNotFoundError\<close>.\<close>

definition local_read :: "cache_conf \<Rightarrow> string \<Rightarrow> local_store \<Rightarrow> local_store \<times> string option" where
  "local_read cf path s =
     (case cache_get path (ls_cache s) of
        (c, Some v) \<Rightarrow> (s\<lparr>ls_cache := c\<rparr>, Some v)
      | (_, None) \<Rightarrow>
          (case map_of (ls_disk s) path of
             None \<Rightarrow> (s, None)
           | Some result \<Rightarrow> (s\<lparr>ls_cache := cache_setitem cf path result (ls_cache s)\<rparr>, Some result)))"

text \<open>
  \<open>list\<close>: the file itself, or the entries of the directory, a subdirectory with a slash at its end.
  Directories are the prefixes of the files, in the order of the disk.
\<close>

definition dir_entry :: "string \<Rightarrow> string \<Rightarrow> string" where
  "dir_entry dir p =
     (let rest = drop (length dir + 1) p; name = takeWhile (\<lambda>x. x \<noteq> CHR ''/'') rest
      in dir @ ''/'' @ name @ (if CHR ''/'' \<in> set rest then ''/'' else ''''))"

definition inside :: "string \<Rightarrow> string \<Rightarrow> bool" where
  "inside dir p \<longleftrightarrow> starts_with (dir @ ''/'') p"

definition local_list :: "string \<Rightarrow> local_store \<Rightarrow> string list" where
  "local_list path s =
     (let files = map fst (ls_disk s)
      in if path \<in> set files then [path] else remdups (map (dir_entry path) (filter (inside path) files)))"

text \<open>\<open>cache.clear()\<close> pops items until none is left.\<close>

definition cache_clear :: "cache \<Rightarrow> cache" where
  "cache_clear c = fold cache_delitem (cache_keys c) c"

text \<open>
  \<open>delete\<close>: a file, or a directory with everything inside. Removing a file that is not cached
  raises \<open>KeyError\<close> in \<open>del self.cache[...]\<close>, after the file is gone; the handler logs it.
\<close>

definition local_delete :: "string \<Rightarrow> local_store \<Rightarrow> local_store" where
  "local_delete path s =
     (if map_of (ls_disk s) path \<noteq> None then
        s\<lparr>ls_disk := AList.delete path (ls_disk s), ls_cache := cache_delitem path (ls_cache s)\<rparr>
      else if list_ex (inside path) (map fst (ls_disk s)) then
        s\<lparr>ls_disk := filter (\<lambda>(p, v). \<not> inside path p) (ls_disk s), ls_cache := cache_clear (ls_cache s)\<rparr>
      else s)"

definition local_exists :: "string \<Rightarrow> local_store \<Rightarrow> bool" where
  "local_exists path s \<longleftrightarrow>
     path \<in> set (map fst (ls_disk s)) \<or> list_ex (inside path) (map fst (ls_disk s))"

section \<open>The in-memory store\<close>

definition memory_write :: "cache_conf \<Rightarrow> string \<Rightarrow> string \<Rightarrow> cache \<Rightarrow> cache" where
  "memory_write cf path contents c = cache_setitem cf path contents c"

definition memory_read :: "string \<Rightarrow> cache \<Rightarrow> cache \<times> string option" where
  "memory_read path c = cache_get path c"

definition memory_delete :: "string \<Rightarrow> cache \<Rightarrow> cache" where
  "memory_delete path c = foldl (\<lambda>c k. cache_delitem k c) c (filter (starts_with path) (cache_keys c))"

text \<open>
  \<open>list\<close>: the loop over the files, with the result so far. When \<open>path\<close> is itself a file, \<open>parts\<close>
  is empty after the \<open>pop\<close> and \<open>parts[0]\<close> raises \<open>IndexError\<close>, which is \<open>None\<close>.
\<close>

definition join_path :: "string \<Rightarrow> string \<Rightarrow> string" where
  "join_path p q = (if p = '''' \<or> last p = CHR ''/'' then p @ q else p @ ''/'' @ q)"

definition memory_list_step :: "string \<Rightarrow> string list \<Rightarrow> string \<Rightarrow> string list option" where
  "memory_list_step path files f =
     (if \<not> starts_with path f then Some files
      else
        let parts0 = split_on (CHR ''/'') (drop (length path) f);
            parts = (if hd parts0 = '''' then tl parts0 else parts0)
        in case parts of
             [] \<Rightarrow> None
           | [p] \<Rightarrow> Some (files @ [f])
           | p # _ \<Rightarrow>
               let d0 = join_path path p;
                   d = (if d0 \<noteq> '''' \<and> last d0 = CHR ''/'' then d0 else d0 @ ''/'')
               in Some (if d \<in> set files then files else files @ [d]))"

fun memory_list_loop :: "string \<Rightarrow> string list \<Rightarrow> string list \<Rightarrow> string list option" where
  "memory_list_loop path files [] = Some files"
| "memory_list_loop path files (f # fs) =
     (case memory_list_step path files f of
        None \<Rightarrow> None
      | Some files' \<Rightarrow> memory_list_loop path files' fs)"

definition memory_list :: "string \<Rightarrow> cache \<Rightarrow> string list option" where
  "memory_list path c = memory_list_loop path [] (cache_keys c)"

definition memory_exists :: "string \<Rightarrow> cache \<Rightarrow> bool" where
  "memory_exists path c \<longleftrightarrow> path \<in> set (cache_keys c) \<or> list_ex (starts_with (path @ ''/'')) (cache_keys c)"

section \<open>The limits of the cache\<close>

definition total_size :: "(string \<times> string) list \<Rightarrow> int" where
  "total_size xs = sum_list (map (\<lambda>(k, v). int (length v)) xs)"

definition cache_inv :: "cache_conf \<Rightarrow> cache \<Rightarrow> bool" where
  "cache_inv cf c \<longleftrightarrow> distinct (cache_keys c) \<and> ca_memory c = total_size (ca_data c) \<and>
     ca_memory c \<le> cc_max_memory cf \<and> length (ca_data c) \<le> cc_max_size cf"

text \<open>
  What the LRU policy is documented to do: it picks an entry, and not the most recently used one
  while there is another.
\<close>

definition lru_policy :: "cache_conf \<Rightarrow> bool" where
  "lru_policy cf \<longleftrightarrow>
     (\<forall>us ks. ks \<noteq> [] \<longrightarrow> cc_victim cf us ks \<in> set ks) \<and>
     (\<forall>k us ks. distinct ks \<longrightarrow> length ks > 1 \<longrightarrow> cc_victim cf (k # us) ks \<noteq> k)"

lemma total_size_simps [simp]: "total_size [] = 0" "total_size ((k, v) # xs) = int (length v) + total_size xs"
  by (simp_all add: total_size_def)

lemma total_size_nonneg: "0 \<le> total_size xs"
  by (induction xs) auto

lemma total_size_delete:
  "distinct (map fst xs) \<Longrightarrow> map_of xs k = Some old \<Longrightarrow>
     total_size (AList.delete k xs) = total_size xs - int (length old)"
proof (induction xs)
  case (Cons x xs)
  obtain k' v where x: "x = (k', v)" by fastforce
  show ?case
  proof (cases "k' = k")
    case True
    then have "k \<notin> fst ` set xs" using Cons.prems(1) x by auto
    then have "AList.delete k xs = xs" by (rule delete_id)
    with True Cons.prems x show ?thesis by simp
  next
    case False
    with Cons x show ?thesis by simp
  qed
qed simp

lemma total_size_update:
  "distinct (map fst xs) \<Longrightarrow>
     total_size (AList.update k v xs) =
       total_size xs + int (length v) - (case map_of xs k of Some old \<Rightarrow> int (length old) | None \<Rightarrow> 0)"
proof (induction xs)
  case (Cons x xs)
  then show ?case by (cases x; cases "fst x = k") simp_all
qed simp

lemma total_size_member: "map_of xs k = Some v \<Longrightarrow> int (length v) \<le> total_size xs"
proof (induction xs)
  case (Cons x xs)
  then show ?case using total_size_nonneg [of xs] by (cases x) (auto split: if_splits)
qed simp

lemma removeAll_filter: "removeAll x xs = filter (\<lambda>k. k \<noteq> x) xs"
  by (induction xs) auto

lemma cache_keys_popitem:
  "cache_keys (cache_popitem cf c) =
     filter (\<lambda>k. k \<noteq> cc_victim cf (ca_uses c) (cache_keys c)) (cache_keys c)"
proof (cases "map_of (ca_data c) (cc_victim cf (ca_uses c) (cache_keys c))")
  case None
  then have "cc_victim cf (ca_uses c) (cache_keys c) \<notin> set (cache_keys c)"
    by (simp add: cache_keys_def map_of_eq_None_iff)
  then have "filter (\<lambda>k. k \<noteq> cc_victim cf (ca_uses c) (cache_keys c)) (cache_keys c) = cache_keys c"
    by (intro filter_True) auto
  moreover have "cache_popitem cf c = c" using None by (simp add: cache_popitem_def cache_delitem_def)
  ultimately show ?thesis by simp
next
  case (Some old)
  then show ?thesis
    by (simp add: cache_popitem_def cache_delitem_def cache_keys_def delete_keys removeAll_filter)
qed

lemma cache_popitem_last [simp]: "ca_uses (cache_popitem cf c) = ca_uses c"
  by (simp add: cache_popitem_def cache_delitem_def split: option.splits)

lemma cache_popitem_other:
  "k \<noteq> cc_victim cf (ca_uses c) (cache_keys c) \<Longrightarrow> map_of (ca_data (cache_popitem cf c)) k = map_of (ca_data c) k"
  by (simp add: cache_popitem_def cache_delitem_def delete_conv' split: option.splits)

lemma cache_popitem_memory:
  assumes "distinct (cache_keys c)" and "cc_victim cf (ca_uses c) (cache_keys c) \<in> set (cache_keys c)"
  shows "ca_memory (cache_popitem cf c) - total_size (ca_data (cache_popitem cf c))
     = ca_memory c - total_size (ca_data c)"
proof -
  let ?k = "cc_victim cf (ca_uses c) (cache_keys c)"
  obtain old where "map_of (ca_data c) ?k = Some old"
    using assms(2) by (cases "map_of (ca_data c) ?k") (auto simp: cache_keys_def map_of_eq_None_iff)
  with assms(1) show ?thesis
    by (simp add: cache_popitem_def cache_delitem_def cache_keys_def total_size_delete)
qed

text \<open>
  Evicting for memory: \<open>d\<close> is what the accounts are ahead of the entries, the size of the new
  value, less that of the old one when the key is in the cache and hence is the last one used.
\<close>

lemma cache_popitem_memory_le: "ca_memory (cache_popitem cf c) \<le> ca_memory c"
  by (simp add: cache_popitem_def cache_delitem_def split: option.splits)

definition size_at :: "string \<Rightarrow> cache \<Rightarrow> int" where
  "size_at key c = (case map_of (ca_data c) key of Some old \<Rightarrow> int (length old) | None \<Rightarrow> 0)"

definition sub_entries :: "cache \<Rightarrow> cache \<Rightarrow> bool" where
  "sub_entries c' c \<longleftrightarrow> distinct (cache_keys c') \<and> length (ca_data c') \<le> length (ca_data c) \<and>
     (\<forall>k w. map_of (ca_data c') k = Some w \<longrightarrow> map_of (ca_data c) k = Some w)"

lemma sub_entries_pop:
  assumes "distinct (cache_keys c)" and "cc_victim cf (ca_uses c) (cache_keys c) \<in> set (cache_keys c)"
    and "sub_entries c' (cache_popitem cf c)"
  shows "sub_entries c' c"
proof -
  have "map_of (ca_data c) k = Some w" if "map_of (ca_data (cache_popitem cf c)) k = Some w" for k w
    using that by (auto simp: cache_popitem_def cache_delitem_def delete_conv' split: option.splits if_splits)
  with assms cache_popitem_length [OF assms(2)] show ?thesis
    by (fastforce simp: sub_entries_def)
qed

lemma distinct_popitem: "distinct (cache_keys c) \<Longrightarrow> distinct (cache_keys (cache_popitem cf c))"
  by (simp add: cache_keys_popitem)

lemma evict_memory_spec:
  assumes lru: "lru_policy cf" and v: "int (length value) \<le> cc_max_memory cf"
  shows "distinct (cache_keys c) \<Longrightarrow>
     ca_memory c = total_size (ca_data c) + int (length value) - size_at key c \<Longrightarrow>
     (key \<in> set (cache_keys c) \<longrightarrow> take 1 (ca_uses c) = [key]) \<Longrightarrow>
     sub_entries (evict_memory cf c) c \<and> ca_memory (evict_memory cf c) \<le> cc_max_memory cf \<and>
     map_of (ca_data (evict_memory cf c)) key = map_of (ca_data c) key \<and>
     ca_memory (evict_memory cf c) =
       total_size (ca_data (evict_memory cf c)) + int (length value) - size_at key (evict_memory cf c)"
proof (induction "length (ca_data c)" arbitrary: c rule: less_induct)
  case less
  let ?k = "cc_victim cf (ca_uses c) (cache_keys c)"
  have vic: "cache_keys c \<noteq> [] \<Longrightarrow> ?k \<in> set (cache_keys c)" using lru by (simp add: lru_policy_def)
  show ?case
  proof (cases "ca_memory c > cc_max_memory cf \<and> cache_keys c \<noteq> []")
    case True
    have "?k \<noteq> key"
    proof
      assume k: "?k = key"
      then have "key \<in> set (cache_keys c)" using vic True by simp
      then obtain us where "ca_uses c = key # us"
        using less.prems(3) \<open>key \<in> set (cache_keys c)\<close> by (cases "ca_uses c") auto
      then have "\<not> length (cache_keys c) > 1" using lru k less.prems(1) unfolding lru_policy_def by metis
      with True obtain old where "ca_data c = [(key, old)]"
        using \<open>key \<in> set (cache_keys c)\<close>
        by (cases "ca_data c") (auto simp: cache_keys_def)
      with less.prems(2) True v show False by (simp add: size_at_def)
    qed
    moreover have mem: "?k \<in> set (cache_keys c)" using vic True by simp
    ultimately have other: "map_of (ca_data (cache_popitem cf c)) key = map_of (ca_data c) key"
      by (intro cache_popitem_other) simp
    have eq: "evict_memory cf c = evict_memory cf (cache_popitem cf c)"
      using True mem by (subst evict_memory.simps) simp
    have "key \<in> set (cache_keys (cache_popitem cf c)) \<longrightarrow> take 1 (ca_uses (cache_popitem cf c)) = [key]"
      using less.prems(3) by (simp add: cache_keys_popitem)
    moreover have "ca_memory (cache_popitem cf c) =
        total_size (ca_data (cache_popitem cf c)) + int (length value) - size_at key (cache_popitem cf c)"
      using cache_popitem_memory [OF less.prems(1) mem] less.prems(2) other by (simp add: size_at_def)
    ultimately show ?thesis
      using less.hyps [OF cache_popitem_length [OF mem] distinct_popitem [OF less.prems(1)]] other
        sub_entries_pop [OF less.prems(1) mem]
      unfolding eq by (auto simp: size_at_def)
  next
    case False
    then have eq: "evict_memory cf c = c" by (subst evict_memory.simps) auto
    have "ca_memory c \<le> cc_max_memory cf"
    proof (cases "cache_keys c = []")
      case True
      then have "ca_data c = []" by (simp add: cache_keys_def)
      with less.prems(2) v show ?thesis by (simp add: size_at_def)
    qed (use False in simp)
    with less.prems show ?thesis unfolding eq by (auto simp: sub_entries_def)
  qed
qed

lemma evict_count_spec:
  assumes lru: "lru_policy cf" and m: "cc_max_size cf \<ge> 1"
  shows "distinct (cache_keys c) \<Longrightarrow>
     sub_entries (evict_count cf c) c \<and> length (ca_data (evict_count cf c)) + 1 \<le> cc_max_size cf \<and>
     ca_memory (evict_count cf c) - total_size (ca_data (evict_count cf c))
       = ca_memory c - total_size (ca_data c) \<and> ca_memory (evict_count cf c) \<le> ca_memory c"
proof (induction "length (ca_data c)" arbitrary: c rule: less_induct)
  case less
  let ?k = "cc_victim cf (ca_uses c) (cache_keys c)"
  show ?case
  proof (cases "length (ca_data c) + 1 > cc_max_size cf")
    case True
    then have "cache_keys c \<noteq> []" using m by (auto simp: cache_keys_def)
    then have mem: "?k \<in> set (cache_keys c)" using lru by (simp add: lru_policy_def)
    have eq: "evict_count cf c = evict_count cf (cache_popitem cf c)"
      using True mem by (subst evict_count.simps) simp
    show ?thesis
      using less.hyps [OF cache_popitem_length [OF mem] distinct_popitem [OF less.prems]]
        sub_entries_pop [OF less.prems mem] cache_popitem_memory [OF less.prems mem]
        cache_popitem_memory_le [of cf c]
      unfolding eq by auto
  next
    case False
    then have eq: "evict_count cf c = c" by (subst evict_count.simps) auto
    with False less.prems show ?thesis by (simp add: sub_entries_def)
  qed
qed

text \<open>Setting an item keeps both limits and the accounts; what stays agrees with what was there.\<close>

lemma cache_setitem_spec:
  assumes lru: "lru_policy cf" and m: "cc_max_size cf \<ge> 1" and inv: "cache_inv cf c"
    and v: "int (length value) \<le> cc_max_memory cf"
  shows "cache_inv cf (cache_setitem cf key value c) \<and>
     map_of (ca_data (cache_setitem cf key value c)) key = Some value \<and>
     (\<forall>k w. k \<noteq> key \<longrightarrow> map_of (ca_data (cache_setitem cf key value c)) k = Some w \<longrightarrow>
        map_of (ca_data c) k = Some w)"
proof -
  let ?c1 = "account key value c"
  define c2 where "c2 = evict_memory cf ?c1"
  have c: "distinct (cache_keys c)" "ca_memory c = total_size (ca_data c)"
    using inv by (simp_all add: cache_inv_def)
  have acc: "ca_data ?c1 = ca_data c"
    "ca_memory ?c1 = total_size (ca_data ?c1) + int (length value) - size_at key ?c1"
    "key \<in> set (cache_keys ?c1) \<longrightarrow> take 1 (ca_uses ?c1) = [key]"
  proof -
    show "ca_data ?c1 = ca_data c"
      by (simp add: account_def Let_def split: option.splits)
    show "ca_memory ?c1 = total_size (ca_data ?c1) + int (length value) - size_at key ?c1"
      by (cases "map_of (ca_data c) key") (simp_all add: account_def Let_def size_at_def c(2))
    show "key \<in> set (cache_keys ?c1) \<longrightarrow> take 1 (ca_uses ?c1) = [key]"
      by (cases "map_of (ca_data c) key")
        (simp_all add: account_def Let_def cache_keys_def, simp add: map_of_eq_None_iff)
  qed
  have d1: "distinct (cache_keys ?c1)" using c(1) acc(1) by (simp add: cache_keys_def)
  have s2: "sub_entries c2 ?c1" "ca_memory c2 \<le> cc_max_memory cf"
    "ca_memory c2 = total_size (ca_data c2) + int (length value) - size_at key c2"
    using evict_memory_spec [OF lru v d1 acc(2,3)] unfolding c2_def by blast+
  have l2: "length (ca_data c2) \<le> length (ca_data c)" using s2(1) acc(1) by (simp add: sub_entries_def)
  define c3 where "c3 = (if key \<in> set (cache_keys c2) then c2 else evict_count cf c2)"
  have d2: "distinct (cache_keys c2)" using s2 by (simp add: sub_entries_def)
  have len: "length (ca_data c) \<le> cc_max_size cf" using inv by (simp add: cache_inv_def)
  have k3: "map_of (ca_data c3) key = map_of (ca_data c2) key \<and> sub_entries c3 c2 \<and>
      ca_memory c3 - total_size (ca_data c3) = ca_memory c2 - total_size (ca_data c2) \<and>
      length (AList.update key value (ca_data c3)) \<le> cc_max_size cf \<and> ca_memory c3 \<le> ca_memory c2"
  proof (cases "key \<in> set (cache_keys c2)")
    case True
    then have c3: "c3 = c2" by (simp add: c3_def)
    have "length (AList.update key value (ca_data c2)) = length (ca_data c2)"
      using True by (simp add: cache_keys_def length_update)
    with l2 len show ?thesis unfolding c3 using d2 by (simp add: sub_entries_def)
  next
    case False
    then have none: "map_of (ca_data c2) key = None" by (simp add: cache_keys_def map_of_eq_None_iff)
    have c3: "c3 = evict_count cf c2" using False by (simp add: c3_def)
    have e: "sub_entries c3 c2" "length (ca_data c3) + 1 \<le> cc_max_size cf"
      "ca_memory c3 - total_size (ca_data c3) = ca_memory c2 - total_size (ca_data c2)"
      "ca_memory c3 \<le> ca_memory c2"
      using evict_count_spec [OF lru m d2] unfolding c3 by blast+
    have n3: "map_of (ca_data c3) key = None"
      using e(1) none unfolding sub_entries_def by (metis option.distinct(1) option.exhaust)
    then have "length (AList.update key value (ca_data c3)) = length (ca_data c3) + 1"
      by (simp add: length_update map_of_eq_None_iff)
    with e none n3 show ?thesis by simp
  qed
  let ?r = "cache_setitem cf key value c"
  have r: "ca_data ?r = AList.update key value (ca_data c3)" "ca_memory ?r = ca_memory c3"
    using v by (simp_all add: cache_setitem_def Let_def c3_def c2_def)
  have d3: "distinct (map fst (ca_data c3))" using k3 by (simp add: sub_entries_def cache_keys_def)
  have "size_at key c2 = (case map_of (ca_data c3) key of Some old \<Rightarrow> int (length old) | None \<Rightarrow> 0)"
    using k3 by (simp add: size_at_def)
  then have "ca_memory ?r = total_size (ca_data ?r)"
    using k3 s2(3) total_size_update [OF d3, of key "value"] unfolding r by linarith
  moreover have "distinct (cache_keys ?r)"
    using d3 by (simp add: cache_keys_def r distinct_update)
  moreover have "map_of (ca_data c) k = Some w" if "k \<noteq> key" "map_of (ca_data ?r) k = Some w" for k w
  proof -
    have "map_of (ca_data c3) k = Some w" using that by (simp add: r update_conv')
    with k3 s2(1) acc(1) show ?thesis unfolding sub_entries_def by metis
  qed
  ultimately show ?thesis
    using k3 s2(2) by (simp add: cache_inv_def r update_conv')
qed


lemma cache_delitem_spec:
  assumes "cache_inv cf c"
  shows "cache_inv cf (cache_delitem k c) \<and>
     map_of (ca_data (cache_delitem k c)) = (map_of (ca_data c))(k := None)"
proof (cases "map_of (ca_data c) k")
  case None
  with assms show ?thesis by (auto simp: cache_delitem_def)
next
  case (Some old)
  have d: "distinct (map fst (ca_data c))" and m: "ca_memory c = total_size (ca_data c)"
    and l: "ca_memory c \<le> cc_max_memory cf" "length (ca_data c) \<le> cc_max_size cf"
    using assms by (simp_all add: cache_inv_def cache_keys_def)
  have "length (AList.delete k (ca_data c)) \<le> length (ca_data c)" by (rule length_delete_le)
  moreover have "0 \<le> int (length old)" by simp
  ultimately show ?thesis
    using Some m l total_size_delete [OF d Some] distinct_delete [OF d, of k]
    by (auto simp: cache_delitem_def cache_inv_def cache_keys_def delete_conv')
qed

lemma fold_delitem_spec:
  "cache_inv cf c \<Longrightarrow> cache_inv cf (fold cache_delitem ks c) \<and>
     map_of (ca_data (fold cache_delitem ks c)) = (\<lambda>k. if k \<in> set ks then None else map_of (ca_data c) k)"
proof (induction ks arbitrary: c)
  case (Cons k ks)
  from Cons.IH [of "cache_delitem k c"] cache_delitem_spec [OF Cons.prems, of k] show ?case
    by (auto simp: fun_eq_iff)
qed simp

lemma cache_clear_spec:
  assumes "cache_inv cf c"
  shows "cache_inv cf (cache_clear c) \<and> map_of (ca_data (cache_clear c)) = Map.empty"
proof -
  have "map_of (ca_data c) k = None" if "k \<notin> set (cache_keys c)" for k
    using that by (simp add: cache_keys_def map_of_eq_None_iff)
  then show ?thesis
    using fold_delitem_spec [OF assms, of "cache_keys c"] by (auto simp: cache_clear_def fun_eq_iff)
qed

lemma cache_get_spec:
  "cache_inv cf c \<Longrightarrow> cache_inv cf (fst (cache_get k c)) \<and> ca_data (fst (cache_get k c)) = ca_data c"
  by (simp add: cache_get_def cache_inv_def cache_keys_def split: option.splits)

section \<open>What a client of a store relies on\<close>

text \<open>
  A client's operations, and their meaning on a plain map. Deleting what is not a file deletes the
  files \<open>gone\<close> says are inside it.
\<close>

datatype ('k, 'v) file_op = Write_File 'k 'v | Read_File 'k | Delete_File 'k

fun map_ops :: "('k, 'v) file_op list \<Rightarrow> ('k \<Rightarrow> 'k \<Rightarrow> bool) \<Rightarrow> ('k \<rightharpoonup> 'v) \<Rightarrow> ('k \<rightharpoonup> 'v) \<times> 'v option list" where
  "map_ops [] gone m = (m, [])"
| "map_ops (Write_File k v # ops) gone m = map_ops ops gone (m(k \<mapsto> v))"
| "map_ops (Read_File k # ops) gone m =
     (let (m', rs) = map_ops ops gone m in (m', m k # rs))"
| "map_ops (Delete_File k # ops) gone m =
     map_ops ops gone
       (if m k \<noteq> None then m(k := None) else (\<lambda>j. if gone k j then None else m j))"

fun run_ops :: "('k \<Rightarrow> 'v \<Rightarrow> 's \<Rightarrow> 's) \<Rightarrow> ('k \<Rightarrow> 's \<Rightarrow> 's \<times> 'v option) \<Rightarrow> ('k \<Rightarrow> 's \<Rightarrow> 's) \<Rightarrow>
    ('k, 'v) file_op list \<Rightarrow> 's \<Rightarrow> 's \<times> 'v option list" where
  "run_ops put get rem [] s = (s, [])"
| "run_ops put get rem (Write_File k v # ops) s = run_ops put get rem ops (put k v s)"
| "run_ops put get rem (Read_File k # ops) s =
     (let (s', r) = get k s; (s'', rs) = run_ops put get rem ops s' in (s'', r # rs))"
| "run_ops put get rem (Delete_File k # ops) s = run_ops put get rem ops (rem k s)"

fun op_fits :: "('v \<Rightarrow> bool) \<Rightarrow> ('k, 'v) file_op \<Rightarrow> bool" where
  "op_fits fits (Write_File k v) = fits v"
| "op_fits fits _ = True"

locale file_store =
  fixes put :: "'k \<Rightarrow> 'v \<Rightarrow> 's \<Rightarrow> 's"
    and get :: "'k \<Rightarrow> 's \<Rightarrow> 's \<times> 'v option"
    and rem :: "'k \<Rightarrow> 's \<Rightarrow> 's"
    and files :: "'s \<Rightarrow> 'k \<rightharpoonup> 'v"
    and ok :: "'s \<Rightarrow> bool"
    and fits :: "'v \<Rightarrow> bool"
    and gone :: "'k \<Rightarrow> 'k \<Rightarrow> bool"
  assumes put_ok: "ok s \<Longrightarrow> fits v \<Longrightarrow> ok (put k v s)"
    and put_files: "ok s \<Longrightarrow> fits v \<Longrightarrow> files (put k v s) = (files s)(k \<mapsto> v)"
    and get_ok: "ok s \<Longrightarrow> ok (fst (get k s))"
    and get_files: "ok s \<Longrightarrow> files (fst (get k s)) = files s"
    and get_value: "ok s \<Longrightarrow> snd (get k s) = files s k"
    and rem_ok: "ok s \<Longrightarrow> ok (rem k s)"
    and rem_files: "ok s \<Longrightarrow> files (rem k s) =
      (if files s k \<noteq> None then (files s)(k := None) else (\<lambda>j. if gone k j then None else files s j))"
begin

lemma run_refines:
  "ok s \<Longrightarrow> list_all (op_fits fits) ops \<Longrightarrow>
     ok (fst (run_ops put get rem ops s)) \<and>
     files (fst (run_ops put get rem ops s)) = fst (map_ops ops gone (files s)) \<and>
     snd (run_ops put get rem ops s) = snd (map_ops ops gone (files s))"
proof (induction ops arbitrary: s)
  case (Cons op ops)
  show ?case
  proof (cases op)
    case (Write_File k v)
    with Cons show ?thesis using put_ok put_files by simp
  next
    case (Read_File k)
    obtain s' r where g: "get k s = (s', r)" by fastforce
    have "ok s'" "files s' = files s" "r = files s k"
      using g get_ok [OF Cons.prems(1), of k] get_files [OF Cons.prems(1), of k]
        get_value [OF Cons.prems(1), of k] by simp_all
    with Read_File Cons g show ?thesis by (simp add: Let_def case_prod_beta)
  next
    case (Delete_File k)
    with Cons show ?thesis using rem_ok [of s k] rem_files [of s k] by simp
  qed
qed simp

lemma write_then_read: "ok s \<Longrightarrow> fits v \<Longrightarrow> snd (get k (put k v s)) = Some v"
  using put_ok [of s v k] put_files [of s v k] get_value by simp

end

definition store_ok :: "cache_conf \<Rightarrow> local_store \<Rightarrow> bool" where
  "store_ok cf s \<longleftrightarrow> lru_policy cf \<and> cc_max_size cf \<ge> 1 \<and> cache_inv cf (ls_cache s) \<and>
     distinct (map fst (ls_disk s)) \<and>
     (\<forall>k v. map_of (ca_data (ls_cache s)) k = Some v \<longrightarrow> map_of (ls_disk s) k = Some v)"

lemma store_ok_put:
  assumes ok: "store_ok cf s" and fits: "int (length v) \<le> cc_max_memory cf"
  shows "store_ok cf (local_write cf k v s)"
proof -
  have "lru_policy cf" "cc_max_size cf \<ge> 1" "cache_inv cf (ls_cache s)"
    using ok by (simp_all add: store_ok_def)
  note spec = cache_setitem_spec [OF this fits, of k]
  have "map_of (ls_disk (local_write cf k v s)) j = Some w"
    if "map_of (ca_data (ls_cache (local_write cf k v s))) j = Some w" for j w
    using that spec ok by (cases "j = k") (auto simp: local_write_def update_conv' store_ok_def)
  with spec ok show ?thesis by (simp add: store_ok_def local_write_def distinct_update)
qed

lemma setitem_large: "int (length v) > cc_max_memory cf \<Longrightarrow> cache_setitem cf k v c = c"
  by (simp add: cache_setitem_def)

lemma store_ok_cache_miss:
  assumes ok: "store_ok cf s" and v: "map_of (ls_disk s) k = Some v"
  shows "store_ok cf (s\<lparr>ls_cache := cache_setitem cf k v (ls_cache s)\<rparr>)"
proof (cases "int (length v) \<le> cc_max_memory cf")
  case True
  have "lru_policy cf" "cc_max_size cf \<ge> 1" "cache_inv cf (ls_cache s)"
    using ok by (simp_all add: store_ok_def)
  note spec = cache_setitem_spec [OF this True, of k]
  have "map_of (ls_disk s) j = Some w"
    if "map_of (ca_data (cache_setitem cf k v (ls_cache s))) j = Some w" for j w
    using that spec ok v by (cases "j = k") (auto simp: store_ok_def)
  with spec ok show ?thesis by (simp add: store_ok_def)
qed (use ok in \<open>simp add: setitem_large store_ok_def\<close>)

lemma local_read_spec:
  assumes ok: "store_ok cf s"
  shows "store_ok cf (fst (local_read cf k s))" and "ls_disk (fst (local_read cf k s)) = ls_disk s"
    and "snd (local_read cf k s) = map_of (ls_disk s) k"
proof -
  have hit: "map_of (ls_disk s) k = Some v" if "map_of (ca_data (ls_cache s)) k = Some v" for v
    using ok that by (simp add: store_ok_def)
  have upd: "\<And>us c. cache_inv cf (c\<lparr>ca_uses := us\<rparr>) = cache_inv cf c"
    by (simp add: cache_inv_def cache_keys_def)
  show "store_ok cf (fst (local_read cf k s))"
    using ok store_ok_cache_miss [OF ok] upd
    by (auto simp: local_read_def cache_get_def store_ok_def split: option.splits)
  show "ls_disk (fst (local_read cf k s)) = ls_disk s"
    by (simp add: local_read_def cache_get_def split: option.splits)
  show "snd (local_read cf k s) = map_of (ls_disk s) k"
    using hit by (simp add: local_read_def cache_get_def split: option.splits)
qed

lemma map_of_filter_keys:
  "map_of (filter (\<lambda>(p, v). \<not> P p) xs) j = (if P j then None else map_of xs j)"
  by (induction xs) auto

lemma store_ok_delete: "store_ok cf s \<Longrightarrow> store_ok cf (local_delete k s)"
proof -
  assume ok: "store_ok cf s"
  then have inv: "cache_inv cf (ls_cache s)" by (simp add: store_ok_def)
  have "store_ok cf (s\<lparr>ls_disk := AList.delete k (ls_disk s), ls_cache := cache_delitem k (ls_cache s)\<rparr>)"
    using ok cache_delitem_spec [OF inv, of k] by (simp add: store_ok_def delete_conv' distinct_delete)
  moreover have "distinct (map fst (filter P (ls_disk s)))" for P
    using ok by (simp add: store_ok_def distinct_map_filter)
  then have "store_ok cf (s\<lparr>ls_disk := filter (\<lambda>(p, v). \<not> inside k p) (ls_disk s),
      ls_cache := cache_clear (ls_cache s)\<rparr>)"
    using ok cache_clear_spec [OF inv] by (simp add: store_ok_def)
  ultimately show ?thesis using ok by (simp add: local_delete_def)
qed

lemma local_delete_files:
  "map_of (ls_disk (local_delete k s)) =
     (if map_of (ls_disk s) k \<noteq> None then (map_of (ls_disk s))(k := None)
      else (\<lambda>j. if inside k j then None else map_of (ls_disk s) j))"
proof (cases "map_of (ls_disk s) k \<noteq> None \<or> list_ex (inside k) (map fst (ls_disk s))")
  case True
  then show ?thesis
    by (auto simp: local_delete_def delete_conv' map_of_filter_keys fun_eq_iff)
next
  case False
  then have "map_of (ls_disk s) j = None" if "inside k j" for j
    using that by (auto simp: list_ex_iff map_of_eq_None_iff)
  with False show ?thesis by (auto simp: local_delete_def fun_eq_iff)
qed

interpretation lfs: file_store "local_write cf" "local_read cf" local_delete "\<lambda>s. map_of (ls_disk s)"
    "store_ok cf" "\<lambda>v. int (length v) \<le> cc_max_memory cf" inside for cf
proof
  show "store_ok cf s \<Longrightarrow> int (length v) \<le> cc_max_memory cf \<Longrightarrow> store_ok cf (local_write cf k v s)"
    for s v k by (rule store_ok_put)
  show "map_of (ls_disk (local_write cf k v s)) = (map_of (ls_disk s))(k \<mapsto> v)" for s v k
    by (simp add: local_write_def update_conv')
  show "store_ok cf s \<Longrightarrow> store_ok cf (fst (local_read cf k s))"
    "store_ok cf s \<Longrightarrow> map_of (ls_disk (fst (local_read cf k s))) = map_of (ls_disk s)"
    "store_ok cf s \<Longrightarrow> snd (local_read cf k s) = map_of (ls_disk s) k" for s k
    by (simp_all add: local_read_spec)
  show "store_ok cf s \<Longrightarrow> store_ok cf (local_delete k s)" for s k by (rule store_ok_delete)
  show "map_of (ls_disk (local_delete k s)) =
     (if map_of (ls_disk s) k \<noteq> None then (map_of (ls_disk s))(k := None)
      else (\<lambda>j. if inside k j then None else map_of (ls_disk s) j))" for s k
    by (rule local_delete_files)
qed

section \<open>Properties\<close>

definition new_store :: local_store where
  "new_store = \<lparr>ls_disk = [], ls_cache = new_cache\<rparr>"

lemma new_store_ok: "lru_policy cf \<Longrightarrow> 1 \<le> cc_max_size cf \<Longrightarrow> 0 \<le> cc_max_memory cf \<Longrightarrow> store_ok cf new_store"
  by (simp add: store_ok_def new_store_def new_cache_def cache_inv_def cache_keys_def total_size_def)


definition demo_cache :: cache_conf where
  "demo_cache = new_cache_conf 3 2 (\<lambda>us ks. case filter (\<lambda>k. take 1 us \<noteq> [k]) ks of [] \<Rightarrow> hd ks | k # _ \<Rightarrow> k)"

lemma demo_policy: "lru_policy demo_cache"
proof -
  let ?v = "\<lambda>us ks. case filter (\<lambda>k. take 1 us \<noteq> [k]) ks of [] \<Rightarrow> hd ks | k # _ \<Rightarrow> k"
  have mem: "?v us ks \<in> set ks" if "ks \<noteq> []" for us :: "string list" and ks
  proof (cases "filter (\<lambda>k. take 1 us \<noteq> [k]) ks")
    case (Cons k l)
    then have "k \<in> set (filter (\<lambda>k. take 1 us \<noteq> [k]) ks)" by (metis list.set_intros(1))
    then have "k \<in> set ks" by simp
    with Cons show ?thesis by simp
  qed (use that in simp)
  have other: "?v (k # us) ks \<noteq> k" if "distinct ks" "length ks > 1" for k :: string and us ks
  proof (cases "filter (\<lambda>j. take 1 (k # us) \<noteq> [j]) ks")
    case Nil
    then have "set ks \<subseteq> {k}" by (auto simp: filter_empty_conv)
    then have "card (set ks) \<le> 1" using card_mono [of "{k}" "set ks"] by simp
    with that show ?thesis by (simp add: distinct_card)
  next
    case (Cons j l)
    then have "j \<in> set (filter (\<lambda>j. take 1 (k # us) \<noteq> [j]) ks)" by (metis list.set_intros(1))
    then have "j \<noteq> k" by auto
    with Cons show ?thesis by simp
  qed
  show ?thesis
    using mem other unfolding lru_policy_def demo_cache_def new_cache_conf_def by simp
qed


text \<open>
  A write above the cache's memory limit to a path that is cached is not seen by the next read:
  the oversized value is skipped, the old entry is left in the cache, and \<open>read\<close> answers with the old
  contents although the new ones are on the disk.
\<close>

theorem oversized_write_is_stale:
  assumes "int (length new) > cc_max_memory cf" and "map_of (ca_data (ls_cache s)) path = Some old"
  shows "snd (local_read cf path (local_write cf path new s)) = Some old \<and>
    map_of (ls_disk (local_write cf path new s)) path = Some new"
  using assms by (simp_all add: local_read_def local_write_def setitem_large cache_get_def update_conv')

lemma oversized_write_is_stale_witness:
  "snd (local_read demo_cache ''a'' (local_write demo_cache ''a'' ''12345''
     (local_write demo_cache ''a'' ''1'' new_store))) = Some ''1''"
  by (rule conjunct1 [OF oversized_write_is_stale])
    (simp_all add: demo_cache_def new_cache_conf_def local_write_def new_store_def new_cache_def
      cache_setitem_def account_def Let_def evict_memory.simps evict_count.simps cache_keys_def)

text \<open>
  Storing a value within the memory limit puts it in the cache, keeps the number of entries and
  the memory within their limits and the memory accounts exact, and changes no other entry that
  stays, also when the key was cached with a value of another size.
\<close>

theorem setitem_keeps_limits:
  assumes "lru_policy cf" and "1 \<le> cc_max_size cf" and "cache_inv cf c" and "int (length v) \<le> cc_max_memory cf"
  shows "cache_inv cf (cache_setitem cf k v c) \<and>
    map_of (ca_data (cache_setitem cf k v c)) k = Some v \<and>
    (j \<noteq> k \<longrightarrow> map_of (ca_data (cache_setitem cf k v c)) j \<in> {None, map_of (ca_data c) j})"
  using cache_setitem_spec [OF assms, of k]
  by (auto, cases "map_of (ca_data (cache_setitem cf k v c)) j", auto)

lemma setitem_keeps_limits_witness:
  "map_of (ca_data (cache_setitem demo_cache ''c'' ''56''
     \<lparr>ca_data = [(''a'', ''12''), (''b'', ''3'')], ca_memory = 3, ca_uses = [''b'', ''a'']\<rparr>)) ''c'' = Some ''56''"
  by (rule conjunct1 [OF conjunct2 [OF setitem_keeps_limits [OF demo_policy]]])
    (simp_all add: demo_cache_def new_cache_conf_def cache_inv_def cache_keys_def)

lemma memory_list_loop_None:
  "path \<in> set fs \<Longrightarrow> memory_list_loop path acc fs = None"
proof (induction fs arbitrary: acc)
  case (Cons f fs)
  have "memory_list_step path acc path = None"
    by (simp add: memory_list_step_def starts_with_def Let_def)
  with Cons show ?case by (cases "f = path") (auto split: option.splits)
qed simp

text \<open>
  Listing a path that is itself a file raises \<open>IndexError\<close> in the in-memory store (whatever
  else the store holds), while the local store answers with the file.
\<close>

theorem listing_a_file:
  assumes "path \<in> set (cache_keys c)" and "path \<in> fst ` set (ls_disk s)"
  shows "memory_list path c = None \<and> local_list path s = [path]"
  using assms memory_list_loop_None [of path "cache_keys c" "[]"]
  by (simp_all add: memory_list_def local_list_def)

lemma listing_a_file_witness:
  "memory_list ''d/f'' \<lparr>ca_data = [(''d/f'', ''1'')], ca_memory = 1, ca_uses = []\<rparr> = None"
  by (rule conjunct1 [OF listing_a_file [of _ _ "new_store\<lparr>ls_disk := [(''d/f'', ''1'')]\<rparr>"]])
    (simp_all add: cache_keys_def)

end
