(* ===== verification/Event_Log.thy ===== *)
theory Event_Log
  imports Events "HOL-Library.AList"
begin

text \<open>
  The persistent event log (\<open>sdk/conversation/event_store.py\<close>, \<open>persistence_const.py\<close>): one file per
  event, named by its index and id, and in each instance of the log an index rebuilt from the names.
  The event directory is a list of names and contents; the operations of an append happen under the
  log's file lock, so an append is one step. The JSON encoding of events is a parameter. The lemmas
  show the round trip of the names, and that any number of instances over one directory, with their
  appends interleaved and processes reopening the log at any time, keep one list of events.
\<close>

section \<open>File names\<close>

definition pad5 :: "string \<Rightarrow> string" where
  "pad5 s = replicate (5 - length s) (CHR ''0'') @ s"

definition event_file_name :: "nat \<Rightarrow> string \<Rightarrow> string" where
  "event_file_name idx ev_id = ''event-'' @ pad5 (show_nat idx) @ ''-'' @ ev_id @ ''.json''"

definition hex_dash :: "char \<Rightarrow> bool" where
  "hex_dash c \<longleftrightarrow>
     (let n = of_char c :: nat
      in is_digit c \<or> (97 \<le> n \<and> n \<le> 102) \<or> (65 \<le> n \<and> n \<le> 70) \<or> c = CHR ''-'')"

definition valid_event_id :: "string \<Rightarrow> bool" where
  "valid_event_id s \<longleftrightarrow> length s \<ge> 8 \<and> list_all hex_dash s"

text \<open>
  Matching \<open>EVENT_NAME_RE\<close>: \<open>$\<close> also matches before a newline at the end.
\<close>

definition parse_event_name :: "string \<Rightarrow> (nat \<times> string) option" where
  "parse_event_name name0 =
     (let name = (if name0 \<noteq> [] \<and> last name0 = newline then butlast name0 else name0);
          idx = take 5 (drop 6 name);
          rest = drop 12 name;
          ev_id = take (length rest - 5) rest
      in if take 6 name = ''event-'' \<and> length idx = 5 \<and> list_all is_digit idx \<and>
            take 1 (drop 11 name) = ''-'' \<and> drop (length rest - 5) rest = ''.json'' \<and>
            valid_event_id ev_id
         then Some (read_nat idx, ev_id) else None)"

definition event_like :: "string \<Rightarrow> bool" where
  "event_like name \<longleftrightarrow> starts_with ''event-'' name \<and> drop (length name - 5) name = ''.json''"

section \<open>The log\<close>

text \<open>The dictionaries are in insertion order.\<close>

record event_log =
  el_id_to_idx :: "(string \<times> nat) list"
  el_idx_to_id :: "(nat \<times> string) list"
  el_length :: nat

type_synonym event_dir = "(string \<times> string) list"

record event_codec =
  ec_dump :: "event \<Rightarrow> string"
  ec_load :: "string \<Rightarrow> event option"

datatype log_error = DuplicateId nat | GuardError string | IndexError | KeyError | MissingFile | ValidationError

text \<open>\<open>_scan_and_build_index\<close>: the names that match, then the indices from 0 without a gap.\<close>

definition by_idx :: "event_dir \<Rightarrow> (nat \<times> string) list" where
  "by_idx d = fold (\<lambda>(n, _) m. case parse_event_name n of None \<Rightarrow> m | Some (i, x) \<Rightarrow> AList.update i x m) d []"

fun first_gap :: "(nat \<rightharpoonup> string) \<Rightarrow> nat \<Rightarrow> nat \<Rightarrow> nat" where
  "first_gap m 0 n = n"
| "first_gap m (Suc fuel) n = (if m n = None then n else first_gap m fuel (n + 1))"

definition add_index :: "(nat \<rightharpoonup> string) \<Rightarrow> nat \<Rightarrow> event_log \<Rightarrow> event_log" where
  "add_index m i l =
     (case m i of
        None \<Rightarrow> l
      | Some x \<Rightarrow>
          l\<lparr>el_idx_to_id := AList.update i x (el_idx_to_id l),
            el_id_to_idx := (if map_of (el_id_to_idx l) x = None then AList.update x i (el_id_to_idx l)
                             else el_id_to_idx l)\<rparr>)"

definition scan_and_build_index :: "event_dir \<Rightarrow> event_log" where
  "scan_and_build_index d =
     (let m = by_idx d; n = first_gap (map_of m) (length m) 0
      in fold (add_index (map_of m)) [0..<n] \<lparr>el_id_to_idx = [], el_idx_to_id = [], el_length = n\<rparr>)"

definition count_events_on_disk :: "event_dir \<Rightarrow> nat" where
  "count_events_on_disk d = length (filter (\<lambda>(n, _). event_like n) d)"

definition restore_mapping :: "nat \<times> string \<Rightarrow> event_log \<Rightarrow> event_log" where
  "restore_mapping p l =
     (let l1 = (if map_of (el_idx_to_id l) (fst p) = None
                then l\<lparr>el_idx_to_id := AList.update (fst p) (snd p) (el_idx_to_id l)\<rparr> else l)
      in if map_of (el_id_to_idx l1) (snd p) = None
         then l1\<lparr>el_id_to_idx := AList.update (snd p) (fst p) (el_id_to_idx l1)\<rparr> else l1)"

definition sync_from_disk :: "event_dir \<Rightarrow> nat \<Rightarrow> event_log \<Rightarrow> event_log" where
  "sync_from_disk d disk_length l =
     (let s = scan_and_build_index d;
          r = fold restore_mapping (el_idx_to_id l) s
      in r\<lparr>el_length := max (el_length s) disk_length\<rparr>)"

text \<open>
  \<open>append\<close>, under the lock. \<open>guard\<close> is the write guard: it raises or lets the write pass. A raise
  leaves the log as the synchronization made it.
\<close>

definition append_log :: "event_codec \<Rightarrow> string option \<Rightarrow> event \<Rightarrow> event_dir \<times> event_log \<Rightarrow>
    (event_dir \<times> event_log) \<times> log_error option" where
  "append_log cd guard ev s =
     (let (d, l0) = s; disk_length = count_events_on_disk d;
          l = (if disk_length > el_length l0 then sync_from_disk d disk_length l0 else l0)
      in case map_of (el_id_to_idx l) (event_id ev) of
           Some i \<Rightarrow> ((d, l), Some (DuplicateId i))
         | None \<Rightarrow>
             (case guard of
                Some e \<Rightarrow> ((d, l), Some (GuardError e))
              | None \<Rightarrow>
                  ((AList.update (event_file_name (el_length l) (event_id ev)) (ec_dump cd ev) d,
                    l\<lparr>el_idx_to_id := AList.update (el_length l) (event_id ev) (el_idx_to_id l),
                      el_id_to_idx := AList.update (event_id ev) (el_length l) (el_id_to_idx l),
                      el_length := el_length l + 1\<rparr>), None)))"

text \<open>Reading. An empty file counts as missing, and the iterator skips it.\<close>

definition load_file :: "event_codec \<Rightarrow> event_dir \<Rightarrow> string \<Rightarrow> (log_error, event) result" where
  "load_file cd d name =
     (case map_of d name of
        None \<Rightarrow> Inl MissingFile
      | Some txt \<Rightarrow> if txt = [] then Inl MissingFile
                   else (case ec_load cd txt of None \<Rightarrow> Inl ValidationError | Some e \<Rightarrow> Inr e))"

definition get_single_item :: "event_codec \<Rightarrow> event_dir \<Rightarrow> int \<Rightarrow> event_log \<Rightarrow>
    event_log \<times> (log_error, event) result" where
  "get_single_item cd d idx l =
     (let i = (if idx < 0 then idx + int (el_length l) else idx)
      in if i < 0 \<or> i \<ge> int (el_length l) then (l, Inl IndexError)
         else case map_of (el_idx_to_id l) (nat i) of
           Some x \<Rightarrow> (l, load_file cd d (event_file_name (nat i) x))
         | None \<Rightarrow>
             let l' = scan_and_build_index d
             in if nat i \<ge> el_length l' then (l', Inl IndexError)
                else case map_of (el_idx_to_id l') (nat i) of
                  None \<Rightarrow> (l', Inl KeyError)
                | Some x \<Rightarrow> (l', load_file cd d (event_file_name (nat i) x)))"

text \<open>
  \<open>__iter__\<close>, consumed to its end: what was yielded, and the exception that ended it early. The
  path is computed from the index, so an index without an id raises \<open>KeyError\<close> before the branch
  that would repair it.
\<close>

fun iter_log :: "event_codec \<Rightarrow> event_dir \<Rightarrow> event_log \<Rightarrow> nat list \<Rightarrow> event list \<times> log_error option" where
  "iter_log cd d l [] = ([], None)"
| "iter_log cd d l (i # is) =
     (case map_of (el_idx_to_id l) i of
        None \<Rightarrow> ([], Some KeyError)
      | Some x \<Rightarrow>
          (case map_of d (event_file_name i x) of
             None \<Rightarrow> ([], Some MissingFile)
           | Some txt \<Rightarrow>
               if txt = [] then iter_log cd d l is
               else (case ec_load cd txt of
                       None \<Rightarrow> ([], Some ValidationError)
                     | Some e \<Rightarrow> (let (es, r) = iter_log cd d l is in (e # es, r)))))"

definition iterate_log :: "event_codec \<Rightarrow> event_dir \<Rightarrow> event_log \<Rightarrow> event list \<times> log_error option" where
  "iterate_log cd d l = iter_log cd d l [0..<el_length l]"

definition get_index :: "string \<Rightarrow> event_log \<Rightarrow> nat option" where
  "get_index x l = map_of (el_id_to_idx l) x"

definition get_id :: "int \<Rightarrow> event_log \<Rightarrow> (log_error, string) result" where
  "get_id idx l =
     (let i = (if idx < 0 then idx + int (el_length l) else idx)
      in if i < 0 \<or> i \<ge> int (el_length l) then Inl IndexError
         else case map_of (el_idx_to_id l) (nat i) of None \<Rightarrow> Inl KeyError | Some x \<Rightarrow> Inr x)"

section \<open>Names of event files\<close>

lemma length_show_nat_le: "n < 10 ^ k \<Longrightarrow> k > 0 \<Longrightarrow> length (show_nat n) \<le> k"
proof (induction k arbitrary: n)
  case (Suc k)
  show ?case
  proof (cases "n < 10")
    case True
    then show ?thesis by (simp add: show_nat.simps)
  next
    case False
    then have "k > 0" using Suc.prems by (cases k) auto
    have "n div 10 < 10 ^ k" using Suc.prems by (simp add: less_mult_imp_div_less)
    with Suc.IH \<open>k > 0\<close> False show ?thesis by (subst show_nat.simps) simp
  qed
qed simp

lemma length_show_nat_ge: "10 ^ k \<le> n \<Longrightarrow> length (show_nat n) > k"
proof (induction k arbitrary: n)
  case 0
  then show ?case by (metis length_greater_0_conv show_nat_not_Nil)
next
  case (Suc k)
  then have "10 \<le> n" by (metis (no_types) le_trans one_le_numeral power_increasing power_one_right le_add1 plus_1_eq_Suc)
  have "10 ^ k \<le> n div 10" using Suc.prems by (simp add: less_eq_div_iff_mult_less_eq)
  with Suc.IH \<open>10 \<le> n\<close> show ?case by (subst show_nat.simps) simp
qed

lemma read_nat_zeros: "read_nat (replicate k (CHR ''0'') @ s) = read_nat s"
proof -
  have "digit_val (CHR ''0'') = 0" by (simp add: digit_val_def)
  then have "foldl (\<lambda>n c. 10 * n + digit_val c) 0 (replicate k (CHR ''0'')) = 0" by (induction k) auto
  then show ?thesis by (simp add: read_nat_def)
qed

lemma read_pad5 [simp]: "read_nat (pad5 (show_nat n)) = n"
  by (simp add: pad5_def read_nat_zeros)

lemma length_pad5: "n < 100000 \<Longrightarrow> length (pad5 (show_nat n)) = 5"
  using length_show_nat_le [of n 5] by (simp add: pad5_def)

lemma pad5_digits: "list_all is_digit (pad5 (show_nat n))"
  by (auto simp: pad5_def list_all_iff show_nat_digits is_digit_def [of "CHR ''0''"])

lemma pad5_large: "100000 \<le> n \<Longrightarrow> pad5 (show_nat n) = show_nat n \<and> length (show_nat n) \<ge> 6"
  using length_show_nat_ge [of 5 n] by (simp add: pad5_def)

lemma not_newline_name: "last (event_file_name i x) \<noteq> newline"
  by (simp add: event_file_name_def newline_def)

lemma event_file_name_parts:
  assumes "i < 100000"
  shows "take 6 (event_file_name i x) = ''event-''" "take 5 (drop 6 (event_file_name i x)) = pad5 (show_nat i)"
    "take 1 (drop 11 (event_file_name i x)) = ''-''" "drop 12 (event_file_name i x) = x @ ''.json''"
proof -
  let ?p = "pad5 (show_nat i)"
  have 5: "length ?p = 5" using assms by (rule length_pad5)
  have d6: "drop 6 (event_file_name i x) = ?p @ ''-'' @ x @ ''.json''" by (simp add: event_file_name_def)
  then show "take 5 (drop 6 (event_file_name i x)) = ?p" using 5 by simp
  have "drop 11 (event_file_name i x) = drop 5 (drop 6 (event_file_name i x))" by simp
  also have "\<dots> = ''-'' @ x @ ''.json''" unfolding d6 using 5 by simp
  finally have d11: "drop 11 (event_file_name i x) = ''-'' @ x @ ''.json''" .
  then show "take 1 (drop 11 (event_file_name i x)) = ''-''" by simp
  have "drop 12 (event_file_name i x) = drop 1 (drop 11 (event_file_name i x))" by simp
  then show "drop 12 (event_file_name i x) = x @ ''.json''" unfolding d11 by simp
  show "take 6 (event_file_name i x) = ''event-''" by (simp add: event_file_name_def)
qed

lemma parse_event_file_name:
  "parse_event_name (event_file_name i x) =
     (if i < 100000 \<and> valid_event_id x then Some (i, x) else None)"
proof (cases "i < 100000")
  case True
  note parts = event_file_name_parts [OF True, of x]
  have len: "length (x @ ''.json'') - 5 = length x" by simp
  have nl: "(event_file_name i x \<noteq> [] \<and> last (event_file_name i x) = newline) = False"
    by (simp add: not_newline_name)
  have rest: "take (length x) (x @ ''.json'') = x" "drop (length x) (x @ ''.json'') = ''.json''" by simp_all
  have "parse_event_name (event_file_name i x) = (if valid_event_id x then Some (i, x) else None)"
    unfolding parse_event_name_def Let_def nl if_False parts len rest
    using True by (simp add: length_pad5 pad5_digits)
  with True show ?thesis by simp
next
  case False
  then have "\<exists>c cs. drop 5 (show_nat i) = c # cs"
    using pad5_large [of i] by (cases "drop 5 (show_nat i)") auto
  then obtain c cs where c: "drop 5 (show_nat i) = c # cs" by blast
  then have "is_digit c" by (metis in_set_dropD list.set_intros(1) show_nat_digits)
  have "drop 11 (event_file_name i x) = drop 5 (show_nat i @ ''-'' @ x @ ''.json'')"
    using False pad5_large [of i] by (simp add: event_file_name_def)
  also have "\<dots> = drop 5 (show_nat i) @ ''-'' @ x @ ''.json''"
    using False pad5_large [of i] by simp
  finally have "take 1 (drop 11 (event_file_name i x)) = [c]" using c by simp
  moreover have "c \<noteq> CHR ''-''" using \<open>is_digit c\<close> by (auto simp: is_digit_def)
  ultimately show ?thesis using False by (simp add: parse_event_name_def not_newline_name Let_def)
qed

lemma event_like_name: "event_like (event_file_name i x)"
proof -
  let ?p = "''event-'' @ pad5 (show_nat i) @ ''-'' @ x"
  have e: "event_file_name i x = ?p @ ''.json''" by (simp add: event_file_name_def)
  then have "length (event_file_name i x) - 5 = length ?p" by simp
  then have "drop (length (event_file_name i x) - 5) (event_file_name i x) = ''.json''"
    unfolding e by (metis append_eq_conv_conj)
  then show ?thesis by (simp add: event_like_def starts_with_def event_file_name_def)
qed

section \<open>The directory and an instance represent a list of events\<close>

definition log_limit :: nat where
  "log_limit = 100000"

definition storable :: "event_codec \<Rightarrow> event list \<Rightarrow> bool" where
  "storable cd es \<longleftrightarrow> distinct (map event_id es) \<and> length es \<le> log_limit \<and>
     (\<forall>e \<in> set es. valid_event_id (event_id e) \<and> ec_dump cd e \<noteq> [] \<and> ec_load cd (ec_dump cd e) = Some e)"

definition event_files :: "event_codec \<Rightarrow> event list \<Rightarrow> (string \<times> string) list" where
  "event_files cd es = map (\<lambda>i. (event_file_name i (event_id (es ! i)), ec_dump cd (es ! i))) [0..<length es]"

text \<open>Other files may be in the directory as long as their names are not like those of events.\<close>

definition dir_holds :: "event_codec \<Rightarrow> event_dir \<Rightarrow> event list \<Rightarrow> bool" where
  "dir_holds cd d es \<longleftrightarrow> storable cd es \<and> distinct (map fst d) \<and>
     set (filter (\<lambda>(n, _). event_like n) d) = set (event_files cd es) \<and>
     (\<forall>n \<in> fst ` set d. \<not> event_like n \<longrightarrow> parse_event_name n = None)"

definition log_holds :: "event_log \<Rightarrow> event list \<Rightarrow> bool" where
  "log_holds l es \<longleftrightarrow> el_length l = length es \<and> distinct (map fst (el_idx_to_id l)) \<and>
     (\<forall>i. map_of (el_idx_to_id l) i = (if i < length es then Some (event_id (es ! i)) else None)) \<and>
     (\<forall>x i. map_of (el_id_to_idx l) x = Some i \<longleftrightarrow> i < length es \<and> event_id (es ! i) = x)"

lemma event_file_name_inject:
  assumes "i < log_limit" and "j < log_limit" and "valid_event_id x" and "valid_event_id y"
  shows "event_file_name i x = event_file_name j y \<longleftrightarrow> i = j \<and> x = y"
proof
  assume eq: "event_file_name i x = event_file_name j y"
  have "Some (i, x) = parse_event_name (event_file_name i x)"
    using assms parse_event_file_name [of i x] by (simp add: log_limit_def)
  also have "\<dots> = Some (j, y)"
    unfolding eq using assms parse_event_file_name [of j y] by (simp add: log_limit_def)
  finally show "i = j \<and> x = y" by simp
qed simp

lemma distinct_of_fst: "distinct (map fst xs) \<Longrightarrow> distinct xs"
  by (simp add: distinct_map)

lemma distinct_event_files:
  assumes "storable cd es"
  shows "distinct (map fst (event_files cd es))"
proof -
  have "inj_on (\<lambda>i. event_file_name i (event_id (es ! i))) {0..<length es}"
    using assms by (intro inj_onI) (simp add: storable_def event_file_name_inject)
  then show ?thesis
    by (simp add: event_files_def comp_def distinct_map)
qed

lemma dir_count:
  assumes "dir_holds cd d es"
  shows "count_events_on_disk d = length es"
proof -
  have d: "distinct (map fst (filter (\<lambda>(n, _). event_like n) d))"
    using assms by (simp add: dir_holds_def distinct_map_filter)
  have "length (filter (\<lambda>(n, _). event_like n) d) = card (set (filter (\<lambda>(n, _). event_like n) d))"
    using d by (metis distinct_card distinct_of_fst)
  also have "\<dots> = card (set (event_files cd es))" using assms by (simp add: dir_holds_def)
  also have "\<dots> = length (event_files cd es)"
    using assms distinct_event_files [of cd es] by (metis dir_holds_def distinct_card distinct_of_fst)
  finally show ?thesis by (simp add: count_events_on_disk_def event_files_def)
qed

lemma dir_lookup:
  assumes "dir_holds cd d es" and "i < length es"
  shows "map_of d (event_file_name i (event_id (es ! i))) = Some (ec_dump cd (es ! i))"
proof -
  have "(event_file_name i (event_id (es ! i)), ec_dump cd (es ! i)) \<in> set (event_files cd es)"
    using assms(2) by (auto simp: event_files_def)
  then have "(event_file_name i (event_id (es ! i)), ec_dump cd (es ! i)) \<in> set d"
    using assms(1) by (auto simp: dir_holds_def)
  then show ?thesis using assms(1) by (simp add: dir_holds_def)
qed

lemma dir_parse:
  assumes "dir_holds cd d es" and "(n, c) \<in> set d" and "parse_event_name n = Some (i, x)"
  shows "i < length es \<and> x = event_id (es ! i)"
proof -
  have "event_like n" using assms unfolding dir_holds_def by force
  then have "(n, c) \<in> set (event_files cd es)" using assms(1,2) by (auto simp: dir_holds_def)
  then obtain j where j: "j < length es" "n = event_file_name j (event_id (es ! j))"
    by (auto simp: event_files_def)
  have "parse_event_name n = (if j < 100000 \<and> valid_event_id (event_id (es ! j))
      then Some (j, event_id (es ! j)) else None)"
    unfolding j(2) by (rule parse_event_file_name)
  with j(1) assms(3) show ?thesis by (auto split: if_splits)
qed

section \<open>Scanning\<close>

lemma fold_by_idx:
  "map_of (fold (\<lambda>(n, _) m. case parse_event_name n of None \<Rightarrow> m | Some (i, x) \<Rightarrow> AList.update i x m) d m) i = Some x
     \<Longrightarrow> map_of m i = Some x \<or> (\<exists>(n, c) \<in> set d. parse_event_name n = Some (i, x))"
proof (induction d arbitrary: m)
  case (Cons p d)
  obtain n c where p: "p = (n, c)" by fastforce
  show ?case
  proof (cases "parse_event_name n")
    case None
    with Cons p show ?thesis by auto
  next
    case (Some jy)
    obtain j y where jy: "jy = (j, y)" by fastforce
    with Cons.IH [of "AList.update j y m"] Cons.prems p Some
    have "map_of (AList.update j y m) i = Some x \<or> (\<exists>(n, c) \<in> set d. parse_event_name n = Some (i, x))"
      by simp
    with p Some jy show ?thesis by (auto simp: update_conv' split: if_splits)
  qed
qed simp

lemma fold_by_idx_dom:
  "i \<in> dom (map_of m) \<or> (\<exists>(n, c) \<in> set d. \<exists>x. parse_event_name n = Some (i, x)) \<Longrightarrow>
   i \<in> dom (map_of (fold (\<lambda>(n, _) m. case parse_event_name n of None \<Rightarrow> m | Some (i, x) \<Rightarrow> AList.update i x m) d m))"
proof (induction d arbitrary: m)
  case (Cons p d)
  obtain n c where p: "p = (n, c)" by fastforce
  show ?case
  proof (cases "parse_event_name n")
    case None
    with Cons.prems p have "i \<in> dom (map_of m) \<or> (\<exists>(n, c) \<in> set d. \<exists>x. parse_event_name n = Some (i, x))"
      by auto
    from Cons.IH [OF this] None p show ?thesis by simp
  next
    case (Some jy)
    obtain j y where jy: "jy = (j, y)" by fastforce
    with Cons.prems p Some
    have "i \<in> dom (map_of (AList.update j y m)) \<or> (\<exists>(n, c) \<in> set d. \<exists>x. parse_event_name n = Some (i, x))"
      by (auto simp: update_conv' dom_def)
    from Cons.IH [OF this] p Some jy show ?thesis by simp
  qed
qed auto

lemma by_idx_holds:
  assumes h: "dir_holds cd d es"
  shows "map_of (by_idx d) i = (if i < length es then Some (event_id (es ! i)) else None)"
proof (cases "map_of (by_idx d) i")
  case (Some x)
  then have "\<exists>(n, c) \<in> set d. parse_event_name n = Some (i, x)"
    using fold_by_idx [of d "[]" i x] by (simp add: by_idx_def)
  then show ?thesis using dir_parse [OF h] Some by auto
next
  case None
  have "\<not> i < length es"
  proof
    assume i: "i < length es"
    have v: "valid_event_id (event_id (es ! i)) \<and> i < 100000"
      using h i by (simp add: dir_holds_def storable_def log_limit_def)
    have m: "(event_file_name i (event_id (es ! i)), ec_dump cd (es ! i)) \<in> set d"
      using dir_lookup [OF h i] by (rule map_of_SomeD)
    have "parse_event_name (event_file_name i (event_id (es ! i))) = Some (i, event_id (es ! i))"
      using v by (simp add: parse_event_file_name)
    with m have "\<exists>(n, c) \<in> set d. \<exists>x. parse_event_name n = Some (i, x)" by blast
    then have "i \<in> dom (map_of (by_idx d))"
      unfolding by_idx_def by (intro fold_by_idx_dom) simp
    with None show False by auto
  qed
  with None show ?thesis by simp
qed

lemma first_gap_eq:
  "(\<And>i. i < n \<Longrightarrow> m i \<noteq> None) \<Longrightarrow> m n = None \<Longrightarrow> a \<le> n \<Longrightarrow> n - a \<le> fuel \<Longrightarrow> first_gap m fuel a = n"
proof (induction m fuel a rule: first_gap.induct)
  case (2 m fuel a)
  then show ?case by (cases "a = n") auto
qed simp

lemma fold_add_index:
  assumes m: "\<And>i. i < n \<Longrightarrow> m i = Some (event_id (es ! i))" and n: "n \<le> length es"
    and d: "distinct (map event_id es)"
  shows "el_length (fold (add_index m) [0..<n] \<lparr>el_id_to_idx = [], el_idx_to_id = [], el_length = k\<rparr>) = k \<and>
     distinct (map fst (el_idx_to_id (fold (add_index m) [0..<n] \<lparr>el_id_to_idx = [], el_idx_to_id = [], el_length = k\<rparr>))) \<and>
     (\<forall>i. map_of (el_idx_to_id (fold (add_index m) [0..<n] \<lparr>el_id_to_idx = [], el_idx_to_id = [], el_length = k\<rparr>)) i
        = (if i < n then Some (event_id (es ! i)) else None)) \<and>
     (\<forall>x i. map_of (el_id_to_idx (fold (add_index m) [0..<n] \<lparr>el_id_to_idx = [], el_idx_to_id = [], el_length = k\<rparr>)) x
        = Some i \<longleftrightarrow> i < n \<and> event_id (es ! i) = x)"
  using m n
proof (induction n)
  case (Suc n)
  let ?l = "fold (add_index m) [0..<n] \<lparr>el_id_to_idx = [], el_idx_to_id = [], el_length = k\<rparr>"
  have IH: "el_length ?l = k \<and> distinct (map fst (el_idx_to_id ?l))" "\<And>i. map_of (el_idx_to_id ?l) i = (if i < n then Some (event_id (es ! i)) else None)"
    "\<And>x i. map_of (el_id_to_idx ?l) x = Some i \<longleftrightarrow> i < n \<and> event_id (es ! i) = x"
    using Suc by simp_all
  have new: "map_of (el_id_to_idx ?l) (event_id (es ! n)) = None"
  proof (cases "map_of (el_id_to_idx ?l) (event_id (es ! n))")
    case (Some i)
    then have "i < n" "event_id (es ! i) = event_id (es ! n)" using IH(3) by auto
    then show ?thesis using d Suc.prems(2) by (auto simp: distinct_conv_nth dest: spec [of _ i])
  qed simp
  have step: "fold (add_index m) [0..<Suc n] \<lparr>el_id_to_idx = [], el_idx_to_id = [], el_length = k\<rparr> =
      ?l\<lparr>el_idx_to_id := AList.update n (event_id (es ! n)) (el_idx_to_id ?l),
         el_id_to_idx := AList.update (event_id (es ! n)) n (el_id_to_idx ?l)\<rparr>"
    using Suc.prems(1) [of n] new by (simp add: add_index_def)
  have ne: "event_id (es ! i) \<noteq> event_id (es ! n)" if "i < n" for i
    using IH(3) [of "event_id (es ! n)" i] new that by auto
  show ?case unfolding step using IH ne by (auto simp: update_conv' less_Suc_eq distinct_update)
qed auto

lemma scan_holds:
  assumes h: "dir_holds cd d es"
  shows "log_holds (scan_and_build_index d) es"
proof -
  have "first_gap (map_of (by_idx d)) (length (by_idx d)) 0 = length es"
  proof (rule first_gap_eq)
    have "{0..<length es} \<subseteq> fst ` set (by_idx d)"
      using by_idx_holds [OF h] by (auto simp: dom_map_of_conv_image_fst [symmetric] dom_def)
    then have "length es \<le> card (fst ` set (by_idx d))"
      using card_mono [of "fst ` set (by_idx d)" "{0..<length es}"] by simp
    also have "\<dots> \<le> length (by_idx d)" by (metis card_image_le card_length finite_set le_trans)
    finally show "length es - 0 \<le> length (by_idx d)" by simp
  qed (simp_all add: by_idx_holds [OF h])
  then show ?thesis
    using fold_add_index [of "length es" "map_of (by_idx d)" es "length es"] by_idx_holds [OF h] h
    by (simp add: scan_and_build_index_def Let_def log_holds_def dir_holds_def storable_def)
qed

text \<open>A scan of a longer directory already has every mapping of an instance that is behind.\<close>

lemma fold_restore_id:
  "(\<And>p. p \<in> set ps \<Longrightarrow> map_of (el_idx_to_id l) (fst p) \<noteq> None \<and> map_of (el_id_to_idx l) (snd p) \<noteq> None) \<Longrightarrow>
     fold restore_mapping ps l = l"
proof (induction ps)
  case (Cons p ps)
  have "restore_mapping p l = l" using Cons.prems [of p] by (auto simp: restore_mapping_def Let_def)
  with Cons show ?case by simp
qed simp

lemma sync_holds:
  assumes h: "dir_holds cd d es" and l: "log_holds l (take k es)"
  shows "log_holds (sync_from_disk d (length es) l) es"
proof -
  let ?s = "scan_and_build_index d"
  have s: "log_holds ?s es" by (rule scan_holds [OF h])
  have "map_of (el_idx_to_id ?s) (fst p) \<noteq> None \<and> map_of (el_id_to_idx ?s) (snd p) \<noteq> None"
    if "p \<in> set (el_idx_to_id l)" for p
  proof -
    have "map_of (el_idx_to_id l) (fst p) = Some (snd p)"
      using that l by (metis log_holds_def map_of_eq_Some_iff prod.collapse)
    then have "fst p < length es" "snd p = event_id (es ! fst p)"
      using l by (auto simp: log_holds_def split: if_splits)
    with s show ?thesis unfolding log_holds_def by (metis option.distinct(1))
  qed
  then have "fold restore_mapping (el_idx_to_id l) ?s = ?s" by (rule fold_restore_id)
  with s show ?thesis by (simp add: sync_from_disk_def Let_def log_holds_def)
qed

section \<open>Appending\<close>

lemma storable_snoc:
  "storable cd (es @ [e]) \<longleftrightarrow> storable cd es \<and> length es < log_limit \<and> event_id e \<notin> event_id ` set es \<and>
     valid_event_id (event_id e) \<and> ec_dump cd e \<noteq> [] \<and> ec_load cd (ec_dump cd e) = Some e"
  by (auto simp: storable_def)

lemma event_files_snoc:
  "event_files cd (es @ [e]) =
     event_files cd es @ [(event_file_name (length es) (event_id e), ec_dump cd e)]"
  by (simp add: event_files_def nth_append)

lemma fresh_file:
  assumes h: "dir_holds cd d es" and e: "storable cd (es @ [e])"
  shows "map_of d (event_file_name (length es) (event_id e)) = None"
proof (rule ccontr)
  assume "map_of d (event_file_name (length es) (event_id e)) \<noteq> None"
  then obtain c where c: "(event_file_name (length es) (event_id e), c) \<in> set d"
    by (auto dest: map_of_SomeD)
  have "parse_event_name (event_file_name (length es) (event_id e)) = Some (length es, event_id e)"
    using e by (simp add: parse_event_file_name storable_snoc log_limit_def)
  from dir_parse [OF h c this] show False by simp
qed

lemma update_fresh: "map_of d k = None \<Longrightarrow> AList.update k v d = d @ [(k, v)]"
  by (induction d) (auto split: if_splits)

lemma dir_append:
  assumes h: "dir_holds cd d es" and e: "storable cd (es @ [e])"
  shows "dir_holds cd (AList.update (event_file_name (length es) (event_id e)) (ec_dump cd e) d) (es @ [e])"
proof -
  have n: "map_of d (event_file_name (length es) (event_id e)) = None" by (rule fresh_file [OF h e])
  have u: "AList.update (event_file_name (length es) (event_id e)) (ec_dump cd e) d =
      d @ [(event_file_name (length es) (event_id e), ec_dump cd e)]"
    by (rule update_fresh [OF n])
  have "set (filter (\<lambda>(n, _). event_like n) d) = set (event_files cd es)" using h by (simp add: dir_holds_def)
  then have "set (filter (\<lambda>(n, _). event_like n) (d @ [(event_file_name (length es) (event_id e), ec_dump cd e)]))
      = set (event_files cd (es @ [e]))"
    by (simp add: event_files_snoc event_like_name)
  moreover have "distinct (map fst (d @ [(event_file_name (length es) (event_id e), ec_dump cd e)]))"
    using h n by (simp add: dir_holds_def map_of_eq_None_iff)
  moreover have "\<forall>n \<in> fst ` set (d @ [(event_file_name (length es) (event_id e), ec_dump cd e)]).
      \<not> event_like n \<longrightarrow> parse_event_name n = None"
    using h by (auto simp: dir_holds_def event_like_name)
  ultimately show ?thesis using e unfolding dir_holds_def u by blast
qed

lemma log_append:
  assumes l: "log_holds l es" and e: "event_id e \<notin> event_id ` set es"
  shows "log_holds (l\<lparr>el_idx_to_id := AList.update (el_length l) (event_id e) (el_idx_to_id l),
           el_id_to_idx := AList.update (event_id e) (el_length l) (el_id_to_idx l),
           el_length := el_length l + 1\<rparr>) (es @ [e])"
proof -
  have "event_id (es ! i) \<noteq> event_id e" if "i < length es" for i
    using that e by (metis image_eqI nth_mem)
  then show ?thesis
    using l by (auto simp: log_holds_def update_conv' nth_append distinct_update less_Suc_eq split: if_splits)
qed

lemma lookup_id_None: "log_holds l es \<Longrightarrow> map_of (el_id_to_idx l) x = None \<longleftrightarrow> x \<notin> event_id ` set es"
proof -
  assume l: "log_holds l es"
  have "x \<in> event_id ` set es \<longleftrightarrow> (\<exists>i. map_of (el_id_to_idx l) x = Some i)"
    using l by (auto simp: log_holds_def set_conv_nth image_def)
  then show "map_of (el_id_to_idx l) x = None \<longleftrightarrow> x \<notin> event_id ` set es"
    by (cases "map_of (el_id_to_idx l) x") auto
qed

text \<open>
  What an append does to a directory and an instance that knows a prefix of the events: it first
  catches up, and then appends at the end or refuses.
\<close>

lemma append_log_spec:
  assumes h: "dir_holds cd d es" and l: "log_holds l (take k es)"
    and r: "append_log cd g e (d, l) = ((d', l'), err)"
  shows "event_id e \<in> event_id ` set es \<Longrightarrow>
        \<exists>i < length es. err = Some (DuplicateId i) \<and> event_id (es ! i) = event_id e \<and> d' = d \<and> log_holds l' es"
    and "event_id e \<notin> event_id ` set es \<Longrightarrow> g = Some m \<Longrightarrow>
        err = Some (GuardError m) \<and> d' = d \<and> log_holds l' es"
    and "storable cd (es @ [e]) \<Longrightarrow> g = None \<Longrightarrow>
        err = None \<and> dir_holds cd d' (es @ [e]) \<and> log_holds l' (es @ [e])"
proof -
  define l1 where "l1 = (if count_events_on_disk d > el_length l
    then sync_from_disk d (count_events_on_disk d) l else l)"
  have l1: "log_holds l1 es"
  proof (cases "length es > el_length l")
    case True
    then show ?thesis using sync_holds [OF h l] by (simp add: l1_def dir_count [OF h])
  next
    case False
    then have "take k es = es" using l by (auto simp: log_holds_def)
    with l False show ?thesis by (simp add: l1_def dir_count [OF h])
  qed
  have len: "el_length l1 = length es" using l1 by (simp add: log_holds_def)
  note step = r [unfolded append_log_def prod.case Let_def, folded l1_def]
  show "event_id e \<in> event_id ` set es \<Longrightarrow>
      \<exists>i < length es. err = Some (DuplicateId i) \<and> event_id (es ! i) = event_id e \<and> d' = d \<and> log_holds l' es"
  proof -
    assume "event_id e \<in> event_id ` set es"
    then obtain i where i: "map_of (el_id_to_idx l1) (event_id e) = Some i"
      using lookup_id_None [OF l1] by (cases "map_of (el_id_to_idx l1) (event_id e)") auto
    then have "i < length es" "event_id (es ! i) = event_id e" using l1 by (auto simp: log_holds_def)
    with step i l1 show ?thesis by auto
  qed
  show "event_id e \<notin> event_id ` set es \<Longrightarrow> g = Some m \<Longrightarrow>
      err = Some (GuardError m) \<and> d' = d \<and> log_holds l' es"
    using step l1 lookup_id_None [OF l1, of "event_id e"] by auto
  show "storable cd (es @ [e]) \<Longrightarrow> g = None \<Longrightarrow>
      err = None \<and> dir_holds cd d' (es @ [e]) \<and> log_holds l' (es @ [e])"
  proof -
    assume e: "storable cd (es @ [e])" and g: "g = None"
    then have n: "event_id e \<notin> event_id ` set es" by (simp add: storable_snoc)
    then have none: "map_of (el_id_to_idx l1) (event_id e) = None" using lookup_id_None [OF l1] by simp
    have "err = None" "d' = AList.update (event_file_name (length es) (event_id e)) (ec_dump cd e) d"
      "l' = l1\<lparr>el_idx_to_id := AList.update (el_length l1) (event_id e) (el_idx_to_id l1),
           el_id_to_idx := AList.update (event_id e) (el_length l1) (el_id_to_idx l1),
           el_length := el_length l1 + 1\<rparr>"
      using step none g len by auto
    then show ?thesis using dir_append [OF h e] log_append [OF l1 n] by simp
  qed
qed

section \<open>Several instances over one directory\<close>

datatype log_step = AppendStep nat "string option" event | OpenStep nat

fun log_run :: "event_codec \<Rightarrow> log_step list \<Rightarrow> event_dir \<times> (nat \<Rightarrow> event_log) \<Rightarrow> event_dir \<times> (nat \<Rightarrow> event_log)" where
  "log_run cd [] s = s"
| "log_run cd (AppendStep j g e # ss) (d, L) =
     (let ((d', l'), _) = append_log cd g e (d, L j) in log_run cd ss (d', L(j := l')))"
| "log_run cd (OpenStep j # ss) (d, L) = log_run cd ss (d, L(j := scan_and_build_index d))"

text \<open>The list of events that the steps mean: an append adds at the end, unless the id is taken or the guard raises.\<close>

fun log_spec :: "log_step list \<Rightarrow> event list \<Rightarrow> event list" where
  "log_spec [] es = es"
| "log_spec (AppendStep j g e # ss) es =
     (if event_id e \<in> event_id ` set es \<or> g \<noteq> None then log_spec ss es else log_spec ss (es @ [e]))"
| "log_spec (OpenStep j # ss) es = log_spec ss es"

fun step_events :: "log_step list \<Rightarrow> event list" where
  "step_events [] = []"
| "step_events (AppendStep j g e # ss) = e # step_events ss"
| "step_events (OpenStep j # ss) = step_events ss"

definition encodable :: "event_codec \<Rightarrow> event \<Rightarrow> bool" where
  "encodable cd e \<longleftrightarrow> valid_event_id (event_id e) \<and> ec_dump cd e \<noteq> [] \<and> ec_load cd (ec_dump cd e) = Some e"

lemma log_spec_extends: "\<exists>fs. log_spec ss es = es @ fs"
proof (induction ss arbitrary: es)
  case (Cons s ss)
  show ?case
  proof (cases s)
    case (AppendStep j g e)
    then show ?thesis using Cons.IH [of es] Cons.IH [of "es @ [e]"] by auto
  qed (use Cons in simp)
qed simp

lemma log_run_holds:
  assumes "dir_holds cd d es" and "\<forall>j. \<exists>k. log_holds (L j) (take k es)"
    and "\<And>e. e \<in> set (step_events ss) \<Longrightarrow> encodable cd e"
    and "length es + length (step_events ss) \<le> log_limit"
  shows "dir_holds cd (fst (log_run cd ss (d, L))) (log_spec ss es) \<and>
     (\<forall>j. \<exists>k. log_holds (snd (log_run cd ss (d, L)) j) (take k (log_spec ss es)))"
  using assms
proof (induction ss arbitrary: d L es)
  case (Cons s ss)
  show ?case
  proof (cases s)
    case (AppendStep j g e)
    obtain k where l: "log_holds (L j) (take k es)" using Cons.prems(2) by blast
    obtain d' l' err where r: "append_log cd g e (d, L j) = ((d', l'), err)" by (metis surj_pair)
    note spec = append_log_spec [OF Cons.prems(1) l r]
    have enc: "encodable cd e" using Cons.prems(3) AppendStep by simp
    show ?thesis
    proof (cases "event_id e \<in> event_id ` set es \<or> g \<noteq> None")
      case True
      then have "d' = d" "log_holds l' es" using spec(1,2) by auto
      then have "\<forall>i. \<exists>k. log_holds ((L(j := l')) i) (take k es)"
        using Cons.prems(2) by (auto intro: exI [of _ "length es"])
      note IH = Cons.IH [of d es "L(j := l')", OF Cons.prems(1) this]
      have "log_run cd (s # ss) (d, L) = log_run cd ss (d, L(j := l'))" "log_spec (s # ss) es = log_spec ss es"
        using True AppendStep r \<open>d' = d\<close> by auto
      moreover have "encodable cd e" if "e \<in> set (step_events ss)" for e
        using Cons.prems(3) AppendStep that by simp
      moreover have "length es + length (step_events ss) \<le> log_limit"
        using Cons.prems(4) AppendStep by simp
      ultimately show ?thesis using IH by metis
    next
      case False
      then have e: "storable cd (es @ [e])"
        using enc Cons.prems(1,4) AppendStep by (simp add: storable_snoc encodable_def dir_holds_def)
      then have new: "dir_holds cd d' (es @ [e])" "log_holds l' (es @ [e])"
        using spec(3) False by auto
      have "\<exists>k. log_holds ((L(j := l')) i) (take k (es @ [e]))" for i
      proof (cases "i = j")
        case True
        with new show ?thesis by (auto intro: exI [of _ "length (es @ [e])"])
      next
        case False
        obtain k' where "log_holds (L i) (take k' es)" using Cons.prems(2) by blast
        then have "log_holds (L i) (take (min k' (length es)) (es @ [e]))"
          by (cases "k' \<le> length es") (auto simp: min_def)
        with False have "log_holds ((L(j := l')) i) (take (min k' (length es)) (es @ [e]))" by simp
        then show ?thesis by blast
      qed
      then have "\<forall>i. \<exists>k. log_holds ((L(j := l')) i) (take k (es @ [e]))" by blast
      note IH = Cons.IH [of d' "es @ [e]" "L(j := l')", OF new(1) this]
      have "log_run cd (s # ss) (d, L) = log_run cd ss (d', L(j := l'))"
        "log_spec (s # ss) es = log_spec ss (es @ [e])"
        using False AppendStep r by auto
      moreover have "encodable cd e" if "e \<in> set (step_events ss)" for e
        using Cons.prems(3) AppendStep that by simp
      moreover have "length (es @ [e]) + length (step_events ss) \<le> log_limit"
        using Cons.prems(4) AppendStep by simp
      ultimately show ?thesis using IH by metis
    qed
  next
    case (OpenStep j)
    have "\<forall>i. \<exists>k. log_holds ((L(j := scan_and_build_index d)) i) (take k es)"
      using Cons.prems(2) scan_holds [OF Cons.prems(1)] by (auto intro: exI [of _ "length es"])
    note IH = Cons.IH [of d es "L(j := scan_and_build_index d)", OF Cons.prems(1) this]
    show ?thesis using IH Cons.prems(3,4) unfolding OpenStep log_run.simps log_spec.simps step_events.simps
      by blast
  qed
qed simp

lemma empty_dir: "dir_holds cd [] []"
  by (simp add: dir_holds_def storable_def event_files_def)

lemma empty_log: "log_holds (scan_and_build_index []) []"
  using scan_holds [OF empty_dir] .

section \<open>Reading\<close>

lemma load_held:
  assumes "dir_holds cd d es" and "i < length es"
  shows "load_file cd d (event_file_name i (event_id (es ! i))) = Inr (es ! i)"
  using assms dir_lookup [OF assms] by (simp add: load_file_def dir_holds_def storable_def)

lemma iter_held:
  assumes h: "dir_holds cd d es" and l: "log_holds l (take k es)"
  shows "m \<le> length (take k es) \<Longrightarrow>
    iter_log cd d l [length (take k es) - m..<length (take k es)] = (drop (length (take k es) - m) (take k es), None)"
proof (induction m)
  case (Suc m)
  let ?n = "length (take k es)"
  let ?i = "?n - Suc m"
  have i: "?i < ?n" "?i < length es" "Suc ?i = ?n - m" using Suc.prems by auto
  have "[?i..<?n] = ?i # [?n - m..<?n]" using i by (metis upt_conv_Cons)
  moreover have "map_of (el_idx_to_id l) ?i = Some (event_id (es ! ?i))"
    using l i by (simp add: log_holds_def)
  moreover have "map_of d (event_file_name ?i (event_id (es ! ?i))) = Some (ec_dump cd (es ! ?i))"
    by (rule dir_lookup [OF h i(2)])
  moreover have "ec_dump cd (es ! ?i) \<noteq> []" "ec_load cd (ec_dump cd (es ! ?i)) = Some (es ! ?i)"
    using h i(2) by (simp_all add: dir_holds_def storable_def)
  moreover have "drop ?i (take k es) = es ! ?i # drop (?n - m) (take k es)"
    using i by (metis Cons_nth_drop_Suc nth_take length_take min_less_iff_conj)
  ultimately show ?case using Suc by simp
qed simp

section \<open>Properties\<close>

text \<open>
  C12: Any number of instances of the log over one directory, with their appends interleaved in any
  order, some refused by the write guard or for a taken id, and instances reopened from disk at any
  time, refine one list of events: an append adds at the end of what all instances have written, the
  directory holds exactly the list, every instance knows a prefix of it, and a scan of the directory
  rebuilds the index of all of it. The ids are of the accepted form and there are at most 100000 events.
\<close>

theorem shared_log_refines_list:
  assumes "dir_holds cd d es" and "\<forall>j. \<exists>k. log_holds (L j) (take k es)"
    and "\<And>e. e \<in> set (step_events ss) \<Longrightarrow> encodable cd e"
    and "length es + length (step_events ss) \<le> log_limit"
    and "log_run cd ss (d, L) = (d', L')"
  shows "dir_holds cd d' (log_spec ss es) \<and> (\<exists>k. log_holds (L' j) (take k (log_spec ss es))) \<and>
     log_holds (scan_and_build_index d') (log_spec ss es)"
  using log_run_holds [OF assms(1-4)] assms(5) scan_holds [of cd d' "log_spec ss es"] by auto

definition demo_codec :: event_codec where
  "demo_codec = \<lparr>ec_dump = (\<lambda>e. event_id e), ec_load = (\<lambda>s. Some (PauseEvent s SrcUser))\<rparr>"

lemma shared_log_refines_list_witness:
  "\<exists>d' L'. log_run demo_codec [AppendStep 0 None (PauseEvent ''0000aaaa'' SrcUser), OpenStep 2,
       AppendStep 1 None (PauseEvent ''1111bbbb'' SrcUser), AppendStep 2 None (PauseEvent ''1111bbbb'' SrcUser)]
       ([], \<lambda>j. scan_and_build_index []) = (d', L') \<and>
     log_holds (scan_and_build_index d') [PauseEvent ''0000aaaa'' SrcUser, PauseEvent ''1111bbbb'' SrcUser]"
proof -
  let ?ss = "[AppendStep 0 None (PauseEvent ''0000aaaa'' SrcUser), OpenStep 2,
       AppendStep 1 None (PauseEvent ''1111bbbb'' SrcUser), AppendStep 2 None (PauseEvent ''1111bbbb'' SrcUser)]"
  obtain d' L' where r: "log_run demo_codec ?ss ([], \<lambda>j. scan_and_build_index []) = (d', L')" by fastforce
  have enc: "encodable demo_codec e" if "e \<in> set (step_events ?ss)" for e
    using that
    by (auto simp: encodable_def demo_codec_def valid_event_id_def hex_dash_def is_digit_def)
  have start: "\<forall>j::nat. \<exists>k. log_holds (scan_and_build_index []) (take k [])" using empty_log by auto
  have "length [] + length (step_events ?ss) \<le> log_limit" by (simp add: log_limit_def)
  from shared_log_refines_list [OF empty_dir start enc this r]
  have "log_holds (scan_and_build_index d') (log_spec ?ss [])" by blast
  with r show ?thesis by auto
qed

text \<open>
  An instance that knows a prefix of the events in the directory reads them all back: indexing,
  also from the end, gives the event appended at that position, an index outside raises
  \<open>IndexError\<close>, and iterating gives the whole prefix in order without an exception.
\<close>

theorem reading_returns_appended:
  assumes "dir_holds cd d es" and "log_holds l (take k es)"
  shows "get_single_item cd d i l =
       (let n = int (length (take k es)); j = (if i < 0 then i + n else i)
        in (l, if 0 \<le> j \<and> j < n then Inr (es ! nat j) else Inl IndexError)) \<and>
     iterate_log cd d l = (take k es, None)"
proof
  show "iterate_log cd d l = (take k es, None)"
    using iter_held [OF assms, of "length (take k es)"] assms(2)
    by (simp add: iterate_log_def log_holds_def)
  define n where "n = length (take k es)"
  define j where "j = (if i < 0 then i + int n else i)"
  have len: "el_length l = n" using assms(2) by (simp add: log_holds_def n_def)
  note get = get_single_item_def [of cd d i l, unfolded Let_def len, folded j_def]
  have "get_single_item cd d i l = (l, if 0 \<le> j \<and> j < int n then Inr (es ! nat j) else Inl IndexError)"
  proof (cases "0 \<le> j \<and> j < int n")
    case True
    then have "nat j < length es" "nat j < length (take k es)" by (auto simp: n_def)
    then have "map_of (el_idx_to_id l) (nat j) = Some (event_id (es ! nat j))"
      using assms(2) by (simp add: log_holds_def)
    with True load_held [OF assms(1) \<open>nat j < length es\<close>] show ?thesis
      by (simp add: get)
  next
    case False
    then have "j < 0 \<or> int n \<le> j" by linarith
    then show ?thesis using False by (auto simp: get)
  qed
  then show "get_single_item cd d i l =
       (let n = int (length (take k es)); j = (if i < 0 then i + n else i)
        in (l, if 0 \<le> j \<and> j < n then Inr (es ! nat j) else Inl IndexError))"
    unfolding Let_def j_def n_def .
qed

lemma reading_returns_appended_witness:
  "\<exists>d l. get_single_item demo_codec d (- 1) l = (l, Inr (PauseEvent ''0000aaaa'' SrcUser)) \<and>
     iterate_log demo_codec d l = ([PauseEvent ''0000aaaa'' SrcUser], None)"
proof -
  let ?e = "PauseEvent ''0000aaaa'' SrcUser"
  have e: "storable demo_codec ([] @ [?e])"
    by (simp add: storable_def demo_codec_def valid_event_id_def hex_dash_def is_digit_def log_limit_def)
  obtain d l err where r: "append_log demo_codec None ?e ([], scan_and_build_index []) = ((d, l), err)"
    by (metis surj_pair)
  have "log_holds (scan_and_build_index []) (take 0 [])" using empty_log by simp
  from append_log_spec(3) [OF empty_dir this r] e
  have "dir_holds demo_codec d [?e]" "log_holds l (take 1 [?e])" by simp_all
  from reading_returns_appended [OF this, of "- 1"] show ?thesis by (intro exI [of _ d] exI [of _ l]) simp
qed

lemma empty_scan: "scan_and_build_index [] = \<lparr>el_id_to_idx = [], el_idx_to_id = [], el_length = 0\<rparr>"
  by (simp add: scan_and_build_index_def by_idx_def)

lemma foreign_append:
  assumes "\<not> valid_event_id (event_id e)"
  shows "append_log cd None e ([], scan_and_build_index []) =
      (([(event_file_name 0 (event_id e), ec_dump cd e)],
        \<lparr>el_id_to_idx = [(event_id e, 0)], el_idx_to_id = [(0, event_id e)], el_length = 1\<rparr>), None)"
    and "append_log cd None e' ([(event_file_name 0 (event_id e), ec_dump cd e)], scan_and_build_index []) =
      ((AList.update (event_file_name 1 (event_id e')) (ec_dump cd e') [(event_file_name 0 (event_id e), ec_dump cd e)],
        \<lparr>el_id_to_idx = [(event_id e', 1)], el_idx_to_id = [(1, event_id e')], el_length = 2\<rparr>), None)"
proof -
  let ?d = "[(event_file_name 0 (event_id e), ec_dump cd e)]"
  show "append_log cd None e ([], scan_and_build_index []) =
      ((?d, \<lparr>el_id_to_idx = [(event_id e, 0)], el_idx_to_id = [(0, event_id e)], el_length = 1\<rparr>), None)"
    by (simp add: empty_scan append_log_def Let_def count_events_on_disk_def)
  have count: "count_events_on_disk ?d = 1" by (simp add: count_events_on_disk_def event_like_name)
  have scan: "scan_and_build_index ?d = \<lparr>el_id_to_idx = [], el_idx_to_id = [], el_length = 0\<rparr>"
    using assms by (simp add: scan_and_build_index_def by_idx_def parse_event_file_name Let_def)
  show "append_log cd None e' (?d, scan_and_build_index []) =
      ((AList.update (event_file_name 1 (event_id e')) (ec_dump cd e') ?d,
        \<lparr>el_id_to_idx = [(event_id e', 1)], el_idx_to_id = [(1, event_id e')], el_length = 2\<rparr>), None)"
    by (simp add: empty_scan append_log_def Let_def count sync_from_disk_def scan numeral_2_eq_2)
qed

text \<open>
  An id outside the accepted form breaks iteration in other instances. After one instance has
  appended such an event, a second one that was opened before counts the file, takes the next index
  for its own event and has no id for index 0, so its iterator raises \<open>KeyError\<close> at once.
\<close>

theorem foreign_id_breaks_iteration:
  assumes "\<not> valid_event_id (event_id e)"
    and "append_log cd None e ([], scan_and_build_index []) = ((d1, l1), None)"
    and "append_log cd None e' (d1, scan_and_build_index []) = ((d2, l2), None)"
  shows "el_length l2 = 2 \<and> iterate_log cd d2 l2 = ([], Some KeyError)"
proof -
  have "l2 = \<lparr>el_id_to_idx = [(event_id e', 1)], el_idx_to_id = [(1, event_id e')], el_length = 2\<rparr>"
    using foreign_append [OF assms(1), of cd] assms(2,3) by auto
  then show ?thesis by (simp add: iterate_log_def upt_conv_Cons numeral_2_eq_2)
qed

lemma foreign_id_breaks_iteration_witness:
  "\<exists>d l. iterate_log demo_codec d l = ([], Some KeyError) \<and> el_length l = 2"
proof -
  have v: "\<not> valid_event_id (event_id (PauseEvent ''evt-1'' SrcUser))" by (simp add: valid_event_id_def)
  from foreign_id_breaks_iteration [OF v foreign_append(1) [OF v, of demo_codec]
      foreign_append(2) [OF v, of demo_codec "PauseEvent ''evt-2'' SrcUser"]]
  show ?thesis by blast
qed

text \<open>
  The scan reads back the index and the id of a file name exactly when the index has at most
  five digits and the id is at least eight hexadecimal digits and dashes. An event written with an
  index from 100000 on has a name that is not recognized, although the pattern that writes names
  pads to five digits without a limit.
\<close>

theorem event_file_name_roundtrip:
  "parse_event_name (event_file_name i x) =
     (if i < 100000 \<and> valid_event_id x then Some (i, x) else None)"
  by (rule parse_event_file_name)

end
