(* ===== verification/Resource_Locks.thy ===== *)
theory Resource_Locks
  imports Fifo_Lock "HOL-Library.Char_ord" "HOL-Library.List_Lexorder"
begin

text \<open>
  The resource lock manager (\<open>sdk/conversation/resource_lock_manager.py\<close>): a lock object per
  resource key, made on demand and dropped when no thread uses it. A thread inside \<open>lock(...)\<close> asks
  for its keys in sorted order; a step is one critical section, of the manager's meta lock or of the
  mutex inside a lock object. Lock objects live in a store, so that a key may be given a new object
  after the old one was dropped. The lemmas show the invariant of the reference counts, mutual
  exclusion, and that some thread can always go on.
\<close>

section \<open>The manager\<close>

record 't manager =
  rm_locks :: "string \<rightharpoonup> nat"
  rm_refs :: "string \<rightharpoonup> int"
  rm_objects :: "nat \<Rightarrow> 't fifo_lock"
  rm_next :: nat

definition new_manager :: "'t manager" where
  "new_manager = \<lparr>rm_locks = Map.empty, rm_refs = Map.empty, rm_objects = (\<lambda>_. new_lock), rm_next = 0\<rparr>"

definition get_lock :: "string \<Rightarrow> 't manager \<Rightarrow> 't manager \<times> nat" where
  "get_lock key m =
     (let m1 = (case rm_locks m key of
                  None \<Rightarrow> m\<lparr>rm_locks := (rm_locks m)(key \<mapsto> rm_next m),
                            rm_objects := (rm_objects m)(rm_next m := new_lock), rm_next := rm_next m + 1\<rparr>
                | Some _ \<Rightarrow> m);
          refs = (case rm_refs m1 key of None \<Rightarrow> 0 | Some n \<Rightarrow> n)
      in (m1\<lparr>rm_refs := (rm_refs m1)(key \<mapsto> refs + 1)\<rparr>, the (rm_locks m1 key)))"

text \<open>The reference is given back, and the lock dropped with the last one.\<close>

definition unref :: "string \<Rightarrow> nat \<Rightarrow> 't manager \<Rightarrow> 't manager option" where
  "unref key obj m =
     (case rm_refs m key of
        None \<Rightarrow> None
      | Some n \<Rightarrow>
          if n - 1 = 0 \<and> \<not> locked (rm_objects m obj)
          then Some (m\<lparr>rm_locks := (rm_locks m)(key := None), rm_refs := (rm_refs m)(key := None)\<rparr>)
          else Some (m\<lparr>rm_refs := (rm_refs m)(key \<mapsto> n - 1)\<rparr>))"

text \<open>\<open>None\<close> is an exception: a lock the thread does not own, or a key without a count.\<close>

definition release_lock :: "'t \<Rightarrow> string \<Rightarrow> 't manager \<Rightarrow> 't manager option" where
  "release_lock t key m =
     (case rm_locks m key of
        None \<Rightarrow> Some m
      | Some obj \<Rightarrow>
          (case release t (rm_objects m obj) of
             None \<Rightarrow> None
           | Some lk \<Rightarrow> unref key obj (m\<lparr>rm_objects := (rm_objects m)(obj := lk)\<rparr>)))"

definition undo_get_lock :: "string \<Rightarrow> 't manager \<Rightarrow> 't manager option" where
  "undo_get_lock key m =
     (case rm_locks m key of None \<Rightarrow> None | Some obj \<Rightarrow> unref key obj m)"

definition sorted_keys :: "string list \<Rightarrow> string list" where
  "sorted_keys keys = sort (remdups keys)"

text \<open>The timeouts are in seconds. Only whether one expires matters to the steps.\<close>

definition get_timeout :: "(string \<times> nat) list \<Rightarrow> string \<Rightarrow> nat" where
  "get_timeout timeouts key =
     (case map_of timeouts (hd (split_on (CHR '':'') key)) of None \<Rightarrow> 30 | Some s \<Rightarrow> s)"

definition DEFAULT_TIMEOUTS :: "(string \<times> nat) list" where
  "DEFAULT_TIMEOUTS =
     [(''file'', 30), (''terminal'', 300), (''browser'', 300), (''mcp'', 300), (''tool'', 60)]"

section \<open>Threads\<close>

text \<open>
  Where a thread is in \<open>lock(...)\<close>: before the next key of the loop with the keys it has; with the
  lock object it got but before \<open>acquire\<close>; queued in the lock object; past a timeout, before the
  reference is undone; in the body; in the \<open>finally\<close> block with the keys still to release.
\<close>

datatype phase =
    Idle
  | Loop "string list" "string list"
  | Asking string nat "string list" "string list"
  | Queued string nat "string list" "string list"
  | TimedOut string "string list"
  | Inside "string list"
  | Releasing "string list"

type_synonym 't rm_state = "'t manager \<times> ('t \<Rightarrow> phase)"

definition set_object :: "nat \<Rightarrow> 't fifo_lock \<Rightarrow> 't manager \<Rightarrow> 't manager" where
  "set_object obj lk m = m\<lparr>rm_objects := (rm_objects m)(obj := lk)\<rparr>"

text \<open>After \<open>acquire\<close>, or another pass of its loop, on the object.\<close>

definition after_acquire :: "outcome \<Rightarrow> string \<Rightarrow> nat \<Rightarrow> string list \<Rightarrow> string list \<Rightarrow> phase" where
  "after_acquire r k obj todo acquired =
     (case r of
        Acquired \<Rightarrow> Loop todo (acquired @ [k])
      | Refused \<Rightarrow> TimedOut k acquired
      | Waiting \<Rightarrow> Queued k obj todo acquired)"

inductive rm_step :: "'t rm_state \<Rightarrow> 't \<Rightarrow> 't rm_state \<Rightarrow> bool" where
  Enter: "P t = Idle \<Longrightarrow> rm_step (m, P) t (m, P(t := Loop (sorted_keys keys) []))"
| Get: "P t = Loop (k # todo) acquired \<Longrightarrow> get_lock k m = (m', obj) \<Longrightarrow>
     rm_step (m, P) t (m', P(t := Asking k obj todo acquired))"
| Acquire: "P t = Asking k obj todo acquired \<Longrightarrow>
     acquire t True True expired (rm_objects m obj) = (r, lk) \<Longrightarrow>
     rm_step (m, P) t (set_object obj lk m, P(t := after_acquire r k obj todo acquired))"
| Wake: "P t = Queued k obj todo acquired \<Longrightarrow>
     loop_check t expired (rm_objects m obj) = (r, lk) \<Longrightarrow>
     rm_step (m, P) t (set_object obj lk m, P(t := after_acquire r k obj todo acquired))"
| Undo: "P t = TimedOut k acquired \<Longrightarrow> undo_get_lock k m = Some m' \<Longrightarrow>
     rm_step (m, P) t (m', P(t := Releasing (rev acquired)))"
| Yield: "P t = Loop [] acquired \<Longrightarrow> rm_step (m, P) t (m, P(t := Inside acquired))"
| Leave: "P t = Inside acquired \<Longrightarrow> rm_step (m, P) t (m, P(t := Releasing (rev acquired)))"
| Release_Lock: "P t = Releasing (k # ks) \<Longrightarrow> release_lock t k m = Some m' \<Longrightarrow>
     rm_step (m, P) t (m', P(t := Releasing ks))"
| Exit: "P t = Releasing [] \<Longrightarrow> rm_step (m, P) t (m, P(t := Idle))"

inductive_cases rm_stepE: "rm_step s t s'"

inductive rm_reachable :: "'t rm_state \<Rightarrow> bool" where
  Start: "rm_reachable (new_manager, \<lambda>_. Idle)"
| Next: "rm_reachable s \<Longrightarrow> rm_step s t s' \<Longrightarrow> rm_reachable s'"

section \<open>The invariant\<close>

fun uses :: "phase \<Rightarrow> string list" where
  "uses Idle = []"
| "uses (Loop todo acquired) = acquired"
| "uses (Asking k obj todo acquired) = acquired @ [k]"
| "uses (Queued k obj todo acquired) = acquired @ [k]"
| "uses (TimedOut k acquired) = acquired @ [k]"
| "uses (Inside acquired) = acquired"
| "uses (Releasing ks) = rev ks"

fun holds :: "phase \<Rightarrow> string list" where
  "holds Idle = []"
| "holds (Loop todo acquired) = acquired"
| "holds (Asking k obj todo acquired) = acquired"
| "holds (Queued k obj todo acquired) = acquired"
| "holds (TimedOut k acquired) = acquired"
| "holds (Inside acquired) = acquired"
| "holds (Releasing ks) = rev ks"

fun planned :: "phase \<Rightarrow> string list" where
  "planned (Loop todo acquired) = todo"
| "planned (Asking k obj todo acquired) = todo"
| "planned (Queued k obj todo acquired) = todo"
| "planned _ = []"

fun queued_for :: "phase \<Rightarrow> string option" where
  "queued_for (Queued k obj todo acquired) = Some k"
| "queued_for _ = None"

fun object_of :: "phase \<Rightarrow> (string \<times> nat) option" where
  "object_of (Asking k obj todo acquired) = Some (k, obj)"
| "object_of (Queued k obj todo acquired) = Some (k, obj)"
| "object_of _ = None"

definition users :: "('t \<Rightarrow> phase) \<Rightarrow> string \<Rightarrow> 't set" where
  "users P k = {t. k \<in> set (uses (P t))}"

text \<open>
  A lock object and its key agree: the owner is the thread that has the key, once, and the waiters
  are the threads queued for it.
\<close>

definition object_ok :: "'t fifo_lock \<Rightarrow> ('t \<Rightarrow> phase) \<Rightarrow> string \<Rightarrow> bool" where
  "object_ok lk P k \<longleftrightarrow> lock_inv lk \<and> fl_count lk \<le> 1 \<and>
     (\<forall>t. fl_owner lk = Some t \<longleftrightarrow> k \<in> set (holds (P t))) \<and>
     (\<forall>t. t \<in> set (waiting lk) \<longleftrightarrow> queued_for (P t) = Some k)"

definition key_ok :: "'t rm_state \<Rightarrow> string \<Rightarrow> bool" where
  "key_ok s k \<longleftrightarrow>
     (case rm_locks (fst s) k of
        None \<Rightarrow> rm_refs (fst s) k = None \<and> users (snd s) k = {}
      | Some obj \<Rightarrow>
          obj < rm_next (fst s) \<and> rm_refs (fst s) k = Some (int (card (users (snd s) k))) \<and>
          finite (users (snd s) k) \<and> users (snd s) k \<noteq> {} \<and>
          object_ok (rm_objects (fst s) obj) (snd s) k)"

definition rm_inv :: "'t rm_state \<Rightarrow> bool" where
  "rm_inv s \<longleftrightarrow>
     (\<forall>k. key_ok s k) \<and>
     (\<forall>k k' obj. rm_locks (fst s) k = Some obj \<longrightarrow> rm_locks (fst s) k' = Some obj \<longrightarrow> k = k') \<and>
     (\<forall>t. sorted_wrt (<) (uses (snd s t) @ planned (snd s t))) \<and>
     (\<forall>t k obj. object_of (snd s t) = Some (k, obj) \<longrightarrow> rm_locks (fst s) k = Some obj) \<and>
     finite {t. snd s t \<noteq> Idle}"

section \<open>What the operations of a lock object do\<close>

lemma acquire_effect:
  assumes a: "acquire t blocking timed e lk = (r, lk')" and inv: "lock_inv lk" and c: "fl_count lk \<le> 1"
    and o: "fl_owner lk \<noteq> Some t" and w: "t \<notin> set (waiting lk)"
  shows "lock_inv lk' \<and> fl_count lk' \<le> 1 \<and> fl_owner lk' = (if r = Acquired then Some t else fl_owner lk) \<and>
     set (waiting lk') = (if r = Waiting then insert t (set (waiting lk)) else set (waiting lk)) \<and>
     (r = Acquired \<longrightarrow> fl_owner lk = None)"
proof -
  have "lock_inv lk'" by (rule acquire_inv [OF a inv w])
  moreover have "fl_count lk' \<le> 1 \<and> fl_owner lk' = (if r = Acquired then Some t else fl_owner lk) \<and>
     set (waiting lk') = (if r = Waiting then insert t (set (waiting lk)) else set (waiting lk)) \<and>
     (r = Acquired \<longrightarrow> fl_owner lk = None)"
    using a
  proof (cases rule: acquire_cases)
    case Loop
    have r: "r \<noteq> Acquired" by (rule loop_check_enqueued [OF w Loop(2,3)])
    have "t \<in> set (waiting (enqueue t timed lk))" by simp
    from Loop(3) this show ?thesis
    proof (cases rule: loop_check_cases)
      case Expired
      then show ?thesis using w c by (auto simp: waiting_def waiting_filter enqueue_def)
    next
      case Wait
      then show ?thesis using c by (auto simp: waiting_def enqueue_def)
    qed (use r in simp)
  qed (use o c in \<open>auto simp: waiting_def\<close>)
  ultimately show ?thesis by blast
qed

lemma wake_effect:
  assumes a: "loop_check t e lk = (r, lk')" and inv: "lock_inv lk" and c: "fl_count lk \<le> 1"
    and w: "t \<in> set (waiting lk)"
  shows "lock_inv lk' \<and> fl_count lk' \<le> 1 \<and> fl_owner lk' = (if r = Acquired then Some t else fl_owner lk) \<and>
     set (waiting lk') = (if r = Waiting then set (waiting lk) else set (waiting lk) - {t}) \<and>
     (r = Acquired \<longrightarrow> fl_owner lk = None)"
proof -
  have d: "distinct (waiting lk)" using inv by (simp add: lock_inv_def)
  have "lock_inv lk'" by (rule loop_check_inv [OF a w inv])
  moreover have "fl_count lk' \<le> 1 \<and> fl_owner lk' = (if r = Acquired then Some t else fl_owner lk) \<and>
     set (waiting lk') = (if r = Waiting then set (waiting lk) else set (waiting lk) - {t}) \<and>
     (r = Acquired \<longrightarrow> fl_owner lk = None)"
    using a w
  proof (cases rule: loop_check_cases)
    case (Front w ws)
    then show ?thesis using d by (auto simp: waiting_def)
  next
    case Expired
    then show ?thesis using c by (auto simp: waiting_def waiting_filter)
  next
    case Wait
    then show ?thesis using c by (auto simp: waiting_def)
  qed
  ultimately show ?thesis by blast
qed

lemma release_effect:
  assumes "lock_inv lk" and "fl_count lk \<le> 1" and "fl_owner lk = Some t"
  shows "\<exists>lk'. release t lk = Some lk' \<and> lock_inv lk' \<and> fl_count lk' \<le> 1 \<and> fl_owner lk' = None \<and>
     set (waiting lk') = set (waiting lk)"
proof -
  have c: "fl_count lk = 1" using assms by (auto simp: lock_inv_def)
  then have r: "release t lk = Some (lk\<lparr>fl_count := 0, fl_owner := None, fl_waiters := notify_first (fl_waiters lk)\<rparr>)"
    using assms(3) by (simp add: release_def Let_def)
  with release_inv [OF this assms(1)] show ?thesis by (auto simp: waiting_def simp flip: set_map)
qed

section \<open>Every step keeps the invariant\<close>

lemma users_upd: "users (P(t := p)) k = (if k \<in> set (uses p) then insert t (users P k) else users P k - {t})"
  by (auto simp: users_def)

lemma users_same: "(k \<in> set (uses p) \<longleftrightarrow> k \<in> set (uses (P t))) \<Longrightarrow> users (P(t := p)) k = users P k"
  by (auto simp: users_def)

text \<open>A key that the step does not concern.\<close>

definition same_for :: "phase \<Rightarrow> phase \<Rightarrow> string \<Rightarrow> bool" where
  "same_for p q k \<longleftrightarrow> (k \<in> set (uses p) \<longleftrightarrow> k \<in> set (uses q)) \<and> (k \<in> set (holds p) \<longleftrightarrow> k \<in> set (holds q)) \<and>
     (queued_for p = Some k \<longleftrightarrow> queued_for q = Some k)"

lemma object_ok_same: "P t = q \<Longrightarrow> same_for p q k \<Longrightarrow> object_ok lk (P(t := p)) k = object_ok lk P k"
  by (auto simp: object_ok_def same_for_def)

lemma key_ok_frame:
  assumes "key_ok (m, P) k" and "rm_locks m' k = rm_locks m k" and "rm_refs m' k = rm_refs m k"
    and "rm_next m \<le> rm_next m'"
    and "\<And>obj. rm_locks m k = Some obj \<Longrightarrow> obj < rm_next m \<Longrightarrow> rm_objects m' obj = rm_objects m obj"
    and "P t = q" and "same_for p q k"
  shows "key_ok (m', P(t := p)) k"
proof -
  have u: "users (P(t := p)) k = users P k" using assms(6,7) by (simp add: users_same same_for_def)
  show ?thesis
    using assms(1-5) by (auto simp: key_ok_def u object_ok_same [where P = P and t = t, OF assms(6,7)] split: option.splits)
qed

lemma finite_active: "finite {t. P t \<noteq> Idle} \<Longrightarrow> finite {u. (P(t := p)) u \<noteq> Idle}"
  by (rule finite_subset [of _ "insert t {t. P t \<noteq> Idle}"]) auto

lemma rm_inv_step:
  assumes inv: "rm_inv (m, P)"
    and keys: "\<And>k. key_ok (m', P(t := p)) k"
    and inj: "\<And>k k' obj. rm_locks m' k = Some obj \<Longrightarrow> rm_locks m' k' = Some obj \<Longrightarrow> k = k'"
    and srt: "sorted_wrt (<) (uses p @ planned p)"
    and obj: "\<And>u k obj. object_of ((P(t := p)) u) = Some (k, obj) \<Longrightarrow> rm_locks m' k = Some obj"
  shows "rm_inv (m', P(t := p))"
  using assms finite_active [of P t p] by (auto simp: rm_inv_def)

text \<open>A step that only moves the thread.\<close>

lemma rm_inv_move:
  assumes inv: "rm_inv (m, P)" and same: "\<And>k. same_for p (P t) k"
    and srt: "sorted_wrt (<) (uses p @ planned p)" and obj: "object_of p = None"
  shows "rm_inv (m, P(t := p))"
proof (rule rm_inv_step [OF inv])
  show "key_ok (m, P(t := p)) k" for k
    by (rule key_ok_frame [where P = P and t = t, OF _ _ _ _ _ refl same [of k]]) (use inv in \<open>auto simp: rm_inv_def\<close>)
qed (use inv obj srt in \<open>auto simp: rm_inv_def split: if_splits\<close>)

lemma sorted_sorted_keys: "sorted_wrt (<) (sorted_keys keys)"
  by (simp add: sorted_keys_def strict_sorted_iff)

section \<open>The steps one by one\<close>

lemma uses_cases: "set (holds p) \<subseteq> set (uses p)"
  by (cases p) auto

lemma inv_key: "rm_inv (m, P) \<Longrightarrow> key_ok (m, P) k"
  by (simp add: rm_inv_def)

lemma inv_sorted: "rm_inv (m, P) \<Longrightarrow> P t = q \<Longrightarrow> sorted_wrt (<) (uses q @ planned q)"
  unfolding rm_inv_def by (metis snd_conv)

lemma sorted_distinct: "sorted_wrt (<) (xs @ (k::string) # ys) \<Longrightarrow> k \<notin> set xs \<and> k \<notin> set ys"
  by (auto simp: sorted_wrt_append)

lemma key_held:
  assumes "key_ok (m, P) k" and "k \<in> set (uses (P t))"
  obtains obj where "rm_locks m k = Some obj" "obj < rm_next m" "rm_refs m k = Some (int (card (users P k)))"
    "finite (users P k)" "object_ok (rm_objects m obj) P k"
proof -
  have "t \<in> users P k" using assms(2) by (simp add: users_def)
  with assms(1) that show thesis by (cases "rm_locks m k") (auto simp: key_ok_def)
qed

text \<open>Getting a lock object.\<close>

lemma get_lock_inv:
  assumes inv: "rm_inv (m, P)" and p: "P t = Loop (k # todo) acquired" and g: "get_lock k m = (m', obj)"
  shows "rm_inv (m', P(t := Asking k obj todo acquired))"
proof -
  let ?p = "Asking k obj todo acquired"
  have srt: "sorted_wrt (<) (acquired @ k # todo)" using inv_sorted [OF inv p] by simp
  then have nk: "k \<notin> set acquired" using sorted_distinct by blast
  have key: "key_ok (m, P) k" by (rule inv_key [OF inv])
  have nu: "t \<notin> users P k" using nk p by (simp add: users_def)
  have upd: "users (P(t := ?p)) k = insert t (users P k)" by (simp add: users_upd)
  have below: "rm_locks m j = Some ob \<Longrightarrow> ob < rm_next m" for j ob
    using inv_key [OF inv, of j] by (simp add: key_ok_def)
  have samek: "object_ok lk (P(t := ?p)) k = object_ok lk P k" for lk
  proof -
    have "k \<in> set (holds ((P(t := ?p)) u)) \<longleftrightarrow> k \<in> set (holds (P u))"
      "queued_for ((P(t := ?p)) u) = Some k \<longleftrightarrow> queued_for (P u) = Some k" for u
      using p nk by (cases "u = t"; simp)+
    then show ?thesis by (simp only: object_ok_def)
  qed
  have other: "same_for ?p (Loop (k # todo) acquired) j" if "j \<noteq> k" for j
    using that by (auto simp: same_for_def)
  show ?thesis
  proof (cases "rm_locks m k")
    case None
    then have m': "m' = m\<lparr>rm_locks := (rm_locks m)(k \<mapsto> rm_next m), rm_objects := (rm_objects m)(rm_next m := new_lock),
        rm_next := rm_next m + 1, rm_refs := (rm_refs m)(k \<mapsto> 1)\<rparr>" "obj = rm_next m"
      using g key by (auto simp: get_lock_def Let_def key_ok_def)
    have u: "users P k = {}" using key None by (simp add: key_ok_def)
    have noholds: "k \<notin> set (holds (P u))" "queued_for (P u) \<noteq> Some k" for u
    proof -
      have "k \<notin> set (uses (P u))" using u by (auto simp: users_def)
      then show "k \<notin> set (holds (P u))" "queued_for (P u) \<noteq> Some k" by (cases "P u"; auto)+
    qed
    show ?thesis
    proof (rule rm_inv_step [OF inv])
      show "key_ok (m', P(t := ?p)) j" for j
      proof (cases "j = k")
        case True
        have "object_ok new_lock (P(t := ?p)) k"
          using noholds nk by (simp add: samek object_ok_def lock_inv_new) (simp add: new_lock_def waiting_def)
        then show ?thesis using True upd u by (simp add: key_ok_def m')
      next
        case False
        show ?thesis
          by (rule key_ok_frame [where P = P and t = t, OF inv_key [OF inv] _ _ _ _ p other [OF False]]) (use False in \<open>auto simp: m'\<close>)
      qed
      show "j = j'" if "rm_locks m' j = Some ob" "rm_locks m' j' = Some ob" for j j' ob
        using that inv below [of j ob] below [of j' ob] by (auto simp: m' rm_inv_def split: if_splits)
      show "sorted_wrt (<) (uses ?p @ planned ?p)" using srt by simp
      show "rm_locks m' j = Some ob" if "object_of ((P(t := ?p)) u) = Some (j, ob)" for u j ob
        using that inv None by (auto simp: m' rm_inv_def split: if_splits)
    qed
  next
    case (Some ob)
    then have m': "m' = m\<lparr>rm_refs := (rm_refs m)(k \<mapsto> int (card (users P k)) + 1)\<rparr>" "obj = ob"
      using g key by (auto simp: get_lock_def Let_def key_ok_def)
    show ?thesis
    proof (rule rm_inv_step [OF inv])
      show "key_ok (m', P(t := ?p)) j" for j
      proof (cases "j = k")
        case True
        then show ?thesis using key Some upd nu by (simp add: key_ok_def m' samek [unfolded m'(2)])
      next
        case False
        show ?thesis
          by (rule key_ok_frame [where P = P and t = t, OF inv_key [OF inv] _ _ _ _ p other [OF False]]) (use False in \<open>auto simp: m'\<close>)
      qed
      show "j = j'" if "rm_locks m' j = Some ob" "rm_locks m' j' = Some ob" for j j' ob
        using that inv by (auto simp: m' rm_inv_def)
      show "sorted_wrt (<) (uses ?p @ planned ?p)" using srt by simp
      show "rm_locks m' j = Some ob" if "object_of ((P(t := ?p)) u) = Some (j, ob)" for u j ob
        using that inv Some by (auto simp: m' rm_inv_def split: if_splits)
    qed
  qed
qed

text \<open>A step inside the lock object of the key a thread asks for.\<close>

lemma object_step_inv:
  assumes inv: "rm_inv (m, P)" and p: "P t = q" and q: "object_of q = Some (k, obj)"
    and uq: "uses q = acquired @ [k]" and hq: "holds q = acquired" and pq: "planned q = todo"
    and lk: "\<And>lk0. lk0 = rm_objects m obj \<Longrightarrow> object_ok lk0 P k \<Longrightarrow>
        lock_inv lk \<and> fl_count lk \<le> 1 \<and> fl_owner lk = (if r = Acquired then Some t else fl_owner lk0) \<and>
        set (waiting lk) = (if r = Waiting then insert t (set (waiting lk0)) else set (waiting lk0) - {t}) \<and>
        (r = Acquired \<longrightarrow> fl_owner lk0 = None)"
  shows "rm_inv (set_object obj lk m, P(t := after_acquire r k obj todo acquired))"
proof -
  let ?p = "after_acquire r k obj todo acquired"
  have srt: "sorted_wrt (<) (acquired @ k # todo)" using inv_sorted [OF inv p] by (simp add: uq pq)
  then have nk: "k \<notin> set acquired" using sorted_distinct by blast
  have lock: "rm_locks m k = Some obj" using inv p q by (auto simp: rm_inv_def)
  have key: "key_ok (m, P) k" by (rule inv_key [OF inv])
  then have ok: "object_ok (rm_objects m obj) P k" using lock by (simp add: key_ok_def)
  note eff = lk [OF refl ok]
  have hp: "holds ?p = (if r = Acquired then acquired @ [k] else acquired)" "uses ?p = acquired @ [k]"
    "queued_for ?p = (if r = Waiting then Some k else None)"
    by (cases r; simp add: after_acquire_def)+
  have qf: "queued_for q = Some j \<Longrightarrow> j = k" for j using q by (cases q) auto
  have okk: "object_ok lk (P(t := ?p)) k"
  proof -
    have "fl_owner lk = Some u \<longleftrightarrow> k \<in> set (holds ((P(t := ?p)) u))" for u
      using ok eff p hq nk hp by (cases "u = t") (auto simp: object_ok_def)
    moreover have "u \<in> set (waiting lk) \<longleftrightarrow> queued_for ((P(t := ?p)) u) = Some k" for u
      using ok eff p hp by (cases "u = t") (auto simp: object_ok_def)
    ultimately show ?thesis using eff by (simp add: object_ok_def)
  qed
  have other: "same_for ?p q j" if "j \<noteq> k" for j
    using that uq hq qf [of j] by (auto simp: same_for_def hp)
  have us: "users (P(t := ?p)) k = users P k" using p uq hp by (intro users_same) simp
  show ?thesis
  proof (rule rm_inv_step [OF inv])
    show "key_ok (set_object obj lk m, P(t := ?p)) j" for j
    proof (cases "j = k")
      case True
      then show ?thesis using key lock okk by (simp add: key_ok_def set_object_def us)
    next
      case False
      have "rm_locks m j \<noteq> Some obj" using inv lock False by (auto simp: rm_inv_def)
      then show ?thesis
        by (intro key_ok_frame [where P = P and t = t, OF inv_key [OF inv] _ _ _ _ p other [OF False]]) (auto simp: set_object_def)
    qed
    show "j = j'" if "rm_locks (set_object obj lk m) j = Some ob" "rm_locks (set_object obj lk m) j' = Some ob" for j j' ob
      using that inv by (auto simp: set_object_def rm_inv_def)
    show "sorted_wrt (<) (uses ?p @ planned ?p)"
      using srt by (cases r) (auto simp: after_acquire_def sorted_wrt_append)
    have "object_of ?p = Some (j, ob) \<Longrightarrow> j = k \<and> ob = obj" for j ob
      by (cases r) (auto simp: after_acquire_def)
    then show "rm_locks (set_object obj lk m) j = Some ob" if "object_of ((P(t := ?p)) u) = Some (j, ob)" for u j ob
      using that inv lock by (fastforce simp: set_object_def rm_inv_def split: if_splits)
  qed
qed

text \<open>Giving a reference back when the thread no longer owns the lock object and is not queued.\<close>

lemma unref_inv:
  assumes inv: "rm_inv (m, P)" and p: "P t = q" and uq: "set (uses q) = insert k (set (uses p))"
    and nk: "k \<notin> set (uses p)" and hq: "\<And>j. j \<noteq> k \<Longrightarrow> j \<in> set (holds p) \<longleftrightarrow> j \<in> set (holds q)"
    and np: "k \<notin> set (holds p)" and qq: "queued_for q = None" and qp: "queued_for p = None" and op: "object_of p = None"
    and srt: "sorted_wrt (<) (uses p @ planned p)"
    and lock: "rm_locks m k = Some obj"
    and lk: "lock_inv lk" "fl_count lk \<le> 1" "set (waiting lk) = set (waiting (rm_objects m obj))"
      "\<And>u. fl_owner lk = Some u \<longleftrightarrow> u \<noteq> t \<and> fl_owner (rm_objects m obj) = Some u"
  shows "\<exists>m'. unref k obj (set_object obj lk m) = Some m' \<and> rm_inv (m', P(t := p))"
proof -
  have key: "key_ok (m, P) k" by (rule inv_key [OF inv])
  have tu: "t \<in> users P k" using p uq by (simp add: users_def)
  have refs: "rm_refs m k = Some (int (card (users P k)))" "finite (users P k)" and below: "obj < rm_next m"
    and ok: "object_ok (rm_objects m obj) P k" using key lock by (auto simp: key_ok_def)
  have us: "users (P(t := p)) k = users P k - {t}" using nk by (simp add: users_upd)
  have card: "int (card (users P k)) - 1 = int (card (users P k - {t}))"
    using card_Suc_Diff1 [OF refs(2) tu] by linarith
  have okk: "object_ok lk (P(t := p)) k"
  proof -
    have "fl_owner lk = Some u \<longleftrightarrow> k \<in> set (holds ((P(t := p)) u))" for u
      using ok lk(4) [of u] np by (cases "u = t") (auto simp: object_ok_def)
    moreover have "u \<in> set (waiting lk) \<longleftrightarrow> queued_for ((P(t := p)) u) = Some k" for u
      using ok lk(3) p qq qp by (cases "u = t") (auto simp: object_ok_def)
    ultimately show ?thesis using lk by (simp add: object_ok_def)
  qed
  have other: "same_for p q j" if "j \<noteq> k" for j
    using that uq hq qq qp by (auto simp: same_for_def)
  have inj: "rm_locks m j = Some ob \<Longrightarrow> rm_locks m j' = Some ob \<Longrightarrow> j = j'" for j j' ob
    using inv by (auto simp: rm_inv_def)
  define m1 where "m1 = set_object obj lk m"
  have o1: "rm_objects m1 obj = lk" "rm_refs m1 = rm_refs m" "rm_locks m1 = rm_locks m" "rm_next m1 = rm_next m"
    by (simp_all add: m1_def set_object_def)
  have frame: "key_ok (m', P(t := p)) j"
    if "j \<noteq> k" "rm_locks m' j = rm_locks m j" "rm_refs m' j = rm_refs m j" "rm_next m' = rm_next m"
      "rm_objects m' = rm_objects m1" for m' j
  proof -
    have "rm_locks m j \<noteq> Some obj" using inj lock that(1) by auto
    then show ?thesis
      by (intro key_ok_frame [where P = P and t = t, OF inv_key [OF inv] _ _ _ _ p other [OF that(1)]])
        (auto simp: that(2-5) m1_def set_object_def)
  qed
  show ?thesis
  proof (cases "users P k = {t}")
    case True
    then have "card (users P k - {t}) = 0" by simp
    moreover have "\<not> locked lk"
    proof
      assume "locked lk"
      then obtain u where "fl_owner lk = Some u" by (auto simp: locked_def)
      then have "k \<in> set (holds ((P(t := p)) u))" using okk unfolding object_ok_def by blast
      then have "u \<in> users (P(t := p)) k" using uses_cases unfolding users_def by blast
      with us True show False by simp
    qed
    ultimately have un: "unref k obj m1 = Some (m1\<lparr>rm_locks := (rm_locks m)(k := None), rm_refs := (rm_refs m)(k := None)\<rparr>)"
      (is "_ = Some ?m'") using refs card by (simp add: unref_def o1)
    have "rm_inv (?m', P(t := p))"
    proof (rule rm_inv_step [OF inv])
      show "key_ok (?m', P(t := p)) j" for j
      proof (cases "j = k")
        case True
        then show ?thesis using us \<open>users P k = {t}\<close> by (simp add: key_ok_def)
      next
        case False
        then show ?thesis by (intro frame) (simp_all add: o1)
      qed
      show "j = j'" if "rm_locks ?m' j = Some ob" "rm_locks ?m' j' = Some ob" for j j' ob
        using that inj by (auto split: if_splits)
      show "sorted_wrt (<) (uses p @ planned p)" by (rule srt)
      show "rm_locks ?m' j = Some ob" if o: "object_of ((P(t := p)) u) = Some (j, ob)" for u j ob
      proof -
        have "u \<noteq> t" using o op by auto
        then have l: "rm_locks m j = Some ob" and "j \<in> set (uses (P u))"
          using o inv by (auto simp: rm_inv_def) (cases "P u"; auto)
        then have "j \<noteq> k" using \<open>u \<noteq> t\<close> True by (auto simp: users_def)
        with l show ?thesis by simp
      qed
    qed
    with un show ?thesis by (simp add: m1_def)
  next
    case False
    then have "users P k - {t} \<noteq> {}" using tu by auto
    then have "card (users P k - {t}) \<noteq> 0" using refs(2) by simp
    then have un: "unref k obj m1 = Some (m1\<lparr>rm_refs := (rm_refs m)(k \<mapsto> int (card (users P k)) - 1)\<rparr>)"
      (is "_ = Some ?m'") using refs card by (simp add: unref_def o1)
    have "rm_inv (?m', P(t := p))"
    proof (rule rm_inv_step [OF inv])
      show "key_ok (?m', P(t := p)) j" for j
      proof (cases "j = k")
        case True
        then show ?thesis
          using us okk lock below refs(2) \<open>users P k - {t} \<noteq> {}\<close> card by (simp add: key_ok_def o1)
      next
        case False
        then show ?thesis by (intro frame) (simp_all add: o1)
      qed
      show "j = j'" if "rm_locks ?m' j = Some ob" "rm_locks ?m' j' = Some ob" for j j' ob
        using that inj by (auto simp: o1)
      show "sorted_wrt (<) (uses p @ planned p)" by (rule srt)
      show "rm_locks ?m' j = Some ob" if "object_of ((P(t := p)) u) = Some (j, ob)" for u j ob
        using that inv op by (auto simp: rm_inv_def o1 split: if_splits)
    qed
    with un show ?thesis by (simp add: m1_def)
  qed
qed


lemma rm_step_inv:
  assumes step: "rm_step s t s'" and inv: "rm_inv s"
  shows "rm_inv s'"
  using step
proof cases
  case (Enter P m keys)
  show ?thesis unfolding Enter(2)
    by (rule rm_inv_move)
      (use inv Enter in \<open>auto simp: same_for_def sorted_sorted_keys\<close>)
next
  case (Get P k todo acquired m m' obj)
  show ?thesis unfolding Get(2) using get_lock_inv [where P = P and t = t, OF _ Get(3,4)] inv Get(1) by simp
next
  case (Acquire P k obj todo acquired expired m r lk)
  have iv: "rm_inv (m, P)" using inv Acquire(1) by simp
  have srt: "sorted_wrt (<) (acquired @ k # todo)" using inv_sorted [OF iv Acquire(3)] by simp
  then have nk: "k \<notin> set acquired" using sorted_distinct by blast
  show ?thesis unfolding Acquire(2)
  proof (rule object_step_inv [OF iv Acquire(3)])
    fix lk0 assume l: "lk0 = rm_objects m obj" and ok: "object_ok lk0 P k"
    have "fl_owner lk0 \<noteq> Some t" "t \<notin> set (waiting lk0)" "lock_inv lk0" "fl_count lk0 \<le> 1"
      using ok nk Acquire(3) by (simp_all add: object_ok_def)
    with acquire_effect [OF Acquire(4)] l
    show "lock_inv lk \<and> fl_count lk \<le> 1 \<and> fl_owner lk = (if r = Acquired then Some t else fl_owner lk0) \<and>
        set (waiting lk) = (if r = Waiting then insert t (set (waiting lk0)) else set (waiting lk0) - {t}) \<and>
        (r = Acquired \<longrightarrow> fl_owner lk0 = None)"
      by auto
  qed simp_all
next
  case (Wake P k obj todo acquired expired m r lk)
  have iv: "rm_inv (m, P)" using inv Wake(1) by simp
  show ?thesis unfolding Wake(2)
  proof (rule object_step_inv [OF iv Wake(3)])
    fix lk0 assume l: "lk0 = rm_objects m obj" and ok: "object_ok lk0 P k"
    have w: "t \<in> set (waiting lk0)" "lock_inv lk0" "fl_count lk0 \<le> 1"
      using ok Wake(3) by (simp_all add: object_ok_def)
    with wake_effect [OF Wake(4)] l
    show "lock_inv lk \<and> fl_count lk \<le> 1 \<and> fl_owner lk = (if r = Acquired then Some t else fl_owner lk0) \<and>
        set (waiting lk) = (if r = Waiting then insert t (set (waiting lk0)) else set (waiting lk0) - {t}) \<and>
        (r = Acquired \<longrightarrow> fl_owner lk0 = None)"
      by auto
  qed simp_all
next
  case (Undo P k acquired m m')
  have iv: "rm_inv (m, P)" using inv Undo(1) by simp
  have srt: "sorted_wrt (<) (acquired @ [k])" using inv_sorted [OF iv Undo(3)] by simp
  then have nk: "k \<notin> set acquired" using sorted_distinct by fastforce
  obtain obj where o: "rm_locks m k = Some obj" "object_ok (rm_objects m obj) P k"
    using key_held [OF inv_key [OF iv], of k t] Undo(3) by auto
  have own: "fl_owner (rm_objects m obj) \<noteq> Some t" using o(2) nk Undo(3) by (simp add: object_ok_def)
  have "\<exists>m'. unref k obj (set_object obj (rm_objects m obj) m) = Some m' \<and> rm_inv (m', P(t := Releasing (rev acquired)))"
    by (rule unref_inv [OF iv Undo(3)])
      (use o own nk srt in \<open>auto simp: object_ok_def sorted_wrt_append\<close>)
  moreover have "set_object obj (rm_objects m obj) m = m" by (simp add: set_object_def)
  ultimately show ?thesis using Undo(2,4) o(1) by (simp add: undo_get_lock_def)
next
  case (Yield P acquired m)
  show ?thesis unfolding Yield(2)
    by (rule rm_inv_move)
      (use inv inv_sorted [of m P t] Yield in \<open>auto simp: same_for_def\<close>)
next
  case (Leave P acquired m)
  show ?thesis unfolding Leave(2)
    by (rule rm_inv_move)
      (use inv inv_sorted [of m P t] Leave in \<open>auto simp: same_for_def\<close>)
next
  case (Release_Lock P k ks m m')
  have iv: "rm_inv (m, P)" using inv Release_Lock(1) by simp
  have srt: "sorted_wrt (<) (rev ks @ [k])" using inv_sorted [OF iv Release_Lock(3)] by simp
  then have nk: "k \<notin> set ks" using sorted_distinct [of "rev ks" k "[]"] by simp
  obtain obj where o: "rm_locks m k = Some obj" "object_ok (rm_objects m obj) P k"
    using key_held [OF inv_key [OF iv], of k t] Release_Lock(3) by auto
  have own: "fl_owner (rm_objects m obj) = Some t" using o(2) Release_Lock(3) by (simp add: object_ok_def)
  obtain lk where lk: "release t (rm_objects m obj) = Some lk" "lock_inv lk" "fl_count lk \<le> 1" "fl_owner lk = None"
    "set (waiting lk) = set (waiting (rm_objects m obj))"
    using release_effect [OF _ _ own] o(2) by (auto simp: object_ok_def)
  have "\<exists>m'. unref k obj (set_object obj lk m) = Some m' \<and> rm_inv (m', P(t := Releasing ks))"
    by (rule unref_inv [OF iv Release_Lock(3)])
      (use o own nk srt lk in \<open>auto simp: sorted_wrt_append\<close>)
  then show ?thesis using Release_Lock(2,4) o(1) lk(1) by (auto simp: release_lock_def set_object_def)
next
  case (Exit P m)
  show ?thesis unfolding Exit(2)
    by (rule rm_inv_move) (use inv Exit in \<open>auto simp: same_for_def\<close>)
qed

lemma rm_inv_start: "rm_inv (new_manager, \<lambda>_. Idle)"
  by (simp add: rm_inv_def key_ok_def new_manager_def users_def)

lemma reachable_inv: "rm_reachable s \<Longrightarrow> rm_inv s"
  by (induction rule: rm_reachable.induct) (auto intro: rm_inv_start rm_step_inv)

section \<open>Progress\<close>

text \<open>A thread that can go on by itself: it is not queued, or it is first in the queue of a free lock.\<close>

fun can_go :: "'t manager \<Rightarrow> 't \<Rightarrow> phase \<Rightarrow> bool" where
  "can_go m t Idle = False"
| "can_go m t (Queued k obj todo acquired) =
     (fl_owner (rm_objects m obj) = None \<and> take 1 (waiting (rm_objects m obj)) = [t])"
| "can_go m t _ = True"

lemma some_thread_can_go:
  assumes inv: "rm_inv (m, P)" and active: "P t \<noteq> Idle"
  shows "\<exists>u. can_go m u (P u)"
proof (rule ccontr)
  assume none: "\<not> (\<exists>u. can_go m u (P u))"
  have q: "\<exists>k obj todo acq. P u = Queued k obj todo acq" if "P u \<noteq> Idle" for u
    using none that by (cases "P u") (auto dest: spec [of _ u])
  define K where "K = {k. \<exists>u. queued_for (P u) = Some k}"
  have "K \<subseteq> (\<lambda>u. the (queued_for (P u))) ` {u. P u \<noteq> Idle}"
  proof
    fix k assume "k \<in> K"
    then obtain u where u: "queued_for (P u) = Some k" by (auto simp: K_def)
    then have "P u \<noteq> Idle" by auto
    with u show "k \<in> (\<lambda>u. the (queued_for (P u))) ` {u. P u \<noteq> Idle}" by force
  qed
  then have fin: "finite K" using inv by (auto simp: rm_inv_def dest: finite_subset)
  obtain k0 obj0 todo0 acq0 where "P t = Queued k0 obj0 todo0 acq0" using q [OF active] by blast
  then have "k0 \<in> K" by (auto simp: K_def intro: exI [of _ t])
  then have ne: "K \<noteq> {}" by blast
  define k where "k = Max K"
  have "k \<in> K" using fin ne by (simp add: k_def)
  then obtain u obj todo acq where u: "P u = Queued k obj todo acq"
    unfolding K_def by (auto elim: queued_for.elims)
  have lock: "rm_locks m k = Some obj" using inv u by (auto simp: rm_inv_def dest: spec [of _ u])
  then have ok: "object_ok (rm_objects m obj) P k" using inv_key [OF inv, of k] by (simp add: key_ok_def)
  show False
  proof (cases "fl_owner (rm_objects m obj)")
    case None
    have "u \<in> set (waiting (rm_objects m obj))" using ok u by (simp add: object_ok_def)
    then obtain w ws where w: "waiting (rm_objects m obj) = w # ws"
      by (cases "waiting (rm_objects m obj)") auto
    then have "queued_for (P w) = Some k" using ok by (auto simp: object_ok_def)
    then obtain obj' todo' acq' where pw: "P w = Queued k obj' todo' acq'" by (auto elim: queued_for.elims)
    then have "rm_locks m k = Some obj'" using inv by (auto simp: rm_inv_def dest: spec [of _ w])
    then have "can_go m w (P w)" using pw w None lock by simp
    with none show False by blast
  next
    case (Some v)
    then have hold: "k \<in> set (holds (P v))" using ok unfolding object_ok_def by blast
    then have "P v \<noteq> Idle" by auto
    from q [OF this] obtain k' obj' todo' acq' where pv: "P v = Queued k' obj' todo' acq'" by blast
    have "sorted_wrt (<) (acq' @ k' # todo')" using inv_sorted [OF inv pv] by simp
    then have "k < k'" using hold pv by (auto simp: sorted_wrt_append)
    moreover have "k' \<in> K" using pv by (auto simp: K_def intro: exI [of _ v])
    ultimately show False using fin unfolding k_def by (meson Max_ge not_le)
  qed
qed

lemma acquire_not_refused: "acquire t True True False lk = (r, lk') \<Longrightarrow> r \<noteq> Refused"
  by (auto simp: acquire_def loop_check_def split: if_splits list.splits)

lemma after_acquire_changes:
  "r \<noteq> Refused \<Longrightarrow> after_acquire r k obj todo acq \<noteq> Asking k obj todo acq \<and>
     after_acquire r k obj todo acq \<noteq> TimedOut k' acq'"
  by (cases r) (auto simp: after_acquire_def)

lemma release_lock_total:
  assumes inv: "rm_inv (m, P)" and p: "P u = Releasing (k # ks)"
  shows "\<exists>m'. release_lock u k m = Some m'"
proof -
  obtain obj where o: "rm_locks m k = Some obj" "rm_refs m k \<noteq> None" "object_ok (rm_objects m obj) P k"
    using key_held [OF inv_key [OF inv], of k u] p by auto
  have own: "fl_owner (rm_objects m obj) = Some u" using o(3) p by (simp add: object_ok_def)
  obtain lk where "release u (rm_objects m obj) = Some lk"
    using release_effect [OF _ _ own] o(3) by (auto simp: object_ok_def)
  with o show ?thesis by (auto simp: release_lock_def unref_def)
qed

lemma undo_total:
  assumes inv: "rm_inv (m, P)" and p: "P u = TimedOut k acquired"
  shows "\<exists>m'. undo_get_lock k m = Some m'"
proof -
  obtain obj where "rm_locks m k = Some obj" "rm_refs m k \<noteq> None"
    using key_held [OF inv_key [OF inv], of k u] p by auto
  then show ?thesis by (auto simp: undo_get_lock_def unref_def)
qed

lemma moves:
  "rm_step (m, P) u (m', P(u := p)) \<Longrightarrow> p \<noteq> P u \<Longrightarrow> (\<And>k acq. p \<noteq> TimedOut k acq) \<Longrightarrow>
     \<exists>m' p. rm_step (m, P) u (m', P(u := p)) \<and> p \<noteq> P u \<and> (\<forall>k acq. p \<noteq> TimedOut k acq)"
  by blast

lemma can_go_step:
  assumes inv: "rm_inv (m, P)" and go: "can_go m u (P u)"
  shows "\<exists>m' p. rm_step (m, P) u (m', P(u := p)) \<and> p \<noteq> P u \<and> (\<forall>k acq. p \<noteq> TimedOut k acq)"
proof (cases "P u")
  case Idle
  then show ?thesis using go by simp
next
  case (Loop todo acquired)
  show ?thesis
  proof (cases todo)
    case Nil
    show ?thesis by (rule moves [OF rm_step.Yield]) (use Loop Nil in auto)
  next
    case (Cons k ks)
    obtain m' obj where "get_lock k m = (m', obj)" by fastforce
    then show ?thesis by (intro moves [OF rm_step.Get]) (use Loop Cons in auto)
  qed
next
  case (Asking k obj todo acquired)
  obtain r lk where a: "acquire u True True False (rm_objects m obj) = (r, lk)" by fastforce
  note changes = after_acquire_changes [OF acquire_not_refused [OF a], of k obj todo acquired]
  show ?thesis by (rule moves [OF rm_step.Acquire [of P, OF Asking a]]) (use changes Asking in auto)
next
  case (Queued k obj todo acquired)
  then obtain w ws where w: "fl_waiters (rm_objects m obj) = w # ws" "w_thread w = u"
      "fl_owner (rm_objects m obj) = None"
    using go by (cases "fl_waiters (rm_objects m obj)") (auto simp: waiting_def)
  then obtain lk where l: "loop_check u False (rm_objects m obj) = (Acquired, lk)"
    by (simp add: loop_check_def)
  show ?thesis
    by (rule moves [OF rm_step.Wake [of P, OF Queued l]]) (use Queued in \<open>auto simp: after_acquire_def\<close>)
next
  case (TimedOut k acquired)
  then obtain m' where "undo_get_lock k m = Some m'" using undo_total [OF inv] by blast
  then show ?thesis by (intro moves [OF rm_step.Undo [of P, OF TimedOut]]) (use TimedOut in auto)
next
  case (Inside acquired)
  show ?thesis by (rule moves [OF rm_step.Leave]) (use Inside in auto)
next
  case (Releasing ks)
  show ?thesis
  proof (cases ks)
    case Nil
    show ?thesis by (rule moves [OF rm_step.Exit]) (use Releasing Nil in auto)
  next
    case (Cons k ks')
    then obtain m' where r: "release_lock u k m = Some m'"
      using release_lock_total [OF inv] Releasing by blast
    show ?thesis
      by (rule moves [OF rm_step.Release_Lock [of P, OF Releasing [unfolded Cons] r]]) (use Releasing Cons in auto)
  qed
qed

section \<open>Properties\<close>

text \<open>
  C13: Two different threads are never both inside \<open>lock(...)\<close> with a key in common, although lock
  objects are made and dropped on demand, waiting times out, and a key gets a new object after its
  old one was dropped.
\<close>

theorem resource_mutual_exclusion:
  assumes "rm_reachable (m, P)" and "P t = Inside ks" and "P u = Inside js" and "t \<noteq> u"
  shows "set ks \<inter> set js = {}"
proof -
  have inv: "rm_inv (m, P)" by (rule reachable_inv [OF assms(1)])
  have False if k: "k \<in> set ks" "k \<in> set js" for k
  proof -
    obtain obj where "object_ok (rm_objects m obj) P k"
      using key_held [OF inv_key [OF inv], of k t] k assms(2) by auto
    then have "fl_owner (rm_objects m obj) = Some t" "fl_owner (rm_objects m obj) = Some u"
      using k assms(2,3) by (simp_all add: object_ok_def)
    then show False using assms(4) by simp
  qed
  then show ?thesis by blast
qed

text \<open>
  C14: No deadlock, whatever overlapping keys the threads ask for and in whatever order they name
  them: as long as a thread is inside \<open>lock(...)\<close>, some thread can take a step that moves it on,
  without waiting for a timeout.
\<close>

theorem no_resource_deadlock:
  assumes "rm_reachable (m, P)" and "P t \<noteq> Idle"
  shows "\<exists>u m' p. rm_step (m, P) u (m', P(u := p)) \<and> p \<noteq> P u \<and> P u \<noteq> Idle \<and> (\<forall>k acq. p \<noteq> TimedOut k acq)"
proof -
  have inv: "rm_inv (m, P)" by (rule reachable_inv [OF assms(1)])
  obtain u where u: "can_go m u (P u)" using some_thread_can_go [OF inv assms(2)] by blast
  then have "P u \<noteq> Idle" by auto
  with can_go_step [OF inv u] show ?thesis by blast
qed

text \<open>
  The bookkeeping is exact: the reference count of a key is the number of threads that hold or
  wait for it; the \<open>finally\<close> block and the timeout branch never raise; and when every thread has
  left, the manager holds no lock and no count, so keys do not accumulate.
\<close>

theorem references_are_returned:
  assumes "rm_reachable (m, P)"
  shows "rm_refs m k = (if users P k = {} then None else Some (int (card (users P k)))) \<and>
    (P t = Releasing (k # ks) \<longrightarrow> release_lock t k m \<noteq> None) \<and>
    (P t = TimedOut k acquired \<longrightarrow> undo_get_lock k m \<noteq> None) \<and>
    ((\<forall>u. P u = Idle) \<longrightarrow> rm_locks m = Map.empty \<and> rm_refs m = Map.empty)"
proof -
  have inv: "rm_inv (m, P)" by (rule reachable_inv [OF assms])
  have refs: "rm_refs m j = (if users P j = {} then None else Some (int (card (users P j))))" for j
    using inv_key [OF inv, of j] by (auto simp: key_ok_def split: option.splits)
  have "rm_locks m j = None" if "\<forall>u. P u = Idle" for j
    using inv_key [OF inv, of j] that by (auto simp: key_ok_def users_def split: option.splits)
  then have "(\<forall>u. P u = Idle) \<longrightarrow> rm_locks m = Map.empty \<and> rm_refs m = Map.empty"
    using refs by (auto simp: users_def fun_eq_iff)
  moreover have "release_lock t k m \<noteq> None" if "P t = Releasing (k # ks)"
    using release_lock_total [OF inv that] by auto
  moreover have "undo_get_lock k m \<noteq> None" if "P t = TimedOut k acquired"
    using undo_total [OF inv that] by auto
  ultimately show ?thesis using refs by blast
qed

text \<open>A thread that asks for one key nobody uses gets in, for the witnesses.\<close>

lemma reach_inside:
  assumes r: "rm_reachable (m, P)" and idle: "P t = Idle" and free: "rm_locks m k = None"
  shows "\<exists>m'. rm_reachable (m', P(t := Inside [k])) \<and> (\<forall>j. j \<noteq> k \<longrightarrow> rm_locks m' j = rm_locks m j)"
proof -
  have keys: "sorted_keys [k] = [k]" by (simp add: sorted_keys_def)
  have s1: "rm_reachable (m, P(t := Loop [k] []))"
    using rm_reachable.Next [OF r rm_step.Enter [of P t m "[k]", OF idle]] by (simp add: keys)
  obtain m1 obj where g: "get_lock k m = (m1, obj)" by fastforce
  have new: "rm_objects m1 obj = new_lock" "\<And>j. j \<noteq> k \<Longrightarrow> rm_locks m1 j = rm_locks m j"
    using g free by (auto simp: get_lock_def Let_def)
  have s2: "rm_reachable (m1, P(t := Asking k obj [] []))"
    using rm_reachable.Next [OF s1 rm_step.Get [of "P(t := Loop [k] [])" t k "[]" "[]" m m1 obj, OF _ g]] by simp
  obtain lk where a: "acquire t True True False (rm_objects m1 obj) = (Acquired, lk)"
    by (simp add: new acquire_def new_lock_def)
  have s3: "rm_reachable (set_object obj lk m1, P(t := Loop [] [k]))"
    using rm_reachable.Next [OF s2 rm_step.Acquire [of "P(t := Asking k obj [] [])" t k obj "[]" "[]", OF _ a]]
    by (simp add: after_acquire_def)
  have "rm_reachable (set_object obj lk m1, P(t := Inside [k]))"
    using rm_reachable.Next [OF s3 rm_step.Yield [of "P(t := Loop [] [k])" t "[k]"]] by simp
  moreover have "rm_locks (set_object obj lk m1) j = rm_locks m j" if "j \<noteq> k" for j
    using new(2) [OF that] by (simp add: set_object_def)
  ultimately show ?thesis by blast
qed

lemma two_inside:
  "\<exists>m P. rm_reachable (m, P) \<and> P (0::nat) = Inside [''a''] \<and> P 1 = Inside [''b'']"
proof -
  obtain m :: "nat manager"
    where m: "rm_reachable (m, (\<lambda>_. Idle)(0 := Inside [''a'']))" "rm_locks m ''b'' = None"
  proof -
    have "(\<lambda>_. Idle) (0::nat) = Idle" "rm_locks new_manager ''a'' = None" by (simp_all add: new_manager_def)
    from reach_inside [OF rm_reachable.Start this] obtain m :: "nat manager"
      where m: "rm_reachable (m, (\<lambda>_. Idle)(0::nat := Inside [''a''])) \<and>
        (\<forall>j. j \<noteq> ''a'' \<longrightarrow> rm_locks m j = rm_locks (new_manager :: nat manager) j)" by (rule exE)
    then have "rm_locks m ''b'' = None" by (simp add: new_manager_def)
    with conjunct1 [OF m] show thesis by (rule that)
  qed
  have "((\<lambda>_. Idle)(0 := Inside [''a''])) (1::nat) = Idle" by simp
  from reach_inside [OF m(1) this m(2)] show ?thesis by fastforce
qed

lemma resource_mutual_exclusion_witness:
  "\<exists>m P. rm_reachable (m, P) \<and> P (0::nat) = Inside [''a''] \<and> P 1 = Inside [''b''] \<and>
     set [''a''] \<inter> set [''b''] = ({} :: string set)"
proof -
  obtain m P where r: "rm_reachable (m, P)" "P (0::nat) = Inside [''a'']" "P 1 = Inside [''b'']"
    using two_inside by blast
  moreover from resource_mutual_exclusion [OF this] have "set [''a''] \<inter> set [''b''] = ({} :: string set)"
    by simp
  ultimately show ?thesis by blast
qed

lemma no_resource_deadlock_witness:
  "\<exists>m (P :: nat \<Rightarrow> phase) u m' p. rm_reachable (m, P) \<and> rm_step (m, P) u (m', P(u := p)) \<and> p \<noteq> P u"
proof -
  obtain m P where r: "rm_reachable (m, P)" "P (0::nat) = Inside [''a'']" using two_inside by blast
  then have "P 0 \<noteq> Idle" by simp
  from no_resource_deadlock [OF r(1) this] r(1) show ?thesis by blast
qed

lemma references_are_returned_witness:
  "\<exists>m (P :: nat \<Rightarrow> phase). rm_reachable (m, P) \<and> rm_refs m ''a'' = Some (int (card (users P ''a'')))"
proof -
  obtain m P where r: "rm_reachable (m, P)" "P (0::nat) = Inside [''a'']" using two_inside by blast
  then have "0 \<in> users P ''a''" by (simp add: users_def)
  then have "users P ''a'' \<noteq> {}" by blast
  with references_are_returned [OF r(1), of "''a''" 0 "[]" "[]"]
  have "rm_refs m ''a'' = Some (int (card (users P ''a'')))" by simp
  with r(1) show ?thesis by blast
qed

end
