(* ===== verification/Spec2Isabelle.thy ===== *)
theory Spec2Isabelle
  imports Conversation_Run Pane_Pool Webhooks Defense Hook_Events Llm_Call Lease Run_Requests Remote_Events Remote_Run Pub_Sub Fn_Call Apply_Patch File_Editor Condensers Stuck Fifo_Lock File_Store Event_Log Resource_Locks
begin

text \<open>
  \<^bold>\<open>The program.\<close> ShuttleFlow packages the OpenHands software agent. Its core is the SDK under
  \<open>src/software-agent-sdk/openhands-sdk/openhands/sdk\<close> (written \<open>sdk/\<close> below): a conversation keeps
  a state and an append-only log of events; each step of the agent turns the log into a view, the
  view into messages for the language model, and the model's answer into new events, running the
  tools it calls. This development models that core and proves what makes it correct.

  \<^bold>\<open>How the parts interact.\<close> The run loop of the conversation calls the agent's step under the
  conversation's FIFO lock. A step first executes the actions no event answers, as a batch on the
  parallel executor, whose tools run under the locks of the resource manager. Otherwise it builds
  the view, lets the condenser shorten it, converts it to messages, calls the model and handles the
  answer: tool calls become action events, are held back for a confirmation or executed. Every
  event goes through the callback to the log, which is files in a file store; every assignment to
  the state is saved with it. Between passes other threads send messages, pause and reject. The tools
  edit files, directly or by patches. The agent server runs conversations for remote clients: it
  owns each one by a lease, turns requests to run into background tasks, serves the log in pages
  and publishes new events to subscribers; the remote conversation keeps a copy of the log and of
  the state and waits there for the end of a run. Hooks are shell commands that see events before they reach
  the log and may reject an action, a message or the end of a run. The terminal tool exports the secrets
  a command mentions to its shell, polls the screen for the command's output and masks the secrets in it. A call
  of a model is retried, measured and, when it keeps failing, passed on to fallback models.

  \<^bold>\<open>Theories, in the order of the code's layers.\<close>
  \<^item> \<open>Prelude\<close>: results as sums (\<open>Inl\<close> the error), Python slices, inserts, splits and strips, decimal
    numbers, the first index of a list; \<open>res_simps\<close> collects the rules of results.
  \<^item> \<open>Risk\<close> (\<open>sdk/security/\<close>): risk levels and their comparison, confirmation policies, analyzers
    that fail closed, the ensemble.
  \<^item> \<open>Truncate\<close> (\<open>sdk/utils/truncate.py\<close>), \<open>Messages\<close> (\<open>sdk/llm/message.py\<close>): truncated tool texts,
    messages and their serialization.
  \<^item> \<open>Events\<close> (\<open>sdk/event/\<close>): the event classes, their texts and their messages, batches of tool calls.
  \<^item> \<open>Views\<close> (\<open>sdk/context/view/\<close>): the view built from a log, the four properties it must have, the loop
    that enforces them, and the indices where it may be cut.
  \<^item> \<open>Condensers\<close> (\<open>sdk/context/condenser/\<close>): when to condense, what to forget, the summary, the hard
    reset and pipelines; the locale \<open>rolling_condenser\<close> is the contract of the three methods a rolling condenser supplies.
  \<^item> \<open>Conv_State\<close> (\<open>sdk/conversation/state.py\<close>): the fields with their autosave, blocks, creation and
    resumption, blocked actions, unmatched actions.
  \<^item> \<open>Stuck\<close> (\<open>stuck_detector.py\<close>), \<open>Fifo_Lock\<close> (\<open>fifo_lock.py\<close>, steps of threads as an inductive
    relation that refines a queue), \<open>Resource_Locks\<close> (\<open>resource_lock_manager.py\<close>, on those locks).
  \<^item> \<open>File_Store\<close> (\<open>sdk/io/\<close>: the cache and the two stores) and \<open>Event_Log\<close>
    (\<open>sdk/conversation/event_store.py\<close>: the log as files, shared by several instances).
  \<^item> \<open>Tool_Calls\<close> (\<open>sdk/agent/utils.py\<close>), \<open>Action_Batch\<close> (\<open>parallel_executor.py\<close> and
    \<open>_ActionBatch\<close> of \<open>sdk/agent/agent.py\<close>), \<open>Agent_Step\<close> (\<open>Agent.step\<close>, \<open>init_state\<close>,
    \<open>response_dispatch.py\<close>), \<open>Conversation_Run\<close> (\<open>conversation/impl/local_conversation.py\<close>).
  \<^item> \<open>Hooks\<close> (\<open>sdk/hooks/\<close>: configuration, matchers, executor, manager) and \<open>Hook_Events\<close>
    (\<open>conversation_hooks.py\<close>: the events that pass through the hooks).
  \<^item> \<open>Llm_Metrics\<close> (\<open>metrics.py\<close>, \<open>telemetry.py\<close>, \<open>llm_registry.py\<close>, \<open>conversation_stats.py\<close>) and
    \<open>Llm_Call\<close> (\<open>completion\<close> and \<open>acompletion\<close> of \<open>llm.py\<close>, the mapped exceptions, the fallback strategy).
  \<^item> \<open>Substitution\<close> (Python's \<open>replace\<close> and \<open>re.sub\<close> over matchers; the locale \<open>cleaning\<close>),
    \<open>Redaction\<close> (\<open>sdk/utils/redact.py\<close>), \<open>Secrets\<close> (\<open>pydantic_secrets.py\<close>, \<open>sdk/secret/\<close>,
    \<open>secret_registry.py\<close>).
  \<^item> \<open>Terminal_Output\<close> (\<open>openhands/tools/terminal/\<close>: \<open>escape_filter.py\<close>, \<open>metadata.py\<close>),
    \<open>Terminal_Session\<close> (\<open>terminal_session.py\<close>, \<open>timeout_policy.py\<close>), \<open>Terminal_Executor\<close> (\<open>impl.py\<close>)
    and \<open>Pane_Pool\<close> (\<open>tmux_pane_pool.py\<close> as steps of threads, and the pooled calls of \<open>impl.py\<close>).
  \<^item> \<open>Regex\<close> (regular expressions as data, with a search that is proved equal to their declarative meaning),
    \<open>Scan_Texts\<close> and \<open>Defense\<close> (\<open>sdk/security/defense_in_depth/\<close>: the scanned texts of an action, their
    normalization, the policy rails, the signatures and both analyzers).
  \<^item> \<open>Fn_Call\<close> (\<open>sdk/llm/mixins/\<close>): tool calls written as text for models without function calling,
    and read back from the model's text.
  \<^item> \<open>Apply_Patch\<close> (\<open>openhands/tools/apply_patch/\<close>), \<open>Disk_Cache\<close>, \<open>Edit_History\<close> and
    \<open>File_Editor\<close> (\<open>openhands/tools/file_editor/\<close>): the patch parser and its application, the bounded
    cache on disk, the undo history on it, the editor's commands and its executor.
  \<^item> \<open>Lease\<close> (\<open>conversation_lease.py\<close> of the agent server), \<open>Run_Requests\<close> (\<open>run\<close>,
    \<open>_run_and_publish\<close> of \<open>event_service.py\<close> as a machine of steps), \<open>Event_Service\<close> (its searches,
    counts and recovery), \<open>Pub_Sub\<close> (\<open>pub_sub.py\<close> and \<open>sdk/utils/async_utils.py\<close>),
    \<open>Webhooks\<close> (\<open>WebhookSubscriber\<close> of \<open>conversation_service.py\<close> as a machine of steps).
  \<^item> \<open>Remote_Events\<close> and \<open>Remote_Run\<close> (\<open>conversation/impl/remote_conversation.py\<close>): the client's
    sorted copy of the log with its reconciliations, its cached state and the blocking run.

  \<^bold>\<open>How code corresponds to definitions.\<close> A class is a record with a prefix per class (\<open>ae_\<close> for
  \<open>ActionEvent\<close>, \<open>cf_\<close> for the state's fields), a tagged union a datatype, a method a function that takes the
  object and returns the updated one. Exceptions are \<open>Inl\<close> values; a program that changes the state
  and may raise has type \<open>prog\<close> (\<open>Action_Batch\<close>), with the state at the point of the exception. Python
  integers are \<open>int\<close> or \<open>nat\<close>, dictionaries association lists in insertion order, sets of ids sets.
  What the program takes from outside is a field of an environment record: the JSON library,
  the file encoding, the model, the tools, the critic, the hooks, the schedule of a thread pool and the
  actions of other threads. Hypotheses on them are named: \<open>writes_ok\<close> (the state can be saved), \<open>schedule_ok\<close> (a
  schedule runs each task once), \<open>policy_valid\<close>, \<open>inj (av_fresh av)\<close> (ids are unique), \<open>thresholds_positive\<close>.

  \<^bold>\<open>What the lemmas show.\<close> The view is well formed for every log and cuts keep it so; a condensation
  forgets one slice, makes progress and answers its request; messages are faithful to the events; the lock is fair
  and excludes, resources do not deadlock, reference counts are exact; the log refines a list for
  several writers and reads back what was written; saving keeps the snapshot current; a batch
  answers each action once, in order, whatever the schedule; a response leaves either answered
  calls or a waiting confirmation; an overflow forces a condensation; the run loop ends. A patch
  replaces the section it names; an edit at a unique place can be undone; the history refines
  bounded stacks; the executor touches only allowed files. An owner that lost its lease cannot write, one that
  renews keeps it; a wanted message gets a run; pages joined are the matching events; a
  client's copy is complete after its handshake; a blocking run ends rightly or by its timeout. A
  tool call written as text is read back as it was. An action that a hook denies is answered and its tool never runs. Costs and
  tokens add up and come back from their differences. Sanitized data and redacted texts hold no secret; the shell reads
  the exported secrets as they are, and no observation shows one; a command with a timeout returns and is reported
  with exactly its output; no terminal query is cut between two chunks; a pane serves one thread at a time. A forced
  deletion of a critical path is confirmed however invisible characters hide it, and the texts that are scanned
  are bounded. Every event given to a webhook waits, is posted, was accepted, or was dropped, and never twice.
  Some theorems record behaviour that differs from what the code says: see the findings
  of the manifest.

  \<^bold>\<open>Bounds and fuel.\<close> The enforcement loop, the token search and the reset attempts terminate by measures and need no
  fuel. \<open>run_loop\<close> has fuel for its passes, \<open>None\<close> meaning that it still runs; \<open>k + 2 * max 1 m + 3\<close>
  passes are enough for an iteration limit \<open>m\<close> once other threads are quiet from pass \<open>k\<close> on.
  \<open>fetch_loop\<close> has one unit per page request: a full read of a log of \<open>n\<close> events needs no more than \<open>n + 1\<close>.
  \<open>wait_loop\<close> has one unit per poll; the turns until the timeout are enough.
  \<open>poll\<close> of the terminal has one unit per reading of the screen: \<open>n + 1\<close> are enough for a timeout of at most \<open>n\<close>
  times the time of a sleep; without a timeout no fuel need be enough (\<open>printing_command_is_polled_forever\<close>).

  \<^bold>\<open>Not modelled.\<close> The asynchronous variants run the same steps and are not repeated, but for the
  handler of a cancelled run and the asynchronous call of a model, which differ. The clients of the model providers
  and the ACP agent are protocols with external services; of the remote conversation the sockets and the
  HTTP requests are parameters. Plugins, skills and prompt templates are loading and rendering, as are the tool
  descriptions of \<open>fn_call_converter.py\<close>. Rich-text output, schema generation and timestamps do not influence the
  modelled behaviour. Of the terminal the tmux and pseudo terminal backends and PowerShell
  are left out; the browser tool drives an external process. The workspaces, the routers of the
  agent server, the rest of its \<open>ConversationService\<close> (worktrees, search, the life of a conversation) and the web application under \<open>src/OpenHands\<close> are not modelled.

  \<^bold>\<open>What remains.\<close> The delegation tools, the task tracker, the migrations of \<open>sdk/settings\<close> and the
  conversations of \<open>ConversationService\<close> are the next candidates: each is code with state or branches of its own and
  needs few parameters beyond those already named.
\<close>

end
